(* ===== verification/Prelude.thy ===== *)
theory Prelude
  imports Main "HOL-Library.Word"
begin

unbundle bit_operations_syntax

text \<open>
  Shared ground of the development: the machine types of
  \<open>tensorflow/core/platform/types.h\<close>, the error codes carried by a \<open>Status\<close>, the
  \<open>CHECK\<close> failures that stop the process, and the lemmas on bytes, lists and words
  that several components use.

  A function that returns a \<open>Status\<close> is modelled by a value of type
  \<open>code + 'a\<close>: \<open>Inl c\<close> is an error with code \<open>c\<close> and \<open>Inr x\<close> is
  \<open>Status::OK()\<close> together with what the function writes through its out-parameters.
  The text of an error message is not modelled.
\<close>

section \<open>Machine types\<close>

type_synonym byte = "8 word"
type_synonym bytes = "byte list"
type_synonym uint8 = "8 word"
type_synonym uint16 = "16 word"
type_synonym uint32 = "32 word"
type_synonym uint64 = "64 word"

section \<open>Status codes\<close>

text \<open>The error codes of \<open>lib/core/error_codes.proto\<close>, without \<open>OK\<close>.\<close>

datatype code =
    CANCELLED | UNKNOWN_ERROR | INVALID_ARGUMENT | DEADLINE_EXCEEDED | NOT_FOUND
  | ALREADY_EXISTS | PERMISSION_DENIED | UNAUTHENTICATED | RESOURCE_EXHAUSTED
  | FAILED_PRECONDITION | ABORTED | OUT_OF_RANGE | UNIMPLEMENTED | INTERNAL
  | UNAVAILABLE | DATA_LOSS

type_synonym 'a status = "code + 'a"

fun bind_status :: "'a status \<Rightarrow> ('a \<Rightarrow> 'b status) \<Rightarrow> 'b status" where
  "bind_status (Inl e) f = Inl e"
| "bind_status (Inr x) f = f x"

lemma bind_status_Inr_iff:
  "bind_status m f = Inr y \<longleftrightarrow> (\<exists>x. m = Inr x \<and> f x = Inr y)"
  by (cases m) auto

section \<open>Collections of rewrite rules\<close>

named_theorems coding_simps
  "round-trip rules of the byte encodings"

section \<open>Lists\<close>

lemma take_append_exact [simp]: "length xs = n \<Longrightarrow> take n (xs @ ys) = xs"
  by simp

lemma drop_append_exact [simp]: "length xs = n \<Longrightarrow> drop n (xs @ ys) = ys"
  by simp

section \<open>Bytes of a word\<close>

text \<open>
  \<open>byte_of i v\<close> is byte number \<open>i\<close> of \<open>v\<close>, counted from the least significant
  one: the C++ expression \<open>(v >> 8*i) & 0xff\<close> stored in a \<open>char\<close>.
\<close>

definition byte_of :: "nat \<Rightarrow> 'a::len word \<Rightarrow> byte" where
  "byte_of i v = ucast (drop_bit (8 * i) v)"

lemma bit_byte_of: "bit (byte_of i v) n \<longleftrightarrow> n < 8 \<and> bit v (8 * i + n)"
  by (auto simp: byte_of_def bit_simps)

named_theorems bit_consts
  "bits of the numerals used as masks"

lemma bit_255 [bit_consts]: "bit (255 :: int) n \<longleftrightarrow> n < 8"
  using bit_mask_iff [where 'a = int, of 8 n] by (simp add: mask_eq_exp_minus_1)

lemma bit_127 [bit_consts]: "bit (127 :: int) n \<longleftrightarrow> n < 7"
  using bit_mask_iff [where 'a = int, of 7 n] by (simp add: mask_eq_exp_minus_1)

lemma bit_128 [bit_consts]: "bit (128 :: int) n \<longleftrightarrow> n = 7"
  using bit_exp_iff [where 'a = int, of 7 n] by auto

lemma ucast_and_255 [simp]: "(ucast (x AND 255) :: byte) = ucast x"
  by (rule bit_word_eqI) (auto simp: bit_consts bit_simps dest: bit_imp_le_length)

lemma unat_exp:
  assumes "m < LENGTH('a::len)"
  shows "unat ((2 :: 'a word) ^ m) = 2 ^ m"
proof -
  have "unat (of_nat (2 ^ m) :: 'a word) = 2 ^ m"
    using assms by (simp only: unat_of_nat) (simp add: power_strict_increasing)
  then show ?thesis by simp
qed

lemma unat_less_exp: "unat (v :: 'a::len word) < 2 ^ LENGTH('a)"
  by (rule unsigned_less)

lemma unat_ucast_up:
  assumes "LENGTH('a::len) \<le> LENGTH('b::len)"
  shows "unat (ucast (v :: 'a word) :: 'b word) = unat v"
proof -
  have "unat v < 2 ^ LENGTH('b)"
    using assms by (rule order.strict_trans2 [OF unat_less_exp power_increasing]) simp
  then show ?thesis by (simp add: unsigned_ucast_eq take_bit_nat_eq_self)
qed

lemma ucast_up_down:
  assumes "LENGTH('a::len) \<le> LENGTH('b::len)"
  shows "ucast (ucast (v :: 'a word) :: 'b word) = v"
  using assms by (auto intro!: bit_word_eqI simp: bit_simps)

lemma bit_unat_less_exp:
  assumes "unat (v :: 'a::len word) < 2 ^ m" and "bit v n"
  shows "n < m"
proof -
  have "take_bit m (unat v) = unat v" using assms(1) by (simp add: take_bit_nat_eq_self)
  moreover have "bit (unat v) n" using assms(2) by (simp add: bit_unsigned_iff)
  ultimately show ?thesis by (metis bit_take_bit_iff)
qed

lemma bit_less_exp:
  assumes "(v :: 'a::len word) < 2 ^ m" and "bit v n" and "m < LENGTH('a)"
  shows "n < m"
  using assms by (auto simp: word_less_nat_alt unat_exp intro: bit_unat_less_exp)

lemma ucast_drop_bit_less:
  assumes "unat (v :: 'a::len word) < 2 ^ LENGTH('b::len)"
  shows "(ucast (drop_bit n v) :: 'b word) = drop_bit n (ucast v)"
  using bit_unat_less_exp [OF assms] by (auto intro!: bit_word_eqI simp: bit_simps)

lemma unat_drop_bit_div: "unat (drop_bit n (v :: 'a::len word)) = unat v div 2 ^ n"
  by (simp add: unat_drop_bit_eq) (simp add: drop_bit_eq_div)

section \<open>Leading zeros\<close>

text \<open>\<open>__builtin_clzll\<close>: the number of leading zero bits of a 64-bit value.\<close>

definition builtin_clzll :: "nat \<Rightarrow> nat" where
  "builtin_clzll n = length (takeWhile (\<lambda>i. \<not> bit n (63 - i)) [0..<64])"

lemma xor_63: "k < 64 \<Longrightarrow> (63 :: nat) XOR (63 - k) = k"
proof -
  have "\<forall>k\<in>set [0..<64]. (63 :: nat) XOR (63 - k) = k" by code_simp
  then show "k < 64 \<Longrightarrow> ?thesis" by auto
qed

lemma bit_top:
  fixes n :: nat
  assumes "2 ^ k \<le> n" "n < 2 ^ (k + 1)"
  shows "bit n k" and "k < j \<Longrightarrow> \<not> bit n j"
proof -
  have "n div 2 ^ k = 1"
    using assms by (intro div_nat_eqI) (auto simp: mult.commute)
  then show "bit n k" by (simp add: bit_iff_odd)
  assume "k < j"
  then have "(2::nat) ^ (k + 1) \<le> 2 ^ j" by (intro power_increasing) auto
  then have "n < 2 ^ j" using assms(2) by linarith
  then show "\<not> bit n j" by (simp add: bit_iff_odd)
qed

lemma clzll_eq:
  assumes "2 ^ k \<le> n" "n < 2 ^ (k + 1)" "k < 64"
  shows "63 XOR builtin_clzll n = k"
proof -
  have "takeWhile (\<lambda>i. \<not> bit n (63 - i)) [0..<64] = take (63 - k) [0..<64]"
    using assms bit_top [OF assms(1,2)] by (intro takeWhile_eq_take_P_nth) auto
  then show ?thesis using assms(3) by (simp add: builtin_clzll_def xor_63)
qed

lemma floor_log2_ex: "0 < (n :: nat) \<Longrightarrow> \<exists>k. 2 ^ k \<le> n \<and> n < 2 ^ (k + 1)"
  using ex_power_ivl1 [of 2 n] by auto

section \<open>Signed 64-bit arithmetic\<close>

text \<open>An \<open>int64\<close> is an integer; where a result may leave the range, it is wrapped around.\<close>

definition wrap64 :: "int \<Rightarrow> int" where
  "wrap64 k = signed_take_bit 63 k"

lemma wrap64_mod: "wrap64 k = (k + 2 ^ 63) mod 2 ^ 64 - 2 ^ 63"
  by (simp add: wrap64_def signed_take_bit_eq_take_bit_shift take_bit_eq_mod)

lemma wrap64_id: "- (2 ^ 63) \<le> k \<Longrightarrow> k < 2 ^ 63 \<Longrightarrow> wrap64 k = k"
  by (simp add: wrap64_mod)

lemma wrap64_bound: "- (2 ^ 63) \<le> wrap64 k" "wrap64 k < 2 ^ 63"
  using pos_mod_bound [of "2 ^ 64" "k + 2 ^ 63"] pos_mod_sign [of "2 ^ 64" "k + 2 ^ 63"] by (simp_all add: wrap64_mod)

end
