(* ===== verification/Coding.thy ===== *)
theory Coding
  imports Prelude
begin

text \<open>
  Fixed-width and variable-width integer encodings: \<open>lib/core/coding.cc\<close>,
  \<open>lib/core/coding.h\<close> and \<open>lib/core/raw_coding.h\<close>.

  A destination buffer is the list of bytes written to it; a source range \<open>[p, limit)\<close>
  is the list of bytes from \<open>p\<close> on, and a returned pointer is the list that remains.
  \<open>NULL\<close> is \<open>None\<close>.
\<close>

section \<open>Fixed-width integers\<close>

definition kLittleEndian :: bool where
  "kLittleEndian = True"

text \<open>
  \<open>memcpy_from n v\<close> is the memory image of the \<open>n\<close>-byte object \<open>v\<close> on a
  little-endian machine, the only one on which the \<open>memcpy\<close> branches are compiled in.
\<close>

definition memcpy_from :: "nat \<Rightarrow> 'a::len word \<Rightarrow> bytes" where
  "memcpy_from n v = map (\<lambda>i. byte_of i v) [0..<n]"

fun memcpy_to :: "bytes \<Rightarrow> 'a::len word" where
  "memcpy_to [] = 0"
| "memcpy_to (b # bs) = ucast b OR push_bit 8 (memcpy_to bs)"

definition EncodeFixed16 :: "bool \<Rightarrow> uint16 \<Rightarrow> bytes" where
  "EncodeFixed16 le v = (if le then memcpy_from 2 v else
     [ucast (v AND 0xff), ucast (drop_bit 8 v AND 0xff)])"

definition EncodeFixed32 :: "bool \<Rightarrow> uint32 \<Rightarrow> bytes" where
  "EncodeFixed32 le v = (if le then memcpy_from 4 v else
     [ucast (v AND 0xff), ucast (drop_bit 8 v AND 0xff),
      ucast (drop_bit 16 v AND 0xff), ucast (drop_bit 24 v AND 0xff)])"

definition EncodeFixed64 :: "bool \<Rightarrow> uint64 \<Rightarrow> bytes" where
  "EncodeFixed64 le v = (if le then memcpy_from 8 v else
     [ucast (v AND 0xff), ucast (drop_bit 8 v AND 0xff),
      ucast (drop_bit 16 v AND 0xff), ucast (drop_bit 24 v AND 0xff),
      ucast (drop_bit 32 v AND 0xff), ucast (drop_bit 40 v AND 0xff),
      ucast (drop_bit 48 v AND 0xff), ucast (drop_bit 56 v AND 0xff)])"

definition PutFixed16 :: "bytes \<Rightarrow> uint16 \<Rightarrow> bytes" where
  "PutFixed16 dst v = dst @ EncodeFixed16 kLittleEndian v"

definition PutFixed32 :: "bytes \<Rightarrow> uint32 \<Rightarrow> bytes" where
  "PutFixed32 dst v = dst @ EncodeFixed32 kLittleEndian v"

definition PutFixed64 :: "bytes \<Rightarrow> uint64 \<Rightarrow> bytes" where
  "PutFixed64 dst v = dst @ EncodeFixed64 kLittleEndian v"

text \<open>
  The decoders read without any bounds check. A read past the end of the modelled bytes
  is undefined behaviour; every caller in the development establishes the length first.
\<close>

definition DecodeFixed16 :: "bool \<Rightarrow> bytes \<Rightarrow> uint16" where
  "DecodeFixed16 le p = (if le then memcpy_to (take 2 p) else
     ucast (p ! 0) OR push_bit 8 (ucast (p ! 1)))"

definition DecodeFixed32 :: "bool \<Rightarrow> bytes \<Rightarrow> uint32" where
  "DecodeFixed32 le p = (if le then memcpy_to (take 4 p) else
     ucast (p ! 0) OR push_bit 8 (ucast (p ! 1)) OR
     push_bit 16 (ucast (p ! 2)) OR push_bit 24 (ucast (p ! 3)))"

definition DecodeFixed64 :: "bool \<Rightarrow> bytes \<Rightarrow> uint64" where
  "DecodeFixed64 le p = (if le then memcpy_to (take 8 p) else
     (let lo = ucast (DecodeFixed32 le p) :: uint64;
          hi = ucast (DecodeFixed32 le (drop 4 p)) :: uint64
      in push_bit 32 hi OR lo))"

section \<open>Variable-width integers\<close>

definition EncodeVarint32 :: "uint32 \<Rightarrow> bytes" where
  "EncodeVarint32 v =
     (if v < 2 ^ 7 then [ucast v]
      else if v < 2 ^ 14 then [ucast (v OR 128), ucast (drop_bit 7 v)]
      else if v < 2 ^ 21 then
        [ucast (v OR 128), ucast (drop_bit 7 v OR 128), ucast (drop_bit 14 v)]
      else if v < 2 ^ 28 then
        [ucast (v OR 128), ucast (drop_bit 7 v OR 128), ucast (drop_bit 14 v OR 128),
         ucast (drop_bit 21 v)]
      else
        [ucast (v OR 128), ucast (drop_bit 7 v OR 128), ucast (drop_bit 14 v OR 128),
         ucast (drop_bit 21 v OR 128), ucast (drop_bit 28 v)])"

definition PutVarint32 :: "bytes \<Rightarrow> uint32 \<Rightarrow> bytes" where
  "PutVarint32 dst v = dst @ EncodeVarint32 v"

lemma drop_bit_7_less: "128 \<le> (v :: uint64) \<Longrightarrow> unat (drop_bit 7 v) < unat v"
  by (simp add: unat_drop_bit_div word_le_nat_alt)

function EncodeVarint64 :: "uint64 \<Rightarrow> bytes" where
  "EncodeVarint64 v =
     (if v \<ge> 128 then ucast ((v AND (128 - 1)) OR 128) # EncodeVarint64 (drop_bit 7 v)
      else [ucast v])"
  by pat_completeness auto
termination
  by (relation "measure unat") (auto intro: drop_bit_7_less)

definition PutVarint64 :: "bytes \<Rightarrow> uint64 \<Rightarrow> bytes" where
  "PutVarint64 dst v = dst @ EncodeVarint64 v"

function VarintLength_loop :: "uint64 \<Rightarrow> nat \<Rightarrow> nat" where
  "VarintLength_loop v len =
     (if v \<ge> 128 then VarintLength_loop (drop_bit 7 v) (len + 1) else len)"
  by pat_completeness auto
termination
  by (relation "measure (unat \<circ> fst)") (auto intro: drop_bit_7_less)

definition VarintLength :: "uint64 \<Rightarrow> nat" where
  "VarintLength v = VarintLength_loop v 1"

declare EncodeVarint64.simps [simp del] VarintLength_loop.simps [simp del]

text \<open>
  The two decoders run the same loop at their own width: \<open>last_shift\<close> is the bound of
  the \<open>for\<close> loop, 28 for 32 bits and 63 for 64 bits.
\<close>

fun GetVarint_loop :: "nat \<Rightarrow> nat \<Rightarrow> 'a::len word \<Rightarrow> bytes \<Rightarrow> ('a word \<times> bytes) option" where
  "GetVarint_loop last_shift shift result [] = None"
| "GetVarint_loop last_shift shift result (b # p) =
     (if shift \<le> last_shift then
        (if b AND 128 \<noteq> 0
         then GetVarint_loop last_shift (shift + 7)
                (result OR push_bit shift (ucast b AND 127)) p
         else Some (result OR push_bit shift (ucast b), p))
      else None)"

definition GetVarint32PtrFallback :: "bytes \<Rightarrow> (uint32 \<times> bytes) option" where
  "GetVarint32PtrFallback p = GetVarint_loop 28 0 0 p"

definition GetVarint32Ptr :: "bytes \<Rightarrow> (uint32 \<times> bytes) option" where
  "GetVarint32Ptr p =
     (case p of
        b # q \<Rightarrow> if b AND 128 = 0 then Some (ucast b, q) else GetVarint32PtrFallback p
      | [] \<Rightarrow> GetVarint32PtrFallback p)"

definition GetVarint64Ptr :: "bytes \<Rightarrow> (uint64 \<times> bytes) option" where
  "GetVarint64Ptr p = GetVarint_loop 63 0 0 p"

text \<open>
  \<open>GetVarint32\<close> and \<open>GetVarint64\<close> advance \<open>*input\<close> on success and leave it alone
  on failure; the result is whether they succeeded, the value and the new \<open>*input\<close>.
\<close>

definition GetVarint32 :: "bytes \<Rightarrow> (uint32 \<times> bytes) option" where
  "GetVarint32 input = (case GetVarint32Ptr input of None \<Rightarrow> None | Some (v, q) \<Rightarrow> Some (v, q))"

definition GetVarint64 :: "bytes \<Rightarrow> (uint64 \<times> bytes) option" where
  "GetVarint64 input = (case GetVarint64Ptr input of None \<Rightarrow> None | Some (v, q) \<Rightarrow> Some (v, q))"

section \<open>The codec interface\<close>

text \<open>
  What the writers of blocks, tables and record files rely on: an encoder that appends
  the bytes of a value and a decoder that reads them back and leaves the rest.
\<close>

locale codec =
  fixes put :: "'v \<Rightarrow> bytes" and get :: "bytes \<Rightarrow> ('v \<times> bytes) option"
  assumes get_put: "get (put v @ rest) = Some (v, rest)"
begin

lemma put_prefix_free: "put v @ r = put w @ s \<Longrightarrow> v = w \<and> r = s"
  by (metis get_put option.inject prod.inject)

lemma put_inj: "put v = put w \<longleftrightarrow> v = w"
  using put_prefix_free [of v "[]" w "[]"] by auto

text \<open>A sequence of values written one after the other is read back in order.\<close>

fun get_list :: "nat \<Rightarrow> bytes \<Rightarrow> ('v list \<times> bytes) option" where
  "get_list 0 p = Some ([], p)"
| "get_list (Suc n) p =
     (case get p of None \<Rightarrow> None
      | Some (v, q) \<Rightarrow> map_option (\<lambda>(vs, r). (v # vs, r)) (get_list n q))"

lemma get_list_put: "get_list (length vs) (concat (map put vs) @ rest) = Some (vs, rest)"
  by (induction vs) (simp_all add: get_put)

end

section \<open>Fixed-width integers: proofs\<close>

lemma length_memcpy_from [simp]: "length (memcpy_from n v) = n"
  by (simp add: memcpy_from_def)

lemma bit_memcpy_to:
  "bit (memcpy_to bs :: 'a::len word) n \<longleftrightarrow>
     n < LENGTH('a) \<and> n div 8 < length bs \<and> bit (bs ! (n div 8)) (n mod 8)"
proof (induction bs arbitrary: n)
  case Nil
  then show ?case by simp
next
  case (Cons b bs)
  show ?case
  proof (cases "n < 8")
    case True
    then show ?thesis by (auto simp: bit_simps)
  next
    case False
    then have n: "n div 8 = Suc ((n - 8) div 8)" "n mod 8 = (n - 8) mod 8"
      by (simp_all add: div_if mod_if)
    have "\<not> bit b n" using False by (auto dest: bit_imp_le_length)
    then show ?thesis using False Cons.IH [of "n - 8"] by (auto simp: bit_simps n)
  qed
qed

lemma memcpy_roundtrip:
  assumes "LENGTH('a::len) = 8 * n"
  shows "memcpy_to (memcpy_from n (v :: 'a word)) = v"
proof (rule bit_word_eqI)
  fix k assume "k < LENGTH('a)"
  then show "bit (memcpy_to (memcpy_from n v) :: 'a word) k \<longleftrightarrow> bit v k"
    using assms by (simp add: bit_memcpy_to memcpy_from_def bit_byte_of less_mult_imp_div_less)
qed

lemma EncodeFixed16_eq: "EncodeFixed16 le v = memcpy_from 2 v"
  by (auto simp: EncodeFixed16_def memcpy_from_def byte_of_def upt_rec)

lemma EncodeFixed32_eq: "EncodeFixed32 le v = memcpy_from 4 v"
  by (auto simp: EncodeFixed32_def memcpy_from_def byte_of_def upt_rec)

lemma EncodeFixed64_eq: "EncodeFixed64 le v = memcpy_from 8 v"
  by (auto simp: EncodeFixed64_def memcpy_from_def byte_of_def upt_rec)

text \<open>On a big-endian machine the decoders assemble the same word byte by byte.\<close>

lemma DecodeFixed16_eq: "2 \<le> length p \<Longrightarrow> DecodeFixed16 le p = memcpy_to (take 2 p)"
  by (cases p; cases "tl p") (auto simp: DecodeFixed16_def numeral_2_eq_2)

lemma take_4: "4 \<le> length p \<Longrightarrow> take 4 p = [p ! 0, p ! 1, p ! 2, p ! 3]"
  by (rule nth_equalityI) (auto simp: less_Suc_eq numeral_eq_Suc nth_Cons')

lemma DecodeFixed32_eq:
  assumes "4 \<le> length p"
  shows "DecodeFixed32 le p = memcpy_to (take 4 p)"
  by (cases le) (simp_all add: DecodeFixed32_def take_4 [OF assms] push_bit_or)

lemma memcpy_to_append:
  "(memcpy_to (xs @ ys) :: 'a::len word) = memcpy_to xs OR push_bit (8 * length xs) (memcpy_to ys)"
  by (induction xs) (simp_all add: push_bit_or or.assoc add.commute)

lemma ucast_memcpy_to:
  assumes "8 * length bs \<le> LENGTH('a::len)" and "8 * length bs \<le> LENGTH('b::len)"
  shows "ucast (memcpy_to bs :: 'a word) = (memcpy_to bs :: 'b word)"
  using assms by (auto intro!: bit_word_eqI simp: bit_simps bit_memcpy_to)

lemma DecodeFixed64_eq:
  assumes "8 \<le> length p"
  shows "DecodeFixed64 le p = memcpy_to (take 8 p)"
proof -
  have "take 8 p = take 4 p @ take 4 (drop 4 p)"
    by (simp flip: take_add)
  then show ?thesis
    using assms by (simp add: DecodeFixed64_def DecodeFixed32_eq Let_def memcpy_to_append
        ucast_memcpy_to or.commute)
qed

lemma length_EncodeFixed [simp]:
  "length (EncodeFixed16 le v16) = 2" "length (EncodeFixed32 le v32) = 4"
  "length (EncodeFixed64 le v64) = 8"
  by (simp_all add: EncodeFixed16_eq EncodeFixed32_eq EncodeFixed64_eq)

lemma DecodeFixed16_Encode [simp, coding_simps]:
  "DecodeFixed16 le (EncodeFixed16 le' v @ rest) = v"
  by (simp add: DecodeFixed16_eq EncodeFixed16_eq memcpy_roundtrip)

lemma DecodeFixed32_Encode [simp, coding_simps]:
  "DecodeFixed32 le (EncodeFixed32 le' v @ rest) = v"
  by (simp add: DecodeFixed32_eq EncodeFixed32_eq memcpy_roundtrip)

lemma DecodeFixed64_Encode [simp, coding_simps]:
  "DecodeFixed64 le (EncodeFixed64 le' v @ rest) = v"
  by (simp add: DecodeFixed64_eq EncodeFixed64_eq memcpy_roundtrip)

section \<open>Variable-width integers: proofs\<close>

lemma varint_low_bits: "(v :: 'a::len word) = (v AND 127) OR push_bit 7 (drop_bit 7 v)"
proof (rule bit_word_eqI)
  fix n assume "n < LENGTH('a)"
  then show "bit v n \<longleftrightarrow> bit ((v AND 127) OR push_bit 7 (drop_bit 7 v)) n"
    by (cases "n < 7") (auto simp: bit_consts bit_simps)
qed

lemma push_varint_low_bits:
  "push_bit s (v :: 'a::len word) = push_bit s (v AND 127) OR push_bit (s + 7) (drop_bit 7 v)"
  by (subst varint_low_bits) (simp add: push_bit_or add.commute)

lemma byte_and_128: "(b :: byte) AND 128 = 0 \<longleftrightarrow> \<not> bit b 7"
proof
  assume "b AND 128 = 0"
  then have "\<not> bit (b AND 128) 7" by simp
  then show "\<not> bit b 7" by (simp add: bit_simps bit_consts)
next
  assume "\<not> bit b 7"
  then show "b AND 128 = 0" by (auto intro!: bit_word_eqI simp: bit_simps bit_consts)
qed

text \<open>A byte of the encoding: the continuation bit, and what the decoder takes from it.\<close>

lemma varint_more_byte:
  assumes "8 \<le> LENGTH('a::len)"
  shows "(ucast ((v AND 127) OR 128 :: uint64) :: byte) AND 128 \<noteq> 0"
    and "(ucast (ucast ((v AND 127) OR 128 :: uint64) :: byte) AND 127 :: 'a word) = ucast v AND 127"
  using assms
  by (auto intro!: bit_word_eqI simp: byte_and_128 bit_consts bit_simps)

lemma varint_last_byte:
  assumes "v < (128 :: uint64)" and "8 \<le> LENGTH('a::len)"
  shows "(ucast v :: byte) AND 128 = 0" and "(ucast (ucast v :: byte) :: 'a word) = ucast v"
  using assms bit_less_exp [of v 7]
  by (auto intro!: bit_word_eqI simp: byte_and_128 bit_simps; force)+

text \<open>
  The heart of the round trip: whatever has been collected so far, the loop reads one
  encoded value and adds its bits at the current shift. Both loops count in steps of 7.
\<close>

lemma GetVarint_loop_Encode:
  assumes "8 \<le> LENGTH('a::len)" and "LENGTH('a) \<le> 64"
    and "unat w < 2 ^ LENGTH('a)"
    and "k \<le> m" and "unat w < 2 ^ (7 * (m + 1 - k))"
  shows "GetVarint_loop (7 * m) (7 * k) (result :: 'a word) (EncodeVarint64 w @ rest) =
    Some (result OR push_bit (7 * k) (ucast w), rest)"
  using assms(3-)
proof (induction w arbitrary: k result rule: EncodeVarint64.induct)
  case (1 w)
  show ?case
  proof (cases "w \<ge> 128")
    case False
    then have "w < 128" by simp
    then show ?thesis
      using False 1(3) varint_last_byte [OF \<open>w < 128\<close> assms(1)]
      by (subst EncodeVarint64.simps) simp
  next
    case True
    have "(128 :: nat) \<le> unat w" using True by (simp add: word_le_nat_alt)
    with 1(4) have "(2 :: nat) ^ 7 < 2 ^ (7 * (m + 1 - k))" by simp
    then have "7 < 7 * (m + 1 - k)" by (rule power_less_imp_less_exp [rotated]) simp
    then have k: "Suc k \<le> m" by simp
    then have "7 * (m + 1 - k) = 7 + 7 * (m + 1 - Suc k)" by simp
    then have "(2 :: nat) ^ (7 * (m + 1 - k)) = 2 ^ (7 * (m + 1 - Suc k)) * 2 ^ 7"
      by (simp only: power_add mult.commute)
    with 1(4) have b: "unat (drop_bit 7 w) < 2 ^ (7 * (m + 1 - Suc k))"
      unfolding unat_drop_bit_div by (intro less_mult_imp_div_less) (simp only:)
    have "unat (drop_bit 7 w) < 2 ^ LENGTH('a)"
      using 1(2) by (simp add: unat_drop_bit_div less_mult_imp_div_less)
    with 1(1) [OF True _ k b] k True varint_more_byte [OF assms(1), of w]
    have "GetVarint_loop (7 * m) (7 * k) result (EncodeVarint64 w @ rest) =
        Some (result OR push_bit (7 * k) (ucast w AND 127)
              OR push_bit (7 * Suc k) (ucast (drop_bit 7 w)), rest)"
      by (subst EncodeVarint64.simps) (simp add: or.assoc add.commute)
    then show ?thesis
      unfolding push_varint_low_bits [of "7 * k" "ucast w :: 'a word"]
        ucast_drop_bit_less [OF 1(2)]
      by (simp only: or.assoc mult_Suc_right add.commute)
  qed
qed

lemma GetVarint64_Encode [simp, coding_simps]:
  "GetVarint64 (EncodeVarint64 v @ rest) = Some (v, rest)"
  using GetVarint_loop_Encode [where 'a = 64, of v 0 9 0 rest] unat_less_exp [of v]
  by (simp add: GetVarint64_def GetVarint64Ptr_def)

text \<open>The unrolled 32-bit encoder agrees with the 64-bit loop.\<close>

lemma EncodeVarint64_step:
  "EncodeVarint64 (ucast (v :: uint32)) =
     (if v < 128 then [ucast v] else ucast (v OR 128) # EncodeVarint64 (ucast (drop_bit 7 v)))"
proof -
  have "(ucast v :: uint64) < 128 \<longleftrightarrow> v < 128"
    by (simp add: word_less_nat_alt unat_ucast_up)
  moreover have "drop_bit 7 (ucast v :: uint64) = ucast (drop_bit 7 v)"
    by (rule bit_word_eqI) (use bit_imp_le_length [of v] in \<open>fastforce simp: bit_simps\<close>)
  moreover have "(ucast ((ucast v :: uint64) AND 127 OR 128) :: byte) = ucast (v OR 128)"
    by (rule bit_word_eqI) (auto simp: bit_simps bit_consts)
  moreover have "(ucast (ucast v :: uint64) :: byte) = ucast v"
    by (rule bit_word_eqI) (auto simp: bit_simps)
  ultimately show ?thesis by (subst EncodeVarint64.simps) (auto simp: not_less)
qed

lemma drop_bit_less_128:
  assumes "n + 7 < 32"
  shows "drop_bit n (v :: uint32) < 128 \<longleftrightarrow> v < 2 ^ (n + 7)"
proof -
  have "unat v < 2 ^ n * 2 ^ 7 \<longleftrightarrow> unat v < unat ((2 :: uint32) ^ (n + 7))"
    using assms by (subst unat_exp) (simp_all add: power_add)
  then show ?thesis
    by (simp add: word_less_nat_alt unat_drop_bit_div div_less_iff_less_mult mult.commute)
qed

lemma drop_bit_28_less: "drop_bit 28 (v :: uint32) < 128"
  using unat_less_exp [of v]
  by (simp add: word_less_nat_alt unat_drop_bit_div div_less_iff_less_mult)

lemma EncodeVarint32_eq: "EncodeVarint32 v = EncodeVarint64 (ucast v)"
  by (simp add: EncodeVarint32_def EncodeVarint64_step drop_bit_less_128 drop_bit_28_less)

lemma GetVarint32PtrFallback_Encode:
  "GetVarint32PtrFallback (EncodeVarint32 v @ rest) = Some (v, rest)"
  using GetVarint_loop_Encode [where 'a = 32, of "ucast v" 0 4 0 rest] unat_less_exp [of v]
  by (simp add: GetVarint32PtrFallback_def EncodeVarint32_eq unat_ucast_up ucast_up_down)

text \<open>The one-byte fast path of \<open>GetVarint32Ptr\<close> changes nothing.\<close>

lemma GetVarint32Ptr_eq: "GetVarint32Ptr p = GetVarint32PtrFallback p"
  by (auto simp: GetVarint32Ptr_def GetVarint32PtrFallback_def split: list.splits)

lemma GetVarint32Ptr_Encode [simp, coding_simps]:
  "GetVarint32Ptr (EncodeVarint32 v @ rest) = Some (v, rest)"
  by (simp add: GetVarint32Ptr_eq GetVarint32PtrFallback_Encode)

lemma GetVarint32_Encode [simp, coding_simps]:
  "GetVarint32 (EncodeVarint32 v @ rest) = Some (v, rest)"
  by (simp add: GetVarint32_def)

interpretation varint32: codec EncodeVarint32 GetVarint32
  by unfold_locales simp

interpretation varint64: codec EncodeVarint64 GetVarint64
  by unfold_locales simp

text \<open>
  Lengths: \<open>VarintLength\<close> is the number of bytes the loop writes, and the local buffers
  of \<open>PutVarint32\<close> (5 bytes) and \<open>PutVarint64\<close> (10 bytes) are large enough.
\<close>

lemma VarintLength_loop_eq: "VarintLength_loop v n + 1 = length (EncodeVarint64 v) + n"
  by (induction v n rule: VarintLength_loop.induct)
    (subst VarintLength_loop.simps, subst EncodeVarint64.simps, simp)

lemma length_EncodeVarint64_bound:
  "unat v < 2 ^ (7 * Suc n) \<Longrightarrow> length (EncodeVarint64 v) \<le> Suc n"
proof (induction n arbitrary: v)
  case 0
  then have "v < 128" by (simp add: word_less_nat_alt)
  then show ?case by (subst EncodeVarint64.simps) auto
next
  case (Suc n)
  have "unat (drop_bit 7 v) < 2 ^ (7 * Suc n)"
    unfolding unat_drop_bit_div
    using Suc.prems by (intro less_mult_imp_div_less) (simp add: power_add)
  with Suc.IH [of "drop_bit 7 v"] show ?case by (subst EncodeVarint64.simps) simp
qed

lemma length_EncodeVarint64 [simp]: "length (EncodeVarint64 v) = VarintLength v"
  using VarintLength_loop_eq [of v 1] by (simp add: VarintLength_def)

lemma VarintLength_le_10: "VarintLength v \<le> 10"
  using length_EncodeVarint64_bound [of v 9] unat_less_exp [of v] by simp

lemma VarintLength_pos: "0 < VarintLength v"
  by (metis length_EncodeVarint64 EncodeVarint64.simps length_greater_0_conv list.distinct(1))

lemma length_EncodeVarint32_le_5: "length (EncodeVarint32 v) \<le> 5"
  by (simp add: EncodeVarint32_def)

text \<open>A truncated encoding is rejected: every byte but the last asks for more.\<close>

lemma EncodeVarint64_continues:
  "b \<in> set (butlast (EncodeVarint64 v)) \<Longrightarrow> b AND 128 \<noteq> 0"
proof (induction v rule: EncodeVarint64.induct)
  case (1 v)
  show ?case
  proof (cases "v \<ge> 128")
    case True
    with 1 show ?thesis
      using varint_more_byte(1) [where 'a = 64, of v]
      by (subst (asm) (2) EncodeVarint64.simps) (auto split: if_splits)
  next
    case False
    with 1(2) show ?thesis by (subst (asm) EncodeVarint64.simps) simp
  qed
qed

lemma GetVarint_loop_incomplete:
  "(\<And>b. b \<in> set p \<Longrightarrow> b AND 128 \<noteq> 0) \<Longrightarrow> GetVarint_loop m k r p = None"
  by (induction p arbitrary: k r) auto

lemma take_EncodeVarint64_continues:
  assumes "n < length (EncodeVarint64 v)" and "b \<in> set (take n (EncodeVarint64 v))"
  shows "b AND 128 \<noteq> 0"
  using assms EncodeVarint64_continues [of b v]
  by (metis in_set_takeD le_less_Suc_eq length_butlast set_take_subset_set_take
      subsetD take_butlast take_all_iff not_less_eq_eq Suc_pred diff_Suc_1)

section \<open>Properties\<close>

text \<open>
  Reading back a varint that \<open>PutVarint64\<close> or \<open>PutVarint32\<close> appended to any buffer
  gives the value and leaves exactly the bytes that follow it, and the unrolled 32-bit
  encoder writes the same bytes as the 64-bit loop.
\<close>

theorem varint_roundtrip:
  "GetVarint64 (drop (length dst) (PutVarint64 dst v) @ rest) = Some (v, rest) \<and>
   GetVarint32 (drop (length dst) (PutVarint32 dst w) @ rest) = Some (w, rest) \<and>
   PutVarint32 dst w = PutVarint64 dst (ucast w)"
  by (simp add: PutVarint32_def PutVarint64_def EncodeVarint32_eq flip: GetVarint32_Encode)

text \<open>
  \<open>VarintLength\<close> is the number of bytes \<open>EncodeVarint64\<close> writes, which never
  exceeds the 10-byte buffer of \<open>PutVarint64\<close>; \<open>EncodeVarint32\<close> stays within the
  5-byte buffer of \<open>PutVarint32\<close>.
\<close>

theorem varint_length:
  "length (EncodeVarint64 v) = VarintLength v \<and> VarintLength v \<le> 10 \<and>
   length (EncodeVarint32 w) = VarintLength (ucast w) \<and> length (EncodeVarint32 w) \<le> 5"
  using VarintLength_le_10 length_EncodeVarint32_le_5 [of w] by (simp add: EncodeVarint32_eq)

text \<open>
  A varint cut short at any point is rejected by both decoders.
\<close>

theorem varint_truncated:
  assumes "n < VarintLength v"
  shows "GetVarint64 (take n (EncodeVarint64 v)) = None \<and>
    GetVarint32 (take n (EncodeVarint64 v)) = None"
  using assms take_EncodeVarint64_continues [of n v]
  by (simp add: GetVarint64_def GetVarint64Ptr_def GetVarint32_def GetVarint32Ptr_eq
      GetVarint32PtrFallback_def GetVarint_loop_incomplete)

theorem varint_truncated_witness:
  "GetVarint64 (take 1 (EncodeVarint64 300)) = None"
proof -
  have "VarintLength 300 = 2"
    by (simp add: VarintLength_def VarintLength_loop.simps)
  then show ?thesis using varint_truncated [of 1 300] by simp
qed

text \<open>
  The fixed-width encoders write the same bytes whether they copy memory or shift
  bytes out, occupy exactly the width of the type, and the decoders recover the value
  from the front of any buffer on either path.
\<close>

theorem fixed_roundtrip:
  "EncodeFixed16 le v16 = EncodeFixed16 le' v16 \<and> length (EncodeFixed16 le v16) = 2 \<and>
   DecodeFixed16 le (EncodeFixed16 le' v16 @ rest) = v16 \<and>
   EncodeFixed32 le v32 = EncodeFixed32 le' v32 \<and> length (EncodeFixed32 le v32) = 4 \<and>
   DecodeFixed32 le (EncodeFixed32 le' v32 @ rest) = v32 \<and>
   EncodeFixed64 le v64 = EncodeFixed64 le' v64 \<and> length (EncodeFixed64 le v64) = 8 \<and>
   DecodeFixed64 le (EncodeFixed64 le' v64 @ rest) = v64"
  by (intro conjI DecodeFixed16_Encode DecodeFixed32_Encode DecodeFixed64_Encode)
    (simp_all add: EncodeFixed16_eq EncodeFixed32_eq EncodeFixed64_eq)

end
