(* ===== verification/Record_IO.thy ===== *)
theory Record_IO
  imports Crc32c
begin

text \<open>
  TFRecord files: \<open>lib/io/record_writer.cc\<close> and \<open>lib/io/record_reader.cc\<close>, over
  the file interfaces of \<open>platform/file_system.h\<close> and the POSIX reader of
  \<open>platform/posix/posix_file_system.cc\<close>.

  Files are abstract classes in the source: a writer is given the \<open>Append\<close> of its
  destination, a reader the \<open>Read\<close> of its source. Compression replaces both by a
  stream with the same operations; what the stream does is a parameter here, so that both
  branches of each function are present.
\<close>

section \<open>Random access files\<close>

text \<open>
  \<open>Read offset n\<close> gives a status (\<open>None\<close> is OK) and the bytes stored in
  \<open>*result\<close>. The locale states the contract documented at the declaration of
  \<open>RandomAccessFile::Read\<close>.
\<close>

type_synonym read_op = "uint64 \<Rightarrow> uint64 \<Rightarrow> code option \<times> bytes"

locale random_access_file =
  fixes read :: read_op and contents :: bytes
  assumes read_ok: "unat n = 0 \<or> unat offset + unat n \<le> length contents \<Longrightarrow>
      read offset n = (None, take (unat n) (drop (unat offset) contents))"
    and read_eof: "0 < unat n \<Longrightarrow> length contents < unat offset + unat n \<Longrightarrow>
      read offset n = (Some OUT_OF_RANGE, drop (unat offset) contents)"

text \<open>
  \<open>PosixRandomAccessFile::Read\<close>. Each \<open>pread\<close> call either delivers some bytes
  (none at end of file), is interrupted and retried, or fails. The calls made are given
  by the list of their results; \<open>None\<close> means that the list is too short.
\<close>

datatype pread_result = PBytes bytes | PRetry | PFail code

fun PosixRead_loop ::
    "pread_result list \<Rightarrow> nat \<Rightarrow> bytes \<Rightarrow> (code option \<times> bytes) option" where
  "PosixRead_loop calls 0 dst = Some (None, dst)"
| "PosixRead_loop [] (Suc n) dst = None"
| "PosixRead_loop (PBytes r # calls) (Suc n) dst =
     (if r \<noteq> [] then PosixRead_loop calls (Suc n - length r) (dst @ r)
      else Some (Some OUT_OF_RANGE, dst))"
| "PosixRead_loop (PRetry # calls) (Suc n) dst = PosixRead_loop calls (Suc n) dst"
| "PosixRead_loop (PFail e # calls) (Suc n) dst = Some (Some e, dst)"

text \<open>
  What the system does at the successive calls of \<open>pread\<close>: it interrupts the call, or delivers at most
  \<open>Suc k\<close> bytes, with a \<open>k\<close> of its own at every call. Once the choices given are used up it delivers all
  that is asked for. A schedule has such a list for every \<open>Read\<close>.
\<close>

datatype pread_choice = Interrupt | Deliver nat

type_synonym schedule = "uint64 \<Rightarrow> uint64 \<Rightarrow> pread_choice list"

fun short_reads :: "pread_choice list \<Rightarrow> bytes \<Rightarrow> nat \<Rightarrow> nat \<Rightarrow> pread_result list" where
  "short_reads [] contents offset n = [PBytes (take n (drop offset contents)), PBytes []]"
| "short_reads (Interrupt # choices) contents offset n = PRetry # short_reads choices contents offset n"
| "short_reads (Deliver k # choices) contents offset n =
     (let r = take (min n (Suc k)) (drop offset contents)
      in PBytes r # short_reads choices contents (offset + length r) (n - length r))"

definition PosixRead :: "schedule \<Rightarrow> bytes \<Rightarrow> read_op" where
  "PosixRead sched contents offset n =
     the (PosixRead_loop (short_reads (sched offset n) contents (unat offset) (unat n)) (unat n) [])"

section \<open>Writing\<close>

record ('f, 'z) record_writer =
  dest :: 'f
  zlib_output_buffer :: "'z option"

definition MaskedCrc :: "bytes \<Rightarrow> uint32" where
  "MaskedCrc data = Mask (Value 0 data)"

definition header_of :: "bytes \<Rightarrow> bytes" where
  "header_of data =
     (let len = EncodeFixed64 kLittleEndian (of_nat (length data))
      in len @ EncodeFixed32 kLittleEndian (MaskedCrc len))"

definition footer_of :: "bytes \<Rightarrow> bytes" where
  "footer_of data = EncodeFixed32 kLittleEndian (MaskedCrc data)"

text \<open>
  \<open>file_append\<close> is \<open>WritableFile::Append\<close> of the destination and \<open>zwrite\<close> is
  \<open>ZlibOutputBuffer::Write\<close>; either may fail, and the first failure is returned.
\<close>

definition WriteRecord ::
    "('f \<Rightarrow> bytes \<Rightarrow> 'f status) \<Rightarrow> ('z \<Rightarrow> bytes \<Rightarrow> 'z status) \<Rightarrow>
     ('f, 'z) record_writer \<Rightarrow> bytes \<Rightarrow> ('f, 'z) record_writer status" where
  "WriteRecord file_append zwrite w data =
     (case zlib_output_buffer w of
        Some z \<Rightarrow>
          bind_status (zwrite z (header_of data)) (\<lambda>z1.
          bind_status (zwrite z1 data) (\<lambda>z2.
          bind_status (zwrite z2 (footer_of data)) (\<lambda>z3.
            Inr (w\<lparr>zlib_output_buffer := Some z3\<rparr>))))
      | None \<Rightarrow>
          bind_status (file_append (dest w) (header_of data)) (\<lambda>f1.
          bind_status (file_append f1 data) (\<lambda>f2.
          bind_status (file_append f2 (footer_of data)) (\<lambda>f3.
            Inr (w\<lparr>dest := f3\<rparr>)))))"

section \<open>Reading\<close>

record 'z record_reader =
  src :: read_op
  zlib_input_stream :: "'z option"

text \<open>The check of the trailing checksum, shared by the two branches.\<close>

definition check_crc :: "uint64 \<Rightarrow> bytes \<Rightarrow> bytes status" where
  "check_crc n data =
     (let masked_crc = DecodeFixed32 kLittleEndian (drop (unat n) data) in
      if Unmask masked_crc \<noteq> Value 0 (take (unat n) data) then Inl DATA_LOSS
      else Inr (take (unat n) data))"

definition ReadChecksummed ::
    "('z \<Rightarrow> uint64 \<Rightarrow> code option \<times> bytes \<times> 'z) \<Rightarrow> 'z record_reader \<Rightarrow>
     uint64 \<Rightarrow> uint64 \<Rightarrow> bytes status \<times> 'z record_reader" where
  "ReadChecksummed zread rd offset n =
     (if n \<ge> - 1 - 4 then (Inl DATA_LOSS, rd)
      else
        let expected = n + 4 in
        case zlib_input_stream rd of
          Some z \<Rightarrow>
            (case zread z expected of
               (Some e, storage, z') \<Rightarrow> (Inl e, rd\<lparr>zlib_input_stream := Some z'\<rparr>)
             | (None, storage, z') \<Rightarrow>
                 ((if length storage \<noteq> unat expected
                   then (if length storage = 0 then Inl OUT_OF_RANGE else Inl DATA_LOSS)
                   else check_crc n storage), rd\<lparr>zlib_input_stream := Some z'\<rparr>))
        | None \<Rightarrow>
            (case src rd offset expected of
               (Some e, data) \<Rightarrow> (Inl e, rd)
             | (None, data) \<Rightarrow>
                 ((if length data \<noteq> unat expected
                   then (if length data = 0 then Inl OUT_OF_RANGE else Inl DATA_LOSS)
                   else check_crc n data), rd)))"

definition kHeaderSize :: uint64 where
  "kHeaderSize = 8 + 4"

definition kFooterSize :: uint64 where
  "kFooterSize = 4"

text \<open>On success: the record and the new \<open>*offset\<close>.\<close>

definition ReadRecord ::
    "('z \<Rightarrow> uint64 \<Rightarrow> code option \<times> bytes \<times> 'z) \<Rightarrow> 'z record_reader \<Rightarrow>
     uint64 \<Rightarrow> (bytes \<times> uint64) status \<times> 'z record_reader" where
  "ReadRecord zread rd offset =
     (case ReadChecksummed zread rd offset 8 of
        (Inl s, rd1) \<Rightarrow> (Inl s, rd1)
      | (Inr lbuf, rd1) \<Rightarrow>
          let len = DecodeFixed64 kLittleEndian lbuf in
          case ReadChecksummed zread rd1 (offset + kHeaderSize) len of
            (Inl s, rd2) \<Rightarrow> (Inl (if s = OUT_OF_RANGE then DATA_LOSS else s), rd2)
          | (Inr data, rd2) \<Rightarrow>
              (Inr (data, offset + (kHeaderSize + len + kFooterSize)), rd2))"

text \<open>
  The loops of a client: write records one after the other, and read from offset 0 until
  the first error. \<open>fuel\<close> bounds the number of calls to \<open>ReadRecord\<close>.
\<close>

fun write_records ::
    "('f \<Rightarrow> bytes \<Rightarrow> 'f status) \<Rightarrow> ('z \<Rightarrow> bytes \<Rightarrow> 'z status) \<Rightarrow>
     ('f, 'z) record_writer \<Rightarrow> bytes list \<Rightarrow> ('f, 'z) record_writer status" where
  "write_records file_append zwrite w [] = Inr w"
| "write_records file_append zwrite w (r # rs) =
     bind_status (WriteRecord file_append zwrite w r)
       (\<lambda>w'. write_records file_append zwrite w' rs)"

fun read_records ::
    "('z \<Rightarrow> uint64 \<Rightarrow> code option \<times> bytes \<times> 'z) \<Rightarrow> nat \<Rightarrow> 'z record_reader \<Rightarrow>
     uint64 \<Rightarrow> bytes list \<times> code option" where
  "read_records zread 0 rd offset = ([], None)"
| "read_records zread (Suc fuel) rd offset =
     (case ReadRecord zread rd offset of
        (Inl e, rd') \<Rightarrow> ([], Some e)
      | (Inr (r, offset'), rd') \<Rightarrow>
          (case read_records zread fuel rd' offset' of (rs, e) \<Rightarrow> (r # rs, e)))"

section \<open>The POSIX reader meets the contract\<close>

lemma PosixRead_loop_pos:
  "n \<noteq> 0 \<Longrightarrow> r \<noteq> [] \<Longrightarrow>
    PosixRead_loop (PBytes r # calls) n dst = PosixRead_loop calls (n - length r) (dst @ r)"
  "n \<noteq> 0 \<Longrightarrow> PosixRead_loop (PBytes [] # calls) n dst = Some (Some OUT_OF_RANGE, dst)"
  "n \<noteq> 0 \<Longrightarrow> PosixRead_loop (PRetry # calls) n dst = PosixRead_loop calls n dst"
  by (cases n; simp)+

text \<open>
  The results of \<open>pread\<close> calls on a file with the given contents, none of which is an input or output
  error: some of the bytes asked for, and none only at the end of the file.
\<close>

fun pread_ok :: "bytes \<Rightarrow> nat \<Rightarrow> nat \<Rightarrow> pread_result list \<Rightarrow> bool" where
  "pread_ok c offset n [] = True"
| "pread_ok c offset n (PRetry # calls) = pread_ok c offset n calls"
| "pread_ok c offset n (PFail e # calls) = False"
| "pread_ok c offset n (PBytes r # calls) =
     (length r \<le> n \<and> take (length r) (drop offset c) = r \<and> (r = [] \<longrightarrow> n = 0 \<or> length c \<le> offset) \<and>
      pread_ok c (offset + length r) (n - length r) calls)"

text \<open>Whatever such calls deliver, \<open>Read\<close> meets the contract as soon as it returns.\<close>

lemma PosixRead_loop_ok:
  assumes "pread_ok c offset n calls" "PosixRead_loop calls n dst = Some x"
  shows "x = (if n = 0 \<or> offset + n \<le> length c then (None, dst @ take n (drop offset c))
           else (Some OUT_OF_RANGE, dst @ drop offset c))"
  using assms
proof (induction calls arbitrary: offset n dst)
  case Nil
  then show ?case by (cases n) auto
next
  case (Cons call calls)
  consider "n = 0" | "n \<noteq> 0" "call = PRetry" | "n \<noteq> 0" "call = PBytes []" | r where "n \<noteq> 0" "call = PBytes r" "r \<noteq> []"
    using Cons.prems(1) by (cases call) auto
  then show ?case
  proof cases
    case 1
    then show ?thesis using Cons.prems(2) by simp
  next
    case 2
    then show ?thesis using Cons.IH [of offset n dst] Cons.prems by (simp add: PosixRead_loop_pos)
  next
    case 3
    then show ?thesis using Cons.prems by (auto simp: PosixRead_loop_pos)
  next
    case 4
    have r: "length r \<le> n" "take (length r) (drop offset c) = r" using Cons.prems(1) 4(2) by simp_all
    have len: "length r \<le> n" "0 < length r" "offset + length r \<le> length c"
    proof -
      have "length r = min (length c - offset) (length r)"
        using length_take [of "length r" "drop offset c"] by (simp only: r(2) length_drop)
      moreover show "length r \<le> n" "0 < length r" using r(1) 4(3) by simp_all
      ultimately show "offset + length r \<le> length c" by linarith
    qed
    from r(2) have "drop offset c = r @ drop (offset + length r) c"
      by (metis append_take_drop_id drop_drop add.commute)
    moreover from this have "take n (drop offset c) = r @ take (n - length r) (drop (offset + length r) c)"
      using len by simp
    moreover have "pread_ok c (offset + length r) (n - length r) calls" "PosixRead_loop calls (n - length r) (dst @ r) = Some x"
      using Cons.prems 4 by (simp_all add: PosixRead_loop_pos)
    ultimately show ?thesis using Cons.IH [of "offset + length r" "n - length r" "dst @ r"] len by auto
  qed
qed

lemma short_reads_ok: "pread_ok c offset n (short_reads choices c offset n)"
proof (induction choices c offset n rule: short_reads.induct)
  case (1 c offset n)
  have "take (length (take n (drop offset c))) (drop offset c) = take n (drop offset c)"
    by (metis append_eq_conv_conj append_take_drop_id)
  then show ?case by (auto simp: min_def)
next
  case (3 k choices c offset n)
  let ?r = "take (min n (Suc k)) (drop offset c)"
  have "take (length ?r) (drop offset c) = ?r" by (metis append_eq_conv_conj append_take_drop_id)
  moreover have "length ?r \<le> n" by simp
  moreover have "?r = [] \<longrightarrow> n = 0 \<or> length c \<le> offset" by (auto simp: min_def split: if_splits)
  ultimately show ?case using 3 by (simp add: Let_def)
qed auto

lemma short_reads_return: "\<exists>x. PosixRead_loop (short_reads choices c offset n) n dst = Some x"
proof (induction choices arbitrary: offset n dst)
  case Nil
  then show ?case by (cases n; cases "take n (drop offset c)"; cases "n - length (take n (drop offset c))") auto
next
  case (Cons choice choices)
  show ?case
  proof (cases "n = 0 \<or> (\<exists>k. choice = Deliver k \<and> take (min n (Suc k)) (drop offset c) = [])")
    case True
    then show ?thesis by (cases n) (auto simp: Let_def)
  next
    case False
    then show ?thesis using Cons.IH by (cases choice) (auto simp: Let_def PosixRead_loop_pos)
  qed
qed

lemma PosixRead_eq:
  "PosixRead sched c offset n =
     (if unat n = 0 \<or> unat offset + unat n \<le> length c then (None, take (unat n) (drop (unat offset) c))
      else (Some OUT_OF_RANGE, drop (unat offset) c))"
  using short_reads_return [of "sched offset n" c "unat offset" "unat n" "[]"] PosixRead_loop_ok [OF short_reads_ok]
  by (fastforce simp: PosixRead_def)

interpretation posix_file: random_access_file "PosixRead sched contents" contents for sched contents
  by unfold_locales (auto simp: PosixRead_eq)

section \<open>Checksummed blocks\<close>

lemma memcpy_from_to:
  assumes "LENGTH('a::len) = 8 * length bs"
  shows "memcpy_from (length bs) (memcpy_to bs :: 'a word) = bs"
proof (rule nth_equalityI)
  fix i assume "i < length (memcpy_from (length bs) (memcpy_to bs :: 'a word))"
  then have i: "i < length bs" by simp
  show "memcpy_from (length bs) (memcpy_to bs :: 'a word) ! i = bs ! i"
    using assms i by (intro bit_word_eqI) (simp add: memcpy_from_def bit_byte_of bit_memcpy_to)
qed simp

lemma DecodeFixed32_inj:
  assumes "length a = 4" and "length b = 4" and "DecodeFixed32 le a = DecodeFixed32 le b"
  shows "a = b"
  using assms memcpy_from_to [where 'a = 32, of a] memcpy_from_to [where 'a = 32, of b]
  by (simp add: DecodeFixed32_eq)

lemma Mask_Unmask [simp]: "Mask (Unmask m) = m"
proof -
  define rot where "rot = m - kMaskDelta"
  have "drop_bit 15 (drop_bit 17 rot OR push_bit 15 rot) OR
      push_bit 17 (drop_bit 17 rot OR push_bit 15 rot) = rot"
    by (auto intro!: bit_word_eqI simp: bit_simps)
  then show ?thesis by (simp add: Mask_def Unmask_def Let_def rot_def)
qed

definition checksummed :: "bytes \<Rightarrow> bytes" where
  "checksummed d = d @ EncodeFixed32 kLittleEndian (MaskedCrc d)"

lemma length_checksummed [simp]: "length (checksummed d) = length d + 4"
  by (simp add: checksummed_def)

lemma check_crc_checksummed: "unat n = length d \<Longrightarrow> check_crc n (checksummed d) = Inr d"
  using DecodeFixed32_Encode [of kLittleEndian kLittleEndian "MaskedCrc d" "[]"]
  by (simp add: check_crc_def checksummed_def MaskedCrc_def)

lemma Value_list_update:
  assumes "i < length d" and "d ! i \<noteq> b"
  shows "Value p (d[i := b]) \<noteq> Value q d"
proof -
  have "Value p (take i d @ b # drop (Suc i) d) \<noteq> Value q (take i d @ d ! i # drop (Suc i) d)"
    unfolding Value_def Extend_eq using assms(2) by (intro crc_detects_byte) simp
  then show ?thesis
    using assms(1) by (simp add: upd_conv_take_nth_drop flip: id_take_nth_drop)
qed

text \<open>Any single changed byte, in the data or in the stored checksum, is detected.\<close>

lemma check_crc_corrupt:
  assumes n: "unat n = length d" and i: "i < length d + 4" and b: "checksummed d ! i \<noteq> b"
  shows "check_crc n ((checksummed d)[i := b]) = Inl DATA_LOSS"
proof (cases "i < length d")
  case True
  have "Value 0 (d[i := b]) \<noteq> Value 0 d"
    using True b by (intro Value_list_update) (simp_all add: checksummed_def nth_append)
  with True show ?thesis
    using n DecodeFixed32_Encode [of kLittleEndian kLittleEndian "MaskedCrc d" "[]"]
    by (simp add: check_crc_def checksummed_def list_update_append MaskedCrc_def)
next
  case False
  define e where "e = EncodeFixed32 kLittleEndian (MaskedCrc d)"
  define j where "j = i - length d"
  have e': "e[j := b] \<noteq> e"
    using False b i by (auto simp: e_def j_def checksummed_def nth_append list_update_same_conv)
  have "DecodeFixed32 kLittleEndian (e[j := b]) \<noteq> DecodeFixed32 kLittleEndian e"
    using DecodeFixed32_inj [of "e[j := b]" e] e' by (auto simp: e_def)
  moreover have "DecodeFixed32 kLittleEndian e = Mask (Value 0 d)"
    using DecodeFixed32_Encode [of kLittleEndian kLittleEndian "MaskedCrc d" "[]"]
    by (simp add: e_def MaskedCrc_def)
  ultimately have "Unmask (DecodeFixed32 kLittleEndian (e[j := b])) \<noteq> Value 0 d"
    by (metis Mask_Unmask)
  with False n show ?thesis
    by (simp add: check_crc_def checksummed_def list_update_append j_def e_def)
qed

section \<open>Reading records back\<close>

text \<open>
  A file is addressed by a signed 64-bit \<open>off_t\<close>, so its length is below \<open>2 ^ 63\<close>.
\<close>

definition record_of :: "bytes \<Rightarrow> bytes" where
  "record_of data = checksummed (EncodeFixed64 kLittleEndian (of_nat (length data))) @
     checksummed data"

lemma record_of_parts: "record_of data = header_of data @ data @ footer_of data"
  by (simp add: record_of_def checksummed_def header_of_def footer_of_def Let_def)

lemma length_record_of [simp]: "length (record_of data) = length data + 16"
  by (simp add: record_of_def)

lemma unat_of_nat64: "k < 2 ^ 64 \<Longrightarrow> unat (of_nat k :: uint64) = k"
  by (simp add: unat_of_nat take_bit_nat_eq_self)

lemma unat_add_small: "unat (a :: uint64) + unat b < 2 ^ 64 \<Longrightarrow> unat (a + b) = unat a + unat b"
  by (simp add: unat_word_ariths)

context random_access_file
begin

abbreviation plain :: "'z record_reader" where
  "plain \<equiv> \<lparr>src = read, zlib_input_stream = None\<rparr>"

lemma size_check: "unat n < 2 ^ 63 \<Longrightarrow> \<not> (- 1 - 4 :: uint64) \<le> n \<and> unat (n + 4) = unat n + 4"
  by (simp add: word_le_nat_alt unat_word_ariths)

lemma ReadChecksummed_inside:
  assumes "length contents < 2 ^ 63" and "unat offset + unat n + 4 \<le> length contents"
  shows "ReadChecksummed zread plain offset n =
    (check_crc n (take (unat n + 4) (drop (unat offset) contents)), plain)"
proof -
  have n: "unat n < 2 ^ 63" using assms by linarith
  show ?thesis
    using assms size_check [OF n] read_ok [of "n + 4" offset]
    by (simp add: ReadChecksummed_def Let_def)
qed

lemma ReadChecksummed_past_end:
  assumes "length contents < unat offset + unat n + 4" and "unat n < 2 ^ 63"
  shows "ReadChecksummed zread plain offset n = (Inl OUT_OF_RANGE, plain)"
  using assms size_check [OF assms(2)] read_eof [of "n + 4" offset]
  by (simp add: ReadChecksummed_def Let_def)

lemma ReadRecord_ok:
  assumes c: "contents = pre @ record_of data @ post" and len: "length contents < 2 ^ 63"
    and off: "unat offset = length pre"
  shows "ReadRecord zread plain offset =
    (Inr (data, offset + (kHeaderSize + of_nat (length data) + kFooterSize)), plain)"
proof -
  let ?len = "EncodeFixed64 kLittleEndian (of_nat (length data))"
  have lb: "length data < 2 ^ 64" using len by (simp add: c)
  have "take (unat (8 :: uint64) + 4) (drop (unat offset) contents) = checksummed ?len"
    by (simp add: c off record_of_def)
  then have 1: "ReadChecksummed zread plain offset 8 = (Inr ?len, plain)"
    using ReadChecksummed_inside [OF len, of offset 8] check_crc_checksummed [of 8 ?len]
    by (simp add: c off)
  have 2: "DecodeFixed64 kLittleEndian ?len = of_nat (length data)"
    using DecodeFixed64_Encode [of kLittleEndian kLittleEndian _ "[]"] by simp
  have off': "unat (offset + kHeaderSize) = length pre + 12"
    using len by (simp add: kHeaderSize_def unat_word_ariths off c)
  have "take (unat (of_nat (length data) :: uint64) + 4) (drop (unat (offset + kHeaderSize)) contents)
      = checksummed data"
    unfolding off' unat_of_nat64 [OF lb] by (simp add: c record_of_def)
  then have "ReadChecksummed zread plain (offset + kHeaderSize) (of_nat (length data)) =
      (Inr data, plain)"
    using ReadChecksummed_inside [OF len, of "offset + kHeaderSize" "of_nat (length data)"]
      check_crc_checksummed [of "of_nat (length data)" data] unat_of_nat64 [OF lb]
    by (simp add: off' c)
  then show ?thesis
    by (simp add: ReadRecord_def 1 2)
qed

lemma ReadRecord_corrupt:
  assumes c: "contents = pre @ (record_of data)[i := b] @ post"
    and len: "length contents < 2 ^ 63" and off: "unat offset = length pre"
    and i: "i < length data + 16" and b: "record_of data ! i \<noteq> b"
  shows "ReadRecord zread plain offset = (Inl DATA_LOSS, plain)"
proof -
  let ?len = "EncodeFixed64 kLittleEndian (of_nat (length data))"
  have lb: "length data < 2 ^ 64" using len by (simp add: c)
  show ?thesis
  proof (cases "i < 12")
    case True
    have "take (unat (8 :: uint64) + 4) (drop (unat offset) contents) = (checksummed ?len)[i := b]"
      using True by (simp add: c off record_of_def list_update_append)
    moreover have "check_crc 8 ((checksummed ?len)[i := b]) = Inl DATA_LOSS"
      using True b by (intro check_crc_corrupt) (simp_all add: record_of_def nth_append)
    ultimately have "ReadChecksummed zread plain offset 8 = (Inl DATA_LOSS, plain)"
      using ReadChecksummed_inside [OF len, of offset 8] by (simp add: c off)
    then show ?thesis by (simp add: ReadRecord_def)
  next
    case False
    have "take (unat (8 :: uint64) + 4) (drop (unat offset) contents) = checksummed ?len"
      using False by (simp add: c off record_of_def list_update_append)
    then have 1: "ReadChecksummed zread plain offset 8 = (Inr ?len, plain)"
      using ReadChecksummed_inside [OF len, of offset 8] check_crc_checksummed [of 8 ?len]
      by (simp add: c off)
    have 2: "DecodeFixed64 kLittleEndian ?len = of_nat (length data)"
      using DecodeFixed64_Encode [of kLittleEndian kLittleEndian _ "[]"] by simp
    have off': "unat (offset + kHeaderSize) = length pre + 12"
      using len by (simp add: kHeaderSize_def unat_word_ariths off c)
    have "take (unat (of_nat (length data) :: uint64) + 4) (drop (unat (offset + kHeaderSize)) contents)
        = (checksummed data)[i - 12 := b]"
      unfolding off' unat_of_nat64 [OF lb]
      using False by (simp add: c record_of_def list_update_append)
    moreover have "check_crc (of_nat (length data)) ((checksummed data)[i - 12 := b]) = Inl DATA_LOSS"
      using False b i unat_of_nat64 [OF lb]
      by (intro check_crc_corrupt) (simp_all add: record_of_def nth_append)
    ultimately have "ReadChecksummed zread plain (offset + kHeaderSize) (of_nat (length data)) =
        (Inl DATA_LOSS, plain)"
      using ReadChecksummed_inside [OF len, of "offset + kHeaderSize" "of_nat (length data)"]
        unat_of_nat64 [OF lb]
      by (simp add: off' c)
    then show ?thesis by (simp add: ReadRecord_def 1 2)
  qed
qed

text \<open>
  A file that ends inside a record. When at least the header is there the record is
  reported as lost; when the header itself is cut short the reader reports the plain end
  of file.
\<close>

lemma ReadRecord_truncated:
  assumes c: "contents = pre @ take k (record_of data)"
    and len: "length pre + length data + 16 < 2 ^ 63" and off: "unat offset = length pre"
    and k: "k < length data + 16"
  shows "ReadRecord zread plain offset =
    (Inl (if k < 12 then OUT_OF_RANGE else DATA_LOSS), plain)"
proof (cases "k < 12")
  case True
  then have "ReadChecksummed zread plain offset 8 = (Inl OUT_OF_RANGE, plain)"
    using k by (intro ReadChecksummed_past_end) (simp_all add: c off)
  with True show ?thesis by (simp add: ReadRecord_def)
next
  case False
  let ?len = "EncodeFixed64 kLittleEndian (of_nat (length data))"
  have lb: "length data < 2 ^ 64" using len by simp
  have cl: "length contents < 2 ^ 63" using k len by (simp add: c)
  have "take (unat (8 :: uint64) + 4) (drop (unat offset) contents) = checksummed ?len"
    using False by (simp add: c off record_of_def)
  then have 1: "ReadChecksummed zread plain offset 8 = (Inr ?len, plain)"
    using ReadChecksummed_inside [OF cl, of offset 8] check_crc_checksummed [of 8 ?len] False k
    by (simp add: c off)
  have 2: "DecodeFixed64 kLittleEndian ?len = of_nat (length data)"
    using DecodeFixed64_Encode [of kLittleEndian kLittleEndian _ "[]"] by simp
  have off': "unat (offset + kHeaderSize) = length pre + 12"
    using len by (simp add: kHeaderSize_def unat_word_ariths off)
  have "ReadChecksummed zread plain (offset + kHeaderSize) (of_nat (length data)) =
      (Inl OUT_OF_RANGE, plain)"
    using k len unat_of_nat64 [OF lb] by (intro ReadChecksummed_past_end) (simp_all add: c off')
  with False show ?thesis by (simp add: ReadRecord_def 1 2)
qed

lemma read_records_all:
  assumes "contents = pre @ concat (map record_of rs)" and "length contents < 2 ^ 63"
    and "unat offset = length pre"
  shows "read_records zread (Suc (length rs)) plain offset = (rs, Some OUT_OF_RANGE)"
  using assms
proof (induction rs arbitrary: pre offset)
  case Nil
  then have "ReadRecord zread plain offset = (Inl OUT_OF_RANGE, plain)"
    using ReadChecksummed_past_end [of offset 8 zread] by (simp add: ReadRecord_def)
  then show ?case by simp
next
  case (Cons r rs)
  let ?next = "offset + (kHeaderSize + of_nat (length r) + kFooterSize)"
  have "unat ?next = length (pre @ record_of r)"
  proof -
    have l: "length pre + length r + 16 < 2 ^ 63" using Cons.prems by simp
    have "?next = of_nat (length pre + length r + 16)"
      using Cons.prems(3) by (simp add: kHeaderSize_def kFooterSize_def flip: Cons.prems(3))
    moreover have b: "length pre + length r + 16 < 2 ^ 64" using l by simp
    ultimately have "unat ?next = length pre + length r + 16"
      by (simp only: unat_of_nat64 [OF b])
    then show ?thesis by simp
  qed
  moreover have "contents = (pre @ record_of r) @ concat (map record_of rs)"
    using Cons.prems(1) by simp
  ultimately have "read_records zread (Suc (length rs)) plain ?next = (rs, Some OUT_OF_RANGE)"
    using Cons.prems(2) by (intro Cons.IH)
  moreover have "ReadRecord zread plain offset = (Inr (r, ?next), plain)"
    using Cons.prems by (intro ReadRecord_ok [of pre r "concat (map record_of rs)"]) simp_all
  ultimately show ?case by simp
qed

end

section \<open>Properties\<close>

text \<open>Writing to a file whose \<open>Append\<close> always succeeds.\<close>

abbreviation append_ok :: "bytes \<Rightarrow> bytes \<Rightarrow> bytes status" where
  "append_ok f d \<equiv> Inr (f @ d)"

lemma write_records_plain:
  "zlib_output_buffer w = None \<Longrightarrow>
    write_records append_ok zwrite w rs = Inr (w\<lparr>dest := dest w @ concat (map record_of rs)\<rparr>)"
  by (induction rs arbitrary: w) (simp_all add: WriteRecord_def record_of_parts)

text \<open>
  C2: Records written one after the other to a file that accepts every append are read
  back from offset 0 in order, byte for byte, by a reader over a POSIX file, and the read after
  the last record reports the end of the file. The schedule is arbitrary: every \<open>pread\<close> call may
  deliver another number of bytes or be interrupted and retried, as long as none fails
  and \<open>Read\<close> is not interrupted for ever.
\<close>

theorem record_file_roundtrip:
  assumes "write_records append_ok zwrite \<lparr>dest = [], zlib_output_buffer = None\<rparr> rs = Inr w"
    and "length (dest w) < 2 ^ 63"
  shows "read_records zread (Suc (length rs))
      \<lparr>src = PosixRead sched (dest w), zlib_input_stream = None\<rparr> 0 = (rs, Some OUT_OF_RANGE)"
  using assms posix_file.read_records_all [of "dest w" "[]" rs 0 zread sched]
  by (auto simp: write_records_plain)

definition demo_schedule :: schedule where
  "demo_schedule offset n = [Deliver 2, Interrupt, Deliver (unat offset), Deliver 0]"

theorem record_file_roundtrip_witness:
  "read_records (\<lambda>z n. (None, [], z)) 3
     \<lparr>src = PosixRead demo_schedule (record_of [7, 8] @ record_of []), zlib_input_stream = None :: nat option\<rparr> 0
   = ([[7, 8], []], Some OUT_OF_RANGE)"
proof -
  let ?w = "\<lparr>dest = record_of [7, 8] @ record_of [], zlib_output_buffer = None :: nat option\<rparr>"
  have w: "write_records append_ok (\<lambda>z d. Inr z) \<lparr>dest = [], zlib_output_buffer = None :: nat option\<rparr>
      [[7, 8], []] = Inr ?w"
    by (subst write_records_plain) simp_all
  show ?thesis
    using record_file_roundtrip [OF w, of "\<lambda>(z :: nat) n. (None, [], z)" demo_schedule] by (simp add: numeral_3_eq_3)
qed

text \<open>
  C28: If any one byte of a stored record is changed (in the length, the data or either
  checksum), reading that record reports data loss.
\<close>

theorem record_corruption_detected:
  assumes "length (pre @ record_of data @ post) < 2 ^ 63"
    and "i < length (record_of data)" and "record_of data ! i \<noteq> b"
  shows "fst (ReadRecord zread
      \<lparr>src = PosixRead sched (pre @ (record_of data)[i := b] @ post), zlib_input_stream = None\<rparr>
      (of_nat (length pre))) = Inl DATA_LOSS"
proof -
  have "length pre < 2 ^ 64" using assms(1) by simp
  then have "unat (of_nat (length pre) :: uint64) = length pre" by (rule unat_of_nat64)
  then show ?thesis
    using assms
      posix_file.ReadRecord_corrupt [OF refl, of pre data i b post "of_nat (length pre)" zread sched]
    by simp
qed

theorem record_corruption_detected_witness:
  "fst (ReadRecord (\<lambda>z n. (None, [], z))
      \<lparr>src = PosixRead demo_schedule ([] @ (record_of [7, 8])[0 := 9] @ []), zlib_input_stream = None :: nat option\<rparr>
      (of_nat (length ([] :: bytes)))) = Inl DATA_LOSS"
  by (rule record_corruption_detected)
    (simp_all add: record_of_def checksummed_def EncodeFixed64_eq memcpy_from_def byte_of_def upt_rec)

text \<open>
  C30: A file that ends inside a record. If at least the 12 header bytes are there the
  reader reports data loss; if the header itself is cut short it reports the same
  out-of-range error as at a clean end of file, although the message of the next branch
  (\<open>truncated record\<close>) shows that a partial header was meant to be data loss too.
\<close>

theorem record_truncation:
  assumes "length pre + length (record_of data) < 2 ^ 63" and "n < length (record_of data)"
  shows "fst (ReadRecord zread
      \<lparr>src = PosixRead sched (pre @ take n (record_of data)), zlib_input_stream = None\<rparr>
      (of_nat (length pre))) = Inl (if n < 12 then OUT_OF_RANGE else DATA_LOSS)"
proof -
  have "length pre < 2 ^ 64" using assms(1) by simp
  then have "unat (of_nat (length pre) :: uint64) = length pre" by (rule unat_of_nat64)
  then show ?thesis
    using assms
      posix_file.ReadRecord_truncated [OF refl, of pre data "of_nat (length pre)" n zread sched]
    by simp
qed

theorem record_truncation_witness:
  "fst (ReadRecord (\<lambda>z n. (None, [], z))
      \<lparr>src = PosixRead demo_schedule ([] @ take 5 (record_of [7, 8])), zlib_input_stream = None :: nat option\<rparr>
      (of_nat (length ([] :: bytes)))) = Inl OUT_OF_RANGE"
  using record_truncation [of "[]" "[7, 8]" 5 "\<lambda>(z :: nat) n. (None, [], z)" demo_schedule] by simp

end
