(* ===== verification/Block.thy ===== *)
theory Block
  imports Coding "HOL-Library.List_Lexorder"
begin

text \<open>
  Sorted blocks of key/value pairs: \<open>lib/io/block_builder.cc\<close> writes them with
  prefix-compressed keys and a trailing array of restart points, \<open>lib/io/block.cc\<close>
  iterates over them and seeks by binary search over the restart points. Keys are ordered
  by \<open>StringPiece::compare\<close>, which is the lexicographic order on bytes.

  Positions in a block are naturals; the places where the code narrows a \<open>size_t\<close> to
  \<open>uint32\<close> are written with \<open>u32\<close>. The asserts of the sources are compiled out in
  optimised builds: they appear as hypotheses of the lemmas, not in the definitions.
\<close>

section \<open>Comparing strings\<close>

fun memcmp :: "bytes \<Rightarrow> bytes \<Rightarrow> int" where
  "memcmp (a # as) (b # bs) = (if a < b then -1 else if b < a then 1 else memcmp as bs)"
| "memcmp _ _ = 0"

definition compare_sp :: "bytes \<Rightarrow> bytes \<Rightarrow> int" where
  "compare_sp a b =
     (let min_len = (if length a < length b then length a else length b);
          r = memcmp (take min_len a) (take min_len b)
      in if r = 0 then (if length a < length b then -1 else if length a > length b then 1 else r)
         else r)"

section \<open>The block builder\<close>

datatype compression_type = kNoCompression | kSnappyCompression

record options =
  block_size :: nat
  block_restart_interval :: nat
  compression :: compression_type

definition default_options :: options where
  "default_options =
     \<lparr>block_size = 262144, block_restart_interval = 16, compression = kSnappyCompression\<rparr>"

record block_builder =
  buffer :: bytes
  restarts :: "uint32 list"
  counter :: nat
  finished :: bool
  last_key :: bytes

definition BlockBuilder :: block_builder where
  "BlockBuilder =
     \<lparr>buffer = [], restarts = [0], counter = 0, finished = False, last_key = []\<rparr>"

definition Reset :: "block_builder \<Rightarrow> block_builder" where
  "Reset b = b\<lparr>buffer := [], restarts := [0], counter := 0, finished := False, last_key := []\<rparr>"

definition CurrentSizeEstimate :: "block_builder \<Rightarrow> nat" where
  "CurrentSizeEstimate b = length (buffer b) + length (restarts b) * 4 + 4"

definition empty_builder :: "block_builder \<Rightarrow> bool" where
  "empty_builder b \<longleftrightarrow> buffer b = []"

fun put_restarts :: "bytes \<Rightarrow> uint32 list \<Rightarrow> bytes" where
  "put_restarts dst [] = dst"
| "put_restarts dst (r # rs) = put_restarts (PutFixed32 dst r) rs"

text \<open>\<open>Finish\<close> returns the block contents, a slice of the builder's buffer.\<close>

definition Finish :: "block_builder \<Rightarrow> bytes \<times> block_builder" where
  "Finish b =
     (let buf = PutFixed32 (put_restarts (buffer b) (restarts b)) (of_nat (length (restarts b)))
      in (buf, b\<lparr>buffer := buf, finished := True\<rparr>))"

text \<open>The loop that counts the bytes shared with the previous key.\<close>

fun shared_prefix :: "bytes \<Rightarrow> bytes \<Rightarrow> nat" where
  "shared_prefix (a # as) (b # bs) = (if a = b then Suc (shared_prefix as bs) else 0)"
| "shared_prefix _ _ = 0"

definition Add :: "options \<Rightarrow> block_builder \<Rightarrow> bytes \<Rightarrow> bytes \<Rightarrow> block_builder" where
  "Add opt b key value =
     (let (shared, b1) =
            (if counter b < block_restart_interval opt
             then (shared_prefix (last_key b) key, b)
             else (0, b\<lparr>restarts := restarts b @ [of_nat (length (buffer b))], counter := 0\<rparr>));
          non_shared = length key - shared;
          buf = PutVarint32 (buffer b1) (of_nat shared);
          buf = PutVarint32 buf (of_nat non_shared);
          buf = PutVarint32 buf (of_nat (length value));
          buf = buf @ drop shared key;
          buf = buf @ value
      in b1\<lparr>buffer := buf, last_key := take shared (last_key b) @ drop shared key,
            counter := counter b1 + 1\<rparr>)"

section \<open>Reading a block\<close>

definition u32 :: "nat \<Rightarrow> nat" where
  "u32 n = n mod 2 ^ 32"

record block =
  data :: bytes
  bsize :: nat
  restart_offset :: nat

definition NumRestarts :: "bytes \<Rightarrow> nat \<Rightarrow> nat" where
  "NumRestarts d sz = unat (DecodeFixed32 kLittleEndian (drop (sz - 4) d))"

text \<open>
  The constructor leaves \<open>restart_offset_\<close> unset when the contents are too small; it is
  then never read.
\<close>

definition Block :: "bytes \<Rightarrow> block" where
  "Block contents =
     (let sz = length contents in
      if sz < 4 then \<lparr>data = contents, bsize = 0, restart_offset = 0\<rparr>
      else
        let max_restarts_allowed = (sz - 4) div 4 in
        if NumRestarts contents sz > max_restarts_allowed
        then \<lparr>data = contents, bsize = 0, restart_offset = 0\<rparr>
        else \<lparr>data = contents, bsize = sz,
              restart_offset = u32 (sz - (1 + NumRestarts contents sz) * 4)\<rparr>)"

text \<open>
  The bytes from \<open>p\<close> to \<open>limit\<close> in, the three lengths and the bytes from the key
  delta on out. The sum of the two lengths is computed in 32 bits, as in the source.
\<close>

definition DecodeEntry :: "bytes \<Rightarrow> (uint32 \<times> uint32 \<times> uint32 \<times> bytes) option" where
  "DecodeEntry p =
     (if length p < 3 then None
      else
        let shared = ucast (p ! 0) :: uint32; non_shared = ucast (p ! 1) :: uint32;
            value_length = ucast (p ! 2) :: uint32;
            lens =
              (if (shared OR non_shared OR value_length) < 128
               then Some (shared, non_shared, value_length, drop 3 p)
               else
                 case GetVarint32Ptr p of None \<Rightarrow> None
                 | Some (shared, p1) \<Rightarrow>
                 (case GetVarint32Ptr p1 of None \<Rightarrow> None
                 | Some (non_shared, p2) \<Rightarrow>
                 (case GetVarint32Ptr p2 of None \<Rightarrow> None
                 | Some (value_length, p3) \<Rightarrow> Some (shared, non_shared, value_length, p3))))
        in case lens of None \<Rightarrow> None
           | Some (shared, non_shared, value_length, q) \<Rightarrow>
               if of_nat (length q) < non_shared + value_length then None
               else Some (shared, non_shared, value_length, q))"

text \<open>
  \<open>Block::Iter\<close>. \<open>value_\<close> is a slice of the block: its offset and length; \<open>None\<close>
  is the slice of the empty literal it has before the first seek and after an error.
\<close>

record iter =
  idata :: bytes
  irestarts :: nat
  inum_restarts :: nat
  current :: nat
  restart_index :: nat
  ikey :: bytes
  ivalue :: "(nat \<times> nat) option"
  istatus :: "code option"

definition Iter :: "bytes \<Rightarrow> nat \<Rightarrow> nat \<Rightarrow> iter" where
  "Iter d rs n =
     \<lparr>idata = d, irestarts = rs, inum_restarts = n, current = rs, restart_index = n,
      ikey = [], ivalue = None, istatus = None\<rparr>"

definition Valid :: "iter \<Rightarrow> bool" where
  "Valid it \<longleftrightarrow> current it < irestarts it"

definition key_of :: "iter \<Rightarrow> bytes" where
  "key_of it = ikey it"

definition value_of :: "iter \<Rightarrow> bytes" where
  "value_of it = (case ivalue it of Some (off, len) \<Rightarrow> take len (drop off (idata it)) | None \<Rightarrow> [])"

text \<open>
  On the slice of the empty literal the pointer difference is meaningless; no caller
  reaches it (\<open>Next\<close> requires \<open>Valid\<close>, the seeks set the slice first).
\<close>

definition NextEntryOffset :: "iter \<Rightarrow> nat" where
  "NextEntryOffset it = (case ivalue it of Some (off, len) \<Rightarrow> u32 (off + len) | None \<Rightarrow> 0)"

definition GetRestartPoint :: "iter \<Rightarrow> nat \<Rightarrow> nat" where
  "GetRestartPoint it index =
     unat (DecodeFixed32 kLittleEndian (drop (irestarts it + index * 4) (idata it)))"

definition SeekToRestartPoint :: "iter \<Rightarrow> nat \<Rightarrow> iter" where
  "SeekToRestartPoint it index =
     it\<lparr>ikey := [], restart_index := index, ivalue := Some (GetRestartPoint it index, 0)\<rparr>"

definition CorruptionError :: "iter \<Rightarrow> iter" where
  "CorruptionError it =
     it\<lparr>current := irestarts it, restart_index := inum_restarts it,
        istatus := Some DATA_LOSS, ikey := [], ivalue := None\<rparr>"

function advance_restart :: "iter \<Rightarrow> iter" where
  "advance_restart it =
     (if restart_index it + 1 < inum_restarts it \<and>
         GetRestartPoint it (restart_index it + 1) < current it
      then advance_restart (it\<lparr>restart_index := restart_index it + 1\<rparr>) else it)"
  by pat_completeness auto
termination
  by (relation "measure (\<lambda>it. inum_restarts it - restart_index it)") auto

declare advance_restart.simps [simp del]

definition ParseNextKey :: "iter \<Rightarrow> bool \<times> iter" where
  "ParseNextKey it0 =
     (let it = it0\<lparr>current := NextEntryOffset it0\<rparr>;
          p = take (irestarts it - current it) (drop (current it) (idata it))
      in if current it \<ge> irestarts it
         then (False, it\<lparr>current := irestarts it, restart_index := inum_restarts it\<rparr>)
         else
           case DecodeEntry p of
             None \<Rightarrow> (False, CorruptionError it)
           | Some (shared, non_shared, value_length, q) \<Rightarrow>
               if length (ikey it) < unat shared then (False, CorruptionError it)
               else
                 let off = irestarts it - length q;
                     it1 = it\<lparr>ikey := take (unat shared) (ikey it) @ take (unat non_shared) q,
                              ivalue := Some (off + unat non_shared, unat value_length)\<rparr>
                 in (True, advance_restart it1))"

definition Next :: "iter \<Rightarrow> iter" where
  "Next it = snd (ParseNextKey it)"

text \<open>
  The binary search of \<open>Seek\<close>: \<open>None\<close> is the early return after a corruption. The
  32-bit sum \<open>left + right + 1\<close> cannot wrap below \<open>2 ^ 31\<close> restart points, that is for
  any block of less than 8 GiB.
\<close>

function seek_restart :: "iter \<Rightarrow> bytes \<Rightarrow> nat \<Rightarrow> nat \<Rightarrow> nat option" where
  "seek_restart it target left right =
     (if left < right then
        let mid = (left + right + 1) div 2;
            region_offset = GetRestartPoint it mid
        in case DecodeEntry (take (irestarts it - region_offset) (drop region_offset (idata it))) of
             None \<Rightarrow> None
           | Some (shared, non_shared, value_length, q) \<Rightarrow>
               if shared \<noteq> 0 then None
               else if compare_sp (take (unat non_shared) q) target < 0
               then seek_restart it target mid right
               else seek_restart it target left (mid - 1)
      else Some left)"
  by pat_completeness auto
termination
  by (relation "measure (\<lambda>(it, target, left, right). right - left)") auto

declare seek_restart.simps [simp del]

text \<open>The linear search of \<open>Seek\<close>; \<open>None\<close> would be a search that never ends.\<close>

partial_function (option) seek_linear :: "iter \<Rightarrow> bytes \<Rightarrow> iter option" where
  "seek_linear it target =
     (case ParseNextKey it of (ok, it') \<Rightarrow>
        if \<not> ok then Some it'
        else if compare_sp (ikey it') target \<ge> 0 then Some it'
        else seek_linear it' target)"

definition Seek :: "iter \<Rightarrow> bytes \<Rightarrow> iter option" where
  "Seek it target =
     (case seek_restart it target 0 (inum_restarts it - 1) of
        None \<Rightarrow> Some (CorruptionError it)
      | Some left \<Rightarrow> seek_linear (SeekToRestartPoint it left) target)"

definition SeekToFirst :: "iter \<Rightarrow> iter" where
  "SeekToFirst it = snd (ParseNextKey (SeekToRestartPoint it 0))"

text \<open>
  \<open>Block::NewIterator\<close>: an error iterator, an empty one or a block iterator. The empty
  iterator of \<open>lib/io/iterator.cc\<close> is a status and is never valid.
\<close>

datatype block_iterator = EmptyIterator "code option" | BlockIter iter

definition NewIterator :: "block \<Rightarrow> block_iterator" where
  "NewIterator b =
     (if bsize b < 4 then EmptyIterator (Some DATA_LOSS)
      else
        let num_restarts = NumRestarts (data b) (bsize b) in
        if num_restarts = 0 then EmptyIterator None
        else BlockIter (Iter (data b) (restart_offset b) num_restarts))"

section \<open>The order on keys\<close>

lemma compare_sp_Cons [simp]:
  "compare_sp (a # as) (b # bs) = (if a < b then -1 else if b < a then 1 else compare_sp as bs)"
  "compare_sp [] (b # bs) = -1" "compare_sp (a # as) [] = 1" "compare_sp [] [] = 0"
  by (auto simp: compare_sp_def Let_def)

lemma compare_sp_less: "compare_sp a b < 0 \<longleftrightarrow> a < b"
  by (induction a b rule: list_induct2') (auto simp: not_less_iff_gr_or_eq)

lemma compare_sp_eq: "compare_sp a b = 0 \<longleftrightarrow> a = b"
  by (induction a b rule: list_induct2') auto

lemma compare_sp_ge: "compare_sp a b \<ge> 0 \<longleftrightarrow> b \<le> a"
  using compare_sp_less [of a b] by auto

section \<open>Entries\<close>

text \<open>
  The reader decodes one entry with three variable-length integers; its fast path for
  three one-byte lengths gives the same result.
\<close>

lemma GetVarint32Ptr_small: "\<not> bit b 7 \<Longrightarrow> GetVarint32Ptr (b # q) = Some (ucast b, q)"
  by (simp add: GetVarint32Ptr_def byte_and_128)

lemma DecodeEntry_eq:
  "DecodeEntry p =
     (if length p < 3 then None
      else case GetVarint32Ptr p of None \<Rightarrow> None
        | Some (shared, p1) \<Rightarrow>
        (case GetVarint32Ptr p1 of None \<Rightarrow> None
        | Some (non_shared, p2) \<Rightarrow>
        (case GetVarint32Ptr p2 of None \<Rightarrow> None
        | Some (value_length, q) \<Rightarrow>
            if of_nat (length q) < non_shared + value_length then None
            else Some (shared, non_shared, value_length, q))))"
proof (cases "length p < 3")
  case True
  then show ?thesis by (simp add: DecodeEntry_def)
next
  case False
  then obtain a b c q where p: "p = a # b # c # q"
    by (metis Suc_le_length_iff not_less numeral_3_eq_3)
  have "\<not> bit a 7 \<and> \<not> bit b 7 \<and> \<not> bit c 7"
    if "(ucast a OR ucast b OR ucast c :: uint32) < 128"
    using bit_less_exp [of "ucast a OR ucast b OR ucast c :: uint32" 7 7] that
    by (auto simp: bit_simps)
  then show ?thesis
    by (auto simp: DecodeEntry_def p Let_def GetVarint32Ptr_small split: option.splits)
qed

type_synonym entry = "nat \<times> bytes \<times> bytes"

fun entry_bytes :: "entry \<Rightarrow> bytes" where
  "entry_bytes (s, k, v) =
     EncodeVarint32 (of_nat s) @ EncodeVarint32 (of_nat (length k - s)) @
     EncodeVarint32 (of_nat (length v)) @ drop s k @ v"

abbreviation entry_key :: "entry \<Rightarrow> bytes" where
  "entry_key e \<equiv> fst (snd e)"

abbreviation entry_value :: "entry \<Rightarrow> bytes" where
  "entry_value e \<equiv> snd (snd e)"

definition body :: "entry list \<Rightarrow> bytes" where
  "body es = concat (map entry_bytes es)"

definition offset_of :: "entry list \<Rightarrow> nat \<Rightarrow> nat" where
  "offset_of es i = length (body (take i es))"

lemma length_EncodeVarint32_pos: "0 < length (EncodeVarint32 v)"
  by (simp add: EncodeVarint32_eq VarintLength_pos)

lemma length_entry_bytes: "3 \<le> length (entry_bytes e)"
proof (cases e)
  case (fields s k v)
  have "0 < length (EncodeVarint32 (of_nat s))" "0 < length (EncodeVarint32 (of_nat (length k - s)))"
    "0 < length (EncodeVarint32 (of_nat (length v)))"
    by (rule length_EncodeVarint32_pos)+
  then show ?thesis unfolding fields entry_bytes.simps length_append by linarith
qed

lemma unat_of_nat32: "k < 2 ^ 32 \<Longrightarrow> unat (of_nat k :: uint32) = k"
  by (simp add: unat_of_nat take_bit_nat_eq_self)

lemma DecodeEntry_entry:
  assumes "s \<le> length k" and "length k < 2 ^ 32" "length v < 2 ^ 32"
    and "length (entry_bytes (s, k, v) @ rest) < 2 ^ 32"
  shows "DecodeEntry (entry_bytes (s, k, v) @ rest) =
    Some (of_nat s, of_nat (length k - s), of_nat (length v), drop s k @ v @ rest)"
proof -
  have 1: "length (drop s k @ v @ rest) < 2 ^ 32" and 2: "length k - s + length v < 2 ^ 32"
    using assms(4) by auto
  have "(of_nat (length k - s) + of_nat (length v) :: uint32) = of_nat (length k - s + length v)"
    by simp
  then have "unat (of_nat (length k - s) + of_nat (length v) :: uint32) = length k - s + length v"
    by (simp only: unat_of_nat32 [OF 2])
  then have "\<not> (of_nat (length (drop s k @ v @ rest)) :: uint32) <
      of_nat (length k - s) + of_nat (length v)"
    by (simp only: word_less_nat_alt unat_of_nat32 [OF 1]) simp
  moreover have "\<not> length (entry_bytes (s, k, v) @ rest) < 3"
    using length_entry_bytes [of "(s, k, v)"] by simp
  ultimately show ?thesis
    by (simp add: DecodeEntry_eq)
qed

lemma body_simps [simp]: "body [] = []" "body (e # es) = entry_bytes e @ body es"
    "body (es @ fs) = body es @ body fs"
  by (simp_all add: body_def)

lemma offset_of_0 [simp]: "offset_of es 0 = 0"
  by (simp add: offset_of_def)

lemma offset_of_length: "offset_of es (length es) = length (body es)"
  by (simp add: offset_of_def)

lemma offset_of_append [simp]: "i \<le> length es \<Longrightarrow> offset_of (es @ fs) i = offset_of es i"
  by (simp add: offset_of_def)

lemma offset_of_Suc:
  "i < length es \<Longrightarrow> offset_of es (Suc i) = offset_of es i + length (entry_bytes (es ! i))"
  by (simp add: offset_of_def take_Suc_conv_app_nth)

lemma body_split: "i \<le> length es \<Longrightarrow> body es = body (take i es) @ body (drop i es)"
  by (metis append_take_drop_id body_simps(3))

lemma drop_body: "i \<le> length es \<Longrightarrow> drop (offset_of es i) (body es @ r) = body (drop i es) @ r"
  by (subst body_split [of i]) (simp_all add: offset_of_def)

lemma offset_of_le: "offset_of es i \<le> length (body es)"
  by (cases "i \<le> length es") (simp_all add: offset_of_def body_split [of i es])

lemma offset_of_less:
  assumes "i < length es" shows "offset_of es i < length (body es)"
  using assms offset_of_Suc [OF assms] offset_of_le [of es "Suc i"] length_entry_bytes [of "es ! i"]
  by linarith

section \<open>What the builder writes\<close>

text \<open>
  \<open>chain prev es\<close>: every entry shares a prefix with the key before it, of the length it
  claims.
\<close>

fun chain :: "bytes \<Rightarrow> entry list \<Rightarrow> bool" where
  "chain prev [] \<longleftrightarrow> True"
| "chain prev ((s, k, v) # es) \<longleftrightarrow>
     s \<le> length prev \<and> s \<le> length k \<and> take s prev = take s k \<and> chain k es"

definition key_before :: "bytes \<Rightarrow> entry list \<Rightarrow> nat \<Rightarrow> bytes" where
  "key_before prev es i = (if i = 0 then prev else entry_key (es ! (i - 1)))"

lemma key_before_Cons: "key_before prev (e # es) (Suc i) = key_before (entry_key e) es i"
  by (cases i) (simp_all add: key_before_def)

lemma chain_append:
  "chain prev (es @ [(s, k, v)]) \<longleftrightarrow>
     chain prev es \<and> chain (key_before prev (es @ [(s, k, v)]) (length es)) [(s, k, v)]"
proof (induction es arbitrary: prev)
  case Nil
  then show ?case by (simp add: key_before_def)
next
  case (Cons e es)
  then show ?case
    by (cases e; cases es) (simp_all add: key_before_def nth_append)
qed

lemma chain_nth:
  assumes "chain prev es" and "i < length es" and "es ! i = (s, k, v)"
  shows "s \<le> length (key_before prev es i) \<and> s \<le> length k \<and>
    take s (key_before prev es i) = take s k"
  using assms
proof (induction es arbitrary: prev i)
  case (Cons e es)
  show ?case
  proof (cases i)
    case 0
    with Cons.prems show ?thesis by (simp add: key_before_def)
  next
    case (Suc j)
    with Cons.prems have "chain (entry_key e) es" by (cases e) simp
    with Suc Cons show ?thesis by (simp add: key_before_Cons)
  qed
qed simp

definition restart_points :: "entry list \<Rightarrow> nat list \<Rightarrow> bool" where
  "restart_points es ris \<longleftrightarrow>
     ris \<noteq> [] \<and> hd ris = 0 \<and> sorted_wrt (<) ris \<and>
     (\<forall>r \<in> set ris. if es = [] then r = 0 else r < length es \<and> fst (es ! r) = 0)"

definition builder_rel :: "block_builder \<Rightarrow> entry list \<Rightarrow> nat list \<Rightarrow> bool" where
  "builder_rel b es ris \<longleftrightarrow>
     buffer b = body es \<and> restarts b = map (\<lambda>i. of_nat (offset_of es i)) ris \<and>
     last_key b = key_before [] es (length es) \<and> chain [] es \<and> restart_points es ris \<and>
     counter b \<le> length es"

lemma shared_prefix_take:
  "take (shared_prefix a b) a = take (shared_prefix a b) b \<and>
   shared_prefix a b \<le> length a \<and> shared_prefix a b \<le> length b"
  by (induction a b rule: shared_prefix.induct) auto

lemma builder_rel_new: "builder_rel BlockBuilder [] [0]" "builder_rel (Reset b) [] [0]"
  by (simp_all add: builder_rel_def BlockBuilder_def Reset_def restart_points_def key_before_def)

lemma restart_points_snoc:
  assumes "restart_points es ris" and "es = [] \<Longrightarrow> fst e = 0"
  shows "restart_points (es @ [e]) ris"
  using assms by (auto simp: restart_points_def nth_append split: if_splits)

lemma restart_points_snoc_new:
  assumes "restart_points es ris" and "es \<noteq> []" and "fst e = 0"
  shows "restart_points (es @ [e]) (ris @ [length es])"
  using assms by (auto simp: restart_points_def nth_append sorted_wrt_append)

lemma Add_rel:
  assumes rel: "builder_rel b es ris" and K: "1 \<le> block_restart_interval opt"
  shows "\<exists>s ris'. builder_rel (Add opt b k v) (es @ [(s, k, v)]) ris'"
proof (cases "counter b < block_restart_interval opt")
  case True
  let ?s = "shared_prefix (last_key b) k"
  have "restart_points (es @ [(?s, k, v)]) ris"
    using rel by (intro restart_points_snoc) (auto simp: builder_rel_def key_before_def)
  moreover have "chain [] (es @ [(?s, k, v)])"
    using rel shared_prefix_take [of "last_key b" k]
    by (auto simp: chain_append builder_rel_def key_before_def nth_append)
  moreover have "take ?s (last_key b) @ drop ?s k = k"
    using shared_prefix_take [of "last_key b" k] by (metis append_take_drop_id)
  moreover have "i \<le> length es" if "i \<in> set ris" for i
    using rel that by (auto simp: builder_rel_def restart_points_def split: if_splits)
  ultimately have "builder_rel (Add opt b k v) (es @ [(?s, k, v)]) ris"
    using rel True
    by (auto simp: builder_rel_def Add_def Let_def PutVarint32_def key_before_def nth_append)
  then show ?thesis by blast
next
  case False
  then have "es \<noteq> []" using rel K by (auto simp: builder_rel_def)
  have "restart_points (es @ [(0, k, v)]) (ris @ [length es])"
    using rel \<open>es \<noteq> []\<close> by (intro restart_points_snoc_new) (auto simp: builder_rel_def)
  moreover have "chain [] (es @ [(0, k, v)])"
    using rel by (auto simp: chain_append builder_rel_def)
  moreover have "i \<le> length es" if "i \<in> set ris" for i
    using rel that by (auto simp: builder_rel_def restart_points_def split: if_splits)
  ultimately have "builder_rel (Add opt b k v) (es @ [(0, k, v)]) (ris @ [length es])"
    using rel False
    by (auto simp: builder_rel_def Add_def Let_def PutVarint32_def key_before_def nth_append
        offset_of_length)
  then show ?thesis by blast
qed

fun add_all :: "options \<Rightarrow> block_builder \<Rightarrow> (bytes \<times> bytes) list \<Rightarrow> block_builder" where
  "add_all opt b [] = b"
| "add_all opt b ((k, v) # kvs) = add_all opt (Add opt b k v) kvs"

lemma add_all_rel:
  assumes "builder_rel b es ris" and "1 \<le> block_restart_interval opt"
  shows "\<exists>es' ris'. builder_rel (add_all opt b kvs) (es @ es') ris' \<and> map snd es' = kvs"
  using assms
proof (induction kvs arbitrary: b es ris)
  case Nil
  then show ?case by auto
next
  case (Cons kv kvs)
  obtain k v where kv: "kv = (k, v)" by fastforce
  obtain s ris1 where "builder_rel (Add opt b k v) (es @ [(s, k, v)]) ris1"
    using Add_rel Cons.prems by blast
  from Cons.IH [OF this] Cons.prems(2) obtain es' ris' where
    "builder_rel (add_all opt (Add opt b k v) kvs) (es @ (s, k, v) # es') ris'" "map snd es' = kvs"
    by auto
  then show ?case unfolding kv by (intro exI [of _ "(s, k, v) # es'"]) auto
qed

section \<open>What the reader sees\<close>

text \<open>
  \<open>encoded_block d es ris\<close>: the bytes \<open>d\<close> are a finished block with these entries and
  restart points. Offsets in a block are 32 bits wide, which bounds its length.
\<close>

definition encoded_block :: "bytes \<Rightarrow> entry list \<Rightarrow> nat list \<Rightarrow> bool" where
  "encoded_block d es ris \<longleftrightarrow>
     d = body es @ concat (map (\<lambda>i. EncodeFixed32 kLittleEndian (of_nat (offset_of es i))) ris) @
         EncodeFixed32 kLittleEndian (of_nat (length ris)) \<and>
     length d < 2 ^ 32 \<and> chain [] es \<and> restart_points es ris"

lemma put_restarts_eq:
  "put_restarts dst rs = dst @ concat (map (EncodeFixed32 kLittleEndian) rs)"
  by (induction rs arbitrary: dst) (simp_all add: PutFixed32_def)

lemma Finish_encoded:
  assumes "builder_rel b es ris" and "length (fst (Finish b)) < 2 ^ 32"
  shows "encoded_block (fst (Finish b)) es ris"
  using assms by (simp add: encoded_block_def builder_rel_def Finish_def Let_def PutFixed32_def
      put_restarts_eq comp_def)

lemma length_concat_fixed32 [simp]:
  "length (concat (map (\<lambda>i. EncodeFixed32 le (f i)) xs)) = 4 * length xs"
  by (induction xs) simp_all

lemma drop_concat_fixed32:
  "j < length xs \<Longrightarrow> drop (4 * j) (concat (map (\<lambda>i. EncodeFixed32 le (f i)) xs) @ r) =
     EncodeFixed32 le (f (xs ! j)) @
     concat (map (\<lambda>i. EncodeFixed32 le (f i)) (drop (Suc j) xs)) @ r"
proof (induction xs arbitrary: j)
  case (Cons x xs)
  then show ?case by (cases j) simp_all
qed simp

lemma encoded_block_length:
  "encoded_block d es ris \<Longrightarrow> length d = length (body es) + 4 * length ris + 4"
  by (simp add: encoded_block_def)

lemma encoded_block_bound:
  "encoded_block d es ris \<Longrightarrow> length (body es) + 4 * length ris + 4 < 2 ^ 32"
  by (auto simp: encoded_block_def)

lemma NumRestarts_encoded:
  assumes "encoded_block d es ris"
  shows "NumRestarts d (length d) = length ris"
proof -
  have "drop (length d - 4) d = EncodeFixed32 kLittleEndian (of_nat (length ris))"
    using assms by (simp add: encoded_block_def)
  moreover have "length ris < 2 ^ 32"
    using assms encoded_block_length [OF assms] by (simp add: encoded_block_def)
  ultimately show ?thesis
    using DecodeFixed32_Encode [of kLittleEndian kLittleEndian "of_nat (length ris)" "[]"]
    by (simp add: NumRestarts_def unat_of_nat32)
qed

lemma NewIterator_encoded:
  assumes "encoded_block d es ris"
  shows "NewIterator (Block d) = BlockIter (Iter d (length (body es)) (length ris))"
proof -
  have "ris \<noteq> []" "length (body es) < 2 ^ 32"
    using assms encoded_block_length [OF assms] by (auto simp: encoded_block_def restart_points_def)
  then show ?thesis
    using encoded_block_length [OF assms] NumRestarts_encoded [OF assms]
    by (simp add: NewIterator_def Block_def Let_def u32_def)
qed

text \<open>
  The iterator runs over a fixed block. It is \<open>ready\<close> for entry \<open>i\<close> when the next parse
  starts there with a key that the shared prefix can be taken from, and it is
  \<open>at_entry\<close> \<open>i\<close> when it shows that entry (or the end).
\<close>

definition over_block :: "iter \<Rightarrow> bytes \<Rightarrow> entry list \<Rightarrow> nat list \<Rightarrow> bool" where
  "over_block it d es ris \<longleftrightarrow>
     encoded_block d es ris \<and> idata it = d \<and> irestarts it = length (body es) \<and>
     inum_restarts it = length ris \<and> istatus it = None"

definition ready :: "iter \<Rightarrow> bytes \<Rightarrow> entry list \<Rightarrow> nat list \<Rightarrow> nat \<Rightarrow> bool" where
  "ready it d es ris i \<longleftrightarrow>
     over_block it d es ris \<and> i \<le> length es \<and> NextEntryOffset it = offset_of es i \<and>
     (\<forall>s k v. i < length es \<longrightarrow> es ! i = (s, k, v) \<longrightarrow>
        s \<le> length (ikey it) \<and> take s (ikey it) = take s k)"

definition at_entry :: "iter \<Rightarrow> bytes \<Rightarrow> entry list \<Rightarrow> nat list \<Rightarrow> nat \<Rightarrow> bool" where
  "at_entry it d es ris i \<longleftrightarrow>
     over_block it d es ris \<and> i \<le> length es \<and>
     (if i < length es
      then current it = offset_of es i \<and> ikey it = entry_key (es ! i) \<and>
        (\<exists>off. ivalue it = Some (off, length (entry_value (es ! i))) \<and>
          off + length (entry_value (es ! i)) = offset_of es (Suc i) \<and>
          take (length (entry_value (es ! i))) (drop off d) = entry_value (es ! i))
      else current it = length (body es))"

lemma advance_restart_frame:
  "\<exists>n. advance_restart it = it\<lparr>restart_index := n\<rparr>"
proof (induction it rule: advance_restart.induct)
  case (1 it)
  show ?case
  proof (cases "restart_index it + 1 < inum_restarts it \<and>
         GetRestartPoint it (restart_index it + 1) < current it")
    case True
    with 1 show ?thesis by (subst advance_restart.simps) auto
  next
    case False
    then show ?thesis by (subst advance_restart.simps) (auto intro: exI [of _ "restart_index it"])
  qed
qed

lemma GetRestartPoint_over:
  assumes "over_block it d es ris" and "j < length ris"
  shows "GetRestartPoint it j = offset_of es (ris ! j)"
proof -
  have d: "drop (irestarts it + j * 4) (idata it) =
      drop (4 * j) (concat (map (\<lambda>i. EncodeFixed32 kLittleEndian (of_nat (offset_of es i))) ris) @
        EncodeFixed32 kLittleEndian (of_nat (length ris)))"
    using assms(1) by (simp add: over_block_def encoded_block_def mult.commute)
  have "offset_of es (ris ! j) < 2 ^ 32"
    using offset_of_le [of es "ris ! j"] assms(1) encoded_block_bound [of d es ris]
    by (simp add: over_block_def)
  then show ?thesis
    unfolding GetRestartPoint_def d drop_concat_fixed32 [OF assms(2)]
    by (simp add: unat_of_nat32)
qed

text \<open>One parse at an entry whose prefix is in the key buffer.\<close>

lemma entry_lengths:
  assumes "encoded_block d es ris" and "i < length es" and "es ! i = (s, k, v)"
  shows "s \<le> length k" and "length (entry_bytes (s, k, v)) + length (body (drop (Suc i) es)) < 2 ^ 32"
proof -
  show "s \<le> length k"
    using assms chain_nth [of "[]" es i s k v] by (simp add: encoded_block_def)
  have "body es = body (take i es) @ entry_bytes (s, k, v) @ body (drop (Suc i) es)"
    using assms(2,3) by (metis append_take_drop_id body_simps(2,3) Cons_nth_drop_Suc)
  then have "length (entry_bytes (s, k, v)) + length (body (drop (Suc i) es)) \<le> length (body es)"
    by (metis length_append le_add2)
  then show "length (entry_bytes (s, k, v)) + length (body (drop (Suc i) es)) < 2 ^ 32"
    using encoded_block_bound [OF assms(1)] by linarith
qed

lemma DecodeEntry_at:
  assumes over: "over_block it d es ris" and i: "i < length es" and e: "es ! i = (s, k, v)"
    and k: "length k < 2 ^ 32"
  shows "DecodeEntry (take (irestarts it - offset_of es i) (drop (offset_of es i) (idata it))) =
    Some (of_nat s, of_nat (length k - s), of_nat (length v),
      drop s k @ v @ body (drop (Suc i) es))"
proof -
  have enc: "encoded_block d es ris" using over by (simp add: over_block_def)
  have "take (irestarts it - offset_of es i) (drop (offset_of es i) (idata it)) =
      body (drop i es)"
  proof -
    have "length (body (drop i es)) = length (body es) - offset_of es i"
      using i body_split [of i es] by (simp add: offset_of_def)
    then show ?thesis
      using over enc drop_body [of i es] i
      by (auto simp: over_block_def encoded_block_def simp del: drop_append)
  qed
  also have "\<dots> = entry_bytes (s, k, v) @ body (drop (Suc i) es)"
    using i e by (simp flip: Cons_nth_drop_Suc)
  finally have p: "take (irestarts it - offset_of es i) (drop (offset_of es i) (idata it)) =
      entry_bytes (s, k, v) @ body (drop (Suc i) es)" .
  note len = entry_lengths [OF enc i e]
  have "length v < 2 ^ 32" using len(2) by simp
  then show ?thesis
    unfolding p using len(2) by (intro DecodeEntry_entry [OF len(1) k]) simp_all
qed

text \<open>
  A key may be longer than a block only through prefixes it shares; its length still fits
  the 32 bits it is stored in, because it grows by at most the bytes of its entries.
\<close>

lemma key_length_le:
  "chain prev es \<Longrightarrow> i < length es \<Longrightarrow>
    length (entry_key (es ! i)) \<le> length prev + length (body (take (Suc i) es))"
proof (induction es arbitrary: prev i)
  case (Cons e es)
  obtain s k v where e: "e = (s, k, v)" by (cases e)
  have k: "length k \<le> length prev + length (entry_bytes e)"
    using Cons.prems(1) by (auto simp: e)
  show ?case
  proof (cases i)
    case 0
    with k show ?thesis by (simp add: e)
  next
    case (Suc j)
    with Cons.IH [of k j] Cons.prems k show ?thesis by (auto simp: e)
  qed
qed simp

lemma key_length_less:
  assumes "encoded_block d es ris" and "i < length es"
  shows "length (entry_key (es ! i)) < 2 ^ 32"
proof -
  have "length (entry_key (es ! i)) \<le> offset_of es (Suc i)"
    using assms key_length_le [of "[]" es i] by (simp add: encoded_block_def offset_of_def)
  then show ?thesis
    using offset_of_le [of es "Suc i"] encoded_block_bound [OF assms(1)] by linarith
qed

lemma ParseNextKey_ready:
  assumes r: "ready it d es ris i" and i: "i < length es"
  shows "\<exists>it'. ParseNextKey it = (True, it') \<and> at_entry it' d es ris i \<and> ready it' d es ris (Suc i)"
proof -
  obtain s k v where e: "es ! i = (s, k, v)" by (cases "es ! i")
  have over: "over_block it d es ris" and nx: "NextEntryOffset it = offset_of es i"
    and s: "s \<le> length (ikey it)" "take s (ikey it) = take s k"
    using r i e by (auto simp: ready_def)
  have enc: "encoded_block d es ris" using over by (simp add: over_block_def)
  note len = entry_lengths [OF enc i e]
  have k: "length k < 2 ^ 32" using key_length_less [OF enc i] e by simp
  then have su: "unat (of_nat s :: uint32) = s" "unat (of_nat (length k - s) :: uint32) = length k - s"
    using len(1) by (intro unat_of_nat32; linarith)+
  have v: "unat (of_nat (length v) :: uint32) = length v" using len(2) by (simp add: unat_of_nat32)
  have cur: "offset_of es i < irestarts it" using over offset_of_less [OF i] by (simp add: over_block_def)
  define q where "q = drop s k @ v @ body (drop (Suc i) es)"
  define it1 where "it1 = it\<lparr>current := offset_of es i, ikey := k,
      ivalue := Some (irestarts it - length q + (length k - s), length v)\<rparr>"
  have "take s (ikey it) @ take (length k - s) q = k"
    using s(2) by (simp add: q_def)
  then have pk: "ParseNextKey it = (True, advance_restart it1)"
    using DecodeEntry_at [OF over i e k] cur s(1)
    by (simp add: ParseNextKey_def nx Let_def su v it1_def flip: q_def)
  obtain n where n: "advance_restart it1 = it1\<lparr>restart_index := n\<rparr>"
    using advance_restart_frame by blast
  define off where "off = irestarts it - length q + (length k - s)"
  have f: "idata (advance_restart it1) = idata it" "irestarts (advance_restart it1) = irestarts it"
    "inum_restarts (advance_restart it1) = inum_restarts it"
    "istatus (advance_restart it1) = istatus it" "ikey (advance_restart it1) = k"
    "current (advance_restart it1) = offset_of es i"
    "ivalue (advance_restart it1) = Some (off, length v)"
    unfolding n by (simp_all add: it1_def off_def)
  define hdr where "hdr = EncodeVarint32 (of_nat s) @ EncodeVarint32 (of_nat (length k - s)) @
      EncodeVarint32 (of_nat (length v))"
  have split: "body es = body (take i es) @ hdr @ q"
  proof -
    have "body es = body (take i es) @ entry_bytes (s, k, v) @ body (drop (Suc i) es)"
      using i e by (metis append_take_drop_id body_simps(2,3) Cons_nth_drop_Suc)
    then show ?thesis by (simp add: hdr_def q_def)
  qed
  have off_eq: "off = offset_of es i + length hdr + (length k - s)"
    using over by (simp add: off_def over_block_def split offset_of_def)
  have off: "off + length v = offset_of es (Suc i)"
    unfolding off_eq offset_of_Suc [OF i] e using len(1) by (simp add: hdr_def)
  obtain t where "d = body es @ t" using enc by (auto simp: encoded_block_def)
  then have "d = (body (take i es) @ hdr @ drop s k) @ v @ body (drop (Suc i) es) @ t"
    by (simp add: split q_def)
  moreover have "length (body (take i es) @ hdr @ drop s k) = off"
    by (simp add: off_eq offset_of_def)
  ultimately have val: "take (length v) (drop off d) = v"
    by (metis drop_append_exact take_append_exact)
  have "at_entry (advance_restart it1) d es ris i"
    using over i e off val by (simp add: at_entry_def f over_block_def)
  moreover have "ready (advance_restart it1) d es ris (Suc i)"
    unfolding ready_def
  proof (intro conjI allI impI)
    show "over_block (advance_restart it1) d es ris"
      using over by (simp add: f over_block_def)
    have "offset_of es (Suc i) < 2 ^ 32"
      using offset_of_le [of es "Suc i"] encoded_block_bound [OF enc] by linarith
    then show "NextEntryOffset (advance_restart it1) = offset_of es (Suc i)"
      using off by (simp add: NextEntryOffset_def f u32_def)
    fix s' k' v' assume "Suc i < length es" "es ! Suc i = (s', k', v')"
    then show "s' \<le> length (ikey (advance_restart it1))"
      "take s' (ikey (advance_restart it1)) = take s' k'"
      using chain_nth [of "[]" es "Suc i" s' k' v'] enc e
      by (simp_all add: encoded_block_def key_before_def f)
  qed (use i in simp)
  ultimately show ?thesis using pk by blast
qed

lemma ParseNextKey_end:
  assumes "ready it d es ris (length es)"
  shows "\<exists>it'. ParseNextKey it = (False, it') \<and> at_entry it' d es ris (length es)"
  using assms
  by (auto simp: ready_def ParseNextKey_def Let_def offset_of_length at_entry_def over_block_def)

lemma at_entry_Valid: "at_entry it d es ris i \<Longrightarrow> Valid it \<longleftrightarrow> i < length es"
  using offset_of_less [of i es]
  by (cases "i < length es") (auto simp: at_entry_def Valid_def over_block_def)

lemma at_entry_key:
  "at_entry it d es ris i \<Longrightarrow> i < length es \<Longrightarrow>
    key_of it = entry_key (es ! i) \<and> value_of it = entry_value (es ! i)"
  by (auto simp: at_entry_def key_of_def value_of_def over_block_def)

lemma at_entry_status: "at_entry it d es ris i \<Longrightarrow> istatus it = None"
  by (simp add: at_entry_def over_block_def)

lemma at_entry_ready:
  assumes "at_entry it d es ris i" and "i < length es"
  shows "ready it d es ris (Suc i)"
proof -
  have enc: "encoded_block d es ris" using assms(1) by (simp add: at_entry_def over_block_def)
  have "offset_of es (Suc i) < 2 ^ 32"
    using offset_of_le [of es "Suc i"] encoded_block_bound [OF enc] by linarith
  then show ?thesis
    using assms chain_nth [of "[]" es "Suc i"] enc
    by (auto simp: at_entry_def ready_def NextEntryOffset_def u32_def key_before_def encoded_block_def)
qed

lemma ParseNextKey_ready_cases:
  assumes "ready it d es ris i"
  shows "\<exists>it'. ParseNextKey it = (i < length es, it') \<and> at_entry it' d es ris i"
proof (cases "i < length es")
  case True
  then show ?thesis using ParseNextKey_ready [OF assms True] by auto
next
  case False
  with assms have "i = length es" by (simp add: ready_def)
  then show ?thesis using ParseNextKey_end assms by fastforce
qed

lemma SeekToRestartPoint_ready:
  assumes "over_block it d es ris" and "j < length ris"
  shows "ready (SeekToRestartPoint it j) d es ris (ris ! j)"
proof -
  have enc: "encoded_block d es ris" using assms(1) by (simp add: over_block_def)
  have rj: "if es = [] then ris ! j = 0 else ris ! j < length es \<and> fst (es ! (ris ! j)) = 0"
    using enc assms(2) by (simp add: encoded_block_def restart_points_def)
  have "offset_of es (ris ! j) < 2 ^ 32"
    using offset_of_le [of es "ris ! j"] encoded_block_bound [OF enc] by linarith
  then show ?thesis
    using assms rj GetRestartPoint_over [OF assms]
    by (auto simp: ready_def SeekToRestartPoint_def NextEntryOffset_def u32_def over_block_def
        split: if_splits)
qed

text \<open>Moving through the block.\<close>

lemma SeekToFirst_at:
  assumes "over_block it d es ris"
  shows "at_entry (SeekToFirst it) d es ris 0"
proof -
  have "0 < length ris" "ris ! 0 = 0"
    using assms by (auto simp: over_block_def encoded_block_def restart_points_def hd_conv_nth)
  then show ?thesis
    using SeekToRestartPoint_ready [OF assms, of 0] ParseNextKey_ready_cases
    by (fastforce simp: SeekToFirst_def)
qed

lemma Next_at:
  assumes "at_entry it d es ris i" and "i < length es"
  shows "at_entry (Next it) d es ris (Suc i)"
  using ParseNextKey_ready_cases [OF at_entry_ready [OF assms]] by (auto simp: Next_def)

section \<open>Seeking\<close>

abbreviation sorted_entries :: "entry list \<Rightarrow> bool" where
  "sorted_entries es \<equiv> sorted_wrt (<) (map entry_key es)"

definition seek_pos :: "bytes list \<Rightarrow> bytes \<Rightarrow> nat" where
  "seek_pos ks t = length (takeWhile (\<lambda>k. k < t) ks)"

lemma seek_pos_le: "seek_pos ks t \<le> length ks"
  by (simp add: seek_pos_def length_takeWhile_le)

lemma seek_pos_less: "seek_pos ks t < length ks \<longleftrightarrow> (\<exists>k \<in> set ks. t \<le> k)"
proof -
  have "seek_pos ks t = length ks \<longleftrightarrow> takeWhile (\<lambda>k. k < t) ks = ks"
    unfolding seek_pos_def by (metis takeWhile_eq_take take_all order_refl)
  then have "seek_pos ks t = length ks \<longleftrightarrow> (\<forall>k \<in> set ks. k < t)"
    by (simp add: takeWhile_eq_all_conv)
  then show ?thesis
    using seek_pos_le [of ks t] by (metis le_neq_implies_less less_irrefl not_le)
qed

lemma seek_pos_eqI:
  assumes "i \<le> length ks" and "\<And>j. j < i \<Longrightarrow> ks ! j < t" and "i < length ks \<Longrightarrow> t \<le> ks ! i"
  shows "seek_pos ks t = i"
proof -
  have "takeWhile (\<lambda>k. k < t) ks = take i ks"
    using assms by (intro takeWhile_eq_take_P_nth) auto
  then show ?thesis using assms(1) by (simp add: seek_pos_def)
qed

text \<open>The first of the pairs whose key is not below \<open>t\<close>.\<close>

definition first_not_below :: "bytes \<Rightarrow> (bytes \<times> bytes) list \<Rightarrow> bytes \<times> bytes \<Rightarrow> bool" where
  "first_not_below t kvs kv \<longleftrightarrow> kv \<in> set kvs \<and> t \<le> fst kv \<and> (\<forall>k \<in> fst ` set kvs. t \<le> k \<longrightarrow> fst kv \<le> k)"

lemma seek_pos_first:
  assumes "sorted_wrt (<) (map fst kvs)" "seek_pos (map fst kvs) t < length kvs"
  shows "first_not_below t kvs (kvs ! seek_pos (map fst kvs) t)"
proof -
  define n where "n = seek_pos (map fst kvs) t"
  have n: "n < length kvs" using assms(2) by (simp add: n_def)
  have "\<not> map fst kvs ! n < t"
    using nth_length_takeWhile [of "\<lambda>k. k < t" "map fst kvs"] n by (simp add: n_def seek_pos_def)
  moreover have "fst (kvs ! n) \<le> fst (kvs ! j)" if j: "j < length kvs" "t \<le> fst (kvs ! j)" for j
  proof (cases "j < n")
    case True
    then have "map fst kvs ! j = takeWhile (\<lambda>k. k < t) (map fst kvs) ! j"
      unfolding n_def seek_pos_def by (rule takeWhile_nth [symmetric])
    then have "map fst kvs ! j < t"
      using True set_takeWhileD [OF nth_mem [of j "takeWhile (\<lambda>k. k < t) (map fst kvs)"]] by (simp add: n_def seek_pos_def)
    then show ?thesis using j by simp
  next
    case False
    then show ?thesis using sorted_wrt_nth_less [OF assms(1), of n j] j(1) by (cases "j = n") auto
  qed
  ultimately show ?thesis
    using n unfolding first_not_below_def n_def [symmetric] by (auto simp: in_set_conv_nth) (metis fst_conv)
qed

lemma seek_linear_ready:
  assumes "ready it d es ris i" and "\<And>j. j < i \<Longrightarrow> entry_key (es ! j) < t"
  shows "\<exists>it'. seek_linear it t = Some it' \<and> at_entry it' d es ris (seek_pos (map entry_key es) t)"
  using assms
proof (induction "length es - i" arbitrary: it i)
  case 0
  then have i: "i = length es" by (simp add: ready_def)
  then have "seek_pos (map entry_key es) t = i"
    using 0 by (intro seek_pos_eqI) auto
  with 0 i ParseNextKey_end [of it d es ris] show ?case
    by (subst seek_linear.simps) auto
next
  case (Suc n)
  then have i: "i < length es" by simp
  obtain it' where p: "ParseNextKey it = (True, it')" and a: "at_entry it' d es ris i"
    and r: "ready it' d es ris (Suc i)"
    using ParseNextKey_ready [OF Suc.prems(1) i] by blast
  have k: "ikey it' = entry_key (es ! i)" using a i by (simp add: at_entry_def)
  show ?case
  proof (cases "t \<le> entry_key (es ! i)")
    case True
    then have "seek_pos (map entry_key es) t = i"
      using Suc.prems i by (intro seek_pos_eqI) auto
    with a p True show ?thesis
      by (subst seek_linear.simps) (simp add: k compare_sp_ge)
  next
    case False
    then have "entry_key (es ! j) < t" if "j < Suc i" for j
      using Suc.prems(2) [of j] that by (auto simp: less_Suc_eq)
    from Suc.hyps(1) [OF _ r this] Suc.hyps(2) have "\<exists>it''. seek_linear it' t = Some it'' \<and>
        at_entry it'' d es ris (seek_pos (map entry_key es) t)"
      by simp
    with p False show ?thesis
      by (subst seek_linear.simps) (simp add: k compare_sp_ge)
  qed
qed

lemma seek_restart_over:
  assumes over: "over_block it d es ris" and es: "es \<noteq> []"
    and "l \<le> r" "r < length ris" "l = 0 \<or> entry_key (es ! (ris ! l)) < t"
  shows "\<exists>j. seek_restart it t l r = Some j \<and> j < length ris \<and>
    (j = 0 \<or> entry_key (es ! (ris ! j)) < t)"
  using assms(3-)
proof (induction "r - l" arbitrary: l r rule: less_induct)
  case less
  show ?case
  proof (cases "l < r")
    case False
    with less.prems show ?thesis by (subst seek_restart.simps) simp
  next
    case True
    define mid where "mid = Suc (l + r) div 2"
    have mid: "l < mid" "mid \<le> r" "mid < length ris" using True less.prems by (auto simp: mid_def)
    have enc: "encoded_block d es ris" using over by (simp add: over_block_def)
    have rp: "ris ! mid < length es" "fst (es ! (ris ! mid)) = 0"
      using enc es mid(3) by (auto simp: encoded_block_def restart_points_def)
    obtain k v where e: "es ! (ris ! mid) = (0, k, v)"
      using rp(2) by (cases "es ! (ris ! mid)") auto
    have k: "length k < 2 ^ 32" using key_length_less [OF enc rp(1)] e by simp
    have step: "seek_restart it t l r =
        (if k < t then seek_restart it t mid r else seek_restart it t l (mid - 1))"
      using True DecodeEntry_at [OF over rp(1) e k] GetRestartPoint_over [OF over mid(3)] k
      by (subst seek_restart.simps)
        (simp add: Let_def unat_of_nat32 compare_sp_less flip: mid_def)
    show ?thesis
    proof (cases "k < t")
      case True
      with less.hyps [of r mid] less.prems mid e show ?thesis by (simp add: step)
    next
      case False
      with less.hyps [of "mid - 1" l] less.prems mid show ?thesis by (simp add: step)
    qed
  qed
qed

lemma Seek_at:
  assumes over: "over_block it d es ris" and sorted: "sorted_entries es"
  shows "\<exists>it'. Seek it t = Some it' \<and> at_entry it' d es ris (seek_pos (map entry_key es) t)"
proof (cases "es = []")
  case True
  have rp: "restart_points es ris" using over by (simp add: over_block_def encoded_block_def)
  then have "length ris = 1"
    using True by (cases ris; cases "tl ris") (auto simp: restart_points_def)
  moreover have "ris ! 0 = 0" using rp by (auto simp: restart_points_def hd_conv_nth)
  ultimately show ?thesis
    using over SeekToRestartPoint_ready [OF over, of 0] seek_linear_ready [of _ d es ris 0 t]
    by (simp add: Seek_def seek_restart.simps over_block_def)
next
  case False
  have rp: "restart_points es ris" using over by (simp add: over_block_def encoded_block_def)
  then have "0 < length ris" by (simp add: restart_points_def)
  then obtain j where j: "seek_restart it t 0 (inum_restarts it - 1) = Some j" "j < length ris"
      "j = 0 \<or> entry_key (es ! (ris ! j)) < t"
    using seek_restart_over [OF over False, of 0 "length ris - 1" t] over
    by (auto simp: over_block_def)
  have "entry_key (es ! i) < t" if i: "i < ris ! j" for i
  proof -
    have "ris ! 0 = 0" using rp by (auto simp: restart_points_def hd_conv_nth)
    then have "j \<noteq> 0" using i by (metis not_less0)
    moreover have "ris ! j < length es" using rp False j(2) by (auto simp: restart_points_def)
    ultimately show ?thesis
      using sorted_wrt_nth_less [OF sorted, of i "ris ! j"] i j(3) by auto
  qed
  with seek_linear_ready [OF SeekToRestartPoint_ready [OF over j(2)]] j(1)
  show ?thesis by (simp add: Seek_def)
qed

section \<open>The cursor interface\<close>

text \<open>
  What \<open>lib/io/iterator.h\<close> promises to the code that uses an iterator: it runs over a
  fixed list of pairs (\<open>over\<close>), it stands at a position of that list (\<open>at_pos\<close>), and
  its operations move that position. A seek that does not return would be \<open>None\<close>.
\<close>

locale sorted_cursor =
  fixes over :: "'i \<Rightarrow> (bytes \<times> bytes) list \<Rightarrow> bool"
    and at_pos :: "'i \<Rightarrow> (bytes \<times> bytes) list \<Rightarrow> nat \<Rightarrow> bool"
    and valid :: "'i \<Rightarrow> bool" and key :: "'i \<Rightarrow> bytes" and val :: "'i \<Rightarrow> bytes"
    and seek_first :: "'i \<Rightarrow> 'i" and move_next :: "'i \<Rightarrow> 'i"
    and seek :: "'i \<Rightarrow> bytes \<Rightarrow> 'i option"
  assumes at_valid: "at_pos i kvs n \<Longrightarrow> valid i \<longleftrightarrow> n < length kvs"
    and at_key: "at_pos i kvs n \<Longrightarrow> n < length kvs \<Longrightarrow> (key i, val i) = kvs ! n"
    and at_le: "at_pos i kvs n \<Longrightarrow> n \<le> length kvs"
    and at_over: "at_pos i kvs n \<Longrightarrow> over i kvs"
    and first_at: "over i kvs \<Longrightarrow> at_pos (seek_first i) kvs 0"
    and next_at: "at_pos i kvs n \<Longrightarrow> n < length kvs \<Longrightarrow> at_pos (move_next i) kvs (Suc n)"
    and seek_at: "over i kvs \<Longrightarrow> sorted_wrt (<) (map fst kvs) \<Longrightarrow>
      \<exists>i'. seek i t = Some i' \<and> at_pos i' kvs (seek_pos (map fst kvs) t)"
begin

text \<open>The loop \<open>for (it->SeekToFirst(); it->Valid(); it->Next())\<close>, with a bound on its rounds.\<close>

fun collect :: "nat \<Rightarrow> 'i \<Rightarrow> (bytes \<times> bytes) list" where
  "collect 0 i = []"
| "collect (Suc n) i = (if valid i then (key i, val i) # collect n (move_next i) else [])"

lemma collect_at:
  "at_pos i kvs n \<Longrightarrow> length kvs - n \<le> fuel \<Longrightarrow> collect fuel i = drop n kvs"
proof (induction fuel arbitrary: i n)
  case 0
  then show ?case by simp
next
  case (Suc fuel)
  show ?case
  proof (cases "n < length kvs")
    case True
    with Suc.IH [OF next_at [OF Suc.prems(1) True]] Suc.prems show ?thesis
      by (simp add: at_valid at_key Cons_nth_drop_Suc)
  next
    case False
    with Suc.prems show ?thesis by (simp add: at_valid)
  qed
qed

lemma collect_all: "over i kvs \<Longrightarrow> length kvs \<le> fuel \<Longrightarrow> collect fuel (seek_first i) = kvs"
  using collect_at [OF first_at] by fastforce

lemma seek_pos_mem:
  assumes "sorted_wrt (<) ks" and "t \<in> set ks"
  shows "seek_pos ks t < length ks \<and> ks ! seek_pos ks t = t"
proof -
  obtain j where j: "j < length ks" "ks ! j = t" using assms(2) by (meson in_set_conv_nth)
  have "seek_pos ks t = j"
    using j sorted_wrt_nth_less [OF assms(1)] by (intro seek_pos_eqI) auto
  with j show ?thesis by simp
qed

lemma seek_found:
  assumes "over i kvs" and "sorted_wrt (<) (map fst kvs)" and "(t, v) \<in> set kvs"
  shows "\<exists>i'. seek i t = Some i' \<and> valid i' \<and> key i' = t \<and> val i' = v"
proof -
  obtain i' where i': "seek i t = Some i'" "at_pos i' kvs (seek_pos (map fst kvs) t)"
    using seek_at assms by blast
  define n where "n = seek_pos (map fst kvs) t"
  have n: "n < length kvs" "fst (kvs ! n) = t"
    using seek_pos_mem [OF assms(2), of t] assms(3) by (force simp: n_def)+
  moreover have "distinct (map fst kvs)"
    using assms(2) by (simp add: strict_sorted_iff)
  ultimately have "kvs ! n = (t, v)"
    using assms(3) by (metis eq_key_imp_eq_value nth_mem prod.collapse)
  then have "(key i', val i') = (t, v)" using at_key [OF i'(2)] n(1) by (simp add: n_def)
  then show ?thesis using i' n(1) at_valid [OF i'(2)] by (simp add: n_def)
qed

lemma seek_first_not_below:
  assumes "over i kvs" and "sorted_wrt (<) (map fst kvs)" and "seek i t = Some i'" and "valid i'"
  shows "first_not_below t kvs (key i', val i')"
proof -
  have at: "at_pos i' kvs (seek_pos (map fst kvs) t)" using seek_at [OF assms(1,2), of t] assms(3) by simp
  then have n: "seek_pos (map fst kvs) t < length kvs" using at_valid assms(4) by blast
  show ?thesis using seek_pos_first [OF assms(2) n] at_key [OF at n] by simp
qed

lemma seek_missing:
  assumes "over i kvs" and "sorted_wrt (<) (map fst kvs)" and "t \<notin> fst ` set kvs"
  shows "\<exists>i'. seek i t = Some i' \<and> (valid i' \<longrightarrow> t < key i')"
proof -
  obtain i' where i': "seek i t = Some i'" "at_pos i' kvs (seek_pos (map fst kvs) t)"
    using seek_at assms by blast
  define n where "n = seek_pos (map fst kvs) t"
  have "t < key i'" if v: "valid i'"
  proof -
    have n: "n < length kvs" using v at_valid [OF i'(2)] by (simp add: n_def)
    then have "key i' = map fst kvs ! n" using at_key [OF i'(2)] by (simp add: n_def) (metis fst_conv)
    moreover have "\<not> map fst kvs ! n < t"
      using nth_length_takeWhile [of "\<lambda>k. k < t" "map fst kvs"] n by (simp add: n_def seek_pos_def)
    moreover have "key i' \<noteq> t"
      using calculation(1) n assms(3) by (metis image_eqI length_map nth_map nth_mem)
    ultimately show ?thesis by simp
  qed
  with i'(1) show ?thesis by blast
qed

end

definition block_over :: "iter \<Rightarrow> (bytes \<times> bytes) list \<Rightarrow> bool" where
  "block_over it kvs \<longleftrightarrow> (\<exists>d es ris. over_block it d es ris \<and> map snd es = kvs)"

definition block_at :: "iter \<Rightarrow> (bytes \<times> bytes) list \<Rightarrow> nat \<Rightarrow> bool" where
  "block_at it kvs n \<longleftrightarrow> (\<exists>d es ris. at_entry it d es ris n \<and> map snd es = kvs)"

interpretation block_cursor: sorted_cursor block_over block_at Valid key_of value_of
  SeekToFirst Next Seek
proof unfold_locales
  fix it kvs n
  assume "block_at it kvs n"
  then obtain d es ris where a: "at_entry it d es ris n" "map snd es = kvs"
    by (auto simp: block_at_def)
  show "Valid it \<longleftrightarrow> n < length kvs" "n \<le> length kvs"
    using at_entry_Valid [OF a(1)] a by (auto simp: at_entry_def)
  show "block_over it kvs" using a by (auto simp: block_over_def at_entry_def)
  assume n: "n < length kvs"
  then have n': "n < length es" using a(2) by auto
  show "(key_of it, value_of it) = kvs ! n"
    using at_entry_key [OF a(1) n'] a(2) n' by auto
  show "block_at (Next it) kvs (Suc n)"
    using Next_at [OF a(1) n'] a(2) by (auto simp: block_at_def)
next
  fix it kvs t
  assume o: "block_over it kvs"
  then show "block_at (SeekToFirst it) kvs 0"
    unfolding block_over_def block_at_def using SeekToFirst_at by blast
  assume "sorted_wrt (<) (map fst kvs)"
  with o show "\<exists>i'. Seek it t = Some i' \<and> block_at i' kvs (seek_pos (map fst kvs) t)"
    using Seek_at by (fastforce simp: block_over_def block_at_def comp_def)
qed

lemma NewIterator_over:
  assumes "1 \<le> block_restart_interval opt"
    and "length (fst (Finish (add_all opt BlockBuilder kvs))) < 2 ^ 32"
  shows "\<exists>it. NewIterator (Block (fst (Finish (add_all opt BlockBuilder kvs)))) = BlockIter it \<and>
    block_over it kvs"
proof -
  obtain es ris where rel: "builder_rel (add_all opt BlockBuilder kvs) es ris" "map snd es = kvs"
    using add_all_rel [OF builder_rel_new(1) assms(1), of kvs] by auto
  note enc = Finish_encoded [OF rel(1) assms(2)]
  have "over_block (Iter (fst (Finish (add_all opt BlockBuilder kvs))) (length (body es)) (length ris))
      (fst (Finish (add_all opt BlockBuilder kvs))) es ris"
    using enc by (simp add: over_block_def Iter_def)
  then show ?thesis using NewIterator_encoded [OF enc] rel(2) by (auto simp: block_over_def)
qed

section \<open>Properties\<close>

text \<open>
  Whatever pairs are added to a fresh block builder, a reader of the finished block
  (of less than 4 GiB) that starts at the first entry and calls \<open>Next\<close> sees exactly
  these pairs in order, prefix compression and restart points notwithstanding.
\<close>

theorem block_roundtrip:
  assumes "1 \<le> block_restart_interval opt"
    and "fst (Finish (add_all opt BlockBuilder kvs)) = contents" and "length contents < 2 ^ 32"
  shows "\<exists>it. NewIterator (Block contents) = BlockIter it \<and>
    block_cursor.collect (length kvs + n) (SeekToFirst it) = kvs \<and>
    istatus (SeekToFirst it) = None"
proof -
  obtain it where it: "NewIterator (Block contents) = BlockIter it" "block_over it kvs"
    using NewIterator_over assms by blast
  have "block_at (SeekToFirst it) kvs 0" using it(2) by (rule block_cursor.first_at)
  then have "istatus (SeekToFirst it) = None"
    by (auto simp: block_at_def dest: at_entry_status)
  then show ?thesis using it block_cursor.collect_all [OF it(2)] by auto
qed

theorem block_roundtrip_witness:
  "\<exists>it. NewIterator (Block (fst (Finish (add_all default_options BlockBuilder
      [([1, 2], [9]), ([1, 3], [])])))) = BlockIter it \<and>
    block_cursor.collect (length [([1, 2], [9]), ([1, 3 :: byte], [] :: bytes)] + 0) (SeekToFirst it) =
      [([1, 2], [9]), ([1, 3], [])] \<and> istatus (SeekToFirst it) = None"
proof -
  let ?kvs = "[([1, 2], [9]), ([1, 3], [])] :: (bytes \<times> bytes) list"
  have "1 \<le> block_restart_interval default_options" by (simp add: default_options_def)
  moreover have "length (fst (Finish (add_all default_options BlockBuilder ?kvs))) < 2 ^ 32"
    by (simp add: default_options_def BlockBuilder_def Add_def Finish_def Let_def
      PutVarint32_def PutFixed32_def EncodeVarint32_def)
  ultimately show ?thesis by (rule block_roundtrip [OF _ refl])
qed

text \<open>
  C9: In a block built from strictly increasing keys, \<open>Seek\<close> always returns and stands
  at the first pair whose key is not below the target, and is past the end exactly when
  there is none. In particular it finds the value of every key that was added.
\<close>

theorem block_seek:
  assumes "1 \<le> block_restart_interval opt"
    and "fst (Finish (add_all opt BlockBuilder kvs)) = contents" and "length contents < 2 ^ 32"
    and "sorted_wrt (<) (map fst kvs)"
  shows "\<exists>it it'. NewIterator (Block contents) = BlockIter it \<and> Seek it t = Some it' \<and>
    istatus it' = None \<and> Valid it' = (\<exists>k \<in> fst ` set kvs. t \<le> k) \<and>
    (Valid it' \<longrightarrow> first_not_below t kvs (key_of it', value_of it')) \<and>
    (\<forall>v. (t, v) \<in> set kvs \<longrightarrow> Valid it' \<and> key_of it' = t \<and> value_of it' = v) \<and>
    (t \<notin> fst ` set kvs \<longrightarrow> Valid it' \<longrightarrow> t < key_of it')"
proof -
  obtain it where it: "NewIterator (Block contents) = BlockIter it" "block_over it kvs"
    using NewIterator_over assms by blast
  obtain it' where it': "Seek it t = Some it'" "block_at it' kvs (seek_pos (map fst kvs) t)"
    using block_cursor.seek_at [OF it(2) assms(4)] by blast
  have "istatus it' = None" using it'(2) by (auto simp: block_at_def dest: at_entry_status)
  moreover have "seek_pos (map fst kvs) t < length kvs \<longleftrightarrow> (\<exists>k \<in> fst ` set kvs. t \<le> k)"
    using seek_pos_less [of "map fst kvs" t] by simp
  ultimately show ?thesis
    using it it' block_cursor.seek_found [OF it(2) assms(4), of t]
      block_cursor.seek_missing [OF it(2) assms(4), of t] block_cursor.at_valid [OF it'(2)]
      block_cursor.seek_first_not_below [OF it(2) assms(4) it'(1)]
    by (intro exI [of _ it] exI [of _ it']) auto
qed

theorem block_seek_witness:
  "\<exists>it it'. NewIterator (Block (fst (Finish (add_all default_options BlockBuilder
      [([1, 2], [9]), ([1, 4], []), ([2], [5])])))) = BlockIter it \<and> Seek it [1, 3] = Some it' \<and>
    Valid it' \<and> key_of it' = [1, 4] \<and> value_of it' = []"
proof -
  let ?kvs = "[([1, 2], [9]), ([1, 4], []), ([2], [5])] :: (bytes \<times> bytes) list"
  have "1 \<le> block_restart_interval default_options" by (simp add: default_options_def)
  moreover have "length (fst (Finish (add_all default_options BlockBuilder ?kvs))) < 2 ^ 32"
    by (simp add: default_options_def BlockBuilder_def Add_def Finish_def Let_def
      PutVarint32_def PutFixed32_def EncodeVarint32_def)
  moreover have "sorted_wrt (<) (map fst ?kvs)" by simp
  ultimately obtain it it' where it: "NewIterator (Block (fst (Finish (add_all default_options BlockBuilder ?kvs)))) = BlockIter it"
      "Seek it [1, 3] = Some it'" "Valid it'" "first_not_below [1, 3] ?kvs (key_of it', value_of it')"
    using block_seek [OF _ refl, of default_options ?kvs "[1, 3]"] by fastforce
  then have "key_of it' = [1, 4] \<and> value_of it' = []" by (auto simp: first_not_below_def)
  then show ?thesis using it by blast
qed

text \<open>
  The bounds check of \<open>DecodeEntry\<close> adds the two lengths in 32 bits, so that an entry
  whose lengths wrap around passes it: the decoder can accept a key delta far longer than
  the bytes that are left. Only the block checksum keeps such an entry out.
\<close>

theorem decode_entry_length_overflow:
  "\<exists>p shared non_shared value_length q.
     DecodeEntry p = Some (shared, non_shared, value_length, q) \<and>
     length q < unat non_shared"
proof -
  let ?p = "EncodeVarint32 0 @ EncodeVarint32 0xffffffff @ EncodeVarint32 1"
  have "DecodeEntry ?p = Some (0, 0xffffffff, 1, [])"
    using GetVarint32Ptr_Encode [of 0 "EncodeVarint32 0xffffffff @ EncodeVarint32 1"]
      GetVarint32Ptr_Encode [of "0xffffffff" "EncodeVarint32 1"] GetVarint32Ptr_Encode [of 1 "[]"]
    by (simp add: DecodeEntry_eq) (simp add: EncodeVarint32_def)
  then show ?thesis by (intro exI conjI) (assumption, simp)
qed

end
