(* ===== verification/BFC.thy ===== *)
theory BFC
  imports Prelude
begin

text \<open>
  The best-fit-with-coalescing allocator of
  \<open>core/common_runtime/bfc_allocator.{h,cc}\<close>: chunks, bins, allocation regions, the
  region manager and every operation of \<open>BFCAllocator\<close> that changes its state.

  Conventions.
  \<^item> \<open>size_t\<close> values and addresses are natural numbers below \<open>2 ^ 64\<close>; every
    operation that can wrap is written with \<open>add_sz\<close>, \<open>sub_sz\<close>, \<open>mul_sz\<close>, which
    reduce modulo \<open>2 ^ 64\<close>. \<open>ChunkHandle\<close> and \<open>BinNum\<close> are C++ \<open>int\<close>; the two
    places where a wider value is stored into an \<open>int\<close> go through \<open>to_int32\<close>.
    Allocation ids and the statistics (\<open>int64\<close>) are unbounded integers.
  \<^item> An operation returns \<open>Inr\<close> of its result and the new state, or \<open>Inl\<close> of the
    way in which it fails to return: a failed \<open>CHECK\<close>, \<open>LOG(FATAL)\<close>, an access
    outside an array, or a loop that does not end.
  \<^item> The lock held by every public operation makes them atomic, so an execution
    of several threads is a sequence of operations.
  \<^item> The sub-allocator is code outside the repository (\<open>malloc\<close>, the CUDA
    driver). It is the argument \<open>alloc\<close> of the definitions: what it answers to
    a request, given the requests answered so far (\<open>sub_log\<close>).
\<close>

section \<open>Machine arithmetic\<close>

definition add_sz :: "nat \<Rightarrow> nat \<Rightarrow> nat" where
  "add_sz a b = (a + b) mod 2 ^ 64"

definition sub_sz :: "nat \<Rightarrow> nat \<Rightarrow> nat" where
  "sub_sz a b = (a + 2 ^ 64 - b) mod 2 ^ 64"

definition mul_sz :: "nat \<Rightarrow> nat \<Rightarrow> nat" where
  "mul_sz a b = (a * b) mod 2 ^ 64"

text \<open>\<open>static_cast<int>\<close> of a \<open>size_t\<close>.\<close>

definition to_int32 :: "nat \<Rightarrow> int" where
  "to_int32 n = (int n + 2 ^ 31) mod 2 ^ 32 - 2 ^ 31"

section \<open>Operations that may not return\<close>

datatype abort = CHECK_failed | LOG_FATAL | Out_of_bounds | Never_returns

type_synonym 'a run = "abort + 'a"

fun run_bind :: "'a run \<Rightarrow> ('a \<Rightarrow> 'b run) \<Rightarrow> 'b run" where
  "run_bind (Inl e) f = Inl e"
| "run_bind (Inr x) f = f x"

definition CHECK :: "bool \<Rightarrow> 'a run \<Rightarrow> 'a run" where
  "CHECK b k = (if b then k else Inl CHECK_failed)"

section \<open>Sizes and bins\<close>

definition kInvalidChunkHandle :: int where "kInvalidChunkHandle = - 1"
definition kInvalidBinNum :: int where "kInvalidBinNum = - 1"
definition kNumBins :: nat where "kNumBins = 21"
definition kMinAllocationBits :: nat where "kMinAllocationBits = 8"
definition kMinAllocationSize :: nat where "kMinAllocationSize = 2 ^ kMinAllocationBits"

definition RoundedBytes :: "nat \<Rightarrow> nat" where
  "RoundedBytes bytes =
     mul_sz kMinAllocationSize
       (sub_sz (add_sz bytes kMinAllocationSize) 1 div kMinAllocationSize)"

definition Log2FloorNonZero :: "nat \<Rightarrow> nat" where
  "Log2FloorNonZero n = 63 XOR builtin_clzll n"

text \<open>The branch of \<open>Log2FloorNonZero\<close> for compilers other than GCC and Clang.\<close>

function Log2FloorNonZero_fallback_loop :: "nat \<Rightarrow> nat \<Rightarrow> nat" where
  "Log2FloorNonZero_fallback_loop r n =
     (if n > 0 then Log2FloorNonZero_fallback_loop (r + 1) (drop_bit 1 n) else r)"
  by auto
termination
  by (relation "measure snd") (auto simp: drop_bit_eq_div)

declare Log2FloorNonZero_fallback_loop.simps [simp del]

definition Log2FloorNonZero_fallback :: "nat \<Rightarrow> nat" where
  "Log2FloorNonZero_fallback n = Log2FloorNonZero_fallback_loop 0 n"

definition BinNumToSize :: "nat \<Rightarrow> nat" where
  "BinNumToSize index = push_bit index 256 mod 2 ^ 64"

definition BinNumForSize :: "nat \<Rightarrow> nat" where
  "BinNumForSize bytes =
     min (kNumBins - 1) (Log2FloorNonZero (drop_bit kMinAllocationBits (max bytes 256)))"

text \<open>
  \<open>bytes * kBackpedalFactor\<close> in single precision: \<open>round_float\<close> rounds an integer
  to 24 significant bits, ties to even, and \<open>0.9f\<close> is \<open>15099494 / 2 ^ 24\<close>.
\<close>

definition round_float :: "nat \<Rightarrow> nat" where
  "round_float n =
     (if n < 2 ^ 24 then n
      else let k = Log2FloorNonZero_fallback n - 24; q = n div 2 ^ k; r = n mod 2 ^ k in
        (if 2 * r < 2 ^ k \<or> (2 * r = 2 ^ k \<and> even q) then q else q + 1) * 2 ^ k)"

definition times_kBackpedalFactor :: "nat \<Rightarrow> nat" where
  "times_kBackpedalFactor bytes = round_float (round_float bytes * 15099494) div 2 ^ 24"

section \<open>Chunks, regions and the allocator's state\<close>

record chunk =
  c_size :: nat
  c_requested_size :: nat
  c_allocation_id :: int
  c_ptr :: nat
  c_prev :: int
  c_next :: int
  c_bin_num :: int

definition default_chunk :: chunk where
  "default_chunk = \<lparr>c_size = 0, c_requested_size = 0, c_allocation_id = - 1, c_ptr = 0,
     c_prev = kInvalidChunkHandle, c_next = kInvalidChunkHandle, c_bin_num = kInvalidBinNum\<rparr>"

definition in_use :: "chunk \<Rightarrow> bool" where
  "in_use c \<longleftrightarrow> c_allocation_id c \<noteq> - 1"

record region =
  r_ptr :: nat
  r_memory_size :: nat
  r_end_ptr :: nat
  r_handles :: "int list"

record alloc_stats =
  num_allocs :: int
  bytes_in_use :: int
  max_bytes_in_use :: int
  max_alloc_size :: int
  bytes_limit :: int

record bfc =
  memory_limit :: nat
  bins :: "int list list"
  curr_region_allocation_bytes :: nat
  total_region_allocated_bytes :: nat
  started_backpedal :: bool
  regions :: "region list"
  chunks :: "chunk list"
  free_chunks_list :: int
  region_visitors :: "nat list"
  next_allocation_id :: int
  stats :: alloc_stats
  sub_log :: "(nat \<times> nat) list"
  visitor_calls :: "(nat \<times> nat \<times> nat) list"

text \<open>
  \<open>sub_log\<close> and \<open>visitor_calls\<close> are the observable calls out of the allocator: the
  requests made to the sub-allocator with its answers, and the calls of the region
  visitors (which are named by numbers) with the region they were given.
\<close>

type_synonym sub_alloc = "(nat \<times> nat) list \<Rightarrow> nat \<Rightarrow> nat"

section \<open>Allocation regions and the region manager\<close>

definition AllocationRegion :: "nat \<Rightarrow> nat \<Rightarrow> region" where
  "AllocationRegion ptr memory_size =
     (let n_handles = sub_sz (add_sz memory_size kMinAllocationSize) 1 div kMinAllocationSize in
      \<lparr>r_ptr = ptr, r_memory_size = memory_size, r_end_ptr = add_sz ptr memory_size,
       r_handles = replicate n_handles kInvalidChunkHandle\<rparr>)"

definition IndexFor :: "region \<Rightarrow> nat \<Rightarrow> int" where
  "IndexFor r p = to_int32 (drop_bit kMinAllocationBits (sub_sz p (r_ptr r)))"

definition region_get_handle :: "region \<Rightarrow> nat \<Rightarrow> int run" where
  "region_get_handle r p =
     (let i = IndexFor r p in
      if 0 \<le> i \<and> nat i < length (r_handles r) then Inr (r_handles r ! nat i)
      else Inl Out_of_bounds)"

definition region_set_handle :: "region \<Rightarrow> nat \<Rightarrow> int \<Rightarrow> region run" where
  "region_set_handle r p h =
     (let i = IndexFor r p in
      if 0 \<le> i \<and> nat i < length (r_handles r)
      then Inr (r\<lparr>r_handles := (r_handles r)[nat i := h]\<rparr>)
      else Inl Out_of_bounds)"

definition region_erase :: "region \<Rightarrow> nat \<Rightarrow> region run" where
  "region_erase r p = region_set_handle r p kInvalidChunkHandle"

text \<open>
  \<open>std::upper_bound\<close> with \<open>Comparator\<close>: the position of the first region for which
  \<open>p < end_ptr\<close>.
\<close>

definition upper_bound :: "region list \<Rightarrow> nat \<Rightarrow> nat" where
  "upper_bound rs p = length (takeWhile (\<lambda>r. \<not> p < r_end_ptr r) rs)"

definition AddAllocationRegion :: "nat \<Rightarrow> nat \<Rightarrow> region list \<Rightarrow> region list" where
  "AddAllocationRegion ptr memory_size rs =
     (let entry = upper_bound rs ptr in
      take entry rs @ AllocationRegion ptr memory_size # drop entry rs)"

definition RegionFor :: "region list \<Rightarrow> nat \<Rightarrow> nat run" where
  "RegionFor rs p =
     (let entry = upper_bound rs p in if entry < length rs then Inr entry else Inl LOG_FATAL)"

definition get_handle :: "region list \<Rightarrow> nat \<Rightarrow> int run" where
  "get_handle rs p = run_bind (RegionFor rs p) (\<lambda>k. region_get_handle (rs ! k) p)"

definition set_handle :: "nat \<Rightarrow> int \<Rightarrow> region list \<Rightarrow> region list run" where
  "set_handle p h rs =
     run_bind (RegionFor rs p) (\<lambda>k.
     run_bind (region_set_handle (rs ! k) p h) (\<lambda>r. Inr (rs[k := r])))"

definition erase_handle :: "nat \<Rightarrow> region list \<Rightarrow> region list run" where
  "erase_handle p rs =
     run_bind (RegionFor rs p) (\<lambda>k.
     run_bind (region_erase (rs ! k) p) (\<lambda>r. Inr (rs[k := r])))"

section \<open>The chunk vector\<close>

definition ChunkFromHandle :: "bfc \<Rightarrow> int \<Rightarrow> chunk run" where
  "ChunkFromHandle st h =
     (if 0 \<le> h \<and> nat h < length (chunks st) then Inr (chunks st ! nat h) else Inl Out_of_bounds)"

definition modify_chunk :: "int \<Rightarrow> (chunk \<Rightarrow> chunk) \<Rightarrow> bfc \<Rightarrow> bfc run" where
  "modify_chunk h f st =
     run_bind (ChunkFromHandle st h) (\<lambda>c. Inr (st\<lparr>chunks := (chunks st)[nat h := f c]\<rparr>))"

definition AllocateChunk :: "bfc \<Rightarrow> (int \<times> bfc) run" where
  "AllocateChunk st =
     (if free_chunks_list st \<noteq> kInvalidChunkHandle then
        let h = free_chunks_list st in
        run_bind (ChunkFromHandle st h) (\<lambda>c.
        Inr (h, st\<lparr>free_chunks_list := c_next c\<rparr>))
      else
        let h = to_int32 (length (chunks st)) in
        Inr (h, st\<lparr>chunks := chunks st @ [default_chunk]\<rparr>))"

definition DeallocateChunk :: "int \<Rightarrow> bfc \<Rightarrow> bfc run" where
  "DeallocateChunk h st =
     run_bind (modify_chunk h (\<lambda>c. c\<lparr>c_next := free_chunks_list st\<rparr>) st) (\<lambda>st.
     Inr (st\<lparr>free_chunks_list := h\<rparr>))"

definition DeleteChunk :: "int \<Rightarrow> bfc \<Rightarrow> bfc run" where
  "DeleteChunk h st =
     run_bind (ChunkFromHandle st h) (\<lambda>c.
     run_bind (erase_handle (c_ptr c) (regions st)) (\<lambda>rs.
     DeallocateChunk h (st\<lparr>regions := rs\<rparr>)))"

section \<open>Bins\<close>

text \<open>
  \<open>Bin::ChunkComparator\<close>, and the operations of the \<open>std::set\<close> of a bin, which
  is kept as the list of its elements in the order of the comparator.
\<close>

definition ChunkComparator :: "bfc \<Rightarrow> int \<Rightarrow> int \<Rightarrow> bool" where
  "ChunkComparator st ha hb =
     (let a = chunks st ! nat ha; b = chunks st ! nat hb in
      if c_size a \<noteq> c_size b then c_size a < c_size b else c_ptr a < c_ptr b)"

fun set_insert :: "('a \<Rightarrow> 'a \<Rightarrow> bool) \<Rightarrow> 'a \<Rightarrow> 'a list \<Rightarrow> 'a list" where
  "set_insert lt x [] = [x]"
| "set_insert lt x (y # ys) =
     (if lt x y then x # y # ys else if lt y x then y # set_insert lt x ys else y # ys)"

fun set_erase :: "('a \<Rightarrow> 'a \<Rightarrow> bool) \<Rightarrow> 'a \<Rightarrow> 'a list \<Rightarrow> nat \<times> 'a list" where
  "set_erase lt x [] = (0, [])"
| "set_erase lt x (y # ys) =
     (if lt x y \<or> lt y x then let (n, zs) = set_erase lt x ys in (n, y # zs) else (1, ys))"

definition InsertFreeChunkIntoBin :: "int \<Rightarrow> bfc \<Rightarrow> bfc run" where
  "InsertFreeChunkIntoBin h st =
     run_bind (ChunkFromHandle st h) (\<lambda>c.
     CHECK (\<not> in_use c \<and> c_bin_num c = kInvalidBinNum)
       (let bin_num = BinNumForSize (c_size c) in
        run_bind (modify_chunk h (\<lambda>c. c\<lparr>c_bin_num := int bin_num\<rparr>) st) (\<lambda>st.
        Inr (st\<lparr>bins := (bins st)[bin_num :=
          set_insert (ChunkComparator st) h (bins st ! bin_num)]\<rparr>))))"

definition RemoveFreeChunkIterFromBin :: "nat \<Rightarrow> nat \<Rightarrow> bfc \<Rightarrow> bfc run" where
  "RemoveFreeChunkIterFromBin b citer st =
     (let h = bins st ! b ! citer in
      run_bind (ChunkFromHandle st h) (\<lambda>c.
      CHECK (\<not> in_use c \<and> c_bin_num c \<noteq> kInvalidBinNum)
        (modify_chunk h (\<lambda>c. c\<lparr>c_bin_num := kInvalidBinNum\<rparr>)
          (st\<lparr>bins := (bins st)[b := take citer (bins st ! b) @ drop (citer + 1) (bins st ! b)]\<rparr>))))"

definition RemoveFreeChunkFromBin :: "int \<Rightarrow> bfc \<Rightarrow> bfc run" where
  "RemoveFreeChunkFromBin h st =
     run_bind (ChunkFromHandle st h) (\<lambda>c.
     CHECK (\<not> in_use c \<and> c_bin_num c \<noteq> kInvalidBinNum)
       (let b = nat (c_bin_num c); (count, hs) = set_erase (ChunkComparator st) h (bins st ! b) in
        CHECK (count > 0)
          (modify_chunk h (\<lambda>c. c\<lparr>c_bin_num := kInvalidBinNum\<rparr>) (st\<lparr>bins := (bins st)[b := hs]\<rparr>))))"

section \<open>Splitting and merging\<close>

definition SplitChunk :: "int \<Rightarrow> nat \<Rightarrow> bfc \<Rightarrow> bfc run" where
  "SplitChunk h num_bytes st =
     run_bind (AllocateChunk st) (\<lambda>(h_new_chunk, st).
     run_bind (ChunkFromHandle st h) (\<lambda>c.
     CHECK (\<not> in_use c \<and> c_bin_num c = kInvalidBinNum)
       (let new_ptr = add_sz (c_ptr c) num_bytes; h_neighbor = c_next c in
        run_bind (set_handle new_ptr h_new_chunk (regions st)) (\<lambda>rs.
        run_bind (modify_chunk h_new_chunk (\<lambda>n. n\<lparr>c_ptr := new_ptr,
            c_size := sub_sz (c_size c) num_bytes, c_allocation_id := - 1,
            c_prev := h, c_next := h_neighbor\<rparr>) (st\<lparr>regions := rs\<rparr>)) (\<lambda>st.
        run_bind (modify_chunk h (\<lambda>c. c\<lparr>c_size := num_bytes, c_next := h_new_chunk\<rparr>) st) (\<lambda>st.
        run_bind (if h_neighbor \<noteq> kInvalidChunkHandle
                  then modify_chunk h_neighbor (\<lambda>c. c\<lparr>c_prev := h_new_chunk\<rparr>) st
                  else Inr st) (\<lambda>st.
        InsertFreeChunkIntoBin h_new_chunk st)))))))"

definition Merge :: "int \<Rightarrow> int \<Rightarrow> bfc \<Rightarrow> bfc run" where
  "Merge h1 h2 st =
     run_bind (ChunkFromHandle st h1) (\<lambda>c1.
     run_bind (ChunkFromHandle st h2) (\<lambda>c2.
     CHECK (\<not> in_use c1 \<and> \<not> in_use c2)
       (let h3 = c_next c2 in
        run_bind (modify_chunk h1 (\<lambda>c. c\<lparr>c_next := h3\<rparr>) st) (\<lambda>st.
        CHECK (c_prev c2 = h1)
          (run_bind (if h3 \<noteq> kInvalidChunkHandle
                     then modify_chunk h3 (\<lambda>c. c\<lparr>c_prev := h1\<rparr>) st
                     else Inr st) (\<lambda>st.
           run_bind (modify_chunk h1 (\<lambda>c. c\<lparr>c_size := add_sz (c_size c1) (c_size c2)\<rparr>) st) (\<lambda>st.
           DeleteChunk h2 st)))))))"

section \<open>Growing the memory\<close>

text \<open>The two loops of \<open>Extend\<close>; \<open>None\<close> is a loop that never ends.\<close>

partial_function (option) grow_loop :: "nat \<Rightarrow> nat \<Rightarrow> bool \<Rightarrow> (nat \<times> bool) option" where
  [code]: "grow_loop rounded_bytes cur increased =
     (if rounded_bytes > cur then grow_loop rounded_bytes (mul_sz cur 2) True
      else Some (cur, increased))"

partial_function (option) backpedal_loop ::
  "sub_alloc \<Rightarrow> nat \<Rightarrow> nat \<Rightarrow> nat \<Rightarrow> (nat \<times> nat) list \<Rightarrow> (nat \<times> nat \<times> (nat \<times> nat) list) option" where
  [code]: "backpedal_loop alloc rounded_bytes mem_addr bytes log =
     (if mem_addr = 0 \<and> bytes > rounded_bytes then
        backpedal_loop alloc rounded_bytes (alloc log bytes)
          (RoundedBytes (times_kBackpedalFactor bytes)) (log @ [(bytes, alloc log bytes)])
      else Some (mem_addr, bytes, log))"

text \<open>
  The first attempt and the backpedalling: the address obtained (0 for null), the
  number of bytes the region is then taken to have, and the new state.
\<close>

definition obtain_region :: "sub_alloc \<Rightarrow> nat \<Rightarrow> nat \<Rightarrow> bfc \<Rightarrow> (nat \<times> nat \<times> bfc) run" where
  "obtain_region alloc rounded_bytes bytes st =
     (let mem_addr = alloc (sub_log st) bytes;
          st = st\<lparr>sub_log := sub_log st @ [(bytes, mem_addr)]\<rparr> in
      if mem_addr = 0 \<and> \<not> started_backpedal st then
        let st = st\<lparr>started_backpedal := True\<rparr>;
            bytes = RoundedBytes (times_kBackpedalFactor bytes) in
        (case backpedal_loop alloc rounded_bytes mem_addr bytes (sub_log st) of
           None \<Rightarrow> Inl Never_returns
         | Some (mem_addr, bytes, log) \<Rightarrow> Inr (mem_addr, bytes, st\<lparr>sub_log := log\<rparr>))
      else Inr (mem_addr, bytes, st))"

definition add_region :: "nat \<Rightarrow> nat \<Rightarrow> bfc \<Rightarrow> bfc run" where
  "add_region mem_addr bytes st =
     (let st = st\<lparr>total_region_allocated_bytes := add_sz (total_region_allocated_bytes st) bytes,
                  regions := AddAllocationRegion mem_addr bytes (regions st)\<rparr> in
      run_bind (AllocateChunk st) (\<lambda>(h, st).
      run_bind (modify_chunk h (\<lambda>c. c\<lparr>c_ptr := mem_addr, c_size := bytes, c_allocation_id := - 1,
          c_prev := kInvalidChunkHandle, c_next := kInvalidChunkHandle\<rparr>) st) (\<lambda>st.
      run_bind (set_handle mem_addr h (regions st)) (\<lambda>rs.
      run_bind (InsertFreeChunkIntoBin h (st\<lparr>regions := rs\<rparr>)) (\<lambda>st.
      Inr (st\<lparr>visitor_calls := visitor_calls st @
        map (\<lambda>visitor. (visitor, mem_addr, bytes)) (region_visitors st)\<rparr>))))))"

definition Extend :: "sub_alloc \<Rightarrow> nat \<Rightarrow> bfc \<Rightarrow> (bool \<times> bfc) run" where
  "Extend alloc rounded_bytes st =
     (let available_bytes = sub_sz (memory_limit st) (total_region_allocated_bytes st);
          available_bytes = (available_bytes div kMinAllocationSize) * kMinAllocationSize in
      if rounded_bytes > available_bytes then Inr (False, st)
      else
        (case grow_loop rounded_bytes (curr_region_allocation_bytes st) False of
           None \<Rightarrow> Inl Never_returns
         | Some (cur, increased_allocation) \<Rightarrow>
             run_bind (obtain_region alloc rounded_bytes (min cur available_bytes)
                 (st\<lparr>curr_region_allocation_bytes := cur\<rparr>)) (\<lambda>(mem_addr, bytes, st).
             if mem_addr = 0 then Inr (False, st)
             else
               run_bind (add_region mem_addr bytes
                   (if \<not> increased_allocation
                    then st\<lparr>curr_region_allocation_bytes :=
                           mul_sz (curr_region_allocation_bytes st) 2\<rparr>
                    else st)) (\<lambda>st.
               Inr (True, st)))))"

section \<open>Allocation\<close>

text \<open>
  The two nested loops of \<open>FindChunkPtr\<close>: the position in the bin of the first
  chunk with enough room, and the first bin that has one.
\<close>

fun find_in_bin :: "bfc \<Rightarrow> nat \<Rightarrow> int list \<Rightarrow> nat \<Rightarrow> nat option run" where
  "find_in_bin st rounded_bytes [] citer = Inr None"
| "find_in_bin st rounded_bytes (h # hs) citer =
     run_bind (ChunkFromHandle st h) (\<lambda>c.
     if c_size c \<ge> rounded_bytes then Inr (Some citer)
     else find_in_bin st rounded_bytes hs (citer + 1))"

function find_bin :: "bfc \<Rightarrow> nat \<Rightarrow> nat \<Rightarrow> (nat \<times> nat) option run" where
  "find_bin st rounded_bytes bin_num =
     (if bin_num < kNumBins then
        run_bind (find_in_bin st rounded_bytes (bins st ! bin_num) 0) (\<lambda>r.
        case r of Some citer \<Rightarrow> Inr (Some (bin_num, citer))
        | None \<Rightarrow> find_bin st rounded_bytes (bin_num + 1))
      else Inr None)"
  by auto
termination
  by (relation "measure (\<lambda>(_, _, b). kNumBins - b)") auto

declare find_bin.simps [simp del]

definition update_stats :: "nat \<Rightarrow> alloc_stats \<Rightarrow> alloc_stats" where
  "update_stats sz s =
     (let s = s\<lparr>num_allocs := num_allocs s + 1, bytes_in_use := bytes_in_use s + int sz\<rparr> in
      s\<lparr>max_bytes_in_use := max (max_bytes_in_use s) (bytes_in_use s),
        max_alloc_size := max (max_alloc_size s) (int sz)\<rparr>)"

definition FindChunkPtr :: "nat \<Rightarrow> nat \<Rightarrow> nat \<Rightarrow> bfc \<Rightarrow> (nat \<times> bfc) run" where
  "FindChunkPtr bin_num rounded_bytes num_bytes st =
     run_bind (find_bin st rounded_bytes bin_num) (\<lambda>r.
     case r of None \<Rightarrow> Inr (0, st)
     | Some (b, citer) \<Rightarrow>
         let h = bins st ! b ! citer in
         run_bind (ChunkFromHandle st h) (\<lambda>chunk.
         run_bind (RemoveFreeChunkIterFromBin b citer st) (\<lambda>st.
         run_bind (if c_size chunk \<ge> mul_sz rounded_bytes 2
                   then SplitChunk h rounded_bytes st else Inr st) (\<lambda>st.
         run_bind (modify_chunk h (\<lambda>c. c\<lparr>c_requested_size := num_bytes,
             c_allocation_id := next_allocation_id st\<rparr>) st) (\<lambda>st.
         run_bind (ChunkFromHandle st h) (\<lambda>chunk.
         Inr (c_ptr chunk, st\<lparr>next_allocation_id := next_allocation_id st + 1,
             stats := update_stats (c_size chunk) (stats st)\<rparr>)))))))"

definition AllocateRawInternal :: "sub_alloc \<Rightarrow> nat \<Rightarrow> bfc \<Rightarrow> (nat \<times> bfc) run" where
  "AllocateRawInternal alloc num_bytes st =
     (if num_bytes = 0 then Inr (0, st)
      else
        let rounded_bytes = RoundedBytes num_bytes; bin_num = BinNumForSize rounded_bytes in
        run_bind (FindChunkPtr bin_num rounded_bytes num_bytes st) (\<lambda>(ptr, st).
        if ptr \<noteq> 0 then Inr (ptr, st)
        else
          run_bind (Extend alloc rounded_bytes st) (\<lambda>(extended, st).
          if extended then FindChunkPtr bin_num rounded_bytes num_bytes st
          else Inr (0, st))))"

section \<open>Deallocation\<close>

text \<open>If the next chunk is free, it is deleted and its memory added to \<open>h\<close>.\<close>

definition coalesce_next :: "int \<Rightarrow> bfc \<Rightarrow> bfc run" where
  "coalesce_next h st =
     run_bind (ChunkFromHandle st h) (\<lambda>c.
     if c_next c \<noteq> kInvalidChunkHandle then
       run_bind (ChunkFromHandle st (c_next c)) (\<lambda>cnext.
       if \<not> in_use cnext then
         run_bind (RemoveFreeChunkFromBin (c_next c) st) (\<lambda>st.
         run_bind (ChunkFromHandle st h) (\<lambda>c. Merge h (c_next c) st))
       else Inr st)
     else Inr st)"

text \<open>If the previous chunk is free, \<open>h\<close> is merged into it; the result names the
  chunk that is left.\<close>

definition coalesce_prev :: "int \<Rightarrow> bfc \<Rightarrow> (int \<times> bfc) run" where
  "coalesce_prev h st =
     run_bind (ChunkFromHandle st h) (\<lambda>c.
     if c_prev c \<noteq> kInvalidChunkHandle then
       run_bind (ChunkFromHandle st (c_prev c)) (\<lambda>cprev.
       if \<not> in_use cprev then
         run_bind (RemoveFreeChunkFromBin (c_prev c) st) (\<lambda>st.
         run_bind (ChunkFromHandle st h) (\<lambda>c'.
         run_bind (Merge (c_prev c') h st) (\<lambda>st.
         Inr (c_prev c, st))))
       else Inr (h, st))
     else Inr (h, st))"

definition FreeAndMaybeCoalesce :: "int \<Rightarrow> bfc \<Rightarrow> bfc run" where
  "FreeAndMaybeCoalesce h st =
     run_bind (ChunkFromHandle st h) (\<lambda>c.
     CHECK (in_use c \<and> c_bin_num c = kInvalidBinNum)
       (run_bind (modify_chunk h (\<lambda>c. c\<lparr>c_allocation_id := - 1\<rparr>)
            (st\<lparr>stats := (stats st)\<lparr>bytes_in_use := bytes_in_use (stats st) - int (c_size c)\<rparr>\<rparr>)) (\<lambda>st.
        run_bind (coalesce_next h st) (\<lambda>st.
        run_bind (coalesce_prev h st) (\<lambda>(chunk_to_reassign, st).
        InsertFreeChunkIntoBin chunk_to_reassign st)))))"

definition DeallocateRawInternal :: "nat \<Rightarrow> bfc \<Rightarrow> bfc run" where
  "DeallocateRawInternal ptr st =
     (if ptr = 0 then Inr st
      else
        run_bind (get_handle (regions st) ptr) (\<lambda>h.
        CHECK (h \<noteq> kInvalidChunkHandle) (FreeAndMaybeCoalesce h st)))"

section \<open>Queries, visitors, construction and destruction\<close>

definition chunk_query :: "(chunk \<Rightarrow> 'a) \<Rightarrow> nat \<Rightarrow> bfc \<Rightarrow> 'a run" where
  "chunk_query f ptr st =
     run_bind (get_handle (regions st) ptr) (\<lambda>h.
     CHECK (h \<noteq> kInvalidChunkHandle)
       (run_bind (ChunkFromHandle st h) (\<lambda>c. Inr (f c))))"

definition RequestedSize :: "nat \<Rightarrow> bfc \<Rightarrow> nat run" where
  "RequestedSize = chunk_query c_requested_size"

definition AllocatedSize :: "nat \<Rightarrow> bfc \<Rightarrow> nat run" where
  "AllocatedSize = chunk_query c_size"

definition AllocationId :: "nat \<Rightarrow> bfc \<Rightarrow> int run" where
  "AllocationId = chunk_query c_allocation_id"

definition AddAllocVisitor :: "nat \<Rightarrow> bfc \<Rightarrow> bfc" where
  "AddAllocVisitor visitor st =
     st\<lparr>region_visitors := region_visitors st @ [visitor],
        visitor_calls := visitor_calls st @
          map (\<lambda>r. (visitor, r_ptr r, r_memory_size r)) (regions st)\<rparr>"

definition GetStats :: "bfc \<Rightarrow> alloc_stats" where
  "GetStats st = stats st"

text \<open>
  The bins are created with the sizes \<open>BinNumToSize b\<close>; the constructor checks
  for each that the sizes of its range are mapped to it.
\<close>

definition bin_checks :: "nat \<Rightarrow> bool" where
  "bin_checks b \<longleftrightarrow>
     BinNumForSize (BinNumToSize b) = b \<and>
     BinNumForSize (add_sz (BinNumToSize b) 255) = b \<and>
     BinNumForSize (sub_sz (mul_sz (BinNumToSize b) 2) 1) = b \<and>
     (b + 1 < kNumBins \<longrightarrow> BinNumForSize (mul_sz (BinNumToSize b) 2) \<noteq> b)"

definition BFCAllocator :: "nat \<Rightarrow> bool \<Rightarrow> bfc run" where
  "BFCAllocator total_memory allow_growth =
     CHECK (\<forall>b\<in>set [0..<kNumBins]. bin_checks b)
       (Inr \<lparr>memory_limit = total_memory,
             bins = replicate kNumBins [],
             curr_region_allocation_bytes =
               (if allow_growth then RoundedBytes (min total_memory 1048576)
                else RoundedBytes total_memory),
             total_region_allocated_bytes = 0,
             started_backpedal = False,
             regions = [], chunks = [], free_chunks_list = kInvalidChunkHandle,
             region_visitors = [], next_allocation_id = 1,
             stats = \<lparr>num_allocs = 0, bytes_in_use = 0, max_bytes_in_use = 0,
                      max_alloc_size = 0, bytes_limit = int total_memory\<rparr>,
             sub_log = [], visitor_calls = []\<rparr>)"

text \<open>The calls \<open>suballocator_->Free\<close> of the destructor.\<close>

definition destroy_frees :: "bfc \<Rightarrow> (nat \<times> nat) list" where
  "destroy_frees st = map (\<lambda>r. (r_ptr r, r_memory_size r)) (regions st)"

end
