(* ===== verification/BFC_Arith.thy ===== *)
theory BFC_Arith
  imports BFC
begin

text \<open>
  Arithmetic of the allocator: rounding to the allocation unit, the numbering of
  the bins, the single-precision scaling of the backpedalling loop, and the two
  loops of \<open>Extend\<close>.
\<close>

section \<open>Arithmetic without wrap-around\<close>

lemma add_sz_eq [simp]: "a + b < 2 ^ 64 \<Longrightarrow> add_sz a b = a + b"
  by (simp add: add_sz_def)

lemma sub_sz_eq [simp]: "b \<le> a \<Longrightarrow> a < 2 ^ 64 \<Longrightarrow> sub_sz a b = a - b"
proof -
  assume "b \<le> a" "a < 2 ^ 64"
  then have "a + 2 ^ 64 - b = (a - b) + 2 ^ 64" by simp
  then have "sub_sz a b = (a - b) mod 2 ^ 64"
    by (simp only: sub_sz_def mod_add_self2)
  with \<open>a < 2 ^ 64\<close> show "sub_sz a b = a - b" by simp
qed

lemma mul_sz_eq [simp]: "a * b < 2 ^ 64 \<Longrightarrow> mul_sz a b = a * b"
  by (simp add: mul_sz_def)

lemma to_int32_eq [simp]: "n < 2 ^ 31 \<Longrightarrow> to_int32 n = int n"
proof -
  assume "n < 2 ^ 31"
  then have "int n + 2 ^ 31 < 2 ^ 32" by simp
  then have "(int n + 2 ^ 31) mod 2 ^ 32 = int n + 2 ^ 31" by (intro mod_pos_pos_trivial) auto
  then show ?thesis by (simp add: to_int32_def)
qed

lemma kMinAllocationSize_eq [simp]: "kMinAllocationSize = 256"
  by (simp add: kMinAllocationSize_def kMinAllocationBits_def)

section \<open>Rounding\<close>

lemma RoundedBytes_eq:
  assumes "n \<le> 2 ^ 64 - 256"
  shows "RoundedBytes n = 256 * ((n + 255) div 256)"
proof -
  have "sub_sz (add_sz n 256) 1 = n + 255"
  proof (cases "n = 2 ^ 64 - 256")
    case True
    then show ?thesis by (simp add: add_sz_def sub_sz_def)
  next
    case False
    then have "n + 256 < 2 ^ 64" using assms by simp
    then show ?thesis by simp
  qed
  moreover have "256 * ((n + 255) div 256) < 2 ^ 64" using assms by simp
  ultimately show ?thesis by (simp add: RoundedBytes_def)
qed

lemma RoundedBytes_bounds:
  assumes "n \<le> 2 ^ 64 - 256"
  shows "n \<le> RoundedBytes n" and "RoundedBytes n < n + 256" and "256 dvd RoundedBytes n"
    and "0 < n \<Longrightarrow> 256 \<le> RoundedBytes n"
  using assms by (auto simp: RoundedBytes_eq)

lemma RoundedBytes_le:
  assumes "n \<le> m" "256 dvd m" "m < 2 ^ 64"
  shows "RoundedBytes n \<le> m"
proof -
  obtain k where k: "m = 256 * k" using assms(2) by blast
  then have "k \<le> 2 ^ 56 - 1" using assms(3) by simp
  then have "n \<le> 2 ^ 64 - 256" using assms(1) k by simp
  then show ?thesis using assms(1) k by (simp add: RoundedBytes_eq)
qed

section \<open>Bins\<close>

lemma Log2FloorNonZero_eq:
  assumes "2 ^ k \<le> n" "n < 2 ^ (k + 1)" "k < 64"
  shows "Log2FloorNonZero n = k"
  using clzll_eq [OF assms] by (simp add: Log2FloorNonZero_def)

lemma Log2FloorNonZero_ex:
  assumes "0 < n" "n < 2 ^ 64"
  shows "2 ^ Log2FloorNonZero n \<le> n \<and> n < 2 ^ (Log2FloorNonZero n + 1)"
proof -
  obtain k where k: "2 ^ k \<le> n" "n < 2 ^ (k + 1)" using floor_log2_ex assms(1) by blast
  have "(2::nat) ^ k < 2 ^ 64" using k(1) assms(2) by linarith
  then have "k < 64" by (rule power_less_imp_less_exp [rotated]) simp
  then have "Log2FloorNonZero n = k" by (rule Log2FloorNonZero_eq [OF k])
  with k show ?thesis by simp
qed

lemma fallback_loop_eq:
  "2 ^ k \<le> n \<Longrightarrow> n < 2 ^ (k + 1) \<Longrightarrow> Log2FloorNonZero_fallback_loop r n = r + k + 1"
proof (induction k arbitrary: n r)
  case 0
  then have "n = 1" by simp
  then show ?case
    by (simp add: Log2FloorNonZero_fallback_loop.simps [of r "Suc 0"] drop_bit_eq_div
        Log2FloorNonZero_fallback_loop.simps [of _ 0])
next
  case (Suc k)
  have "2 ^ k \<le> n div 2" "n div 2 < 2 ^ (k + 1)" using Suc.prems by auto
  then have "Log2FloorNonZero_fallback_loop (r + 1) (n div 2) = r + 1 + k + 1" by (rule Suc.IH)
  moreover have "0 < n" using Suc.prems(1) by (auto intro: Nat.gr0I)
  ultimately show ?case
    by (subst Log2FloorNonZero_fallback_loop.simps) (simp add: drop_bit_eq_div)
qed

lemmas Log2FloorNonZero_fallback_eq =
  fallback_loop_eq [where r = 0, folded Log2FloorNonZero_fallback_def, simplified]

text \<open>A bin holds the sizes from its own up to twice that; the last bin has no upper end.\<close>

lemma BinNumForSize_range:
  assumes "256 \<le> n" "n < 2 ^ 64"
  shows "BinNumForSize n < 21"
    and "256 * 2 ^ BinNumForSize n \<le> n"
    and "BinNumForSize n < 20 \<Longrightarrow> n < 256 * 2 ^ (BinNumForSize n + 1)"
proof -
  let ?v = "n div 256" and ?L = "Log2FloorNonZero (n div 256)"
  have v: "0 < ?v" "?v < 2 ^ 64" using assms by (auto simp: div_greater_zero_iff)
  note L = Log2FloorNonZero_ex [OF v]
  have b: "BinNumForSize n = min 20 ?L"
    using assms by (simp add: BinNumForSize_def kNumBins_def kMinAllocationBits_def drop_bit_eq_div)
  show "BinNumForSize n < 21" by (simp add: b)
  have "(2::nat) ^ min 20 ?L \<le> 2 ^ ?L" by (intro power_increasing) auto
  then have "256 * 2 ^ min 20 ?L \<le> 256 * ?v" using L by linarith
  also have "\<dots> \<le> n" by simp
  finally show "256 * 2 ^ BinNumForSize n \<le> n" by (simp add: b)
  assume "BinNumForSize n < 20"
  then have "BinNumForSize n = ?L" by (auto simp: b)
  then show "n < 256 * 2 ^ (BinNumForSize n + 1)"
    using L by (simp add: less_mult_imp_div_less div_less_iff_less_mult mult.commute)
qed

lemma BinNumForSize_mono:
  assumes "256 \<le> m" "m \<le> n" "n < 2 ^ 64"
  shows "BinNumForSize m \<le> BinNumForSize n"
proof (rule ccontr)
  assume "\<not> ?thesis"
  then have lt: "BinNumForSize n + 1 \<le> BinNumForSize m" by simp
  then have "BinNumForSize n < 20"
    using BinNumForSize_range(1) [of m] assms by auto
  then have "n < 256 * 2 ^ (BinNumForSize n + 1)" using BinNumForSize_range(3) assms by auto
  also have "\<dots> \<le> 256 * 2 ^ BinNumForSize m" using lt by (intro mult_left_mono power_increasing) auto
  also have "\<dots> \<le> m" using BinNumForSize_range(2) assms by auto
  finally show False using assms(2) by simp
qed

lemma BinNumForSize_less_imp_less:
  assumes "256 \<le> m" "256 \<le> n" "m < 2 ^ 64" "n < 2 ^ 64" "BinNumForSize m < BinNumForSize n"
  shows "m < n"
  using BinNumForSize_mono [of n m] assms by (meson leD le_less_linear)

lemma BinNumForSize_eq:
  assumes "256 * 2 ^ b \<le> n" "n < 256 * 2 ^ (b + 1)" "b < 21"
  shows "BinNumForSize n = b"
proof -
  have n: "256 \<le> n" using assms(1) one_le_power [of "2::nat" b] by linarith
  have "2 ^ b \<le> n div 256" "n div 256 < 2 ^ (b + 1)"
    using assms by (auto simp: div_less_iff_less_mult less_eq_div_iff_mult_less_eq mult.commute)
  then have "Log2FloorNonZero (n div 256) = b" using assms(3) by (intro Log2FloorNonZero_eq) auto
  with n assms(3) show ?thesis
    by (simp add: BinNumForSize_def kNumBins_def kMinAllocationBits_def drop_bit_eq_div)
qed

lemma bin_checks_hold: "b < 21 \<Longrightarrow> bin_checks b"
proof -
  assume b: "b < 21"
  have small: "(2::nat) ^ (b + 1) \<le> 2 ^ 21" using b by (intro power_increasing) auto
  then have size: "BinNumToSize b = 256 * 2 ^ b"
    by (simp add: BinNumToSize_def push_bit_eq_mult)
  have one: "(256::nat) \<le> 256 * 2 ^ b" by simp
  have in_bin: "BinNumForSize n = b" if "256 * 2 ^ b \<le> n" "n < 256 * 2 ^ b * 2" for n
    using that b by (intro BinNumForSize_eq) simp_all
  have "BinNumForSize (256 * 2 ^ b) = b" by (rule in_bin) (use one in linarith)+
  moreover have "BinNumForSize (256 * 2 ^ b + 255) = b" by (rule in_bin) (use one in linarith)+
  moreover have "BinNumForSize (256 * 2 ^ b * 2 - 1) = b" by (rule in_bin) (use one in linarith)+
  moreover have "b + 1 < 21 \<Longrightarrow> BinNumForSize (256 * 2 ^ b * 2) = b + 1"
    using b by (intro BinNumForSize_eq) auto
  ultimately show ?thesis
    using small one by (simp add: bin_checks_def size kNumBins_def)
qed

section \<open>Scaling by 0.9 in single precision\<close>

lemma round_float_error:
  "round_float n * 2 ^ 24 \<le> n * (2 ^ 24 + 1)" "n * (2 ^ 24 - 1) \<le> round_float n * 2 ^ 24"
proof -
  have "round_float n * 2 ^ 24 \<le> n * (2 ^ 24 + 1) \<and> n * (2 ^ 24 - 1) \<le> round_float n * 2 ^ 24"
  proof (cases "n < 2 ^ 24")
    case True
    then have "round_float n = n" by (simp add: round_float_def)
    then show ?thesis by simp
  next
    case False
    then have "0 < n" by (cases n) auto
    then obtain j where j: "2 ^ j \<le> n" "n < 2 ^ (j + 1)" using floor_log2_ex by blast
    have "(2::nat) ^ 24 < 2 ^ (j + 1)" using False j(2) by linarith
    then have "24 < j + 1" by (rule power_less_imp_less_exp [rotated]) simp
    define k where "k = j + 1 - 24"
    have "j = k + 23" using \<open>24 < j + 1\<close> by (simp add: k_def)
    then have K: "2 ^ k * 2 ^ 23 \<le> n" using j(1) by (simp add: power_add)
    define q r where "q = n div 2 ^ k" and "r = n mod 2 ^ k"
    define K where "K = (2::nat) ^ k"
    have n: "n = q * K + r" unfolding q_def r_def K_def by (rule div_mult_mod_eq [symmetric])
    have "r < K" by (simp add: r_def K_def)
    have "Log2FloorNonZero_fallback n = j + 1"
      using Log2FloorNonZero_fallback_eq [OF j(1)] j(2) by simp
    then have R: "round_float n = (if 2 * r < K \<or> (2 * r = K \<and> even q) then q else q + 1) * K"
      using False by (simp add: round_float_def k_def q_def r_def K_def Let_def)
    then have "2 * round_float n \<le> 2 * n + K \<and> 2 * n \<le> 2 * round_float n + K"
      using n \<open>r < K\<close> by (cases "2 * r < K \<or> (2 * r = K \<and> even q)") (auto simp: algebra_simps)
    then show ?thesis using K [folded K_def] by simp
  qed
  then show "round_float n * 2 ^ 24 \<le> n * (2 ^ 24 + 1)" "n * (2 ^ 24 - 1) \<le> round_float n * 2 ^ 24"
    by blast+
qed

lemma times_kBackpedalFactor_le: "times_kBackpedalFactor b * 1000000 \<le> b * 900001"
proof -
  define x y where "x = round_float b" and "y = round_float (x * 15099494)"
  have "x * 2 ^ 24 \<le> b * (2 ^ 24 + 1)" unfolding x_def by (rule round_float_error)
  moreover have "y * 2 ^ 24 \<le> (x * 15099494) * (2 ^ 24 + 1)" unfolding y_def by (rule round_float_error)
  ultimately have "y * 1000000 \<le> b * 900001 * 2 ^ 24" by simp
  moreover have "y div 2 ^ 24 * 2 ^ 24 \<le> y" by simp
  ultimately have "y div 2 ^ 24 * 1000000 \<le> b * 900001" by simp
  then show ?thesis by (simp add: times_kBackpedalFactor_def x_def y_def)
qed

lemma times_kBackpedalFactor_pos: "256 \<le> b \<Longrightarrow> 0 < times_kBackpedalFactor b"
proof -
  assume b: "256 \<le> b"
  define x y where "x = round_float b" and "y = round_float (x * 15099494)"
  have "b * (2 ^ 24 - 1) \<le> x * 2 ^ 24" unfolding x_def by (rule round_float_error)
  moreover have "(x * 15099494) * (2 ^ 24 - 1) \<le> y * 2 ^ 24" unfolding y_def by (rule round_float_error)
  ultimately have "2 ^ 24 \<le> y" using b by simp
  then show ?thesis by (simp add: times_kBackpedalFactor_def x_def y_def div_greater_zero_iff)
qed

abbreviation backpedal :: "nat \<Rightarrow> nat" where
  "backpedal bytes \<equiv> RoundedBytes (times_kBackpedalFactor bytes)"

lemma backpedal_unit:
  assumes "256 dvd b" "0 < b" "b < 2 ^ 63"
  shows "backpedal b \<le> b" and "256 dvd backpedal b" and "0 < backpedal b"
proof -
  have "256 \<le> b" using assms(1,2) by (simp add: dvd_imp_le)
  have "times_kBackpedalFactor b \<le> b" using times_kBackpedalFactor_le [of b] by linarith
  then show "backpedal b \<le> b" using assms by (intro RoundedBytes_le) auto
  have "times_kBackpedalFactor b \<le> 2 ^ 64 - 256"
    using \<open>times_kBackpedalFactor b \<le> b\<close> assms(3) by simp
  then show "256 dvd backpedal b" "0 < backpedal b"
    using RoundedBytes_bounds [of "times_kBackpedalFactor b"]
      times_kBackpedalFactor_pos [OF \<open>256 \<le> b\<close>] by auto
qed

text \<open>The scaled size is smaller from 2560 bytes on, and 2304 bytes are a fixed point.\<close>

lemma backpedal_2304: "backpedal 2304 = 2304"
  by (simp add: times_kBackpedalFactor_def round_float_def RoundedBytes_eq
      Log2FloorNonZero_fallback_eq [of 35])

lemma backpedal_2560: "backpedal 2560 = 2304"
  by (simp add: times_kBackpedalFactor_def round_float_def RoundedBytes_eq
      Log2FloorNonZero_fallback_eq [of 35])

lemma backpedal_less:
  assumes "256 dvd b" "2304 < b" "b < 2 ^ 63"
  shows "backpedal b < b"
proof (cases "b = 2560")
  case True
  then show ?thesis by (simp add: backpedal_2560)
next
  case False
  then have "2816 \<le> b" using assms by (auto elim!: dvdE)
  then have "times_kBackpedalFactor b \<le> b - 256" using times_kBackpedalFactor_le [of b] by linarith
  moreover have "256 dvd b - 256" using assms(1) by (simp add: dvd_diff_nat)
  ultimately have "backpedal b \<le> b - 256" using assms by (intro RoundedBytes_le) auto
  then show ?thesis using \<open>2816 \<le> b\<close> by linarith
qed

section \<open>The loops of Extend\<close>

lemma grow_loop_done [simp]: "rounded \<le> cur \<Longrightarrow> grow_loop rounded cur inc = Some (cur, inc)"
  by (subst grow_loop.simps) simp

lemma grow_loop_more:
  assumes "0 < cur" "cur < rounded" "rounded \<le> 2 ^ 62"
  shows "\<exists>cur'. grow_loop rounded cur inc = Some (cur', True) \<and> rounded \<le> cur' \<and>
           cur' < 2 * rounded \<and> cur dvd cur'"
  using assms
proof (induction "rounded - cur" arbitrary: cur inc rule: less_induct)
  case less
  have step: "grow_loop rounded cur inc = grow_loop rounded (cur * 2) True"
    using less.prems by (subst grow_loop.simps) simp
  show ?case
  proof (cases "rounded \<le> cur * 2")
    case True
    then show ?thesis using step less.prems by auto
  next
    case False
    then have "\<exists>cur'. grow_loop rounded (cur * 2) True = Some (cur', True) \<and> rounded \<le> cur' \<and>
        cur' < 2 * rounded \<and> cur * 2 dvd cur'"
      using less.prems by (intro less.hyps) auto
    then show ?thesis using step dvd_mult_left by metis
  qed
qed

text \<open>The backpedalling loop as a step relation: one application of \<open>again\<close> per round.\<close>

inductive attempts ::
  "sub_alloc \<Rightarrow> nat \<Rightarrow> nat \<Rightarrow> (nat \<times> nat) list \<Rightarrow> nat \<Rightarrow> nat \<Rightarrow> (nat \<times> nat) list \<Rightarrow> bool"
  for alloc where
  stop: "attempts alloc m b l m b l"
| again: "attempts alloc (alloc l b) (backpedal b) (l @ [(b, alloc l b)]) m' b' l' \<Longrightarrow>
    attempts alloc 0 b l m' b' l'"

lemma backpedal_loop_attempts:
  assumes "backpedal_loop alloc rounded mem bytes log = Some (mem', bytes', log')"
  shows "attempts alloc mem bytes log mem' bytes' log'"
proof -
  have "(\<lambda>(m', b', l'). attempts alloc mem bytes log m' b' l') (mem', bytes', log')"
    by (rule backpedal_loop.raw_induct [rotated, OF assms,
          where P = "\<lambda>al ro m b l (m', b', l'). attempts al m b l m' b' l'"])
      (auto split: if_splits intro: attempts.intros)
  then show ?thesis by simp
qed

lemma attempts_bytes:
  "attempts alloc m b l m' b' l' \<Longrightarrow> 256 dvd b \<Longrightarrow> 0 < b \<Longrightarrow> b < 2 ^ 63 \<Longrightarrow>
    b' \<le> b \<and> 256 dvd b' \<and> 0 < b'"
  by (induction rule: attempts.induct) (auto dest: backpedal_unit simp: backpedal_unit intro: le_trans)

text \<open>
  All attempts but the last fail; when the last one succeeds, the number of bytes
  has been scaled down once more after it.
\<close>

lemma attempts_log:
  "attempts alloc m b l m' b' l' \<Longrightarrow> 256 dvd b \<Longrightarrow> 0 < b \<Longrightarrow> b < 2 ^ 63 \<Longrightarrow>
    (m' = 0 \<longrightarrow> (\<exists>tried. l' = l @ map (\<lambda>b. (b, 0)) tried)) \<and>
    (m' \<noteq> 0 \<and> m = 0 \<longrightarrow> (\<exists>tried c. l' = l @ map (\<lambda>b. (b, 0)) tried @ [(c, m')] \<and>
       m' = alloc (l @ map (\<lambda>b. (b, 0)) tried) c \<and> b' = backpedal c \<and> b' \<le> c \<and> c \<le> b)) \<and>
    (m \<noteq> 0 \<longrightarrow> m' = m \<and> l' = l \<and> b' = b)"
proof (induction rule: attempts.induct)
  case (stop m b l)
  then show ?case by (auto intro: exI [of _ "[]"])
next
  case (again l b m' b' l')
  note unit = backpedal_unit [OF again.prems]
  have "backpedal b < 2 ^ 63" using unit(1) again.prems(3) by linarith
  note IH = again.IH [OF unit(2,3) this]
  show ?case
  proof (cases "alloc l b = 0")
    case False
    then have "m' = alloc l b" "l' = l @ [(b, alloc l b)]" "b' = backpedal b" using IH by auto
    then show ?thesis using False unit by (auto intro!: exI [of _ "[]"])
  next
    case True
    show ?thesis
    proof (cases "m' = 0")
      case True
      then obtain tried where "l' = (l @ [(b, alloc l b)]) @ map (\<lambda>b. (b, 0)) tried" using IH by auto
      then show ?thesis using True \<open>alloc l b = 0\<close> by (auto intro!: exI [of _ "b # tried"])
    next
      case False
      then obtain tried c where "l' = (l @ [(b, 0)]) @ map (\<lambda>b. (b, 0)) tried @ [(c, m')]"
        "m' = alloc ((l @ [(b, 0)]) @ map (\<lambda>b. (b, 0)) tried) c" "b' = backpedal c" "b' \<le> c"
        "c \<le> backpedal b"
        using IH True by auto
      then show ?thesis
        using False unit(1) by (auto intro!: exI [of _ "b # tried"] exI [of _ c])
    qed
  qed
qed

text \<open>It ends when at least 2304 bytes are requested; below, it may not.\<close>

lemma backpedal_loop_terminates:
  assumes "2304 \<le> rounded" "256 dvd bytes" "bytes < 2 ^ 63"
  shows "\<exists>res. backpedal_loop alloc rounded mem bytes log = Some res"
  using assms(2,3)
proof (induction bytes arbitrary: mem log rule: less_induct)
  case (less bytes)
  show ?case
  proof (cases "mem = 0 \<and> bytes > rounded")
    case True
    then have big: "2304 < bytes" using assms(1) by simp
    then have "backpedal bytes < bytes" using less.prems by (intro backpedal_less) auto
    moreover have "256 dvd backpedal bytes" using less.prems big by (intro backpedal_unit) auto
    ultimately show ?thesis
      using less.IH [of "backpedal bytes"] less.prems True
      by (subst backpedal_loop.simps) auto
  next
    case False
    then show ?thesis by (subst backpedal_loop.simps) auto
  qed
qed

lemma backpedal_loop_diverges:
  assumes "\<And>log. alloc log 2304 = 0" "rounded < 2304"
  shows "backpedal_loop alloc rounded 0 2304 log = None"
proof (rule ccontr)
  assume "\<not> ?thesis"
  then obtain res where "backpedal_loop alloc rounded 0 2304 log = Some res" by auto
  then have "alloc = alloc \<and> rounded = rounded \<and> (0::nat) = 0 \<and> 2304 = (2304::nat) \<longrightarrow> False"
    by (rule backpedal_loop.raw_induct [rotated,
          where P = "\<lambda>al ro m b l res. al = alloc \<and> ro = rounded \<and> m = 0 \<and> b = 2304 \<longrightarrow> False"])
      (use assms in \<open>auto simp: backpedal_2304 split: if_splits, blast\<close>)
  then show False by simp
qed

end
