(* ===== verification/BFC_Regions.thy ===== *)
theory BFC_Regions
  imports BFC_Arith "HOL-Library.Multiset"
begin

text \<open>
  The region manager as a table from addresses to chunk handles: the laws of
  \<open>get_handle\<close>, \<open>set_handle\<close>, \<open>erase_handle\<close> and \<open>AddAllocationRegion\<close> on the
  addresses that lie a multiple of the allocation unit into a region.
\<close>

named_theorems run_simps
  "how the primitive operations return under their preconditions"

lemma CHECK_True [simp]: "b \<Longrightarrow> CHECK b k = k"
  by (simp add: CHECK_def)

definition region_ok :: "region \<Rightarrow> bool" where
  "region_ok r \<longleftrightarrow> 0 < r_ptr r \<and> r_end_ptr r = r_ptr r + r_memory_size r \<and> r_end_ptr r < 2 ^ 64 \<and>
     256 dvd r_memory_size r \<and> 0 < r_memory_size r \<and> r_memory_size r \<le> 2 ^ 39 \<and>
     length (r_handles r) = r_memory_size r div 256"

definition regions_ok :: "region list \<Rightarrow> bool" where
  "regions_ok rs \<longleftrightarrow> (\<forall>r\<in>set rs. region_ok r) \<and> sorted_wrt (\<lambda>r s. r_end_ptr r \<le> r_ptr s) rs"

definition spans :: "region list \<Rightarrow> (nat \<times> nat) list" where
  "spans rs = map (\<lambda>r. (r_ptr r, r_memory_size r)) rs"

definition aligned :: "(nat \<times> nat) list \<Rightarrow> nat \<Rightarrow> bool" where
  "aligned sp p \<longleftrightarrow> (\<exists>(a, n)\<in>set sp. a \<le> p \<and> p < a + n \<and> 256 dvd p - a)"

definition in_region :: "region \<Rightarrow> nat \<Rightarrow> bool" where
  "in_region r p \<longleftrightarrow> r_ptr r \<le> p \<and> p < r_end_ptr r"

definition slot :: "region \<Rightarrow> nat \<Rightarrow> nat" where
  "slot r p = (p - r_ptr r) div 256"

lemma spans_Nil [simp]: "spans [] = []"
  by (simp add: spans_def)

lemma aligned_iff:
  assumes "regions_ok rs"
  shows "aligned (spans rs) p \<longleftrightarrow> (\<exists>k<length rs. in_region (rs ! k) p \<and> 256 dvd p - r_ptr (rs ! k))"
proof -
  have "r_end_ptr r = r_ptr r + r_memory_size r" if "r \<in> set rs" for r
    using assms that by (auto simp: regions_ok_def region_ok_def)
  then show ?thesis
    by (auto simp: aligned_def spans_def in_region_def in_set_conv_nth) (metis nth_mem)+
qed

lemma region_unique:
  assumes "regions_ok rs" "k < length rs" "j < length rs" "in_region (rs ! k) p" "in_region (rs ! j) p"
  shows "j = k"
proof (rule ccontr)
  assume "j \<noteq> k"
  then consider "j < k" | "k < j" by linarith
  then show False
    using assms by cases (auto simp: regions_ok_def sorted_wrt_iff_nth_less in_region_def; fastforce)+
qed

lemma upper_bound_in:
  assumes "regions_ok rs" "k < length rs" "in_region (rs ! k) p"
  shows "upper_bound rs p = k"
proof -
  have "takeWhile (\<lambda>r. \<not> p < r_end_ptr r) rs = take k rs"
  proof (rule takeWhile_eq_take_P_nth)
    fix i assume "i < k"
    then have "r_end_ptr (rs ! i) \<le> r_ptr (rs ! k)"
      using assms by (auto simp: regions_ok_def sorted_wrt_iff_nth_less)
    then show "\<not> p < r_end_ptr (rs ! i)" using assms by (auto simp: in_region_def)
  qed (use assms in \<open>auto simp: in_region_def\<close>)
  then show ?thesis using assms by (simp add: upper_bound_def)
qed

lemma IndexFor_in:
  assumes "region_ok r" "in_region r p"
  shows "IndexFor r p = int (slot r p)" and "slot r p < length (r_handles r)"
proof -
  have p: "p - r_ptr r < r_memory_size r" "r_ptr r \<le> p" "p < 2 ^ 64"
    using assms by (auto simp: region_ok_def in_region_def)
  have "slot r p < 2 ^ 31" using p assms by (auto simp: slot_def region_ok_def)
  with p show "IndexFor r p = int (slot r p)"
    by (simp add: IndexFor_def slot_def kMinAllocationBits_def drop_bit_eq_div)
  show "slot r p < length (r_handles r)"
    using p assms by (auto simp: slot_def region_ok_def elim!: dvdE)
qed

lemma get_handle_in:
  assumes "regions_ok rs" "k < length rs" "in_region (rs ! k) p"
  shows "get_handle rs p = Inr (r_handles (rs ! k) ! slot (rs ! k) p)"
proof -
  have "region_ok (rs ! k)" using assms by (auto simp: regions_ok_def)
  with assms show ?thesis
    by (simp add: get_handle_def RegionFor_def upper_bound_in region_get_handle_def IndexFor_in)
qed

lemma set_handle_in:
  assumes "regions_ok rs" "k < length rs" "in_region (rs ! k) p"
  shows "set_handle p h rs =
    Inr (rs[k := (rs ! k)\<lparr>r_handles := (r_handles (rs ! k))[slot (rs ! k) p := h]\<rparr>])"
proof -
  have "region_ok (rs ! k)" using assms by (auto simp: regions_ok_def)
  with assms show ?thesis
    by (simp add: set_handle_def RegionFor_def upper_bound_in region_set_handle_def IndexFor_in)
qed

lemma erase_handle_set: "erase_handle p rs = set_handle p (- 1) rs"
  by (simp add: erase_handle_def set_handle_def region_erase_def kInvalidChunkHandle_def)

lemma slot_eq_iff:
  assumes "r_ptr r \<le> p" "r_ptr r \<le> q" "256 dvd p - r_ptr r" "256 dvd q - r_ptr r"
  shows "slot r p = slot r q \<longleftrightarrow> p = q"
  using assms by (auto simp: slot_def elim!: dvdE)

text \<open>Storing a handle changes the table at one address and nothing else.\<close>

lemma set_handle_law:
  assumes rs: "regions_ok rs" and p: "aligned (spans rs) p"
  shows "\<exists>rs'. set_handle p h rs = Inr rs' \<and> regions_ok rs' \<and> spans rs' = spans rs \<and>
    (\<forall>q. aligned (spans rs) q \<longrightarrow> get_handle rs' q = (if q = p then Inr h else get_handle rs q))"
proof -
  obtain k where k: "k < length rs" "in_region (rs ! k) p" "256 dvd p - r_ptr (rs ! k)"
    using p aligned_iff [OF rs] by auto
  define r' where "r' = (rs ! k)\<lparr>r_handles := (r_handles (rs ! k))[slot (rs ! k) p := h]\<rparr>"
  define rs' where "rs' = rs[k := r']"
  have fields: "r_ptr r' = r_ptr (rs ! k)" "r_memory_size r' = r_memory_size (rs ! k)"
    "r_end_ptr r' = r_end_ptr (rs ! k)" by (auto simp: r'_def)
  have ptr: "r_ptr (rs' ! j) = r_ptr (rs ! j)" and en: "r_end_ptr (rs' ! j) = r_end_ptr (rs ! j)" for j
    using k(1) fields by (auto simp: rs'_def nth_list_update)
  have len: "length rs' = length rs" by (simp add: rs'_def)
  have sp: "spans rs' = spans rs"
    using k(1) fields by (auto simp: spans_def rs'_def list_eq_iff_nth_eq nth_list_update)
  have "region_ok (rs ! k)" using rs k by (auto simp: regions_ok_def)
  then have "region_ok r'" by (simp add: r'_def region_ok_def)
  then have "\<forall>r\<in>set rs'. region_ok r"
    using rs set_update_subset_insert [of rs k r'] by (auto simp: rs'_def regions_ok_def)
  then have ok: "regions_ok rs'"
    using rs len by (auto simp: regions_ok_def sorted_wrt_iff_nth_less ptr en)
  have "get_handle rs' q = (if q = p then Inr h else get_handle rs q)" if q: "aligned (spans rs) q" for q
  proof -
    obtain j where j: "j < length rs" "in_region (rs ! j) q" "256 dvd q - r_ptr (rs ! j)"
      using q aligned_iff [OF rs] by auto
    have j': "j < length rs'" "in_region (rs' ! j) q" using j len by (auto simp: in_region_def ptr en)
    show ?thesis
    proof (cases "j = k")
      case True
      have "slot (rs ! k) q < length (r_handles (rs ! k))"
        using j True \<open>region_ok (rs ! k)\<close> IndexFor_in(2) by blast
      moreover have "slot (rs ! k) p = slot (rs ! k) q \<longleftrightarrow> p = q"
        using j k True by (intro slot_eq_iff) (auto simp: in_region_def)
      moreover have "rs' ! k = r'" using k by (simp add: rs'_def)
      moreover have "slot r' q = slot (rs ! k) q" by (simp add: slot_def fields)
      ultimately show ?thesis
        using get_handle_in [OF ok j'] get_handle_in [OF rs j(1,2)] True
        by (auto simp: r'_def)
    next
      case False
      then have "q \<noteq> p" using region_unique [OF rs k(1) j(1) k(2)] j(2) by auto
      moreover have "rs' ! j = rs ! j" using False by (simp add: rs'_def)
      ultimately show ?thesis using get_handle_in [OF ok j'] get_handle_in [OF rs j(1,2)] by simp
    qed
  qed
  moreover have "set_handle p h rs = Inr rs'" using set_handle_in [OF rs k(1,2)] by (simp add: rs'_def r'_def)
  ultimately show ?thesis using ok sp by auto
qed

lemma upper_bound_le: "upper_bound rs p \<le> length rs"
  by (simp add: upper_bound_def length_takeWhile_le)

text \<open>A new region keeps the old entries; its own entries are invalid handles.\<close>

lemma AddAllocationRegion_law:
  assumes rs: "regions_ok rs"
    and new: "0 < p" "p + n < 2 ^ 64" "256 dvd n" "0 < n" "n \<le> 2 ^ 39"
    and disj: "\<forall>(a, m)\<in>set (spans rs). a + m \<le> p \<or> p + n \<le> a"
  defines "rs' \<equiv> AddAllocationRegion p n rs"
  shows "regions_ok rs'" and "set (spans rs') = insert (p, n) (set (spans rs))"
    and "sum_list (map snd (spans rs')) = sum_list (map snd (spans rs)) + n"
    and "\<And>q. aligned (spans rs) q \<Longrightarrow> get_handle rs' q = get_handle rs q"
    and "\<And>q. p \<le> q \<Longrightarrow> q < p + n \<Longrightarrow> get_handle rs' q = Inr (- 1)"
    and "mset (spans rs') = add_mset (p, n) (mset (spans rs))"
proof -
  define e where "e = upper_bound rs p"
  define r where "r = AllocationRegion p n"
  have rs': "rs' = take e rs @ r # drop e rs"
    by (simp add: rs'_def AddAllocationRegion_def e_def r_def Let_def)
  have "n + 256 < 2 ^ 64" using new(5) by simp
  then have handles: "r_handles r = replicate ((n + 255) div 256) (- 1)"
    by (simp add: r_def AllocationRegion_def kInvalidChunkHandle_def)
  have r: "r_ptr r = p" "r_memory_size r = n" "r_end_ptr r = p + n"
    using new by (auto simp: r_def AllocationRegion_def Let_def)
  have "(n + 255) div 256 = n div 256" using new(3) by (auto elim!: dvdE)
  then have "region_ok r" using new by (simp add: region_ok_def handles r)
  have ok: "\<forall>r\<in>set rs. region_ok r" using rs by (simp add: regions_ok_def)
  then have span: "(r_ptr s, r_memory_size s) \<in> set (spans rs)" "r_end_ptr s = r_ptr s + r_memory_size s"
    "r_ptr s < r_end_ptr s"
    if "s \<in> set rs" for s using that by (auto simp: spans_def region_ok_def)
  have before: "r_end_ptr s \<le> p" if "s \<in> set (take e rs)" for s
  proof -
    have "take e rs = takeWhile (\<lambda>r. \<not> p < r_end_ptr r) rs"
      unfolding e_def upper_bound_def by (rule takeWhile_eq_take [symmetric])
    then have "\<not> p < r_end_ptr s" using that by (auto dest: set_takeWhileD)
    then show ?thesis by simp
  qed
  have after: "p + n \<le> r_ptr s" if "s \<in> set (drop e rs)" for s
  proof -
    obtain d where "d < length (drop e rs)" "s = drop e rs ! d"
      using \<open>s \<in> set (drop e rs)\<close> by (metis in_set_conv_nth)
    then obtain i where i: "e \<le> i" "i < length rs" "s = rs ! i" by (auto intro: that [of "e + d"])
    have "p < r_end_ptr (rs ! e)"
      using i nth_length_takeWhile [of "\<lambda>r. \<not> p < r_end_ptr r" rs] by (auto simp: e_def upper_bound_def)
    also have "\<dots> \<le> r_end_ptr s"
    proof (cases "i = e")
      case False
      then have "r_end_ptr (rs ! e) \<le> r_ptr s"
        using i rs by (auto simp: regions_ok_def sorted_wrt_iff_nth_less)
      then show ?thesis using span(3) [of s] i by fastforce
    qed (use i in simp)
    finally have "\<not> r_end_ptr s \<le> p" by simp
    then show ?thesis using disj span(1,2) [of s] i by fastforce
  qed
  have "r_end_ptr s \<le> r_ptr t" if "s \<in> set (take e rs)" "t \<in> set (drop e rs)" for s t
    using before [OF that(1)] after [OF that(2)] by linarith
  moreover have "sorted_wrt (\<lambda>r s. r_end_ptr r \<le> r_ptr s) rs" using rs by (simp add: regions_ok_def)
  ultimately have "sorted_wrt (\<lambda>r s. r_end_ptr r \<le> r_ptr s) rs'"
    using before after by (auto simp: rs' sorted_wrt_append r sorted_wrt_take sorted_wrt_drop)
  then show ok': "regions_ok rs'"
    using ok \<open>region_ok r\<close> by (auto simp: regions_ok_def rs' dest: in_set_takeD in_set_dropD)
  show "mset (spans rs') = add_mset (p, n) (mset (spans rs))"
  proof -
    have "mset (take e rs) + mset (drop e rs) = mset rs"
      by (metis append_take_drop_id mset_append)
    then have "mset rs' = add_mset r (mset rs)" by (simp add: rs')
    then show ?thesis by (simp add: spans_def r)
  qed
  then show "set (spans rs') = insert (p, n) (set (spans rs))"
    and "sum_list (map snd (spans rs')) = sum_list (map snd (spans rs)) + n"
    by (metis set_mset_add_mset_insert set_mset_mset)
      (metis (no_types, lifting) \<open>mset (spans rs') = add_mset (p, n) (mset (spans rs))\<close> mset_map image_mset_add_mset add.commute
          sum_mset.add_mset sum_mset_sum_list snd_conv)
  show "get_handle rs' q = Inr (- 1)" if "p \<le> q" "q < p + n" for q
  proof -
    have e: "e \<le> length rs" by (simp add: e_def upper_bound_le)
    then have "e < length rs'" "rs' ! e = r" by (auto simp: rs' nth_append)
    then show ?thesis
      using get_handle_in [OF ok', of e q] IndexFor_in(2) [OF \<open>region_ok r\<close>, of q] that
      by (simp add: in_region_def r handles)
  qed
  show "get_handle rs' q = get_handle rs q" if q: "aligned (spans rs) q" for q
  proof -
    obtain j where j: "j < length rs" "in_region (rs ! j) q" using q aligned_iff [OF rs] by auto
    define j' where "j' = (if j < e then j else j + 1)"
    have "j' < length rs'" "rs' ! j' = rs ! j"
      using j(1) upper_bound_le [of rs p] by (auto simp: j'_def rs' nth_append e_def min_def Suc_diff_le)
    then show ?thesis using get_handle_in [OF ok', of j' q] get_handle_in [OF rs j] j(2) by simp
  qed
qed

end
