(* ===== verification/BFC_Heap.thy ===== *)
theory BFC_Heap
  imports BFC_Regions
begin

text \<open>
  The invariant of the allocator's data structures, stated on the contents
  \<open>C\<close> of the chunk vector, the set \<open>L\<close> of live handles, the regions and the
  bins, and how each elementary change of the structures keeps it: taking a chunk
  out of its bin, putting it back, marking it used or unused, splitting, merging,
  and adding a region. \<open>X\<close> is the set of the live chunks that an operation has
  taken out of the bins and has not put back yet.
\<close>

section \<open>Bins as sorted lists\<close>

definition cmp :: "(nat \<Rightarrow> chunk) \<Rightarrow> int \<Rightarrow> int \<Rightarrow> bool" where
  "cmp C x y \<longleftrightarrow> c_size (C (nat x)) < c_size (C (nat y)) \<or>
     c_size (C (nat x)) = c_size (C (nat y)) \<and> c_ptr (C (nat x)) < c_ptr (C (nat y))"

lemma ChunkComparator_cmp: "ChunkComparator st = cmp ((!) (chunks st))"
  by (intro ext) (auto simp: ChunkComparator_def cmp_def Let_def)

lemma cmp_trans: "cmp C x y \<Longrightarrow> cmp C y z \<Longrightarrow> cmp C x z"
  by (auto simp: cmp_def)

lemma cmp_irrefl [simp]: "\<not> cmp C x x"
  by (auto simp: cmp_def)

lemma set_set_insert:
  "\<forall>y\<in>set ys. lt x y \<or> lt y x \<Longrightarrow> set (set_insert lt x ys) = insert x (set ys)"
  by (induction ys) auto

lemma sorted_set_insert:
  assumes "\<And>x y z. lt x y \<Longrightarrow> lt y z \<Longrightarrow> lt x z" "sorted_wrt lt ys" "\<forall>y\<in>set ys. lt x y \<or> lt y x"
  shows "sorted_wrt lt (set_insert lt x ys)"
  using assms(2,3)
proof (induction ys)
  case (Cons y ys)
  then have "set (set_insert lt x ys) = insert x (set ys)" by (intro set_set_insert) auto
  with Cons show ?case using assms(1) by auto
qed simp

lemma set_erase_found:
  assumes "x \<in> set ys" "\<forall>y\<in>set ys. y \<noteq> x \<longrightarrow> lt x y \<or> lt y x" "\<not> lt x x" "distinct ys"
  shows "set_erase lt x ys = (1, filter (\<lambda>y. y \<noteq> x) ys)"
  using assms
proof (induction ys)
  case (Cons y ys)
  show ?case
  proof (cases "y = x")
    case True
    then have "filter (\<lambda>y. y \<noteq> x) ys = ys" using Cons.prems by (auto simp: filter_id_conv)
    with True Cons.prems show ?thesis by simp
  qed (use Cons in auto)
qed simp

lemma take_drop_filter:
  "distinct xs \<Longrightarrow> i < length xs \<Longrightarrow> take i xs @ drop (Suc i) xs = filter (\<lambda>y. y \<noteq> xs ! i) xs"
proof (induction xs arbitrary: i)
  case (Cons x xs)
  show ?case
  proof (cases i)
    case 0
    have "filter (\<lambda>y. y \<noteq> x) xs = xs" using Cons.prems by (auto simp: filter_id_conv)
    then show ?thesis using 0 by simp
  next
    case (Suc j)
    then have "x \<noteq> xs ! j" using Cons.prems by auto
    then show ?thesis using Suc Cons by simp
  qed
qed simp

lemma sorted_wrt_cmp_distinct: "sorted_wrt (cmp C) xs \<Longrightarrow> distinct xs"
  by (induction xs) (auto dest: bspec)

lemma sorted_wrt_cong:
  "sorted_wrt P xs \<Longrightarrow> (\<And>x y. x \<in> set xs \<Longrightarrow> y \<in> set xs \<Longrightarrow> P x y \<Longrightarrow> Q x y) \<Longrightarrow> sorted_wrt Q xs"
  by (induction xs) auto

section \<open>The invariant\<close>

definition linked :: "(nat \<Rightarrow> chunk) \<Rightarrow> nat set \<Rightarrow> bool" where
  "linked C L \<longleftrightarrow> (\<forall>h\<in>L.
     (c_next (C h) = - 1 \<or> (\<exists>n\<in>L. c_next (C h) = int n \<and> c_prev (C n) = int h \<and>
        c_ptr (C n) = c_ptr (C h) + c_size (C h))) \<and>
     (c_prev (C h) = - 1 \<or> (\<exists>p\<in>L. c_prev (C h) = int p \<and> c_next (C p) = int h)))"

definition placed_in :: "nat \<times> nat \<Rightarrow> chunk \<Rightarrow> bool" where
  "placed_in = (\<lambda>(a, n) c. a \<le> c_ptr c \<and> c_ptr c + c_size c \<le> a + n \<and> 256 dvd c_ptr c - a \<and>
     (c_next c = - 1 \<longleftrightarrow> c_ptr c + c_size c = a + n) \<and> (c_prev c = - 1 \<longleftrightarrow> c_ptr c = a))"

definition placed :: "(nat \<Rightarrow> chunk) \<Rightarrow> (nat \<times> nat) list \<Rightarrow> nat set \<Rightarrow> bool" where
  "placed C sp L \<longleftrightarrow> (\<forall>h\<in>L. 256 dvd c_size (C h) \<and> 0 < c_size (C h) \<and>
     (\<exists>s\<in>set sp. placed_in s (C h)))"

definition apart :: "(nat \<Rightarrow> chunk) \<Rightarrow> nat set \<Rightarrow> bool" where
  "apart C L \<longleftrightarrow> (\<forall>h\<in>L. \<forall>k\<in>L. h \<noteq> k \<longrightarrow>
     c_ptr (C h) + c_size (C h) \<le> c_ptr (C k) \<or> c_ptr (C k) + c_size (C k) \<le> c_ptr (C h))"

definition handles_ok :: "(nat \<Rightarrow> chunk) \<Rightarrow> nat set \<Rightarrow> region list \<Rightarrow> bool" where
  "handles_ok C L rs \<longleftrightarrow> (\<forall>h\<in>L. get_handle rs (c_ptr (C h)) = Inr (int h)) \<and>
     (\<forall>q. aligned (spans rs) q \<longrightarrow> get_handle rs q = Inr (- 1) \<or>
        (\<exists>h\<in>L. get_handle rs q = Inr (int h) \<and> c_ptr (C h) = q))"

definition bins_ok :: "(nat \<Rightarrow> chunk) \<Rightarrow> nat set \<Rightarrow> int list list \<Rightarrow> bool" where
  "bins_ok C L bs \<longleftrightarrow> length bs = 21 \<and> (\<forall>b<21. sorted_wrt (cmp C) (bs ! b) \<and>
     set (bs ! b) = {int h |h. h \<in> L \<and> c_bin_num (C h) = int b})"

definition binned :: "nat set \<Rightarrow> (nat \<Rightarrow> chunk) \<Rightarrow> nat set \<Rightarrow> bool" where
  "binned X C L \<longleftrightarrow> X \<subseteq> L \<and> (\<forall>h\<in>X. \<not> in_use (C h)) \<and> (\<forall>h\<in>L. c_bin_num (C h) =
     (if h \<in> X \<or> in_use (C h) then - 1 else int (BinNumForSize (c_size (C h)))))"

definition coalesced :: "nat set \<Rightarrow> (nat \<Rightarrow> chunk) \<Rightarrow> nat set \<Rightarrow> bool" where
  "coalesced X C L \<longleftrightarrow> (\<forall>h\<in>L. \<forall>n. c_next (C h) = int n \<longrightarrow>
     h \<in> X \<or> n \<in> X \<or> in_use (C h) \<or> in_use (C n))"

definition tiled :: "(nat \<Rightarrow> chunk) \<Rightarrow> (nat \<times> nat) list \<Rightarrow> nat set \<Rightarrow> bool" where
  "tiled C sp L \<longleftrightarrow> finite L \<and> (\<Sum>h\<in>L. c_size (C h)) = sum_list (map snd sp)"

definition heap_ok ::
  "nat set \<Rightarrow> (nat \<Rightarrow> chunk) \<Rightarrow> nat set \<Rightarrow> region list \<Rightarrow> int list list \<Rightarrow> bool" where
  "heap_ok X C L rs bs \<longleftrightarrow> regions_ok rs \<and> handles_ok C L rs \<and> linked C L \<and>
     placed C (spans rs) L \<and> apart C L \<and> tiled C (spans rs) L \<and> bins_ok C L bs \<and>
     binned X C L \<and> coalesced X C L"

lemmas heap_parts = handles_ok_def linked_def placed_def apart_def tiled_def bins_ok_def
  binned_def coalesced_def

lemma heap_okD:
  assumes "heap_ok X C L rs bs"
  shows "regions_ok rs" "handles_ok C L rs" "linked C L" "placed C (spans rs) L" "apart C L"
    "tiled C (spans rs) L" "bins_ok C L bs" "binned X C L" "coalesced X C L"
  using assms by (auto simp: heap_ok_def)

lemma heap_okI:
  assumes "regions_ok rs" "handles_ok C L rs" "linked C L" "placed C (spans rs) L" "apart C L"
    "tiled C (spans rs) L" "bins_ok C L bs" "binned X C L" "coalesced X C L"
  shows "heap_ok X C L rs bs"
  using assms by (auto simp: heap_ok_def)

section \<open>Consequences\<close>

lemma span_bounds:
  assumes "regions_ok rs" "(a, n) \<in> set (spans rs)"
  shows "0 < a" "a + n < 2 ^ 64" "256 dvd n" "0 < n"
  using assms by (auto simp: regions_ok_def region_ok_def spans_def)

lemma span_unique:
  assumes rs: "regions_ok rs" and s: "(a, n) \<in> set (spans rs)" "(b, m) \<in> set (spans rs)"
    and p: "a \<le> p" "p < a + n" "b \<le> p" "p < b + m"
  shows "(b, m) = (a, n)"
proof -
  obtain j k where j: "j < length rs" "(a, n) = (r_ptr (rs ! j), r_memory_size (rs ! j))"
    and k: "k < length rs" "(b, m) = (r_ptr (rs ! k), r_memory_size (rs ! k))"
    using s by (auto simp: spans_def in_set_conv_nth)
  have "region_ok (rs ! j)" "region_ok (rs ! k)" using rs j k by (auto simp: regions_ok_def)
  then have "in_region (rs ! j) p" "in_region (rs ! k) p"
    using j k p by (auto simp: in_region_def region_ok_def)
  then have "k = j" by (rule region_unique [OF rs j(1) k(1)])
  then show ?thesis using j k by simp
qed

lemma chunk_bounds:
  assumes "regions_ok rs" "placed C (spans rs) L" "h \<in> L"
  shows "0 < c_ptr (C h)" "c_ptr (C h) + c_size (C h) < 2 ^ 64" "256 \<le> c_size (C h)"
    "c_size (C h) < 2 ^ 64" "256 dvd c_size (C h)" "aligned (spans rs) (c_ptr (C h))"
proof -
  obtain a n where an: "(a, n) \<in> set (spans rs)" "placed_in (a, n) (C h)"
    and sz: "256 dvd c_size (C h)" "0 < c_size (C h)"
    using assms(2,3) by (auto simp: placed_def)
  note b = span_bounds [OF assms(1) an(1)]
  show "0 < c_ptr (C h)" "c_ptr (C h) + c_size (C h) < 2 ^ 64" "c_size (C h) < 2 ^ 64"
    using b an(2) by (auto simp: placed_in_def)
  show "256 \<le> c_size (C h)" "256 dvd c_size (C h)" using sz by (auto simp: dvd_imp_le)
  show "aligned (spans rs) (c_ptr (C h))"
    using an sz by (auto simp: aligned_def placed_in_def intro!: bexI [of _ "(a, n)"])
qed

lemma apart_ptr_inj:
  assumes "apart C L" "placed C sp L" "h \<in> L" "k \<in> L" "c_ptr (C h) = c_ptr (C k)"
  shows "h = k"
proof (rule ccontr)
  assume "h \<noteq> k"
  then have "c_ptr (C h) + c_size (C h) \<le> c_ptr (C k) \<or> c_ptr (C k) + c_size (C k) \<le> c_ptr (C h)"
    using assms unfolding apart_def by blast
  moreover have "0 < c_size (C h)" "0 < c_size (C k)" using assms by (auto simp: placed_def)
  ultimately show False using assms(5) by linarith
qed

lemma cmp_total:
  assumes "apart C L" "placed C sp L" "h \<in> L" "k \<in> L" "h \<noteq> k"
  shows "cmp C (int h) (int k) \<or> cmp C (int k) (int h)"
  using apart_ptr_inj [OF assms(1-4)] assms(5) by (auto simp: cmp_def) (meson linorder_neqE_nat)

lemma next_live:
  assumes "linked C L" "h \<in> L" "c_next (C h) = int n"
  shows "n \<in> L" "c_prev (C n) = int h" "c_ptr (C n) = c_ptr (C h) + c_size (C h)"
  using assms by (force simp: linked_def)+

lemma prev_live:
  assumes "linked C L" "h \<in> L" "c_prev (C h) = int p"
  shows "p \<in> L" "c_next (C p) = int h"
  using assms by (force simp: linked_def)+

lemma next_neq:
  assumes "linked C L" "placed C sp L" "h \<in> L" "c_next (C h) = int n"
  shows "n \<noteq> h"
  using next_live [OF assms(1,3,4)] assms(2,3) by (auto simp: placed_def)

lemma next_cases:
  assumes "linked C L" "h \<in> L"
  obtains "c_next (C h) = - 1" | n where "c_next (C h) = int n" "n \<in> L"
  using assms by (force simp: linked_def)

lemma prev_cases:
  assumes "linked C L" "h \<in> L"
  obtains "c_prev (C h) = - 1" | p where "c_prev (C h) = int p" "p \<in> L"
  using assms by (force simp: linked_def)

section \<open>Moving a chunk out of and into its bin\<close>

lemma heap_unbin:
  assumes ok: "heap_ok X C L rs bs" and n: "n \<in> L" "\<not> in_use (C n)" "n \<notin> X"
  defines "b \<equiv> BinNumForSize (c_size (C n))"
  shows "heap_ok (insert n X) (C(n := (C n)\<lparr>c_bin_num := - 1\<rparr>)) L rs
           (bs[b := filter (\<lambda>x. x \<noteq> int n) (bs ! b)])"
    and "int n \<in> set (bs ! b)" and "b < 21" and "c_bin_num (C n) = int b"
proof -
  note D = heap_okD [OF ok]
  let ?C = "C(n := (C n)\<lparr>c_bin_num := - 1\<rparr>)"
  show b: "b < 21"
    using chunk_bounds [OF D(1,4) n(1)] BinNumForSize_range(1) by (simp add: b_def)
  show bin: "c_bin_num (C n) = int b" using D(8) n by (simp add: binned_def b_def)
  then show "int n \<in> set (bs ! b)" using D(7) n b by (auto simp: bins_ok_def)
  have cmp: "cmp ?C = cmp C" by (intro ext) (auto simp: cmp_def)
  have iu: "in_use (?C h) = in_use (C h)" for h by (simp add: in_use_def)
  have ptr: "c_ptr (?C h) = c_ptr (C h)" "c_size (?C h) = c_size (C h)"
    "c_next (?C h) = c_next (C h)" "c_prev (?C h) = c_prev (C h)" for h by auto
  have pl: "placed_in s (?C h) = placed_in s (C h)" for s h by (simp add: placed_in_def split_beta)
  show "heap_ok (insert n X) ?C L rs (bs[b := filter (\<lambda>x. x \<noteq> int n) (bs ! b)])"
  proof (rule heap_okI)
    show "bins_ok ?C L (bs[b := filter (\<lambda>x. x \<noteq> int n) (bs ! b)])"
      unfolding bins_ok_def cmp
    proof (intro conjI allI impI)
      fix b' :: nat assume b': "b' < 21"
      have neq: "h \<noteq> n" if "c_bin_num (C h) = int b'" "b \<noteq> b'" for h using that bin by auto
      have "sorted_wrt (cmp C) (bs ! b')" "set (bs ! b') = {int h |h. h \<in> L \<and> c_bin_num (C h) = int b'}"
        using D(7) b' by (auto simp: bins_ok_def)
      moreover have "length bs = 21" using D(7) by (simp add: bins_ok_def)
      ultimately show "sorted_wrt (cmp C) (bs[b := filter (\<lambda>x. x \<noteq> int n) (bs ! b)] ! b')"
        and "set (bs[b := filter (\<lambda>x. x \<noteq> int n) (bs ! b)] ! b') =
          {int h |h. h \<in> L \<and> c_bin_num (?C h) = int b'}"
        using b' b bin by (auto simp: nth_list_update sorted_wrt_filter) (use neq in blast)
    qed (use D(7) in \<open>simp add: bins_ok_def\<close>)
    show "binned (insert n X) ?C L" using D(8) n by (auto simp: binned_def iu in_use_def)
    show "coalesced (insert n X) ?C L" using D(9) by (auto simp: coalesced_def iu ptr simp del: fun_upd_apply)
  qed (use D in \<open>simp_all add: handles_ok_def linked_def placed_def apart_def tiled_def ptr pl del: fun_upd_apply\<close>)
qed

lemma heap_bin:
  assumes ok: "heap_ok X C L rs bs" and n: "n \<in> X"
    and next_ok: "\<And>m. c_next (C n) = int m \<Longrightarrow> m \<in> X - {n} \<or> in_use (C m)"
    and prev_ok: "\<And>m. c_prev (C n) = int m \<Longrightarrow> m \<in> X - {n} \<or> in_use (C m)"
  defines "b \<equiv> BinNumForSize (c_size (C n))"
  defines "C' \<equiv> C(n := (C n)\<lparr>c_bin_num := int b\<rparr>)"
  shows "heap_ok (X - {n}) C' L rs (bs[b := set_insert (cmp C') (int n) (bs ! b)])"
    and "b < 21"
proof -
  note D = heap_okD [OF ok]
  have nL: "n \<in> L" "\<not> in_use (C n)" "c_bin_num (C n) = - 1" using D(8) n by (auto simp: binned_def)
  show b: "b < 21"
    using chunk_bounds [OF D(1,4) nL(1)] BinNumForSize_range(1) by (simp add: b_def)
  have cmp: "cmp C' = cmp C" by (intro ext) (auto simp: cmp_def C'_def)
  have iu: "in_use (C' h) = in_use (C h)" for h by (simp add: in_use_def C'_def)
  have ptr: "c_ptr (C' h) = c_ptr (C h)" "c_size (C' h) = c_size (C h)"
    "c_next (C' h) = c_next (C h)" "c_prev (C' h) = c_prev (C h)" for h by (auto simp: C'_def)
  have pl: "placed_in s (C' h) = placed_in s (C h)" for s h by (simp add: placed_in_def split_beta C'_def)
  show "heap_ok (X - {n}) C' L rs (bs[b := set_insert (cmp C') (int n) (bs ! b)])"
  proof (rule heap_okI)
    show "bins_ok C' L (bs[b := set_insert (cmp C') (int n) (bs ! b)])"
      unfolding bins_ok_def cmp
    proof (intro conjI allI impI)
      fix b' :: nat assume b': "b' < 21"
      have neq: "h \<noteq> n" if "c_bin_num (C h) = int b'" for h using that nL by auto
      have B: "sorted_wrt (cmp C) (bs ! b')" "set (bs ! b') = {int h |h. h \<in> L \<and> c_bin_num (C h) = int b'}"
        and len: "length bs = 21" using D(7) b' by (auto simp: bins_ok_def)
      have tot: "\<forall>y\<in>set (bs ! b'). cmp C (int n) y \<or> cmp C y (int n)"
        unfolding B(2) using cmp_total [OF D(5,4) nL(1)] nL(3) by fastforce
      show "sorted_wrt (cmp C) (bs[b := set_insert (cmp C) (int n) (bs ! b)] ! b')"
        using B len tot b' b by (auto simp: nth_list_update intro!: sorted_set_insert dest: cmp_trans)
      show "set (bs[b := set_insert (cmp C) (int n) (bs ! b)] ! b') =
          {int h |h. h \<in> L \<and> c_bin_num (C' h) = int b'}"
        using B len tot b' b nL set_set_insert [of "bs ! b'" "cmp C" "int n"]
        by (auto simp: nth_list_update C'_def) (use neq in blast)
    qed (use D(7) in \<open>simp add: bins_ok_def\<close>)
    show "binned (X - {n}) C' L"
      unfolding binned_def iu ptr using D(8) nL by (auto simp: binned_def C'_def b_def)
    show "coalesced (X - {n}) C' L"
      unfolding coalesced_def iu ptr
    proof (intro ballI allI impI)
      fix h m assume h: "h \<in> L" "c_next (C h) = int m"
      then have "c_prev (C m) = int h" using next_live [OF D(3)] by simp
      moreover have "m \<noteq> h" using next_neq [OF D(3,4) h] .
      ultimately show "h \<in> X - {n} \<or> m \<in> X - {n} \<or> in_use (C h) \<or> in_use (C m)"
        using D(9) h next_ok prev_ok by (auto simp: coalesced_def)
    qed
  qed (use D in \<open>simp_all add: handles_ok_def linked_def placed_def apart_def tiled_def ptr pl\<close>)
qed

section \<open>Marking a chunk used or unused\<close>

lemma heap_use:
  assumes ok: "heap_ok X C L rs bs" and h: "h \<in> X" and id: "i \<noteq> - 1"
  shows "heap_ok (X - {h}) (C(h := (C h)\<lparr>c_requested_size := r, c_allocation_id := i\<rparr>)) L rs bs"
    (is "heap_ok _ ?C _ _ _")
proof -
  note D = heap_okD [OF ok]
  have same: "c_ptr (?C k) = c_ptr (C k)" "c_size (?C k) = c_size (C k)" "c_next (?C k) = c_next (C k)"
    "c_prev (?C k) = c_prev (C k)" "c_bin_num (?C k) = c_bin_num (C k)" for k by auto
  have pl: "placed_in s (?C k) = placed_in s (C k)" for s k by (simp add: placed_in_def split_beta)
  have cmp: "cmp ?C = cmp C" by (intro ext) (auto simp: cmp_def)
  have iu: "in_use (?C k) \<longleftrightarrow> k = h \<or> in_use (C k)" for k using id by (simp add: in_use_def)
  show ?thesis
  proof (rule heap_okI)
    show "binned (X - {h}) ?C L"
      using D(8) h by (auto simp: binned_def iu same simp del: fun_upd_apply)
    show "coalesced (X - {h}) ?C L"
      using D(9) by (auto simp: coalesced_def iu same simp del: fun_upd_apply)
  qed (use D in \<open>simp_all add: handles_ok_def linked_def placed_def apart_def tiled_def bins_ok_def
      cmp same pl del: fun_upd_apply\<close>)
qed

lemma heap_unuse:
  assumes ok: "heap_ok X C L rs bs" and h: "h \<in> L" "in_use (C h)"
  shows "heap_ok (insert h X) (C(h := (C h)\<lparr>c_allocation_id := - 1\<rparr>)) L rs bs"
    (is "heap_ok _ ?C _ _ _")
proof -
  note D = heap_okD [OF ok]
  have same: "c_ptr (?C k) = c_ptr (C k)" "c_size (?C k) = c_size (C k)" "c_next (?C k) = c_next (C k)"
    "c_prev (?C k) = c_prev (C k)" "c_bin_num (?C k) = c_bin_num (C k)" for k by auto
  have pl: "placed_in s (?C k) = placed_in s (C k)" for s k by (simp add: placed_in_def split_beta)
  have cmp: "cmp ?C = cmp C" by (intro ext) (auto simp: cmp_def)
  have iu: "in_use (?C k) \<longleftrightarrow> k \<noteq> h \<and> in_use (C k)" for k by (simp add: in_use_def)
  show ?thesis
  proof (rule heap_okI)
    show "binned (insert h X) ?C L"
      using D(8) h by (auto simp: binned_def iu same simp del: fun_upd_apply)
    show "coalesced (insert h X) ?C L"
      using D(9) by (auto simp: coalesced_def iu same simp del: fun_upd_apply)
  qed (use D in \<open>simp_all add: handles_ok_def linked_def placed_def apart_def tiled_def bins_ok_def
      cmp same pl del: fun_upd_apply\<close>)
qed

section \<open>Merging two neighbours\<close>

definition merged :: "nat \<Rightarrow> nat \<Rightarrow> (nat \<Rightarrow> chunk) \<Rightarrow> (nat \<Rightarrow> chunk) \<Rightarrow> nat set \<Rightarrow> bool" where
  "merged a b C C' L \<longleftrightarrow> a \<in> L \<and> b \<in> L \<and> c_next (C a) = int b \<and>
     C' a = (C a)\<lparr>c_next := c_next (C b), c_size := c_size (C a) + c_size (C b)\<rparr> \<and>
     (\<forall>k\<in>L - {a, b}. C' k = (if c_next (C b) = int k then (C k)\<lparr>c_prev := int a\<rparr> else C k))"

lemma merged_fields:
  assumes "merged a b C C' L" "k \<in> L - {b}"
  shows "c_ptr (C' k) = c_ptr (C k)" "c_bin_num (C' k) = c_bin_num (C k)"
    "in_use (C' k) = in_use (C k)" "c_requested_size (C' k) = c_requested_size (C k)"
    "c_allocation_id (C' k) = c_allocation_id (C k)"
    "c_size (C' k) = (if k = a then c_size (C a) + c_size (C b) else c_size (C k))"
    "c_next (C' k) = (if k = a then c_next (C b) else c_next (C k))"
    "k \<noteq> a \<Longrightarrow> c_prev (C' k) = (if c_next (C b) = int k then int a else c_prev (C k))"
    "c_prev (C' a) = c_prev (C a)"
  using assms by (cases "k = a"; auto simp: merged_def in_use_def)+

lemma linked_merge:
  assumes m: "merged a b C C' L" and l: "linked C L" and p: "placed C sp L"
  shows "linked C' (L - {b})"
proof -
  note F = merged_fields [OF m]
  have ab: "a \<in> L" "b \<in> L" "c_next (C a) = int b" using m by (auto simp: merged_def)
  have "a \<noteq> b" using next_neq [OF l p ab(1,3)] by simp
  note b = next_live [OF l ab(1,3)]
  have sz: "0 < c_size (C a)" "0 < c_size (C b)" using p ab by (auto simp: placed_def)
  show ?thesis unfolding linked_def
  proof (intro ballI conjI)
    fix h assume h: "h \<in> L - {b}"
    then have hL: "h \<in> L" by simp
    show "c_next (C' h) = - 1 \<or> (\<exists>n\<in>L - {b}. c_next (C' h) = int n \<and> c_prev (C' n) = int h \<and>
        c_ptr (C' n) = c_ptr (C' h) + c_size (C' h))"
    proof (cases "h = a")
      case True
      show ?thesis
      proof (cases rule: next_cases [OF l ab(2)])
        case (2 n)
        note n = next_live [OF l ab(2) 2(1)]
        have "n \<noteq> b" "n \<noteq> a" using n(3) b(3) sz by auto
        then show ?thesis using 2 n b True F h by (auto intro!: bexI [of _ n])
      qed (use True F h in auto)
    next
      case False
      show ?thesis
      proof (cases rule: next_cases [OF l hL])
        case (2 n)
        note n = next_live [OF l hL 2(1)]
        have "n \<noteq> b" using n(2) b(2) False by auto
        moreover have "c_next (C b) \<noteq> int n" using next_live(2) [OF l ab(2), of n] n(2) h by auto
        ultimately show ?thesis using 2 n False F h by (cases "n = a") (auto intro!: bexI [of _ n])
      qed (use False F h in auto)
    qed
    show "c_prev (C' h) = - 1 \<or> (\<exists>p\<in>L - {b}. c_prev (C' h) = int p \<and> c_next (C' p) = int h)"
    proof (cases "c_next (C b) = int h \<and> h \<noteq> a")
      case True
      then show ?thesis using F h ab \<open>a \<noteq> b\<close> by (auto intro!: bexI [of _ a])
    next
      case False
      have "c_next (C b) \<noteq> int a" using next_live(3) [OF l ab(2), of a] b(3) sz by auto
      with False have P: "c_prev (C' h) = c_prev (C h)" using F h by (cases "h = a") auto
      show ?thesis
      proof (cases rule: prev_cases [OF l hL])
        case (2 p)
        note q = prev_live [OF l hL 2(1)]
        have "p \<noteq> b" using q(2) False \<open>c_next (C b) \<noteq> int a\<close> by auto
        moreover have "p \<noteq> a" using q(2) ab(3) h by auto
        ultimately show ?thesis using 2 q F h P by (auto intro!: bexI [of _ p])
      qed (use P h in auto)
    qed
  qed
qed

lemma same_span:
  assumes rs: "regions_ok rs" and p: "placed C (spans rs) L" and l: "linked C L"
    and h: "h \<in> L" "c_next (C h) = int n"
  obtains s where "s \<in> set (spans rs)" "placed_in s (C h)" "placed_in s (C n)"
proof -
  note n = next_live [OF l h]
  obtain s where s: "s \<in> set (spans rs)" "placed_in s (C h)" using p h by (auto simp: placed_def)
  obtain t where t: "t \<in> set (spans rs)" "placed_in t (C n)" using p n by (auto simp: placed_def)
  obtain a k b m where st: "s = (a, k)" "t = (b, m)" by (cases s, cases t)
  have "0 < c_size (C n)" using p n by (auto simp: placed_def)
  moreover have "c_ptr (C h) + c_size (C h) < a + k"
    using s(2) h(2) by (auto simp: st placed_in_def)
  ultimately have "t = s"
    unfolding st using s t n(3)
    by (intro span_unique [OF rs, of a k b m "c_ptr (C n)"]) (auto simp: st placed_in_def)
  then show ?thesis using that s t by blast
qed

lemma placed_merge:
  assumes m: "merged a b C C' L" and rs: "regions_ok rs" and l: "linked C L"
    and p: "placed C (spans rs) L"
  shows "placed C' (spans rs) (L - {b})"
  unfolding placed_def
proof (intro ballI)
  fix k assume k: "k \<in> L - {b}"
  note F = merged_fields [OF m k]
  have ab: "a \<in> L" "b \<in> L" "c_next (C a) = int b" using m by (auto simp: merged_def)
  note b = next_live [OF l ab(1,3)]
  show "256 dvd c_size (C' k) \<and> 0 < c_size (C' k) \<and> (\<exists>s\<in>set (spans rs). placed_in s (C' k))"
  proof (cases "k = a")
    case True
    obtain s where s: "s \<in> set (spans rs)" "placed_in s (C a)" "placed_in s (C b)"
      using same_span [OF rs p l ab(1,3)] .
    obtain A N where AN: "s = (A, N)" by (cases s)
    have "placed_in s (C' a) \<longleftrightarrow> A \<le> c_ptr (C a) \<and> c_ptr (C b) + c_size (C b) \<le> A + N \<and>
        256 dvd c_ptr (C a) - A \<and> (c_next (C b) = - 1 \<longleftrightarrow> c_ptr (C b) + c_size (C b) = A + N) \<and>
        (c_prev (C a) = - 1 \<longleftrightarrow> c_ptr (C a) = A)"
      using F True b(3) by (simp add: placed_in_def AN add.assoc)
    then have "placed_in s (C' a)" using s(2,3) by (simp add: placed_in_def AN)
    then show ?thesis using True F p ab s(1) by (auto simp: placed_def)
  next
    case False
    obtain s where s: "s \<in> set (spans rs)" "placed_in s (C k)" using p k by (auto simp: placed_def)
    have "c_prev (C' k) = - 1 \<longleftrightarrow> c_prev (C k) = - 1"
      using F(8) [OF False] next_live(2) [OF l ab(2), of k] by auto
    then have "placed_in s (C' k)" using s F False by (simp add: placed_in_def split_beta)
    then show ?thesis using False F p k s(1) by (auto simp: placed_def)
  qed
qed

lemma apart_merge:
  assumes m: "merged a b C C' L" and l: "linked C L" and p: "placed C sp L" and ap: "apart C L"
  shows "apart C' (L - {b})"
proof -
  have ab: "a \<in> L" "b \<in> L" "c_next (C a) = int b" using m by (auto simp: merged_def)
  note b = next_live [OF l ab(1,3)]
  have "a \<noteq> b" using next_neq [OF l p ab(1,3)] by simp
  have key: "c_ptr (C k) + c_size (C k) \<le> c_ptr (C a) \<or>
      c_ptr (C a) + (c_size (C a) + c_size (C b)) \<le> c_ptr (C k)" if k: "k \<in> L" "k \<noteq> a" "k \<noteq> b" for k
  proof -
    have "0 < c_size (C k)" using p k by (auto simp: placed_def)
    moreover have "c_ptr (C k) + c_size (C k) \<le> c_ptr (C a) \<or> c_ptr (C a) + c_size (C a) \<le> c_ptr (C k)"
      "c_ptr (C k) + c_size (C k) \<le> c_ptr (C b) \<or> c_ptr (C b) + c_size (C b) \<le> c_ptr (C k)"
      using ap k ab unfolding apart_def by blast+
    ultimately show ?thesis using b(3) by linarith
  qed
  show ?thesis unfolding apart_def
  proof (intro ballI impI)
    fix h k assume hk: "h \<in> L - {b}" "k \<in> L - {b}" "h \<noteq> k"
    then have "c_ptr (C h) + c_size (C h) \<le> c_ptr (C k) \<or> c_ptr (C k) + c_size (C k) \<le> c_ptr (C h)"
      using ap unfolding apart_def by blast
    then show "c_ptr (C' h) + c_size (C' h) \<le> c_ptr (C' k) \<or> c_ptr (C' k) + c_size (C' k) \<le> c_ptr (C' h)"
      using merged_fields [OF m hk(1)] merged_fields [OF m hk(2)] key [of h] key [of k] hk by auto
  qed
qed

lemma tiled_merge:
  assumes m: "merged a b C C' L" and ne: "a \<noteq> b" and t: "tiled C sp L"
  shows "tiled C' sp (L - {b})"
proof -
  have ab: "a \<in> L" "b \<in> L" using m by (auto simp: merged_def)
  have fin: "finite L" using t by (simp add: tiled_def)
  have rest: "L - {b} - {a} = L - {a, b}" "L - {a} - {b} = L - {a, b}" by auto
  have "(\<Sum>h\<in>L - {b}. c_size (C' h)) = c_size (C' a) + (\<Sum>h\<in>L - {a, b}. c_size (C' h))"
    using ab ne fin sum.remove [of "L - {b}" a "\<lambda>h. c_size (C' h)"] by (simp add: rest)
  also have "(\<Sum>h\<in>L - {a, b}. c_size (C' h)) = (\<Sum>h\<in>L - {a, b}. c_size (C h))"
    using merged_fields(6) [OF m] by (intro sum.cong) auto
  also have "c_size (C' a) = c_size (C a) + c_size (C b)" using merged_fields(6) [OF m, of a] ab ne by simp
  also have "\<dots> + (\<Sum>h\<in>L - {a, b}. c_size (C h)) = (\<Sum>h\<in>L. c_size (C h))"
    using ab ne fin sum.remove [of L a "\<lambda>h. c_size (C h)"] sum.remove [of "L - {a}" b "\<lambda>h. c_size (C h)"]
    by (simp add: rest)
  finally show ?thesis using t by (simp add: tiled_def)
qed

lemma bins_merge:
  assumes m: "merged a b C C' L" and bn: "binned X C L" and X: "a \<in> X" "b \<in> X" and bs: "bins_ok C L bs"
  shows "bins_ok C' (L - {b}) bs"
proof -
  have X': "c_bin_num (C a) = - 1" "c_bin_num (C b) = - 1" using bn X by (auto simp: binned_def)
  note F = merged_fields [OF m]
  show ?thesis unfolding bins_ok_def
  proof (intro conjI allI impI)
    fix i :: nat assume i: "i < 21"
    have B: "sorted_wrt (cmp C) (bs ! i)" "set (bs ! i) = {int h |h. h \<in> L \<and> c_bin_num (C h) = int i}"
      using bs i by (auto simp: bins_ok_def)
    have mem: "h \<noteq> a \<and> h \<noteq> b" if "c_bin_num (C h) = int i" for h using that X' by auto
    show "sorted_wrt (cmp C') (bs ! i)"
      by (rule sorted_wrt_cong [OF B(1)]) (use F mem in \<open>auto simp: B(2) cmp_def\<close>)
    show "set (bs ! i) = {int h |h. h \<in> L - {b} \<and> c_bin_num (C' h) = int i}"
      unfolding B(2) using F(2) mem by auto
  qed (use bs in \<open>simp add: bins_ok_def\<close>)
qed

lemma heap_merge:
  assumes ok: "heap_ok X C L rs bs" and m: "merged a b C C' L" and X: "a \<in> X" "b \<in> X"
    and rs': "regions_ok rs'" "spans rs' = spans rs"
      "\<And>q. aligned (spans rs) q \<Longrightarrow> get_handle rs' q = (if q = c_ptr (C b) then Inr (- 1) else get_handle rs q)"
  shows "heap_ok (X - {b}) C' (L - {b}) rs' bs"
proof -
  note D = heap_okD [OF ok] and F = merged_fields [OF m]
  have ab: "a \<in> L" "b \<in> L" "c_next (C a) = int b" using m by (auto simp: merged_def)
  have ne: "a \<noteq> b" using next_neq [OF D(3,4) ab(1,3)] by simp
  show ?thesis
  proof (rule heap_okI)
    have "c_ptr (C h) \<noteq> c_ptr (C b)" if "h \<in> L - {b}" for h
      using apart_ptr_inj [OF D(5,4) _ ab(2)] that by auto
    then show "handles_ok C' (L - {b}) rs'"
      using D(2) F(1) chunk_bounds(6) [OF D(1,4)]
      unfolding handles_ok_def rs'(2) by (auto simp: rs'(3))
    show "binned (X - {b}) C' (L - {b})"
      using D(8) F(2,3,6) X ne by (auto simp: binned_def)
    show "coalesced (X - {b}) C' (L - {b})"
      unfolding coalesced_def
    proof (intro ballI allI impI)
      fix h n assume h: "h \<in> L - {b}" "c_next (C' h) = int n"
      show "h \<in> X - {b} \<or> n \<in> X - {b} \<or> in_use (C' h) \<or> in_use (C' n)"
      proof (cases "h = a")
        case False
        then have n: "c_next (C h) = int n" using F(7) h by simp
        then have "n \<noteq> b" using next_live(2) [OF D(3) _ n] next_live(2) [OF D(3) ab(1,3)] False h by auto
        moreover have "n \<in> L" using next_live(1) [OF D(3) _ n] h by simp
        ultimately show ?thesis using D(9) n h F(3) by (auto simp: coalesced_def)
      qed (use X ne in auto)
    qed
  qed (use rs'(1) linked_merge [OF m D(3,4)] placed_merge [OF m D(1,3,4)] apart_merge [OF m D(3,4,5)]
      tiled_merge [OF m ne D(6)] bins_merge [OF m D(8) X D(7)] in \<open>simp_all add: rs'(2)\<close>)
qed

end
