(* ===== verification/BFC_Split.thy ===== *)
theory BFC_Split
  imports BFC_Heap
begin

text \<open>
  Splitting a chunk in two and adding the one chunk of a new region keep the
  invariant of the allocator's data structures.
\<close>

section \<open>Splitting\<close>

definition split_off :: "nat \<Rightarrow> nat \<Rightarrow> nat \<Rightarrow> (nat \<Rightarrow> chunk) \<Rightarrow> (nat \<Rightarrow> chunk) \<Rightarrow> nat set \<Rightarrow> bool" where
  "split_off h n m C C' L \<longleftrightarrow> h \<in> L \<and> n \<notin> L \<and> 256 dvd m \<and> 0 < m \<and> m < c_size (C h) \<and>
     C' h = (C h)\<lparr>c_size := m, c_next := int n\<rparr> \<and>
     c_ptr (C' n) = c_ptr (C h) + m \<and> c_size (C' n) = c_size (C h) - m \<and> \<not> in_use (C' n) \<and>
     c_prev (C' n) = int h \<and> c_next (C' n) = c_next (C h) \<and> c_bin_num (C' n) = - 1 \<and>
     (\<forall>k\<in>L - {h}. C' k = (if c_next (C h) = int k then (C k)\<lparr>c_prev := int n\<rparr> else C k))"

lemma split_fields:
  assumes "split_off h n m C C' L" "k \<in> L"
  shows "c_ptr (C' k) = c_ptr (C k)" "c_bin_num (C' k) = c_bin_num (C k)"
    "in_use (C' k) = in_use (C k)" "c_requested_size (C' k) = c_requested_size (C k)"
    "c_allocation_id (C' k) = c_allocation_id (C k)"
    "c_size (C' k) = (if k = h then m else c_size (C k))"
    "c_next (C' k) = (if k = h then int n else c_next (C k))"
    "k \<noteq> h \<Longrightarrow> c_prev (C' k) = (if c_next (C h) = int k then int n else c_prev (C k))"
    "c_prev (C' h) = c_prev (C h)"
  using assms by (cases "k = h"; auto simp: split_off_def in_use_def)+

lemma split_new:
  assumes "split_off h n m C C' L"
  shows "c_ptr (C' n) = c_ptr (C h) + m" "c_size (C' n) = c_size (C h) - m" "\<not> in_use (C' n)"
    "c_prev (C' n) = int h" "c_next (C' n) = c_next (C h)" "c_bin_num (C' n) = - 1"
    "h \<in> L" "n \<notin> L" "h \<noteq> n" "m < c_size (C h)" "0 < m" "256 dvd m"
  using assms by (auto simp: split_off_def)

lemma linked_split:
  assumes s: "split_off h n m C C' L" and l: "linked C L" and p: "placed C sp L"
  shows "linked C' (insert n L)"
  unfolding linked_def
proof (intro ballI conjI)
  note F = split_fields [OF s] and N = split_new [OF s]
  fix x assume x: "x \<in> insert n L"
  show "c_next (C' x) = - 1 \<or> (\<exists>k\<in>insert n L. c_next (C' x) = int k \<and> c_prev (C' k) = int x \<and>
      c_ptr (C' k) = c_ptr (C' x) + c_size (C' x))"
  proof -
    consider "x = n" | "x = h" | "x \<in> L" "x \<noteq> h" "x \<noteq> n" using x by auto
    then show ?thesis
    proof cases
      case 1
      show ?thesis
      proof (cases rule: next_cases [OF l N(7)])
        case (2 k)
        then have "k \<noteq> h" using next_neq [OF l p N(7)] by simp
        then show ?thesis using 1 2 N F next_live [OF l N(7) 2(1)] by (auto intro!: bexI [of _ k])
      qed (use 1 N in simp)
    next
      case 2
      then show ?thesis using N F by (auto intro!: bexI [of _ n])
    next
      case 3
      show ?thesis
      proof (cases rule: next_cases [OF l 3(1)])
        case (2 k)
        note k = next_live [OF l 3(1) 2(1)]
        have "c_next (C h) \<noteq> int k" using next_live(2) [OF l N(7), of k] k(2) 3 by auto
        then show ?thesis using 2 3 F k by (cases "k = h") (auto intro!: bexI [of _ k])
      qed (use 3 F in simp)
    qed
  qed
  show "c_prev (C' x) = - 1 \<or> (\<exists>k\<in>insert n L. c_prev (C' x) = int k \<and> c_next (C' k) = int x)"
  proof -
    consider "x = n" | "x \<in> L" "c_next (C h) = int x" "x \<noteq> h" | "x \<in> L" "c_next (C h) \<noteq> int x"
      using x next_neq [OF l p N(7)] by auto
    then show ?thesis
    proof cases
      case 1
      then show ?thesis using N F by (auto intro!: bexI [of _ h])
    next
      case 2
      then show ?thesis using N F by (auto intro!: bexI [of _ n])
    next
      case 3
      then have P: "c_prev (C' x) = c_prev (C x)" using F by (cases "x = h") auto
      show ?thesis
      proof (cases rule: prev_cases [OF l 3(1)])
        case (2 q)
        note q = prev_live [OF l 3(1) 2(1)]
        then have "q \<noteq> h" using 3 by auto
        then show ?thesis using 2 q F P by (auto intro!: bexI [of _ q])
      qed (simp add: P)
    qed
  qed
qed

lemma split_size:
  assumes s: "split_off h n m C C' L" and p: "placed C sp L"
  shows "256 dvd c_size (C h) - m" "0 < c_size (C h) - m"
    "c_ptr (C' n) + c_size (C' n) = c_ptr (C h) + c_size (C h)"
  using split_new [OF s] p by (auto simp: placed_def dvd_diff_nat)

lemma placed_split:
  assumes s: "split_off h n m C C' L" and l: "linked C L" and p: "placed C sp L"
  shows "placed C' sp (insert n L)"
  unfolding placed_def
proof (intro ballI)
  fix k assume k: "k \<in> insert n L"
  note N = split_new [OF s] and F = split_fields [OF s] and Z = split_size [OF s p]
  obtain a z where az: "(a, z) \<in> set sp" "placed_in (a, z) (C h)" using p N(7) by (auto simp: placed_def)
  show "256 dvd c_size (C' k) \<and> 0 < c_size (C' k) \<and> (\<exists>s\<in>set sp. placed_in s (C' k))"
  proof -
    consider "k = n" | "k = h" | "k \<in> L" "k \<noteq> h" "k \<noteq> n" using k by auto
    then show ?thesis
    proof cases
      case 1
      have "256 dvd c_ptr (C h) - a" "a \<le> c_ptr (C h)" using az by (auto simp: placed_in_def)
      then have "256 dvd c_ptr (C h) + m - a"
        using N(12) by (metis Nat.diff_add_assoc2 dvd_add)
      then have "placed_in (a, z) (C' n)"
        using az(2) N Z(3) by (simp add: placed_in_def)
      then show ?thesis using 1 Z N az by auto
    next
      case 2
      then have "placed_in (a, z) (C' h)" using az(2) N F by (auto simp: placed_in_def)
      then show ?thesis using 2 N F az by auto
    next
      case 3
      obtain s where s: "s \<in> set sp" "placed_in s (C k)" using p 3 by (auto simp: placed_def)
      have "c_prev (C' k) = - 1 \<longleftrightarrow> c_prev (C k) = - 1"
        using F(8) [OF 3(1,2)] next_live(2) [OF l N(7), of k] by auto
      then have "placed_in s (C' k)" using s F 3 by (simp add: placed_in_def split_beta)
      then show ?thesis using 3 F p s(1) by (auto simp: placed_def)
    qed
  qed
qed

lemma apart_split:
  assumes s: "split_off h n m C C' L" and p: "placed C sp L" and ap: "apart C L"
  shows "apart C' (insert n L)"
  unfolding apart_def
proof (intro ballI impI)
  note N = split_new [OF s] and F = split_fields [OF s] and Z = split_size [OF s p]
  have old: "c_ptr (C x) + c_size (C x) \<le> c_ptr (C y) \<or> c_ptr (C y) + c_size (C y) \<le> c_ptr (C x)"
    if "x \<in> L" "y \<in> L" "x \<noteq> y" for x y using ap that unfolding apart_def by blast
  fix x y assume xy: "x \<in> insert n L" "y \<in> insert n L" "x \<noteq> y"
  then consider "x = n" "y \<in> L" | "y = n" "x \<in> L" | "x \<in> L" "y \<in> L" by auto
  then show "c_ptr (C' x) + c_size (C' x) \<le> c_ptr (C' y) \<or> c_ptr (C' y) + c_size (C' y) \<le> c_ptr (C' x)"
  proof cases
    case 1
    then show ?thesis using F(1,6) [of y] N Z old [OF N(7), of y] by (cases "y = h") auto
  next
    case 2
    then show ?thesis using F(1,6) [of x] N Z old [OF N(7), of x] by (cases "x = h") auto
  next
    case 3
    then show ?thesis using F(1,6) [of x] F(1,6) [of y] N(10) old [OF 3 xy(3)] by auto
  qed
qed

lemma tiled_split:
  assumes s: "split_off h n m C C' L" and t: "tiled C sp L"
  shows "tiled C' sp (insert n L)"
proof -
  note N = split_new [OF s] and F = split_fields [OF s]
  have fin: "finite L" using t by (simp add: tiled_def)
  have "(\<Sum>k\<in>insert n L. c_size (C' k)) = c_size (C' n) + (c_size (C' h) + (\<Sum>k\<in>L - {h}. c_size (C' k)))"
    using fin N(7,8) sum.remove [of L h "\<lambda>k. c_size (C' k)"] by simp
  also have "(\<Sum>k\<in>L - {h}. c_size (C' k)) = (\<Sum>k\<in>L - {h}. c_size (C k))"
    using F(6) by (intro sum.cong) auto
  also have "c_size (C' n) + (c_size (C' h) + \<dots>) = (\<Sum>k\<in>L. c_size (C k))"
    using fin N F(6) [OF N(7)] sum.remove [of L h "\<lambda>k. c_size (C k)"] by simp
  finally show ?thesis using t by (simp add: tiled_def)
qed

lemma bins_split:
  assumes s: "split_off h n m C C' L" and bn: "binned X C L" and X: "h \<in> X" and bs: "bins_ok C L bs"
  shows "bins_ok C' (insert n L) bs"
proof -
  note N = split_new [OF s] and F = split_fields [OF s]
  have X': "c_bin_num (C h) = - 1" using bn X by (auto simp: binned_def)
  show ?thesis unfolding bins_ok_def
  proof (intro conjI allI impI)
    fix i :: nat assume i: "i < 21"
    have B: "sorted_wrt (cmp C) (bs ! i)" "set (bs ! i) = {int k |k. k \<in> L \<and> c_bin_num (C k) = int i}"
      using bs i by (auto simp: bins_ok_def)
    have mem: "k \<noteq> h" if "c_bin_num (C k) = int i" for k using that X' by auto
    show "sorted_wrt (cmp C') (bs ! i)"
      by (rule sorted_wrt_cong [OF B(1)]) (use F mem in \<open>auto simp: B(2) cmp_def\<close>)
    show "set (bs ! i) = {int k |k. k \<in> insert n L \<and> c_bin_num (C' k) = int i}"
      unfolding B(2) using F(2) N(6) by auto
  qed (use bs in \<open>simp add: bins_ok_def\<close>)
qed

lemma heap_split:
  assumes ok: "heap_ok X C L rs bs" and s: "split_off h n m C C' L" and X: "h \<in> X"
    and rs': "regions_ok rs'" "spans rs' = spans rs"
      "\<And>q. aligned (spans rs) q \<Longrightarrow> get_handle rs' q = (if q = c_ptr (C h) + m then Inr (int n) else get_handle rs q)"
  shows "heap_ok (insert n X) C' (insert n L) rs' bs"
proof -
  note D = heap_okD [OF ok] and F = split_fields [OF s] and N = split_new [OF s]
  note placed = placed_split [OF s D(3,4)] and apart = apart_split [OF s D(4,5)]
  have al: "aligned (spans rs) (c_ptr (C' k))" if "k \<in> insert n L" for k
    using chunk_bounds(6) [OF D(1) placed that] .
  show ?thesis
  proof (rule heap_okI)
    have "c_ptr (C k) \<noteq> c_ptr (C h) + m" if "k \<in> L" for k
      using apart_ptr_inj [OF apart placed, of k n] that F(1) [OF that] N by auto
    then show "handles_ok C' (insert n L) rs'"
      using D(2) F(1) al N(1,8) unfolding handles_ok_def rs'(2) by (auto simp: rs'(3))
    show "binned (insert n X) C' (insert n L)"
      using D(8) F(2,3,6) N X by (auto simp: binned_def)
    show "coalesced (insert n X) C' (insert n L)"
      unfolding coalesced_def
    proof (intro ballI allI impI)
      fix k j assume k: "k \<in> insert n L" "c_next (C' k) = int j"
      show "k \<in> insert n X \<or> j \<in> insert n X \<or> in_use (C' k) \<or> in_use (C' j)"
      proof (cases "k = n \<or> k = h")
        case False
        then have n: "k \<in> L" "c_next (C k) = int j" using F(7) k by auto
        moreover have "j \<in> L" using next_live(1) [OF D(3) n] .
        ultimately show ?thesis using D(9) F(3) by (auto simp: coalesced_def)
      qed (use X in auto)
    qed
  qed (use rs'(1) linked_split [OF s D(3,4)] placed apart tiled_split [OF s D(6)]
      bins_split [OF s D(8) X D(7)] in \<open>simp_all add: rs'(2)\<close>)
qed

section \<open>Adding a region\<close>

definition whole_chunk :: "nat \<Rightarrow> nat \<Rightarrow> chunk \<Rightarrow> bool" where
  "whole_chunk p z c \<longleftrightarrow> c_ptr c = p \<and> c_size c = z \<and> c_prev c = - 1 \<and> c_next c = - 1 \<and>
     \<not> in_use c \<and> c_bin_num c = - 1"

lemma heap_cong:
  assumes "heap_ok X C L rs bs" "\<And>k. k \<in> L \<Longrightarrow> C' k = C k"
  shows "heap_ok X C' L rs bs"
proof -
  note D = heap_okD [OF assms(1)]
  have nx: "C' n = C n" if "h \<in> L" "c_next (C h) = int n" for h n
    using next_live(1) [OF D(3) that] assms(2) by simp
  have pv: "C' n = C n" if "h \<in> L" "c_prev (C h) = int n" for h n
    using prev_live(1) [OF D(3) that] assms(2) by simp
  show ?thesis
  proof (rule heap_okI)
    show "linked C' L" using D(3) nx pv assms(2) unfolding linked_def by force
    show "bins_ok C' L bs" unfolding bins_ok_def
    proof (intro conjI allI impI)
      fix i :: nat assume i: "i < 21"
      have B: "sorted_wrt (cmp C) (bs ! i)" "set (bs ! i) = {int k |k. k \<in> L \<and> c_bin_num (C k) = int i}"
        using D(7) i by (auto simp: bins_ok_def)
      show "sorted_wrt (cmp C') (bs ! i)"
        by (rule sorted_wrt_cong [OF B(1)]) (use assms(2) in \<open>auto simp: B(2) cmp_def\<close>)
      show "set (bs ! i) = {int k |k. k \<in> L \<and> c_bin_num (C' k) = int i}"
        unfolding B(2) using assms(2) by auto
    qed (use D(7) in \<open>simp add: bins_ok_def\<close>)
    show "binned X C' L" using D(8) assms(2) by (auto simp: binned_def)
    show "coalesced X C' L" using D(9) assms(2) nx by (auto simp: coalesced_def)
  qed (use D assms(2) in \<open>simp_all add: handles_ok_def placed_def apart_def tiled_def\<close>)
qed

lemma heap_add_region:
  assumes ok: "heap_ok X C L rs bs" and n: "n \<notin> L" "whole_chunk p z (C n)"
    and new: "0 < z" "256 dvd z"
    and rs': "regions_ok rs'" "set (spans rs') = insert (p, z) (set (spans rs))"
      "sum_list (map snd (spans rs')) = sum_list (map snd (spans rs)) + z"
      "\<And>q. aligned (spans rs) q \<Longrightarrow> get_handle rs' q = get_handle rs q"
      "\<And>q. p \<le> q \<Longrightarrow> q < p + z \<Longrightarrow> 256 dvd q - p \<Longrightarrow> get_handle rs' q = Inr (if q = p then int n else - 1)"
    and disj: "\<And>a m. (a, m) \<in> set (spans rs) \<Longrightarrow> a + m \<le> p \<or> p + z \<le> a"
  shows "heap_ok (insert n X) C (insert n L) rs' bs"
proof -
  note D = heap_okD [OF ok]
  have N: "c_ptr (C n) = p" "c_size (C n) = z" "c_prev (C n) = - 1" "c_next (C n) = - 1"
    "\<not> in_use (C n)" "c_bin_num (C n) = - 1" using n(2) by (auto simp: whole_chunk_def)
  have out: "c_ptr (C k) + c_size (C k) \<le> p \<or> p + z \<le> c_ptr (C k)" if k: "k \<in> L" for k
  proof -
    obtain a m where am: "(a, m) \<in> set (spans rs)" "placed_in (a, m) (C k)"
      using D(4) k by (auto simp: placed_def)
    show ?thesis using disj [OF am(1)] am(2) by (auto simp: placed_in_def)
  qed
  have al: "aligned (spans rs') q \<longleftrightarrow> aligned (spans rs) q \<or> p \<le> q \<and> q < p + z \<and> 256 dvd q - p" for q
    by (auto simp: aligned_def rs'(2))
  have "placed_in (p, z) (C n)" using N by (simp add: placed_in_def)
  then have pl: "placed C (spans rs') (insert n L)"
    using D(4) N new unfolding placed_def rs'(2) by auto
  show ?thesis
  proof (rule heap_okI)
    show "linked C (insert n L)" using D(3) N unfolding linked_def by auto
    show "apart C (insert n L)" using D(5) out N unfolding apart_def by auto
    show "tiled C (spans rs') (insert n L)" using D(6) N n by (simp add: tiled_def rs'(3))
    show "bins_ok C (insert n L) bs" using D(7) N unfolding bins_ok_def by auto
    show "binned (insert n X) C (insert n L)" using D(8) N unfolding binned_def by auto
    show "coalesced (insert n X) C (insert n L)" using D(9) N unfolding coalesced_def by auto
    show "handles_ok C (insert n L) rs'" unfolding handles_ok_def
    proof (intro conjI ballI allI impI)
      fix k assume "k \<in> insert n L"
      then show "get_handle rs' (c_ptr (C k)) = Inr (int k)"
        using D(2) N new rs'(4) [OF chunk_bounds(6) [OF D(1,4)]] rs'(5) [of p]
        by (auto simp: handles_ok_def)
    next
      fix q assume "aligned (spans rs') q"
      then show "get_handle rs' q = Inr (- 1) \<or> (\<exists>h\<in>insert n L. get_handle rs' q = Inr (int h) \<and> c_ptr (C h) = q)"
        using al D(2) N rs'(4,5) by (cases "q = p") (auto simp: handles_ok_def)
    qed
  qed (use rs'(1) pl in simp_all)
qed

end
