(* ===== verification/BFC_Inv.thy ===== *)
theory BFC_Inv
  imports BFC_Split
begin

text \<open>
  The invariant of the whole allocator state and the contracts of the private
  operations of \<open>BFCAllocator\<close>: each of them returns (no \<open>CHECK\<close> fails, no index
  is out of range) and keeps the invariant.
\<close>

section \<open>State invariant\<close>

abbreviation ck :: "bfc \<Rightarrow> nat \<Rightarrow> chunk" where
  "ck st \<equiv> (!) (chunks st)"

definition live :: "nat list \<Rightarrow> bfc \<Rightarrow> nat set" where
  "live fl st = {..<length (chunks st)} - set fl"

text \<open>\<open>flist C p fl\<close>: following \<open>next\<close> from handle \<open>p\<close> visits the unused chunk records \<open>fl\<close>.\<close>

fun flist :: "(nat \<Rightarrow> chunk) \<Rightarrow> int \<Rightarrow> nat list \<Rightarrow> bool" where
  "flist C p [] \<longleftrightarrow> p = - 1"
| "flist C p (h # hs) \<longleftrightarrow> p = int h \<and> \<not> in_use (C h) \<and> c_bin_num (C h) = - 1 \<and> flist C (c_next (C h)) hs"

definition free_ok :: "nat list \<Rightarrow> bfc \<Rightarrow> bool" where
  "free_ok fl st \<longleftrightarrow> distinct fl \<and> set fl \<subseteq> {..<length (chunks st)} \<and>
     flist (ck st) (free_chunks_list st) fl"

definition users :: "(nat \<Rightarrow> chunk) \<Rightarrow> nat set \<Rightarrow> nat set" where
  "users C L = {h \<in> L. in_use (C h)}"

definition acct_ok :: "(nat \<Rightarrow> chunk) \<Rightarrow> nat set \<Rightarrow> int \<Rightarrow> alloc_stats \<Rightarrow> bool" where
  "acct_ok C U next_id s \<longleftrightarrow> finite U \<and>
     (\<forall>h\<in>U. 1 \<le> c_allocation_id (C h) \<and> c_allocation_id (C h) < next_id \<and>
        0 < c_requested_size (C h) \<and> c_requested_size (C h) \<le> c_size (C h) \<and>
        int (c_size (C h)) \<le> max_alloc_size s) \<and>
     inj_on (\<lambda>h. c_allocation_id (C h)) U \<and> 1 \<le> next_id \<and> num_allocs s = next_id - 1 \<and>
     bytes_in_use s = (\<Sum>h\<in>U. int (c_size (C h))) \<and> bytes_in_use s \<le> max_bytes_in_use s"

definition available :: "bfc \<Rightarrow> nat" where
  "available st = (memory_limit st - total_region_allocated_bytes st) div 256 * 256"

definition limits_ok :: "bfc \<Rightarrow> bool" where
  "limits_ok st \<longleftrightarrow> total_region_allocated_bytes st = sum_list (map snd (spans (regions st))) \<and>
     total_region_allocated_bytes st \<le> memory_limit st \<and> memory_limit st < 2 ^ 39 \<and>
     256 * length (chunks st) \<le> total_region_allocated_bytes st \<and>
     256 dvd curr_region_allocation_bytes st \<and>
     (0 < memory_limit st \<longrightarrow> 0 < curr_region_allocation_bytes st) \<and>
     curr_region_allocation_bytes st \<le>
       (if available st = 0 then 8 else if started_backpedal st then 4 else 2) * 2 ^ 39"

definition granted_ok :: "bfc \<Rightarrow> bool" where
  "granted_ok st \<longleftrightarrow> (\<forall>(a, n)\<in>set (spans (regions st)). \<exists>m\<ge>n. (m, a) \<in> set (sub_log st))"

definition visited_ok :: "bfc \<Rightarrow> bool" where
  "visited_ok st \<longleftrightarrow> (\<forall>v a n. count_list (visitor_calls st) (v, a, n) =
     count_list (region_visitors st) v * count_list (spans (regions st)) (a, n))"

definition inv :: "nat set \<Rightarrow> nat list \<Rightarrow> bfc \<Rightarrow> bool" where
  "inv X fl st \<longleftrightarrow> heap_ok X (ck st) (live fl st) (regions st) (bins st) \<and> free_ok fl st \<and>
     acct_ok (ck st) (users (ck st) (live fl st)) (next_allocation_id st) (stats st) \<and>
     limits_ok st \<and> granted_ok st \<and> visited_ok st"

lemma invD:
  assumes "inv X fl st"
  shows "heap_ok X (ck st) (live fl st) (regions st) (bins st)" "free_ok fl st"
    "acct_ok (ck st) (users (ck st) (live fl st)) (next_allocation_id st) (stats st)"
    "limits_ok st" "granted_ok st" "visited_ok st"
  using assms by (auto simp: inv_def)

lemma live_less: "h \<in> live fl st \<Longrightarrow> h < length (chunks st)"
  by (simp add: live_def)

section \<open>Changes that no client sees\<close>

text \<open>
  \<open>quiet\<close> relates two states with the same allocations in use and the same
  regions, which differ only in the free chunks.
\<close>

definition quiet :: "nat list \<Rightarrow> bfc \<Rightarrow> nat list \<Rightarrow> bfc \<Rightarrow> bool" where
  "quiet fl st fl' st' \<longleftrightarrow>
     users (ck st') (live fl' st') = users (ck st) (live fl st) \<and>
     (\<forall>h\<in>users (ck st) (live fl st). c_ptr (ck st' h) = c_ptr (ck st h) \<and>
        c_size (ck st' h) = c_size (ck st h) \<and> c_requested_size (ck st' h) = c_requested_size (ck st h) \<and>
        c_allocation_id (ck st' h) = c_allocation_id (ck st h)) \<and>
     spans (regions st') = spans (regions st) \<and>
     st' = st\<lparr>chunks := chunks st', regions := regions st', bins := bins st',
       free_chunks_list := free_chunks_list st'\<rparr>"

lemma quietI:
  assumes "users (ck st') (live fl' st') = users (ck st) (live fl st)"
    and "\<And>h. h \<in> users (ck st) (live fl st) \<Longrightarrow> c_ptr (ck st' h) = c_ptr (ck st h) \<and>
      c_size (ck st' h) = c_size (ck st h) \<and> c_requested_size (ck st' h) = c_requested_size (ck st h) \<and>
      c_allocation_id (ck st' h) = c_allocation_id (ck st h)"
    and "spans (regions st') = spans (regions st)"
    and "st' = st\<lparr>chunks := chunks st', regions := regions st', bins := bins st',
      free_chunks_list := free_chunks_list st'\<rparr>"
  shows "quiet fl st fl' st'"
  using assms unfolding quiet_def by blast

lemma quiet_refl: "quiet fl st fl st"
  by (simp add: quiet_def)

lemma quiet_trans:
  assumes "quiet fl st fl' st'" "quiet fl' st' fl'' st''"
  shows "quiet fl st fl'' st''"
proof -
  let ?up = "\<lambda>s t. s\<lparr>chunks := chunks t, regions := regions t, bins := bins t,
    free_chunks_list := free_chunks_list t\<rparr>"
  have "st' = ?up st st'" "st'' = ?up st' st''" using assms unfolding quiet_def by blast+
  then have "st'' = ?up (?up st st') st''" by metis
  then have "st'' = ?up st st''" by simp
  then show ?thesis using assms unfolding quiet_def by metis
qed

lemma quiet_same:
  assumes "quiet fl st fl' st'"
  shows "memory_limit st' = memory_limit st" "stats st' = stats st"
    "next_allocation_id st' = next_allocation_id st" "sub_log st' = sub_log st"
    "region_visitors st' = region_visitors st" "visitor_calls st' = visitor_calls st"
    "total_region_allocated_bytes st' = total_region_allocated_bytes st"
    "started_backpedal st' = started_backpedal st"
    "curr_region_allocation_bytes st' = curr_region_allocation_bytes st"
    "spans (regions st') = spans (regions st)"
proof -
  have eq: "st' = st\<lparr>chunks := chunks st', regions := regions st', bins := bins st',
      free_chunks_list := free_chunks_list st'\<rparr>" and sp: "spans (regions st') = spans (regions st)"
    using assms unfolding quiet_def by blast+
  note get = arg_cong [OF eq]
  show "memory_limit st' = memory_limit st" "stats st' = stats st"
    "next_allocation_id st' = next_allocation_id st" "sub_log st' = sub_log st"
    "region_visitors st' = region_visitors st" "visitor_calls st' = visitor_calls st"
    "total_region_allocated_bytes st' = total_region_allocated_bytes st"
    "started_backpedal st' = started_backpedal st"
    "curr_region_allocation_bytes st' = curr_region_allocation_bytes st"
    using get [of memory_limit] get [of stats] get [of next_allocation_id] get [of sub_log]
      get [of region_visitors] get [of visitor_calls] get [of total_region_allocated_bytes]
      get [of started_backpedal] get [of curr_region_allocation_bytes] by simp_all
qed (use assms in \<open>simp add: quiet_def\<close>)

lemma acct_cong:
  assumes "acct_ok C U i s" "\<And>h. h \<in> U \<Longrightarrow> c_size (C' h) = c_size (C h) \<and>
    c_requested_size (C' h) = c_requested_size (C h) \<and> c_allocation_id (C' h) = c_allocation_id (C h)"
  shows "acct_ok C' U i s"
proof -
  have "(\<Sum>h\<in>U. int (c_size (C' h))) = (\<Sum>h\<in>U. int (c_size (C h)))"
    using assms(2) by (intro sum.cong) auto
  moreover have "inj_on (\<lambda>h. c_allocation_id (C' h)) U \<longleftrightarrow> inj_on (\<lambda>h. c_allocation_id (C h)) U"
    using assms(2) by (intro inj_on_cong) auto
  ultimately show ?thesis using assms by (auto simp: acct_ok_def)
qed

text \<open>Every live chunk takes up at least one unit of the memory of the regions.\<close>

lemma heap_card:
  assumes "heap_ok X C L rs bs"
  shows "256 * card L \<le> sum_list (map snd (spans rs))"
proof -
  note H = heap_okD [OF assms]
  have "256 * card L = (\<Sum>h\<in>L. 256)" by simp
  also have "\<dots> \<le> (\<Sum>h\<in>L. c_size (C h))" using chunk_bounds(3) [OF H(1,4)] by (intro sum_mono) auto
  also have "\<dots> = sum_list (map snd (spans rs))" using H(6) by (simp add: tiled_def)
  finally show ?thesis .
qed

lemma inv_quiet:
  assumes inv: "inv X fl st" and q: "quiet fl st fl' st'"
    and heap: "heap_ok X' (ck st') (live fl' st') (regions st') (bins st')" and free: "free_ok fl' st'"
    and len: "length (chunks st') \<le> length (chunks st) \<or> fl' = []"
  shows "inv X' fl' st'"
proof -
  note D = invD [OF inv] and Q = quiet_same [OF q]
  have "acct_ok (ck st') (users (ck st) (live fl st)) (next_allocation_id st) (stats st)"
    by (rule acct_cong [OF D(3)]) (use q in \<open>auto simp: quiet_def\<close>)
  then have "acct_ok (ck st') (users (ck st') (live fl' st')) (next_allocation_id st') (stats st')"
    using q by (simp add: Q quiet_def)
  moreover have "256 * length (chunks st') \<le> total_region_allocated_bytes st"
    using len
  proof
    assume "fl' = []"
    then show ?thesis using heap_card [OF heap] D(4) by (simp add: live_def limits_ok_def Q)
  next
    assume "length (chunks st') \<le> length (chunks st)"
    then show ?thesis using D(4) by (auto simp: limits_ok_def)
  qed
  moreover have av: "available st' = available st" by (simp add: available_def Q)
  ultimately show ?thesis
    using D heap free unfolding inv_def limits_ok_def granted_ok_def visited_ok_def Q av by blast
qed

section \<open>Primitive operations\<close>

lemma nth_update_fun: "h < length xs \<Longrightarrow> (!) (xs[h := c]) = ((!) xs)(h := c)"
  by (intro ext) (simp add: nth_list_update)

lemma ChunkFromHandle_int [run_simps]:
  "h < length (chunks st) \<Longrightarrow> ChunkFromHandle st (int h) = Inr (ck st h)"
  by (simp add: ChunkFromHandle_def)

lemma modify_chunk_int [run_simps]:
  "h < length (chunks st) \<Longrightarrow>
    modify_chunk (int h) f st = Inr (st\<lparr>chunks := (chunks st)[h := f (ck st h)]\<rparr>)"
  by (simp add: modify_chunk_def ChunkFromHandle_int)

lemma flist_cong: "flist C p fl \<Longrightarrow> (\<And>h. h \<in> set fl \<Longrightarrow> C' h = C h) \<Longrightarrow> flist C' p fl"
  by (induction fl arbitrary: p) auto

text \<open>A new record comes from the free list or from the end of the vector.\<close>

lemma AllocateChunk_ok:
  assumes free: "free_ok fl st" and len: "length (chunks st) < 2 ^ 31"
  obtains n cs f fl' where
    "AllocateChunk st = Inr (int n, st\<lparr>chunks := cs, free_chunks_list := f\<rparr>)"
    "n \<notin> live fl st" "n < length cs" "{..<length cs} - set fl' = insert n (live fl st)"
    "\<forall>k<length (chunks st). cs ! k = chunks st ! k" "length (chunks st) \<le> length cs"
    "\<not> in_use (cs ! n)" "c_bin_num (cs ! n) = - 1"
    "distinct fl'" "set fl' \<subseteq> {..<length cs}" "flist ((!) cs) f fl'" "n \<notin> set fl'"
    "length cs \<le> length (chunks st) \<or> fl' = []"
proof (cases fl)
  case Nil
  then have "free_chunks_list st = - 1" using free by (simp add: free_ok_def)
  then have "AllocateChunk st = Inr (int (length (chunks st)),
      st\<lparr>chunks := chunks st @ [default_chunk], free_chunks_list := - 1\<rparr>)"
    using len by (simp add: AllocateChunk_def kInvalidChunkHandle_def)
  then show ?thesis
    by (rule that [where fl' = "[]"])
      (auto simp: Nil live_def nth_append default_chunk_def in_use_def kInvalidBinNum_def)
next
  case (Cons n fl')
  then have F: "free_chunks_list st = int n" "n < length (chunks st)" "distinct (n # fl')"
    "\<not> in_use (ck st n)" "c_bin_num (ck st n) = - 1" "flist (ck st) (c_next (ck st n)) fl'"
    "set fl' \<subseteq> {..<length (chunks st)}"
    using free by (auto simp: free_ok_def)
  then have "AllocateChunk st = Inr (int n,
      st\<lparr>chunks := chunks st, free_chunks_list := c_next (ck st n)\<rparr>)"
    by (simp add: AllocateChunk_def kInvalidChunkHandle_def ChunkFromHandle_int)
  then show ?thesis
    by (rule that [where fl' = fl']) (use F in \<open>auto simp: Cons live_def\<close>)
qed

section \<open>Bins\<close>

definition unbin :: "nat \<Rightarrow> bfc \<Rightarrow> bfc" where
  "unbin n st = (let b = BinNumForSize (c_size (ck st n)) in
     st\<lparr>bins := (bins st)[b := filter (\<lambda>x. x \<noteq> int n) (bins st ! b)],
        chunks := (chunks st)[n := (ck st n)\<lparr>c_bin_num := - 1\<rparr>]\<rparr>)"

lemma unbin_ck: "n < length (chunks st) \<Longrightarrow> ck (unbin n st) = (ck st)(n := (ck st n)\<lparr>c_bin_num := - 1\<rparr>)"
  by (simp add: unbin_def Let_def nth_update_fun)

lemma live_unbin [simp]: "live fl (unbin n st) = live fl st"
  by (simp add: live_def unbin_def Let_def)

lemma unbin_same [simp]: "regions (unbin n st) = regions st" "free_chunks_list (unbin n st) = free_chunks_list st"
  "length (chunks (unbin n st)) = length (chunks st)"
  by (simp_all add: unbin_def Let_def)

lemma unbin_ok:
  assumes inv: "inv X fl st" and n: "n \<in> live fl st" "\<not> in_use (ck st n)" "n \<notin> X"
  shows "inv (insert n X) fl (unbin n st)" and "quiet fl st fl (unbin n st)"
proof -
  note D = invD [OF inv] and len = live_less [OF n(1)]
  have q: "users (ck (unbin n st)) (live fl st) = users (ck st) (live fl st)"
    by (auto simp: users_def unbin_ck [OF len] in_use_def)
  then show quiet: "quiet fl st fl (unbin n st)"
    unfolding quiet_def
    by (auto simp: unbin_ck [OF len]) (simp add: unbin_def Let_def)
  have "heap_ok (insert n X) (ck (unbin n st)) (live fl (unbin n st)) (regions (unbin n st)) (bins (unbin n st))"
    using heap_unbin(1) [OF D(1) n] unbin_ck [OF len] by (simp add: unbin_def Let_def live_def)
  moreover have "free_ok fl (unbin n st)"
    using D(2) n(1) by (auto simp: free_ok_def unbin_ck [OF len] live_def intro: flist_cong)
  ultimately show "inv (insert n X) fl (unbin n st)" by (intro inv_quiet [OF inv quiet]) auto
qed

lemma RemoveFreeChunkFromBin_eq:
  assumes inv: "inv X fl st" and n: "n \<in> live fl st" "\<not> in_use (ck st n)" "n \<notin> X"
  shows "RemoveFreeChunkFromBin (int n) st = Inr (unbin n st)"
proof -
  note D = invD [OF inv] and len = live_less [OF n(1)]
  note H = heap_okD [OF D(1)] and B = heap_unbin(2-4) [OF D(1) n]
  let ?b = "BinNumForSize (c_size (ck st n))"
  have bin: "sorted_wrt (cmp (ck st)) (bins st ! ?b)"
    "set (bins st ! ?b) = {int h |h. h \<in> live fl st \<and> c_bin_num (ck st h) = int ?b}"
    using H(7) B(2) by (auto simp: bins_ok_def)
  have "set_erase (cmp (ck st)) (int n) (bins st ! ?b) =
      (1, filter (\<lambda>y. y \<noteq> int n) (bins st ! ?b))"
    using B(1) sorted_wrt_cmp_distinct [OF bin(1)] cmp_total [OF H(5,4) n(1)] bin(2)
    by (intro set_erase_found) auto
  then show ?thesis
    using n B(3) len by (simp add: RemoveFreeChunkFromBin_def run_simps ChunkComparator_cmp
        kInvalidBinNum_def unbin_def Let_def)
qed

lemma RemoveFreeChunkIterFromBin_eq:
  assumes inv: "inv {} fl st" and i: "b < 21" "i < length (bins st ! b)"
  shows "\<exists>n\<in>live fl st. bins st ! b ! i = int n \<and> \<not> in_use (ck st n) \<and>
    b = BinNumForSize (c_size (ck st n)) \<and> RemoveFreeChunkIterFromBin b i st = Inr (unbin n st)"
proof -
  note D = invD [OF inv]
  note H = heap_okD [OF D(1)]
  have bin: "sorted_wrt (cmp (ck st)) (bins st ! b)"
    "set (bins st ! b) = {int h |h. h \<in> live fl st \<and> c_bin_num (ck st h) = int b}"
    using H(7) i(1) by (auto simp: bins_ok_def)
  have "bins st ! b ! i \<in> set (bins st ! b)" using i(2) by simp
  then obtain n where n: "n \<in> live fl st" "bins st ! b ! i = int n" "c_bin_num (ck st n) = int b"
    unfolding bin(2) by auto
  have use: "\<not> in_use (ck st n)" "b = BinNumForSize (c_size (ck st n))"
    using H(8) n by (auto simp: binned_def split: if_splits)
  have "take i (bins st ! b) @ drop (Suc i) (bins st ! b) = filter (\<lambda>y. y \<noteq> int n) (bins st ! b)"
    using take_drop_filter [OF sorted_wrt_cmp_distinct [OF bin(1)] i(2)] n(2) by simp
  then have "RemoveFreeChunkIterFromBin b i st = Inr (unbin n st)"
    using n use live_less [OF n(1)]
    by (simp add: RemoveFreeChunkIterFromBin_def run_simps kInvalidBinNum_def unbin_def Let_def)
  then show ?thesis using n use by auto
qed

lemma InsertFreeChunkIntoBin_ok:
  assumes inv: "inv X fl st" and n: "n \<in> X"
    and next_ok: "\<And>m. c_next (ck st n) = int m \<Longrightarrow> m \<in> X - {n} \<or> in_use (ck st m)"
    and prev_ok: "\<And>m. c_prev (ck st n) = int m \<Longrightarrow> m \<in> X - {n} \<or> in_use (ck st m)"
  obtains st' where "InsertFreeChunkIntoBin (int n) st = Inr st'" "inv (X - {n}) fl st'"
    "quiet fl st fl st'" "live fl st' = live fl st"
    "ck st' = (ck st)(n := (ck st n)\<lparr>c_bin_num := int (BinNumForSize (c_size (ck st n)))\<rparr>)"
proof -
  note D = invD [OF inv]
  note H = heap_okD [OF D(1)]
  have N: "n \<in> live fl st" "\<not> in_use (ck st n)" "c_bin_num (ck st n) = - 1"
    using H(8) n by (auto simp: binned_def)
  note len = live_less [OF N(1)] and B = heap_bin [OF D(1) n next_ok prev_ok]
  let ?b = "BinNumForSize (c_size (ck st n))"
  let ?C = "(ck st)(n := (ck st n)\<lparr>c_bin_num := int ?b\<rparr>)"
  define st' where "st' = st\<lparr>chunks := (chunks st)[n := (ck st n)\<lparr>c_bin_num := int ?b\<rparr>],
    bins := (bins st)[?b := set_insert (cmp ?C) (int n) (bins st ! ?b)]\<rparr>"
  have C: "ck st' = ?C" by (simp add: st'_def nth_update_fun len)
  have live: "live fl st' = live fl st" by (simp add: live_def st'_def)
  have eq: "InsertFreeChunkIntoBin (int n) st = Inr st'"
    using N len by (simp add: InsertFreeChunkIntoBin_def run_simps kInvalidBinNum_def st'_def
        ChunkComparator_cmp nth_update_fun Let_def)
  have "users (ck st') (live fl st) = users (ck st) (live fl st)" by (auto simp: users_def C in_use_def)
  then have quiet: "quiet fl st fl st'"
    unfolding quiet_def live
    by (auto simp: C) (simp_all add: st'_def)
  have "free_ok fl st'"
    using D(2) N(1) by (auto simp: free_ok_def C live_def intro: flist_cong) (auto simp: st'_def intro: flist_cong)
  moreover have "heap_ok (X - {n}) (ck st') (live fl st') (regions st') (bins st')"
    using B(1) by (simp add: C live) (simp add: st'_def)
  ultimately have "inv (X - {n}) fl st'" by (intro inv_quiet [OF inv quiet]) (auto simp: st'_def)
  then show ?thesis using that eq quiet live C by blast
qed

section \<open>Merging\<close>

definition merge_chunks :: "nat \<Rightarrow> nat \<Rightarrow> bfc \<Rightarrow> chunk list" where
  "merge_chunks a b st =
     (let c = c_next (ck st b);
          cs = (chunks st)[a := (ck st a)\<lparr>c_next := c\<rparr>];
          cs = (if c = - 1 then cs else cs[nat c := (cs ! nat c)\<lparr>c_prev := int a\<rparr>]);
          cs = cs[a := (cs ! a)\<lparr>c_size := c_size (ck st a) + c_size (ck st b)\<rparr>]
      in cs[b := (cs ! b)\<lparr>c_next := free_chunks_list st\<rparr>])"

lemma merge_chunks_merged:
  assumes l: "linked (ck st) L" and p: "placed (ck st) sp L" and L: "L \<subseteq> {..<length (chunks st)}"
    and ab: "a \<in> L" "b \<in> L" "c_next (ck st a) = int b"
  shows "merged a b (ck st) ((!) (merge_chunks a b st)) L"
    and "merge_chunks a b st ! b = (ck st b)\<lparr>c_next := free_chunks_list st\<rparr>"
    and "\<And>k. k \<notin> L \<Longrightarrow> merge_chunks a b st ! k = ck st k"
proof -
  note b = next_live [OF l ab(1,3)]
  have len: "a < length (chunks st)" "b < length (chunks st)" using ab L by auto
  have sz: "0 < c_size (ck st a)" "0 < c_size (ck st b)" using p ab by (auto simp: placed_def)
  have ne: "a \<noteq> b" using next_neq [OF l p ab(1,3)] by simp
  have k: "k \<in> L" "k < length (chunks st)" "k \<noteq> a" "k \<noteq> b" if "c_next (ck st b) = int k" for k
    using next_live [OF l ab(2) that] b(3) sz L by auto
  show "merged a b (ck st) ((!) (merge_chunks a b st)) L"
    and "merge_chunks a b st ! b = (ck st b)\<lparr>c_next := free_chunks_list st\<rparr>"
    and "\<And>k. k \<notin> L \<Longrightarrow> merge_chunks a b st ! k = ck st k"
    using k ab ne len
    by (cases rule: next_cases [OF l ab(2)];
        force simp: merged_def merge_chunks_def Let_def nth_list_update)+
qed

lemma Merge_eq:
  assumes inv: "inv X fl st" and X: "a \<in> X" "b \<in> X" and nx: "c_next (ck st a) = int b"
  obtains rs' where
    "Merge (int a) (int b) st =
       Inr (st\<lparr>chunks := merge_chunks a b st, regions := rs', free_chunks_list := int b\<rparr>)"
    "regions_ok rs'" "spans rs' = spans (regions st)"
    "\<And>q. aligned (spans (regions st)) q \<Longrightarrow>
       get_handle rs' q = (if q = c_ptr (ck st b) then Inr (- 1) else get_handle (regions st) q)"
proof -
  note D = invD [OF inv]
  note H = heap_okD [OF D(1)]
  have ab: "a \<in> live fl st" "b \<in> live fl st" "\<not> in_use (ck st a)" "\<not> in_use (ck st b)"
    using H(8) X by (auto simp: binned_def)
  note len = live_less [OF ab(1)] live_less [OF ab(2)] and nb = next_live [OF H(3) ab(1) nx]
  have ne: "a \<noteq> b" using next_neq [OF H(3,4) ab(1) nx] by simp
  have sz: "0 < c_size (ck st a)" "0 < c_size (ck st b)" using H(4) ab by (auto simp: placed_def)
  have sum: "add_sz (c_size (ck st a)) (c_size (ck st b)) = c_size (ck st a) + c_size (ck st b)"
    using chunk_bounds(2) [OF H(1,4) ab(2)] nb(3) by simp
  obtain rs' where rs': "set_handle (c_ptr (ck st b)) (- 1) (regions st) = Inr rs'"
    "regions_ok rs'" "spans rs' = spans (regions st)"
    "\<And>q. aligned (spans (regions st)) q \<Longrightarrow>
       get_handle rs' q = (if q = c_ptr (ck st b) then Inr (- 1) else get_handle (regions st) q)"
    using set_handle_law [OF H(1) chunk_bounds(6) [OF H(1,4) ab(2)], of "- 1"] by blast
  have "Merge (int a) (int b) st =
      Inr (st\<lparr>chunks := merge_chunks a b st, regions := rs', free_chunks_list := int b\<rparr>)"
  proof (cases rule: next_cases [OF H(3) ab(2)])
    case 1
    then show ?thesis
      using len ab ne nb(2) rs'(1) sum
      by (simp add: Merge_def run_simps kInvalidChunkHandle_def DeleteChunk_def DeallocateChunk_def
          erase_handle_set nth_list_update merge_chunks_def Let_def)
  next
    case (2 k)
    have k: "k < length (chunks st)" "k \<noteq> a" "k \<noteq> b"
      using next_live [OF H(3) ab(2) 2(1)] nb(3) sz live_less [OF 2(2)] by auto
    then show ?thesis
      using len ab ne nb(2) rs'(1) sum 2
      by (simp add: Merge_def run_simps kInvalidChunkHandle_def DeleteChunk_def DeallocateChunk_def
          erase_handle_set nth_list_update merge_chunks_def Let_def)
  qed
  then show ?thesis using that rs' by blast
qed

lemma Merge_ok:
  assumes inv: "inv X fl st" and X: "a \<in> X" "b \<in> X" and nx: "c_next (ck st a) = int b"
  obtains st' where "Merge (int a) (int b) st = Inr st'" "inv (X - {b}) (b # fl) st'"
    "quiet fl st (b # fl) st'" "merged a b (ck st) (ck st') (live fl st)"
    "live (b # fl) st' = live fl st - {b}"
proof -
  note D = invD [OF inv]
  note H = heap_okD [OF D(1)]
  have ab: "a \<in> live fl st" "b \<in> live fl st" "\<not> in_use (ck st b)" "c_bin_num (ck st b) = - 1"
    using H(8) X by (auto simp: binned_def)
  obtain rs' where eq: "Merge (int a) (int b) st =
       Inr (st\<lparr>chunks := merge_chunks a b st, regions := rs', free_chunks_list := int b\<rparr>)"
    and rs': "regions_ok rs'" "spans rs' = spans (regions st)"
    "\<And>q. aligned (spans (regions st)) q \<Longrightarrow>
       get_handle rs' q = (if q = c_ptr (ck st b) then Inr (- 1) else get_handle (regions st) q)"
    using Merge_eq [OF inv X nx] by blast
  have L: "live fl st \<subseteq> {..<length (chunks st)}" by (auto simp: live_def)
  note M = merge_chunks_merged [OF H(3,4) L ab(1,2) nx]
  define st' where "st' = st\<lparr>chunks := merge_chunks a b st, regions := rs', free_chunks_list := int b\<rparr>"
  have len: "length (chunks st') = length (chunks st)"
    by (simp add: st'_def merge_chunks_def Let_def)
  have live: "live (b # fl) st' = live fl st - {b}" using len by (auto simp: live_def)
  have C: "ck st' = (!) (merge_chunks a b st)" by (simp add: st'_def)
  note F = merged_fields [OF M(1)]
  have users: "users (ck st') (live (b # fl) st') = users (ck st) (live fl st)"
    using F(3) ab(3) by (auto simp: users_def live C)
  have fields: "c_ptr (ck st' h) = c_ptr (ck st h) \<and> c_size (ck st' h) = c_size (ck st h) \<and>
      c_requested_size (ck st' h) = c_requested_size (ck st h) \<and>
      c_allocation_id (ck st' h) = c_allocation_id (ck st h)" if "h \<in> users (ck st) (live fl st)" for h
  proof -
    have "h \<noteq> b" "h \<noteq> a" "h \<in> live fl st" using that H(8) X by (auto simp: users_def binned_def)
    then show ?thesis using F [of h] by (simp add: C)
  qed
  have quiet: "quiet fl st (b # fl) st'"
    using users fields by (intro quietI) (auto simp: st'_def rs'(2))
  have "heap_ok (X - {b}) (ck st') (live (b # fl) st') (regions st') (bins st')"
    using heap_merge [OF D(1) M(1) X rs'] by (simp add: C live) (simp add: st'_def)
  moreover have "free_ok (b # fl) st'"
  proof -
    have "flist (ck st') (free_chunks_list st) fl"
      using D(2) M(3) by (auto simp: free_ok_def C live_def intro: flist_cong)
    then show ?thesis
      using D(2) ab M(2) live_less [OF ab(2)] len
      by (auto simp: free_ok_def live_def C in_use_def) (auto simp: st'_def)
  qed
  ultimately have "inv (X - {b}) (b # fl) st'" using len by (intro inv_quiet [OF inv quiet]) auto
  moreover have "Merge (int a) (int b) st = Inr st'" using eq by (simp add: st'_def)
  moreover have "merged a b (ck st) (ck st') (live fl st)" using M(1) by (simp only: C)
  ultimately show ?thesis using that quiet live by metis
qed

section \<open>Splitting\<close>

definition split_chunks :: "nat \<Rightarrow> nat \<Rightarrow> nat \<Rightarrow> chunk list \<Rightarrow> chunk list" where
  "split_chunks h n m cs =
     (let c = cs ! h;
          cs = cs[n := (cs ! n)\<lparr>c_ptr := c_ptr c + m, c_size := c_size c - m, c_allocation_id := - 1,
            c_prev := int h, c_next := c_next c\<rparr>];
          cs = cs[h := (cs ! h)\<lparr>c_size := m, c_next := int n\<rparr>]
      in if c_next c = - 1 then cs
         else cs[nat (c_next c) := (cs ! nat (c_next c))\<lparr>c_prev := int n\<rparr>])"

lemma split_chunks_split:
  assumes l: "linked C L" and p: "placed C sp L" and L: "L \<subseteq> {..<length cs}"
    and cs: "\<And>k. k \<in> L \<Longrightarrow> cs ! k = C k"
    and h: "h \<in> L" and n: "n \<notin> L" "n < length cs" "c_bin_num (cs ! n) = - 1"
    and m: "256 dvd m" "0 < m" "m < c_size (C h)"
  shows "split_off h n m C ((!) (split_chunks h n m cs)) L"
    and "\<And>k. k \<notin> L \<Longrightarrow> k \<noteq> n \<Longrightarrow> split_chunks h n m cs ! k = cs ! k"
proof -
  have hn: "h \<noteq> n" "h < length cs" "cs ! h = C h" using h n L cs by auto
  have k: "k \<in> L" "k < length cs" "k \<noteq> h" "k \<noteq> n" "cs ! k = C k" if "c_next (C h) = int k" for k
    using next_live(1) [OF l h that] next_neq [OF l p h that] n L cs by auto
  show "split_off h n m C ((!) (split_chunks h n m cs)) L"
    and "\<And>k. k \<notin> L \<Longrightarrow> k \<noteq> n \<Longrightarrow> split_chunks h n m cs ! k = cs ! k"
    using k hn h n m cs
    by (cases rule: next_cases [OF l h];
        force simp: split_off_def split_chunks_def Let_def nth_list_update in_use_def)+
qed

text \<open>The part of \<open>SplitChunk\<close> before the new chunk is put into its bin.\<close>

lemma SplitChunk_eq:
  assumes inv: "inv X fl st" and h: "h \<in> X" and m: "256 dvd m" "0 < m" "m < c_size (ck st h)"
  obtains n fl' st2 where
    "SplitChunk (int h) m st = InsertFreeChunkIntoBin (int n) st2"
    "inv (insert n X) fl' st2" "quiet fl st fl' st2" "n \<notin> live fl st"
    "split_off h n m (ck st) (ck st2) (live fl st)"
proof -
  note D = invD [OF inv]
  note H = heap_okD [OF D(1)]
  have hL: "h \<in> live fl st" "\<not> in_use (ck st h)" "c_bin_num (ck st h) = - 1"
    using H(8) h by (auto simp: binned_def)
  note bounds = chunk_bounds [OF H(1,4) hL(1)]
  have "256 * length (chunks st) < 2 ^ 39" using D(4) by (simp add: limits_ok_def)
  then have len31: "length (chunks st) < 2 ^ 31" by simp
  obtain n cs f fl' where A: "AllocateChunk st = Inr (int n, st\<lparr>chunks := cs, free_chunks_list := f\<rparr>)"
    "n \<notin> live fl st" "n < length cs" "{..<length cs} - set fl' = insert n (live fl st)"
    "\<forall>k<length (chunks st). cs ! k = chunks st ! k" "length (chunks st) \<le> length cs"
    "\<not> in_use (cs ! n)" "c_bin_num (cs ! n) = - 1"
    "distinct fl'" "set fl' \<subseteq> {..<length cs}" "flist ((!) cs) f fl'" "n \<notin> set fl'"
    "length cs \<le> length (chunks st) \<or> fl' = []"
    by (rule AllocateChunk_ok [OF D(2) len31]) (rule that; assumption)
  have L: "live fl st \<subseteq> {..<length cs}" "\<And>k. k \<in> live fl st \<Longrightarrow> cs ! k = ck st k"
    using A(5,6) live_less by fastforce+
  note S = split_chunks_split [OF H(3,4) L hL(1) A(2,3,8) m]
  note N = split_new [OF S(1)] and F = split_fields [OF S(1)]
  have al: "aligned (spans (regions st)) (c_ptr (ck st h) + m)"
    using chunk_bounds(6) [OF H(1) placed_split [OF S(1) H(3,4)], of n] N(1) by simp
  obtain rs' where rs': "set_handle (c_ptr (ck st h) + m) (int n) (regions st) = Inr rs'"
    "regions_ok rs'" "spans rs' = spans (regions st)"
    "\<And>q. aligned (spans (regions st)) q \<Longrightarrow>
       get_handle rs' q = (if q = c_ptr (ck st h) + m then Inr (int n) else get_handle (regions st) q)"
    using set_handle_law [OF H(1) al, of "int n"] by blast
  define st2 where "st2 = st\<lparr>free_chunks_list := f, regions := rs', chunks := split_chunks h n m cs\<rparr>"
  have len: "length (chunks st2) = length cs" by (simp add: st2_def split_chunks_def Let_def)
  have C: "ck st2 = (!) (split_chunks h n m cs)" by (simp add: st2_def)
  have live: "live fl' st2 = insert n (live fl st)" using A(4) len by (simp add: live_def)
  have hlen: "h < length cs" "cs ! h = ck st h" "h \<noteq> n" using L hL(1) A(2) by auto
  have eq: "SplitChunk (int h) m st = InsertFreeChunkIntoBin (int n) st2"
  proof (cases rule: next_cases [OF H(3) hL(1)])
    case 1
    then show ?thesis
      using A(1,3) hlen hL rs'(1) m bounds
      by (simp add: SplitChunk_def run_simps kInvalidChunkHandle_def kInvalidBinNum_def
          nth_list_update split_chunks_def Let_def st2_def)
  next
    case (2 k)
    have k: "k < length cs" "k \<noteq> n" "k \<noteq> h"
      using 2 L A(2) next_neq [OF H(3,4) hL(1) 2(1)] by auto
    then show ?thesis
      using A(1,3) hlen hL rs'(1) m bounds 2
      by (simp add: SplitChunk_def run_simps kInvalidChunkHandle_def kInvalidBinNum_def
          nth_list_update split_chunks_def Let_def st2_def)
  qed
  have users: "users (ck st2) (live fl' st2) = users (ck st) (live fl st)"
    using F(3) N(3) by (auto simp: users_def live C)
  have fields: "c_ptr (ck st2 k) = c_ptr (ck st k) \<and> c_size (ck st2 k) = c_size (ck st k) \<and>
      c_requested_size (ck st2 k) = c_requested_size (ck st k) \<and>
      c_allocation_id (ck st2 k) = c_allocation_id (ck st k)" if "k \<in> users (ck st) (live fl st)" for k
  proof -
    have "k \<noteq> h" "k \<in> live fl st" using that hL by (auto simp: users_def)
    then show ?thesis using F [of k] by (simp add: C)
  qed
  have quiet: "quiet fl st fl' st2"
    using users fields by (intro quietI) (auto simp: st2_def rs'(3))
  have "heap_ok (insert n X) (ck st2) (live fl' st2) (regions st2) (bins st2)"
    using heap_split [OF D(1) S(1) h rs'(2-4)] by (simp add: C live) (simp add: st2_def)
  moreover have "free_ok fl' st2"
  proof -
    have "k \<notin> live fl st" "k \<noteq> n" if "k \<in> set fl'" for k using that A(4,10,12) by auto
    then have "flist (ck st2) f fl'" using A(11) S(2) by (auto simp: C intro: flist_cong)
    then show ?thesis using A(9,10) len by (simp add: free_ok_def) (simp add: st2_def)
  qed
  ultimately have "inv (insert n X) fl' st2" using len A(13) by (intro inv_quiet [OF inv quiet]) auto
  moreover have "split_off h n m (ck st) (ck st2) (live fl st)" using S(1) by (simp only: C)
  ultimately show ?thesis using that eq quiet A(2) by metis
qed

lemma SplitChunk_ok:
  assumes inv: "inv X fl st" and h: "h \<in> X" and m: "256 dvd m" "0 < m" "m < c_size (ck st h)"
    and nx: "\<And>k. c_next (ck st h) = int k \<Longrightarrow> in_use (ck st k)"
  obtains fl' st' where "SplitChunk (int h) m st = Inr st'" "inv X fl' st'" "quiet fl st fl' st'"
    "c_ptr (ck st' h) = c_ptr (ck st h)" "c_size (ck st' h) = m"
proof -
  obtain n fl' st2 where S: "SplitChunk (int h) m st = InsertFreeChunkIntoBin (int n) st2"
    "inv (insert n X) fl' st2" "quiet fl st fl' st2" "n \<notin> live fl st"
    "split_off h n m (ck st) (ck st2) (live fl st)"
    using SplitChunk_eq [OF inv h m] by blast
  note H = heap_okD [OF invD(1) [OF inv]]
  note N = split_new [OF S(5)] and F = split_fields [OF S(5)]
  have "n \<notin> X" using S(4) H(8) by (auto simp: binned_def)
  have next_ok: "k \<in> insert n X - {n} \<or> in_use (ck st2 k)" if "c_next (ck st2 n) = int k" for k
  proof -
    have "c_next (ck st h) = int k" using that N(5) by simp
    then show ?thesis using nx next_live(1) [OF H(3) N(7)] F(3) by auto
  qed
  have prev_ok: "k \<in> insert n X - {n} \<or> in_use (ck st2 k)" if "c_prev (ck st2 n) = int k" for k
    using that N(4,9) h by auto
  obtain st' where I: "InsertFreeChunkIntoBin (int n) st2 = Inr st'" "inv (insert n X - {n}) fl' st'"
    "quiet fl' st2 fl' st'"
    "ck st' = (ck st2)(n := (ck st2 n)\<lparr>c_bin_num := int (BinNumForSize (c_size (ck st2 n)))\<rparr>)"
    using InsertFreeChunkIntoBin_ok [OF S(2) insertI1 next_ok prev_ok] by blast
  show ?thesis
  proof (rule that)
    show "SplitChunk (int h) m st = Inr st'" using S(1) I(1) by simp
    show "inv X fl' st'" using I(2) \<open>n \<notin> X\<close> by simp
    show "quiet fl st fl' st'" using quiet_trans [OF S(3) I(3)] .
    show "c_ptr (ck st' h) = c_ptr (ck st h)" "c_size (ck st' h) = m"
      using I(4) F [OF N(7)] N(9) by auto
  qed
qed

end
