(* ===== verification/BFC_Ops.thy ===== *)
theory BFC_Ops
  imports BFC_Inv
begin

text \<open>
  The public operations of \<open>BFCAllocator\<close> as seen by a client: the table
  \<open>allocation\<close> of the allocations in use, and how \<open>FindChunkPtr\<close> and
  \<open>FreeAndMaybeCoalesce\<close> change it.
\<close>

section \<open>The allocations in use\<close>

text \<open>
  \<open>allocation st p\<close>: size, requested size and id of the allocation at address \<open>p\<close>.
\<close>

definition allocation :: "bfc \<Rightarrow> nat \<Rightarrow> (nat \<times> nat \<times> int) option" where
  "allocation st p = (case get_handle (regions st) p of
     Inl _ \<Rightarrow> None
   | Inr h \<Rightarrow> if h = - 1 then None
       else let c = chunks st ! nat h in
         if in_use c \<and> c_ptr c = p then Some (c_size c, c_requested_size c, c_allocation_id c) else None)"

lemma get_handle_range:
  assumes rs: "regions_ok rs" and h: "handles_ok C L rs" and g: "get_handle rs p = Inr x" and x: "x \<noteq> - 1"
  shows "\<exists>h\<in>L. x = int h"
proof -
  obtain k where k: "k < length rs" "region_get_handle (rs ! k) p = Inr x"
    using g by (auto simp: get_handle_def RegionFor_def Let_def split: if_splits)
  then obtain i where i: "i < length (r_handles (rs ! k))" "x = r_handles (rs ! k) ! i"
    by (auto simp: region_get_handle_def Let_def split: if_splits)
  have ok: "region_ok (rs ! k)" using rs k by (auto simp: regions_ok_def)
  define q where "q = r_ptr (rs ! k) + 256 * i"
  have "256 * i < r_memory_size (rs ! k)" using i(1) ok by (auto simp: region_ok_def elim!: dvdE)
  then have q: "in_region (rs ! k) q" using ok by (auto simp: in_region_def q_def region_ok_def)
  then have al: "aligned (spans rs) q" using aligned_iff [OF rs] k(1) by (auto simp: q_def)
  have "slot (rs ! k) q = i" by (simp add: slot_def q_def)
  then have "get_handle rs q = Inr x" using get_handle_in [OF rs k(1) q] i(2) by simp
  with h al x show ?thesis unfolding handles_ok_def by force
qed

lemma allocation_user:
  assumes inv: "inv X fl st" and h: "h \<in> users (ck st) (live fl st)"
  shows "allocation st (c_ptr (ck st h)) =
    Some (c_size (ck st h), c_requested_size (ck st h), c_allocation_id (ck st h))"
proof -
  have "get_handle (regions st) (c_ptr (ck st h)) = Inr (int h)" "in_use (ck st h)"
    using heap_okD(2) [OF invD(1) [OF inv]] h by (auto simp: users_def handles_ok_def)
  then show ?thesis by (simp add: allocation_def Let_def)
qed

lemma allocation_SomeD:
  assumes inv: "inv X fl st" and p: "allocation st p = Some v"
  obtains h where "h \<in> users (ck st) (live fl st)" "c_ptr (ck st h) = p"
    "get_handle (regions st) p = Inr (int h)"
    "v = (c_size (ck st h), c_requested_size (ck st h), c_allocation_id (ck st h))"
proof -
  note H = heap_okD [OF invD(1) [OF inv]]
  obtain x where x: "get_handle (regions st) p = Inr x" "x \<noteq> - 1" "in_use (chunks st ! nat x)"
    "c_ptr (chunks st ! nat x) = p"
    using p by (auto simp: allocation_def Let_def split: sum.splits if_splits)
  obtain h where h: "h \<in> live fl st" "x = int h" using get_handle_range [OF H(1,2) x(1,2)] by blast
  then have u: "h \<in> users (ck st) (live fl st)" "c_ptr (ck st h) = p" using x by (auto simp: users_def)
  then show ?thesis using that [OF u] allocation_user [OF inv u(1)] p x(1) h(2) by simp
qed

lemma allocation_None:
  assumes "inv X fl st" "\<And>h. h \<in> users (ck st) (live fl st) \<Longrightarrow> c_ptr (ck st h) \<noteq> p"
  shows "allocation st p = None"
proof (cases "allocation st p")
  case (Some v)
  then obtain h where "h \<in> users (ck st) (live fl st)" "c_ptr (ck st h) = p"
    using allocation_SomeD [OF assms(1) Some] by blast
  then show ?thesis using assms(2) by simp
qed

lemma allocation_same:
  assumes inv: "inv X fl st" and inv': "inv X' fl' st'"
    and U: "users (ck st') (live fl' st') = users (ck st) (live fl st)"
    and F: "\<And>h. h \<in> users (ck st) (live fl st) \<Longrightarrow> c_ptr (ck st' h) = c_ptr (ck st h) \<and>
      c_size (ck st' h) = c_size (ck st h) \<and> c_requested_size (ck st' h) = c_requested_size (ck st h) \<and>
      c_allocation_id (ck st' h) = c_allocation_id (ck st h)"
  shows "allocation st' = allocation st"
proof
  fix p
  show "allocation st' p = allocation st p"
  proof (cases "\<exists>h\<in>users (ck st) (live fl st). c_ptr (ck st h) = p")
    case True
    then obtain h where h: "h \<in> users (ck st) (live fl st)" "c_ptr (ck st h) = p" by blast
    then show ?thesis using allocation_user [OF inv h(1)] allocation_user [OF inv', of h] F [OF h(1)] U by simp
  next
    case False
    have "allocation st' p = None" by (rule allocation_None [OF inv']) (use False F U in auto)
    moreover have "allocation st p = None" by (rule allocation_None [OF inv]) (use False in auto)
    ultimately show ?thesis by simp
  qed
qed

lemma allocation_quiet:
  assumes "inv X fl st" "inv X' fl' st'" "quiet fl st fl' st'"
  shows "allocation st' = allocation st"
  using assms(3) by (intro allocation_same [OF assms(1,2)]) (auto simp: quiet_def)

text \<open>What an operation on free chunks leaves alone.\<close>

definition same_env :: "bfc \<Rightarrow> bfc \<Rightarrow> bool" where
  "same_env st st' \<longleftrightarrow> memory_limit st' = memory_limit st \<and> sub_log st' = sub_log st \<and>
     region_visitors st' = region_visitors st \<and> visitor_calls st' = visitor_calls st \<and>
     spans (regions st') = spans (regions st) \<and>
     total_region_allocated_bytes st' = total_region_allocated_bytes st \<and>
     started_backpedal st' = started_backpedal st \<and>
     curr_region_allocation_bytes st' = curr_region_allocation_bytes st"

lemma same_env_refl [simp]: "same_env st st"
  by (simp add: same_env_def)

lemma same_env_trans: "same_env st st' \<Longrightarrow> same_env st' st'' \<Longrightarrow> same_env st st''"
  by (simp add: same_env_def)

lemma env_ok:
  assumes "same_env st st'" "length (chunks st') = length (chunks st)"
  shows "limits_ok st' = limits_ok st" "granted_ok st' = granted_ok st" "visited_ok st' = visited_ok st"
proof -
  have av: "available st' = available st" using assms(1) by (simp add: same_env_def available_def)
  note eqs = assms(1) [unfolded same_env_def]
  show "limits_ok st' = limits_ok st" "granted_ok st' = granted_ok st" "visited_ok st' = visited_ok st"
    by (simp_all only: limits_ok_def granted_ok_def visited_ok_def av eqs assms(2))
qed

lemma quiet_same_env: "quiet fl st fl' st' \<Longrightarrow> same_env st st'"
  by (simp add: same_env_def quiet_same)

section \<open>Marking a chunk used and unused\<close>

lemma acct_use:
  assumes a: "acct_ok C U i s" and h: "h \<notin> U" and num: "0 < num" "num \<le> c_size (C h)"
    and same: "\<And>k. k \<in> U \<Longrightarrow> C' k = C k"
    and C': "c_size (C' h) = c_size (C h)" "c_requested_size (C' h) = num" "c_allocation_id (C' h) = i"
  shows "acct_ok C' (insert h U) (i + 1) (update_stats (c_size (C h)) s)"
proof -
  have A: "finite U" "inj_on (\<lambda>k. c_allocation_id (C k)) U" "1 \<le> i" "num_allocs s = i - 1"
    "bytes_in_use s = (\<Sum>h\<in>U. int (c_size (C h)))"
    and each: "\<And>k. k \<in> U \<Longrightarrow> 1 \<le> c_allocation_id (C k) \<and> c_allocation_id (C k) < i \<and>
        0 < c_requested_size (C k) \<and> c_requested_size (C k) \<le> c_size (C k) \<and>
        int (c_size (C k)) \<le> max_alloc_size s"
    using a by (auto simp: acct_ok_def)
  have "inj_on (\<lambda>k. c_allocation_id (C' k)) U"
    using A(2) same by (subst inj_on_cong [where g = "\<lambda>k. c_allocation_id (C k)"]) auto
  moreover have "i \<notin> (\<lambda>k. c_allocation_id (C' k)) ` U" using each same by force
  ultimately have inj: "inj_on (\<lambda>k. c_allocation_id (C' k)) (insert h U)" using h C'(3) by simp
  have sum: "bytes_in_use s + int (c_size (C h)) = (\<Sum>k\<in>insert h U. int (c_size (C' k)))"
    using A(1,5) h same C'(1) by simp
  have each': "1 \<le> c_allocation_id (C' k) \<and> c_allocation_id (C' k) < i + 1 \<and>
        0 < c_requested_size (C' k) \<and> c_requested_size (C' k) \<le> c_size (C' k) \<and>
        int (c_size (C' k)) \<le> max (max_alloc_size s) (int (c_size (C h)))" if "k \<in> insert h U" for k
    using that each [of k] same [of k] A(3) num C' by (cases "k = h") auto
  let ?s = "update_stats (c_size (C h)) s"
  have "bytes_in_use ?s = bytes_in_use s + int (c_size (C h))" "num_allocs ?s = num_allocs s + 1"
    "max_alloc_size ?s = max (max_alloc_size s) (int (c_size (C h)))" "bytes_in_use ?s \<le> max_bytes_in_use ?s"
    by (simp_all add: update_stats_def Let_def)
  then show ?thesis
    unfolding acct_ok_def using inj sum each' A(1,3,4) by (intro conjI ballI) auto
qed

lemma acct_unuse:
  assumes a: "acct_ok C U i s" and h: "h \<in> U"
  shows "acct_ok (C(h := (C h)\<lparr>c_allocation_id := - 1\<rparr>)) (U - {h}) i
    (s\<lparr>bytes_in_use := bytes_in_use s - int (c_size (C h))\<rparr>)" (is "acct_ok ?C _ _ _")
proof -
  have A: "finite U" "inj_on (\<lambda>k. c_allocation_id (C k)) U" using a by (auto simp: acct_ok_def)
  have "acct_ok C (U - {h}) i (s\<lparr>bytes_in_use := bytes_in_use s - int (c_size (C h))\<rparr>)"
    using a h sum.remove [OF A(1) h, of "\<lambda>k. int (c_size (C k))"] inj_on_diff [OF A(2), of "{h}"]
    unfolding acct_ok_def by auto
  then show ?thesis by (rule acct_cong) auto
qed

definition mark_used :: "nat \<Rightarrow> nat \<Rightarrow> bfc \<Rightarrow> bfc" where
  "mark_used h num st = st\<lparr>
     chunks := (chunks st)[h := (ck st h)\<lparr>c_requested_size := num, c_allocation_id := next_allocation_id st\<rparr>],
     next_allocation_id := next_allocation_id st + 1,
     stats := update_stats (c_size (ck st h)) (stats st)\<rparr>"

lemma mark_used_ok:
  assumes inv: "inv {h} fl st" and num: "0 < num" "num \<le> c_size (ck st h)"
  defines "st' \<equiv> mark_used h num st"
  shows "inv {} fl st'" and "same_env st st'" and "c_ptr (ck st' h) = c_ptr (ck st h)"
    and "allocation st (c_ptr (ck st h)) = None"
    and "allocation st' = (allocation st)(c_ptr (ck st h) \<mapsto> (c_size (ck st h), num, next_allocation_id st))"
proof -
  note D = invD [OF inv]
  note H = heap_okD [OF D(1)]
  have h: "h \<in> live fl st" "\<not> in_use (ck st h)" using H(8) by (auto simp: binned_def)
  have A: "1 \<le> next_allocation_id st" "finite (users (ck st) (live fl st))"
    "\<And>k. k \<in> users (ck st) (live fl st) \<Longrightarrow> c_allocation_id (ck st k) < next_allocation_id st"
    using D(3) by (auto simp: acct_ok_def)
  have C: "ck st' = (ck st)(h := (ck st h)\<lparr>c_requested_size := num, c_allocation_id := next_allocation_id st\<rparr>)"
    using live_less [OF h(1)] by (simp add: st'_def mark_used_def nth_update_fun)
  have live: "live fl st' = live fl st" by (simp add: live_def st'_def mark_used_def)
  have U: "users (ck st') (live fl st') = insert h (users (ck st) (live fl st))"
    using h A(1) by (auto simp: users_def C live in_use_def)
  have hU: "h \<notin> users (ck st) (live fl st)" using h by (auto simp: users_def)
  have "heap_ok ({h} - {h}) (ck st') (live fl st') (regions st') (bins st')"
    unfolding C live using heap_use [OF D(1), of h "next_allocation_id st" num] A(1)
    by (simp add: st'_def mark_used_def)
  moreover have "free_ok fl st'"
  proof -
    have "flist (ck st') (free_chunks_list st) fl"
      using D(2) h(1) by (auto simp: free_ok_def C live_def intro: flist_cong)
    then show ?thesis using D(2) by (simp add: free_ok_def) (simp add: st'_def mark_used_def)
  qed
  moreover have "acct_ok (ck st') (users (ck st') (live fl st')) (next_allocation_id st') (stats st')"
  proof -
    have st: "next_allocation_id st' = next_allocation_id st + 1"
      "stats st' = update_stats (c_size (ck st h)) (stats st)"
      by (simp_all add: st'_def mark_used_def)
    show ?thesis unfolding U st by (rule acct_use [OF D(3) hU num]) (use hU in \<open>auto simp: C\<close>)
  qed
  moreover have "limits_ok st'" "granted_ok st'" "visited_ok st'"
    using D(4-6) env_ok [of st st'] by (auto simp: same_env_def st'_def mark_used_def)
  ultimately show inv': "inv {} fl st'" by (simp add: inv_def)
  show "same_env st st'" by (simp add: same_env_def st'_def mark_used_def)
  show "c_ptr (ck st' h) = c_ptr (ck st h)" by (simp add: C)
  have other: "c_ptr (ck st k) \<noteq> c_ptr (ck st h)" if "k \<in> users (ck st) (live fl st)" for k
    using apart_ptr_inj [OF H(5,4) _ h(1)] that hU by (auto simp: users_def)
  then show "allocation st (c_ptr (ck st h)) = None" by (intro allocation_None [OF inv]) auto
  show "allocation st' = (allocation st)(c_ptr (ck st h) \<mapsto> (c_size (ck st h), num, next_allocation_id st))"
  proof
    fix p
    consider "p = c_ptr (ck st h)" | k where "k \<in> users (ck st) (live fl st)" "c_ptr (ck st k) = p"
      | "p \<noteq> c_ptr (ck st h)" "\<And>k. k \<in> users (ck st) (live fl st) \<Longrightarrow> c_ptr (ck st k) \<noteq> p" by blast
    then show "allocation st' p =
        ((allocation st)(c_ptr (ck st h) \<mapsto> (c_size (ck st h), num, next_allocation_id st))) p"
    proof cases
      case 1
      have "h \<in> users (ck st') (live fl st')" by (simp add: U)
      from allocation_user [OF inv' this] 1 show ?thesis by (simp add: C)
    next
      case (2 k)
      then have "k \<noteq> h" using hU by auto
      moreover have "k \<in> users (ck st') (live fl st')" using 2 by (simp add: U)
      ultimately show ?thesis
        using 2 other [OF 2(1)] allocation_user [OF inv', of k] allocation_user [OF inv 2(1)] by (simp add: C)
    next
      case 3
      have "c_ptr (ck st' k) \<noteq> p" if "k \<in> users (ck st') (live fl st')" for k
        using that 3 unfolding U by (auto simp: C)
      then have "allocation st' p = None" by (rule allocation_None [OF inv'])
      then show ?thesis using 3 allocation_None [OF inv 3(2)] by simp
    qed
  qed
qed

definition mark_free :: "nat \<Rightarrow> bfc \<Rightarrow> bfc" where
  "mark_free h st = st\<lparr>
     stats := (stats st)\<lparr>bytes_in_use := bytes_in_use (stats st) - int (c_size (ck st h))\<rparr>,
     chunks := (chunks st)[h := (ck st h)\<lparr>c_allocation_id := - 1\<rparr>]\<rparr>"

lemma mark_free_ok:
  assumes inv: "inv {} fl st" and h: "h \<in> users (ck st) (live fl st)"
  defines "st' \<equiv> mark_free h st"
  shows "inv {h} fl st'" and "same_env st st'"
    and "stats st' = (stats st)\<lparr>bytes_in_use := bytes_in_use (stats st) - int (c_size (ck st h))\<rparr>"
    and "next_allocation_id st' = next_allocation_id st"
    and "allocation st' = (allocation st)(c_ptr (ck st h) := None)"
proof -
  note D = invD [OF inv]
  note H = heap_okD [OF D(1)]
  have hL: "h \<in> live fl st" "in_use (ck st h)" using h by (auto simp: users_def)
  have C: "ck st' = (ck st)(h := (ck st h)\<lparr>c_allocation_id := - 1\<rparr>)"
    using live_less [OF hL(1)] by (simp add: st'_def mark_free_def nth_update_fun)
  have live: "live fl st' = live fl st" by (simp add: live_def st'_def mark_free_def)
  have U: "users (ck st') (live fl st') = users (ck st) (live fl st) - {h}"
    by (auto simp: users_def C live in_use_def)
  show st: "stats st' = (stats st)\<lparr>bytes_in_use := bytes_in_use (stats st) - int (c_size (ck st h))\<rparr>"
    "next_allocation_id st' = next_allocation_id st" by (simp_all add: st'_def mark_free_def)
  show env: "same_env st st'" by (simp add: same_env_def st'_def mark_free_def)
  have "heap_ok {h} (ck st') (live fl st') (regions st') (bins st')"
    unfolding C live using heap_unuse [OF D(1) hL] by (simp add: st'_def mark_free_def)
  moreover have "free_ok fl st'"
  proof -
    have "flist (ck st') (free_chunks_list st) fl"
      using D(2) hL(1) by (auto simp: free_ok_def C live_def intro: flist_cong)
    then show ?thesis using D(2) by (simp add: free_ok_def) (simp add: st'_def mark_free_def)
  qed
  moreover have "acct_ok (ck st') (users (ck st') (live fl st')) (next_allocation_id st') (stats st')"
    unfolding U st unfolding C by (rule acct_unuse [OF D(3) h])
  moreover have "limits_ok st'" "granted_ok st'" "visited_ok st'"
    using D(4-6) env_ok [OF env] by (auto simp: st'_def mark_free_def)
  ultimately show inv': "inv {h} fl st'" by (simp add: inv_def)
  show "allocation st' = (allocation st)(c_ptr (ck st h) := None)"
  proof
    fix p
    consider k where "k \<in> users (ck st) (live fl st)" "k \<noteq> h" "c_ptr (ck st k) = p"
      | "\<And>k. k \<in> users (ck st) (live fl st) - {h} \<Longrightarrow> c_ptr (ck st k) \<noteq> p" by blast
    then show "allocation st' p = ((allocation st)(c_ptr (ck st h) := None)) p"
    proof cases
      case (1 k)
      have "c_ptr (ck st k) \<noteq> c_ptr (ck st h)"
        using apart_ptr_inj [OF H(5,4) _ hL(1), of k] 1 by (auto simp: users_def)
      moreover have "k \<in> users (ck st') (live fl st')" using 1 by (simp add: U)
      ultimately show ?thesis
        using 1 allocation_user [OF inv', of k] allocation_user [OF inv 1(1)] by (simp add: C)
    next
      case 2
      have "c_ptr (ck st' k) \<noteq> p" if "k \<in> users (ck st') (live fl st')" for k
        using that 2 unfolding U by (auto simp: C)
      then have "allocation st' p = None" by (rule allocation_None [OF inv'])
      moreover have "allocation st p = None" if "p \<noteq> c_ptr (ck st h)"
        using 2 that by (intro allocation_None [OF inv]) auto
      ultimately show ?thesis by auto
    qed
  qed
qed

section \<open>Freeing and coalescing\<close>

lemma coalesce_next_ok:
  assumes inv: "inv {h} fl st"
  obtains fl' st' where "coalesce_next (int h) st = Inr st'" "inv {h} fl' st'" "quiet fl st fl' st'"
    "\<And>m. c_next (ck st' h) = int m \<Longrightarrow> in_use (ck st' m)"
proof -
  note H = heap_okD [OF invD(1) [OF inv]]
  have h: "h \<in> live fl st" using H(8) by (auto simp: binned_def)
  note len = live_less [OF h]
  show ?thesis
  proof (cases rule: next_cases [OF H(3) h])
    case 1
    then have "coalesce_next (int h) st = Inr st"
      using len by (simp add: coalesce_next_def run_simps kInvalidChunkHandle_def)
    then show ?thesis by (rule that) (use inv quiet_refl 1 in auto)
  next
    case (2 n)
    note nlen = live_less [OF 2(2)]
    show ?thesis
    proof (cases "in_use (ck st n)")
      case True
      then have "coalesce_next (int h) st = Inr st"
        using len nlen 2 by (simp add: coalesce_next_def run_simps kInvalidChunkHandle_def)
      then show ?thesis by (rule that) (use inv quiet_refl True 2 in auto)
    next
      case False
      have ne: "n \<noteq> h" using next_neq [OF H(3,4) h 2(1)] .
      have nX: "n \<notin> {h}" using ne by simp
      note u = unbin_ok [OF inv 2(2) False nX] and ueq = RemoveFreeChunkFromBin_eq [OF inv 2(2) False nX]
      have C: "ck (unbin n st) = (ck st)(n := (ck st n)\<lparr>c_bin_num := - 1\<rparr>)" using unbin_ck [OF nlen] .
      have nx: "c_next (ck (unbin n st) h) = int n" using C ne 2 by simp
      have X: "h \<in> insert n {h}" "n \<in> insert n {h}" by auto
      obtain st' where m: "Merge (int h) (int n) (unbin n st) = Inr st'"
        "inv (insert n {h} - {n}) (n # fl) st'" "quiet fl (unbin n st) (n # fl) st'"
        "merged h n (ck (unbin n st)) (ck st') (live fl (unbin n st))"
        using Merge_ok [OF u(1) X nx] by metis
      have len': "h < length (chunks (unbin n st))" using len by simp
      have eq: "coalesce_next (int h) st = Inr st'"
        using len nlen 2 False ueq m(1) nx len'
        by (simp add: coalesce_next_def run_simps kInvalidChunkHandle_def)
      show ?thesis
      proof (rule that [OF eq])
        show "inv {h} (n # fl) st'" using m(2) ne by (simp add: insert_Diff_if)
        show "quiet fl st (n # fl) st'" using quiet_trans [OF u(2) m(3)] .
        fix k assume "c_next (ck st' h) = int k"
        then have k: "c_next (ck st n) = int k" using merged_fields(7) [OF m(4), of h] h ne C by simp
        note kl = next_live [OF H(3) 2(2) k]
        have "k \<noteq> h" using kl(3) next_live(3) [OF H(3) h 2(1)] chunk_bounds(3) [OF H(1,4) 2(2)] by auto
        moreover have "k \<noteq> n" using next_neq [OF H(3,4) 2(2) k] .
        moreover have "in_use (ck st k)" using H(9) 2(2) k False ne \<open>k \<noteq> h\<close> by (auto simp: coalesced_def)
        ultimately show "in_use (ck st' k)" using merged_fields(3) [OF m(4), of k] kl(1) C by simp
      qed
    qed
  qed
qed

lemma coalesce_prev_ok:
  assumes inv: "inv {h} fl st" and nx: "\<And>m. c_next (ck st h) = int m \<Longrightarrow> in_use (ck st m)"
  obtains fl' k st' where "coalesce_prev (int h) st = Inr (int k, st')" "inv {k} fl' st'" "quiet fl st fl' st'"
    "\<And>m. c_next (ck st' k) = int m \<Longrightarrow> in_use (ck st' m)"
    "\<And>m. c_prev (ck st' k) = int m \<Longrightarrow> in_use (ck st' m)"
proof -
  note H = heap_okD [OF invD(1) [OF inv]]
  have h: "h \<in> live fl st" using H(8) by (auto simp: binned_def)
  note len = live_less [OF h]
  show ?thesis
  proof (cases rule: prev_cases [OF H(3) h])
    case 1
    then have "coalesce_prev (int h) st = Inr (int h, st)"
      using len by (simp add: coalesce_prev_def run_simps kInvalidChunkHandle_def)
    then show ?thesis by (rule that) (use inv quiet_refl 1 nx in auto)
  next
    case (2 p)
    note plen = live_less [OF 2(2)] and pn = prev_live(2) [OF H(3) h 2(1)]
    show ?thesis
    proof (cases "in_use (ck st p)")
      case True
      then have "coalesce_prev (int h) st = Inr (int h, st)"
        using len plen 2 by (simp add: coalesce_prev_def run_simps kInvalidChunkHandle_def)
      then show ?thesis by (rule that) (use inv quiet_refl True 2 nx in auto)
    next
      case False
      have ne: "h \<noteq> p" using next_neq [OF H(3,4) 2(2) pn] .
      have pX: "p \<notin> {h}" using ne by simp
      note u = unbin_ok [OF inv 2(2) False pX] and ueq = RemoveFreeChunkFromBin_eq [OF inv 2(2) False pX]
      have C: "ck (unbin p st) = (ck st)(p := (ck st p)\<lparr>c_bin_num := - 1\<rparr>)" using unbin_ck [OF plen] .
      have nxt: "c_next (ck (unbin p st) p) = int h" using C pn by simp
      have X: "p \<in> insert p {h}" "h \<in> insert p {h}" by auto
      obtain st' where m: "Merge (int p) (int h) (unbin p st) = Inr st'"
        "inv (insert p {h} - {h}) (h # fl) st'" "quiet fl (unbin p st) (h # fl) st'"
        "merged p h (ck (unbin p st)) (ck st') (live fl (unbin p st))"
        using Merge_ok [OF u(1) X nxt] by metis
      have len': "h < length (chunks (unbin p st))" "c_prev (ck (unbin p st) h) = int p"
        using len ne 2 by (auto simp: C)
      have eq: "coalesce_prev (int h) st = Inr (int p, st')"
        using len plen 2 False ueq m(1) len'
        by (simp add: coalesce_prev_def run_simps kInvalidChunkHandle_def)
      note F = merged_fields [OF m(4)]
      have pL: "p \<in> live fl (unbin p st) - {h}" using 2(2) ne by simp
      show ?thesis
      proof (rule that [OF eq])
        show "inv {p} (h # fl) st'" using m(2) ne by (simp add: insert_Diff_if)
        show "quiet fl st (h # fl) st'" using quiet_trans [OF u(2) m(3)] .
      next
        fix k assume "c_next (ck st' p) = int k"
        then have k: "c_next (ck st h) = int k" using F(7) [OF pL] ne C by simp
        have "k \<noteq> h" using next_neq [OF H(3,4) h k] .
        moreover have "in_use (ck st k)" using nx k .
        moreover have "k \<noteq> p" using False calculation by auto
        ultimately show "in_use (ck st' k)" using F(3) [of k] next_live(1) [OF H(3) h k] C by simp
      next
        fix k assume "c_prev (ck st' p) = int k"
        then have k: "c_prev (ck st p) = int k" using F(9) [OF pL] C by simp
        note kl = prev_live [OF H(3) 2(2) k]
        have "c_ptr (ck st p) = c_ptr (ck st k) + c_size (ck st k)" using next_live(3) [OF H(3) kl] .
        then have "k \<noteq> h" "k \<noteq> p"
          using next_live(3) [OF H(3) 2(2) pn] chunk_bounds(3) [OF H(1,4) 2(2)] chunk_bounds(3) [OF H(1,4) kl(1)]
          by auto
        moreover have "in_use (ck st k)" using H(9) kl False ne \<open>k \<noteq> h\<close> by (auto simp: coalesced_def)
        ultimately show "in_use (ck st' k)" using F(3) [of k] kl(1) C by simp
      qed
    qed
  qed
qed

lemma FreeAndMaybeCoalesce_ok:
  assumes inv: "inv {} fl st" and h: "h \<in> users (ck st) (live fl st)"
  obtains fl' st' where "FreeAndMaybeCoalesce (int h) st = Inr st'" "inv {} fl' st'" "same_env st st'"
    "stats st' = (stats st)\<lparr>bytes_in_use := bytes_in_use (stats st) - int (c_size (ck st h))\<rparr>"
    "next_allocation_id st' = next_allocation_id st"
    "allocation st' = (allocation st)(c_ptr (ck st h) := None)"
proof -
  note H = heap_okD [OF invD(1) [OF inv]]
  have hL: "h \<in> live fl st" "in_use (ck st h)" "c_bin_num (ck st h) = - 1"
    using h H(8) by (auto simp: users_def binned_def)
  note m = mark_free_ok [OF inv h]
  obtain fl1 st1 where n: "coalesce_next (int h) (mark_free h st) = Inr st1" "inv {h} fl1 st1"
    "quiet fl (mark_free h st) fl1 st1" "\<And>m. c_next (ck st1 h) = int m \<Longrightarrow> in_use (ck st1 m)"
    using coalesce_next_ok [OF m(1)] by metis
  obtain fl2 k st2 where p: "coalesce_prev (int h) st1 = Inr (int k, st2)" "inv {k} fl2 st2"
    "quiet fl1 st1 fl2 st2"
    "\<And>m. c_next (ck st2 k) = int m \<Longrightarrow> in_use (ck st2 m)" "\<And>m. c_prev (ck st2 k) = int m \<Longrightarrow> in_use (ck st2 m)"
    using coalesce_prev_ok [OF n(2,4)] by metis
  obtain st3 where i: "InsertFreeChunkIntoBin (int k) st2 = Inr st3" "inv ({k} - {k}) fl2 st3" "quiet fl2 st2 fl2 st3"
    using InsertFreeChunkIntoBin_ok [OF p(2) singletonI] p(4,5) by metis
  have q: "quiet fl (mark_free h st) fl2 st3" using quiet_trans [OF quiet_trans [OF n(3) p(3)] i(3)] .
  have "FreeAndMaybeCoalesce (int h) st = Inr st3"
    using hL live_less [OF hL(1)] n(1) p(1) i(1)
    by (simp add: FreeAndMaybeCoalesce_def run_simps kInvalidBinNum_def mark_free_def)
  moreover have "same_env st st3" using same_env_trans [OF m(2) quiet_same_env [OF q]] .
  moreover have "inv {} fl2 st3" using i(2) by simp
  moreover have "allocation st3 = allocation (mark_free h st)" using allocation_quiet [OF m(1) i(2) q] .
  ultimately show ?thesis using that m(3-5) quiet_same(2,3) [OF q] by metis
qed

section \<open>Best fit\<close>

lemma find_in_bin_eq:
  fixes rb :: nat
  assumes "\<forall>x\<in>set hs. \<exists>h<length (chunks st). x = int h"
  defines "fits \<equiv> \<lambda>x. rb \<le> c_size (ck st (nat x))"
  shows "find_in_bin st rb hs i = Inr (if \<exists>x\<in>set hs. fits x
    then Some (i + length (takeWhile (\<lambda>x. \<not> fits x) hs)) else None)"
  using assms(1)
proof (induction hs arbitrary: i)
  case (Cons x hs)
  then obtain h where h: "h < length (chunks st)" "x = int h" by auto
  show ?case using Cons h by (auto simp: run_simps fits_def)
qed simp

text \<open>
  The outcome of the two search loops: nothing in the bins from \<open>b\<close> on fits, or
  bin \<open>b'\<close> and position \<open>i\<close> are the first that fit.
\<close>

lemma find_bin_cases:
  fixes rb :: nat
  assumes "length (bins st) = 21" "\<forall>b<21. \<forall>x\<in>set (bins st ! b). \<exists>h<length (chunks st). x = int h"
  defines "fits \<equiv> \<lambda>x. rb \<le> c_size (ck st (nat x))"
  shows "(find_bin st rb b = Inr None \<and> (\<forall>b'<21. b \<le> b' \<longrightarrow> (\<forall>x\<in>set (bins st ! b'). \<not> fits x))) \<or>
    (\<exists>b' i. find_bin st rb b = Inr (Some (b', i)) \<and> b \<le> b' \<and> b' < 21 \<and> i < length (bins st ! b') \<and>
       fits (bins st ! b' ! i) \<and> (\<forall>j<i. \<not> fits (bins st ! b' ! j)) \<and>
       (\<forall>c<b'. b \<le> c \<longrightarrow> (\<forall>x\<in>set (bins st ! c). \<not> fits x)))"
proof (induction "21 - b" arbitrary: b rule: less_induct)
  case less
  show ?case
  proof (cases "b < 21")
    case False
    then show ?thesis by (subst find_bin.simps) (simp add: kNumBins_def)
  next
    case True
    let ?i = "length (takeWhile (\<lambda>x. \<not> fits x) (bins st ! b))"
    have step: "find_bin st rb b = (if \<exists>x\<in>set (bins st ! b). fits x then Inr (Some (b, ?i))
        else find_bin st rb (b + 1))"
      using True assms(2) find_in_bin_eq [of "bins st ! b" st rb 0]
      by (subst find_bin.simps) (simp add: kNumBins_def fits_def)
    show ?thesis
    proof (cases "\<exists>x\<in>set (bins st ! b). fits x")
      case fit: True
      then have i: "?i < length (bins st ! b)"
        by (metis (mono_tags, lifting) length_takeWhile_le le_neq_implies_less set_takeWhileD takeWhile_eq_take take_all_iff order_refl)
      then have "fits (bins st ! b ! ?i)" using nth_length_takeWhile by blast
      moreover have "\<not> fits (bins st ! b ! j)" if "j < ?i" for j
        using that nth_mem [OF that] set_takeWhileD takeWhile_nth [OF that] by metis
      ultimately show ?thesis using step fit i True by (intro disjI2 exI [of _ b] exI [of _ ?i]) auto
    next
      case nofit: False
      have "21 - (b + 1) < 21 - b" using True by simp
      note IH = less [OF this]
      have ext: "b \<le> c \<Longrightarrow> c = b \<or> b + 1 \<le> c" for c by auto
      show ?thesis using IH
      proof (elim disjE exE conjE)
        fix b' i assume "find_bin st rb (b + 1) = Inr (Some (b', i))" "b + 1 \<le> b'" "b' < 21"
          "i < length (bins st ! b')" "fits (bins st ! b' ! i)" "\<forall>j<i. \<not> fits (bins st ! b' ! j)"
          "\<forall>c<b'. b + 1 \<le> c \<longrightarrow> (\<forall>x\<in>set (bins st ! c). \<not> fits x)"
        then show ?thesis using step nofit ext by (intro disjI2 exI [of _ b'] exI [of _ i]) auto
      qed (use step nofit ext in \<open>auto intro!: disjI1\<close>)
    qed
  qed
qed

text \<open>\<open>best_fit st fl rb n\<close>: chunk \<open>n\<close> is the smallest free chunk that holds \<open>rb\<close> bytes,
  the one with the lowest address if there are several.\<close>

definition free_chunks :: "nat list \<Rightarrow> bfc \<Rightarrow> nat set" where
  "free_chunks fl st = {h \<in> live fl st. \<not> in_use (ck st h)}"

definition best_fit :: "nat list \<Rightarrow> bfc \<Rightarrow> nat \<Rightarrow> nat \<Rightarrow> bool" where
  "best_fit fl st rb n \<longleftrightarrow> n \<in> free_chunks fl st \<and> rb \<le> c_size (ck st n) \<and>
     (\<forall>k\<in>free_chunks fl st. rb \<le> c_size (ck st k) \<longrightarrow> k = n \<or>
        c_size (ck st n) < c_size (ck st k) \<or>
        c_size (ck st n) = c_size (ck st k) \<and> c_ptr (ck st n) < c_ptr (ck st k))"

lemma find_bin_best_fit:
  assumes inv: "inv {} fl st" and rb: "256 \<le> rb"
  shows "(find_bin st rb (BinNumForSize rb) = Inr None \<and> (\<forall>k\<in>free_chunks fl st. c_size (ck st k) < rb)) \<or>
    (\<exists>b i n. find_bin st rb (BinNumForSize rb) = Inr (Some (b, i)) \<and> b < 21 \<and> i < length (bins st ! b) \<and>
       bins st ! b ! i = int n \<and> best_fit fl st rb n)"
proof -
  note H = heap_okD [OF invD(1) [OF inv]]
  have bins: "length (bins st) = 21" "\<And>b. b < 21 \<Longrightarrow> sorted_wrt (cmp (ck st)) (bins st ! b)"
    "\<And>b. b < 21 \<Longrightarrow> set (bins st ! b) = {int h |h. h \<in> live fl st \<and> c_bin_num (ck st h) = int b}"
    using H(7) by (auto simp: bins_ok_def)
  have valid: "\<forall>b<21. \<forall>x\<in>set (bins st ! b). \<exists>h<length (chunks st). x = int h"
    using bins(3) live_less by fastforce
  have free: "k \<in> live fl st" "k \<in> free_chunks fl st \<Longrightarrow> int k \<in> set (bins st ! BinNumForSize (c_size (ck st k)))"
    "BinNumForSize (c_size (ck st k)) < 21" if "k \<in> free_chunks fl st" for k
  proof -
    show k: "k \<in> live fl st" using that by (simp add: free_chunks_def)
    show b: "BinNumForSize (c_size (ck st k)) < 21"
      using chunk_bounds [OF H(1,4) k] BinNumForSize_range(1) by simp
    show "int k \<in> set (bins st ! BinNumForSize (c_size (ck st k)))"
      using bins(3) [OF b] H(8) that by (auto simp: binned_def free_chunks_def)
  qed
  have mono: "BinNumForSize rb \<le> BinNumForSize (c_size (ck st k))"
    if "k \<in> free_chunks fl st" "rb \<le> c_size (ck st k)" for k
    using that chunk_bounds(4) [OF H(1,4) free(1) [OF that(1)]] rb by (intro BinNumForSize_mono) auto
  from find_bin_cases [OF bins(1) valid, of rb "BinNumForSize rb"] show ?thesis
  proof (elim disjE exE conjE)
    assume none: "find_bin st rb (BinNumForSize rb) = Inr None"
      "\<forall>b'<21. BinNumForSize rb \<le> b' \<longrightarrow> (\<forall>x\<in>set (bins st ! b'). \<not> rb \<le> c_size (ck st (nat x)))"
    have "c_size (ck st k) < rb" if "k \<in> free_chunks fl st" for k
      using none(2) free [OF that] mono [OF that] that by (metis nat_int not_le)
    then show ?thesis using none(1) by blast
  next
    fix b i assume s: "find_bin st rb (BinNumForSize rb) = Inr (Some (b, i))" "BinNumForSize rb \<le> b"
      "b < 21" "i < length (bins st ! b)" "rb \<le> c_size (ck st (nat (bins st ! b ! i)))"
      "\<forall>j<i. \<not> rb \<le> c_size (ck st (nat (bins st ! b ! j)))"
      "\<forall>c<b. BinNumForSize rb \<le> c \<longrightarrow> (\<forall>x\<in>set (bins st ! c). \<not> rb \<le> c_size (ck st (nat x)))"
    have "bins st ! b ! i \<in> set (bins st ! b)" using s(4) by simp
    then obtain n where n: "n \<in> live fl st" "bins st ! b ! i = int n" "c_bin_num (ck st n) = int b"
      using bins(3) [OF s(3)] by auto
    have nf: "n \<in> free_chunks fl st" "BinNumForSize (c_size (ck st n)) = b"
      using H(8) n by (auto simp: binned_def free_chunks_def split: if_splits)
    have "k = n \<or> cmp (ck st) (int n) (int k)"
      if k: "k \<in> free_chunks fl st" "rb \<le> c_size (ck st k)" for k
    proof -
      let ?bk = "BinNumForSize (c_size (ck st k))"
      have "\<not> ?bk < b" using s(7) mono [OF k] free(2) [OF k(1,1)] k(2) by force
      then consider "?bk = b" | "b < ?bk" by linarith
      then show ?thesis
      proof cases
        case 1
        then obtain j where j: "j < length (bins st ! b)" "bins st ! b ! j = int k"
          using free(2) [OF k(1,1)] by (metis in_set_conv_nth)
        have "\<not> j < i" using s(6) j(2) k(2) by force
        then show ?thesis
          using j n(2) s(4) sorted_wrt_nth_less [OF bins(2) [OF s(3)], of i j] by (cases "i = j") auto
      next
        case 2
        then have "BinNumForSize (c_size (ck st n)) < ?bk" using nf(2) by simp
        then have "c_size (ck st n) < c_size (ck st k)"
          by (rule BinNumForSize_less_imp_less [OF chunk_bounds(3) [OF H(1,4) n(1)]
                chunk_bounds(3) [OF H(1,4) free(1) [OF k(1)]] chunk_bounds(4) [OF H(1,4) n(1)]
                chunk_bounds(4) [OF H(1,4) free(1) [OF k(1)]]])
        then show ?thesis by (simp add: cmp_def)
      qed
    qed
    then have "best_fit fl st rb n" using nf(1) s(5) n(2) by (auto simp: best_fit_def cmp_def)
    with s(1,3,4) n(2) show ?thesis by (intro disjI2 exI [of _ b] exI [of _ i] exI [of _ n] conjI)
  qed
qed

lemma chunk_size_le:
  assumes "regions_ok rs" "placed C (spans rs) L" "h \<in> L"
  shows "c_size (C h) \<le> 2 ^ 39"
proof -
  obtain a n where an: "(a, n) \<in> set (spans rs)" "placed_in (a, n) (C h)" using assms by (auto simp: placed_def)
  have "n \<le> 2 ^ 39" using assms(1) an(1) by (auto simp: regions_ok_def region_ok_def spans_def)
  then show ?thesis using an(2) by (simp add: placed_in_def)
qed

text \<open>The last part of \<open>FindChunkPtr\<close>, once the chunk has been taken out of its bin and split.\<close>

lemma finish_FindChunkPtr:
  assumes "n < length (chunks st)"
  shows "run_bind (modify_chunk (int n) (\<lambda>c. c\<lparr>c_requested_size := num,
             c_allocation_id := next_allocation_id st\<rparr>) st) (\<lambda>st.
         run_bind (ChunkFromHandle st (int n)) (\<lambda>chunk.
         Inr (c_ptr chunk, st\<lparr>next_allocation_id := next_allocation_id st + 1,
             stats := update_stats (c_size chunk) (stats st)\<rparr>))) =
    Inr (c_ptr (ck st n), mark_used n num st)"
  using assms by (simp add: run_simps mark_used_def)

definition given_size :: "nat \<Rightarrow> chunk \<Rightarrow> nat" where
  "given_size rb c = (if 2 * rb \<le> c_size c then rb else c_size c)"

lemma FindChunkPtr_found:
  assumes inv: "inv {} fl st" and rb: "256 dvd rb" "256 \<le> rb" and num: "0 < num" "num \<le> rb"
    and f: "find_bin st rb b0 = Inr (Some (b, i))" "b < 21" "i < length (bins st ! b)"
      "bins st ! b ! i = int n" "rb \<le> c_size (ck st n)"
  obtains fl' st' where "FindChunkPtr b0 rb num st = Inr (c_ptr (ck st n), st')"
    "inv {} fl' st'" "same_env st st'" "allocation st (c_ptr (ck st n)) = None"
    "allocation st' = (allocation st)(c_ptr (ck st n) \<mapsto> (given_size rb (ck st n), num, next_allocation_id st))"
    "next_allocation_id st' = next_allocation_id st + 1"
    "stats st' = update_stats (given_size rb (ck st n)) (stats st)"
proof -
  note H = heap_okD [OF invD(1) [OF inv]]
  obtain n' where n': "n' \<in> live fl st" "bins st ! b ! i = int n'" "\<not> in_use (ck st n')"
    "RemoveFreeChunkIterFromBin b i st = Inr (unbin n' st)"
    using RemoveFreeChunkIterFromBin_eq [OF inv f(2,3)] by blast
  have n: "n \<in> live fl st" "\<not> in_use (ck st n)" "RemoveFreeChunkIterFromBin b i st = Inr (unbin n st)"
    "n \<notin> {}" using n' f(4) by auto
  note u = unbin_ok [OF inv n(1,2,4)] and len = live_less [OF n(1)]
  have C: "ck (unbin n st) = (ck st)(n := (ck st n)\<lparr>c_bin_num := - 1\<rparr>)" using unbin_ck [OF len] .
  have nx: "in_use (ck (unbin n st) k)" if "c_next (ck (unbin n st) n) = int k" for k
  proof -
    have "in_use (ck st k)" using H(9) that n C by (auto simp: coalesced_def)
    then show ?thesis using n(2) by (cases "k = n") (auto simp: C in_use_def)
  qed
  have "c_size (ck st n) \<le> 2 ^ 39" using chunk_size_le [OF H(1,4) n(1)] .
  then have dbl: "mul_sz rb 2 = 2 * rb" using f(5) by simp
  have "\<exists>fl2 st2. (if c_size (ck st n) \<ge> mul_sz rb 2 then SplitChunk (int n) rb (unbin n st)
      else Inr (unbin n st)) = Inr st2 \<and> inv {n} fl2 st2 \<and> quiet fl st fl2 st2 \<and>
      c_ptr (ck st2 n) = c_ptr (ck st n) \<and> c_size (ck st2 n) = given_size rb (ck st n)"
  proof (cases "2 * rb \<le> c_size (ck st n)")
    case True
    have "rb < c_size (ck (unbin n st) n)" "0 < rb" using True rb(2) C by auto
    then obtain fl2 st2 where "SplitChunk (int n) rb (unbin n st) = Inr st2" "inv {n} fl2 st2"
      "quiet fl (unbin n st) fl2 st2" "c_ptr (ck st2 n) = c_ptr (ck (unbin n st) n)" "c_size (ck st2 n) = rb"
      using SplitChunk_ok [OF u(1), of n rb] rb(1) nx by blast
    then show ?thesis using True dbl quiet_trans [OF u(2)] by (auto simp: given_size_def C)
  next
    case False
    then show ?thesis using u dbl C by (auto simp: given_size_def)
  qed
  then obtain fl2 st2 where s: "(if c_size (ck st n) \<ge> mul_sz rb 2 then SplitChunk (int n) rb (unbin n st)
      else Inr (unbin n st)) = Inr st2" "inv {n} fl2 st2" "quiet fl st fl2 st2"
    "c_ptr (ck st2 n) = c_ptr (ck st n)" "c_size (ck st2 n) = given_size rb (ck st n)" by blast
  have "n \<in> live fl2 st2" using heap_okD(8) [OF invD(1) [OF s(2)]] by (simp add: binned_def)
  note len2 = live_less [OF this]
  have "num \<le> c_size (ck st2 n)" using s(5) f(5) num(2) by (simp add: given_size_def)
  note m = mark_used_ok [OF s(2) num(1) this]
  have q: "allocation st2 = allocation st" using allocation_quiet [OF inv s(2,3)] .
  have "FindChunkPtr b0 rb num st = Inr (c_ptr (ck st2 n), mark_used n num st2)"
    by (simp add: FindChunkPtr_def ChunkFromHandle_int [OF len] Let_def f(1,4) n(3) s(1)
        finish_FindChunkPtr [OF len2] cong: if_cong split del: if_split)
  then show ?thesis
    using that [of "mark_used n num st2" fl2] m q s(4,5) same_env_trans [OF quiet_same_env [OF s(3)]] quiet_same [OF s(3)]
    by (simp add: mark_used_def)
qed

lemma FindChunkPtr_cases:
  assumes inv: "inv {} fl st" and rb: "256 dvd rb" "256 \<le> rb" and num: "0 < num" "num \<le> rb"
  obtains
    (none) "FindChunkPtr (BinNumForSize rb) rb num st = Inr (0, st)" "\<forall>k\<in>free_chunks fl st. c_size (ck st k) < rb"
  | (found) n fl' st' where "best_fit fl st rb n"
    "FindChunkPtr (BinNumForSize rb) rb num st = Inr (c_ptr (ck st n), st')"
    "inv {} fl' st'" "same_env st st'" "allocation st (c_ptr (ck st n)) = None"
    "allocation st' = (allocation st)(c_ptr (ck st n) \<mapsto> (given_size rb (ck st n), num, next_allocation_id st))"
    "next_allocation_id st' = next_allocation_id st + 1"
    "stats st' = update_stats (given_size rb (ck st n)) (stats st)"
proof -
  from find_bin_best_fit [OF inv rb(2)] show ?thesis
  proof (elim disjE exE conjE)
    assume "find_bin st rb (BinNumForSize rb) = Inr None" "\<forall>k\<in>free_chunks fl st. c_size (ck st k) < rb"
    then show ?thesis by (intro none) (simp add: FindChunkPtr_def)
  next
    fix b i n assume f: "find_bin st rb (BinNumForSize rb) = Inr (Some (b, i))" "b < 21"
      "i < length (bins st ! b)" "bins st ! b ! i = int n" and best: "best_fit fl st rb n"
    then have "rb \<le> c_size (ck st n)" by (simp add: best_fit_def)
    from FindChunkPtr_found [OF inv rb num f this] show ?thesis using found [OF best] by metis
  qed
qed

end
