(* ===== verification/BFC_Alloc.thy ===== *)
theory BFC_Alloc
  imports BFC_Ops
begin

text \<open>
  Growing the allocator by a region (\<open>Extend\<close>) and the two public operations
  \<open>AllocateRawInternal\<close> and \<open>DeallocateRawInternal\<close>.
\<close>

section \<open>What is asked of the sub-allocator\<close>

text \<open>
  Whatever has been asked before, an answer other than null is the address of a
  block that ends inside the address space and overlaps no block granted earlier.
\<close>

definition sub_alloc_ok :: "sub_alloc \<Rightarrow> bool" where
  "sub_alloc_ok alloc \<longleftrightarrow> (\<forall>log n. alloc log n \<noteq> 0 \<longrightarrow> alloc log n + n < 2 ^ 64 \<and>
     (\<forall>(m, q)\<in>set log. q \<noteq> 0 \<longrightarrow> alloc log n + n \<le> q \<or> q + m \<le> alloc log n))"

lemma sub_alloc_okD:
  assumes "sub_alloc_ok alloc" "alloc log n \<noteq> 0"
  shows "alloc log n + n < 2 ^ 64"
    and "(m, q) \<in> set log \<Longrightarrow> q \<noteq> 0 \<Longrightarrow> alloc log n + n \<le> q \<or> q + m \<le> alloc log n"
  using assms unfolding sub_alloc_ok_def by blast+

section \<open>Obtaining memory\<close>

text \<open>
  \<open>fresh_block st p c\<close>: a block of \<open>c\<close> bytes at \<open>p\<close> that overlaps none of the blocks
  granted in \<open>st\<close>.
\<close>

definition fresh_block :: "bfc \<Rightarrow> nat \<Rightarrow> nat \<Rightarrow> bool" where
  "fresh_block st p c \<longleftrightarrow> 0 < p \<and> p + c < 2 ^ 64 \<and>
     (\<forall>(m, q)\<in>set (sub_log st). q \<noteq> 0 \<longrightarrow> p + c \<le> q \<or> q + m \<le> p)"

lemma fresh_block_alloc:
  assumes "sub_alloc_ok alloc" "p = alloc (sub_log st @ map (\<lambda>b. (b, 0)) tried) c" "p \<noteq> 0"
  shows "fresh_block st p c"
  using sub_alloc_okD [OF assms(1), of "sub_log st @ map (\<lambda>b. (b, 0)) tried" c] assms(2,3)
  unfolding fresh_block_def by auto

lemma obtain_region_cases:
  assumes ok: "sub_alloc_ok alloc" and b: "256 dvd bytes" "0 < bytes" "bytes < 2 ^ 63"
  obtains
    (never) "obtain_region alloc rb bytes st = Inl Never_returns" "rb < 2304" "\<not> started_backpedal st"
  | (failed) more bytes' bp where "obtain_region alloc rb bytes st =
      Inr (0, bytes', st\<lparr>sub_log := sub_log st @ more, started_backpedal := bp\<rparr>)"
      "bp"
  | (got) p z c more bp where "obtain_region alloc rb bytes st =
      Inr (p, z, st\<lparr>sub_log := sub_log st @ more, started_backpedal := bp\<rparr>)"
      "fresh_block st p c" "(c, p) \<in> set more" "z \<le> c" "z \<le> bytes" "256 dvd z" "0 < z"
      "z = bytes \<and> bp = started_backpedal st \<or> bp \<and> \<not> started_backpedal st"
proof -
  define p where "p = alloc (sub_log st) bytes"
  define st1 where "st1 = st\<lparr>sub_log := sub_log st @ [(bytes, p)]\<rparr>"
  show ?thesis
  proof (cases "p = 0 \<and> \<not> started_backpedal st")
    case False
    then have eq: "obtain_region alloc rb bytes st =
        Inr (p, bytes, st\<lparr>sub_log := sub_log st @ [(bytes, p)], started_backpedal := started_backpedal st\<rparr>)"
      by (auto simp: obtain_region_def p_def Let_def)
    show ?thesis
    proof (cases "p = 0")
      case True
      then show ?thesis using failed [where bytes' = bytes and more = "[(bytes, 0)]" and bp = True] eq False by simp
    next
      case nz: False
      have "fresh_block st p bytes" using fresh_block_alloc [OF ok, of p st "[]" bytes] nz by (simp add: p_def)
      then show ?thesis using got [OF eq, of bytes] b by auto
    qed
  next
    case True
    note u = backpedal_unit [OF b]
    have u3: "backpedal bytes < 2 ^ 63" using u(1) b(3) by linarith
    let ?log = "sub_log st @ [(bytes, 0)]"
    show ?thesis
    proof (cases "backpedal_loop alloc rb 0 (backpedal bytes) ?log")
      case None
      then have "obtain_region alloc rb bytes st = Inl Never_returns"
        using True by (simp add: obtain_region_def p_def Let_def)
      moreover have "rb < 2304" using None backpedal_loop_terminates [OF _ u(2) u3, of rb alloc 0 ?log] by force
      ultimately show ?thesis using True by (intro never) auto
    next
      case (Some r)
      then obtain m z log where r: "backpedal_loop alloc rb 0 (backpedal bytes) ?log = Some (m, z, log)"
        by (cases r) auto
      then have eq: "obtain_region alloc rb bytes st = Inr (m, z, st\<lparr>sub_log := log, started_backpedal := True\<rparr>)"
        using True by (simp add: obtain_region_def p_def Let_def)
      note att = backpedal_loop_attempts [OF r]
      note z = attempts_bytes [OF att u(2,3) u3] and lg = attempts_log [OF att u(2,3) u3]
      show ?thesis
      proof (cases "m = 0")
        case m0: True
        then obtain tried where "log = ?log @ map (\<lambda>b. (b, 0)) tried" using lg by auto
        then show ?thesis using failed [where bytes' = z and more = "(bytes, 0) # map (\<lambda>b. (b, 0)) tried" and bp = True] eq m0 by simp
      next
        case False
        then obtain tried c where t: "log = ?log @ map (\<lambda>b. (b, 0)) tried @ [(c, m)]"
          "m = alloc (?log @ map (\<lambda>b. (b, 0)) tried) c" "z \<le> c" using lg by auto
        have fresh: "fresh_block st m c"
          using fresh_block_alloc [OF ok, of m st "bytes # tried" c] t(2) False by simp
        have "obtain_region alloc rb bytes st = Inr (m, z, st\<lparr>sub_log := sub_log st @
            ((bytes, 0) # map (\<lambda>b. (b, 0)) tried @ [(c, m)]), started_backpedal := True\<rparr>)"
          using eq t(1) by simp
        from got [OF this fresh] show ?thesis using t(3) z u(1) True by auto
      qed
    qed
  qed
qed

section \<open>Adding the region\<close>

lemma InsertFreeChunkIntoBin_visitors:
  "run_bind (InsertFreeChunkIntoBin h st) (\<lambda>st. Inr (st\<lparr>visitor_calls := visitor_calls st @
      map (\<lambda>visitor. (visitor, p, z)) (region_visitors st)\<rparr>)) =
    InsertFreeChunkIntoBin h (st\<lparr>visitor_calls := visitor_calls st @
      map (\<lambda>visitor. (visitor, p, z)) (region_visitors st)\<rparr>)"
  by (auto simp: InsertFreeChunkIntoBin_def modify_chunk_def ChunkFromHandle_def CHECK_def
      ChunkComparator_def [abs_def] Let_def)

lemma count_list_calls:
  "count_list (map (\<lambda>v. (v, a, n)) vs) (w, b, m) = (if (b, m) = (a, n) then count_list vs w else 0)"
  by (induction vs) auto

lemma count_list_mset: "count_list xs x = count (mset xs) x"
  by (induction xs) auto

text \<open>The state between the creation of the region's chunk and its insertion into a bin.\<close>

definition new_region_state :: "nat \<Rightarrow> nat \<Rightarrow> nat \<Rightarrow> chunk list \<Rightarrow> int \<Rightarrow> region list \<Rightarrow> bfc \<Rightarrow> bfc" where
  "new_region_state p z n cs f rs st = st\<lparr>total_region_allocated_bytes := total_region_allocated_bytes st + z,
     free_chunks_list := f,
     chunks := cs[n := (cs ! n)\<lparr>c_ptr := p, c_size := z, c_allocation_id := - 1, c_prev := - 1, c_next := - 1\<rparr>],
     regions := rs,
     visitor_calls := visitor_calls st @ map (\<lambda>v. (v, p, z)) (region_visitors st)\<rparr>"

text \<open>The conditions under which a region may be added.\<close>

definition room_for :: "nat \<Rightarrow> nat \<Rightarrow> bfc \<Rightarrow> bool" where
  "room_for p z st \<longleftrightarrow> 0 < p \<and> p + z < 2 ^ 64 \<and> 256 dvd z \<and> 0 < z \<and>
     total_region_allocated_bytes st + z \<le> memory_limit st \<and> (\<exists>m\<ge>z. (m, p) \<in> set (sub_log st)) \<and>
     (\<forall>(a, m)\<in>set (spans (regions st)). a + m \<le> p \<or> p + z \<le> a)"

definition grown_ok :: "nat \<Rightarrow> bfc \<Rightarrow> bool" where
  "grown_ok z st \<longleftrightarrow> curr_region_allocation_bytes st \<le>
     (if (memory_limit st - (total_region_allocated_bytes st + z)) div 256 * 256 = 0 then 8
      else if started_backpedal st then 4 else 2) * 2 ^ 39"

definition pre_inv :: "nat list \<Rightarrow> bfc \<Rightarrow> bool" where
  "pre_inv fl st \<longleftrightarrow> heap_ok {} (ck st) (live fl st) (regions st) (bins st) \<and> free_ok fl st \<and>
     acct_ok (ck st) (users (ck st) (live fl st)) (next_allocation_id st) (stats st) \<and>
     total_region_allocated_bytes st = sum_list (map snd (spans (regions st))) \<and>
     memory_limit st < 2 ^ 39 \<and> 256 * length (chunks st) \<le> total_region_allocated_bytes st \<and>
     256 dvd curr_region_allocation_bytes st \<and> 0 < curr_region_allocation_bytes st \<and>
     granted_ok st \<and> visited_ok st"

lemma new_region_spans:
  assumes pre: "pre_inv fl st" and room: "room_for p z st"
  defines "rs1 \<equiv> AddAllocationRegion p z (regions st)"
  obtains rs2 where "set_handle p (int n) rs1 = Inr rs2" "regions_ok rs2"
    "mset (spans rs2) = add_mset (p, z) (mset (spans (regions st)))"
    "\<And>q. aligned (spans (regions st)) q \<Longrightarrow> get_handle rs2 q = get_handle (regions st) q"
    "\<And>q. p \<le> q \<Longrightarrow> q < p + z \<Longrightarrow> 256 dvd q - p \<Longrightarrow> get_handle rs2 q = Inr (if q = p then int n else - 1)"
proof -
  have ok: "regions_ok (regions st)" using pre by (auto simp: pre_inv_def heap_ok_def)
  have R: "0 < p" "p + z < 2 ^ 64" "256 dvd z" "0 < z" "z \<le> 2 ^ 39"
    "\<forall>(a, m)\<in>set (spans (regions st)). a + m \<le> p \<or> p + z \<le> a"
    using room pre by (auto simp: room_for_def pre_inv_def)
  note A = AddAllocationRegion_law [OF ok R, folded rs1_def]
  have al: "aligned (spans rs1) p" using A(2) R(4) by (auto simp: aligned_def)
  obtain rs2 where S: "set_handle p (int n) rs1 = Inr rs2" "regions_ok rs2" "spans rs2 = spans rs1"
    "\<And>q. aligned (spans rs1) q \<Longrightarrow> get_handle rs2 q = (if q = p then Inr (int n) else get_handle rs1 q)"
    using set_handle_law [OF A(1) al, of "int n"] by blast
  show ?thesis
  proof (rule that [OF S(1,2)])
    show "mset (spans rs2) = add_mset (p, z) (mset (spans (regions st)))" using A(6) S(3) by simp
  next
    fix q assume q: "aligned (spans (regions st)) q"
    then have "aligned (spans rs1) q" using A(2) by (auto simp: aligned_def)
    moreover have "q \<noteq> p" using q R(4,6) by (fastforce simp: aligned_def)
    ultimately show "get_handle rs2 q = get_handle (regions st) q" using S(4) A(4) [OF q] by simp
  next
    fix q assume q: "p \<le> q" "q < p + z" "256 dvd q - p"
    then have "aligned (spans rs1) q" using A(2) by (auto simp: aligned_def)
    then show "get_handle rs2 q = Inr (if q = p then int n else - 1)" using S(4) A(5) [OF q(1,2)] by simp
  qed
qed

lemma new_region_inv:
  assumes pre: "pre_inv fl st" and room: "room_for p z st" and grown: "grown_ok z st"
    and n: "n \<notin> live fl st" "n < length cs" "{..<length cs} - set fl' = insert n (live fl st)"
      "\<forall>k<length (chunks st). cs ! k = chunks st ! k" "c_bin_num (cs ! n) = - 1"
      "distinct fl'" "set fl' \<subseteq> {..<length cs}" "flist ((!) cs) f fl'" "n \<notin> set fl'"
      "length cs \<le> length (chunks st) \<or> fl' = []"
    and rs: "regions_ok rs" "mset (spans rs) = add_mset (p, z) (mset (spans (regions st)))"
      "\<And>q. aligned (spans (regions st)) q \<Longrightarrow> get_handle rs q = get_handle (regions st) q"
      "\<And>q. p \<le> q \<Longrightarrow> q < p + z \<Longrightarrow> 256 dvd q - p \<Longrightarrow> get_handle rs q = Inr (if q = p then int n else - 1)"
  defines "st' \<equiv> new_region_state p z n cs f rs st"
  shows "inv {n} fl' st'" and "whole_chunk p z (ck st' n)"
    and "users (ck st') (live fl' st') = users (ck st) (live fl st)"
    and "\<And>h. h \<in> live fl st \<Longrightarrow> ck st' h = ck st h"
proof -
  have P: "heap_ok {} (ck st) (live fl st) (regions st) (bins st)"
    "acct_ok (ck st) (users (ck st) (live fl st)) (next_allocation_id st) (stats st)"
    "granted_ok st" "visited_ok st" using pre by (auto simp: pre_inv_def)
  have R: "0 < z" "256 dvd z" "\<And>a m. (a, m) \<in> set (spans (regions st)) \<Longrightarrow> a + m \<le> p \<or> p + z \<le> a"
    using room by (auto simp: room_for_def)
  have sp: "set (spans rs) = insert (p, z) (set (spans (regions st)))"
    using rs(2) by (metis set_mset_add_mset_insert set_mset_mset)
  have sum: "sum_list (map snd (spans rs)) = sum_list (map snd (spans (regions st))) + z"
    using rs(2) by (metis (no_types, lifting) add.commute image_mset_add_mset mset_map snd_conv sum_mset.add_mset sum_mset_sum_list)
  have len: "length (chunks st') = length cs" by (simp add: st'_def new_region_state_def)
  have live: "live fl' st' = insert n (live fl st)" using n(3) by (simp add: live_def len)
  have C: "ck st' = ((!) cs)(n := (cs ! n)\<lparr>c_ptr := p, c_size := z, c_allocation_id := - 1, c_prev := - 1, c_next := - 1\<rparr>)"
    using n(2) by (simp add: st'_def new_region_state_def nth_update_fun)
  show whole: "whole_chunk p z (ck st' n)" using n(5) by (simp add: whole_chunk_def C in_use_def)
  show same: "ck st' h = ck st h" if "h \<in> live fl st" for h
    using that n(1,4) live_less [OF that] by (auto simp: C)
  show U: "users (ck st') (live fl' st') = users (ck st) (live fl st)"
    using same whole by (auto simp: users_def live whole_chunk_def)
  have old: "heap_ok {} (ck st') (live fl st) (regions st) (bins st)" by (rule heap_cong [OF P(1) same])
  have "heap_ok {n} (ck st') (insert n (live fl st)) rs (bins st)"
    by (rule heap_add_region [OF old n(1) whole R(1,2) rs(1) sp sum]) (use rs(3,4) R(3) in auto)
  then have heap: "heap_ok {n} (ck st') (live fl' st') (regions st') (bins st')"
    by (simp add: live) (simp add: st'_def new_region_state_def)
  have free: "free_ok fl' st'"
  proof -
    have "flist (ck st') f fl'" using n(8,9) by (auto simp: C intro: flist_cong)
    then show ?thesis using n(6,7) len by (simp add: free_ok_def) (simp add: st'_def new_region_state_def)
  qed
  have "acct_ok (ck st') (users (ck st) (live fl st)) (next_allocation_id st) (stats st)"
    by (rule acct_cong [OF P(2)]) (use same in \<open>auto simp: users_def\<close>)
  then have acct: "acct_ok (ck st') (users (ck st') (live fl' st')) (next_allocation_id st') (stats st')"
    unfolding U by (simp add: st'_def new_region_state_def)
  have f: "regions st' = rs" "total_region_allocated_bytes st' = total_region_allocated_bytes st + z"
    "sub_log st' = sub_log st" "memory_limit st' = memory_limit st" "region_visitors st' = region_visitors st"
    "curr_region_allocation_bytes st' = curr_region_allocation_bytes st" "started_backpedal st' = started_backpedal st"
    "visitor_calls st' = visitor_calls st @ map (\<lambda>v. (v, p, z)) (region_visitors st)"
    by (simp_all add: st'_def new_region_state_def)
  have gr: "granted_ok st'"
    using P(3) room by (auto simp: granted_ok_def f sp room_for_def)
  have tot: "total_region_allocated_bytes st' = sum_list (map snd (spans rs))" "memory_limit st < 2 ^ 39"
    "256 * length (chunks st) \<le> total_region_allocated_bytes st"
    using pre by (simp_all add: f sum pre_inv_def)
  have count: "256 * length (chunks st') \<le> total_region_allocated_bytes st'"
    using n(10)
  proof
    assume "fl' = []"
    then show ?thesis using heap_card [OF heap] by (simp add: live_def tot(1) f)
  next
    assume "length cs \<le> length (chunks st)"
    then show ?thesis using tot(3) by (simp add: len f(2))
  qed
  have curr: "curr_region_allocation_bytes st' \<le>
      (if available st' = 0 then 8 else if started_backpedal st' then 4 else 2) * 2 ^ 39"
    using grown unfolding grown_ok_def available_def f .
  have lim: "limits_ok st'"
    unfolding limits_ok_def using count curr tot room pre
    by (intro conjI) (simp_all add: f room_for_def pre_inv_def)
  have vis: "visited_ok st'"
  proof -
    have "count_list (spans rs) s = count_list (spans (regions st)) s + (if s = (p, z) then 1 else 0)" for s
      using rs(2) by (simp add: count_list_mset)
    then show ?thesis
      using P(4) by (auto simp: visited_ok_def f count_list_calls count_list_append algebra_simps)
  qed
  show "inv {n} fl' st'" using heap free acct lim gr vis by (simp add: inv_def)
qed

text \<open>The new region has one free chunk; the allocations in use stay as they are.\<close>

definition region_added :: "nat list \<Rightarrow> bfc \<Rightarrow> nat \<Rightarrow> nat list \<Rightarrow> bfc \<Rightarrow> bool" where
  "region_added fl st z fl' st' \<longleftrightarrow>
     users (ck st') (live fl' st') = users (ck st) (live fl st) \<and>
     (\<forall>h\<in>users (ck st) (live fl st). c_ptr (ck st' h) = c_ptr (ck st h) \<and>
        c_size (ck st' h) = c_size (ck st h) \<and> c_requested_size (ck st' h) = c_requested_size (ck st h) \<and>
        c_allocation_id (ck st' h) = c_allocation_id (ck st h)) \<and>
     (\<exists>n\<in>free_chunks fl' st'. c_size (ck st' n) = z) \<and>
     stats st' = stats st \<and> next_allocation_id st' = next_allocation_id st \<and>
     memory_limit st' = memory_limit st \<and> region_visitors st' = region_visitors st \<and>
     started_backpedal st' = started_backpedal st"

lemma add_region_eq:
  assumes pre: "pre_inv fl st" and room: "room_for p z st" and grown: "grown_ok z st"
  obtains n fl' st2 where "inv {n} fl' st2" "whole_chunk p z (ck st2 n)"
    "users (ck st2) (live fl' st2) = users (ck st) (live fl st)"
    "\<And>h. h \<in> live fl st \<Longrightarrow> ck st2 h = ck st h"
    "add_region p z st = InsertFreeChunkIntoBin (int n) st2"
    "stats st2 = stats st" "next_allocation_id st2 = next_allocation_id st"
    "memory_limit st2 = memory_limit st" "region_visitors st2 = region_visitors st"
    "started_backpedal st2 = started_backpedal st"
proof -
  have free: "free_ok fl st" using pre by (simp add: pre_inv_def)
  have lim: "total_region_allocated_bytes st + z < 2 ^ 39" "length (chunks st) < 2 ^ 31"
    using pre room by (auto simp: pre_inv_def room_for_def)
  let ?st1 = "st\<lparr>total_region_allocated_bytes := total_region_allocated_bytes st + z,
    regions := AddAllocationRegion p z (regions st)\<rparr>"
  have free1: "free_ok fl ?st1" and len1: "length (chunks ?st1) < 2 ^ 31"
    using free lim by (simp_all add: free_ok_def)
  have live1: "live fl ?st1 = live fl st" by (simp add: live_def)
  obtain n cs f fl' where A: "AllocateChunk ?st1 = Inr (int n, ?st1\<lparr>chunks := cs, free_chunks_list := f\<rparr>)"
    "n \<notin> live fl ?st1" "n < length cs" "{..<length cs} - set fl' = insert n (live fl ?st1)"
    "\<forall>k<length (chunks ?st1). cs ! k = chunks ?st1 ! k" "length (chunks ?st1) \<le> length cs"
    "\<not> in_use (cs ! n)" "c_bin_num (cs ! n) = - 1"
    "distinct fl'" "set fl' \<subseteq> {..<length cs}" "flist ((!) cs) f fl'" "n \<notin> set fl'"
    "length cs \<le> length (chunks ?st1) \<or> fl' = []"
    by (rule AllocateChunk_ok [OF free1 len1]) (rule that; assumption)
  obtain rs where rs: "set_handle p (int n) (AddAllocationRegion p z (regions st)) = Inr rs" "regions_ok rs"
    "mset (spans rs) = add_mset (p, z) (mset (spans (regions st)))"
    "\<And>q. aligned (spans (regions st)) q \<Longrightarrow> get_handle rs q = get_handle (regions st) q"
    "\<And>q. p \<le> q \<Longrightarrow> q < p + z \<Longrightarrow> 256 dvd q - p \<Longrightarrow> get_handle rs q = Inr (if q = p then int n else - 1)"
    by (rule new_region_spans [OF pre room]) (rule that; assumption)
  note N = new_region_inv [OF pre room grown A(2) [unfolded live1] A(3) A(4) [unfolded live1] _ A(8-12) _ rs(2,3)]
  let ?st2 = "new_region_state p z n cs f rs st"
  have inv: "inv {n} fl' ?st2" "whole_chunk p z (ck ?st2 n)"
    "users (ck ?st2) (live fl' ?st2) = users (ck st) (live fl st)"
    "\<And>h. h \<in> live fl st \<Longrightarrow> ck ?st2 h = ck st h"
    by (rule N; use A(5,13) rs(4,5) in simp)+
  have total: "add_sz (total_region_allocated_bytes st) z = total_region_allocated_bytes st + z"
    using lim(1) by simp
  have eq: "add_region p z st = InsertFreeChunkIntoBin (int n) ?st2"
    using A(1,3) rs(1)
    by (simp add: add_region_def total Let_def run_simps InsertFreeChunkIntoBin_visitors
        kInvalidChunkHandle_def new_region_state_def)
  show ?thesis by (rule that [OF inv eq]) (simp_all add: new_region_state_def)
qed

lemma add_region_ok:
  assumes pre: "pre_inv fl st" and room: "room_for p z st" and grown: "grown_ok z st"
  obtains fl' st' where "add_region p z st = Inr st'" "inv {} fl' st'" "region_added fl st z fl' st'"
proof -
  obtain n fl' st2 where R: "inv {n} fl' st2" "whole_chunk p z (ck st2 n)"
    "users (ck st2) (live fl' st2) = users (ck st) (live fl st)"
    "\<And>h. h \<in> live fl st \<Longrightarrow> ck st2 h = ck st h"
    "add_region p z st = InsertFreeChunkIntoBin (int n) st2"
    "stats st2 = stats st" "next_allocation_id st2 = next_allocation_id st"
    "memory_limit st2 = memory_limit st" "region_visitors st2 = region_visitors st"
    "started_backpedal st2 = started_backpedal st"
    by (rule add_region_eq [OF pre room grown]) (rule that; assumption)
  obtain st' where I: "InsertFreeChunkIntoBin (int n) st2 = Inr st'" "inv ({n} - {n}) fl' st'"
    "quiet fl' st2 fl' st'" "live fl' st' = live fl' st2"
    "ck st' = (ck st2)(n := (ck st2 n)\<lparr>c_bin_num := int (BinNumForSize (c_size (ck st2 n)))\<rparr>)"
    by (rule InsertFreeChunkIntoBin_ok [OF R(1) singletonI])
      (use R(2) in \<open>simp_all add: whole_chunk_def\<close>)
  have "n \<in> live fl' st2" using heap_okD(8) [OF invD(1) [OF R(1)]] by (simp add: binned_def)
  then have "n \<in> free_chunks fl' st'" "c_size (ck st' n) = z"
    using R(2) by (auto simp: free_chunks_def I(4,5) whole_chunk_def in_use_def)
  moreover have "users (ck st2) (live fl' st2) = users (ck st') (live fl' st')"
    and "\<And>h. h \<in> users (ck st2) (live fl' st2) \<Longrightarrow> c_ptr (ck st' h) = c_ptr (ck st2 h) \<and>
        c_size (ck st' h) = c_size (ck st2 h) \<and> c_requested_size (ck st' h) = c_requested_size (ck st2 h) \<and>
        c_allocation_id (ck st' h) = c_allocation_id (ck st2 h)"
    using I(3) by (auto simp: quiet_def)
  moreover have "\<And>h. h \<in> users (ck st) (live fl st) \<Longrightarrow> ck st2 h = ck st h" using R(4) by (simp add: users_def)
  ultimately have "region_added fl st z fl' st'"
    unfolding region_added_def using R(3,6-10) quiet_same [OF I(3)] by auto
  then show ?thesis using that [of st' fl'] R(5) I(1,2) by simp
qed

section \<open>Extend\<close>

text \<open>
  \<open>Extend\<close> leaves the allocations alone and keeps the invariant. If it does not
  return, fewer than 2304 bytes were asked for and this is the first time that
  the sub-allocator failed.
\<close>

definition extended :: "bfc \<Rightarrow> bfc \<Rightarrow> bool" where
  "extended st st' \<longleftrightarrow> allocation st' = allocation st \<and> stats st' = stats st \<and>
     next_allocation_id st' = next_allocation_id st \<and> memory_limit st' = memory_limit st \<and>
     region_visitors st' = region_visitors st"

lemma limits_curr:
  assumes "limits_ok st" "256 \<le> available st"
  shows "curr_region_allocation_bytes st \<le> (if started_backpedal st then 4 else 2) * 2 ^ 39"
    "0 < curr_region_allocation_bytes st"
  using assms by (auto simp: limits_ok_def available_def)

lemma available_bounds:
  assumes "limits_ok st"
  shows "available st + total_region_allocated_bytes st \<le> memory_limit st" "256 dvd available st"
    "available st < 2 ^ 39"
    "(memory_limit st - (total_region_allocated_bytes st + available st)) div 256 = 0"
proof -
  let ?d = "memory_limit st - total_region_allocated_bytes st"
  have T: "total_region_allocated_bytes st \<le> memory_limit st" "memory_limit st < 2 ^ 39"
    using assms by (auto simp: limits_ok_def)
  have "?d div 256 * 256 \<le> ?d" by simp
  then show "available st + total_region_allocated_bytes st \<le> memory_limit st" "available st < 2 ^ 39"
    using T by (auto simp: available_def)
  show "256 dvd available st" by (simp add: available_def)
  have "?d - ?d div 256 * 256 < 256" by (metis minus_div_mult_eq_mod mod_less_divisor zero_less_numeral)
  then show "(memory_limit st - (total_region_allocated_bytes st + available st)) div 256 = 0"
    by (simp add: available_def)
qed

lemma grow_loop_cases:
  assumes "limits_ok st" "256 \<le> rb" "rb \<le> available st"
  obtains cur inc where "grow_loop rb (curr_region_allocation_bytes st) False = Some (cur, inc)"
    "rb \<le> cur" "256 dvd cur" "\<not> inc \<Longrightarrow> cur = curr_region_allocation_bytes st" "inc \<Longrightarrow> cur < 2 * rb"
proof (cases "rb \<le> curr_region_allocation_bytes st")
  case True
  then show ?thesis
    by (intro that [OF grow_loop_done]) (use assms(1) in \<open>simp_all add: limits_ok_def\<close>)
next
  case False
  have pos: "0 < curr_region_allocation_bytes st" using limits_curr [OF assms(1)] assms by simp
  have lt: "curr_region_allocation_bytes st < rb" using False by simp
  have le: "rb \<le> 2 ^ 62" using assms(3) available_bounds(3) [OF assms(1)] by simp
  obtain cur where "grow_loop rb (curr_region_allocation_bytes st) False = Some (cur, True)"
    "rb \<le> cur" "cur < 2 * rb" "curr_region_allocation_bytes st dvd cur"
    using grow_loop_more [OF pos lt le] by blast
  moreover have "256 dvd curr_region_allocation_bytes st" using assms(1) by (simp add: limits_ok_def)
  ultimately show ?thesis by (intro that [of cur True]) (auto intro: dvd_trans)
qed

lemma Extend_unfold:
  assumes lim: "limits_ok st" and g: "grow_loop rb (curr_region_allocation_bytes st) False = Some (cur, inc)"
    and rb: "rb \<le> available st"
  shows "Extend alloc rb st =
    run_bind (obtain_region alloc rb (min cur (available st)) (st\<lparr>curr_region_allocation_bytes := cur\<rparr>))
      (\<lambda>(p, z, st). if p = 0 then Inr (False, st)
        else run_bind (add_region p z (if \<not> inc then st\<lparr>curr_region_allocation_bytes :=
            mul_sz (curr_region_allocation_bytes st) 2\<rparr> else st)) (\<lambda>st. Inr (True, st)))"
proof -
  have "sub_sz (memory_limit st) (total_region_allocated_bytes st) =
      memory_limit st - total_region_allocated_bytes st"
    using lim by (simp add: limits_ok_def)
  then show ?thesis using g rb unfolding Extend_def by (simp add: available_def Let_def split del: if_split)
qed

lemma Extend_none: "limits_ok st \<Longrightarrow> available st < rb \<Longrightarrow> Extend alloc rb st = Inr (False, st)"
  by (auto simp: Extend_def available_def limits_ok_def Let_def)

lemma fresh_block_room:
  assumes inv: "inv X fl st" and f: "fresh_block st p c" and z: "z \<le> c" "256 dvd z" "0 < z" "z \<le> available st"
    and st': "regions st' = regions st" "total_region_allocated_bytes st' = total_region_allocated_bytes st"
      "memory_limit st' = memory_limit st" "(c, p) \<in> set (sub_log st')"
  shows "room_for p z st'"
proof -
  note D = invD [OF inv]
  have "a + m \<le> p \<or> p + z \<le> a" if am: "(a, m) \<in> set (spans (regions st))" for a m
  proof -
    obtain m' where m': "m \<le> m'" "(m', a) \<in> set (sub_log st)" using D(5) am by (auto simp: granted_ok_def)
    have "0 < a" using span_bounds(1) [OF heap_okD(1) [OF D(1)] am] .
    then have "p + c \<le> a \<or> a + m' \<le> p" using f m'(2) by (auto simp: fresh_block_def)
    then show ?thesis using m'(1) z(1) by linarith
  qed
  then show ?thesis
    using f z st' available_bounds(1) [OF D(4)] by (auto simp: room_for_def fresh_block_def)
qed

text \<open>The invariant after the bookkeeping that precedes the new region, or replaces it.\<close>

lemma allocation_cong: "regions st' = regions st \<Longrightarrow> chunks st' = chunks st \<Longrightarrow> allocation st' = allocation st"
  by (intro ext) (auto simp: allocation_def Let_def split: sum.splits)

lemma pre_inv_intro:
  assumes inv: "inv {} fl st"
    and st': "st' = st\<lparr>curr_region_allocation_bytes := cur, sub_log := sub_log st @ extra, started_backpedal := bp\<rparr>"
    and cur: "256 dvd cur" "0 < cur"
  shows "pre_inv fl st'" and "live fl st' = live fl st" and "ck st' = ck st" and "allocation st' = allocation st"
proof -
  show live: "live fl st' = live fl st" and C: "ck st' = ck st" by (simp_all add: st' live_def)
  show "allocation st' = allocation st" by (rule allocation_cong) (simp_all add: st')
  have "granted_ok st'" using invD(5) [OF inv] by (fastforce simp: granted_ok_def st')
  moreover have "visited_ok st'" using invD(6) [OF inv] by (simp add: visited_ok_def st')
  ultimately show "pre_inv fl st'"
    using inv cur unfolding pre_inv_def inv_def live C by (simp add: st' free_ok_def limits_ok_def)
qed

lemma failed_inv:
  assumes inv: "inv {} fl st"
    and st': "st' = st\<lparr>curr_region_allocation_bytes := cur, sub_log := sub_log st @ extra, started_backpedal := True\<rparr>"
    and cur: "256 dvd cur" "0 < cur" "cur \<le> 4 * 2 ^ 39"
  shows "inv {} fl st'"
proof -
  have "available st' = available st" by (simp add: available_def st')
  then have "limits_ok st'" using invD(4) [OF inv] cur by (simp add: limits_ok_def st')
  then show ?thesis using pre_inv_intro [OF inv st' cur(1,2)] by (simp add: inv_def pre_inv_def)
qed

lemma grown_bound:
  assumes lim: "limits_ok st" and rb: "256 \<le> rb" "rb \<le> available st" and cur: "rb \<le> cur"
      "\<not> inc \<Longrightarrow> cur = curr_region_allocation_bytes st" "inc \<Longrightarrow> cur < 2 * rb"
    and z: "z = min cur (available st) \<and> bp = started_backpedal st \<or> bp \<and> \<not> started_backpedal st"
    and st': "st' = st\<lparr>curr_region_allocation_bytes := (if inc then cur else 2 * cur), sub_log := lg, started_backpedal := bp\<rparr>"
  shows "grown_ok z st'" and "cur \<le> 4 * 2 ^ 39"
proof -
  have av: "256 \<le> available st" using rb by simp
  note A = available_bounds [OF lim] and L = limits_curr(1) [OF lim av]
  define T where "T = (2::nat) ^ 39"
  have a: "available st < T" using A(3) by (simp add: T_def)
  have c: "\<not> inc \<Longrightarrow> cur \<le> (if started_backpedal st then 4 else 2) * T" using L cur(2) by (simp add: T_def)
  have i: "inc \<Longrightarrow> cur < 2 * T" using cur(3) rb(2) a by linarith
  show "cur \<le> 4 * 2 ^ 39" using c i unfolding T_def [symmetric] by (cases inc; cases "started_backpedal st") auto
  have "(if inc then cur else 2 * cur) \<le> (if (memory_limit st - (total_region_allocated_bytes st + z)) div 256 * 256 = 0
      then 8 else if bp then 4 else 2) * T"
  proof (cases inc)
    case True
    then show ?thesis using i by auto
  next
    case False
    from z show ?thesis
    proof (elim disjE conjE)
      assume z: "z = min cur (available st)" "bp = started_backpedal st"
      show ?thesis
      proof (cases "cur \<le> available st")
        case True
        then show ?thesis using False a by auto
      next
        case big: False
        then have "z = available st" using z by simp
        then show ?thesis using False A(4) c by (auto split: if_splits)
      qed
    next
      assume "bp" "\<not> started_backpedal st"
      then show ?thesis using False c by auto
    qed
  qed
  moreover have "memory_limit st' = memory_limit st" "started_backpedal st' = bp"
    "total_region_allocated_bytes st' = total_region_allocated_bytes st"
    "curr_region_allocation_bytes st' = (if inc then cur else 2 * cur)" by (simp_all add: st')
  ultimately show "grown_ok z st'" unfolding grown_ok_def T_def by (simp only:)
qed

lemma Extend_cases:
  assumes inv: "inv {} fl st" and ok: "sub_alloc_ok alloc" and rb: "256 \<le> rb"
  obtains
    (never) "Extend alloc rb st = Inl Never_returns" "rb < 2304" "\<not> started_backpedal st"
  | (no) st' where "Extend alloc rb st = Inr (False, st')" "inv {} fl st'" "extended st st'"
  | (yes) fl' st' z where "Extend alloc rb st = Inr (True, st')" "inv {} fl' st'" "extended st st'"
      "\<exists>n\<in>free_chunks fl' st'. c_size (ck st' n) = z"
      "rb \<le> z \<or> \<not> started_backpedal st \<and> started_backpedal st'"
proof (cases "rb \<le> available st")
  case False
  then have "Extend alloc rb st = Inr (False, st)" using Extend_none invD(4) [OF inv] by simp
  then show ?thesis by (rule no) (use inv in \<open>simp_all add: extended_def\<close>)
next
  case True
  note lim = invD(4) [OF inv]
  note A = available_bounds [OF lim]
  obtain cur inc where g: "grow_loop rb (curr_region_allocation_bytes st) False = Some (cur, inc)"
    "rb \<le> cur" "256 dvd cur" "\<not> inc \<Longrightarrow> cur = curr_region_allocation_bytes st" "inc \<Longrightarrow> cur < 2 * rb"
    by (rule grow_loop_cases [OF lim rb True]) (rule that; assumption)
  let ?b = "min cur (available st)" and ?st1 = "st\<lparr>curr_region_allocation_bytes := cur\<rparr>"
  have b: "256 dvd ?b" "0 < ?b" "?b < 2 ^ 63" using g(2,3) A(2,3) True rb by (auto simp: min_def)
  have cur: "0 < cur" using g(2) rb by simp
  note E = Extend_unfold [OF lim g(1) True]
  note G = grown_bound [OF lim rb True g(2,4,5)]
  from obtain_region_cases [OF ok b, of rb ?st1] show ?thesis
  proof cases
    case 1
    then show ?thesis using never E by simp
  next
    case (2 extra b' bp)
    have "inv {} fl (st\<lparr>curr_region_allocation_bytes := cur, sub_log := sub_log st @ extra, started_backpedal := True\<rparr>)"
      by (rule failed_inv [OF inv refl g(3) cur],
          rule G(2) [where z = ?b and bp = "started_backpedal st", OF _ _ _ refl]) simp_all
    moreover have "Extend alloc rb st = Inr (False,
        st\<lparr>curr_region_allocation_bytes := cur, sub_log := sub_log st @ extra, started_backpedal := True\<rparr>)"
      using 2 E by simp
    ultimately show ?thesis
      using no pre_inv_intro(4) [OF inv refl g(3) cur, where extra = extra and bp = True] by (simp add: extended_def)
  next
    case (3 p z c extra bp)
    define st3 where "st3 = st\<lparr>curr_region_allocation_bytes := (if inc then cur else 2 * cur),
      sub_log := sub_log st @ extra, started_backpedal := bp\<rparr>"
    have z: "z = ?b \<and> bp = started_backpedal st \<or> bp \<and> \<not> started_backpedal st" using 3(8) by simp
    note G3 = G [OF _ _ z st3_def]
    have cur3: "256 dvd (if inc then cur else 2 * cur)" "0 < (if inc then cur else 2 * cur)" using g(3) cur by auto
    note P = pre_inv_intro [OF inv st3_def cur3]
    have "room_for p z st3"
      using 3 by (intro fresh_block_room [OF inv, of p c]) (auto simp: st3_def fresh_block_def)
    moreover have "grown_ok z st3" using G3(1) by simp
    ultimately obtain fl' st' where R: "add_region p z st3 = Inr st'" "inv {} fl' st'" "region_added fl st3 z fl' st'"
      using add_region_ok [OF P(1)] by metis
    let ?st2 = "?st1\<lparr>sub_log := sub_log ?st1 @ extra, started_backpedal := bp\<rparr>"
    have "mul_sz cur 2 = 2 * cur" using G3(2) by simp
    then have up: "(if \<not> inc then ?st2\<lparr>curr_region_allocation_bytes :=
        mul_sz (curr_region_allocation_bytes ?st2) 2\<rparr> else ?st2) = st3"
      by (cases inc) (simp_all add: st3_def)
    have "(p = 0) = False" using 3(2) by (simp add: fresh_block_def)
    then have eq: "Extend alloc rb st = Inr (True, st')"
      unfolding E 3(1) by (simp only: run_bind.simps prod.case if_False up R(1))
    have "allocation st' = allocation st"
      by (rule allocation_same [OF inv R(2)]) (use R(3) in \<open>auto simp: region_added_def P(2,3)\<close>)
    then have "extended st st'" using R(3) by (simp add: extended_def region_added_def st3_def)
    moreover have "rb \<le> z \<or> \<not> started_backpedal st \<and> started_backpedal st'"
      using z g(2) True R(3) by (auto simp: region_added_def st3_def)
    moreover have "\<exists>n\<in>free_chunks fl' st'. c_size (ck st' n) = z" using R(3) by (auto simp: region_added_def)
    ultimately show ?thesis using yes [OF eq R(2)] by blast
  qed
qed

section \<open>Allocation and deallocation\<close>

text \<open>The effect of a successful allocation on what the client sees.\<close>

definition allocated :: "nat \<Rightarrow> nat \<Rightarrow> bfc \<Rightarrow> bfc \<Rightarrow> bool" where
  "allocated num p st st' \<longleftrightarrow> p \<noteq> 0 \<and> allocation st p = None \<and>
     (\<exists>z. RoundedBytes num \<le> z \<and> z < 2 * RoundedBytes num \<and>
        allocation st' = (allocation st)(p \<mapsto> (z, num, next_allocation_id st)) \<and>
        stats st' = update_stats z (stats st)) \<and>
     next_allocation_id st' = next_allocation_id st + 1 \<and> memory_limit st' = memory_limit st \<and>
     region_visitors st' = region_visitors st"

lemma given_size_bounds: "rb \<le> c_size c \<Longrightarrow> 0 < rb \<Longrightarrow> rb \<le> given_size rb c \<and> given_size rb c < 2 * rb"
  by (simp add: given_size_def)

lemma FindChunkPtr_allocated:
  assumes inv: "inv {} fl st" and num: "0 < num" "num \<le> 2 ^ 64 - 256"
  defines "rb \<equiv> RoundedBytes num"
  obtains
    (none) "FindChunkPtr (BinNumForSize rb) rb num st = Inr (0, st)" "\<forall>k\<in>free_chunks fl st. c_size (ck st k) < rb"
  | (found) n fl' st' where "best_fit fl st rb n" "FindChunkPtr (BinNumForSize rb) rb num st = Inr (c_ptr (ck st n), st')"
      "inv {} fl' st'" "same_env st st'" "allocated num (c_ptr (ck st n)) st st'"
proof -
  have rb: "256 dvd rb" "256 \<le> rb" "num \<le> rb" using RoundedBytes_bounds [OF num(2)] num(1) by (auto simp: rb_def)
  from FindChunkPtr_cases [OF inv rb(1,2) num(1) rb(3)] show ?thesis
  proof cases
    case 1
    then show ?thesis by (rule none)
  next
    case (2 n fl' st')
    have n: "n \<in> live fl st" "rb \<le> c_size (ck st n)" using 2(1) by (auto simp: best_fit_def free_chunks_def)
    have "c_ptr (ck st n) \<noteq> 0" using chunk_bounds(1) [OF heap_okD(1,4) [OF invD(1) [OF inv]] n(1)] by simp
    moreover have "rb \<le> given_size rb (ck st n)" "given_size rb (ck st n) < 2 * rb"
      using given_size_bounds [OF n(2)] rb(2) by auto
    ultimately have "allocated num (c_ptr (ck st n)) st st'"
      using 2 unfolding allocated_def rb_def [symmetric] same_env_def by blast
    then show ?thesis using found 2 by blast
  qed
qed

lemma allocated_extended:
  "extended st st' \<Longrightarrow> allocated num p st' st'' \<Longrightarrow> allocated num p st st''"
  by (simp add: extended_def allocated_def)

text \<open>
  \<open>AllocateRawInternal\<close>: either it returns a new allocation, or null with all
  allocations unchanged, or (only for small requests, when the sub-allocator fails
  for the first time) it does not return. Null is returned only if no free chunk
  was large enough.
\<close>

lemma AllocateRawInternal_cases:
  assumes inv: "inv {} fl st" and ok: "sub_alloc_ok alloc" and num: "num \<le> 2 ^ 64 - 256"
  obtains
    (never) "AllocateRawInternal alloc num st = Inl Never_returns" "0 < num" "num \<le> 2048" "\<not> started_backpedal st"
  | (null) fl' st' where "AllocateRawInternal alloc num st = Inr (0, st')" "inv {} fl' st'" "extended st st'"
      "0 < num \<longrightarrow> (\<forall>k\<in>free_chunks fl st. c_size (ck st k) < RoundedBytes num)"
  | (got) p fl' st' where "AllocateRawInternal alloc num st = Inr (p, st')" "inv {} fl' st'" "allocated num p st st'"
proof (cases "num = 0")
  case True
  then have "AllocateRawInternal alloc num st = Inr (0, st)" by (simp add: AllocateRawInternal_def)
  then show ?thesis by (rule null) (use inv True in \<open>auto simp: extended_def\<close>)
next
  case False
  then have pos: "0 < num" by simp
  let ?rb = "RoundedBytes num"
  have rb: "256 \<le> ?rb" "num \<le> ?rb" "256 dvd ?rb" using RoundedBytes_bounds [OF num] pos by auto
  have small: "num \<le> 2048" if "?rb < 2304" using that rb by (auto elim!: dvdE)
  from FindChunkPtr_allocated [OF inv pos num] show ?thesis
  proof cases
    case 1
    note find1 = 1
    have step: "AllocateRawInternal alloc num st = run_bind (Extend alloc ?rb st) (\<lambda>(e, st).
        if e then FindChunkPtr (BinNumForSize ?rb) ?rb num st else Inr (0, st))"
      using 1(1) pos by (simp add: AllocateRawInternal_def Let_def)
    from Extend_cases [OF inv ok rb(1)] show ?thesis
    proof cases
      case 1
      then show ?thesis using never step pos small by simp
    next
      case (2 st')
      then show ?thesis using null [of st' fl] step find1(2) by simp
    next
      case (3 fl' st' z)
      from FindChunkPtr_allocated [OF 3(2) pos num] show ?thesis
      proof cases
        case 1
        then show ?thesis using null [of st' fl'] step 3 find1(2) by simp
      next
        case (2 n fl2 st2)
        then show ?thesis using got [of "c_ptr (ck st' n)" st2 fl2] step 3 allocated_extended [OF 3(3)] by simp
      qed
    qed
  next
    case (2 n fl' st')
    have "c_ptr (ck st n) \<noteq> 0" using 2(5) by (simp add: allocated_def)
    then have "AllocateRawInternal alloc num st = Inr (c_ptr (ck st n), st')"
      using 2(2) pos by (simp add: AllocateRawInternal_def Let_def)
    then show ?thesis using got 2 by blast
  qed
qed

lemma DeallocateRawInternal_ok:
  assumes inv: "inv {} fl st" and p: "allocation st p = Some (z, r, i)"
  obtains fl' st' where "DeallocateRawInternal p st = Inr st'" "inv {} fl' st'" "same_env st st'"
    "allocation st' = (allocation st)(p := None)" "next_allocation_id st' = next_allocation_id st"
    "stats st' = (stats st)\<lparr>bytes_in_use := bytes_in_use (stats st) - int z\<rparr>"
proof -
  obtain h where h: "h \<in> users (ck st) (live fl st)" "c_ptr (ck st h) = p"
    "get_handle (regions st) p = Inr (int h)" "z = c_size (ck st h)"
    by (rule allocation_SomeD [OF inv p]) (auto intro: that)
  have "0 < p" using chunk_bounds(1) [OF heap_okD(1,4) [OF invD(1) [OF inv]]] h(1,2) by (auto simp: users_def)
  then have "DeallocateRawInternal p st = FreeAndMaybeCoalesce (int h) st"
    using h(3) by (simp add: DeallocateRawInternal_def kInvalidChunkHandle_def)
  then show ?thesis using FreeAndMaybeCoalesce_ok [OF inv h(1)] that h(2,4) by metis
qed

text \<open>An address of the right alignment at which nothing is allocated is refused.\<close>

lemma DeallocateRawInternal_check:
  assumes inv: "inv {} fl st" and p: "aligned (spans (regions st)) p" "p \<noteq> 0" "allocation st p = None"
  shows "DeallocateRawInternal p st = Inl CHECK_failed"
proof -
  note H = heap_okD [OF invD(1) [OF inv]]
  from H(2) p(1) consider "get_handle (regions st) p = Inr (- 1)"
    | h where "h \<in> live fl st" "get_handle (regions st) p = Inr (int h)" "c_ptr (ck st h) = p"
    unfolding handles_ok_def by blast
  then show ?thesis
  proof cases
    case 1
    then show ?thesis using p(2) by (simp add: DeallocateRawInternal_def CHECK_def kInvalidChunkHandle_def)
  next
    case (2 h)
    then have "\<not> in_use (ck st h)" using p(3) by (auto simp: allocation_def Let_def split: if_splits)
    then show ?thesis
      using 2 p(2) live_less [OF 2(1)]
      by (simp add: DeallocateRawInternal_def FreeAndMaybeCoalesce_def run_simps CHECK_def kInvalidChunkHandle_def)
  qed
qed

end
