(* ===== verification/BFC_Props.thy ===== *)
theory BFC_Props
  imports BFC_Alloc
begin

text \<open>
  The properties of the allocator: the interface of a raw allocator as a locale,
  its interpretation by \<open>BFCAllocator\<close>, the reachable states, and the theorems on
  them.
\<close>

section \<open>The interface of a raw allocator\<close>

text \<open>
  \<open>blocks s\<close> maps the address of an allocation in use to its size, the size that
  was requested and its id. A client relies on blocks that do not overlap, on
  \<open>alloc\<close> returning either null or a fresh block that is large enough, and on
  \<open>dealloc\<close> accepting every block in use.
\<close>

locale raw_allocator =
  fixes valid :: "'s \<Rightarrow> bool" and blocks :: "'s \<Rightarrow> nat \<Rightarrow> (nat \<times> nat \<times> int) option"
    and alloc :: "nat \<Rightarrow> 's \<Rightarrow> (nat \<times> 's) run" and dealloc :: "nat \<Rightarrow> 's \<Rightarrow> 's run"
    and max_request :: nat
  assumes apart: "valid s \<Longrightarrow> blocks s p = Some (z, r, i) \<Longrightarrow> blocks s q = Some (z', r', i') \<Longrightarrow> p \<noteq> q \<Longrightarrow>
      p + z \<le> q \<or> q + z' \<le> p"
    and alloc_valid: "valid s \<Longrightarrow> n \<le> max_request \<Longrightarrow> alloc n s = Inr (p, s') \<Longrightarrow> valid s'"
    and alloc_null: "valid s \<Longrightarrow> n \<le> max_request \<Longrightarrow> alloc n s = Inr (0, s') \<Longrightarrow> blocks s' = blocks s"
    and alloc_block: "valid s \<Longrightarrow> n \<le> max_request \<Longrightarrow> alloc n s = Inr (p, s') \<Longrightarrow> p \<noteq> 0 \<Longrightarrow>
      blocks s p = None \<and> (\<exists>z i. n \<le> z \<and> blocks s' = (blocks s)(p \<mapsto> (z, n, i)))"
    and dealloc_block: "valid s \<Longrightarrow> blocks s p = Some v \<Longrightarrow>
      \<exists>s'. dealloc p s = Inr s' \<and> valid s' \<and> blocks s' = (blocks s)(p := None)"
begin

text \<open>A client that makes several requests and later gives the blocks back.\<close>

fun alloc_all :: "nat list \<Rightarrow> 's \<Rightarrow> (nat list \<times> 's) run" where
  "alloc_all [] s = Inr ([], s)"
| "alloc_all (n # ns) s = run_bind (alloc n s) (\<lambda>(p, s). run_bind (alloc_all ns s) (\<lambda>(ps, s). Inr (p # ps, s)))"

fun dealloc_all :: "nat list \<Rightarrow> 's \<Rightarrow> 's run" where
  "dealloc_all [] s = Inr s"
| "dealloc_all (p # ps) s = run_bind (dealloc p s) (dealloc_all ps)"

lemma run_bind_Inr: "run_bind m f = Inr y \<longleftrightarrow> (\<exists>x. m = Inr x \<and> f x = Inr y)"
  by (cases m) auto

lemma alloc_all_ok:
  assumes "valid s" "\<forall>n\<in>set ns. n \<le> max_request" "alloc_all ns s = Inr (ps, s')" "0 \<notin> set ps"
  shows "valid s' \<and> distinct ps \<and> length ps = length ns \<and> set ps \<inter> dom (blocks s) = {} \<and>
    dom (blocks s') = dom (blocks s) \<union> set ps \<and> (\<forall>p. p \<notin> set ps \<longrightarrow> blocks s' p = blocks s p) \<and>
    (\<forall>k<length ps. \<exists>z i. ns ! k \<le> z \<and> blocks s' (ps ! k) = Some (z, ns ! k, i))"
  using assms
proof (induction ns arbitrary: s ps)
  case (Cons n ns)
  then obtain p s1 qs where st: "alloc n s = Inr (p, s1)" "alloc_all ns s1 = Inr (qs, s')" "ps = p # qs"
    by (auto simp: run_bind_Inr)
  have p0: "p \<noteq> 0" using Cons.prems(4) st(3) by auto
  have n: "n \<le> max_request" using Cons.prems(2) by simp
  note v = alloc_valid [OF Cons.prems(1) n st(1)]
  obtain z i where b: "blocks s p = None" "n \<le> z" "blocks s1 = (blocks s)(p \<mapsto> (z, n, i))"
    using alloc_block [OF Cons.prems(1) n st(1) p0] by auto
  have IH: "valid s'" "distinct qs" "length qs = length ns" "set qs \<inter> dom (blocks s1) = {}"
    "dom (blocks s') = dom (blocks s1) \<union> set qs" "\<forall>p. p \<notin> set qs \<longrightarrow> blocks s' p = blocks s1 p"
    "\<forall>k<length qs. \<exists>z i. ns ! k \<le> z \<and> blocks s' (qs ! k) = Some (z, ns ! k, i)"
    using Cons.IH [OF v _ st(2)] Cons.prems(2,4) st(3) by auto
  have pq: "p \<notin> set qs" using IH(4) b(3) by auto
  have "\<exists>z i. (n # ns) ! k \<le> z \<and> blocks s' ((p # qs) ! k) = Some (z, (n # ns) ! k, i)"
    if "k < length (p # qs)" for k
    using that IH(6,7) b pq by (cases k) auto
  then show ?case using IH b pq by (auto simp: st(3))
qed simp

lemma dealloc_all_ok:
  assumes "valid s" "distinct ps" "set ps \<subseteq> dom (blocks s)"
  shows "\<exists>s'. dealloc_all ps s = Inr s' \<and> valid s' \<and> blocks s' = (\<lambda>p. if p \<in> set ps then None else blocks s p)"
  using assms
proof (induction ps arbitrary: s)
  case (Cons p ps)
  then obtain v where "blocks s p = Some v" by auto
  from dealloc_block [OF Cons.prems(1) this] obtain s1 where
    s1: "dealloc p s = Inr s1" "valid s1" "blocks s1 = (blocks s)(p := None)" by auto
  have "set ps \<subseteq> dom (blocks s1)" using Cons.prems by (auto simp: s1(3))
  then obtain s' where "dealloc_all ps s1 = Inr s'" "valid s'"
    "blocks s' = (\<lambda>q. if q \<in> set ps then None else blocks s1 q)"
    using Cons.IH [OF s1(2)] Cons.prems(2) by auto
  then show ?case using s1(1,3) by auto
qed simp

text \<open>Giving the blocks back, in whatever order, restores the table of blocks.\<close>

lemma alloc_dealloc_all:
  assumes "valid s" "\<forall>n\<in>set ns. n \<le> max_request" "alloc_all ns s = Inr (ps, s')" "0 \<notin> set ps"
    and "mset qs = mset ps"
  shows "\<exists>s''. dealloc_all qs s' = Inr s'' \<and> valid s'' \<and> blocks s'' = blocks s"
proof -
  note A = alloc_all_ok [OF assms(1-4)]
  have "set qs = set ps" using assms(5) by (rule mset_eq_setD)
  moreover have "distinct qs" using A mset_eq_imp_distinct_iff [OF assms(5)] by simp
  ultimately have qs: "distinct qs" "set qs = set ps" by simp_all
  then have "set qs \<subseteq> dom (blocks s')" using A by auto
  from dealloc_all_ok [OF _ qs(1) this] A obtain s'' where
    s'': "dealloc_all qs s' = Inr s''" "valid s''" "blocks s'' = (\<lambda>p. if p \<in> set qs then None else blocks s' p)"
    by auto
  have "blocks s'' p = blocks s p" for p
  proof (cases "p \<in> set ps")
    case True
    then have "p \<notin> dom (blocks s)" using A by blast
    then have "blocks s p = None" by (simp only: domIff not_not)
    with True show ?thesis by (simp add: s''(3) qs(2))
  qed (use A in \<open>simp add: s''(3) qs(2)\<close>)
  then show ?thesis using s'' by auto
qed

end

section \<open>The allocations of a state that satisfies the invariant\<close>

definition wf_bfc :: "bfc \<Rightarrow> bool" where
  "wf_bfc st \<longleftrightarrow> (\<exists>fl. inv {} fl st)"

lemma allocation_apart:
  assumes inv: "inv {} fl st" and p: "allocation st p = Some (z, r, i)" and q: "allocation st q = Some (z', r', i')"
    and "p \<noteq> q"
  shows "p + z \<le> q \<or> q + z' \<le> p" and "i \<noteq> i'"
proof -
  obtain h where h: "h \<in> users (ck st) (live fl st)" "c_ptr (ck st h) = p" "z = c_size (ck st h)" "i = c_allocation_id (ck st h)"
    by (rule allocation_SomeD [OF inv p]) (auto intro: that)
  obtain k where k: "k \<in> users (ck st) (live fl st)" "c_ptr (ck st k) = q" "z' = c_size (ck st k)" "i' = c_allocation_id (ck st k)"
    by (rule allocation_SomeD [OF inv q]) (auto intro: that)
  have "h \<noteq> k" using h k \<open>p \<noteq> q\<close> by auto
  moreover have "inj_on (\<lambda>h. c_allocation_id (ck st h)) (users (ck st) (live fl st))"
    using invD(3) [OF inv] by (simp add: acct_ok_def)
  ultimately show "i \<noteq> i'" using h k by (auto dest: inj_onD)
  have "apart (ck st) (live fl st)" using heap_okD(5) [OF invD(1) [OF inv]] .
  then show "p + z \<le> q \<or> q + z' \<le> p"
    using h k \<open>h \<noteq> k\<close> unfolding apart_def users_def by blast
qed

interpretation bfc_alloc: raw_allocator
  "\<lambda>st. sub_alloc_ok alloc \<and> wf_bfc st" allocation "AllocateRawInternal alloc" DeallocateRawInternal "2 ^ 64 - 256"
  for alloc
proof (unfold_locales, goal_cases)
  case (1 s p z r i q z' r' i')
  then show ?case using allocation_apart(1) unfolding wf_bfc_def by blast
next
  case (2 s n p s')
  then obtain fl where inv: "inv {} fl s" and ok: "sub_alloc_ok alloc" by (auto simp: wf_bfc_def)
  from AllocateRawInternal_cases [OF inv ok 2(2)] show ?case
    by cases (use 2(3) ok in \<open>auto simp: wf_bfc_def\<close>)
next
  case (3 s n s')
  then obtain fl where inv: "inv {} fl s" and ok: "sub_alloc_ok alloc" by (auto simp: wf_bfc_def)
  from AllocateRawInternal_cases [OF inv ok 3(2)] show ?case
    by cases (use 3(3) in \<open>auto simp: extended_def allocated_def\<close>)
next
  case (4 s n p s')
  then obtain fl where inv: "inv {} fl s" and ok: "sub_alloc_ok alloc" by (auto simp: wf_bfc_def)
  have n: "n \<le> RoundedBytes n" using RoundedBytes_bounds(1) [OF 4(2)] .
  from AllocateRawInternal_cases [OF inv ok 4(2)] show ?case
  proof cases
    case (3 p' fl' st')
    then have "allocated n p s s'" using 4(3) by simp
    then show ?thesis using n by (auto simp: allocated_def intro: le_trans)
  qed (use 4(3,4) in auto)
next
  case (5 s p v)
  then obtain fl where inv: "inv {} fl s" and ok: "sub_alloc_ok alloc" by (auto simp: wf_bfc_def)
  obtain z r i where "v = (z, r, i)" by (cases v)
  then show ?case using DeallocateRawInternal_ok [OF inv, of p z r i] 5(2) ok unfolding wf_bfc_def by metis
qed

section \<open>Reachable states\<close>

text \<open>
  The states of an allocator after any sequence of requests, releases of blocks
  in use, and registrations of visitors.
\<close>

inductive bfc_reachable :: "sub_alloc \<Rightarrow> nat \<Rightarrow> bool \<Rightarrow> bfc \<Rightarrow> bool"
  for alloc total_memory allow_growth where
  create: "BFCAllocator total_memory allow_growth = Inr st \<Longrightarrow> bfc_reachable alloc total_memory allow_growth st"
| allocate: "bfc_reachable alloc total_memory allow_growth st \<Longrightarrow> num_bytes \<le> 2 ^ 64 - 256 \<Longrightarrow>
    AllocateRawInternal alloc num_bytes st = Inr (p, st') \<Longrightarrow> bfc_reachable alloc total_memory allow_growth st'"
| deallocate: "bfc_reachable alloc total_memory allow_growth st \<Longrightarrow> allocation st p \<noteq> None \<Longrightarrow>
    DeallocateRawInternal p st = Inr st' \<Longrightarrow> bfc_reachable alloc total_memory allow_growth st'"
| visit: "bfc_reachable alloc total_memory allow_growth st \<Longrightarrow>
    bfc_reachable alloc total_memory allow_growth (AddAllocVisitor v st)"

lemma BFCAllocator_returns:
  "BFCAllocator total_memory allow_growth = Inr \<lparr>memory_limit = total_memory, bins = replicate 21 [],
     curr_region_allocation_bytes = (if allow_growth then RoundedBytes (min total_memory 1048576)
       else RoundedBytes total_memory),
     total_region_allocated_bytes = 0, started_backpedal = False, regions = [], chunks = [],
     free_chunks_list = - 1, region_visitors = [], next_allocation_id = 1,
     stats = \<lparr>num_allocs = 0, bytes_in_use = 0, max_bytes_in_use = 0, max_alloc_size = 0,
       bytes_limit = int total_memory\<rparr>, sub_log = [], visitor_calls = []\<rparr>"
  using bin_checks_hold by (simp add: BFCAllocator_def CHECK_def kNumBins_def kInvalidChunkHandle_def)

lemma create_inv:
  assumes "total_memory < 2 ^ 39" "BFCAllocator total_memory allow_growth = Inr st"
  shows "inv {} [] st"
proof -
  have r: "RoundedBytes n \<le> 2 ^ 39" "256 dvd RoundedBytes n" "0 < n \<Longrightarrow> 0 < RoundedBytes n"
    if "n < 2 ^ 39" for n
  proof -
    have le: "n \<le> 2 ^ 64 - 256" using that by simp
    show "RoundedBytes n \<le> 2 ^ 39" using that by (intro RoundedBytes_le) auto
    show "256 dvd RoundedBytes n" "0 < n \<Longrightarrow> 0 < RoundedBytes n"
      using RoundedBytes_bounds(3,4) [OF le] by auto
  qed
  have st: "st = \<lparr>memory_limit = total_memory, bins = replicate 21 [],
     curr_region_allocation_bytes = (if allow_growth then RoundedBytes (min total_memory 1048576)
       else RoundedBytes total_memory),
     total_region_allocated_bytes = 0, started_backpedal = False, regions = [], chunks = [],
     free_chunks_list = - 1, region_visitors = [], next_allocation_id = 1,
     stats = \<lparr>num_allocs = 0, bytes_in_use = 0, max_bytes_in_use = 0, max_alloc_size = 0,
       bytes_limit = int total_memory\<rparr>, sub_log = [], visitor_calls = []\<rparr>"
    using assms(2) unfolding BFCAllocator_returns by simp
  have "heap_ok {} (ck st) (live [] st) (regions st) (bins st)"
    by (rule heap_okI) (simp_all add: st live_def regions_ok_def handles_ok_def aligned_def linked_def
        placed_def apart_def tiled_def bins_ok_def binned_def coalesced_def)
  moreover have "limits_ok st"
    using r [OF assms(1)] r [of "min total_memory 1048576"] assms(1)
    by (simp add: limits_ok_def available_def st min_less_iff_disj)
  ultimately show ?thesis
    by (simp add: inv_def free_ok_def acct_ok_def users_def live_def granted_ok_def visited_ok_def) (simp add: st)
qed

lemma visit_inv: "inv X fl st \<Longrightarrow> inv X fl (AddAllocVisitor v st)"
proof -
  assume inv: "inv X fl st"
  let ?st = "AddAllocVisitor v st"
  have spans: "map (\<lambda>r. (v, r_ptr r, r_memory_size r)) rs = map (Pair v) (spans rs)" for rs
    by (simp add: spans_def)
  have "count_list (map (Pair v) xs) (w, y) = (if w = v then count_list xs y else 0)" for xs :: "(nat \<times> nat) list" and w y
    by (induction xs) auto
  then have "visited_ok ?st"
    using invD(6) [OF inv] by (auto simp: visited_ok_def AddAllocVisitor_def spans algebra_simps)
  moreover have f: "memory_limit ?st = memory_limit st" "regions ?st = regions st" "chunks ?st = chunks st"
    "total_region_allocated_bytes ?st = total_region_allocated_bytes st" "bins ?st = bins st"
    "curr_region_allocation_bytes ?st = curr_region_allocation_bytes st" "sub_log ?st = sub_log st"
    "started_backpedal ?st = started_backpedal st" "free_chunks_list ?st = free_chunks_list st"
    "next_allocation_id ?st = next_allocation_id st" "stats ?st = stats st"
    by (simp_all add: AddAllocVisitor_def)
  ultimately show ?thesis
    using inv unfolding inv_def live_def free_ok_def granted_ok_def limits_ok_def available_def f by blast
qed

lemma reachable_inv:
  assumes "sub_alloc_ok alloc" "total_memory < 2 ^ 39" "bfc_reachable alloc total_memory allow_growth st"
  shows "wf_bfc st \<and> memory_limit st = total_memory"
  using assms(3)
proof (induction rule: bfc_reachable.induct)
  case (create st)
  then show ?case using create_inv [OF assms(2)] BFCAllocator_returns by (auto simp: wf_bfc_def)
next
  case (allocate st num_bytes p st')
  then obtain fl where inv: "inv {} fl st" by (auto simp: wf_bfc_def)
  from AllocateRawInternal_cases [OF inv assms(1) allocate(2)] show ?case
    by cases (use allocate in \<open>auto simp: wf_bfc_def extended_def allocated_def\<close>)
next
  case (deallocate st p st')
  then obtain fl z r i where inv: "inv {} fl st" and p: "allocation st p = Some (z, r, i)"
    by (auto simp: wf_bfc_def)
  obtain fl' st2 where "DeallocateRawInternal p st = Inr st2" "inv {} fl' st2" "same_env st st2"
    using DeallocateRawInternal_ok [OF inv p] by metis
  then show ?case using deallocate by (auto simp: wf_bfc_def same_env_def)
next
  case (visit st v)
  moreover have "memory_limit (AddAllocVisitor v st) = memory_limit st" by (simp add: AddAllocVisitor_def)
  ultimately show ?case by (auto simp: wf_bfc_def intro: visit_inv)
qed

section \<open>Free blocks\<close>

text \<open>The free chunks, seen through the region manager: address and size.\<close>

definition free_block :: "bfc \<Rightarrow> nat \<Rightarrow> nat option" where
  "free_block st p = (case get_handle (regions st) p of
     Inl _ \<Rightarrow> None
   | Inr h \<Rightarrow> if h = - 1 then None
       else let c = chunks st ! nat h in
         if \<not> in_use c \<and> c_ptr c = p then Some (c_size c) else None)"

lemma free_block_iff:
  assumes inv: "inv {} fl st"
  shows "free_block st p = Some z \<longleftrightarrow> (\<exists>h\<in>free_chunks fl st. c_ptr (ck st h) = p \<and> c_size (ck st h) = z)"
proof
  note H = heap_okD [OF invD(1) [OF inv]]
  assume "free_block st p = Some z"
  then obtain x where x: "get_handle (regions st) p = Inr x" "x \<noteq> - 1" "\<not> in_use (chunks st ! nat x)"
    "c_ptr (chunks st ! nat x) = p" "c_size (chunks st ! nat x) = z"
    by (auto simp: free_block_def Let_def split: sum.splits if_splits)
  obtain h where "h \<in> live fl st" "x = int h" using get_handle_range [OF H(1,2) x(1,2)] by blast
  then show "\<exists>h\<in>free_chunks fl st. c_ptr (ck st h) = p \<and> c_size (ck st h) = z"
    using x by (auto simp: free_chunks_def)
next
  assume "\<exists>h\<in>free_chunks fl st. c_ptr (ck st h) = p \<and> c_size (ck st h) = z"
  then obtain h where h: "h \<in> live fl st" "\<not> in_use (ck st h)" "c_ptr (ck st h) = p" "c_size (ck st h) = z"
    by (auto simp: free_chunks_def)
  then have "get_handle (regions st) p = Inr (int h)"
    using heap_okD(2) [OF invD(1) [OF inv]] by (auto simp: handles_ok_def)
  then show "free_block st p = Some z" using h by (simp add: free_block_def Let_def)
qed

text \<open>If nothing is in use, every chunk is alone in its region, and every region has one.\<close>

lemma idle_chunk:
  assumes inv: "inv {} fl st" and idle: "\<And>p. allocation st p = None" and h: "h \<in> live fl st"
  shows "h \<in> free_chunks fl st" "(c_ptr (ck st h), c_size (ck st h)) \<in> set (spans (regions st))"
proof -
  note H = heap_okD [OF invD(1) [OF inv]]
  have free: "\<not> in_use (ck st k)" if "k \<in> live fl st" for k
    using allocation_user [OF inv, of k] idle that by (auto simp: users_def)
  then show "h \<in> free_chunks fl st" using h by (simp add: free_chunks_def)
  have alone: "c_next (ck st k) = - 1" if "k \<in> live fl st" for k
  proof (cases rule: next_cases [OF H(3) that])
    case (2 n)
    then show ?thesis using H(9) free that by (auto simp: coalesced_def)
  qed
  have "c_prev (ck st h) = - 1"
  proof (cases rule: prev_cases [OF H(3) h])
    case (2 p)
    then show ?thesis using prev_live(2) [OF H(3) h 2(1)] alone [OF 2(2)] by simp
  qed
  moreover obtain a n where an: "(a, n) \<in> set (spans (regions st))" "placed_in (a, n) (ck st h)"
    using H(4) h by (auto simp: placed_def)
  ultimately have "c_ptr (ck st h) = a" "c_size (ck st h) = n"
    using alone [OF h] by (auto simp: placed_in_def)
  then show "(c_ptr (ck st h), c_size (ck st h)) \<in> set (spans (regions st))" using an by simp
qed

lemma spans_distinct: "regions_ok rs \<Longrightarrow> distinct (spans rs)"
proof -
  assume ok: "regions_ok rs"
  have "i = j" if "i < length rs" "j < length rs" "spans rs ! i = spans rs ! j" for i j
  proof -
    have r: "region_ok (rs ! i)" "region_ok (rs ! j)" using ok that by (auto simp: regions_ok_def)
    then have "in_region (rs ! i) (r_ptr (rs ! i))" "in_region (rs ! j) (r_ptr (rs ! i))"
      using that by (auto simp: in_region_def region_ok_def spans_def)
    then show ?thesis using region_unique [OF ok that(1,2)] by auto
  qed
  then show ?thesis by (auto simp: distinct_conv_nth spans_def)
qed

lemma idle_regions:
  assumes inv: "inv {} fl st" and idle: "\<And>p. allocation st p = None" and r: "(a, n) \<in> set (spans (regions st))"
  shows "\<exists>h\<in>free_chunks fl st. c_ptr (ck st h) = a \<and> c_size (ck st h) = n"
proof -
  note H = heap_okD [OF invD(1) [OF inv]]
  let ?L = "live fl st" and ?S = "set (spans (regions st))"
  let ?f = "\<lambda>h. (c_ptr (ck st h), c_size (ck st h))"
  have sub: "?f ` ?L \<subseteq> ?S" using idle_chunk(2) [OF inv idle] by auto
  have inj: "inj_on ?f ?L" using apart_ptr_inj [OF H(5,4)] by (auto simp: inj_on_def)
  have "sum snd (?f ` ?L) = (\<Sum>h\<in>?L. c_size (ck st h))" using inj by (simp add: sum.reindex)
  also have "\<dots> = sum snd ?S"
    using H(6) spans_distinct [OF H(1)] by (simp add: tiled_def sum_list_distinct_conv_sum_set)
  finally have eq: "sum snd (?f ` ?L) = sum snd ?S" .
  have "(a, n) \<in> ?f ` ?L"
  proof (rule ccontr)
    assume "(a, n) \<notin> ?f ` ?L"
    then have "sum snd (?f ` ?L) + n \<le> sum snd ?S"
      using sub r sum_mono2 [of ?S "insert (a, n) (?f ` ?L)" snd] finite_subset [OF sub] by auto
    then show False using eq span_bounds(4) [OF H(1) r] by simp
  qed
  then show ?thesis using idle_chunk(1) [OF inv idle] by auto
qed

section \<open>The backpedalling loop\<close>

lemma backpedal_ge_2304:
  assumes "256 dvd b" "2304 \<le> b" "b < 2 ^ 63"
  shows "2304 \<le> backpedal b"
proof -
  define x y where "x = round_float b" and "y = round_float (x * 15099494)"
  have "b * (2 ^ 24 - 1) \<le> x * 2 ^ 24" unfolding x_def by (rule round_float_error)
  moreover have "(x * 15099494) * (2 ^ 24 - 1) \<le> y * 2 ^ 24" unfolding y_def by (rule round_float_error)
  ultimately have "2049 * 2 ^ 24 \<le> y" using assms(2) by simp
  then have t: "2049 \<le> times_kBackpedalFactor b"
    by (simp add: times_kBackpedalFactor_def x_def y_def less_eq_div_iff_mult_less_eq)
  have "times_kBackpedalFactor b \<le> b" using times_kBackpedalFactor_le [of b] by linarith
  then have "times_kBackpedalFactor b \<le> backpedal b" using assms(3) by (intro RoundedBytes_bounds) simp
  then have "2049 \<le> backpedal b" using t by simp
  moreover have "256 dvd backpedal b" using backpedal_unit(2) [of b] assms by simp
  ultimately show ?thesis by (auto elim!: dvdE)
qed

lemma backpedal_never_ends:
  assumes null: "\<And>log n. alloc log n = 0" and rb: "rb < 2304"
    and b: "256 dvd b" "2304 \<le> b" "b < 2 ^ 63"
  shows "backpedal_loop alloc rb 0 b log = None"
proof (rule ccontr)
  assume "\<not> ?thesis"
  then obtain res where "backpedal_loop alloc rb 0 b log = Some res" by auto
  then have "alloc = alloc \<and> rb = rb \<and> (0::nat) = 0 \<and> 256 dvd b \<and> 2304 \<le> b \<and> b < 2 ^ 63 \<longrightarrow> False"
  proof (rule backpedal_loop.raw_induct [rotated,
        where P = "\<lambda>al ro m b l res. al = alloc \<and> ro = rb \<and> m = 0 \<and> 256 dvd b \<and> 2304 \<le> b \<and> b < 2 ^ 63 \<longrightarrow> False"],
      goal_cases)
    case (1 f al ro m c l r)
    show ?case
    proof (intro impI, elim conjE)
      assume c: "al = alloc" "ro = rb" "m = 0" "256 dvd c" "2304 \<le> c" "c < 2 ^ 63"
      then have "f al ro (al l c) (backpedal c) (l @ [(c, al l c)]) = Some r" using 1(2) rb by simp
      moreover have "256 dvd backpedal c" "2304 \<le> backpedal c" "backpedal c < 2 ^ 63"
        using backpedal_unit(1,2) [of c] backpedal_ge_2304 [of c] c by auto
      ultimately show False using 1(1) c null by blast
    qed
  qed
  then show False using b by simp
qed

section \<open>A concrete run\<close>

definition one_block :: sub_alloc where
  "one_block log n = (if log = [] \<and> n < 2 ^ 40 then 4096 else 0)"

lemma one_block_ok: "sub_alloc_ok one_block"
  by (auto simp: sub_alloc_ok_def one_block_def)

text \<open>The allocator of 1024 bytes after a request for 300 bytes.\<close>

definition demo_state :: bfc where
  "demo_state = \<lparr>memory_limit = 1024, bins = [[], [1]] @ replicate 19 [],
     curr_region_allocation_bytes = 2048, total_region_allocated_bytes = 1024, started_backpedal = False,
     regions = [\<lparr>r_ptr = 4096, r_memory_size = 1024, r_end_ptr = 5120, r_handles = [0, - 1, 1, - 1]\<rparr>],
     chunks = [\<lparr>c_size = 512, c_requested_size = 300, c_allocation_id = 1, c_ptr = 4096, c_prev = - 1,
         c_next = 1, c_bin_num = - 1\<rparr>,
       \<lparr>c_size = 512, c_requested_size = 0, c_allocation_id = - 1, c_ptr = 4608, c_prev = 0,
         c_next = - 1, c_bin_num = 1\<rparr>],
     free_chunks_list = - 1, region_visitors = [], next_allocation_id = 2,
     stats = \<lparr>num_allocs = 1, bytes_in_use = 512, max_bytes_in_use = 512, max_alloc_size = 512, bytes_limit = 1024\<rparr>,
     sub_log = [(1024, 4096)], visitor_calls = []\<rparr>"

definition demo_init :: bfc where
  "demo_init = \<lparr>memory_limit = 1024, bins = replicate 21 [],
     curr_region_allocation_bytes = 1024,
     total_region_allocated_bytes = 0, started_backpedal = False, regions = [], chunks = [],
     free_chunks_list = - 1, region_visitors = [], next_allocation_id = 1,
     stats = \<lparr>num_allocs = 0, bytes_in_use = 0, max_bytes_in_use = 0, max_alloc_size = 0,
       bytes_limit = 1024\<rparr>, sub_log = [], visitor_calls = []\<rparr>"

lemma demo_create: "BFCAllocator 1024 False = Inr demo_init"
  by (simp add: BFCAllocator_returns demo_init_def RoundedBytes_eq)

lemma BinNum_demo: "BinNumForSize 512 = 1" "BinNumForSize 1024 = 2"
  by (rule BinNumForSize_eq; simp)+

lemma demo_find: "find_bin demo_init rb b = Inr None"
proof -
  have "\<forall>b<21. bins demo_init ! b = []" by (simp add: demo_init_def)
  then show ?thesis using find_bin_cases [of demo_init rb b] by (auto simp: demo_init_def)
qed

definition demo_extended :: bfc where
  "demo_extended = \<lparr>memory_limit = 1024, bins = [[], [], [0]] @ replicate 18 [],
     curr_region_allocation_bytes = 2048, total_region_allocated_bytes = 1024, started_backpedal = False,
     regions = [\<lparr>r_ptr = 4096, r_memory_size = 1024, r_end_ptr = 5120, r_handles = [0, - 1, - 1, - 1]\<rparr>],
     chunks = [\<lparr>c_size = 1024, c_requested_size = 0, c_allocation_id = - 1, c_ptr = 4096, c_prev = - 1,
         c_next = - 1, c_bin_num = 2\<rparr>],
     free_chunks_list = - 1, region_visitors = [], next_allocation_id = 1,
     stats = \<lparr>num_allocs = 0, bytes_in_use = 0, max_bytes_in_use = 0, max_alloc_size = 0, bytes_limit = 1024\<rparr>,
     sub_log = [(1024, 4096)], visitor_calls = []\<rparr>"

lemma replicate_demo: "replicate 21 x = [x, x, x] @ replicate 18 x" "replicate 19 x = x # replicate 18 x"
  "replicate 4 x = [x, x, x, x]"
  by (simp_all add: numeral_eq_Suc)

lemmas eval_simps = kInvalidChunkHandle_def kInvalidBinNum_def kNumBins_def kMinAllocationBits_def
  in_use_def CHECK_def modify_chunk_def ChunkFromHandle_def default_chunk_def set_handle_def RegionFor_def
  region_set_handle_def IndexFor_def InsertFreeChunkIntoBin_def BinNum_demo ChunkComparator_def
  AddAllocationRegion_def upper_bound_def AllocationRegion_def AllocateChunk_def drop_bit_eq_div

lemma demo_extend: "Extend one_block 512 demo_init = Inr (True, demo_extended)"
  by (simp add: Extend_def demo_init_def demo_extended_def obtain_region_def one_block_def add_region_def
      eval_simps replicate_demo)

lemma demo_find_bin: "find_bin demo_extended 512 1 = Inr (Some (2, 0))"
proof -
  have "find_bin demo_extended 512 (Suc (Suc 0)) = Inr (Some (2, 0))"
    by (subst find_bin.simps) (simp add: demo_extended_def eval_simps)
  then show ?thesis by (subst find_bin.simps) (simp add: demo_extended_def eval_simps)
qed

lemma demo_find_extended: "FindChunkPtr 1 512 300 demo_extended = Inr (4096, demo_state)"
  unfolding FindChunkPtr_def demo_find_bin
  by (simp add: demo_extended_def demo_state_def update_stats_def Let_def
      RemoveFreeChunkIterFromBin_def SplitChunk_def eval_simps replicate_demo)

lemma demo_alloc: "AllocateRawInternal one_block 300 demo_init = Inr (4096, demo_state)"
proof -
  have "RoundedBytes 300 = 512" by (simp add: RoundedBytes_eq)
  moreover have "FindChunkPtr 1 512 300 demo_init = Inr (0, demo_init)" by (simp add: FindChunkPtr_def demo_find)
  ultimately show ?thesis
    using demo_extend demo_find_extended by (simp add: AllocateRawInternal_def BinNum_demo)
qed

lemma demo_reachable: "bfc_reachable one_block 1024 False demo_state"
  by (rule bfc_reachable.allocate [OF bfc_reachable.create [OF demo_create] _ demo_alloc]) simp

lemma demo_allocation: "allocation demo_state 4096 = Some (512, 300, 1)"
  by (simp add: allocation_def demo_state_def get_handle_def region_get_handle_def eval_simps)

lemma chunk_query_allocation:
  assumes inv: "inv {} fl st" and p: "allocation st p = Some (z, r, i)"
  shows "RequestedSize p st = Inr r" "AllocatedSize p st = Inr z" "AllocationId p st = Inr i"
proof -
  obtain h where h: "h \<in> users (ck st) (live fl st)" "get_handle (regions st) p = Inr (int h)"
    "(z, r, i) = (c_size (ck st h), c_requested_size (ck st h), c_allocation_id (ck st h))"
    by (rule allocation_SomeD [OF inv p]) (auto intro: that)
  have "h < length (chunks st)" using h(1) live_less by (auto simp: users_def)
  then show "RequestedSize p st = Inr r" "AllocatedSize p st = Inr z" "AllocationId p st = Inr i"
    using h(2,3) by (simp_all add: RequestedSize_def AllocatedSize_def AllocationId_def chunk_query_def
        run_simps kInvalidChunkHandle_def)
qed

section \<open>Properties\<close>

text \<open>
  C1: In every reachable state, each allocation in use holds at least the requested
  number of bytes, lies inside one block granted by the sub-allocator, and
  overlaps no other allocation; no two of them have the same id.
\<close>

theorem bfc_allocations_safe:
  assumes "sub_alloc_ok alloc" "total_memory < 2 ^ 39"
    and "bfc_reachable alloc total_memory allow_growth st" and "allocation st p = Some (z, r, i)"
  shows "0 < r \<and> r \<le> z \<and> (\<exists>(m, a)\<in>set (sub_log st). a \<noteq> 0 \<and> a \<le> p \<and> p + z \<le> a + m) \<and>
    (\<forall>q z' r' i'. q \<noteq> p \<longrightarrow> allocation st q = Some (z', r', i') \<longrightarrow>
       (p + z \<le> q \<or> q + z' \<le> p) \<and> i' \<noteq> i)"
proof -
  obtain fl where inv: "inv {} fl st" using reachable_inv [OF assms(1-3)] by (auto simp: wf_bfc_def)
  note D = invD [OF inv]
  obtain h where h: "h \<in> users (ck st) (live fl st)" "c_ptr (ck st h) = p" "z = c_size (ck st h)" "r = c_requested_size (ck st h)"
    by (rule allocation_SomeD [OF inv assms(4)]) (auto intro: that)
  obtain a n where an: "(a, n) \<in> set (spans (regions st))" "placed_in (a, n) (ck st h)"
    using heap_okD(4) [OF D(1)] h(1) by (auto simp: placed_def users_def)
  obtain m where m: "n \<le> m" "(m, a) \<in> set (sub_log st)" using D(5) an(1) by (auto simp: granted_ok_def)
  have "a \<noteq> 0" using span_bounds(1) [OF heap_okD(1) [OF D(1)] an(1)] by simp
  then have "\<exists>(m, a)\<in>set (sub_log st). a \<noteq> 0 \<and> a \<le> p \<and> p + z \<le> a + m"
    using an(2) m h by (intro bexI [OF _ m(2)]) (auto simp: placed_in_def)
  moreover have "0 < r" "r \<le> z" using D(3) h(1,3,4) by (auto simp: acct_ok_def)
  moreover have "(p + z \<le> q \<or> q + z' \<le> p) \<and> i' \<noteq> i"
    if "q \<noteq> p" "allocation st q = Some (z', r', i')" for q z' r' i'
    using allocation_apart [OF inv assms(4) that(2)] that(1) by auto
  ultimately show ?thesis by blast
qed

theorem bfc_allocations_safe_witness:
  "sub_alloc_ok one_block \<and> bfc_reachable one_block 1024 False demo_state \<and>
   allocation demo_state 4096 = Some (512, 300, 1) \<and>
   (\<exists>(m, a)\<in>set (sub_log demo_state). a \<noteq> 0 \<and> a \<le> 4096 \<and> 4096 + 512 \<le> a + m)"
  using bfc_allocations_safe [OF one_block_ok _ demo_reachable demo_allocation] one_block_ok
    demo_reachable demo_allocation by simp

text \<open>
  The statistics of a reachable state are exact: \<open>bytes_in_use\<close> is the sum of
  the sizes of the allocations in use and never exceeds the memory limit, the
  regions take at most the memory limit, \<open>num_allocs\<close> counts the ids given out, and
  every visitor has been called exactly once for every region.
\<close>

theorem bfc_statistics:
  assumes "sub_alloc_ok alloc" "total_memory < 2 ^ 39" "bfc_reachable alloc total_memory allow_growth st"
  shows "finite (dom (allocation st)) \<and>
    bytes_in_use (GetStats st) = (\<Sum>p\<in>dom (allocation st). int (fst (the (allocation st p)))) \<and>
    bytes_in_use (GetStats st) \<le> int (total_region_allocated_bytes st) \<and>
    total_region_allocated_bytes st = sum_list (map r_memory_size (regions st)) \<and>
    total_region_allocated_bytes st \<le> total_memory \<and>
    num_allocs (GetStats st) = next_allocation_id st - 1 \<and>
    (\<forall>v r. r \<in> set (regions st) \<longrightarrow> count_list (visitor_calls st) (v, r_ptr r, r_memory_size r) =
       count_list (region_visitors st) v)"
proof -
  obtain fl where inv: "inv {} fl st" and ml: "memory_limit st = total_memory"
    using reachable_inv [OF assms] by (auto simp: wf_bfc_def)
  note D = invD [OF inv]
  note H = heap_okD [OF D(1)]
  let ?U = "users (ck st) (live fl st)"
  have dom: "dom (allocation st) = (\<lambda>h. c_ptr (ck st h)) ` ?U"
  proof (intro equalityI subsetI)
    fix p assume "p \<in> dom (allocation st)"
    then obtain v where "allocation st p = Some v" by auto
    then show "p \<in> (\<lambda>h. c_ptr (ck st h)) ` ?U" by (rule allocation_SomeD [OF inv]) auto
  qed (use allocation_user [OF inv] in auto)
  have inj: "inj_on (\<lambda>h. c_ptr (ck st h)) ?U"
    using apart_ptr_inj [OF H(5,4)] by (auto simp: inj_on_def users_def)
  have A: "finite ?U" "bytes_in_use (stats st) = (\<Sum>h\<in>?U. int (c_size (ck st h)))" "num_allocs (stats st) = next_allocation_id st - 1"
    using D(3) by (auto simp: acct_ok_def)
  have "(\<Sum>p\<in>dom (allocation st). int (fst (the (allocation st p)))) = (\<Sum>h\<in>?U. int (c_size (ck st h)))"
    unfolding dom using allocation_user [OF inv] by (simp add: sum.reindex [OF inj])
  moreover have "(\<Sum>h\<in>?U. c_size (ck st h)) \<le> (\<Sum>h\<in>live fl st. c_size (ck st h))"
    using H(6) by (intro sum_mono2) (auto simp: tiled_def users_def)
  moreover have "total_region_allocated_bytes st = (\<Sum>h\<in>live fl st. c_size (ck st h))"
    "total_region_allocated_bytes st = sum_list (map r_memory_size (regions st))"
    using H(6) D(4) by (auto simp: tiled_def limits_ok_def spans_def comp_def)
  moreover have "count_list (visitor_calls st) (v, r_ptr r, r_memory_size r) = count_list (region_visitors st) v"
    if "r \<in> set (regions st)" for v r
  proof -
    have "count_list (spans (regions st)) (r_ptr r, r_memory_size r) = 1"
      using spans_distinct [OF H(1)] that
      by (auto simp: distinct_count_atmost_1 count_list_mset count_mset_0_iff spans_def)
    then show ?thesis using D(6) by (simp add: visited_ok_def)
  qed
  ultimately show ?thesis
    using A D(4) ml dom unfolding GetStats_def by (simp add: limits_ok_def flip: of_nat_sum)
qed

theorem bfc_statistics_witness:
  "bytes_in_use (GetStats demo_state) = (\<Sum>p\<in>dom (allocation demo_state). int (fst (the (allocation demo_state p))))"
  using bfc_statistics [OF one_block_ok _ demo_reachable] by simp

text \<open>
  C5: The operations implement the table of allocations: a request that returns an
  address other than null adds one fresh entry whose size is less than twice the
  rounded request, a request that returns null changes no entry, releasing an
  entry removes exactly it, and the queries read the entry.
\<close>

theorem bfc_operations:
  assumes "sub_alloc_ok alloc" "total_memory < 2 ^ 39" "bfc_reachable alloc total_memory allow_growth st"
  shows "(\<forall>num_bytes p st'. num_bytes \<le> 2 ^ 64 - 256 \<longrightarrow> AllocateRawInternal alloc num_bytes st = Inr (p, st') \<longrightarrow>
      (if p = 0 then allocation st' = allocation st
       else allocation st p = None \<and> (\<exists>z. num_bytes \<le> z \<and> z < 2 * RoundedBytes num_bytes \<and>
         allocation st' = (allocation st)(p \<mapsto> (z, num_bytes, next_allocation_id st))))) \<and>
    (\<forall>p z r i. allocation st p = Some (z, r, i) \<longrightarrow> RequestedSize p st = Inr r \<and> AllocatedSize p st = Inr z \<and>
      AllocationId p st = Inr i \<and>
      (\<exists>st'. DeallocateRawInternal p st = Inr st' \<and> allocation st' = (allocation st)(p := None)))"
proof (intro conjI allI impI)
  fix num_bytes p st'
  assume num: "num_bytes \<le> 2 ^ 64 - 256" and A: "AllocateRawInternal alloc num_bytes st = Inr (p, st')"
  have valid: "sub_alloc_ok alloc \<and> wf_bfc st" using reachable_inv [OF assms] assms(1) by simp
  then obtain fl where inv: "inv {} fl st" by (auto simp: wf_bfc_def)
  have n: "num_bytes \<le> RoundedBytes num_bytes" using RoundedBytes_bounds(1) [OF num] .
  from AllocateRawInternal_cases [OF inv assms(1) num]
  show "if p = 0 then allocation st' = allocation st
     else allocation st p = None \<and> (\<exists>z. num_bytes \<le> z \<and> z < 2 * RoundedBytes num_bytes \<and>
       allocation st' = (allocation st)(p \<mapsto> (z, num_bytes, next_allocation_id st)))"
  proof cases
    case (3 p' fl' st2)
    then show ?thesis using A n by (auto simp: allocated_def intro: le_trans)
  qed (use A in \<open>auto simp: extended_def\<close>)
next
  fix p z r i assume p: "allocation st p = Some (z, r, i)"
  obtain fl where inv: "inv {} fl st" using reachable_inv [OF assms] by (auto simp: wf_bfc_def)
  note Q = chunk_query_allocation [OF inv p]
  show "RequestedSize p st = Inr r" "AllocatedSize p st = Inr z" "AllocationId p st = Inr i" by (fact Q)+
  show "\<exists>st'. DeallocateRawInternal p st = Inr st' \<and> allocation st' = (allocation st)(p := None)"
    using bfc_alloc.dealloc_block [of alloc st p] reachable_inv [OF assms] assms(1) p by blast
qed

theorem bfc_operations_witness:
  "AllocatedSize 4096 demo_state = Inr 512 \<and>
   (\<exists>st'. DeallocateRawInternal 4096 demo_state = Inr st' \<and> allocation st' = (allocation demo_state)(4096 := None)) \<and>
   (\<exists>z. 300 \<le> z \<and> z < 2 * RoundedBytes 300 \<and> allocation demo_state = (allocation demo_init)(4096 \<mapsto> (z, 300, 1)))"
proof -
  have "next_allocation_id demo_init = 1" by (simp add: demo_init_def)
  moreover have "\<exists>z. 300 \<le> z \<and> z < 2 * RoundedBytes 300 \<and>
      allocation demo_state = (allocation demo_init)(4096 \<mapsto> (z, 300, next_allocation_id demo_init))"
    using conjunct1 [OF bfc_operations [OF one_block_ok _ bfc_reachable.create [OF demo_create]]] demo_alloc
    by fastforce
  moreover have "AllocatedSize 4096 demo_state = Inr 512 \<and>
     (\<exists>st'. DeallocateRawInternal 4096 demo_state = Inr st' \<and> allocation st' = (allocation demo_state)(4096 := None))"
    using conjunct2 [OF bfc_operations [OF one_block_ok _ demo_reachable]] demo_allocation by fastforce
  ultimately show ?thesis by simp
qed

text \<open>
  C6: The operations do not fail. The constructor passes all its checks. On a reachable state no
  request fails a \<open>CHECK\<close>, accesses a chunk or handle out of range or misses its region; it may
  fail to return only when it is for at most 2048 bytes and the sub-allocator has not failed
  before, and all other requests return. Releasing null or the address of a block in use
  returns, in a reachable state again, and the queries on a block in use return. What else a
  caller may pass is no part of this: releasing a block twice fails a check
  (\<open>bfc_double_free\<close>).
\<close>

theorem bfc_no_crash:
  assumes "sub_alloc_ok alloc" "total_memory < 2 ^ 39" "bfc_reachable alloc total_memory allow_growth st"
    and "num_bytes \<le> 2 ^ 64 - 256"
  shows "AllocateRawInternal alloc num_bytes st \<notin> {Inl CHECK_failed, Inl LOG_FATAL, Inl Out_of_bounds} \<and>
    (2048 < num_bytes \<or> num_bytes = 0 \<or> started_backpedal st \<longrightarrow>
      (\<exists>p st'. AllocateRawInternal alloc num_bytes st = Inr (p, st') \<and>
         bfc_reachable alloc total_memory allow_growth st')) \<and>
    (\<forall>p. p = 0 \<or> allocation st p \<noteq> None \<longrightarrow>
      (\<exists>st'. DeallocateRawInternal p st = Inr st' \<and> bfc_reachable alloc total_memory allow_growth st')) \<and>
    (\<forall>p. allocation st p \<noteq> None \<longrightarrow>
      (\<exists>r z i. RequestedSize p st = Inr r \<and> AllocatedSize p st = Inr z \<and> AllocationId p st = Inr i)) \<and>
    (\<exists>st0. BFCAllocator total_memory allow_growth = Inr st0)"
proof -
  obtain fl where inv: "inv {} fl st" using reachable_inv [OF assms(1-3)] by (auto simp: wf_bfc_def)
  have ok: "sub_alloc_ok alloc \<and> wf_bfc st" using reachable_inv [OF assms(1-3)] assms(1) by simp
  have "\<exists>st'. DeallocateRawInternal p st = Inr st' \<and> bfc_reachable alloc total_memory allow_growth st'"
    if "p = 0 \<or> allocation st p \<noteq> None" for p
  proof (cases "p = 0")
    case True
    then show ?thesis using assms(3) by (simp add: DeallocateRawInternal_def)
  next
    case False
    then have p: "allocation st p \<noteq> None" using that by simp
    then obtain st' where "DeallocateRawInternal p st = Inr st'" using bfc_alloc.dealloc_block [of alloc st p] ok by blast
    then show ?thesis using bfc_reachable.deallocate [OF assms(3) p] by blast
  qed
  moreover have "\<exists>r z i. RequestedSize p st = Inr r \<and> AllocatedSize p st = Inr z \<and> AllocationId p st = Inr i"
    if p: "allocation st p \<noteq> None" for p
  proof -
    obtain z r i where "allocation st p = Some (z, r, i)" using p by auto
    then show ?thesis using chunk_query_allocation [OF inv] by blast
  qed
  moreover have "\<exists>st0. BFCAllocator total_memory allow_growth = Inr st0" by (simp add: BFCAllocator_returns)
  moreover from AllocateRawInternal_cases [OF inv assms(1,4)]
  have "AllocateRawInternal alloc num_bytes st \<notin> {Inl CHECK_failed, Inl LOG_FATAL, Inl Out_of_bounds} \<and>
    (2048 < num_bytes \<or> num_bytes = 0 \<or> started_backpedal st \<longrightarrow>
      (\<exists>p st'. AllocateRawInternal alloc num_bytes st = Inr (p, st') \<and>
         bfc_reachable alloc total_memory allow_growth st'))"
    by cases (use bfc_reachable.allocate [OF assms(3,4)] in auto)
  ultimately show ?thesis by blast
qed

theorem bfc_no_crash_witness:
  "(\<exists>p st'. AllocateRawInternal one_block 4000 demo_state = Inr (p, st') \<and> bfc_reachable one_block 1024 False st') \<and>
   (\<exists>st'. DeallocateRawInternal 4096 demo_state = Inr st' \<and> bfc_reachable one_block 1024 False st')"
  using bfc_no_crash [OF one_block_ok _ demo_reachable, of 4000] demo_allocation by auto

text \<open>
  C7: Best fit. If some free block can hold the rounded request, the request
  succeeds without asking the sub-allocator for memory, and the address returned
  is that of the smallest such block, of the lowest address among equals.
\<close>

theorem bfc_best_fit:
  assumes "sub_alloc_ok alloc" "total_memory < 2 ^ 39" "bfc_reachable alloc total_memory allow_growth st"
    and "0 < num_bytes" "num_bytes \<le> 2 ^ 64 - 256"
    and "free_block st q = Some y" "RoundedBytes num_bytes \<le> y"
  shows "\<exists>p z st'. AllocateRawInternal alloc num_bytes st = Inr (p, st') \<and> sub_log st' = sub_log st \<and>
    free_block st p = Some z \<and> RoundedBytes num_bytes \<le> z \<and> (z < y \<or> z = y \<and> p \<le> q)"
proof -
  obtain fl where inv: "inv {} fl st" using reachable_inv [OF assms(1-3)] by (auto simp: wf_bfc_def)
  let ?rb = "RoundedBytes num_bytes"
  obtain k where k: "k \<in> free_chunks fl st" "c_ptr (ck st k) = q" "c_size (ck st k) = y"
    using free_block_iff [OF inv] assms(6) by auto
  from FindChunkPtr_allocated [OF inv assms(4,5)] show ?thesis
  proof cases
    case 1
    then show ?thesis using k assms(7) by auto
  next
    case (2 n fl' st')
    have "c_ptr (ck st n) \<noteq> 0" using 2(5) by (simp add: allocated_def)
    then have "AllocateRawInternal alloc num_bytes st = Inr (c_ptr (ck st n), st')"
      using 2(2) assms(4) by (simp add: AllocateRawInternal_def Let_def)
    moreover have "free_block st (c_ptr (ck st n)) = Some (c_size (ck st n))"
      using free_block_iff [OF inv] 2(1) by (auto simp: best_fit_def)
    moreover have "c_size (ck st n) < y \<or> c_size (ck st n) = y \<and> c_ptr (ck st n) \<le> q" "?rb \<le> c_size (ck st n)"
      using 2(1) k assms(7) by (auto simp: best_fit_def)
    ultimately show ?thesis using 2(4) unfolding same_env_def by blast
  qed
qed

lemma demo_free: "free_block demo_state 4608 = Some 512"
  by (simp add: free_block_def demo_state_def get_handle_def region_get_handle_def eval_simps)

theorem bfc_best_fit_witness:
  "\<exists>p z st'. AllocateRawInternal one_block 200 demo_state = Inr (p, st') \<and> sub_log st' = sub_log demo_state \<and>
    free_block demo_state p = Some z \<and> RoundedBytes 200 \<le> z \<and> (z < 512 \<or> z = 512 \<and> p \<le> 4608)"
  using bfc_best_fit [OF one_block_ok _ demo_reachable _ _ demo_free, of 200]
  by (simp add: RoundedBytes_eq)

text \<open>
  C8: Coalescing is complete. When nothing is in use, every region is again one
  free block of its full size, so a request that fits into some region succeeds.
\<close>

theorem bfc_coalesces:
  assumes "sub_alloc_ok alloc" "total_memory < 2 ^ 39" "bfc_reachable alloc total_memory allow_growth st"
    and "\<forall>p. allocation st p = None" "r \<in> set (regions st)"
  shows "free_block st (r_ptr r) = Some (r_memory_size r) \<and>
    (\<forall>num_bytes. 0 < num_bytes \<longrightarrow> num_bytes \<le> r_memory_size r \<longrightarrow>
      (\<exists>p st'. AllocateRawInternal alloc num_bytes st = Inr (p, st') \<and> p \<noteq> 0))"
proof -
  obtain fl where inv: "inv {} fl st" using reachable_inv [OF assms(1-3)] by (auto simp: wf_bfc_def)
  note H = heap_okD [OF invD(1) [OF inv]]
  have r: "(r_ptr r, r_memory_size r) \<in> set (spans (regions st))" "256 dvd r_memory_size r" "r_memory_size r \<le> 2 ^ 39"
    using assms(5) H(1) by (auto simp: spans_def regions_ok_def region_ok_def)
  obtain h where h: "h \<in> free_chunks fl st" "c_ptr (ck st h) = r_ptr r" "c_size (ck st h) = r_memory_size r"
    using idle_regions [OF inv _ r(1)] assms(4) by auto
  have "\<exists>p st'. AllocateRawInternal alloc num_bytes st = Inr (p, st') \<and> p \<noteq> 0"
    if n: "0 < num_bytes" "num_bytes \<le> r_memory_size r" for num_bytes
  proof -
    have le: "num_bytes \<le> 2 ^ 64 - 256" using n r(3) by simp
    have fit: "RoundedBytes num_bytes \<le> r_memory_size r" using n(2) r(2,3) by (intro RoundedBytes_le) auto
    from FindChunkPtr_allocated [OF inv n(1) le] show ?thesis
    proof cases
      case (2 k fl' st')
      then show ?thesis using n(1) by (auto simp: AllocateRawInternal_def Let_def allocated_def)
    qed (use h fit in auto)
  qed
  then show ?thesis using free_block_iff [OF inv] h by blast
qed

lemma demo_dealloc:
  obtains st where "DeallocateRawInternal 4096 demo_state = Inr st" "\<forall>p. allocation st p = None"
    "\<exists>r\<in>set (regions st). r_ptr r = 4096 \<and> r_memory_size r = 1024"
proof -
  obtain fl where inv: "inv {} fl demo_state"
    using reachable_inv [OF one_block_ok _ demo_reachable] by (auto simp: wf_bfc_def)
  obtain st fl' where st: "DeallocateRawInternal 4096 demo_state = Inr st" "same_env demo_state st"
      "allocation st = (allocation demo_state)(4096 := None)"
    using DeallocateRawInternal_ok [OF inv demo_allocation] by blast
  have "allocation demo_state = (allocation demo_init)(4096 \<mapsto> (512, 300, 1))"
    using bfc_alloc.alloc_block [of one_block demo_init 300] demo_alloc demo_allocation
      reachable_inv [OF one_block_ok _ bfc_reachable.create [OF demo_create]] one_block_ok by fastforce
  moreover have "allocation demo_init = (\<lambda>_. None)"
    by (simp add: fun_eq_iff allocation_def demo_init_def get_handle_def RegionFor_def upper_bound_def)
  moreover have "(4096, 1024) \<in> set (spans (regions st))"
    using st(2) by (simp add: same_env_def demo_state_def demo_extended_def spans_def)
  then have "\<exists>r\<in>set (regions st). r_ptr r = 4096 \<and> r_memory_size r = 1024" by (auto simp: spans_def)
  ultimately show ?thesis using that [OF st(1)] st(3) by simp
qed

theorem bfc_coalesces_witness:
  "\<exists>st. DeallocateRawInternal 4096 demo_state = Inr st \<and> free_block st 4096 = Some 1024 \<and>
     (\<exists>p st'. AllocateRawInternal one_block 1000 st = Inr (p, st') \<and> p \<noteq> 0)"
proof -
  obtain st where st: "DeallocateRawInternal 4096 demo_state = Inr st" "\<forall>p. allocation st p = None"
    "\<exists>r\<in>set (regions st). r_ptr r = 4096 \<and> r_memory_size r = 1024"
    by (rule demo_dealloc) (rule that; assumption)
  then obtain r where r: "r \<in> set (regions st)" "r_ptr r = 4096" "r_memory_size r = 1024" by blast
  have "bfc_reachable one_block 1024 False st"
    using bfc_reachable.deallocate [OF demo_reachable _ st(1)] demo_allocation by simp
  from bfc_coalesces [OF one_block_ok _ this _ r(1)] show ?thesis using st(1,2) r(2,3) by auto
qed

text \<open>
  Releasing a block a second time, or an address of a region at which no
  allocation starts, is detected: the \<open>CHECK\<close> on the handle or on \<open>in_use\<close> fails.
\<close>

theorem bfc_double_free:
  assumes "sub_alloc_ok alloc" "total_memory < 2 ^ 39" "bfc_reachable alloc total_memory allow_growth st"
    and "allocation st p \<noteq> None" "DeallocateRawInternal p st = Inr st'"
  shows "DeallocateRawInternal p st' = Inl CHECK_failed"
proof -
  obtain fl where inv: "inv {} fl st" using reachable_inv [OF assms(1-3)] by (auto simp: wf_bfc_def)
  obtain z r i where p: "allocation st p = Some (z, r, i)" using assms(4) by auto
  obtain fl' where st': "inv {} fl' st'" "same_env st st'" "allocation st' = (allocation st)(p := None)"
    using DeallocateRawInternal_ok [OF inv p] assms(5) by (metis Inr_inject)
  obtain h where h: "h \<in> users (ck st) (live fl st)" "c_ptr (ck st h) = p"
    by (rule allocation_SomeD [OF inv p]) (auto intro: that)
  have "aligned (spans (regions st)) p" "p \<noteq> 0"
    using chunk_bounds(1,6) [OF heap_okD(1,4) [OF invD(1) [OF inv]]] h by (auto simp: users_def)
  then show ?thesis
    using st'(2,3) by (intro DeallocateRawInternal_check [OF st'(1)]) (auto simp: same_env_def)
qed

theorem bfc_double_free_witness:
  "\<exists>st. DeallocateRawInternal 4096 demo_state = Inr st \<and> DeallocateRawInternal 4096 st = Inl CHECK_failed"
proof -
  obtain st where "DeallocateRawInternal 4096 demo_state = Inr st" by (rule demo_dealloc)
  then show ?thesis using bfc_double_free [OF one_block_ok _ demo_reachable] demo_allocation by auto
qed


text \<open>
  C31: A sub-allocator that always fails makes the first small request hang. The
  backpedalling loop shrinks the size by \<open>RoundedBytes (bytes * 0.9f)\<close>, and 2304
  is a fixed point of that, so for requests of at most 2048 bytes the loop
  condition \<open>bytes > rounded_bytes\<close> stays true for ever.
\<close>

theorem bfc_backpedal_hangs:
  assumes "2304 \<le> total_memory" "total_memory < 2 ^ 39" "0 < num_bytes" "num_bytes \<le> 2048"
    and null: "\<forall>log n. alloc log n = 0"
  shows "\<exists>st. BFCAllocator total_memory allow_growth = Inr st \<and>
    AllocateRawInternal alloc num_bytes st = Inl Never_returns"
proof -
  obtain st where st: "BFCAllocator total_memory allow_growth = Inr st" by (simp add: BFCAllocator_returns)
  define cur where "cur = curr_region_allocation_bytes st"
  define avail where "avail = total_memory div 256 * 256"
  note st' = st [unfolded BFCAllocator_returns, simplified, symmetric]
  have rb: "RoundedBytes num_bytes \<le> 2048" using assms(4) by (intro RoundedBytes_le) auto
  define m where "m = (if allow_growth then min total_memory 1048576 else total_memory)"
  have m: "2304 \<le> m" "m \<le> 2 ^ 64 - 256" "cur = RoundedBytes m"
    using assms(1,2) by (auto simp: m_def cur_def st')
  have cur: "256 dvd cur" "2304 \<le> cur" using RoundedBytes_bounds(1,3) [OF m(2)] m(1,3) by auto
  have avail: "256 dvd avail" "2304 \<le> avail" "avail < 2 ^ 39"
  proof -
    have "9 \<le> total_memory div 256" using div_le_mono [OF assms(1), of 256] by simp
    then show "2304 \<le> avail" by (simp add: avail_def)
    have "avail \<le> total_memory" by (simp add: avail_def)
    then show "avail < 2 ^ 39" using assms(2) by linarith
  qed (simp add: avail_def)
  define b where "b = min cur avail"
  have b: "256 dvd b" "2304 \<le> b" "b < 2 ^ 63" using cur avail by (auto simp: b_def min_def)
  have loop: "backpedal_loop alloc (RoundedBytes num_bytes) 0 (backpedal b) log = None" for log
    using b rb backpedal_unit [of b] backpedal_ge_2304 [OF b] null by (intro backpedal_never_ends) auto
  have "find_bin st rb b = Inr None" for rb b
    using find_bin_cases [of st rb b] by (auto simp: st')
  then have find: "FindChunkPtr n m k st = Inr (0, st)" for n m k by (simp add: FindChunkPtr_def)
  have "sub_sz (memory_limit st) (total_region_allocated_bytes st) = total_memory"
    using assms(2) by (simp add: st' sub_sz_def)
  moreover have "grow_loop (RoundedBytes num_bytes) cur False = Some (cur, False)"
    using rb cur by (subst grow_loop.simps) simp
  moreover have "\<not> started_backpedal st" by (simp add: st')
  ultimately have "Extend alloc (RoundedBytes num_bytes) st = Inl Never_returns"
    using rb avail null loop
    by (simp add: Extend_def obtain_region_def avail_def [symmetric] cur_def [symmetric] b_def [symmetric])
  then show ?thesis using st assms(3) by (simp add: AllocateRawInternal_def Let_def find)
qed

theorem bfc_backpedal_hangs_witness:
  "\<exists>st. BFCAllocator 4096 False = Inr st \<and> AllocateRawInternal (\<lambda>log n. 0) 100 st = Inl Never_returns"
  by (rule bfc_backpedal_hangs) auto

text \<open>The 1024-byte allocator after a request of \<open>n\<close> bytes that was rounded to 0.\<close>

definition demo_wrapped :: "nat \<Rightarrow> bfc" where
  "demo_wrapped n = demo_extended\<lparr>bins := [[], [], [1]] @ replicate 18 [],
     regions := [\<lparr>r_ptr = 4096, r_memory_size = 1024, r_end_ptr = 5120, r_handles = [1, - 1, - 1, - 1]\<rparr>],
     chunks := [\<lparr>c_size = 0, c_requested_size = n, c_allocation_id = 1, c_ptr = 4096, c_prev = - 1,
         c_next = 1, c_bin_num = - 1\<rparr>,
       \<lparr>c_size = 1024, c_requested_size = 0, c_allocation_id = - 1, c_ptr = 4096, c_prev = 0,
         c_next = - 1, c_bin_num = 2\<rparr>],
     next_allocation_id := 2,
     stats := \<lparr>num_allocs = 1, bytes_in_use = 0, max_bytes_in_use = 0, max_alloc_size = 0, bytes_limit = 1024\<rparr>\<rparr>"

lemma RoundedBytes_wraps: "2 ^ 64 - 256 < n \<Longrightarrow> n < 2 ^ 64 \<Longrightarrow> RoundedBytes n = 0"
proof -
  assume n: "2 ^ 64 - 256 < n" "n < 2 ^ 64"
  then obtain k where k: "n + 256 = 2 ^ 64 + k" "0 < k" "k < 256"
    by (intro that [of "n + 256 - 2 ^ 64"]) auto
  then have "add_sz n 256 = k" by (simp add: add_sz_def)
  moreover have "sub_sz k 1 = k - 1" using k by (cases k) (simp_all add: sub_sz_def)
  ultimately show ?thesis using k by (simp add: RoundedBytes_def)
qed

lemma BinNum_0: "BinNumForSize 0 = 0"
  using Log2FloorNonZero_eq [of 0 1] by (simp add: BinNumForSize_def kMinAllocationBits_def drop_bit_eq_div)

lemma demo_extend_0: "Extend one_block 0 demo_init = Inr (True, demo_extended)"
  by (simp add: Extend_def demo_init_def demo_extended_def obtain_region_def one_block_def add_region_def
      eval_simps replicate_demo)

lemma find_bin_2:
  assumes "bins st = [[], [], [h]] @ replicate 18 []" "ChunkFromHandle st h = Inr c" "rb \<le> c_size c"
  shows "find_bin st rb 0 = Inr (Some (2, 0))"
proof -
  have "find_bin st rb (Suc (Suc 0)) = Inr (Some (2, 0))"
    using assms by (subst find_bin.simps) (simp add: kNumBins_def)
  then have "find_bin st rb (Suc 0) = Inr (Some (2, 0))"
    using assms by (subst find_bin.simps) (simp add: kNumBins_def)
  then show ?thesis using assms by (subst find_bin.simps) (simp add: kNumBins_def)
qed

lemma demo_find_wrapped: "FindChunkPtr 0 0 n demo_extended = Inr (4096, demo_wrapped n)"
proof -
  have "find_bin demo_extended 0 0 = Inr (Some (2, 0))"
    by (rule find_bin_2) (auto simp: demo_extended_def eval_simps)
  then show ?thesis
    by (simp add: FindChunkPtr_def) (simp add: demo_extended_def demo_wrapped_def update_stats_def Let_def
        RemoveFreeChunkIterFromBin_def SplitChunk_def eval_simps replicate_demo)
qed

lemma demo_find_wrapped_again: "\<exists>st. FindChunkPtr 0 0 n (demo_wrapped n) = Inr (4096, st)"
proof -
  have "find_bin (demo_wrapped n) 0 0 = Inr (Some (2, 0))"
    by (rule find_bin_2) (auto simp: demo_extended_def demo_wrapped_def eval_simps)
  then show ?thesis
    by (simp add: FindChunkPtr_def) (simp add: demo_extended_def demo_wrapped_def update_stats_def Let_def
        RemoveFreeChunkIterFromBin_def SplitChunk_def eval_simps replicate_demo)
qed

text \<open>
  A request within 255 bytes of the largest \<open>size_t\<close> is rounded to 0 bytes. It
  is then granted, and the next such request gets the same address.
\<close>

theorem bfc_request_overflow:
  assumes "2 ^ 64 - 256 < num_bytes" "num_bytes < 2 ^ 64"
  shows "RoundedBytes num_bytes = 0 \<and>
    (\<exists>st st'. AllocateRawInternal one_block num_bytes demo_init = Inr (4096, st) \<and>
       AllocateRawInternal one_block num_bytes st = Inr (4096, st'))"
proof -
  have "FindChunkPtr 0 0 num_bytes demo_init = Inr (0, demo_init)" by (simp add: FindChunkPtr_def demo_find)
  then have "AllocateRawInternal one_block num_bytes demo_init = Inr (4096, demo_wrapped num_bytes)"
    using assms by (simp add: AllocateRawInternal_def RoundedBytes_wraps BinNum_0 demo_extend_0 demo_find_wrapped)
  moreover have "\<exists>st'. AllocateRawInternal one_block num_bytes (demo_wrapped num_bytes) = Inr (4096, st')"
    using assms demo_find_wrapped_again [of num_bytes]
    by (auto simp: AllocateRawInternal_def RoundedBytes_wraps BinNum_0)
  ultimately show ?thesis using RoundedBytes_wraps [OF assms] by blast
qed

theorem bfc_request_overflow_witness:
  "\<exists>st st'. AllocateRawInternal one_block (2 ^ 64 - 1) demo_init = Inr (4096, st) \<and>
     AllocateRawInternal one_block (2 ^ 64 - 1) st = Inr (4096, st')"
  using bfc_request_overflow [of "2 ^ 64 - 1"] by simp

text \<open>
  The bins partition the chunk sizes: bin \<open>b\<close> starts at \<open>BinNumToSize b\<close>, a
  size goes to the last bin that starts at or below it, and all checks of the
  constructor succeed. The portable variant of \<open>Log2FloorNonZero\<close> is one too high.
\<close>

theorem bfc_bins:
  assumes "256 \<le> n" "n < 2 ^ 64"
  shows "BinNumForSize n < kNumBins \<and> BinNumToSize (BinNumForSize n) \<le> n \<and>
    (BinNumForSize n + 1 < kNumBins \<longrightarrow> n < BinNumToSize (BinNumForSize n + 1)) \<and>
    (\<forall>b<kNumBins. bin_checks b) \<and>
    Log2FloorNonZero_fallback n = Log2FloorNonZero n + 1"
proof -
  have size: "BinNumToSize b = 256 * 2 ^ b" if "b < 21" for b
  proof -
    have "(2::nat) ^ b \<le> 2 ^ 21" using that by (intro power_increasing) auto
    then show ?thesis by (simp add: BinNumToSize_def push_bit_eq_mult)
  qed
  note R = BinNumForSize_range [OF assms]
  have "Log2FloorNonZero_fallback n = Log2FloorNonZero n + 1"
    using Log2FloorNonZero_ex [of n] assms Log2FloorNonZero_fallback_eq [of "Log2FloorNonZero n" n] by auto
  then show ?thesis using R size bin_checks_hold by (auto simp: kNumBins_def)
qed

theorem bfc_bins_witness: "BinNumForSize 1000 < kNumBins \<and> Log2FloorNonZero_fallback 1000 = Log2FloorNonZero 1000 + 1"
  using bfc_bins [of 1000] by simp

end
