(* ===== verification/Ordered_Code.thy ===== *)
theory Ordered_Code
  imports Coding "HOL-Library.List_Lexorder"
begin

text \<open>
  The order-preserving encodings of \<open>lib/strings/ordered_code.cc\<close>: strings, unsigned
  and signed 64-bit numbers become byte strings that compare, byte by byte, as the
  values do.

  A pointer into a string is an index, a \<open>StringPiece\<close> that is consumed is the list
  of the bytes left, and a reader that returns \<open>false\<close> is \<open>None\<close>. \<open>DCHECK\<close> and
  \<open>assert\<close> are not compiled into the optimised build and have no counterpart.
\<close>

section \<open>Strings\<close>

definition kEscape1 :: byte where "kEscape1 = 0"
definition kNullCharacter :: byte where "kNullCharacter = 0xff"
definition kSeparator :: byte where "kSeparator = 1"
definition kEscape2 :: byte where "kEscape2 = 0xff"
definition kFFCharacter :: byte where "kFFCharacter = 0"
definition kEscape1_Separator :: bytes where "kEscape1_Separator = [kEscape1, kSeparator]"

definition AppendBytes :: "bytes \<Rightarrow> bytes \<Rightarrow> nat \<Rightarrow> bytes" where
  "AppendBytes dest src len = dest @ take len src"

definition IsSpecialByte :: "byte \<Rightarrow> bool" where
  "IsSpecialByte c \<longleftrightarrow> c + 1 < 2"

function SkipToNextSpecialByte :: "bytes \<Rightarrow> nat \<Rightarrow> nat \<Rightarrow> nat" where
  "SkipToNextSpecialByte s p limit =
     (if p < limit \<and> \<not> IsSpecialByte (s ! p) then SkipToNextSpecialByte s (p + 1) limit else p)"
  by auto
termination
  by (relation "measure (\<lambda>(s, p, limit). limit - p)") auto

declare SkipToNextSpecialByte.simps [simp del]

lemma Skip_ge: "p \<le> SkipToNextSpecialByte s p limit"
proof (induction s p limit rule: SkipToNextSpecialByte.induct)
  case (1 s p limit)
  then show ?case by (subst SkipToNextSpecialByte.simps) auto
qed

function EncodeStringFragment_loop :: "bytes \<Rightarrow> nat \<Rightarrow> nat \<Rightarrow> bytes \<Rightarrow> bytes" where
  "EncodeStringFragment_loop s p copy_start dest =
     (let limit = length s; p = SkipToNextSpecialByte s p limit in
      if p \<ge> limit then
        (if p > copy_start then AppendBytes dest (drop copy_start s) (p - copy_start) else dest)
      else
        let c = s ! p; p = p + 1 in
        if c = kEscape1 then
          EncodeStringFragment_loop s p p
            (AppendBytes dest (drop copy_start s) (p - copy_start - 1) @ [kEscape1, kNullCharacter])
        else
          EncodeStringFragment_loop s p p
            (AppendBytes dest (drop copy_start s) (p - copy_start - 1) @ [kEscape2, kFFCharacter]))"
  by auto
termination
proof (relation "measure (\<lambda>(s, p, _). length s - p)", goal_cases)
  case (2 s p copy_start dest limit q c r)
  then show ?case using Skip_ge [of p s "length s"] by auto
next
  case (3 s p copy_start dest limit q c r)
  then show ?case using Skip_ge [of p s "length s"] by auto
qed auto

declare EncodeStringFragment_loop.simps [simp del]

definition EncodeStringFragment :: "bytes \<Rightarrow> bytes \<Rightarrow> bytes" where
  "EncodeStringFragment dest s = EncodeStringFragment_loop s 0 0 dest"

definition WriteString :: "bytes \<Rightarrow> bytes \<Rightarrow> bytes" where
  "WriteString dest s = AppendBytes (EncodeStringFragment dest s) kEscape1_Separator 2"

text \<open>
  The loop of \<open>ReadStringInternal\<close>; \<open>limit\<close> is the position of the last byte, and
  -1 for an empty source.
\<close>

definition skip_to :: "bytes \<Rightarrow> nat \<Rightarrow> int \<Rightarrow> nat" where
  "skip_to s p limit = SkipToNextSpecialByte s p (nat limit)"

function ReadString_loop :: "bytes \<Rightarrow> nat \<Rightarrow> nat \<Rightarrow> bytes \<Rightarrow> (bytes \<times> bytes) option" where
  "ReadString_loop src start copy_start result =
     (let limit = int (length src) - 1; start = skip_to src start limit in
      if int start \<ge> limit then None
      else
        let c = src ! start; start = start + 1;
            result = AppendBytes result (drop copy_start src) (start - copy_start - 1);
            next_char = src ! start; start = start + 1 in
        if c = kEscape1 then
          (if next_char = kSeparator then Some (result, drop start src)
           else if next_char = kNullCharacter then ReadString_loop src start start (result @ [0])
           else None)
        else
          (if next_char = kFFCharacter then ReadString_loop src start start (result @ [0xff])
           else None))"
  by auto
termination
proof (relation "measure (\<lambda>(s, p, _). length s - p)", goal_cases)
  case (2 src start copy_start result limit q c r result' n t)
  then show ?case using Skip_ge [of start src "nat limit"] by (auto simp: skip_to_def)
next
  case (3 src start copy_start result limit q c r result' n t)
  then show ?case using Skip_ge [of start src "nat limit"] by (auto simp: skip_to_def)
qed auto

declare ReadString_loop.simps [simp del]

definition ReadString :: "bytes \<Rightarrow> bytes \<Rightarrow> (bytes \<times> bytes) option" where
  "ReadString src result = ReadString_loop src 0 0 result"

section \<open>Unsigned numbers\<close>

text \<open>The loop fills \<open>buf\<close> from its end; the bytes filled are the list.\<close>

lemma drop_bit_8_less: "0 < (v :: uint64) \<Longrightarrow> unat (drop_bit 8 v) < unat v"
  by (simp add: unat_drop_bit_div unat_gt_0)

function WriteNum_loop :: "uint64 \<Rightarrow> bytes \<Rightarrow> bytes" where
  "WriteNum_loop val buf =
     (if val > 0 then WriteNum_loop (drop_bit 8 val) (ucast (val AND 0xff) # buf) else buf)"
  by auto
termination
  by (relation "measure (\<lambda>(v, _). unat v)") (simp_all add: drop_bit_8_less)

declare WriteNum_loop.simps [simp del]

definition WriteNumIncreasing :: "bytes \<Rightarrow> uint64 \<Rightarrow> bytes" where
  "WriteNumIncreasing dest val =
     (let buf = WriteNum_loop val []; len = length buf in dest @ of_nat len # buf)"

definition ReadNumIncreasing :: "bytes \<Rightarrow> (uint64 \<times> bytes) option" where
  "ReadNumIncreasing src =
     (case src of [] \<Rightarrow> None
      | c # payload \<Rightarrow>
          let len = unat c in
          if len + 1 > length src \<or> len > 8 then None
          else Some (foldl (\<lambda>tmp b. push_bit 8 tmp OR ucast b) 0 (take len payload), drop len payload))"

section \<open>Signed numbers\<close>

text \<open>An \<open>int64\<close> is its bit pattern; \<open>sint\<close> reads the signed value.\<close>

type_synonym int64 = "64 word"

definition kMaxSigned64Length :: nat where "kMaxSigned64Length = 10"

definition kLengthToHeaderBits :: "(byte \<times> byte) list" where
  "kLengthToHeaderBits =
     [(0, 0), (0x80, 0), (0xc0, 0), (0xe0, 0), (0xf0, 0), (0xf8, 0), (0xfc, 0), (0xfe, 0),
      (0xff, 0), (0xff, 0x80), (0xff, 0xc0)]"

definition kLengthToMask :: "uint64 list" where
  "kLengthToMask =
     [0, 0x80, 0xc000, 0xe00000, 0xf0000000, 0xf800000000, 0xfc0000000000, 0xfe000000000000,
      0xff00000000000000, 0x8000000000000000, 0]"

definition kBitsToLength :: "nat list" where
  "kBitsToLength =
     [1, 1, 1, 1, 1, 1, 1, 2, 2, 2, 2, 2, 2, 2, 3, 3, 3, 3, 3, 3, 3, 4,
      4, 4, 4, 4, 4, 4, 5, 5, 5, 5, 5, 5, 5, 6, 6, 6, 6, 6, 6, 6, 7, 7,
      7, 7, 7, 7, 7, 8, 8, 8, 8, 8, 8, 8, 9, 9, 9, 9, 9, 9, 9, 10]"

definition Log2Floor64 :: "uint64 \<Rightarrow> int" where
  "Log2Floor64 n = (if n = 0 then - 1 else int (63 XOR builtin_clzll (unat n)))"

text \<open>The variant for compilers other than GCC and Clang.\<close>

fun Log2Floor32_loop :: "nat list \<Rightarrow> uint32 \<Rightarrow> int \<Rightarrow> int" where
  "Log2Floor32_loop [] value log = log"
| "Log2Floor32_loop (i # is) value log =
     (let shift = push_bit i 1; x = drop_bit shift value in
      if x \<noteq> 0 then Log2Floor32_loop is x (log + int shift) else Log2Floor32_loop is value log)"

definition Log2Floor32_Portable :: "uint32 \<Rightarrow> int" where
  "Log2Floor32_Portable n = (if n = 0 then - 1 else Log2Floor32_loop [4, 3, 2, 1, 0] n 0)"

definition Log2Floor64_Portable :: "uint64 \<Rightarrow> int" where
  "Log2Floor64_Portable n =
     (let topbits = (ucast (drop_bit 32 n) :: uint32) in
      if topbits = 0 then Log2Floor32_Portable (ucast n) else 32 + Log2Floor32_Portable topbits)"

definition SignedEncodingLength :: "int64 \<Rightarrow> nat" where
  "SignedEncodingLength n = kBitsToLength ! nat (Log2Floor64 (if n <s 0 then NOT n else n) + 1)"

definition StoreBigEndian64 :: "uint64 \<Rightarrow> bytes" where
  "StoreBigEndian64 v = map (\<lambda>i. ucast (drop_bit (56 - 8 * i) v AND 0xff)) [0..<8]"

definition LoadBigEndian64 :: "bytes \<Rightarrow> uint64" where
  "LoadBigEndian64 src =
     foldl (\<lambda>result i. result OR push_bit (56 - 8 * i) (ucast (src ! i))) 0 [0..<8]"

definition WriteSignedNumIncreasing :: "bytes \<Rightarrow> int64 \<Rightarrow> bytes" where
  "WriteSignedNumIncreasing dest val =
     (let x = (if val <s 0 then NOT val else val) in
      if x < 64 then dest @ [fst (kLengthToHeaderBits ! 1) XOR ucast val]
      else
        let sign_byte = (if val <s 0 then 0xff else 0);
            buf = [sign_byte, sign_byte] @ StoreBigEndian64 val;
            len = SignedEncodingLength x;
            begin_bytes = drop (length buf - len) buf;
            begin_bytes = begin_bytes[0 := begin_bytes ! 0 XOR fst (kLengthToHeaderBits ! len)];
            begin_bytes = begin_bytes[1 := begin_bytes ! 1 XOR snd (kLengthToHeaderBits ! len)] in
        dest @ take len begin_bytes)"

text \<open>The length and the raw value, before the header bits are removed.\<close>

definition read_signed_raw :: "bytes \<Rightarrow> uint64 \<Rightarrow> (nat \<times> uint64) option" where
  "read_signed_raw src xor_mask =
     (let first_byte = src ! 0 XOR ucast (xor_mask AND 0xff) in
      if first_byte \<noteq> 0xff then
        let len = nat (7 - Log2Floor64 (ucast (first_byte XOR 0xff))) in
        if length src < len then None
        else Some (len, foldl (\<lambda>x b. push_bit 8 x OR ucast b) xor_mask (take len src))
      else if length src < 8 then None
      else
        let second_byte = src ! 1 XOR ucast (xor_mask AND 0xff);
            len = (if second_byte \<ge> 0x80 then
                     if second_byte < 0xc0 then Some 9
                     else if second_byte = 0xc0 \<and> src ! 2 XOR ucast (xor_mask AND 0xff) < 0x80 then Some 10
                     else None
                   else Some 8) in
        (case len of None \<Rightarrow> None
         | Some len \<Rightarrow> if length src < len then None
                       else Some (len, LoadBigEndian64 (drop (len - 8) src))))"

definition ReadSignedNumIncreasing :: "bytes \<Rightarrow> (int64 \<times> bytes) option" where
  "ReadSignedNumIncreasing src =
     (if src = [] then None
      else
        let xor_mask = (if src ! 0 AND 0x80 = 0 then NOT 0 else 0) in
        (case read_signed_raw src xor_mask of None \<Rightarrow> None
         | Some (len, x) \<Rightarrow> Some (x XOR kLengthToMask ! len, drop len src)))"

section \<open>The contract of an order-preserving encoding\<close>

text \<open>
  \<open>put\<close> appends an encoding that \<open>get\<close> reads back whatever follows, that compares
  as the values do whatever follows, and that is rejected when it is cut short.
\<close>

lemma append_less_iff: "p @ r < p @ s \<longleftrightarrow> r < (s :: bytes)"
  by (induction p) auto

locale ordered_encoding =
  fixes put :: "'a \<Rightarrow> bytes" and get :: "bytes \<Rightarrow> ('a \<times> bytes) option" and lt :: "'a \<Rightarrow> 'a \<Rightarrow> bool"
  assumes get_put: "get (put x @ r) = Some (x, r)"
    and put_mono: "lt x y \<Longrightarrow> put x @ r < put y @ s"
    and lt_total: "x = y \<or> lt x y \<or> lt y x"
    and get_cut: "k < length (put x) \<Longrightarrow> get (take k (put x)) = None"
begin

lemma put_less_iff: "put x @ r < put y @ s \<longleftrightarrow> lt x y \<or> x = y \<and> r < s"
proof (cases "x = y")
  case True
  have "\<not> lt y y" using put_mono [of y y "[]" "[]"] by auto
  then show ?thesis using True by (simp add: append_less_iff)
next
  case False
  then show ?thesis using lt_total [of x y] put_mono [of x y r s] put_mono [of y x s r] by force
qed

lemma put_less: "put x < put y \<longleftrightarrow> lt x y"
  using put_less_iff [of x "[]" y "[]"] by simp

end

text \<open>Two encodings one after the other encode the pair, in lexicographic order.\<close>

definition put_pair :: "('a \<Rightarrow> bytes) \<Rightarrow> ('b \<Rightarrow> bytes) \<Rightarrow> 'a \<times> 'b \<Rightarrow> bytes" where
  "put_pair p q xy = p (fst xy) @ q (snd xy)"

definition get_pair ::
  "(bytes \<Rightarrow> ('a \<times> bytes) option) \<Rightarrow> (bytes \<Rightarrow> ('b \<times> bytes) option) \<Rightarrow> bytes \<Rightarrow> (('a \<times> 'b) \<times> bytes) option" where
  "get_pair f g src =
     (case f src of None \<Rightarrow> None
      | Some (x, src) \<Rightarrow> (case g src of None \<Rightarrow> None | Some (y, src) \<Rightarrow> Some ((x, y), src)))"

definition lt_pair :: "('a \<Rightarrow> 'a \<Rightarrow> bool) \<Rightarrow> ('b \<Rightarrow> 'b \<Rightarrow> bool) \<Rightarrow> 'a \<times> 'b \<Rightarrow> 'a \<times> 'b \<Rightarrow> bool" where
  "lt_pair l m x y \<longleftrightarrow> l (fst x) (fst y) \<or> fst x = fst y \<and> m (snd x) (snd y)"

locale ordered_encodings = a: ordered_encoding put1 get1 lt1 + b: ordered_encoding put2 get2 lt2
  for put1 :: "'a \<Rightarrow> bytes" and get1 lt1 and put2 :: "'b \<Rightarrow> bytes" and get2 lt2
begin

lemma pair_encoding: "ordered_encoding (put_pair put1 put2) (get_pair get1 get2) (lt_pair lt1 lt2)"
proof
  fix k xy assume k: "k < length (put_pair put1 put2 xy)"
  show "get_pair get1 get2 (take k (put_pair put1 put2 xy)) = None"
  proof (cases "k < length (put1 (fst xy))")
    case True
    then show ?thesis using a.get_cut by (simp add: get_pair_def put_pair_def)
  next
    case False
    then show ?thesis using k b.get_cut by (simp add: get_pair_def put_pair_def a.get_put)
  qed
next
  fix x y show "x = y \<or> lt_pair lt1 lt2 x y \<or> lt_pair lt1 lt2 y x"
    using a.lt_total [of "fst x" "fst y"] b.lt_total [of "snd x" "snd y"] by (auto simp: lt_pair_def prod_eq_iff)
qed (auto simp: get_pair_def put_pair_def lt_pair_def a.get_put b.get_put a.put_less_iff b.put_less_iff)

end

sublocale ordered_encodings \<subseteq> pair: ordered_encoding "put_pair put1 put2" "get_pair get1 get2" "lt_pair lt1 lt2"
  by (rule pair_encoding)

section \<open>Encoded strings\<close>

text \<open>The reference definitions: the code of a character, and reading without indices.\<close>

definition esc :: "byte \<Rightarrow> bytes" where
  "esc c = (if c = 0 then [0, 0xff] else if c = 0xff then [0xff, 0] else [c])"

fun unesc :: "bytes \<Rightarrow> (bytes \<times> bytes) option" where
  "unesc (c # n # r) =
     (if c = 0 then
        if n = 1 then Some ([], r) else if n = 0xff then map_option (apfst (Cons 0)) (unesc r) else None
      else if c = 0xff then
        if n = 0 then map_option (apfst (Cons 0xff)) (unesc r) else None
      else map_option (apfst (Cons c)) (unesc (n # r)))"
| "unesc _ = None"

lemmas escape_defs = kEscape1_def kNullCharacter_def kSeparator_def kEscape2_def kFFCharacter_def kEscape1_Separator_def

lemma IsSpecialByte_iff: "IsSpecialByte c \<longleftrightarrow> c = 0 \<or> c = 0xff"
proof -
  have "IsSpecialByte c \<longleftrightarrow> c + 1 = 0 \<or> c + 1 = 1"
    by (auto simp: IsSpecialByte_def word_less_nat_alt word_unat_eq_iff less_2_cases_iff)
  also have "\<dots> \<longleftrightarrow> c = 0xff \<or> c = 0" by (auto simp: add_eq_0_iff2)
  finally show ?thesis by auto
qed

lemma Skip_step: "p < limit \<Longrightarrow> \<not> IsSpecialByte (s ! p) \<Longrightarrow>
    SkipToNextSpecialByte s p limit = SkipToNextSpecialByte s (p + 1) limit"
  by (subst SkipToNextSpecialByte.simps) simp

lemma Skip_stop: "limit \<le> p \<or> IsSpecialByte (s ! p) \<Longrightarrow> SkipToNextSpecialByte s p limit = p"
  by (subst SkipToNextSpecialByte.simps) auto

lemma take_Suc_slice: "a \<le> p \<Longrightarrow> p < length s \<Longrightarrow> take (Suc p - a) (drop a s) = take (p - a) (drop a s) @ [s ! p]"
  by (simp add: Suc_diff_le take_Suc_conv_app_nth)

lemma Encode_loop_eq:
  assumes "copy_start \<le> p" "p \<le> length s"
  shows "EncodeStringFragment_loop s p copy_start dest =
    dest @ take (p - copy_start) (drop copy_start s) @ concat (map esc (drop p s))"
  using assms
proof (induction "length s - p" arbitrary: p copy_start dest)
  case 0
  then show ?case by (subst EncodeStringFragment_loop.simps) (auto simp: Skip_stop AppendBytes_def)
next
  case (Suc n)
  then have p: "p < length s" "drop p s = s ! p # drop (Suc p) s" by (auto simp: Cons_nth_drop_Suc)
  show ?case
  proof (cases "IsSpecialByte (s ! p)")
    case True
    then show ?thesis using Suc p
      by (subst EncodeStringFragment_loop.simps)
        (auto simp: Skip_stop AppendBytes_def IsSpecialByte_iff esc_def escape_defs)
  next
    case False
    have "EncodeStringFragment_loop s p copy_start dest = EncodeStringFragment_loop s (Suc p) copy_start dest"
      using Skip_step [OF p(1) False]
      by (subst (1 2) EncodeStringFragment_loop.simps) simp
    then show ?thesis using Suc(1) [of "Suc p" copy_start dest] Suc(2-) False p
      by (simp add: take_Suc_slice esc_def IsSpecialByte_iff)
  qed
qed

lemma WriteString_eq: "WriteString dest s = dest @ concat (map esc s) @ [0, 1]"
  by (simp add: WriteString_def EncodeStringFragment_def Encode_loop_eq AppendBytes_def escape_defs)

lemma unesc_short: "length r \<le> 1 \<Longrightarrow> unesc r = None"
  by (cases r rule: unesc.cases) auto

lemma ReadString_loop_special:
  fixes result :: bytes and copy_start :: nat
  assumes "start + 1 < length src" "IsSpecialByte (src ! start)"
  defines "res \<equiv> AppendBytes result (drop copy_start src) (start - copy_start)"
  shows "ReadString_loop src start copy_start result =
    (if src ! start = 0 then
       if src ! (start + 1) = 1 then Some (res, drop (start + 2) src)
       else if src ! (start + 1) = 0xff then ReadString_loop src (start + 2) (start + 2) (res @ [0]) else None
     else if src ! (start + 1) = 0 then ReadString_loop src (start + 2) (start + 2) (res @ [0xff]) else None)"
proof -
  have "skip_to src start (int (length src) - 1) = start" using assms(2) by (simp add: skip_to_def Skip_stop)
  then show ?thesis using assms(1) unfolding res_def
    by (subst ReadString_loop.simps) (simp add: Let_def escape_defs)
qed

lemma ReadString_loop_eq:
  assumes "copy_start \<le> start" "start \<le> length src"
  shows "ReadString_loop src start copy_start result =
    map_option (apfst (\<lambda>s. result @ take (start - copy_start) (drop copy_start src) @ s)) (unesc (drop start src))"
  using assms
proof (induction "length src - start" arbitrary: start copy_start result rule: less_induct)
  case less
  show ?case
  proof (cases "start + 1 < length src")
    case False
    then have "skip_to src start (int (length src) - 1) = start"
      by (auto simp: skip_to_def intro!: Skip_stop)
    then show ?thesis using False less.prems
      by (subst ReadString_loop.simps) (auto simp: unesc_short)
  next
    case True
    then have d: "drop start src = src ! start # src ! Suc start # drop (Suc (Suc start)) src"
      by (simp add: Cons_nth_drop_Suc Suc_lessD)
    have d1: "drop (Suc start) src = src ! Suc start # drop (Suc (Suc start)) src"
      using True by (simp add: Cons_nth_drop_Suc)
    show ?thesis
    proof (cases "IsSpecialByte (src ! start)")
      case sp: True
      have IH: "ReadString_loop src (start + 2) (start + 2) res =
          map_option (apfst (\<lambda>s. res @ s)) (unesc (drop (start + 2) src))" for res
        using less(1) [of "start + 2" "start + 2" res] True by auto
      have d2: "drop start src = src ! start # src ! (start + 1) # drop (start + 2) src" using d by simp
      have "src ! start = 0 \<or> src ! start = 0xff" using sp by (simp add: IsSpecialByte_iff)
      then show ?thesis
        unfolding ReadString_loop_special [OF True sp] IH d2
        by (cases "unesc (drop (start + 2) src)") (auto simp only: AppendBytes_def unesc.simps option.map apfst_conv
            append_assoc append_Cons append_Nil append_Nil2 if_True if_False zero_neq_one split: if_split)
    next
      case sp: False
      have "ReadString_loop src start copy_start result = ReadString_loop src (Suc start) copy_start result"
        using Skip_step [of start "length src - 1" src] sp True
        by (subst (1 2) ReadString_loop.simps) (simp add: skip_to_def nat_diff_distrib)
      moreover have "unesc (drop start src) = map_option (apfst (Cons (src ! start))) (unesc (drop (Suc start) src))"
        using sp unfolding d d1 by (simp add: IsSpecialByte_iff)
      ultimately show ?thesis using less(1) [of "Suc start" copy_start result] less.prems True
        by (cases "unesc (drop (Suc start) src)") (auto simp: take_Suc_slice)
    qed
  qed
qed

lemma ReadString_eq: "ReadString src result = map_option (apfst (\<lambda>s. result @ s)) (unesc src)"
  by (simp add: ReadString_def ReadString_loop_eq)

lemma unesc_plain: "c \<noteq> 0 \<Longrightarrow> c \<noteq> 0xff \<Longrightarrow> unesc (c # r) = map_option (apfst (Cons c)) (unesc r)"
  by (cases r) auto

lemma unesc_esc: "unesc (esc c @ r) = map_option (apfst (Cons c)) (unesc r)"
  by (auto simp: esc_def unesc_plain)

lemma unesc_put: "unesc (concat (map esc s) @ 0 # 1 # r) = Some (s, r)"
  by (induction s) (simp_all add: unesc_esc)

lemma unesc_cut: "k < length (concat (map esc s)) + 2 \<Longrightarrow> unesc (take k (concat (map esc s) @ [0, 1])) = None"
proof (induction s arbitrary: k)
  case Nil
  then show ?case by (intro unesc_short) auto
next
  case (Cons c s)
  show ?case
  proof (cases "length (esc c) \<le> k")
    case True
    then have "unesc (take (k - length (esc c)) (concat (map esc s) @ [0, 1])) = None"
      using Cons by (intro Cons.IH) auto
    then show ?thesis using True by (simp add: unesc_esc)
  next
    case False
    then have "k \<le> 1" by (auto simp: esc_def split: if_splits)
    then show ?thesis by (intro unesc_short) simp
  qed
qed

lemma byte_less_255: "(c :: byte) \<noteq> 0xff \<Longrightarrow> c < 0xff"
  using unat_less_exp [of c] by (simp add: word_less_nat_alt word_unat_eq_iff)

lemma byte_gt_0: "(c :: byte) \<noteq> 0 \<Longrightarrow> 0 < c"
  by (simp add: word_neq_0_conv)

lemma esc_mono: "c < d \<Longrightarrow> esc c @ r < esc d @ s"
  by (auto simp: esc_def byte_less_255 byte_gt_0)

lemma sep_less_esc: "0 # 1 # r < esc c @ s"
  by (auto simp: esc_def byte_gt_0)

lemma enc_string_mono: "s < t \<Longrightarrow> concat (map esc s) @ 0 # 1 # r < concat (map esc t) @ 0 # 1 # r'"
proof (induction s arbitrary: t)
  case Nil
  then show ?case by (cases t) (auto simp: sep_less_esc)
next
  case (Cons c s)
  then obtain d t' where t: "t = d # t'" by (cases t) auto
  with Cons show ?case by (auto simp: esc_mono append_less_iff)
qed

interpretation oc_string: ordered_encoding "WriteString []" "\<lambda>src. ReadString src []" "(<)"
proof
  fix k x assume "k < length (WriteString [] x)"
  then show "ReadString (take k (WriteString [] x)) [] = None"
    using unesc_cut [of k x] by (simp add: WriteString_eq ReadString_eq)
qed (auto simp: WriteString_eq ReadString_eq unesc_put enc_string_mono)

section \<open>Big-endian numbers\<close>

text \<open>The low \<open>n\<close> bytes of \<open>k\<close> in two's complement, most significant first.\<close>

primrec be :: "nat \<Rightarrow> int \<Rightarrow> bytes" where
  "be 0 k = []"
| "be (Suc n) k = be n (drop_bit 8 k) @ [word_of_int k]"

lemma length_be [simp]: "length (be n k) = n"
  by (induction n arbitrary: k) auto

lemma be_eq_Nil [simp]: "be n k = [] \<longleftrightarrow> n = 0"
  by (cases n) auto

lemma be_split: "be (m + n) k = be m (drop_bit (8 * n) k) @ be n k"
  by (induction n arbitrary: k) (auto simp: algebra_simps)

lemma be_Cons: "be (Suc n) k = word_of_int (drop_bit (8 * n) k) # be n k"
  using be_split [of 1 n k] by simp

lemma be_xor: "be n (a XOR b) = map2 (XOR) (be n a) (be n b)"
proof (induction n arbitrary: a b)
  case (Suc n)
  have "(word_of_int (a XOR b) :: byte) = word_of_int a XOR word_of_int b"
    by (rule bit_word_eqI) (auto simp: bit_simps)
  then show ?case by (simp add: Suc drop_bit_xor)
qed simp

lemma fold_be:
  "foldl (\<lambda>x b. push_bit 8 x OR ucast b) (word_of_int (drop_bit (8 * n) k)) (be n k) = (word_of_int k :: 'a::len word)"
proof (induction n arbitrary: k)
  case (Suc n)
  have "push_bit 8 (word_of_int (drop_bit 8 k)) OR ucast (word_of_int k :: byte) = (word_of_int k :: 'a word)"
    by (rule bit_word_eqI) (auto simp: bit_simps)
  then show ?case using Suc [of "drop_bit 8 k"] by (simp add: algebra_simps)
qed simp

lemma int_div_less: "0 < c \<Longrightarrow> b < n * c \<Longrightarrow> b div c < (n :: int)"
  using mult_right_mono [of n "b div c" c] pos_mod_sign [of c b] div_mult_mod_eq [of b c] by linarith

lemma be_mono: "0 \<le> a \<Longrightarrow> a < b \<Longrightarrow> b < 256 ^ n \<Longrightarrow> be n a @ r < be n b @ s"
proof (induction n arbitrary: a b r s)
  case (Suc n)
  have div: "drop_bit 8 k = k div 256" for k :: int by (simp add: drop_bit_eq_div)
  have "a div 256 \<le> b div 256" using Suc.prems(2) by (intro zdiv_mono1) auto
  then consider "a div 256 < b div 256" | "a div 256 = b div 256" "a mod 256 < b mod 256"
    using Suc.prems(2) by (metis div_mult_mod_eq add_less_cancel_left order_le_less)
  then show ?case
  proof cases
    case 1
    have "b div 256 < 256 ^ n" using Suc.prems(3) by (intro int_div_less) auto
    then show ?thesis using Suc.IH [of "a div 256" "b div 256"] Suc.prems(1) 1
      by (simp add: div pos_imp_zdiv_nonneg_iff)
  next
    case 2
    then have "(word_of_int a :: byte) < word_of_int b"
      by (simp add: word_less_def uint_word_of_int_eq take_bit_eq_mod)
    then show ?thesis using 2 by (simp add: div append_less_iff)
  qed
qed simp

lemma be_mono_shorter:
  assumes "0 \<le> a" "a < b div 256 ^ (m - n)" "b < 256 ^ m" "n \<le> m"
  shows "be n a @ r < be m b @ s"
proof -
  have pow: "(256 :: int) ^ m = 256 ^ (m - n) * 256 ^ n" using assms(4) by (simp add: power_add [symmetric])
  have "be m b = be n (b div 256 ^ (m - n)) @ be (m - n) b"
    using be_split [of n "m - n" b] assms(4) by (simp add: drop_bit_eq_div power_mult)
  moreover have "b div 256 ^ (m - n) < 256 ^ n"
    using assms(3) unfolding pow by (intro int_div_less) (auto simp: mult.commute)
  ultimately show ?thesis using be_mono [of a "b div 256 ^ (m - n)" n] assms(1,2) by simp
qed

lemma be_mono_longer:
  assumes "0 \<le> a" "a div 256 ^ (m - n) < b" "b < 256 ^ n" "n \<le> m"
  shows "be m a @ r < be n b @ s"
proof -
  have "be m a = be n (a div 256 ^ (m - n)) @ be (m - n) a"
    using be_split [of n "m - n" a] assms(4) by (simp add: drop_bit_eq_div power_mult)
  then show ?thesis using be_mono [of "a div 256 ^ (m - n)" b n] assms by (simp add: pos_imp_zdiv_nonneg_iff)
qed

section \<open>Encoded unsigned numbers\<close>

lemma uint_drop_bit: "uint (drop_bit n (v :: 'a::len word)) = drop_bit n (uint v)"
  by (rule bit_eqI) (auto simp: bit_simps dest: bit_imp_le_length)

lemma WriteNum_loop_be:
  "\<exists>m. WriteNum_loop val buf = be m (uint val) @ buf \<and> uint val < 256 ^ m \<and> (m = 0 \<or> 256 ^ (m - 1) \<le> uint val)"
proof (induction val buf rule: WriteNum_loop.induct)
  case (1 val buf)
  show ?case
  proof (cases "val > 0")
    case False
    then have "val = 0" by (simp add: word_neq_0_conv [symmetric])
    then show ?thesis by (subst WriteNum_loop.simps) (auto intro!: exI [of _ 0])
  next
    case True
    have v: "uint (drop_bit 8 val) = uint val div 256" unfolding uint_drop_bit by (simp add: drop_bit_eq_div)
    obtain m where m: "WriteNum_loop (drop_bit 8 val) (ucast (val AND 255) # buf) =
        be m (uint val div 256) @ ucast (val AND 255) # buf"
      "uint val div 256 < 256 ^ m" "m = 0 \<or> 256 ^ (m - 1) \<le> uint val div 256"
      using 1 [OF True] unfolding v by blast
    have "WriteNum_loop val buf = be (Suc m) (uint val) @ buf"
      using True m(1) by (subst WriteNum_loop.simps) (simp add: drop_bit_eq_div)
    moreover have "uint val < 256 ^ Suc m"
      using m(2) div_mult_mod_eq [of "uint val" 256] pos_mod_bound [of 256 "uint val"] by simp
    moreover have "256 ^ m \<le> uint val"
    proof (cases m)
      case 0
      then show ?thesis using True by (simp add: word_less_def)
    next
      case (Suc j)
      then have "256 ^ j \<le> uint val div 256" using m(3) by simp
      then have "256 ^ j * 256 \<le> uint val" using div_mult_mod_eq [of "uint val" 256] by linarith
      then show ?thesis using Suc by simp
    qed
    ultimately show ?thesis by (intro exI [of _ "Suc m"]) simp
  qed
qed

lemma WriteNum_cases:
  obtains m where "WriteNumIncreasing [] val = of_nat m # be m (uint val)" "m \<le> 8" "uint val < 256 ^ m"
    "m = 0 \<or> 256 ^ (m - 1) \<le> uint val"
proof -
  obtain m where m: "WriteNum_loop val [] = be m (uint val)" "uint val < 256 ^ m" "m = 0 \<or> 256 ^ (m - 1) \<le> uint val"
    using WriteNum_loop_be [of val "[]"] by auto
  have "m \<le> 8"
  proof (rule ccontr)
    assume "\<not> ?thesis"
    then have "(256 :: int) ^ 8 \<le> 256 ^ (m - 1)" by (intro power_increasing) auto
    then show False using m(3) \<open>\<not> m \<le> 8\<close> uint_lt2p [of val] by simp
  qed
  then show ?thesis using m by (intro that [of m]) (auto simp: WriteNumIncreasing_def)
qed

lemma unat_of_nat_byte: "m \<le> 8 \<Longrightarrow> unat (of_nat m :: byte) = m"
  by (simp add: unat_of_nat)

interpretation oc_num: ordered_encoding "WriteNumIncreasing []" ReadNumIncreasing "(<)"
proof
  fix x r
  obtain m where m: "WriteNumIncreasing [] x = of_nat m # be m (uint x)" "m \<le> 8" "uint x < 256 ^ m"
    by (rule WriteNum_cases)
  have "(0 :: uint64) = word_of_int (drop_bit (8 * m) (uint x))"
    using m(3) by (simp add: drop_bit_eq_div power_mult)
  then show "ReadNumIncreasing (WriteNumIncreasing [] x @ r) = Some (x, r)"
    using fold_be [of m "uint x", where 'a = 64] m(1,2)
    by (simp add: ReadNumIncreasing_def unat_of_nat_byte)
next
  fix x k assume k: "k < length (WriteNumIncreasing [] x)"
  obtain m where m: "WriteNumIncreasing [] x = of_nat m # be m (uint x)" "m \<le> 8" by (rule WriteNum_cases)
  show "ReadNumIncreasing (take k (WriteNumIncreasing [] x)) = None"
    using k m by (cases k) (simp_all add: ReadNumIncreasing_def unat_of_nat_byte)
next
  fix x y :: uint64 and r s assume "x < y"
  then have less: "uint x < uint y" by (simp add: word_less_def)
  obtain m where m: "WriteNumIncreasing [] x = of_nat m # be m (uint x)" "m \<le> 8" "uint x < 256 ^ m"
      "m = 0 \<or> 256 ^ (m - 1) \<le> uint x" by (rule WriteNum_cases)
  obtain n where n: "WriteNumIncreasing [] y = of_nat n # be n (uint y)" "n \<le> 8" "uint y < 256 ^ n"
      "n = 0 \<or> 256 ^ (n - 1) \<le> uint y" by (rule WriteNum_cases)
  have "m \<le> n"
  proof (rule ccontr)
    assume "\<not> m \<le> n"
    then have "(256 :: int) ^ n \<le> 256 ^ (m - 1)" by (intro power_increasing) auto
    also have "256 ^ (m - 1) \<le> uint x" using \<open>\<not> m \<le> n\<close> m(4) by simp
    finally show False using n(3) less by linarith
  qed
  then consider "m = n" | "(of_nat m :: byte) < of_nat n"
    using m(2) n(2) by (auto simp: word_less_nat_alt unat_of_nat_byte order_le_less)
  then show "WriteNumIncreasing [] x @ r < WriteNumIncreasing [] y @ s"
    by cases (use be_mono [OF _ less n(3)] m(1) n(1) in auto)
qed auto

section \<open>Encoded signed numbers\<close>

text \<open>
  The header of an encoding of \<open>n\<close> bytes as a number, the magnitude that decides the
  length, and the number whose big-endian bytes are the encoding.
\<close>

definition header :: "nat \<Rightarrow> int" where
  "header n = 2 ^ (8 * n) - 2 ^ (7 * n)"

definition magnitude :: "int \<Rightarrow> int" where
  "magnitude v = (if v < 0 then - v - 1 else v)"

definition signed_code :: "nat \<Rightarrow> int \<Rightarrow> int" where
  "signed_code n v = (if v < 0 then 2 ^ (7 * n) + v else header n + v)"

lemma be_mod: "be n (k + c * 256 ^ n) = be n k"
proof (induction n arbitrary: k)
  case (Suc n)
  have "drop_bit 8 (k + c * 256 ^ Suc n) = drop_bit 8 k + c * 256 ^ n"
    using div_mult_self4 [of 256 "c * 256 ^ n" k] by (simp add: drop_bit_eq_div algebra_simps)
  moreover have "(word_of_int (k + c * 256 ^ Suc n) :: byte) = word_of_int k"
    using mod_mult_self4 [of 256 "c * 256 ^ n" k]
    by (simp only: word_of_int_eq_iff take_bit_eq_mod) (simp add: algebra_simps)
  ultimately show ?case using Suc by simp
qed simp

lemma be_take_bit: "be n (take_bit (8 * n) k) = be n k"
  using be_mod [of n "k mod 256 ^ n" "k div 256 ^ n"] unfolding mod_div_mult_eq
  by (simp add: take_bit_eq_mod power_mult)

lemma header_push: "header n = push_bit (7 * n) (mask n)"
  by (simp add: header_def push_bit_eq_mult mask_eq_exp_minus_1 algebra_simps power_add [symmetric])

lemma xor_header:
  assumes "0 \<le> x" "x < 2 ^ (7 * n)"
  shows "x XOR header n = x + header n"
proof -
  have "take_bit (7 * n) x = x" using assms by (simp add: take_bit_int_eq_self)
  then have "7 * n \<le> i \<Longrightarrow> \<not> bit x i" for i by (metis bit_take_bit_iff not_le)
  then have "x AND header n = 0" by (intro bit_eqI) (auto simp: bit_simps header_push)
  then show ?thesis by (rule disjunctive_add_eq_xor [symmetric])
qed

lemma magnitude_bounds:
  assumes "magnitude v < 2 ^ (7 * n - 1)" "0 < n"
  shows "0 \<le> magnitude v" "magnitude v < 2 ^ (7 * n)"
proof -
  have "(2 :: int) ^ (7 * n - 1) \<le> 2 ^ (7 * n)" by (intro power_increasing) auto
  with assms(1) show "magnitude v < 2 ^ (7 * n)" by linarith
qed (auto simp: magnitude_def)

text \<open>The sign as a mask: all bits of \<open>v XOR sign v\<close> are those of the magnitude.\<close>

definition sign_mask :: "int \<Rightarrow> int" where
  "sign_mask v = (if v < 0 then - 1 else 0)"

lemma xor_sign_mask: "v XOR sign_mask v = magnitude v" "magnitude v XOR sign_mask v = v"
  by (simp_all add: sign_mask_def magnitude_def not_int_def)

lemma signed_code_xor:
  assumes "magnitude v < 2 ^ (7 * n - 1)" "0 < n"
  shows "(v XOR header n) XOR sign_mask v = magnitude v + header n"
    and "be n (v XOR header n) = be n (signed_code n v)"
proof -
  note m = magnitude_bounds [OF assms]
  have "(v XOR header n) XOR sign_mask v = (v XOR sign_mask v) XOR header n" by (simp add: ac_simps xor.assoc)
  then show x: "(v XOR header n) XOR sign_mask v = magnitude v + header n"
    using xor_header [OF m] by (simp add: xor_sign_mask)
  have "v XOR header n = signed_code n v + (if v < 0 then - 1 else 0) * 256 ^ n"
  proof (cases "v < 0")
    case True
    then have "NOT (v XOR header n) = magnitude v + header n" using x by (simp add: sign_mask_def)
    then show ?thesis using True by (simp add: not_int_def magnitude_def header_def signed_code_def power_mult)
  next
    case False
    then show ?thesis using x by (simp add: sign_mask_def magnitude_def signed_code_def)
  qed
  then show "be n (v XOR header n) = be n (signed_code n v)" by (simp only: be_mod)
qed

lemma be_less_frac:
  assumes a: "0 \<le> a" "a < t * 2 ^ (8 * m - e)" and b: "t * 2 ^ (8 * n - e) \<le> b" "b < 256 ^ n"
    and e: "e \<le> 8 * m" "e \<le> 8 * n"
  shows "be m a @ r < be n b @ s"
proof (cases "m \<le> n")
  case True
  then have "8 * n - e = (8 * m - e) + 8 * (n - m)" using e by (simp add: algebra_simps)
  then have "(t * 2 ^ (8 * m - e)) * 256 ^ (n - m) \<le> b" using b(1) by (simp add: power_add power_mult)
  then have "t * 2 ^ (8 * m - e) \<le> b div 256 ^ (n - m)"
    using zdiv_mono1 [of "t * 2 ^ (8 * m - e) * 256 ^ (n - m)" b "256 ^ (n - m)"] by simp
  then show ?thesis using a b True by (intro be_mono_shorter) auto
next
  case False
  then have "8 * m - e = (8 * n - e) + 8 * (m - n)" using e by (simp add: algebra_simps)
  then have "a < (t * 2 ^ (8 * n - e)) * 256 ^ (m - n)" using a(2) by (simp add: power_add power_mult)
  then have "a div 256 ^ (m - n) < t * 2 ^ (8 * n - e)" by (intro int_div_less) auto
  then show ?thesis using a b False by (intro be_mono_longer) auto
qed

lemma signed_code_range:
  assumes "magnitude v < 2 ^ (7 * n - 1)" "0 < n"
  shows "v < 0 \<Longrightarrow> 2 ^ (7 * n - 1) \<le> signed_code n v \<and> signed_code n v < 2 ^ (7 * n)"
    and "0 \<le> v \<Longrightarrow> header n \<le> signed_code n v \<and> signed_code n v < 2 ^ (8 * n) - 2 ^ (7 * n - 1)"
proof -
  have "(2 :: int) ^ (7 * n) = 2 * 2 ^ (7 * n - 1)" using assms(2) by (simp flip: power_Suc)
  then show "v < 0 \<Longrightarrow> 2 ^ (7 * n - 1) \<le> signed_code n v \<and> signed_code n v < 2 ^ (7 * n)"
    "0 \<le> v \<Longrightarrow> header n \<le> signed_code n v \<and> signed_code n v < 2 ^ (8 * n) - 2 ^ (7 * n - 1)"
    using assms(1) by (auto simp: signed_code_def magnitude_def header_def)
qed

lemma pow_256: "(256 :: int) ^ n = 2 ^ (8 * n)"
  by (simp add: power_mult)

lemma signed_code_mono:
  assumes v: "magnitude v < 2 ^ (7 * m - 1)" "m = 1 \<or> 2 ^ (7 * m - 8) \<le> magnitude v" "0 < m"
    and w: "magnitude w < 2 ^ (7 * n - 1)" "n = 1 \<or> 2 ^ (7 * n - 8) \<le> magnitude w" "0 < n"
    and less: "v < w"
  shows "be m (signed_code m v) @ r < be n (signed_code n w) @ s"
proof -
  note V = signed_code_range [OF v(1,3)] and W = signed_code_range [OF w(1,3)]
  have le: "i \<le> j \<Longrightarrow> (2 :: int) ^ i \<le> 2 ^ j" for i j :: nat by (intro power_increasing) auto
  have lt: "a < 2 ^ i \<Longrightarrow> i \<le> j \<Longrightarrow> a < (2 :: int) ^ j" for a i j using le [of i j] by linarith
  have shorter: "j \<le> k" if "magnitude x \<le> magnitude y" "magnitude y < 2 ^ (7 * k - 1)"
    "j = 1 \<or> 2 ^ (7 * j - 8) \<le> magnitude x" "0 < k" for x y j k
  proof (rule ccontr)
    assume "\<not> j \<le> k"
    then have "(2 :: int) ^ (7 * k - 1) \<le> 2 ^ (7 * j - 8)" by (intro le) auto
    moreover have "2 ^ (7 * j - 8) \<le> magnitude x" using that(3,4) \<open>\<not> j \<le> k\<close> by auto
    ultimately show False using that(1,2) by linarith
  qed
  have "(2 :: int) ^ (8 * n) = 2 * 2 ^ (8 * n - 1)" using w(3) by (simp flip: power_Suc)
  moreover have "(2 :: int) ^ (7 * n) \<le> 2 ^ (8 * n - 1)" using w(3) by (intro le) auto
  ultimately have hn: "2 ^ (8 * n - 1) \<le> header n" by (simp add: header_def)
  have pos: "0 \<le> signed_code m v"
  proof (cases "v < 0")
    case True
    from V(1) [OF this] show ?thesis using zero_le_power [of "2 :: int" "7 * m - 1"] by linarith
  next
    case False
    then have "0 \<le> v" by simp
    have "(2 :: int) ^ (7 * m) \<le> 2 ^ (8 * m)" by (intro le) simp
    with V(2) [OF \<open>0 \<le> v\<close>] show ?thesis unfolding header_def by linarith
  qed
  have top: "signed_code n w < 256 ^ n"
  proof (cases "w < 0")
    case True
    from W(1) [OF this] show ?thesis unfolding pow_256 by (intro lt [where i = "7 * n" and j = "8 * n"]) simp_all
  next
    case False
    then have "0 \<le> w" by simp
    from W(2) [OF this] show ?thesis using zero_less_power [of "2 :: int" "7 * n - 1"] unfolding pow_256 by linarith
  qed
  consider "v < 0" "0 \<le> w" | "0 \<le> v" | "w < 0" using less by linarith
  then show ?thesis
  proof cases
    case 1
    have "signed_code m v < 1 * 2 ^ (8 * m - 1)" unfolding mult_1 by (rule lt [of _ "7 * m"]) (use V(1) [OF 1(1)] v(3) in auto)
    moreover have "1 * 2 ^ (8 * n - 1) \<le> signed_code n w" using W(2) [OF 1(2)] hn by linarith
    ultimately show ?thesis using v(3) w(3) by (intro be_less_frac [OF pos _ _ top, where e = 1 and t = 1]) auto
  next
    case 2
    then have "0 \<le> w" using less by simp
    have "m \<le> n" using 2 less w(1,3) v(2) by (intro shorter [of v w]) (auto simp: magnitude_def)
    show ?thesis
    proof (cases "m = n")
      case True
      then show ?thesis using 2 less be_mono [OF pos _ top [folded True]]
        by (simp add: signed_code_def)
    next
      case False
      then have "m < n" using \<open>m \<le> n\<close> by simp
      let ?t = "(2 :: int) ^ (m + 1) - 1"
      have "2 ^ (m + 1) * 2 ^ (8 * m - (m + 1)) = (2 :: int) ^ (8 * m)"
        "2 ^ (m + 1) * 2 ^ (8 * n - (m + 1)) = (2 :: int) ^ (8 * n)"
        using v(3) \<open>m < n\<close> by (simp_all only: power_add [symmetric]) simp_all
      then have t: "?t * 2 ^ (8 * m - (m + 1)) = 2 ^ (8 * m) - 2 ^ (7 * m - 1)"
        "?t * 2 ^ (8 * n - (m + 1)) = 2 ^ (8 * n) - 2 ^ (8 * n - (m + 1))"
        by (simp_all add: left_diff_distrib)
      have "(2 :: int) ^ (7 * n) \<le> 2 ^ (8 * n - (m + 1))" using \<open>m < n\<close> by (intro le) auto
      then have low: "?t * 2 ^ (8 * n - (m + 1)) \<le> signed_code n w"
        using W(2) [OF \<open>0 \<le> w\<close>] unfolding t header_def by linarith
      have "signed_code m v < ?t * 2 ^ (8 * m - (m + 1))" unfolding t using V(2) [OF 2] by simp
      from be_less_frac [OF pos this low top] show ?thesis using v(3) \<open>m < n\<close> by simp
    qed
  next
    case 3
    then have "v < 0" using less by simp
    have "n \<le> m" using 3 less v(1,3) w(2) by (intro shorter [of w v]) (auto simp: magnitude_def)
    show ?thesis
    proof (cases "m = n")
      case True
      then show ?thesis using 3 less be_mono [OF pos _ top [folded True]]
        by (simp add: signed_code_def)
    next
      case False
      then have "signed_code m v < 1 * 2 ^ (8 * m - (n + 1))"
        unfolding mult_1 by (intro lt [where i = "7 * m" and j = "8 * m - (n + 1)"]) (use V(1) [OF \<open>v < 0\<close>] \<open>n \<le> m\<close> in auto)
      moreover have "8 * n - (n + 1) = 7 * n - 1" by simp
      then have "1 * 2 ^ (8 * n - (n + 1)) \<le> signed_code n w" using W(1) [OF 3] by simp
      ultimately show ?thesis using \<open>n \<le> m\<close> w(3) by (intro be_less_frac [OF pos _ _ top, where e = "n + 1" and t = 1]) auto
    qed
  qed
qed

text \<open>The tables and the writer in terms of \<open>header\<close>.\<close>

lemma header_table:
  assumes "2 \<le> n" "n \<le> 10"
  shows "be n (header n) = fst (kLengthToHeaderBits ! n) # snd (kLengthToHeaderBits ! n) # replicate (n - 2) 0"
proof -
  have "\<forall>n\<in>set [2..<11]. be n (header n) =
      fst (kLengthToHeaderBits ! n) # snd (kLengthToHeaderBits ! n) # replicate (n - 2) 0" by code_simp
  moreover have "n \<in> set [2..<11]" using assms by (simp only: set_upt) simp
  ultimately show ?thesis by (rule bspec)
qed

lemma mask_table:
  assumes "1 \<le> n" "n \<le> 10"
  shows "kLengthToMask ! n = word_of_int (header n)"
proof -
  have "\<forall>n\<in>set [1..<11]. kLengthToMask ! n = word_of_int (header n)" by code_simp
  moreover have "n \<in> set [1..<11]" using assms by (simp only: set_upt) simp
  ultimately show ?thesis by (rule bspec)
qed

lemma length_table: "k \<le> 63 \<Longrightarrow> kBitsToLength ! k = (k + 7) div 7"
proof -
  have "\<forall>k\<in>set [0..<64]. kBitsToLength ! k = (k + 7) div 7" by code_simp
  moreover assume "k \<le> 63"
  then have "k \<in> set [0..<64]" by (simp only: set_upt) simp
  ultimately show ?thesis by (rule bspec)
qed

lemma be_map: "be n k = map (\<lambda>i. word_of_int (drop_bit (8 * (n - 1 - i)) k)) [0..<n]"
  by (induction n) (simp_all add: be_Cons map_upt_Suc del: be.simps(2) upt_Suc)

lemma StoreBigEndian64_be: "StoreBigEndian64 v = be 8 (sint v)"
proof -
  have "(ucast (drop_bit (56 - 8 * i) v AND 0xff) :: byte) = word_of_int (drop_bit (8 * (8 - 1 - i)) (sint v))"
    if "i < 8" for i
  proof -
    have "8 * (8 - 1 - i) = 56 - 8 * i" by simp
    then show ?thesis using that by (intro bit_word_eqI) (auto simp: bit_simps bit_consts simp del: diff_mult_distrib2)
  qed
  then show ?thesis by (simp add: StoreBigEndian64_def be_map)
qed

lemma drop_bit_sint: "drop_bit 64 (sint (v :: int64)) = sign_mask (sint v)"
proof -
  have "- (2 ^ 63) \<le> sint v" "sint v < 2 ^ 63" using sint_range_size [of v] by (simp_all add: word_size)
  moreover have "k div m = - 1" if "- m \<le> k" "k < 0" "0 < m" for k m :: int
    using div_pos_pos_trivial [of "k + m" m] div_add_self2 [of m k] that by simp
  ultimately show ?thesis by (simp add: drop_bit_eq_div sign_mask_def zdiv_eq_0_iff)
qed

lemma buf_be:
  "[if v <s 0 then 0xff else 0, if v <s 0 then 0xff else 0] @ StoreBigEndian64 v = be 10 (sint v)"
proof -
  have "be 10 (sint v) = be 2 (sign_mask (sint v)) @ be 8 (sint v)"
    using be_split [of 2 8 "sint v"] by (simp add: drop_bit_sint)
  moreover have "be 2 (- 1) = [0xff, 0xff]" "be 2 0 = [0, 0]" by code_simp+
  ultimately show ?thesis by (auto simp: StoreBigEndian64_be word_sless_alt sign_mask_def)
qed

lemma xor_first_two:
  assumes "length xs = n" "2 \<le> n"
  shows "(xs[0 := xs ! 0 XOR a])[1 := xs[0 := xs ! 0 XOR a] ! 1 XOR b] =
    map2 (XOR) xs (a # b # replicate (n - 2) (0 :: byte))"
proof -
  obtain x y zs where xs: "xs = x # y # zs" using assms by (cases xs; cases "tl xs") auto
  have "map2 (XOR) zs (replicate (length zs) 0) = zs" by (induction zs) auto
  then show ?thesis using assms(1) unfolding xs by auto
qed

lemma Log2Floor64_eq:
  assumes "2 ^ k \<le> unat x" "unat x < 2 ^ (k + 1)" "k < 64"
  shows "Log2Floor64 x = int k"
proof -
  have "x \<noteq> 0" using assms(1) by auto
  then show ?thesis using clzll_eq [OF assms] by (simp add: Log2Floor64_def)
qed

lemma SignedEncodingLength_eq:
  assumes "2 ^ k \<le> uint x" "uint x < 2 ^ (k + 1)" "k < 63"
  shows "SignedEncodingLength x = (k + 8) div 7"
proof -
  have "uint x < 2 ^ 63"
    using assms(2,3) power_increasing [of "k + 1" 63 "2 :: int"] by linarith
  then have "sint x = uint x" unfolding sint_uint by (intro signed_take_bit_int_eq_self) (auto intro: order_trans [OF _ uint_ge_0])
  then have "\<not> x <s 0" by (simp add: word_sless_alt)
  moreover have "Log2Floor64 x = int k"
  proof (rule Log2Floor64_eq)
    show "2 ^ k \<le> unat x" "unat x < 2 ^ (k + 1)"
      using assms(1,2) by (simp_all flip: of_nat_le_iff [where 'a = int] of_nat_less_iff [where 'a = int])
  qed (use assms(3) in simp)
  ultimately show ?thesis using length_table [of "k + 1"] assms(3) by (simp add: SignedEncodingLength_def nat_add_distrib)
qed

lemma magnitude_word: "uint (if val <s 0 then NOT val else val :: int64) = magnitude (sint val)"
proof -
  have r: "- (2 ^ 63) \<le> sint val" "sint val < 2 ^ 63" using sint_range_size [of val] by (simp_all add: word_size)
  have "(if val <s 0 then NOT val else val) = word_of_int (magnitude (sint val))"
  proof (cases "sint val < 0")
    case True
    have "NOT val = word_of_int (NOT (sint val))" by (intro bit_word_eqI) (simp add: bit_simps)
    then show ?thesis using True by (simp add: word_sless_alt magnitude_def not_int_def)
  next
    case False
    then show ?thesis by (simp add: word_sless_alt magnitude_def)
  qed
  then show ?thesis using r by (simp add: uint_word_of_int_eq take_bit_int_eq_self magnitude_def)
qed

lemma WriteSigned_cases:
  obtains n where "WriteSignedNumIncreasing [] val = be n (sint val XOR header n)" "1 \<le> n" "n \<le> 10"
    "magnitude (sint val) < 2 ^ (7 * n - 1)" "n = 1 \<or> 2 ^ (7 * n - 8) \<le> magnitude (sint val)"
    "magnitude (sint val) < 2 ^ 63"
proof -
  define x where "x = (if val <s 0 then NOT val else val)"
  define v where "v = sint val"
  have x: "uint x = magnitude v" using magnitude_word [of val] by (simp add: x_def v_def)
  have small: "magnitude v < 2 ^ 63"
    using sint_range_size [of val] by (auto simp: v_def magnitude_def word_size)
  show ?thesis
  proof (cases "x < 64")
    case True
    have "(word_of_int (v XOR 128) :: byte) = 0x80 XOR ucast val"
      by (intro bit_word_eqI) (auto simp: v_def bit_simps bit_consts)
    then have "be 1 (v XOR header 1) = [0x80 XOR ucast val]" by (simp add: header_def)
    then show ?thesis using True x small by (intro that [of 1])
      (auto simp: WriteSignedNumIncreasing_def x_def [symmetric] v_def [symmetric] kLengthToHeaderBits_def word_less_def)
  next
    case False
    then have "64 \<le> magnitude v" using x by (simp add: word_less_def)
    then have "0 < nat (magnitude v)" by simp
    then obtain k where k: "2 ^ k \<le> nat (magnitude v)" "nat (magnitude v) < 2 ^ (k + 1)"
      using floor_log2_ex by blast
    then have k': "2 ^ k \<le> magnitude v" "magnitude v < 2 ^ (k + 1)"
      using \<open>64 \<le> magnitude v\<close> by (simp_all add: le_nat_iff nat_less_iff)
    have "(2 :: int) ^ k < 2 ^ 63" using k'(1) small by linarith
    then have "k < 63" by (rule power_less_imp_less_exp [rotated]) simp
    have "6 \<le> k"
    proof (rule ccontr)
      assume "\<not> ?thesis"
      then have "(2 :: int) ^ (k + 1) \<le> 2 ^ 6" by (intro power_increasing) auto
      then show False using k'(2) \<open>64 \<le> magnitude v\<close> by simp
    qed
    define n where "n = (k + 8) div 7"
    have n: "2 \<le> n" "n \<le> 10" "7 * n \<le> k + 8" "k + 2 \<le> 7 * n" using \<open>k < 63\<close> \<open>6 \<le> k\<close> by (auto simp: n_def)
    have "SignedEncodingLength x = n" using SignedEncodingLength_eq [of k x] k' \<open>k < 63\<close> x by (simp add: n_def)
    moreover have "drop (10 - n) (be 10 v) = be n v" using be_split [of "10 - n" n v] n(2) by simp
    moreover have "(be n v)[0 := be n v ! 0 XOR fst (kLengthToHeaderBits ! n),
        1 := (be n v)[0 := be n v ! 0 XOR fst (kLengthToHeaderBits ! n)] ! 1 XOR snd (kLengthToHeaderBits ! n)]
      = be n (v XOR header n)"
      using xor_first_two [of "be n v" n] n(1) by (simp only: be_xor header_table [OF n(1,2)] length_be)
    ultimately have "WriteSignedNumIncreasing [] val = be n (v XOR header n)"
      using False buf_be [of val]
      unfolding WriteSignedNumIncreasing_def Let_def x_def [symmetric] v_def [symmetric]
      by (simp add: Let_def v_def)
    moreover have "magnitude v < 2 ^ (7 * n - 1)"
      using k'(2) power_increasing [of "k + 1" "7 * n - 1" "2 :: int"] n(4) by linarith
    moreover have "2 ^ (7 * n - 8) \<le> magnitude v"
      using k'(1) power_increasing [of "7 * n - 8" k "2 :: int"] n(3) by linarith
    ultimately show ?thesis using n small by (intro that [of n]) (auto simp: v_def)
  qed
qed

lemma nth_be: "i < n \<Longrightarrow> be n k ! i = word_of_int (drop_bit (8 * (n - 1 - i)) k)"
  by (simp add: be_map)

lemma bit_fold_or:
  "bit (foldl (\<lambda>r i. r OR f i) a [0..<m]) n \<longleftrightarrow> bit (a :: 'a::len word) n \<or> (\<exists>i<m. bit (f i) n)"
  by (induction m) (auto simp: bit_simps less_Suc_eq)

lemma LoadBigEndian64_be:
  assumes "\<And>i. i < 8 \<Longrightarrow> src ! i = be 8 k ! i"
  shows "LoadBigEndian64 src = word_of_int k"
proof (rule bit_word_eqI)
  fix n assume "n < LENGTH(64)"
  then have n: "n < 64" by simp
  have "bit (LoadBigEndian64 src) n \<longleftrightarrow> (\<exists>i<8. 56 - 8 * i \<le> n \<and> n - (56 - 8 * i) < 8 \<and> bit k n)"
    unfolding LoadBigEndian64_def bit_fold_or
    using assms n by (auto simp: bit_simps nth_be algebra_simps)
  also have "\<dots> \<longleftrightarrow> bit k n" using n by (auto intro!: exI [of _ "7 - n div 8"])
  finally show "bit (LoadBigEndian64 src) n = bit (word_of_int k :: uint64) n" using n by (simp add: bit_simps)
qed

text \<open>The bytes read, with the sign removed, are those of the magnitude below the header.\<close>

lemma unsigned_byte:
  assumes "i < n"
  shows "be n e ! i XOR ucast ((word_of_int (sign_mask v) :: uint64) AND 0xff) = be n (e XOR sign_mask v) ! i"
  using assms by (auto simp: nth_be sign_mask_def intro!: bit_word_eqI) (auto simp: bit_simps)

lemma first_byte_short:
  assumes "0 \<le> x" "x < 2 ^ (7 * n - 1)" "0 < n" "n \<le> 7"
  defines "b \<equiv> be n (x + header n) ! 0"
  shows "b \<noteq> 0xff" "nat (7 - Log2Floor64 (ucast (b XOR 0xff))) = n"
proof -
  define z where "z = (x + header n) div 2 ^ (8 * n - 8)"
  have p: "(2 :: int) ^ (8 * n) = 256 * 2 ^ (8 * n - 8)" "(2 :: int) ^ (7 * n) = 2 ^ (8 - n) * 2 ^ (8 * n - 8)"
    "(2 :: int) ^ (7 * n - 1) = 2 ^ (7 - n) * 2 ^ (8 * n - 8)" "(2 :: int) ^ (8 - n) = 2 * 2 ^ (7 - n)"
    using assms(3,4) power_add [of "2 :: int" 8 "8 * n - 8"] by (auto simp flip: power_add power_Suc)
  have "(256 - 2 ^ (8 - n)) * 2 ^ (8 * n - 8) \<le> x + header n"
    using assms(1) by (simp add: header_def p(1,2) left_diff_distrib)
  then have "256 - 2 ^ (8 - n) \<le> z"
    using zdiv_mono1 [of "(256 - 2 ^ (8 - n)) * 2 ^ (8 * n - 8)" "x + header n" "2 ^ (8 * n - 8)"] by (simp add: z_def)
  moreover have "x + header n < (256 - 2 ^ (7 - n)) * 2 ^ (8 * n - 8)"
    using assms(2) [unfolded p(3)] by (simp add: header_def p left_diff_distrib)
  then have "z < 256 - 2 ^ (7 - n)" unfolding z_def by (intro int_div_less) auto
  moreover have "(2 :: int) ^ (8 - n) \<le> 2 ^ 7" using assms(3) by (intro power_increasing) auto
  ultimately have z: "256 - 2 ^ (8 - n) \<le> z" "z < 256 - 2 ^ (7 - n)" "0 \<le> z" by auto
  have b: "b = word_of_int z" using assms(3) by (simp add: b_def nth_be z_def drop_bit_eq_div algebra_simps)
  have "(0 :: int) < 2 ^ (7 - n)" by simp
  then have "z < 256" using z(2) by linarith
  then have "uint b = z" using z(3) by (simp add: b uint_word_of_int_eq take_bit_int_eq_self)
  then have ub: "unat b = nat z" by (simp add: unat_eq_nat_uint del: nat_uint_eq)
  have "z \<noteq> 255" using z(2) \<open>0 < 2 ^ (7 - n)\<close> by linarith
  then show "b \<noteq> 0xff" using \<open>uint b = z\<close> by auto
  have "b XOR 0xff = 255 - b"
  proof -
    have "b XOR - 1 = - 1 - b" by (simp add: not_eq_complement)
    moreover have "(255 :: byte) = - 1" by simp
    ultimately show ?thesis by (simp only:)
  qed
  then have "unat (b XOR 0xff) = 255 - nat z"
    using unat_sub [of b 255] ub byte_less_255 [of b] \<open>b \<noteq> 0xff\<close> by simp
  then have u: "unat (ucast (b XOR 0xff) :: uint64) = nat (255 - z)"
    using z(3) by (simp add: unat_ucast_up nat_diff_distrib')
  have "2 ^ (7 - n) \<le> nat (255 - z)" "nat (255 - z) < 2 ^ (7 - n + 1)"
    using z p(4) by (simp_all add: le_nat_iff nat_less_iff)
  then have "Log2Floor64 (ucast (b XOR 0xff)) = int (7 - n)" unfolding u [symmetric] by (rule Log2Floor64_eq) simp
  then show "nat (7 - Log2Floor64 (ucast (b XOR 0xff))) = n" using assms(4) by simp
qed

lemma uint_nth_be:
  assumes "i < n" "j = 8 * (n - 1 - i)" "y = x + c * 2 ^ j"
  shows "uint (be n y ! i) = (x div 2 ^ j + c) mod 256"
proof -
  have "be n y ! i = word_of_int (drop_bit j y)" using nth_be [OF assms(1)] unfolding assms(2) .
  then have "uint (be n y ! i) = drop_bit j y mod 256" by (simp add: uint_word_of_int_eq take_bit_eq_mod)
  moreover have "drop_bit j y = x div 2 ^ j + c" by (simp add: assms(3) drop_bit_eq_div)
  ultimately show ?thesis by simp
qed

lemma byte_eqI: "uint b = uint c \<Longrightarrow> b = (c :: byte)"
  by (rule word_uint_eqI)

lemma long_bytes_8:
  assumes "0 \<le> x" "x < 2 ^ 55"
  shows "be 8 (x + header 8) ! 0 = 0xff" "\<not> 0x80 \<le> be 8 (x + header 8) ! 1"
proof -
  have "uint (be 8 (x + header 8) ! 0) = (x div 2 ^ 56 + 255) mod 256"
    by (rule uint_nth_be) (simp_all add: header_def)
  moreover have "x div 2 ^ 56 = 0" using assms by (simp add: zdiv_eq_0_iff)
  ultimately show "be 8 (x + header 8) ! 0 = 0xff" by (intro byte_eqI) simp
  have "uint (be 8 (x + header 8) ! 1) = (x div 2 ^ 48 + 65280) mod 256"
    by (rule uint_nth_be) (simp_all add: header_def)
  also have "\<dots> = (x div 2 ^ 48 + 255 * 256) mod 256" by simp
  also have "\<dots> = x div 2 ^ 48 mod 256" by (rule mod_mult_self1)
  moreover have "x div 2 ^ 48 < 128" "0 \<le> x div 2 ^ 48" using assms by (auto intro: int_div_less)
  ultimately show "\<not> 0x80 \<le> be 8 (x + header 8) ! 1" by (simp add: word_le_def)
qed

lemma long_bytes_9:
  assumes "0 \<le> x" "x < 2 ^ 62"
  shows "be 9 (x + header 9) ! 0 = 0xff" "0x80 \<le> be 9 (x + header 9) ! 1" "be 9 (x + header 9) ! 1 < 0xc0"
proof -
  have "uint (be 9 (x + header 9) ! 0) = ((x + 2 ^ 63) div 2 ^ 64 + 255) mod 256"
    by (rule uint_nth_be) (simp_all add: header_def)
  moreover have "(x + 2 ^ 63) div 2 ^ 64 = 0" using assms by (simp add: zdiv_eq_0_iff)
  ultimately show "be 9 (x + header 9) ! 0 = 0xff" by (intro byte_eqI) simp
  have "uint (be 9 (x + header 9) ! 1) = (x div 2 ^ 56 + (128 + 255 * 256)) mod 256"
    by (rule uint_nth_be) (simp_all add: header_def)
  also have "\<dots> = (x div 2 ^ 56 + 128 + 255 * 256) mod 256" by (simp add: add.commute)
  also have "\<dots> = (x div 2 ^ 56 + 128) mod 256" by (rule mod_mult_self1)
  moreover have "x div 2 ^ 56 < 64" "0 \<le> x div 2 ^ 56" using assms by (auto intro: int_div_less)
  ultimately show "0x80 \<le> be 9 (x + header 9) ! 1" "be 9 (x + header 9) ! 1 < 0xc0"
    by (simp_all add: word_le_def word_less_def)
qed

lemma long_bytes_10:
  assumes "0 \<le> x" "x < 2 ^ 63"
  shows "be 10 (x + header 10) ! 0 = 0xff" "be 10 (x + header 10) ! 1 = 0xc0" "be 10 (x + header 10) ! 2 < 0x80"
proof -
  have "uint (be 10 (x + header 10) ! 0) = ((x + 192 * 2 ^ 64) div 2 ^ 72 + 255) mod 256"
    by (rule uint_nth_be) (simp_all add: header_def)
  moreover have "(x + 192 * 2 ^ 64) div 2 ^ 72 = 0" using assms by (simp add: zdiv_eq_0_iff)
  ultimately show "be 10 (x + header 10) ! 0 = 0xff" by (intro byte_eqI) simp
  have "uint (be 10 (x + header 10) ! 1) = (x div 2 ^ 64 + (192 + 255 * 256)) mod 256"
    by (rule uint_nth_be) (simp_all add: header_def)
  moreover have "x div 2 ^ 64 = 0" using assms by (simp add: zdiv_eq_0_iff)
  ultimately show "be 10 (x + header 10) ! 1 = 0xc0" by (intro byte_eqI) simp
  have "uint (be 10 (x + header 10) ! 2) = (x div 2 ^ 56 + 65472 * 256) mod 256"
    by (rule uint_nth_be) (simp_all add: header_def)
  also have "\<dots> = x div 2 ^ 56 mod 256" by (rule mod_mult_self1)
  moreover have "x div 2 ^ 56 < 128" "0 \<le> x div 2 ^ 56" using assms by (auto intro: int_div_less)
  ultimately show "be 10 (x + header 10) ! 2 < 0x80" by (simp add: word_less_def)
qed

lemma signed_high:
  assumes "magnitude v < 2 ^ (7 * n - 1)" "0 < n"
  shows "drop_bit (8 * n) (v XOR header n) = sign_mask v"
proof -
  have "magnitude v + header n < 2 ^ (8 * n)" "0 \<le> magnitude v + header n"
    using magnitude_bounds [OF assms] power_increasing [of "7 * n" "8 * n" "2 :: int"] by (auto simp: header_def)
  then have "drop_bit (8 * n) ((v XOR header n) XOR sign_mask v) = 0"
    unfolding signed_code_xor(1) [OF assms] by (simp add: drop_bit_eq_div)
  moreover have "drop_bit (8 * n) (sign_mask v) = sign_mask v" by (simp add: sign_mask_def)
  ultimately have "drop_bit (8 * n) (v XOR header n) XOR sign_mask v = 0" by (simp only: drop_bit_xor)
  then show ?thesis by (metis xor.assoc xor_self_eq xor.right_neutral xor.left_neutral)
qed

lemma read_signed_raw_eq:
  assumes n: "1 \<le> n" "n \<le> 10" and v: "magnitude v < 2 ^ (7 * n - 1)" "magnitude v < 2 ^ 63"
    and src: "src \<noteq> []" "\<forall>i<n. i < length src \<longrightarrow> src ! i = be n e ! i" and e: "e = v XOR header n"
  shows "read_signed_raw src (word_of_int (sign_mask v)) =
    (if length src < n then None else Some (n, word_of_int e))"
proof -
  have x: "0 \<le> magnitude v" "e XOR sign_mask v = magnitude v + header n"
    using magnitude_bounds(1) [OF v(1)] signed_code_xor(1) [OF v(1)] n by (auto simp: e)
  have byte: "src ! i XOR ucast ((word_of_int (sign_mask v) :: uint64) AND 0xff) = be n (magnitude v + header n) ! i"
    if "i < n" "i < length src" for i
    using that src(2) unsigned_byte [of i n e v] by (simp only: x(2))
  have whole: "take n src = be n e" if "n \<le> length src"
    using that src(2) by (intro nth_equalityI) auto
  have load: "LoadBigEndian64 (drop (n - 8) src) = word_of_int e" if "8 \<le> n" "n \<le> length src"
  proof (rule LoadBigEndian64_be)
    fix i :: nat assume "i < 8"
    then show "drop (n - 8) src ! i = be 8 e ! i" using that src(2) by (simp add: nth_be)
  qed
  show ?thesis
  proof (cases "n \<le> 7")
    case True
    note fb = first_byte_short [OF x(1) v(1) _ True]
    have "foldl (\<lambda>x b. push_bit 8 x OR ucast b) (word_of_int (sign_mask v)) (be n e) = (word_of_int e :: uint64)"
      using fold_be [of n e] signed_high [OF v(1)] n by (simp add: e)
    then show ?thesis using True fb byte [of 0] n src(1) whole
      by (simp add: read_signed_raw_def Let_def del: ucast_and_255)
  next
    case False
    then consider "n = 8" | "n = 9" | "n = 10" using n by linarith
    then show ?thesis
    proof cases
      case 1
      then show ?thesis using long_bytes_8 [of "magnitude v"] x(1) v byte [of 0] byte [of 1] load src(1)
        by (auto simp: read_signed_raw_def Let_def simp del: ucast_and_255)
    next
      case 2
      then show ?thesis using long_bytes_9 [of "magnitude v"] x(1) v byte [of 0] byte [of 1] load src(1)
        by (auto simp: read_signed_raw_def Let_def simp del: ucast_and_255)
    next
      case 3
      then show ?thesis using long_bytes_10 [of "magnitude v"] x(1) v byte [of 0] byte [of 1] byte [of 2] load src(1)
        by (auto simp: read_signed_raw_def Let_def simp del: ucast_and_255)
    qed
  qed
qed

lemma first_bit_sign:
  assumes "magnitude v < 2 ^ (7 * n - 1)" "1 \<le> n"
  shows "be n (v XOR header n) ! 0 AND 0x80 = 0 \<longleftrightarrow> v < 0"
proof -
  let ?y = "magnitude v + header n" and ?e = "v XOR header n"
  have "(2 :: int) ^ (7 * n) \<le> 2 ^ (8 * n - 1)" using assms(2) by (intro power_increasing) auto
  moreover have p: "(2 :: int) ^ (8 * n) = 2 * 2 ^ (8 * n - 1)" using assms(2) by (simp flip: power_Suc)
  moreover have "0 \<le> magnitude v" "magnitude v < 2 ^ (7 * n)" using magnitude_bounds [OF assms(1)] assms(2) by auto
  ultimately have "1 * 2 ^ (8 * n - 1) \<le> ?y" "?y < 2 * 2 ^ (8 * n - 1)"
    unfolding header_def by linarith+
  then have "?y div 2 ^ (8 * n - 1) = 1"
    using zdiv_mono1 [of "1 * 2 ^ (8 * n - 1)" ?y "2 ^ (8 * n - 1)"] int_div_less [of "2 ^ (8 * n - 1)" ?y 2] by simp
  then have "bit ?y (8 * n - 1)" by (simp add: bit_iff_odd)
  moreover have "?y = ?e XOR sign_mask v" using signed_code_xor(1) [OF assms(1)] assms(2) by simp
  moreover have "bit (sign_mask v) i \<longleftrightarrow> v < 0" for i by (simp add: sign_mask_def)
  ultimately have "bit ?e (8 * n - 1) \<longleftrightarrow> \<not> v < 0" by (simp only: bit_xor_iff) blast
  moreover have "8 * (n - 1) + 7 = 8 * n - 1" using assms(2) by simp
  ultimately show ?thesis using assms(2) by (simp add: byte_and_128 nth_be bit_simps algebra_simps)
qed

lemma ReadSigned_be:
  assumes n: "1 \<le> n" "n \<le> 10" and v: "magnitude (sint val) < 2 ^ (7 * n - 1)" "magnitude (sint val) < 2 ^ 63"
    and src: "src \<noteq> []" "\<forall>i<n. i < length src \<longrightarrow> src ! i = be n (sint val XOR header n) ! i"
  shows "ReadSignedNumIncreasing src = (if length src < n then None else Some (val, drop n src))"
proof -
  have "src ! 0 AND 0x80 = 0 \<longleftrightarrow> sint val < 0"
    using first_bit_sign [OF v(1) n(1)] src n(1) by simp
  then have mask: "(if src ! 0 AND 0x80 = 0 then NOT 0 else 0 :: uint64) = word_of_int (sign_mask (sint val))"
    by (simp add: sign_mask_def)
  have "(word_of_int (sint val XOR header n) :: int64) XOR word_of_int (header n) = word_of_int (sint val)"
    by (rule bit_word_eqI) (auto simp: bit_simps)
  then show ?thesis
    using read_signed_raw_eq [OF n v src refl] src(1) mask_table [OF n]
    by (simp add: ReadSignedNumIncreasing_def Let_def mask)
qed

interpretation oc_signed: ordered_encoding "WriteSignedNumIncreasing []" ReadSignedNumIncreasing "(<s)"
proof
  fix x r
  obtain n where n: "WriteSignedNumIncreasing [] x = be n (sint x XOR header n)" "1 \<le> n" "n \<le> 10"
    "magnitude (sint x) < 2 ^ (7 * n - 1)" "magnitude (sint x) < 2 ^ 63" by (rule WriteSigned_cases)
  show "ReadSignedNumIncreasing (WriteSignedNumIncreasing [] x @ r) = Some (x, r)"
    unfolding n(1) using n(2) by (subst ReadSigned_be [OF n(2-5)]) (auto simp: nth_append)
  fix k assume k: "k < length (WriteSignedNumIncreasing [] x)"
  show "ReadSignedNumIncreasing (take k (WriteSignedNumIncreasing [] x)) = None"
  proof (cases "k = 0")
    case True
    then show ?thesis by (simp add: ReadSignedNumIncreasing_def)
  next
    case False
    then show ?thesis using k n(2) unfolding n(1) by (subst ReadSigned_be [OF n(2-5)]) auto
  qed
next
  fix x y :: int64 and r s assume "x <s y"
  then have less: "sint x < sint y" by (simp add: word_sless_alt)
  obtain m where m: "WriteSignedNumIncreasing [] x = be m (sint x XOR header m)" "1 \<le> m" "m \<le> 10"
    "magnitude (sint x) < 2 ^ (7 * m - 1)" "m = 1 \<or> 2 ^ (7 * m - 8) \<le> magnitude (sint x)"
    by (rule WriteSigned_cases)
  obtain n where n: "WriteSignedNumIncreasing [] y = be n (sint y XOR header n)" "1 \<le> n" "n \<le> 10"
    "magnitude (sint y) < 2 ^ (7 * n - 1)" "n = 1 \<or> 2 ^ (7 * n - 8) \<le> magnitude (sint y)"
    by (rule WriteSigned_cases)
  show "WriteSignedNumIncreasing [] x @ r < WriteSignedNumIncreasing [] y @ s"
    using signed_code_mono [OF m(4,5) _ n(4,5) _ less] m(2) n(2) signed_code_xor(2) [OF m(4)] signed_code_xor(2) [OF n(4)]
    unfolding m(1) n(1) by simp
next
  fix x y :: int64
  show "x = y \<or> x <s y \<or> y <s x" 
    by (cases "sint x" "sint y" rule: linorder_cases) (auto simp: word_sless_alt intro: signed_word_eqI)
qed

section \<open>The portable logarithm\<close>

lemma Log2Floor32_loop_eq:
  assumes "2 ^ k \<le> unat w" "unat w < 2 ^ (k + 1)" "k < 2 ^ m"
  shows "Log2Floor32_loop (rev [0..<m]) w log = log + int k"
  using assms
proof (induction m arbitrary: w log k)
  case 0
  then show ?case by simp
next
  case (Suc m)
  define x where "x = drop_bit (2 ^ m) w"
  have ux: "unat x = unat w div 2 ^ 2 ^ m" by (simp add: x_def unat_drop_bit_div)
  show ?case
  proof (cases "2 ^ m \<le> k")
    case True
    then have e: "(2 :: nat) ^ k = 2 ^ (k - 2 ^ m) * 2 ^ 2 ^ m" "(2 :: nat) ^ (k + 1) = 2 ^ (k - 2 ^ m + 1) * 2 ^ 2 ^ m"
      by (simp_all flip: power_add)
    have top: "2 ^ (k - 2 ^ m) \<le> unat x" "unat x < 2 ^ (k - 2 ^ m + 1)"
      using div_le_mono [OF Suc.prems(1), of "2 ^ 2 ^ m"] Suc.prems(2)
      unfolding ux e by (simp_all add: less_mult_imp_div_less)
    then have "x \<noteq> 0" by (auto simp: unat_eq_0)
    moreover have "Log2Floor32_loop (rev [0..<m]) x (log + 2 ^ m) = log + 2 ^ m + int (k - 2 ^ m)"
      using top Suc.prems(3) by (intro Suc.IH) auto
    ultimately show ?thesis using True by (simp add: push_bit_eq_mult of_nat_diff flip: x_def)
  next
    case False
    then have "(2 :: nat) ^ (k + 1) \<le> 2 ^ 2 ^ m" by (intro power_increasing) auto
    then have "unat x = 0" using Suc.prems(2) ux by simp
    then have "x = 0" by (simp add: unat_eq_0)
    moreover have "Log2Floor32_loop (rev [0..<m]) w log = log + int k"
      using Suc.prems False by (intro Suc.IH) auto
    ultimately show ?thesis by (simp add: push_bit_eq_mult flip: x_def)
  qed
qed

lemma Log2Floor32_Portable_eq: "unat (ucast n :: uint64) = unat n \<Longrightarrow> Log2Floor32_Portable n = Log2Floor64 (ucast n)"
proof -
  assume u: "unat (ucast n :: uint64) = unat n"
  show ?thesis
  proof (cases "n = 0")
    case True
    then show ?thesis by (simp add: Log2Floor32_Portable_def Log2Floor64_def)
  next
    case False
    then have "0 < unat n" by (simp add: unat_gt_0)
    then obtain k where k: "2 ^ k \<le> unat n" "unat n < 2 ^ (k + 1)" using floor_log2_ex by blast
    have "(2 :: nat) ^ k < 2 ^ 32" using k(1) unat_less_exp [of n] by simp
    then have "k < 32" by (rule power_less_imp_less_exp [rotated]) simp
    moreover have bits: "[4, 3, 2, 1, 0 :: nat] = rev [0..<5]" by code_simp
    ultimately show ?thesis
      using False k Log2Floor32_loop_eq [of k n 5 0] Log2Floor64_eq [of k "ucast n"] u
      by (simp add: Log2Floor32_Portable_def bits)
  qed
qed

lemma Log2Floor64_Portable_eq: "Log2Floor64_Portable n = Log2Floor64 n"
proof (cases "drop_bit 32 n = 0")
  case True
  have "unat n < 2 ^ 32"
    using True unat_drop_bit_div [of 32 n] by (simp add: div_eq_0_iff)
  then have "ucast (ucast n :: uint32) = n" "unat (ucast n :: uint32) = unat n"
    by (simp_all add: word_unat_eq_iff unsigned_ucast_eq unsigned_take_bit_eq take_bit_nat_eq_self)
  then show ?thesis using True Log2Floor32_Portable_eq [of "ucast n"] by (simp add: Log2Floor64_Portable_def)
next
  case False
  define t where "t = (ucast (drop_bit 32 n) :: uint32)"
  have "unat n div 2 ^ 32 < 2 ^ 32" using unat_less_exp [of n] by (simp add: less_mult_imp_div_less)
  then have u: "unat t = unat n div 2 ^ 32" "ucast t = drop_bit 32 n"
    by (simp_all add: t_def word_unat_eq_iff unsigned_ucast_eq unsigned_take_bit_eq take_bit_nat_eq_self unat_drop_bit_div)
  have "0 < unat (drop_bit 32 n)" using False by (simp only: unat_gt_0) simp
  then have "0 < unat n div 2 ^ 32" by (simp only: unat_drop_bit_div)
  then obtain k where k: "2 ^ k \<le> unat n div 2 ^ 32" "unat n div 2 ^ 32 < 2 ^ (k + 1)" using floor_log2_ex by blast
  then have "2 ^ (k + 32) \<le> unat n" "unat n < 2 ^ (k + 32 + 1)"
    by (simp_all add: less_eq_div_iff_mult_less_eq div_less_iff_less_mult power_add mult.commute)
  moreover have "(2 :: nat) ^ k < 2 ^ 32" using k(1) \<open>unat n div 2 ^ 32 < 2 ^ 32\<close> by linarith
  then have "k < 32" by (rule power_less_imp_less_exp [rotated]) simp
  ultimately have "Log2Floor64 n = int k + 32" "Log2Floor64 (drop_bit 32 n) = int k"
    using Log2Floor64_eq [of "k + 32" n] Log2Floor64_eq [of k "drop_bit 32 n"] k by (simp_all add: unat_drop_bit_div)
  moreover have "t \<noteq> 0" using u(2) False by auto
  ultimately show ?thesis using Log2Floor32_Portable_eq [of t] u
    by (simp add: Log2Floor64_Portable_def unat_drop_bit_div flip: t_def)
qed

section \<open>Properties\<close>

text \<open>A key of a name, a number and a signed number, one after the other.\<close>

interpretation oc_numbers: ordered_encodings
    "WriteNumIncreasing []" ReadNumIncreasing "(<)" "WriteSignedNumIncreasing []" ReadSignedNumIncreasing "(<s)"
  by unfold_locales

interpretation oc_key: ordered_encodings "WriteString []" "\<lambda>src. ReadString src []" "(<)"
    "put_pair (WriteNumIncreasing []) (WriteSignedNumIncreasing [])"
    "get_pair ReadNumIncreasing ReadSignedNumIncreasing" "lt_pair (<) (<s)"
  by unfold_locales

definition composite_key :: "bytes \<Rightarrow> uint64 \<Rightarrow> int64 \<Rightarrow> bytes" where
  "composite_key s n v = WriteSignedNumIncreasing (WriteNumIncreasing (WriteString [] s) n) v"

lemma Write_append:
  "WriteString dest s = dest @ WriteString [] s"
  "WriteNumIncreasing dest n = dest @ WriteNumIncreasing [] n"
  "WriteSignedNumIncreasing dest v = dest @ WriteSignedNumIncreasing [] v"
  by (simp_all add: WriteString_eq WriteNumIncreasing_def WriteSignedNumIncreasing_def Let_def)

text \<open>
  C10: What the three writers append is read back exactly, whatever follows it, and
  the encodings compare, byte by byte and whatever follows, as the values do:
  strings lexicographically, \<open>uint64\<close> as unsigned and \<open>int64\<close> as signed numbers.
\<close>

theorem ordered_code_values:
  "ReadString (WriteString [] s @ rest) result = Some (result @ s, rest) \<and>
   ReadNumIncreasing (WriteNumIncreasing [] n @ rest) = Some (n, rest) \<and>
   ReadSignedNumIncreasing (WriteSignedNumIncreasing [] v @ rest) = Some (v, rest) \<and>
   (WriteString [] s @ rest < WriteString [] s' @ rest' \<longleftrightarrow> s < s' \<or> s = s' \<and> rest < rest') \<and>
   (WriteNumIncreasing [] n @ rest < WriteNumIncreasing [] n' @ rest' \<longleftrightarrow>
      unat n < unat n' \<or> n = n' \<and> rest < rest') \<and>
   (WriteSignedNumIncreasing [] v @ rest < WriteSignedNumIncreasing [] v' @ rest' \<longleftrightarrow>
      sint v < sint v' \<or> v = v' \<and> rest < rest')"
  using oc_string.put_less_iff [of s rest s' rest'] oc_num.put_less_iff [of n rest n' rest']
    oc_signed.put_less_iff [of v rest v' rest'] oc_num.get_put [of n rest] oc_signed.get_put [of v rest]
  by (simp add: word_less_nat_alt word_sless_alt WriteString_eq ReadString_eq unesc_put)

text \<open>
  Composite keys. A key made of a string, an unsigned and a signed number sorts
  as the triples do, field by field, and the three readers in turn recover the
  fields.
\<close>

theorem ordered_code_keys:
  "(composite_key s n v < composite_key s' n' v' \<longleftrightarrow>
      s < s' \<or> s = s' \<and> (unat n < unat n' \<or> n = n' \<and> sint v < sint v')) \<and>
    get_pair (\<lambda>src. ReadString src []) (get_pair ReadNumIncreasing ReadSignedNumIncreasing) (composite_key s n v @ rest) =
      Some ((s, n, v), rest)"
proof -
  let ?put = "put_pair (WriteString []) (put_pair (WriteNumIncreasing []) (WriteSignedNumIncreasing []))"
  have key: "composite_key a b c = ?put (a, b, c)" for a b c
    unfolding composite_key_def Write_append(2) [of "WriteString [] a"] Write_append(3) [of "WriteString [] a @ WriteNumIncreasing [] b"]
    by (simp add: put_pair_def)
  show ?thesis
    using oc_key.pair.put_less [of "(s, n, v)" "(s', n', v')"] oc_key.pair.get_put [of "(s, n, v)" rest]
    unfolding key by (simp add: lt_pair_def word_less_nat_alt word_sless_alt)
qed

text \<open>
  An encoding that is cut short anywhere is rejected by its reader.
\<close>

theorem ordered_code_truncated:
  "(k < length (WriteString [] s) \<longrightarrow> ReadString (take k (WriteString [] s)) [] = None) \<and>
   (k < length (WriteNumIncreasing [] n) \<longrightarrow> ReadNumIncreasing (take k (WriteNumIncreasing [] n)) = None) \<and>
   (k < length (WriteSignedNumIncreasing [] v) \<longrightarrow>
      ReadSignedNumIncreasing (take k (WriteSignedNumIncreasing [] v)) = None)"
  using oc_string.get_cut oc_num.get_cut oc_signed.get_cut by blast

theorem ordered_code_truncated_witness:
  "ReadString (take 3 (WriteString [] [97, 0, 98])) [] = None \<and>
   ReadNumIncreasing (take 2 (WriteNumIncreasing [] 1000)) = None"
proof -
  have "length (WriteString [] [97, 0, 98]) = 6" by (simp add: WriteString_eq esc_def)
  moreover have "length (WriteNumIncreasing [] 1000) = 3"
    by (simp add: WriteNumIncreasing_def WriteNum_loop.simps drop_bit_eq_div word_less_nat_alt)
  ultimately show ?thesis
    using ordered_code_truncated [of 3 "[97, 0, 98]" 0 0] ordered_code_truncated [of 2 "[]" 1000 0] by simp
qed

text \<open>
  The portable logarithm agrees with the one based on the compiler's intrinsic:
  both give -1 for 0 and the position of the highest bit otherwise.
\<close>

theorem ordered_code_log2:
  "Log2Floor64_Portable n = Log2Floor64 n \<and> (n = 0 \<and> Log2Floor64 n = - 1 \<or>
     (\<exists>k. Log2Floor64 n = int k \<and> 2 ^ k \<le> unat n \<and> unat n < 2 ^ (k + 1)))"
proof (cases "n = 0")
  case False
  then have "0 < unat n" by (simp add: unat_gt_0)
  then obtain k where k: "2 ^ k \<le> unat n" "unat n < 2 ^ (k + 1)" using floor_log2_ex by blast
  have "(2 :: nat) ^ k < 2 ^ 64" using k(1) unat_less_exp [of n] by simp
  then have "k < 64" by (rule power_less_imp_less_exp [rotated]) simp
  then show ?thesis using Log2Floor64_eq [OF k] k Log2Floor64_Portable_eq by blast
qed (simp add: Log2Floor64_Portable_eq Log2Floor64_def)

end
