(* ===== verification/Pending_Counts.thy ===== *)
theory Pending_Counts
  imports Prelude
begin

text \<open>
  The pending and dead counts of the executor, \<open>common_runtime/pending_counts.h\<close>.
  Small counts are packed into the bit fields of one byte, large ones live in a hash
  table; the model keeps the fields at their widths, and the 32-bit counts of the table as
  integers, which the preconditions of the operations keep in range. \<open>operator[]\<close> of the hash table
  inserts a default entry for a missing key. \<open>DCHECK\<close> is not compiled into the
  optimised build: its conditions are the preconditions of the specification below.
  Node ids are array indices.
\<close>

section \<open>State\<close>

datatype NodeState = PENDING_NOTREADY | PENDING_READY | STARTED | COMPLETED

record packed_counts =
  pc_pending :: "3 word"
  pc_dead_count :: "3 word"
  pc_has_started :: "1 word"
  pc_is_large :: "1 word"

record large_counts =
  lc_pending :: int
  lc_dead_count :: int

definition default_large :: large_counts where
  "default_large = \<lparr>lc_pending = 0, lc_dead_count = 0\<rparr>"

record pending_counts =
  counts :: "packed_counts list"
  overflow :: "nat \<rightharpoonup> large_counts"

text \<open>\<open>overflow_[i]\<close>, and a change through the reference it returns.\<close>

definition overflow_at :: "pending_counts \<Rightarrow> nat \<Rightarrow> large_counts" where
  "overflow_at pc i = (case overflow pc i of Some c \<Rightarrow> c | None \<Rightarrow> default_large)"

definition set_overflow :: "nat \<Rightarrow> (large_counts \<Rightarrow> large_counts) \<Rightarrow> pending_counts \<Rightarrow> pending_counts" where
  "set_overflow i f pc = pc\<lparr>overflow := (overflow pc)(i \<mapsto> f (overflow_at pc i))\<rparr>"

definition set_counts :: "nat \<Rightarrow> (packed_counts \<Rightarrow> packed_counts) \<Rightarrow> pending_counts \<Rightarrow> pending_counts" where
  "set_counts i f pc = pc\<lparr>counts := (counts pc)[i := f (counts pc ! i)]\<rparr>"

section \<open>Operations\<close>

definition kMaxCountForPackedCounts :: int where
  "kMaxCountForPackedCounts = 7"

definition set_initial_count :: "nat \<Rightarrow> int \<Rightarrow> int \<Rightarrow> pending_counts \<Rightarrow> pending_counts" where
  "set_initial_count i pending_count max_dead_count pc =
     (if pending_count > kMaxCountForPackedCounts \<or> max_dead_count > kMaxCountForPackedCounts then
        set_counts i (\<lambda>c. c\<lparr>pc_pending := 0, pc_dead_count := 0, pc_is_large := 1\<rparr>)
          (set_overflow i (\<lambda>c. \<lparr>lc_pending = pending_count, lc_dead_count = 0\<rparr>) pc)
      else
        set_counts i (\<lambda>c. \<lparr>pc_pending = of_int pending_count, pc_dead_count = 0,
          pc_has_started = 0, pc_is_large = 0\<rparr>) pc)"

definition IsLarge :: "pending_counts \<Rightarrow> nat \<Rightarrow> bool" where
  "IsLarge pc i \<longleftrightarrow> pc_is_large (counts pc ! i) = 1"

definition NodeStatePacked :: "pending_counts \<Rightarrow> nat \<Rightarrow> NodeState" where
  "NodeStatePacked pc i =
     (if pc_has_started (counts pc ! i) = 1
      then (if pc_pending (counts pc ! i) = 0 then STARTED else COMPLETED)
      else (if pc_pending (counts pc ! i) = 0 then PENDING_READY else PENDING_NOTREADY))"

definition NodeStateLarge :: "pending_counts \<Rightarrow> nat \<Rightarrow> NodeState" where
  "NodeStateLarge pc i =
     (let pending = lc_pending (overflow_at pc i) in
      if pending > 0 then PENDING_NOTREADY
      else if pending = 0 then PENDING_READY
      else if pending = - 1 then STARTED
      else COMPLETED)"

definition node_state :: "pending_counts \<Rightarrow> nat \<Rightarrow> NodeState" where
  "node_state pc i = (if IsLarge pc i then NodeStateLarge pc i else NodeStatePacked pc i)"

definition mark_started :: "nat \<Rightarrow> pending_counts \<Rightarrow> pending_counts" where
  "mark_started i pc =
     (if IsLarge pc i then set_overflow i (\<lambda>c. c\<lparr>lc_pending := - 1\<rparr>) pc
      else set_counts i (\<lambda>c. c\<lparr>pc_has_started := 1\<rparr>) pc)"

definition mark_completed :: "nat \<Rightarrow> pending_counts \<Rightarrow> pending_counts" where
  "mark_completed i pc =
     (if IsLarge pc i then set_overflow i (\<lambda>c. c\<lparr>lc_pending := - 2\<rparr>) pc
      else set_counts i (\<lambda>c. c\<lparr>pc_pending := 1\<rparr>) pc)"

definition pending :: "pending_counts \<Rightarrow> nat \<Rightarrow> int" where
  "pending pc i =
     (if IsLarge pc i then
        (if PENDING_NOTREADY = NodeStateLarge pc i then lc_pending (overflow_at pc i) else 0)
      else
        (if PENDING_NOTREADY = NodeStatePacked pc i then uint (pc_pending (counts pc ! i)) else 0))"

definition decrement_pending :: "nat \<Rightarrow> int \<Rightarrow> pending_counts \<Rightarrow> int \<times> pending_counts" where
  "decrement_pending i v pc =
     (if IsLarge pc i then
        let pc = set_overflow i (\<lambda>c. c\<lparr>lc_pending := lc_pending c - v\<rparr>) pc in
        (lc_pending (overflow_at pc i), pc)
      else
        let pc = set_counts i (\<lambda>c. c\<lparr>pc_pending := pc_pending c - of_int v\<rparr>) pc in
        (uint (pc_pending (counts pc ! i)), pc))"

definition mark_live :: "nat \<Rightarrow> pending_counts \<Rightarrow> pending_counts" where
  "mark_live i pc =
     (if IsLarge pc i then
        (if PENDING_NOTREADY = NodeStateLarge pc i
         then set_overflow i (\<lambda>c. c\<lparr>lc_pending := lc_pending c AND NOT 1\<rparr>) pc else pc)
      else
        (if PENDING_NOTREADY = NodeStatePacked pc i
         then set_counts i (\<lambda>c. c\<lparr>pc_pending := pc_pending c AND 6\<rparr>) pc else pc))"

definition dead_count :: "pending_counts \<Rightarrow> nat \<Rightarrow> int" where
  "dead_count pc i =
     (if IsLarge pc i then lc_dead_count (overflow_at pc i) else uint (pc_dead_count (counts pc ! i)))"

definition increment_dead_count :: "nat \<Rightarrow> pending_counts \<Rightarrow> pending_counts" where
  "increment_dead_count i pc =
     (if IsLarge pc i then
        (if PENDING_NOTREADY = NodeStateLarge pc i
         then set_overflow i (\<lambda>c. c\<lparr>lc_dead_count := lc_dead_count c + 1\<rparr>) pc else pc)
      else
        (if PENDING_NOTREADY = NodeStatePacked pc i
         then set_counts i (\<lambda>c. c\<lparr>pc_dead_count := pc_dead_count c + 1\<rparr>) pc else pc))"

fun copy_counts :: "packed_counts list \<Rightarrow> nat \<Rightarrow> packed_counts list \<Rightarrow> packed_counts list" where
  "copy_counts b 0 cs = cs"
| "copy_counts b (Suc i) cs = (copy_counts b i cs)[i := b ! i]"

definition InitializeFrom :: "pending_counts \<Rightarrow> pending_counts \<Rightarrow> pending_counts" where
  "InitializeFrom b pc =
     pc\<lparr>counts := copy_counts (counts b) (length (counts pc)) (counts pc), overflow := overflow b\<rparr>"

section \<open>Specification\<close>

text \<open>
  A node as the executor sees it: its state, the inputs it still waits for, and the
  dead inputs it has received. An operation is \<open>None\<close> where the code's \<open>DCHECK\<close>s
  exclude it; \<open>max_dead\<close> is the bound announced to \<open>set_initial_count\<close>.
\<close>

record node =
  n_state :: NodeState
  n_pending :: int
  n_dead :: int

datatype node_op = Mark_started | Mark_completed | Decrement int | Mark_live | Increment_dead

definition waiting :: "int \<Rightarrow> node \<Rightarrow> node" where
  "waiting p n = n\<lparr>n_state := (if p = 0 then PENDING_READY else PENDING_NOTREADY), n_pending := p\<rparr>"

fun spec_op :: "int \<Rightarrow> node_op \<Rightarrow> node \<Rightarrow> node option" where
  "spec_op max_dead Mark_started n =
     (if n_state n = PENDING_READY then Some (n\<lparr>n_state := STARTED\<rparr>) else None)"
| "spec_op max_dead Mark_completed n =
     (if n_state n = STARTED then Some (n\<lparr>n_state := COMPLETED\<rparr>) else None)"
| "spec_op max_dead (Decrement v) n =
     (if 0 \<le> v \<and> v \<le> n_pending n \<and> n_state n = PENDING_NOTREADY then Some (waiting (n_pending n - v) n) else None)"
| "spec_op max_dead Mark_live n =
     Some (if n_state n = PENDING_NOTREADY then waiting (2 * (n_pending n div 2)) n else n)"
| "spec_op max_dead Increment_dead n =
     (if n_state n = PENDING_NOTREADY then
        if n_dead n < max_dead then Some (n\<lparr>n_dead := n_dead n + 1\<rparr>) else None
      else Some n)"

fun exec_op :: "nat \<Rightarrow> node_op \<Rightarrow> pending_counts \<Rightarrow> pending_counts" where
  "exec_op i Mark_started pc = mark_started i pc"
| "exec_op i Mark_completed pc = mark_completed i pc"
| "exec_op i (Decrement v) pc = snd (decrement_pending i v pc)"
| "exec_op i Mark_live pc = mark_live i pc"
| "exec_op i Increment_dead pc = increment_dead_count i pc"

definition node :: "pending_counts \<Rightarrow> nat \<Rightarrow> node" where
  "node pc i = \<lparr>n_state = node_state pc i, n_pending = pending pc i, n_dead = dead_count pc i\<rparr>"

text \<open>The representation invariant.\<close>

definition node_ok :: "int \<Rightarrow> pending_counts \<Rightarrow> nat \<Rightarrow> bool" where
  "node_ok max_dead pc i \<longleftrightarrow>
     (if IsLarge pc i then - 2 \<le> lc_pending (overflow_at pc i) \<and> 0 \<le> lc_dead_count (overflow_at pc i)
      else max_dead \<le> 7 \<and> (pc_has_started (counts pc ! i) = 1 \<longrightarrow> uint (pc_pending (counts pc ! i)) \<le> 1))"

definition counts_ok :: "(nat \<Rightarrow> int) \<Rightarrow> pending_counts \<Rightarrow> bool" where
  "counts_ok max_dead pc \<longleftrightarrow> (\<forall>i<length (counts pc). node_ok (max_dead i) pc i)"

section \<open>Lemmas\<close>

named_theorems counts_simps

lemmas [counts_simps] = node_def node_state_def pending_def dead_count_def node_ok_def IsLarge_def
  NodeStatePacked_def NodeStateLarge_def Let_def

lemma length_set [simp]: "length (counts (set_counts i f pc)) = length (counts pc)"
  "counts (set_overflow i g pc) = counts pc" "overflow (set_counts i f pc) = overflow pc"
  by (simp_all add: set_counts_def set_overflow_def)

lemma nth_set [simp]: "i < length (counts pc) \<Longrightarrow>
    counts (set_counts i f pc) ! j = (if j = i then f (counts pc ! i) else counts pc ! j)"
  by (simp add: set_counts_def nth_list_update)

lemma overflow_at_set [simp]: "overflow_at (set_counts i f pc) j = overflow_at pc j"
  "overflow_at (set_overflow i g pc) j = (if j = i then g (overflow_at pc i) else overflow_at pc j)"
  by (simp_all add: overflow_at_def set_overflow_def)

text \<open>What happens to node \<open>i\<close> does not touch another node.\<close>

lemma other_node:
  assumes "i < length (counts pc)" "j \<noteq> i"
  shows "node (set_counts i f pc) j = node pc j" "node_ok m (set_counts i f pc) j = node_ok m pc j"
    and "node (set_overflow i g pc) j = node pc j" "node_ok m (set_overflow i g pc) j = node_ok m pc j"
  using assms by (simp_all add: counts_simps)

lemma and_not_1: "(p :: int) AND - 2 = 2 * (p div 2)"
proof -
  have "p AND NOT (mask n) = push_bit n (drop_bit n p)" for n by (rule bit_eqI) (auto simp: bit_simps)
  from this [of 1] show ?thesis by (simp add: push_bit_eq_mult drop_bit_eq_div mask_eq_exp_minus_1)
qed

lemma uint3: "0 \<le> uint (x :: 3 word)" "uint (x :: 3 word) < 8"
  using uint_lt2p [of x] by simp_all

lemma uint3_cases: "uint (x :: 3 word) \<in> set [0, 1, 2, 3, 4, 5, 6, 7]"
proof -
  have "uint x \<in> {0..7}" using uint3 [of x] by simp
  also have "{0..7} = set [0, 1, 2, 3, 4, 5, 6, 7 :: int]" by auto
  finally show ?thesis .
qed

lemma packed_and_6: "uint ((x :: 3 word) AND 6) = 2 * (uint x div 2)"
proof -
  have all: "\<forall>k\<in>set [0, 1, 2, 3, 4, 5, 6, 7]. uint ((word_of_int k :: 3 word) AND 6) = 2 * (k div 2)" by code_simp
  show ?thesis using bspec [OF all uint3_cases [of x]] by simp
qed

lemma packed_sub:
  assumes "0 \<le> v" "v \<le> uint (x :: 3 word)"
  shows "uint (x - of_int v) = uint x - v"
proof -
  have "uint (of_int v :: 3 word) = v"
    using assms uint3(2) [of x] by (simp add: uint_word_of_int_eq take_bit_int_eq_self)
  then show ?thesis using assms uint3(2) [of x] by (simp add: uint_word_ariths)
qed

lemma packed_inc: "uint (x :: 3 word) < 7 \<Longrightarrow> uint (x + 1) = uint x + 1"
  using uint3(1) [of x] by (simp add: uint_word_ariths)

lemma packed_of_int: "0 \<le> k \<Longrightarrow> k \<le> 7 \<Longrightarrow> uint (of_int k :: 3 word) = k"
  by (simp add: uint_word_of_int_eq take_bit_int_eq_self)

lemma word3_eq_0: "(x :: 3 word) = 0 \<longleftrightarrow> uint x = 0"
  by (simp add: uint_0_iff)

lemma exec_node:
  assumes "i < length (counts pc)" "node_ok m pc i" "spec_op m op (node pc i) = Some n"
  shows "node (exec_op i op pc) i = n \<and> node_ok m (exec_op i op pc) i"
proof (cases "IsLarge pc i")
  case True
  then show ?thesis using assms
    by (cases op) (auto simp: counts_simps mark_started_def mark_completed_def decrement_pending_def mark_live_def
      increment_dead_count_def waiting_def and_not_1 split: if_splits)
next
  case False
  then show ?thesis using assms
    by (cases op) (auto simp: counts_simps mark_started_def mark_completed_def decrement_pending_def mark_live_def
      increment_dead_count_def waiting_def packed_and_6 packed_sub packed_inc word3_eq_0 split: if_splits)
qed

lemma exec_other:
  assumes "i < length (counts pc)" "j \<noteq> i"
  shows "node (exec_op i op pc) j = node pc j" "node_ok m (exec_op i op pc) j = node_ok m pc j"
  using assms other_node [OF assms]
  by (cases op; simp add: mark_started_def mark_completed_def decrement_pending_def mark_live_def
      increment_dead_count_def Let_def)+

lemma length_exec [simp]: "length (counts (exec_op i op pc)) = length (counts pc)"
  by (cases op) (simp_all add: mark_started_def mark_completed_def decrement_pending_def mark_live_def
      increment_dead_count_def Let_def)

lemma exec_ok:
  assumes "counts_ok max_dead pc" "i < length (counts pc)" "spec_op (max_dead i) op (node pc i) = Some n"
  shows "counts_ok max_dead (exec_op i op pc)" "node (exec_op i op pc) = (node pc)(i := n)"
  using exec_node [OF assms(2) _ assms(3)] exec_other [OF assms(2)] assms(1,2)
  by (auto simp: counts_ok_def fun_eq_iff) metis

lemma initial_node:
  assumes "i < length (counts pc)" "0 \<le> n"
  shows "node (set_initial_count i n d pc) = (node pc)(i := waiting n \<lparr>n_state = COMPLETED, n_pending = 0, n_dead = 0\<rparr>)"
    and "node_ok d (set_initial_count i n d pc) i"
    and "j \<noteq> i \<Longrightarrow> node_ok m (set_initial_count i n d pc) j = node_ok m pc j"
proof -
  show "node (set_initial_count i n d pc) = (node pc)(i := waiting n \<lparr>n_state = COMPLETED, n_pending = 0, n_dead = 0\<rparr>)"
    using assms
    by (auto simp: fun_eq_iff set_initial_count_def kMaxCountForPackedCounts_def waiting_def other_node)
      (auto simp: counts_simps packed_of_int word3_eq_0)
  show "node_ok d (set_initial_count i n d pc) i"
    using assms by (auto simp: set_initial_count_def kMaxCountForPackedCounts_def counts_simps)
  show "j \<noteq> i \<Longrightarrow> node_ok m (set_initial_count i n d pc) j = node_ok m pc j"
    using assms by (simp add: set_initial_count_def other_node)
qed

lemma copy_counts_eq:
  "m \<le> length cs \<Longrightarrow> length b = length cs \<Longrightarrow> copy_counts b m cs = take m b @ drop m cs"
proof (induction m)
  case (Suc m)
  then have "drop m cs = cs ! m # drop (Suc m) cs" by (simp add: Cons_nth_drop_Suc)
  then show ?case using Suc by (simp add: list_update_append take_Suc_conv_app_nth)
qed simp

lemma InitializeFrom_copy: "length (counts b) = length (counts pc) \<Longrightarrow> node (InitializeFrom b pc) = node b"
  "length (counts b) = length (counts pc) \<Longrightarrow> counts_ok m (InitializeFrom b pc) = counts_ok m b"
proof -
  assume len: "length (counts b) = length (counts pc)"
  then have "counts (InitializeFrom b pc) = counts b" "overflow (InitializeFrom b pc) = overflow b"
    by (simp_all add: InitializeFrom_def copy_counts_eq)
  then have "overflow_at (InitializeFrom b pc) = overflow_at b" "counts (InitializeFrom b pc) = counts b"
    by (simp_all add: overflow_at_def fun_eq_iff)
  then show "node (InitializeFrom b pc) = node b" "counts_ok m (InitializeFrom b pc) = counts_ok m b"
    by (simp_all add: fun_eq_iff counts_simps counts_ok_def)
qed

lemma decrements:
  assumes "i < length (counts pc)" "node_ok d pc i" "\<forall>v\<in>set vs. 0 < v"
    and "node pc i = waiting (sum_list vs + r) n0" "0 \<le> r"
  defines "pc' \<equiv> fold (\<lambda>v. exec_op i (Decrement v)) vs pc"
  shows "node pc' i = waiting r n0 \<and> node_ok d pc' i \<and> length (counts pc') = length (counts pc) \<and>
    (\<forall>j. j \<noteq> i \<longrightarrow> node pc' j = node pc j)"
  using assms(1-5) unfolding pc'_def
proof (induction vs arbitrary: pc)
  case (Cons v vs)
  let ?p = "sum_list vs + r"
  have "0 \<le> sum_list vs" using Cons.prems(3) by (intro sum_list_nonneg) auto
  then have "spec_op d (Decrement v) (node pc i) = Some (waiting ?p n0)"
    using Cons.prems(3-5) by (simp add: waiting_def)
  from exec_node [OF Cons.prems(1,2) this] show ?case
    using Cons.IH [of "exec_op i (Decrement v) pc"] Cons.prems exec_other(1) [OF Cons.prems(1)]
    by (simp del: exec_op.simps)
qed simp

section \<open>Properties\<close>

definition empty_counts :: "nat \<Rightarrow> pending_counts" where
  "empty_counts k = \<lparr>counts = replicate k \<lparr>pc_pending = 0, pc_dead_count = 0, pc_has_started = 0, pc_is_large = 0\<rparr>,
     overflow = Map.empty\<rparr>"

text \<open>
  C23: The packed and the large representation implement the same node. On a
  well-formed state, every operation allowed by the checks changes the state, the
  pending count and the dead count of its node as specified, changes no other node,
  returns the new pending count, and keeps the representation well-formed.
\<close>

theorem pending_counts_refine:
  assumes "counts_ok max_dead pc" "i < length (counts pc)" "spec_op (max_dead i) op (node pc i) = Some n"
  shows "counts_ok max_dead (exec_op i op pc) \<and> node (exec_op i op pc) = (node pc)(i := n) \<and>
    (\<forall>v. op = Decrement v \<longrightarrow> fst (decrement_pending i v pc) = n_pending n)"
proof -
  have "fst (decrement_pending i v pc) = n_pending n" if "op = Decrement v" for v
    using exec_node [OF assms(2) _ assms(3)] assms that
    by (cases "IsLarge pc i") (auto simp: counts_ok_def decrement_pending_def counts_simps packed_sub waiting_def
      split: if_splits)
  then show ?thesis using exec_ok [OF assms] by simp
qed

theorem pending_counts_refine_witness:
  "node (exec_op 1 (Decrement 5) (set_initial_count 1 20 9 (empty_counts 2))) 1 =
     \<lparr>n_state = PENDING_NOTREADY, n_pending = 15, n_dead = 0\<rparr>"
proof -
  let ?pc = "set_initial_count 1 20 9 (empty_counts 2)"
  have "counts_ok (\<lambda>j. if j = 1 then 9 else 7) ?pc"
    using initial_node(2,3) [of 1 "empty_counts 2" 20]
    by (auto simp: counts_ok_def set_initial_count_def empty_counts_def node_ok_def IsLarge_def set_counts_def
      set_overflow_def overflow_at_def nth_list_update less_2_cases_iff kMaxCountForPackedCounts_def)
  moreover have "node ?pc 1 = \<lparr>n_state = PENDING_NOTREADY, n_pending = 20, n_dead = 0\<rparr>"
    using initial_node(1) [of 1 "empty_counts 2" 20 9] by (simp add: empty_counts_def waiting_def)
  moreover have "1 < length (counts ?pc)"
    by (simp add: set_initial_count_def empty_counts_def set_counts_def set_overflow_def)
  ultimately show ?thesis
    using pending_counts_refine [of "\<lambda>j. if j = 1 then 9 else 7" ?pc 1 "Decrement 5"] by (simp add: waiting_def)
qed

text \<open>
  The life of a node in an iteration whose counts are copied from the initial
  ones. It stays \<open>PENDING_NOTREADY\<close> until its inputs have been counted down exactly,
  is then \<open>PENDING_READY\<close>, and \<open>mark_started\<close> and \<open>mark_completed\<close> take it to
  \<open>STARTED\<close> and \<open>COMPLETED\<close>; no other node is affected.
\<close>

theorem pending_counts_life_cycle:
  fixes pc pc' :: pending_counts
  assumes "i < length (counts pc)" "length (counts pc') = length (counts pc)"
    and "\<forall>v\<in>set vs. 0 < v" "sum_list vs = n"
  shows "\<exists>run. run = (\<lambda>k. fold (\<lambda>v pc. snd (decrement_pending i v pc)) (take k vs)
        (InitializeFrom (set_initial_count i n d pc) pc')) \<and>
    (\<forall>k<length vs. node_state (run k) i = PENDING_NOTREADY) \<and>
    node_state (run (length vs)) i = PENDING_READY \<and>
    node_state (mark_started i (run (length vs))) i = STARTED \<and>
    node_state (mark_completed i (mark_started i (run (length vs)))) i = COMPLETED \<and>
    (\<forall>j. j \<noteq> i \<longrightarrow> node (mark_completed i (mark_started i (run (length vs)))) j = node pc j)"
proof -
  define n0 where "n0 = \<lparr>n_state = COMPLETED, n_pending = 0, n_dead = 0\<rparr>"
  define pc0 where "pc0 = InitializeFrom (set_initial_count i n d pc) pc'"
  define run where "run = (\<lambda>k. fold (\<lambda>v pc. snd (decrement_pending i v pc)) (take k vs) pc0)"
  have "0 \<le> n" using assms(3,4) sum_list_nonneg [of vs] by force
  note init = initial_node(1,2) [OF assms(1) this, where d = d]
  have len: "length (counts (set_initial_count i n d pc)) = length (counts pc')"
    using assms(2) by (simp add: set_initial_count_def)
  have "counts pc0 = counts (set_initial_count i n d pc)" "overflow pc0 = overflow (set_initial_count i n d pc)"
    using len by (simp_all add: pc0_def InitializeFrom_def copy_counts_eq)
  moreover from this have "overflow_at pc0 i = overflow_at (set_initial_count i n d pc) i" by (simp add: overflow_at_def)
  ultimately have "node_ok d pc0 i" using init(2) unfolding node_ok_def IsLarge_def by simp
  then have pc0: "node pc0 = (node pc)(i := waiting n n0)" "length (counts pc0) = length (counts pc)" "node_ok d pc0 i"
    using InitializeFrom_copy(1) [OF len] init(1) assms(2) \<open>counts pc0 = _\<close> len by (simp_all add: pc0_def n0_def)
  have exec: "run k = fold (\<lambda>v. exec_op i (Decrement v)) (take k vs) pc0" for k
    unfolding run_def by (rule fold_cong) (simp_all add: fun_eq_iff)
  have rest: "0 \<le> sum_list (drop k vs)" for k
    using assms(3) by (intro sum_list_nonneg) (meson in_set_dropD order_less_imp_le)
  have step: "node (run k) i = waiting (sum_list (drop k vs)) n0 \<and> node_ok d (run k) i \<and>
      length (counts (run k)) = length (counts pc) \<and> (\<forall>j. j \<noteq> i \<longrightarrow> node (run k) j = node pc j)" for k
  proof -
    have "sum_list (take k vs) + sum_list (drop k vs) = n"
      using assms(4) by (simp flip: sum_list_append)
    moreover have "0 \<le> sum_list (drop k vs)" by (rule rest)
    ultimately show ?thesis
      using decrements [of i pc0 d "take k vs" "sum_list (drop k vs)" n0] pc0 assms(1,3)
      unfolding exec by (auto dest: in_set_takeD simp del: exec_op.simps)
  qed
  let ?p = "run (length vs)" and ?q = "mark_started i (run (length vs))"
  have nr: "node_state (run k) i = PENDING_NOTREADY" if "k < length vs" for k
  proof -
    have "drop k vs = vs ! k # drop (Suc k) vs" using that by (simp add: Cons_nth_drop_Suc)
    moreover have "0 < vs ! k" "0 \<le> sum_list (drop (Suc k) vs)" using assms(3) that rest by auto
    ultimately have "n_state (node (run k) i) = PENDING_NOTREADY" using step [of k] by (simp add: waiting_def)
    then show ?thesis by (simp add: node_def)
  qed
  have p: "i < length (counts ?p)" "node ?p i = waiting 0 n0" "node_ok d ?p i" using step [of "length vs"] assms(1) by auto
  then have q: "node ?q i = (waiting 0 n0)\<lparr>n_state := STARTED\<rparr>" "node_ok d ?q i"
    using exec_node [OF p(1,3), of Mark_started] by (auto simp: waiting_def)
  have "i < length (counts ?q)" using p(1) length_exec [of i Mark_started ?p] by simp
  from exec_node [OF this q(2), of Mark_completed]
  have r: "n_state (node (mark_completed i ?q) i) = COMPLETED" by (simp add: q(1) waiting_def)
  have "\<forall>j. j \<noteq> i \<longrightarrow> node (mark_completed i ?q) j = node pc j"
    using exec_other(1) [OF p(1), of _ Mark_started] exec_other(1) [OF \<open>i < length (counts ?q)\<close>, of _ Mark_completed]
      step [of "length vs"] by simp
  then show ?thesis
    using nr p(2) q(1) r unfolding pc0_def [symmetric] run_def [symmetric]
    by (intro exI [of _ run]) (auto simp: node_def waiting_def n0_def)
qed

theorem pending_counts_life_cycle_witness:
  "node_state (mark_completed 0 (mark_started 0 (fold (\<lambda>v pc. snd (decrement_pending 0 v pc)) [1, 2]
     (InitializeFrom (set_initial_count 0 3 2 (empty_counts 1)) (empty_counts 1))))) 0 = COMPLETED"
  using pending_counts_life_cycle [of 0 "empty_counts 1" "empty_counts 1" "[1, 2]" 3 2] by (simp add: empty_counts_def)

end
