(* ===== verification/BCast.thy ===== *)
theory BCast
  imports Prelude
begin

text \<open>
  Broadcasting of two shapes, \<open>util/bcast.cc\<close>: the constructor of \<open>BCast\<close> computes
  the output shape, how each operand is reshaped and replicated, and over which
  dimensions a gradient is summed. \<open>None\<close> is a failed \<open>CHECK\<close>; products are taken in
  64-bit two's complement.
\<close>

section \<open>Model\<close>

type_synonym vec = "int list"

definition mul64 :: "int \<Rightarrow> int \<Rightarrow> int" where
  "mul64 a b = signed_take_bit 63 (a * b)"

record bcast =
  valid :: bool
  x_reshape :: vec
  x_bcast :: vec
  y_reshape :: vec
  y_bcast :: vec
  b_result :: vec
  b_output :: vec
  grad_x_reduce_idx :: vec
  grad_y_reduce_idx :: vec

definition new_bcast :: bcast where
  "new_bcast = \<lparr>valid = True, x_reshape = [], x_bcast = [], y_reshape = [], y_bcast = [],
     b_result = [], b_output = [], grad_x_reduce_idx = [], grad_y_reduce_idx = []\<rparr>"

datatype bstate = UNKNOWN | SAME | X_ONE | Y_ONE

text \<open>\<open>push_back\<close> on the five vectors, and \<open>*=\<close> on their last elements.\<close>

definition push_dims :: "int \<Rightarrow> int \<Rightarrow> int \<Rightarrow> int \<Rightarrow> int \<Rightarrow> bcast \<Rightarrow> bcast" where
  "push_dims o_i x_i bx_i y_i by_i b =
     b\<lparr>b_result := b_result b @ [o_i], x_reshape := x_reshape b @ [x_i], x_bcast := x_bcast b @ [bx_i],
       y_reshape := y_reshape b @ [y_i], y_bcast := y_bcast b @ [by_i]\<rparr>"

definition mul_back :: "vec \<Rightarrow> int \<Rightarrow> vec" where
  "mul_back v k = butlast v @ [mul64 (last v) k]"

definition mul_dims :: "int \<Rightarrow> int \<Rightarrow> int \<Rightarrow> int \<Rightarrow> int \<Rightarrow> bcast \<Rightarrow> bcast" where
  "mul_dims o_i x_i bx_i y_i by_i b =
     b\<lparr>b_result := mul_back (b_result b) o_i, x_reshape := mul_back (x_reshape b) x_i,
       x_bcast := mul_back (x_bcast b) bx_i, y_reshape := mul_back (y_reshape b) y_i,
       y_bcast := mul_back (y_bcast b) by_i\<rparr>"

text \<open>
  The comparison of one pair of dimensions: the new state, the dimension of the
  output and the two replications; \<open>None\<close> when they are not compatible.
\<close>

definition compare_dims :: "int \<Rightarrow> int \<Rightarrow> (bstate \<times> int \<times> int \<times> int) option" where
  "compare_dims x_i y_i =
     (if x_i = y_i then Some (SAME, x_i, 1, 1)
      else if x_i = 1 then Some (X_ONE, y_i, y_i, 1)
      else if y_i = 1 then Some (Y_ONE, x_i, 1, x_i)
      else None)"

definition push_grads :: "bstate \<Rightarrow> int \<Rightarrow> bcast \<Rightarrow> bcast" where
  "push_grads cur k b =
     (if cur = X_ONE then b\<lparr>grad_x_reduce_idx := grad_x_reduce_idx b @ [k]\<rparr>
      else if cur = Y_ONE then b\<lparr>grad_y_reduce_idx := grad_y_reduce_idx b @ [k]\<rparr>
      else b)"

fun bcast_loop :: "bool \<Rightarrow> int \<Rightarrow> int \<Rightarrow> bstate \<Rightarrow> (int \<times> int) list \<Rightarrow> bcast \<Rightarrow> bcast option" where
  "bcast_loop fewer n i prev [] b = Some b"
| "bcast_loop fewer n i prev ((x_i, y_i) # xys) b =
     (if x_i < 0 \<or> y_i < 0 then None
      else case compare_dims x_i y_i of
        None \<Rightarrow> Some (b\<lparr>valid := False\<rparr>)
      | Some (cur, o_i, bx_i, by_i) \<Rightarrow>
          let b = push_grads cur (n - 1 - i) b; b = b\<lparr>b_output := b_output b @ [o_i]\<rparr> in
          if cur = SAME \<and> x_i = 1 then
            let b = b\<lparr>grad_x_reduce_idx := grad_x_reduce_idx b @ [n - 1 - i],
                      grad_y_reduce_idx := grad_y_reduce_idx b @ [n - 1 - i]\<rparr> in
            bcast_loop fewer n (i + 1) prev xys
              (if \<not> fewer then push_dims o_i x_i bx_i y_i by_i b else b)
          else if fewer \<and> prev = cur then
            bcast_loop fewer n (i + 1) cur xys (mul_dims o_i x_i bx_i y_i by_i b)
          else bcast_loop fewer n (i + 1) cur xys (push_dims o_i x_i bx_i y_i by_i b))"

definition resize :: "nat \<Rightarrow> vec \<Rightarrow> vec" where
  "resize n v = v @ replicate (n - length v) 1"

definition reverse_all :: "bcast \<Rightarrow> bcast" where
  "reverse_all b = b\<lparr>x_reshape := rev (x_reshape b), x_bcast := rev (x_bcast b), y_reshape := rev (y_reshape b),
     y_bcast := rev (y_bcast b), b_result := rev (b_result b), b_output := rev (b_output b),
     grad_x_reduce_idx := rev (grad_x_reduce_idx b), grad_y_reduce_idx := rev (grad_y_reduce_idx b)\<rparr>"

definition BCast :: "vec \<Rightarrow> vec \<Rightarrow> bool \<Rightarrow> bcast option" where
  "BCast sx sy fewer_dims_optimization =
     (if sx = sy \<and> fewer_dims_optimization then
        let elements = foldl mul64 1 sx in
        Some (new_bcast\<lparr>b_output := sx, b_result := [elements], x_reshape := [elements], y_reshape := [elements],
          x_bcast := [1], y_bcast := [1]\<rparr>)
      else
        let n = max (length sx) (length sy);
            x = resize n (rev sx); y = resize n (rev sy) in
        case bcast_loop fewer_dims_optimization (int n) 0 UNKNOWN (zip x y) new_bcast of
          None \<Rightarrow> None
        | Some b \<Rightarrow>
            if \<not> valid b then Some b
            else Some (reverse_all (if b_result b = [] then push_dims 1 1 1 1 1 b else b)))"

section \<open>Reference\<close>

text \<open>
  Two dimensions are compatible when they are equal or one of them is 1. Operands
  are aligned at their last dimension.
\<close>

definition compatible :: "int \<Rightarrow> int \<Rightarrow> bool" where
  "compatible x y \<longleftrightarrow> x = y \<or> x = 1 \<or> y = 1"

definition out_dim :: "int \<Rightarrow> int \<Rightarrow> int" where
  "out_dim x y = (if x = 1 then y else x)"

definition align :: "nat \<Rightarrow> vec \<Rightarrow> vec" where
  "align n v = replicate (n - length v) 1 @ v"

text \<open>
  The element of an operand that the element at row-major position \<open>p\<close> of the output
  is computed from, dimension by dimension from the innermost: the operand's
  dimension \<open>x\<close> is either that of the output, \<open>d\<close>, or 1.
\<close>

fun operand_index :: "(int \<times> int) list \<Rightarrow> int \<Rightarrow> int" where
  "operand_index [] p = 0"
| "operand_index ((x, d) # xds) p = (if x = 1 then 0 else p mod d) + x * operand_index xds (p div d)"

text \<open>The element that reshaping to \<open>xs\<close> and replicating \<open>bs\<close> times puts at position \<open>p\<close>.\<close>

fun replicated_index :: "(int \<times> int) list \<Rightarrow> int \<Rightarrow> int" where
  "replicated_index [] p = 0"
| "replicated_index ((x, k) # xks) p = p mod (x * k) mod x + x * replicated_index xks (p div (x * k))"

section \<open>Runs of dimensions\<close>

text \<open>
  The loop keeps, for the dimensions seen so far, a list of runs: maximal groups of
  dimensions in the same state. Each of the five vectors holds one product per run.
\<close>

definition rep :: "int \<Rightarrow> int \<Rightarrow> int" where
  "rep x y = (if x = 1 then y else 1)"

definition state_of :: "int \<times> int \<Rightarrow> bstate" where
  "state_of d = (if fst d = snd d then SAME else if fst d = 1 then X_ONE else Y_ONE)"

definition run_prod :: "(int \<times> int \<Rightarrow> int) \<Rightarrow> (int \<times> int) list \<Rightarrow> int" where
  "run_prod f g = prod_list (map f g)"

abbreviation d_out :: "int \<times> int \<Rightarrow> int" where "d_out d \<equiv> out_dim (fst d) (snd d)"
abbreviation d_xrep :: "int \<times> int \<Rightarrow> int" where "d_xrep d \<equiv> rep (fst d) (snd d)"
abbreviation d_yrep :: "int \<times> int \<Rightarrow> int" where "d_yrep d \<equiv> rep (snd d) (fst d)"

definition ones :: "(int \<times> int \<Rightarrow> int) \<Rightarrow> int \<Rightarrow> (int \<times> int) list \<Rightarrow> int list" where
  "ones f n ds = map (\<lambda>k. n - 1 - int k) (filter (\<lambda>k. f (ds ! k) = 1) [0..<length ds])"

definition build :: "int \<Rightarrow> (int \<times> int) list \<Rightarrow> (int \<times> int) list list \<Rightarrow> bcast" where
  "build n ds gs = \<lparr>valid = True, x_reshape = map (run_prod fst) gs, x_bcast = map (run_prod d_xrep) gs,
     y_reshape = map (run_prod snd) gs, y_bcast = map (run_prod d_yrep) gs,
     b_result = map (run_prod d_out) gs, b_output = map d_out ds,
     grad_x_reduce_idx = ones fst n ds, grad_y_reduce_idx = ones snd n ds\<rparr>"

definition runs_ok :: "bool \<Rightarrow> (int \<times> int) list \<Rightarrow> (int \<times> int) list list \<Rightarrow> bool" where
  "runs_ok fewer ds gs \<longleftrightarrow>
     (if fewer then concat gs = filter (\<lambda>d. d \<noteq> (1, 1)) ds \<and>
        (\<forall>g\<in>set gs. g \<noteq> [] \<and> (\<exists>st. \<forall>d\<in>set g. state_of d = st))
      else gs = map (\<lambda>d. [d]) ds)"

definition prev_ok :: "bool \<Rightarrow> bstate \<Rightarrow> (int \<times> int) list list \<Rightarrow> bool" where
  "prev_ok fewer prev gs \<longleftrightarrow> fewer \<longrightarrow> prev = UNKNOWN \<or> gs \<noteq> [] \<and> (\<forall>d\<in>set (last gs). state_of d = prev)"

lemma compare_dims_eq:
  "compatible (fst d) (snd d) \<Longrightarrow> compare_dims (fst d) (snd d) = Some (state_of d, d_out d, d_xrep d, d_yrep d)"
  by (auto simp: compatible_def compare_dims_def state_of_def out_dim_def rep_def)

lemma ones_append: "ones f n (ds @ [d]) = ones f n ds @ (if f d = 1 then [n - 1 - int (length ds)] else [])"
proof -
  have "filter (\<lambda>k. f ((ds @ [d]) ! k) = 1) [0..<length ds] = filter (\<lambda>k. f (ds ! k) = 1) [0..<length ds]"
    by (intro filter_cong) (auto simp: nth_append)
  then show ?thesis by (simp add: ones_def nth_append)
qed

text \<open>Products stay below the bound, so they do not wrap around.\<close>

definition weight :: "(int \<times> int) list \<Rightarrow> int" where
  "weight ds = prod_list (map (\<lambda>d. max 1 (d_out d)) ds)"

lemma weight_append: "weight (ds @ es) = weight ds * weight es"
  by (simp add: weight_def)

lemma weight_ge_1: "1 \<le> weight ds"
  unfolding weight_def by (induction ds) (auto intro: order_trans [OF _ mult_mono [of 1 _ 1]])

lemma weight_le_append: "weight ds \<le> weight (ds @ es)" "weight es \<le> weight (ds @ es)"
  using weight_ge_1 [of ds] weight_ge_1 [of es] mult_left_mono [of 1 "weight es" "weight ds"]
    mult_right_mono [of 1 "weight ds" "weight es"] by (auto simp: weight_append)

lemma weight_filter: "weight (filter P ds) \<le> weight ds"
proof (induction ds)
  case (Cons d ds)
  have "weight ds \<le> max 1 (d_out d) * weight ds"
    using weight_ge_1 [of ds] mult_right_mono [of 1 "max 1 (d_out d)" "weight ds"] by simp
  then show ?case using Cons
    by (auto simp: weight_def mult_left_mono)
qed simp

definition bounded :: "(int \<times> int \<Rightarrow> int) \<Rightarrow> bool" where
  "bounded f \<longleftrightarrow> (\<forall>x y. 0 \<le> x \<longrightarrow> 0 \<le> y \<longrightarrow> compatible x y \<longrightarrow> 0 \<le> f (x, y) \<and> f (x, y) \<le> max 1 (out_dim x y))"

lemma bounded_dims: "bounded fst" "bounded snd" "bounded d_xrep" "bounded d_yrep" "bounded d_out"
  by (auto simp: bounded_def compatible_def out_dim_def rep_def)

definition dims_ok :: "(int \<times> int) list \<Rightarrow> bool" where
  "dims_ok ds \<longleftrightarrow> (\<forall>d\<in>set ds. 0 \<le> fst d \<and> 0 \<le> snd d \<and> compatible (fst d) (snd d))"

lemma run_prod_bound:
  assumes "bounded f" "dims_ok g"
  shows "0 \<le> run_prod f g \<and> run_prod f g \<le> weight g"
  using assms(2)
proof (induction g)
  case (Cons d g)
  have "0 \<le> f d \<and> f d \<le> max 1 (d_out d)"
    using Cons.prems assms(1) by (cases d) (simp add: dims_ok_def bounded_def)
  moreover have "0 \<le> run_prod f g \<and> run_prod f g \<le> weight g" using Cons by (simp add: dims_ok_def)
  ultimately show ?case by (auto simp: run_prod_def weight_def intro!: mult_mono)
qed (simp add: run_prod_def weight_def)

lemma mul64_eq: "0 \<le> a * b \<Longrightarrow> a * b < 2 ^ 63 \<Longrightarrow> mul64 a b = a * b"
  unfolding mul64_def by (rule signed_take_bit_int_eq_self) auto

lemma mul_back_run:
  assumes "bounded f" "gs \<noteq> []" "dims_ok (last gs @ [d])" "weight (last gs @ [d]) < 2 ^ 63"
  shows "mul_back (map (run_prod f) gs) (f d) = map (run_prod f) (butlast gs @ [last gs @ [d]])"
proof -
  have "run_prod f (last gs @ [d]) = run_prod f (last gs) * f d" by (simp add: run_prod_def)
  moreover have "0 \<le> run_prod f (last gs @ [d])" "run_prod f (last gs @ [d]) < 2 ^ 63"
    using run_prod_bound [OF assms(1,3)] assms(4) by auto
  ultimately show ?thesis
    using assms(2) by (simp add: mul_back_def map_butlast last_map mul64_eq)
qed

lemma push_run: "push_dims (d_out d) (fst d) (d_xrep d) (snd d) (d_yrep d) (build n ds gs) = build n ds (gs @ [[d]])"
  by (simp add: push_dims_def build_def run_prod_def)

lemma mul_run:
  assumes "gs \<noteq> []" "dims_ok (last gs @ [d])" "weight (last gs @ [d]) < 2 ^ 63"
  shows "mul_dims (d_out d) (fst d) (d_xrep d) (snd d) (d_yrep d) (build n ds gs) =
    build n ds (butlast gs @ [last gs @ [d]])"
  using bounded_dims [THEN mul_back_run [OF _ assms]] by (simp add: mul_dims_def build_def)

text \<open>The output and the gradient indices of one more dimension.\<close>

lemma push_one:
  "compatible (fst d) (snd d) \<Longrightarrow> d \<noteq> (1, 1) \<Longrightarrow>
    (push_grads (state_of d) (n - 1 - int (length ds)) (build n ds gs))
      \<lparr>b_output := b_output (push_grads (state_of d) (n - 1 - int (length ds)) (build n ds gs)) @ [d_out d]\<rparr> =
    build n (ds @ [d]) gs"
  by (cases d) (auto simp: build_def push_grads_def state_of_def ones_append compatible_def)

lemma push_ones:
  "(build n ds gs)\<lparr>b_output := b_output (build n ds gs) @ [1],
      grad_x_reduce_idx := grad_x_reduce_idx (build n ds gs) @ [n - 1 - int (length ds)],
      grad_y_reduce_idx := grad_y_reduce_idx (build n ds gs) @ [n - 1 - int (length ds)]\<rparr> =
    build n (ds @ [(1, 1)]) gs"
  by (simp add: build_def ones_append out_dim_def)

lemma last_run_bound:
  assumes "runs_ok True ds gs" "gs \<noteq> []" "dims_ok (ds @ d # xys)" "weight (ds @ d # xys) < 2 ^ 63"
  shows "dims_ok (last gs @ [d])" "weight (last gs @ [d]) < 2 ^ 63"
proof -
  have c: "concat gs = filter (\<lambda>d. d \<noteq> (1, 1)) ds" "gs = butlast gs @ [last gs]"
    using assms(1,2) by (auto simp: runs_ok_def)
  have "set (last gs) \<subseteq> set ds"
  proof -
    have "set (last gs) \<subseteq> set (concat gs)" using last_in_set [OF assms(2)] by auto
    then show ?thesis unfolding c(1) by auto
  qed
  then show "dims_ok (last gs @ [d])" using assms(3) by (auto simp: dims_ok_def)
  have "concat gs = concat (butlast gs) @ last gs"
    using c(2) concat_append [of "butlast gs" "[last gs]"] by simp
  then have "weight (last gs) \<le> weight (concat gs)" using weight_le_append(2) [of "last gs" "concat (butlast gs)"] by simp
  also have "\<dots> \<le> weight ds" unfolding c(1) by (rule weight_filter)
  finally have "weight (last gs @ [d]) \<le> weight (ds @ [d])"
    using weight_ge_1 [of "[d]"] by (simp add: weight_append mult_right_mono)
  also have "\<dots> \<le> weight (ds @ d # xys)" using weight_le_append(1) [of "ds @ [d]" xys] by simp
  finally show "weight (last gs @ [d]) < 2 ^ 63" using assms(4) by simp
qed

lemma bcast_loop_runs:
  assumes "dims_ok (ds @ xys)" "weight (ds @ xys) < 2 ^ 63" "runs_ok fewer ds gs" "prev_ok fewer prev gs"
  shows "\<exists>gs'. bcast_loop fewer n (int (length ds)) prev xys (build n ds gs) = Some (build n (ds @ xys) gs') \<and>
    runs_ok fewer (ds @ xys) gs'"
  using assms
proof (induction xys arbitrary: ds gs prev)
  case (Cons d xys)
  have d: "0 \<le> fst d" "0 \<le> snd d" "compatible (fst d) (snd d)" using Cons.prems(1) by (auto simp: dims_ok_def)
  note cmp = compare_dims_eq [OF d(3)]
  have IH: "\<exists>gs''. bcast_loop fewer n (int (length ds) + 1) prev' xys (build n (ds @ [d]) gs') =
      Some (build n (ds @ d # xys) gs'') \<and> runs_ok fewer (ds @ d # xys) gs''"
    if "runs_ok fewer (ds @ [d]) gs'" "prev_ok fewer prev' gs'" for prev' gs'
    using Cons.IH [of "ds @ [d]" gs' prev'] Cons.prems(1,2) that by (simp add: algebra_simps)
  show ?case
  proof (cases "d = (1, 1)")
    case True
    have eq: "push_grads SAME k b = b" for k b by (simp add: push_grads_def)
    have "bcast_loop fewer n (int (length ds)) prev (d # xys) (build n ds gs) =
        bcast_loop fewer n (int (length ds) + 1) prev xys
          (if fewer then build n (ds @ [d]) gs else build n (ds @ [d]) (gs @ [[d]]))"
      using push_ones [of n ds gs] push_run [of d n "ds @ [d]" gs] True
      by (simp add: compare_dims_def eq Let_def out_dim_def rep_def)
    moreover have "runs_ok fewer (ds @ [d]) (if fewer then gs else gs @ [[d]])"
      "prev_ok fewer prev (if fewer then gs else gs @ [[d]])"
      using Cons.prems(3,4) True by (auto simp: runs_ok_def prev_ok_def)
    ultimately show ?thesis using IH [of "if fewer then gs else gs @ [[d]]" prev] by (cases fewer) auto
  next
    case False
    have st: "\<not> (state_of d = SAME \<and> fst d = 1)" using False by (cases d) (auto simp: state_of_def split: if_splits)
    have step: "bcast_loop fewer n (int (length ds)) prev (d # xys) (build n ds gs) =
        (if fewer \<and> prev = state_of d
         then bcast_loop fewer n (int (length ds) + 1) (state_of d) xys
           (mul_dims (d_out d) (fst d) (d_xrep d) (snd d) (d_yrep d) (build n (ds @ [d]) gs))
         else bcast_loop fewer n (int (length ds) + 1) (state_of d) xys (build n (ds @ [d]) (gs @ [[d]])))"
    proof -
      obtain x y where xy: "d = (x, y)" by (cases d)
      have st': "(state_of d = SAME \<and> fst d = 1) = False" using st by simp
      show ?thesis
        using d cmp st' push_one [OF d(3) False, of n ds gs] push_run [of d n "ds @ [d]" gs]
        unfolding xy bcast_loop.simps(2) fst_conv snd_conv by (simp only: Let_def option.case prod.case if_False) simp
    qed
    show ?thesis
    proof (cases "fewer \<and> prev = state_of d")
      case True
      have gs: "gs \<noteq> []" "\<forall>e\<in>set (last gs). state_of e = state_of d"
        using True Cons.prems(4) by (auto simp: prev_ok_def state_of_def split: if_splits)
      let ?gs = "butlast gs @ [last gs @ [d]]"
      have "concat ?gs = concat gs @ [d]" using gs(1) concat_append [of "butlast gs" "[last gs]"] by simp
      then have "runs_ok fewer (ds @ [d]) ?gs"
        using Cons.prems(3) True False gs by (auto simp: runs_ok_def dest: in_set_butlastD)
      moreover have "prev_ok fewer (state_of d) ?gs" using gs by (auto simp: prev_ok_def)
      ultimately show ?thesis
        unfolding step using True IH [of ?gs "state_of d"]
          mul_run [OF gs(1) last_run_bound, of ds d xys] Cons.prems gs(1) by simp
    next
      case F: False
      have "runs_ok fewer (ds @ [d]) (gs @ [[d]])" "prev_ok fewer (state_of d) (gs @ [[d]])"
        using Cons.prems(3) False by (auto simp: runs_ok_def prev_ok_def)
      then show ?thesis unfolding step using F IH by auto
    qed
  qed
qed auto

lemma bcast_loop_invalid:
  assumes "\<forall>d\<in>set xys. 0 \<le> fst d \<and> 0 \<le> snd d" "\<not> dims_ok xys"
  shows "\<exists>b'. bcast_loop fewer n i prev xys b = Some b' \<and> \<not> valid b'"
  using assms
proof (induction xys arbitrary: i prev b)
  case (Cons d xys)
  show ?case
  proof (cases "compatible (fst d) (snd d)")
    case True
    then have "\<not> dims_ok xys" using Cons.prems by (simp add: dims_ok_def)
    then show ?thesis using Cons compare_dims_eq [OF True] by (cases d) (auto simp: Let_def)
  next
    case False
    then have "compare_dims (fst d) (snd d) = None" by (auto simp: compatible_def compare_dims_def)
    then show ?thesis using Cons.prems by (cases d) simp
  qed
qed (simp add: dims_ok_def)

section \<open>What the vectors mean\<close>

text \<open>\<open>f\<close> and \<open>k\<close> are an operand's dimension and its replication.\<close>

definition operand :: "(int \<times> int \<Rightarrow> int) \<Rightarrow> (int \<times> int \<Rightarrow> int) \<Rightarrow> bool" where
  "operand f k \<longleftrightarrow> f = fst \<and> k = d_xrep \<or> f = snd \<and> k = d_yrep"

lemma operandD:
  assumes "operand f k" "0 \<le> fst d" "0 \<le> snd d" "compatible (fst d) (snd d)"
  shows "f d * k d = d_out d" "f d \<noteq> 1 \<Longrightarrow> k d = 1" "0 \<le> f d" "0 \<le> k d" "d = (1, 1) \<Longrightarrow> f d = 1 \<and> k d = 1"
  using assms by (auto simp: operand_def rep_def out_dim_def compatible_def)

definition homogeneous :: "(int \<times> int) list \<Rightarrow> bool" where
  "homogeneous g \<longleftrightarrow> (\<exists>st. \<forall>d\<in>set g. state_of d = st)"

lemma homogeneous_cases:
  assumes "homogeneous g" "operand f k" "dims_ok g"
  shows "(\<forall>d\<in>set g. k d = 1) \<or> (\<forall>d\<in>set g. f d = 1)"
proof -
  obtain st where "\<forall>d\<in>set g. state_of d = st" using assms(1) by (auto simp: homogeneous_def)
  then show ?thesis using assms(2,3)
    by (cases st) (auto simp: operand_def state_of_def rep_def dims_ok_def compatible_def split: if_splits)
qed

lemma replicated_append:
  assumes "\<forall>q\<in>set ps. 0 \<le> fst q \<and> 0 \<le> snd q"
  shows "replicated_index (ps @ qs) p = replicated_index ps p +
    prod_list (map fst ps) * replicated_index qs (p div prod_list (map (\<lambda>q. fst q * snd q) ps))"
  using assms
proof (induction ps arbitrary: p)
  case (Cons q ps)
  have "0 \<le> prod_list (map (\<lambda>q. fst q * snd q) ps)" using Cons.prems by (intro prod_list_nonneg) auto
  then show ?case using Cons by (cases q) (simp add: zdiv_zmult2_eq algebra_simps)
qed simp

lemma replicated_plain:
  "\<forall>d\<in>set g. 0 \<le> f d \<Longrightarrow> replicated_index (map (\<lambda>d. (f d, 1)) g) p = p mod prod_list (map f g)"
proof (induction g arbitrary: p)
  case (Cons d g)
  have "0 \<le> prod_list (map f g)" using Cons.prems by (intro prod_list_nonneg) auto
  then show ?case using Cons by (simp add: zmod_zmult2_eq)
qed simp

lemma replicated_ones: "replicated_index (map (\<lambda>d. (1, k d)) g) p = 0"
  by (induction g arbitrary: p) auto

lemma run_prod_1: "\<forall>d\<in>set g. f d = 1 \<Longrightarrow> run_prod f g = 1"
  unfolding run_prod_def by (induction g) auto

lemma replicated_run:
  assumes "homogeneous g" "operand f k" "dims_ok g"
  shows "replicated_index [(run_prod f g, run_prod k g)] p = replicated_index (map (\<lambda>d. (f d, k d)) g) p"
  using homogeneous_cases [OF assms]
proof
  assume k: "\<forall>d\<in>set g. k d = 1"
  have "\<forall>d\<in>set g. 0 \<le> f d" using operandD [OF assms(2)] assms(3) by (auto simp: dims_ok_def)
  then have "replicated_index (map (\<lambda>d. (f d, 1)) g) p = p mod run_prod f g"
    using replicated_plain [of g f p] by (simp add: run_prod_def)
  moreover have "map (\<lambda>d. (f d, k d)) g = map (\<lambda>d. (f d, 1)) g" using k by simp
  ultimately show ?thesis using run_prod_1 [OF k] by (simp only: replicated_index.simps) simp
next
  assume f: "\<forall>d\<in>set g. f d = 1"
  then have "map (\<lambda>d. (f d, k d)) g = map (\<lambda>d. (1, k d)) g" by simp
  then show ?thesis using replicated_ones [of k g p] run_prod_1 [OF f] by (simp only: replicated_index.simps) simp
qed

lemma run_prod_mult: "run_prod f g * run_prod k g = prod_list (map (\<lambda>d. f d * k d) g)"
  unfolding run_prod_def by (induction g) (auto simp: algebra_simps)

lemma replicated_runs:
  assumes "\<forall>g\<in>set gs. homogeneous g" "operand f k" "dims_ok (concat gs)"
  shows "replicated_index (map (\<lambda>g. (run_prod f g, run_prod k g)) gs) p =
    replicated_index (map (\<lambda>d. (f d, k d)) (concat gs)) p"
  using assms(1,3)
proof (induction gs arbitrary: p)
  case (Cons g gs)
  have g: "dims_ok g" "dims_ok (concat gs)" using Cons.prems(2) by (auto simp: dims_ok_def)
  have nn: "\<forall>q\<in>set (map (\<lambda>d. (f d, k d)) g). 0 \<le> fst q \<and> 0 \<le> snd q"
    using operandD [OF assms(2)] g(1) by (auto simp: dims_ok_def)
  have b: "0 \<le> run_prod f g" "0 \<le> run_prod k g"
    using assms(2) run_prod_bound [OF _ g(1)] bounded_dims by (auto simp: operand_def)
  let ?q = "(run_prod f g, run_prod k g)" and ?rest = "map (\<lambda>g. (run_prod f g, run_prod k g)) gs"
  have "replicated_index (?q # ?rest) p = replicated_index [?q] p +
      run_prod f g * replicated_index ?rest (p div prod_list (map (\<lambda>d. f d * k d) g))"
    using replicated_append [of "[?q]" ?rest p] b by (simp add: run_prod_mult)
  also have "\<dots> = replicated_index (map (\<lambda>d. (f d, k d)) g @ map (\<lambda>d. (f d, k d)) (concat gs)) p"
    using replicated_append [OF nn] replicated_run [OF _ assms(2) g(1)] Cons g
    by (simp add: comp_def run_prod_def)
  finally show ?case by simp
qed simp

lemma replicated_filter:
  assumes "operand f k"
  shows "replicated_index (map (\<lambda>d. (f d, k d)) (filter (\<lambda>d. d \<noteq> (1, 1)) ds)) p =
    replicated_index (map (\<lambda>d. (f d, k d)) ds) p"
proof (induction ds arbitrary: p)
  case (Cons d ds)
  have "d = (1, 1) \<Longrightarrow> f d = 1 \<and> k d = 1" using assms by (auto simp: operand_def rep_def)
  then show ?case using Cons by auto
qed simp

lemma replicated_operand:
  assumes "operand f k" "dims_ok ds"
  shows "replicated_index (map (\<lambda>d. (f d, k d)) ds) p = operand_index (map (\<lambda>d. (f d, d_out d)) ds) p"
  using assms(2)
proof (induction ds arbitrary: p)
  case (Cons d ds)
  have d: "f d * k d = d_out d" "f d \<noteq> 1 \<Longrightarrow> k d = 1"
    using operandD [OF assms(1)] Cons.prems by (auto simp: dims_ok_def)
  have "p mod (f d * k d) mod f d = (if f d = 1 then 0 else p mod d_out d)" using d by auto
  then show ?case using Cons d(1) by (simp add: dims_ok_def)
qed simp

section \<open>The constructor\<close>

definition pairs :: "vec \<Rightarrow> vec \<Rightarrow> (int \<times> int) list" where
  "pairs sx sy = (let n = max (length sx) (length sy) in zip (align n sx) (align n sy))"

lemma length_align [simp]: "length v \<le> n \<Longrightarrow> length (align n v) = n"
  by (simp add: align_def)

lemma resize_align: "resize n (rev v) = rev (align n v)"
  by (simp add: resize_def align_def rev_replicate)

lemma length_pairs [simp]: "length (pairs sx sy) = max (length sx) (length sy)"
  by (simp add: pairs_def Let_def)

lemma map_pairs: "map fst (pairs sx sy) = align (max (length sx) (length sy)) sx"
  "map snd (pairs sx sy) = align (max (length sx) (length sy)) sy"
  by (simp_all add: pairs_def Let_def)

lemma prod_list_rev: "prod_list (rev (xs :: int list)) = prod_list xs"
  by (induction xs) (auto simp: mult.commute)

lemma weight_rev: "weight (rev ds) = weight ds"
  by (simp add: weight_def prod_list_rev flip: rev_map)

lemma foldl_mul64:
  assumes "0 \<le> a" "\<forall>x\<in>set xs. 0 \<le> x" "max 1 a * prod_list (map (max 1) xs) < 2 ^ 63"
  shows "foldl mul64 a xs = a * prod_list xs"
  using assms
proof (induction xs arbitrary: a)
  case (Cons x xs)
  have p: "1 \<le> prod_list (map (max 1) xs)" for xs :: "int list"
    by (induction xs) (auto intro: order_trans [OF _ mult_mono [of 1 _ 1]])
  have m: "max 1 (a * x) \<le> max 1 a * max 1 x"
  proof -
    have "a * x \<le> max 1 a * max 1 x" using Cons.prems by (intro mult_mono) auto
    moreover have "1 * 1 \<le> max 1 a * max 1 x" by (intro mult_mono) auto
    ultimately show ?thesis by simp
  qed
  have le: "max 1 (a * x) * prod_list (map (max 1) xs) \<le> max 1 a * prod_list (map (max 1) (x # xs))"
    using mult_right_mono [OF m, of "prod_list (map (max 1) xs)"] p [of xs] by (simp add: mult.assoc)
  have "max 1 (a * x) * 1 \<le> max 1 (a * x) * prod_list (map (max 1) xs)" using p [of xs] by (intro mult_left_mono) auto
  then have "a * x < 2 ^ 63" using le Cons.prems(3) by simp
  then have "mul64 a x = a * x" using Cons.prems by (intro mul64_eq) auto
  moreover have "foldl mul64 (a * x) xs = a * x * prod_list xs"
    using Cons.prems le by (intro Cons.IH) auto
  ultimately show ?case by simp
qed simp

definition describes :: "bcast \<Rightarrow> (int \<times> int) list \<Rightarrow> (int \<times> int) list list \<Rightarrow> bool" where
  "describes b ps gs \<longleftrightarrow> valid b \<and>
     x_reshape b = rev (map (run_prod fst) gs) \<and> x_bcast b = rev (map (run_prod d_xrep) gs) \<and>
     y_reshape b = rev (map (run_prod snd) gs) \<and> y_bcast b = rev (map (run_prod d_yrep) gs) \<and>
     b_result b = rev (map (run_prod d_out) gs) \<and> b_output b = map d_out ps \<and>
     (\<forall>g\<in>set gs. homogeneous g) \<and>
     (concat gs = rev ps \<or> concat gs = filter (\<lambda>d. d \<noteq> (1, 1)) (rev ps))"

lemma BCast_fast:
  assumes "dims_ok (pairs s s)" "weight (pairs s s) < 2 ^ 63"
  shows "\<exists>b. BCast s s True = Some b \<and> describes b (pairs s s) [rev (pairs s s)]"
proof -
  have ps: "pairs s s = map (\<lambda>x. (x, x)) s" by (simp add: pairs_def align_def zip_same_conv_map)
  have f: "run_prod f (rev (pairs s s)) = prod_list s" if "\<And>x. f (x, x) = x" for f
    using that by (simp add: run_prod_def ps prod_list_rev comp_def flip: rev_map)
  have k: "run_prod f (rev (pairs s s)) = 1" if "\<And>x. f (x, x) = 1" for f
    by (rule run_prod_1) (use that in \<open>auto simp: ps\<close>)
  have "map (\<lambda>d. max 1 (d_out d)) (pairs s s) = map (max 1) s" by (auto simp: ps out_dim_def)
  then have "prod_list (map (max 1) s) < 2 ^ 63" using assms(2) by (simp only: weight_def)
  moreover have "\<forall>x\<in>set s. 0 \<le> x" using assms(1) by (auto simp: ps dims_ok_def)
  ultimately have "foldl mul64 1 s = 1 * prod_list s" by (intro foldl_mul64) auto
  moreover have "homogeneous (rev (pairs s s))" by (auto simp: homogeneous_def ps state_of_def)
  moreover have o: "out_dim x x = x" for x by (simp add: out_dim_def)
  moreover have "map d_out (pairs s s) = s" by (simp add: ps comp_def o)
  ultimately show ?thesis
    by (simp add: BCast_def describes_def new_bcast_def f k rep_def Let_def)
qed

lemma BCast_slow:
  fixes sx sy :: vec
  assumes "dims_ok (pairs sx sy)" "weight (pairs sx sy) < 2 ^ 63" "\<not> (sx = sy \<and> fewer)"
  defines "ps \<equiv> pairs sx sy"
  shows "\<exists>b gs. BCast sx sy fewer = Some b \<and> describes b ps gs \<and>
    grad_x_reduce_idx b = rev (ones fst (int (length ps)) (rev ps)) \<and>
    grad_y_reduce_idx b = rev (ones snd (int (length ps)) (rev ps))"
proof -
  let ?n = "int (length ps)"
  have z: "zip (resize (length ps) (rev sx)) (resize (length ps) (rev sy)) = rev ps"
    unfolding resize_align ps_def length_pairs by (simp add: pairs_def Let_def zip_rev)
  obtain gs where gs: "bcast_loop fewer ?n 0 UNKNOWN (rev ps) new_bcast = Some (build ?n (rev ps) gs)"
      "runs_ok fewer (rev ps) gs"
  proof -
    have "build ?n [] [] = new_bcast" by (simp add: build_def new_bcast_def ones_def)
    moreover have "runs_ok fewer [] []" "prev_ok fewer UNKNOWN []" by (simp_all add: runs_ok_def prev_ok_def)
    moreover have "dims_ok (rev ps)" "weight (rev ps) < 2 ^ 63"
      using assms(1,2) by (simp_all add: ps_def weight_rev dims_ok_def)
    ultimately show ?thesis using bcast_loop_runs [of "[]" "rev ps" fewer "[]" UNKNOWN ?n] that by auto
  qed
  have len: "max (length sx) (length sy) = length ps" by (simp add: ps_def)
  have v: "valid (build ?n (rev ps) gs)" by (simp add: build_def)
  define hs where "hs = (if gs = [] then [[]] else gs)"
  have "(if b_result (build ?n (rev ps) gs) = [] then push_dims 1 1 1 1 1 (build ?n (rev ps) gs)
      else build ?n (rev ps) gs) = build ?n (rev ps) hs"
    by (auto simp: build_def push_dims_def hs_def run_prod_def)
  then have "BCast sx sy fewer = Some (reverse_all (build ?n (rev ps) hs))"
    using gs(1) assms(3) z v len by (auto simp: BCast_def Let_def)
  moreover have "\<forall>g\<in>set hs. homogeneous g" "concat hs = rev ps \<or> concat hs = filter (\<lambda>d. d \<noteq> (1, 1)) (rev ps)"
    using gs(2) by (auto simp: hs_def runs_ok_def homogeneous_def comp_def split: if_splits)
  then have "describes (reverse_all (build ?n (rev ps) hs)) ps hs"
    by (auto simp: describes_def reverse_all_def build_def rev_map)
  ultimately show ?thesis by (intro exI conjI) (auto simp: reverse_all_def build_def)
qed

lemma rev_ones: "rev (ones f (int (length ps)) (rev ps)) = map int (filter (\<lambda>j. f (ps ! j) = 1) [0..<length ps])"
proof -
  let ?n = "length ps"
  let ?flip = "\<lambda>k. ?n - 1 - k"
  have "rev [0..<?n] = map ?flip [0..<?n]" by (rule nth_equalityI) (auto simp: rev_nth)
  then have "rev (filter (\<lambda>j. f (ps ! j) = 1) [0..<?n]) = map ?flip (filter (\<lambda>k. f (ps ! ?flip k) = 1) [0..<?n])"
    by (simp add: rev_filter filter_map comp_def)
  also have "filter (\<lambda>k. f (ps ! ?flip k) = 1) [0..<?n] = filter (\<lambda>k. f (rev ps ! k) = 1) [0..<?n]"
    by (intro filter_cong) (auto simp: rev_nth)
  finally have "map int (rev (filter (\<lambda>j. f (ps ! j) = 1) [0..<?n])) = ones f (int ?n) (rev ps)"
    by (auto simp: ones_def of_nat_diff)
  then show ?thesis by (metis rev_map rev_rev_ident)
qed

lemma dims_ok_pairs:
  assumes "\<forall>x\<in>set sx. 0 \<le> x" "\<forall>y\<in>set sy. 0 \<le> y"
  shows "\<forall>d\<in>set (pairs sx sy). 0 \<le> fst d \<and> 0 \<le> snd d"
    and "dims_ok (pairs sx sy) \<longleftrightarrow> (\<forall>d\<in>set (pairs sx sy). compatible (fst d) (snd d))"
proof -
  show nn: "\<forall>d\<in>set (pairs sx sy). 0 \<le> fst d \<and> 0 \<le> snd d"
  proof
    fix d assume "d \<in> set (pairs sx sy)"
    then have "fst d \<in> set (map fst (pairs sx sy))" "snd d \<in> set (map snd (pairs sx sy))" by simp_all
    then have "fst d \<in> set (align (max (length sx) (length sy)) sx)" "snd d \<in> set (align (max (length sx) (length sy)) sy)"
      by (simp_all only: map_pairs)
    then show "0 \<le> fst d \<and> 0 \<le> snd d" using assms by (auto simp: align_def)
  qed
  then show "dims_ok (pairs sx sy) \<longleftrightarrow> (\<forall>d\<in>set (pairs sx sy). compatible (fst d) (snd d))" by (auto simp: dims_ok_def)
qed

lemma BCast_cases:
  assumes "dims_ok (pairs sx sy)" "weight (pairs sx sy) < 2 ^ 63"
  obtains b gs where "BCast sx sy fewer = Some b" "describes b (pairs sx sy) gs"
    "\<not> (sx = sy \<and> fewer) \<longrightarrow>
      grad_x_reduce_idx b = map int (filter (\<lambda>j. fst (pairs sx sy ! j) = 1) [0..<length (pairs sx sy)]) \<and>
      grad_y_reduce_idx b = map int (filter (\<lambda>j. snd (pairs sx sy ! j) = 1) [0..<length (pairs sx sy)])"
proof (cases "sx = sy \<and> fewer")
  case True
  then show ?thesis using BCast_fast [of sx] assms that by auto
next
  case False
  then show ?thesis using BCast_slow [OF assms False] that unfolding rev_ones by blast
qed

lemma BCast_invalid:
  assumes "\<forall>x\<in>set sx. 0 \<le> x" "\<forall>y\<in>set sy. 0 \<le> y" "\<not> dims_ok (pairs sx sy)"
  shows "\<exists>b. BCast sx sy fewer = Some b \<and> \<not> valid b"
proof -
  let ?n = "max (length sx) (length sy)"
  have ne: "sx \<noteq> sy"
  proof
    assume "sx = sy"
    then have "pairs sx sy = map (\<lambda>x. (x, x)) sx" by (simp add: pairs_def align_def zip_same_conv_map)
    then show False using assms(1,3) by (auto simp: dims_ok_def compatible_def)
  qed
  have z: "zip (resize ?n (rev sx)) (resize ?n (rev sy)) = rev (pairs sx sy)"
    unfolding resize_align by (simp add: pairs_def Let_def zip_rev)
  have "\<exists>b. bcast_loop fewer (int ?n) 0 UNKNOWN (rev (pairs sx sy)) new_bcast = Some b \<and> \<not> valid b"
    using dims_ok_pairs(1) [OF assms(1,2)] assms(3) by (intro bcast_loop_invalid) (auto simp: dims_ok_def)
  then show ?thesis using ne z by (auto simp: BCast_def Let_def)
qed

section \<open>Properties\<close>

text \<open>
  The constructor accepts two shapes exactly when their dimensions, aligned at
  the last one, are pairwise equal or 1. The output shape is then the larger
  dimension of each pair, and the gradient indices list, in order, the dimensions of
  size 1 of each operand (none when the shapes are identical and take the fast path).
\<close>

theorem bcast_output:
  assumes "\<forall>x\<in>set sx. 0 \<le> x" "\<forall>y\<in>set sy. 0 \<le> y" "weight (pairs sx sy) < 2 ^ 63"
  shows "\<exists>b. BCast sx sy fewer = Some b \<and>
    (valid b \<longleftrightarrow> (\<forall>d\<in>set (pairs sx sy). compatible (fst d) (snd d))) \<and>
    (valid b \<longrightarrow> b_output b = map (\<lambda>d. out_dim (fst d) (snd d)) (pairs sx sy)) \<and>
    (valid b \<and> \<not> (sx = sy \<and> fewer) \<longrightarrow>
      grad_x_reduce_idx b = map int (filter (\<lambda>j. fst (pairs sx sy ! j) = 1) [0..<length (pairs sx sy)]) \<and>
      grad_y_reduce_idx b = map int (filter (\<lambda>j. snd (pairs sx sy ! j) = 1) [0..<length (pairs sx sy)]))"
proof (cases "dims_ok (pairs sx sy)")
  case True
  then show ?thesis using dims_ok_pairs(2) [OF assms(1,2)]
    by (rule_tac BCast_cases [OF True assms(3), of fewer]) (auto simp: describes_def)
next
  case False
  then show ?thesis using dims_ok_pairs(2) [OF assms(1,2)] BCast_invalid [OF assms(1,2) False, of fewer] by blast
qed

theorem bcast_output_witness:
  "\<exists>b. BCast [2, 1, 3] [4, 1] True = Some b \<and> valid b \<and> b_output b = [2, 4, 3] \<and>
     grad_x_reduce_idx b = [1] \<and> grad_y_reduce_idx b = [0, 2]"
proof -
  have ps: "pairs [2, 1, 3] [4, 1] = [(2, 1), (1, 4), (3, 1)]" by (simp add: pairs_def align_def Let_def)
  then have "weight (pairs [2, 1, 3] [4, 1]) < 2 ^ 63" by (simp add: weight_def out_dim_def)
  from bcast_output [OF _ _ this, of True] show ?thesis
    unfolding ps by (auto simp: compatible_def out_dim_def upt_rec)
qed

text \<open>
  C22: The reduction of dimensions is transparent. Whether or not runs of dimensions
  are merged, reshaping an operand to its reshape vector and replicating it by its
  broadcast vector keeps its number of elements and puts at every position of the
  output the element that dimension-wise broadcasting puts there; both operands get
  the same intermediate shape, with as many elements as the output.
\<close>

theorem bcast_transparent:
  assumes "\<forall>x\<in>set sx. 0 \<le> x" "\<forall>y\<in>set sy. 0 \<le> y" "weight (pairs sx sy) < 2 ^ 63"
    and "BCast sx sy fewer = Some b" "valid b"
  shows "prod_list (x_reshape b) = prod_list sx \<and> prod_list (y_reshape b) = prod_list sy \<and>
    b_result b = map2 (*) (x_reshape b) (x_bcast b) \<and> b_result b = map2 (*) (y_reshape b) (y_bcast b) \<and>
    prod_list (b_result b) = prod_list (b_output b) \<and>
    replicated_index (rev (zip (x_reshape b) (x_bcast b))) p =
      operand_index (rev (map (\<lambda>d. (fst d, out_dim (fst d) (snd d))) (pairs sx sy))) p \<and>
    replicated_index (rev (zip (y_reshape b) (y_bcast b))) p =
      operand_index (rev (map (\<lambda>d. (snd d, out_dim (fst d) (snd d))) (pairs sx sy))) p"
proof -
  let ?ps = "pairs sx sy"
  have ok: "dims_ok ?ps" using BCast_invalid [OF assms(1,2), of fewer] assms(4,5) by auto
  obtain gs where gs: "describes b ?ps gs"
    using BCast_cases [OF ok assms(3), of fewer] assms(4) by auto
  note D = gs [unfolded describes_def]
  have "concat gs = rev ?ps \<or> concat gs = filter (\<lambda>d. d \<noteq> (1, 1)) (rev ?ps)" using D by blast
  then have "set (concat gs) \<subseteq> set ?ps" by (auto simp del: set_concat)
  then have cok: "dims_ok (concat gs)" using ok unfolding dims_ok_def by blast
  have prod: "prod_list (rev (map (run_prod f) gs)) = prod_list (map f ?ps)" if f: "f (1, 1) = 1" for f
  proof -
    have "prod_list (map (run_prod f) gs) = prod_list (map f (concat gs))"
      by (induction gs) (auto simp: run_prod_def)
    moreover have "prod_list (map f (filter (\<lambda>d. d \<noteq> (1, 1)) ds)) = prod_list (map f ds)" for ds
      using f by (induction ds) auto
    moreover have "prod_list (map f (rev ?ps)) = prod_list (map f ?ps)" by (simp add: prod_list_rev flip: rev_map)
    ultimately show ?thesis using D by (auto simp: prod_list_rev)
  qed
  have index: "replicated_index (rev (zip (rev (map (run_prod f) gs)) (rev (map (run_prod k) gs)))) p =
      operand_index (rev (map (\<lambda>d. (f d, d_out d)) ?ps)) p" if f: "operand f k" for f k
  proof -
    have "replicated_index (map (\<lambda>g. (run_prod f g, run_prod k g)) gs) p = replicated_index (map (\<lambda>d. (f d, k d)) (rev ?ps)) p"
      using replicated_runs [OF _ f cok] D replicated_filter [OF f, of "rev ?ps"] by auto
    also have "\<dots> = operand_index (map (\<lambda>d. (f d, d_out d)) (rev ?ps)) p"
      using ok by (intro replicated_operand [OF f]) (auto simp: dims_ok_def)
    finally show ?thesis by (simp add: zip_rev zip_map_map zip_same_conv_map rev_map comp_def)
  qed
  have mult: "map2 (*) (rev (map (run_prod f) gs)) (rev (map (run_prod k) gs)) = rev (map (run_prod d_out) gs)"
    if f: "operand f k" for f k
  proof -
    have "run_prod f g * run_prod k g = run_prod d_out g" if "g \<in> set gs" for g
    proof -
      have "map (\<lambda>d. f d * k d) g = map d_out g" using cok that operandD(1) [OF f] by (auto simp: dims_ok_def)
      then show ?thesis unfolding run_prod_mult by (simp only: run_prod_def)
    qed
    then show ?thesis by (simp add: zip_rev zip_map_map zip_same_conv_map rev_map [symmetric] comp_def cong: map_cong)
  qed
  have al: "prod_list (align n v) = prod_list v" for n v by (simp add: align_def prod_list_replicate)
  show ?thesis
    using D prod [of fst] prod [of snd] prod [of d_out] index [of fst d_xrep] index [of snd d_yrep]
      mult [of fst d_xrep] mult [of snd d_yrep]
    by (simp add: operand_def al map_pairs out_dim_def)
qed

theorem bcast_transparent_witness:
  "\<exists>b. BCast [2, 1, 3] [4, 1] True = Some b \<and> prod_list (x_reshape b) = 6 \<and>
     replicated_index (rev (zip (x_reshape b) (x_bcast b))) 17 = 5"
proof -
  have ps: "pairs [2, 1, 3] [4, 1] = [(2, 1), (1, 4), (3, 1)]" by (simp add: pairs_def align_def Let_def)
  then have w: "weight (pairs [2, 1, 3] [4, 1]) < 2 ^ 63" by (simp add: weight_def out_dim_def)
  obtain b gs where b: "BCast [2, 1, 3] [4, 1] True = Some b" "describes b (pairs [2, 1, 3] [4, 1]) gs"
    by (rule BCast_cases [OF _ w, of True]) (auto simp: ps dims_ok_def compatible_def)
  then have v: "valid b" "b_output b = [2, 4, 3]" by (auto simp: describes_def ps out_dim_def)
  from bcast_transparent [OF _ _ w b(1) v(1), of 17] show ?thesis
    unfolding ps using b(1) v by (simp add: out_dim_def)
qed

end
