(* ===== verification/Shape_Inference.thy ===== *)
theory Shape_Inference
  imports Prelude "HOL-Library.Sublist"
begin

text \<open>
  The context of a shape function, \<open>framework/shape_inference.cc\<close> and
  \<open>framework/shape_inference.h\<close>. The context owns the dimensions and shapes that
  the operations create; a handle is an index into \<open>all_dims_\<close> or \<open>all_shapes_\<close>, and
  \<open>SameHandle\<close> is equality of indices. A shape is \<open>None\<close> when its rank is unknown, a
  dimension is -1 when its size is unknown.

  An operation returns a \<open>Status\<close> with its result, and the changed context; or it ends with an exception
  of \<open>std::vector\<close>, when a negative number is passed on as a size. The name
  ranges of inputs and outputs come from the node definition and are part of the
  context; the constructors, the string and proto forms of shapes and the texts of
  the errors are not modelled.
\<close>

section \<open>State\<close>

type_synonym dim_handle = nat
type_synonym shape_handle = nat

definition kUnknownDim :: int where "kUnknownDim = - 1"
definition kUnknownRank :: int where "kUnknownRank = - 1"

datatype dimension_or_constant = Dim_handle dim_handle | Constant int

datatype data_type = DT_INT32 | DT_INT64 | DT_OTHER

record tensor =
  t_shape :: "nat list"
  t_dtype :: data_type
  t_flat :: "int list"

record ctx =
  all_dims :: "int list"
  all_shapes :: "dim_handle list option list"
  c_inputs :: "shape_handle list"
  input_tensors :: "tensor option list"
  requested_input_tensor :: "bool list"
  c_outputs :: "shape_handle option list"
  input_name_map :: "string \<rightharpoonup> nat \<times> nat"
  output_name_map :: "string \<rightharpoonup> nat \<times> nat"

datatype fault = Error code | Length_error

type_synonym 'a outcome = "fault + 'a"
type_synonym 'a op = "ctx \<Rightarrow> 'a outcome \<times> ctx"

fun bind_outcome :: "'a outcome \<Rightarrow> ('a \<Rightarrow> 'b outcome) \<Rightarrow> 'b outcome" where
  "bind_outcome (Inl e) f = Inl e"
| "bind_outcome (Inr x) f = f x"

lemma bind_outcome_Inr_iff: "bind_outcome m f = Inr y \<longleftrightarrow> (\<exists>x. m = Inr x \<and> f x = Inr y)"
  by (cases m) auto

text \<open>
  \<open>TF_RETURN_IF_ERROR\<close>, through which an exception passes too, and returning \<open>OK\<close> or an invalid
  argument error.
\<close>

definition bind_op :: "'a op \<Rightarrow> ('a \<Rightarrow> 'b op) \<Rightarrow> 'b op" where
  "bind_op m f c = (case m c of (Inl e, c) \<Rightarrow> (Inl e, c) | (Inr x, c) \<Rightarrow> f x c)"

definition ok :: "'a \<Rightarrow> 'a op" where
  "ok x c = (Inr x, c)"

definition invalid :: "'a op" where
  "invalid c = (Inl (Error INVALID_ARGUMENT), c)"

section \<open>Handles\<close>

definition Rank :: "ctx \<Rightarrow> shape_handle \<Rightarrow> int" where
  "Rank c s = (case all_shapes c ! s of None \<Rightarrow> kUnknownRank | Some ds \<Rightarrow> int (length ds))"

definition RankKnown :: "ctx \<Rightarrow> shape_handle \<Rightarrow> bool" where
  "RankKnown c s \<longleftrightarrow> Rank c s \<noteq> kUnknownRank"

definition dims_of :: "ctx \<Rightarrow> shape_handle \<Rightarrow> dim_handle list" where
  "dims_of c s = (case all_shapes c ! s of None \<Rightarrow> [] | Some ds \<Rightarrow> ds)"

fun Value :: "ctx \<Rightarrow> dimension_or_constant \<Rightarrow> int" where
  "Value c (Dim_handle d) = all_dims c ! d"
| "Value c (Constant v) = v"

definition ValueKnown :: "ctx \<Rightarrow> dimension_or_constant \<Rightarrow> bool" where
  "ValueKnown c d \<longleftrightarrow> Value c d \<noteq> kUnknownDim"

fun MakeDim :: "dimension_or_constant \<Rightarrow> dim_handle op" where
  "MakeDim (Dim_handle d) c = (Inr d, c)"
| "MakeDim (Constant v) c = (Inr (length (all_dims c)), c\<lparr>all_dims := all_dims c @ [v]\<rparr>)"

definition UnknownDim :: "dim_handle op" where
  "UnknownDim = MakeDim (Constant kUnknownDim)"

definition MakeShape :: "dim_handle list \<Rightarrow> shape_handle op" where
  "MakeShape dims c = (Inr (length (all_shapes c)), c\<lparr>all_shapes := all_shapes c @ [Some dims]\<rparr>)"

definition UnknownShape :: "shape_handle op" where
  "UnknownShape c = (Inr (length (all_shapes c)), c\<lparr>all_shapes := all_shapes c @ [None]\<rparr>)"

definition Dim :: "shape_handle \<Rightarrow> int \<Rightarrow> dim_handle op" where
  "Dim s idx c =
     (if Rank c s = kUnknownRank then UnknownDim c
      else if idx < 0 then (Inr (dims_of c s ! nat (int (length (dims_of c s)) + idx)), c)
      else (Inr (dims_of c s ! nat idx), c))"

fun MakeDims :: "dimension_or_constant list \<Rightarrow> dim_handle list op" where
  "MakeDims [] = ok []"
| "MakeDims (d # ds) = bind_op (MakeDim d) (\<lambda>h. bind_op (MakeDims ds) (\<lambda>hs. ok (h # hs)))"

definition MakeShape_init :: "dimension_or_constant list \<Rightarrow> shape_handle op" where
  "MakeShape_init dims = bind_op (MakeDims dims) MakeShape"

definition length_error :: "'a op" where
  "length_error c = (Inl Length_error, c)"

definition UnknownShapeOfRank :: "int \<Rightarrow> shape_handle op" where
  "UnknownShapeOfRank rank =
     (if rank < 0 then length_error
      else bind_op (MakeDims (replicate (nat rank) (Constant kUnknownDim))) MakeShape)"

definition Scalar :: "shape_handle op" where "Scalar = MakeShape_init []"

definition Vector :: "dimension_or_constant \<Rightarrow> shape_handle op" where "Vector dim = MakeShape_init [dim]"

definition Matrix :: "dimension_or_constant \<Rightarrow> dimension_or_constant \<Rightarrow> shape_handle op" where
  "Matrix dim1 dim2 = MakeShape_init [dim1, dim2]"

fun all_known :: "ctx \<Rightarrow> dim_handle list \<Rightarrow> bool" where
  "all_known c [] = True"
| "all_known c (d # ds) = (if \<not> ValueKnown c (Dim_handle d) then False else all_known c ds)"

definition FullyDefined :: "ctx \<Rightarrow> shape_handle \<Rightarrow> bool" where
  "FullyDefined c s = (if \<not> RankKnown c s then False else all_known c (dims_of c s))"

fun num_elements :: "ctx \<Rightarrow> int \<Rightarrow> dim_handle list \<Rightarrow> int option" where
  "num_elements c sz [] = Some sz"
| "num_elements c sz (d # ds) =
     (let dim_val = Value c (Dim_handle d) in
      if dim_val = kUnknownDim then None else num_elements c (wrap64 (sz * dim_val)) ds)"

definition NumElements :: "shape_handle \<Rightarrow> dim_handle op" where
  "NumElements s c =
     (if Rank c s = kUnknownRank then UnknownDim c
      else case num_elements c 1 (dims_of c s) of
        None \<Rightarrow> UnknownDim c
      | Some sz \<Rightarrow> MakeDim (Constant sz) c)"

section \<open>Assertions on shapes and dimensions\<close>

definition WithRank :: "shape_handle \<Rightarrow> int \<Rightarrow> shape_handle op" where
  "WithRank shape rank c =
     (let existing = Rank c shape in
      if existing = rank then ok shape c
      else if existing = kUnknownRank then UnknownShapeOfRank rank c
      else invalid c)"

definition WithRankAtLeast :: "shape_handle \<Rightarrow> int \<Rightarrow> shape_handle op" where
  "WithRankAtLeast shape rank c =
     (let existing = Rank c shape in
      if existing \<ge> rank then ok shape c
      else if existing = kUnknownRank then UnknownShape c
      else invalid c)"

definition WithRankAtMost :: "shape_handle \<Rightarrow> int \<Rightarrow> shape_handle op" where
  "WithRankAtMost shape rank c =
     (let existing = Rank c shape in
      if existing = kUnknownRank then UnknownShape c
      else if existing \<le> rank then ok shape c
      else invalid c)"

definition WithValue :: "dim_handle \<Rightarrow> int \<Rightarrow> dim_handle op" where
  "WithValue dim val c =
     (let existing = Value c (Dim_handle dim) in
      if existing = val then ok dim c
      else if existing = kUnknownDim then MakeDim (Constant val) c
      else invalid c)"

definition Merge_dims :: "dim_handle \<Rightarrow> dim_handle \<Rightarrow> dim_handle op" where
  "Merge_dims d0 d1 c =
     (if d0 = d1 \<or> \<not> ValueKnown c (Dim_handle d1) then ok d0 c
      else if \<not> ValueKnown c (Dim_handle d0) then ok d1 c
      else if Value c (Dim_handle d0) = Value c (Dim_handle d1) then ok d0 c
      else invalid c)"

fun merge_lists :: "dim_handle list \<Rightarrow> dim_handle list \<Rightarrow> dim_handle list op" where
  "merge_lists (d0 # ds0) (d1 # ds1) =
     bind_op (Merge_dims d0 d1) (\<lambda>d. bind_op (merge_lists ds0 ds1) (\<lambda>ds. ok (d # ds)))"
| "merge_lists _ _ = ok []"

definition MergePrefix :: "shape_handle \<Rightarrow> shape_handle \<Rightarrow> (shape_handle \<times> shape_handle) op" where
  "MergePrefix s pfx c =
     (if \<not> RankKnown c pfx \<or> \<not> RankKnown c s then ok (s, pfx) c
      else
        let rank = Rank c pfx in
        bind_op (WithRankAtLeast s rank) (\<lambda>s c.
        bind_op (merge_lists (take (nat rank) (dims_of c s)) (dims_of c pfx)) (\<lambda>dims.
        bind_op (MakeShape dims) (\<lambda>prefix_out.
        bind_op (MakeShape (dims @ drop (nat rank) (dims_of c s))) (\<lambda>s_out.
        ok (s_out, prefix_out)))) c) c)"

text \<open>
  The comparison loop of \<open>Merge\<close>: whether either shape can be returned as it is, or
  \<open>None\<close> when two known dimensions differ.
\<close>

fun merge_check :: "ctx \<Rightarrow> dim_handle list \<Rightarrow> dim_handle list \<Rightarrow> bool \<Rightarrow> bool \<Rightarrow> (bool \<times> bool) option" where
  "merge_check c (d0 # ds0) (d1 # ds1) return_s0 return_s1 =
     (if d0 = d1 then merge_check c ds0 ds1 return_s0 return_s1
      else
        let v0 = Value c (Dim_handle d0); v1 = Value c (Dim_handle d1) in
        if v0 = kUnknownDim then
          (if v1 \<noteq> kUnknownDim then merge_check c ds0 ds1 False return_s1
           else merge_check c ds0 ds1 return_s0 return_s1)
        else if v1 = kUnknownDim then merge_check c ds0 ds1 return_s0 False
        else if v0 \<noteq> v1 then None
        else merge_check c ds0 ds1 return_s0 return_s1)"
| "merge_check c _ _ return_s0 return_s1 = Some (return_s0, return_s1)"

definition Merge_shapes :: "shape_handle \<Rightarrow> shape_handle \<Rightarrow> shape_handle op" where
  "Merge_shapes s0 s1 c =
     (if s0 = s1 \<or> \<not> RankKnown c s1 then ok s0 c
      else if \<not> RankKnown c s0 then ok s1 c
      else if Rank c s0 \<noteq> Rank c s1 then invalid c
      else case merge_check c (dims_of c s0) (dims_of c s1) True True of
        None \<Rightarrow> invalid c
      | Some (return_s0, return_s1) \<Rightarrow>
          if return_s0 \<or> return_s1 then ok (if return_s0 then s0 else s1) c
          else bind_op (merge_lists (dims_of c s0) (dims_of c s1)) MakeShape c)"

section \<open>New shapes from old ones\<close>

definition int64_max :: int where "int64_max = 2 ^ 63 - 1"

definition Subshape :: "shape_handle \<Rightarrow> int \<Rightarrow> int \<Rightarrow> shape_handle op" where
  "Subshape s start_in end_in c =
     (let rank = Rank c s in
      if start_in = 0 \<and> (RankKnown c s \<and> end_in \<ge> rank \<or> end_in = int64_max) then ok s c
      else if \<not> RankKnown c s then UnknownShape c
      else
        let start = (if start_in > rank then rank else start_in);
            stop = (if end_in > rank then rank else end_in);
            start = (if start < 0 then rank + start else start) in
        if start < 0 then invalid c
        else
          let stop = (if stop < 0 then rank + stop else stop) in
          if stop < 0 then invalid c
          else if start > stop then invalid c
          else MakeShape (take (nat (stop - start)) (drop (nat start) (dims_of c s))) c)"

definition Subshape_from :: "shape_handle \<Rightarrow> int \<Rightarrow> shape_handle op" where
  "Subshape_from s start = Subshape s start int64_max"

definition Concatenate :: "shape_handle \<Rightarrow> shape_handle \<Rightarrow> shape_handle op" where
  "Concatenate s1 s2 c =
     (if \<not> RankKnown c s1 \<or> \<not> RankKnown c s2 then UnknownShape c
      else MakeShape (dims_of c s1 @ dims_of c s2) c)"

definition ReplaceDim :: "shape_handle \<Rightarrow> int \<Rightarrow> dim_handle \<Rightarrow> shape_handle op" where
  "ReplaceDim s dim_index_in new_dim c =
     (if \<not> RankKnown c s then UnknownShape c
      else
        let n = int (length (dims_of c s));
            dim_index = (if dim_index_in < 0 then n + dim_index_in else dim_index_in) in
        if \<not> (0 \<le> dim_index \<and> dim_index < n) then invalid c
        else MakeShape ((dims_of c s)[nat dim_index := new_dim]) c)"

section \<open>Arithmetic on dimensions\<close>

definition Divide :: "dim_handle \<Rightarrow> int \<Rightarrow> bool \<Rightarrow> dim_handle op" where
  "Divide dividend divisor evenly_divisible c =
     (if divisor = 1 then ok dividend c
      else if \<not> ValueKnown c (Dim_handle dividend) then UnknownDim c
      else
        let v = Value c (Dim_handle dividend) in
        if divisor \<le> 0 then invalid c
        else if evenly_divisible \<and> v mod divisor \<noteq> 0 then invalid c
        else MakeDim (Constant (v div divisor)) c)"

definition Add_dims :: "dim_handle \<Rightarrow> dimension_or_constant \<Rightarrow> dim_handle op" where
  "Add_dims fst_dim snd_dim c =
     (let first_value = Value c (Dim_handle fst_dim); second_value = Value c snd_dim in
      if first_value = 0 then MakeDim snd_dim c
      else if second_value = 0 then MakeDim (Dim_handle fst_dim) c
      else if first_value = kUnknownDim \<or> second_value = kUnknownDim then UnknownDim c
      else
        let sum = wrap64 (first_value + second_value) in
        if sum < 0 then invalid c else MakeDim (Constant sum) c)"

definition Subtract :: "dim_handle \<Rightarrow> dimension_or_constant \<Rightarrow> dim_handle op" where
  "Subtract fst_dim snd_dim c =
     (let first_value = Value c (Dim_handle fst_dim); second_value = Value c snd_dim in
      if second_value = 0 then MakeDim (Dim_handle fst_dim) c
      else if first_value = kUnknownDim \<or> second_value = kUnknownDim then UnknownDim c
      else if first_value < second_value then invalid c
      else MakeDim (Constant (first_value - second_value)) c)"

definition Multiply :: "dim_handle \<Rightarrow> dimension_or_constant \<Rightarrow> dim_handle op" where
  "Multiply fst_dim snd_dim c =
     (let first_value = Value c (Dim_handle fst_dim); second_value = Value c snd_dim in
      if first_value = 0 then ok fst_dim c
      else if second_value = 0 then MakeDim snd_dim c
      else if first_value = 1 then MakeDim snd_dim c
      else if second_value = 1 then ok fst_dim c
      else if first_value = kUnknownDim \<or> second_value = kUnknownDim then UnknownDim c
      else
        let product = wrap64 (first_value * second_value) in
        if product < 0 then invalid c else MakeDim (Constant product) c)"

definition Min_dims :: "dim_handle \<Rightarrow> dimension_or_constant \<Rightarrow> dim_handle op" where
  "Min_dims fst_dim snd_dim c =
     (let first_value = Value c (Dim_handle fst_dim); second_value = Value c snd_dim in
      if first_value = 0 then ok fst_dim c
      else if second_value = 0 then MakeDim snd_dim c
      else if first_value = kUnknownDim \<or> second_value = kUnknownDim then UnknownDim c
      else if first_value \<le> second_value then ok fst_dim c
      else MakeDim snd_dim c)"

definition Max_dims :: "dim_handle \<Rightarrow> dimension_or_constant \<Rightarrow> dim_handle op" where
  "Max_dims fst_dim snd_dim c =
     (let first_value = Value c (Dim_handle fst_dim); second_value = Value c snd_dim in
      if first_value = kUnknownDim \<or> second_value = kUnknownDim then UnknownDim c
      else if first_value \<ge> second_value then ok fst_dim c
      else MakeDim snd_dim c)"

section \<open>Inputs and outputs\<close>

definition input_tensor :: "nat \<Rightarrow> tensor option op" where
  "input_tensor idx c =
     (Inr (input_tensors c ! idx), c\<lparr>requested_input_tensor := (requested_input_tensor c)[idx := True]\<rparr>)"

definition MakeShapeFromShapeTensor :: "nat \<Rightarrow> shape_handle op" where
  "MakeShapeFromShapeTensor input_idx c =
     bind_op (WithRank (c_inputs c ! input_idx) 1) (\<lambda>input_shape.
     bind_op (input_tensor input_idx) (\<lambda>t.
     case t of
       None \<Rightarrow>
         bind_op (Dim input_shape 0) (\<lambda>shape_dim c.
         if \<not> ValueKnown c (Dim_handle shape_dim) then UnknownShape c
         else bind_op (MakeDims (replicate (nat (Value c (Dim_handle shape_dim))) (Constant kUnknownDim))) MakeShape c)
     | Some t \<Rightarrow>
         if length (t_shape t) \<noteq> 1 then invalid
         else if t_dtype t = DT_INT32 then bind_op (MakeDims (map Constant (t_flat t))) MakeShape
         else if t_dtype t = DT_INT64 then bind_op (MakeDims (map Constant (t_flat t))) MakeShape
         else invalid)) c"

definition MakeDimForScalarInput :: "nat \<Rightarrow> dim_handle op" where
  "MakeDimForScalarInput idx =
     bind_op (input_tensor idx) (\<lambda>t.
     case t of
       None \<Rightarrow> UnknownDim
     | Some t \<Rightarrow>
         if length (t_shape t) \<noteq> 0 then invalid
         else if t_dtype t \<noteq> DT_INT32 \<and> t_dtype t \<noteq> DT_INT64 then invalid
         else let val = t_flat t ! 0 in if val < 0 then invalid else MakeDim (Constant val))"

definition input_by_name :: "string \<Rightarrow> ctx \<Rightarrow> shape_handle list status" where
  "input_by_name name c =
     (case input_name_map c name of
        None \<Rightarrow> Inl INVALID_ARGUMENT
      | Some (start, stop) \<Rightarrow> Inr (map (\<lambda>i. c_inputs c ! i) [start..<stop]))"

definition output_by_name :: "string \<Rightarrow> ctx \<Rightarrow> shape_handle option list status" where
  "output_by_name name c =
     (case output_name_map c name of
        None \<Rightarrow> Inl INVALID_ARGUMENT
      | Some (start, stop) \<Rightarrow> Inr (map (\<lambda>i. c_outputs c ! i) [start..<stop]))"

text \<open>
  The loop of \<open>set_output\<close>; \<open>None\<close> is a read past the end of \<open>shapes\<close>. The error
  built when the number of shapes is wrong is dropped by the code, not returned.
\<close>

fun assign_outputs :: "nat \<Rightarrow> nat \<Rightarrow> nat \<Rightarrow> shape_handle list \<Rightarrow> shape_handle option list \<Rightarrow> shape_handle option list option" where
  "assign_outputs i 0 start shapes outs = Some outs"
| "assign_outputs i (Suc k) start shapes outs =
     (if i < length shapes then assign_outputs (i + 1) k start shapes (outs[i + start := Some (shapes ! i)])
      else None)"

definition set_output :: "string \<Rightarrow> shape_handle list \<Rightarrow> ctx \<Rightarrow> (unit status \<times> ctx) option" where
  "set_output name shapes c =
     (case output_name_map c name of
        None \<Rightarrow> Some (Inl INVALID_ARGUMENT, c)
      | Some (start, stop) \<Rightarrow>
          (case assign_outputs 0 (stop - start) start shapes (c_outputs c) of
             None \<Rightarrow> None
           | Some outs \<Rightarrow> Some (Inr (), c\<lparr>c_outputs := outs\<rparr>)))"

definition ValidateSparseTensor :: "shape_handle \<Rightarrow> shape_handle \<Rightarrow> shape_handle \<Rightarrow> unit op" where
  "ValidateSparseTensor indices_shape values_shape shape_shape =
     bind_op (WithRank indices_shape 2) (\<lambda>_.
     bind_op (WithRank values_shape 1) (\<lambda>_.
     bind_op (WithRank shape_shape 1) (\<lambda>_.
     bind_op (Dim indices_shape 0) (\<lambda>num_index_elements_dim.
     bind_op (\<lambda>c. if ValueKnown c (Dim_handle num_index_elements_dim) then
        bind_op (Dim values_shape 0) (\<lambda>num_values_elements_dim c.
        if ValueKnown c (Dim_handle num_values_elements_dim) \<and>
           Value c (Dim_handle num_index_elements_dim) \<noteq> Value c (Dim_handle num_values_elements_dim)
        then invalid c else ok () c) c
      else ok () c) (\<lambda>_.
     bind_op (Dim indices_shape 1) (\<lambda>index_rank_dim c.
     if ValueKnown c (Dim_handle index_rank_dim) then
       bind_op (Dim shape_shape 0) (\<lambda>shape_rank_dim c.
       if ValueKnown c (Dim_handle shape_rank_dim) \<and>
          Value c (Dim_handle index_rank_dim) \<noteq> signed_take_bit 31 (Value c (Dim_handle shape_rank_dim))
       then invalid c else ok () c) c
     else ok () c))))))"

section \<open>Meaning of handles\<close>

text \<open>
  The partial shape behind a handle, without sharing, and the contexts in which the
  handles make sense.
\<close>

type_synonym pshape = "int list option"

definition shape_val :: "ctx \<Rightarrow> shape_handle \<Rightarrow> pshape" where
  "shape_val c s = map_option (map (\<lambda>d. all_dims c ! d)) (all_shapes c ! s)"

definition valid_dim :: "ctx \<Rightarrow> dim_handle \<Rightarrow> bool" where
  "valid_dim c d \<longleftrightarrow> d < length (all_dims c)"

definition valid_shape :: "ctx \<Rightarrow> shape_handle \<Rightarrow> bool" where
  "valid_shape c s \<longleftrightarrow> s < length (all_shapes c)"

definition dim_size_ok :: "int \<Rightarrow> bool" where
  "dim_size_ok v \<longleftrightarrow> - 1 \<le> v \<and> v < 2 ^ 63"

definition wf :: "ctx \<Rightarrow> bool" where
  "wf c \<longleftrightarrow> (\<forall>v\<in>set (all_dims c). dim_size_ok v) \<and>
     (\<forall>ds. Some ds \<in> set (all_shapes c) \<longrightarrow> (\<forall>d\<in>set ds. valid_dim c d))"

text \<open>Contexts only grow: every handle keeps its meaning.\<close>

definition grows :: "ctx \<Rightarrow> ctx \<Rightarrow> bool" where
  "grows c c' \<longleftrightarrow> prefix (all_dims c) (all_dims c') \<and> prefix (all_shapes c) (all_shapes c')"

text \<open>
  An operation is correct for a specification when it returns the same status, and
  on success a handle for the specified value, in a well-formed context that has grown.
\<close>

definition implements ::
  "ctx \<Rightarrow> 'a outcome \<times> ctx \<Rightarrow> (ctx \<Rightarrow> 'a \<Rightarrow> 'v option) \<Rightarrow> 'v outcome \<Rightarrow> bool" where
  "implements c res meaning spec \<longleftrightarrow> (case res of (r, c') \<Rightarrow> wf c' \<and> grows c c' \<and>
     (case (r, spec) of (Inl e, Inl e') \<Rightarrow> e = e' | (Inr x, Inr v) \<Rightarrow> meaning c' x = Some v | _ \<Rightarrow> False))"

definition shape_meaning :: "ctx \<Rightarrow> shape_handle \<Rightarrow> pshape option" where
  "shape_meaning c s = (if valid_shape c s then Some (shape_val c s) else None)"

definition dim_meaning :: "ctx \<Rightarrow> dim_handle \<Rightarrow> int option" where
  "dim_meaning c d = (if valid_dim c d then Some (all_dims c ! d) else None)"

section \<open>Specifications\<close>

definition rank_of :: "pshape \<Rightarrow> int" where
  "rank_of p = (case p of None \<Rightarrow> - 1 | Some vs \<Rightarrow> int (length vs))"

definition with_rank_spec :: "int \<Rightarrow> pshape \<Rightarrow> pshape outcome" where
  "with_rank_spec r p =
     (if rank_of p = r then Inr p
      else if p = None then if r < 0 then Inl Length_error else Inr (Some (replicate (nat r) (- 1)))
      else Inl (Error INVALID_ARGUMENT))"

definition at_least_spec :: "int \<Rightarrow> pshape \<Rightarrow> pshape outcome" where
  "at_least_spec r p = (if p = None \<or> r \<le> rank_of p then Inr p else Inl (Error INVALID_ARGUMENT))"

definition at_most_spec :: "int \<Rightarrow> pshape \<Rightarrow> pshape outcome" where
  "at_most_spec r p = (if p = None \<or> rank_of p \<le> r then Inr p else Inl (Error INVALID_ARGUMENT))"

definition merge_dim_spec :: "int \<Rightarrow> int \<Rightarrow> int outcome" where
  "merge_dim_spec v w =
     (if w = - 1 then Inr v else if v = - 1 then Inr w else if v = w then Inr v else Inl (Error INVALID_ARGUMENT))"

fun merge_dims_spec :: "int list \<Rightarrow> int list \<Rightarrow> int list outcome" where
  "merge_dims_spec (v # vs) (w # ws) =
     bind_outcome (merge_dim_spec v w) (\<lambda>u. bind_outcome (merge_dims_spec vs ws) (\<lambda>us. Inr (u # us)))"
| "merge_dims_spec _ _ = Inr []"

fun merge_spec :: "pshape \<Rightarrow> pshape \<Rightarrow> pshape outcome" where
  "merge_spec p None = Inr p"
| "merge_spec None q = Inr q"
| "merge_spec (Some vs) (Some ws) =
     (if length vs \<noteq> length ws then Inl (Error INVALID_ARGUMENT)
      else bind_outcome (merge_dims_spec vs ws) (\<lambda>us. Inr (Some us)))"

fun merge_prefix_spec :: "pshape \<Rightarrow> pshape \<Rightarrow> (pshape \<times> pshape) outcome" where
  "merge_prefix_spec (Some vs) (Some ws) =
     (if length vs < length ws then Inl (Error INVALID_ARGUMENT)
      else bind_outcome (merge_dims_spec (take (length ws) vs) ws) (\<lambda>us.
        Inr (Some (us @ drop (length ws) vs), Some us)))"
| "merge_prefix_spec p q = Inr (p, q)"

definition clip :: "int \<Rightarrow> int \<Rightarrow> int" where
  "clip rank k = (if k < 0 then rank + k else min k rank)"

definition subshape_spec :: "int \<Rightarrow> int \<Rightarrow> pshape \<Rightarrow> pshape outcome" where
  "subshape_spec start stop p =
     (case p of None \<Rightarrow> Inr None
      | Some vs \<Rightarrow>
          let n = int (length vs); i = clip n start; j = clip n stop in
          if 0 \<le> i \<and> i \<le> j then Inr (Some (take (nat (j - i)) (drop (nat i) vs))) else Inl (Error INVALID_ARGUMENT))"

fun concat_spec :: "pshape \<Rightarrow> pshape \<Rightarrow> pshape" where
  "concat_spec (Some vs) (Some ws) = Some (vs @ ws)"
| "concat_spec _ _ = None"

definition replace_spec :: "int \<Rightarrow> int \<Rightarrow> pshape \<Rightarrow> pshape outcome" where
  "replace_spec i v p =
     (case p of None \<Rightarrow> Inr None
      | Some vs \<Rightarrow>
          let n = int (length vs); k = (if i < 0 then n + i else i) in
          if 0 \<le> k \<and> k < n then Inr (Some (vs[nat k := v])) else Inl (Error INVALID_ARGUMENT))"

section \<open>Basic facts\<close>

lemma grows_refl [simp]: "grows c c"
  by (simp add: grows_def)

lemma grows_trans: "grows c c' \<Longrightarrow> grows c' c'' \<Longrightarrow> grows c c''"
  by (auto simp: grows_def intro: prefix_order.trans)

lemma nth_prefix: "prefix xs ys \<Longrightarrow> i < length xs \<Longrightarrow> ys ! i = xs ! i"
  by (auto simp: prefix_def nth_append)

lemma grows_dim:
  assumes "grows c c'" "valid_dim c d"
  shows "valid_dim c' d" "all_dims c' ! d = all_dims c ! d"
  using assms nth_prefix prefix_length_le by (fastforce simp: grows_def valid_dim_def)+

lemma wf_dims_of: "wf c \<Longrightarrow> valid_shape c s \<Longrightarrow> d \<in> set (dims_of c s) \<Longrightarrow> valid_dim c d"
  by (auto simp: wf_def valid_shape_def dims_of_def split: option.splits) (metis nth_mem)

lemma grows_shape:
  assumes "grows c c'" "wf c" "valid_shape c s"
  shows "valid_shape c' s" "shape_val c' s = shape_val c s"
proof -
  have nth: "all_shapes c' ! s = all_shapes c ! s" "s < length (all_shapes c')"
    using assms nth_prefix prefix_length_le by (fastforce simp: grows_def valid_shape_def)+
  then show "valid_shape c' s" by (simp add: valid_shape_def)
  show "shape_val c' s = shape_val c s"
  proof (cases "all_shapes c ! s")
    case None
    then show ?thesis using nth by (simp add: shape_val_def)
  next
    case (Some ds)
    have "Some ds \<in> set (all_shapes c)" using Some assms(3) by (metis nth_mem valid_shape_def)
    then show ?thesis using nth Some grows_dim(2) [OF assms(1)] assms(2) by (simp add: shape_val_def wf_def)
  qed
qed

lemma Rank_val: "Rank c s = rank_of (shape_val c s)" "RankKnown c s \<longleftrightarrow> shape_val c s \<noteq> None"
  by (auto simp: Rank_def RankKnown_def rank_of_def shape_val_def kUnknownRank_def split: option.splits)

lemma dims_of_val: "shape_val c s = Some vs \<Longrightarrow> map (\<lambda>d. all_dims c ! d) (dims_of c s) = vs"
  by (auto simp: shape_val_def dims_of_def)

lemma length_dims_of: "shape_val c s = Some vs \<Longrightarrow> length (dims_of c s) = length vs"
  using dims_of_val [of c s vs] by auto

lemma implements_ok: "wf c \<Longrightarrow> valid_shape c s \<Longrightarrow> implements c (ok s c) shape_meaning (Inr (shape_val c s))"
  by (simp add: implements_def ok_def shape_meaning_def)

lemma implements_dim: "wf c \<Longrightarrow> valid_dim c d \<Longrightarrow> implements c (ok d c) dim_meaning (Inr (all_dims c ! d))"
  by (simp add: implements_def ok_def dim_meaning_def)

lemma implements_invalid: "wf c \<Longrightarrow> implements c (invalid c) m (Inl (Error INVALID_ARGUMENT))"
  by (simp add: implements_def invalid_def)

lemma wf_MakeShape: "wf c \<Longrightarrow> \<forall>d\<in>set dims. valid_dim c d \<Longrightarrow> wf (snd (MakeShape dims c))"
  by (auto simp: wf_def MakeShape_def valid_dim_def)

lemma implements_MakeShape:
  assumes "wf c" "\<forall>d\<in>set dims. valid_dim c d"
  shows "implements c (MakeShape dims c) shape_meaning (Inr (Some (map (\<lambda>d. all_dims c ! d) dims)))"
  using wf_MakeShape [OF assms]
  by (simp add: implements_def MakeShape_def shape_meaning_def valid_shape_def shape_val_def grows_def nth_append)

lemma implements_UnknownShape: "wf c \<Longrightarrow> implements c (UnknownShape c) shape_meaning (Inr None)"
  by (simp add: implements_def UnknownShape_def shape_meaning_def valid_shape_def shape_val_def grows_def
      wf_def valid_dim_def nth_append)

lemma implements_Constant: "wf c \<Longrightarrow> dim_size_ok v \<Longrightarrow> implements c (MakeDim (Constant v) c) dim_meaning (Inr v)"
  by (auto simp: implements_def dim_meaning_def valid_dim_def grows_def wf_def nth_append intro!: less_SucI)

lemma implements_MakeDim:
  assumes "wf c" "case d of Dim_handle h \<Rightarrow> valid_dim c h | Constant v \<Rightarrow> dim_size_ok v"
  shows "implements c (MakeDim d c) dim_meaning (Inr (Value c d))"
proof (cases d)
  case (Dim_handle h)
  have "MakeDim (Dim_handle h) = ok h" by (rule ext) (simp add: ok_def)
  then show ?thesis using implements_dim [OF assms(1), of h] assms(2) Dim_handle by simp
qed (use implements_Constant assms in auto)

lemma implements_UnknownDim: "wf c \<Longrightarrow> implements c (UnknownDim c) dim_meaning (Inr (- 1))"
  unfolding UnknownDim_def kUnknownDim_def by (rule implements_Constant) (auto simp: dim_size_ok_def)

lemma MakeDims_Constants:
  assumes "wf c" "\<forall>v\<in>set vs. dim_size_ok v"
  shows "\<exists>hs c'. MakeDims (map Constant vs) c = (Inr hs, c') \<and> wf c' \<and> grows c c' \<and>
    (\<forall>h\<in>set hs. valid_dim c' h) \<and> map (\<lambda>d. all_dims c' ! d) hs = vs"
  using assms
proof (induction vs arbitrary: c)
  case Nil
  then show ?case by (simp add: ok_def)
next
  case (Cons v vs)
  obtain h c1 where h: "MakeDim (Constant v) c = (Inr h, c1)" by simp
  then have 1: "wf c1" "grows c c1" "valid_dim c1 h" "all_dims c1 ! h = v"
    using implements_Constant [OF Cons.prems(1), of v] Cons.prems(2)
    by (auto simp: implements_def dim_meaning_def split: if_splits)
  obtain hs c2 where 2: "MakeDims (map Constant vs) c1 = (Inr hs, c2)" "wf c2" "grows c1 c2"
      "\<forall>h\<in>set hs. valid_dim c2 h" "map (\<lambda>d. all_dims c2 ! d) hs = vs"
    using Cons.IH [OF 1(1)] Cons.prems(2) by auto
  have "MakeDims (map Constant (v # vs)) c = (Inr (h # hs), c2)"
    using h 2(1) by (simp add: bind_op_def ok_def)
  then show ?case using 2 1 grows_trans grows_dim [OF 2(3) 1(3)] by auto
qed

lemma implements_new_shape:
  assumes "wf c" "\<forall>v\<in>set vs. dim_size_ok v"
  shows "implements c (bind_op (MakeDims (map Constant vs)) MakeShape c) shape_meaning (Inr (Some vs))"
proof -
  obtain hs c' where hs: "MakeDims (map Constant vs) c = (Inr hs, c')" "wf c'" "grows c c'"
      "\<forall>h\<in>set hs. valid_dim c' h" "map (\<lambda>d. all_dims c' ! d) hs = vs"
    using MakeDims_Constants [OF assms] by blast
  have "implements c' (MakeShape hs c') shape_meaning (Inr (Some vs))"
    using implements_MakeShape [OF hs(2,4)] hs(5) by simp
  then show ?thesis using hs(1,3)
    by (auto simp: implements_def bind_op_def MakeShape_def intro: grows_trans)
qed

lemma implements_UnknownShapeOfRank:
  "wf c \<Longrightarrow> implements c (UnknownShapeOfRank r c) shape_meaning
    (if r < 0 then Inl Length_error else Inr (Some (replicate (nat r) (- 1))))"
  using implements_new_shape [of c "replicate (nat r) (- 1)"]
  by (simp add: UnknownShapeOfRank_def kUnknownDim_def dim_size_ok_def) (simp add: implements_def length_error_def)

section \<open>The operations on shapes\<close>

lemma WithRank_implements:
  assumes "wf c" "valid_shape c s"
  shows "implements c (WithRank s r c) shape_meaning (with_rank_spec r (shape_val c s))"
  using implements_ok [OF assms] implements_UnknownShapeOfRank [OF assms(1)] implements_invalid [OF assms(1)]
  by (auto simp: WithRank_def with_rank_spec_def Let_def Rank_val kUnknownRank_def rank_of_def 
      split: if_splits option.splits)

lemma WithRankAtLeast_implements:
  assumes "wf c" "valid_shape c s"
  shows "implements c (WithRankAtLeast s r c) shape_meaning (at_least_spec r (shape_val c s))"
  using implements_ok [OF assms] implements_UnknownShape [OF assms(1)] implements_invalid [OF assms(1)]
  by (cases "shape_val c s") (auto simp: WithRankAtLeast_def at_least_spec_def Let_def Rank_val kUnknownRank_def
      rank_of_def)

lemma WithRankAtMost_implements:
  assumes "wf c" "valid_shape c s"
  shows "implements c (WithRankAtMost s r c) shape_meaning (at_most_spec r (shape_val c s))"
  using implements_ok [OF assms] implements_UnknownShape [OF assms(1)] implements_invalid [OF assms(1)]
  by (cases "shape_val c s") (auto simp: WithRankAtMost_def at_most_spec_def Let_def Rank_val kUnknownRank_def
      rank_of_def)

lemma WithValue_implements:
  assumes "wf c" "valid_dim c d" "dim_size_ok v"
  shows "implements c (WithValue d v c) dim_meaning
    (if all_dims c ! d = v then Inr v else if all_dims c ! d = - 1 then Inr v else Inl (Error INVALID_ARGUMENT))"
  using implements_dim [OF assms(1,2)] implements_Constant [OF assms(1,3)] implements_invalid [OF assms(1)]
  by (auto simp: WithValue_def Let_def kUnknownDim_def)

text \<open>Merging dimensions changes nothing in the context.\<close>

lemma Merge_dims_spec:
  assumes "valid_dim c d0" "valid_dim c d1"
  shows "(\<exists>e. Merge_dims d0 d1 c = (Inl e, c) \<and> merge_dim_spec (all_dims c ! d0) (all_dims c ! d1) = Inl e) \<or>
    (\<exists>d. Merge_dims d0 d1 c = (Inr d, c) \<and> valid_dim c d \<and>
      merge_dim_spec (all_dims c ! d0) (all_dims c ! d1) = Inr (all_dims c ! d))"
  using assms by (simp add: Merge_dims_def merge_dim_spec_def ok_def invalid_def ValueKnown_def kUnknownDim_def)

lemma merge_lists_spec:
  assumes "\<forall>d\<in>set ds0. valid_dim c d" "\<forall>d\<in>set ds1. valid_dim c d"
  shows "(\<exists>e. merge_lists ds0 ds1 c = (Inl e, c) \<and>
      merge_dims_spec (map (\<lambda>d. all_dims c ! d) ds0) (map (\<lambda>d. all_dims c ! d) ds1) = Inl e) \<or>
    (\<exists>ds. merge_lists ds0 ds1 c = (Inr ds, c) \<and> (\<forall>d\<in>set ds. valid_dim c d) \<and>
      merge_dims_spec (map (\<lambda>d. all_dims c ! d) ds0) (map (\<lambda>d. all_dims c ! d) ds1) = Inr (map (\<lambda>d. all_dims c ! d) ds))"
  using assms
proof (induction ds0 ds1 rule: merge_lists.induct)
  case (1 d0 ds0 d1 ds1)
  have v: "valid_dim c d0" "valid_dim c d1" using 1(2,3) by auto
  from Merge_dims_spec [OF v] show ?case
  proof (elim disjE exE conjE)
    fix d assume d: "Merge_dims d0 d1 c = (Inr d, c)" "valid_dim c d"
      "merge_dim_spec (all_dims c ! d0) (all_dims c ! d1) = Inr (all_dims c ! d)"
    with 1 show ?thesis by (auto simp: bind_op_def ok_def)
  qed (auto simp: bind_op_def)
qed (auto simp: ok_def)

lemma merge_check_spec:
  fixes c :: ctx
  assumes "length ds0 = length ds1"
  defines "spec \<equiv> merge_dims_spec (map (\<lambda>d. all_dims c ! d) ds0) (map (\<lambda>d. all_dims c ! d) ds1)"
  shows "case merge_check c ds0 ds1 r0 r1 of
      None \<Rightarrow> spec = Inl (Error INVALID_ARGUMENT)
    | Some (a, b) \<Rightarrow> \<exists>us. spec = Inr us \<and> (a \<longrightarrow> r0 \<and> us = map (\<lambda>d. all_dims c ! d) ds0) \<and>
        (b \<longrightarrow> r1 \<and> us = map (\<lambda>d. all_dims c ! d) ds1)"
  using assms(1) unfolding spec_def
proof (induction ds0 ds1 arbitrary: r0 r1 rule: list_induct2)
  case (Cons d0 ds0 d1 ds1)
  let ?m = "merge_check c ds0 ds1"
  show ?case using Cons.IH [of r0 r1] Cons.IH [of False r1] Cons.IH [of r0 False]
    by (auto simp: merge_dim_spec_def kUnknownDim_def Let_def split: option.splits prod.splits)
qed simp

lemma Merge_shapes_implements:
  assumes "wf c" "valid_shape c s0" "valid_shape c s1"
  shows "implements c (Merge_shapes s0 s1 c) shape_meaning (merge_spec (shape_val c s0) (shape_val c s1))"
proof -
  have same: "merge_dims_spec vs vs = Inr vs" for vs by (induction vs) (auto simp: merge_dim_spec_def)
  note I = implements_ok [OF assms(1,2)] implements_ok [OF assms(1,3)] implements_invalid [OF assms(1)]
  show ?thesis
  proof (cases "shape_val c s0"; cases "shape_val c s1")
    fix vs ws assume v: "shape_val c s0 = Some vs" "shape_val c s1 = Some ws"
    note len = length_dims_of [OF v(1)] length_dims_of [OF v(2)]
    show ?thesis
    proof (cases "s0 = s1 \<or> length vs \<noteq> length ws")
      case True
      then show ?thesis using I v same
        by (auto simp: Merge_shapes_def Rank_val rank_of_def)
    next
      case False
      then have ne: "s0 \<noteq> s1" "length vs = length ws" by auto
      have d: "map (\<lambda>d. all_dims c ! d) (dims_of c s0) = vs" "map (\<lambda>d. all_dims c ! d) (dims_of c s1) = ws"
        using dims_of_val v by auto
      have vd: "\<forall>d\<in>set (dims_of c s0). valid_dim c d" "\<forall>d\<in>set (dims_of c s1). valid_dim c d"
        using wf_dims_of assms by blast+
      note chk = merge_check_spec [of "dims_of c s0" "dims_of c s1" c True True, unfolded d]
      note lists = merge_lists_spec [OF vd, unfolded d]
      show ?thesis
      proof (cases "merge_check c (dims_of c s0) (dims_of c s1) True True")
        case None
        then show ?thesis using ne v len chk I(3) by (simp add: Merge_shapes_def  Rank_val rank_of_def)
      next
        case (Some ab)
        obtain a b where ab: "ab = (a, b)" by (cases ab)
        obtain us where us: "merge_dims_spec vs ws = Inr us" "a \<longrightarrow> us = vs" "b \<longrightarrow> us = ws"
          using chk Some ab len ne by auto
        show ?thesis
        proof (cases "a \<or> b")
          case True
          then show ?thesis using ne v len us Some ab I(1,2)
            by (auto simp: Merge_shapes_def Rank_val rank_of_def split: if_splits)
        next
          case F: False
          obtain ds where ds: "merge_lists (dims_of c s0) (dims_of c s1) c = (Inr ds, c)" "\<forall>d\<in>set ds. valid_dim c d"
              "us = map (\<lambda>d. all_dims c ! d) ds"
            using lists us(1) by auto
          have "Merge_shapes s0 s1 c = MakeShape ds c"
            using ne v len F Some ab ds(1) by (simp add: Merge_shapes_def Rank_val rank_of_def bind_op_def)
          then show ?thesis using implements_MakeShape [OF assms(1) ds(2)] us(1) ds(3) v ne(2) by simp
        qed
      qed
    qed
  qed (use I in \<open>auto simp: Merge_shapes_def Rank_val\<close>)
qed

definition pair_meaning :: "ctx \<Rightarrow> shape_handle \<times> shape_handle \<Rightarrow> (pshape \<times> pshape) option" where
  "pair_meaning c sp = (if valid_shape c (fst sp) \<and> valid_shape c (snd sp)
     then Some (shape_val c (fst sp), shape_val c (snd sp)) else None)"

lemma MergePrefix_known:
  assumes "shape_val c s = Some vs" "shape_val c p = Some ws"
  shows "MergePrefix s p c =
    (if length vs < length ws then invalid c
     else bind_op (merge_lists (take (length ws) (dims_of c s)) (dims_of c p)) (\<lambda>dims.
       bind_op (MakeShape dims) (\<lambda>p'.
       bind_op (MakeShape (dims @ drop (length ws) (dims_of c s))) (\<lambda>s'. ok (s', p')))) c)"
proof -
  have r: "Rank c s = int (length vs)" "Rank c p = int (length ws)" "RankKnown c s" "RankKnown c p"
    using assms by (simp_all add: Rank_val rank_of_def)
  have "WithRankAtLeast s (int (length ws)) c = (if length vs < length ws then invalid c else ok s c)"
    by (simp add: WithRankAtLeast_def r kUnknownRank_def)
  then show ?thesis
    unfolding MergePrefix_def Let_def r nat_int bind_op_def [of "WithRankAtLeast _ _"]
    using r(3,4) by (simp add: ok_def invalid_def)
qed

lemma two_shapes:
  assumes "wf c" "\<forall>d\<in>set ds. valid_dim c d" "\<forall>d\<in>set es. valid_dim c d"
  shows "implements c (bind_op (MakeShape ds) (\<lambda>p. bind_op (MakeShape es) (\<lambda>s. ok (s, p))) c) pair_meaning
    (Inr (Some (map (\<lambda>d. all_dims c ! d) es), Some (map (\<lambda>d. all_dims c ! d) ds)))"
proof -
  let ?c1 = "snd (MakeShape ds c)"
  have w1: "wf ?c1" by (rule wf_MakeShape [OF assms(1,2)])
  have "\<forall>d\<in>set es. valid_dim ?c1 d" using assms(3) by (simp add: MakeShape_def valid_dim_def)
  then have "wf (snd (MakeShape es ?c1))" by (rule wf_MakeShape [OF w1])
  then show ?thesis
    by (simp add: implements_def bind_op_def MakeShape_def ok_def pair_meaning_def valid_shape_def shape_val_def
        grows_def nth_append)
qed

lemma MergePrefix_implements:
  assumes "wf c" "valid_shape c s" "valid_shape c p"
  shows "implements c (MergePrefix s p c) pair_meaning (merge_prefix_spec (shape_val c s) (shape_val c p))"
proof (cases "shape_val c s"; cases "shape_val c p")
  fix vs ws assume v: "shape_val c s = Some vs" "shape_val c p = Some ws"
  have vd: "\<forall>d\<in>set (take (length ws) (dims_of c s)). valid_dim c d" "\<forall>d\<in>set (dims_of c p). valid_dim c d"
    "\<forall>d\<in>set (drop (length ws) (dims_of c s)). valid_dim c d"
    using wf_dims_of assms by (auto dest: in_set_takeD in_set_dropD)
  have m: "map (\<lambda>d. all_dims c ! d) (take (length ws) (dims_of c s)) = take (length ws) vs"
    "map (\<lambda>d. all_dims c ! d) (drop (length ws) (dims_of c s)) = drop (length ws) vs"
    "map (\<lambda>d. all_dims c ! d) (dims_of c p) = ws"
    using dims_of_val v by (simp_all flip: take_map drop_map)
  from merge_lists_spec [OF vd(1,2), unfolded m] show ?thesis
  proof (elim disjE exE conjE)
    fix e assume "merge_lists (take (length ws) (dims_of c s)) (dims_of c p) c = (Inl e, c)"
      "merge_dims_spec (take (length ws) vs) ws = Inl e"
    then show ?thesis using v assms(1) implements_invalid [OF assms(1)]
      by (auto simp: MergePrefix_known bind_op_def) (simp add: implements_def)
  next
    fix ds assume "merge_lists (take (length ws) (dims_of c s)) (dims_of c p) c = (Inr ds, c)"
      "\<forall>d\<in>set ds. valid_dim c d" "merge_dims_spec (take (length ws) vs) ws = Inr (map (\<lambda>d. all_dims c ! d) ds)"
    then show ?thesis
      using v implements_invalid [OF assms(1)] two_shapes [OF assms(1), of ds "ds @ drop (length ws) (dims_of c s)"] vd(3) m(2)
      by (auto simp: MergePrefix_known bind_op_def [of "merge_lists _ _"])
  qed
qed (use assms in \<open>auto simp: MergePrefix_def Rank_val implements_def ok_def pair_meaning_def\<close>)

lemma Subshape_implements:
  assumes "wf c" "valid_shape c s" "shape_val c s = None \<or> rank_of (shape_val c s) < 2 ^ 31"
  shows "implements c (Subshape s start stop c) shape_meaning (subshape_spec start stop (shape_val c s))"
proof (cases "shape_val c s")
  case None
  then show ?thesis
    using implements_ok [OF assms(1,2)] implements_UnknownShape [OF assms(1)]
    by (auto simp: Subshape_def subshape_spec_def Let_def Rank_val)
next
  case (Some vs)
  have vd: "\<forall>d\<in>set (take k (drop i (dims_of c s))). valid_dim c d" for k i
    using wf_dims_of [OF assms(1,2)] by (auto dest: in_set_takeD in_set_dropD)
  have val: "map (\<lambda>d. all_dims c ! d) (take k (drop i (dims_of c s))) = take k (drop i vs)" for k i
    using dims_of_val [OF Some] by (simp flip: take_map drop_map)
  have mk: "implements c (MakeShape (take k (drop i (dims_of c s))) c) shape_meaning (Inr (Some (take k (drop i vs))))" for k i
    using implements_MakeShape [OF assms(1) vd] val by simp
  have ok: "implements c (ok s c) shape_meaning (Inr (Some vs))" using implements_ok [OF assms(1,2)] Some by simp
  have max: "stop = int64_max \<Longrightarrow> int (length vs) \<le> stop"
    using assms(3) Some by (simp add: rank_of_def int64_max_def)
  let ?i = "clip (int (length vs)) start" and ?j = "clip (int (length vs)) stop"
  show ?thesis
  proof (cases "start = 0 \<and> int (length vs) \<le> stop")
    case True
    then show ?thesis using ok Some by (simp add: Subshape_def subshape_spec_def Rank_val rank_of_def clip_def Let_def)
  next
    case False
    then have "\<not> (start = 0 \<and> (int (length vs) \<le> stop \<or> stop = int64_max))" using max by blast
    then have eq: "Subshape s start stop c =
        (if 0 \<le> ?i \<and> ?i \<le> ?j then MakeShape (take (nat (?j - ?i)) (drop (nat ?i) (dims_of c s))) c else invalid c)"
      using Some unfolding Subshape_def Rank_val clip_def Let_def
      by (simp add: rank_of_def min_def del: take_all drop_all) auto
    show ?thesis
    proof (cases "0 \<le> ?i \<and> ?i \<le> ?j")
      case True
      then show ?thesis unfolding eq subshape_spec_def Some using mk by (simp only: Let_def option.case if_True simp_thms)
    next
      case False
      then show ?thesis unfolding eq subshape_spec_def Some using implements_invalid [OF assms(1)]
        by (simp only: Let_def option.case if_False)
    qed
  qed
qed

lemma Concatenate_implements:
  assumes "wf c" "valid_shape c s1" "valid_shape c s2"
  shows "implements c (Concatenate s1 s2 c) shape_meaning (Inr (concat_spec (shape_val c s1) (shape_val c s2)))"
proof (cases "shape_val c s1"; cases "shape_val c s2")
  fix vs ws assume v: "shape_val c s1 = Some vs" "shape_val c s2 = Some ws"
  have "\<forall>d\<in>set (dims_of c s1 @ dims_of c s2). valid_dim c d" using wf_dims_of assms by auto
  from implements_MakeShape [OF assms(1) this] show ?thesis
    using v dims_of_val [OF v(1)] dims_of_val [OF v(2)] by (simp add: Concatenate_def Rank_val)
qed (use implements_UnknownShape [OF assms(1)] in \<open>auto simp: Concatenate_def Rank_val\<close>)

lemma ReplaceDim_implements:
  assumes "wf c" "valid_shape c s" "valid_dim c d"
  shows "implements c (ReplaceDim s i d c) shape_meaning (replace_spec i (all_dims c ! d) (shape_val c s))"
proof (cases "shape_val c s")
  case None
  then show ?thesis using implements_UnknownShape [OF assms(1)] by (simp add: ReplaceDim_def replace_spec_def Rank_val)
next
  case (Some vs)
  have "\<forall>e\<in>set ((dims_of c s)[k := d]). valid_dim c e" for k
    using wf_dims_of [OF assms(1,2)] assms(3) set_update_subset_insert [of "dims_of c s" k d] by blast
  from implements_MakeShape [OF assms(1) this] show ?thesis
    using Some dims_of_val [OF Some] length_dims_of [OF Some] implements_invalid [OF assms(1)]
    by (auto simp: ReplaceDim_def replace_spec_def Rank_val Let_def map_update)
qed

section \<open>What a partial shape stands for\<close>

definition fits :: "int \<Rightarrow> nat \<Rightarrow> bool" where
  "fits v x \<longleftrightarrow> v = - 1 \<or> v = int x"

definition shapes_of :: "pshape \<Rightarrow> nat list set" where
  "shapes_of p = (case p of None \<Rightarrow> UNIV | Some vs \<Rightarrow> {xs. list_all2 fits vs xs})"

lemma merge_dim_fits:
  "(case merge_dim_spec v w of Inl e \<Rightarrow> False | Inr u \<Rightarrow> fits u x) \<longleftrightarrow> fits v x \<and> fits w x"
  by (auto simp: merge_dim_spec_def fits_def)

lemma merge_dims_fits:
  "length vs = length ws \<Longrightarrow>
    (case merge_dims_spec vs ws of Inl e \<Rightarrow> False | Inr us \<Rightarrow> list_all2 fits us xs) \<longleftrightarrow>
      list_all2 fits vs xs \<and> list_all2 fits ws xs"
proof (induction vs ws arbitrary: xs rule: list_induct2)
  case (Cons v vs w ws)
  note IH = Cons.IH
  show ?case
  proof (cases xs)
    case Nil
    then show ?thesis by (auto split: sum.splits) (auto simp: bind_outcome_Inr_iff)
  next
    case (Cons x xs')
    then show ?thesis
      using merge_dim_fits [where v = v and w = w and x = x] IH [of xs']
      by (cases "merge_dim_spec v w"; cases "merge_dims_spec vs ws") auto
  qed
qed simp

lemma merge_shapes_of:
  "(case merge_spec p q of Inl e \<Rightarrow> {} | Inr r \<Rightarrow> shapes_of r) = shapes_of p \<inter> shapes_of q"
proof (induction p q rule: merge_spec.induct)
  case (3 vs ws)
  show ?case
  proof (cases "length vs = length ws")
    case True
    then show ?thesis using merge_dims_fits [OF True]
      by (cases "merge_dims_spec vs ws") (auto simp: shapes_of_def)
  next
    case False
    then show ?thesis by (auto simp: shapes_of_def dest!: list_all2_lengthD)
  qed
qed (auto simp: shapes_of_def)

lemma list_all2_unknown: "list_all2 fits (replicate n (- 1)) xs \<longleftrightarrow> length xs = n"
  by (induction n arbitrary: xs) (auto simp: list_all2_Cons1 length_Suc_conv fits_def)

lemma with_rank_shapes_of:
  "0 \<le> r \<Longrightarrow> (case with_rank_spec r p of Inl e \<Rightarrow> {} | Inr q \<Rightarrow> shapes_of q) = {xs \<in> shapes_of p. int (length xs) = r}"
  by (cases p) (auto simp: with_rank_spec_def rank_of_def shapes_of_def list_all2_unknown dest: list_all2_lengthD)

section \<open>Arithmetic\<close>

lemma dim_size_okD: "wf c \<Longrightarrow> valid_dim c d \<Longrightarrow> dim_size_ok (all_dims c ! d)"
  by (auto simp: wf_def valid_dim_def)

definition valid_operand :: "ctx \<Rightarrow> dimension_or_constant \<Rightarrow> bool" where
  "valid_operand c d \<longleftrightarrow> (case d of Dim_handle h \<Rightarrow> valid_dim c h | Constant v \<Rightarrow> dim_size_ok v)"

lemma valid_operandD: "wf c \<Longrightarrow> valid_operand c d \<Longrightarrow> dim_size_ok (Value c d)"
  by (cases d) (auto simp: valid_operand_def dim_size_okD)

lemma wrap64_sum:
  assumes "0 \<le> v" "v < 2 ^ 63" "0 \<le> w" "w < 2 ^ 63"
  shows "wrap64 (v + w) < 0 \<longleftrightarrow> 2 ^ 63 \<le> v + w"
proof (cases "v + w < 2 ^ 63")
  case True
  then show ?thesis using assms wrap64_id [of "v + w"] by simp
next
  case False
  have "(v + w + 2 ^ 63) mod 2 ^ 64 = (v + w + 2 ^ 63 - 2 ^ 64) mod 2 ^ 64" by (rule minus_mod_self2 [symmetric])
  also have "\<dots> = v + w + 2 ^ 63 - 2 ^ 64" using assms False by (intro mod_pos_pos_trivial) auto
  finally show ?thesis using assms False by (simp add: wrap64_mod)
qed

text \<open>
  An arithmetic operation is sound for a partial function on sizes when its result
  stands for the exact value, and it fails only when there is none.
\<close>

definition sound_dim :: "dim_handle op \<Rightarrow> ctx \<Rightarrow> int \<Rightarrow> int \<Rightarrow> (nat \<Rightarrow> nat \<Rightarrow> nat option) \<Rightarrow> bool" where
  "sound_dim m c v w f \<longleftrightarrow> (case m c of (r, c') \<Rightarrow> wf c' \<and> grows c c' \<and>
     (case r of
        Inl e \<Rightarrow> e = Error INVALID_ARGUMENT \<and> (\<forall>x y. fits v x \<longrightarrow> fits w y \<longrightarrow> f x y = None)
      | Inr d \<Rightarrow> valid_dim c' d \<and>
          (\<forall>x y z. fits v x \<longrightarrow> fits w y \<longrightarrow> f x y = Some z \<longrightarrow> fits (all_dims c' ! d) z)))"

lemma sound_dimI:
  assumes "implements c (m c) dim_meaning spec"
    and "\<And>u. spec = Inr u \<Longrightarrow> \<forall>x y z. fits v x \<longrightarrow> fits w y \<longrightarrow> f x y = Some z \<longrightarrow> fits u z"
    and "\<And>e. spec = Inl e \<Longrightarrow> e = Error INVALID_ARGUMENT \<and> (\<forall>x y. fits v x \<longrightarrow> fits w y \<longrightarrow> f x y = None)"
  shows "sound_dim m c v w f"
proof -
  obtain r c' where mc: "m c = (r, c')" by (cases "m c")
  show ?thesis
  proof (cases spec)
    case (Inl e)
    then have "r = Inl e" "wf c'" "grows c c'"
      using assms(1) mc by (auto simp: implements_def split: sum.splits)
    then show ?thesis using assms(3) [OF Inl] mc by (simp add: sound_dim_def)
  next
    case (Inr u)
    then obtain d where "r = Inr d" "wf c'" "grows c c'" "valid_dim c' d" "all_dims c' ! d = u"
      using assms(1) mc by (auto simp: implements_def dim_meaning_def split: sum.splits if_splits)
    then show ?thesis using assms(2) [OF Inr] mc by (simp add: sound_dim_def)
  qed
qed

definition bounded64 :: "nat \<Rightarrow> nat option" where
  "bounded64 n = (if n < 2 ^ 63 then Some n else None)"

lemma operands:
  assumes "wf c" "valid_dim c d" "valid_operand c e"
  shows "- 1 \<le> all_dims c ! d" "all_dims c ! d < 2 ^ 63" "- 1 \<le> Value c e" "Value c e < 2 ^ 63"
    and "implements c (MakeDim e c) dim_meaning (Inr (Value c e))"
    and "implements c (MakeDim (Dim_handle d) c) dim_meaning (Inr (all_dims c ! d))"
    and "implements c (ok d c) dim_meaning (Inr (all_dims c ! d))"
    and "implements c (UnknownDim c) dim_meaning (Inr (- 1))"
    and "implements c (invalid c) dim_meaning (Inl (Error INVALID_ARGUMENT))"
    and "0 \<le> v \<Longrightarrow> v < 2 ^ 63 \<Longrightarrow> implements c (MakeDim (Constant v) c) dim_meaning (Inr v)"
  using dim_size_okD [OF assms(1,2)] valid_operandD [OF assms(1,3)] implements_MakeDim [OF assms(1), of e] assms
    implements_dim [OF assms(1,2)] implements_UnknownDim implements_invalid implements_Constant [OF assms(1), of v]
    implements_MakeDim [OF assms(1), of "Dim_handle d"]
  by (auto simp: valid_operand_def dim_size_ok_def)

lemma wrap64_product: "x * y < 2 ^ 63 \<Longrightarrow> wrap64 (int x * int y) = int x * int y"
  using wrap64_id [of "int (x * y)"] by (simp del: of_nat_mult add: of_nat_mult [symmetric])

lemma Add_sound:
  assumes "wf c" "valid_dim c d" "valid_operand c e"
  shows "sound_dim (Add_dims d e) c (all_dims c ! d) (Value c e) (\<lambda>x y. bounded64 (x + y))"
proof -
  define v w where "v = all_dims c ! d" and "w = Value c e"
  note O = operands [OF assms, folded v_def w_def]
  let ?spec = "if v = 0 then Inr w else if w = 0 then Inr v else if v = - 1 \<or> w = - 1 then Inr (- 1)
    else if 2 ^ 63 \<le> v + w then Inl (Error INVALID_ARGUMENT) else Inr (v + w)"
  have "implements c (Add_dims d e c) dim_meaning ?spec"
    using O wrap64_sum [of v w] wrap64_id [of "v + w"]
    by (auto simp: Add_dims_def Let_def kUnknownDim_def v_def [symmetric] w_def [symmetric])
  then show ?thesis unfolding v_def [symmetric] w_def [symmetric]
    by (rule sound_dimI) (use O in \<open>auto simp: fits_def bounded64_def split: if_splits\<close>)
qed

lemma Subtract_sound:
  assumes "wf c" "valid_dim c d" "valid_operand c e"
  shows "sound_dim (Subtract d e) c (all_dims c ! d) (Value c e) (\<lambda>x y. if y \<le> x then Some (x - y) else None)"
proof -
  define v w where "v = all_dims c ! d" and "w = Value c e"
  note O = operands [OF assms, folded v_def w_def]
  let ?spec = "if w = 0 then Inr v else if v = - 1 \<or> w = - 1 then Inr (- 1)
    else if v < w then Inl (Error INVALID_ARGUMENT) else Inr (v - w)"
  have "implements c (Subtract d e c) dim_meaning ?spec"
    using O
    by (auto simp: Subtract_def Let_def kUnknownDim_def v_def [symmetric] w_def [symmetric])
  then show ?thesis unfolding v_def [symmetric] w_def [symmetric]
    by (rule sound_dimI) (use O in \<open>auto simp: fits_def bounded64_def of_nat_diff split: if_splits\<close>)
qed

lemma Multiply_sound:
  assumes "wf c" "valid_dim c d" "valid_operand c e"
  shows "sound_dim (Multiply d e) c (all_dims c ! d) (Value c e) (\<lambda>x y. bounded64 (x * y))"
proof -
  define v w where "v = all_dims c ! d" and "w = Value c e"
  note O = operands [OF assms, folded v_def w_def]
  let ?spec = "if v = 0 then Inr v else if w = 0 then Inr w else if v = 1 then Inr w else if w = 1 then Inr v
    else if v = - 1 \<or> w = - 1 then Inr (- 1)
    else if wrap64 (v * w) < 0 then Inl (Error INVALID_ARGUMENT) else Inr (wrap64 (v * w))"
  have "implements c (Multiply d e c) dim_meaning ?spec"
    using O wrap64_bound
    by (auto simp: Multiply_def Let_def kUnknownDim_def v_def [symmetric] w_def [symmetric])
  then show ?thesis unfolding v_def [symmetric] w_def [symmetric]
    by (rule sound_dimI) (use O in \<open>auto simp: fits_def bounded64_def wrap64_product mult_less_0_iff split: if_splits\<close>)
qed

lemma Min_sound:
  assumes "wf c" "valid_dim c d" "valid_operand c e"
  shows "sound_dim (Min_dims d e) c (all_dims c ! d) (Value c e) (\<lambda>x y. Some (min x y))"
proof -
  define v w where "v = all_dims c ! d" and "w = Value c e"
  note O = operands [OF assms, folded v_def w_def]
  let ?spec = "if v = 0 then Inr v else if w = 0 then Inr w else if v = - 1 \<or> w = - 1 then Inr (- 1)
    else if v \<le> w then Inr v else Inr w"
  have "implements c (Min_dims d e c) dim_meaning ?spec"
    using O by (cases "v = 0"; cases "w = 0"; cases "v \<le> w")
      (simp_all add: Min_dims_def Let_def kUnknownDim_def v_def [symmetric] w_def [symmetric])
  then show ?thesis unfolding v_def [symmetric] w_def [symmetric]
    by (rule sound_dimI) (use O in \<open>auto simp: fits_def bounded64_def split: if_splits\<close>)
qed

lemma Max_sound:
  assumes "wf c" "valid_dim c d" "valid_operand c e"
  shows "sound_dim (Max_dims d e) c (all_dims c ! d) (Value c e) (\<lambda>x y. Some (max x y))"
proof -
  define v w where "v = all_dims c ! d" and "w = Value c e"
  note O = operands [OF assms, folded v_def w_def]
  let ?spec = "if v = - 1 \<or> w = - 1 then Inr (- 1) else if w \<le> v then Inr v else Inr w"
  have "implements c (Max_dims d e c) dim_meaning ?spec"
    using O
    by (auto simp: Max_dims_def Let_def kUnknownDim_def v_def [symmetric] w_def [symmetric])
  then show ?thesis unfolding v_def [symmetric] w_def [symmetric]
    by (rule sound_dimI) (use O in \<open>auto simp: fits_def bounded64_def split: if_splits\<close>)
qed

lemma Divide_sound:
  assumes "wf c" "valid_dim c d"
  shows "sound_dim (Divide d k evenly) c (all_dims c ! d) 0
    (\<lambda>x _. if 0 < k \<and> (evenly \<longrightarrow> k dvd int x) then Some (x div nat k) else None)"
proof -
  define v where "v = all_dims c ! d"
  have "valid_operand c (Constant 0)" by (simp add: valid_operand_def dim_size_ok_def)
  note O = operands [OF assms this, folded v_def]
  let ?spec = "if k = 1 then Inr v else if v = - 1 then Inr (- 1) else if k \<le> 0 \<or> evenly \<and> v mod k \<noteq> 0
    then Inl (Error INVALID_ARGUMENT) else Inr (v div k)"
  have "0 \<le> v div k \<and> v div k < 2 ^ 63" if "0 \<le> v" "0 < k"
  proof -
    have "v div k \<le> v" using that zdiv_mono2 [of v 1 k] by simp
    then show ?thesis using that O(2) by (simp add: pos_imp_zdiv_nonneg_iff)
  qed
  moreover have "v = - 1 \<or> 0 \<le> v" using O(1) by linarith
  ultimately have "implements c (Divide d k evenly c) dim_meaning ?spec"
    using O by (auto simp: Divide_def Let_def kUnknownDim_def ValueKnown_def v_def [symmetric])
  then show ?thesis unfolding v_def [symmetric]
    by (rule sound_dimI) (use O in \<open>auto simp: fits_def zdiv_int dvd_eq_mod_eq_0 split: if_splits\<close>)
qed

section \<open>Outputs by name\<close>

lemma assign_outputs_ok:
  "i + k \<le> length shapes \<Longrightarrow> i + start + k \<le> length outs \<Longrightarrow>
    assign_outputs i k start shapes outs =
      Some (take (i + start) outs @ map Some (take k (drop i shapes)) @ drop (i + start + k) outs)"
proof (induction k arbitrary: i outs)
  case (Suc k)
  have "drop i shapes = shapes ! i # drop (Suc i) shapes" using Suc.prems by (simp add: Cons_nth_drop_Suc)
  moreover have "take (Suc (i + start)) (outs[i + start := x]) = take (i + start) outs @ [x]" for x
    using Suc.prems by (simp add: take_Suc_conv_app_nth)
  ultimately show ?case using Suc by simp
qed simp

lemma assign_outputs_short:
  "i \<le> length shapes \<Longrightarrow> length shapes < i + k \<Longrightarrow> assign_outputs i k start shapes outs = None"
  by (induction k arbitrary: i outs) auto

section \<open>Properties\<close>

definition demo_ctx :: ctx where
  "demo_ctx = \<lparr>all_dims = [2, - 1, 3, 4294967296], all_shapes = [Some [0, 1], Some [1, 2], None], c_inputs = [0, 1],
     input_tensors = [None, None], requested_input_tensor = [False, False], c_outputs = [None, None],
     input_name_map = Map.empty, output_name_map = [''out'' \<mapsto> (0, 2)]\<rparr>"

lemma demo_ok: "wf demo_ctx" "valid_shape demo_ctx 0" "valid_shape demo_ctx 1" "valid_dim demo_ctx 2"
  "shape_val demo_ctx 0 = Some [2, - 1]" "shape_val demo_ctx 1 = Some [- 1, 3]"
  "valid_shape demo_ctx 2" "shape_val demo_ctx 2 = None"
  by (simp_all add: demo_ctx_def wf_def valid_shape_def valid_dim_def dim_size_ok_def shape_val_def)

text \<open>
  C24: Eight operations on handles implement operations on partial shapes: the assertions on
  the rank, merging of shapes and of a prefix, subshapes, concatenation and the replacement of
  a dimension. In a well-formed context, for shapes whose ranks are 32-bit numbers, each of them
  returns the specified status and, on success, a handle whose shape is the specified one;
  it keeps the context well-formed, and every handle that existed before keeps its
  meaning, however dimensions are shared. The assertion of a rank below -1 on a shape of unknown rank
  ends with the exception of the vector that is given a negative size.
\<close>

theorem shape_ops_refine:
  assumes "wf c" "valid_shape c s" "valid_shape c t" "valid_dim c d" "rank_of (shape_val c s) < 2 ^ 31"
    and "rank_of (shape_val c s) + rank_of (shape_val c t) < 2 ^ 31"
  shows "implements c (WithRank s r c) shape_meaning (with_rank_spec r (shape_val c s)) \<and>
    implements c (WithRankAtLeast s r c) shape_meaning (at_least_spec r (shape_val c s)) \<and>
    implements c (WithRankAtMost s r c) shape_meaning (at_most_spec r (shape_val c s)) \<and>
    implements c (Merge_shapes s t c) shape_meaning (merge_spec (shape_val c s) (shape_val c t)) \<and>
    implements c (MergePrefix s t c) pair_meaning (merge_prefix_spec (shape_val c s) (shape_val c t)) \<and>
    implements c (Subshape s i j c) shape_meaning (subshape_spec i j (shape_val c s)) \<and>
    implements c (Concatenate s t c) shape_meaning (Inr (concat_spec (shape_val c s) (shape_val c t))) \<and>
    implements c (ReplaceDim s k d c) shape_meaning (replace_spec k (all_dims c ! d) (shape_val c s))"
  using WithRank_implements WithRankAtLeast_implements WithRankAtMost_implements Merge_shapes_implements
    MergePrefix_implements Subshape_implements Concatenate_implements ReplaceDim_implements assms by simp

theorem shape_ops_refine_witness:
  "implements demo_ctx (WithRank 2 (- 2) demo_ctx) shape_meaning (Inl Length_error) \<and>
   implements demo_ctx (Merge_shapes 0 1 demo_ctx) shape_meaning (Inr (Some [2, 3])) \<and>
   implements demo_ctx (Subshape 0 (- 1) 5 demo_ctx) shape_meaning (Inr (Some [- 1]))"
  using shape_ops_refine [OF demo_ok(1-4), of 0 "- 1" 5 0] shape_ops_refine [OF demo_ok(1,7,2,4), of "- 2" 0 0 0]
  unfolding demo_ok by (simp add: rank_of_def merge_dim_spec_def subshape_spec_def clip_def Let_def with_rank_spec_def)

text \<open>
  Merging and rank assertions are exact. The concrete shapes that the merged
  shape stands for are precisely those that both arguments stand for, and an error
  is returned precisely when there are none; likewise for the shapes of a given rank.
\<close>

theorem shape_merge_exact:
  assumes "wf c" "valid_shape c s" "valid_shape c t" "0 \<le> r"
  shows "(case Merge_shapes s t c of
      (Inl e, c') \<Rightarrow> shapes_of (shape_val c s) \<inter> shapes_of (shape_val c t) = {}
    | (Inr u, c') \<Rightarrow> shapes_of (shape_val c' u) = shapes_of (shape_val c s) \<inter> shapes_of (shape_val c t)) \<and>
    (case WithRank s r c of
      (Inl e, c') \<Rightarrow> {xs \<in> shapes_of (shape_val c s). int (length xs) = r} = {}
    | (Inr u, c') \<Rightarrow> shapes_of (shape_val c' u) = {xs \<in> shapes_of (shape_val c s). int (length xs) = r})"
proof
  have *: "(case res of (Inl e, c') \<Rightarrow> A = {} | (Inr u, c') \<Rightarrow> shapes_of (shape_val c' u) = A)"
    if "implements c res shape_meaning spec" "(case spec of Inl e \<Rightarrow> {} | Inr q \<Rightarrow> shapes_of q) = A" for res spec A
  proof -
    obtain q c' where [simp]: "res = (q, c')" by (cases res)
    show ?thesis using that by (cases q; cases spec) (simp_all add: implements_def shape_meaning_def split: if_splits)
  qed
  show "case Merge_shapes s t c of
      (Inl e, c') \<Rightarrow> shapes_of (shape_val c s) \<inter> shapes_of (shape_val c t) = {}
    | (Inr u, c') \<Rightarrow> shapes_of (shape_val c' u) = shapes_of (shape_val c s) \<inter> shapes_of (shape_val c t)"
    by (rule * [OF Merge_shapes_implements [OF assms(1-3)] merge_shapes_of])
  show "case WithRank s r c of
      (Inl e, c') \<Rightarrow> {xs \<in> shapes_of (shape_val c s). int (length xs) = r} = {}
    | (Inr u, c') \<Rightarrow> shapes_of (shape_val c' u) = {xs \<in> shapes_of (shape_val c s). int (length xs) = r}"
    by (rule * [OF WithRank_implements [OF assms(1,2)] with_rank_shapes_of [OF assms(4)]])
qed

theorem shape_merge_exact_witness:
  "case Merge_shapes 0 1 demo_ctx of (Inl e, c') \<Rightarrow> False | (Inr u, c') \<Rightarrow> [2, 3] \<in> shapes_of (shape_val c' u)"
proof -
  have "[2, 3] \<in> shapes_of (Some [2, - 1]) \<inter> shapes_of (Some [- 1, 3])" by (simp add: shapes_of_def fits_def)
  moreover obtain q c' where q: "Merge_shapes 0 1 demo_ctx = (q, c')" by (cases "Merge_shapes 0 1 demo_ctx")
  moreover note shape_merge_exact [OF demo_ok(1-3), of 0, THEN conjunct1, unfolded demo_ok q]
  ultimately show ?thesis unfolding q by (cases q) auto
qed

text \<open>
  Arithmetic on dimensions is sound. Whatever sizes the operands stand for, the
  result stands for the exact sum, difference, product, quotient, minimum or maximum
  whenever it is a 64-bit size, and an error is returned only when no sizes of the
  operands have a result.
\<close>

theorem shape_dim_arithmetic:
  assumes "wf c" "valid_dim c d" "valid_operand c e"
  shows "sound_dim (Add_dims d e) c (all_dims c ! d) (Value c e) (\<lambda>x y. bounded64 (x + y)) \<and>
    sound_dim (Subtract d e) c (all_dims c ! d) (Value c e) (\<lambda>x y. if y \<le> x then Some (x - y) else None) \<and>
    sound_dim (Multiply d e) c (all_dims c ! d) (Value c e) (\<lambda>x y. bounded64 (x * y)) \<and>
    sound_dim (Min_dims d e) c (all_dims c ! d) (Value c e) (\<lambda>x y. Some (min x y)) \<and>
    sound_dim (Max_dims d e) c (all_dims c ! d) (Value c e) (\<lambda>x y. Some (max x y)) \<and>
    sound_dim (Divide d k evenly) c (all_dims c ! d) 0
      (\<lambda>x _. if 0 < k \<and> (evenly \<longrightarrow> k dvd int x) then Some (x div nat k) else None)"
  using Add_sound [OF assms] Subtract_sound [OF assms] Multiply_sound [OF assms] Min_sound [OF assms]
    Max_sound [OF assms] Divide_sound [OF assms(1,2)] by simp

theorem shape_dim_arithmetic_witness:
  "sound_dim (Add_dims 2 (Constant 4)) demo_ctx 3 4 (\<lambda>x y. bounded64 (x + y))"
  using shape_dim_arithmetic [OF demo_ok(1,4), of "Constant 4"]
  by (simp add: valid_operand_def dim_size_ok_def demo_ctx_def)

text \<open>
  The overflow check of \<open>Multiply\<close> only looks at the sign. A product of known
  sizes that does not fit into 64 bits but wraps around to a non-negative number is
  accepted, with the wrapped number as the size of the dimension.
\<close>

theorem shape_multiply_overflow:
  assumes "wf c" "valid_dim c d" "all_dims c ! d = v" "1 < v" "1 < w" "2 ^ 63 \<le> v * w" "v * w mod 2 ^ 64 < 2 ^ 63"
  shows "\<exists>h c'. Multiply d (Constant w) c = (Inr h, c') \<and> all_dims c' ! h = v * w mod 2 ^ 64 \<and> v * w mod 2 ^ 64 \<noteq> v * w"
proof -
  have "(v * w + 2 ^ 63) mod 2 ^ 64 = v * w mod 2 ^ 64 + 2 ^ 63"
  proof -
    have "(v * w + 2 ^ 63) mod 2 ^ 64 = (v * w mod 2 ^ 64 + 2 ^ 63) mod 2 ^ 64" by (simp only: mod_add_left_eq)
    also have "\<dots> = v * w mod 2 ^ 64 + 2 ^ 63" using assms(7) by (intro mod_pos_pos_trivial) auto
    finally show ?thesis .
  qed
  then have "wrap64 (v * w) = v * w mod 2 ^ 64" by (simp add: wrap64_mod)
  moreover have "\<not> v * w mod 2 ^ 64 < 0" by (simp add: not_less)
  ultimately show ?thesis using assms by (simp add: Multiply_def Let_def kUnknownDim_def nth_append)
qed

theorem shape_multiply_overflow_witness:
  "\<exists>h c'. Multiply 3 (Constant 4294967296) demo_ctx = (Inr h, c') \<and> all_dims c' ! h = 0"
  using shape_multiply_overflow [OF demo_ok(1), of 3 4294967296 4294967296] by (simp add: valid_dim_def demo_ctx_def)

text \<open>
  \<open>set_output\<close> with the declared number of shapes stores them, and reading the
  outputs by name returns them. With too few shapes the error it builds is dropped
  and the loop reads past the end of the vector; with too many it reports success.
\<close>

theorem shape_set_output:
  assumes "output_name_map c name = Some (start, start + n)" "start + n \<le> length (c_outputs c)"
  shows "(length shapes = n \<longrightarrow> (\<exists>c'. set_output name shapes c = Some (Inr (), c') \<and>
      output_by_name name c' = Inr (map Some shapes))) \<and>
    (length shapes < n \<longrightarrow> set_output name shapes c = None) \<and>
    (n < length shapes \<longrightarrow> (\<exists>c'. set_output name shapes c = Some (Inr (), c')))"
proof -
  have eq: "set_output name shapes c = Some (Inr (), c\<lparr>c_outputs :=
      take start (c_outputs c) @ map Some (take n shapes) @ drop (start + n) (c_outputs c)\<rparr>)" if "n \<le> length shapes"
    using assms that assign_outputs_ok [of 0 n shapes start "c_outputs c"] by (simp add: set_output_def)
  have "map (\<lambda>i. (take start (c_outputs c) @ map Some shapes @ drop (start + n) (c_outputs c)) ! i) [start..<start + n] =
      map Some shapes" if "length shapes = n"
    using assms(2) that by (intro nth_equalityI) (auto simp: nth_append)
  then have "length shapes = n \<longrightarrow> (\<exists>c'. set_output name shapes c = Some (Inr (), c') \<and>
      output_by_name name c' = Inr (map Some shapes))"
    using eq assms(1) by (auto simp: output_by_name_def)
  moreover have "length shapes < n \<longrightarrow> set_output name shapes c = None"
    using assms(1) assign_outputs_short [of 0 shapes n] by (simp add: set_output_def)
  ultimately show ?thesis using eq by auto
qed

theorem shape_set_output_witness: "set_output ''out'' [1] demo_ctx = None"
  using shape_set_output [of demo_ctx "''out''" 0 2 "[1]"] by (simp add: demo_ctx_def)

end
