(* ===== verification/Table_Format.thy ===== *)
theory Table_Format
  imports Record_IO Block
begin

text \<open>
  The file format of sorted string tables, \<open>lib/io/format.cc\<close>: block handles, the
  footer and reading one block with its type byte and checksum. The Snappy functions of
  \<open>platform/posix/port.cc\<close> are parameters; the locale states what the code relies on,
  and the build without Snappy, where all of them fail, is an instance.

  \<open>None\<close> as the result of an operation means that it does not return normally: it would
  access memory outside a buffer or loop for ever.
\<close>

section \<open>Snappy\<close>

record snappy =
  Snappy_Compress :: "bytes \<Rightarrow> bytes option"
  Snappy_GetUncompressedLength :: "bytes \<Rightarrow> nat option"
  Snappy_Uncompress :: "bytes \<Rightarrow> bytes option"

locale snappy_codec =
  fixes snap :: snappy
  assumes compress_length: "Snappy_Compress snap raw = Some c \<Longrightarrow>
      Snappy_GetUncompressedLength snap c = Some (length raw)"
    and compress_inverse: "Snappy_Compress snap raw = Some c \<Longrightarrow> Snappy_Uncompress snap c = Some raw"

text \<open>The branches without \<open>SNAPPY\<close>.\<close>

definition no_snappy :: snappy where
  "no_snappy = \<lparr>Snappy_Compress = (\<lambda>input. None), Snappy_GetUncompressedLength = (\<lambda>input. None),
     Snappy_Uncompress = (\<lambda>input. None)\<rparr>"

interpretation no_snappy: snappy_codec no_snappy
  by unfold_locales (simp_all add: no_snappy_def)

section \<open>Block handles\<close>

record block_handle =
  bh_offset :: uint64
  bh_size :: uint64

definition BlockHandle :: block_handle where
  "BlockHandle = \<lparr>bh_offset = NOT 0, bh_size = NOT 0\<rparr>"

definition kMaxEncodedLength :: nat where
  "kMaxEncodedLength = 10 + 10"

definition EncodeTo_handle :: "block_handle \<Rightarrow> bytes \<Rightarrow> bytes" where
  "EncodeTo_handle h dst = PutVarint64 (PutVarint64 dst (bh_offset h)) (bh_size h)"

text \<open>On success: the handle and the rest of \<open>*input\<close>.\<close>

definition DecodeFrom_handle :: "bytes \<Rightarrow> (block_handle \<times> bytes) status" where
  "DecodeFrom_handle input =
     (case GetVarint64 input of
        None \<Rightarrow> Inl DATA_LOSS
      | Some (offset, input1) \<Rightarrow>
          (case GetVarint64 input1 of
             None \<Rightarrow> Inl DATA_LOSS
           | Some (sz, input2) \<Rightarrow> Inr (\<lparr>bh_offset = offset, bh_size = sz\<rparr>, input2)))"

section \<open>The footer\<close>

record footer =
  metaindex_handle :: block_handle
  index_handle :: block_handle

definition kEncodedLength :: nat where
  "kEncodedLength = 2 * kMaxEncodedLength + 8"

definition kTableMagicNumber :: uint64 where
  "kTableMagicNumber = 0xdb4775248b80fb57"

text \<open>\<open>string::resize\<close>: cut, or padded with zero bytes.\<close>

definition resize_string :: "nat \<Rightarrow> bytes \<Rightarrow> bytes" where
  "resize_string n s = take n s @ replicate (n - length s) 0"

definition EncodeTo_footer :: "footer \<Rightarrow> bytes \<Rightarrow> bytes" where
  "EncodeTo_footer f dst =
     (let dst = EncodeTo_handle (metaindex_handle f) dst;
          dst = EncodeTo_handle (index_handle f) dst;
          dst = resize_string (2 * kMaxEncodedLength) dst;
          dst = PutFixed32 dst (ucast (kTableMagicNumber AND 0xffffffff))
      in PutFixed32 dst (ucast (drop_bit 32 kTableMagicNumber)))"

text \<open>The input must hold \<open>kEncodedLength\<close> bytes: the magic number is read unchecked.\<close>

definition DecodeFrom_footer :: "bytes \<Rightarrow> (footer \<times> bytes) status option" where
  "DecodeFrom_footer input =
     (if length input < kEncodedLength then None
      else
        let magic_lo = DecodeFixed32 kLittleEndian (drop (kEncodedLength - 8) input);
            magic_hi = DecodeFixed32 kLittleEndian (drop (kEncodedLength - 4) input);
            magic = push_bit 32 (ucast magic_hi) OR ucast magic_lo :: uint64
        in Some (if magic \<noteq> kTableMagicNumber then Inl DATA_LOSS
           else
             bind_status (DecodeFrom_handle input) (\<lambda>(meta, input1).
             bind_status (DecodeFrom_handle input1) (\<lambda>(index, input2).
               Inr (\<lparr>metaindex_handle = meta, index_handle = index\<rparr>, drop kEncodedLength input)))))"

section \<open>Reading a block\<close>

definition kBlockTrailerSize :: uint64 where
  "kBlockTrailerSize = 5"

text \<open>
  On success: the contents of the block. Where they are kept (in the buffer of the file,
  in the buffer read into or in a new one) only decides who frees them, and is left out.
  The sizes are added in 64 bits, so a handle with a size above \<open>2 ^ 64 - 6\<close> asks for a
  few bytes only and the accesses to the buffer behind them are out of bounds.
\<close>

definition ReadBlock :: "snappy \<Rightarrow> read_op \<Rightarrow> block_handle \<Rightarrow> bytes status option" where
  "ReadBlock snap file_read handle =
     (let n = bh_size handle in
      case file_read (bh_offset handle) (n + kBlockTrailerSize) of
        (Some s, contents) \<Rightarrow> Some (Inl s)
      | (None, contents) \<Rightarrow>
          if length contents \<noteq> unat (n + kBlockTrailerSize) then Some (Inl DATA_LOSS)
          else if length contents < unat (n + 1) + 4 then None
          else
            let crc = Unmask (DecodeFixed32 kLittleEndian (drop (unat (n + 1)) contents));
                actual = Value 0 (take (unat (n + 1)) contents)
            in if actual \<noteq> crc then Some (Inl DATA_LOSS)
               else if length contents \<le> unat n then None
               else
                 let block_data = take (unat n) contents; t = contents ! unat n in
                 if t = 0 then Some (Inr block_data)
                 else if t = 1 then
                   (case Snappy_GetUncompressedLength snap block_data of
                      None \<Rightarrow> Some (Inl DATA_LOSS)
                    | Some ulength \<Rightarrow>
                        (case Snappy_Uncompress snap block_data of
                           None \<Rightarrow> Some (Inl DATA_LOSS)
                         | Some ubuf \<Rightarrow> Some (Inr (take ulength ubuf))))
                 else Some (Inl DATA_LOSS))"

section \<open>Round trips\<close>

abbreviation encode_handle :: "block_handle \<Rightarrow> bytes" where
  "encode_handle h \<equiv> EncodeTo_handle h []"

lemma EncodeTo_handle_eq: "EncodeTo_handle h dst = dst @ EncodeVarint64 (bh_offset h) @ EncodeVarint64 (bh_size h)"
  by (simp add: EncodeTo_handle_def PutVarint64_def)

lemma DecodeFrom_handle_Encode: "DecodeFrom_handle (encode_handle h @ rest) = Inr (h, rest)"
  by (simp add: EncodeTo_handle_eq DecodeFrom_handle_def)

lemma length_encode_handle: "length (encode_handle h) \<le> kMaxEncodedLength"
  using VarintLength_le_10 [of "bh_offset h"] VarintLength_le_10 [of "bh_size h"]
  by (simp add: EncodeTo_handle_eq kMaxEncodedLength_def)

interpretation handles: codec encode_handle "\<lambda>input. case DecodeFrom_handle input of Inl e \<Rightarrow> None | Inr r \<Rightarrow> Some r"
  by unfold_locales (simp add: DecodeFrom_handle_Encode)

definition footer_bytes :: "footer \<Rightarrow> bytes" where
  "footer_bytes f = resize_string 40 (encode_handle (metaindex_handle f) @ encode_handle (index_handle f)) @
     EncodeFixed32 kLittleEndian (ucast (kTableMagicNumber AND 0xffffffff)) @
     EncodeFixed32 kLittleEndian (ucast (drop_bit 32 kTableMagicNumber))"

lemma EncodeTo_footer_eq: "EncodeTo_footer f [] = footer_bytes f"
  by (simp add: EncodeTo_footer_def footer_bytes_def Let_def PutFixed32_def EncodeTo_handle_eq kMaxEncodedLength_def)

lemma length_resize_string [simp]: "length (resize_string n s) = n"
  by (simp add: resize_string_def)

lemma length_footer_bytes [simp]: "length (footer_bytes f) = kEncodedLength"
  by (simp add: footer_bytes_def kEncodedLength_def kMaxEncodedLength_def)

lemma footer_magic:
  "push_bit 32 (ucast (ucast (drop_bit 32 m) :: uint32)) OR ucast (ucast (m AND 0xffffffff) :: uint32) = (m :: uint64)"
proof (rule bit_word_eqI)
  fix n assume "n < LENGTH(64)"
  moreover have "bit (0xffffffff :: uint64) n \<longleftrightarrow> n < 32"
    using bit_mask_iff [where 'a = uint64, of 32 n] \<open>n < LENGTH(64)\<close>
    by (auto simp: mask_eq_exp_minus_1)
  ultimately show "bit (push_bit 32 (ucast (ucast (drop_bit 32 m) :: uint32)) OR
      ucast (ucast (m AND 0xffffffff) :: uint32) :: uint64) n = bit m n"
    by (auto simp: bit_simps)
qed

lemma DecodeFrom_footer_Encode: "DecodeFrom_footer (footer_bytes f @ rest) = Some (Inr (f, rest))"
proof -
  define p where "p = encode_handle (metaindex_handle f) @ encode_handle (index_handle f)"
  have "length p \<le> 40"
    using length_encode_handle [of "metaindex_handle f"] length_encode_handle [of "index_handle f"]
    by (simp add: p_def kMaxEncodedLength_def)
  then have p: "resize_string 40 p = p @ replicate (40 - length p) 0" by (simp add: resize_string_def)
  obtain tl where tl: "footer_bytes f @ rest =
      encode_handle (metaindex_handle f) @ encode_handle (index_handle f) @ tl"
    unfolding footer_bytes_def p_def [symmetric] p by (simp add: p_def)
  have magic: "drop 40 (footer_bytes f @ rest) = EncodeFixed32 kLittleEndian (ucast (kTableMagicNumber AND 0xffffffff)) @
      EncodeFixed32 kLittleEndian (ucast (drop_bit 32 kTableMagicNumber)) @ rest"
    "drop 44 (footer_bytes f @ rest) = EncodeFixed32 kLittleEndian (ucast (drop_bit 32 kTableMagicNumber)) @ rest"
    by (simp_all add: footer_bytes_def)
  have "drop 48 (footer_bytes f @ rest) = rest" by (simp add: kEncodedLength_def kMaxEncodedLength_def)
  moreover have "bind_status (DecodeFrom_handle (footer_bytes f @ rest)) (\<lambda>(meta, input1).
      bind_status (DecodeFrom_handle input1) (\<lambda>(index, input2).
        Inr (\<lparr>metaindex_handle = meta, index_handle = index\<rparr>, x))) = Inr (f, x)" for x
    unfolding tl by (simp add: DecodeFrom_handle_Encode)
  ultimately show ?thesis
    by (simp add: DecodeFrom_footer_def Let_def kEncodedLength_def kMaxEncodedLength_def magic footer_magic
        del: drop_append)
qed

section \<open>Stored blocks\<close>

text \<open>
  \<open>stored snap c h raw\<close>: the handle \<open>h\<close> points at bytes of the file contents \<open>c\<close> that hold
  the block \<open>raw\<close>, as it is or compressed, followed by the type byte and the checksum.
\<close>

definition payload_of :: "snappy \<Rightarrow> byte \<Rightarrow> bytes \<Rightarrow> bytes \<Rightarrow> bool" where
  "payload_of snap t d raw \<longleftrightarrow> t = 0 \<and> d = raw \<or>
     t = 1 \<and> Snappy_GetUncompressedLength snap d = Some (length raw) \<and> Snappy_Uncompress snap d = Some raw"

definition stored :: "snappy \<Rightarrow> bytes \<Rightarrow> block_handle \<Rightarrow> bytes \<Rightarrow> bool" where
  "stored snap c h raw \<longleftrightarrow> (\<exists>pre d t post. c = pre @ checksummed (d @ [t]) @ post \<and>
     unat (bh_offset h) = length pre \<and> unat (bh_size h) = length d \<and> payload_of snap t d raw)"

lemma stored_append: "stored snap c h raw \<Longrightarrow> stored snap (c @ x) h raw"
  unfolding stored_def by (metis append.assoc)

lemma size_sums:
  assumes "unat (n :: uint64) < 2 ^ 63"
  shows "unat (n + kBlockTrailerSize) = unat n + 5" and "unat (n + 1) = unat n + 1"
  using assms by (simp_all add: kBlockTrailerSize_def unat_word_ariths)

text \<open>\<open>ReadBlock\<close> on a handle of ordinary size: a checksummed read and the switch on the type.\<close>

lemma ReadBlock_eq:
  assumes "file_read (bh_offset h) (bh_size h + kBlockTrailerSize) = (None, contents)"
    and "unat (bh_size h) < 2 ^ 63" "length contents = unat (bh_size h) + 5"
  shows "ReadBlock snap file_read h = Some (case check_crc (bh_size h + 1) contents of
      Inl e \<Rightarrow> Inl e
    | Inr _ \<Rightarrow>
        let d = take (unat (bh_size h)) contents; t = contents ! unat (bh_size h) in
        if t = 0 then Inr d
        else if t = 1 then
          (case Snappy_GetUncompressedLength snap d of None \<Rightarrow> Inl DATA_LOSS
           | Some u \<Rightarrow> (case Snappy_Uncompress snap d of None \<Rightarrow> Inl DATA_LOSS | Some r \<Rightarrow> Inr (take u r)))
        else Inl DATA_LOSS)"
  using assms size_sums [OF assms(2)]
  by (auto simp: ReadBlock_def check_crc_def Let_def split: option.splits)


context random_access_file
begin

lemma read_at:
  assumes c: "contents = pre @ x @ post" and len: "length contents < 2 ^ 63"
    and h: "unat (bh_offset h) = length pre" "unat (bh_size h) + 5 = length x"
  shows "read (bh_offset h) (bh_size h + kBlockTrailerSize) = (None, x)" and "unat (bh_size h) < 2 ^ 63"
proof -
  have "unat (bh_size h) < 2 ^ 63" using len h unfolding c by simp
  note s = size_sums(1) [OF this]
  then show "read (bh_offset h) (bh_size h + kBlockTrailerSize) = (None, x)"
    using h len read_ok [of "bh_size h + kBlockTrailerSize" "bh_offset h"] unfolding s c by simp
  show "unat (bh_size h) < 2 ^ 63" by fact
qed

lemma ReadBlock_stored:
  assumes "stored snap contents h raw" and len: "length contents < 2 ^ 63"
  shows "ReadBlock snap read h = Some (Inr raw)"
proof -
  obtain pre d t post where c: "contents = pre @ checksummed (d @ [t]) @ post"
    and h: "unat (bh_offset h) = length pre" "unat (bh_size h) = length d" and p: "payload_of snap t d raw"
    using assms(1) by (auto simp: stored_def)
  have l: "unat (bh_size h) + 5 = length (checksummed (d @ [t]))" using h by simp
  note r = read_at [OF c len h(1) l]
  have "check_crc (bh_size h + 1) (checksummed (d @ [t])) = Inr (d @ [t])"
    using size_sums(2) [OF r(2)] h by (intro check_crc_checksummed) simp
  moreover have "take (length d) (checksummed (d @ [t])) = d" "checksummed (d @ [t]) ! length d = t"
    by (simp_all add: checksummed_def nth_append)
  ultimately show ?thesis
    using ReadBlock_eq [where file_read = read, OF r l [symmetric]] p by (auto simp: payload_of_def h)
qed

text \<open>One changed byte anywhere in a stored block, its type or its checksum is noticed.\<close>

lemma ReadBlock_corrupt:
  assumes c: "contents = pre @ (checksummed (d @ [t]))[i := b] @ post" and len: "length contents < 2 ^ 63"
    and h: "unat (bh_offset h) = length pre" "unat (bh_size h) = length d"
    and i: "i < length d + 5" "checksummed (d @ [t]) ! i \<noteq> b"
  shows "ReadBlock snap read h = Some (Inl DATA_LOSS)"
proof -
  have l: "unat (bh_size h) + 5 = length ((checksummed (d @ [t]))[i := b])" using h by simp
  note r = read_at [OF c len h(1) l]
  have "check_crc (bh_size h + 1) ((checksummed (d @ [t]))[i := b]) = Inl DATA_LOSS"
    using size_sums(2) [OF r(2)] h i by (intro check_crc_corrupt) simp_all
  then show ?thesis using ReadBlock_eq [where file_read = read, OF r l [symmetric]] by simp
qed

lemma ReadBlock_past_end:
  assumes "length contents < unat (bh_offset h) + unat (bh_size h) + 5" and "unat (bh_size h) < 2 ^ 63"
  shows "ReadBlock snap read h = Some (Inl OUT_OF_RANGE)"
  using assms size_sums [OF assms(2)] read_eof [of "bh_size h + kBlockTrailerSize" "bh_offset h"]
  by (simp add: ReadBlock_def Let_def)

end

end
