(* ===== verification/Table_Builder.thy ===== *)
theory Table_Builder
  imports Table_Format
begin

text \<open>
  Writing a table, \<open>lib/io/table_builder.cc\<close>: data blocks are cut by size and written with
  a checksum, and the index block gets one entry per data block, keyed by a short string
  between the last key of the block and the first key of the next. The file written to is
  a parameter (\<open>WritableFile::Append\<close>); the POSIX file is an instance. The asserts of the
  source are compiled out in optimised builds and appear as hypotheses.
\<close>

section \<open>Short keys\<close>

definition FindShortestSeparator :: "bytes \<Rightarrow> bytes \<Rightarrow> bytes" where
  "FindShortestSeparator start limit =
     (let min_length = min (length start) (length limit);
          diff_index = shared_prefix start limit
      in if diff_index \<ge> min_length then start
         else
           let diff_byte = start ! diff_index in
           if diff_byte < 255 \<and> unat diff_byte + 1 < unat (limit ! diff_index)
           then take diff_index start @ [diff_byte + 1] else start)"

fun FindShortSuccessor :: "bytes \<Rightarrow> bytes" where
  "FindShortSuccessor [] = []"
| "FindShortSuccessor (b # key) = (if b \<noteq> 255 then [b + 1] else b # FindShortSuccessor key)"

section \<open>The builder\<close>

record 'f table_builder =
  tb_options :: options
  index_block_options :: options
  tb_file :: 'f
  tb_offset :: uint64
  tb_status :: "code option"
  data_block :: block_builder
  index_block :: block_builder
  tb_last_key :: bytes
  num_entries :: uint64
  closed :: bool
  pending_index_entry :: bool
  pending_handle :: block_handle
  compressed_output :: bytes

type_synonym 'f append_op = "'f \<Rightarrow> bytes \<Rightarrow> code option \<times> 'f"

definition TableBuilder :: "options \<Rightarrow> 'f \<Rightarrow> 'f table_builder" where
  "TableBuilder opt f =
     \<lparr>tb_options = opt, index_block_options = opt\<lparr>block_restart_interval := 1\<rparr>, tb_file = f, tb_offset = 0,
      tb_status = None, data_block = BlockBuilder, index_block = BlockBuilder, tb_last_key = [], num_entries = 0,
      closed = False, pending_index_entry = False, pending_handle = BlockHandle, compressed_output = []\<rparr>"

fun type_byte :: "compression_type \<Rightarrow> byte" where
  "type_byte kNoCompression = 0"
| "type_byte kSnappyCompression = 1"

text \<open>Returns the handle it fills in.\<close>

definition WriteRawBlock :: "'f append_op \<Rightarrow> bytes \<Rightarrow> compression_type \<Rightarrow> 'f table_builder \<Rightarrow>
    block_handle \<times> 'f table_builder" where
  "WriteRawBlock file_append block_contents type r =
     (let handle = \<lparr>bh_offset = tb_offset r, bh_size = of_nat (length block_contents)\<rparr> in
      case file_append (tb_file r) block_contents of
        (Some e, f) \<Rightarrow> (handle, r\<lparr>tb_status := Some e, tb_file := f\<rparr>)
      | (None, f) \<Rightarrow>
          let crc = Value 0 block_contents;
              crc = Extend 0 crc [type_byte type];
              trailer = type_byte type # EncodeFixed32 kLittleEndian (Mask crc)
          in case file_append f trailer of
               (Some e, f) \<Rightarrow> (handle, r\<lparr>tb_status := Some e, tb_file := f\<rparr>)
             | (None, f) \<Rightarrow>
                 (handle, r\<lparr>tb_status := None, tb_file := f,
                    tb_offset := tb_offset r + (of_nat (length block_contents) + kBlockTrailerSize)\<rparr>))"

text \<open>Returns the handle, the block builder after \<open>Reset\<close> and the state.\<close>

definition WriteBlock :: "snappy \<Rightarrow> 'f append_op \<Rightarrow> block_builder \<Rightarrow> 'f table_builder \<Rightarrow>
    block_handle \<times> block_builder \<times> 'f table_builder" where
  "WriteBlock snap file_append block r =
     (case Finish block of (raw, block) \<Rightarrow>
      let (block_contents, type, r) =
            (case compression (tb_options r) of
               kNoCompression \<Rightarrow> (raw, kNoCompression, r)
             | kSnappyCompression \<Rightarrow>
                 (case Snappy_Compress snap raw of
                    None \<Rightarrow> (raw, kNoCompression, r)
                  | Some compressed \<Rightarrow>
                      if length compressed < length raw - length raw div 8
                      then (compressed, kSnappyCompression, r\<lparr>compressed_output := compressed\<rparr>)
                      else (raw, kNoCompression, r\<lparr>compressed_output := compressed\<rparr>)))
      in case WriteRawBlock file_append block_contents type r of
           (handle, r) \<Rightarrow> (handle, Reset block, r\<lparr>compressed_output := []\<rparr>))"

definition Flush :: "snappy \<Rightarrow> 'f append_op \<Rightarrow> 'f table_builder \<Rightarrow> 'f table_builder" where
  "Flush snap file_append r =
     (if tb_status r \<noteq> None then r
      else if empty_builder (data_block r) then r
      else
        case WriteBlock snap file_append (data_block r) r of
          (handle, block, r) \<Rightarrow>
            let r = r\<lparr>pending_handle := handle, data_block := block\<rparr> in
            if tb_status r = None then r\<lparr>pending_index_entry := True\<rparr> else r)"

definition add_index_entry :: "bytes \<Rightarrow> 'f table_builder \<Rightarrow> 'f table_builder" where
  "add_index_entry sep r =
     r\<lparr>tb_last_key := sep, pending_index_entry := False,
       index_block := Add (index_block_options r) (index_block r) sep (EncodeTo_handle (pending_handle r) [])\<rparr>"

definition kOverlyLargeBlockRatio :: nat where
  "kOverlyLargeBlockRatio = 2"

definition TableBuilder_Add ::
    "snappy \<Rightarrow> 'f append_op \<Rightarrow> 'f table_builder \<Rightarrow> bytes \<Rightarrow> bytes \<Rightarrow> 'f table_builder" where
  "TableBuilder_Add snap file_append r key val =
     (if tb_status r \<noteq> None then r
      else
        let r = (if 0 < sint (num_entries r) then
                   let this_entry_bytes = length key + length val in
                   if this_entry_bytes \<ge> kOverlyLargeBlockRatio * block_size (tb_options r) mod 2 ^ 64
                   then Flush snap file_append r else r
                 else r);
            r = (if pending_index_entry r
                 then add_index_entry (FindShortestSeparator (tb_last_key r) key) r else r);
            r = r\<lparr>tb_last_key := key, num_entries := num_entries r + 1,
                  data_block := Add (tb_options r) (data_block r) key val\<rparr>;
            estimated_block_size = CurrentSizeEstimate (data_block r)
        in if estimated_block_size \<ge> block_size (tb_options r) then Flush snap file_append r else r)"

definition TableBuilder_Finish :: "snappy \<Rightarrow> 'f append_op \<Rightarrow> 'f table_builder \<Rightarrow> code option \<times> 'f table_builder" where
  "TableBuilder_Finish snap file_append r =
     (let r = (Flush snap file_append r)\<lparr>closed := True\<rparr>;
          (metaindex_block_handle, r) =
            (if tb_status r = None then
               (case WriteBlock snap file_append BlockBuilder r of (handle, block, r) \<Rightarrow> (handle, r))
             else (BlockHandle, r));
          (index_block_handle, r) =
            (if tb_status r = None then
               let r = (if pending_index_entry r
                        then add_index_entry (FindShortSuccessor (tb_last_key r)) r else r)
               in case WriteBlock snap file_append (index_block r) r of
                    (handle, block, r) \<Rightarrow> (handle, r\<lparr>index_block := block\<rparr>)
             else (BlockHandle, r));
          r = (if tb_status r = None then
                 let footer_encoding = EncodeTo_footer
                       \<lparr>metaindex_handle = metaindex_block_handle, index_handle = index_block_handle\<rparr> []
                 in case file_append (tb_file r) footer_encoding of
                      (Some e, f) \<Rightarrow> r\<lparr>tb_status := Some e, tb_file := f\<rparr>
                    | (None, f) \<Rightarrow> r\<lparr>tb_status := None, tb_file := f,
                        tb_offset := tb_offset r + of_nat (length footer_encoding)\<rparr>
               else r)
      in (tb_status r, r))"

definition Abandon :: "'f table_builder \<Rightarrow> 'f table_builder" where
  "Abandon r = r\<lparr>closed := True\<rparr>"

definition NumEntries :: "'f table_builder \<Rightarrow> uint64" where
  "NumEntries r = num_entries r"

definition FileSize :: "'f table_builder \<Rightarrow> uint64" where
  "FileSize r = tb_offset r"

text \<open>A client that adds pairs one after the other and finishes the table.\<close>

fun add_pairs :: "snappy \<Rightarrow> 'f append_op \<Rightarrow> 'f table_builder \<Rightarrow> (bytes \<times> bytes) list \<Rightarrow> 'f table_builder" where
  "add_pairs snap file_append r [] = r"
| "add_pairs snap file_append r ((k, v) # kvs) = add_pairs snap file_append (TableBuilder_Add snap file_append r k v) kvs"

definition build_table :: "snappy \<Rightarrow> 'f append_op \<Rightarrow> options \<Rightarrow> 'f \<Rightarrow> (bytes \<times> bytes) list \<Rightarrow>
    code option \<times> 'f table_builder" where
  "build_table snap file_append opt f kvs =
     TableBuilder_Finish snap file_append (add_pairs snap file_append (TableBuilder opt f) kvs)"

section \<open>Writable files\<close>

text \<open>
  \<open>written\<close> is what has been appended so far and \<open>room\<close> how long the file can get.
\<close>

locale writable_file =
  fixes append_to :: "'f append_op" and written :: "'f \<Rightarrow> bytes" and room :: "'f \<Rightarrow> nat"
  assumes append_written: "append_to f d = (None, f') \<Longrightarrow> written f' = written f @ d"
    and append_room: "append_to f d = (e, f') \<Longrightarrow> room f' = room f"
    and append_succeeds: "length (written f) + length d \<le> room f \<Longrightarrow> fst (append_to f d) = None"

text \<open>
  \<open>PosixWritableFile::Append\<close> over an \<open>fwrite\<close> that stops at the end of the space on the
  device and then sets \<open>errno\<close>, given here as the code \<open>IOError\<close> makes of it.
\<close>

record posix_writable_file =
  pf_contents :: bytes
  pf_space :: nat
  pf_error :: code

definition PosixAppend :: "posix_writable_file append_op" where
  "PosixAppend f d =
     (let r = min (length d) (pf_space f);
          f' = f\<lparr>pf_contents := pf_contents f @ take r d, pf_space := pf_space f - r\<rparr>
      in if r \<noteq> length d then (Some (pf_error f), f') else (None, f'))"

definition pf_capacity :: "posix_writable_file \<Rightarrow> nat" where
  "pf_capacity f = length (pf_contents f) + pf_space f"

interpretation posix_writable: writable_file PosixAppend pf_contents pf_capacity
  by unfold_locales (auto simp: PosixAppend_def pf_capacity_def Let_def split: if_splits)

section \<open>Separators\<close>

lemma shared_prefix_nth:
  "shared_prefix a b < length a \<Longrightarrow> shared_prefix a b < length b \<Longrightarrow> a ! shared_prefix a b \<noteq> b ! shared_prefix a b"
  by (induction a b rule: shared_prefix.induct) (auto split: if_splits)

lemma less_append_left: "xs @ a < xs @ b \<longleftrightarrow> a < (b :: bytes)"
  by (induction xs) auto

lemma FindShortestSeparator_between:
  assumes "start < limit"
  shows "start \<le> FindShortestSeparator start limit" and "FindShortestSeparator start limit < limit"
    and "length (FindShortestSeparator start limit) \<le> length start"
proof -
  define n where "n = shared_prefix start limit"
  have "start \<le> FindShortestSeparator start limit \<and> FindShortestSeparator start limit < limit \<and>
    length (FindShortestSeparator start limit) \<le> length start"
  proof (cases "n < length start \<and> n < length limit \<and> start ! n < 255 \<and> unat (start ! n) + 1 < unat (limit ! n)")
    case True
    define p where "p = take n start"
    have split: "start = p @ start ! n # drop (Suc n) start" "limit = p @ limit ! n # drop (Suc n) limit"
      using True shared_prefix_take [of start limit] unfolding n_def [symmetric] p_def
      by (simp_all add: id_take_nth_drop [symmetric]) (metis id_take_nth_drop)
    have "unat (start ! n + 1) = unat (start ! n) + 1"
      using True unat_less_exp [of "limit ! n"] by (simp add: unat_word_ariths)
    then have "start ! n < start ! n + 1" "start ! n + 1 < limit ! n"
      using True by (simp_all add: word_less_nat_alt)
    then have "start < p @ [start ! n + 1]" "p @ [start ! n + 1] < limit"
      using split less_append_left by (metis Cons_less_Cons)+
    moreover have "FindShortestSeparator start limit = p @ [start ! n + 1]"
      using True by (simp add: FindShortestSeparator_def Let_def n_def [symmetric] p_def min_def)
    ultimately show ?thesis using True by (simp add: p_def)
  next
    case False
    then have "FindShortestSeparator start limit = start"
      by (auto simp: FindShortestSeparator_def Let_def n_def [symmetric] min_def)
    then show ?thesis using assms by simp
  qed
  then show "start \<le> FindShortestSeparator start limit" "FindShortestSeparator start limit < limit"
    "length (FindShortestSeparator start limit) \<le> length start" by auto
qed

lemma FindShortSuccessor_ge:
  "key \<le> FindShortSuccessor key" "length (FindShortSuccessor key) \<le> length key"
proof (induction key)
  case (Cons b key)
  {
    case 1
    have "b < b + 1" if "b \<noteq> 255"
    proof -
      have "unat b \<noteq> 255" using that by (simp add: word_unat_eq_iff)
      then have "unat (b + 1) = unat b + 1" using unat_less_exp [of b] by (simp add: unat_word_ariths)
      then show ?thesis by (simp add: word_less_nat_alt)
    qed
    then show ?case using Cons by auto
  next
    case 2
    then show ?case using Cons by simp
  }
qed simp_all

section \<open>Blocks under construction\<close>

definition weight :: "(bytes \<times> bytes) list \<Rightarrow> nat" where
  "weight kvs = sum_list (map (\<lambda>(k, v). length k + length v + 64) kvs)"

lemma weight_simps [simp]:
  "weight [] = 0" "weight ((k, v) # kvs) = length k + length v + 64 + weight kvs" "weight (as @ bs) = weight as + weight bs"
  by (simp_all add: weight_def)

lemma weight_pos: "kvs \<noteq> [] \<Longrightarrow> 64 + length (fst (last kvs)) \<le> weight kvs"
  by (cases kvs rule: rev_cases) auto

definition builder_over :: "block_builder \<Rightarrow> (bytes \<times> bytes) list \<Rightarrow> bool" where
  "builder_over b kvs \<longleftrightarrow> (\<exists>es ris. builder_rel b es ris \<and> map snd es = kvs)"

definition block_image :: "bytes \<Rightarrow> (bytes \<times> bytes) list \<Rightarrow> bool" where
  "block_image raw kvs \<longleftrightarrow> (\<exists>es ris. encoded_block raw es ris \<and> map snd es = kvs)"

lemma builder_over_new: "builder_over BlockBuilder []" "builder_over (Reset b) []"
  unfolding builder_over_def using builder_rel_new by blast+

lemma builder_over_Add:
  assumes "builder_over b kvs" "1 \<le> block_restart_interval opt"
  shows "builder_over (Add opt b k v) (kvs @ [(k, v)])"
proof -
  obtain es ris where e: "builder_rel b es ris" "map snd es = kvs" using assms(1) by (auto simp: builder_over_def)
  obtain s ris' where "builder_rel (Add opt b k v) (es @ [(s, k, v)]) ris'" using Add_rel [OF e(1) assms(2)] by blast
  moreover have "map snd (es @ [(s, k, v)]) = kvs @ [(k, v)]" using e(2) by simp
  ultimately show ?thesis unfolding builder_over_def by blast
qed

lemma builder_over_empty:
  assumes "builder_over b kvs"
  shows "empty_builder b \<longleftrightarrow> kvs = []"
proof -
  obtain es ris where e: "builder_rel b es ris" "map snd es = kvs" using assms by (auto simp: builder_over_def)
  have "body es = [] \<longleftrightarrow> es = []"
  proof (cases es)
    case (Cons e es')
    then show ?thesis using length_entry_bytes [of e] by (metis append_is_Nil_conv body_simps(2) length_0_conv not_numeral_le_zero list.distinct(1))
  qed simp
  then show ?thesis using e by (auto simp: empty_builder_def builder_rel_def)
qed

lemma length_Finish: "length (fst (Finish b)) = CurrentSizeEstimate b"
proof -
  have "length (concat (map (EncodeFixed32 kLittleEndian) rs)) = 4 * length rs" for rs
    by (induction rs) simp_all
  then show ?thesis by (simp add: Finish_def Let_def PutFixed32_def put_restarts_eq CurrentSizeEstimate_def)
qed

lemma Finish_image:
  assumes "builder_over b kvs" "CurrentSizeEstimate b < 2 ^ 32"
  shows "block_image (fst (Finish b)) kvs"
  using assms Finish_encoded [of b] unfolding builder_over_def block_image_def length_Finish by blast

lemma estimate_Add: "CurrentSizeEstimate (Add opt b k v) \<le> CurrentSizeEstimate b + length k + length v + 19"
proof -
  obtain s and b1 :: block_builder where s: "buffer b1 = buffer b" "length (restarts b1) \<le> length (restarts b) + 1"
    "buffer (Add opt b k v) = buffer b @ EncodeVarint32 (of_nat s) @ EncodeVarint32 (of_nat (length k - s)) @
       EncodeVarint32 (of_nat (length v)) @ drop s k @ v" "restarts (Add opt b k v) = restarts b1"
  proof (cases "counter b < block_restart_interval opt")
    case True
    then show thesis by (intro that [of b "shared_prefix (last_key b) k"]) (simp_all add: Add_def Let_def PutVarint32_def)
  next
    case False
    then show thesis
      by (intro that [of "b\<lparr>restarts := restarts b @ [of_nat (length (buffer b))], counter := 0\<rparr>" 0])
        (simp_all add: Add_def Let_def PutVarint32_def)
  qed
  note len = length_EncodeVarint32_le_5 [of "of_nat s"] length_EncodeVarint32_le_5 [of "of_nat (length k - s)"]
    length_EncodeVarint32_le_5 [of "of_nat (length v)"]
  have "length (buffer (Add opt b k v)) = length (buffer b) + length (EncodeVarint32 (of_nat s)) +
      length (EncodeVarint32 (of_nat (length k - s))) + length (EncodeVarint32 (of_nat (length v))) + (length k - s) + length v"
    unfolding s(3) by (simp only: length_append length_drop)
  then have "length (buffer (Add opt b k v)) \<le> length (buffer b) + 15 + length k + length v" using len by linarith
  then show ?thesis using s(2) unfolding CurrentSizeEstimate_def s(4) by simp
qed

lemma estimate_new [simp]: "CurrentSizeEstimate BlockBuilder = 8" "CurrentSizeEstimate (Reset b) = 8"
  by (simp_all add: CurrentSizeEstimate_def BlockBuilder_def Reset_def)

section \<open>Writing one block\<close>

lemma Extend_Value: "Extend 0 (Value 0 d) e = Value 0 (d @ e)"
  by (simp add: Value_def Extend_eq crc32c_ref_def crc_update_append xor.assoc)

lemma payload_WriteBlock:
  assumes "snappy_codec snap" and "Snappy_Compress snap raw = Some c"
  shows "payload_of snap 1 c raw"
  using snappy_codec.compress_length [OF assms] snappy_codec.compress_inverse [OF assms] by (simp add: payload_of_def)

context writable_file
begin

lemma WriteRawBlock_effect:
  assumes "WriteRawBlock append_to d type r = (h, r')" "tb_offset r = of_nat (length (written (tb_file r)))"
    "tb_status r = None"
  shows "r' = r\<lparr>tb_status := tb_status r', tb_file := tb_file r', tb_offset := tb_offset r'\<rparr>"
    and "room (tb_file r') = room (tb_file r)"
    and "h = \<lparr>bh_offset = tb_offset r, bh_size = of_nat (length d)\<rparr>"
    and "tb_status r' = None \<Longrightarrow> written (tb_file r') = written (tb_file r) @ checksummed (d @ [type_byte type])"
    and "tb_status r' = None \<Longrightarrow> tb_offset r' = of_nat (length (written (tb_file r')))"
    and "length (written (tb_file r)) + length d + 5 \<le> room (tb_file r) \<Longrightarrow> tb_status r' = None"
proof -
  obtain e1 f1 where 1: "append_to (tb_file r) d = (e1, f1)" by fastforce
  define tr where "tr = type_byte type # EncodeFixed32 kLittleEndian (Mask (Value 0 (d @ [type_byte type])))"
  obtain e2 f2 where 2: "append_to f1 tr = (e2, f2)" by fastforce
  have r': "r' = (if e1 \<noteq> None then r\<lparr>tb_status := e1, tb_file := f1\<rparr>
      else if e2 \<noteq> None then r\<lparr>tb_status := e2, tb_file := f2\<rparr>
      else r\<lparr>tb_status := None, tb_file := f2, tb_offset := tb_offset r + (of_nat (length d) + kBlockTrailerSize)\<rparr>)"
    and h: "h = \<lparr>bh_offset = tb_offset r, bh_size = of_nat (length d)\<rparr>"
    using assms(1) 1 2 by (auto simp: WriteRawBlock_def Let_def Extend_Value tr_def split: option.splits prod.splits)
  have tr: "d @ tr = checksummed (d @ [type_byte type])" "length tr = 5"
    by (simp_all add: tr_def checksummed_def MaskedCrc_def)
  show "h = \<lparr>bh_offset = tb_offset r, bh_size = of_nat (length d)\<rparr>" by (rule h)
  show "r' = r\<lparr>tb_status := tb_status r', tb_file := tb_file r', tb_offset := tb_offset r'\<rparr>" by (simp add: r')
  show "room (tb_file r') = room (tb_file r)"
    using append_room [OF 1] append_room [OF 2] by (simp add: r')
  show w: "written (tb_file r') = written (tb_file r) @ checksummed (d @ [type_byte type])" if "tb_status r' = None"
  proof -
    have "e1 = None" "e2 = None" using that by (auto simp: r' split: if_splits)
    then show ?thesis using append_written [of "tb_file r" d f1] append_written [of f1 tr f2] 1 2 tr(1) by (simp add: r')
  qed
  show "tb_offset r' = of_nat (length (written (tb_file r')))" if "tb_status r' = None"
  proof -
    have "e1 = None" "e2 = None" using that by (auto simp: r' split: if_splits)
    then show ?thesis using w [OF that] assms(2) by (simp add: r' kBlockTrailerSize_def)
  qed
  show "tb_status r' = None" if *: "length (written (tb_file r)) + length d + 5 \<le> room (tb_file r)"
  proof -
    have "e1 = None" using append_succeeds [of "tb_file r" d] 1 * by simp
    moreover from this have "e2 = None"
      using append_succeeds [of f1 tr] append_written [of "tb_file r" d f1] append_room [OF 1] 1 2 * tr by simp
    ultimately show ?thesis by (simp add: r')
  qed
qed

lemma WriteBlock_effect:
  assumes "WriteBlock snap append_to b r = (h, b', r')" "tb_offset r = of_nat (length (written (tb_file r)))"
    "tb_status r = None" "snappy_codec snap" "builder_over b kvs" "CurrentSizeEstimate b < 2 ^ 32"
    "length (written (tb_file r)) < 2 ^ 63"
  shows "r' = r\<lparr>tb_status := tb_status r', tb_file := tb_file r', tb_offset := tb_offset r', compressed_output := []\<rparr>"
    and "room (tb_file r') = room (tb_file r)" and "builder_over b' []" and "CurrentSizeEstimate b' = 8"
    and "length (written (tb_file r)) + CurrentSizeEstimate b + 5 \<le> room (tb_file r) \<Longrightarrow> tb_status r' = None"
    and "unat (bh_offset h) = length (written (tb_file r))"
    and "tb_status r' = None \<Longrightarrow> tb_offset r' = of_nat (length (written (tb_file r')))"
    and "tb_status r' = None \<Longrightarrow> \<exists>x raw. written (tb_file r') = written (tb_file r) @ x \<and> x \<noteq> [] \<and>
      length x \<le> CurrentSizeEstimate b + 5 \<and> stored snap (written (tb_file r')) h raw \<and> block_image raw kvs"
proof -
  define raw where "raw = fst (Finish b)"
  obtain d type c r1 where w: "WriteRawBlock append_to d type (r\<lparr>compressed_output := c\<rparr>) = (h, r1)"
    and r': "r' = r1\<lparr>compressed_output := []\<rparr>" and b': "b' = Reset (snd (Finish b))"
    and p: "payload_of snap (type_byte type) d raw" "length d \<le> length raw"
  proof -
    define t where "t = (case compression (tb_options r) of
               kNoCompression \<Rightarrow> (raw, kNoCompression, r)
             | kSnappyCompression \<Rightarrow>
                 (case Snappy_Compress snap raw of
                    None \<Rightarrow> (raw, kNoCompression, r)
                  | Some compressed \<Rightarrow>
                      if length compressed < length raw - length raw div 8
                      then (compressed, kSnappyCompression, r\<lparr>compressed_output := compressed\<rparr>)
                      else (raw, kNoCompression, r\<lparr>compressed_output := compressed\<rparr>)))"
    obtain d type r0 where t: "t = (d, type, r0)" by (cases t)
    note 0 = t_def [unfolded t]
    have "payload_of snap (type_byte type) d raw \<and> length d \<le> length raw \<and> (\<exists>c. r0 = r\<lparr>compressed_output := c\<rparr>)"
    proof -
      have "\<exists>c. r = r\<lparr>compressed_output := c\<rparr>" by (rule exI [of _ "compressed_output r"]) simp
      then have plain: ?thesis if "(d, type, r0) = (raw, kNoCompression, r)" using that by (simp add: payload_of_def)
      show ?thesis
      proof (cases "compression (tb_options r)")
        case kNoCompression
        then show ?thesis using 0 by (intro plain) simp
      next
        case kSnappyCompression
        show ?thesis
        proof (cases "Snappy_Compress snap raw")
          case None
          then show ?thesis using 0 kSnappyCompression by (intro plain) simp
        next
          case (Some z)
          show ?thesis
          proof (cases "length z < length raw - length raw div 8")
            case True
            then show ?thesis using 0 kSnappyCompression Some payload_WriteBlock [OF assms(4) Some] by auto
          next
            case False
            then show ?thesis using 0 kSnappyCompression Some by (auto simp: payload_of_def)
          qed
        qed
      qed
    qed
    then obtain c where "payload_of snap (type_byte type) d raw" "length d \<le> length raw" and c: "r0 = r\<lparr>compressed_output := c\<rparr>"
      by blast
    moreover obtain h' r1 where 1: "WriteRawBlock append_to d type (r\<lparr>compressed_output := c\<rparr>) = (h', r1)" by fastforce
    have "(h, b', r') = (h', Reset (snd (Finish b)), r1\<lparr>compressed_output := []\<rparr>)"
      using assms(1) 1 unfolding WriteBlock_def Let_def case_prod_beta raw_def [symmetric] 0 [symmetric] c by simp
    ultimately show thesis using that 1 by blast
  qed
  note E = WriteRawBlock_effect [OF w, simplified, OF assms(2,3)]
  note len = length_Finish [of b, folded raw_def]
  show "r' = r\<lparr>tb_status := tb_status r', tb_file := tb_file r', tb_offset := tb_offset r', compressed_output := []\<rparr>"
    unfolding r' by (subst E(1)) simp
  show "room (tb_file r') = room (tb_file r)" using E(2) by (simp add: r')
  show "builder_over b' []" "CurrentSizeEstimate b' = 8" by (simp_all add: b' builder_over_new)
  show "length (written (tb_file r)) + CurrentSizeEstimate b + 5 \<le> room (tb_file r) \<Longrightarrow> tb_status r' = None"
    using E(6) p(2) len by (simp add: r')
  have "length (written (tb_file r)) < 2 ^ 64" using assms(7) by simp
  then show off: "unat (bh_offset h) = length (written (tb_file r))"
    by (simp only: E(3) assms(2) block_handle.simps unat_of_nat64)
  show "tb_status r' = None \<Longrightarrow> tb_offset r' = of_nat (length (written (tb_file r')))" using E(5) by (simp add: r')
  assume "tb_status r' = None"
  then have "written (tb_file r') = written (tb_file r) @ checksummed (d @ [type_byte type])" using E(4) by (simp add: r')
  moreover have "unat (bh_size h) = length d"
  proof -
    have "length d < 2 ^ 64" using p(2) len assms(6) by simp
    then show ?thesis by (simp only: E(3) block_handle.simps unat_of_nat64)
  qed
  then have "stored snap (written (tb_file r) @ checksummed (d @ [type_byte type]) @ []) h raw"
    using off p(1) unfolding stored_def by blast
  moreover have "checksummed (d @ [type_byte type]) \<noteq> []" "length (checksummed (d @ [type_byte type])) \<le> CurrentSizeEstimate b + 5"
    using p(2) len by (simp_all add: checksummed_def)
  ultimately show "\<exists>x raw. written (tb_file r') = written (tb_file r) @ x \<and> x \<noteq> [] \<and>
      length x \<le> CurrentSizeEstimate b + 5 \<and> stored snap (written (tb_file r')) h raw \<and> block_image raw kvs"
    using Finish_image [OF assms(5,6), folded raw_def] unfolding append_Nil2
    by (intro exI [of _ "checksummed (d @ [type_byte type])"] exI [of _ raw]) simp
qed

end

end
