(* ===== verification/Table_Image.thy ===== *)
theory Table_Image
  imports Table_Builder
begin

text \<open>
  What a table under construction and a finished table look like: an invariant of
  \<open>TableBuilder\<close> that \<open>Add\<close> and \<open>Flush\<close> keep, and the image that \<open>Finish\<close> leaves in
  the file. The invariant does not depend on when blocks are cut.
\<close>

section \<open>The invariant of the builder\<close>

type_synonym flushed = "((bytes \<times> bytes) list \<times> block_handle) list"

definition pairs_of :: "flushed \<Rightarrow> (bytes \<times> bytes) list" where
  "pairs_of fl = concat (map fst fl)"

lemma pairs_of_simps [simp]: "pairs_of [] = []" "pairs_of (b # fl) = fst b @ pairs_of fl" "pairs_of (fl @ fl') = pairs_of fl @ pairs_of fl'"
  by (simp_all add: pairs_of_def)

definition index_pairs :: "bytes list \<Rightarrow> flushed \<Rightarrow> (bytes \<times> bytes) list" where
  "index_pairs seps fl = zip seps (map (\<lambda>b. encode_handle (snd b)) fl)"

definition separated :: "bytes list \<Rightarrow> flushed \<Rightarrow> (bytes \<times> bytes) list \<Rightarrow> bool" where
  "separated seps fl cur \<longleftrightarrow> (\<forall>i<length seps. fst (last (fst (fl ! i))) \<le> seps ! i \<and>
     (\<forall>p\<in>set (pairs_of (drop (Suc i) fl) @ cur). seps ! i < fst p))"

definition blocks_stored :: "snappy \<Rightarrow> bytes \<Rightarrow> flushed \<Rightarrow> bool" where
  "blocks_stored snap c fl \<longleftrightarrow> (\<forall>(kvs, h)\<in>set fl. kvs \<noteq> [] \<and> unat (bh_offset h) < length c \<and>
       (\<exists>raw. stored snap c h raw \<and> block_image raw kvs)) \<and>
     sorted_wrt (<) (map (\<lambda>b. unat (bh_offset (snd b))) fl)"

definition table_inv :: "snappy \<Rightarrow> options \<Rightarrow> bytes \<Rightarrow> 'f table_builder \<Rightarrow> flushed \<Rightarrow> (bytes \<times> bytes) list \<Rightarrow> bytes list \<Rightarrow> bool" where
  "table_inv snap opt c r fl cur seps \<longleftrightarrow>
     tb_status r = None \<and> tb_options r = opt \<and> index_block_options r = opt\<lparr>block_restart_interval := 1\<rparr> \<and>
     tb_offset r = of_nat (length c) \<and> blocks_stored snap c fl \<and>
     builder_over (data_block r) cur \<and> builder_over (index_block r) (index_pairs seps fl) \<and> separated seps fl cur \<and>
     (if pending_index_entry r then cur = [] \<and> length fl = Suc (length seps) \<and> pending_handle r = snd (last fl)
      else length fl = length seps) \<and>
     (pairs_of fl @ cur \<noteq> [] \<longrightarrow> tb_last_key r = fst (last (pairs_of fl @ cur))) \<and>
     CurrentSizeEstimate (data_block r) + 45 * length cur \<le> 8 + weight cur \<and>
     CurrentSizeEstimate (index_block r) \<le> 8 + weight (pairs_of (take (length seps) fl)) \<and>
     length c \<le> weight (pairs_of fl)"

lemma table_inv_new: "table_inv snap opt [] (TableBuilder opt f) [] [] []"
  by (simp add: table_inv_def TableBuilder_def blocks_stored_def index_pairs_def separated_def builder_over_new)

lemma table_inv_closed [simp]:
  "table_inv snap opt c (r\<lparr>closed := b\<rparr>) fl cur seps \<longleftrightarrow> table_inv snap opt c r fl cur seps"
  by (simp add: table_inv_def)

lemma blocks_stored_append: "blocks_stored snap c fl \<Longrightarrow> blocks_stored snap (c @ x) fl"
  using stored_append by (fastforce simp: blocks_stored_def)

lemma blocks_stored_snoc:
  assumes "blocks_stored snap c fl" "unat (bh_offset h) = length c" "x \<noteq> []" "kvs \<noteq> []"
    "stored snap (c @ x) h raw" "block_image raw kvs"
  shows "blocks_stored snap (c @ x) (fl @ [(kvs, h)])"
  using assms blocks_stored_append [OF assms(1), of x]
  by (auto simp: blocks_stored_def sorted_wrt_append)

text \<open>Adding the index entry of the last block, with a separator that fits.\<close>

lemma add_index_entry_inv:
  assumes inv: "table_inv snap opt c r fl cur seps" and pending: "pending_index_entry r"
    and sep: "tb_last_key r \<le> sep" "length sep \<le> length (tb_last_key r)"
  shows "table_inv snap opt c ((add_index_entry sep r)\<lparr>tb_last_key := tb_last_key r\<rparr>) fl cur (seps @ [sep])"
proof -
  have p: "cur = []" "length fl = Suc (length seps)" "pending_handle r = snd (last fl)"
    using inv pending by (auto simp: table_inv_def)
  then obtain fl' kvs h where fl: "fl = fl' @ [(kvs, h)]" "length fl' = length seps" by (cases fl rule: rev_cases) auto
  have kvs: "kvs \<noteq> []" using inv by (auto simp: table_inv_def blocks_stored_def fl)
  have last: "tb_last_key r = fst (last kvs)" using inv kvs by (simp add: table_inv_def fl p)
  have ix: "index_pairs (seps @ [sep]) fl = index_pairs seps fl @ [(sep, encode_handle h)]"
    using fl(2) by (simp add: index_pairs_def fl(1) zip_append2)
  have "builder_over (index_block (add_index_entry sep r)) (index_pairs (seps @ [sep]) fl)"
    unfolding ix using inv p by (simp add: add_index_entry_def table_inv_def fl builder_over_Add)
  moreover have "separated (seps @ [sep]) fl cur"
    using inv fl(2) sep(1) last p(1) by (auto simp: table_inv_def separated_def fl(1) nth_append less_Suc_eq)
  moreover have "CurrentSizeEstimate (index_block (add_index_entry sep r)) \<le> 8 + weight (pairs_of (take (length (seps @ [sep])) fl))"
  proof -
    have "CurrentSizeEstimate (index_block (add_index_entry sep r)) \<le> CurrentSizeEstimate (index_block r) + length sep + 20 + 19"
      using estimate_Add [of "index_block_options r" "index_block r" sep "encode_handle h"] length_encode_handle [of h] p fl
      by (simp add: add_index_entry_def kMaxEncodedLength_def)
    moreover have "CurrentSizeEstimate (index_block r) \<le> 8 + weight (pairs_of fl')"
      using inv fl(2) by (simp add: table_inv_def fl(1))
    moreover have "64 + length sep \<le> weight kvs" using weight_pos [OF kvs] sep(2) last by simp
    ultimately show ?thesis using fl(2) by (simp add: fl(1))
  qed
  ultimately show ?thesis
    using inv p by (simp add: table_inv_def add_index_entry_def)
qed

lemma separated_cur:
  "separated seps fl cur \<Longrightarrow> \<forall>s\<in>set seps. s < fst p \<Longrightarrow> separated seps fl (cur @ [p])"
  by (auto simp: separated_def)

lemma separated_flush: "separated seps fl cur \<Longrightarrow> length seps = length fl \<Longrightarrow> separated seps (fl @ [(cur, h)]) []"
  by (auto simp: separated_def nth_append)

lemma pairs_of_drop_subset: "set (pairs_of (drop i fl)) \<subseteq> set (pairs_of fl)"
  unfolding pairs_of_def using set_drop_subset [of i fl] by auto

lemma separated_less:
  assumes "separated seps fl cur" "\<forall>i<length seps. pairs_of (drop (Suc i) fl) @ cur \<noteq> []"
    and "\<forall>p\<in>set (pairs_of fl @ cur). fst p < key"
  shows "\<forall>s\<in>set seps. s < key"
proof
  fix s assume "s \<in> set seps"
  then obtain i where i: "i < length seps" "s = seps ! i" by (auto simp: in_set_conv_nth)
  then obtain p where p: "p \<in> set (pairs_of (drop (Suc i) fl) @ cur)" using assms(2) by (meson last_in_set)
  then have "s < fst p" using assms(1) i by (auto simp: separated_def)
  moreover have "fst p < key" using p pairs_of_drop_subset [of "Suc i" fl] assms(3) by auto
  ultimately show "s < key" by (rule less_trans)
qed

lemma pairs_of_nonempty: "blocks_stored snap c fl \<Longrightarrow> i < length fl \<Longrightarrow> pairs_of (drop i fl) \<noteq> []"
  by (cases "fl ! i") (auto simp: blocks_stored_def Cons_nth_drop_Suc [symmetric] dest!: bspec [OF _ nth_mem])

text \<open>Appending one pair to the current block.\<close>

lemma add_pair_inv:
  assumes inv: "table_inv snap opt c r fl cur seps" and "\<not> pending_index_entry r" "1 \<le> block_restart_interval opt"
    and "\<forall>s\<in>set seps. s < key"
  shows "table_inv snap opt c (r\<lparr>tb_last_key := key, num_entries := n, data_block := Add (tb_options r) (data_block r) key val\<rparr>)
    fl (cur @ [(key, val)]) seps"
  using assms estimate_Add [of opt "data_block r" key val] separated_cur [of seps fl cur "(key, val)"]
  by (auto simp: table_inv_def builder_over_Add)

context writable_file
begin

text \<open>
  The state of a builder that got the pairs \<open>kvs\<close>: either all is well, with no pairs
  left in the current block if \<open>all\<close>, or an append failed, which it does not with enough room.
\<close>

definition building :: "bool \<Rightarrow> snappy \<Rightarrow> options \<Rightarrow> nat \<Rightarrow> 'f table_builder \<Rightarrow> (bytes \<times> bytes) list \<Rightarrow> bool" where
  "building all snap opt R r kvs \<longleftrightarrow> room (tb_file r) = R \<and>
     (if tb_status r = None
      then \<exists>fl cur seps. table_inv snap opt (written (tb_file r)) r fl cur seps \<and> pairs_of fl @ cur = kvs \<and>
        (all \<longrightarrow> cur = []) \<and> (pending_index_entry r \<or> cur \<noteq> [] \<or> fl = [])
      else R < 2 * weight kvs + 200)"

lemma Flush_building:
  assumes "building all snap opt R r kvs" and snap: "snappy_codec snap" and w: "weight kvs < 2 ^ 31"
  shows "building True snap opt R (Flush snap append_to r) kvs"
proof (cases "tb_status r = None")
  case st: True
  obtain fl cur seps where inv: "table_inv snap opt (written (tb_file r)) r fl cur seps" and kvs: "pairs_of fl @ cur = kvs"
    and R: "room (tb_file r) = R" and live: "pending_index_entry r \<or> cur \<noteq> [] \<or> fl = []"
    using assms(1) st by (auto simp: building_def)
  have b: "builder_over (data_block r) cur" using inv by (simp add: table_inv_def)
  show ?thesis
  proof (cases "cur = []")
    case True
    then have "Flush snap append_to r = r" using builder_over_empty [OF b] by (simp add: Flush_def)
    then show ?thesis using inv st True kvs R live by (auto simp: building_def)
  next
    case False
    obtain h b' r' where wb: "WriteBlock snap append_to (data_block r) r = (h, b', r')" by (rule prod_cases3)
    have np: "\<not> pending_index_entry r" "length seps = length fl" using inv False by (auto simp: table_inv_def split: if_splits)
    have wk: "weight kvs = weight (pairs_of fl) + weight cur" by (simp flip: kvs)
    have small: "CurrentSizeEstimate (data_block r) < 2 ^ 32" "length (written (tb_file r)) < 2 ^ 63"
      "CurrentSizeEstimate (data_block r) + 5 \<le> weight cur" "length (written (tb_file r)) \<le> weight (pairs_of fl)"
      using inv w False wk by (cases cur; auto simp: table_inv_def)+
    have off: "tb_offset r = of_nat (length (written (tb_file r)))" using inv by (simp add: table_inv_def)
    note E = WriteBlock_effect [OF wb off st snap b small(1,2)]
    define r2 where "r2 = r'\<lparr>pending_handle := h, data_block := b', pending_index_entry := True\<rparr>"
    have F: "Flush snap append_to r = (if tb_status r' = None then r2 else r'\<lparr>pending_handle := h, data_block := b'\<rparr>)"
      using st builder_over_empty [OF b] False wb by (simp add: Flush_def r2_def Let_def)
    show ?thesis
    proof (cases "tb_status r' = None")
      case True
      obtain x raw where x: "written (tb_file r') = written (tb_file r) @ x" "x \<noteq> []"
        "length x \<le> CurrentSizeEstimate (data_block r) + 5" "stored snap (written (tb_file r')) h raw" "block_image raw cur"
        using E(8) [OF True] by blast
      have "blocks_stored snap (written (tb_file r')) (fl @ [(cur, h)])"
        using inv E(6) x False unfolding x(1) by (intro blocks_stored_snoc) (auto simp: table_inv_def)
      moreover have "index_pairs seps (fl @ [(cur, h)]) = index_pairs seps fl" using np by (simp add: index_pairs_def zip_append2)
      moreover have "length (written (tb_file r')) \<le> weight (pairs_of (fl @ [(cur, h)]))" using x(1,3) small by simp
      moreover have "separated seps (fl @ [(cur, h)]) []" using inv np by (intro separated_flush) (auto simp: table_inv_def)
      ultimately have "table_inv snap opt (written (tb_file r')) r2 (fl @ [(cur, h)]) [] seps"
        unfolding r2_def using inv np False True E(3,4,7) by (subst E(1)) (simp add: table_inv_def)
      then show ?thesis using True E(2) R kvs unfolding building_def F by (auto simp: r2_def)
    next
      case False
      then have "\<not> length (written (tb_file r)) + CurrentSizeEstimate (data_block r) + 5 \<le> R" using E(5) R by auto
      then have "R < 2 * weight kvs + 200" using small wk by linarith
      then show ?thesis using False E(2) R unfolding building_def F by auto
    qed
  qed
next
  case False
  then show ?thesis using assms(1) by (auto simp: building_def Flush_def)
qed

lemma building_mono: "building all snap opt R r kvs \<Longrightarrow> building False snap opt R r kvs"
  unfolding building_def by metis

lemma building_failed: "building all snap opt R r kvs \<Longrightarrow> tb_status r \<noteq> None \<Longrightarrow> building all' snap opt R r (kvs @ kvs')"
  by (auto simp: building_def)

lemma Add_building:
  assumes "building False snap opt R r kvs" and snap: "snappy_codec snap" and w: "weight (kvs @ [(key, val)]) < 2 ^ 31"
    and opt: "1 \<le> block_restart_interval opt" and sorted: "sorted_wrt (<) (map fst (kvs @ [(key, val)]))"
  shows "building False snap opt R (TableBuilder_Add snap append_to r key val) (kvs @ [(key, val)])"
proof (cases "tb_status r = None")
  case st: True
  define r1 where "r1 = (if 0 < sint (num_entries r)
      then if kOverlyLargeBlockRatio * block_size (tb_options r) mod 2 ^ 64 \<le> length key + length val
        then Flush snap append_to r else r
      else r)"
  have r1: "building False snap opt R r1 kvs"
    using assms(1) Flush_building [OF assms(1) snap] building_mono w by (simp add: r1_def)
  define r2 where "r2 = (if pending_index_entry r1
      then add_index_entry (FindShortestSeparator (tb_last_key r1) key) r1 else r1)"
  define r3 where "r3 = r2\<lparr>tb_last_key := key, num_entries := num_entries r2 + 1,
      data_block := Add (tb_options r2) (data_block r2) key val\<rparr>"
  have eq: "TableBuilder_Add snap append_to r key val =
      (if block_size (tb_options r3) \<le> CurrentSizeEstimate (data_block r3) then Flush snap append_to r3 else r3)"
    unfolding TableBuilder_Add_def Let_def r1_def [symmetric] r2_def [symmetric] r3_def [symmetric] using st by simp
  have "building False snap opt R r3 (kvs @ [(key, val)])"
  proof (cases "tb_status r1 = None")
    case False
    then have "tb_status r3 \<noteq> None" "room (tb_file r3) = room (tb_file r1)"
      by (simp_all add: r3_def r2_def add_index_entry_def)
    then show ?thesis using r1 False by (auto simp: building_def)
  next
    case st1: True
    then obtain fl cur seps where inv: "table_inv snap opt (written (tb_file r1)) r1 fl cur seps"
      and kvs: "pairs_of fl @ cur = kvs" and R: "room (tb_file r1) = R"
      and live: "pending_index_entry r1 \<or> cur \<noteq> [] \<or> fl = []" using r1 by (auto simp: building_def)
    have less: "fst p < key" if "p \<in> set kvs" for p using sorted that by (auto simp: sorted_wrt_append)
    have "\<exists>seps'. table_inv snap opt (written (tb_file r1)) (r2\<lparr>tb_last_key := tb_last_key r1\<rparr>) fl cur seps' \<and>
        \<not> pending_index_entry r2 \<and> (\<forall>s\<in>set seps'. s < key)"
    proof (cases "pending_index_entry r1")
      case True
      let ?sep = "FindShortestSeparator (tb_last_key r1) key"
      have p: "cur = []" "length fl = Suc (length seps)" using inv True by (auto simp: table_inv_def)
      have ne: "pairs_of (drop i fl) \<noteq> []" if "i < length fl" for i
        using inv that pairs_of_nonempty by (auto simp: table_inv_def)
      have last: "tb_last_key r1 < key"
        using inv less kvs p ne [of 0] by (auto simp: table_inv_def)
      note sep = FindShortestSeparator_between [OF last]
      have "separated seps fl cur" using inv by (simp add: table_inv_def)
      then have "\<forall>s\<in>set seps. s < key" using p ne less kvs by (intro separated_less [of seps fl cur]) auto
      then show ?thesis using add_index_entry_inv [OF inv True sep(1,3)] sep(2) True
        by (intro exI [of _ "seps @ [?sep]"]) (simp add: r2_def add_index_entry_def)
    next
      case False
      have "separated seps fl cur" "length fl = length seps" using inv False by (auto simp: table_inv_def)
      then have "\<forall>s\<in>set seps. s < key" using less kvs live False by (intro separated_less [of seps fl cur]) auto
      then show ?thesis using inv False by (intro exI [of _ seps]) (simp add: r2_def)
    qed
    then obtain seps' where s: "table_inv snap opt (written (tb_file r1)) (r2\<lparr>tb_last_key := tb_last_key r1\<rparr>) fl cur seps'"
        "\<not> pending_index_entry r2" "\<forall>s\<in>set seps'. s < key" by blast
    have "table_inv snap opt (written (tb_file r1)) r3 fl (cur @ [(key, val)]) seps'"
      using add_pair_inv [OF s(1) _ opt s(3), where n = "num_entries r2 + 1" and val = val] s(2) by (simp add: r3_def)
    moreover have "tb_file r3 = tb_file r1" "tb_status r3 = None" using st1 by (simp_all add: r3_def r2_def add_index_entry_def)
    ultimately show ?thesis using R kvs unfolding building_def
      by (auto intro!: exI [of _ fl] exI [of _ "cur @ [(key, val)]"] exI [of _ seps'])
  qed
  then show ?thesis unfolding eq using building_mono [OF Flush_building [OF _ snap w]] by simp
next
  case False
  then show ?thesis using building_failed [OF assms(1) False] by (simp add: TableBuilder_Add_def)
qed

lemma add_pairs_building:
  assumes "building False snap opt R r kvs" and snap: "snappy_codec snap" and "weight (kvs @ kvs') < 2 ^ 31"
    and opt: "1 \<le> block_restart_interval opt" and "sorted_wrt (<) (map fst (kvs @ kvs'))"
  shows "building False snap opt R (add_pairs snap append_to r kvs') (kvs @ kvs')"
  using assms(1,3,5)
proof (induction kvs' arbitrary: r kvs)
  case (Cons p kvs')
  obtain k v where p: "p = (k, v)" by fastforce
  have "building False snap opt R (TableBuilder_Add snap append_to r k v) (kvs @ [(k, v)])"
    using Cons.prems by (intro Add_building [OF _ snap _ opt]) (auto simp: p sorted_wrt_append)
  from Cons.IH [OF this] Cons.prems show ?case by (simp add: p)
qed simp

end

section \<open>Finished tables\<close>

definition table_image :: "snappy \<Rightarrow> bytes \<Rightarrow> (bytes \<times> bytes) list \<Rightarrow> flushed \<Rightarrow> bytes list \<Rightarrow> bool" where
  "table_image snap c kvs fl seps \<longleftrightarrow> pairs_of fl = kvs \<and> length seps = length fl \<and> blocks_stored snap c fl \<and>
     separated seps fl [] \<and>
     (\<exists>pre foot raw. c = pre @ footer_bytes foot \<and> stored snap c (index_handle foot) raw \<and>
        block_image raw (index_pairs seps fl))"

lemma final_index_entry:
  assumes inv: "table_inv snap opt c r fl [] seps" and live: "pending_index_entry r \<or> fl = []"
    and r': "r' = (if pending_index_entry r then add_index_entry (FindShortSuccessor (tb_last_key r)) r else r)"
  shows "\<exists>seps'. length seps' = length fl \<and> separated seps' fl [] \<and> builder_over (index_block r') (index_pairs seps' fl) \<and>
    CurrentSizeEstimate (index_block r') \<le> 8 + weight (pairs_of fl)"
proof (cases "pending_index_entry r")
  case True
  have l: "length fl = Suc (length seps)" using inv True by (simp add: table_inv_def)
  have "table_inv snap opt c ((add_index_entry (FindShortSuccessor (tb_last_key r)) r)\<lparr>tb_last_key := tb_last_key r\<rparr>) fl []
      (seps @ [FindShortSuccessor (tb_last_key r)])"
    by (rule add_index_entry_inv [OF inv True FindShortSuccessor_ge])
  then show ?thesis using l True
    by (intro exI [of _ "seps @ [FindShortSuccessor (tb_last_key r)]"]) (simp add: r' table_inv_def)
next
  case False
  then show ?thesis using inv live by (intro exI [of _ seps]) (auto simp: r' table_inv_def)
qed

context writable_file
begin

lemma TableBuilder_Finish_image:
  assumes "building False snap opt R r kvs" and snap: "snappy_codec snap" and w: "weight kvs < 2 ^ 31"
    and fin: "TableBuilder_Finish snap append_to r = (e, r')"
  shows "if e = None then \<exists>fl seps. table_image snap (written (tb_file r')) kvs fl seps \<and>
      length (written (tb_file r')) \<le> 2 * weight kvs + 200 \<and> FileSize r' = of_nat (length (written (tb_file r')))
    else R < 2 * weight kvs + 200"
proof -
  define r0 where "r0 = (Flush snap append_to r)\<lparr>closed := True\<rparr>"
  have fl0: "building True snap opt R (Flush snap append_to r) kvs" by (rule Flush_building [OF assms(1) snap w])
  show ?thesis
  proof (cases "tb_status r0 = None")
    case False
    then have "e = tb_status r0" using fin unfolding TableBuilder_Finish_def r0_def [symmetric] by (auto simp: Let_def)
    then show ?thesis using fl0 False by (auto simp: building_def r0_def)
  next
    case st0: True
    obtain fl seps where inv: "table_inv snap opt (written (tb_file r0)) r0 fl [] seps" and kvs: "pairs_of fl = kvs"
      and R: "room (tb_file r0) = R" and live: "pending_index_entry r0 \<or> fl = []"
      using fl0 st0 by (auto simp: building_def r0_def)
    have c0: "length (written (tb_file r0)) \<le> weight kvs" "tb_offset r0 = of_nat (length (written (tb_file r0)))"
      "blocks_stored snap (written (tb_file r0)) fl" using inv kvs by (auto simp: table_inv_def)
    obtain hm bm r1 where wm: "WriteBlock snap append_to BlockBuilder r0 = (hm, bm, r1)" by (rule prod_cases3)
    have "length (written (tb_file r0)) < 2 ^ 63" using c0 w by simp
    note M = WriteBlock_effect [OF wm c0(2) st0 snap builder_over_new(1), simplified, OF this [simplified]]
    show ?thesis
    proof (cases "tb_status r1 = None")
      case False
      then have "R < 2 * weight kvs + 200" using M(5) c0(1) R by (cases "length (written (tb_file r0)) + 13 \<le> R") auto
      moreover have "e = tb_status r1" using fin st0 wm False unfolding TableBuilder_Finish_def r0_def [symmetric]
        by (auto simp: Let_def)
      ultimately show ?thesis using False by auto
    next
      case st1: True
      obtain x where x: "written (tb_file r1) = written (tb_file r0) @ x" "length x \<le> 13" using M(8) [OF st1] by auto
      define r2 where "r2 = (if pending_index_entry r1 then add_index_entry (FindShortSuccessor (tb_last_key r1)) r1 else r1)"
      have r1f: "index_block r1 = index_block r0" "pending_index_entry r1 = pending_index_entry r0"
        "tb_last_key r1 = tb_last_key r0" "index_block_options r1 = index_block_options r0" "pending_handle r1 = pending_handle r0"
        by (subst M(1), simp)+
      obtain seps' where s': "length seps' = length fl" "separated seps' fl []"
        "builder_over (index_block r2) (index_pairs seps' fl)" "CurrentSizeEstimate (index_block r2) \<le> 8 + weight kvs"
        using final_index_entry [OF inv live refl] r1f kvs by (auto simp: r2_def add_index_entry_def)
      have r2: "tb_file r2 = tb_file r1" "tb_offset r2 = of_nat (length (written (tb_file r2)))" "tb_status r2 = None"
        using M(7) [OF st1] st1 by (simp_all add: r2_def add_index_entry_def)
      obtain hi bi r3 where wi: "WriteBlock snap append_to (index_block r2) r2 = (hi, bi, r3)" by (rule prod_cases3)
      have small: "CurrentSizeEstimate (index_block r2) < 2 ^ 32" "length (written (tb_file r2)) < 2 ^ 63"
        using s'(4) x c0(1) w r2(1) by simp_all
      note I = WriteBlock_effect [OF wi r2(2,3) snap s'(3) small]
      have F: "TableBuilder_Finish snap append_to r = (let r4 = r3\<lparr>index_block := bi\<rparr>;
          r5 = (if tb_status r4 = None then
                 let footer_encoding = EncodeTo_footer \<lparr>metaindex_handle = hm, index_handle = hi\<rparr> []
                 in case append_to (tb_file r4) footer_encoding of
                      (Some e, f) \<Rightarrow> r4\<lparr>tb_status := Some e, tb_file := f\<rparr>
                    | (None, f) \<Rightarrow> r4\<lparr>tb_status := None, tb_file := f,
                        tb_offset := tb_offset r4 + of_nat (length footer_encoding)\<rparr>
               else r4) in (tb_status r5, r5))"
        using st0 wm st1 wi by (simp add: TableBuilder_Finish_def Let_def r0_def [symmetric] r2_def [symmetric])
      show ?thesis
      proof (cases "tb_status r3 = None")
        case False
        have "\<not> length (written (tb_file r2)) + CurrentSizeEstimate (index_block r2) + 5 \<le> R"
          using I(5) False R M(2) r2(1) by auto
        then have "R < 2 * weight kvs + 200" using s'(4) x c0(1) r2(1) by simp
        moreover have "e \<noteq> None" using fin False by (auto simp: F Let_def)
        ultimately show ?thesis by auto
      next
        case st3: True
        obtain y raw where y: "written (tb_file r3) = written (tb_file r2) @ y" "length y \<le> CurrentSizeEstimate (index_block r2) + 5"
          "stored snap (written (tb_file r3)) hi raw" "block_image raw (index_pairs seps' fl)" using I(8) [OF st3] by blast
        let ?foot = "\<lparr>metaindex_handle = hm, index_handle = hi\<rparr>"
        obtain e' f where ap: "append_to (tb_file r3) (footer_bytes ?foot) = (e', f)" by fastforce
        have R3: "room (tb_file r3) = R" using I(2) M(2) R r2(1) by simp
        have len: "length (written (tb_file r3)) + 48 \<le> 2 * weight kvs + 200" using y(1,2) s'(4) x c0(1) r2(1) by simp
        have fb: "length (footer_bytes ?foot) = 48" by (simp add: kEncodedLength_def kMaxEncodedLength_def)
        show ?thesis
        proof (cases e')
          case None
          have wf: "written f = written (tb_file r3) @ footer_bytes ?foot" using append_written ap None by simp
          have e: "e = None" "tb_file r' = f" "tb_offset r' = tb_offset r3 + of_nat (length (footer_bytes ?foot))"
            using fin st3 ap None by (auto simp: F Let_def EncodeTo_footer_eq)
          have "blocks_stored snap (written f) fl"
            using c0(3) unfolding wf y(1) r2(1) x(1) append.assoc by (rule blocks_stored_append)
          moreover have "stored snap (written f) hi raw" unfolding wf by (rule stored_append [OF y(3)])
          moreover have "FileSize r' = of_nat (length (written f))"
            using I(7) [OF st3] by (simp add: FileSize_def e(3) wf)
          moreover have "length (written f) \<le> 2 * weight kvs + 200" using len fb by (simp add: wf)
          ultimately show ?thesis
            using s' y(4) kvs wf e by (auto simp: table_image_def intro!: exI [of _ fl] exI [of _ seps'] exI [of _ ?foot])
        next
          case (Some e0)
          have "\<not> length (written (tb_file r3)) + length (footer_bytes ?foot) \<le> room (tb_file r3)"
            using append_succeeds [of "tb_file r3" "footer_bytes ?foot"] ap Some by auto
          then have "R < 2 * weight kvs + 200" using len R3 fb by linarith
          moreover have "e \<noteq> None" using fin st3 ap Some by (auto simp: F Let_def EncodeTo_footer_eq)
          ultimately show ?thesis by auto
        qed
      qed
    qed
  qed
qed

lemma build_table_image:
  assumes "written f = []" "snappy_codec snap" "weight kvs < 2 ^ 31" "1 \<le> block_restart_interval opt"
    and "sorted_wrt (<) (map fst kvs)" "build_table snap append_to opt f kvs = (e, r)"
  shows "if e = None then \<exists>fl seps. table_image snap (written (tb_file r)) kvs fl seps \<and>
      length (written (tb_file r)) \<le> 2 * weight kvs + 200 \<and> FileSize r = of_nat (length (written (tb_file r)))
    else room f < 2 * weight kvs + 200"
proof -
  have "building False snap opt (room f) (TableBuilder opt f) []"
    using table_inv_new [of snap opt f] assms(1) unfolding building_def
    by (auto simp: TableBuilder_def intro!: exI [of _ "[]"])
  from add_pairs_building [OF this, of kvs] assms
  have "building False snap opt (room f) (add_pairs snap append_to (TableBuilder opt f) kvs) kvs" by simp
  from TableBuilder_Finish_image [OF this] assms show ?thesis by (simp add: build_table_def)
qed

end

end
