(* ===== verification/Two_Level.thy ===== *)
theory Two_Level
  imports Table_Image
begin

text \<open>
  The iterator interface of \<open>lib/io/iterator.cc\<close> and the two-level iterator of
  \<open>lib/io/two_level_iterator.cc\<close>, which runs over the blocks that an index iterator
  points at. It meets the cursor interface that block iterators meet, over the
  concatenation of the blocks.
\<close>

section \<open>The iterator interface\<close>

text \<open>
  The virtual functions of \<open>Iterator\<close> on the iterators that \<open>NewIterator\<close> and
  \<open>NewErrorIterator\<close> return. The asserts of the empty iterator are compiled out.
\<close>

definition NewErrorIterator :: "code option \<Rightarrow> block_iterator" where
  "NewErrorIterator status = EmptyIterator status"

fun it_Valid :: "block_iterator \<Rightarrow> bool" where
  "it_Valid (EmptyIterator s) = False"
| "it_Valid (BlockIter it) = Valid it"

fun it_key :: "block_iterator \<Rightarrow> bytes" where
  "it_key (EmptyIterator s) = []"
| "it_key (BlockIter it) = key_of it"

fun it_value :: "block_iterator \<Rightarrow> bytes" where
  "it_value (EmptyIterator s) = []"
| "it_value (BlockIter it) = value_of it"

fun it_status :: "block_iterator \<Rightarrow> code option" where
  "it_status (EmptyIterator s) = s"
| "it_status (BlockIter it) = istatus it"

fun it_Seek :: "block_iterator \<Rightarrow> bytes \<Rightarrow> block_iterator option" where
  "it_Seek (EmptyIterator s) target = Some (EmptyIterator s)"
| "it_Seek (BlockIter it) target = map_option BlockIter (Seek it target)"

fun it_SeekToFirst :: "block_iterator \<Rightarrow> block_iterator" where
  "it_SeekToFirst (EmptyIterator s) = EmptyIterator s"
| "it_SeekToFirst (BlockIter it) = BlockIter (SeekToFirst it)"

fun it_Next :: "block_iterator \<Rightarrow> block_iterator" where
  "it_Next (EmptyIterator s) = EmptyIterator s"
| "it_Next (BlockIter it) = BlockIter (Next it)"

section \<open>The two-level iterator\<close>

text \<open>\<open>block_function\<close> makes the iterator over the block that an index value stands for.\<close>

type_synonym block_function = "bytes \<Rightarrow> block_iterator option"

record two_level =
  tl_status :: "code option"
  index_iter :: block_iterator
  data_iter :: "block_iterator option"
  data_block_handle :: bytes

definition NewTwoLevelIterator :: "block_iterator \<Rightarrow> two_level" where
  "NewTwoLevelIterator index =
     \<lparr>tl_status = None, index_iter = index, data_iter = None, data_block_handle = []\<rparr>"

definition TwoLevel_Valid :: "two_level \<Rightarrow> bool" where
  "TwoLevel_Valid s = (case data_iter s of None \<Rightarrow> False | Some d \<Rightarrow> it_Valid d)"

definition TwoLevel_key :: "two_level \<Rightarrow> bytes" where
  "TwoLevel_key s = it_key (the (data_iter s))"

definition TwoLevel_value :: "two_level \<Rightarrow> bytes" where
  "TwoLevel_value s = it_value (the (data_iter s))"

definition TwoLevel_status :: "two_level \<Rightarrow> code option" where
  "TwoLevel_status s =
     (if it_status (index_iter s) \<noteq> None then it_status (index_iter s)
      else case data_iter s of
        Some d \<Rightarrow> if it_status d \<noteq> None then it_status d else tl_status s
      | None \<Rightarrow> tl_status s)"

definition SaveError :: "code option \<Rightarrow> two_level \<Rightarrow> two_level" where
  "SaveError e s = (if tl_status s = None \<and> e \<noteq> None then s\<lparr>tl_status := e\<rparr> else s)"

definition SetDataIterator :: "block_iterator option \<Rightarrow> two_level \<Rightarrow> two_level" where
  "SetDataIterator it s =
     (let s = (case data_iter s of None \<Rightarrow> s | Some d \<Rightarrow> SaveError (it_status d) s)
      in s\<lparr>data_iter := it\<rparr>)"

definition InitDataBlock :: "block_function \<Rightarrow> two_level \<Rightarrow> two_level option" where
  "InitDataBlock bf s =
     (if \<not> it_Valid (index_iter s) then Some (SetDataIterator None s)
      else
        let handle = it_value (index_iter s) in
        if data_iter s \<noteq> None \<and> compare_sp handle (data_block_handle s) = 0 then Some s
        else
          case bf handle of
            None \<Rightarrow> None
          | Some it \<Rightarrow> Some (SetDataIterator (Some it) (s\<lparr>data_block_handle := handle\<rparr>)))"

text \<open>\<open>if (data_iter_ != NULL) data_iter_->SeekToFirst()\<close>, and the same for \<open>Seek\<close>.\<close>

definition data_first :: "two_level \<Rightarrow> two_level" where
  "data_first s = s\<lparr>data_iter := map_option it_SeekToFirst (data_iter s)\<rparr>"

definition data_seek :: "bytes \<Rightarrow> two_level \<Rightarrow> two_level option" where
  "data_seek target s =
     (case data_iter s of
        None \<Rightarrow> Some s
      | Some d \<Rightarrow> (case it_Seek d target of None \<Rightarrow> None | Some d' \<Rightarrow> Some (s\<lparr>data_iter := Some d'\<rparr>)))"

partial_function (option) SkipEmptyDataBlocksForward :: "block_function \<Rightarrow> two_level \<Rightarrow> two_level option" where
  "SkipEmptyDataBlocksForward bf s =
     (if (case data_iter s of None \<Rightarrow> True | Some d \<Rightarrow> \<not> it_Valid d)
      then
        (if \<not> it_Valid (index_iter s) then Some (SetDataIterator None s)
         else
           case InitDataBlock bf (s\<lparr>index_iter := it_Next (index_iter s)\<rparr>) of
             None \<Rightarrow> None
           | Some s' \<Rightarrow> SkipEmptyDataBlocksForward bf (data_first s'))
      else Some s)"

definition TwoLevel_Seek :: "block_function \<Rightarrow> two_level \<Rightarrow> bytes \<Rightarrow> two_level option" where
  "TwoLevel_Seek bf s target =
     (case it_Seek (index_iter s) target of
        None \<Rightarrow> None
      | Some i \<Rightarrow>
          (case InitDataBlock bf (s\<lparr>index_iter := i\<rparr>) of
             None \<Rightarrow> None
           | Some s \<Rightarrow> (case data_seek target s of None \<Rightarrow> None | Some s \<Rightarrow> SkipEmptyDataBlocksForward bf s)))"

definition TwoLevel_SeekToFirst :: "block_function \<Rightarrow> two_level \<Rightarrow> two_level option" where
  "TwoLevel_SeekToFirst bf s =
     (case InitDataBlock bf (s\<lparr>index_iter := it_SeekToFirst (index_iter s)\<rparr>) of
        None \<Rightarrow> None
      | Some s \<Rightarrow> SkipEmptyDataBlocksForward bf (data_first s))"

definition TwoLevel_Next :: "block_function \<Rightarrow> two_level \<Rightarrow> two_level option" where
  "TwoLevel_Next bf s =
     SkipEmptyDataBlocksForward bf (s\<lparr>data_iter := map_option it_Next (data_iter s)\<rparr>)"

section \<open>Positions in a list of blocks\<close>

definition before :: "'a list list \<Rightarrow> nat \<Rightarrow> nat" where
  "before bs i = length (concat (take i bs))"

lemma before_0 [simp]: "before bs 0 = 0"
  by (simp add: before_def)

lemma before_Suc: "i < length bs \<Longrightarrow> before bs (Suc i) = before bs i + length (bs ! i)"
  by (simp add: before_def take_Suc_conv_app_nth)

lemma before_length: "before bs (length bs) = length (concat bs)"
  by (simp add: before_def)

lemma concat_nth_before:
  assumes "i < length bs" "j < length (bs ! i)"
  shows "concat bs ! (before bs i + j) = bs ! i ! j" and "before bs i + j < length (concat bs)"
proof -
  have "concat bs = concat (take i bs) @ bs ! i @ concat (drop (Suc i) bs)"
    using assms(1) by (metis concat.simps(2) concat_append id_take_nth_drop)
  then show "concat bs ! (before bs i + j) = bs ! i ! j" "before bs i + j < length (concat bs)"
    using assms(2) by (simp_all add: before_def nth_append)
qed

section \<open>Iterating over stored blocks\<close>

text \<open>
  An index with sorted keys and distinct values, each of which \<open>bf\<close> turns into an iterator
  over a block of pairs. No block is empty, and the key of a block lies between the last
  key of the block and all later ones.
\<close>

definition indexed_blocks :: "block_function \<Rightarrow> (bytes \<times> bytes) list \<Rightarrow> (bytes \<times> bytes) list list \<Rightarrow> bool" where
  "indexed_blocks bf idx blocks \<longleftrightarrow> length blocks = length idx \<and> distinct (map snd idx) \<and> sorted_wrt (<) (map fst idx) \<and>
     (\<forall>i<length blocks. blocks ! i \<noteq> [] \<and> fst (last (blocks ! i)) \<le> fst (idx ! i) \<and>
        (\<forall>p\<in>set (concat (drop (Suc i) blocks)). fst (idx ! i) < fst p) \<and>
        (\<exists>it. bf (snd (idx ! i)) = Some (BlockIter it) \<and> block_over it (blocks ! i)))"

text \<open>The data iterator is over the block whose handle was used last.\<close>

definition consistent :: "(bytes \<times> bytes) list \<Rightarrow> (bytes \<times> bytes) list list \<Rightarrow> two_level \<Rightarrow> bool" where
  "consistent idx blocks s \<longleftrightarrow> tl_status s = None \<and> (\<exists>ii. index_iter s = BlockIter ii \<and> block_over ii idx) \<and>
     (\<forall>d. data_iter s = Some d \<longrightarrow> (\<exists>it i. d = BlockIter it \<and> i < length blocks \<and>
        data_block_handle s = snd (idx ! i) \<and> block_over it (blocks ! i)))"

text \<open>The index iterator at entry \<open>i\<close>; the data iterator over block \<open>i\<close>, and at pair \<open>j\<close> of it.\<close>

definition index_at :: "(bytes \<times> bytes) list \<Rightarrow> (bytes \<times> bytes) list list \<Rightarrow> two_level \<Rightarrow> nat \<Rightarrow> bool" where
  "index_at idx blocks s i \<longleftrightarrow> consistent idx blocks s \<and> i \<le> length blocks \<and>
     (\<exists>ii. index_iter s = BlockIter ii \<and> block_at ii idx i)"

definition data_over :: "(bytes \<times> bytes) list \<Rightarrow> (bytes \<times> bytes) list list \<Rightarrow> two_level \<Rightarrow> nat \<Rightarrow> bool" where
  "data_over idx blocks s i \<longleftrightarrow> index_at idx blocks s i \<and> (if i < length blocks
     then data_block_handle s = snd (idx ! i) \<and> (\<exists>it. data_iter s = Some (BlockIter it) \<and> block_over it (blocks ! i))
     else data_iter s = None)"

definition data_at :: "(bytes \<times> bytes) list \<Rightarrow> (bytes \<times> bytes) list list \<Rightarrow> two_level \<Rightarrow> nat \<Rightarrow> nat \<Rightarrow> bool" where
  "data_at idx blocks s i j \<longleftrightarrow> data_over idx blocks s i \<and>
     (if i < length blocks then \<exists>it. data_iter s = Some (BlockIter it) \<and> block_at it (blocks ! i) j else j = 0)"

definition settled :: "(bytes \<times> bytes) list list \<Rightarrow> nat \<Rightarrow> nat \<Rightarrow> bool" where
  "settled blocks i j \<longleftrightarrow> (if i < length blocks then j < length (blocks ! i) else i = length blocks \<and> j = 0)"

lemma block_over_status: "block_over it kvs \<Longrightarrow> istatus it = None"
  by (auto simp: block_over_def over_block_def)

lemma SetDataIterator_consistent:
  assumes "consistent idx blocks s"
  shows "SetDataIterator it (s\<lparr>data_block_handle := h\<rparr>) = s\<lparr>data_block_handle := h, data_iter := it\<rparr>"
    and "SetDataIterator it s = s\<lparr>data_iter := it\<rparr>"
proof -
  have "it_status d = None" if "data_iter s = Some d" for d
    using assms that by (auto simp: consistent_def block_over_status)
  then show "SetDataIterator it (s\<lparr>data_block_handle := h\<rparr>) = s\<lparr>data_block_handle := h, data_iter := it\<rparr>"
    and "SetDataIterator it s = s\<lparr>data_iter := it\<rparr>"
    by (auto simp: SetDataIterator_def SaveError_def Let_def split: option.splits)
qed

lemma index_at_valid:
  assumes "indexed_blocks bf idx blocks" "index_at idx blocks s i"
  shows "it_Valid (index_iter s) \<longleftrightarrow> i < length blocks"
    and "i < length blocks \<Longrightarrow> it_value (index_iter s) = snd (idx ! i)"
proof -
  obtain ii where ii: "index_iter s = BlockIter ii" "block_at ii idx i" using assms(2) by (auto simp: index_at_def)
  have len: "length blocks = length idx" using assms(1) by (simp add: indexed_blocks_def)
  show "it_Valid (index_iter s) \<longleftrightarrow> i < length blocks" using block_cursor.at_valid [OF ii(2)] ii(1) len by simp
  show "it_value (index_iter s) = snd (idx ! i)" if "i < length blocks"
    using block_cursor.at_key [OF ii(2)] that len ii(1) by (simp add: prod_eq_iff)
qed

lemma InitDataBlock_over:
  assumes ib: "indexed_blocks bf idx blocks" and at: "index_at idx blocks s i"
  shows "\<exists>s'. InitDataBlock bf s = Some s' \<and> data_over idx blocks s' i"
proof -
  have con: "consistent idx blocks s" using at by (simp add: index_at_def)
  note set = SetDataIterator_consistent [OF con]
  note v = index_at_valid [OF ib at]
  show ?thesis
  proof (cases "i < length blocks")
    case False
    then have "InitDataBlock bf s = Some (s\<lparr>data_iter := None\<rparr>)" using v by (simp add: InitDataBlock_def set)
    then show ?thesis using at con False by (auto simp: data_over_def index_at_def consistent_def)
  next
    case True
    obtain it where it: "bf (snd (idx ! i)) = Some (BlockIter it)" "block_over it (blocks ! i)"
      using ib True by (auto simp: indexed_blocks_def)
    show ?thesis
    proof (cases "data_iter s \<noteq> None \<and> data_block_handle s = snd (idx ! i)")
      case same: True
      then have "InitDataBlock bf s = Some s" using v True by (auto simp: InitDataBlock_def compare_sp_eq)
      moreover obtain it' i' where d: "data_iter s = Some (BlockIter it')" "i' < length blocks"
        "data_block_handle s = snd (idx ! i')" "block_over it' (blocks ! i')"
        using con same unfolding consistent_def by blast
      moreover have "i' = i"
        using ib True same d by (simp add: indexed_blocks_def distinct_conv_nth) metis
      ultimately show ?thesis using at True by (auto simp: data_over_def)
    next
      case False
      then have "InitDataBlock bf s = Some (s\<lparr>data_block_handle := snd (idx ! i), data_iter := Some (BlockIter it)\<rparr>)"
        using v True it by (auto simp: InitDataBlock_def compare_sp_eq set)
      then show ?thesis using at con True it by (auto simp: data_over_def index_at_def consistent_def)
    qed
  qed
qed

lemma data_at_change:
  assumes "data_over idx blocks s i" "i < length blocks" "block_at it (blocks ! i) j"
  shows "data_at idx blocks (s\<lparr>data_iter := Some (BlockIter it)\<rparr>) i j"
  using assms block_cursor.at_over [OF assms(3)]
  by (auto simp: data_at_def data_over_def index_at_def consistent_def)

lemma data_at_end: "data_over idx blocks s (length blocks) \<Longrightarrow> data_at idx blocks s (length blocks) 0"
  by (simp add: data_at_def)

lemma data_first_at:
  assumes "data_over idx blocks s i"
  shows "data_at idx blocks (data_first s) i 0"
proof (cases "i < length blocks")
  case True
  then obtain it where it: "data_iter s = Some (BlockIter it)" "block_over it (blocks ! i)"
    using assms by (auto simp: data_over_def)
  show ?thesis using data_at_change [OF assms True block_cursor.first_at [OF it(2)]] it(1) by (simp add: data_first_def)
next
  case False
  then have "i = length blocks" "data_iter s = None" using assms by (auto simp: data_over_def index_at_def)
  moreover from this have "data_first s = s" by (simp add: data_first_def)
  ultimately show ?thesis using assms data_at_end by metis
qed

lemma data_seek_at:
  assumes "data_over idx blocks s i" "\<forall>b\<in>set blocks. sorted_wrt (<) (map fst b)"
  shows "\<exists>s'. data_seek t s = Some s' \<and>
    data_at idx blocks s' i (if i < length blocks then seek_pos (map fst (blocks ! i)) t else 0)"
proof (cases "i < length blocks")
  case True
  then obtain it where it: "data_iter s = Some (BlockIter it)" "block_over it (blocks ! i)"
    using assms(1) by (auto simp: data_over_def)
  have "sorted_wrt (<) (map fst (blocks ! i))" using assms(2) True by simp
  then obtain it' where it': "Seek it t = Some it'" "block_at it' (blocks ! i) (seek_pos (map fst (blocks ! i)) t)"
    using block_cursor.seek_at [OF it(2)] by blast
  show ?thesis using data_at_change [OF assms(1) True it'(2)] it(1) it'(1) True by (simp add: data_seek_def)
next
  case False
  then have i: "i = length blocks" "data_iter s = None" using assms(1) by (auto simp: data_over_def index_at_def)
  then have "data_seek t s = Some s" by (simp add: data_seek_def)
  then show ?thesis using assms(1) i data_at_end by simp
qed

lemma data_at_valid:
  assumes "data_at idx blocks s i j"
  shows "(case data_iter s of None \<Rightarrow> True | Some d \<Rightarrow> \<not> it_Valid d) \<longleftrightarrow> \<not> (i < length blocks \<and> j < length (blocks ! i))"
  using assms block_cursor.at_valid by (cases "i < length blocks") (auto simp: data_at_def data_over_def)

lemma skip_settled:
  assumes ib: "indexed_blocks bf idx blocks" and at: "data_at idx blocks s i j" and "settled blocks i j"
  shows "\<exists>s'. SkipEmptyDataBlocksForward bf s = Some s' \<and> data_at idx blocks s' i j"
proof (cases "i < length blocks")
  case True
  then have "SkipEmptyDataBlocksForward bf s = Some s"
    using data_at_valid [OF at] assms(3) by (subst SkipEmptyDataBlocksForward.simps) (simp add: settled_def)
  then show ?thesis using at by blast
next
  case False
  have ia: "index_at idx blocks s i" and con: "consistent idx blocks s" and d: "data_iter s = None"
    using at False by (auto simp: data_at_def data_over_def index_at_def)
  have "SkipEmptyDataBlocksForward bf s = Some (s\<lparr>data_iter := None\<rparr>)"
    using False data_at_valid [OF at] index_at_valid(1) [OF ib ia]
    by (subst SkipEmptyDataBlocksForward.simps) (simp add: SetDataIterator_consistent [OF con])
  moreover have "s\<lparr>data_iter := None\<rparr> = s" using d by simp
  ultimately show ?thesis using at by metis
qed

text \<open>At the end of a block the iterator moves on to the first pair of the next one.\<close>

lemma skip_at:
  assumes ib: "indexed_blocks bf idx blocks" and at: "data_at idx blocks s i j"
    and j: "i < length blocks \<Longrightarrow> j \<le> length (blocks ! i)"
  shows "\<exists>s' i' j'. SkipEmptyDataBlocksForward bf s = Some s' \<and> data_at idx blocks s' i' j' \<and> settled blocks i' j' \<and>
    before blocks i' + j' = before blocks i + j"
proof (cases "settled blocks i j")
  case True
  then show ?thesis using skip_settled [OF ib at] by blast
next
  case False
  have ia: "index_at idx blocks s i" using at by (simp add: data_at_def data_over_def)
  have i: "i < length blocks" "j = length (blocks ! i)"
    using False j at ia by (auto simp: settled_def data_at_def index_at_def split: if_splits)
  obtain ii where ii: "index_iter s = BlockIter ii" "block_at ii idx i" using ia by (auto simp: index_at_def)
  have "i < length idx" using i ib by (simp add: indexed_blocks_def)
  then have nx: "block_at (Next ii) idx (Suc i)" by (rule block_cursor.next_at [OF ii(2)])
  have "index_at idx blocks (s\<lparr>index_iter := it_Next (index_iter s)\<rparr>) (Suc i)"
    using ia ii nx i(1) block_cursor.at_over [OF nx] by (auto simp: index_at_def consistent_def)
  then obtain s1 where s1: "InitDataBlock bf (s\<lparr>index_iter := it_Next (index_iter s)\<rparr>) = Some s1"
    "data_over idx blocks s1 (Suc i)" using InitDataBlock_over [OF ib] by blast
  have "settled blocks (Suc i) 0" using ib i by (auto simp: settled_def indexed_blocks_def)
  then obtain s2 where s2: "SkipEmptyDataBlocksForward bf (data_first s1) = Some s2" "data_at idx blocks s2 (Suc i) 0"
    using skip_settled [OF ib data_first_at [OF s1(2)]] by blast
  have "SkipEmptyDataBlocksForward bf s = Some s2"
    using data_at_valid [OF at] index_at_valid(1) [OF ib ia] i s1(1) s2(1)
    by (subst SkipEmptyDataBlocksForward.simps) simp
  moreover have "before blocks (Suc i) + 0 = before blocks i + j" using i by (simp add: before_Suc)
  ultimately show ?thesis using s2(2) \<open>settled blocks (Suc i) 0\<close> by blast
qed

section \<open>Seeking over blocks\<close>

lemma le_last_sorted:
  "sorted_wrt (<) (map fst b) \<Longrightarrow> p \<in> set b \<Longrightarrow> fst p \<le> (fst (last b) :: bytes)"
  by (cases b rule: rev_cases) (auto simp: sorted_wrt_append less_imp_le)

lemma sorted_block:
  assumes "sorted_wrt (<) (map fst (concat blocks))" "b \<in> set blocks"
  shows "sorted_wrt (<) (map fst b)"
  using split_list [OF assms(2)] assms(1) by (auto simp: sorted_wrt_append)

lemma takeWhile_append_stop: "\<forall>x\<in>set ys. \<not> P x \<Longrightarrow> takeWhile P (xs @ ys) = takeWhile P xs"
  by (induction xs) (auto simp: takeWhile_eq_Nil_iff)

lemma seek_pos_split:
  assumes "\<forall>k\<in>set as. k < t" "\<forall>k\<in>set cs. t \<le> k"
  shows "seek_pos (as @ bs @ cs) t = length as + seek_pos bs t"
proof -
  have "takeWhile (\<lambda>k. k < t) (as @ bs @ cs) = as @ takeWhile (\<lambda>k. k < t) (bs @ cs)" using assms(1) by simp
  also have "takeWhile (\<lambda>k. k < t) (bs @ cs) = takeWhile (\<lambda>k. k < t) bs"
    using assms(2) by (intro takeWhile_append_stop) auto
  finally show ?thesis by (simp add: seek_pos_def)
qed

lemma seek_pos_nth:
  assumes "i < seek_pos ks t" shows "ks ! i < t"
proof -
  have "takeWhile (\<lambda>k. k < t) ks ! i = ks ! i" using assms by (intro takeWhile_nth) (simp add: seek_pos_def)
  moreover have "takeWhile (\<lambda>k. k < t) ks ! i \<in> set (takeWhile (\<lambda>k. k < t) ks)" using assms by (simp add: seek_pos_def)
  ultimately show ?thesis using set_takeWhileD by metis
qed

lemma seek_pos_stop: "seek_pos ks t < length ks \<Longrightarrow> t \<le> ks ! seek_pos ks t"
  using nth_length_takeWhile [of "\<lambda>k. k < t" ks] by (simp add: seek_pos_def not_less)

lemma seek_blocks:
  assumes ib: "indexed_blocks bf idx blocks" and sorted: "sorted_wrt (<) (map fst (concat blocks))"
    and p: "p = seek_pos (map fst idx) t"
  shows "seek_pos (map fst (concat blocks)) t =
    before blocks p + (if p < length blocks then seek_pos (map fst (blocks ! p)) t else 0)"
proof -
  have len: "length blocks = length idx" using ib by (simp add: indexed_blocks_def)
  have pl: "p \<le> length blocks" using seek_pos_le [of "map fst idx" t] by (simp add: p len)
  note sb = sorted_block [OF sorted]
  have early: "\<forall>k\<in>set (map fst (concat (take p blocks))). k < t"
  proof
    fix k assume "k \<in> set (map fst (concat (take p blocks)))"
    then obtain b x where b: "b \<in> set (take p blocks)" "x \<in> set b" "k = fst x" by auto
    then obtain i where i: "i < p" "b = blocks ! i" using pl by (auto simp: in_set_conv_nth)
    have "k \<le> fst (last b)" using b sb i pl by (auto intro: le_last_sorted)
    also have "\<dots> \<le> fst (idx ! i)" using ib i pl by (auto simp: indexed_blocks_def)
    also have "\<dots> < t" using seek_pos_nth [of i "map fst idx" t] i pl by (simp add: p len)
    finally show "k < t" .
  qed
  show ?thesis
  proof (cases "p < length blocks")
    case True
    have t: "t \<le> fst (idx ! p)" using seek_pos_stop [of "map fst idx" t] True by (simp add: p len)
    have late: "\<forall>k\<in>set (map fst (concat (drop (Suc p) blocks))). t \<le> k"
      using ib True t by (fastforce simp: indexed_blocks_def)
    have "concat blocks = concat (take p blocks) @ blocks ! p @ concat (drop (Suc p) blocks)"
      using True by (metis concat.simps(2) concat_append id_take_nth_drop)
    then show ?thesis using seek_pos_split [OF early late, of "map fst (blocks ! p)"] True by (simp add: before_def)
  next
    case False
    then have "take p blocks = blocks" using pl by simp
    then show ?thesis using seek_pos_split [OF early, of "[]" "[]"] False by (simp add: before_def seek_pos_def)
  qed
qed

section \<open>The two-level iterator meets the cursor interface\<close>

text \<open>
  A state of the client is \<open>None\<close> after an operation that did not return. Relative to
  \<open>bf\<close>, an iterator is over the pairs of the blocks that its index points at.
\<close>

definition tl_over :: "block_function \<Rightarrow> two_level option \<Rightarrow> (bytes \<times> bytes) list \<Rightarrow> bool" where
  "tl_over bf so kvs \<longleftrightarrow> (\<exists>s idx blocks. so = Some s \<and> indexed_blocks bf idx blocks \<and> kvs = concat blocks \<and>
     consistent idx blocks s)"

definition tl_at :: "block_function \<Rightarrow> two_level option \<Rightarrow> (bytes \<times> bytes) list \<Rightarrow> nat \<Rightarrow> bool" where
  "tl_at bf so kvs n \<longleftrightarrow> (\<exists>s idx blocks i j. so = Some s \<and> indexed_blocks bf idx blocks \<and> kvs = concat blocks \<and>
     data_at idx blocks s i j \<and> settled blocks i j \<and> n = before blocks i + j)"

fun tl_valid :: "two_level option \<Rightarrow> bool" where
  "tl_valid None = False"
| "tl_valid (Some s) = TwoLevel_Valid s"

lemma tl_atI:
  assumes ib: "indexed_blocks bf idx blocks" and at: "data_at idx blocks s i j"
    and j: "i < length blocks \<Longrightarrow> j \<le> length (blocks ! i)"
  shows "tl_at bf (SkipEmptyDataBlocksForward bf s) (concat blocks) (before blocks i + j)"
proof -
  obtain s' i' j' where "SkipEmptyDataBlocksForward bf s = Some s'" "data_at idx blocks s' i' j'" "settled blocks i' j'"
    "before blocks i' + j' = before blocks i + j" using skip_at [OF assms] by blast
  then show ?thesis using ib unfolding tl_at_def by (metis (no_types))
qed

lemma settled_pos:
  assumes "settled blocks i j"
  shows "before blocks i + j < length (concat blocks) \<longleftrightarrow> i < length blocks" and "before blocks i + j \<le> length (concat blocks)"
proof -
  show "before blocks i + j < length (concat blocks) \<longleftrightarrow> i < length blocks"
    using assms concat_nth_before(2) [of i blocks j] before_length [of blocks] by (auto simp: settled_def split: if_splits)
  then show "before blocks i + j \<le> length (concat blocks)"
    using assms before_length [of blocks] by (cases "i < length blocks") (auto simp: settled_def)
qed

interpretation table_cursor: sorted_cursor "tl_over bf" "tl_at bf" tl_valid
  "\<lambda>so. TwoLevel_key (the so)" "\<lambda>so. TwoLevel_value (the so)"
  "\<lambda>so. Option.bind so (TwoLevel_SeekToFirst bf)" "\<lambda>so. Option.bind so (TwoLevel_Next bf)"
  "\<lambda>so t. map_option Some (Option.bind so (\<lambda>s. TwoLevel_Seek bf s t))" for bf
proof unfold_locales
  fix so kvs n
  assume "tl_at bf so kvs n"
  then obtain s idx blocks i j where so: "so = Some s" and ib: "indexed_blocks bf idx blocks"
    and kvs: "kvs = concat blocks" and at: "data_at idx blocks s i j" and st: "settled blocks i j"
    and n: "n = before blocks i + j" by (auto simp: tl_at_def)
  note pos = settled_pos [OF st]
  show "tl_valid so \<longleftrightarrow> n < length kvs"
    using data_at_valid [OF at] st pos(1) by (auto simp: so kvs n TwoLevel_Valid_def settled_def split: option.splits)
  show "n \<le> length kvs" using pos(2) by (simp add: kvs n)
  show "tl_over bf so kvs"
    using at ib by (auto simp: tl_over_def so kvs data_at_def data_over_def index_at_def)
  assume "n < length kvs"
  then have i: "i < length blocks" "j < length (blocks ! i)" using pos(1) st by (auto simp: kvs n settled_def)
  then obtain it where it: "data_iter s = Some (BlockIter it)" "block_at it (blocks ! i) j" using at by (auto simp: data_at_def)
  show "(TwoLevel_key (the so), TwoLevel_value (the so)) = kvs ! n"
    using block_cursor.at_key [OF it(2) i(2)] concat_nth_before(1) [OF i]
    by (simp add: so kvs n it(1) TwoLevel_key_def TwoLevel_value_def)
  have "data_at idx blocks (s\<lparr>data_iter := Some (BlockIter (Next it))\<rparr>) i (Suc j)"
    using at by (intro data_at_change block_cursor.next_at [OF it(2)] i) (simp add: data_at_def)
  from tl_atI [OF ib this] i show "tl_at bf (Option.bind so (TwoLevel_Next bf)) kvs (Suc n)"
    by (simp add: so kvs n TwoLevel_Next_def it(1))
next
  fix so kvs t
  assume "tl_over bf so kvs"
  then obtain s idx blocks where so: "so = Some s" and ib: "indexed_blocks bf idx blocks"
    and kvs: "kvs = concat blocks" and con: "consistent idx blocks s" by (auto simp: tl_over_def)
  obtain ii where ii: "index_iter s = BlockIter ii" "block_over ii idx" using con by (auto simp: consistent_def)
  have move: "index_at idx blocks (s\<lparr>index_iter := BlockIter ii'\<rparr>) n" if "block_at ii' idx n" for ii' n
    using con that block_cursor.at_over [OF that] block_cursor.at_le [OF that] ib
    by (auto simp: index_at_def consistent_def indexed_blocks_def)
  obtain s1 where s1: "InitDataBlock bf (s\<lparr>index_iter := BlockIter (SeekToFirst ii)\<rparr>) = Some s1" "data_over idx blocks s1 0"
    using InitDataBlock_over [OF ib move [OF block_cursor.first_at [OF ii(2)]]] by blast
  show "tl_at bf (Option.bind so (TwoLevel_SeekToFirst bf)) kvs 0"
    using tl_atI [OF ib data_first_at [OF s1(2)]] by (simp add: so kvs TwoLevel_SeekToFirst_def ii(1) s1(1))
  assume sorted: "sorted_wrt (<) (map fst kvs)"
  define p where "p = seek_pos (map fst idx) t"
  obtain ii' where ii': "Seek ii t = Some ii'" "block_at ii' idx p"
    using block_cursor.seek_at [OF ii(2)] ib unfolding p_def indexed_blocks_def by blast
  obtain s2 where s2: "InitDataBlock bf (s\<lparr>index_iter := BlockIter ii'\<rparr>) = Some s2" "data_over idx blocks s2 p"
    using InitDataBlock_over [OF ib move [OF ii'(2)]] by blast
  have "\<forall>b\<in>set blocks. sorted_wrt (<) (map fst b)" using sorted_block sorted kvs by blast
  then obtain s3 where s3: "data_seek t s2 = Some s3"
    "data_at idx blocks s3 p (if p < length blocks then seek_pos (map fst (blocks ! p)) t else 0)"
    using data_seek_at [OF s2(2)] by blast
  have "tl_at bf (SkipEmptyDataBlocksForward bf s3) kvs (seek_pos (map fst kvs) t)"
    using tl_atI [OF ib s3(2)] seek_pos_le [of "map fst (blocks ! p)" t] seek_blocks [OF ib sorted [unfolded kvs] p_def]
    by (simp add: kvs)
  moreover from this obtain s4 where "SkipEmptyDataBlocksForward bf s3 = Some s4" by (auto simp: tl_at_def)
  ultimately show "\<exists>i'. map_option Some (Option.bind so (\<lambda>s. TwoLevel_Seek bf s t)) = Some i' \<and>
      tl_at bf i' kvs (seek_pos (map fst kvs) t)"
    by (simp add: so TwoLevel_Seek_def ii(1) ii'(1) s2(1) s3(1))
qed

lemma tl_at_status:
  assumes "tl_at bf (Some s) kvs n"
  shows "TwoLevel_status s = None"
  using assms block_over_status
  by (fastforce simp: tl_at_def data_at_def data_over_def index_at_def consistent_def TwoLevel_status_def split: option.splits)

end
