(* ===== verification/Table.thy ===== *)
theory Table
  imports Two_Level
begin

text \<open>
  \<open>lib/io/table.cc\<close>: opening a table, its iterator, single lookups and approximate
  offsets, and the properties of tables as a whole: what \<open>TableBuilder\<close> writes to a POSIX
  file is what the readers find.
\<close>

section \<open>Opening and reading\<close>

record table =
  tab_options :: options
  tab_file :: read_op
  tab_metaindex_handle :: block_handle
  tab_index_block :: block

definition Table_Open :: "snappy \<Rightarrow> options \<Rightarrow> read_op \<Rightarrow> uint64 \<Rightarrow> table status option" where
  "Table_Open snap opt file_read sz =
     (if unat sz < kEncodedLength then Some (Inl DATA_LOSS)
      else
        case file_read (sz - of_nat kEncodedLength) (of_nat kEncodedLength) of
          (Some s, footer_input) \<Rightarrow> Some (Inl s)
        | (None, footer_input) \<Rightarrow>
            (case DecodeFrom_footer footer_input of
               None \<Rightarrow> None
             | Some (Inl s) \<Rightarrow> Some (Inl s)
             | Some (Inr (footer, rest)) \<Rightarrow>
                 (case ReadBlock snap file_read (index_handle footer) of
                    None \<Rightarrow> None
                  | Some (Inl s) \<Rightarrow> Some (Inl s)
                  | Some (Inr contents) \<Rightarrow>
                      Some (Inr \<lparr>tab_options = opt, tab_file = file_read,
                        tab_metaindex_handle = metaindex_handle footer, tab_index_block = Block contents\<rparr>))))"

definition BlockReader :: "snappy \<Rightarrow> table \<Rightarrow> block_function" where
  "BlockReader snap t index_value =
     (case DecodeFrom_handle index_value of
        Inl s \<Rightarrow> Some (NewErrorIterator (Some s))
      | Inr (handle, input) \<Rightarrow>
          (case ReadBlock snap (tab_file t) handle of
             None \<Rightarrow> None
           | Some (Inl s) \<Rightarrow> Some (NewErrorIterator (Some s))
           | Some (Inr contents) \<Rightarrow> Some (NewIterator (Block contents))))"

definition Table_NewIterator :: "table \<Rightarrow> two_level" where
  "Table_NewIterator t = NewTwoLevelIterator (NewIterator (tab_index_block t))"

text \<open>The arguments of the call of \<open>saver\<close>, if there is one, and the status.\<close>

definition InternalGet :: "snappy \<Rightarrow> table \<Rightarrow> bytes \<Rightarrow> ((bytes \<times> bytes) option \<times> code option) option" where
  "InternalGet snap t k =
     (case it_Seek (NewIterator (tab_index_block t)) k of
        None \<Rightarrow> None
      | Some iiter \<Rightarrow>
          if it_Valid iiter then
            (case BlockReader snap t (it_value iiter) of
               None \<Rightarrow> None
             | Some block_iter \<Rightarrow>
                 (case it_Seek block_iter k of
                    None \<Rightarrow> None
                  | Some block_iter \<Rightarrow>
                      let saved = (if it_Valid block_iter then Some (it_key block_iter, it_value block_iter) else None);
                          s = it_status block_iter
                      in Some (saved, if s = None then it_status iiter else s)))
          else Some (None, it_status iiter))"

definition ApproximateOffsetOf :: "table \<Rightarrow> bytes \<Rightarrow> uint64 option" where
  "ApproximateOffsetOf t key =
     (case it_Seek (NewIterator (tab_index_block t)) key of
        None \<Rightarrow> None
      | Some iiter \<Rightarrow>
          Some (if it_Valid iiter then
                  (case DecodeFrom_handle (it_value iiter) of
                     Inr (handle, input) \<Rightarrow> bh_offset handle
                   | Inl s \<Rightarrow> bh_offset (tab_metaindex_handle t))
                else bh_offset (tab_metaindex_handle t)))"

text \<open>The loop of a client over all pairs, with a bound on its rounds.\<close>

fun pairs_from :: "snappy \<Rightarrow> table \<Rightarrow> nat \<Rightarrow> two_level option \<Rightarrow> (bytes \<times> bytes) list" where
  "pairs_from snap t 0 so = []"
| "pairs_from snap t (Suc n) None = []"
| "pairs_from snap t (Suc n) (Some it) =
     (if TwoLevel_Valid it
      then (TwoLevel_key it, TwoLevel_value it) # pairs_from snap t n (TwoLevel_Next (BlockReader snap t) it) else [])"

lemma pairs_from_collect: "pairs_from snap t n so = table_cursor.collect (BlockReader snap t) n so"
  by (induction snap t n so rule: pairs_from.induct) simp_all

section \<open>A stored table is opened\<close>

lemma block_image_over:
  assumes "block_image raw kvs"
  shows "\<exists>it. NewIterator (Block raw) = BlockIter it \<and> block_over it kvs"
proof -
  obtain es ris where e: "encoded_block raw es ris" "map snd es = kvs" using assms by (auto simp: block_image_def)
  have "over_block (Iter raw (length (body es)) (length ris)) raw es ris" using e(1) by (simp add: over_block_def Iter_def)
  then show ?thesis using NewIterator_encoded [OF e(1)] e(2) by (auto simp: block_over_def)
qed

lemma index_pairs_nth:
  assumes "length seps = length fl" "i < length fl"
  shows "index_pairs seps fl ! i = (seps ! i, encode_handle (snd (fl ! i)))"
  using assms by (simp add: index_pairs_def)

lemma distinct_index:
  assumes "blocks_stored snap c fl" "length seps = length fl"
  shows "distinct (map snd (index_pairs seps fl))"
proof -
  have "sorted_wrt (<) (map (\<lambda>b. unat (bh_offset (snd b))) fl)" using assms(1) by (simp add: blocks_stored_def)
  then have "distinct (map (\<lambda>b. unat (bh_offset (snd b))) fl)" using strict_sorted_iff by blast
  moreover have "encode_handle h = encode_handle h' \<Longrightarrow> h = h'" for h h' using handles.put_prefix_free [of h "[]" h' "[]"] by simp
  ultimately have "distinct (map (\<lambda>b. encode_handle (snd b)) fl)" unfolding distinct_map inj_on_def by metis
  then show ?thesis using assms(2) by (simp add: index_pairs_def)
qed

lemma separated_sorted:
  assumes "separated seps fl []" "length seps = length fl" "blocks_stored snap c fl"
  shows "sorted_wrt (<) seps"
  unfolding sorted_wrt_iff_nth_less
proof (intro allI impI)
  fix i j assume ij: "i < j" "j < length seps"
  then have "fst (fl ! j) \<noteq> []" using assms(2,3) by (auto simp: blocks_stored_def dest!: bspec [OF _ nth_mem])
  moreover have "fl ! j \<in> set (drop (Suc i) fl)" using ij assms(2) by (auto simp: in_set_conv_nth intro!: exI [of _ "j - Suc i"])
  ultimately have "last (fst (fl ! j)) \<in> set (pairs_of (drop (Suc i) fl))" by (force simp: pairs_of_def)
  then have "seps ! i < fst (last (fst (fl ! j)))" using assms(1) ij by (auto simp: separated_def)
  also have "\<dots> \<le> seps ! j" using assms(1) ij by (simp add: separated_def)
  finally show "seps ! i < seps ! j" .
qed

context random_access_file
begin

lemma Open_image:
  assumes img: "table_image snap contents kvs fl seps" and len: "length contents < 2 ^ 63"
  shows "\<exists>t. Table_Open snap opt read (of_nat (length contents)) = Some (Inr t) \<and> tab_file t = read \<and>
    (\<exists>ii. NewIterator (tab_index_block t) = BlockIter ii \<and> block_over ii (index_pairs seps fl))"
proof -
  obtain pre foot raw where c: "contents = pre @ footer_bytes foot" and ix: "stored snap contents (index_handle foot) raw"
    "block_image raw (index_pairs seps fl)" using img by (auto simp: table_image_def)
  have L: "length contents < 2 ^ 64" "kEncodedLength = 48" using len by (simp_all add: kEncodedLength_def kMaxEncodedLength_def)
  have "length contents = length pre + 48" unfolding c using L(2) by simp
  then have sz: "of_nat (length contents) - of_nat kEncodedLength = (of_nat (length pre) :: uint64)" using L(2) by simp
  have "unat (of_nat (length pre) :: uint64) = length pre" using L(1) c by (intro unat_of_nat64) simp
  moreover have "unat (of_nat kEncodedLength :: uint64) = length (footer_bytes foot)" by (simp add: L(2))
  ultimately have "read (of_nat (length pre)) (of_nat kEncodedLength) = (None, footer_bytes foot)"
    using read_ok [of "of_nat kEncodedLength" "of_nat (length pre)"] unfolding c by simp
  moreover have "\<not> unat (of_nat (length contents) :: uint64) < kEncodedLength"
    unfolding unat_of_nat64 [OF L(1)] using c by simp
  moreover have "DecodeFrom_footer (footer_bytes foot) = Some (Inr (foot, []))"
    using DecodeFrom_footer_Encode [of foot "[]"] by simp
  moreover have "ReadBlock snap read (index_handle foot) = Some (Inr raw)" by (rule ReadBlock_stored [OF ix(1) len])
  ultimately show ?thesis using block_image_over [OF ix(2)] by (auto simp: Table_Open_def sz)
qed

lemma indexed_image:
  assumes img: "table_image snap contents kvs fl seps" and len: "length contents < 2 ^ 63" and t: "tab_file t = read"
  shows "indexed_blocks (BlockReader snap t) (index_pairs seps fl) (map fst fl)"
  unfolding indexed_blocks_def
proof (intro conjI allI impI)
  have l: "length seps = length fl" and bs: "blocks_stored snap contents fl" and sp: "separated seps fl []"
    using img by (auto simp: table_image_def)
  show "length (map fst fl) = length (index_pairs seps fl)" using l by (simp add: index_pairs_def)
  show "distinct (map snd (index_pairs seps fl))" by (rule distinct_index [OF bs l])
  have "map fst (index_pairs seps fl) = seps" using l by (simp add: index_pairs_def)
  then show "sorted_wrt (<) (map fst (index_pairs seps fl))" using separated_sorted [OF sp l bs] by simp
  fix i assume "i < length (map fst fl)"
  then have i: "i < length fl" "i < length seps" "fl ! i \<in> set fl" using l by simp_all
  obtain b h where bh: "fl ! i = (b, h)" by fastforce
  obtain raw where r: "b \<noteq> []" "stored snap contents h raw" "block_image raw b"
    using bs i(3) by (auto simp: blocks_stored_def bh)
  show "map fst fl ! i \<noteq> []" using r(1) i by (simp add: bh)
  show "fst (last (map fst fl ! i)) \<le> fst (index_pairs seps fl ! i)"
    using sp i by (simp add: separated_def index_pairs_nth [OF l])
  show "\<forall>p\<in>set (concat (drop (Suc i) (map fst fl))). fst (index_pairs seps fl ! i) < fst p"
    using sp i by (auto simp: separated_def index_pairs_nth [OF l] pairs_of_def drop_map)
  have "BlockReader snap t (encode_handle h) = Some (NewIterator (Block raw))"
    using DecodeFrom_handle_Encode [of h "[]"] ReadBlock_stored [OF r(2) len] by (simp add: BlockReader_def t)
  then show "\<exists>it. BlockReader snap t (snd (index_pairs seps fl ! i)) = Some (BlockIter it) \<and> block_over it (map fst fl ! i)"
    using block_image_over [OF r(3)] i by (auto simp: index_pairs_nth [OF l] bh)
qed

lemma image_over:
  assumes img: "table_image snap contents kvs fl seps" and len: "length contents < 2 ^ 63"
  shows "\<exists>t. Table_Open snap opt read (of_nat (length contents)) = Some (Inr t) \<and>
    indexed_blocks (BlockReader snap t) (index_pairs seps fl) (map fst fl) \<and>
    tl_over (BlockReader snap t) (Some (Table_NewIterator t)) kvs \<and>
    (\<exists>ii. NewIterator (tab_index_block t) = BlockIter ii \<and> block_over ii (index_pairs seps fl))"
proof -
  obtain t ii where t: "Table_Open snap opt read (of_nat (length contents)) = Some (Inr t)" "tab_file t = read"
    and ii: "NewIterator (tab_index_block t) = BlockIter ii" "block_over ii (index_pairs seps fl)"
    using Open_image [OF assms] by blast
  have ib: "indexed_blocks (BlockReader snap t) (index_pairs seps fl) (map fst fl)"
    by (rule indexed_image [OF assms t(2)])
  have "consistent (index_pairs seps fl) (map fst fl) (Table_NewIterator t)"
    using ii by (simp add: consistent_def Table_NewIterator_def NewTwoLevelIterator_def)
  then have "tl_over (BlockReader snap t) (Some (Table_NewIterator t)) kvs"
    using ib img by (auto simp: tl_over_def table_image_def pairs_of_def)
  then show ?thesis using t ib ii by blast
qed

end

section \<open>Single lookups\<close>

text \<open>\<open>InternalGet\<close> seeks in the block that the index gives for the key, and only there.\<close>

lemma InternalGet_block:
  assumes ib: "indexed_blocks (BlockReader snap t) idx blocks" and sorted: "sorted_wrt (<) (map fst (concat blocks))"
    and ii: "NewIterator (tab_index_block t) = BlockIter ii" "block_over ii idx" and p: "p = seek_pos (map fst idx) k"
  shows "InternalGet snap t k = Some (if p < length blocks \<and> seek_pos (map fst (blocks ! p)) k < length (blocks ! p)
    then Some (blocks ! p ! seek_pos (map fst (blocks ! p)) k) else None, None)"
proof -
  have len: "length blocks = length idx" and si: "sorted_wrt (<) (map fst idx)" using ib by (auto simp: indexed_blocks_def)
  obtain ii' where ii': "Seek ii k = Some ii'" "block_at ii' idx p"
    using block_cursor.seek_at [OF ii(2) si] unfolding p by blast
  have st: "istatus ii' = None" using block_over_status block_cursor.at_over [OF ii'(2)] by blast
  show ?thesis
  proof (cases "p < length blocks")
    case False
    then show ?thesis using ii(1) ii' st block_cursor.at_valid [OF ii'(2)] len by (simp add: InternalGet_def)
  next
    case True
    obtain it where it: "BlockReader snap t (snd (idx ! p)) = Some (BlockIter it)" "block_over it (blocks ! p)"
      using ib True by (auto simp: indexed_blocks_def)
    have "sorted_wrt (<) (map fst (blocks ! p))" using sorted_block [OF sorted] True by simp
    then obtain it' where it': "Seek it k = Some it'" "block_at it' (blocks ! p) (seek_pos (map fst (blocks ! p)) k)"
      using block_cursor.seek_at [OF it(2)] by blast
    have "istatus it' = None" using block_over_status block_cursor.at_over [OF it'(2)] by blast
    moreover have "value_of ii' = snd (idx ! p)" "Valid ii'"
      using block_cursor.at_key [OF ii'(2)] block_cursor.at_valid [OF ii'(2)] True len by (simp_all add: prod_eq_iff)
    ultimately show ?thesis
      using ii(1) ii'(1) st it(1) it'(1) True block_cursor.at_valid [OF it'(2)] block_cursor.at_key [OF it'(2)]
      by (simp add: InternalGet_def)
  qed
qed

lemma InternalGet_found:
  assumes "indexed_blocks (BlockReader snap t) idx blocks" "sorted_wrt (<) (map fst (concat blocks))"
    "NewIterator (tab_index_block t) = BlockIter ii" "block_over ii idx"
  shows "(k, v) \<in> set (concat blocks) \<Longrightarrow> InternalGet snap t k = Some (Some (k, v), None)"
    and "k \<notin> fst ` set (concat blocks) \<Longrightarrow> \<exists>x. InternalGet snap t k = Some (x, None) \<and> (\<forall>k' v'. x = Some (k', v') \<longrightarrow> k < k')"
    and "InternalGet snap t k = Some (Some kv, None) \<Longrightarrow> first_not_below k (concat blocks) kv"
proof -
  define p where "p = seek_pos (map fst idx) k"
  define q where "q = (if p < length blocks then seek_pos (map fst (blocks ! p)) k else 0)"
  note get = InternalGet_block [OF assms p_def]
  have pos: "seek_pos (map fst (concat blocks)) k = before blocks p + q"
    using seek_blocks [OF assms(1,2) p_def] by (simp add: q_def)
  show "first_not_below k (concat blocks) kv" if "InternalGet snap t k = Some (Some kv, None)"
  proof -
    have pq: "p < length blocks" "q < length (blocks ! p)" "kv = blocks ! p ! q"
      using that get by (auto simp: q_def split: if_splits)
    note c = concat_nth_before [OF pq(1,2)]
    then have "seek_pos (map fst (concat blocks)) k < length (concat blocks)" using pos by simp
    then show ?thesis using seek_pos_first [OF assms(2), of k] pq(3) c(1) pos by simp
  qed
  show "InternalGet snap t k = Some (Some (k, v), None)" if kv: "(k, v) \<in> set (concat blocks)"
  proof -
    have fst: "k \<in> set (map fst (concat blocks))" using kv by force
    note m = table_cursor.seek_pos_mem [OF assms(2) fst, unfolded pos]
    have pb: "p < length blocks"
    proof (rule ccontr)
      assume "\<not> p < length blocks"
      then have "before blocks p + q = length (concat blocks)"
        using seek_pos_le [of "map fst idx" k] assms(1) by (simp add: before_def q_def p_def indexed_blocks_def)
      then show False using m by simp
    qed
    have qb: "q < length (blocks ! p)"
    proof (rule ccontr)
      assume q: "\<not> q < length (blocks ! p)"
      then have qe: "q = length (blocks ! p)" using seek_pos_le [of "map fst (blocks ! p)" k] pb by (simp add: q_def)
      then have b: "before blocks p + q = before blocks (Suc p)" using pb by (simp add: before_Suc)
      have sp: "Suc p < length blocks"
      proof (rule ccontr)
        assume "\<not> Suc p < length blocks"
        then have "Suc p = length blocks" using pb by simp
        then show False using m b before_length [of blocks] by (metis length_map less_irrefl)
      qed
      have "blocks ! Suc p \<noteq> []" using assms(1) sp by (simp add: indexed_blocks_def)
      then have "concat blocks ! (before blocks (Suc p) + 0) = blocks ! Suc p ! 0" using sp by (intro concat_nth_before) simp_all
      then have "fst (blocks ! Suc p ! 0) = k" using m b by (metis add.right_neutral length_map nth_map)
      moreover have "blocks ! Suc p ! 0 \<in> set (concat (drop (Suc p) blocks))"
        using sp \<open>blocks ! Suc p \<noteq> []\<close> by (auto simp: Cons_nth_drop_Suc [symmetric])
      then have "fst (idx ! p) < fst (blocks ! Suc p ! 0)" using assms(1) pb by (auto simp: indexed_blocks_def)
      moreover have "k \<le> fst (idx ! p)"
        using seek_pos_stop [of "map fst idx" k] assms(1) pb by (simp add: p_def indexed_blocks_def)
      ultimately show False by simp
    qed
    have "concat blocks ! (before blocks p + q) = (k, v)"
    proof -
      have "fst (concat blocks ! (before blocks p + q)) = k" "before blocks p + q < length (concat blocks)"
        using m by (metis length_map nth_map)+
      moreover have "distinct (map fst (concat blocks))" using assms(2) strict_sorted_iff by blast
      ultimately show ?thesis using kv by (metis eq_key_imp_eq_value nth_mem prod.collapse)
    qed
    then show ?thesis using get pb qb concat_nth_before(1) [OF pb qb] by (simp add: q_def)
  qed
  show "\<exists>x. InternalGet snap t k = Some (x, None) \<and> (\<forall>k' v'. x = Some (k', v') \<longrightarrow> k < k')" if "k \<notin> fst ` set (concat blocks)"
  proof -
    have "k < fst (blocks ! p ! q)" if pb: "p < length blocks" and qb: "q < length (blocks ! p)"
    proof -
      have "k \<le> fst (blocks ! p ! q)" using seek_pos_stop [of "map fst (blocks ! p)" k] qb pb by (simp add: q_def)
      moreover have "blocks ! p ! q \<in> set (concat blocks)" using pb qb by (metis UN_I nth_mem set_concat)
      ultimately show ?thesis using \<open>k \<notin> fst ` set (concat blocks)\<close> by (metis image_eqI order.not_eq_order_implies_strict)
    qed
    then show ?thesis using get by (auto simp: q_def)
  qed
qed

section \<open>Properties\<close>

lemma built_table:
  assumes "snappy_codec snap" "1 \<le> block_restart_interval opt" "sorted_wrt (<) (map fst kvs)" "weight kvs < 2 ^ 31"
    and "pf_contents f = []" "build_table snap PosixAppend opt f kvs = (e, r)"
  shows "e \<noteq> None \<Longrightarrow> pf_space f < 2 * weight kvs + 200"
    and "e = None \<Longrightarrow> \<exists>t fl seps ii. Table_Open snap opt (PosixRead sched (pf_contents (tb_file r))) (FileSize r) = Some (Inr t) \<and>
      indexed_blocks (BlockReader snap t) (index_pairs seps fl) (map fst fl) \<and> concat (map fst fl) = kvs \<and>
      tl_over (BlockReader snap t) (Some (Table_NewIterator t)) kvs \<and>
      NewIterator (tab_index_block t) = BlockIter ii \<and> block_over ii (index_pairs seps fl)"
proof -
  note B = posix_writable.build_table_image [OF assms(5,1,4,2,3,6)]
  show "e \<noteq> None \<Longrightarrow> pf_space f < 2 * weight kvs + 200" using B assms(5) by (auto simp: pf_capacity_def)
  assume "e = None"
  then obtain fl seps where img: "table_image snap (pf_contents (tb_file r)) kvs fl seps"
    and len: "length (pf_contents (tb_file r)) \<le> 2 * weight kvs + 200"
    and sz: "FileSize r = of_nat (length (pf_contents (tb_file r)))" using B by auto
  have "length (pf_contents (tb_file r)) < 2 ^ 63" using len assms(4) by simp
  from posix_file.image_over [OF img this, of opt sched] img
  show "\<exists>t fl seps ii. Table_Open snap opt (PosixRead sched (pf_contents (tb_file r))) (FileSize r) = Some (Inr t) \<and>
      indexed_blocks (BlockReader snap t) (index_pairs seps fl) (map fst fl) \<and> concat (map fst fl) = kvs \<and>
      tl_over (BlockReader snap t) (Some (Table_NewIterator t)) kvs \<and>
      NewIterator (tab_index_block t) = BlockIter ii \<and> block_over ii (index_pairs seps fl)"
    unfolding sz by (auto simp: table_image_def pairs_of_def)
qed

text \<open>
  C3: A table built from pairs with increasing keys is read back. Building on a POSIX file
  fails only when the device is nearly full; otherwise the file opens, and iterating over it
  yields exactly the pairs that were added, in order and without an error, whatever the
  block size, the compression, and the sizes and interruptions of the \<open>pread\<close> calls.
\<close>

theorem table_roundtrip:
  assumes "snappy_codec snap" "1 \<le> block_restart_interval opt" "sorted_wrt (<) (map fst kvs)" "weight kvs < 2 ^ 31"
    and "pf_contents f = []" "build_table snap PosixAppend opt f kvs = (e, r)"
  shows "(e \<noteq> None \<longrightarrow> pf_space f < 2 * weight kvs + 200) \<and>
    (e = None \<longrightarrow> (\<exists>t it. Table_Open snap opt (PosixRead sched (pf_contents (tb_file r))) (FileSize r) = Some (Inr t) \<and>
       TwoLevel_SeekToFirst (BlockReader snap t) (Table_NewIterator t) = Some it \<and> TwoLevel_status it = None \<and>
       pairs_from snap t (length kvs + n) (Some it) = kvs))"
proof (intro conjI impI)
  assume "e = None"
  then obtain t where t: "Table_Open snap opt (PosixRead sched (pf_contents (tb_file r))) (FileSize r) = Some (Inr t)"
    "tl_over (BlockReader snap t) (Some (Table_NewIterator t)) kvs" using built_table(2) [OF assms, of sched] by blast
  note at = table_cursor.first_at [OF t(2), simplified]
  then obtain it where it: "TwoLevel_SeekToFirst (BlockReader snap t) (Table_NewIterator t) = Some it" by (auto simp: tl_at_def)
  have "pairs_from snap t (length kvs + n) (Some it) = kvs"
    using table_cursor.collect_all [OF t(2), of "length kvs + n"] it by (simp add: pairs_from_collect)
  then show "\<exists>t it. Table_Open snap opt (PosixRead sched (pf_contents (tb_file r))) (FileSize r) = Some (Inr t) \<and>
       TwoLevel_SeekToFirst (BlockReader snap t) (Table_NewIterator t) = Some it \<and> TwoLevel_status it = None \<and>
       pairs_from snap t (length kvs + n) (Some it) = kvs"
    using t(1) it tl_at_status [OF at [unfolded it]] by blast
qed (rule built_table(1) [OF assms])

definition demo_file :: posix_writable_file where
  "demo_file = \<lparr>pf_contents = [], pf_space = 1000, pf_error = RESOURCE_EXHAUSTED\<rparr>"

abbreviation demo_pairs :: "(bytes \<times> bytes) list" where
  "demo_pairs \<equiv> [([1], [2]), ([3], [])]"

lemma demo_facts: "1 \<le> block_restart_interval default_options" "sorted_wrt (<) (map fst demo_pairs)"
  "weight demo_pairs < 2 ^ 31" "pf_contents demo_file = []" "pf_space demo_file = 1000"
  by (simp_all add: default_options_def demo_file_def)

lemma demo_build: "\<exists>r. build_table no_snappy PosixAppend default_options demo_file demo_pairs = (None, r)"
proof -
  obtain e r where b: "build_table no_snappy PosixAppend default_options demo_file demo_pairs = (e, r)" by fastforce
  have "e = None"
    using built_table(1) [OF no_snappy.snappy_codec_axioms demo_facts(1-4) b] demo_facts(5) by (cases e) auto
  then show ?thesis using b by blast
qed

theorem table_roundtrip_witness:
  "\<exists>r t it. build_table no_snappy PosixAppend default_options demo_file demo_pairs = (None, r) \<and>
    Table_Open no_snappy default_options (PosixRead demo_schedule (pf_contents (tb_file r))) (FileSize r) = Some (Inr t) \<and>
    TwoLevel_SeekToFirst (BlockReader no_snappy t) (Table_NewIterator t) = Some it \<and>
    pairs_from no_snappy t 2 (Some it) = demo_pairs"
proof -
  obtain r where b: "build_table no_snappy PosixAppend default_options demo_file demo_pairs = (None, r)"
    using demo_build by blast
  have "length demo_pairs + 0 = 2" by simp
  then show ?thesis
    using table_roundtrip [OF no_snappy.snappy_codec_axioms demo_facts(1-4) b, of demo_schedule 0, THEN conjunct2] b by metis
qed

text \<open>
  C4: Lookups in a built table. \<open>Seek\<close> stands at the first pair whose key is not below the
  target and is valid exactly when there is one; \<open>InternalGet\<close> of a key of the table
  passes its value on, and for any other key it passes on nothing or the first pair with a larger
  key.
\<close>

theorem table_seek_get:
  assumes "snappy_codec snap" "1 \<le> block_restart_interval opt" "sorted_wrt (<) (map fst kvs)" "weight kvs < 2 ^ 31"
    and "pf_contents f = []" "build_table snap PosixAppend opt f kvs = (None, r)"
  shows "\<exists>t it. Table_Open snap opt (PosixRead sched (pf_contents (tb_file r))) (FileSize r) = Some (Inr t) \<and>
    TwoLevel_Seek (BlockReader snap t) (Table_NewIterator t) target = Some it \<and> TwoLevel_status it = None \<and>
    TwoLevel_Valid it = (\<exists>k' \<in> fst ` set kvs. target \<le> k') \<and>
    (TwoLevel_Valid it \<longrightarrow> first_not_below target kvs (TwoLevel_key it, TwoLevel_value it)) \<and>
    (\<forall>v. (target, v) \<in> set kvs \<longrightarrow> TwoLevel_Valid it \<and> TwoLevel_key it = target \<and> TwoLevel_value it = v \<and>
       InternalGet snap t target = Some (Some (target, v), None)) \<and>
    (target \<notin> fst ` set kvs \<longrightarrow> (TwoLevel_Valid it \<longrightarrow> target < TwoLevel_key it) \<and>
       (\<exists>x. InternalGet snap t target = Some (x, None) \<and> (\<forall>k' v'. x = Some (k', v') \<longrightarrow> target < k' \<and> first_not_below target kvs (k', v'))))"
proof -
  obtain t fl seps ii where t: "Table_Open snap opt (PosixRead sched (pf_contents (tb_file r))) (FileSize r) = Some (Inr t)"
    and ib: "indexed_blocks (BlockReader snap t) (index_pairs seps fl) (map fst fl)" and kvs: "concat (map fst fl) = kvs"
    and ov: "tl_over (BlockReader snap t) (Some (Table_NewIterator t)) kvs"
    and ii: "NewIterator (tab_index_block t) = BlockIter ii" "block_over ii (index_pairs seps fl)"
    using built_table(2) [OF assms refl, of sched] by blast
  note get = InternalGet_found [OF ib assms(3) [folded kvs] ii, unfolded kvs]
  obtain so where so: "map_option Some (Option.bind (Some (Table_NewIterator t)) (\<lambda>s. TwoLevel_Seek (BlockReader snap t) s target)) = Some so"
    "tl_at (BlockReader snap t) so kvs (seek_pos (map fst kvs) target)" using table_cursor.seek_at [OF ov assms(3)] by blast
  then obtain it where it: "so = Some it" "TwoLevel_Seek (BlockReader snap t) (Table_NewIterator t) target = Some it" by auto
  have valid: "TwoLevel_Valid it = (\<exists>k' \<in> fst ` set kvs. target \<le> k')"
    using table_cursor.at_valid [OF so(2)] seek_pos_less [of "map fst kvs" target] it(1) by simp
  have found: "TwoLevel_Valid it \<and> TwoLevel_key it = target \<and> TwoLevel_value it = v" if "(target, v) \<in> set kvs" for v
    using table_cursor.seek_found [OF ov assms(3) that] it so(1) by auto
  have missing: "TwoLevel_Valid it \<longrightarrow> target < TwoLevel_key it" if "target \<notin> fst ` set kvs"
    using table_cursor.seek_missing [OF ov assms(3) that] it so(1) by auto
  show ?thesis
  proof (intro exI [of _ t] exI [of _ it] conjI t it(2) valid)
    show "TwoLevel_Valid it \<longrightarrow> first_not_below target kvs (TwoLevel_key it, TwoLevel_value it)"
      using table_cursor.seek_first_not_below [OF ov assms(3), of target "Some it"] it so(1) by simp
    show "TwoLevel_status it = None" by (rule tl_at_status [OF so(2) [unfolded it(1)]])
    show "\<forall>v. (target, v) \<in> set kvs \<longrightarrow> TwoLevel_Valid it \<and> TwoLevel_key it = target \<and> TwoLevel_value it = v \<and>
       InternalGet snap t target = Some (Some (target, v), None)" using found get(1) by blast
    show "target \<notin> fst ` set kvs \<longrightarrow> (TwoLevel_Valid it \<longrightarrow> target < TwoLevel_key it) \<and>
       (\<exists>x. InternalGet snap t target = Some (x, None) \<and> (\<forall>k' v'. x = Some (k', v') \<longrightarrow> target < k' \<and> first_not_below target kvs (k', v')))"
    proof (intro impI conjI)
      assume absent: "target \<notin> fst ` set kvs"
      then show "TwoLevel_Valid it \<Longrightarrow> target < TwoLevel_key it" using missing by blast
      obtain x where x: "InternalGet snap t target = Some (x, None)" "\<forall>k' v'. x = Some (k', v') \<longrightarrow> target < k'"
        using get(2) [OF absent] by blast
      then show "\<exists>x. InternalGet snap t target = Some (x, None) \<and>
          (\<forall>k' v'. x = Some (k', v') \<longrightarrow> target < k' \<and> first_not_below target kvs (k', v'))"
        using get(3) by (intro exI [of _ x]) auto
    qed
  qed
qed

theorem table_seek_get_witness:
  "\<exists>r t it. build_table no_snappy PosixAppend default_options demo_file demo_pairs = (None, r) \<and>
    Table_Open no_snappy default_options (PosixRead demo_schedule (pf_contents (tb_file r))) (FileSize r) = Some (Inr t) \<and>
    TwoLevel_Seek (BlockReader no_snappy t) (Table_NewIterator t) [2] = Some it \<and> TwoLevel_Valid it \<and>
    TwoLevel_key it = [3] \<and> TwoLevel_value it = []"
proof -
  obtain r where b: "build_table no_snappy PosixAppend default_options demo_file demo_pairs = (None, r)"
    using demo_build by blast
  have first: "first_not_below [2] demo_pairs kv \<longleftrightarrow> kv = ([3], [])" for kv by (auto simp: first_not_below_def)
  have "\<exists>k' \<in> fst ` set demo_pairs. [2] \<le> k'" by simp
  then show ?thesis
    using table_seek_get [OF no_snappy.snappy_codec_axioms demo_facts(1-4) b, of demo_schedule "[2]"] b
    unfolding first by (metis prod.inject)
qed

text \<open>
  C29: Blocks are protected by their checksum. A block that \<open>WriteRawBlock\<close> has written is
  read back through the handle it returned, as it is when it was written without compression and
  uncompressed when it was compressed by Snappy; after a change of any one of its bytes, of
  its type or of its checksum reading it reports data loss.
\<close>

theorem table_block_corruption:
  assumes "WriteRawBlock PosixAppend d type r = (h, r')" "tb_status r = None" "tb_status r' = None"
    and "tb_offset r = of_nat (length (pf_contents (tb_file r)))" "length (pf_contents (tb_file r') @ post) < 2 ^ 63"
    and "length (pf_contents (tb_file r)) \<le> i" "i < length (pf_contents (tb_file r'))" "pf_contents (tb_file r') ! i \<noteq> b"
  shows "ReadBlock snap (PosixRead sched ((pf_contents (tb_file r'))[i := b] @ post)) h = Some (Inl DATA_LOSS) \<and>
    (type = kNoCompression \<longrightarrow> ReadBlock snap (PosixRead sched (pf_contents (tb_file r') @ post)) h = Some (Inr d)) \<and>
    (\<forall>raw. type = kSnappyCompression \<longrightarrow> snappy_codec snap \<longrightarrow> Snappy_Compress snap raw = Some d \<longrightarrow>
      ReadBlock snap (PosixRead sched (pf_contents (tb_file r') @ post)) h = Some (Inr raw))"
proof -
  note E = posix_writable.WriteRawBlock_effect [OF assms(1,4,2)]
  define pre where "pre = pf_contents (tb_file r)"
  define x where "x = checksummed (d @ [type_byte type])"
  have c: "pf_contents (tb_file r') = pre @ x" using E(4) [OF assms(3)] by (simp add: pre_def x_def)
  have len: "length (pre @ x @ post) < 2 ^ 63" using assms(5) by (simp add: c)
  have h: "unat (bh_offset h) = length pre" "unat (bh_size h) = length d"
    using len by (simp_all only: E(3) assms(4) block_handle.simps) (auto simp: pre_def x_def intro!: unat_of_nat64)
  have i: "i - length pre < length d + 5" "x ! (i - length pre) \<noteq> b"
    using assms(6-8) by (auto simp: c pre_def [symmetric] nth_append x_def)
  have "(pre @ x)[i := b] @ post = pre @ x[i - length pre := b] @ post"
    using assms(6) by (simp add: pre_def list_update_append)
  then have "ReadBlock snap (PosixRead sched ((pre @ x)[i := b] @ post)) h = Some (Inl DATA_LOSS)"
    using i len h unfolding x_def by (intro posix_file.ReadBlock_corrupt) auto
  moreover have "ReadBlock snap (PosixRead sched (pre @ x @ post)) h = Some (Inr raw)" if "payload_of snap (type_byte type) d raw" for raw
    using that h len unfolding x_def by (intro posix_file.ReadBlock_stored) (auto simp: stored_def)
  ultimately show ?thesis
    by (auto simp: c payload_of_def snappy_codec.compress_length snappy_codec.compress_inverse)
qed

text \<open>A codec that compresses nothing but is not the identity.\<close>

definition rev_snappy :: snappy where
  "rev_snappy = \<lparr>Snappy_Compress = (\<lambda>input. Some (rev input)), Snappy_GetUncompressedLength = (\<lambda>input. Some (length input)),
     Snappy_Uncompress = (\<lambda>input. Some (rev input))\<rparr>"

theorem table_block_corruption_witness:
  "\<exists>h r. WriteRawBlock PosixAppend [7, 9] kSnappyCompression (TableBuilder default_options demo_file) = (h, r) \<and>
     ReadBlock rev_snappy (PosixRead demo_schedule ((pf_contents (tb_file r))[0 := 8])) h = Some (Inl DATA_LOSS) \<and>
     ReadBlock rev_snappy (PosixRead demo_schedule (pf_contents (tb_file r))) h = Some (Inr [9, 7])"
proof -
  obtain h r where w: "WriteRawBlock PosixAppend [7, 9] kSnappyCompression (TableBuilder default_options demo_file) = (h, r)" by fastforce
  note E = posix_writable.WriteRawBlock_effect [OF w]
  have st: "tb_status r = None" "pf_contents (tb_file r) = checksummed [7, 9, 1]"
    using E(4,6) by (simp_all add: TableBuilder_def demo_file_def pf_capacity_def)
  have "snappy_codec rev_snappy" by unfold_locales (auto simp: rev_snappy_def)
  moreover have "Snappy_Compress rev_snappy [9, 7] = Some [7, 9]" by (simp add: rev_snappy_def)
  ultimately show ?thesis
    using table_block_corruption [OF w _ st(1), of "[]" 0 8 rev_snappy demo_schedule] w
    by (auto simp: st(2) TableBuilder_def demo_file_def checksummed_def)
qed

text \<open>
  The size in a handle is trusted: with a size just below \<open>2 ^ 64\<close>, which a damaged footer
  can hold since it has no checksum, the sum with the size of the trailer wraps around and
  \<open>ReadBlock\<close> reads outside its buffer.
\<close>

lemma read_block_size_overflow:
  assumes "bh_size h = - 2" "unat (bh_offset h) + 3 \<le> length c"
  shows "ReadBlock snap (PosixRead sched c) h = None"
proof -
  have n: "bh_size h + kBlockTrailerSize = 3" "unat (bh_size h + 1) = 2 ^ 64 - 1"
    by (simp_all add: assms(1) kBlockTrailerSize_def unsigned_minus_1_eq_mask mask_eq_exp_minus_1)
  have "PosixRead sched c (bh_offset h) 3 = (None, take 3 (drop (unat (bh_offset h)) c))"
    using posix_file.read_ok [of 3 "bh_offset h" c sched] assms(2) by simp
  then show ?thesis using assms(2) unfolding ReadBlock_def Let_def n by simp
qed

end
