(* ===== verification/Rendezvous.thy ===== *)
theory Rendezvous
  imports Coding "HOL-Library.Multiset"
begin

text \<open>
  Passing tensors from producers to consumers: \<open>LocalRendezvousImpl\<close> of
  \<open>framework/rendezvous.cc\<close> with the hash of \<open>lib/hash/hash.cc\<close> it is keyed by.

  Every operation holds the lock while it works on the table and calls back after releasing
  it, so an interleaving of concurrent calls is a sequence of operations. What an operation
  does besides changing the table is a list of effects in order: callbacks invoked, and
  references to device contexts taken and dropped. Tensors, callbacks and device contexts
  are opaque; \<open>None\<close> as a tensor is the empty \<open>Tensor()\<close>, and \<open>None\<close> as a status is OK.
\<close>

section \<open>The hash\<close>

definition ByteAs64 :: "byte \<Rightarrow> uint64" where
  "ByteAs64 c = scast c AND 0xff"

function Hash64_loop :: "uint64 \<Rightarrow> bytes \<Rightarrow> uint64 \<times> bytes" where
  "Hash64_loop h data =
     (if length data \<ge> 8 then
        let m = 0xc6a4a7935bd1e995;
            k = DecodeFixed64 kLittleEndian data * m;
            k = k XOR drop_bit 47 k;
            k = k * m
        in Hash64_loop ((h XOR k) * m) (drop 8 data)
      else (h, data))"
  by pat_completeness auto
termination
  by (relation "measure (\<lambda>(h, data). length data)") auto

declare Hash64_loop.simps [simp del]

text \<open>The switch over the remaining bytes, with its fall-through.\<close>

definition Hash64_tail :: "uint64 \<Rightarrow> bytes \<Rightarrow> uint64" where
  "Hash64_tail h data =
     (let n = length data;
          h = (if n \<ge> 7 then h XOR push_bit 48 (ByteAs64 (data ! 6)) else h);
          h = (if n \<ge> 6 then h XOR push_bit 40 (ByteAs64 (data ! 5)) else h);
          h = (if n \<ge> 5 then h XOR push_bit 32 (ByteAs64 (data ! 4)) else h);
          h = (if n \<ge> 4 then h XOR push_bit 24 (ByteAs64 (data ! 3)) else h);
          h = (if n \<ge> 3 then h XOR push_bit 16 (ByteAs64 (data ! 2)) else h);
          h = (if n \<ge> 2 then h XOR push_bit 8 (ByteAs64 (data ! 1)) else h)
      in if n \<ge> 1 then (h XOR ByteAs64 (data ! 0)) * 0xc6a4a7935bd1e995 else h)"

definition Hash64 :: "bytes \<Rightarrow> uint64 \<Rightarrow> uint64" where
  "Hash64 data seed =
     (let m = 0xc6a4a7935bd1e995;
          (h, rest) = Hash64_loop (seed XOR (of_nat (length data) * m)) data;
          h = Hash64_tail h rest;
          h = h XOR drop_bit 47 h;
          h = h * m
      in h XOR drop_bit 47 h)"

definition KeyHash :: "bytes \<Rightarrow> uint64" where
  "KeyHash k = Hash64 k 0xDECAFCAFFE"

section \<open>The rendezvous\<close>

type_synonym device_context = nat

record args =
  arg_device_context :: "device_context option"
  arg_alloc_attrs :: uint32

definition default_args :: args where
  "default_args = \<lparr>arg_device_context = None, arg_alloc_attrs = 0\<rparr>"

record ('w, 't) item =
  waiter :: "'w option"
  item_value :: "'t option"
  item_is_dead :: bool
  has_been_recvd :: bool
  send_dev_context :: "device_context option"
  recv_dev_context :: "device_context option"
  send_alloc_attrs :: uint32
  recv_alloc_attrs :: uint32

definition new_item :: "('w, 't) item" where
  "new_item = \<lparr>waiter = None, item_value = None, item_is_dead = False, has_been_recvd = False,
     send_dev_context = None, recv_dev_context = None, send_alloc_attrs = 0, recv_alloc_attrs = 0\<rparr>"

datatype ('w, 't) effect =
    Invoke 'w "code option" args args "'t option" bool
  | Ref device_context
  | Unref device_context
  | Returns "code option"

text \<open>The table in the order in which its iteration visits the entries.\<close>

record ('w, 't) rendezvous =
  tolerate_dup_recv :: bool
  rv_table :: "(uint64 \<times> ('w, 't) item) list"
  rv_status :: "code option"

definition NewLocalRendezvous :: "bool \<Rightarrow> ('w, 't) rendezvous" where
  "NewLocalRendezvous tol = \<lparr>tolerate_dup_recv = tol, rv_table = [], rv_status = None\<rparr>"

definition ref_opt :: "device_context option \<Rightarrow> ('w, 't) effect list" where
  "ref_opt d = (case d of None \<Rightarrow> [] | Some c \<Rightarrow> [Ref c])"

definition unref_opt :: "device_context option \<Rightarrow> ('w, 't) effect list" where
  "unref_opt d = (case d of None \<Rightarrow> [] | Some c \<Rightarrow> [Unref c])"

definition modify_item :: "uint64 \<Rightarrow> ('i \<Rightarrow> 'i) \<Rightarrow> (uint64 \<times> 'i) list \<Rightarrow> (uint64 \<times> 'i) list" where
  "modify_item h f t = map (\<lambda>(k, i). (k, if k = h then f i else i)) t"

definition Send :: "bytes \<Rightarrow> args \<Rightarrow> 't option \<Rightarrow> bool \<Rightarrow> ('w, 't) rendezvous \<Rightarrow>
    ('w, 't) rendezvous \<times> ('w, 't) effect list" where
  "Send key send_args val is_dead r =
     (let key_hash = KeyHash key in
      if rv_status r \<noteq> None then (r, [Returns (rv_status r)])
      else
        case map_of (rv_table r) key_hash of
          None \<Rightarrow>
            let item = new_item\<lparr>item_value := val, item_is_dead := is_dead,
                  send_dev_context := arg_device_context send_args, send_alloc_attrs := arg_alloc_attrs send_args\<rparr>
            in (r\<lparr>rv_table := (key_hash, item) # rv_table r\<rparr>,
                ref_opt (arg_device_context send_args) @ [Returns None])
        | Some item \<Rightarrow>
            (case waiter item of
               None \<Rightarrow> (r, [Returns (Some ABORTED)])
             | Some w \<Rightarrow>
                 let recv_args = \<lparr>arg_device_context = recv_dev_context item, arg_alloc_attrs = recv_alloc_attrs item\<rparr>;
                     done = (\<lambda>i. i\<lparr>has_been_recvd := True, waiter := None, recv_dev_context := None\<rparr>);
                     keep = (\<lambda>i. i\<lparr>item_value := val, item_is_dead := is_dead,
                       send_dev_context := (if arg_device_context send_args \<noteq> None
                         then arg_device_context send_args else send_dev_context i),
                       send_alloc_attrs := arg_alloc_attrs send_args\<rparr>);
                     (update, effs) = (if tolerate_dup_recv r
                       then (\<lambda>i. keep (done i), ref_opt (arg_device_context send_args)) else (done, []))
                 in (r\<lparr>rv_table := modify_item key_hash update (rv_table r)\<rparr>,
                     effs @ [Invoke w None send_args recv_args val is_dead] @
                     unref_opt (arg_device_context recv_args) @ [Returns None])))"

definition RecvAsync :: "bytes \<Rightarrow> args \<Rightarrow> 'w \<Rightarrow> ('w, 't) rendezvous \<Rightarrow>
    ('w, 't) rendezvous \<times> ('w, 't) effect list" where
  "RecvAsync key recv_args done r =
     (let key_hash = KeyHash key in
      if rv_status r \<noteq> None then (r, [Invoke done (rv_status r) default_args recv_args None False])
      else
        case map_of (rv_table r) key_hash of
          Some item \<Rightarrow>
            if has_been_recvd item \<and> \<not> tolerate_dup_recv r
            then (r, [Invoke done (Some ABORTED) default_args recv_args None False])
            else if waiter item = None \<or> tolerate_dup_recv r then
              let v = item_value item;
                  update = (\<lambda>i. (if tolerate_dup_recv r then i else i\<lparr>item_value := None\<rparr>)\<lparr>has_been_recvd := True\<rparr>);
                  send_args = \<lparr>arg_device_context = send_dev_context item, arg_alloc_attrs = send_alloc_attrs item\<rparr>
              in (r\<lparr>rv_table := modify_item key_hash update (rv_table r)\<rparr>,
                  ref_opt (send_dev_context item) @
                  [Invoke done None send_args recv_args v (item_is_dead item)] @
                  unref_opt (send_dev_context item))
            else (r, [Invoke done (Some ABORTED) default_args recv_args None False])
        | None \<Rightarrow>
            let item = new_item\<lparr>waiter := Some done, recv_alloc_attrs := arg_alloc_attrs recv_args,
                  recv_dev_context := arg_device_context recv_args\<rparr>
            in (r\<lparr>rv_table := (key_hash, item) # rv_table r\<rparr>, ref_opt (arg_device_context recv_args)))"

definition delete_item :: "('w, 't) item \<Rightarrow> ('w, 't) effect list" where
  "delete_item i = unref_opt (send_dev_context i) @ unref_opt (recv_dev_context i)"

definition abort_item :: "code \<Rightarrow> ('w, 't) item \<Rightarrow> ('w, 't) effect list" where
  "abort_item status i =
     (case waiter i of None \<Rightarrow> [] | Some w \<Rightarrow> [Invoke w (Some status) default_args default_args None False]) @
     delete_item i"

definition StartAbort :: "code \<Rightarrow> ('w, 't) rendezvous \<Rightarrow> ('w, 't) rendezvous \<times> ('w, 't) effect list" where
  "StartAbort status r =
     (if rv_status r \<noteq> None then (r, [])
      else (r\<lparr>rv_status := Some status, rv_table := []\<rparr>,
            concat (map (\<lambda>(h, i). abort_item status i) (rv_table r))))"

text \<open>The destructor.\<close>

definition destroy :: "('w, 't) rendezvous \<Rightarrow> ('w, 't) effect list" where
  "destroy r = concat (map (\<lambda>(h, i). delete_item i) (rv_table r))"

section \<open>Histories\<close>

text \<open>The operations called, in order, and the effects of each.\<close>

datatype ('w, 't) operation =
    OSend bytes args "'t option" bool
  | ORecv bytes args 'w
  | OAbort code

fun step :: "('w, 't) operation \<Rightarrow> ('w, 't) rendezvous \<Rightarrow> ('w, 't) rendezvous \<times> ('w, 't) effect list" where
  "step (OSend key a v d) r = Send key a v d r"
| "step (ORecv key a w) r = RecvAsync key a w r"
| "step (OAbort s) r = StartAbort s r"

inductive history :: "bool \<Rightarrow> ('w, 't) operation list \<Rightarrow> ('w, 't) rendezvous \<Rightarrow>
    (('w, 't) operation \<times> ('w, 't) effect) list \<Rightarrow> bool" for tol where
  start: "history tol [] (NewLocalRendezvous tol) []"
| call: "history tol ops r log \<Longrightarrow> step op r = (r', effs) \<Longrightarrow>
    history tol (ops @ [op]) r' (log @ map (Pair op) effs)"

inductive_cases history_snocE: "history tol (ops @ [op]) r log"

text \<open>The callbacks handed over, invoked and kept.\<close>

fun registered :: "('w, 't) operation \<Rightarrow> 'w multiset" where
  "registered (ORecv key a w) = {#w#}"
| "registered _ = {#}"

fun invoked :: "('w, 't) effect \<Rightarrow> 'w multiset" where
  "invoked (Invoke w s a b v d) = {#w#}"
| "invoked _ = {#}"

definition waiting :: "('w, 't) item \<Rightarrow> 'w multiset" where
  "waiting i = (case waiter i of None \<Rightarrow> {#} | Some w \<Rightarrow> {#w#})"

text \<open>Messages accepted from producers, passed on to consumers and kept, with the hash of their key.\<close>

type_synonym 't message = "uint64 \<times> args \<times> 't option \<times> bool"

fun accepted :: "('w, 't) operation \<times> ('w, 't) effect \<Rightarrow> 't message multiset" where
  "accepted (OSend key a v d, Returns None) = {#(KeyHash key, a, v, d)#}"
| "accepted _ = {#}"

fun delivered :: "('w, 't) operation \<times> ('w, 't) effect \<Rightarrow> 't message multiset" where
  "delivered (OSend key _ _ _, Invoke w None a b v d) = {#(KeyHash key, a, v, d)#}"
| "delivered (ORecv key _ _, Invoke w None a b v d) = {#(KeyHash key, a, v, d)#}"
| "delivered _ = {#}"

definition stored :: "uint64 \<times> ('w, 't) item \<Rightarrow> 't message multiset" where
  "stored p = (case p of (h, i) \<Rightarrow> if waiter i = None \<and> \<not> has_been_recvd i
     then {#(h, \<lparr>arg_device_context = send_dev_context i, arg_alloc_attrs = send_alloc_attrs i\<rparr>,
       item_value i, item_is_dead i)#} else {#})"

definition total :: "('a \<Rightarrow> 'b multiset) \<Rightarrow> 'a list \<Rightarrow> 'b multiset" where
  "total f xs = sum_list (map f xs)"

text \<open>References held by an effect list and by an item.\<close>

fun refs :: "device_context \<Rightarrow> ('w, 't) effect \<Rightarrow> int" where
  "refs c (Ref d) = of_bool (d = c)"
| "refs c (Unref d) = - of_bool (d = c)"
| "refs c _ = 0"

definition held :: "device_context \<Rightarrow> ('w, 't) item \<Rightarrow> int" where
  "held c i = of_bool (send_dev_context i = Some c) + of_bool (recv_dev_context i = Some c)"

section \<open>The table\<close>

lemma total_simps [simp]: "total f [] = {#}" "total f (x # xs) = f x + total f xs" "total f (xs @ ys) = total f xs + total f ys"
  by (simp_all add: total_def)

lemma total_empty [simp]: "total (\<lambda>x. {#}) xs = {#}"
  by (induction xs) simp_all

lemma find_item:
  assumes "map_of t h = Some i" "distinct (map fst t)"
  shows "\<exists>xs ys. t = xs @ (h, i) # ys \<and> h \<notin> fst ` set xs \<and> h \<notin> fst ` set ys"
proof -
  obtain xs ys where "t = xs @ (h, i) # ys" using map_of_SomeD [OF assms(1)] by (meson split_list)
  then show ?thesis using assms(2) by (intro exI [of _ xs] exI [of _ ys]) auto
qed

lemma modify_other: "h \<notin> fst ` set t \<Longrightarrow> modify_item h f t = t"
  by (induction t) (auto simp: modify_item_def)

lemma modify_found:
  assumes "h \<notin> fst ` set xs" "h \<notin> fst ` set ys"
  shows "modify_item h f (xs @ (h, i) # ys) = xs @ (h, f i) # ys"
  using modify_other [OF assms(1)] modify_other [OF assms(2)] by (simp add: modify_item_def)

lemma map_fst_modify [simp]: "map fst (modify_item h f t) = map fst t"
  by (induction t) (auto simp: modify_item_def)

section \<open>Balance of one operation\<close>

definition item_ok :: "('w, 't) item \<Rightarrow> bool" where
  "item_ok i \<longleftrightarrow> (waiter i \<noteq> None \<longrightarrow> send_dev_context i = None) \<and> (waiter i = None \<longrightarrow> recv_dev_context i = None)"

definition table_ok :: "('w, 't) rendezvous \<Rightarrow> bool" where
  "table_ok r \<longleftrightarrow> distinct (map fst (rv_table r)) \<and> (\<forall>p\<in>set (rv_table r). item_ok (snd p)) \<and>
     (rv_status r \<noteq> None \<longrightarrow> rv_table r = [])"

abbreviation held_by :: "device_context \<Rightarrow> ('w, 't) rendezvous \<Rightarrow> int" where
  "held_by c r \<equiv> sum_list (map (\<lambda>p. held c (snd p)) (rv_table r))"

text \<open>
  What goes in comes out or stays: callbacks, messages (unless receives may be repeated or
  the rendezvous was aborted) and references.
\<close>

definition balanced :: "('w, 't) operation \<Rightarrow> ('w, 't) rendezvous \<Rightarrow> ('w, 't) rendezvous \<Rightarrow> ('w, 't) effect list \<Rightarrow> bool" where
  "balanced op r r' effs \<longleftrightarrow> table_ok r' \<and> tolerate_dup_recv r' = tolerate_dup_recv r \<and>
     (rv_status r \<noteq> None \<longrightarrow> rv_status r' \<noteq> None) \<and>
     registered op + total (\<lambda>p. waiting (snd p)) (rv_table r) =
       total invoked effs + total (\<lambda>p. waiting (snd p)) (rv_table r') \<and>
     (\<not> tolerate_dup_recv r \<longrightarrow> rv_status r' = None \<longrightarrow>
       total (\<lambda>e. accepted (op, e)) effs + total stored (rv_table r) =
       total (\<lambda>e. delivered (op, e)) effs + total stored (rv_table r')) \<and>
     (\<forall>c. sum_list (map (refs c) effs) + held_by c r = held_by c r')"

lemma opt_effects [simp]:
  "total invoked (ref_opt d) = {#}" "total invoked (unref_opt d) = {#}"
  "total (\<lambda>e. accepted (op, e)) (ref_opt d) = {#}" "total (\<lambda>e. accepted (op, e)) (unref_opt d) = {#}"
  "total (\<lambda>e. delivered (op, e)) (ref_opt d) = {#}" "total (\<lambda>e. delivered (op, e)) (unref_opt d) = {#}"
  "sum_list (map (refs c) (ref_opt d)) = of_bool (d = Some c)" "sum_list (map (refs c) (unref_opt d)) = - of_bool (d = Some c)"
  by (cases d; cases op; simp add: ref_opt_def unref_opt_def)+

lemma table_ok_insert:
  assumes "table_ok r" "map_of (rv_table r) h = None" "item_ok i" "rv_status r = None"
  shows "table_ok (r\<lparr>rv_table := (h, i) # rv_table r\<rparr>)"
  using assms by (auto simp: table_ok_def map_of_eq_None_iff)

lemma table_ok_modify:
  assumes "table_ok r" "rv_status r = None" "rv_table r = xs @ (h, i) # ys" "item_ok i'"
  shows "table_ok (r\<lparr>rv_table := xs @ (h, i') # ys\<rparr>)"
  using assms by (auto simp: table_ok_def)

lemma Send_balanced:
  assumes ok: "table_ok r" and s: "Send key a v d r = (r', effs)"
  shows "balanced (OSend key a v d) r r' effs"
proof (cases "rv_status r")
  case (Some e)
  then show ?thesis using assms by (auto simp: Send_def balanced_def)
next
  case st: None
  define h where "h = KeyHash key"
  show ?thesis
  proof (cases "map_of (rv_table r) h")
    case None
    have "item_ok (new_item\<lparr>item_value := v, item_is_dead := d, send_dev_context := arg_device_context a,
        send_alloc_attrs := arg_alloc_attrs a\<rparr>)" by (simp add: item_ok_def new_item_def)
    from table_ok_insert [OF ok None this st] show ?thesis
      using s st None unfolding Send_def h_def [symmetric] Let_def
      by (auto simp: balanced_def waiting_def stored_def held_def new_item_def h_def)
  next
    case (Some i)
    show ?thesis
    proof (cases "waiter i")
      case None
      then show ?thesis using s st Some ok unfolding Send_def h_def [symmetric] Let_def by (auto simp: balanced_def)
    next
      case w: (Some w)
      obtain xs ys where t: "rv_table r = xs @ (h, i) # ys" "h \<notin> fst ` set xs" "h \<notin> fst ` set ys"
        using find_item [OF Some] ok by (auto simp: table_ok_def)
      have i: "send_dev_context i = None" using ok w by (auto simp: table_ok_def item_ok_def t(1))
      define i' where "i' = (let j = i\<lparr>has_been_recvd := True, waiter := None, recv_dev_context := None\<rparr> in
        if tolerate_dup_recv r then j\<lparr>item_value := v, item_is_dead := d, send_dev_context := arg_device_context a,
          send_alloc_attrs := arg_alloc_attrs a\<rparr> else j)"
      have i': "waiter i' = None" "has_been_recvd i'" "recv_dev_context i' = None"
        "send_dev_context i' = (if tolerate_dup_recv r then arg_device_context a else None)" by (simp_all add: i'_def Let_def i)
      have r': "r' = r\<lparr>rv_table := xs @ (h, i') # ys\<rparr>"
        using s st Some w i unfolding Send_def h_def [symmetric] Let_def t(1)
        by (auto simp: modify_found [OF t(2,3)] i'_def split: if_splits)
      have e: "effs = (if tolerate_dup_recv r then ref_opt (arg_device_context a) else []) @
          [Invoke w None a \<lparr>arg_device_context = recv_dev_context i, arg_alloc_attrs = recv_alloc_attrs i\<rparr> v d] @
          unref_opt (recv_dev_context i) @ [Returns None]"
        using s st Some w unfolding Send_def h_def [symmetric] Let_def by (auto split: if_splits)
      have "table_ok r'" unfolding r' by (rule table_ok_modify [OF ok st t(1)]) (simp add: item_ok_def i')
      then show ?thesis
        unfolding balanced_def r' e by (auto simp: t(1) waiting_def stored_def held_def w i i' h_def)
    qed
  qed
qed

lemma RecvAsync_balanced:
  assumes ok: "table_ok r" and s: "RecvAsync key a w r = (r', effs)"
  shows "balanced (ORecv key a w) r r' effs"
proof (cases "rv_status r")
  case (Some e)
  then show ?thesis using assms by (auto simp: RecvAsync_def balanced_def)
next
  case st: None
  define h where "h = KeyHash key"
  show ?thesis
  proof (cases "map_of (rv_table r) h")
    case None
    have "item_ok (new_item\<lparr>waiter := Some w, recv_alloc_attrs := arg_alloc_attrs a, recv_dev_context := arg_device_context a\<rparr>)"
      by (simp add: item_ok_def new_item_def)
    from table_ok_insert [OF ok None this st] show ?thesis
      using s st None unfolding RecvAsync_def h_def [symmetric] Let_def
      by (auto simp: balanced_def waiting_def stored_def held_def new_item_def)
  next
    case (Some i)
    define dup where "dup \<longleftrightarrow> \<not> tolerate_dup_recv r \<and> (has_been_recvd i \<or> waiter i \<noteq> None)"
    show ?thesis
    proof (cases dup)
      case True
      then have "r' = r" "effs = [Invoke w (Some ABORTED) default_args a None False]"
        using s st Some unfolding RecvAsync_def h_def [symmetric] Let_def by (auto simp: dup_def split: if_splits)
      then show ?thesis using ok by (simp add: balanced_def)
    next
      case False
      obtain xs ys where t: "rv_table r = xs @ (h, i) # ys" "h \<notin> fst ` set xs" "h \<notin> fst ` set ys"
        using find_item [OF Some] ok by (auto simp: table_ok_def)
      define i' where "i' = (if tolerate_dup_recv r then i else i\<lparr>item_value := None\<rparr>)\<lparr>has_been_recvd := True\<rparr>"
      have i': "waiter i' = waiter i" "has_been_recvd i'" "recv_dev_context i' = recv_dev_context i"
        "send_dev_context i' = send_dev_context i" by (simp_all add: i'_def)
      have r': "r' = r\<lparr>rv_table := xs @ (h, i') # ys\<rparr>" and e: "effs = ref_opt (send_dev_context i) @
          [Invoke w None \<lparr>arg_device_context = send_dev_context i, arg_alloc_attrs = send_alloc_attrs i\<rparr> a (item_value i) (item_is_dead i)] @
          unref_opt (send_dev_context i)"
        using s st Some False unfolding RecvAsync_def h_def [symmetric] Let_def t(1)
        by (auto simp: modify_found [OF t(2,3)] i'_def dup_def split: if_splits)
      have "item_ok i" using ok by (simp add: table_ok_def t(1))
      then have "table_ok r'" unfolding r' by (intro table_ok_modify [OF ok st t(1)]) (simp add: item_ok_def i')
      then show ?thesis
        using False unfolding balanced_def r' e
        by (auto simp: t(1) waiting_def stored_def held_def i' h_def dup_def)
    qed
  qed
qed

lemma abort_effects:
  "total invoked (concat (map (\<lambda>(h, i). abort_item s i) t)) = total (\<lambda>p. waiting (snd p)) t"
  "sum_list (map (refs c) (concat (map (\<lambda>(h, i). abort_item s i) t))) = - sum_list (map (\<lambda>p. held c (snd p)) t)"
  by (induction t) (auto simp: abort_item_def delete_item_def waiting_def held_def split: option.splits)

lemma StartAbort_balanced:
  assumes "table_ok r" "StartAbort s r = (r', effs)"
  shows "balanced (OAbort s) r r' effs"
proof (cases "rv_status r")
  case (Some e)
  then show ?thesis using assms by (auto simp: StartAbort_def balanced_def)
next
  case None
  then show ?thesis using assms(2) by (auto simp: StartAbort_def balanced_def table_ok_def abort_effects)
qed

lemma step_balanced: "table_ok r \<Longrightarrow> step op r = (r', effs) \<Longrightarrow> balanced op r r' effs"
  by (cases op) (simp_all add: Send_balanced RecvAsync_balanced StartAbort_balanced)

section \<open>Balance of a history\<close>

lemma total_tagged: "total f (map (Pair op) effs) = total (\<lambda>e. f (op, e)) effs"
  by (induction effs) simp_all

lemma history_balanced:
  assumes "history tol ops r log"
  shows "table_ok r \<and> tolerate_dup_recv r = tol \<and>
    total registered ops = total (\<lambda>p. invoked (snd p)) log + total (\<lambda>p. waiting (snd p)) (rv_table r) \<and>
    (\<not> tol \<longrightarrow> rv_status r = None \<longrightarrow> total accepted log = total delivered log + total stored (rv_table r)) \<and>
    (\<forall>c. sum_list (map (\<lambda>p. refs c (snd p)) log) = held_by c r)"
  using assms
proof (induction rule: history.induct)
  case start
  then show ?case by (simp add: NewLocalRendezvous_def table_ok_def)
next
  case (call ops r log op r' effs)
  then have b: "balanced op r r' effs" using step_balanced by blast
  have "total registered (ops @ [op]) = total (\<lambda>p. invoked (snd p)) (log @ map (Pair op) effs) + total (\<lambda>p. waiting (snd p)) (rv_table r')"
    using call.IH b by (simp add: balanced_def total_tagged ac_simps)
  moreover have "total accepted (log @ map (Pair op) effs) = total delivered (log @ map (Pair op) effs) + total stored (rv_table r')"
    if "\<not> tol" "rv_status r' = None"
  proof -
    have "rv_status r = None" using b that by (auto simp: balanced_def)
    then show ?thesis using call.IH b that by (simp add: balanced_def total_tagged ac_simps)
  qed
  moreover have "sum_list (map (\<lambda>p. refs c (snd p)) (log @ map (Pair op) effs)) = held_by c r'" for c
  proof -
    have "sum_list (map (refs c) effs) + held_by c r = held_by c r'" using b unfolding balanced_def by blast
    then show ?thesis using call.IH by (simp add: comp_def)
  qed
  ultimately show ?case using b call.IH by (simp add: balanced_def)
qed

lemma destroy_refs: "sum_list (map (refs c) (destroy r)) = - held_by c r"
proof -
  have "sum_list (map (refs c) (concat (map (\<lambda>(h, i). delete_item i) t))) = - sum_list (map (\<lambda>p. held c (snd p)) t)"
    for t :: "(uint64 \<times> ('w, 't) item) list"
    by (induction t) (auto simp: delete_item_def held_def)
  then show ?thesis by (simp add: destroy_def)
qed

section \<open>Properties\<close>

lemma total_mem: "x \<in># total f xs \<longleftrightarrow> (\<exists>y\<in>set xs. x \<in># f y)"
  by (induction xs) auto

text \<open>
  C11: Every callback is called exactly once. At any point of any interleaving of sends,
  receives and aborts the callbacks handed over are those invoked so far and those waiting
  in the table, and after an abort none is waiting. As long as receives are not repeatable
  and there was no abort, the messages accepted are those delivered, under the hash of
  their key and with their arguments, and those stored; a stored message never has a
  callback waiting for it.
\<close>

theorem rendezvous_exactly_once:
  assumes "history tol ops r log"
  shows "total registered ops = total (\<lambda>p. invoked (snd p)) log + total (\<lambda>p. waiting (snd p)) (rv_table r) \<and>
    (rv_status r \<noteq> None \<longrightarrow> total registered ops = total (\<lambda>p. invoked (snd p)) log) \<and>
    (\<not> tol \<and> rv_status r = None \<longrightarrow>
       total accepted log = total delivered log + total stored (rv_table r) \<and>
       (\<forall>h a v d. (h, a, v, d) \<in># total accepted log - total delivered log \<longrightarrow>
          (\<forall>i. (h, i) \<in> set (rv_table r) \<longrightarrow> waiting i = {#})))"
proof -
  note B = history_balanced [OF assms]
  have ok: "table_ok r" using B by blast
  have "waiting i = {#}" if m: "(h, a, v, d) \<in># total stored (rv_table r)" and i: "(h, i) \<in> set (rv_table r)" for h a v d i
  proof -
    obtain j where j: "(h, j) \<in> set (rv_table r)" "waiter j = None"
      using m unfolding total_mem stored_def by (auto split: if_splits)
    have "i = j" using ok i j(1) by (metis table_ok_def eq_key_imp_eq_value)
    then show ?thesis using j(2) by (simp add: waiting_def)
  qed
  moreover have "rv_table r = []" if "rv_status r \<noteq> None" using ok that by (simp add: table_ok_def)
  ultimately show ?thesis using B by (auto simp: add_diff_cancel_left')
qed

lemma demo_history:
  "\<exists>r log. history False [ORecv [1] default_args (7 :: nat), OSend [1] default_args (Some (5 :: nat)) False] r log \<and>
    rv_status r = None \<and> total (\<lambda>p. waiting (snd p)) (rv_table r) = {#}"
proof -
  let ?recv = "ORecv [1] default_args 7 :: (nat, nat) operation" and ?send = "OSend [1] default_args (Some 5) False :: (nat, nat) operation"
  obtain r1 e1 where 1: "step ?recv (NewLocalRendezvous False) = (r1, e1)" by fastforce
  obtain r2 e2 where 2: "step ?send r1 = (r2, e2)" by fastforce
  have "history False ([] @ [?recv]) r1 ([] @ map (Pair ?recv) e1)" by (rule history.call [OF history.start 1])
  from history.call [OF this 2] have "history False [?recv, ?send] r2 (map (Pair ?recv) e1 @ map (Pair ?send) e2)" by simp
  moreover have "rv_status r2 = None \<and> total (\<lambda>p. waiting (snd p)) (rv_table r2) = {#}"
    using 1 2 by (auto simp: RecvAsync_def Send_def NewLocalRendezvous_def new_item_def modify_item_def default_args_def
        waiting_def ref_opt_def Let_def)
  ultimately show ?thesis by blast
qed

theorem rendezvous_exactly_once_witness:
  "\<exists>r log. history False [ORecv [1] default_args (7 :: nat), OSend [1] default_args (Some (5 :: nat)) False] r log \<and>
    total (\<lambda>p. invoked (snd p)) log = {#7#}"
proof -
  obtain r log where h: "history False [ORecv [1] default_args (7 :: nat), OSend [1] default_args (Some (5 :: nat)) False] r log"
    "total (\<lambda>p. waiting (snd p)) (rv_table r) = {#}" using demo_history by blast
  then show ?thesis using rendezvous_exactly_once [OF h(1)] by auto
qed

text \<open>
  References to device contexts are neither leaked nor dropped twice. At any point
  the references taken and not yet dropped are exactly those of the items in the table,
  and destroying the rendezvous drops all of them.
\<close>

theorem rendezvous_references:
  assumes "history tol ops r log"
  shows "sum_list (map (\<lambda>p. refs c (snd p)) log) = sum_list (map (\<lambda>p. held c (snd p)) (rv_table r)) \<and>
    0 \<le> sum_list (map (\<lambda>p. refs c (snd p)) log) \<and>
    sum_list (map (\<lambda>p. refs c (snd p)) log) + sum_list (map (refs c) (destroy r)) = 0"
proof -
  have "0 \<le> held_by c r" by (rule sum_list_nonneg) (auto simp: held_def)
  then show ?thesis using history_balanced [OF assms] destroy_refs [of c r] by simp
qed

theorem rendezvous_references_witness:
  "\<exists>r log. history False [ORecv [1] default_args (7 :: nat), OSend [1] default_args (Some (5 :: nat)) False] r log \<and>
    sum_list (map (\<lambda>p. refs 3 (snd p)) log) + sum_list (map (refs 3) (destroy r)) = 0"
proof -
  obtain r log where h: "history False [ORecv [1] default_args (7 :: nat), OSend [1] default_args (Some (5 :: nat)) False] r log"
    using demo_history by blast
  then show ?thesis using rendezvous_references [OF h, of 3] by blast
qed

text \<open>
  With repeatable receives a second receive for a key whose message has not arrived is
  answered at once, with status OK and an empty tensor, as if a message had been sent.
\<close>

theorem rendezvous_early_duplicate:
  assumes "tolerate_dup_recv r" "rv_status r = None" "map_of (rv_table r) (KeyHash key) = None"
    and "RecvAsync key a w r = (r1, effs1)" "RecvAsync key b w' r1 = (r2, effs2)"
  shows "effs2 = [Invoke w' None default_args b None False] \<and> total accepted (map (Pair (ORecv key a w)) effs1) = {#}"
  using assms by (auto simp: RecvAsync_def Let_def new_item_def default_args_def ref_opt_def unref_opt_def total_tagged
      split: option.splits)

theorem rendezvous_early_duplicate_witness:
  "\<exists>r effs. RecvAsync [1] default_args (8 :: nat) (fst (RecvAsync [1] default_args 7 (NewLocalRendezvous True))) = (r, effs) \<and>
    effs = [Invoke 8 None default_args default_args (None :: nat option) False]"
proof -
  let ?r0 = "NewLocalRendezvous True :: (nat, nat) rendezvous"
  obtain r1 e1 where 1: "RecvAsync [1] default_args 7 ?r0 = (r1, e1)" by fastforce
  obtain r2 e2 where 2: "RecvAsync [1] default_args 8 r1 = (r2, e2)" by fastforce
  show ?thesis using rendezvous_early_duplicate [OF _ _ _ 1 2] 1 2 by (simp add: NewLocalRendezvous_def)
qed

end
