(* ===== verification/Numbers.thy ===== *)
theory Numbers
  imports Prelude "HOL-Library.Signed_Division"
begin

text \<open>
  Numbers as text: \<open>lib/strings/numbers.cc\<close> (integers to decimal and hexadecimal digits and
  back) and the consuming parsers of \<open>lib/strings/str_util.cc\<close> the device names are read with.

  A \<open>StringPiece\<close> is a \<open>string\<close>; a function that advances a \<open>StringPiece*\<close> returns the rest
  of it. The functions that return \<open>bool\<close> and fill an out-parameter return an option. The
  character classes are those of the C locale, and a character is compared by its code.
\<close>

section \<open>Characters\<close>

definition between :: "char \<Rightarrow> char \<Rightarrow> char \<Rightarrow> bool" where
  "between lo hi c \<longleftrightarrow> (of_char lo :: nat) \<le> of_char c \<and> of_char c \<le> (of_char hi :: nat)"

definition isdigit :: "char \<Rightarrow> bool" where
  "isdigit c \<longleftrightarrow> between CHR ''0'' CHR ''9'' c"

definition isspace :: "char \<Rightarrow> bool" where
  "isspace c \<longleftrightarrow> c = CHR '' '' \<or> between CHR 0x09 CHR 0x0D c"

definition digit :: "char \<Rightarrow> nat" where
  "digit c = of_char c - of_char CHR ''0''"

section \<open>Integers to decimal digits\<close>

text \<open>
  The loop of \<open>FastUInt32ToBufferLeft\<close> and \<open>FastUInt64ToBufferLeft\<close>: the digits from the
  least significant one.
\<close>

function digits_loop :: "nat \<Rightarrow> string" where
  "digits_loop i =
     char_of (i mod 10 + of_char CHR ''0'') # (if i div 10 > 0 then digits_loop (i div 10) else [])"
  by pat_completeness auto
termination
  by (relation "measure (\<lambda>i. i)") auto

declare digits_loop.simps [simp del]

definition FastUInt32ToBufferLeft :: "uint32 \<Rightarrow> string" where
  "FastUInt32ToBufferLeft i = rev (digits_loop (unat i))"

definition FastInt32ToBufferLeft :: "32 word \<Rightarrow> string" where
  "FastInt32ToBufferLeft i =
     (if sint i < 0 then ''-'' @ FastUInt32ToBufferLeft (0 - i) else FastUInt32ToBufferLeft i)"

definition FastUInt64ToBufferLeft :: "uint64 \<Rightarrow> string" where
  "FastUInt64ToBufferLeft i = rev (digits_loop (unat i))"

definition FastInt64ToBufferLeft :: "64 word \<Rightarrow> string" where
  "FastInt64ToBufferLeft i =
     (if sint i < 0 then ''-'' @ FastUInt64ToBufferLeft (0 - i) else FastUInt64ToBufferLeft i)"

definition kFastToBufferSize :: nat where
  "kFastToBufferSize = 32"

section \<open>Decimal digits to integers\<close>

definition SafeFirstChar :: "string \<Rightarrow> char" where
  "SafeFirstChar str = (case str of [] \<Rightarrow> CHR 0x00 | c # _ \<Rightarrow> c)"

fun SkipSpaces :: "string \<Rightarrow> string" where
  "SkipSpaces [] = []"
| "SkipSpaces (c # rest) = (if isspace c then SkipSpaces rest else c # rest)"

definition ConsumePrefix :: "string \<Rightarrow> string \<Rightarrow> string option" where
  "ConsumePrefix s expected =
     (if take (length expected) s = expected then Some (drop (length expected) s) else None)"

text \<open>
  The digit loops of the parsers differ in the accumulator and in the overflow test only, which
  is the step: from the accumulator and the next digit to the new accumulator, or \<open>None\<close> for
  \<open>return false\<close>.
\<close>

fun accumulate :: "('r \<Rightarrow> nat \<Rightarrow> 'r option) \<Rightarrow> 'r \<Rightarrow> string \<Rightarrow> ('r \<times> string) option" where
  "accumulate step result [] = Some (result, [])"
| "accumulate step result (c # rest) =
     (if isdigit c then
        case step result (digit c) of None \<Rightarrow> None | Some r \<Rightarrow> accumulate step r rest
      else Some (result, c # rest))"

text \<open>
  A parser after its sign: at least one digit, then only spaces. The \<open>do\<close> loop is entered with
  a digit, so it is the same loop tested at the top.
\<close>

definition parse_digits :: "('r \<Rightarrow> nat \<Rightarrow> 'r option) \<Rightarrow> 'r \<Rightarrow> string \<Rightarrow> 'r option" where
  "parse_digits step zero str =
     (if \<not> isdigit (SafeFirstChar str) then None
      else case accumulate step zero str of
        None \<Rightarrow> None
      | Some (result, rest) \<Rightarrow> if SkipSpaces rest \<noteq> [] then None else Some result)"

definition kint64max :: int where "kint64max = 2 ^ 63 - 1"
definition kint64min :: int where "kint64min = - (2 ^ 63)"
definition kint32max :: int where "kint32max = 2 ^ 31 - 1"
definition kuint32max :: int where "kuint32max = 2 ^ 32 - 1"
definition kuint64max :: uint64 where "kuint64max = 0xffffffffffffffff"

definition strto64_step_pos :: "int \<Rightarrow> nat \<Rightarrow> int option" where
  "strto64_step_pos result d =
     (if (kint64max - int d) sdiv 10 < result then None else Some (result * 10 + int d))"

definition strto64_step_neg :: "int \<Rightarrow> nat \<Rightarrow> int option" where
  "strto64_step_neg result d =
     (if (kint64min + int d) sdiv 10 > result then None else Some (result * 10 - int d))"

definition safe_strto64 :: "string \<Rightarrow> 64 word option" where
  "safe_strto64 str =
     (let s = SkipSpaces str in
      case ConsumePrefix s ''-'' of
        Some rest \<Rightarrow> map_option word_of_int (parse_digits strto64_step_neg 0 rest)
      | None \<Rightarrow> map_option word_of_int (parse_digits strto64_step_pos 0 s))"

text \<open>
  The accumulator of \<open>safe_strtou64\<close> is declared \<open>int64\<close> and compared as \<open>uint64\<close>; its
  arithmetic is taken to wrap around.
\<close>

definition strtou64_step :: "uint64 \<Rightarrow> nat \<Rightarrow> uint64 option" where
  "strtou64_step result d =
     (if (kuint64max - of_nat d) div 10 < result then None else Some (result * 10 + of_nat d))"

definition safe_strtou64 :: "string \<Rightarrow> uint64 option" where
  "safe_strtou64 str = parse_digits strtou64_step 0 (SkipSpaces str)"

definition strto32_step :: "int \<Rightarrow> int \<Rightarrow> nat \<Rightarrow> int option" where
  "strto32_step vmax result d =
     (let result = result * 10 + int d in if result > vmax then None else Some result)"

definition safe_strto32 :: "string \<Rightarrow> 32 word option" where
  "safe_strto32 str =
     (let s = SkipSpaces str in
      case ConsumePrefix s ''-'' of
        Some rest \<Rightarrow>
          map_option (\<lambda>r. word_of_int (r * (-1))) (parse_digits (strto32_step (kint32max + 1)) 0 rest)
      | None \<Rightarrow> map_option (\<lambda>r. word_of_int (r * 1)) (parse_digits (strto32_step kint32max) 0 s))"

definition safe_strtou32 :: "string \<Rightarrow> uint32 option" where
  "safe_strtou32 str =
     map_option word_of_int (parse_digits (strto32_step kuint32max) 0 (SkipSpaces str))"

section \<open>Hexadecimal digits\<close>

definition hexdigits :: string where
  "hexdigits = ''0123456789abcdef''"

text \<open>The loop of \<open>Uint64ToHexString\<close> fills the buffer from its end: \<open>n\<close> digits are left.\<close>

fun hex_loop :: "nat \<Rightarrow> uint64 \<Rightarrow> string \<Rightarrow> string" where
  "hex_loop 0 v buf = buf"
| "hex_loop (Suc n) v buf = hex_loop n (drop_bit 4 v) (hexdigits ! unat (v AND 0xf) # buf)"

definition Uint64ToHexString :: "uint64 \<Rightarrow> string" where
  "Uint64ToHexString v = hex_loop 16 v []"

fun hex_parse_loop :: "uint64 \<Rightarrow> string \<Rightarrow> uint64 option" where
  "hex_parse_loop v [] = Some v"
| "hex_parse_loop v (c # s) =
     (if between CHR ''0'' CHR ''9'' c
      then hex_parse_loop (push_bit 4 v + (of_char c - of_char CHR ''0'')) s
      else if between CHR ''a'' CHR ''f'' c
      then hex_parse_loop (push_bit 4 v + 10 + (of_char c - of_char CHR ''a'')) s
      else if between CHR ''A'' CHR ''F'' c
      then hex_parse_loop (push_bit 4 v + 10 + (of_char c - of_char CHR ''A'')) s
      else None)"

definition HexStringToUint64 :: "string \<Rightarrow> uint64 option" where
  "HexStringToUint64 s = (if s = [] then None else hex_parse_loop 0 s)"

section \<open>Consuming parsers\<close>

definition leading_digits_step :: "uint64 \<Rightarrow> nat \<Rightarrow> uint64 option" where
  "leading_digits_step v d =
     (let new_v = v * 10 + of_nat d in if new_v div 8 < v then None else Some new_v)"

definition ConsumeLeadingDigits :: "string \<Rightarrow> (uint64 \<times> string) option" where
  "ConsumeLeadingDigits s =
     (case accumulate leading_digits_step 0 s of
        None \<Rightarrow> None
      | Some (v, rest) \<Rightarrow> if length rest < length s then Some (v, rest) else None)"

section \<open>The loops compute the decimal value\<close>

definition decimal_value :: "nat \<Rightarrow> string \<Rightarrow> nat" where
  "decimal_value n ds = foldl (\<lambda>v c. v * 10 + digit c) n ds"

lemma decimal_value_simps [simp]:
  "decimal_value n [] = n"
  "decimal_value n (c # ds) = decimal_value (n * 10 + digit c) ds"
  "decimal_value n (ds @ es) = decimal_value (decimal_value n ds) es"
  by (simp_all add: decimal_value_def)

lemma decimal_value_ge: "n \<le> decimal_value n ds"
proof (induction ds arbitrary: n)
  case (Cons c ds)
  have "n \<le> n * 10 + digit c" by simp
  also have "\<dots> \<le> decimal_value (n * 10 + digit c) ds" by (rule Cons.IH)
  finally show ?case by simp
qed simp

lemma isdigit_digit_less: "isdigit c \<Longrightarrow> digit c < 10"
  by (auto simp: isdigit_def between_def digit_def)

text \<open>
  What a digit loop relies on: its step represents the number read so far and fails exactly
  when the next number is above the limit.
\<close>

locale digit_loop =
  fixes step :: "'r \<Rightarrow> nat \<Rightarrow> 'r option" and rep :: "nat \<Rightarrow> 'r" and limit :: nat
  assumes step_rep: "n \<le> limit \<Longrightarrow> d < 10 \<Longrightarrow>
    step (rep n) d = (if n * 10 + d \<le> limit then Some (rep (n * 10 + d)) else None)"
begin

lemma accumulate_rep:
  assumes "n \<le> limit"
  shows "accumulate step (rep n) s =
    (let v = decimal_value n (takeWhile isdigit s)
     in if v \<le> limit then Some (rep v, dropWhile isdigit s) else None)"
  using assms
proof (induction s arbitrary: n)
  case (Cons c s)
  show ?case
  proof (cases "isdigit c \<and> limit < n * 10 + digit c")
    case True
    then have "limit < decimal_value (n * 10 + digit c) (takeWhile isdigit s)"
      by (meson decimal_value_ge less_le_trans)
    with True Cons.prems show ?thesis
      by (simp add: step_rep isdigit_digit_less Let_def)
  next
    case False
    with Cons.prems show ?thesis
      by (auto simp: step_rep isdigit_digit_less Cons.IH Let_def)
  qed
qed (simp add: Let_def)

lemma parse_digits_rep:
  "parse_digits step (rep 0) s =
    (let ds = takeWhile isdigit s
     in if ds \<noteq> [] \<and> SkipSpaces (dropWhile isdigit s) = [] \<and> decimal_value 0 ds \<le> limit
        then Some (rep (decimal_value 0 ds)) else None)"
proof (cases s)
  case Nil
  have "\<not> isdigit CHR 0x00" by (simp add: isdigit_def between_def)
  with Nil show ?thesis by (simp add: parse_digits_def SafeFirstChar_def)
next
  case (Cons c cs)
  show ?thesis
  proof (cases "isdigit c")
    case True
    then have "SafeFirstChar s = c" "takeWhile isdigit s \<noteq> []"
      using Cons by (simp_all add: SafeFirstChar_def)
    with True show ?thesis
      by (simp add: parse_digits_def accumulate_rep Let_def)
  next
    case False
    with Cons show ?thesis by (simp add: parse_digits_def SafeFirstChar_def)
  qed
qed

end

subsection \<open>The steps of the source\<close>

lemma div_10_less: "(a :: int) div 10 < n \<longleftrightarrow> a < n * 10"
  by linarith

lemma sdiv_10_nonneg: "0 \<le> (a :: int) \<Longrightarrow> a sdiv 10 = a div 10"
  by (simp add: signed_divide_int_def sgn_if)

lemma sdiv_10_neg: "(a :: int) < 0 \<Longrightarrow> a sdiv 10 = - ((- a) div 10)"
  by (simp add: signed_divide_int_def sgn_if)

interpretation strto64_pos: digit_loop strto64_step_pos int "2 ^ 63 - 1"
proof unfold_locales
  fix n d :: nat assume "n \<le> 2 ^ 63 - 1" "d < 10"
  have "(kint64max - int d) sdiv 10 = (kint64max - int d) div 10"
    using \<open>d < 10\<close> by (intro sdiv_10_nonneg) (simp add: kint64max_def)
  moreover have "(kint64max - int d) div 10 < int n \<longleftrightarrow> \<not> n * 10 + d \<le> 2 ^ 63 - 1"
    by (simp add: div_10_less kint64max_def) linarith
  ultimately show "strto64_step_pos (int n) d =
      (if n * 10 + d \<le> 2 ^ 63 - 1 then Some (int (n * 10 + d)) else None)"
    by (simp add: strto64_step_pos_def)
qed

interpretation strto64_neg: digit_loop strto64_step_neg "\<lambda>n. - int n" "2 ^ 63"
proof unfold_locales
  fix n d :: nat assume "n \<le> 2 ^ 63" "d < 10"
  have "(kint64min + int d) sdiv 10 = - ((- (kint64min + int d)) div 10)"
    using \<open>d < 10\<close> by (intro sdiv_10_neg) (simp add: kint64min_def)
  moreover have "- ((- (kint64min + int d)) div 10) > - int n \<longleftrightarrow> \<not> n * 10 + d \<le> 2 ^ 63"
    by (simp add: div_10_less kint64min_def) linarith
  ultimately show "strto64_step_neg (- int n) d =
      (if n * 10 + d \<le> 2 ^ 63 then Some (- int (n * 10 + d)) else None)"
    by (simp add: strto64_step_neg_def)
qed

interpretation strto32: digit_loop "strto32_step (int limit)" int limit
  for limit
  by unfold_locales (simp add: strto32_step_def Let_def)

lemma unat_of_nat_le: "n \<le> 2 ^ 64 - 1 \<Longrightarrow> unat (of_nat n :: uint64) = n"
  by (simp add: unat_of_nat take_bit_nat_eq_self_iff)

interpretation strtou64: digit_loop strtou64_step "of_nat :: nat \<Rightarrow> uint64" "2 ^ 64 - 1"
proof unfold_locales
  fix n d :: nat assume n: "n \<le> 2 ^ 64 - 1" and d: "d < 10"
  have "unat (kuint64max - of_nat d :: uint64) = 2 ^ 64 - 1 - d"
    using d by (simp add: kuint64max_def unat_sub word_le_nat_alt unat_of_nat_le)
  then have "unat ((kuint64max - of_nat d :: uint64) div 10) = (2 ^ 64 - 1 - d) div 10"
    by (simp add: unat_div)
  then have "(kuint64max - of_nat d :: uint64) div 10 < of_nat n \<longleftrightarrow> (2 ^ 64 - 1 - d) div 10 < n"
    using n by (simp add: word_less_nat_alt unat_of_nat_le)
  also have "\<dots> \<longleftrightarrow> \<not> n * 10 + d \<le> 2 ^ 64 - 1"
    using d by (simp add: div_less_iff_less_mult) linarith
  finally show "strtou64_step (of_nat n) d =
      (if n * 10 + d \<le> 2 ^ 64 - 1 then Some (of_nat (n * 10 + d)) else None)"
    by (simp add: strtou64_step_def mult.commute)
qed

text \<open>
  The overflow test of \<open>ConsumeLeadingDigits\<close> divides the wrapped product by 8 rather than 10
  and is still exact.
\<close>

lemma wrapped_div_8:
  fixes n d :: nat
  assumes "n < M" "d < 10" "M = 2 ^ 64"
  shows "(n * 10 + d) mod M div 8 < n \<longleftrightarrow> M \<le> n * 10 + d"
proof -
  define q r where "q = (n * 10 + d) div M" and "r = (n * 10 + d) mod M"
  have split: "n * 10 + d = q * M + r" by (simp add: q_def r_def)
  have "r < M" using assms by (simp add: r_def)
  have "M > 100" using assms by simp
  have "r < n * 8 \<longleftrightarrow> q \<noteq> 0"
  proof (cases q)
    case (Suc p)
    then have "M \<le> q * M" by simp
    with split \<open>r < M\<close> \<open>M > 100\<close> \<open>d < 10\<close> show ?thesis using Suc by linarith
  qed (use split in simp)
  moreover have "q \<noteq> 0 \<longleftrightarrow> M \<le> n * 10 + d"
    using \<open>M > 100\<close> by (simp add: q_def div_eq_0_iff not_less)
  ultimately show ?thesis by (simp add: div_less_iff_less_mult flip: r_def)
qed

interpretation leading_digits: digit_loop leading_digits_step "of_nat :: nat \<Rightarrow> uint64" "2 ^ 64 - 1"
proof unfold_locales
  fix n d :: nat assume n: "n \<le> 2 ^ 64 - 1" and d: "d < 10"
  have "unat (of_nat n * 10 + of_nat d :: uint64) = (n * 10 + d) mod 2 ^ 64"
    using unat_of_nat [where 'a = 64, of "n * 10 + d"] by (simp add: take_bit_eq_mod)
  then have "(of_nat n * 10 + of_nat d :: uint64) div 8 < of_nat n \<longleftrightarrow> \<not> n * 10 + d \<le> 2 ^ 64 - 1"
    using n d wrapped_div_8 [of n "2 ^ 64" d]
    by (simp add: word_less_nat_alt unat_of_nat_le unat_div) linarith
  then show "leading_digits_step (of_nat n) d =
      (if n * 10 + d \<le> 2 ^ 64 - 1 then Some (of_nat (n * 10 + d)) else None)"
    by (simp add: leading_digits_step_def Let_def mult.commute)
qed

section \<open>The parsers accept exactly the numbers in range\<close>

text \<open>
  The reference: spaces, an optional minus sign where the type is signed, digits, spaces, read
  as an integer of any size.
\<close>

definition decimal :: "bool \<Rightarrow> string \<Rightarrow> int option" where
  "decimal sg s =
     (let t = dropWhile isspace s;
          neg = sg \<and> t \<noteq> [] \<and> hd t = CHR ''-'';
          u = (if neg then tl t else t);
          ds = takeWhile isdigit u
      in if ds \<noteq> [] \<and> list_all isspace (dropWhile isdigit u)
         then Some ((if neg then -1 else 1) * int (decimal_value 0 ds)) else None)"

definition within :: "int \<Rightarrow> int \<Rightarrow> int option \<Rightarrow> int option" where
  "within lo hi x = (case x of None \<Rightarrow> None | Some v \<Rightarrow> if lo \<le> v \<and> v \<le> hi then Some v else None)"

lemma SkipSpaces_eq: "SkipSpaces s = dropWhile isspace s"
  by (induction s) auto

lemma SkipSpaces_Nil_iff: "SkipSpaces s = [] \<longleftrightarrow> list_all isspace s"
  by (induction s) auto

lemma ConsumePrefix_minus:
  "ConsumePrefix s ''-'' = (if s \<noteq> [] \<and> hd s = CHR ''-'' then Some (tl s) else None)"
  by (cases s) (auto simp: ConsumePrefix_def)

lemma safe_strto64_eq: "safe_strto64 s = map_option word_of_int (within (- (2 ^ 63)) (2 ^ 63 - 1) (decimal True s))"
  using strto64_neg.parse_digits_rep [of "tl (dropWhile isspace s)"]
    strto64_pos.parse_digits_rep [of "dropWhile isspace s"]
  by (auto simp: safe_strto64_def decimal_def within_def ConsumePrefix_minus SkipSpaces_eq [of s]
      SkipSpaces_Nil_iff Let_def)

lemma safe_strtou64_eq: "safe_strtou64 s = map_option word_of_int (within 0 (2 ^ 64 - 1) (decimal False s))"
  using strtou64.parse_digits_rep [of "dropWhile isspace s"]
  by (auto simp: safe_strtou64_def decimal_def within_def SkipSpaces_eq [of s] SkipSpaces_Nil_iff Let_def)

lemma safe_strto32_eq: "safe_strto32 s = map_option word_of_int (within (- (2 ^ 31)) (2 ^ 31 - 1) (decimal True s))"
  using strto32.parse_digits_rep [of "2 ^ 31" "tl (dropWhile isspace s)"]
    strto32.parse_digits_rep [of "2 ^ 31 - 1" "dropWhile isspace s"]
  by (auto simp: safe_strto32_def decimal_def within_def ConsumePrefix_minus SkipSpaces_eq [of s]
      SkipSpaces_Nil_iff kint32max_def Let_def)

lemma safe_strtou32_eq: "safe_strtou32 s = map_option word_of_int (within 0 (2 ^ 32 - 1) (decimal False s))"
  using strto32.parse_digits_rep [of "2 ^ 32 - 1" "dropWhile isspace s"]
  by (auto simp: safe_strtou32_def decimal_def within_def SkipSpaces_eq [of s] SkipSpaces_Nil_iff
      kuint32max_def Let_def)

text \<open>
  C27: Each of the four integer parsers accepts exactly the texts of a decimal number, with
  spaces around it and a sign where the type has one, that the type can represent, and returns
  that number: the overflow tests of the loops neither let a number wrap around nor reject the
  extreme values.
\<close>

theorem safe_strto_exact:
  "safe_strto64 s = map_option word_of_int (within (- (2 ^ 63)) (2 ^ 63 - 1) (decimal True s)) \<and>
   safe_strtou64 s = map_option word_of_int (within 0 (2 ^ 64 - 1) (decimal False s)) \<and>
   safe_strto32 s = map_option word_of_int (within (- (2 ^ 31)) (2 ^ 31 - 1) (decimal True s)) \<and>
   safe_strtou32 s = map_option word_of_int (within 0 (2 ^ 32 - 1) (decimal False s))"
  by (simp only: safe_strto64_eq safe_strtou64_eq safe_strto32_eq safe_strtou32_eq)

section \<open>Printed numbers are read back\<close>

lemma digit_char:
  assumes "n < 10"
  shows "isdigit (char_of (n + 48))" "digit (char_of (n + 48)) = n"
  using assms by (simp_all add: isdigit_def between_def digit_def)

lemma digits_loop_isdigit: "list_all isdigit (digits_loop n)"
proof (induction n rule: digits_loop.induct)
  case (1 n)
  then show ?case by (subst digits_loop.simps) (simp add: digit_char)
qed

lemma digits_loop_value: "decimal_value 0 (rev (digits_loop n)) = n"
proof (induction n rule: digits_loop.induct)
  case (1 n)
  then show ?case by (subst digits_loop.simps) (auto simp: digit_char)
qed

lemma digits_loop_not_Nil: "digits_loop n \<noteq> []"
  by (subst digits_loop.simps) simp

lemma digits_loop_length: "n < 10 ^ Suc k \<Longrightarrow> length (digits_loop n) \<le> Suc k"
proof (induction k arbitrary: n)
  case 0
  then show ?case by (subst digits_loop.simps) simp
next
  case (Suc k)
  then have "n div 10 < 10 ^ Suc k" by (simp add: div_less_iff_less_mult)
  then have "length (digits_loop (n div 10)) \<le> Suc k" by (rule Suc.IH)
  then show ?case by (subst digits_loop.simps) simp
qed

lemma takeWhile_digits_loop:
  "takeWhile isdigit (rev (digits_loop n)) = rev (digits_loop n)"
  "dropWhile isdigit (rev (digits_loop n)) = []"
  using digits_loop_isdigit [of n] by (auto simp: takeWhile_eq_all_conv list_all_iff)

lemma digit_not_special:
  assumes "isdigit c"
  shows "\<not> isspace c" "c \<noteq> CHR ''-''"
  using assms by (auto simp: isdigit_def isspace_def between_def)

lemma hd_digits:
  shows "isdigit (hd (rev (digits_loop n)))" "rev (digits_loop n) \<noteq> []"
  using digits_loop_isdigit [of n] digits_loop_not_Nil [of n]
  by (auto simp: list_all_iff hd_rev)

lemma decimal_digits:
  "decimal sg (rev (digits_loop n)) = Some (int n)"
  "decimal True (CHR ''-'' # rev (digits_loop n)) = Some (- int n)"
proof -
  have "dropWhile isspace (rev (digits_loop n)) = rev (digits_loop n)"
    using hd_digits [of n] digit_not_special by (cases "rev (digits_loop n)") auto
  moreover have "\<not> isspace CHR ''-''" by (simp add: isspace_def between_def)
  ultimately show "decimal sg (rev (digits_loop n)) = Some (int n)"
    "decimal True (CHR ''-'' # rev (digits_loop n)) = Some (- int n)"
    using hd_digits [of n] digit_not_special(2) [of "hd (rev (digits_loop n))"]
    by (auto simp: decimal_def Let_def takeWhile_digits_loop digits_loop_value)
qed

lemma half_range_less: "(2 :: int) ^ (LENGTH('a::len) - 1) < 2 ^ LENGTH('a)"
  by (rule power_strict_increasing) simp_all

lemma uint_minus_negative:
  fixes i :: "'a::len word"
  assumes "sint i < 0"
  shows "uint (- i) = - sint i"
proof -
  have "- i = word_of_int (- sint i)" by simp
  moreover have "- sint i < 2 ^ LENGTH('a)"
    using sint_ge [of i] half_range_less [where 'a = 'a] by linarith
  ultimately show ?thesis
    using assms by (metis less_imp_le neg_0_less_iff_less uint_word_of_int mod_pos_pos_trivial)
qed

lemma sint_nonneg_uint:
  fixes i :: "'a::len word"
  assumes "0 \<le> sint i"
  shows "uint i = sint i"
proof -
  have "sint i < 2 ^ LENGTH('a)"
    using sint_lt [of i] half_range_less [where 'a = 'a] by linarith
  then show ?thesis
    using assms uint_word_of_int [where 'a = 'a, of "sint i"] by simp
qed

lemma decimal_FastInt64: "decimal True (FastInt64ToBufferLeft i) = Some (sint i)"
  by (simp add: FastInt64ToBufferLeft_def FastUInt64ToBufferLeft_def decimal_digits
      uint_minus_negative sint_nonneg_uint)

lemma decimal_FastInt32: "decimal True (FastInt32ToBufferLeft i) = Some (sint i)"
  by (simp add: FastInt32ToBufferLeft_def FastUInt32ToBufferLeft_def decimal_digits
      uint_minus_negative sint_nonneg_uint)

lemma hexdigit_value:
  assumes "n < 16"
  shows "hex_parse_loop v (hexdigits ! n # s) = hex_parse_loop (push_bit 4 v + of_nat n) s"
proof -
  have "n = 0 \<or> n = 1 \<or> n = 2 \<or> n = 3 \<or> n = 4 \<or> n = 5 \<or> n = 6 \<or> n = 7 \<or> n = 8 \<or> n = 9 \<or>
      n = 10 \<or> n = 11 \<or> n = 12 \<or> n = 13 \<or> n = 14 \<or> n = 15"
    using assms by presburger
  then show ?thesis
    by (elim disjE) (simp_all add: between_def hexdigits_def add.commute)
qed

lemma take_bit_hex_step:
  fixes v :: uint64
  shows "push_bit 4 (take_bit m (drop_bit 4 v)) + of_nat (unat (v AND 0xf)) = take_bit (m + 4) v"
proof -
  have "v AND 0xf = take_bit 4 v" by (simp add: take_bit_eq_mask mask_eq_exp_minus_1)
  then have "v AND 0xf = take_bit 4 (take_bit (m + 4) v)" by simp
  moreover have "take_bit m (drop_bit 4 v) = drop_bit 4 (take_bit (m + 4) v)"
    by (simp add: drop_bit_take_bit)
  ultimately show ?thesis using bits_ident [of 4 "take_bit (m + 4) v"] by simp
qed

lemma push_bit_plus: "push_bit n (a + b) = push_bit n a + push_bit n (b :: uint64)"
  by (simp add: push_bit_eq_mult distrib_right)

lemma hex_parse_hex_loop:
  "hex_parse_loop u (hex_loop n v s) = hex_parse_loop (push_bit (4 * n) u + take_bit (4 * n) v) s"
proof (induction n arbitrary: v s)
  case (Suc n)
  have "unat (v AND 0xf) < 16"
    using word_and_le1 [of v "0xf"] by (simp add: word_le_nat_alt)
  then have "hex_parse_loop u (hex_loop (Suc n) v s) =
      hex_parse_loop (push_bit 4 (push_bit (4 * n) u + take_bit (4 * n) (drop_bit 4 v)) +
        of_nat (unat (v AND 0xf))) s"
    by (simp only: hex_loop.simps Suc.IH hexdigit_value)
  also have "push_bit 4 (push_bit (4 * n) u + take_bit (4 * n) (drop_bit 4 v)) + of_nat (unat (v AND 0xf)) =
      push_bit (4 * Suc n) u + take_bit (4 * Suc n) v"
    using take_bit_hex_step [of "4 * n" v]
    by (simp only: push_bit_plus push_bit_push_bit add.assoc) (simp add: ac_simps)
  finally show ?case .
qed simp

lemma hex_loop_length [simp]: "length (hex_loop n v s) = n + length s"
  by (induction n arbitrary: v s) auto

lemma Hex_roundtrip: "HexStringToUint64 (Uint64ToHexString v) = Some v"
proof -
  have "hex_loop 16 v [] \<noteq> []" using hex_loop_length [of 16 v "[]"] by fastforce
  moreover have "take_bit 64 v = v" by (rule bit_word_eqI) (simp add: bit_simps)
  ultimately show ?thesis
    using hex_parse_hex_loop [of 0 16 v "[]"]
    by (simp add: HexStringToUint64_def Uint64ToHexString_def)
qed

lemma digits_length:
  "length (digits_loop (unat (v :: uint64))) \<le> 20"
  "length (digits_loop (unat (w :: uint32))) \<le> 10"
  using digits_loop_length [of "unat v" 19] digits_loop_length [of "unat w" 9]
    unat_less_exp [of v] unat_less_exp [of w] by simp_all

lemma ConsumeLeadingDigits_eq:
  "ConsumeLeadingDigits s =
     (let ds = takeWhile isdigit s in
      if ds \<noteq> [] \<and> decimal_value 0 ds < 2 ^ 64
      then Some (of_nat (decimal_value 0 ds), dropWhile isdigit s) else None)"
proof -
  have "length (dropWhile isdigit s) < length s \<longleftrightarrow> takeWhile isdigit s \<noteq> []"
    by (cases s) (auto simp: le_imp_less_Suc length_dropWhile_le)
  then show ?thesis
    using leading_digits.accumulate_rep [of 0 s]
    by (auto simp: ConsumeLeadingDigits_def Let_def)
qed

lemma ConsumeLeadingDigits_digits:
  assumes "n < 2 ^ 64" "s = [] \<or> \<not> isdigit (hd s)"
  shows "ConsumeLeadingDigits (rev (digits_loop n) @ s) = Some (of_nat n, s)"
proof -
  have "takeWhile isdigit s = []" "dropWhile isdigit s = s"
    using assms(2) by (cases s; simp)+
  moreover have "list_all isdigit (rev (digits_loop n))" using digits_loop_isdigit by simp
  ultimately have "takeWhile isdigit (rev (digits_loop n) @ s) = rev (digits_loop n)"
    "dropWhile isdigit (rev (digits_loop n) @ s) = s"
    by (auto simp: takeWhile_append dropWhile_append list_all_iff)
  then show ?thesis
    using assms(1) digits_loop_not_Nil by (simp add: ConsumeLeadingDigits_eq Let_def digits_loop_value)
qed

lemma safe_strto64_FastInt64: "safe_strto64 (FastInt64ToBufferLeft i) = Some i"
  using sint_ge [of i] sint_lt [of i] by (simp add: safe_strto64_eq decimal_FastInt64 within_def)

text \<open>
  A printed integer of any width is read back as itself and fits the buffer with its
  terminator: the decimal printers with the decimal parsers at both widths and signs (the most
  negative number included, whose negation the printer computes in unsigned arithmetic), the
  sixteen hexadecimal digits of \<open>Uint64ToHexString\<close> with \<open>HexStringToUint64\<close>, and a printed
  number in front of other text with \<open>ConsumeLeadingDigits\<close>.
\<close>

theorem numbers_roundtrip:
  "safe_strto64 (FastInt64ToBufferLeft i) = Some i \<and>
   safe_strtou64 (FastUInt64ToBufferLeft v) = Some v \<and>
   safe_strto32 (FastInt32ToBufferLeft j) = Some j \<and>
   safe_strtou32 (FastUInt32ToBufferLeft w) = Some w \<and>
   HexStringToUint64 (Uint64ToHexString v) = Some v \<and>
   ConsumeLeadingDigits (FastUInt64ToBufferLeft v @ CHR '':'' # rest) = Some (v, CHR '':'' # rest) \<and>
   length (FastInt64ToBufferLeft i) < kFastToBufferSize \<and>
   length (FastUInt64ToBufferLeft v) < kFastToBufferSize \<and>
   length (FastInt32ToBufferLeft j) < kFastToBufferSize \<and>
   length (FastUInt32ToBufferLeft w) < kFastToBufferSize \<and>
   length (Uint64ToHexString v) = 16"
proof (intro conjI)
  show "safe_strto64 (FastInt64ToBufferLeft i) = Some i" by (rule safe_strto64_FastInt64)
  show "safe_strto32 (FastInt32ToBufferLeft j) = Some j"
    using sint_ge [of j] sint_lt [of j] by (simp add: safe_strto32_eq decimal_FastInt32 within_def)
  show "safe_strtou64 (FastUInt64ToBufferLeft v) = Some v"
    using uint_bounded [of v]
    by (simp add: safe_strtou64_eq FastUInt64ToBufferLeft_def decimal_digits within_def)
  show "safe_strtou32 (FastUInt32ToBufferLeft w) = Some w"
    using uint_bounded [of w]
    by (simp add: safe_strtou32_eq FastUInt32ToBufferLeft_def decimal_digits within_def)
  show "ConsumeLeadingDigits (FastUInt64ToBufferLeft v @ CHR '':'' # rest) = Some (v, CHR '':'' # rest)"
    using ConsumeLeadingDigits_digits [of "unat v" "CHR '':'' # rest"] unat_less_exp [of v]
    by (simp add: FastUInt64ToBufferLeft_def isdigit_def between_def)
  show "length (FastInt64ToBufferLeft i) < kFastToBufferSize"
    using digits_length(1) [of i] digits_length(1) [of "- i"]
    by (simp add: FastInt64ToBufferLeft_def FastUInt64ToBufferLeft_def kFastToBufferSize_def)
  show "length (FastInt32ToBufferLeft j) < kFastToBufferSize"
    using digits_length(2) [of j] digits_length(2) [of "- j"]
    by (simp add: FastInt32ToBufferLeft_def FastUInt32ToBufferLeft_def kFastToBufferSize_def)
  show "length (FastUInt64ToBufferLeft v) < kFastToBufferSize"
    using digits_length(1) [of v] by (simp add: FastUInt64ToBufferLeft_def kFastToBufferSize_def)
  show "length (FastUInt32ToBufferLeft w) < kFastToBufferSize"
    using digits_length(2) [of w] by (simp add: FastUInt32ToBufferLeft_def kFastToBufferSize_def)
  show "length (Uint64ToHexString v) = 16" by (simp add: Uint64ToHexString_def)
qed (rule Hex_roundtrip)

end
