(* ===== verification/Escape.thy ===== *)
theory Escape
  imports Numbers
begin

text \<open>
  C escape sequences: \<open>CEscape\<close> and \<open>CUnescape\<close> of \<open>lib/strings/str_util.cc\<close>.

  \<open>CUnescape\<close> reads from a string other than the one it writes to, so the loop at the start of
  \<open>CUnescapeInternal\<close> for an in-place call does nothing. The result is the error text or the
  unescaped string.
\<close>

abbreviation (input) backslash :: char where
  "backslash \<equiv> CHR 0x5C"

abbreviation (input) quote :: char where
  "quote \<equiv> CHR 0x27"

abbreviation (input) double_quote :: char where
  "double_quote \<equiv> CHR 0x22"

section \<open>Escaping\<close>

definition isprint :: "char \<Rightarrow> bool" where
  "isprint c \<longleftrightarrow> between CHR '' '' CHR ''~'' c"

definition hex_char :: string where
  "hex_char = ''0123456789abcdef''"

definition escape_char :: "char \<Rightarrow> string" where
  "escape_char c =
     (if c = CHR 0x0A then [backslash, CHR ''n'']
      else if c = CHR 0x0D then [backslash, CHR ''r'']
      else if c = CHR 0x09 then [backslash, CHR ''t'']
      else if c = double_quote then [backslash, double_quote]
      else if c = quote then [backslash, quote]
      else if c = backslash then [backslash, backslash]
      else let u = of_char c :: nat in
        if u \<ge> 0x80 \<or> \<not> isprint c
        then [backslash, hex_char ! (u div 64), hex_char ! ((u mod 64) div 8), hex_char ! (u mod 8)]
        else [c])"

fun CEscape :: "string \<Rightarrow> string" where
  "CEscape [] = []"
| "CEscape (c # src) = escape_char c @ CEscape src"

section \<open>Unescaping\<close>

definition is_octal_digit :: "char \<Rightarrow> bool" where
  "is_octal_digit c \<longleftrightarrow> between CHR ''0'' CHR ''7'' c"

definition ascii_isxdigit :: "char \<Rightarrow> bool" where
  "ascii_isxdigit c \<longleftrightarrow>
     between CHR ''0'' CHR ''9'' c \<or> between CHR ''a'' CHR ''f'' c \<or> between CHR ''A'' CHR ''F'' c"

definition hex_digit_to_int :: "char \<Rightarrow> uint32" where
  "hex_digit_to_int c =
     (let x = of_char c; x = (if x > of_char CHR ''9'' then x + 9 else x) in x AND 0xf)"

text \<open>The escapes that are one letter.\<close>

definition simple_escape :: "char \<Rightarrow> char option" where
  "simple_escape e =
     (if e = CHR ''a'' then Some (CHR 0x07)
      else if e = CHR ''b'' then Some (CHR 0x08)
      else if e = CHR ''f'' then Some (CHR 0x0C)
      else if e = CHR ''n'' then Some (CHR 0x0A)
      else if e = CHR ''r'' then Some (CHR 0x0D)
      else if e = CHR ''t'' then Some (CHR 0x09)
      else if e = CHR ''v'' then Some (CHR 0x0B)
      else if e = backslash then Some backslash
      else if e = CHR ''?'' then Some (CHR ''?'')
      else if e = quote then Some quote
      else if e = double_quote then Some double_quote
      else None)"

text \<open>One further octal digit, if there is one; three digits are at most 511.\<close>

definition octal_next :: "nat \<times> string \<Rightarrow> nat \<times> string" where
  "octal_next s = (case s of
      (ch, d # p) \<Rightarrow> if is_octal_digit d then (ch * 8 + digit d, p) else (ch, d # p)
    | (ch, []) \<Rightarrow> (ch, []))"

fun hex_escape_loop :: "uint32 \<Rightarrow> string \<Rightarrow> uint32 \<times> string" where
  "hex_escape_loop ch [] = (ch, [])"
| "hex_escape_loop ch (c # p) =
     (if ascii_isxdigit c then hex_escape_loop (push_bit 4 ch + hex_digit_to_int c) p else (ch, c # p))"

lemma octal_next_length: "length (snd (octal_next s)) \<le> length (snd s)"
  by (auto simp: octal_next_def split: prod.split list.split)

lemma octal_next_twice: "length (snd (octal_next (octal_next (ch, p)))) \<le> Suc (length p)"
  using octal_next_length [of "octal_next (ch, p)"] octal_next_length [of "(ch, p)"] by simp

lemma hex_escape_loop_length: "length (snd (hex_escape_loop ch p)) \<le> length p"
  by (induction ch p rule: hex_escape_loop.induct) auto

definition exceeds :: "char \<Rightarrow> string \<Rightarrow> string \<Rightarrow> string" where
  "exceeds e p rest = ''Value of '' @ [backslash, e] @ take (length p - length rest) p @ '' exceeds 0xff''"

function CUnescapeInternal :: "string \<Rightarrow> string + string" where
  "CUnescapeInternal [] = Inr []"
| "CUnescapeInternal (c # p) =
     (if c \<noteq> backslash then map_sum id ((#) c) (CUnescapeInternal p)
      else case p of
        [] \<Rightarrow> Inl (''String cannot end with '' @ [backslash])
      | e # p \<Rightarrow>
          (case simple_escape e of
             Some d \<Rightarrow> map_sum id ((#) d) (CUnescapeInternal p)
           | None \<Rightarrow>
               if is_octal_digit e then
                 let s = octal_next (octal_next (digit e, p)) in
                 if fst s > 0xff then Inl (exceeds e p (snd s))
                 else map_sum id ((#) (char_of (fst s))) (CUnescapeInternal (snd s))
               else if e = CHR ''x'' \<or> e = CHR ''X'' then
                 (case p of
                    [] \<Rightarrow> Inl (''String cannot end with '' @ [backslash, CHR ''x''])
                  | h # _ \<Rightarrow>
                      if \<not> ascii_isxdigit h
                      then Inl ([backslash] @ ''x cannot be followed by a non-hex digit'')
                      else
                        let s = hex_escape_loop 0 p in
                        if fst s > 0xFF then Inl (exceeds e p (snd s))
                        else map_sum id ((#) (char_of (unat (fst s)))) (CUnescapeInternal (snd s)))
               else Inl (''Unknown escape sequence: '' @ [backslash, e])))"
  by pat_completeness auto
termination
  by (relation "measure length")
    (auto simp: less_Suc_eq_le intro: octal_next_twice le_SucI hex_escape_loop_length)

declare CUnescapeInternal.simps(2) [simp del]

definition CUnescape :: "string \<Rightarrow> string + string" where
  "CUnescape source = CUnescapeInternal source"

section \<open>Escaped text is read back\<close>

lemma octal_char:
  assumes "n < 8"
  shows "is_octal_digit (hex_char ! n)" "digit (hex_char ! n) = n" "simple_escape (hex_char ! n) = None"
proof -
  have "n = 0 \<or> n = 1 \<or> n = 2 \<or> n = 3 \<or> n = 4 \<or> n = 5 \<or> n = 6 \<or> n = 7"
    using assms by presburger
  then show "is_octal_digit (hex_char ! n)" "digit (hex_char ! n) = n" "simple_escape (hex_char ! n) = None"
    by (elim disjE; simp add: is_octal_digit_def hex_char_def between_def digit_def simple_escape_def)+
qed

lemma unescape_octal:
  assumes "u < 256"
  shows "CUnescapeInternal (backslash # hex_char ! (u div 64) # hex_char ! ((u mod 64) div 8) #
      hex_char ! (u mod 8) # t) = map_sum id ((#) (char_of u)) (CUnescapeInternal t)"
proof -
  have less: "u div 64 < 8" "u mod 64 div 8 < 8" "u mod 8 < 8" using assms by auto
  have "u mod 64 = 8 * (u div 8 mod 8) + u mod 8" using mod_mult2_eq [of u 8 8] by simp
  then have "u mod 64 div 8 * 8 + u mod 8 = u mod 64" by simp
  then have "(u div 64 * 8 + u mod 64 div 8) * 8 + u mod 8 = u"
    using div_mult_mod_eq [of u 64] by (simp only: distrib_right mult.assoc add.assoc num_double)
  then have "octal_next (octal_next (digit (hex_char ! (u div 64)),
      hex_char ! ((u mod 64) div 8) # hex_char ! (u mod 8) # t)) = (u, t)"
    using less by (simp add: octal_next_def octal_char)
  with less assms show ?thesis
    by (subst CUnescapeInternal.simps) (simp add: octal_char Let_def)
qed

lemma unescape_escape_char:
  "CUnescapeInternal (escape_char c @ t) = map_sum id ((#) c) (CUnescapeInternal t)"
proof (cases "of_char c \<ge> (0x80 :: nat) \<or> \<not> isprint c")
  case True
  show ?thesis
    using True unescape_octal [of "of_char c" t]
    by (simp add: escape_char_def Let_def CUnescapeInternal.simps(2) simple_escape_def)
next
  case False
  then show ?thesis
    by (simp add: escape_char_def Let_def CUnescapeInternal.simps(2) simple_escape_def)
qed

lemma escape_char_printable: "list_all isprint (escape_char c)"
proof -
  have "(of_char c :: nat) < 256" by (rule nat_of_char_less_256)
  then have "of_char c div 64 < (8 :: nat)" "of_char c mod 64 div 8 < (8 :: nat)"
    by (auto simp: div_less_iff_less_mult simp del: nat_of_char_less_256)
  moreover have "isprint (hex_char ! n)" if "n < 8" for n
    using octal_char(1) [OF that] by (auto simp: is_octal_digit_def isprint_def between_def)
  ultimately show ?thesis
    by (simp add: escape_char_def Let_def) (simp add: isprint_def between_def)
qed

text \<open>
  Escaping is inverted by unescaping, for every byte string, and its result is printable
  ASCII: the octal escapes have exactly three digits, so a digit after one is not taken for
  part of it.
\<close>

theorem escape_roundtrip:
  "CUnescape (CEscape s) = Inr s \<and> list_all isprint (CEscape s)"
proof (induction s)
  case (Cons c s)
  then show ?case
    using escape_char_printable [of c] by (simp add: CUnescape_def unescape_escape_char)
qed (simp add: CUnescape_def)

section \<open>Hexadecimal escapes\<close>

text \<open>The number hexadecimal digits stand for.\<close>

definition hex_digit_value :: "char \<Rightarrow> nat" where
  "hex_digit_value c =
     (if between CHR ''0'' CHR ''9'' c then of_char c - of_char CHR ''0''
      else if between CHR ''a'' CHR ''f'' c then of_char c - of_char CHR ''a'' + 10
      else of_char c - of_char CHR ''A'' + 10)"

definition hex_value :: "string \<Rightarrow> nat" where
  "hex_value ds = foldl (\<lambda>v c. v * 16 + hex_digit_value c) 0 ds"

lemma hex_digit_to_int_value:
  assumes "ascii_isxdigit c"
  shows "hex_digit_to_int c = of_nat (hex_digit_value c)"
proof -
  let ?cs = "map char_of ([48..<58] @ [65..<71] @ [97..<103] :: nat list)"
  have "c \<in> set ?cs"
  proof -
    have "of_char c \<in> set ([48..<58] @ [65..<71] @ [97..<103] :: nat list)"
      using assms unfolding ascii_isxdigit_def between_def
      by (simp only: set_append set_upt Un_iff atLeastLessThan_iff) auto
    then show ?thesis by (metis char_of_char image_eqI set_map)
  qed
  moreover have "list_all (\<lambda>c. hex_digit_to_int c = of_nat (hex_digit_value c)) ?cs"
    by code_simp
  ultimately show ?thesis by (simp only: list_all_iff)
qed

lemma hex_escape_loop_value:
  assumes "list_all ascii_isxdigit ds"
  shows "hex_escape_loop (of_nat v) ds = (of_nat (foldl (\<lambda>v c. v * 16 + hex_digit_value c) v ds), [])"
  using assms
proof (induction ds arbitrary: v)
  case (Cons c ds)
  have "push_bit 4 (of_nat v) + hex_digit_to_int c = of_nat (v * 16 + hex_digit_value c)"
    using Cons.prems by (simp add: hex_digit_to_int_value push_bit_eq_mult)
  then show ?case using Cons.IH [of "v * 16 + hex_digit_value c"] Cons.prems by simp
qed simp

text \<open>
  The value of a hexadecimal escape, which takes all digits that follow, is computed modulo
  \<open>2 ^ 32\<close>: the escape is rejected as exceeding \<open>0xff\<close> exactly when that remainder does, so
  enough digits make a large number wrap around to an accepted one.
\<close>

theorem unescape_hex_wraps:
  assumes "ds \<noteq> []" "list_all ascii_isxdigit ds"
  shows "CUnescape (backslash # CHR ''x'' # ds) =
     (if hex_value ds mod 2 ^ 32 > 0xff
      then Inl (''Value of '' @ [backslash, CHR ''x''] @ ds @ '' exceeds 0xff'')
      else Inr [char_of (hex_value ds mod 2 ^ 32)])"
proof -
  obtain h q where ds: "ds = h # q" "ascii_isxdigit h" using assms by (cases ds) auto
  have "hex_escape_loop 0 ds = (of_nat (hex_value ds), [])"
    using hex_escape_loop_value [OF assms(2), of 0] by (simp add: hex_value_def)
  moreover have "unat (of_nat (hex_value ds) :: uint32) = hex_value ds mod 2 ^ 32"
    by (simp add: unat_of_nat take_bit_eq_mod)
  moreover have "simple_escape CHR ''x'' = None" "\<not> is_octal_digit CHR ''x''"
    by (simp_all add: simple_escape_def is_octal_digit_def between_def)
  ultimately show ?thesis
    using ds by (simp add: CUnescape_def CUnescapeInternal.simps(2) Let_def word_less_nat_alt
        exceeds_def del: hex_escape_loop.simps)
qed

theorem unescape_hex_wraps_witness:
  "CUnescape (backslash # CHR ''x'' # ''100000041'') = Inr ''A'' \<and>
   CUnescape (backslash # CHR ''x'' # ''41'') = Inr ''A'' \<and>
   CUnescape (backslash # CHR ''x'' # ''100'') =
     Inl (''Value of '' @ [backslash] @ ''x100 exceeds 0xff'')"
proof -
  have "list_all ascii_isxdigit ''100000041''" "list_all ascii_isxdigit ''41''"
    "list_all ascii_isxdigit ''100''" by code_simp+
  moreover have "hex_value ''100000041'' = 2 ^ 32 + 65" "hex_value ''41'' = 65" "hex_value ''100'' = 256"
    by (simp_all add: hex_value_def hex_digit_value_def between_def)
  moreover have "char_of (65 :: nat) = CHR ''A''" by code_simp
  ultimately show ?thesis
    using unescape_hex_wraps [of "''100000041''"] unescape_hex_wraps [of "''41''"]
      unescape_hex_wraps [of "''100''"] by simp
qed

end
