(* ===== verification/Device_Names.thy ===== *)
theory Device_Names
  imports Numbers
begin

text \<open>
  Device names: \<open>util/device_name_utils.cc\<close>.

  A name such as \<open>/job:worker/replica:0/task:3/device:GPU:1\<close> is parsed into optional
  components. \<open>None\<close> is the result of a parser that returns false (what it has then written to
  the parsed name is not read by any caller) and of a failed \<open>CHECK\<close>. An \<open>int\<close> is a
  \<open>32 word\<close> read as signed.
\<close>

section \<open>Parsed names\<close>

record parsed_name =
  has_job :: bool
  job :: string
  has_replica :: bool
  replica :: "32 word"
  has_task :: bool
  task :: "32 word"
  has_type :: bool
  dev_type :: string
  has_id :: bool
  dev_id :: "32 word"

definition cleared :: parsed_name where
  "cleared = \<lparr>has_job = False, job = [], has_replica = False, replica = 0, has_task = False, task = 0,
     has_type = False, dev_type = [], has_id = False, dev_id = 0\<rparr>"

definition same_name :: "parsed_name \<Rightarrow> parsed_name \<Rightarrow> bool" where
  "same_name p q \<longleftrightarrow>
     (if has_job p then has_job q \<and> job p = job q else \<not> has_job q) \<and>
     (if has_replica p then has_replica q \<and> replica p = replica q else \<not> has_replica q) \<and>
     (if has_task p then has_task q \<and> task p = task q else \<not> has_task q) \<and>
     (if has_type p then has_type q \<and> dev_type p = dev_type q else \<not> has_type q) \<and>
     (if has_id p then has_id q \<and> dev_id p = dev_id q else \<not> has_id q)"

definition HasSomeDetails :: "parsed_name \<Rightarrow> bool" where
  "HasSomeDetails p \<longleftrightarrow> has_job p \<or> has_replica p \<or> has_task p \<or> has_type p \<or> has_id p"

section \<open>Lexical parts\<close>

definition IsAlpha :: "char \<Rightarrow> bool" where
  "IsAlpha c \<longleftrightarrow> between CHR ''a'' CHR ''z'' c \<or> between CHR ''A'' CHR ''Z'' c"

definition IsAlphaNum :: "char \<Rightarrow> bool" where
  "IsAlphaNum c \<longleftrightarrow> IsAlpha c \<or> between CHR ''0'' CHR ''9'' c"

definition IsJobName :: "string \<Rightarrow> bool" where
  "IsJobName s = (case s of
      [] \<Rightarrow> False
    | c # cs \<Rightarrow> IsAlpha c \<and> list_all (\<lambda>c. IsAlphaNum c \<or> c = CHR ''_'') cs)"

text \<open>
  The loop of \<open>ConsumeJobName\<close> and \<open>ConsumeDeviceType\<close>, which differ in the characters that
  end the name: the characters up to such a one, or \<open>None\<close> at a character that is neither.
\<close>

fun name_loop :: "string \<Rightarrow> string \<Rightarrow> (string \<times> string) option" where
  "name_loop stops [] = Some ([], [])"
| "name_loop stops (c # s) =
     (if c \<in> set stops then Some ([], c # s)
      else if \<not> (IsAlphaNum c \<or> c = CHR ''_'') then None
      else map_option (\<lambda>(n, rest). (c # n, rest)) (name_loop stops s))"

definition consume_name :: "string \<Rightarrow> string \<Rightarrow> (string \<times> string) option" where
  "consume_name stops s = (case s of
      [] \<Rightarrow> None
    | c # rest \<Rightarrow> if \<not> IsAlpha c then None
                 else map_option (\<lambda>(n, rest). (c # n, rest)) (name_loop stops rest))"

definition ConsumeJobName :: "string \<Rightarrow> (string \<times> string) option" where
  "ConsumeJobName s = consume_name ''/'' s"

definition ConsumeDeviceType :: "string \<Rightarrow> (string \<times> string) option" where
  "ConsumeDeviceType s = consume_name ''/:'' s"

definition ConsumeNumber :: "string \<Rightarrow> (32 word \<times> string) option" where
  "ConsumeNumber s = map_option (\<lambda>(v, rest). (ucast v, rest)) (ConsumeLeadingDigits s)"

section \<open>Printing and parsing full names\<close>

definition FullName :: "string \<Rightarrow> 32 word \<Rightarrow> 32 word \<Rightarrow> string \<Rightarrow> 32 word \<Rightarrow> string option" where
  "FullName j r t ty i =
     (if IsJobName j \<and> 0 \<le> sint r \<and> 0 \<le> sint t \<and> ty \<noteq> [] \<and> 0 \<le> sint i
      then Some (''/job:'' @ j @ ''/replica:'' @ FastInt32ToBufferLeft r @ ''/task:'' @
        FastInt32ToBufferLeft t @ ''/device:'' @ ty @ '':'' @ FastInt32ToBufferLeft i)
      else None)"

text \<open>
  The body of the loop of \<open>ParseFullName\<close> is a sequence of sections, each for one prefix. They
  work on the rest of the name, the parsed name and the flag \<open>progress\<close>.
\<close>

type_synonym parse_state = "string \<times> parsed_name \<times> bool"

text \<open>A value or \<open>*\<close> for any value.\<close>

definition star_or :: "(string \<Rightarrow> ('v \<times> string) option) \<Rightarrow> (parsed_name \<Rightarrow> parsed_name) \<Rightarrow>
    ('v \<Rightarrow> parsed_name \<Rightarrow> parsed_name) \<Rightarrow> string \<times> parsed_name \<Rightarrow> (string \<times> parsed_name) option" where
  "star_or consume clear set_value sp = (case sp of (s, p) \<Rightarrow>
     (case ConsumePrefix s ''*'' of
        Some s \<Rightarrow> Some (s, clear p)
      | None \<Rightarrow> map_option (\<lambda>(v, s). (s, set_value v p)) (consume s)))"

fun consume_any :: "string \<Rightarrow> string list \<Rightarrow> string option" where
  "consume_any s [] = None"
| "consume_any s (pre # pres) =
     (case ConsumePrefix s pre of Some s \<Rightarrow> Some s | None \<Rightarrow> consume_any s pres)"

definition at_prefix :: "string list \<Rightarrow> (string \<times> parsed_name \<Rightarrow> (string \<times> parsed_name) option) \<Rightarrow>
    parse_state \<Rightarrow> parse_state option" where
  "at_prefix pres body st = (case st of (s, p, progress) \<Rightarrow>
     (case consume_any s pres of
        None \<Rightarrow> Some (s, p, progress)
      | Some s \<Rightarrow> map_option (\<lambda>(s, p). (s, p, True)) (body (s, p))))"

definition parse_job :: "parse_state \<Rightarrow> parse_state option" where
  "parse_job = at_prefix [''/job:'']
     (star_or ConsumeJobName (\<lambda>p. p\<lparr>has_job := False\<rparr>) (\<lambda>j p. p\<lparr>has_job := True, job := j\<rparr>))"

definition parse_replica :: "parse_state \<Rightarrow> parse_state option" where
  "parse_replica = at_prefix [''/replica:'']
     (star_or ConsumeNumber (\<lambda>p. p\<lparr>has_replica := False\<rparr>) (\<lambda>v p. p\<lparr>has_replica := True, replica := v\<rparr>))"

definition parse_task :: "parse_state \<Rightarrow> parse_state option" where
  "parse_task = at_prefix [''/task:'']
     (star_or ConsumeNumber (\<lambda>p. p\<lparr>has_task := False\<rparr>) (\<lambda>v p. p\<lparr>has_task := True, task := v\<rparr>))"

definition parse_id :: "string \<times> parsed_name \<Rightarrow> (string \<times> parsed_name) option" where
  "parse_id = star_or ConsumeNumber (\<lambda>p. p\<lparr>has_id := False\<rparr>) (\<lambda>v p. p\<lparr>has_id := True, dev_id := v\<rparr>)"

definition parse_device :: "parse_state \<Rightarrow> parse_state option" where
  "parse_device = at_prefix [''/device:'']
     (\<lambda>sp. Option.bind
        (star_or ConsumeDeviceType (\<lambda>p. p\<lparr>has_type := False\<rparr>) (\<lambda>t p. p\<lparr>has_type := True, dev_type := t\<rparr>) sp)
        (\<lambda>(s, p). case ConsumePrefix s '':'' of
             None \<Rightarrow> Some (s, p\<lparr>has_id := False\<rparr>)
           | Some s \<Rightarrow> parse_id (s, p)))"

definition parse_cpu :: "parse_state \<Rightarrow> parse_state option" where
  "parse_cpu = at_prefix [''/cpu:'', ''/CPU:'']
     (\<lambda>(s, p). parse_id (s, p\<lparr>has_type := True, dev_type := ''CPU''\<rparr>))"

definition parse_gpu :: "parse_state \<Rightarrow> parse_state option" where
  "parse_gpu = at_prefix [''/gpu:'', ''/GPU:'']
     (\<lambda>(s, p). parse_id (s, p\<lparr>has_type := True, dev_type := ''GPU''\<rparr>))"

definition then_section :: "(parse_state \<Rightarrow> parse_state option) \<Rightarrow> (parse_state \<Rightarrow> parse_state option) \<Rightarrow>
    parse_state \<Rightarrow> parse_state option" where
  "then_section f g st = Option.bind (f st) g"

definition parse_body :: "parse_state \<Rightarrow> parse_state option" where
  "parse_body = then_section parse_job (then_section parse_replica (then_section parse_task
     (then_section parse_device (then_section parse_cpu parse_gpu))))"

section \<open>The grammar of names\<close>

text \<open>
  The reference for the parser: a name is a sequence of components in any order, each with a
  value or a wildcard; a later component overrides an earlier one of the same kind. A number is
  any non-empty sequence of digits with a value below \<open>2 ^ 64\<close>, of which the low 32 bits are
  kept.
\<close>

datatype component =
    CJob "string option"
  | CReplica "string option"
  | CTask "string option"
  | CDevice "string option" "string option option"
  | CCpu bool "string option"
  | CGpu bool "string option"

definition star :: "string option \<Rightarrow> string" where
  "star x = (case x of None \<Rightarrow> ''*'' | Some t \<Rightarrow> t)"

fun comp_text :: "component \<Rightarrow> string" where
  "comp_text (CJob x) = ''/job:'' @ star x"
| "comp_text (CReplica x) = ''/replica:'' @ star x"
| "comp_text (CTask x) = ''/task:'' @ star x"
| "comp_text (CDevice t x) = ''/device:'' @ star t @ (case x of None \<Rightarrow> [] | Some i \<Rightarrow> '':'' @ star i)"
| "comp_text (CCpu up x) = (if up then ''/CPU:'' else ''/cpu:'') @ star x"
| "comp_text (CGpu up x) = (if up then ''/GPU:'' else ''/gpu:'') @ star x"

definition number_ok :: "string \<Rightarrow> bool" where
  "number_ok ds \<longleftrightarrow> ds \<noteq> [] \<and> list_all isdigit ds \<and> decimal_value 0 ds < 2 ^ 64"

fun comp_valid :: "component \<Rightarrow> bool" where
  "comp_valid (CJob x) = pred_option IsJobName x"
| "comp_valid (CReplica x) = pred_option number_ok x"
| "comp_valid (CTask x) = pred_option number_ok x"
| "comp_valid (CDevice t x) = (pred_option IsJobName t \<and> pred_option (pred_option number_ok) x)"
| "comp_valid (CCpu _ x) = pred_option number_ok x"
| "comp_valid (CGpu _ x) = pred_option number_ok x"

definition number :: "string \<Rightarrow> 32 word" where
  "number ds = of_nat (decimal_value 0 ds)"

definition set_id :: "string option \<Rightarrow> parsed_name \<Rightarrow> parsed_name" where
  "set_id x p = (case x of None \<Rightarrow> p\<lparr>has_id := False\<rparr> | Some ds \<Rightarrow> p\<lparr>has_id := True, dev_id := number ds\<rparr>)"

definition set_type :: "string option \<Rightarrow> parsed_name \<Rightarrow> parsed_name" where
  "set_type x p = (case x of None \<Rightarrow> p\<lparr>has_type := False\<rparr> | Some t \<Rightarrow> p\<lparr>has_type := True, dev_type := t\<rparr>)"

fun comp_apply :: "component \<Rightarrow> parsed_name \<Rightarrow> parsed_name" where
  "comp_apply (CJob x) p = (case x of None \<Rightarrow> p\<lparr>has_job := False\<rparr> | Some j \<Rightarrow> p\<lparr>has_job := True, job := j\<rparr>)"
| "comp_apply (CReplica x) p =
     (case x of None \<Rightarrow> p\<lparr>has_replica := False\<rparr> | Some ds \<Rightarrow> p\<lparr>has_replica := True, replica := number ds\<rparr>)"
| "comp_apply (CTask x) p =
     (case x of None \<Rightarrow> p\<lparr>has_task := False\<rparr> | Some ds \<Rightarrow> p\<lparr>has_task := True, task := number ds\<rparr>)"
| "comp_apply (CDevice t x) p =
     (case x of None \<Rightarrow> (set_type t p)\<lparr>has_id := False\<rparr> | Some i \<Rightarrow> set_id i (set_type t p))"
| "comp_apply (CCpu _ x) p = set_id x (set_type (Some ''CPU'') p)"
| "comp_apply (CGpu _ x) p = set_id x (set_type (Some ''GPU'') p)"

definition names_text :: "component list \<Rightarrow> string" where
  "names_text cs = concat (map comp_text cs)"

lemma names_text_simps [simp]:
  "names_text [] = []"
  "names_text (c # cs) = comp_text c @ names_text cs"
  "names_text (cs @ ds) = names_text cs @ names_text ds"
  by (simp_all add: names_text_def)

lemma hd_comp_text: "\<exists>t. comp_text c = CHR ''/'' # t"
  by (cases c) auto

lemma names_text_hd: "names_text cs = [] \<or> hd (names_text cs) = CHR ''/''"
  using hd_comp_text [of "hd cs"] by (cases cs) auto

section \<open>Lexical parts: what they accept\<close>

lemma ConsumePrefix_Some: "ConsumePrefix s pre = Some r \<longleftrightarrow> s = pre @ r"
  by (auto simp: ConsumePrefix_def) (metis append_take_drop_id)

lemma ConsumePrefix_append [simp]: "ConsumePrefix (pre @ r) pre = Some r"
  by (simp add: ConsumePrefix_Some)

lemma name_loop_sound:
  "name_loop stops s = Some (n, r) \<Longrightarrow> s = n @ r \<and> list_all (\<lambda>c. IsAlphaNum c \<or> c = CHR ''_'') n"
  by (induction stops s arbitrary: n r rule: name_loop.induct) (auto split: if_splits)

lemma consume_name_sound: "consume_name stops s = Some (n, r) \<Longrightarrow> s = n @ r \<and> IsJobName n"
  by (auto simp: consume_name_def IsJobName_def split: list.splits if_splits dest: name_loop_sound)

lemma IsAlphaNum_not_stop: "IsAlphaNum c \<Longrightarrow> c \<noteq> CHR ''/'' \<and> c \<noteq> CHR '':'' \<and> c \<noteq> CHR ''*''"
  by (auto simp: IsAlphaNum_def IsAlpha_def between_def)

lemma name_loop_complete:
  assumes "list_all (\<lambda>c. IsAlphaNum c \<or> c = CHR ''_'') n" "r = [] \<or> hd r \<in> set stops"
    "set stops \<subseteq> {CHR ''/'', CHR '':''}"
  shows "name_loop stops (n @ r) = Some (n, r)"
  using assms
proof (induction n)
  case Nil
  then show ?case by (cases r) auto
next
  case (Cons c n)
  have "c \<notin> set stops" using Cons.prems IsAlphaNum_not_stop [of c] by auto
  with Cons show ?case by auto
qed

lemma consume_name_complete:
  assumes "IsJobName n" "r = [] \<or> hd r \<in> set stops" "set stops \<subseteq> {CHR ''/'', CHR '':''}"
  shows "consume_name stops (n @ r) = Some (n, r)"
  using assms name_loop_complete [of "tl n" r stops]
  by (auto simp: consume_name_def IsJobName_def split: list.splits)

lemma ucast_of_nat_32: "(ucast (of_nat n :: uint64) :: 32 word) = of_nat n"
  by (rule bit_word_eqI) (auto simp: bit_simps)

lemma ConsumeNumber_sound:
  assumes "ConsumeNumber s = Some (v, r)"
  shows "\<exists>ds. number_ok ds \<and> s = ds @ r \<and> v = number ds"
proof -
  have "number_ok (takeWhile isdigit s)" "r = dropWhile isdigit s" "v = number (takeWhile isdigit s)"
    using assms set_takeWhileD
    by (fastforce simp: ConsumeNumber_def ConsumeLeadingDigits_eq Let_def number_ok_def number_def
        list_all_iff ucast_of_nat_32 split: if_splits)+
  then show ?thesis by (metis takeWhile_dropWhile_id)
qed

lemma ConsumeNumber_complete:
  assumes "number_ok ds" "r = [] \<or> \<not> isdigit (hd r)"
  shows "ConsumeNumber (ds @ r) = Some (number ds, r)"
proof -
  have "takeWhile isdigit (ds @ r) = ds" "dropWhile isdigit (ds @ r) = r"
    using assms by (cases r; auto simp: number_ok_def list_all_iff takeWhile_append dropWhile_append)+
  with assms show ?thesis
    by (simp add: ConsumeNumber_def ConsumeLeadingDigits_eq number_ok_def number_def ucast_of_nat_32)
qed

lemma no_star:
  "IsJobName n \<Longrightarrow> ConsumePrefix (n @ r) ''*'' = None"
  "number_ok ds \<Longrightarrow> ConsumePrefix (ds @ r) ''*'' = None"
proof -
  have "\<not> IsAlpha CHR ''*''" "\<not> isdigit CHR ''*''"
    by (simp_all add: IsAlpha_def isdigit_def between_def)
  then show "IsJobName n \<Longrightarrow> ConsumePrefix (n @ r) ''*'' = None"
    "number_ok ds \<Longrightarrow> ConsumePrefix (ds @ r) ''*'' = None"
    by (cases n; cases ds; auto simp: IsJobName_def number_ok_def ConsumePrefix_def)+
qed

section \<open>The sections consume components\<close>

text \<open>
  A pass reads a number of components from the front of the name: it never accepts anything
  else, reads on a well-formed name without error, and reads at least the first component if it
  handles that.
\<close>

locale name_pass =
  fixes pass :: "parse_state \<Rightarrow> parse_state option" and handles :: "component \<Rightarrow> bool"
  assumes pass_sound: "pass (s, p, b) = Some (s', p', b') \<Longrightarrow>
      \<exists>cs. list_all comp_valid cs \<and> s = names_text cs @ s' \<and> p' = fold comp_apply cs p \<and>
        (b' \<longleftrightarrow> b \<or> cs \<noteq> [])"
    and pass_complete: "list_all comp_valid cs \<Longrightarrow>
      \<exists>ds es. cs = ds @ es \<and> pass (names_text cs, p, b) = Some (names_text es, fold comp_apply ds p, b \<or> ds \<noteq> []) \<and>
        (cs \<noteq> [] \<and> handles (hd cs) \<longrightarrow> ds \<noteq> [])"

text \<open>A section reads one component of the kind it handles, or nothing.\<close>

locale name_section =
  fixes sec :: "parse_state \<Rightarrow> parse_state option" and handles :: "component \<Rightarrow> bool"
  assumes sec_sound: "sec (s, p, b) = Some (s', p', b') \<Longrightarrow>
      (s', p', b') = (s, p, b) \<or> (\<exists>c. comp_valid c \<and> s = comp_text c @ s' \<and> p' = comp_apply c p \<and> b')"
    and sec_skip: "cs = [] \<or> \<not> handles (hd cs) \<Longrightarrow> sec (names_text cs, p, b) = Some (names_text cs, p, b)"
    and sec_take: "comp_valid c \<Longrightarrow> handles c \<Longrightarrow> s = [] \<or> hd s = CHR ''/'' \<Longrightarrow>
      sec (comp_text c @ s, p, b) = Some (s, comp_apply c p, True)"

sublocale name_section \<subseteq> pass: name_pass sec handles
proof
  fix s p b s' p' b' assume "sec (s, p, b) = Some (s', p', b')"
  then consider "(s', p', b') = (s, p, b)"
    | c where "comp_valid c" "s = comp_text c @ s'" "p' = comp_apply c p" "b'" using sec_sound by blast
  then show "\<exists>cs. list_all comp_valid cs \<and> s = names_text cs @ s' \<and> p' = fold comp_apply cs p \<and>
      (b' \<longleftrightarrow> b \<or> cs \<noteq> [])"
  proof cases
    case 1
    then show ?thesis by (intro exI [of _ "[]"]) simp
  next
    case 2
    then show ?thesis by (intro exI [of _ "[c]"]) simp
  qed
next
  fix cs p b assume valid: "list_all comp_valid cs"
  show "\<exists>ds es. cs = ds @ es \<and> sec (names_text cs, p, b) = Some (names_text es, fold comp_apply ds p, b \<or> ds \<noteq> []) \<and>
      (cs \<noteq> [] \<and> handles (hd cs) \<longrightarrow> ds \<noteq> [])"
  proof (cases "cs \<noteq> [] \<and> handles (hd cs)")
    case True
    then obtain c es where "cs = c # es" "handles c" by (cases cs) auto
    then show ?thesis
      using valid sec_take [of c "names_text es" p b] names_text_hd
      by (intro exI [of _ "[c]"] exI [of _ es]) simp
  next
    case False
    then show ?thesis using sec_skip [of cs p b] by (intro exI [of _ "[]"] exI [of _ cs]) auto
  qed
qed

lemma name_pass_then:
  assumes "name_pass f hf" "name_pass g hg"
  shows "name_pass (then_section f g) (\<lambda>c. hf c \<or> hg c)"
proof
  fix s p b s' p' b' assume "then_section f g (s, p, b) = Some (s', p', b')"
  then obtain s1 p1 b1 where f: "f (s, p, b) = Some (s1, p1, b1)" and g: "g (s1, p1, b1) = Some (s', p', b')"
    by (auto simp: then_section_def bind_eq_Some_conv)
  obtain cs where cs: "list_all comp_valid cs" "s = names_text cs @ s1" "p1 = fold comp_apply cs p"
      "b1 \<longleftrightarrow> b \<or> cs \<noteq> []"
    using name_pass.pass_sound [OF assms(1) f] by blast
  obtain ds where ds: "list_all comp_valid ds" "s1 = names_text ds @ s'" "p' = fold comp_apply ds p1"
      "b' \<longleftrightarrow> b1 \<or> ds \<noteq> []"
    using name_pass.pass_sound [OF assms(2) g] by blast
  show "\<exists>cs. list_all comp_valid cs \<and> s = names_text cs @ s' \<and> p' = fold comp_apply cs p \<and>
      (b' \<longleftrightarrow> b \<or> cs \<noteq> [])"
    using cs ds by (intro exI [of _ "cs @ ds"]) auto
next
  fix cs p b assume valid: "list_all comp_valid cs"
  obtain ds es where cs: "cs = ds @ es"
    and f: "f (names_text cs, p, b) = Some (names_text es, fold comp_apply ds p, b \<or> ds \<noteq> [])"
    and hf: "cs \<noteq> [] \<and> hf (hd cs) \<longrightarrow> ds \<noteq> []"
    using name_pass.pass_complete [OF assms(1) valid] by blast
  have "list_all comp_valid es" using valid cs by simp
  then obtain ds' es' where es: "es = ds' @ es'"
    and g: "g (names_text es, fold comp_apply ds p, b \<or> ds \<noteq> []) =
      Some (names_text es', fold comp_apply ds' (fold comp_apply ds p), (b \<or> ds \<noteq> []) \<or> ds' \<noteq> [])"
    and hg: "es \<noteq> [] \<and> hg (hd es) \<longrightarrow> ds' \<noteq> []"
    using name_pass.pass_complete [OF assms(2)] by blast
  show "\<exists>ds es. cs = ds @ es \<and>
      then_section f g (names_text cs, p, b) = Some (names_text es, fold comp_apply ds p, b \<or> ds \<noteq> []) \<and>
      (cs \<noteq> [] \<and> (hf (hd cs) \<or> hg (hd cs)) \<longrightarrow> ds \<noteq> [])"
  proof (intro exI conjI)
    show "cs = (ds @ ds') @ es'" by (simp add: cs es)
    show "then_section f g (names_text cs, p, b) =
        Some (names_text es', fold comp_apply (ds @ ds') p, b \<or> ds @ ds' \<noteq> [])"
      by (simp only: then_section_def f g Option.bind.simps fold_append comp_apply append_is_Nil_conv
          de_Morgan_conj disj_assoc)
    show "cs \<noteq> [] \<and> (hf (hd cs) \<or> hg (hd cs)) \<longrightarrow> ds @ ds' \<noteq> []"
      using hf hg cs by (cases ds) auto
  qed
qed

subsection \<open>Values and wildcards\<close>

locale lexical =
  fixes consume :: "string \<Rightarrow> ('v \<times> string) option" and ok :: "string \<Rightarrow> bool"
    and val :: "string \<Rightarrow> 'v" and ends :: "string \<Rightarrow> bool"
  assumes consume_sound: "consume s = Some (v, r) \<Longrightarrow> \<exists>t. ok t \<and> s = t @ r \<and> v = val t"
    and consume_complete: "ok t \<Longrightarrow> ends r \<Longrightarrow> consume (t @ r) = Some (val t, r)"
    and ok_no_star: "ok t \<Longrightarrow> ConsumePrefix (t @ r) ''*'' = None"
begin

lemma star_or_sound:
  assumes "star_or consume clear set_value (s, p) = Some (s', p')"
  shows "\<exists>x. pred_option ok x \<and> s = star x @ s' \<and>
    p' = (case x of None \<Rightarrow> clear p | Some t \<Rightarrow> set_value (val t) p)"
proof (cases "ConsumePrefix s ''*''")
  case None
  with assms obtain v where v: "consume s = Some (v, s')" "p' = set_value v p"
    by (auto simp: star_or_def)
  then obtain t where "ok t" "s = t @ s'" "v = val t" using consume_sound by blast
  with v show ?thesis by (intro exI [of _ "Some t"]) (simp add: star_def)
next
  case (Some t)
  with assms show ?thesis
    by (intro exI [of _ None]) (auto simp: star_or_def star_def ConsumePrefix_Some)
qed

lemma star_or_complete:
  assumes "pred_option ok x" "ends r"
  shows "star_or consume clear set_value (star x @ r, p) =
    Some (r, case x of None \<Rightarrow> clear p | Some t \<Rightarrow> set_value (val t) p)"
  using assms
  by (cases x) (simp_all add: star_or_def star_def ok_no_star consume_complete
      ConsumePrefix_append [of "''*''", simplified])

end

definition at_end :: "string \<Rightarrow> string \<Rightarrow> bool" where
  "at_end stops r \<longleftrightarrow> r = [] \<or> hd r \<in> set stops"

interpretation job_text: lexical ConsumeJobName IsJobName "\<lambda>t. t" "at_end ''/''"
  by unfold_locales
    (auto simp: ConsumeJobName_def at_end_def no_star intro!: consume_name_complete dest: consume_name_sound)

interpretation type_text: lexical ConsumeDeviceType IsJobName "\<lambda>t. t" "at_end ''/:''"
  by unfold_locales
    (auto simp: ConsumeDeviceType_def at_end_def no_star intro!: consume_name_complete dest: consume_name_sound)

interpretation number_text: lexical ConsumeNumber number_ok number "at_end ''/''"
proof unfold_locales
  have "\<not> isdigit CHR ''/''" by (simp add: isdigit_def between_def)
  then show "ConsumeNumber (t @ r) = Some (number t, r)" if "number_ok t" "at_end ''/'' r" for t r
    using that by (intro ConsumeNumber_complete) (auto simp: at_end_def)
qed (auto simp: no_star dest: ConsumeNumber_sound)

lemmas parse_id_sound = number_text.star_or_sound
  [of "\<lambda>p. p\<lparr>has_id := False\<rparr>" "\<lambda>v p. p\<lparr>has_id := True, dev_id := v\<rparr>", folded parse_id_def set_id_def]

lemmas parse_id_complete = number_text.star_or_complete
  [of _ _ "\<lambda>p. p\<lparr>has_id := False\<rparr>" "\<lambda>v p. p\<lparr>has_id := True, dev_id := v\<rparr>", folded parse_id_def set_id_def]

subsection \<open>Prefixes\<close>

lemma consume_any_Some: "consume_any s pres = Some t \<Longrightarrow> \<exists>pre \<in> set pres. s = pre @ t"
  by (induction pres) (auto split: option.splits simp: ConsumePrefix_Some)

text \<open>The laws of a section from those of what follows its prefix.\<close>

lemma name_section_at_prefix:
  assumes sound: "\<And>pre s p s' p'. pre \<in> set pres \<Longrightarrow> body (s, p) = Some (s', p') \<Longrightarrow>
      \<exists>c. comp_valid c \<and> pre @ s = comp_text c @ s' \<and> p' = comp_apply c p"
    and complete: "\<And>c s p. comp_valid c \<Longrightarrow> handles c \<Longrightarrow> at_end ''/'' s \<Longrightarrow>
      \<exists>t. consume_any (comp_text c @ s) pres = Some (t @ s) \<and> body (t @ s, p) = Some (s, comp_apply c p)"
    and skip: "\<And>c s. \<not> handles c \<Longrightarrow> consume_any (comp_text c @ s) pres = None"
    and empty: "consume_any [] pres = None"
  shows "name_section (at_prefix pres body) handles"
proof
  fix s p b s' p' b' assume eq: "at_prefix pres body (s, p, b) = Some (s', p', b')"
  show "(s', p', b') = (s, p, b) \<or>
      (\<exists>c. comp_valid c \<and> s = comp_text c @ s' \<and> p' = comp_apply c p \<and> b')"
  proof (cases "consume_any s pres")
    case None
    with eq show ?thesis by (simp add: at_prefix_def)
  next
    case (Some t)
    with eq have "body (t, p) = Some (s', p')" b' by (auto simp: at_prefix_def)
    with sound consume_any_Some [OF Some] show ?thesis by blast
  qed
next
  fix cs :: "component list" and p b assume "cs = [] \<or> \<not> handles (hd cs)"
  then show "at_prefix pres body (names_text cs, p, b) = Some (names_text cs, p, b)"
    using skip [of "hd cs"] empty by (cases cs) (auto simp: at_prefix_def)
next
  fix c s p b assume "comp_valid c" "handles c" "s = [] \<or> hd s = CHR ''/''"
  then obtain t where "consume_any (comp_text c @ s) pres = Some (t @ s)"
    "body (t @ s, p) = Some (s, comp_apply c p)"
    using complete [of c s p] by (auto simp: at_end_def)
  then show "at_prefix pres body (comp_text c @ s, p, b) = Some (s, comp_apply c p, True)"
    by (simp add: at_prefix_def)
qed

context lexical
begin

lemma name_section_star_or:
  assumes "\<And>x. comp_valid (mk x) \<longleftrightarrow> pred_option ok x"
    and spelled: "\<And>x. comp_text (mk x) = pre @ star x"
    and apply_eq: "\<And>x p. comp_apply (mk x) p = (case x of None \<Rightarrow> clear p | Some t \<Rightarrow> set_value (val t) p)"
    and "\<And>s. at_end ''/'' s \<Longrightarrow> ends s"
    and "\<And>c s. \<nexists>x. c = mk x \<Longrightarrow> ConsumePrefix (comp_text c @ s) pre = None" "pre \<noteq> []"
  shows "name_section (at_prefix [pre] (star_or consume clear set_value)) (\<lambda>c. \<exists>x. c = mk x)"
proof (rule name_section_at_prefix)
  fix pre' s p s' p'
  assume pre: "pre' \<in> set [pre]" and eq: "star_or consume clear set_value (s, p) = Some (s', p')"
  obtain x where x: "pred_option ok x" "s = star x @ s'"
      "p' = (case x of None \<Rightarrow> clear p | Some t \<Rightarrow> set_value (val t) p)"
    using star_or_sound [OF eq] by blast
  show "\<exists>c. comp_valid c \<and> pre' @ s = comp_text c @ s' \<and> p' = comp_apply c p"
    using pre x assms(1) by (intro exI [of _ "mk x"]) (simp add: spelled apply_eq)
next
  fix c s p assume "comp_valid c" "\<exists>x. c = mk x" and s: "at_end ''/'' s"
  then obtain x where c: "c = mk x" "pred_option ok x" using assms(1) by auto
  show "\<exists>t. consume_any (comp_text c @ s) [pre] = Some (t @ s) \<and>
      star_or consume clear set_value (t @ s, p) = Some (s, comp_apply c p)"
    using star_or_complete [OF c(2), of s clear set_value p] assms(4) [OF s]
    by (intro exI [of _ "star x"]) (simp add: c(1) spelled apply_eq)
qed (use assms in \<open>auto simp: ConsumePrefix_def\<close>)

end

interpretation job_section: name_section parse_job "\<lambda>c. \<exists>x. c = CJob x"
  unfolding parse_job_def
proof (rule job_text.name_section_star_or)
  show "ConsumePrefix (comp_text c @ s) ''/job:'' = None" if "\<nexists>x. c = CJob x" for c s
    using that by (cases c) (simp_all add: ConsumePrefix_def)
qed simp_all

interpretation replica_section: name_section parse_replica "\<lambda>c. \<exists>x. c = CReplica x"
  unfolding parse_replica_def
proof (rule number_text.name_section_star_or)
  show "ConsumePrefix (comp_text c @ s) ''/replica:'' = None" if "\<nexists>x. c = CReplica x" for c s
    using that by (cases c) (simp_all add: ConsumePrefix_def)
qed simp_all

interpretation task_section: name_section parse_task "\<lambda>c. \<exists>x. c = CTask x"
  unfolding parse_task_def
proof (rule number_text.name_section_star_or)
  show "ConsumePrefix (comp_text c @ s) ''/task:'' = None" if "\<nexists>x. c = CTask x" for c s
    using that by (cases c) (simp_all add: ConsumePrefix_def)
qed simp_all

text \<open>The two short forms, which differ in the prefixes and the type.\<close>

lemma name_section_short:
  assumes "\<And>up x. comp_valid (mk up x) \<longleftrightarrow> pred_option number_ok x"
    and spelled: "\<And>up x. comp_text (mk up x) = (if up then upper else lower) @ star x"
    and apply_eq: "\<And>up x p. comp_apply (mk up x) p = set_id x (p\<lparr>has_type := True, dev_type := ty\<rparr>)"
    and hit: "\<And>up s. consume_any ((if up then upper else lower) @ s) [lower, upper] = Some s"
    and "\<And>c s. \<nexists>up x. c = mk up x \<Longrightarrow> consume_any (comp_text c @ s) [lower, upper] = None"
    and "consume_any [] [lower, upper] = None"
  shows "name_section (at_prefix [lower, upper] (\<lambda>(s, p). parse_id (s, p\<lparr>has_type := True, dev_type := ty\<rparr>)))
    (\<lambda>c. \<exists>up x. c = mk up x)"
proof (rule name_section_at_prefix)
  fix pre s p s' p'
  assume "pre \<in> set [lower, upper]"
    and "(case (s, p) of (s, p) \<Rightarrow> parse_id (s, p\<lparr>has_type := True, dev_type := ty\<rparr>)) = Some (s', p')"
  then have pre: "pre = upper \<or> pre = lower"
    and eq: "parse_id (s, p\<lparr>has_type := True, dev_type := ty\<rparr>) = Some (s', p')" by auto
  obtain x where "pred_option number_ok x" "s = star x @ s'"
      "p' = set_id x (p\<lparr>has_type := True, dev_type := ty\<rparr>)"
    using parse_id_sound [OF eq] by blast
  with pre show "\<exists>c. comp_valid c \<and> pre @ s = comp_text c @ s' \<and> p' = comp_apply c p"
    using assms(1) by (intro exI [of _ "mk (pre = upper) x"]) (auto simp: spelled apply_eq)
next
  fix c s p assume "comp_valid c" "\<exists>up x. c = mk up x" and s: "at_end ''/'' s"
  then obtain up x where c: "c = mk up x" "pred_option number_ok x" using assms(1) by auto
  show "\<exists>t. consume_any (comp_text c @ s) [lower, upper] = Some (t @ s) \<and>
      (case (t @ s, p) of (s, p) \<Rightarrow> parse_id (s, p\<lparr>has_type := True, dev_type := ty\<rparr>)) = Some (s, comp_apply c p)"
    using hit [of up "star x @ s"] parse_id_complete [OF c(2) s]
    by (intro exI [of _ "star x"]) (simp add: c(1) spelled apply_eq del: consume_any.simps)
qed (use assms in blast)+

interpretation cpu_section: name_section parse_cpu "\<lambda>c. \<exists>up x. c = CCpu up x"
  unfolding parse_cpu_def
proof (rule name_section_short)
  show "consume_any (comp_text c @ s) [''/cpu:'', ''/CPU:''] = None" if "\<nexists>up x. c = CCpu up x" for c s
    using that by (cases c) (simp_all add: ConsumePrefix_def)
qed (simp_all add: ConsumePrefix_def set_type_def)

interpretation gpu_section: name_section parse_gpu "\<lambda>c. \<exists>up x. c = CGpu up x"
  unfolding parse_gpu_def
proof (rule name_section_short)
  show "consume_any (comp_text c @ s) [''/gpu:'', ''/GPU:''] = None" if "\<nexists>up x. c = CGpu up x" for c s
    using that by (cases c) (simp_all add: ConsumePrefix_def)
qed (simp_all add: ConsumePrefix_def set_type_def)

lemma ConsumePrefix_colon:
  "ConsumePrefix (CHR '':'' # s) '':'' = Some s"
  "at_end ''/'' s \<Longrightarrow> ConsumePrefix s '':'' = None"
  by (cases s; auto simp: ConsumePrefix_def at_end_def)+

lemma device_body_sound:
  assumes "Option.bind
      (star_or ConsumeDeviceType (\<lambda>p. p\<lparr>has_type := False\<rparr>) (\<lambda>t p. p\<lparr>has_type := True, dev_type := t\<rparr>) (s, p))
      (\<lambda>(s, p). case ConsumePrefix s '':'' of None \<Rightarrow> Some (s, p\<lparr>has_id := False\<rparr>) | Some s \<Rightarrow> parse_id (s, p)) =
      Some (s', p')"
  shows "\<exists>c. comp_valid c \<and> ''/device:'' @ s = comp_text c @ s' \<and> p' = comp_apply c p"
proof -
  obtain s1 p1 where star: "star_or ConsumeDeviceType (\<lambda>p. p\<lparr>has_type := False\<rparr>)
        (\<lambda>t p. p\<lparr>has_type := True, dev_type := t\<rparr>) (s, p) = Some (s1, p1)"
      and rest: "(case ConsumePrefix s1 '':'' of None \<Rightarrow> Some (s1, p1\<lparr>has_id := False\<rparr>) | Some s \<Rightarrow> parse_id (s, p1)) =
        Some (s', p')"
    using assms by (auto simp: bind_eq_Some_conv)
  obtain t where t: "pred_option IsJobName t" "s = star t @ s1" "p1 = set_type t p"
    using type_text.star_or_sound [OF star] by (auto simp: set_type_def)
  show ?thesis
  proof (cases "ConsumePrefix s1 '':''")
    case None
    with rest t show ?thesis by (intro exI [of _ "CDevice t None"]) auto
  next
    case (Some s2)
    then have "parse_id (s2, p1) = Some (s', p')" using rest by simp
    then obtain i where "pred_option number_ok i" "s2 = star i @ s'" "p' = set_id i p1"
      using parse_id_sound by blast
    with t Some show ?thesis
      by (intro exI [of _ "CDevice t (Some i)"]) (simp add: ConsumePrefix_Some)
  qed
qed

interpretation device_section: name_section parse_device "\<lambda>c. \<exists>t x. c = CDevice t x"
  unfolding parse_device_def
proof (rule name_section_at_prefix)
  fix c s p assume "comp_valid c" "\<exists>t x. c = CDevice t x" and s: "at_end ''/'' s"
  then obtain t x where c: "c = CDevice t x" "pred_option IsJobName t" "pred_option (pred_option number_ok) x"
    by auto
  let ?i = "case x of None \<Rightarrow> [] | Some i \<Rightarrow> '':'' @ star i"
  have "at_end ''/:'' (?i @ s)" using s by (auto simp: at_end_def split: option.split)
  from type_text.star_or_complete [OF c(2) this]
  have star: "star_or ConsumeDeviceType (\<lambda>p. p\<lparr>has_type := False\<rparr>) (\<lambda>t p. p\<lparr>has_type := True, dev_type := t\<rparr>)
      (star t @ ?i @ s, p) = Some (?i @ s, set_type t p)" by (simp add: set_type_def)
  show "\<exists>t. consume_any (comp_text c @ s) [''/device:''] = Some (t @ s) \<and>
      Option.bind (star_or ConsumeDeviceType (\<lambda>p. p\<lparr>has_type := False\<rparr>)
          (\<lambda>t p. p\<lparr>has_type := True, dev_type := t\<rparr>) (t @ s, p))
        (\<lambda>(s, p). case ConsumePrefix s '':'' of None \<Rightarrow> Some (s, p\<lparr>has_id := False\<rparr>) | Some s \<Rightarrow> parse_id (s, p)) =
      Some (s, comp_apply c p)"
    using star c(3) s
    by (intro exI [of _ "star t @ ?i"])
      (auto simp: c(1) ConsumePrefix_colon parse_id_complete ConsumePrefix_append [of "''/device:''", simplified]
        split: option.split)
next
  show "consume_any (comp_text c @ s) [''/device:''] = None" if "\<nexists>t x. c = CDevice t x" for c s
    using that by (cases c) (simp_all add: ConsumePrefix_def)
qed (use device_body_sound in \<open>auto simp: ConsumePrefix_def\<close>)

subsection \<open>The whole parser\<close>

interpretation body: name_pass parse_body "\<lambda>c. (\<exists>x. c = CJob x) \<or> (\<exists>x. c = CReplica x) \<or> (\<exists>x. c = CTask x) \<or>
    (\<exists>t x. c = CDevice t x) \<or> (\<exists>up x. c = CCpu up x) \<or> (\<exists>up x. c = CGpu up x)"
  unfolding parse_body_def
  by (intro name_pass_then job_section.pass.name_pass_axioms replica_section.pass.name_pass_axioms
      task_section.pass.name_pass_axioms device_section.pass.name_pass_axioms
      cpu_section.pass.name_pass_axioms gpu_section.pass.name_pass_axioms)

lemma names_text_Nil_iff [simp]: "names_text cs = [] \<longleftrightarrow> cs = []"
  using hd_comp_text [of "hd cs"] by (cases cs) auto

lemma parse_body_shortens:
  assumes "parse_body (s, p, False) = Some (s', p', True)"
  shows "length s' < length s"
proof -
  obtain cs where "s = names_text cs @ s'" "cs \<noteq> []" using body.pass_sound [OF assms] by auto
  then show ?thesis using names_text_Nil_iff [of cs] by simp
qed

function parse_loop :: "string \<Rightarrow> parsed_name \<Rightarrow> parsed_name option" where
  "parse_loop s p =
     (if s = [] then Some p
      else case parse_body (s, p, False) of
        None \<Rightarrow> None
      | Some (s', p', progress) \<Rightarrow> if progress then parse_loop s' p' else None)"
  by pat_completeness auto
termination
  by (relation "measure (\<lambda>(s, p). length s)") (auto dest: parse_body_shortens)

declare parse_loop.simps [simp del]

definition ParseFullName :: "string \<Rightarrow> parsed_name option" where
  "ParseFullName fullname = (if fullname = ''/'' then Some cleared else parse_loop fullname cleared)"

lemma parse_loop_sound:
  "parse_loop s p = Some q \<Longrightarrow> \<exists>cs. list_all comp_valid cs \<and> s = names_text cs \<and> q = fold comp_apply cs p"
proof (induction s p rule: parse_loop.induct)
  case (1 s p)
  show ?case
  proof (cases "s = []")
    case True
    with "1.prems" show ?thesis by (intro exI [of _ "[]"]) (simp add: parse_loop.simps)
  next
    case False
    with "1.prems" obtain s' p' where step: "parse_body (s, p, False) = Some (s', p', True)"
        "parse_loop s' p' = Some q"
      by (subst (asm) parse_loop.simps) (auto split: option.splits if_splits)
    obtain cs where "list_all comp_valid cs" "s = names_text cs @ s'" "p' = fold comp_apply cs p"
      using body.pass_sound [OF step(1)] by blast
    moreover obtain ds where "list_all comp_valid ds" "s' = names_text ds" "q = fold comp_apply ds p'"
      using "1.IH" [OF False step(1) refl refl _ step(2)] by blast
    ultimately show ?thesis by (intro exI [of _ "cs @ ds"]) simp
  qed
qed

lemma parse_loop_complete:
  "list_all comp_valid cs \<Longrightarrow> parse_loop (names_text cs) p = Some (fold comp_apply cs p)"
proof (induction "length cs" arbitrary: cs p rule: less_induct)
  case less
  show ?case
  proof (cases "cs = []")
    case True
    then show ?thesis by (simp add: parse_loop.simps)
  next
    case False
    obtain ds es where cs: "cs = ds @ es"
      and step: "parse_body (names_text cs, p, False) = Some (names_text es, fold comp_apply ds p, False \<or> ds \<noteq> [])"
      and "ds \<noteq> []"
      using body.pass_complete [OF less.prems, of p False] False by (metis component.exhaust)
    then have "parse_loop (names_text es) (fold comp_apply ds p) = Some (fold comp_apply cs p)"
      using less by simp
    then show ?thesis
      using step \<open>ds \<noteq> []\<close> False by (subst parse_loop.simps) simp
  qed
qed

lemma names_text_not_slash: "names_text cs \<noteq> ''/''"
proof (cases cs)
  case (Cons c ds)
  then show ?thesis by (cases c) auto
qed simp

text \<open>
  C20: \<open>ParseFullName\<close> always returns, and it accepts exactly the name \<open>/\<close> and the sequences of
  components, in any order; the result is that of applying the components in their order to the
  cleared name.
\<close>

theorem parse_full_name_exact:
  "ParseFullName s = Some p \<longleftrightarrow>
     s = ''/'' \<and> p = cleared \<or>
     (\<exists>cs. list_all comp_valid cs \<and> s = names_text cs \<and> p = fold comp_apply cs cleared)"
  using parse_loop_sound [of s cleared p] parse_loop_complete [of _ cleared] names_text_not_slash
  by (auto simp: ParseFullName_def)

end
