(* ===== verification/Device_Specs.thy ===== *)
theory Device_Specs
  imports Device_Names
begin

text \<open>
  What device names mean: specifications and their merging, address spaces and local names, the
  rest of \<open>util/device_name_utils.cc\<close>. A parsed name stands for the complete names that have
  its components; \<open>IsSpecification\<close> is that order.
\<close>

section \<open>Operations\<close>

definition ParsedNameToString :: "parsed_name \<Rightarrow> string" where
  "ParsedNameToString pn =
     (if has_job pn then ''/job:'' @ job pn else []) @
     (if has_replica pn then ''/replica:'' @ FastInt32ToBufferLeft (replica pn) else []) @
     (if has_task pn then ''/task:'' @ FastInt32ToBufferLeft (task pn) else []) @
     (if has_type pn then ''/'' @ dev_type pn @ '':'' @
        (if has_id pn then FastInt32ToBufferLeft (dev_id pn) else ''*'') else [])"

definition IsSpecification :: "parsed_name \<Rightarrow> parsed_name \<Rightarrow> bool" where
  "IsSpecification less_specific more_specific \<longleftrightarrow>
     (if has_job less_specific \<and> (\<not> has_job more_specific \<or> job less_specific \<noteq> job more_specific) then False
      else if has_replica less_specific \<and> (\<not> has_replica more_specific \<or> replica less_specific \<noteq> replica more_specific) then False
      else if has_task less_specific \<and> (\<not> has_task more_specific \<or> task less_specific \<noteq> task more_specific) then False
      else if has_type less_specific \<and> (\<not> has_type more_specific \<or> dev_type less_specific \<noteq> dev_type more_specific) then False
      else if has_id less_specific \<and> (\<not> has_id more_specific \<or> dev_id less_specific \<noteq> dev_id more_specific) then False
      else True)"

definition complete_name :: "parsed_name \<Rightarrow> bool" where
  "complete_name p \<longleftrightarrow> has_job p \<and> has_replica p \<and> has_task p \<and> has_type p \<and> has_id p"

definition IsCompleteSpecification :: "parsed_name \<Rightarrow> parsed_name \<Rightarrow> bool option" where
  "IsCompleteSpecification pat name =
     (if \<not> complete_name name then None
      else if has_job pat \<and> job pat \<noteq> job name then Some False
      else if has_replica pat \<and> replica pat \<noteq> replica name then Some False
      else if has_task pat \<and> task pat \<noteq> task name then Some False
      else if has_type pat \<and> dev_type pat \<noteq> dev_type name then Some False
      else if has_id pat \<and> dev_id pat \<noteq> dev_id name then Some False
      else Some True)"

definition AreCompatibleDevNames :: "parsed_name \<Rightarrow> parsed_name \<Rightarrow> bool" where
  "AreCompatibleDevNames a b \<longleftrightarrow> IsSpecification a b \<or> IsSpecification b a"

text \<open>The status (\<open>None\<close> is OK) and what is left in \<open>*target\<close>, also on an error.\<close>

definition MergeDevNames :: "parsed_name \<Rightarrow> parsed_name \<Rightarrow> bool \<Rightarrow> code option \<times> parsed_name" where
  "MergeDevNames target other allow_soft_placement =
     (if has_job other \<and> has_job target \<and> job target \<noteq> job other then (Some INVALID_ARGUMENT, target)
      else let target = (if has_job other
             then target\<lparr>has_job := has_job other, job := job other\<rparr> else target) in
      if has_replica other \<and> has_replica target \<and> replica target \<noteq> replica other then (Some INVALID_ARGUMENT, target)
      else let target = (if has_replica other
             then target\<lparr>has_replica := has_replica other, replica := replica other\<rparr> else target) in
      if has_task other \<and> has_task target \<and> task target \<noteq> task other then (Some INVALID_ARGUMENT, target)
      else let target = (if has_task other
             then target\<lparr>has_task := has_task other, task := task other\<rparr> else target) in
      if has_type other \<and> has_type target \<and> dev_type target \<noteq> dev_type other then
        (if \<not> allow_soft_placement then (Some INVALID_ARGUMENT, target)
         else (None, target\<lparr>has_id := False, has_type := False\<rparr>))
      else let target = (if has_type other
             then target\<lparr>has_type := has_type other, dev_type := dev_type other\<rparr> else target) in
      if has_id other \<and> has_id target \<and> dev_id target \<noteq> dev_id other then
        (if \<not> allow_soft_placement then (Some INVALID_ARGUMENT, target)
         else (None, target\<lparr>has_id := False\<rparr>))
      else (None, if has_id other
             then target\<lparr>has_id := has_id other, dev_id := dev_id other\<rparr> else target))"

definition IsSameAddressSpace :: "parsed_name \<Rightarrow> parsed_name \<Rightarrow> bool" where
  "IsSameAddressSpace a b \<longleftrightarrow>
     (has_job a \<and> has_job b \<and> job a = job b) \<and>
     (has_replica a \<and> has_replica b \<and> replica a = replica b) \<and>
     (has_task a \<and> has_task b \<and> task a = task b)"

definition IsSameAddressSpace_text :: "string \<Rightarrow> string \<Rightarrow> bool" where
  "IsSameAddressSpace_text src dst =
     (case ParseFullName src of
        None \<Rightarrow> False
      | Some x \<Rightarrow> (case ParseFullName dst of None \<Rightarrow> False | Some y \<Rightarrow> IsSameAddressSpace x y))"

definition LocalName :: "string \<Rightarrow> 32 word \<Rightarrow> string" where
  "LocalName ty i = ty @ '':'' @ FastInt32ToBufferLeft i"

definition LocalName_text :: "string \<Rightarrow> string option" where
  "LocalName_text fullname = map_option (\<lambda>x. LocalName (dev_type x) (dev_id x)) (ParseFullName fullname)"

definition ParseLocalName :: "string \<Rightarrow> parsed_name \<Rightarrow> parsed_name option" where
  "ParseLocalName name p =
     (case ConsumeDeviceType name of
        None \<Rightarrow> None
      | Some (t, name) \<Rightarrow>
          (case ConsumePrefix name '':'' of
             None \<Rightarrow> None
           | Some name \<Rightarrow>
               (case ConsumeNumber name of
                  None \<Rightarrow> None
                | Some (v, name) \<Rightarrow> if name = [] then Some (p\<lparr>dev_type := t, dev_id := v\<rparr>) else None)))"

definition SplitDeviceName :: "string \<Rightarrow> (string \<times> string) option" where
  "SplitDeviceName name =
     (case ParseFullName name of
        None \<Rightarrow> None
      | Some pn \<Rightarrow>
          if has_type pn \<and> has_id pn
          then Some ((if has_job pn then ''/job:'' @ job pn else []) @
              (if has_replica pn then ''/replica:'' @ FastInt32ToBufferLeft (replica pn) else []) @
              (if has_task pn then ''/task:'' @ FastInt32ToBufferLeft (task pn) else []),
            dev_type pn @ '':'' @ FastInt32ToBufferLeft (dev_id pn))
          else None)"

section \<open>Specifications\<close>

lemma IsSpecification_iff:
  "IsSpecification l m \<longleftrightarrow>
     (has_job l \<longrightarrow> has_job m \<and> job l = job m) \<and>
     (has_replica l \<longrightarrow> has_replica m \<and> replica l = replica m) \<and>
     (has_task l \<longrightarrow> has_task m \<and> task l = task m) \<and>
     (has_type l \<longrightarrow> has_type m \<and> dev_type l = dev_type m) \<and>
     (has_id l \<longrightarrow> has_id m \<and> dev_id l = dev_id m)"
  by (auto simp: IsSpecification_def)

lemma IsSpecification_refl: "IsSpecification p p"
  by (simp add: IsSpecification_iff)

lemma IsSpecification_trans: "IsSpecification p q \<Longrightarrow> IsSpecification q r \<Longrightarrow> IsSpecification p r"
  by (auto simp: IsSpecification_iff)

lemma IsSpecification_antisym: "IsSpecification p q \<and> IsSpecification q p \<longleftrightarrow> same_name p q"
  by (auto simp: IsSpecification_iff same_name_def)

lemma IsCompleteSpecification_eq:
  "complete_name n \<Longrightarrow> IsCompleteSpecification p n = Some (IsSpecification p n)"
  by (simp add: IsCompleteSpecification_def IsSpecification_def complete_name_def)

text \<open>Completing a name: the components it lacks are taken from another.\<close>

definition completed :: "parsed_name \<Rightarrow> parsed_name" where
  "completed p = \<lparr>has_job = True, job = job p, has_replica = True, replica = replica p, has_task = True,
     task = task p, has_type = True, dev_type = dev_type p, has_id = True, dev_id = dev_id p\<rparr>"

lemma completed_specification: "IsSpecification p (completed p)" "complete_name (completed p)"
  by (simp_all add: completed_def IsSpecification_iff complete_name_def)

definition without_id :: "parsed_name \<Rightarrow> parsed_name" where
  "without_id p = p\<lparr>has_id := False\<rparr>"

definition without_device :: "parsed_name \<Rightarrow> parsed_name" where
  "without_device p = p\<lparr>has_id := False, has_type := False\<rparr>"

definition task_conflict :: "parsed_name \<Rightarrow> parsed_name \<Rightarrow> bool" where
  "task_conflict t u \<longleftrightarrow>
     has_job t \<and> has_job u \<and> job t \<noteq> job u \<or>
     has_replica t \<and> has_replica u \<and> replica t \<noteq> replica u \<or>
     has_task t \<and> has_task u \<and> task t \<noteq> task u"

definition type_conflict :: "parsed_name \<Rightarrow> parsed_name \<Rightarrow> bool" where
  "type_conflict t u \<longleftrightarrow> has_type t \<and> has_type u \<and> dev_type t \<noteq> dev_type u"

definition id_conflict :: "parsed_name \<Rightarrow> parsed_name \<Rightarrow> bool" where
  "id_conflict t u \<longleftrightarrow> has_id t \<and> has_id u \<and> dev_id t \<noteq> dev_id u"

text \<open>What soft placement gives up: the device if the types differ, the id if only the ids do.\<close>

definition softened :: "parsed_name \<Rightarrow> parsed_name \<Rightarrow> parsed_name \<Rightarrow> parsed_name" where
  "softened t u p =
     (if type_conflict t u then without_device p else if id_conflict t u then without_id p else p)"

definition joined :: "parsed_name \<Rightarrow> parsed_name \<Rightarrow> parsed_name" where
  "joined t u = \<lparr>
     has_job = has_job t \<or> has_job u, job = (if has_job u then job u else job t),
     has_replica = has_replica t \<or> has_replica u, replica = (if has_replica u then replica u else replica t),
     has_task = has_task t \<or> has_task u, task = (if has_task u then task u else task t),
     has_type = has_type t \<or> has_type u, dev_type = (if has_type u then dev_type u else dev_type t),
     has_id = has_id t \<or> has_id u, dev_id = (if has_id u then dev_id u else dev_id t)\<rparr>"

lemma if_update_fields:
  "has_replica (if c then t\<lparr>has_job := a, job := j\<rparr> else t) = has_replica t"
  "replica (if c then t\<lparr>has_job := a, job := j\<rparr> else t) = replica t"
  "has_task (if c then t\<lparr>has_job := a, job := j\<rparr> else t) = has_task t"
  "task (if c then t\<lparr>has_job := a, job := j\<rparr> else t) = task t"
  "has_type (if c then t\<lparr>has_job := a, job := j\<rparr> else t) = has_type t"
  "dev_type (if c then t\<lparr>has_job := a, job := j\<rparr> else t) = dev_type t"
  "has_id (if c then t\<lparr>has_job := a, job := j\<rparr> else t) = has_id t"
  "dev_id (if c then t\<lparr>has_job := a, job := j\<rparr> else t) = dev_id t"
  "has_task (if c then t\<lparr>has_replica := a, replica := r\<rparr> else t) = has_task t"
  "task (if c then t\<lparr>has_replica := a, replica := r\<rparr> else t) = task t"
  "has_type (if c then t\<lparr>has_replica := a, replica := r\<rparr> else t) = has_type t"
  "dev_type (if c then t\<lparr>has_replica := a, replica := r\<rparr> else t) = dev_type t"
  "has_id (if c then t\<lparr>has_replica := a, replica := r\<rparr> else t) = has_id t"
  "dev_id (if c then t\<lparr>has_replica := a, replica := r\<rparr> else t) = dev_id t"
  "has_type (if c then t\<lparr>has_task := a, task := r\<rparr> else t) = has_type t"
  "dev_type (if c then t\<lparr>has_task := a, task := r\<rparr> else t) = dev_type t"
  "has_id (if c then t\<lparr>has_task := a, task := r\<rparr> else t) = has_id t"
  "dev_id (if c then t\<lparr>has_task := a, task := r\<rparr> else t) = dev_id t"
  "has_id (if c then t\<lparr>has_type := a, dev_type := y\<rparr> else t) = has_id t"
  "dev_id (if c then t\<lparr>has_type := a, dev_type := y\<rparr> else t) = dev_id t"
  by simp_all

lemma MergeDevNames_status:
  "fst (MergeDevNames t u soft) =
     (if task_conflict t u \<or> \<not> soft \<and> (type_conflict t u \<or> id_conflict t u)
      then Some INVALID_ARGUMENT else None)"
  unfolding MergeDevNames_def Let_def if_update_fields task_conflict_def type_conflict_def id_conflict_def
  by (simp add: if_distrib [of fst] split del: if_split) auto

lemmas fields_of_if =
  if_distrib [of has_job] if_distrib [of job] if_distrib [of has_replica] if_distrib [of replica]
  if_distrib [of has_task] if_distrib [of task] if_distrib [of has_type] if_distrib [of dev_type]
  if_distrib [of has_id] if_distrib [of dev_id]

lemma MergeDevNames_result:
  assumes "\<not> task_conflict t u" "soft \<or> \<not> type_conflict t u \<and> \<not> id_conflict t u"
  shows "snd (MergeDevNames t u soft) = joined (softened t u t) (softened t u u)"
proof -
  have no: "\<not> (has_job u \<and> has_job t \<and> job t \<noteq> job u)"
    "\<not> (has_replica u \<and> has_replica t \<and> replica t \<noteq> replica u)"
    "\<not> (has_task u \<and> has_task t \<and> task t \<noteq> task u)"
    using assms(1) by (auto simp: task_conflict_def)
  have conflicts: "has_type u \<and> has_type t \<and> dev_type t \<noteq> dev_type u \<longleftrightarrow> type_conflict t u"
    "has_id u \<and> has_id t \<and> dev_id t \<noteq> dev_id u \<longleftrightarrow> id_conflict t u"
    by (auto simp: type_conflict_def id_conflict_def)
  have eq: "snd (MergeDevNames t u soft) =
      (let target = (if has_job u then t\<lparr>has_job := has_job u, job := job u\<rparr> else t);
           target = (if has_replica u then target\<lparr>has_replica := has_replica u, replica := replica u\<rparr> else target);
           target = (if has_task u then target\<lparr>has_task := has_task u, task := task u\<rparr> else target)
       in if type_conflict t u then target\<lparr>has_id := False, has_type := False\<rparr>
       else let target = (if has_type u then target\<lparr>has_type := has_type u, dev_type := dev_type u\<rparr> else target)
       in if id_conflict t u then target\<lparr>has_id := False\<rparr>
       else if has_id u then target\<lparr>has_id := has_id u, dev_id := dev_id u\<rparr> else target)"
    unfolding MergeDevNames_def Let_def if_update_fields
    using assms(2) by (cases "type_conflict t u"; cases "id_conflict t u"; cases soft)
      (simp_all only: no conflicts if_False if_True not_True_eq_False not_False_eq_True snd_conv simp_thms)
  show ?thesis unfolding eq Let_def
    by (cases "type_conflict t u"; cases "id_conflict t u"; intro parsed_name.equality;
        simp add: fields_of_if softened_def without_device_def without_id_def joined_def split del: if_split;
        auto)
qed

lemma field_join:
  assumes "\<not> (a \<and> b \<and> x \<noteq> y)"
  shows "(a \<or> b \<longrightarrow> h \<and> (if b then y else x) = z) \<longleftrightarrow> (a \<longrightarrow> h \<and> x = z) \<and> (b \<longrightarrow> h \<and> y = z)"
  using assms by auto

lemma joined_specification:
  assumes "\<not> task_conflict t u \<and> \<not> type_conflict t u \<and> \<not> id_conflict t u"
  shows "IsSpecification (joined t u) q \<longleftrightarrow> IsSpecification t q \<and> IsSpecification u q"
proof -
  have "\<not> (has_job t \<and> has_job u \<and> job t \<noteq> job u)"
    "\<not> (has_replica t \<and> has_replica u \<and> replica t \<noteq> replica u)"
    "\<not> (has_task t \<and> has_task u \<and> task t \<noteq> task u)"
    "\<not> (has_type t \<and> has_type u \<and> dev_type t \<noteq> dev_type u)"
    "\<not> (has_id t \<and> has_id u \<and> dev_id t \<noteq> dev_id u)"
    using assms by (auto simp: task_conflict_def type_conflict_def id_conflict_def)
  from this [THEN field_join] show ?thesis
    unfolding IsSpecification_iff joined_def parsed_name.select_convs by (simp only: conj_ac)
qed

lemma common_specification:
  "IsSpecification t q \<Longrightarrow> IsSpecification u q \<Longrightarrow>
     \<not> task_conflict t u \<and> \<not> type_conflict t u \<and> \<not> id_conflict t u"
  unfolding task_conflict_def type_conflict_def id_conflict_def IsSpecification_iff by auto

lemma IsCompleteSpecification_Some:
  "IsCompleteSpecification p n = Some True \<longleftrightarrow> complete_name n \<and> IsSpecification p n"
  by (cases "complete_name n") (simp_all add: IsCompleteSpecification_eq, simp add: IsCompleteSpecification_def)

lemma softened_no_conflict:
  "task_conflict (softened t u t) (softened t u u) \<longleftrightarrow> task_conflict t u"
  "\<not> type_conflict (softened t u t) (softened t u u)"
  "\<not> id_conflict (softened t u t) (softened t u u)"
  by (simp_all add: softened_def without_device_def without_id_def task_conflict_def type_conflict_def id_conflict_def)

text \<open>
  C25: Merging two specifications gives their weakest common specification, and an error exactly
  when they have none; it is the same for complete names. With soft placement conflicting types
  give up the device and conflicting ids the id, and the merge fails only for conflicting jobs,
  replicas or tasks.
\<close>

theorem merge_dev_names:
  "(fst (MergeDevNames t u False) = None \<longleftrightarrow> (\<exists>q. IsSpecification t q \<and> IsSpecification u q)) \<and>
   (fst (MergeDevNames t u False) = None \<longleftrightarrow>
      (\<exists>n. IsCompleteSpecification t n = Some True \<and> IsCompleteSpecification u n = Some True)) \<and>
   (fst (MergeDevNames t u False) = None \<longrightarrow>
      (\<forall>q. IsSpecification (snd (MergeDevNames t u False)) q \<longleftrightarrow> IsSpecification t q \<and> IsSpecification u q)) \<and>
   (fst (MergeDevNames t u True) = None \<longleftrightarrow>
      (\<exists>q. IsSpecification (without_device t) q \<and> IsSpecification (without_device u) q)) \<and>
   (fst (MergeDevNames t u True) = None \<longrightarrow>
      MergeDevNames t u True = MergeDevNames (softened t u t) (softened t u u) False)"
proof (intro conjI impI allI)
  let ?ok = "\<not> task_conflict t u \<and> \<not> type_conflict t u \<and> \<not> id_conflict t u"
  have hard: "fst (MergeDevNames t u False) = None \<longleftrightarrow> ?ok" by (simp add: MergeDevNames_status)
  have join: "IsSpecification (joined t u) q \<longleftrightarrow> IsSpecification t q \<and> IsSpecification u q" if ?ok for q
    using that by (rule joined_specification)
  have ok: ?ok if "IsSpecification t q" "IsSpecification u q" for q
    using that by (rule common_specification)
  show "fst (MergeDevNames t u False) = None \<longleftrightarrow> (\<exists>q. IsSpecification t q \<and> IsSpecification u q)"
    using hard join [of "joined t u"] IsSpecification_refl ok by blast
  show "fst (MergeDevNames t u False) = None \<longleftrightarrow>
      (\<exists>n. IsCompleteSpecification t n = Some True \<and> IsCompleteSpecification u n = Some True)"
    using hard join [of "completed (joined t u)"] completed_specification [of "joined t u"] ok
      IsCompleteSpecification_Some by blast
  show "IsSpecification (snd (MergeDevNames t u False)) q \<longleftrightarrow> IsSpecification t q \<and> IsSpecification u q"
    if "fst (MergeDevNames t u False) = None" for q
    using that hard join [of q] MergeDevNames_result [of t u False] by (simp add: softened_def)
  have "\<not> type_conflict (without_device t) (without_device u)" "\<not> id_conflict (without_device t) (without_device u)"
    "task_conflict (without_device t) (without_device u) \<longleftrightarrow> task_conflict t u"
    by (simp_all add: without_device_def type_conflict_def id_conflict_def task_conflict_def)
  then show "fst (MergeDevNames t u True) = None \<longleftrightarrow>
      (\<exists>q. IsSpecification (without_device t) q \<and> IsSpecification (without_device u) q)"
    using MergeDevNames_status [of t u True] joined_specification [of "without_device t" "without_device u"]
      common_specification [of "without_device t" _ "without_device u"] IsSpecification_refl
    by (metis option.distinct(1))
  show "MergeDevNames t u True = MergeDevNames (softened t u t) (softened t u u) False"
    if "fst (MergeDevNames t u True) = None"
  proof -
    have "\<not> task_conflict t u" using that by (auto simp: MergeDevNames_status split: if_splits)
    moreover note soft = softened_no_conflict [of t u]
    ultimately have "snd (MergeDevNames t u True) = joined (softened t u t) (softened t u u)"
      "MergeDevNames (softened t u t) (softened t u u) False = (None, joined (softened t u t) (softened t u u))"
      using MergeDevNames_result [of t u True]
        MergeDevNames_result [of "softened t u t" "softened t u u" False]
        MergeDevNames_status [of "softened t u t" "softened t u u" False]
      by (auto simp: softened_def [of "softened t u t" "softened t u u"] prod_eq_iff)
    then show ?thesis using that by (simp add: prod_eq_iff)
  qed
qed

theorem merge_dev_names_witness:
  "\<exists>t u q. fst (MergeDevNames t u False) = None \<and> IsSpecification t q \<and> IsSpecification u q \<and> q \<noteq> t \<and> q \<noteq> u"
proof -
  let ?t = "cleared\<lparr>has_job := True, job := ''w''\<rparr>" and ?u = "cleared\<lparr>has_task := True, task := 3\<rparr>"
  have ok: "fst (MergeDevNames ?t ?u False) = None" by code_simp
  have "IsSpecification (snd (MergeDevNames ?t ?u False)) (joined ?t ?u)" by code_simp
  then have "IsSpecification ?t (joined ?t ?u) \<and> IsSpecification ?u (joined ?t ?u)"
    using merge_dev_names [of ?t ?u] ok by blast
  moreover have "joined ?t ?u \<noteq> ?t" "joined ?t ?u \<noteq> ?u"
    by (simp_all add: joined_def cleared_def)
  ultimately show ?thesis using ok by blast
qed

section \<open>Compatible names\<close>

text \<open>
  Names that \<open>AreCompatibleDevNames\<close> accepts have a complete name that specifies both, as
  its comment says, but the comment's converse does not hold: the code only asks whether one of
  the names specifies the other. \<open>/job:w\<close> and \<open>/task:3\<close> merge, and a complete name specifies
  both, yet they are reported as incompatible.
\<close>

theorem compatible_dev_names:
  "(AreCompatibleDevNames a b \<longrightarrow>
     (\<exists>n. IsCompleteSpecification a n = Some True \<and> IsCompleteSpecification b n = Some True)) \<and>
   (\<exists>a b n. ParseFullName ''/job:w'' = Some a \<and> ParseFullName ''/task:3'' = Some b \<and>
     ParseFullName ''/job:w/replica:0/task:3/gpu:1'' = Some n \<and>
     IsCompleteSpecification a n = Some True \<and> IsCompleteSpecification b n = Some True \<and>
     fst (MergeDevNames a b False) = None \<and> \<not> AreCompatibleDevNames a b)"
proof
  show "AreCompatibleDevNames a b \<longrightarrow>
     (\<exists>n. IsCompleteSpecification a n = Some True \<and> IsCompleteSpecification b n = Some True)"
    using completed_specification IsSpecification_trans IsCompleteSpecification_Some
    unfolding AreCompatibleDevNames_def by blast
  have "number_ok ''3''" "number_ok ''0''" "number_ok ''1''" "IsJobName ''w''"
    by (simp_all add: number_ok_def isdigit_def between_def digit_def IsJobName_def IsAlpha_def)
  then have "parse_loop ''/job:w'' cleared = Some (fold comp_apply [CJob (Some ''w'')] cleared)"
    "parse_loop ''/task:3'' cleared = Some (fold comp_apply [CTask (Some ''3'')] cleared)"
    "parse_loop ''/job:w/replica:0/task:3/gpu:1'' cleared = Some (fold comp_apply
      [CJob (Some ''w''), CReplica (Some ''0''), CTask (Some ''3''), CGpu False (Some ''1'')] cleared)"
    using parse_loop_complete [of "[CJob (Some ''w'')]" cleared]
      parse_loop_complete [of "[CTask (Some ''3'')]" cleared]
      parse_loop_complete [of "[CJob (Some ''w''), CReplica (Some ''0''), CTask (Some ''3''), CGpu False (Some ''1'')]" cleared]
    by (simp_all add: star_def)
  then show "\<exists>a b n. ParseFullName ''/job:w'' = Some a \<and> ParseFullName ''/task:3'' = Some b \<and>
     ParseFullName ''/job:w/replica:0/task:3/gpu:1'' = Some n \<and>
     IsCompleteSpecification a n = Some True \<and> IsCompleteSpecification b n = Some True \<and>
     fst (MergeDevNames a b False) = None \<and> \<not> AreCompatibleDevNames a b"
    by (simp add: ParseFullName_def IsCompleteSpecification_def complete_name_def MergeDevNames_status
        task_conflict_def type_conflict_def id_conflict_def AreCompatibleDevNames_def IsSpecification_def
        cleared_def set_id_def set_type_def)
qed

theorem compatible_dev_names_witness:
  "\<exists>n. IsCompleteSpecification cleared n = Some True \<and> IsCompleteSpecification cleared n = Some True"
  using compatible_dev_names [of cleared cleared] by (simp add: AreCompatibleDevNames_def IsSpecification_refl)

section \<open>Parsed names are well-formed\<close>

definition wf_name :: "parsed_name \<Rightarrow> bool" where
  "wf_name p \<longleftrightarrow> (has_job p \<longrightarrow> IsJobName (job p)) \<and> (has_type p \<longrightarrow> IsJobName (dev_type p))"

lemma comp_apply_wf: "comp_valid c \<Longrightarrow> wf_name p \<Longrightarrow> wf_name (comp_apply c p)"
  by (cases c) (auto simp: wf_name_def set_id_def set_type_def IsJobName_def IsAlphaNum_def IsAlpha_def between_def
      split: option.splits)

lemma fold_comp_apply_wf: "list_all comp_valid cs \<Longrightarrow> wf_name p \<Longrightarrow> wf_name (fold comp_apply cs p)"
  by (induction cs arbitrary: p) (auto simp: comp_apply_wf)

lemma ParseFullName_wf: "ParseFullName s = Some p \<Longrightarrow> wf_name p"
  using parse_loop_sound [of s cleared p] fold_comp_apply_wf [of _ cleared]
  by (auto simp: ParseFullName_def wf_name_def cleared_def split: if_splits)

lemma number_ok_digits: "n < 2 ^ 64 \<Longrightarrow> number_ok (rev (digits_loop n)) \<and> number (rev (digits_loop n)) = of_nat n"
  using digits_loop_isdigit [of n] digits_loop_not_Nil [of n]
  by (simp add: number_ok_def number_def digits_loop_value)

text \<open>
  The job and the type of every name that parses are proper identifiers. The numbers are not
  checked: the value of any 64-bit decimal number is cut to 32 bits, so that for instance a
  replica of \<open>4294967295\<close> is accepted as \<open>-1\<close>, which \<open>FullName\<close> would refuse to print.
\<close>

theorem parsed_name_typed:
  "(ParseFullName s = Some p \<longrightarrow> wf_name p) \<and>
   ParseFullName (''/replica:'' @ FastUInt64ToBufferLeft v) =
     Some (cleared\<lparr>has_replica := True, replica := ucast v\<rparr>)"
proof (intro conjI impI)
  show "ParseFullName s = Some p \<Longrightarrow> wf_name p" by (rule ParseFullName_wf)
  have "number_ok (FastUInt64ToBufferLeft v)" "number (FastUInt64ToBufferLeft v) = ucast v"
    using number_ok_digits [of "unat v"] unat_less_exp [of v] ucast_of_nat_32 [of "unat v"]
    by (simp_all add: FastUInt64ToBufferLeft_def)
  then show "ParseFullName (''/replica:'' @ FastUInt64ToBufferLeft v) =
     Some (cleared\<lparr>has_replica := True, replica := ucast v\<rparr>)"
    using parse_loop_complete [of "[CReplica (Some (FastUInt64ToBufferLeft v))]" cleared]
    by (simp add: ParseFullName_def star_def)
qed

theorem parsed_name_typed_witness:
  "\<exists>p. ParseFullName (''/replica:'' @ FastUInt64ToBufferLeft 4294967295) = Some p \<and> wf_name p \<and> sint (replica p) = -1"
  using parsed_name_typed [of "''/replica:'' @ FastUInt64ToBufferLeft 4294967295"
      "cleared\<lparr>has_replica := True, replica := ucast (4294967295 :: uint64)\<rparr>" 4294967295]
  by simp

section \<open>Printed names are read back\<close>

lemma FastInt32_number:
  assumes "0 \<le> sint i"
  shows "number_ok (FastInt32ToBufferLeft i)" "number (FastInt32ToBufferLeft i) = i"
proof -
  have "unat i < 2 ^ 64" using unat_less_exp [of i] by simp
  then show "number_ok (FastInt32ToBufferLeft i)" "number (FastInt32ToBufferLeft i) = i"
    using assms number_ok_digits [of "unat i"]
    by (simp_all add: FastInt32ToBufferLeft_def FastUInt32ToBufferLeft_def)
qed

lemma ParseFullName_components:
  "list_all comp_valid cs \<Longrightarrow> ParseFullName (names_text cs) = Some (fold comp_apply cs cleared)"
  using names_text_not_slash [of cs] parse_loop_complete [of cs cleared] by (simp add: ParseFullName_def)

lemma ParseFullName_FullName:
  assumes "FullName j r t ty i = Some s" "IsJobName ty"
  shows "ParseFullName s = Some \<lparr>has_job = True, job = j, has_replica = True, replica = r, has_task = True,
    task = t, has_type = True, dev_type = ty, has_id = True, dev_id = i\<rparr>"
proof -
  have chk: "IsJobName j" "0 \<le> sint r" "0 \<le> sint t" "0 \<le> sint i"
    and s: "s = names_text [CJob (Some j), CReplica (Some (FastInt32ToBufferLeft r)),
      CTask (Some (FastInt32ToBufferLeft t)), CDevice (Some ty) (Some (Some (FastInt32ToBufferLeft i)))]"
    using assms(1) by (auto simp: FullName_def star_def split: if_splits)
  show ?thesis
    unfolding s
    by (subst ParseFullName_components)
      (simp_all add: chk assms(2) FastInt32_number cleared_def set_id_def set_type_def)
qed

lemma ParseLocalName_LocalName:
  assumes "IsJobName ty" "0 \<le> sint i"
  shows "ParseLocalName (LocalName ty i) p = Some (p\<lparr>dev_type := ty, dev_id := i\<rparr>)"
proof -
  have "ConsumeDeviceType (LocalName ty i) = Some (ty, '':'' @ FastInt32ToBufferLeft i)"
    using type_text.consume_complete [OF assms(1)] by (simp add: LocalName_def at_end_def)
  moreover have "ConsumeNumber (FastInt32ToBufferLeft i) = Some (i, [])"
    using number_text.consume_complete [OF FastInt32_number(1) [OF assms(2)], of "[]"] FastInt32_number(2) [OF assms(2)]
    by (simp add: at_end_def)
  ultimately show ?thesis by (simp add: ParseLocalName_def ConsumePrefix_colon)
qed

text \<open>
  A full name that \<open>FullName\<close> prints, with a type that is an identifier, is parsed back into
  its five components. It is split into its task and its local name, and the local name is parsed
  back too. Two such names are in the same address space exactly when job, replica and task
  agree.
\<close>

theorem device_name_roundtrip:
  assumes "FullName j r t ty i = Some s" "IsJobName ty"
    and "FullName j' r' t' ty' i' = Some s'" "IsJobName ty'"
  shows "ParseFullName s = Some \<lparr>has_job = True, job = j, has_replica = True, replica = r, has_task = True,
      task = t, has_type = True, dev_type = ty, has_id = True, dev_id = i\<rparr> \<and>
    SplitDeviceName s = Some (''/job:'' @ j @ ''/replica:'' @ FastInt32ToBufferLeft r @ ''/task:'' @
      FastInt32ToBufferLeft t, LocalName ty i) \<and>
    LocalName_text s = Some (LocalName ty i) \<and>
    ParseLocalName (LocalName ty i) p = Some (p\<lparr>dev_type := ty, dev_id := i\<rparr>) \<and>
    (IsSameAddressSpace_text s s' \<longleftrightarrow> j = j' \<and> r = r' \<and> t = t')"
proof -
  have "0 \<le> sint i" using assms(1) by (auto simp: FullName_def split: if_splits)
  then show ?thesis
    using ParseFullName_FullName [OF assms(1,2)] ParseFullName_FullName [OF assms(3,4)]
      ParseLocalName_LocalName [OF assms(2), of i p]
    by (simp add: SplitDeviceName_def LocalName_text_def IsSameAddressSpace_text_def IsSameAddressSpace_def LocalName_def)
qed

theorem device_name_roundtrip_witness:
  "\<exists>s s'. FullName ''worker'' 0 3 ''GPU'' 1 = Some s \<and> FullName ''worker'' 0 4 ''GPU'' 1 = Some s' \<and>
     SplitDeviceName s = Some (''/job:worker/replica:0/task:3'', ''GPU:1'') \<and> \<not> IsSameAddressSpace_text s s'"
proof -
  have names: "IsJobName ''worker''" "IsJobName ''GPU''"
    by (simp_all add: IsJobName_def IsAlphaNum_def IsAlpha_def between_def)
  define s s' where "s = the (FullName ''worker'' 0 3 ''GPU'' 1)" and "s' = the (FullName ''worker'' 0 4 ''GPU'' 1)"
  have eqs: "FullName ''worker'' 0 3 ''GPU'' 1 = Some s" "FullName ''worker'' 0 4 ''GPU'' 1 = Some s'"
    using names by (simp_all add: FullName_def s_def s'_def)
  have digits: "FastInt32ToBufferLeft 0 = ''0''" "FastInt32ToBufferLeft 3 = ''3''" "FastInt32ToBufferLeft 1 = ''1''"
    by code_simp+
  show ?thesis
    using device_name_roundtrip [OF eqs(1) names(2) eqs(2) names(2), of cleared] eqs digits
    by (intro exI [of _ s] exI [of _ s']) (simp add: LocalName_def)
qed

text \<open>
  \<open>ParsedNameToString\<close> writes the type as \<open>/<type>:\<close>, which the parser knows for \<open>CPU\<close> and \<open>GPU\<close>
  only; for those it is parsed back.
\<close>

lemma ParsedNameToString_roundtrip:
  assumes "wf_name p" "has_replica p \<longrightarrow> 0 \<le> sint (replica p)" "has_task p \<longrightarrow> 0 \<le> sint (task p)"
    "has_id p \<longrightarrow> has_type p \<and> 0 \<le> sint (dev_id p)" "has_type p \<longrightarrow> dev_type p = ''CPU'' \<or> dev_type p = ''GPU''"
  shows "\<exists>q. ParseFullName (ParsedNameToString p) = Some q \<and> same_name p q"
proof -
  let ?i = "if has_id p then Some (FastInt32ToBufferLeft (dev_id p)) else None"
  let ?cs = "(if has_job p then [CJob (Some (job p))] else []) @
    (if has_replica p then [CReplica (Some (FastInt32ToBufferLeft (replica p)))] else []) @
    (if has_task p then [CTask (Some (FastInt32ToBufferLeft (task p)))] else []) @
    (if has_type p then [if dev_type p = ''CPU'' then CCpu True ?i else CGpu True ?i] else [])"
  have valid: "list_all comp_valid ?cs"
    using assms by (auto simp: wf_name_def FastInt32_number)
  have "ParsedNameToString p = names_text ?cs"
    using assms by (auto simp: ParsedNameToString_def star_def)
  moreover have "same_name p (fold comp_apply ?cs cleared)"
    using assms by (auto simp: same_name_def cleared_def set_id_def set_type_def FastInt32_number)
  ultimately show ?thesis using ParseFullName_components [OF valid] by auto
qed

end
