(* ===== verification/Rendezvous_Key.thy ===== *)
theory Rendezvous_Key
  imports Device_Specs
begin

text \<open>
  The textual keys under which tensors are exchanged: \<open>CreateKey\<close>, \<open>ParseKey\<close> and the copying
  of parsed keys in \<open>framework/rendezvous.cc\<close>.

  A parsed key owns a copy of its text and has pieces that point into it. A piece is the address
  of its first character and its length; \<open>key_base\<close> is the address of the key's buffer.
\<close>

section \<open>Keys\<close>

record frame_and_iter =
  frame_id :: uint64
  iter_id :: "64 word"

type_synonym piece = "int \<times> nat"

record parsed_key =
  key_base :: int
  key_buf :: string
  src_device :: piece
  src :: parsed_name
  src_incarnation :: uint64
  dst_device :: piece
  dst :: parsed_name
  edge_name :: piece

definition piece_text :: "parsed_key \<Rightarrow> piece \<Rightarrow> string" where
  "piece_text k p = take (snd p) (drop (nat (fst p - key_base k)) (key_buf k))"

definition FullKey :: "parsed_key \<Rightarrow> string" where
  "FullKey k = key_buf k"

definition CreateKey :: "string \<Rightarrow> uint64 \<Rightarrow> string \<Rightarrow> string \<Rightarrow> frame_and_iter \<Rightarrow> string" where
  "CreateKey src_dev incarnation dst_dev name frame_iter =
     src_dev @ '';'' @ Uint64ToHexString incarnation @ '';'' @ dst_dev @ '';'' @ name @ '';'' @
     FastUInt64ToBufferLeft (frame_id frame_iter) @ '':'' @ FastInt64ToBufferLeft (iter_id frame_iter)"

text \<open>The piece up to the delimiter and what follows it; both with their addresses.\<close>

fun next_part :: "nat \<Rightarrow> char \<Rightarrow> string \<Rightarrow> nat option" where
  "next_part offset delim [] = None"
| "next_part offset delim (c # s) = (if c = delim then Some offset else next_part (offset + 1) delim s)"

definition ConsumeNextPart :: "char \<Rightarrow> int \<times> string \<Rightarrow> (int \<times> string) \<times> (int \<times> string)" where
  "ConsumeNextPart delim s =
     (case next_part 0 delim (snd s) of
        Some offset \<Rightarrow> ((fst s, take offset (snd s)),
                        (fst s + int offset + 1, drop (offset + 1) (snd s)))
      | None \<Rightarrow> (s, (fst s + int (length (snd s)), [])))"

definition as_piece :: "int \<times> string \<Rightarrow> piece" where
  "as_piece p = (fst p, length (snd p))"

definition ParseKey :: "int \<Rightarrow> string \<Rightarrow> parsed_key status" where
  "ParseKey base key =
     (let s = (base, key);
          (part0, s) = ConsumeNextPart CHR '';'' s;
          (part1, s) = ConsumeNextPart CHR '';'' s;
          (part2, s) = ConsumeNextPart CHR '';'' s;
          (part3, s) = ConsumeNextPart CHR '';'' s;
          (part4, s) = ConsumeNextPart CHR '';'' s
      in if snd s = [] \<and> snd part4 \<noteq> [] then
           case ParseFullName (snd part0) of None \<Rightarrow> Inl INVALID_ARGUMENT | Some a \<Rightarrow>
           case HexStringToUint64 (snd part1) of None \<Rightarrow> Inl INVALID_ARGUMENT | Some i \<Rightarrow>
           case ParseFullName (snd part2) of None \<Rightarrow> Inl INVALID_ARGUMENT | Some b \<Rightarrow>
             if snd part3 \<noteq> [] then
               Inr \<lparr>key_base = base, key_buf = key, src_device = as_piece part0, src = a, src_incarnation = i,
                    dst_device = as_piece part2, dst = b, edge_name = as_piece part3\<rparr>
             else Inl INVALID_ARGUMENT
         else Inl INVALID_ARGUMENT)"

text \<open>\<open>operator=\<close>: the pieces of the copy point into the copy's buffer, at the address \<open>base\<close>.\<close>

definition copy_piece :: "int \<Rightarrow> int \<Rightarrow> piece \<Rightarrow> piece" where
  "copy_piece base b_base p = (base + (fst p - b_base), snd p)"

definition assign_key :: "int \<Rightarrow> parsed_key \<Rightarrow> parsed_key" where
  "assign_key base b =
     \<lparr>key_base = base, key_buf = key_buf b, src_device = copy_piece base (key_base b) (src_device b), src = src b,
      src_incarnation = src_incarnation b, dst_device = copy_piece base (key_base b) (dst_device b),
      dst = dst b, edge_name = copy_piece base (key_base b) (edge_name b)\<rparr>"

section \<open>Parts\<close>

lemma next_part_append:
  "d \<notin> set s \<Longrightarrow> next_part n d (s @ d # r) = Some (n + length s)"
  by (induction s arbitrary: n) auto

lemma next_part_None: "d \<notin> set s \<Longrightarrow> next_part n d s = None"
  by (induction s arbitrary: n) auto

lemma ConsumeNextPart_append:
  assumes "d \<notin> set s"
  shows "ConsumeNextPart d (a, s @ d # r) = ((a, s), (a + int (length s) + 1, r))"
  using assms by (simp add: ConsumeNextPart_def next_part_append)

lemma ConsumeNextPart_last:
  assumes "d \<notin> set s"
  shows "ConsumeNextPart d (a, s) = ((a, s), (a + int (length s), []))"
  using assms by (simp add: ConsumeNextPart_def next_part_None)

lemma IsJobName_chars: "IsJobName n \<Longrightarrow> c \<in> set n \<Longrightarrow> IsAlphaNum c \<or> c = CHR ''_''"
  by (cases n) (auto simp: IsJobName_def IsAlphaNum_def list_all_iff)

lemma text_no_semicolon:
  "IsJobName n \<Longrightarrow> CHR '';'' \<notin> set n"
  "list_all isdigit ds \<Longrightarrow> CHR '';'' \<notin> set ds"
  "list_all isdigit ds \<Longrightarrow> CHR '':'' \<notin> set ds"
  by (auto dest: IsJobName_chars simp: IsAlphaNum_def IsAlpha_def isdigit_def between_def list_all_iff)

lemma comp_text_no_semicolon: "comp_valid c \<Longrightarrow> CHR '';'' \<notin> set (comp_text c)"
  by (cases c) (auto simp: star_def number_ok_def text_no_semicolon split: option.splits)

lemma names_text_no_semicolon: "list_all comp_valid cs \<Longrightarrow> CHR '';'' \<notin> set (names_text cs)"
  by (induction cs) (auto simp: comp_text_no_semicolon)

lemma ParseFullName_no_semicolon: "ParseFullName s = Some p \<Longrightarrow> CHR '';'' \<notin> set s"
  using parse_loop_sound [of s cleared p] names_text_no_semicolon
  by (auto simp: ParseFullName_def split: if_splits)

lemma hex_loop_set: "set (hex_loop n v s) \<subseteq> set hexdigits \<union> set s"
proof (induction n arbitrary: v s)
  case (Suc n)
  have "unat (v AND 0xf) < 16"
    using word_and_le1 [of v "0xf"] by (simp add: word_le_nat_alt)
  then have "hexdigits ! unat (v AND 0xf) \<in> set hexdigits" by (intro nth_mem) (simp add: hexdigits_def)
  then show ?case using Suc [of "drop_bit 4 v" "hexdigits ! unat (v AND 0xf) # s"] by auto
qed simp

lemma Hex_no_semicolon: "CHR '';'' \<notin> set (Uint64ToHexString v)"
  using hex_loop_set [of 16 v "[]"] by (auto simp: Uint64ToHexString_def hexdigits_def)

lemma number_no_semicolon:
  "CHR '';'' \<notin> set (FastUInt64ToBufferLeft v)" "CHR '':'' \<notin> set (FastUInt64ToBufferLeft v)"
  "CHR '';'' \<notin> set (FastInt64ToBufferLeft i)"
  using text_no_semicolon(2,3) [OF digits_loop_isdigit]
  by (simp_all add: FastUInt64ToBufferLeft_def FastInt64ToBufferLeft_def)

section \<open>Keys are read back\<close>

definition frame_text :: "frame_and_iter \<Rightarrow> string" where
  "frame_text f = FastUInt64ToBufferLeft (frame_id f) @ '':'' @ FastInt64ToBufferLeft (iter_id f)"

lemma frame_text_no_semicolon: "CHR '';'' \<notin> set (frame_text f)" "frame_text f \<noteq> []"
  using number_no_semicolon by (simp_all add: frame_text_def)

lemma CreateKey_parts:
  "CreateKey s i d n f = s @ CHR '';'' # Uint64ToHexString i @ CHR '';'' # d @ CHR '';'' # n @ CHR '';'' # frame_text f"
  by (simp add: CreateKey_def frame_text_def)

lemma FastUInt64_inject: "FastUInt64ToBufferLeft v = FastUInt64ToBufferLeft w \<longleftrightarrow> v = w"
  by (metis FastUInt64ToBufferLeft_def digits_loop_value word_unat_eq_iff)

lemma FastInt64_inject: "FastInt64ToBufferLeft v = FastInt64ToBufferLeft w \<longleftrightarrow> v = w"
  by (metis decimal_FastInt64 option.inject signed_word_eqI)

lemma Hex_inject: "Uint64ToHexString v = Uint64ToHexString w \<longleftrightarrow> v = w"
  by (metis Hex_roundtrip option.inject)

lemma split_delim:
  assumes "d \<notin> set xs" "d \<notin> set ys"
  shows "xs @ d # r = ys @ d # r' \<longleftrightarrow> xs = ys \<and> r = r'"
proof
  assume eq: "xs @ d # r = ys @ d # r'"
  have "takeWhile (\<lambda>c. c \<noteq> d) (xs @ d # r) = xs" "takeWhile (\<lambda>c. c \<noteq> d) (ys @ d # r') = ys"
    using assms by (auto simp: takeWhile_append)
  with eq show "xs = ys \<and> r = r'" by auto
qed simp

lemma frame_text_inject: "frame_text f = frame_text g \<longleftrightarrow> f = g"
  using number_no_semicolon(2)
  by (cases f; cases g) (simp add: frame_text_def split_delim FastUInt64_inject FastInt64_inject)

lemma ConsumeNextPart_rest:
  assumes "ConsumeNextPart d (a, s @ d # r) = (p, t)" "r \<noteq> []"
  shows "snd t \<noteq> []"
proof (cases "d \<in> set s")
  case True
  then obtain u v where "s = u @ d # v" "d \<notin> set u" by (meson split_list_first)
  then show ?thesis using assms ConsumeNextPart_append [of d u a "v @ d # r"] by auto
next
  case False
  then show ?thesis using assms by (auto simp: ConsumeNextPart_append)
qed

lemma ParseKey_ok:
  assumes "ParseFullName s = Some a" "ParseFullName d = Some b" "n \<noteq> []" "CHR '';'' \<notin> set n"
  shows "ParseKey base (CreateKey s i d n f) =
    Inr \<lparr>key_base = base, key_buf = CreateKey s i d n f, src_device = (base, length s), src = a,
      src_incarnation = i, dst_device = (base + int (length s) + 18, length d), dst = b,
      edge_name = (base + int (length s) + int (length d) + 19, length n)\<rparr>"
proof -
  have "length (Uint64ToHexString i) = 16" by (simp add: Uint64ToHexString_def)
  then show ?thesis
    using assms ParseFullName_no_semicolon [OF assms(1)] ParseFullName_no_semicolon [OF assms(2)]
    by (simp add: ParseKey_def CreateKey_parts Let_def ConsumeNextPart_append Hex_no_semicolon
        ConsumeNextPart_last frame_text_no_semicolon Hex_roundtrip as_piece_def)
qed

lemma ParseKey_bad_name:
  assumes "ParseFullName s = Some a" "ParseFullName d = Some b" "n = [] \<or> CHR '';'' \<in> set n"
  shows "ParseKey base (CreateKey s i d n f) = Inl INVALID_ARGUMENT"
proof (cases "n = []")
  case True
  then show ?thesis
    using assms ParseFullName_no_semicolon [OF assms(1)] ParseFullName_no_semicolon [OF assms(2)]
    using ConsumeNextPart_append [of "CHR '';''" "[]"]
    by (simp add: ParseKey_def CreateKey_parts Let_def ConsumeNextPart_append Hex_no_semicolon
        ConsumeNextPart_last frame_text_no_semicolon Hex_roundtrip)
next
  case False
  then obtain u v where n: "n = u @ CHR '';'' # v" "CHR '';'' \<notin> set u"
    using assms(3) by (meson split_list_first)
  show ?thesis
    using ParseFullName_no_semicolon [OF assms(1)] ParseFullName_no_semicolon [OF assms(2)] n(2)
    by (auto simp: ParseKey_def CreateKey_parts n(1) Let_def ConsumeNextPart_append Hex_no_semicolon
        split: prod.split dest: ConsumeNextPart_rest [OF _ frame_text_no_semicolon(2)])
qed

text \<open>
  C26: A key created for devices whose names parse is accepted by \<open>ParseKey\<close> exactly when the
  tensor's name is not empty and has no semicolon; the parsed key then has the parsed devices,
  the incarnation, and pieces that read as the device names and the name. A copy of it, wherever
  its buffer is, has pieces that point into its own buffer and read the same.
\<close>

theorem rendezvous_key_roundtrip:
  assumes "ParseFullName s = Some a" "ParseFullName d = Some b"
  shows "if n = [] \<or> CHR '';'' \<in> set n
    then ParseKey base (CreateKey s i d n f) = Inl INVALID_ARGUMENT
    else (\<exists>k. ParseKey base (CreateKey s i d n f) = Inr k \<and>
      FullKey k = CreateKey s i d n f \<and> src k = a \<and> src_incarnation k = i \<and> dst k = b \<and>
      piece_text k (src_device k) = s \<and> piece_text k (dst_device k) = d \<and> piece_text k (edge_name k) = n \<and>
      FullKey (assign_key base' k) = FullKey k \<and>
      piece_text (assign_key base' k) (src_device (assign_key base' k)) = s \<and>
      piece_text (assign_key base' k) (dst_device (assign_key base' k)) = d \<and>
      piece_text (assign_key base' k) (edge_name (assign_key base' k)) = n)"
proof (cases "n = [] \<or> CHR '';'' \<in> set n")
  case True
  then show ?thesis using ParseKey_bad_name [OF assms True] by simp
next
  case False
  have len: "length (Uint64ToHexString i) = 16" by (simp add: Uint64ToHexString_def)
  have offsets: "nat (int (length s) + 18) = length s + 18"
    "nat (int (length s) + int (length d) + 19) = length s + length d + 19" by linarith+
  have texts: "take (length s) (CreateKey s i d n f) = s"
    "take (length d) (drop (length s + 18) (CreateKey s i d n f)) = d"
    "take (length n) (drop (length s + length d + 19) (CreateKey s i d n f)) = n"
  proof -
    have key: "CreateKey s i d n f = (s @ '';'' @ Uint64ToHexString i @ '';'') @ d @ '';'' @ n @ '';'' @ frame_text f"
      "CreateKey s i d n f = (s @ '';'' @ Uint64ToHexString i @ '';'' @ d @ '';'') @ n @ '';'' @ frame_text f"
      by (simp_all add: CreateKey_parts)
    show "take (length s) (CreateKey s i d n f) = s" by (simp add: CreateKey_parts)
    show "take (length d) (drop (length s + 18) (CreateKey s i d n f)) = d"
      unfolding key(1) by (subst drop_append_exact) (simp_all add: len)
    show "take (length n) (drop (length s + length d + 19) (CreateKey s i d n f)) = n"
      unfolding key(2) by (subst drop_append_exact) (simp_all add: len)
  qed
  show ?thesis
    using False ParseKey_ok [OF assms, of n base i f] offsets texts
    by (auto simp: FullKey_def piece_text_def assign_key_def copy_piece_def add.assoc)
qed

theorem rendezvous_key_roundtrip_witness:
  "\<exists>k. ParseKey 4096 (CreateKey ''/job:w/task:1'' 7 ''/cpu:0'' ''edge_1_x'' \<lparr>frame_id = 0, iter_id = 0\<rparr>) = Inr k \<and>
     piece_text (assign_key 8192 k) (edge_name (assign_key 8192 k)) = ''edge_1_x''"
proof -
  have "number_ok ''1''" "number_ok ''0''" "IsJobName ''w''"
    by (simp_all add: number_ok_def isdigit_def between_def digit_def IsJobName_def IsAlpha_def)
  then have "list_all comp_valid [CJob (Some ''w''), CTask (Some ''1'')]" "list_all comp_valid [CCpu False (Some ''0'')]"
    by simp_all
  from this [THEN ParseFullName_components] obtain a b
    where ab: "ParseFullName ''/job:w/task:1'' = Some a" "ParseFullName ''/cpu:0'' = Some b"
    by (simp add: star_def)
  have "\<not> (''edge_1_x'' = [] \<or> CHR '';'' \<in> set ''edge_1_x'')" by simp
  then show ?thesis
    using rendezvous_key_roundtrip [OF ab, of "''edge_1_x''" 4096 7 "\<lparr>frame_id = 0, iter_id = 0\<rparr>" 8192]
    by metis
qed

text \<open>
  Different messages have different keys: two keys created from devices whose names parse and
  names without a semicolon are equal only if the devices, the incarnation, the name, the frame
  and the iteration are all equal.
\<close>

theorem create_key_injective:
  assumes "ParseFullName s \<noteq> None" "ParseFullName d \<noteq> None" "CHR '';'' \<notin> set n"
    and "ParseFullName s' \<noteq> None" "ParseFullName d' \<noteq> None" "CHR '';'' \<notin> set n'"
  shows "CreateKey s i d n f = CreateKey s' i' d' n' f' \<longleftrightarrow> s = s' \<and> i = i' \<and> d = d' \<and> n = n' \<and> f = f'"
proof -
  have "CHR '';'' \<notin> set s" "CHR '';'' \<notin> set d" "CHR '';'' \<notin> set s'" "CHR '';'' \<notin> set d'"
    using assms ParseFullName_no_semicolon by blast+
  then show ?thesis
    using assms(3,6)
    by (simp add: CreateKey_parts split_delim Hex_no_semicolon Hex_inject frame_text_inject)
qed

theorem create_key_injective_witness:
  "CreateKey ''/'' 1 ''/'' ''x'' \<lparr>frame_id = 0, iter_id = 0\<rparr> \<noteq> CreateKey ''/'' 1 ''/'' ''x'' \<lparr>frame_id = 0, iter_id = 1\<rparr>"
proof -
  have "ParseFullName ''/'' \<noteq> None" "CHR '';'' \<notin> set ''x''" by (simp_all add: ParseFullName_def)
  then show ?thesis
    using create_key_injective [of "''/''" "''/''" "''x''" "''/''" "''/''" "''x''" 1 "\<lparr>frame_id = 0, iter_id = 0\<rparr>" 1
        "\<lparr>frame_id = 0, iter_id = 1\<rparr>"] by simp
qed

end
