(* ===== verification/Tensor_Shape.thy ===== *)
theory Tensor_Shape
  imports Prelude
begin

text \<open>
  Tensor shapes: \<open>framework/tensor_shape.cc\<close> and \<open>.h\<close>.

  A shape keeps its sizes in one of three representations: six 16-bit slots, three 32-bit slots,
  or a vector out of line. Slots from the number of dimensions on hold leftovers that are never
  read. A failed \<open>CHECK\<close>, which ends the process, is \<open>None\<close>. Sizes are \<open>int64\<close>; a product of
  sizes wraps around. Copying a shape is the identity on these values.
\<close>

section \<open>The representation\<close>

datatype rep =
    REP16 "16 word list"
  | REP32 "32 word list"
  | REP_OUT_OF_LINE "int list"

record tensor_shape =
  shape_rep :: rep
  ndims_byte :: uint8
  data_type :: uint8
  n_elements :: int

definition kMaxElements :: int where "kMaxElements = 2 ^ 40"
definition kMaxRep16 :: int where "kMaxRep16 = 32768"
definition kMaxRep32 :: int where "kMaxRep32 = 2 ^ 31 - 1"
definition MaxDimensions :: nat where "MaxDimensions = 255"
definition DT_INVALID :: uint8 where "DT_INVALID = 0"

definition empty_shape :: tensor_shape where
  "empty_shape = \<lparr>shape_rep = REP16 (replicate 6 0), ndims_byte = 0, data_type = DT_INVALID, n_elements = 1\<rparr>"

definition dims :: "tensor_shape \<Rightarrow> nat" where
  "dims s = unat (ndims_byte s)"

definition dim_size :: "tensor_shape \<Rightarrow> nat \<Rightarrow> int" where
  "dim_size s d = (case shape_rep s of
      REP16 v \<Rightarrow> sint (v ! d)
    | REP32 v \<Rightarrow> sint (v ! d)
    | REP_OUT_OF_LINE v \<Rightarrow> v ! d)"

definition num_elements :: "tensor_shape \<Rightarrow> int" where
  "num_elements s = n_elements s"

definition AppendTo :: "tensor_shape \<Rightarrow> int list \<Rightarrow> int list" where
  "AppendTo s vals = vals @ map (dim_size s) [0..<dims s]"

definition dim_sizes :: "tensor_shape \<Rightarrow> int list" where
  "dim_sizes s = map (dim_size s) [0..<dims s]"

definition ClearAllButDataType :: "tensor_shape \<Rightarrow> tensor_shape" where
  "ClearAllButDataType s =
     s\<lparr>shape_rep := REP16 (replicate 6 0), ndims_byte := 0, n_elements := 1\<rparr>"

definition Clear_shape :: "tensor_shape \<Rightarrow> tensor_shape" where
  "Clear_shape s = (ClearAllButDataType s)\<lparr>data_type := DT_INVALID\<rparr>"

section \<open>Operations\<close>

definition add_to_rep :: "tensor_shape \<Rightarrow> nat \<Rightarrow> int \<Rightarrow> rep" where
  "add_to_rep s nd sz =
     (let upgrade =
        (let vals = AppendTo s [] @ [sz];
             can_be_rep32 = (length vals \<le> 3 \<and> list_all (\<lambda>v. \<not> v \<ge> kMaxRep32) vals)
         in if can_be_rep32 then REP32 (map word_of_int vals @ replicate (3 - length vals) 0)
            else REP_OUT_OF_LINE vals)
      in case shape_rep s of
        REP16 v \<Rightarrow> if nd < 6 \<and> sz < kMaxRep16 then REP16 (v[nd := word_of_int sz]) else upgrade
      | REP32 v \<Rightarrow> if nd < 3 \<and> sz < kMaxRep32 then REP32 (v[nd := word_of_int sz]) else upgrade
      | REP_OUT_OF_LINE v \<Rightarrow> REP_OUT_OF_LINE (v @ [sz]))"

definition AddDim :: "int \<Rightarrow> tensor_shape \<Rightarrow> tensor_shape option" where
  "AddDim sz s =
     (if \<not> sz \<ge> 0 then None
      else let nd = dims s in
      if \<not> nd < MaxDimensions then None
      else let n = wrap64 (n_elements s * sz) in
      if 0 \<le> n \<and> n \<le> kMaxElements
      then Some (s\<lparr>shape_rep := add_to_rep s nd sz, ndims_byte := of_nat (nd + 1), n_elements := n\<rparr>)
      else None)"

text \<open>A loop that adds sizes one after the other.\<close>

fun add_all :: "(int \<Rightarrow> 's \<Rightarrow> 's option) \<Rightarrow> int list \<Rightarrow> 's \<Rightarrow> 's option" where
  "add_all add [] s = Some s"
| "add_all add (v # vals) s = Option.bind (add v s) (add_all add vals)"

definition AddDims :: "int list \<Rightarrow> tensor_shape \<Rightarrow> tensor_shape option" where
  "AddDims = add_all AddDim"

definition AppendShape :: "tensor_shape \<Rightarrow> tensor_shape \<Rightarrow> tensor_shape option" where
  "AppendShape b s = AddDims (dim_sizes b) s"

text \<open>The constructors from sizes; the one from a \<open>TensorShapeProto\<close> has the same loop.\<close>

definition TensorShape :: "int list \<Rightarrow> tensor_shape option" where
  "TensorShape sizes = AddDims sizes empty_shape"

fun recompute_loop :: "int \<Rightarrow> int list \<Rightarrow> int option" where
  "recompute_loop n [] = Some n"
| "recompute_loop n (v # vals) =
     (let n = wrap64 (n * v) in if 0 \<le> n \<and> n \<le> kMaxElements then recompute_loop n vals else None)"

definition RecomputeNumElements :: "tensor_shape \<Rightarrow> tensor_shape option" where
  "RecomputeNumElements s = map_option (\<lambda>n. s\<lparr>n_elements := n\<rparr>) (recompute_loop 1 (dim_sizes s))"

definition InsertDim :: "int \<Rightarrow> int \<Rightarrow> tensor_shape \<Rightarrow> tensor_shape option" where
  "InsertDim d sz s =
     (if \<not> d \<ge> 0 \<or> \<not> d \<le> int (dims s) \<or> \<not> sz \<ge> 0 \<or> \<not> dims s < MaxDimensions then None
      else let vals = AppendTo s []; vals = take (nat d) vals @ sz # drop (nat d) vals
      in AddDims vals (ClearAllButDataType s))"

definition set_dim :: "int \<Rightarrow> int \<Rightarrow> tensor_shape \<Rightarrow> tensor_shape option" where
  "set_dim d sz s =
     (if \<not> d \<ge> 0 \<or> \<not> d < int (dims s) \<or> \<not> sz \<ge> 0 then None
      else let upgrade = AddDims ((AppendTo s [])[nat d := sz]) (ClearAllButDataType s)
      in Option.bind
        (case shape_rep s of
           REP16 v \<Rightarrow> if sz < kMaxRep16 then Some (s\<lparr>shape_rep := REP16 (v[nat d := word_of_int sz])\<rparr>) else upgrade
         | REP32 v \<Rightarrow> if sz < kMaxRep32 then Some (s\<lparr>shape_rep := REP32 (v[nat d := word_of_int sz])\<rparr>) else upgrade
         | REP_OUT_OF_LINE v \<Rightarrow> Some (s\<lparr>shape_rep := REP_OUT_OF_LINE (v[nat d := sz])\<rparr>))
        RecomputeNumElements)"

definition RemoveDim :: "int \<Rightarrow> tensor_shape \<Rightarrow> tensor_shape option" where
  "RemoveDim d s =
     (if \<not> d \<ge> 0 \<or> \<not> d < int (dims s) then None
      else let vals = AppendTo s []; vals = take (nat d) vals @ drop (Suc (nat d)) vals
      in Option.bind (AddDims vals (ClearAllButDataType s)) RecomputeNumElements)"

definition IsSameSize :: "tensor_shape \<Rightarrow> tensor_shape \<Rightarrow> bool" where
  "IsSameSize a b \<longleftrightarrow>
     (if dims b \<noteq> dims a then False else list_all (\<lambda>d. \<not> dim_size a d \<noteq> dim_size b d) [0..<dims a])"

definition StartsWith :: "tensor_shape \<Rightarrow> tensor_shape \<Rightarrow> bool" where
  "StartsWith shape prefix_shape \<longleftrightarrow>
     (if dims shape < dims prefix_shape then False
      else list_all (\<lambda>i. \<not> dim_size shape i \<noteq> dim_size prefix_shape i) [0..<dims prefix_shape])"






section \<open>The sizes a shape stands for\<close>

definition rep_ok :: "rep \<Rightarrow> nat \<Rightarrow> bool" where
  "rep_ok r n \<longleftrightarrow> (case r of
      REP16 v \<Rightarrow> length v = 6 \<and> n \<le> 6
    | REP32 v \<Rightarrow> length v = 3 \<and> n \<le> 3
    | REP_OUT_OF_LINE v \<Rightarrow> length v = n)"

definition rep_sizes :: "rep \<Rightarrow> nat \<Rightarrow> int list" where
  "rep_sizes r n = (case r of
      REP16 v \<Rightarrow> map sint (take n v)
    | REP32 v \<Rightarrow> map sint (take n v)
    | REP_OUT_OF_LINE v \<Rightarrow> take n v)"

definition wf_shape :: "tensor_shape \<Rightarrow> bool" where
  "wf_shape s \<longleftrightarrow> rep_ok (shape_rep s) (dims s) \<and> list_all (\<lambda>v. 0 \<le> v) (dim_sizes s) \<and>
     recompute_loop 1 (dim_sizes s) = Some (n_elements s)"

lemma dim_sizes_length [simp]: "length (dim_sizes s) = dims s"
  by (simp add: dim_sizes_def)

lemma AppendTo_Nil: "AppendTo s [] = dim_sizes s"
  by (simp add: AppendTo_def dim_sizes_def)

lemma dim_sizes_nth: "d < dims s \<Longrightarrow> dim_sizes s ! d = dim_size s d"
  by (simp add: dim_sizes_def)

lemma dims_le: "dims s \<le> MaxDimensions"
  using unat_less_exp [of "ndims_byte s"] by (simp add: dims_def MaxDimensions_def)

lemma dim_sizes_rep:
  assumes "rep_ok (shape_rep s) (dims s)"
  shows "dim_sizes s = rep_sizes (shape_rep s) (dims s)"
proof (rule nth_equalityI)
  show "length (dim_sizes s) = length (rep_sizes (shape_rep s) (dims s))"
    using assms by (auto simp: rep_ok_def rep_sizes_def split: rep.splits)
  show "dim_sizes s ! d = rep_sizes (shape_rep s) (dims s) ! d" if "d < length (dim_sizes s)" for d
    using assms that by (auto simp: dim_sizes_nth dim_size_def rep_ok_def rep_sizes_def split: rep.splits)
qed

lemma sint_word_of_int_16: "0 \<le> v \<Longrightarrow> v < kMaxRep16 \<Longrightarrow> sint (word_of_int v :: 16 word) = v"
  by (simp add: kMaxRep16_def signed_of_int signed_take_bit_int_eq_self)

lemma sint_word_of_int_32: "0 \<le> v \<Longrightarrow> v < kMaxRep32 \<Longrightarrow> sint (word_of_int v :: 32 word) = v"
  by (simp add: kMaxRep32_def signed_of_int signed_take_bit_int_eq_self)

lemma recompute_loop_append:
  "recompute_loop n (xs @ ys) = Option.bind (recompute_loop n xs) (\<lambda>n. recompute_loop n ys)"
  by (induction xs arbitrary: n) (auto simp: Let_def)

text \<open>
  The sizes a shape may have: not negative, at most 255 of them, and the product of every
  beginning, computed with wrap-around, between 0 and \<open>kMaxElements\<close>.
\<close>

definition admissible :: "int list \<Rightarrow> bool" where
  "admissible xs \<longleftrightarrow> list_all (\<lambda>v. 0 \<le> v) xs \<and> length xs \<le> MaxDimensions \<and> recompute_loop 1 xs \<noteq> None"

lemma admissible_Nil [simp]: "admissible []"
  by (simp add: admissible_def)

lemma admissible_prefix: "admissible (xs @ ys) \<Longrightarrow> admissible xs"
  by (auto simp: admissible_def recompute_loop_append bind_eq_Some_conv)

lemma wf_shape_admissible: "wf_shape s \<Longrightarrow> admissible (dim_sizes s)"
  using dims_le by (auto simp: wf_shape_def admissible_def)

section \<open>Adding a dimension\<close>

lemma upgraded_sizes:
  assumes "list_all (\<lambda>v. 0 \<le> v) vals" "length vals \<le> 3" "list_all (\<lambda>v. \<not> v \<ge> kMaxRep32) vals"
  shows "map sint (take (length vals) (map (word_of_int :: int \<Rightarrow> 32 word) vals @ replicate (3 - length vals) 0)) = vals"
  using assms by (auto simp: list_all_iff sint_word_of_int_32 intro!: map_idI)

lemma dims_update: "n \<le> MaxDimensions \<Longrightarrow> dims (s\<lparr>ndims_byte := of_nat n\<rparr>) = n"
  by (simp add: dims_def MaxDimensions_def unat_of_nat take_bit_nat_eq_self_iff)

lemma take_Suc_update: "n < length v \<Longrightarrow> take (Suc n) (v[n := x]) = take n v @ [x]"
  by (simp add: take_Suc_conv_app_nth)

lemma add_to_rep_ok:
  assumes ok: "rep_ok (shape_rep s) (dims s)" and pos: "list_all (\<lambda>v. 0 \<le> v) (dim_sizes s @ [sz])"
  shows "rep_ok (add_to_rep s (dims s) sz) (Suc (dims s)) \<and>
    rep_sizes (add_to_rep s (dims s) sz) (Suc (dims s)) = dim_sizes s @ [sz]"
proof -
  have up: "rep_ok (if length vals \<le> 3 \<and> list_all (\<lambda>v. \<not> v \<ge> kMaxRep32) vals
        then REP32 (map word_of_int vals @ replicate (3 - length vals) 0) else REP_OUT_OF_LINE vals) (Suc (dims s)) \<and>
      rep_sizes (if length vals \<le> 3 \<and> list_all (\<lambda>v. \<not> v \<ge> kMaxRep32) vals
        then REP32 (map word_of_int vals @ replicate (3 - length vals) 0) else REP_OUT_OF_LINE vals) (Suc (dims s)) = vals"
    if "vals = dim_sizes s @ [sz]" for vals
    using upgraded_sizes [of vals] that pos by (auto simp: rep_ok_def rep_sizes_def)
  have "0 \<le> sz" using pos by simp
  then show ?thesis
    using ok dim_sizes_rep [OF ok] up [OF refl]
    by (cases "shape_rep s")
      (auto simp: add_to_rep_def Let_def AppendTo_Nil rep_ok_def rep_sizes_def take_Suc_update
        sint_word_of_int_16 sint_word_of_int_32)
qed

lemma AddDim_refines:
  assumes wf: "wf_shape s"
  shows "case AddDim sz s of
      None \<Rightarrow> \<not> admissible (dim_sizes s @ [sz])
    | Some s' \<Rightarrow> admissible (dim_sizes s @ [sz]) \<and> wf_shape s' \<and> dim_sizes s' = dim_sizes s @ [sz] \<and>
        data_type s' = data_type s"
proof -
  let ?n = "wrap64 (n_elements s * sz)"
  have rec: "recompute_loop 1 (dim_sizes s @ [sz]) = (if 0 \<le> ?n \<and> ?n \<le> kMaxElements then Some ?n else None)"
    using wf by (simp add: wf_shape_def recompute_loop_append Let_def)
  have adm: "admissible (dim_sizes s @ [sz]) \<longleftrightarrow> 0 \<le> sz \<and> dims s < MaxDimensions \<and> 0 \<le> ?n \<and> ?n \<le> kMaxElements"
    using wf rec by (auto simp: admissible_def wf_shape_def)
  show ?thesis
  proof (cases "admissible (dim_sizes s @ [sz])")
    case False
    then show ?thesis using adm by (auto simp: AddDim_def Let_def)
  next
    case True
    define s' where "s' = s\<lparr>shape_rep := add_to_rep s (dims s) sz, ndims_byte := of_nat (dims s + 1), n_elements := ?n\<rparr>"
    have add: "AddDim sz s = Some s'" using True adm by (simp add: AddDim_def Let_def s'_def)
    have dims: "dims s' = Suc (dims s)"
      using True adm dims_update [of "Suc (dims s)"] by (simp add: s'_def dims_def)
    have ok: "rep_ok (shape_rep s') (dims s')" "rep_sizes (shape_rep s') (dims s') = dim_sizes s @ [sz]"
      using add_to_rep_ok [of s sz] wf adm True unfolding dims by (auto simp: s'_def wf_shape_def)
    then have "dim_sizes s' = dim_sizes s @ [sz]" using dim_sizes_rep by simp
    then show ?thesis
      using add True adm ok(1) rec wf by (simp add: wf_shape_def) (simp add: s'_def)
  qed
qed

section \<open>Loops of additions\<close>

text \<open>
  What the operations that rebuild a shape rely on: adding a size appends it, and fails exactly
  when the longer vector is not admissible. A label is carried along.
\<close>

locale size_vector =
  fixes sizes :: "'s \<Rightarrow> int list" and wf :: "'s \<Rightarrow> bool" and label :: "'s \<Rightarrow> 'd"
    and add :: "int \<Rightarrow> 's \<Rightarrow> 's option"
  assumes add_law: "wf s \<Longrightarrow> case add v s of
      None \<Rightarrow> \<not> admissible (sizes s @ [v])
    | Some s' \<Rightarrow> admissible (sizes s @ [v]) \<and> wf s' \<and> sizes s' = sizes s @ [v] \<and> label s' = label s"
    and wf_admissible: "wf s \<Longrightarrow> admissible (sizes s)"
begin

lemma add_all_law:
  "wf s \<Longrightarrow> case add_all add vs s of
      None \<Rightarrow> \<not> admissible (sizes s @ vs)
    | Some s' \<Rightarrow> admissible (sizes s @ vs) \<and> wf s' \<and> sizes s' = sizes s @ vs \<and> label s' = label s"
proof (induction vs arbitrary: s)
  case Nil
  then show ?case using wf_admissible by simp
next
  case (Cons v vs)
  show ?case
  proof (cases "add v s")
    case None
    then have "\<not> admissible (sizes s @ [v])" using add_law [OF Cons.prems, of v] by simp
    with None show ?thesis using admissible_prefix [of "sizes s @ [v]" vs] by auto
  next
    case (Some s')
    then have "wf s'" "sizes s' = sizes s @ [v]" "label s' = label s"
      using add_law [OF Cons.prems, of v] by auto
    with Some show ?thesis using Cons.IH [of s'] by (simp split: option.splits)
  qed
qed

end

interpretation shape: size_vector dim_sizes wf_shape data_type AddDim
  using AddDim_refines wf_shape_admissible by unfold_locales

lemma wf_cleared: "wf_shape (ClearAllButDataType s)" "dim_sizes (ClearAllButDataType s) = []"
    "data_type (ClearAllButDataType s) = data_type s"
  and wf_empty: "wf_shape empty_shape" "dim_sizes empty_shape = []"
  by (simp_all add: wf_shape_def rep_ok_def dims_def dim_sizes_def ClearAllButDataType_def empty_shape_def)

text \<open>
  The outcome of an operation that is to give the sizes \<open>xs\<close> if its arguments are in range: the
  check fails, or the result is well-formed and has those sizes and the old data type.
\<close>

definition gives :: "bool \<Rightarrow> int list \<Rightarrow> tensor_shape \<Rightarrow> tensor_shape option \<Rightarrow> bool" where
  "gives in_range xs s r \<longleftrightarrow> (case r of
      None \<Rightarrow> \<not> (in_range \<and> admissible xs)
    | Some s' \<Rightarrow> in_range \<and> admissible xs \<and> wf_shape s' \<and> dim_sizes s' = xs \<and> data_type s' = data_type s)"

lemma AddDim_gives: "wf_shape s \<Longrightarrow> gives True (dim_sizes s @ [sz]) s (AddDim sz s)"
  using AddDim_refines [of s sz] by (simp add: gives_def split: option.splits)

lemma rebuild_gives: "gives True vs s (AddDims vs (ClearAllButDataType s))"
  using shape.add_all_law [OF wf_cleared(1) [of s], of vs]
  by (simp add: gives_def AddDims_def wf_cleared split: option.splits)

lemma AppendShape_gives: "wf_shape s \<Longrightarrow> gives True (dim_sizes s @ dim_sizes b) s (AppendShape b s)"
  using shape.add_all_law [of s "dim_sizes b"] by (simp add: gives_def AppendShape_def AddDims_def split: option.splits)

lemma TensorShape_gives: "gives True sizes empty_shape (TensorShape sizes)"
  using shape.add_all_law [OF wf_empty(1), of sizes]
  by (simp add: gives_def TensorShape_def AddDims_def wf_empty split: option.splits)

lemma RecomputeNumElements_gives:
  assumes "rep_ok (shape_rep s) (dims s)" "list_all (\<lambda>v. 0 \<le> v) (dim_sizes s)"
  shows "gives True (dim_sizes s) s (RecomputeNumElements s)"
proof -
  have same: "dim_sizes (s\<lparr>n_elements := n\<rparr>) = dim_sizes s" "dims (s\<lparr>n_elements := n\<rparr>) = dims s" for n
    by (simp_all add: dim_sizes_def dim_size_def dims_def cong: rep.case_cong)
  show ?thesis
    using assms dims_le [of s]
    by (auto simp: gives_def RecomputeNumElements_def admissible_def wf_shape_def same split: option.splits)
qed

lemma gives_bind_recompute:
  assumes "gives c xs s r"
  shows "gives c xs s (Option.bind r RecomputeNumElements)"
proof (cases r)
  case None
  then show ?thesis using assms by (simp add: gives_def)
next
  case (Some s1)
  then have s1: "c" "admissible xs" "wf_shape s1" "dim_sizes s1 = xs" "data_type s1 = data_type s"
    using assms by (simp_all add: gives_def)
  then show ?thesis
    using RecomputeNumElements_gives [of s1] Some by (auto simp: gives_def wf_shape_def split: option.splits)
qed

lemma InsertDim_gives:
  assumes "wf_shape s"
  shows "gives (0 \<le> d \<and> d \<le> int (dims s)) (take (nat d) (dim_sizes s) @ sz # drop (nat d) (dim_sizes s)) s (InsertDim d sz s)"
proof -
  let ?xs = "take (nat d) (dim_sizes s) @ sz # drop (nat d) (dim_sizes s)"
  have "admissible ?xs \<Longrightarrow> 0 \<le> sz \<and> dims s < MaxDimensions" by (auto simp: admissible_def)
  then show ?thesis
    using rebuild_gives [of ?xs s]
    by (auto simp: InsertDim_def gives_def AppendTo_Nil Let_def split: option.splits)
qed

lemma RemoveDim_gives:
  assumes "wf_shape s"
  shows "gives (0 \<le> d \<and> d < int (dims s)) (take (nat d) (dim_sizes s) @ drop (Suc (nat d)) (dim_sizes s)) s (RemoveDim d s)"
  using gives_bind_recompute [OF rebuild_gives [of "take (nat d) (dim_sizes s) @ drop (Suc (nat d)) (dim_sizes s)" s]]
  by (auto simp: RemoveDim_def gives_def AppendTo_Nil Let_def split: option.splits)

lemma set_in_place:
  assumes "rep_ok (shape_rep s) (dims s)" "d < dims s" "rep_ok r (dims s)"
    and "rep_sizes r (dims s) = (rep_sizes (shape_rep s) (dims s))[d := sz]"
    and "list_all (\<lambda>v. 0 \<le> v) (dim_sizes s)" "0 \<le> sz"
  shows "gives True ((dim_sizes s)[d := sz]) s (RecomputeNumElements (s\<lparr>shape_rep := r\<rparr>))"
proof -
  have "dims (s\<lparr>shape_rep := r\<rparr>) = dims s" by (simp add: dims_def)
  then have sizes: "dim_sizes (s\<lparr>shape_rep := r\<rparr>) = (dim_sizes s)[d := sz]"
    using assms dim_sizes_rep [of s] dim_sizes_rep [of "s\<lparr>shape_rep := r\<rparr>"] by simp
  moreover have "list_all (\<lambda>v. 0 \<le> v) ((dim_sizes s)[d := sz])"
    using assms(5,6) set_update_subset_insert [of "dim_sizes s" d sz] by (auto simp: list_all_iff)
  ultimately show ?thesis
    using RecomputeNumElements_gives [of "s\<lparr>shape_rep := r\<rparr>"] assms(3) \<open>dims (s\<lparr>shape_rep := r\<rparr>) = dims s\<close>
    by (simp add: gives_def split: option.splits)
qed

lemma set_dim_gives:
  assumes wf: "wf_shape s"
  shows "gives (0 \<le> d \<and> d < int (dims s)) ((dim_sizes s)[nat d := sz]) s (set_dim d sz s)"
proof (cases "0 \<le> d \<and> d < int (dims s) \<and> 0 \<le> sz")
  case False
  have "0 \<le> sz" if "admissible ((dim_sizes s)[nat d := sz])" "0 \<le> d" "d < int (dims s)"
    using that by (auto simp: admissible_def list_all_iff set_update_memI)
  with False show ?thesis by (auto simp: set_dim_def gives_def)
next
  case True
  let ?xs = "(dim_sizes s)[nat d := sz]"
  have up: "gives True ?xs s (Option.bind (AddDims ?xs (ClearAllButDataType s)) RecomputeNumElements)"
    by (rule gives_bind_recompute [OF rebuild_gives])
  have ok: "rep_ok (shape_rep s) (dims s)" "list_all (\<lambda>v. 0 \<le> v) (dim_sizes s)" "nat d < dims s"
    using wf True by (simp_all add: wf_shape_def nat_less_iff)
  have "gives True ?xs s (set_dim d sz s)"
  proof (cases "shape_rep s")
    case (REP16 v)
    then show ?thesis
      using True ok up set_in_place [OF ok(1,3), of "REP16 (v[nat d := word_of_int sz])" sz]
      by (auto simp: set_dim_def AppendTo_Nil rep_ok_def rep_sizes_def take_update_swap map_update sint_word_of_int_16)
  next
    case (REP32 v)
    then show ?thesis
      using True ok up set_in_place [OF ok(1,3), of "REP32 (v[nat d := word_of_int sz])" sz]
      by (auto simp: set_dim_def AppendTo_Nil rep_ok_def rep_sizes_def take_update_swap map_update sint_word_of_int_32)
  next
    case (REP_OUT_OF_LINE v)
    then show ?thesis
      using True ok set_in_place [OF ok(1,3), of "REP_OUT_OF_LINE (v[nat d := sz])" sz]
      by (auto simp: set_dim_def rep_ok_def rep_sizes_def take_update_swap)
  qed
  with True show ?thesis by (simp add: gives_def split: option.splits)
qed

section \<open>Shapes are vectors of sizes\<close>

lemma IsSameSize_iff: "IsSameSize a b \<longleftrightarrow> dim_sizes a = dim_sizes b"
proof
  assume "IsSameSize a b"
  then show "dim_sizes a = dim_sizes b"
    by (intro nth_equalityI) (auto simp: IsSameSize_def list_all_iff dim_sizes_nth split: if_splits)
next
  assume eq: "dim_sizes a = dim_sizes b"
  then have "dims a = dims b" by (metis dim_sizes_length)
  then show "IsSameSize a b"
    using eq by (auto simp: IsSameSize_def list_all_iff simp flip: dim_sizes_nth)
qed

lemma StartsWith_iff: "StartsWith a b \<longleftrightarrow> take (dims b) (dim_sizes a) = dim_sizes b"
proof
  assume st: "StartsWith a b"
  then have "dims b \<le> dims a" by (auto simp: StartsWith_def split: if_splits)
  then show "take (dims b) (dim_sizes a) = dim_sizes b"
    using st by (intro nth_equalityI) (auto simp: StartsWith_def list_all_iff dim_sizes_nth split: if_splits)
next
  assume eq: "take (dims b) (dim_sizes a) = dim_sizes b"
  then have "dims b \<le> dims a" by (metis dim_sizes_length length_take min.absorb_iff2 min.commute)
  moreover have "dim_size a i = dim_size b i" if "i < dims b" for i
    using eq that calculation by (metis dim_sizes_nth less_le_trans nth_take)
  ultimately show "StartsWith a b" by (simp add: StartsWith_def list_all_iff)
qed

text \<open>
  C32: The three representations of a shape implement a vector of at most 255 sizes: adding,
  inserting, replacing and removing a dimension and appending a shape give the vector that the
  operation on vectors gives, whatever representation they start from and whether or not they
  change it, keep the data type and the well-formedness of the representation, and fail a check
  exactly when an argument is out of range or the result is not admissible. Comparisons compare
  the vectors.
\<close>

theorem tensor_shape_refines:
  assumes "wf_shape s"
  shows "gives True (dim_sizes s @ [sz]) s (AddDim sz s) \<and>
    gives (0 \<le> d \<and> d \<le> int (dims s)) (take (nat d) (dim_sizes s) @ sz # drop (nat d) (dim_sizes s)) s (InsertDim d sz s) \<and>
    gives (0 \<le> d \<and> d < int (dims s)) ((dim_sizes s)[nat d := sz]) s (set_dim d sz s) \<and>
    gives (0 \<le> d \<and> d < int (dims s)) (take (nat d) (dim_sizes s) @ drop (Suc (nat d)) (dim_sizes s)) s (RemoveDim d s) \<and>
    gives True (dim_sizes s @ dim_sizes b) s (AppendShape b s) \<and>
    gives True xs empty_shape (TensorShape xs) \<and>
    (IsSameSize s b \<longleftrightarrow> dim_sizes s = dim_sizes b) \<and>
    (StartsWith s b \<longleftrightarrow> take (dims b) (dim_sizes s) = dim_sizes b)"
  using assms AddDim_gives InsertDim_gives set_dim_gives RemoveDim_gives AppendShape_gives TensorShape_gives
    IsSameSize_iff StartsWith_iff by blast

theorem tensor_shape_refines_witness:
  "\<exists>s. TensorShape [70000, 2] = Some s \<and> dim_sizes s = [70000, 2] \<and>
     (\<exists>s'. set_dim 0 3 s = Some s' \<and> dim_sizes s' = [3, 2])"
proof -
  have adm: "admissible [70000, 2]" "admissible [3, 2]"
    by (simp_all add: admissible_def MaxDimensions_def kMaxElements_def wrap64_id Let_def)
  obtain s where s: "TensorShape [70000, 2] = Some s" "wf_shape s" "dim_sizes s = [70000, 2]"
    using TensorShape_gives [of "[70000, 2]"] adm(1) by (auto simp: gives_def split: option.splits)
  have "gives (0 \<le> (0 :: int) \<and> 0 < int (dims s)) ((dim_sizes s)[nat 0 := 3]) s (set_dim 0 3 s)"
    using tensor_shape_refines [OF s(2), where d = 0 and sz = 3] by blast
  moreover have "dims s = 2" using s(3) dim_sizes_length [of s] by simp
  ultimately show ?thesis using s adm(2) by (auto simp: gives_def split: option.splits)
qed

section \<open>The number of elements\<close>

lemma wrap64_mult: "wrap64 (wrap64 a * b) = wrap64 (a * b)"
proof -
  have "wrap64 (wrap64 a * b) = wrap64 (wrap64 (wrap64 a) * wrap64 b)"
    unfolding wrap64_def by (rule signed_take_bit_mult [symmetric])
  also have "wrap64 (wrap64 a) = wrap64 a" by (simp add: wrap64_def)
  also have "wrap64 (wrap64 a * wrap64 b) = wrap64 (a * b)"
    unfolding wrap64_def by (rule signed_take_bit_mult)
  finally show ?thesis .
qed

lemma recompute_loop_value:
  "recompute_loop n xs = Some m \<Longrightarrow> n = wrap64 n \<Longrightarrow> m = wrap64 (n * prod_list xs) \<and> (xs \<noteq> [] \<longrightarrow> 0 \<le> m \<and> m \<le> kMaxElements)"
proof (induction xs arbitrary: n)
  case (Cons x xs)
  let ?n = "wrap64 (n * x)"
  have "recompute_loop ?n xs = Some m" "0 \<le> ?n" "?n \<le> kMaxElements"
    using Cons.prems by (auto simp: Let_def split: if_splits)
  moreover have "?n = wrap64 ?n" using wrap64_bound [of "n * x"] by (simp add: wrap64_id)
  ultimately show ?case
    using Cons.IH [of ?n] wrap64_mult [of "n * x" "prod_list xs"] by (cases xs) (auto simp: mult.assoc)
qed simp

lemma num_elements_wrap:
  assumes "wf_shape s"
  shows "num_elements s = wrap64 (prod_list (dim_sizes s))" "0 \<le> num_elements s" "num_elements s \<le> kMaxElements"
proof -
  have "recompute_loop 1 (dim_sizes s) = Some (num_elements s)"
    using assms by (simp add: wf_shape_def num_elements_def)
  moreover have "(1 :: int) = wrap64 1" by (simp add: wrap64_id)
  ultimately have *: "num_elements s = wrap64 (1 * prod_list (dim_sizes s)) \<and>
      (dim_sizes s \<noteq> [] \<longrightarrow> 0 \<le> num_elements s \<and> num_elements s \<le> kMaxElements)"
    by (rule recompute_loop_value)
  then show "num_elements s = wrap64 (prod_list (dim_sizes s))" by simp
  show "0 \<le> num_elements s" "num_elements s \<le> kMaxElements"
    using * by (cases "dim_sizes s = []"; simp add: wrap64_id kMaxElements_def)+
qed

text \<open>
  C33: The number of elements of a well-formed shape is the product of its sizes modulo
  \<open>2 ^ 64\<close>, between 0 and \<open>2 ^ 40\<close>. It is the product when that is below \<open>2 ^ 63\<close>; beyond, the
  limit is not enforced: a shape of two dimensions of size \<open>2 ^ 32\<close> is built, with no elements.
\<close>

theorem shape_num_elements:
  assumes "wf_shape s"
  shows "num_elements s = wrap64 (prod_list (dim_sizes s)) \<and> 0 \<le> num_elements s \<and> num_elements s \<le> kMaxElements \<and>
    (prod_list (dim_sizes s) < 2 ^ 63 \<longrightarrow> num_elements s = prod_list (dim_sizes s)) \<and>
    (\<exists>h. TensorShape [2 ^ 32, 2 ^ 32] = Some h \<and> wf_shape h \<and> dim_sizes h = [2 ^ 32, 2 ^ 32] \<and> num_elements h = 0)"
proof -
  have "0 \<le> prod_list (dim_sizes s)"
    using assms by (auto simp: wf_shape_def list_all_iff prod_list_nonneg)
  then have "prod_list (dim_sizes s) < 2 ^ 63 \<Longrightarrow> wrap64 (prod_list (dim_sizes s)) = prod_list (dim_sizes s)"
    by (simp add: wrap64_id)
  moreover have "admissible [2 ^ 32, 2 ^ 32]"
    by (simp add: admissible_def MaxDimensions_def kMaxElements_def wrap64_mod Let_def)
  then obtain h where h: "TensorShape [2 ^ 32, 2 ^ 32] = Some h" "wf_shape h" "dim_sizes h = [2 ^ 32, 2 ^ 32]"
    using TensorShape_gives [of "[2 ^ 32, 2 ^ 32]"] by (auto simp: gives_def split: option.splits)
  have "num_elements h = 0" using num_elements_wrap(1) [OF h(2)] h(3) by (simp add: wrap64_mod)
  ultimately show ?thesis using num_elements_wrap [OF assms] h by auto
qed

theorem shape_num_elements_witness:
  "\<exists>s. TensorShape [3, 4] = Some s \<and> num_elements s = 12"
proof -
  have "admissible [3, 4]" by (simp add: admissible_def MaxDimensions_def kMaxElements_def wrap64_id Let_def)
  then obtain s where s: "TensorShape [3, 4] = Some s" "wf_shape s" "dim_sizes s = [3, 4]"
    using TensorShape_gives [of "[3, 4]"] by (auto simp: gives_def split: option.splits)
  then show ?thesis using shape_num_elements [OF s(2)] by simp
qed


section \<open>Validation\<close>














end
