(* ===== verification/Tensor_Slice.thy ===== *)
theory Tensor_Slice
  imports Tensor_Shape Numbers
begin

text \<open>
  Slices of tensors: \<open>framework/tensor_slice.cc\<close> and \<open>.h\<close>, and the text splitting of
  \<open>lib/strings/str_util.h\<close> it uses.

  A slice has a start and a length for every dimension; the length \<open>-1\<close> with start 0 is the
  whole dimension. The end of an extent is computed in 64 bits and may wrap around. A slice is
  given by value; an operation that returns false leaves a result that is not read.
\<close>

section \<open>Splitting text\<close>

fun split_loop :: "char \<Rightarrow> string \<Rightarrow> string \<Rightarrow> string list" where
  "split_loop delim token [] = [token]"
| "split_loop delim token (c # text) =
     (if c = delim then token # split_loop delim [] text else split_loop delim (token @ [c]) text)"

definition Split_text :: "string \<Rightarrow> char \<Rightarrow> (string \<Rightarrow> bool) \<Rightarrow> string list" where
  "Split_text text delim p = (if text \<noteq> [] then filter p (split_loop delim [] text) else [])"

definition SkipEmpty :: "string \<Rightarrow> bool" where
  "SkipEmpty sp \<longleftrightarrow> sp \<noteq> []"

section \<open>Slices\<close>

record tensor_slice =
  starts :: "int list"
  lengths :: "int list"

definition kFullExtent :: int where "kFullExtent = -1"

definition empty_slice :: tensor_slice where
  "empty_slice = \<lparr>starts = [], lengths = []\<rparr>"

definition slice_dims :: "tensor_slice \<Rightarrow> nat" where
  "slice_dims s = length (starts s)"

definition start_at :: "tensor_slice \<Rightarrow> nat \<Rightarrow> int" where
  "start_at s d = starts s ! d"

definition length_at :: "tensor_slice \<Rightarrow> nat \<Rightarrow> int" where
  "length_at s d = lengths s ! d"

definition end_at :: "tensor_slice \<Rightarrow> nat \<Rightarrow> int" where
  "end_at s d = wrap64 (start_at s d + length_at s d)"

definition set_extent :: "nat \<Rightarrow> int \<Rightarrow> int \<Rightarrow> tensor_slice \<Rightarrow> tensor_slice" where
  "set_extent d x l s = s\<lparr>starts := (starts s)[d := x], lengths := (lengths s)[d := l]\<rparr>"

definition IsFullAt :: "tensor_slice \<Rightarrow> nat \<Rightarrow> bool" where
  "IsFullAt s d \<longleftrightarrow> lengths s ! d = kFullExtent \<and> starts s ! d = 0"

definition IsFull :: "tensor_slice \<Rightarrow> bool" where
  "IsFull s \<longleftrightarrow> list_all (IsFullAt s) [0..<slice_dims s]"

definition SetFullSlice :: "nat \<Rightarrow> tensor_slice" where
  "SetFullSlice dim = \<lparr>starts = replicate dim 0, lengths = replicate dim kFullExtent\<rparr>"

definition Extend_slice :: "nat \<Rightarrow> tensor_slice \<Rightarrow> tensor_slice" where
  "Extend_slice dim s =
     \<lparr>starts = starts s @ replicate (dim - slice_dims s) 0,
      lengths = lengths s @ replicate (dim - slice_dims s) kFullExtent\<rparr>"

text \<open>A \<open>TensorSliceProto\<close> is a list of extents: a start, and a length if it has one.\<close>

type_synonym extent = "int \<times> int option"

definition GetExtentLength :: "extent \<Rightarrow> int" where
  "GetExtentLength e = (case snd e of None \<Rightarrow> -1 | Some l \<Rightarrow> l)"

definition slice_of_proto :: "extent list \<Rightarrow> tensor_slice" where
  "slice_of_proto proto = \<lparr>starts = map fst proto, lengths = map GetExtentLength proto\<rparr>"

definition AsProto_slice :: "tensor_slice \<Rightarrow> extent list" where
  "AsProto_slice s = map (\<lambda>d. if \<not> IsFullAt s d then (starts s ! d, Some (lengths s ! d)) else (0, None)) [0..<slice_dims s]"

definition DebugString_slice :: "tensor_slice \<Rightarrow> string" where
  "DebugString_slice s = concat (map (\<lambda>d.
     (if d = 0 then [] else '':'') @
     (if IsFullAt s d then ''-''
      else FastInt64ToBufferLeft (word_of_int (starts s ! d)) @ '','' @
           FastInt64ToBufferLeft (word_of_int (lengths s ! d)))) [0..<slice_dims s])"

definition parse_extent :: "string \<Rightarrow> (int \<times> int) status" where
  "parse_extent x =
     (if x = ''-'' then Inr (0, kFullExtent)
      else let sl = Split_text x CHR '','' SkipEmpty in
        if length sl \<noteq> 2 then Inl INVALID_ARGUMENT
        else case safe_strto64 (sl ! 0) of None \<Rightarrow> Inl INVALID_ARGUMENT | Some s \<Rightarrow>
             case safe_strto64 (sl ! 1) of None \<Rightarrow> Inl INVALID_ARGUMENT | Some l \<Rightarrow>
             if sint s < 0 \<or> sint l \<le> 0 then Inl INVALID_ARGUMENT else Inr (sint s, sint l))"

fun parse_items :: "string list \<Rightarrow> tensor_slice \<Rightarrow> tensor_slice status" where
  "parse_items [] out = Inr out"
| "parse_items (x # items) out =
     bind_status (parse_extent x) (\<lambda>(s, l).
       parse_items items \<lparr>starts = starts out @ [s], lengths = lengths out @ [l]\<rparr>)"

definition Parse_slice :: "string \<Rightarrow> tensor_slice \<Rightarrow> tensor_slice status" where
  "Parse_slice str out = parse_items (Split_text str CHR '':'' SkipEmpty) out"

text \<open>The loops over the dimensions, from \<open>d\<close> on with \<open>n\<close> dimensions left.\<close>

fun intersect_loop :: "nat \<Rightarrow> nat \<Rightarrow> tensor_slice \<Rightarrow> tensor_slice \<Rightarrow> tensor_slice \<Rightarrow> tensor_slice option" where
  "intersect_loop 0 d this other result = Some result"
| "intersect_loop (Suc n) d this other result =
     (if IsFullAt this d
      then intersect_loop n (d + 1) this other (set_extent d (start_at other d) (length_at other d) result)
      else if IsFullAt other d
      then intersect_loop n (d + 1) this other (set_extent d (start_at this d) (length_at this d) result)
      else
        let s = max (start_at this d) (start_at other d);
            l = wrap64 (min (end_at this d) (end_at other d) - s)
        in if l > 0 then intersect_loop n (d + 1) this other (set_extent d s l result) else None)"

definition Intersect :: "tensor_slice \<Rightarrow> tensor_slice \<Rightarrow> tensor_slice option" where
  "Intersect this other =
     (if slice_dims this \<noteq> slice_dims other then None
      else intersect_loop (slice_dims this) 0 this other (SetFullSlice (slice_dims this)))"

definition Overlaps :: "tensor_slice \<Rightarrow> tensor_slice \<Rightarrow> bool" where
  "Overlaps this other \<longleftrightarrow> Intersect this other \<noteq> None"

fun relative_loop :: "nat \<Rightarrow> nat \<Rightarrow> tensor_slice \<Rightarrow> tensor_slice \<Rightarrow> tensor_slice \<Rightarrow> tensor_slice" where
  "relative_loop 0 d this sub relative = relative"
| "relative_loop (Suc n) d this sub relative =
     relative_loop n (d + 1) this sub
       (if IsFullAt this d then set_extent d (start_at sub d) (length_at sub d) relative
        else set_extent d (wrap64 (start_at sub d - start_at this d)) (length_at sub d) relative)"

definition ComputeRelative :: "tensor_slice \<Rightarrow> tensor_slice \<Rightarrow> tensor_slice" where
  "ComputeRelative this sub = relative_loop (slice_dims this) 0 this sub (SetFullSlice (slice_dims this))"

fun cover_loop :: "nat \<Rightarrow> nat \<Rightarrow> tensor_slice \<Rightarrow> tensor_slice \<Rightarrow> tensor_slice" where
  "cover_loop 0 d other this = this"
| "cover_loop (Suc n) d other this =
     cover_loop n (d + 1) other
       (if IsFullAt this d then this
        else if IsFullAt other d then set_extent d 0 kFullExtent this
        else
          let new_end = max (end_at this d) (end_at other d);
              s = min (start_at this d) (start_at other d)
          in set_extent d s (wrap64 (new_end - s)) this)"

definition UpdateToCover :: "tensor_slice \<Rightarrow> tensor_slice \<Rightarrow> tensor_slice" where
  "UpdateToCover this other = cover_loop (slice_dims this) 0 other this"

text \<open>The outer option is a failed check of the shape, the status that of the function.\<close>

fun slice_shape_loop :: "nat \<Rightarrow> nat \<Rightarrow> tensor_slice \<Rightarrow> tensor_shape \<Rightarrow> tensor_shape \<Rightarrow> tensor_shape status option" where
  "slice_shape_loop 0 d this shape result = Some (Inr result)"
| "slice_shape_loop (Suc n) d this shape result =
     (if IsFullAt this d then
        case AddDim (dim_size shape d) result of
          None \<Rightarrow> None | Some r \<Rightarrow> slice_shape_loop n (d + 1) this shape r
      else if end_at this d \<le> dim_size shape d then
        case AddDim (length_at this d) result of
          None \<Rightarrow> None | Some r \<Rightarrow> slice_shape_loop n (d + 1) this shape r
      else Some (Inl INTERNAL))"

definition SliceTensorShape :: "tensor_slice \<Rightarrow> tensor_shape \<Rightarrow> tensor_shape status option" where
  "SliceTensorShape this shape =
     (if dims shape \<noteq> slice_dims this then Some (Inl INTERNAL)
      else slice_shape_loop (slice_dims this) 0 this shape empty_shape)"

section \<open>Slices as boxes\<close>

text \<open>A slice as a list of extents, and an extent as the set of its indices.\<close>

definition of_exts :: "(int \<times> int) list \<Rightarrow> tensor_slice" where
  "of_exts es = \<lparr>starts = map fst es, lengths = map snd es\<rparr>"

definition exts :: "tensor_slice \<Rightarrow> (int \<times> int) list" where
  "exts s = zip (starts s) (lengths s)"

definition ext_full :: "int \<times> int \<Rightarrow> bool" where
  "ext_full e \<longleftrightarrow> e = (0, kFullExtent)"

definition ext_set :: "int \<times> int \<Rightarrow> int set" where
  "ext_set e = (if ext_full e then {0..} else {fst e..<fst e + snd e})"

definition ext_valid :: "int \<times> int \<Rightarrow> bool" where
  "ext_valid e \<longleftrightarrow> ext_full e \<or> 0 \<le> fst e \<and> 0 < snd e \<and> fst e + snd e < 2 ^ 63"

definition slice_valid :: "tensor_slice \<Rightarrow> bool" where
  "slice_valid s \<longleftrightarrow> length (starts s) = length (lengths s) \<and> list_all ext_valid (exts s)"

definition points :: "tensor_slice \<Rightarrow> int list set" where
  "points s = {idx. list_all2 (\<lambda>i e. i \<in> ext_set e) idx (exts s)}"

lemma fields_of_exts: "starts (of_exts es) = map fst es" "lengths (of_exts es) = map snd es"
  by (simp_all add: of_exts_def)

lemma empty_slice_eq: "empty_slice = of_exts []"
  by (simp add: empty_slice_def of_exts_def)

lemma exts_of_exts [simp]: "exts (of_exts es) = es"
  by (simp add: exts_def of_exts_def zip_map_fst_snd)

lemma of_exts_exts: "slice_valid s \<Longrightarrow> of_exts (exts s) = s"
  by (simp add: slice_valid_def exts_def of_exts_def)

lemma slice_valid_of_exts [simp]: "slice_valid (of_exts es) \<longleftrightarrow> list_all ext_valid es"
  by (simp add: slice_valid_def) (simp add: of_exts_def)

lemma slice_cases:
  assumes "slice_valid s"
  obtains es where "s = of_exts es" "list_all ext_valid es"
  using assms of_exts_exts [of s] by (metis slice_valid_def)

lemma slice_dims_of_exts [simp]: "slice_dims (of_exts es) = length es"
  by (simp add: slice_dims_def of_exts_def)

lemma at_of_exts:
  assumes "d < length es"
  shows "IsFullAt (of_exts es) d \<longleftrightarrow> ext_full (es ! d)" "start_at (of_exts es) d = fst (es ! d)"
    "length_at (of_exts es) d = snd (es ! d)" "end_at (of_exts es) d = wrap64 (fst (es ! d) + snd (es ! d))"
    "set_extent d x l (of_exts es) = of_exts (es[d := (x, l)])"
  using assms by (auto simp: IsFullAt_def start_at_def length_at_def end_at_def set_extent_def of_exts_def
      ext_full_def map_update prod_eq_iff)

lemma SetFullSlice_eq: "SetFullSlice n = of_exts (replicate n (0, kFullExtent))"
  by (simp add: SetFullSlice_def of_exts_def)

subsection \<open>Intersection\<close>

definition ext_meet :: "int \<times> int \<Rightarrow> int \<times> int \<Rightarrow> (int \<times> int) option" where
  "ext_meet a b =
     (if ext_full a then Some b else if ext_full b then Some a
      else let s = max (fst a) (fst b);
               l = wrap64 (min (wrap64 (fst a + snd a)) (wrap64 (fst b + snd b)) - s)
           in if l > 0 then Some (s, l) else None)"

fun meet_list :: "(int \<times> int) list \<Rightarrow> (int \<times> int) list \<Rightarrow> (int \<times> int) list option" where
  "meet_list (a # as) (b # bs) = Option.bind (ext_meet a b) (\<lambda>c. map_option ((#) c) (meet_list as bs))"
| "meet_list _ _ = Some []"

lemma intersect_loop_eq:
  assumes "length as = length bs" "length pre = d" "length pre' = d" "length ys = d"
  shows "intersect_loop (length as) d (of_exts (pre @ as)) (of_exts (pre' @ bs)) (of_exts (ys @ replicate (length as) (0, kFullExtent))) =
    map_option (\<lambda>zs. of_exts (ys @ zs)) (meet_list as bs)"
  using assms
proof (induction as bs arbitrary: pre pre' ys d rule: list_induct2')
  case (4 a as b bs)
  have IH: "intersect_loop (length bs) (Suc d) (of_exts (pre @ a # as)) (of_exts (pre' @ b # bs))
      (of_exts (ys @ c # replicate (length bs) (0, kFullExtent))) = map_option (\<lambda>zs. of_exts (ys @ c # zs)) (meet_list as bs)" for c
    using 4(1) [of "pre @ [a]" "Suc d" "pre' @ [b]" "ys @ [c]"] 4(2-) by simp
  show ?case
    using 4(2-)
    by (simp add: at_of_exts nth_append list_update_append IH ext_meet_def Let_def option.map_comp comp_def)
qed simp_all

lemma Intersect_of_exts:
  "Intersect (of_exts as) (of_exts bs) = (if length as = length bs then map_option of_exts (meet_list as bs) else None)"
  using intersect_loop_eq [of as bs "[]" 0 "[]" "[]"] by (simp add: Intersect_def SetFullSlice_eq)

lemma ext_meet_correct:
  assumes "ext_valid a" "ext_valid b"
  shows "case ext_meet a b of None \<Rightarrow> ext_set a \<inter> ext_set b = {}
    | Some c \<Rightarrow> ext_valid c \<and> ext_set c = ext_set a \<inter> ext_set b"
proof (cases "ext_full a \<or> ext_full b")
  case True
  then show ?thesis
    using assms by (auto simp: ext_meet_def ext_set_def ext_valid_def)
next
  case False
  then have a: "0 \<le> fst a" "0 < snd a" "fst a + snd a < 2 ^ 63" and b: "0 \<le> fst b" "0 < snd b" "fst b + snd b < 2 ^ 63"
    using assms by (auto simp: ext_valid_def)
  let ?s = "max (fst a) (fst b)" and ?e = "min (fst a + snd a) (fst b + snd b)"
  have "wrap64 (fst a + snd a) = fst a + snd a" "wrap64 (fst b + snd b) = fst b + snd b" "wrap64 (?e - ?s) = ?e - ?s"
    using a b by (auto intro!: wrap64_id)
  then have "ext_meet a b = (if ?e - ?s > 0 then Some (?s, ?e - ?s) else None)"
    using False by (simp add: ext_meet_def Let_def)
  moreover have "\<not> ext_full (?s, ?e - ?s)" if "?e - ?s > 0" using that by (auto simp: ext_full_def kFullExtent_def)
  ultimately show ?thesis using False a b by (auto simp: ext_set_def ext_valid_def)
qed

lemma ext_meet_Some:
  assumes "ext_valid a" "ext_valid b" "ext_meet a b = Some c"
  shows "ext_valid c" "ext_set c = ext_set a \<inter> ext_set b"
  using ext_meet_correct [OF assms(1,2)] assms(3) by auto

lemma ext_meet_None: "ext_valid a \<Longrightarrow> ext_valid b \<Longrightarrow> ext_meet a b = None \<Longrightarrow> ext_set a \<inter> ext_set b = {}"
  using ext_meet_correct [of a b] by simp

lemma points_of_exts: "idx \<in> points (of_exts es) \<longleftrightarrow> list_all2 (\<lambda>i e. i \<in> ext_set e) idx es"
  by (simp add: points_def)

lemma points_Nil: "points (of_exts []) = {[]}"
  by (auto simp: points_def)

lemma points_Cons: "points (of_exts (e # es)) = case_prod (#) ` (ext_set e \<times> points (of_exts es))"
  by (auto simp: points_def list_all2_Cons2 image_iff)

lemma cons_image_Int:
  "case_prod (#) ` (A \<times> X) \<inter> case_prod (#) ` (B \<times> Y) = case_prod (#) ` ((A \<inter> B) \<times> (X \<inter> Y))"
  by auto

lemma meet_list_correct:
  assumes "list_all ext_valid as" "list_all ext_valid bs" "length as = length bs"
  shows "case meet_list as bs of
      None \<Rightarrow> points (of_exts as) \<inter> points (of_exts bs) = {}
    | Some cs \<Rightarrow> list_all ext_valid cs \<and> length cs = length as \<and> points (of_exts cs) = points (of_exts as) \<inter> points (of_exts bs)"
  using assms
proof (induction as bs rule: list_induct2')
  case (4 a as b bs)
  show ?case
  proof (cases "ext_meet a b")
    case None
    then have "ext_set a \<inter> ext_set b = {}" using "4.prems" ext_meet_None [of a b] by simp
    with None show ?thesis by (simp add: points_Cons cons_image_Int)
  next
    case (Some c)
    then have c: "ext_valid c" "ext_set c = ext_set a \<inter> ext_set b" using "4.prems" ext_meet_Some [of a b c] by simp_all
    have IH: "case meet_list as bs of
        None \<Rightarrow> points (of_exts as) \<inter> points (of_exts bs) = {}
      | Some cs \<Rightarrow> list_all ext_valid cs \<and> length cs = length as \<and>
          points (of_exts cs) = points (of_exts as) \<inter> points (of_exts bs)"
      using 4 by simp
    show ?thesis
    proof (cases "meet_list as bs")
      case None
      with IH Some show ?thesis by (simp add: points_Cons cons_image_Int)
    next
      case (Some cs)
      with IH \<open>ext_meet a b = Some c\<close> c show ?thesis by (simp add: points_Cons cons_image_Int)
    qed
  qed
qed simp_all

lemma Intersect_correct:
  assumes "slice_valid s" "slice_valid t"
  shows "case Intersect s t of
      None \<Rightarrow> points s \<inter> points t = {}
    | Some r \<Rightarrow> slice_valid r \<and> slice_dims r = slice_dims s \<and> points r = points s \<inter> points t"
proof -
  obtain as bs where st: "s = of_exts as" "list_all ext_valid as" "t = of_exts bs" "list_all ext_valid bs"
    using assms by (metis slice_cases)
  show ?thesis
  proof (cases "length as = length bs")
    case True
    then show ?thesis
      using meet_list_correct [OF st(2,4)] by (auto simp: st Intersect_of_exts split: option.splits)
  next
    case False
    then have "points s \<inter> points t = {}"
      by (auto simp: st points_def) (metis list_all2_lengthD)
    with False show ?thesis by (simp add: st Intersect_of_exts)
  qed
qed

lemma ext_nonempty: "ext_valid e \<Longrightarrow> \<exists>i. i \<in> ext_set e \<and> 0 \<le> i"
  by (intro exI [of _ "fst e"]) (auto simp: ext_valid_def ext_set_def ext_full_def)

lemma points_nonempty: "list_all ext_valid es \<Longrightarrow> \<exists>idx. idx \<in> points (of_exts es)"
proof (induction es)
  case (Cons e es)
  then obtain idx where "idx \<in> points (of_exts es)" by auto
  moreover obtain i where "i \<in> ext_set e" using Cons.prems ext_nonempty [of e] by auto
  ultimately show ?case by (intro exI [of _ "i # idx"]) (simp add: points_of_exts)
qed (simp add: points_of_exts)

lemma Overlaps_iff:
  assumes "slice_valid s" "slice_valid t"
  shows "Overlaps s t \<longleftrightarrow> points s \<inter> points t \<noteq> {}"
proof (cases "Intersect s t")
  case None
  then show ?thesis using Intersect_correct [OF assms] by (simp add: Overlaps_def)
next
  case (Some r)
  then have "slice_valid r" "points r = points s \<inter> points t" using Intersect_correct [OF assms] by auto
  with Some show ?thesis using points_nonempty by (metis Overlaps_def empty_iff option.distinct(1) slice_cases)
qed

subsection \<open>Covering\<close>

definition ext_join :: "int \<times> int \<Rightarrow> int \<times> int \<Rightarrow> int \<times> int" where
  "ext_join a b =
     (if ext_full a then a else if ext_full b then (0, kFullExtent)
      else let s = min (fst a) (fst b)
           in (s, wrap64 (max (wrap64 (fst a + snd a)) (wrap64 (fst b + snd b)) - s)))"

lemma cover_loop_eq:
  assumes "length as = length bs" "length pre = d" "length pre' = d"
  shows "cover_loop (length as) d (of_exts (pre' @ bs)) (of_exts (pre @ as)) = of_exts (pre @ map2 ext_join as bs)"
  using assms
proof (induction as bs arbitrary: pre pre' d rule: list_induct2')
  case (4 a as b bs)
  have IH: "cover_loop (length bs) (Suc d) (of_exts (pre' @ b # bs)) (of_exts (pre @ c # as)) =
      of_exts (pre @ c # map2 ext_join as bs)" for c
    using 4(1) [of "pre @ [c]" "Suc d" "pre' @ [b]"] 4(2-) by simp
  show ?case
    using 4(2-) by (simp add: at_of_exts nth_append list_update_append IH ext_join_def Let_def)
qed simp_all

lemma UpdateToCover_of_exts:
  "length as = length bs \<Longrightarrow> UpdateToCover (of_exts as) (of_exts bs) = of_exts (map2 ext_join as bs)"
  using cover_loop_eq [of as bs "[]" 0 "[]"] by (simp add: UpdateToCover_def)

lemma ext_join_correct:
  assumes "ext_valid a" "ext_valid b"
  shows "ext_valid (ext_join a b)" "ext_set a \<union> ext_set b \<subseteq> ext_set (ext_join a b)"
    "ext_valid u \<Longrightarrow> ext_set a \<union> ext_set b \<subseteq> ext_set u \<Longrightarrow> ext_set (ext_join a b) \<subseteq> ext_set u"
proof -
  have "ext_valid (ext_join a b) \<and> ext_set a \<union> ext_set b \<subseteq> ext_set (ext_join a b) \<and>
    (ext_valid u \<and> ext_set a \<union> ext_set b \<subseteq> ext_set u \<longrightarrow> ext_set (ext_join a b) \<subseteq> ext_set u)"
  proof (cases "ext_full a \<or> ext_full b")
    case True
    have "ext_set (0, kFullExtent) = {0..}" "ext_valid (0, kFullExtent)"
      by (simp_all add: ext_set_def ext_full_def ext_valid_def)
    moreover have "ext_set a \<union> ext_set b \<subseteq> {0..}" using assms by (auto simp: ext_valid_def ext_set_def)
    moreover have "ext_join a b = (0, kFullExtent)" "ext_set a = {0..} \<or> ext_set b = {0..}"
      using True by (auto simp: ext_join_def ext_full_def ext_set_def)
    ultimately show ?thesis by auto
  next
    case False
    then have a: "0 \<le> fst a" "0 < snd a" "fst a + snd a < 2 ^ 63" and b: "0 \<le> fst b" "0 < snd b" "fst b + snd b < 2 ^ 63"
      using assms by (auto simp: ext_valid_def)
    let ?s = "min (fst a) (fst b)" and ?e = "max (fst a + snd a) (fst b + snd b)"
    have "wrap64 (fst a + snd a) = fst a + snd a" "wrap64 (fst b + snd b) = fst b + snd b" "wrap64 (?e - ?s) = ?e - ?s"
      using a b by (auto intro!: wrap64_id)
    then have join: "ext_join a b = (?s, ?e - ?s)" using False by (simp add: ext_join_def Let_def)
    have "?e - ?s > 0" using a b by auto
    then have "\<not> ext_full (?s, ?e - ?s)" by (auto simp: ext_full_def kFullExtent_def)
    then have sets: "ext_set (ext_join a b) = {?s..<?e}" "ext_set a = {fst a..<fst a + snd a}"
        "ext_set b = {fst b..<fst b + snd b}" "ext_valid (ext_join a b)"
      using False a b \<open>?e - ?s > 0\<close> by (auto simp: join ext_set_def ext_valid_def)
    have "ext_set (ext_join a b) \<subseteq> ext_set u" if "ext_set a \<union> ext_set b \<subseteq> ext_set u"
    proof -
      have "fst a \<in> ext_set u" "fst a + snd a - 1 \<in> ext_set u" "fst b \<in> ext_set u" "fst b + snd b - 1 \<in> ext_set u"
        using that a b unfolding sets by auto
      then show ?thesis unfolding sets by (auto simp: ext_set_def split: if_splits)
    qed
    then show ?thesis using sets by auto
  qed
  then show "ext_valid (ext_join a b)" "ext_set a \<union> ext_set b \<subseteq> ext_set (ext_join a b)"
    "ext_valid u \<Longrightarrow> ext_set a \<union> ext_set b \<subseteq> ext_set u \<Longrightarrow> ext_set (ext_join a b) \<subseteq> ext_set u"
    by blast+
qed

lemma map2_join_correct:
  assumes "list_all ext_valid as" "list_all ext_valid bs" "length as = length bs"
  shows "list_all ext_valid (map2 ext_join as bs)"
    "points (of_exts as) \<union> points (of_exts bs) \<subseteq> points (of_exts (map2 ext_join as bs))"
proof -
  show "list_all ext_valid (map2 ext_join as bs)"
    using assms by (induction as bs rule: list_induct2') (auto simp: ext_join_correct(1))
  have "points (of_exts as) \<subseteq> points (of_exts (map2 ext_join as bs)) \<and>
    points (of_exts bs) \<subseteq> points (of_exts (map2 ext_join as bs))"
    using assms
  proof (induction as bs rule: list_induct2')
    case (4 a as b bs)
    have "ext_set a \<union> ext_set b \<subseteq> ext_set (ext_join a b)" using 4 ext_join_correct(2) [of a b] by simp
    moreover have "points (of_exts as) \<subseteq> points (of_exts (map2 ext_join as bs)) \<and>
      points (of_exts bs) \<subseteq> points (of_exts (map2 ext_join as bs))" using 4 by simp
    ultimately show ?case
      unfolding list.map zip_Cons_Cons prod.case points_Cons by (intro conjI image_mono Sigma_mono; simp)
  qed simp_all
  then show "points (of_exts as) \<union> points (of_exts bs) \<subseteq> points (of_exts (map2 ext_join as bs))" by simp
qed

text \<open>Boxes are not empty, so a box lies in another exactly when it does so in every dimension.\<close>

lemma points_subset_iff:
  assumes "list_all ext_valid as" "length as = length us"
  shows "points (of_exts as) \<subseteq> points (of_exts us) \<longleftrightarrow> list_all2 (\<lambda>a u. ext_set a \<subseteq> ext_set u) as us"
  using assms
proof (induction as us rule: list_induct2')
  case (4 a as u us)
  obtain i idx where "i \<in> ext_set a" "idx \<in> points (of_exts as)"
    using "4.prems" ext_nonempty [of a] points_nonempty [of as] by auto
  then have "case_prod (#) ` (ext_set a \<times> points (of_exts as)) \<subseteq> case_prod (#) ` (ext_set u \<times> points (of_exts us)) \<longleftrightarrow>
      ext_set a \<subseteq> ext_set u \<and> points (of_exts as) \<subseteq> points (of_exts us)"
    by (auto simp: image_iff subset_iff)
  with 4 show ?case by (simp add: points_Cons)
qed simp_all

lemma map2_join_least:
  assumes "list_all ext_valid as" "list_all ext_valid bs" "list_all ext_valid us"
    and "length as = length bs" "length us = length as"
    and "points (of_exts as) \<union> points (of_exts bs) \<subseteq> points (of_exts us)"
  shows "points (of_exts (map2 ext_join as bs)) \<subseteq> points (of_exts us)"
proof -
  have "list_all2 (\<lambda>a u. ext_set a \<subseteq> ext_set u) as us" "list_all2 (\<lambda>a u. ext_set a \<subseteq> ext_set u) bs us"
    using assms by (simp_all flip: points_subset_iff)
  then have "list_all2 (\<lambda>a u. ext_set a \<subseteq> ext_set u) (map2 ext_join as bs) us"
    using assms by (simp add: list_all2_conv_all_nth list_all_length ext_join_correct(3))
  then show ?thesis
    using map2_join_correct(1) [OF assms(1,2,4)] assms(4,5) by (subst points_subset_iff) simp_all
qed

lemma UpdateToCover_correct:
  assumes "slice_valid s" "slice_valid t" "slice_dims s = slice_dims t"
  shows "slice_valid (UpdateToCover s t) \<and> slice_dims (UpdateToCover s t) = slice_dims s \<and>
    points s \<union> points t \<subseteq> points (UpdateToCover s t) \<and>
    (\<forall>u. slice_valid u \<and> slice_dims u = slice_dims s \<and> points s \<union> points t \<subseteq> points u \<longrightarrow>
      points (UpdateToCover s t) \<subseteq> points u)"
proof -
  obtain as bs where st: "s = of_exts as" "list_all ext_valid as" "t = of_exts bs" "list_all ext_valid bs"
    using assms by (metis slice_cases)
  then have len: "length as = length bs" using assms(3) by simp
  have "points (of_exts (map2 ext_join as bs)) \<subseteq> points u"
    if "slice_valid u" "slice_dims u = length as" "points s \<union> points t \<subseteq> points u" for u
  proof -
    obtain us where "u = of_exts us" "list_all ext_valid us" using \<open>slice_valid u\<close> by (rule slice_cases)
    then show ?thesis using that st len map2_join_least [OF st(2,4)] by simp
  qed
  then show ?thesis
    using map2_join_correct [OF st(2,4) len] len by (simp add: st UpdateToCover_of_exts)
qed

text \<open>
  C35: On valid slices the operations are those on boxes of index vectors: \<open>Intersect\<close> gives the
  intersection and returns false exactly when it is empty (slices of different rank never meet),
  \<open>Overlaps\<close> tells whether it is, and \<open>UpdateToCover\<close> gives the smallest slice that contains both.
\<close>

theorem slice_boxes:
  assumes "slice_valid s" "slice_valid t"
  shows "(case Intersect s t of
      None \<Rightarrow> points s \<inter> points t = {}
    | Some r \<Rightarrow> slice_valid r \<and> points r = points s \<inter> points t \<and> points r \<noteq> {}) \<and>
    (Overlaps s t \<longleftrightarrow> points s \<inter> points t \<noteq> {}) \<and>
    (slice_dims s = slice_dims t \<longrightarrow>
      slice_valid (UpdateToCover s t) \<and> points s \<union> points t \<subseteq> points (UpdateToCover s t) \<and>
      (\<forall>u. slice_valid u \<and> slice_dims u = slice_dims s \<and> points s \<union> points t \<subseteq> points u \<longrightarrow>
        points (UpdateToCover s t) \<subseteq> points u))"
proof (intro conjI impI)
  show "case Intersect s t of None \<Rightarrow> points s \<inter> points t = {}
    | Some r \<Rightarrow> slice_valid r \<and> points r = points s \<inter> points t \<and> points r \<noteq> {}"
    using Intersect_correct [OF assms] Overlaps_iff [OF assms] by (auto simp: Overlaps_def split: option.splits)
qed (use Overlaps_iff UpdateToCover_correct assms in \<open>blast+\<close>)

theorem slice_boxes_witness:
  "\<exists>r. Intersect (of_exts [(0, -1), (2, 3)]) (of_exts [(1, 2), (4, 5)]) = Some r \<and>
     points r = points (of_exts [(0, -1), (2, 3)]) \<inter> points (of_exts [(1, 2), (4, 5)])"
proof -
  have "slice_valid (of_exts [(0, -1), (2, 3)])" "slice_valid (of_exts [(1, 2), (4, 5)])"
    by (simp_all add: ext_valid_def ext_full_def kFullExtent_def)
  note boxes = slice_boxes [OF this]
  have "Intersect (of_exts [(0, -1), (2, 3)]) (of_exts [(1, 2), (4, 5)]) = Some (of_exts [(1, 2), (4, 1)])"
    by (simp add: Intersect_of_exts ext_meet_def ext_full_def kFullExtent_def wrap64_id)
  with boxes show ?thesis by auto
qed

section \<open>Slicing a shape\<close>

text \<open>A shape whose number of elements did not wrap around, in any of its beginnings.\<close>

definition honest :: "tensor_shape \<Rightarrow> bool" where
  "honest s \<longleftrightarrow> wf_shape s \<and> (\<forall>k \<le> dims s. prod_list (take k (dim_sizes s)) \<le> kMaxElements)"

definition box :: "int list \<Rightarrow> int list set" where
  "box xs = {idx. list_all2 (\<lambda>i n. 0 \<le> i \<and> i < n) idx xs}"

definition ext_fits :: "int \<Rightarrow> int \<times> int \<Rightarrow> bool" where
  "ext_fits n e \<longleftrightarrow> ext_full e \<or> fst e + snd e \<le> n"

definition ext_size :: "int \<Rightarrow> int \<times> int \<Rightarrow> int" where
  "ext_size n e = (if ext_full e then n else snd e)"

lemma recompute_loop_bounded:
  assumes "0 \<le> n" "list_all (\<lambda>v. 0 \<le> v) xs" "\<And>k. k \<le> length xs \<Longrightarrow> n * prod_list (take k xs) \<le> kMaxElements"
  shows "recompute_loop n xs = Some (n * prod_list xs)"
  using assms
proof (induction xs arbitrary: n)
  case (Cons x xs)
  have nx: "0 \<le> n * x" "n * x \<le> kMaxElements" using Cons.prems(1,2) Cons.prems(3) [of 1] by simp_all
  then have id: "wrap64 (n * x) = n * x" by (intro wrap64_id) (simp_all add: kMaxElements_def)
  have "recompute_loop (n * x) xs = Some (n * x * prod_list xs)"
    using Cons.prems(2) Cons.prems(3) [of "Suc _"] nx(1) by (intro Cons.IH) (simp_all add: mult.assoc)
  then show ?case using nx id by (simp add: mult.assoc)
qed simp

lemma prod_list_mono:
  assumes "list_all2 (\<lambda>y x. 0 \<le> y \<and> y \<le> x) ys xs"
  shows "0 \<le> prod_list ys \<and> prod_list ys \<le> (prod_list xs :: int)"
  using assms by (induction rule: list_all2_induct) (auto intro: mult_mono)

lemma admissible_smaller:
  assumes "honest s" "list_all2 (\<lambda>y x. 0 \<le> y \<and> y \<le> x) ys (take (length ys) (dim_sizes s))"
  shows "admissible ys" "recompute_loop 1 ys = Some (prod_list ys)"
proof -
  have len: "length ys \<le> dims s" using list_all2_lengthD [OF assms(2)] by simp
  have pos: "list_all (\<lambda>v. 0 \<le> v) ys"
    using assms(2) by (auto simp: list_all2_conv_all_nth list_all_length)
  have "1 * prod_list (take k ys) \<le> kMaxElements" if "k \<le> length ys" for k
  proof -
    have "list_all2 (\<lambda>y x. 0 \<le> y \<and> y \<le> x) (take k ys) (take k (dim_sizes s))"
      using list_all2_takeI [OF assms(2), of k] that by (simp add: min_absorb1)
    then have "prod_list (take k ys) \<le> prod_list (take k (dim_sizes s))" using prod_list_mono by blast
    then show ?thesis using assms(1) that len by (auto simp: honest_def intro: order_trans)
  qed
  then show rec: "recompute_loop 1 ys = Some (prod_list ys)"
    using recompute_loop_bounded [of 1 ys] pos by simp
  then show "admissible ys" using pos len dims_le [of s] by (simp add: admissible_def)
qed

lemma slice_shape_loop_eq:
  assumes "wf_shape result" "length pre = d" "d + length es = dims shape" "list_all ext_valid es"
    and "\<And>k. k \<le> length es \<Longrightarrow> list_all2 ext_fits (take k (drop d (dim_sizes shape))) (take k es) \<Longrightarrow>
      admissible (dim_sizes result @ take k (map2 ext_size (drop d (dim_sizes shape)) es))"
  shows "if list_all2 ext_fits (drop d (dim_sizes shape)) es
    then (\<exists>h. slice_shape_loop (length es) d (of_exts (pre @ es)) shape result = Some (Inr h) \<and> wf_shape h \<and>
      dim_sizes h = dim_sizes result @ map2 ext_size (drop d (dim_sizes shape)) es)
    else slice_shape_loop (length es) d (of_exts (pre @ es)) shape result = Some (Inl INTERNAL)"
  using assms
proof (induction es arbitrary: pre d result)
  case (Cons e es)
  let ?n = "dim_size shape d"
  have d: "d < dims shape" "drop d (dim_sizes shape) = ?n # drop (Suc d) (dim_sizes shape)"
    using Cons.prems(3) by (simp_all add: Cons_nth_drop_Suc [symmetric] dim_sizes_nth)
  have at: "IsFullAt (of_exts (pre @ e # es)) d = ext_full e" "length_at (of_exts (pre @ e # es)) d = snd e"
      "end_at (of_exts (pre @ e # es)) d = wrap64 (fst e + snd e)"
    using Cons.prems(2) by (simp_all add: at_of_exts nth_append)
  have wrap: "\<not> ext_full e \<Longrightarrow> wrap64 (fst e + snd e) = fst e + snd e"
    using Cons.prems(4) by (auto simp: ext_valid_def intro!: wrap64_id)
  show ?case
  proof (cases "ext_fits ?n e")
    case False
    then show ?thesis using wrap by (simp add: d at ext_fits_def)
  next
    case True
    have "admissible (dim_sizes result @ [ext_size ?n e])" using Cons.prems(5) [of 1] True by (simp add: d)
    then obtain r where r: "AddDim (ext_size ?n e) result = Some r" "wf_shape r" "dim_sizes r = dim_sizes result @ [ext_size ?n e]"
      using AddDim_gives [OF Cons.prems(1), of "ext_size ?n e"] by (auto simp: gives_def split: option.splits)
    then have step: "slice_shape_loop (length (e # es)) d (of_exts (pre @ e # es)) shape result =
        slice_shape_loop (length es) (Suc d) (of_exts ((pre @ [e]) @ es)) shape r"
      using True wrap by (auto simp: at ext_fits_def ext_size_def)
    have IH: "if list_all2 ext_fits (drop (Suc d) (dim_sizes shape)) es
      then (\<exists>h. slice_shape_loop (length es) (Suc d) (of_exts ((pre @ [e]) @ es)) shape r = Some (Inr h) \<and> wf_shape h \<and>
        dim_sizes h = dim_sizes r @ map2 ext_size (drop (Suc d) (dim_sizes shape)) es)
      else slice_shape_loop (length es) (Suc d) (of_exts ((pre @ [e]) @ es)) shape r = Some (Inl INTERNAL)"
      using Cons.prems r(2,3) Cons.prems(5) [of "Suc _"] True by (intro Cons.IH) (simp_all add: d)
    show ?thesis using IH True unfolding step r(3) d(2) by auto
  qed
qed simp

lemma box_simps: "box [] = {[]}" "box (n # xs) = case_prod (#) ` ({0..<n} \<times> box xs)"
  by (auto simp: box_def list_all2_Cons2 image_iff)

lemma card_cons_image: "card (case_prod (#) ` (A \<times> X)) = card A * card X"
  by (subst card_image) (auto simp: inj_on_def card_cartesian_product)

lemma finite_box: "finite (box xs)"
  by (induction xs) (simp_all add: box_simps)

lemma ext_card:
  assumes "ext_valid e" "ext_fits n e" "0 \<le> n"
  shows "int (card (ext_set e \<inter> {0..<n})) = ext_size n e" "0 \<le> ext_size n e" "ext_size n e \<le> n"
proof -
  have "ext_set e \<inter> {0..<n} = (if ext_full e then {0..<n} else {fst e..<fst e + snd e})"
    using assms by (auto simp: ext_set_def ext_valid_def ext_fits_def)
  then show "int (card (ext_set e \<inter> {0..<n})) = ext_size n e" "0 \<le> ext_size n e" "ext_size n e \<le> n"
    using assms by (auto simp: ext_size_def ext_valid_def ext_fits_def)
qed

lemma card_points_box:
  assumes "list_all ext_valid es" "list_all2 ext_fits xs es" "list_all (\<lambda>v. 0 \<le> v) xs"
  shows "int (card (points (of_exts es) \<inter> box xs)) = prod_list (map2 ext_size xs es)"
  using assms(2,1,3)
  by (induction rule: list_all2_induct)
    (simp_all add: points_Nil box_simps points_Cons cons_image_Int card_cons_image ext_card)

lemma ext_size_bounds:
  assumes "list_all ext_valid es" "list_all2 ext_fits xs es" "list_all (\<lambda>v. 0 \<le> v) xs"
  shows "list_all2 (\<lambda>y x. 0 \<le> y \<and> y \<le> x) (map2 ext_size xs es) xs"
  using assms(2,1,3) by (induction rule: list_all2_induct) (simp_all add: ext_card)

definition slice_fits :: "tensor_slice \<Rightarrow> tensor_shape \<Rightarrow> bool" where
  "slice_fits s shape \<longleftrightarrow> list_all2 ext_fits (dim_sizes shape) (exts s)"

text \<open>
  Slicing a shape succeeds exactly when the slice has the rank of the shape and every extent
  ends inside its dimension; the result has the lengths of the extents as sizes and as many
  elements as there are indices of the tensor in the slice.
\<close>

lemma SliceTensorShape_correct:
  assumes "honest shape" "slice_valid s"
  shows "if slice_fits s shape
    then (\<exists>h. SliceTensorShape s shape = Some (Inr h) \<and> wf_shape h \<and>
      dim_sizes h = map2 ext_size (dim_sizes shape) (exts s) \<and>
      num_elements h = int (card (points s \<inter> box (dim_sizes shape))))
    else SliceTensorShape s shape = Some (Inl INTERNAL)"
proof -
  obtain es where s: "s = of_exts es" "list_all ext_valid es" using assms(2) by (rule slice_cases)
  have pos: "list_all (\<lambda>v. 0 \<le> v) (dim_sizes shape)" using assms(1) by (simp add: honest_def wf_shape_def)
  show ?thesis
  proof (cases "dims shape = length es")
    case False
    then have "\<not> slice_fits s shape" by (auto simp: slice_fits_def s dest: list_all2_lengthD)
    with False show ?thesis by (simp add: SliceTensorShape_def s)
  next
    case True
    have adm: "admissible (dim_sizes empty_shape @ take k (map2 ext_size (drop 0 (dim_sizes shape)) es))"
      if "k \<le> length es" "list_all2 ext_fits (take k (drop 0 (dim_sizes shape))) (take k es)" for k
    proof -
      have "list_all ext_valid (take k es)" "list_all (\<lambda>v. 0 \<le> v) (take k (dim_sizes shape))"
        using s(2) pos by (auto simp: list_all_iff dest: in_set_takeD)
      then have "list_all2 (\<lambda>y x. 0 \<le> y \<and> y \<le> x) (map2 ext_size (take k (dim_sizes shape)) (take k es)) (take k (dim_sizes shape))"
        using that(2) ext_size_bounds by simp
      then show ?thesis
        using admissible_smaller(1) [OF assms(1)] that(1) True
        by (simp add: wf_empty take_map take_zip min_absorb1)
    qed
    have loop: "SliceTensorShape s shape = slice_shape_loop (length es) 0 (of_exts ([] @ es)) shape empty_shape"
      using True by (simp add: SliceTensorShape_def s(1))
    have eq: "if list_all2 ext_fits (drop 0 (dim_sizes shape)) es
      then (\<exists>h. SliceTensorShape s shape = Some (Inr h) \<and> wf_shape h \<and>
        dim_sizes h = dim_sizes empty_shape @ map2 ext_size (drop 0 (dim_sizes shape)) es)
      else SliceTensorShape s shape = Some (Inl INTERNAL)"
      unfolding loop using True by (intro slice_shape_loop_eq wf_empty s(2) adm) simp_all
    show ?thesis
    proof (cases "slice_fits s shape")
      case False
      then show ?thesis using eq by (simp add: slice_fits_def s(1))
    next
      case fits: True
      then obtain h where h: "SliceTensorShape s shape = Some (Inr h)" "wf_shape h" "dim_sizes h = map2 ext_size (dim_sizes shape) es"
        using eq by (auto simp: slice_fits_def s(1) wf_empty)
      have "recompute_loop 1 (dim_sizes h) = Some (prod_list (dim_sizes h))"
        using admissible_smaller(2) [OF assms(1), of "dim_sizes h"] ext_size_bounds [OF s(2) _ pos] fits True
        by (simp add: h(3) slice_fits_def s(1))
      then have "num_elements h = prod_list (dim_sizes h)" using h(2) by (simp add: wf_shape_def num_elements_def)
      then show ?thesis
        using h fits card_points_box [OF s(2) _ pos] by (simp add: slice_fits_def s(1))
    qed
  qed
qed

lemma honest_TensorShape:
  assumes "list_all (\<lambda>v. 0 \<le> v) xs" "length xs \<le> MaxDimensions" "\<And>k. k \<le> length xs \<Longrightarrow> prod_list (take k xs) \<le> kMaxElements"
  shows "\<exists>s. TensorShape xs = Some s \<and> honest s \<and> dim_sizes s = xs"
proof -
  have "admissible xs" using recompute_loop_bounded [of 1 xs] assms by (simp add: admissible_def)
  then show ?thesis
    using TensorShape_gives [of xs] assms(3) by (auto simp: gives_def honest_def split: option.splits)
qed

section \<open>Relative slices\<close>

definition ext_rel :: "int \<times> int \<Rightarrow> int \<times> int \<Rightarrow> int \<times> int" where
  "ext_rel a c = (if ext_full a then c else (wrap64 (fst c - fst a), snd c))"

lemma relative_loop_eq:
  assumes "length as = length cs" "length pre = d" "length pre' = d" "length ys = d"
  shows "relative_loop (length as) d (of_exts (pre @ as)) (of_exts (pre' @ cs)) (of_exts (ys @ replicate (length as) (0, kFullExtent))) =
    of_exts (ys @ map2 ext_rel as cs)"
  using assms
proof (induction as cs arbitrary: pre pre' ys d rule: list_induct2')
  case (4 a as c cs)
  have "relative_loop (length cs) (Suc d) (of_exts (pre @ a # as)) (of_exts (pre' @ c # cs))
      (of_exts (ys @ e # replicate (length cs) (0, kFullExtent))) = of_exts (ys @ e # map2 ext_rel as cs)" for e
    using 4(1) [of "pre @ [a]" "Suc d" "pre' @ [c]" "ys @ [e]"] 4(2-) by simp
  then show ?case
    using 4(2-) by (simp add: at_of_exts nth_append list_update_append ext_rel_def)
qed simp_all

lemma ext_rel_correct:
  assumes "ext_valid a" "ext_valid c" "ext_set c \<subseteq> ext_set a"
  shows "ext_valid (ext_rel a c)" "i \<in> ext_set c \<longleftrightarrow> i - fst a \<in> ext_set (ext_rel a c)"
proof -
  have "ext_valid (ext_rel a c) \<and> (i \<in> ext_set c \<longleftrightarrow> i - fst a \<in> ext_set (ext_rel a c))"
  proof (cases "ext_full a")
    case True
    then show ?thesis using assms by (simp add: ext_rel_def ext_full_def)
  next
    case False
    then have a: "ext_set a = {fst a..<fst a + snd a}" "0 \<le> fst a" "fst a + snd a < 2 ^ 63"
      using assms(1) by (auto simp: ext_set_def ext_valid_def)
    have "\<not> ext_full c"
    proof
      assume "ext_full c"
      then have "fst a + snd a \<in> ext_set c \<or> fst a + snd a < 0" by (auto simp: ext_set_def)
      then show False using assms(1,3) a False by (auto simp: ext_valid_def)
    qed
    then have c: "ext_set c = {fst c..<fst c + snd c}" "0 \<le> fst c" "0 < snd c" "fst c + snd c < 2 ^ 63"
      using assms(2) by (auto simp: ext_set_def ext_valid_def)
    have "fst c \<in> ext_set a" using assms(3) c by auto
    then have le: "fst a \<le> fst c" unfolding a by simp
    have "wrap64 (fst c - fst a) = fst c - fst a" using a c le by (intro wrap64_id) auto
    moreover have "\<not> ext_full (fst c - fst a, snd c)" using c by (auto simp: ext_full_def kFullExtent_def)
    ultimately show ?thesis using False a c le by (auto simp: ext_rel_def ext_set_def ext_valid_def)
  qed
  then show "ext_valid (ext_rel a c)" "i \<in> ext_set c \<longleftrightarrow> i - fst a \<in> ext_set (ext_rel a c)" by auto
qed

text \<open>The relative slice is the sub-slice with its indices counted from the start of the slice.\<close>

lemma ComputeRelative_correct:
  assumes "slice_valid s" "slice_valid sub" "points sub \<subseteq> points s" "slice_dims sub = slice_dims s"
  shows "slice_valid (ComputeRelative s sub)"
    "length idx = slice_dims s \<Longrightarrow> idx \<in> points sub \<longleftrightarrow> map2 (-) idx (starts s) \<in> points (ComputeRelative s sub)"
proof -
  obtain as cs where e: "s = of_exts as" "list_all ext_valid as" "sub = of_exts cs" "list_all ext_valid cs"
    using assms(1,2) by (metis slice_cases)
  have len: "length cs = length as" using assms(4) e by simp
  have rel: "ComputeRelative s sub = of_exts (map2 ext_rel as cs)"
    using relative_loop_eq [of as cs "[]" 0 "[]" "[]"] len by (simp add: ComputeRelative_def SetFullSlice_eq e)
  have "list_all2 (\<lambda>c a. ext_set c \<subseteq> ext_set a) cs as"
    using assms(3) e len by (simp add: points_subset_iff)
  then have nth: "ext_valid (as ! k)" "ext_valid (cs ! k)" "ext_set (cs ! k) \<subseteq> ext_set (as ! k)" if "k < length as" for k
    using that e len by (auto simp: list_all2_conv_all_nth list_all_length)
  show "slice_valid (ComputeRelative s sub)"
    using nth len by (simp add: rel list_all_length ext_rel_correct(1))
  show "idx \<in> points sub \<longleftrightarrow> map2 (-) idx (starts s) \<in> points (ComputeRelative s sub)" if "length idx = slice_dims s"
    using that nth len ext_rel_correct(2) [OF nth]
    by (simp add: rel [unfolded e] e points_of_exts list_all2_conv_all_nth fields_of_exts)
qed

section \<open>Slices as text\<close>

definition int_text :: "int \<Rightarrow> string" where
  "int_text k = FastInt64ToBufferLeft (word_of_int k)"

definition extent_text :: "int \<times> int \<Rightarrow> string" where
  "extent_text e = (if ext_full e then ''-'' else int_text (fst e) @ '','' @ int_text (snd e))"

lemma int_text_chars: "c \<in> set (int_text k) \<Longrightarrow> isdigit c \<or> c = CHR ''-''" "int_text k \<noteq> []"
  using digits_loop_isdigit digits_loop_not_Nil
  by (auto simp: int_text_def FastInt64ToBufferLeft_def FastUInt64ToBufferLeft_def list_all_iff split: if_splits)

lemma int_text_no_delims: "CHR '','' \<notin> set (int_text k)" "CHR '':'' \<notin> set (int_text k)"
  using int_text_chars(1) [of "CHR '',''" k] int_text_chars(1) [of "CHR '':''" k]
  by (auto simp: isdigit_def between_def)

lemma extent_text_no_colon: "CHR '':'' \<notin> set (extent_text e)" "extent_text e \<noteq> []"
  using int_text_no_delims by (auto simp: extent_text_def)

lemma split_loop_append:
  "d \<notin> set t \<Longrightarrow> split_loop d tok (t @ d # r) = (tok @ t) # split_loop d [] r"
  "d \<notin> set t \<Longrightarrow> split_loop d tok t = [tok @ t]"
  by (induction t arbitrary: tok) auto

lemma split_loop_join:
  "split_loop CHR '':'' [] (extent_text e @ concat (map (\<lambda>e. CHR '':'' # extent_text e) es)) = extent_text e # map extent_text es"
proof (induction es arbitrary: e)
  case Nil
  then show ?case by (simp add: split_loop_append extent_text_no_colon)
next
  case (Cons e' es)
  then show ?case
    using split_loop_append(1) [OF extent_text_no_colon(1) [of e], of "[]"
        "extent_text e' @ concat (map (\<lambda>e. CHR '':'' # extent_text e) es)"] by simp
qed

lemma DebugString_of_exts:
  "DebugString_slice (of_exts []) = []"
  "DebugString_slice (of_exts (e # es)) = extent_text e @ concat (map (\<lambda>e. CHR '':'' # extent_text e) es)"
proof -
  have ext: "(if IsFullAt (of_exts xs) d then ''-'' else FastInt64ToBufferLeft (word_of_int (starts (of_exts xs) ! d)) @ '','' @
      FastInt64ToBufferLeft (word_of_int (lengths (of_exts xs) ! d))) = extent_text (xs ! d)" if "d < length xs" for xs d
    using that by (simp add: at_of_exts extent_text_def int_text_def fields_of_exts)
  show "DebugString_slice (of_exts []) = []" by (simp add: DebugString_slice_def)
  have "DebugString_slice (of_exts (e # es)) =
      concat (map (\<lambda>d. (if d = 0 then [] else '':'') @ extent_text ((e # es) ! d)) [0..<Suc (length es)])"
    unfolding DebugString_slice_def
    by (intro arg_cong [where f = concat] map_cong arg_cong2 [where f = append] refl ext) auto
  also have "[0..<Suc (length es)] = 0 # map Suc [0..<length es]" by (simp add: map_Suc_upt upt_conv_Cons del: upt_Suc)
  also have "concat (map (\<lambda>d. (if d = 0 then [] else '':'') @ extent_text ((e # es) ! d)) (0 # map Suc [0..<length es])) =
      extent_text e @ concat (map (\<lambda>d. CHR '':'' # extent_text (es ! d)) [0..<length es])"
    by (simp add: comp_def)
  also have "map (\<lambda>d. CHR '':'' # extent_text (es ! d)) [0..<length es] = map (\<lambda>e. CHR '':'' # extent_text e) es"
    by (rule nth_equalityI) simp_all
  finally show "DebugString_slice (of_exts (e # es)) = extent_text e @ concat (map (\<lambda>e. CHR '':'' # extent_text e) es)" .
qed

lemma Split_DebugString: "Split_text (DebugString_slice (of_exts es)) CHR '':'' SkipEmpty = map extent_text es"
proof (cases es)
  case (Cons e fs)
  have "filter SkipEmpty (map extent_text es) = map extent_text es"
    using extent_text_no_colon(2) by (simp add: SkipEmpty_def)
  then show ?thesis
    using extent_text_no_colon(2) [of e] split_loop_join [of e fs] by (simp add: Split_text_def DebugString_of_exts Cons)
qed (simp add: Split_text_def DebugString_of_exts)

lemma sint_int64: "- (2 ^ 63) \<le> k \<Longrightarrow> k < 2 ^ 63 \<Longrightarrow> sint (word_of_int k :: 64 word) = k"
  by (simp add: signed_of_int signed_take_bit_int_eq_self)

lemma parse_int_text: "safe_strto64 (int_text k) = Some (word_of_int k)"
  by (simp add: int_text_def safe_strto64_FastInt64)

lemma parse_pair_text:
  assumes "0 \<le> a" "0 < b" "a < 2 ^ 63" "b < 2 ^ 63"
  shows "parse_extent (int_text a @ '','' @ int_text b) = Inr (a, b)"
proof -
  have "int_text a @ '','' @ int_text b \<noteq> ''-''" using int_text_chars(2) [of a] by (cases "int_text a") auto
  moreover have "Split_text (int_text a @ '','' @ int_text b) CHR '','' SkipEmpty = [int_text a, int_text b]"
    using split_loop_append(1) [OF int_text_no_delims(1) [of a], of "[]" "int_text b"]
      split_loop_append(2) [OF int_text_no_delims(1) [of b], of "[]"]
    by (simp add: Split_text_def SkipEmpty_def int_text_chars(2))
  ultimately show ?thesis
    using assms by (simp add: parse_extent_def Let_def parse_int_text sint_int64)
qed

lemma parse_extent_text:
  assumes "ext_valid e"
  shows "parse_extent (extent_text e) = Inr e"
proof (cases "ext_full e")
  case True
  then show ?thesis by (simp add: extent_text_def parse_extent_def ext_full_def)
next
  case False
  then show ?thesis
    using assms parse_pair_text [of "fst e" "snd e"] by (auto simp: extent_text_def ext_valid_def)
qed

lemma parse_items_text:
  "list_all ext_valid es \<Longrightarrow> parse_items (map extent_text es) (of_exts pre) = Inr (of_exts (pre @ es))"
proof (induction es arbitrary: pre)
  case (Cons e es)
  have "\<lparr>starts = starts (of_exts pre) @ [fst e], lengths = lengths (of_exts pre) @ [snd e]\<rparr> = of_exts (pre @ [e])"
    by (simp add: of_exts_def)
  then show ?case using Cons.prems Cons.IH [of "pre @ [e]"] by (cases e) (simp add: parse_extent_text)
qed simp

lemma Parse_DebugString: "slice_valid s \<Longrightarrow> Parse_slice (DebugString_slice s) empty_slice = Inr s"
proof (elim slice_cases)
  fix es assume "s = of_exts es" "list_all ext_valid es"
  then show ?thesis
    using parse_items_text [of es "[]"] by (simp add: Parse_slice_def Split_DebugString empty_slice_eq)
qed

lemma DebugString_inject: "slice_valid s \<Longrightarrow> slice_valid t \<Longrightarrow> DebugString_slice s = DebugString_slice t \<longleftrightarrow> s = t"
  by (metis Parse_DebugString sum.inject(2))

lemma proto_roundtrip: "slice_valid s \<Longrightarrow> slice_of_proto (AsProto_slice s) = s"
proof (elim slice_cases)
  fix es assume s: "s = of_exts es"
  have "map fst (AsProto_slice s) = map fst es" "map GetExtentLength (AsProto_slice s) = map snd es"
    by (rule nth_equalityI; auto simp: AsProto_slice_def s at_of_exts ext_full_def GetExtentLength_def kFullExtent_def
        fields_of_exts)+
  then show ?thesis by (simp add: slice_of_proto_def s of_exts_def)
qed

text \<open>
  C36: A valid slice is read back from its text and from its protocol buffer. \<open>Parse\<close> does not
  reject an extent whose end does not fit 64 bits: the end wraps around to a negative number, and
  slicing any shape of rank one succeeds with a slice that lies outside the tensor.
\<close>

theorem slice_text_roundtrip:
  "(slice_valid s \<longrightarrow> Parse_slice (DebugString_slice s) empty_slice = Inr s \<and> slice_of_proto (AsProto_slice s) = s) \<and>
   (wf_shape shape \<and> dims shape = 1 \<longrightarrow>
     (\<exists>t h. Parse_slice ''9223372036854775807,1'' empty_slice = Inr t \<and> SliceTensorShape t shape = Some (Inr h) \<and>
       dim_sizes h = [1] \<and> points t = {[2 ^ 63 - 1]}))"
proof (intro conjI impI)
  show "Parse_slice (DebugString_slice s) empty_slice = Inr s" "slice_of_proto (AsProto_slice s) = s" if "slice_valid s"
    using that by (rule Parse_DebugString, rule proto_roundtrip)
  assume shape: "wf_shape shape \<and> dims shape = 1"
  let ?x = "''9223372036854775807,1''" and ?t = "of_exts [(2 ^ 63 - 1, 1)]"
  have spelled: "int_text (2 ^ 63 - 1) @ '','' @ int_text 1 = ?x"
    by (simp add: int_text_def FastInt64ToBufferLeft_def FastUInt64ToBufferLeft_def digits_loop.simps
        char_of_def bit_0)
  have "parse_extent ?x = Inr (2 ^ 63 - 1, 1)" using parse_pair_text [of "2 ^ 63 - 1" 1] unfolding spelled by simp
  moreover have "Split_text ?x CHR '':'' SkipEmpty = [?x]" by (simp add: Split_text_def SkipEmpty_def)
  ultimately have parse: "Parse_slice ?x empty_slice = Inr ?t"
    by (simp add: Parse_slice_def empty_slice_eq of_exts_def)
  have "0 \<le> dim_size shape 0"
    using shape by (auto simp: wf_shape_def list_all_iff dim_sizes_def)
  moreover have "wrap64 (2 ^ 63) = - (2 ^ 63)" by (simp add: wrap64_mod)
  moreover have "admissible [1]" by (simp add: admissible_def MaxDimensions_def kMaxElements_def wrap64_id Let_def)
  then obtain h where h: "AddDim 1 empty_shape = Some h" "dim_sizes h = [1]"
    using AddDim_gives [OF wf_empty(1), of 1] by (auto simp: gives_def wf_empty split: option.splits)
  ultimately have "SliceTensorShape ?t shape = Some (Inr h)"
    using shape by (simp add: SliceTensorShape_def at_of_exts ext_full_def)
  moreover have "points ?t = {[2 ^ 63 - 1]}"
    by (auto simp: points_Cons points_Nil ext_set_def ext_full_def)
  ultimately show "\<exists>t h. Parse_slice ?x empty_slice = Inr t \<and> SliceTensorShape t shape = Some (Inr h) \<and>
       dim_sizes h = [1] \<and> points t = {[2 ^ 63 - 1]}"
    using parse h by blast
qed

theorem slice_text_roundtrip_witness:
  "DebugString_slice (of_exts [(0, 10), (0, -1), (14, 1)]) = ''0,10:-:14,1'' \<and>
   Parse_slice ''0,10:-:14,1'' empty_slice = Inr (of_exts [(0, 10), (0, -1), (14, 1)])"
proof -
  have spelled: "DebugString_slice (of_exts [(0, 10), (0, -1), (14, 1)]) = ''0,10:-:14,1''"
    by (simp add: DebugString_of_exts extent_text_def int_text_def FastInt64ToBufferLeft_def FastUInt64ToBufferLeft_def
        digits_loop.simps ext_full_def kFullExtent_def char_of_def bit_0)
  have "slice_valid (of_exts [(0, 10), (0, -1), (14, 1)])"
    by (simp add: ext_valid_def ext_full_def kFullExtent_def)
  then show ?thesis using slice_text_roundtrip [of "of_exts [(0, 10), (0, -1), (14, 1)]"] spelled by simp
qed

end
