(* ===== verification/Tensor_Slice_Set.thy ===== *)
theory Tensor_Slice_Set
  imports Tensor_Slice "HOL-Library.Multiset"
begin

text \<open>
  The slices of one tensor in a checkpoint: \<open>util/tensor_slice_set.cc\<close>.

  The map from slice texts to slices is a list of its entries in the order in which iteration
  visits them. Data pointers are opaque; the copying of the data in \<open>Query\<close> is Eigen code and left
  out, its answer is modelled. The outer option is a failed check of a shape.
\<close>

section \<open>Operations\<close>

record 'f slice_info =
  info_slice :: tensor_slice
  info_tag :: string
  info_data :: "'f option"
  num_floats :: int

record 'f slice_set =
  ss_shape :: tensor_shape
  ss_type :: nat
  ss_slices :: "(string \<times> 'f slice_info) list"
  ss_hull :: tensor_slice

definition TensorSliceSet :: "tensor_shape \<Rightarrow> nat \<Rightarrow> 'f slice_set" where
  "TensorSliceSet shape ty = \<lparr>ss_shape = shape, ss_type = ty, ss_slices = [], ss_hull = empty_slice\<rparr>"

definition insert_slice :: "string \<Rightarrow> 'f slice_info \<Rightarrow> 'f slice_set \<Rightarrow> 'f slice_set" where
  "insert_slice str info s =
     (if map_of (ss_slices s) str = None then s\<lparr>ss_slices := (str, info) # ss_slices s\<rparr> else s)"

definition Register :: "tensor_slice \<Rightarrow> string \<Rightarrow> 'f option \<Rightarrow> 'f slice_set \<Rightarrow> (code option \<times> 'f slice_set) option" where
  "Register sl tag data s =
     (case SliceTensorShape sl (ss_shape s) of
        None \<Rightarrow> None
      | Some (Inl e) \<Rightarrow> Some (Some e, s)
      | Some (Inr result_shape) \<Rightarrow>
          let str = DebugString_slice sl;
              info = \<lparr>info_slice = sl, info_tag = tag, info_data = data, num_floats = num_elements result_shape\<rparr>
          in if ss_slices s = [] then Some (None, insert_slice str info (s\<lparr>ss_hull := sl\<rparr>))
             else if Overlaps (ss_hull s) sl \<and> list_ex (\<lambda>x. Overlaps sl (info_slice (snd x))) (ss_slices s)
             then Some (Some INTERNAL, s)
             else Some (None, insert_slice str info (s\<lparr>ss_hull := UpdateToCover (ss_hull s) sl\<rparr>)))"

text \<open>The loop of the queries: the overlap so far and the results so far.\<close>

fun query_loop :: "tensor_slice \<Rightarrow> tensor_shape \<Rightarrow> (string \<times> 'f slice_info) list \<Rightarrow> int \<Rightarrow> (tensor_slice \<times> string) list \<Rightarrow>
    (bool \<times> int \<times> (tensor_slice \<times> string) list) option" where
  "query_loop sl shape [] overlap_size results = Some (True, overlap_size, results)"
| "query_loop sl shape (x # xs) overlap_size results =
     (case Intersect sl (info_slice (snd x)) of
        None \<Rightarrow> query_loop sl shape xs overlap_size results
      | Some common \<Rightarrow>
          (case SliceTensorShape common shape of
             None \<Rightarrow> None
           | Some (Inl e) \<Rightarrow> Some (False, overlap_size, results)
           | Some (Inr inter_shape) \<Rightarrow>
               query_loop sl shape xs (wrap64 (overlap_size + num_elements inter_shape))
                 (results @ [(info_slice (snd x), info_tag (snd x))])))"

definition QueryMeta :: "tensor_slice \<Rightarrow> 'f slice_set \<Rightarrow> (bool \<times> (tensor_slice \<times> string) list) option" where
  "QueryMeta sl s =
     (case map_of (ss_slices s) (DebugString_slice sl) of
        Some info \<Rightarrow> Some (True, [(info_slice info, info_tag info)])
      | None \<Rightarrow>
          (case SliceTensorShape sl (ss_shape s) of
             None \<Rightarrow> None
           | Some (Inl e) \<Rightarrow> Some (False, [])
           | Some (Inr target_shape) \<Rightarrow>
               (case query_loop sl (ss_shape s) (ss_slices s) 0 [] of
                  None \<Rightarrow> None
                | Some (False, _, results) \<Rightarrow> Some (False, results)
                | Some (True, overlap_size, results) \<Rightarrow>
                    if num_elements target_shape = overlap_size then Some (True, results) else Some (False, []))))"

text \<open>\<open>Query\<close> has the same structure; with no data to fill it returns the same answer.\<close>

definition Query :: "tensor_slice \<Rightarrow> 'f slice_set \<Rightarrow> bool option" where
  "Query sl s =
     (case map_of (ss_slices s) (DebugString_slice sl) of
        Some info \<Rightarrow> Some True
      | None \<Rightarrow>
          (case SliceTensorShape sl (ss_shape s) of
             None \<Rightarrow> None
           | Some (Inl e) \<Rightarrow> Some False
           | Some (Inr target_shape) \<Rightarrow>
               (case query_loop sl (ss_shape s) (ss_slices s) 0 [] of
                  None \<Rightarrow> None
                | Some (False, _, _) \<Rightarrow> Some False
                | Some (True, overlap_size, _) \<Rightarrow> Some (num_elements target_shape = overlap_size))))"

definition RegisterTensorSlice :: "string \<Rightarrow> tensor_shape \<Rightarrow> nat \<Rightarrow> string \<Rightarrow> tensor_slice \<Rightarrow>
    (string \<rightharpoonup> 'f slice_set) \<Rightarrow> (code option \<times> (string \<rightharpoonup> 'f slice_set)) option" where
  "RegisterTensorSlice name shape ty tag sl tensor_slices =
     (let known = tensor_slices name;
          tss = (case known of None \<Rightarrow> TensorSliceSet shape ty | Some t \<Rightarrow> t)
      in if known \<noteq> None \<and> \<not> IsSameSize shape (ss_shape tss) then Some (Some INTERNAL, tensor_slices)
         else if known \<noteq> None \<and> ty \<noteq> ss_type tss then Some (Some INTERNAL, tensor_slices)
         else map_option (\<lambda>(st, tss). (st, tensor_slices(name \<mapsto> tss))) (Register sl tag None tss))"

section \<open>The invariant\<close>

definition registered :: "'f slice_set \<Rightarrow> tensor_slice list" where
  "registered s = map (\<lambda>x. info_slice (snd x)) (ss_slices s)"

definition set_inv :: "'f slice_set \<Rightarrow> bool" where
  "set_inv s \<longleftrightarrow> honest (ss_shape s) \<and>
     (\<forall>x \<in> set (ss_slices s). fst x = DebugString_slice (info_slice (snd x)) \<and> slice_valid (info_slice (snd x)) \<and>
        slice_fits (info_slice (snd x)) (ss_shape s)) \<and>
     sorted_wrt (\<lambda>a b. points a \<inter> points b = {}) (registered s) \<and>
     (registered s \<noteq> [] \<longrightarrow> slice_valid (ss_hull s) \<and> slice_dims (ss_hull s) = dims (ss_shape s) \<and>
        (\<forall>a \<in> set (registered s). points a \<subseteq> points (ss_hull s)))"

lemma slice_fits_dims: "slice_valid s \<Longrightarrow> slice_fits s shape \<Longrightarrow> slice_dims s = dims shape"
  by (auto simp: slice_fits_def exts_def slice_valid_def slice_dims_def dest: list_all2_lengthD)

lemma registered_iff:
  "set_inv s \<Longrightarrow> a \<in> set (registered s) \<Longrightarrow> slice_valid a \<and> slice_fits a (ss_shape s)"
  by (auto simp: set_inv_def registered_def)

lemma map_of_registered:
  assumes "set_inv s" "slice_valid a"
  shows "map_of (ss_slices s) (DebugString_slice a) = None \<longleftrightarrow> a \<notin> set (registered s)"
    "map_of (ss_slices s) (DebugString_slice a) = Some info \<Longrightarrow> info_slice info = a"
proof -
  have key: "fst x = DebugString_slice a \<longleftrightarrow> info_slice (snd x) = a" if "x \<in> set (ss_slices s)" for x
    using assms that by (auto simp: set_inv_def DebugString_inject)
  show "map_of (ss_slices s) (DebugString_slice a) = None \<longleftrightarrow> a \<notin> set (registered s)"
  proof -
    have "(DebugString_slice a \<in> fst ` set (ss_slices s)) \<longleftrightarrow> (\<exists>x \<in> set (ss_slices s). fst x = DebugString_slice a)"
      by (metis image_iff)
    also have "\<dots> \<longleftrightarrow> (\<exists>x \<in> set (ss_slices s). info_slice (snd x) = a)" using key by (simp cong: bex_cong)
    also have "\<dots> \<longleftrightarrow> a \<in> set (registered s)" by (auto simp: registered_def)
    finally show ?thesis by (simp add: map_of_eq_None_iff)
  qed
  show "info_slice info = a" if "map_of (ss_slices s) (DebugString_slice a) = Some info"
    using key [OF map_of_SomeD [OF that]] by simp
qed

lemma sorted_wrt_distinct:
  assumes "sorted_wrt R xs" "a \<in> set xs" "b \<in> set xs" "a \<noteq> b" and sym: "\<And>x y. R x y \<Longrightarrow> R y x"
  shows "R a b"
  using assms(1-4) by (induction xs) (auto intro: sym)

lemma registered_disjoint:
  assumes "set_inv s" "a \<in> set (registered s)" "b \<in> set (registered s)" "a \<noteq> b"
  shows "points a \<inter> points b = {}"
  using assms sorted_wrt_distinct [of "\<lambda>a b. points a \<inter> points b = {}" "registered s" a b]
  unfolding set_inv_def by blast

lemma sorted_wrt_perm:
  assumes "sorted_wrt R xs" "mset ys = mset xs" and sym: "\<And>x y. R x y \<Longrightarrow> R y x"
  shows "sorted_wrt R ys"
  using assms(1,2)
proof (induction ys arbitrary: xs)
  case (Cons y ys)
  then have "y \<in> set xs" by (metis list.set_intros(1) mset_eq_setD)
  then obtain l r where xs: "xs = l @ y # r" by (meson split_list)
  then have "mset ys = mset (l @ r)" using Cons.prems(2) by simp
  moreover have "sorted_wrt R (l @ r)" "\<forall>z \<in> set (l @ r). R y z"
    using Cons.prems(1) sym by (auto simp: xs sorted_wrt_append)
  moreover have "set ys = set (l @ r)" using \<open>mset ys = mset (l @ r)\<close> by (rule mset_eq_setD)
  ultimately show ?case using Cons.IH [of "l @ r"] by simp
qed simp

text \<open>The order in which the entries are visited does not matter.\<close>

lemma set_inv_perm:
  assumes "set_inv s" "mset xs = mset (ss_slices s)"
  shows "set_inv (s\<lparr>ss_slices := xs\<rparr>)"
proof -
  have eq: "set xs = set (ss_slices s)" using assms(2) by (rule mset_eq_setD)
  have "mset (map (\<lambda>x. info_slice (snd x)) xs) = mset (registered s)" using assms(2) by (simp add: registered_def)
  moreover have "sorted_wrt (\<lambda>a b. points a \<inter> points b = {}) (registered s)" using assms(1) by (simp add: set_inv_def)
  ultimately have "sorted_wrt (\<lambda>a b. points a \<inter> points b = {}) (map (\<lambda>x. info_slice (snd x)) xs)"
    using sorted_wrt_perm [of "\<lambda>a b. points a \<inter> points b = {}"] by blast
  then show ?thesis
    using assms(1) eq by (auto simp: set_inv_def registered_def)
qed

lemma valid_points_nonempty: "slice_valid s \<Longrightarrow> points s \<noteq> {}"
  using points_nonempty by (metis empty_iff slice_cases)

lemma set_inv_new: "honest shape \<Longrightarrow> set_inv (TensorSliceSet shape ty)"
  by (simp add: set_inv_def TensorSliceSet_def registered_def)


text \<open>Register adds a slice that fits and meets no other; the hull only saves comparisons.\<close>

lemma overlap_test:
  assumes inv: "set_inv s" and valid: "slice_valid sl"
  shows "ss_slices s \<noteq> [] \<and> Overlaps (ss_hull s) sl \<and> list_ex (\<lambda>x. Overlaps sl (info_slice (snd x))) (ss_slices s) \<longleftrightarrow>
    \<not> (\<forall>a \<in> set (registered s). points sl \<inter> points a = {})"
proof -
  have ov: "Overlaps sl (info_slice (snd x)) \<longleftrightarrow> points sl \<inter> points (info_slice (snd x)) \<noteq> {}"
    if "x \<in> set (ss_slices s)" for x
    using inv that by (intro Overlaps_iff valid) (auto simp: set_inv_def)
  have "Overlaps (ss_hull s) sl" if "x \<in> set (ss_slices s)" "points sl \<inter> points (info_slice (snd x)) \<noteq> {}" for x
  proof -
    have "info_slice (snd x) \<in> set (registered s)" using that(1) by (simp add: registered_def)
    then have "slice_valid (ss_hull s)" "points (info_slice (snd x)) \<subseteq> points (ss_hull s)"
      using inv by (auto simp: set_inv_def)
    then show ?thesis using that(2) valid by (subst Overlaps_iff) auto
  qed
  moreover have "\<not> (\<forall>a \<in> set (registered s). points sl \<inter> points a = {}) \<longleftrightarrow>
      (\<exists>x \<in> set (ss_slices s). points sl \<inter> points (info_slice (snd x)) \<noteq> {})" by (simp add: registered_def)
  moreover have "list_ex (\<lambda>x. Overlaps sl (info_slice (snd x))) (ss_slices s) \<longleftrightarrow>
      (\<exists>x \<in> set (ss_slices s). points sl \<inter> points (info_slice (snd x)) \<noteq> {})"
    using ov by (simp add: list_ex_iff cong: bex_cong)
  ultimately show ?thesis by (metis empty_iff empty_set)
qed

lemma insert_slice_inv:
  assumes inv: "set_inv s" and valid: "slice_valid sl" "slice_fits sl (ss_shape s)" "info_slice info = sl"
    and disj: "\<forall>a \<in> set (registered s). points sl \<inter> points a = {}"
    and hull: "slice_valid h" "slice_dims h = dims (ss_shape s)"
      "\<forall>a \<in> insert sl (set (registered s)). points a \<subseteq> points h"
  shows "set_inv (insert_slice (DebugString_slice sl) info (s\<lparr>ss_hull := h\<rparr>)) \<and>
    registered (insert_slice (DebugString_slice sl) info (s\<lparr>ss_hull := h\<rparr>)) = sl # registered s \<and>
    ss_slices (insert_slice (DebugString_slice sl) info (s\<lparr>ss_hull := h\<rparr>)) = (DebugString_slice sl, info) # ss_slices s"
proof -
  have "sl \<notin> set (registered s)" using disj valid_points_nonempty [OF valid(1)] by auto
  then have "map_of (ss_slices s) (DebugString_slice sl) = None" using map_of_registered(1) [OF inv valid(1)] by simp
  with assms show ?thesis by (auto simp: insert_slice_def set_inv_def registered_def)
qed

definition fresh :: "tensor_slice \<Rightarrow> 'f slice_set \<Rightarrow> bool" where
  "fresh sl s \<longleftrightarrow> slice_fits sl (ss_shape s) \<and> (\<forall>a \<in> set (registered s). points sl \<inter> points a = {})"

lemma Register_correct:
  assumes inv: "set_inv s" and valid: "slice_valid sl"
  shows "\<exists>st s'. Register sl tag data s = Some (st, s') \<and> set_inv s' \<and>
    ss_shape s' = ss_shape s \<and> ss_type s' = ss_type s \<and>
    (if fresh sl s
     then st = None \<and> registered s' = sl # registered s \<and>
       map_option (\<lambda>i. (info_tag i, info_data i, num_floats i)) (map_of (ss_slices s') (DebugString_slice sl)) =
         Some (tag, data, int (card (points sl \<inter> box (dim_sizes (ss_shape s)))))
     else st = Some INTERNAL \<and> s' = s)"
proof (cases "slice_fits sl (ss_shape s)")
  case False
  then show ?thesis
    using SliceTensorShape_correct [OF _ valid, of "ss_shape s"] inv
    by (auto simp: Register_def fresh_def set_inv_def)
next
  case fits: True
  then obtain h where h: "SliceTensorShape sl (ss_shape s) = Some (Inr h)"
      "num_elements h = int (card (points sl \<inter> box (dim_sizes (ss_shape s))))"
    using SliceTensorShape_correct [OF _ valid, of "ss_shape s"] inv by (auto simp: set_inv_def)
  let ?info = "\<lparr>info_slice = sl, info_tag = tag, info_data = data, num_floats = num_elements h\<rparr>"
  show ?thesis
  proof (cases "\<forall>a \<in> set (registered s). points sl \<inter> points a = {}")
    case False
    then have "Register sl tag data s = Some (Some INTERNAL, s)"
      using overlap_test [OF inv valid] h(1) by (auto simp: Register_def Let_def)
    with False inv show ?thesis by (auto simp: fresh_def)
  next
    case disj: True
    define hull where "hull = (if ss_slices s = [] then sl else UpdateToCover (ss_hull s) sl)"
    have reg: "Register sl tag data s = Some (None, insert_slice (DebugString_slice sl) ?info (s\<lparr>ss_hull := hull\<rparr>))"
      using overlap_test [OF inv valid] disj h(1) by (auto simp: Register_def Let_def hull_def)
    have "slice_valid hull \<and> slice_dims hull = dims (ss_shape s) \<and>
      (\<forall>a \<in> insert sl (set (registered s)). points a \<subseteq> points hull)"
    proof (cases "ss_slices s = []")
      case True
      then show ?thesis using valid slice_fits_dims [OF valid fits] by (simp add: hull_def registered_def)
    next
      case False
      then have "slice_valid (ss_hull s)" "slice_dims (ss_hull s) = dims (ss_shape s)"
          "\<forall>a \<in> set (registered s). points a \<subseteq> points (ss_hull s)"
        using inv by (auto simp: set_inv_def registered_def)
      then show ?thesis
        using UpdateToCover_correct [OF _ valid, of "ss_hull s"] slice_fits_dims [OF valid fits] False
        by (auto simp: hull_def)
    qed
    note ins = insert_slice_inv [OF inv valid fits _ disj, of ?info hull]
    from \<open>slice_valid hull \<and> _\<close> show ?thesis
      using ins by (auto simp: reg fresh_def fits disj h(2)) (auto simp: insert_slice_def)
  qed
qed

section \<open>Queries\<close>

lemma meet_fits:
  assumes "ext_valid a" "ext_valid b" "ext_fits n a" "ext_fits n b" "ext_meet a b = Some c"
  shows "ext_fits n c"
proof (cases "ext_full a \<or> ext_full b")
  case True
  then show ?thesis using assms by (auto simp: ext_meet_def split: if_splits)
next
  case False
  note c = ext_meet_Some [OF assms(1,2,5)]
  show ?thesis
  proof (cases "ext_full c")
    case False
    then have "fst c + snd c - 1 \<in> ext_set c" using c(1) by (auto simp: ext_valid_def ext_set_def)
    then show ?thesis using c(2) assms \<open>\<not> (ext_full a \<or> ext_full b)\<close> by (auto simp: ext_fits_def ext_set_def)
  qed (simp add: ext_fits_def)
qed

lemma meet_list_fits:
  assumes "list_all2 ext_fits xs as" "list_all2 ext_fits xs bs" "list_all ext_valid as" "list_all ext_valid bs"
    and "meet_list as bs = Some cs"
  shows "list_all2 ext_fits xs cs"
  using assms
proof (induction xs arbitrary: as bs cs)
  case (Cons n xs)
  obtain a as' b bs' where abs: "as = a # as'" "bs = b # bs'" using Cons.prems(1,2) by (auto simp: list_all2_Cons1)
  obtain c cs' where c: "ext_meet a b = Some c" "meet_list as' bs' = Some cs'" "cs = c # cs'"
    using Cons.prems(5) by (auto simp: abs bind_eq_Some_conv)
  have "ext_fits n c" using Cons.prems c(1) meet_fits [of a b n c] by (simp add: abs)
  moreover have "list_all2 ext_fits xs cs'" using Cons.prems c(2) Cons.IH [of as' bs' cs'] by (simp add: abs)
  ultimately show ?case by (simp add: c(3))
qed auto

lemma Intersect_fits:
  assumes "slice_valid s" "slice_valid t" "slice_fits s shape" "slice_fits t shape" "Intersect s t = Some r"
  shows "slice_fits r shape"
proof -
  obtain as bs where e: "s = of_exts as" "list_all ext_valid as" "t = of_exts bs" "list_all ext_valid bs"
    using assms(1,2) by (metis slice_cases)
  with assms(3-) show ?thesis
    using meet_list_fits [of "dim_sizes shape" as bs]
    by (auto simp: slice_fits_def Intersect_of_exts split: if_splits)
qed

lemma card_box:
  assumes "honest shape"
  shows "int (card (box (dim_sizes shape))) \<le> kMaxElements"
proof -
  have pos: "list_all (\<lambda>v. 0 \<le> v) (dim_sizes shape)" using assms by (simp add: honest_def wf_shape_def)
  then have "int (card (box xs)) = prod_list xs" if "xs = dim_sizes shape" for xs
    using pos [folded that] by (induction xs) (simp_all add: box_simps card_cons_image)
  moreover have "prod_list (take (dims shape) (dim_sizes shape)) \<le> kMaxElements"
    using assms unfolding honest_def by blast
  ultimately show ?thesis by simp
qed

text \<open>
  The loop adds up the sizes of disjoint parts of the slice: \<open>A\<close> is what has been counted.
\<close>

lemma query_loop_correct:
  assumes shape: "honest shape" and valid: "slice_valid sl" "slice_fits sl shape"
    and slices: "\<forall>x \<in> set xs. slice_valid (info_slice (snd x)) \<and> slice_fits (info_slice (snd x)) shape"
    and disj: "sorted_wrt (\<lambda>a b. points a \<inter> points b = {}) (map (\<lambda>x. info_slice (snd x)) xs)"
    and A: "A \<subseteq> box (dim_sizes shape)" "\<forall>x \<in> set xs. A \<inter> points (info_slice (snd x)) = {}"
  shows "query_loop sl shape xs (int (card A)) res =
    Some (True, int (card (A \<union> points sl \<inter> box (dim_sizes shape) \<inter> (\<Union>x \<in> set xs. points (info_slice (snd x))))),
      res @ map (\<lambda>x. (info_slice (snd x), info_tag (snd x)))
        (filter (\<lambda>x. points sl \<inter> points (info_slice (snd x)) \<noteq> {}) xs))"
  using slices disj A
proof (induction xs arbitrary: A res)
  case (Cons x xs)
  let ?a = "info_slice (snd x)" and ?B = "box (dim_sizes shape)"
  have a: "slice_valid ?a" "slice_fits ?a shape" using Cons.prems(1) by simp_all
  show ?case
  proof (cases "Intersect sl ?a")
    case None
    then have none: "points sl \<inter> points ?a = {}" using Intersect_correct [OF valid(1) a(1)] by simp
    then have "A \<union> points sl \<inter> ?B \<inter> (\<Union>x \<in> set (x # xs). points (info_slice (snd x))) =
        A \<union> points sl \<inter> ?B \<inter> (\<Union>x \<in> set xs. points (info_slice (snd x)))" by auto
    with none None show ?thesis using Cons.IH [of A res] Cons.prems by simp
  next
    case (Some c)
    then have c: "slice_valid c" "points c = points sl \<inter> points ?a" using Intersect_correct [OF valid(1) a(1)] by simp_all
    have "slice_fits c shape" using Intersect_fits [OF valid(1) a(1) valid(2) a(2) Some] .
    then obtain h where h: "SliceTensorShape c shape = Some (Inr h)" "num_elements h = int (card (points c \<inter> ?B))"
      using SliceTensorShape_correct [OF shape c(1)] by auto
    let ?A = "A \<union> points c \<inter> ?B"
    have fin: "finite A" "finite (points c \<inter> ?B)" using Cons.prems(3) finite_box finite_subset by auto
    have "A \<inter> (points c \<inter> ?B) = {}" using Cons.prems(4) c(2) by auto
    then have sum: "int (card A) + int (card (points c \<inter> ?B)) = int (card ?A)"
      using card_Un_disjoint [OF fin] by simp
    have "int (card ?A) \<le> kMaxElements"
      using card_box [OF shape] card_mono [OF finite_box, of ?A "dim_sizes shape"] Cons.prems(3) by simp
    then have wrap: "wrap64 (int (card A) + num_elements h) = int (card ?A)"
      unfolding h(2) sum by (intro wrap64_id) (simp_all add: kMaxElements_def)
    have disjoint: "points ?a \<inter> points (info_slice (snd y)) = {}" if "y \<in> set xs" for y using Cons.prems(2) that by auto
    have "query_loop sl shape xs (int (card ?A)) (res @ [(?a, info_tag (snd x))]) =
      Some (True, int (card (?A \<union> points sl \<inter> ?B \<inter> (\<Union>x \<in> set xs. points (info_slice (snd x))))),
        (res @ [(?a, info_tag (snd x))]) @ map (\<lambda>x. (info_slice (snd x), info_tag (snd x)))
          (filter (\<lambda>x. points sl \<inter> points (info_slice (snd x)) \<noteq> {}) xs))"
      using Cons.prems c(2) disjoint by (intro Cons.IH) (simp_all, blast+)
    moreover have "?A \<union> points sl \<inter> ?B \<inter> (\<Union>x \<in> set xs. points (info_slice (snd x))) =
        A \<union> points sl \<inter> ?B \<inter> (\<Union>x \<in> set (x # xs). points (info_slice (snd x)))"
      using c(2) by auto
    moreover have "points sl \<inter> points ?a \<noteq> {}" using valid_points_nonempty [OF c(1)] c(2) by simp
    ultimately show ?thesis using Some h(1) wrap by simp
  qed
qed simp

definition covered :: "tensor_slice \<Rightarrow> 'f slice_set \<Rightarrow> bool" where
  "covered sl s \<longleftrightarrow> slice_fits sl (ss_shape s) \<and>
     points sl \<inter> box (dim_sizes (ss_shape s)) \<subseteq> (\<Union>a \<in> set (registered s). points a)"

lemma QueryMeta_correct:
  assumes inv: "set_inv s" and valid: "slice_valid sl"
  shows "\<exists>results. QueryMeta sl s = Some (covered sl s, results) \<and> Query sl s = Some (covered sl s) \<and>
    set (map fst results) = (if covered sl s then {a \<in> set (registered s). points sl \<inter> points a \<noteq> {}} else {})"
proof (cases "map_of (ss_slices s) (DebugString_slice sl)")
  case (Some info)
  note sl = map_of_registered [OF inv valid] Some
  then have mem: "sl \<in> set (registered s)" "info_slice info = sl" by auto
  have "a = sl" if "a \<in> set (registered s)" "points sl \<inter> points a \<noteq> {}" for a
    using registered_disjoint [OF inv mem(1) that(1)] that(2) by blast
  moreover have "points sl \<noteq> {}" using valid_points_nonempty [OF valid] .
  ultimately have "{a \<in> set (registered s). points sl \<inter> points a \<noteq> {}} = {sl}" using mem(1) by auto
  moreover have "covered sl s" using mem(1) registered_iff [OF inv] by (auto simp: covered_def)
  ultimately show ?thesis using Some mem(2) by (simp add: QueryMeta_def Query_def)
next
  case None
  have shape: "honest (ss_shape s)" using inv by (simp add: set_inv_def)
  note slice = SliceTensorShape_correct [OF shape valid]
  show ?thesis
  proof (cases "slice_fits sl (ss_shape s)")
    case False
    then show ?thesis using slice None by (simp add: QueryMeta_def Query_def covered_def)
  next
    case fits: True
    let ?T = "points sl \<inter> box (dim_sizes (ss_shape s))"
    let ?U = "\<Union>x \<in> set (ss_slices s). points (info_slice (snd x))"
    let ?res = "map (\<lambda>x. (info_slice (snd x), info_tag (snd x)))
        (filter (\<lambda>x. points sl \<inter> points (info_slice (snd x)) \<noteq> {}) (ss_slices s))"
    obtain h where h: "SliceTensorShape sl (ss_shape s) = Some (Inr h)" "num_elements h = int (card ?T)"
      using slice fits by auto
    have loop: "query_loop sl (ss_shape s) (ss_slices s) 0 [] = Some (True, int (card (?T \<inter> ?U)), ?res)"
      using query_loop_correct [OF shape valid fits, of "ss_slices s" "{}" "[]"] inv
      by (auto simp: set_inv_def registered_def)
    have "card ?T = card (?T \<inter> ?U) \<longleftrightarrow> ?T \<subseteq> ?U"
      using card_subset_eq [of ?T "?T \<inter> ?U", OF finite_Int [OF disjI2 [OF finite_box]] Int_lower1]
      by (metis inf.absorb_iff1)
    then have eq: "num_elements h = int (card (?T \<inter> ?U)) \<longleftrightarrow> covered sl s"
      by (auto simp: h(2) covered_def fits registered_def)
    have "set (map fst ?res) = {a \<in> set (registered s). points sl \<inter> points a \<noteq> {}}"
      by (auto simp: registered_def)
    then show ?thesis using None h(1) loop eq by (simp add: QueryMeta_def Query_def image_image)
  qed
qed

section \<open>A checkpoint\<close>

text \<open>The abstract tensor: the slices accepted so far. A slice is accepted when it fits and meets none of them.\<close>

fun accept :: "tensor_shape \<Rightarrow> tensor_slice list \<Rightarrow> tensor_slice list \<Rightarrow> code option list \<times> tensor_slice list" where
  "accept shape [] acc = ([], acc)"
| "accept shape (sl # rest) acc =
     (if slice_fits sl shape \<and> (\<forall>a \<in> set acc. points sl \<inter> points a = {})
      then map_prod ((#) None) id (accept shape rest (sl # acc))
      else map_prod ((#) (Some INTERNAL)) id (accept shape rest acc))"

text \<open>A sequence of calls of \<open>Register\<close>, with their statuses.\<close>

fun register_all :: "(tensor_slice \<times> string) list \<Rightarrow> 'f slice_set \<Rightarrow> (code option list \<times> 'f slice_set) option" where
  "register_all [] s = Some ([], s)"
| "register_all (r # rest) s =
     Option.bind (Register (fst r) (snd r) None s) (\<lambda>(st, s'). map_option (map_prod ((#) st) id) (register_all rest s'))"

lemma register_all_refines:
  assumes "set_inv s" "\<forall>r \<in> set rs. slice_valid (fst r)"
  shows "\<exists>s'. register_all rs s = Some (fst (accept (ss_shape s) (map fst rs) (registered s)), s') \<and>
    set_inv s' \<and> ss_shape s' = ss_shape s \<and> registered s' = snd (accept (ss_shape s) (map fst rs) (registered s))"
  using assms
proof (induction rs arbitrary: s)
  case (Cons r rs)
  then obtain st s1 where s1: "Register (fst r) (snd r) None s = Some (st, s1)" "set_inv s1" "ss_shape s1 = ss_shape s"
      "if fresh (fst r) s then st = None \<and> registered s1 = fst r # registered s else st = Some INTERNAL \<and> s1 = s"
    using Register_correct [of s "fst r" "snd r" None] by auto
  obtain s' where s': "register_all rs s1 = Some (fst (accept (ss_shape s) (map fst rs) (registered s1)), s')"
      "set_inv s'" "ss_shape s' = ss_shape s" "registered s' = snd (accept (ss_shape s) (map fst rs) (registered s1))"
    using Cons.IH [OF s1(2)] Cons.prems(2) s1(3) by auto
  then show ?case using s1 by (auto simp: fresh_def split: if_splits)
qed simp

lemma honest_vector:
  assumes "0 \<le> n" "n \<le> kMaxElements"
  shows "\<exists>shape. TensorShape [n] = Some shape \<and> honest shape \<and> dim_sizes shape = [n]"
proof -
  have "prod_list (take k [n]) \<le> kMaxElements" for k using assms by (cases k) (simp_all add: kMaxElements_def)
  then show ?thesis using assms by (intro honest_TensorShape) (simp_all add: MaxDimensions_def)
qed

text \<open>
  C37: The slices of a tensor refine a list of disjoint boxes. Registering a sequence of slices
  never fails a check and returns the statuses of the abstract tensor: OK exactly for a slice that
  fits the shape and meets none of the accepted ones, although most slices are compared with the
  hull only. Afterwards a query for a slice returns true exactly when every index of the tensor in
  it lies in an accepted slice, and the slices \<open>QueryMeta\<close> lists are then those that meet it, in
  whatever order the entries of the map are visited. The sum of the sizes on which it decides does
  not overflow.
\<close>

theorem slice_set_refines:
  assumes "honest shape" "\<forall>r \<in> set rs. slice_valid (fst r)" "slice_valid q"
  shows "\<exists>s. register_all rs (TensorSliceSet shape ty :: 'f slice_set) = Some (fst (accept shape (map fst rs) []), s) \<and>
    (let slices = set (snd (accept shape (map fst rs) []));
         found = (slice_fits q shape \<and> points q \<inter> box (dim_sizes shape) \<subseteq> (\<Union>a \<in> slices. points a))
     in \<forall>xs. mset xs = mset (ss_slices s) \<longrightarrow> (\<exists>results.
        Query q (s\<lparr>ss_slices := xs\<rparr>) = Some found \<and> QueryMeta q (s\<lparr>ss_slices := xs\<rparr>) = Some (found, results) \<and>
        set (map fst results) = (if found then {a \<in> slices. points q \<inter> points a \<noteq> {}} else {})))"
proof -
  have new: "ss_shape (TensorSliceSet shape ty :: 'f slice_set) = shape" "registered (TensorSliceSet shape ty :: 'f slice_set) = []"
    by (simp_all add: TensorSliceSet_def registered_def)
  obtain s :: "'f slice_set" where s: "register_all rs (TensorSliceSet shape ty :: 'f slice_set) = Some (fst (accept shape (map fst rs) []), s)"
      "set_inv s" "ss_shape s = shape" "registered s = snd (accept shape (map fst rs) [])"
    using register_all_refines [of "TensorSliceSet shape ty :: 'f slice_set" rs, OF set_inv_new [OF assms(1)] assms(2)]
    unfolding new by blast
  have "\<exists>results. Query q (s\<lparr>ss_slices := xs\<rparr>) = Some (covered q s) \<and> QueryMeta q (s\<lparr>ss_slices := xs\<rparr>) = Some (covered q s, results) \<and>
      set (map fst results) = (if covered q s then {a \<in> set (registered s). points q \<inter> points a \<noteq> {}} else {})"
    if perm: "mset xs = mset (ss_slices s)" for xs
  proof -
    have "set (registered (s\<lparr>ss_slices := xs\<rparr>)) = set (registered s)"
      using mset_eq_setD [OF perm] by (simp add: registered_def)
    moreover from this have "covered q (s\<lparr>ss_slices := xs\<rparr>) = covered q s" by (simp add: covered_def)
    ultimately show ?thesis
      using QueryMeta_correct [OF set_inv_perm [OF s(2) perm] assms(3)] by (simp only:) blast
  qed
  then show ?thesis using s(1) unfolding Let_def covered_def s(3,4) by blast
qed

theorem slice_set_refines_witness:
  "\<exists>shape s. TensorShape [4] = Some shape \<and>
     register_all [(of_exts [(0, 2)], ''a''), (of_exts [(2, 2)], ''b''), (of_exts [(1, 2)], ''c'')] (TensorSliceSet shape 1 :: nat slice_set) =
       Some ([None, None, Some INTERNAL], s) \<and> Query (of_exts [(1, 2)]) s = Some True"
proof -
  obtain shape where sh: "TensorShape [4] = Some shape" "honest shape" "dim_sizes shape = [4]"
    using honest_vector [of 4] by (auto simp: kMaxElements_def)
  let ?rs = "[(of_exts [(0, 2)], ''a''), (of_exts [(2, 2)], ''b''), (of_exts [(1, 2)], ''c'')]"
  have pts: "points (of_exts [(a, 2)]) = {[a], [a + 1]}" for a :: int
    by (auto simp: points_Cons points_Nil ext_set_def ext_full_def kFullExtent_def)
  have fits: "slice_fits (of_exts [(a, 2)]) shape \<longleftrightarrow> a \<le> 2" for a :: int
    by (auto simp: slice_fits_def sh(3) ext_fits_def ext_full_def kFullExtent_def)
  have acc: "accept shape (map fst ?rs) [] = ([None, None, Some INTERNAL], [of_exts [(2, 2)], of_exts [(0, 2)]])"
    by (simp add: pts fits)
  have "\<forall>r \<in> set ?rs. slice_valid (fst r)" "slice_valid (of_exts [(1, 2)])"
    by (simp_all add: ext_valid_def ext_full_def kFullExtent_def)
  note refines = slice_set_refines [OF sh(2) this, of 1]
  have found: "(slice_fits (of_exts [(1, 2)]) shape \<and>
      points (of_exts [(1, 2)]) \<inter> box (dim_sizes shape) \<subseteq> (\<Union>a \<in> set [of_exts [(2, 2)], of_exts [(0, 2)]]. points a)) = True"
    by (auto simp: fits pts)
  obtain s :: "nat slice_set"
    where s: "register_all ?rs (TensorSliceSet shape 1) = Some ([None, None, Some INTERNAL], s)"
      "\<forall>xs. mset xs = mset (ss_slices s) \<longrightarrow> Query (of_exts [(1, 2)]) (s\<lparr>ss_slices := xs\<rparr>) = Some True"
    using refines unfolding acc fst_conv snd_conv Let_def found by blast
  have "Query (of_exts [(1, 2)]) (s\<lparr>ss_slices := ss_slices s\<rparr>) = Some True" using s(2) by blast
  then have "Query (of_exts [(1, 2)]) s = Some True" by simp
  then show ?thesis using sh(1) s(1) by blast
qed

text \<open>
  C38: \<open>RegisterTensorSlice\<close> keeps every set of the map well-formed and changes only the set of the
  given name. It returns OK exactly when shape and type agree with the known ones and the slice is
  accepted. On an error the map is as before if the name is known; if it is not, an empty set with
  the shape and type of the failed call stays in the map, although the header promises otherwise.
\<close>

theorem register_tensor_slice:
  assumes "honest shape" "slice_valid sl" "\<forall>t \<in> ran m. set_inv t"
  shows "\<exists>st m'. RegisterTensorSlice name shape ty tag sl m = Some (st, m') \<and>
    (\<forall>t \<in> ran m'. set_inv t) \<and> (\<forall>n. n \<noteq> name \<longrightarrow> m' n = m n) \<and>
    (st = None \<longleftrightarrow> (case m name of
        None \<Rightarrow> slice_fits sl shape
      | Some t \<Rightarrow> dim_sizes shape = dim_sizes (ss_shape t) \<and> ty = ss_type t \<and> fresh sl t)) \<and>
    (st \<noteq> None \<longrightarrow> st = Some INTERNAL \<and> m' = (if m name = None then m(name \<mapsto> TensorSliceSet shape ty) else m))"
proof -
  define t where "t = (case m name of None \<Rightarrow> TensorSliceSet shape ty | Some t \<Rightarrow> t)"
  have inv: "set_inv t"
    using assms by (auto simp: t_def set_inv_new ranI split: option.splits)
  have new: "fresh sl (TensorSliceSet shape ty) \<longleftrightarrow> slice_fits sl shape"
    by (simp add: fresh_def TensorSliceSet_def registered_def)
  have ran: "set_inv u \<Longrightarrow> \<forall>t \<in> ran (m(name \<mapsto> u)). set_inv t" for u
    using assms(3) by (auto simp: ran_def split: if_splits)
  obtain st t' where reg: "Register sl tag None t = Some (st, t')" "set_inv t'"
      "if fresh sl t then st = None else st = Some INTERNAL \<and> t' = t"
    using Register_correct [OF inv assms(2), of tag None] by (metis (lifting))
  show ?thesis
  proof (cases "m name")
    case None
    then show ?thesis
      using reg ran [OF reg(2)] new by (auto simp: RegisterTensorSlice_def t_def split: if_splits)
  next
    case (Some u)
    then have [simp]: "t = u" by (simp add: t_def)
    show ?thesis
    proof (cases "IsSameSize shape (ss_shape u) \<and> ty = ss_type u")
      case False
      then show ?thesis using Some assms(3) by (auto simp: RegisterTensorSlice_def IsSameSize_iff)
    next
      case True
      moreover have "m(name \<mapsto> u) = m" using Some by auto
      ultimately show ?thesis
        using reg ran [OF reg(2)] Some by (auto simp: RegisterTensorSlice_def IsSameSize_iff split: if_splits)
    qed
  qed
qed

theorem register_tensor_slice_witness:
  "\<exists>shape m. TensorShape [4] = Some shape \<and>
     RegisterTensorSlice ''w'' shape 1 ''a'' (of_exts [(3, 2)]) Map.empty =
       Some (Some INTERNAL, m :: string \<rightharpoonup> nat slice_set) \<and> m ''w'' = Some (TensorSliceSet shape 1)"
proof -
  obtain shape where sh: "TensorShape [4] = Some shape" "honest shape" "dim_sizes shape = [4]"
    using honest_vector [of 4] by (auto simp: kMaxElements_def)
  have "slice_valid (of_exts [(3, 2)])" "\<not> slice_fits (of_exts [(3, 2)]) shape"
    by (simp_all add: slice_fits_def sh(3) ext_fits_def ext_valid_def ext_full_def kFullExtent_def)
  moreover have "\<forall>t \<in> ran (Map.empty :: string \<rightharpoonup> nat slice_set). set_inv t" by simp
  ultimately show ?thesis
    using register_tensor_slice [OF sh(2), of "of_exts [(3, 2)]" "Map.empty :: string \<rightharpoonup> nat slice_set" "''w''" 1 "''a''"] sh(1)
    by auto
qed

end
