(* ===== verification/Checkpoint_Key.thy ===== *)
theory Checkpoint_Key
  imports Ordered_Code Tensor_Slice
begin

text \<open>
  The keys and slice specifications of checkpoints: \<open>util/saved_tensor_slice_util.cc\<close>.

  A key is the order-preserving code of a leading 0, the tensor name, the rank and the extents of
  a slice. Names in keys are bytes, specifications are text. Sizes and extents of a slice are
  \<open>int64\<close>, so a slice is written after a cast that is the identity on what fits.
\<close>

section \<open>Operations\<close>

definition kSavedTensorSlicesKey :: bytes where "kSavedTensorSlicesKey = []"

definition write_extent :: "tensor_slice \<Rightarrow> nat \<Rightarrow> bytes \<Rightarrow> bytes" where
  "write_extent sl d buffer =
     WriteSignedNumIncreasing (WriteSignedNumIncreasing buffer (word_of_int (start_at sl d))) (word_of_int (length_at sl d))"

definition EncodeTensorNameSlice :: "bytes \<Rightarrow> tensor_slice \<Rightarrow> bytes" where
  "EncodeTensorNameSlice name sl =
     fold (write_extent sl) [0..<slice_dims sl]
       (WriteNumIncreasing (WriteString (WriteNumIncreasing [] 0) name) (of_nat (slice_dims sl)))"

text \<open>The loop over the extents, from dimension \<open>d\<close> on with \<open>n\<close> left.\<close>

fun read_extents :: "nat \<Rightarrow> nat \<Rightarrow> bytes \<Rightarrow> tensor_slice \<Rightarrow> tensor_slice status" where
  "read_extents 0 d src sl = Inr sl"
| "read_extents (Suc n) d src sl =
     (case ReadSignedNumIncreasing src of None \<Rightarrow> Inl INTERNAL | Some (x, src) \<Rightarrow>
      case ReadSignedNumIncreasing src of None \<Rightarrow> Inl INTERNAL | Some (l, src) \<Rightarrow>
      read_extents n (d + 1) src (if sint l \<ge> 0 then set_extent d (sint x) (sint l) sl else sl))"

text \<open>The name read is appended to what the caller's string holds.\<close>

definition DecodeTensorNameSlice :: "bytes \<Rightarrow> bytes \<Rightarrow> (bytes \<times> tensor_slice) status" where
  "DecodeTensorNameSlice code name =
     (case ReadNumIncreasing code of None \<Rightarrow> Inl INTERNAL | Some (x, src) \<Rightarrow>
      if x \<noteq> 0 then Inl INTERNAL else
      case ReadString src name of None \<Rightarrow> Inl INTERNAL | Some (name, src) \<Rightarrow>
      case ReadNumIncreasing src of None \<Rightarrow> Inl INTERNAL | Some (x, src) \<Rightarrow>
      if x = 0 then Inl INTERNAL
      else if uint x \<ge> kint32max then Inl INTERNAL
      else bind_status (read_extents (unat x) 0 src (SetFullSlice (unat x))) (\<lambda>sl. Inr (name, sl)))"

definition AllowEmpty :: "string \<Rightarrow> bool" where
  "AllowEmpty sp \<longleftrightarrow> True"

fun parse_sizes :: "string list \<Rightarrow> tensor_shape \<Rightarrow> tensor_shape status option" where
  "parse_sizes [] shape = Some (Inr shape)"
| "parse_sizes (s # splits) shape =
     (case safe_strto64 s of None \<Rightarrow> Some (Inl INVALID_ARGUMENT) | Some dim \<Rightarrow>
      case AddDim (sint dim) shape of None \<Rightarrow> None | Some shape \<Rightarrow> parse_sizes splits shape)"

text \<open>A failed check, of the text or of a size, is \<open>None\<close>.\<close>

definition ParseShapeAndSlice :: "string \<Rightarrow> (tensor_shape \<times> tensor_slice \<times> tensor_shape) status option" where
  "ParseShapeAndSlice shape_and_slice =
     (if shape_and_slice = [] then None
      else let splits = Split_text shape_and_slice CHR '' '' AllowEmpty in
      if length splits < 2 then Some (Inl INVALID_ARGUMENT)
      else case Parse_slice (last splits) empty_slice of Inl e \<Rightarrow> Some (Inl e) | Inr sl \<Rightarrow>
        case parse_sizes (butlast splits) empty_shape of
          None \<Rightarrow> None
        | Some (Inl e) \<Rightarrow> Some (Inl e)
        | Some (Inr shape) \<Rightarrow> map_option (map_sum id (\<lambda>shape_slice. (shape, sl, shape_slice))) (SliceTensorShape sl shape))"

section \<open>Keys\<close>

text \<open>Sequences of a fixed length inherit the laws of an ordered encoding.\<close>

definition put_list :: "('a \<Rightarrow> bytes) \<Rightarrow> 'a list \<Rightarrow> bytes" where
  "put_list put xs = concat (map put xs)"

context ordered_encoding
begin

lemma put_list_less_iff:
  assumes "length xs = length ys"
  shows "put_list put xs @ r < put_list put ys @ s \<longleftrightarrow> (xs, ys) \<in> lex {(x, y). lt x y} \<or> xs = ys \<and> r < s"
  using assms
proof (induction xs ys rule: list_induct2)
  case (Cons x xs y ys)
  then show ?case
    using put_less_iff [of x "put_list put xs @ r" y "put_list put ys @ s"] by (auto simp: put_list_def)
qed (simp add: put_list_def)

lemma put_list_inject: "length xs = length ys \<Longrightarrow> put_list put xs @ r = put_list put ys @ s \<Longrightarrow> xs = ys"
proof (induction xs ys rule: list_induct2)
  case (Cons x xs y ys)
  then have "get (put x @ put_list put xs @ r) = get (put y @ put_list put ys @ s)" by (simp add: put_list_def)
  with Cons.IH show ?case by (simp add: get_put)
qed simp

end

interpretation oc_extent: ordered_encodings
    "WriteSignedNumIncreasing []" ReadSignedNumIncreasing "(<s)" "WriteSignedNumIncreasing []" ReadSignedNumIncreasing "(<s)"
  by unfold_locales

interpretation oc_name: ordered_encodings "WriteString []" "\<lambda>src. ReadString src []" "(<)"
    "WriteNumIncreasing []" ReadNumIncreasing "(<)"
  by unfold_locales

definition put_extent :: "int \<times> int \<Rightarrow> bytes" where
  "put_extent e = WriteSignedNumIncreasing [] (word_of_int (fst e)) @ WriteSignedNumIncreasing [] (word_of_int (snd e))"

lemma write_extent_eq:
  "d < length es \<Longrightarrow> write_extent (of_exts es) d buffer = buffer @ put_extent (es ! d)"
  using Write_append(3) [of buffer "word_of_int (fst (es ! d))"]
    Write_append(3) [of "buffer @ WriteSignedNumIncreasing [] (word_of_int (fst (es ! d)))" "word_of_int (snd (es ! d))"]
  by (simp add: write_extent_def put_extent_def at_of_exts)

lemma write_extents_eq:
  "n \<le> length es \<Longrightarrow> fold (write_extent (of_exts es)) [0..<n] buffer = buffer @ concat (map put_extent (take n es))"
  by (induction n) (simp_all add: write_extent_eq take_Suc_conv_app_nth)

lemma Encode_eq:
  "EncodeTensorNameSlice name (of_exts es) =
     WriteNumIncreasing [] 0 @ WriteString [] name @ WriteNumIncreasing [] (of_nat (length es)) @ concat (map put_extent es)"
  using Write_append(1) [of "WriteNumIncreasing [] 0" name]
    Write_append(2) [of "WriteNumIncreasing [] 0 @ WriteString [] name" "of_nat (length es)"]
  by (simp add: EncodeTensorNameSlice_def write_extents_eq)

text \<open>The extents whose code can be read back, as the bounds of a slice are.\<close>

definition storable :: "int \<times> int \<Rightarrow> bool" where
  "storable e \<longleftrightarrow> ext_full e \<or> - (2 ^ 63) \<le> fst e \<and> fst e < 2 ^ 63 \<and> 0 \<le> snd e \<and> snd e < 2 ^ 63"

lemma valid_storable: "ext_valid e \<Longrightarrow> storable e"
  by (auto simp: ext_valid_def storable_def)

lemma storable_sint:
  assumes "storable e"
  shows "sint (word_of_int (fst e) :: 64 word) = fst e" "sint (word_of_int (snd e) :: 64 word) = snd e"
  using assms by (auto simp: storable_def ext_full_def kFullExtent_def intro!: sint_int64)

lemma read_extents_put:
  assumes "list_all storable es" "length pre = d"
  shows "read_extents (length es) d (concat (map put_extent es) @ r) (of_exts (pre @ replicate (length es) (0, kFullExtent))) =
    Inr (of_exts (pre @ es))"
  using assms
proof (induction es arbitrary: pre d)
  case (Cons e es)
  let ?rest = "concat (map put_extent es) @ r"
  have "ReadSignedNumIncreasing (put_extent e @ ?rest) =
      Some (word_of_int (fst e), WriteSignedNumIncreasing [] (word_of_int (snd e)) @ ?rest)"
    by (simp add: put_extent_def oc_signed.get_put)
  moreover have "sint (word_of_int (snd e) :: 64 word) \<ge> 0 \<longleftrightarrow> \<not> ext_full e" "ext_full e \<Longrightarrow> e = (0, kFullExtent)"
    using Cons.prems(1) by (auto simp: storable_sint) (auto simp: storable_def ext_full_def kFullExtent_def)
  ultimately have "read_extents (length (e # es)) d (concat (map put_extent (e # es)) @ r)
        (of_exts (pre @ replicate (length (e # es)) (0, kFullExtent))) =
      read_extents (length es) (d + 1) ?rest (of_exts ((pre @ [e]) @ replicate (length es) (0, kFullExtent)))"
    using Cons.prems by (auto simp: oc_signed.get_put storable_sint at_of_exts list_update_append)
  also have "\<dots> = Inr (of_exts (pre @ e # es))" using Cons.IH [of "pre @ [e]" "d + 1"] Cons.prems by simp
  finally show ?case .
qed simp

lemma unat_length: "int (length es) < kint32max \<Longrightarrow> unat (of_nat (length es) :: uint64) = length es"
  by (simp add: unat_of_nat kint32max_def)

lemma Decode_Encode:
  assumes "list_all storable es" "int (length es) < kint32max"
  shows "DecodeTensorNameSlice (EncodeTensorNameSlice name (of_exts es) @ r) pre =
    (if es = [] then Inl INTERNAL else Inr (pre @ name, of_exts es))"
proof -
  have "uint (of_nat (length es) :: uint64) = int (length es)"
    using unat_length [OF assms(2)] by (metis uint_nat)
  moreover have "(of_nat (length es) :: uint64) = 0 \<longleftrightarrow> es = []"
    using unat_length [OF assms(2)] by (metis length_0_conv unat_eq_zero of_nat_0)
  moreover have "ReadString (WriteString [] name @ src) pre = Some (pre @ name, src)" for src
    by (simp add: WriteString_eq ReadString_eq unesc_put)
  ultimately show ?thesis
    using read_extents_put [of es "[]" 0 r] assms
    by (simp add: DecodeTensorNameSlice_def Encode_eq oc_num.get_put SetFullSlice_eq unat_length)
qed

text \<open>
  C40: A key decodes into its tensor name and slice, whatever bytes follow it, if the slice has at
  least one dimension. The key of a slice of a scalar is written but not accepted by the reader.
\<close>

theorem checkpoint_key_roundtrip:
  assumes "slice_valid sl" "int (slice_dims sl) < kint32max"
  shows "DecodeTensorNameSlice (EncodeTensorNameSlice name sl @ rest) [] =
    (if slice_dims sl = 0 then Inl INTERNAL else Inr (name, sl))"
proof -
  obtain es where es: "sl = of_exts es" "list_all ext_valid es" using assms(1) by (rule slice_cases)
  then have "list_all storable es" by (auto simp: list_all_iff valid_storable)
  then show ?thesis using Decode_Encode [of es name rest "[]"] assms(2) es by simp
qed

theorem checkpoint_key_roundtrip_witness:
  "DecodeTensorNameSlice (EncodeTensorNameSlice [119, 0, 255] (of_exts [(2, 3), (0, -1)])) [] =
     Inr ([119, 0, 255], of_exts [(2, 3), (0, -1)])"
proof -
  have "slice_valid (of_exts [(2, 3), (0, -1)])" "int (slice_dims (of_exts [(2, 3), (0, -1)])) < kint32max"
    by (simp_all add: ext_valid_def ext_full_def kFullExtent_def kint32max_def)
  then show ?thesis using checkpoint_key_roundtrip [of "of_exts [(2, 3), (0, -1)]" "[119, 0, 255]" "[]"] by simp
qed

section \<open>The order of keys\<close>

definition ext_less :: "((int \<times> int) \<times> (int \<times> int)) set" where
  "ext_less = {(a, b). fst a < fst b \<or> fst a = fst b \<and> snd a < snd b}"

definition ext_words :: "int \<times> int \<Rightarrow> 64 word \<times> 64 word" where
  "ext_words e = (word_of_int (fst e), word_of_int (snd e))"

lemma concat_put_extent: "concat (map put_extent es) = put_list (put_pair (WriteSignedNumIncreasing []) (WriteSignedNumIncreasing [])) (map ext_words es)"
  by (induction es) (simp_all add: put_list_def put_pair_def put_extent_def ext_words_def)

lemma ext_words_order:
  assumes "storable a" "storable b"
  shows "lt_pair (<s) (<s) (ext_words a) (ext_words b) \<longleftrightarrow> (a, b) \<in> ext_less" "ext_words a = ext_words b \<longleftrightarrow> a = b"
proof -
  have eq: "(word_of_int x :: 64 word) = word_of_int y \<longleftrightarrow> x = y" if "sint (word_of_int x :: 64 word) = x" "sint (word_of_int y :: 64 word) = y" for x y
    using that by metis
  show "lt_pair (<s) (<s) (ext_words a) (ext_words b) \<longleftrightarrow> (a, b) \<in> ext_less" "ext_words a = ext_words b \<longleftrightarrow> a = b"
    using storable_sint [OF assms(1)] storable_sint [OF assms(2)]
    by (simp_all add: lt_pair_def ext_words_def ext_less_def word_sless_alt eq prod_eq_iff)
qed

lemma lex_ext_words:
  assumes "length as = length bs" "list_all storable as" "list_all storable bs"
  shows "(map ext_words as, map ext_words bs) \<in> lex {(x, y). lt_pair (<s) (<s) x y} \<longleftrightarrow> (as, bs) \<in> lex ext_less"
    "map ext_words as = map ext_words bs \<longleftrightarrow> as = bs"
proof -
  have "((map ext_words as, map ext_words bs) \<in> lex {(x, y). lt_pair (<s) (<s) x y} \<longleftrightarrow> (as, bs) \<in> lex ext_less) \<and>
    (map ext_words as = map ext_words bs \<longleftrightarrow> as = bs)"
    using assms by (induction as bs rule: list_induct2) (simp_all add: ext_words_order)
  then show "(map ext_words as, map ext_words bs) \<in> lex {(x, y). lt_pair (<s) (<s) x y} \<longleftrightarrow> (as, bs) \<in> lex ext_less"
    "map ext_words as = map ext_words bs \<longleftrightarrow> as = bs" by blast+
qed

lemma Encode_less:
  assumes es: "list_all storable as" "list_all storable bs" "int (length as) < kint32max" "int (length bs) < kint32max"
  shows "EncodeTensorNameSlice m (of_exts as) < EncodeTensorNameSlice n (of_exts bs) \<longleftrightarrow>
    m < n \<or> m = n \<and> (length as < length bs \<or> length as = length bs \<and> (as, bs) \<in> lex ext_less)"
proof -
  let ?put = "put_pair (WriteString []) (WriteNumIncreasing [])"
  have key: "EncodeTensorNameSlice x (of_exts xs) =
      WriteNumIncreasing [] 0 @ ?put (x, of_nat (length xs)) @ concat (map put_extent xs)" for x xs
    by (simp add: Encode_eq put_pair_def)
  have lens: "(of_nat (length as) :: uint64) < of_nat (length bs) \<longleftrightarrow> length as < length bs"
      "(of_nat (length as) :: uint64) = of_nat (length bs) \<longleftrightarrow> length as = length bs"
    using unat_length [OF es(3)] unat_length [OF es(4)] by (simp_all add: word_less_nat_alt word_unat_eq_iff)
  have tails: "concat (map put_extent as) < concat (map put_extent bs) \<longleftrightarrow> (as, bs) \<in> lex ext_less"
    if "length as = length bs"
    using oc_extent.pair.put_list_less_iff [of "map ext_words as" "map ext_words bs" "[]" "[]"] that es
    by (simp add: concat_put_extent lex_ext_words)
  show ?thesis
    unfolding key oc_num.put_less_iff oc_name.pair.put_less_iff
    using tails by (auto simp: lt_pair_def lens)
qed

lemma Encode_inject:
  assumes es: "list_all storable as" "list_all storable bs" "int (length as) < kint32max" "int (length bs) < kint32max"
    and eq: "EncodeTensorNameSlice m (of_exts as) = EncodeTensorNameSlice n (of_exts bs)"
  shows "m = n \<and> as = bs"
proof -
  have "m = n \<and> length as = length bs"
    using Encode_less [OF es, of m n] Encode_less [OF es(2,1,4,3), of n m] eq by (auto dest: linorder_cases)
  moreover from this have "concat (map put_extent as) = concat (map put_extent bs)"
    using eq by (simp add: Encode_eq)
  ultimately show ?thesis
    using oc_extent.pair.put_list_inject [of "map ext_words as" "map ext_words bs" "[]" "[]"] lex_ext_words(2) [of as bs] es
    by (simp add: concat_put_extent)
qed

text \<open>
  C39: Keys sort by tensor name, then rank, then the extents, start before length, and different
  tensors or slices have different keys. The key of the metadata comes before all of them, so it
  is the first entry of the table.
\<close>

theorem checkpoint_key_order:
  assumes "slice_valid s" "slice_valid t" "int (slice_dims s) < kint32max" "int (slice_dims t) < kint32max"
  shows "(EncodeTensorNameSlice m s < EncodeTensorNameSlice n t \<longleftrightarrow>
      m < n \<or> m = n \<and> (slice_dims s < slice_dims t \<or> slice_dims s = slice_dims t \<and> (exts s, exts t) \<in> lex ext_less)) \<and>
    (EncodeTensorNameSlice m s = EncodeTensorNameSlice n t \<longleftrightarrow> m = n \<and> s = t) \<and>
    kSavedTensorSlicesKey < EncodeTensorNameSlice m s"
proof -
  obtain as bs where e: "s = of_exts as" "list_all ext_valid as" "t = of_exts bs" "list_all ext_valid bs"
    using assms(1,2) by (metis slice_cases)
  have st: "list_all storable as" "list_all storable bs" using e by (auto simp: list_all_iff valid_storable)
  have less: "EncodeTensorNameSlice m s < EncodeTensorNameSlice n t \<longleftrightarrow>
      m < n \<or> m = n \<and> (slice_dims s < slice_dims t \<or> slice_dims s = slice_dims t \<and> (exts s, exts t) \<in> lex ext_less)"
    using Encode_less [OF st] assms(3,4) by (simp add: e)
  moreover have "m = n \<and> s = t" if "EncodeTensorNameSlice m s = EncodeTensorNameSlice n t"
    using Encode_inject [OF st, of m n] that assms(3,4) by (simp add: e)
  moreover have "EncodeTensorNameSlice m s \<noteq> []" by (simp add: e Encode_eq WriteString_eq)
  ultimately show ?thesis by (auto simp: kSavedTensorSlicesKey_def neq_Nil_conv)
qed

theorem checkpoint_key_order_witness:
  "EncodeTensorNameSlice [98] (of_exts [(0, 5)]) < EncodeTensorNameSlice [98] (of_exts [(5, 5)]) \<and>
   EncodeTensorNameSlice [98] (of_exts [(5, 5)]) < EncodeTensorNameSlice [98, 0] (of_exts [(0, 5)])"
proof -
  have "slice_valid (of_exts [(0, 5)])" "slice_valid (of_exts [(5, 5)])" "int 1 < kint32max"
    by (simp_all add: ext_valid_def ext_full_def kFullExtent_def kint32max_def)
  then show ?thesis
    using checkpoint_key_order [of "of_exts [(0, 5)]" "of_exts [(5, 5)]" "[98]" "[98]"]
      checkpoint_key_order [of "of_exts [(5, 5)]" "of_exts [(0, 5)]" "[98]" "[98, 0]"]
    by (simp add: ext_less_def)
qed

section \<open>Shape and slice specifications\<close>

text \<open>The specification of a slice of a tensor: the sizes and the slice, with blanks between them.\<close>

definition spec_text :: "int list \<Rightarrow> tensor_slice \<Rightarrow> string" where
  "spec_text xs sl = concat (map (\<lambda>n. int_text n @ '' '') xs) @ DebugString_slice sl"

lemma int_text_no_blank: "CHR '' '' \<notin> set (int_text k)"
  using int_text_chars(1) [of "CHR '' ''" k] by (auto simp: isdigit_def between_def)

lemma DebugString_no_blank: "CHR '' '' \<notin> set (DebugString_slice (of_exts es))"
proof (cases es)
  case (Cons e fs)
  have "CHR '' '' \<notin> set (extent_text x)" for x using int_text_no_blank by (auto simp: extent_text_def)
  then show ?thesis by (auto simp: Cons DebugString_of_exts)
qed (simp add: DebugString_of_exts)

lemma split_spec_text:
  assumes "CHR '' '' \<notin> set t"
  shows "split_loop CHR '' '' [] (concat (map (\<lambda>n. int_text n @ '' '') xs) @ t) = map int_text xs @ [t]"
proof (induction xs)
  case Nil
  then show ?case using assms by (simp add: split_loop_append)
next
  case (Cons n xs)
  then show ?case
    using split_loop_append(1) [OF int_text_no_blank [of n], of "[]" "concat (map (\<lambda>n. int_text n @ '' '') xs) @ t"] by simp
qed

lemma parse_sizes_text:
  assumes "list_all (\<lambda>n. - (2 ^ 63) \<le> n \<and> n < 2 ^ 63) xs"
  shows "parse_sizes (map int_text xs) shape = map_option Inr (AddDims xs shape)"
  using assms
proof (induction xs arbitrary: shape)
  case (Cons n xs)
  then show ?case by (simp add: AddDims_def parse_int_text sint_int64 split: option.split)
qed (simp add: AddDims_def)

lemma ParseShapeAndSlice_text:
  assumes "xs \<noteq> []" "list_all (\<lambda>n. - (2 ^ 63) \<le> n \<and> n < 2 ^ 63) xs" "slice_valid sl"
  shows "ParseShapeAndSlice (spec_text xs sl) =
    (case TensorShape xs of None \<Rightarrow> None
     | Some shape \<Rightarrow> map_option (map_sum id (\<lambda>h. (shape, sl, h))) (SliceTensorShape sl shape))"
proof -
  obtain es where es: "sl = of_exts es" using assms(3) by (rule slice_cases)
  have ne: "spec_text xs sl \<noteq> []" using assms(1) by (cases xs) (simp_all add: spec_text_def)
  have "Split_text (spec_text xs sl) CHR '' '' AllowEmpty = map int_text xs @ [DebugString_slice sl]"
    using ne split_spec_text [OF DebugString_no_blank [of es]]
    by (simp add: Split_text_def AllowEmpty_def spec_text_def es)
  then show ?thesis
    using assms ne Parse_DebugString [OF assms(3)] parse_sizes_text [OF assms(2), of empty_shape]
    by (simp add: ParseShapeAndSlice_def TensorShape_def Let_def split: option.split)
qed

text \<open>
  The specification of a slice of a tensor with at least one dimension is read back: the
  shape, the slice and the shape of the slice if the slice fits, and otherwise the status
  \<open>INTERNAL\<close>. A negative size is not reported as an error: the check in \<open>AddDim\<close> ends the process.
\<close>

theorem shape_and_slice_text:
  "(xs \<noteq> [] \<and> length xs \<le> MaxDimensions \<and> list_all (\<lambda>n. 0 \<le> n \<and> n < 2 ^ 63) xs \<and> slice_valid sl \<and>
      (\<forall>k \<le> length xs. prod_list (take k xs) \<le> kMaxElements) \<longrightarrow>
    (if list_all2 ext_fits xs (exts sl)
     then \<exists>shape h. ParseShapeAndSlice (spec_text xs sl) = Some (Inr (shape, sl, h)) \<and> dim_sizes shape = xs \<and>
       dim_sizes h = map2 ext_size xs (exts sl)
     else ParseShapeAndSlice (spec_text xs sl) = Some (Inl INTERNAL))) \<and>
   (slice_valid sl \<and> - (2 ^ 63) \<le> n \<and> n < 0 \<longrightarrow> ParseShapeAndSlice (spec_text [n] sl) = None)"
proof (intro conjI impI; elim conjE)
  assume xs: "xs \<noteq> []" "length xs \<le> MaxDimensions" "list_all (\<lambda>n. 0 \<le> n \<and> n < 2 ^ 63) xs" "slice_valid sl"
    "\<forall>k \<le> length xs. prod_list (take k xs) \<le> kMaxElements"
  have "list_all (\<lambda>n. 0 \<le> n) xs" using xs(3) by (auto simp: list_all_iff)
  then obtain shape where shape: "TensorShape xs = Some shape" "honest shape" "dim_sizes shape = xs"
    using honest_TensorShape [of xs] xs(2,5) by auto
  have "list_all (\<lambda>n. - (2 ^ 63) \<le> n \<and> n < 2 ^ 63) xs" using xs(3) by (auto simp: list_all_iff)
  then have "ParseShapeAndSlice (spec_text xs sl) = map_option (map_sum id (\<lambda>h. (shape, sl, h))) (SliceTensorShape sl shape)"
    using ParseShapeAndSlice_text [OF xs(1) _ xs(4)] shape(1) by simp
  then show "if list_all2 ext_fits xs (exts sl)
     then \<exists>shape h. ParseShapeAndSlice (spec_text xs sl) = Some (Inr (shape, sl, h)) \<and> dim_sizes shape = xs \<and>
       dim_sizes h = map2 ext_size xs (exts sl)
     else ParseShapeAndSlice (spec_text xs sl) = Some (Inl INTERNAL)"
    using SliceTensorShape_correct [OF shape(2) xs(4)] shape(3) by (auto simp: slice_fits_def split: if_splits)
next
  assume n: "slice_valid sl" "- (2 ^ 63) \<le> n" "n < 0"
  then show "ParseShapeAndSlice (spec_text [n] sl) = None"
    using ParseShapeAndSlice_text [of "[n]" sl] by (simp add: TensorShape_def AddDims_def AddDim_def)
qed

theorem shape_and_slice_text_witness:
  "spec_text [4, 6] (of_exts [(1, 2), (0, -1)]) = ''4 6 1,2:-'' \<and>
   (\<exists>shape h. ParseShapeAndSlice ''4 6 1,2:-'' = Some (Inr (shape, of_exts [(1, 2), (0, -1)], h)) \<and> dim_sizes h = [2, 6]) \<and>
   ParseShapeAndSlice ''-1 -'' = None"
proof -
  let ?sl = "of_exts [(1, 2), (0, -1)]" and ?full = "of_exts [(0, -1)]"
  note spell = spec_text_def DebugString_of_exts extent_text_def int_text_def FastInt64ToBufferLeft_def
    FastUInt64ToBufferLeft_def digits_loop.simps ext_full_def kFullExtent_def char_of_def bit_0
  have text1: "spec_text [4, 6] ?sl = ''4 6 1,2:-''" by (simp add: spell)
  have text2: "spec_text [-1] ?full = ''-1 -''" by (simp add: spell)
  have valid: "slice_valid ?sl" "slice_valid ?full" "list_all2 ext_fits [4, 6] (exts ?sl)"
    by (simp_all add: ext_valid_def ext_fits_def ext_full_def kFullExtent_def)
  have "\<forall>k \<le> length [4, 6]. prod_list (take k [4, 6]) \<le> kMaxElements"
    by (simp add: kMaxElements_def take_Cons')
  then show ?thesis
    using shape_and_slice_text [of "[4, 6]" ?sl 0] shape_and_slice_text [of "[]" ?full "-1"] valid
    unfolding text1 text2 by (auto simp: text1 MaxDimensions_def ext_size_def ext_full_def kFullExtent_def)
qed

end
