(* ===== verification/Cancel_Manager.thy ===== *)
theory Cancel_Manager
  imports Prelude
begin

text \<open>
  The cancellation manager: \<open>framework/cancellation.cc\<close> and \<open>.h\<close>.

  Each definition is what the function does in one scope of its mutex. The map of callbacks is a
  list of its entries. Tokens are numbers that never wrap around. \<open>StartCancel\<close> has two scopes,
  between which it calls the callbacks; \<open>DeregisterCallback\<close> waits while this goes on.
\<close>

record 'c manager =
  is_cancelling :: bool
  is_cancelled :: bool
  next_cancellation_token :: int
  callbacks :: "(int \<times> 'c) list"

definition kInvalidToken :: int where "kInvalidToken = -1"

definition CancellationManager :: "'c manager" where
  "CancellationManager =
     \<lparr>is_cancelling = False, is_cancelled = False, next_cancellation_token = 0, callbacks = []\<rparr>"

text \<open>\<open>None\<close>: the call returns at once. Otherwise the callbacks to run.\<close>

definition begin_StartCancel :: "'c manager \<Rightarrow> ((int \<times> 'c) list \<times> 'c manager) option" where
  "begin_StartCancel m =
     (if is_cancelled m \<or> is_cancelling m then None
      else Some (callbacks m, m\<lparr>is_cancelling := True, callbacks := []\<rparr>))"

definition end_StartCancel :: "'c manager \<Rightarrow> 'c manager" where
  "end_StartCancel m = m\<lparr>is_cancelling := False, is_cancelled := True\<rparr>"

definition get_cancellation_token :: "'c manager \<Rightarrow> int \<times> 'c manager" where
  "get_cancellation_token m = (next_cancellation_token m, m\<lparr>next_cancellation_token := next_cancellation_token m + 1\<rparr>)"

text \<open>\<open>None\<close>: the check of the token fails.\<close>

definition RegisterCallback :: "int \<Rightarrow> 'c \<Rightarrow> 'c manager \<Rightarrow> (bool \<times> 'c manager) option" where
  "RegisterCallback token callback m =
     (if \<not> token < next_cancellation_token m then None
      else let should_register = \<not> is_cancelled m \<and> \<not> is_cancelling m in
        Some (should_register,
          if should_register then m\<lparr>callbacks := (token, callback) # filter (\<lambda>x. fst x \<noteq> token) (callbacks m)\<rparr> else m))"

text \<open>\<open>None\<close>: the caller waits until the cancellation has ended, and then gets false.\<close>

definition DeregisterCallback :: "int \<Rightarrow> 'c manager \<Rightarrow> (bool \<times> 'c manager) option" where
  "DeregisterCallback token m =
     (if is_cancelled m then Some (False, m)
      else if is_cancelling m then None
      else Some (True, m\<lparr>callbacks := filter (\<lambda>x. fst x \<noteq> token) (callbacks m)\<rparr>))"

lemma register_token:
  "RegisterCallback (fst (get_cancellation_token m)) c (snd (get_cancellation_token m)) \<noteq> None"
  by (simp add: RegisterCallback_def get_cancellation_token_def Let_def)

end
