(* ===== verification/Fifo_Queue.thy ===== *)
theory Fifo_Queue
  imports Cancel_Manager "HOL-Library.Multiset"
begin

text \<open>
  The first-in-first-out queue of tensors: \<open>kernels/queue_base.cc\<close>, \<open>fifo_queue.cc\<close> and their
  headers, without the threads that call it.

  Elements are tuples of tensors, one per component; there is one list of tensors per component.
  Operations that cannot be done at once wait as attempts. A tensor is opaque; a batch is the
  list of its slices in the first dimension, and a slice not yet written is \<open>None\<close>. Allocation and
  copying of tensors succeed, so the tests of the context's status after them are never taken, and
  tuples have the shapes that \<open>ValidateTuple\<close> checks. The function objects
  of an attempt are a constructor per lambda of the source; a callback is the operation it
  belongs to and the tuple it is called with. The fields \<open>accepted\<close> and \<open>taken\<close> are history: the
  elements pushed, and the elements that left the queue for good, with the operation that got
  them, or \<open>None\<close> for an element dropped with a cancelled attempt.
\<close>

section \<open>State\<close>

datatype run_result = kNoProgress | kProgress | kComplete

datatype action = kEnqueue | kDequeue

datatype 't reply = NoTuple | Single "'t list" | Batch "'t option list list"

type_synonym 't callback = "nat \<times> 't reply"

datatype 't run = Enqueue_one "'t list" | Enqueue_many "'t list list" | Close_queue | Dequeue_one | Dequeue_many bool

record 't attempt =
  elements_requested :: int
  done_callback :: "'t callback option"
  att_context :: nat
  cancellation_manager :: "nat option"
  cancellation_token :: int
  run_callback :: "'t run"
  att_cancelled :: bool
  att_tuple :: "'t option list list"

record 't queue =
  capacity :: nat
  num_components :: nat
  specified_shapes :: bool
  closed :: bool
  queues :: "'t list list"
  enqueue_attempts :: "'t attempt list"
  dequeue_attempts :: "'t attempt list"
  ctx_status :: "nat \<Rightarrow> code option"
  accepted :: "'t list list"
  taken :: "(nat option \<times> 't list) list"

definition int32_of :: "int \<Rightarrow> int" where
  "int32_of x = sint (word_of_int x :: 32 word)"

definition Attempt :: "int \<Rightarrow> 't callback \<Rightarrow> nat \<Rightarrow> nat option \<Rightarrow> int \<Rightarrow> 't run \<Rightarrow> 't attempt" where
  "Attempt n cb ctx cm token run =
     \<lparr>elements_requested = int32_of n, done_callback = Some cb, att_context = ctx, cancellation_manager = cm,
      cancellation_token = token, run_callback = run, att_cancelled = False, att_tuple = []\<rparr>"

text \<open>The constructor and \<open>Initialize\<close> of a queue with at least one component.\<close>

definition new_queue :: "nat \<Rightarrow> nat \<Rightarrow> bool \<Rightarrow> 't queue" where
  "new_queue cap n shapes =
     \<lparr>capacity = cap, num_components = n, specified_shapes = shapes, closed = False, queues = replicate n [],
      enqueue_attempts = [], dequeue_attempts = [], ctx_status = (\<lambda>_. None), accepted = [], taken = []\<rparr>"

section \<open>Attempts\<close>

text \<open>\<open>OpKernelContext::SetStatus\<close> keeps the first error.\<close>

definition SetStatus :: "nat \<Rightarrow> code \<Rightarrow> 't queue \<Rightarrow> 't queue" where
  "SetStatus ctx c q = (if ctx_status q ctx = None then q\<lparr>ctx_status := (ctx_status q)(ctx := Some c)\<rparr> else q)"

definition queue_size :: "'t queue \<Rightarrow> nat" where
  "queue_size q = length (hd (queues q))"

definition push_back :: "'t list \<Rightarrow> 't queue \<Rightarrow> 't queue" where
  "push_back tuple q = q\<lparr>queues := map2 (\<lambda>sub x. sub @ [x]) (queues q) tuple, accepted := accepted q @ [tuple]\<rparr>"

definition push_front :: "'t list \<Rightarrow> 't queue \<Rightarrow> 't queue" where
  "push_front tuple q = q\<lparr>queues := map2 (\<lambda>sub x. x # sub) (queues q) tuple\<rparr>"

definition DequeueLocked :: "'t queue \<Rightarrow> 't list \<times> 't queue" where
  "DequeueLocked q = (map hd (queues q), q\<lparr>queues := map tl (queues q)\<rparr>)"

text \<open>The size of a batch in the first dimension, and the tuple of the slices with a given index.\<close>

definition dim0 :: "'a list list \<Rightarrow> int" where
  "dim0 batch = int (length (hd batch))"

definition GetElementComponentFromBatch :: "'a list list \<Rightarrow> int \<Rightarrow> nat \<Rightarrow> 'a" where
  "GetElementComponentFromBatch batch i component = batch ! component ! nat i"

definition element_at :: "'a list list \<Rightarrow> int \<Rightarrow> 'a list" where
  "element_at batch i = map (GetElementComponentFromBatch batch i) [0..<length batch]"

text \<open>The loop of \<open>TryEnqueueMany\<close>; the first argument is the room left in the queue.\<close>

fun enqueue_many_loop :: "nat \<Rightarrow> 't list list \<Rightarrow> 't attempt \<Rightarrow> 't queue \<Rightarrow> run_result \<Rightarrow> run_result \<times> 't attempt \<times> 't queue" where
  "enqueue_many_loop 0 batch a q result = (result, a, q)"
| "enqueue_many_loop (Suc room) batch a q result =
     (let i = dim0 batch - elements_requested a;
          q = push_back (element_at batch i) q;
          a = a\<lparr>elements_requested := elements_requested a - 1\<rparr>
      in if elements_requested a = 0 then (kComplete, a, q)
         else enqueue_many_loop room batch a q kProgress)"

text \<open>The loop of \<open>TryDequeueMany\<close>; the first argument is \<open>queue_size\<close>.\<close>

fun dequeue_many_loop :: "nat \<Rightarrow> 't attempt \<Rightarrow> 't queue \<Rightarrow> run_result \<Rightarrow> run_result \<times> 't attempt \<times> 't queue" where
  "dequeue_many_loop 0 a q result = (result, a, q)"
| "dequeue_many_loop (Suc n) a q result =
     (let a = (if att_tuple a = []
               then a\<lparr>att_tuple := replicate (num_components q) (replicate (nat (elements_requested a)) None)\<rparr> else a);
          (tuple, q) = DequeueLocked q;
          i = dim0 (att_tuple a) - elements_requested a;
          a = a\<lparr>att_tuple := map2 (\<lambda>b x. b[nat i := Some x]) (att_tuple a) tuple,
                elements_requested := elements_requested a - 1\<rparr>
      in if elements_requested a = 0
         then (kComplete, a\<lparr>done_callback := Some (att_context a, Batch (att_tuple a))\<rparr>, q)
         else dequeue_many_loop n a q kProgress)"

text \<open>The elements an attempt has dequeued so far, and their way back to the front of the queue.\<close>

definition held :: "'t attempt \<Rightarrow> 't list list" where
  "held a = (if att_tuple a = [] then []
     else map (\<lambda>i. map the (element_at (att_tuple a) (int i))) [0..<nat (dim0 (att_tuple a) - elements_requested a)])"

definition restore :: "'t attempt \<Rightarrow> 't queue \<Rightarrow> 't queue" where
  "restore a q = fold push_front (rev (held a)) q"

definition run_dequeue_many :: "bool \<Rightarrow> 't attempt \<Rightarrow> 't queue \<Rightarrow> run_result \<times> 't attempt \<times> 't queue" where
  "run_dequeue_many allow_small_batch a q =
     (if closed q \<and> int (queue_size q) < elements_requested a then
        let q = (if att_tuple a \<noteq> [] then restore a q else q) in
        if allow_small_batch \<and> queue_size q > 0
        then dequeue_many_loop (queue_size q) (a\<lparr>att_tuple := [], elements_requested := int32_of (int (queue_size q))\<rparr>) q kNoProgress
        else if allow_small_batch \<and> enqueue_attempts q \<noteq> [] then (kProgress, a, q)
        else (kComplete, a, SetStatus (att_context a) OUT_OF_RANGE q)
      else dequeue_many_loop (queue_size q) a q kNoProgress)"

definition run_attempt :: "'t attempt \<Rightarrow> 't queue \<Rightarrow> run_result \<times> 't attempt \<times> 't queue" where
  "run_attempt a q = (case run_callback a of
      Enqueue_one tuple \<Rightarrow>
        if closed q then (kComplete, a, SetStatus (att_context a) CANCELLED q)
        else if queue_size q < capacity q then (kComplete, a, push_back tuple q)
        else (kNoProgress, a, q)
    | Enqueue_many batch \<Rightarrow>
        if closed q then (kComplete, a, SetStatus (att_context a) CANCELLED q)
        else enqueue_many_loop (capacity q - queue_size q) batch a q kNoProgress
    | Close_queue \<Rightarrow>
        if closed q then (kComplete, a, SetStatus (att_context a) CANCELLED q)
        else (kComplete, a, q\<lparr>closed := True\<rparr>)
    | Dequeue_one \<Rightarrow>
        if closed q \<and> queue_size q = 0 then (kComplete, a, SetStatus (att_context a) OUT_OF_RANGE q)
        else if queue_size q > 0 then
          let (tuple, q) = DequeueLocked q in (kComplete, a\<lparr>done_callback := Some (att_context a, Single tuple)\<rparr>, q)
        else (kNoProgress, a, q)
    | Dequeue_many allow_small_batch \<Rightarrow> run_dequeue_many allow_small_batch a q)"

section \<open>Making progress\<close>

text \<open>
  The loop of \<open>TryAttemptLocked\<close> over the attempts of one kind; it returns those left over. The
  clean-up of an attempt is its callback, its token and its context. The history is extended when
  an attempt ends: by the elements of the tuple its callback gets, or by those dropped.
\<close>

definition reply_rows :: "'t reply \<Rightarrow> 't list list" where
  "reply_rows r = (case r of NoTuple \<Rightarrow> [] | Single t \<Rightarrow> [t]
     | Batch b \<Rightarrow> map (\<lambda>i. map the (element_at b (int i))) [0..<nat (dim0 b)])"

type_synonym 't clean_up = "('t callback option \<times> int \<times> nat) list"

definition record_taken :: "nat option \<Rightarrow> 't list list \<Rightarrow> 't queue \<Rightarrow> 't queue" where
  "record_taken who rows q = q\<lparr>taken := taken q @ map (Pair who) rows\<rparr>"

definition record_reply :: "'t callback option \<Rightarrow> 't queue \<Rightarrow> 't queue" where
  "record_reply cb q = (case cb of None \<Rightarrow> q | Some (ctx, r) \<Rightarrow> record_taken (Some ctx) (reply_rows r) q)"

fun try_attempts :: "'t attempt list \<Rightarrow> 't queue \<Rightarrow> bool \<Rightarrow> 't clean_up \<Rightarrow> 't attempt list \<times> 't queue \<times> bool \<times> 't clean_up" where
  "try_attempts [] q progress clean_up = ([], q, progress, clean_up)"
| "try_attempts (a # attempts) q progress clean_up =
     (if att_cancelled a then try_attempts attempts (record_taken None (held a) q) progress clean_up
      else case run_attempt a q of
          (kNoProgress, a, q) \<Rightarrow> (a # attempts, q, progress, clean_up)
        | (kProgress, a, q) \<Rightarrow> (a # attempts, q, True, clean_up)
        | (kComplete, a, q) \<Rightarrow>
            try_attempts attempts (record_reply (done_callback a) q) True
              (clean_up @ [(done_callback a, cancellation_token a, att_context a)]))"

definition TryAttemptLocked :: "action \<Rightarrow> 't queue \<Rightarrow> 't clean_up \<Rightarrow> bool \<times> 't queue \<times> 't clean_up" where
  "TryAttemptLocked act q clean_up =
     (case act of
        kEnqueue \<Rightarrow> (case try_attempts (enqueue_attempts q) q False clean_up of
            (left, q, progress, clean_up) \<Rightarrow> (progress, q\<lparr>enqueue_attempts := left\<rparr>, clean_up))
      | kDequeue \<Rightarrow> (case try_attempts (dequeue_attempts q) q False clean_up of
            (left, q, progress, clean_up) \<Rightarrow> (progress, q\<lparr>dequeue_attempts := left\<rparr>, clean_up)))"

text \<open>The locked part of \<open>FlushUnlocked\<close>; \<open>None\<close> is a loop that never ends.\<close>

partial_function (option) flush_loop :: "'t queue \<Rightarrow> 't clean_up \<Rightarrow> ('t queue \<times> 't clean_up) option" where
  [code]: "flush_loop q clean_up =
     (let (changed, q, clean_up) = TryAttemptLocked kEnqueue q clean_up;
          (changed', q, clean_up) = TryAttemptLocked kDequeue q clean_up
      in if changed' \<or> changed then flush_loop q clean_up else Some (q, clean_up))"

text \<open>
  \<open>Cancel\<close> marks the attempt with the given manager and token and takes its callback.
\<close>

fun cancel_first :: "nat \<Rightarrow> int \<Rightarrow> 't attempt list \<Rightarrow> 't attempt list \<times> 't attempt option" where
  "cancel_first cm token [] = ([], None)"
| "cancel_first cm token (a # attempts) =
     (if cancellation_manager a = Some cm \<and> cancellation_token a = token then
        if \<not> att_cancelled a then (a\<lparr>att_cancelled := True, done_callback := None\<rparr> # attempts, Some a)
        else (a # attempts, None)
      else case cancel_first cm token attempts of (attempts, found) \<Rightarrow> (a # attempts, found))"

definition Cancel :: "action \<Rightarrow> nat \<Rightarrow> int \<Rightarrow> 't queue \<Rightarrow> 't queue \<times> 't callback option" where
  "Cancel act cm token q =
     (case cancel_first cm token (case act of kEnqueue \<Rightarrow> enqueue_attempts q | kDequeue \<Rightarrow> dequeue_attempts q) of
        (attempts, found) \<Rightarrow>
          let q = (case act of kEnqueue \<Rightarrow> q\<lparr>enqueue_attempts := attempts\<rparr> | kDequeue \<Rightarrow> q\<lparr>dequeue_attempts := attempts\<rparr>)
          in case found of None \<Rightarrow> (q, None) | Some a \<Rightarrow> (SetStatus (att_context a) CANCELLED q, done_callback a))"

text \<open>The locked part of \<open>CloseAndCancel\<close>, with the callbacks to call.\<close>

definition cancel_attempt :: "'t attempt \<Rightarrow> 't attempt" where
  "cancel_attempt a = (if \<not> att_cancelled a then a\<lparr>att_cancelled := True, done_callback := None\<rparr> else a)"

definition CloseAndCancel :: "'t queue \<Rightarrow> 't queue \<times> 't callback option list" where
  "CloseAndCancel q =
     (let pending = filter (\<lambda>a. \<not> att_cancelled a) (enqueue_attempts q)
      in (fold (\<lambda>a. SetStatus (att_context a) CANCELLED) pending
           (q\<lparr>closed := True, enqueue_attempts := map cancel_attempt (enqueue_attempts q)\<rparr>),
          map done_callback pending))"

section \<open>Elements by component\<close>

definition cols :: "nat \<Rightarrow> 'a list list \<Rightarrow> 'a list list" where
  "cols n rs = map (\<lambda>j. map (\<lambda>r. r ! j) rs) [0..<n]"

definition rows :: "'a list list \<Rightarrow> 'a list list" where
  "rows subs = map (\<lambda>i. element_at subs (int i)) [0..<length (hd subs)]"

definition width :: "nat \<Rightarrow> 'a list list \<Rightarrow> bool" where
  "width n rs \<longleftrightarrow> (\<forall>r \<in> set rs. length r = n)"

lemma width_simps [simp]:
  "width n []" "width n (r # rs) \<longleftrightarrow> length r = n \<and> width n rs" "width n (rs @ rs') \<longleftrightarrow> width n rs \<and> width n rs'"
  "width n (replicate k r) \<longleftrightarrow> k = 0 \<or> length r = n"
  by (auto simp: width_def)

lemma length_cols [simp]: "length (cols n rs) = n"
  by (simp add: cols_def)

lemma hd_cols [simp]: "0 < n \<Longrightarrow> length (hd (cols n rs)) = length rs"
  by (simp add: cols_def hd_map upt_conv_Cons)

lemma cols_neq_Nil [simp]: "cols n rs = [] \<longleftrightarrow> n = 0"
  by (simp add: cols_def)

lemma nth_cols [simp]: "j < n \<Longrightarrow> cols n rs ! j = map (\<lambda>r. r ! j) rs"
  by (simp add: cols_def)

lemma dim0_cols [simp]: "0 < n \<Longrightarrow> dim0 (cols n rs) = int (length rs)"
  by (simp add: dim0_def)

lemma element_at_cols [simp]: "width n rs \<Longrightarrow> i < length rs \<Longrightarrow> element_at (cols n rs) (int i) = rs ! i"
  by (rule nth_equalityI) (auto simp: element_at_def GetElementComponentFromBatch_def width_def)

lemma rows_cols [simp]: "0 < n \<Longrightarrow> width n rs \<Longrightarrow> rows (cols n rs) = rs"
  by (rule nth_equalityI) (simp_all add: rows_def)

lemma cols_snoc: "length t = n \<Longrightarrow> map2 (\<lambda>sub x. sub @ [x]) (cols n rs) t = cols n (rs @ [t])"
  by (rule nth_equalityI) simp_all

lemma cols_cons: "length t = n \<Longrightarrow> map2 (\<lambda>sub x. x # sub) (cols n rs) t = cols n (t # rs)"
  by (rule nth_equalityI) simp_all

lemma cols_hd: "length r = n \<Longrightarrow> map hd (cols n (r # rs)) = r"
  by (rule nth_equalityI) simp_all

lemma cols_tl: "map tl (cols n (r # rs)) = cols n rs"
  by (rule nth_equalityI) simp_all

lemma cols_update:
  "length t = n \<Longrightarrow> i < length rs \<Longrightarrow> map2 (\<lambda>b x. b[i := Some x]) (cols n rs) t = cols n (rs[i := map Some t])"
  by (rule nth_equalityI) (auto simp: map_update intro!: nth_equalityI simp: nth_list_update)

lemma cols_replicate: "replicate n (replicate k x) = cols n (replicate k (replicate n x))"
  by (rule nth_equalityI) simp_all

lemma cols_Nil: "replicate n [] = cols n []"
  by (rule nth_equalityI) simp_all

section \<open>What an attempt does\<close>

text \<open>The batch of an attempt that has dequeued \<open>hs\<close> and waits for \<open>k\<close> more.\<close>

definition batch_of :: "nat \<Rightarrow> 't list list \<Rightarrow> nat \<Rightarrow> 't option list list" where
  "batch_of n hs k = cols n (map (map Some) hs @ replicate k (replicate n None))"

definition holds :: "nat \<Rightarrow> 't attempt \<Rightarrow> 't list list \<Rightarrow> bool" where
  "holds n a hs \<longleftrightarrow> width n hs \<and> 0 \<le> elements_requested a \<and>
     att_tuple a = (if hs = [] then [] else batch_of n hs (nat (elements_requested a)))"

lemma width_map_Some [simp]: "width n (map (map Some) hs) \<longleftrightarrow> width n hs"
  by (simp add: width_def)

lemma dim0_batch: "0 < n \<Longrightarrow> dim0 (batch_of n hs k) = int (length hs) + int k"
  by (simp add: batch_of_def)

lemma element_at_batch:
  assumes "width n hs" "i < length hs"
  shows "map the (element_at (batch_of n hs k) (int i)) = hs ! i"
proof -
  have "width n (map (map Some) hs @ replicate k (replicate n None))" using assms(1) by simp
  then have "element_at (batch_of n hs k) (int i) = map Some (hs ! i)"
    using assms(2) element_at_cols [of n "map (map Some) hs @ replicate k (replicate n None)" i]
    by (simp add: batch_of_def nth_append)
  then show ?thesis by (simp add: comp_def)
qed

lemma batch_rows: "width n hs \<Longrightarrow> map (\<lambda>i. map the (element_at (batch_of n hs k) (int i))) [0..<length hs] = hs"
  by (rule nth_equalityI) (simp_all add: element_at_batch)

lemma held_eq:
  assumes "holds n a hs" "0 < n"
  shows "held a = hs"
proof (cases "hs = []")
  case False
  then have "att_tuple a = batch_of n hs (nat (elements_requested a))" "0 \<le> elements_requested a" "width n hs"
    using assms(1) by (simp_all add: holds_def)
  moreover from this have "batch_of n hs (nat (elements_requested a)) \<noteq> []" using assms(2) by (simp add: batch_of_def)
  ultimately show ?thesis
    using assms(2) batch_rows [of n hs] by (simp add: held_def dim0_batch)
qed (use assms in \<open>simp add: holds_def held_def\<close>)

lemma reply_rows_batch: "0 < n \<Longrightarrow> width n hs \<Longrightarrow> reply_rows (Batch (batch_of n hs 0)) = hs"
  using batch_rows [of n hs 0] by (simp add: reply_rows_def dim0_batch)

lemma batch_of_update:
  assumes "length t = n"
  shows "map2 (\<lambda>b x. b[length hs := Some x]) (batch_of n hs (Suc k)) t = batch_of n (hs @ [t]) k"
  using assms by (simp add: batch_of_def cols_update list_update_append)

lemma dequeue_many_loop_eq:
  assumes "queues q = cols n rs" "width n rs" "n = num_components q" "0 < n" "holds n a hs" "1 \<le> elements_requested a"
  shows "dequeue_many_loop (length rs) a q result =
    (let k = nat (elements_requested a) in
     if k \<le> length rs
     then (kComplete, a\<lparr>att_tuple := batch_of n (hs @ take k rs) 0, elements_requested := 0,
         done_callback := Some (att_context a, Batch (batch_of n (hs @ take k rs) 0))\<rparr>, q\<lparr>queues := cols n (drop k rs)\<rparr>)
     else if rs = [] then (result, a, q)
     else (kProgress, a\<lparr>att_tuple := batch_of n (hs @ rs) (k - length rs), elements_requested := int (k - length rs)\<rparr>,
         q\<lparr>queues := cols n []\<rparr>))"
  using assms
proof (induction rs arbitrary: q a hs result)
  case (Cons r rs)
  define k where "k = nat (elements_requested a) - 1"
  have req: "elements_requested a = int (Suc k)" using Cons.prems(6) by (simp add: k_def)
  define a1 where "a1 = a\<lparr>att_tuple := batch_of n (hs @ [r]) k, elements_requested := int k\<rparr>"
  let ?q = "q\<lparr>queues := cols n rs\<rparr>"
  have deq: "DequeueLocked q = (r, ?q)" using Cons.prems by (simp add: DequeueLocked_def cols_hd cols_tl)
  have tuple: "(if att_tuple a = [] then a\<lparr>att_tuple := replicate (num_components q) (replicate (nat (elements_requested a)) None)\<rparr> else a)
      = a\<lparr>att_tuple := batch_of n hs (Suc k)\<rparr>"
  proof (cases "hs = []")
    case True
    then have "att_tuple a = []" using Cons.prems(5) by (simp add: holds_def)
    moreover have "batch_of n hs (Suc k) = replicate n (replicate (Suc k) None)"
      unfolding True batch_of_def list.map append.simps by (rule cols_replicate [symmetric])
    ultimately show ?thesis using True Cons.prems(3) by (simp only: req nat_int) simp
  next
    case False
    then have "att_tuple a = batch_of n hs (Suc k)" using Cons.prems(5) by (simp add: holds_def req nat_int del: of_nat_Suc)
    moreover from this have "att_tuple a \<noteq> []" using Cons.prems(4) by (simp add: batch_of_def)
    ultimately show ?thesis by simp
  qed
  have step: "dequeue_many_loop (length (r # rs)) a q result =
      (if k = 0 then (kComplete, a1\<lparr>done_callback := Some (att_context a, Batch (att_tuple a1))\<rparr>, ?q)
       else dequeue_many_loop (length rs) a1 ?q kProgress)"
  proof -
    have idx: "nat (dim0 (batch_of n hs (Suc k)) - elements_requested a) = length hs"
      using Cons.prems(4) by (simp add: dim0_batch req)
    have upd: "map2 (\<lambda>b x. b[length hs := Some x]) (batch_of n hs (Suc k)) r = batch_of n (hs @ [r]) k"
      using Cons.prems(2) by (intro batch_of_update) simp
    have dec: "elements_requested a - 1 = int k" by (simp add: req)
    show ?thesis
      unfolding list.size add_Suc_right add_0_right dequeue_many_loop.simps tuple deq Let_def prod.case
      using idx upd dec by (cases "k = 0"; simp add: a1_def)
  qed
  show ?case
  proof (cases "k = 0")
    case True
    then show ?thesis unfolding step by (simp add: req a1_def Let_def)
  next
    case False
    have a1: "holds n a1 (hs @ [r])" "1 \<le> elements_requested a1"
      using Cons.prems(2,5) False by (simp_all add: holds_def a1_def)
    have IH: "dequeue_many_loop (length rs) a1 ?q kProgress =
      (if k \<le> length rs
       then (kComplete, a1\<lparr>att_tuple := batch_of n (hs @ r # take k rs) 0, elements_requested := 0,
           done_callback := Some (att_context a, Batch (batch_of n (hs @ r # take k rs) 0))\<rparr>, ?q\<lparr>queues := cols n (drop k rs)\<rparr>)
       else if rs = [] then (kProgress, a1, ?q)
       else (kProgress, a1\<lparr>att_tuple := batch_of n (hs @ r # rs) (k - length rs), elements_requested := int (k - length rs)\<rparr>,
           ?q\<lparr>queues := cols n []\<rparr>))"
      using Cons.IH [OF _ _ _ Cons.prems(4) a1, of ?q kProgress] Cons.prems by (simp add: a1_def Let_def)
    have "nat (elements_requested a) = Suc k" using req by simp
    then show ?thesis unfolding step IH using False by (auto simp: a1_def Let_def)
  qed
qed (simp add: Let_def)

lemma enqueue_many_loop_eq:
  assumes "queues q = cols n rs" "width n bs" "0 < n" "elements_requested a = int k" "1 \<le> k" "k \<le> length bs"
  shows "enqueue_many_loop room (cols n bs) a q result =
    (let new = take room (drop (length bs - k) bs);
         q' = q\<lparr>queues := cols n (rs @ new), accepted := accepted q @ new\<rparr>
     in if k \<le> room then (kComplete, a\<lparr>elements_requested := 0\<rparr>, q')
     else if room = 0 then (result, a, q)
     else (kProgress, a\<lparr>elements_requested := int (k - room)\<rparr>, q'))"
  using assms
proof (induction room arbitrary: q a rs k result)
  case (Suc room)
  define t where "t = bs ! (length bs - k)"
  have t: "length t = n" using Suc.prems(2,5,6) by (simp add: t_def width_def)
  have idx: "dim0 (cols n bs) - elements_requested a = int (length bs - k)" using Suc.prems by simp
  then have el: "element_at (cols n bs) (dim0 (cols n bs) - elements_requested a) = t"
    using Suc.prems(2,5,6) unfolding idx by (subst element_at_cols) (simp_all add: t_def)
  have drop: "drop (length bs - k) bs = t # drop (length bs - (k - 1)) bs"
    using Suc.prems(5,6) Cons_nth_drop_Suc [of "length bs - k" bs] by (simp add: t_def Suc_diff_le)
  define a1 where "a1 = a\<lparr>elements_requested := int (k - 1)\<rparr>"
  define q1 where "q1 = q\<lparr>queues := cols n (rs @ [t]), accepted := accepted q @ [t]\<rparr>"
  have push: "push_back t q = q1" using Suc.prems(1) t by (simp add: push_back_def q1_def cols_snoc)
  have step: "enqueue_many_loop (Suc room) (cols n bs) a q result =
      (if k = 1 then (kComplete, a1, q1) else enqueue_many_loop room (cols n bs) a1 q1 kProgress)"
    using Suc.prems(4,5) unfolding enqueue_many_loop.simps el push Let_def by (auto simp: a1_def of_nat_diff)
  show ?case
  proof (cases "k = 1")
    case True
    then show ?thesis unfolding step drop by (simp add: Let_def a1_def q1_def)
  next
    case False
    have "enqueue_many_loop room (cols n bs) a1 q1 kProgress =
      (let new = take room (drop (length bs - (k - 1)) bs);
           q' = q1\<lparr>queues := cols n ((rs @ [t]) @ new), accepted := accepted q1 @ new\<rparr>
       in if k - 1 \<le> room then (kComplete, a1\<lparr>elements_requested := 0\<rparr>, q')
       else if room = 0 then (kProgress, a1, q1)
       else (kProgress, a1\<lparr>elements_requested := int (k - 1 - room)\<rparr>, q'))"
      using Suc.prems False by (intro Suc.IH) (auto simp: q1_def a1_def)
    then show ?thesis
      unfolding step drop using False by (auto simp: Let_def a1_def q1_def)
  qed
qed (simp add: Let_def)

declare dequeue_many_loop.simps [simp del] enqueue_many_loop.simps [simp del]

section \<open>The contract of an attempt\<close>

definition queue_wf :: "'t queue \<Rightarrow> bool" where
  "queue_wf q \<longleftrightarrow> 0 < num_components q \<and>
     (\<exists>rs. queues q = cols (num_components q) rs \<and> width (num_components q) rs) \<and>
     (\<not> closed q \<longrightarrow> queue_size q \<le> capacity q)"

definition pending_ok :: "'t attempt \<Rightarrow> bool" where
  "pending_ok a \<longleftrightarrow> done_callback a = (if att_cancelled a then None else Some (att_context a, NoTuple))"

definition enq_ok :: "nat \<Rightarrow> 't attempt \<Rightarrow> bool" where
  "enq_ok n a \<longleftrightarrow> pending_ok a \<and> att_tuple a = [] \<and> 0 \<le> elements_requested a \<and>
     (case run_callback a of
        Enqueue_one tuple \<Rightarrow> length tuple = n
      | Enqueue_many batch \<Rightarrow> (\<exists>bs. batch = cols n bs \<and> width n bs \<and> 1 \<le> elements_requested a \<and> elements_requested a \<le> int (length bs))
      | Close_queue \<Rightarrow> True
      | _ \<Rightarrow> False)"

definition deq_ok :: "nat \<Rightarrow> 't attempt \<Rightarrow> bool" where
  "deq_ok n a \<longleftrightarrow> pending_ok a \<and> 0 \<le> elements_requested a \<and>
     (case run_callback a of
        Dequeue_one \<Rightarrow> att_tuple a = []
      | Dequeue_many small \<Rightarrow> 1 \<le> elements_requested a \<and>
          (\<exists>hs. holds n a hs \<and> int (length hs) + elements_requested a < 2 ^ 31)
      | _ \<Rightarrow> False)"

text \<open>
  What the loop over the attempts relies on. A run that completes calls back with the elements it
  got; one that does not leaves an open queue; one without progress finds it \<open>blocked\<close> and changes
  nothing. \<open>gets\<close> tells whether elements are taken.
\<close>

definition same_frame :: "'t queue \<Rightarrow> 't queue \<Rightarrow> bool" where
  "same_frame q q' \<longleftrightarrow> capacity q' = capacity q \<and> num_components q' = num_components q \<and>
     specified_shapes q' = specified_shapes q \<and> enqueue_attempts q' = enqueue_attempts q \<and>
     dequeue_attempts q' = dequeue_attempts q \<and> (closed q \<longrightarrow> closed q')"

definition ran :: "(nat \<Rightarrow> 't attempt \<Rightarrow> bool) \<Rightarrow> ('t queue \<Rightarrow> bool) \<Rightarrow> bool \<Rightarrow> ('t queue \<Rightarrow> bool) \<Rightarrow>
    't attempt \<Rightarrow> 't queue \<Rightarrow> run_result \<Rightarrow> 't attempt \<Rightarrow> 't queue \<Rightarrow> bool" where
  "ran ok pre gets blocked a q res a' q' \<longleftrightarrow>
     queue_wf q' \<and> pre q' \<and> same_frame q q' \<and> taken q' = taken q \<and>
     att_context a' = att_context a \<and> \<not> att_cancelled a' \<and>
     (\<exists>new. accepted q' = accepted q @ new \<and> (gets \<longrightarrow> new = []) \<and>
        held a @ rows (queues q) @ new =
          (if res = kComplete then reply_rows (snd (the (done_callback a'))) else held a') @ rows (queues q')) \<and>
     (case res of
        kNoProgress \<Rightarrow> a' = a \<and> q' = q \<and> \<not> closed q \<and> blocked q
      | kProgress \<Rightarrow> ok (num_components q) a' \<and> 0 \<le> elements_requested a' \<and> elements_requested a' < elements_requested a \<and> \<not> closed q'
      | kComplete \<Rightarrow> (\<exists>r. done_callback a' = Some (att_context a, r) \<and> (gets \<or> r = NoTuple)))"

lemma queue_size_cols: "queues q = cols n rs \<Longrightarrow> 0 < n \<Longrightarrow> queue_size q = length rs"
  by (simp add: queue_size_def)

lemma queue_wfE:
  assumes "queue_wf q"
  obtains n rs where "n = num_components q" "0 < n" "queues q = cols n rs" "width n rs" "queue_size q = length rs"
    "rows (queues q) = rs" "closed q \<or> length rs \<le> capacity q"
proof -
  obtain rs where rs: "0 < num_components q" "queues q = cols (num_components q) rs" "width (num_components q) rs"
      "\<not> closed q \<Longrightarrow> queue_size q \<le> capacity q"
    using assms by (auto simp: queue_wf_def)
  have "queue_size q = length rs" using rs by (simp add: queue_size_def)
  moreover have "rows (queues q) = rs" using rs by simp
  ultimately show ?thesis using rs that [of "num_components q" rs] by auto
qed

lemma queue_wfI:
  assumes "0 < num_components q" "queues q = cols (num_components q) rs" "width (num_components q) rs"
    "\<not> closed q \<Longrightarrow> length rs \<le> capacity q"
  shows "queue_wf q"
  using assms by (auto simp: queue_wf_def queue_size_def)

lemma SetStatus_frame [simp]:
  "queues (SetStatus c e q) = queues q" "closed (SetStatus c e q) = closed q" "capacity (SetStatus c e q) = capacity q"
  "num_components (SetStatus c e q) = num_components q" "specified_shapes (SetStatus c e q) = specified_shapes q"
  "enqueue_attempts (SetStatus c e q) = enqueue_attempts q" "dequeue_attempts (SetStatus c e q) = dequeue_attempts q"
  "accepted (SetStatus c e q) = accepted q" "taken (SetStatus c e q) = taken q"
  "queue_size (SetStatus c e q) = queue_size q"
  by (simp_all add: SetStatus_def queue_size_def)

lemma queue_wf_SetStatus [simp]: "queue_wf (SetStatus c e q) \<longleftrightarrow> queue_wf q"
  by (simp add: queue_wf_def)

lemma restore_eq:
  assumes "queues q = cols n rs" "width n (held a)"
  shows "restore a q = q\<lparr>queues := cols n (held a @ rs)\<rparr>"
proof -
  have "fold push_front (rev hs) q = q\<lparr>queues := cols n (hs @ rs)\<rparr>" if "width n hs" for hs
    using that
  proof (induction hs)
    case Nil
    then show ?case using assms(1) by simp
  next
    case (Cons h hs)
    then show ?case by (simp add: push_front_def cols_cons)
  qed
  then show ?thesis using assms(2) by (simp add: restore_def)
qed

lemma int32_of_id: "0 \<le> x \<Longrightarrow> x < 2 ^ 31 \<Longrightarrow> int32_of x = x"
  by (simp add: int32_of_def signed_of_int signed_take_bit_int_eq_self)

lemma held_Nil [simp]: "att_tuple a = [] \<Longrightarrow> held a = []"
  by (simp add: held_def)

lemma reply_rows_simps [simp]: "reply_rows NoTuple = []" "reply_rows (Single t) = [t]"
  by (simp_all add: reply_rows_def)

definition enq_blocked :: "'t queue \<Rightarrow> bool" where
  "enq_blocked q \<longleftrightarrow> capacity q \<le> queue_size q"

definition deq_blocked :: "'t queue \<Rightarrow> bool" where
  "deq_blocked q \<longleftrightarrow> queue_size q = 0"

lemma run_enqueue:
  assumes wf: "queue_wf q" and ok: "enq_ok (num_components q) a" and live: "\<not> att_cancelled a"
    and run: "run_attempt a q = (res, a', q')"
  shows "ran enq_ok (\<lambda>_. True) False enq_blocked a q res a' q'"
proof -
  obtain n rs where q: "n = num_components q" "0 < n" "queues q = cols n rs" "width n rs" "queue_size q = length rs"
      "rows (queues q) = rs" "closed q \<or> length rs \<le> capacity q"
    using wf by (rule queue_wfE)
  have a: "done_callback a = Some (att_context a, NoTuple)" "att_tuple a = []"
    using ok live by (simp_all add: enq_ok_def pending_ok_def)
  note frame = ran_def same_frame_def
  show ?thesis
  proof (cases "closed q")
    case True
    then have "res = kComplete \<and> a' = a \<and> q' = SetStatus (att_context a) CANCELLED q"
      using run ok by (auto simp: run_attempt_def enq_ok_def split: run.splits)
    then show ?thesis using wf a live q(6) by (simp add: frame)
  next
    case opened: False
    show ?thesis
    proof (cases "run_callback a")
      case (Enqueue_one t)
      then have t: "length t = n" using ok q(1) by (simp add: enq_ok_def)
      show ?thesis
      proof (cases "length rs < capacity q")
        case True
        then have "res = kComplete" "a' = a" "q' = q\<lparr>queues := cols n (rs @ [t]), accepted := accepted q @ [t]\<rparr>"
          using run opened Enqueue_one t q(3,5) by (simp_all add: run_attempt_def push_back_def cols_snoc)
        then show ?thesis using a live q t True opened by (auto simp: frame intro!: queue_wfI [where rs = "rs @ [t]"])
      next
        case False
        then show ?thesis using run opened Enqueue_one q wf live by (simp add: run_attempt_def frame enq_blocked_def)
      qed
    next
      case (Enqueue_many b)
      then obtain bs where bs: "b = cols n bs" "width n bs" "1 \<le> elements_requested a" "elements_requested a \<le> int (length bs)"
        using ok q(1) by (auto simp: enq_ok_def)
      define k where "k = nat (elements_requested a)"
      define room where "room = capacity q - length rs"
      define new where "new = take room (drop (length bs - k) bs)"
      define q1 where "q1 = q\<lparr>queues := cols n (rs @ new), accepted := accepted q @ new\<rparr>"
      have k: "elements_requested a = int k" "1 \<le> k" "k \<le> length bs" using bs by (simp_all add: k_def)
      have "width n new" using bs(2) by (auto simp: new_def width_def dest: in_set_takeD in_set_dropD)
      moreover have "length rs + length new \<le> capacity q" using q(7) opened by (simp add: new_def room_def)
      ultimately have q1: "queue_wf q1" "rows (queues q1) = rs @ new"
        using q by (auto simp: q1_def intro!: queue_wfI [where rs = "rs @ new"])
      have "(res, a', q') = (if k \<le> room then (kComplete, a\<lparr>elements_requested := 0\<rparr>, q1)
          else if room = 0 then (kNoProgress, a, q) else (kProgress, a\<lparr>elements_requested := int (k - room)\<rparr>, q1))"
        using run opened Enqueue_many enqueue_many_loop_eq [OF q(3) bs(2) q(2) k, of room kNoProgress]
        by (simp add: run_attempt_def bs(1) q(5) room_def Let_def q1_def new_def)
      moreover have "ran enq_ok (\<lambda>_. True) False enq_blocked a q kComplete (a\<lparr>elements_requested := 0\<rparr>) q1"
        using a live q(6) q1 by (simp add: frame q1_def held_def)
      moreover have "ran enq_ok (\<lambda>_. True) False enq_blocked a q kNoProgress a q" if "room = 0"
        using that live wf opened by (simp add: frame enq_blocked_def q(5) room_def)
      moreover have "ran enq_ok (\<lambda>_. True) False enq_blocked a q kProgress (a\<lparr>elements_requested := int (k - room)\<rparr>) q1"
        if "\<not> k \<le> room" "room \<noteq> 0"
        using a live q q1 that k bs Enqueue_many opened
        by (auto simp: frame q1_def held_def enq_ok_def pending_ok_def)
      ultimately show ?thesis by (auto split: if_splits)
    next
      case Close_queue
      then have "res = kComplete" "a' = a" "q' = q\<lparr>closed := True\<rparr>"
        using run opened by (simp_all add: run_attempt_def)
      then show ?thesis using a live q by (auto simp: frame intro!: queue_wfI [where rs = rs])
    qed (use ok in \<open>simp_all add: enq_ok_def\<close>)
  qed
qed

lemma dequeue_all:
  assumes "queues q = cols n xs" "width n xs" "n = num_components q" "0 < n" "xs \<noteq> []"
  shows "dequeue_many_loop (length xs) (a\<lparr>att_tuple := [], elements_requested := int (length xs)\<rparr>) q result =
    (kComplete, a\<lparr>att_tuple := batch_of n xs 0, elements_requested := 0,
      done_callback := Some (att_context a, Batch (batch_of n xs 0))\<rparr>, q\<lparr>queues := cols n []\<rparr>)"
proof -
  have "1 \<le> length xs" using assms(5) by (cases xs) simp_all
  then show ?thesis
    using dequeue_many_loop_eq [OF assms(1-4), of "a\<lparr>att_tuple := [], elements_requested := int (length xs)\<rparr>" "[]" result]
    by (simp add: holds_def Let_def)
qed

lemma run_dequeue:
  assumes wf: "queue_wf q" and drained: "closed q \<longrightarrow> enqueue_attempts q = []"
    and ok: "deq_ok (num_components q) a" and live: "\<not> att_cancelled a"
    and run: "run_attempt a q = (res, a', q')"
  shows "ran deq_ok (\<lambda>q. closed q \<longrightarrow> enqueue_attempts q = []) True deq_blocked a q res a' q'"
proof -
  obtain n rs where q: "n = num_components q" "0 < n" "queues q = cols n rs" "width n rs" "queue_size q = length rs"
      "rows (queues q) = rs" "closed q \<or> length rs \<le> capacity q"
    using wf by (rule queue_wfE)
  have a: "done_callback a = Some (att_context a, NoTuple)" using ok live by (simp add: deq_ok_def pending_ok_def)
  note frame = ran_def same_frame_def
  show ?thesis
  proof (cases "run_callback a")
    case Dequeue_one
    then have tup: "att_tuple a = []" using ok by (simp add: deq_ok_def)
    show ?thesis
    proof (cases rs)
      case Nil
      then show ?thesis
        using run Dequeue_one q wf drained live a tup
        by (cases "closed q") (auto simp: run_attempt_def frame deq_blocked_def)
    next
      case (Cons r rs')
      then have "res = kComplete" "a' = a\<lparr>done_callback := Some (att_context a, Single r)\<rparr>" "q' = q\<lparr>queues := cols n rs'\<rparr>"
        using run Dequeue_one q by (simp_all add: run_attempt_def DequeueLocked_def cols_hd cols_tl)
      then show ?thesis using q Cons drained live tup by (auto simp: frame intro!: queue_wfI [where rs = rs'])
    qed
  next
    case (Dequeue_many small)
    then obtain hs where hs: "1 \<le> elements_requested a" "holds n a hs" "int (length hs) + elements_requested a < 2 ^ 31"
      using ok q(1) by (auto simp: deq_ok_def)
    have held: "held a = hs" "width n hs" using held_eq [OF hs(2) q(2)] hs(2) by (simp_all add: holds_def)
    define k where "k = nat (elements_requested a)"
    have k: "elements_requested a = int k" "1 \<le> k" using hs(1) by (simp_all add: k_def)
    show ?thesis
    proof (cases "closed q \<and> length rs < k")
      case True
      let ?all = "hs @ rs" and ?q = "q\<lparr>queues := cols n (hs @ rs)\<rparr>"
      have restored: "(if att_tuple a \<noteq> [] then restore a q else q) = ?q"
        using restore_eq [OF q(3)] held hs(2) q(3) by (auto simp: holds_def)
      have size: "queue_size ?q = length ?all" using q(2) by (simp add: queue_size_def)
      have small32: "int32_of (int (length ?all)) = int (length ?all)"
        using True hs(3) k by (intro int32_of_id) simp_all
      show ?thesis
      proof (cases "small \<and> ?all \<noteq> []")
        case some: True
        let ?a = "a\<lparr>att_tuple := [], elements_requested := int (length ?all)\<rparr>"
        let ?b = "?a\<lparr>att_tuple := batch_of n ?all 0, elements_requested := 0,
            done_callback := Some (att_context a, Batch (batch_of n ?all 0))\<rparr>"
        have "dequeue_many_loop (length ?all) ?a ?q kNoProgress = (kComplete, ?b, ?q\<lparr>queues := cols n []\<rparr>)"
          using dequeue_all [of ?q n ?all a kNoProgress] q(1,2,4) held(2) some by simp
        then have "res = kComplete" "a' = ?b" "q' = q\<lparr>queues := cols n []\<rparr>"
          using run Dequeue_many True some k(1) size small32
          unfolding run_attempt_def run_dequeue_many_def restored Let_def by (auto simp: q(5))
        then show ?thesis
          using q held drained True live
          by (auto simp: frame reply_rows_batch intro!: queue_wfI [where rs = "[]"])
      next
        case none: False
        have "res = kComplete" "a' = a" "q' = SetStatus (att_context a) OUT_OF_RANGE ?q"
          using run Dequeue_many True none k(1) size drained
          unfolding run_attempt_def run_dequeue_many_def restored Let_def by (auto simp: q(5))
        then show ?thesis
          using q held drained True live a
          by (auto simp: frame intro!: queue_wfI [where rs = ?all])
      qed
    next
      case False
      have "dequeue_many_loop (length rs) a q kNoProgress = (res, a', q')"
        using run Dequeue_many False k(1) by (auto simp: run_attempt_def run_dequeue_many_def q(5))
      note loop = dequeue_many_loop_eq [OF q(3,4,1,2) hs(2,1), of kNoProgress, unfolded this Let_def, folded k_def]
      consider "k \<le> length rs" | "\<not> k \<le> length rs" "rs = []" | "\<not> k \<le> length rs" "rs \<noteq> []" by blast
      then show ?thesis
      proof cases
        case 1
        have "width n (take k rs)" "width n (drop k rs)"
          using q(4) by (auto simp: width_def dest: in_set_takeD in_set_dropD)
        moreover have "length (drop k rs) \<le> capacity q \<or> closed q" using q(7) by auto
        ultimately show ?thesis
          using loop 1 q held drained live
          by (auto simp: frame reply_rows_batch intro!: queue_wfI [where rs = "drop k rs"])
      next
        case 2
        then show ?thesis using loop False wf drained live k(2) q(5) by (auto simp: frame deq_blocked_def)
      next
        case 3
        let ?a = "a\<lparr>att_tuple := batch_of n (hs @ rs) (k - length rs), elements_requested := int (k - length rs)\<rparr>"
        have a': "res = kProgress" "a' = ?a" "q' = q\<lparr>queues := cols n []\<rparr>" using loop 3 by simp_all
        have "nat (int k - int (length rs)) = k - length rs" by linarith
        then have h: "holds n ?a (hs @ rs)" using 3 held q(4) by (simp add: holds_def)
        have "int (length (hs @ rs)) + elements_requested ?a < 2 ^ 31" using hs(3) 3 k(1) by simp
        then have "deq_ok n ?a" using h 3 a Dequeue_many live by (auto simp: deq_ok_def pending_ok_def)
        moreover have "held ?a = hs @ rs" using held_eq [OF h q(2)] .
        ultimately show ?thesis
          using a' q held(1) False 3 live k by (auto simp: frame intro!: queue_wfI [where rs = "[]"])
      qed
    qed
  qed (use ok in \<open>simp_all add: deq_ok_def\<close>)
qed

section \<open>The loops over the attempts\<close>

text \<open>The contexts of the attempts still to be answered, the work they stand for, and what an operation gets.\<close>

definition waiting :: "'t attempt list \<Rightarrow> nat list" where
  "waiting as = map att_context (filter (\<lambda>a. \<not> att_cancelled a) as)"

definition work :: "'t attempt list \<Rightarrow> nat" where
  "work as = (\<Sum>a\<leftarrow>as. if att_cancelled a then 0 else Suc (nat (elements_requested a)))"

definition answered :: "('t callback option \<times> int \<times> nat) \<Rightarrow> bool" where
  "answered x \<longleftrightarrow> (\<exists>cb. fst x = Some cb)"

definition given :: "nat \<Rightarrow> 't clean_up \<Rightarrow> 't list list" where
  "given i xs = concat (map (\<lambda>x. case fst x of Some (j, r) \<Rightarrow> if j = i then reply_rows r else [] | None \<Rightarrow> []) xs)"

definition taken_by :: "nat \<Rightarrow> 't queue \<Rightarrow> 't list list" where
  "taken_by i q = map snd (filter (\<lambda>x. fst x = Some i) (taken q))"

definition idle :: "('t queue \<Rightarrow> bool) \<Rightarrow> 't attempt list \<Rightarrow> 't queue \<Rightarrow> bool" where
  "idle blocked as q \<longleftrightarrow> as = [] \<or> blocked q"

lemma waiting_simps [simp]:
  "waiting [] = []" "waiting (a # as) = (if att_cancelled a then waiting as else att_context a # waiting as)"
  by (simp_all add: waiting_def)

lemma work_simps [simp]:
  "work [] = 0" "work (a # as) = (if att_cancelled a then 0 else Suc (nat (elements_requested a))) + work as"
  by (simp_all add: work_def)

lemma given_simps [simp]:
  "given i [] = []" "given i (x # xs) = (case fst x of Some (j, r) \<Rightarrow> if j = i then reply_rows r else [] | None \<Rightarrow> []) @ given i xs"
  by (simp_all add: given_def)

lemma record_taken_frame [simp]:
  "queues (record_taken w xs q) = queues q" "closed (record_taken w xs q) = closed q" "capacity (record_taken w xs q) = capacity q"
  "num_components (record_taken w xs q) = num_components q" "specified_shapes (record_taken w xs q) = specified_shapes q"
  "enqueue_attempts (record_taken w xs q) = enqueue_attempts q" "dequeue_attempts (record_taken w xs q) = dequeue_attempts q"
  "accepted (record_taken w xs q) = accepted q" "queue_size (record_taken w xs q) = queue_size q"
  "map snd (taken (record_taken w xs q)) = map snd (taken q) @ xs"
  "taken_by i (record_taken w xs q) = taken_by i q @ (if w = Some i then xs else [])"
  "ctx_status (record_taken w xs q) = ctx_status q"
  by (simp_all add: record_taken_def queue_size_def taken_by_def comp_def)

lemma queue_wf_record [simp]: "queue_wf (record_taken w xs q) \<longleftrightarrow> queue_wf q"
  by (simp add: queue_wf_def)

lemma record_reply_Some: "record_reply (Some (i, r)) q = record_taken (Some i) (reply_rows r) q"
  by (simp add: record_reply_def)

text \<open>
  Attempts of one kind, whose runs satisfy the contract. The loop over them leaves only attempts
  that wait at an open queue, passes every callback of an attempt it removes to the clean-up, and
  keeps the flow of the elements.
\<close>

definition flows :: "bool \<Rightarrow> 't attempt list \<Rightarrow> 't queue \<Rightarrow> 't attempt list \<Rightarrow> 't queue \<Rightarrow> bool" where
  "flows gets as q as' q' \<longleftrightarrow> (\<exists>new gone. accepted q' = accepted q @ new \<and> map snd (taken q') = map snd (taken q) @ gone \<and>
     (gets \<longrightarrow> new = []) \<and> (\<not> gets \<longrightarrow> concat (map held as) = [] \<longrightarrow> gone = []) \<and>
     concat (map held as) @ rows (queues q) @ new = gone @ concat (map held as') @ rows (queues q'))"

lemma flowsI:
  assumes "accepted q' = accepted q @ new" "map snd (taken q') = map snd (taken q) @ gone" "gets \<Longrightarrow> new = []"
    and "\<not> gets \<Longrightarrow> concat (map held as) = [] \<Longrightarrow> gone = []"
    and "concat (map held as) @ rows (queues q) @ new = gone @ concat (map held as') @ rows (queues q')"
  shows "flows gets as q as' q'"
  using assms unfolding flows_def by blast

definition cleans :: "'t attempt list \<Rightarrow> 't queue \<Rightarrow> 't clean_up \<Rightarrow> 't attempt list \<Rightarrow> 't queue \<Rightarrow> 't clean_up \<Rightarrow> bool" where
  "cleans as q cu as' q' cu' \<longleftrightarrow> (\<exists>xs. cu' = cu @ xs \<and> list_all answered xs \<and>
     waiting as = map (\<lambda>x. fst (the (fst x))) xs @ waiting as' \<and> (\<forall>i. taken_by i q' = taken_by i q @ given i xs))"

definition looped :: "(nat \<Rightarrow> 't attempt \<Rightarrow> bool) \<Rightarrow> ('t queue \<Rightarrow> bool) \<Rightarrow> bool \<Rightarrow> ('t queue \<Rightarrow> bool) \<Rightarrow>
    't attempt list \<Rightarrow> 't queue \<Rightarrow> bool \<Rightarrow> 't clean_up \<Rightarrow> 't attempt list \<Rightarrow> 't queue \<Rightarrow> bool \<Rightarrow> 't clean_up \<Rightarrow> bool" where
  "looped ok pre gets blocked as q p cu as' q' p' cu' \<longleftrightarrow>
     queue_wf q' \<and> pre q' \<and> same_frame q q' \<and>
     list_all (ok (num_components q)) as' \<and> list_all (\<lambda>a. held a = []) (tl as') \<and>
     (as' \<noteq> [] \<longrightarrow> \<not> closed q') \<and> (p \<longrightarrow> p') \<and> work as' \<le> work as \<and> (p' \<longrightarrow> p \<or> work as' < work as) \<and>
     (\<not> p' \<longrightarrow> idle blocked as' q' \<and> queues q' = queues q \<and> closed q' = closed q) \<and>
     flows gets as q as' q' \<and> cleans as q cu as' q' cu'"

lemma looped_drop:
  assumes looped: "looped ok pre gets blocked as (record_taken None (held a) q) p cu as' q' p' cu'" and a: "att_cancelled a"
  shows "looped ok pre gets blocked (a # as) q p cu as' q' p' cu'"
proof -
  have "flows gets as (record_taken None (held a) q) as' q'" using looped by (simp add: looped_def)
  then obtain new gone where flow: "accepted q' = accepted q @ new" "map snd (taken q') = (map snd (taken q) @ held a) @ gone"
      "gets \<longrightarrow> new = []" "\<not> gets \<longrightarrow> concat (map held as) = [] \<longrightarrow> gone = []"
      "concat (map held as) @ rows (queues q) @ new = gone @ concat (map held as') @ rows (queues q')"
    unfolding flows_def record_taken_frame by blast
  have "flows gets (a # as) q as' q'"
    using flow by (intro flowsI [where new = new and gone = "held a @ gone"]) simp_all
  moreover have "cleans (a # as) q cu as' q' cu'"
    using looped a unfolding looped_def cleans_def record_taken_frame by auto
  moreover have "same_frame (record_taken None (held a) q) q' = same_frame q q'" by (simp add: same_frame_def)
  ultimately show ?thesis
    using looped a unfolding looped_def record_taken_frame work_simps by simp
qed

lemma looped_stop:
  assumes ran: "ran ok pre gets blocked a q res a1 q1" and res: "res \<noteq> kComplete" and live: "\<not> att_cancelled a"
    and as: "list_all (ok (num_components q)) as" "list_all (\<lambda>a. held a = []) as"
    and a: "ok (num_components q) a" "0 \<le> elements_requested a"
  shows "looped ok pre gets blocked (a # as) q p cu (a1 # as) q1 (p \<or> res = kProgress) cu"
proof -
  obtain new where flow: "accepted q1 = accepted q @ new" "gets \<longrightarrow> new = []"
      "held a @ rows (queues q) @ new = held a1 @ rows (queues q1)"
    using ran res by (auto simp: ran_def)
  have frame: "taken q1 = taken q" "queue_wf q1" "pre q1" "same_frame q q1" "att_context a1 = att_context a" "\<not> att_cancelled a1"
    using ran by (simp_all add: ran_def)
  have "concat (map held as) = []" using as(2) by (simp add: list_all_iff)
  then have one: "concat (map held (b # as)) = held b" for b by simp
  then have "flows gets (a # as) q (a1 # as) q1"
    using flow frame(1) by (intro flowsI [where new = new and gone = "[]"]; unfold one; simp)
  moreover have "cleans (a # as) q cu (a1 # as) q1 cu"
    unfolding cleans_def using live frame by (intro exI [of _ "[]"]) (simp add: taken_by_def)
  moreover have "ok (num_components q) a1" "\<not> closed q1" "res = kProgress \<longrightarrow> 0 \<le> elements_requested a1 \<and> elements_requested a1 < elements_requested a"
      "res \<noteq> kProgress \<longrightarrow> a1 = a \<and> q1 = q \<and> blocked q"
    using ran res a by (cases res; simp add: ran_def)+
  ultimately show ?thesis
    using frame as live a(2) unfolding looped_def by (auto simp: idle_def)
qed

lemma looped_complete:
  assumes looped: "looped ok pre gets blocked as (record_taken (Some (att_context a)) (reply_rows r) q1) True
      (cu @ [(done_callback a1, tok, att_context a1)]) as' q' p' cu'"
    and ran: "ran ok pre gets blocked a q kComplete a1 q1" and live: "\<not> att_cancelled a"
    and cb: "done_callback a1 = Some (att_context a, r)" "gets \<or> r = NoTuple" and as: "list_all (\<lambda>a. held a = []) as"
  shows "looped ok pre gets blocked (a # as) q p cu as' q' p' cu'"
proof -
  let ?x = "(done_callback a1, tok, att_context a1)" and ?q = "record_taken (Some (att_context a)) (reply_rows r) q1"
  obtain new where run: "accepted q1 = accepted q @ new" "gets \<longrightarrow> new = []"
      "held a @ rows (queues q) @ new = reply_rows r @ rows (queues q1)"
    using ran cb(1) by (auto simp: ran_def)
  have "flows gets as ?q as' q'" using looped by (simp add: looped_def)
  then obtain new' gone where flow: "accepted q' = accepted q1 @ new'" "map snd (taken q') = (map snd (taken q1) @ reply_rows r) @ gone"
      "gets \<longrightarrow> new' = []" "\<not> gets \<longrightarrow> concat (map held as) = [] \<longrightarrow> gone = []"
      "concat (map held as) @ rows (queues q1) @ new' = gone @ concat (map held as') @ rows (queues q')"
    unfolding flows_def record_taken_frame by blast
  have none: "concat (map held as) = []" using as by (simp add: list_all_iff)
  have frame: "taken q1 = taken q" "same_frame q q1" "att_context a1 = att_context a" using ran by (simp_all add: ran_def)
  have rest: "rows (queues q1) @ new' = gone @ concat (map held as') @ rows (queues q')" using flow(5) unfolding none by simp
  have one: "concat (map held (a # as)) = held a" using none by simp
  have "held a @ rows (queues q) @ new @ new' = reply_rows r @ rows (queues q1) @ new'" using run(3) by simp
  then have "concat (map held (a # as)) @ rows (queues q) @ (new @ new') = (reply_rows r @ gone) @ concat (map held as') @ rows (queues q')"
    unfolding one rest by simp
  moreover have "\<not> gets \<longrightarrow> reply_rows r @ gone = []" using flow(4) cb(2) unfolding none by auto
  ultimately have "flows gets (a # as) q as' q'"
    using run(1,2) flow(1,2,3) frame(1) by (intro flowsI [where new = "new @ new'" and gone = "reply_rows r @ gone"]) auto
  moreover have "cleans as ?q (cu @ [?x]) as' q' cu'" using looped by (simp add: looped_def)
  then obtain xs where xs: "cu' = (cu @ [?x]) @ xs" "list_all answered xs" "waiting as = map (\<lambda>x. fst (the (fst x))) xs @ waiting as'"
      "\<And>i. taken_by i q' = (taken_by i q1 @ (if Some (att_context a) = Some i then reply_rows r else [])) @ given i xs"
    unfolding cleans_def record_taken_frame by blast
  have "cleans (a # as) q cu as' q' cu'"
    unfolding cleans_def using xs live cb(1) frame by (intro exI [of _ "?x # xs"]) (auto simp: answered_def taken_by_def)
  moreover have "same_frame q q'"
    using looped frame(2) by (auto simp: looped_def same_frame_def)
  moreover have "num_components ?q = num_components q" using frame(2) by (simp add: same_frame_def)
  ultimately show ?thesis
    using looped live unfolding looped_def work_simps by auto
qed

locale attempt_runs =
  fixes ok :: "nat \<Rightarrow> 't attempt \<Rightarrow> bool" and pre :: "'t queue \<Rightarrow> bool" and gets :: bool and blocked :: "'t queue \<Rightarrow> bool"
  assumes run_law: "queue_wf q \<Longrightarrow> pre q \<Longrightarrow> ok (num_components q) a \<Longrightarrow> \<not> att_cancelled a \<Longrightarrow>
      run_attempt a q = (res, a', q') \<Longrightarrow> ran ok pre gets blocked a q res a' q'"
    and requested_law: "ok n a \<Longrightarrow> 0 \<le> elements_requested a"
    and pre_law: "pre (record_taken w xs q) = pre q"
    and blocked_law: "blocked (record_taken w xs q) = blocked q"
begin

lemma try_law:
  assumes "queue_wf q" "pre q" "list_all (ok (num_components q)) as" "list_all (\<lambda>a. held a = []) (tl as)"
    and "try_attempts as q p cu = (as', q', p', cu')"
  shows "looped ok pre gets blocked as q p cu as' q' p' cu'"
  using assms
proof (induction as arbitrary: q p cu)
  case Nil
  then show ?case by (auto simp: looped_def same_frame_def idle_def flows_def cleans_def)
next
  case (Cons a as)
  have as: "list_all (ok (num_components q)) as" "list_all (\<lambda>a. held a = []) as" "list_all (\<lambda>a. held a = []) (tl as)"
    using Cons.prems(3,4) by (cases as; simp)+
  show ?case
  proof (cases "att_cancelled a")
    case True
    let ?q = "record_taken None (held a) q"
    have "looped ok pre gets blocked as ?q p cu as' q' p' cu'"
      using Cons.prems as True by (intro Cons.IH) (simp_all add: pre_law)
    then show ?thesis
      using True by (rule_tac looped_drop)
  next
    case live: False
    obtain res a1 q1 where run: "run_attempt a q = (res, a1, q1)" by (cases "run_attempt a q") auto
    have ran: "ran ok pre gets blocked a q res a1 q1"
      using run_law [OF Cons.prems(1,2) _ live run] Cons.prems(3) by simp
    have req: "0 \<le> elements_requested a" using Cons.prems(3) by (auto intro: requested_law)
    show ?thesis
    proof (cases "res = kComplete")
      case False
      then have res: "as' = a1 # as" "q' = q1" "p' = (p \<or> res = kProgress)" "cu' = cu"
        using Cons.prems(5) live run by (cases res; simp)+
      show ?thesis
        unfolding res using ran False live as req Cons.prems(3) by (rule_tac looped_stop) simp_all
    next
      case True
      then obtain r where cb: "done_callback a1 = Some (att_context a, r)" "gets \<or> r = NoTuple" using ran by (auto simp: ran_def)
      let ?q = "record_taken (Some (att_context a)) (reply_rows r) q1"
      have "looped ok pre gets blocked as ?q True (cu @ [(done_callback a1, cancellation_token a1, att_context a1)]) as' q' p' cu'"
        using Cons.prems(5) as ran run True live cb
        by (intro Cons.IH) (auto simp: pre_law ran_def same_frame_def record_reply_Some)
      then show ?thesis using ran live cb as(2) True by (rule_tac looped_complete) simp_all
    qed
  qed
qed

end

interpretation enq: attempt_runs enq_ok "\<lambda>_. True" False enq_blocked
  by unfold_locales (auto intro: run_enqueue simp: enq_ok_def enq_blocked_def)

interpretation deq: attempt_runs deq_ok "\<lambda>q. closed q \<longrightarrow> enqueue_attempts q = []" True deq_blocked
  by unfold_locales (auto intro: run_dequeue simp: deq_ok_def deq_blocked_def)

section \<open>Flushing\<close>

text \<open>The invariant of the queue between two scopes of its mutex.\<close>

definition flow_ok :: "'t queue \<Rightarrow> bool" where
  "flow_ok q \<longleftrightarrow> accepted q = map snd (taken q) @ concat (map held (dequeue_attempts q)) @ rows (queues q)"

definition queue_inv :: "'t queue \<Rightarrow> bool" where
  "queue_inv q \<longleftrightarrow> queue_wf q \<and> list_all (enq_ok (num_components q)) (enqueue_attempts q) \<and>
     list_all (deq_ok (num_components q)) (dequeue_attempts q) \<and>
     list_all (\<lambda>a. held a = []) (tl (dequeue_attempts q)) \<and> flow_ok q"

definition attempts_work :: "'t queue \<Rightarrow> nat" where
  "attempts_work q = work (enqueue_attempts q) + work (dequeue_attempts q)"

definition all_waiting :: "'t queue \<Rightarrow> nat list" where
  "all_waiting q = waiting (enqueue_attempts q) @ waiting (dequeue_attempts q)"

text \<open>
  Nothing left to do: an enqueue waits only at a full open queue, a dequeue only at an empty open one.
\<close>

definition settled :: "'t queue \<Rightarrow> bool" where
  "settled q \<longleftrightarrow> (enqueue_attempts q \<noteq> [] \<longrightarrow> \<not> closed q \<and> enq_blocked q) \<and>
     (dequeue_attempts q \<noteq> [] \<longrightarrow> \<not> closed q \<and> deq_blocked q)"

definition answers :: "'t queue \<Rightarrow> 't clean_up \<Rightarrow> 't queue \<Rightarrow> 't clean_up \<Rightarrow> bool" where
  "answers q cu q' cu' \<longleftrightarrow> (\<exists>xs. cu' = cu @ xs \<and> list_all answered xs \<and>
     mset (all_waiting q) = mset (map (\<lambda>x. fst (the (fst x))) xs) + mset (all_waiting q') \<and>
     (\<forall>i. taken_by i q' = taken_by i q @ given i xs))"

definition same_setup :: "'t queue \<Rightarrow> 't queue \<Rightarrow> bool" where
  "same_setup q q' \<longleftrightarrow> capacity q' = capacity q \<and> num_components q' = num_components q \<and>
     specified_shapes q' = specified_shapes q \<and> (closed q \<longrightarrow> closed q')"

lemma given_append [simp]: "given i (xs @ ys) = given i xs @ given i ys"
  by (simp add: given_def)

lemma answers_trans: "answers q cu q1 cu1 \<Longrightarrow> answers q1 cu1 q2 cu2 \<Longrightarrow> answers q cu q2 cu2"
  unfolding answers_def by (elim exE, rule_tac x = "xs @ xsa" in exI) simp

lemma try_enqueues:
  assumes inv: "queue_inv q" and locked: "TryAttemptLocked kEnqueue q cu = (changed, q', cu')"
  shows "queue_inv q' \<and> same_setup q q' \<and> (closed q' \<longrightarrow> enqueue_attempts q' = []) \<and> answers q cu q' cu' \<and>
    dequeue_attempts q' = dequeue_attempts q \<and>
    (if changed then attempts_work q' < attempts_work q
     else attempts_work q' \<le> attempts_work q \<and> queues q' = queues q \<and> closed q' = closed q \<and>
       (enqueue_attempts q' \<noteq> [] \<longrightarrow> enq_blocked q'))"
proof -
  obtain as q1 where t: "try_attempts (enqueue_attempts q) q False cu = (as, q1, changed, cu')" "q' = q1\<lparr>enqueue_attempts := as\<rparr>"
    using locked by (auto simp: TryAttemptLocked_def split: prod.splits)
  have enq: "queue_wf q" "list_all (enq_ok (num_components q)) (enqueue_attempts q)" "flow_ok q"
    using inv by (simp_all add: queue_inv_def)
  then have none: "concat (map held (enqueue_attempts q)) = []" "list_all (\<lambda>a. held a = []) (tl (enqueue_attempts q))"
    by (cases "enqueue_attempts q"; auto simp: list_all_iff enq_ok_def)+
  note loop = enq.try_law [OF enq(1) TrueI enq(2) none(2) t(1)]
  have as: "list_all (enq_ok (num_components q)) as" using loop by (simp add: looped_def)
  then have none': "concat (map held as) = []" by (auto simp: list_all_iff enq_ok_def)
  have "flows False (enqueue_attempts q) q as q1" using loop by (simp add: looped_def)
  then have flow: "\<exists>new. accepted q1 = accepted q @ new \<and> map snd (taken q1) = map snd (taken q) \<and>
      rows (queues q) @ new = rows (queues q1)"
    unfolding flows_def none none' by auto
  have "answers q cu q' cu'"
    using loop unfolding looped_def cleans_def answers_def all_waiting_def taken_by_def t(2) same_frame_def by auto
  moreover have "flow_ok q'" using flow enq(3) loop by (auto simp: flow_ok_def t(2) looped_def same_frame_def)
  ultimately show ?thesis
    using inv loop as unfolding t(2)
    by (auto simp: queue_inv_def looped_def same_frame_def same_setup_def attempts_work_def idle_def enq_blocked_def
        queue_wf_def queue_size_def)
qed

lemma try_dequeues:
  assumes inv: "queue_inv q" and drained: "closed q \<longrightarrow> enqueue_attempts q = []"
    and locked: "TryAttemptLocked kDequeue q cu = (changed, q', cu')"
  shows "queue_inv q' \<and> same_setup q q' \<and> (closed q' \<longrightarrow> enqueue_attempts q' = [] \<and> dequeue_attempts q' = []) \<and> answers q cu q' cu' \<and>
    enqueue_attempts q' = enqueue_attempts q \<and>
    (if changed then attempts_work q' < attempts_work q
     else attempts_work q' \<le> attempts_work q \<and> queues q' = queues q \<and> closed q' = closed q \<and>
       (dequeue_attempts q' \<noteq> [] \<longrightarrow> deq_blocked q'))"
proof -
  obtain as q1 where t: "try_attempts (dequeue_attempts q) q False cu = (as, q1, changed, cu')" "q' = q1\<lparr>dequeue_attempts := as\<rparr>"
    using locked by (auto simp: TryAttemptLocked_def split: prod.splits)
  have deq: "queue_wf q" "list_all (deq_ok (num_components q)) (dequeue_attempts q)"
      "list_all (\<lambda>a. held a = []) (tl (dequeue_attempts q))" "flow_ok q"
    using inv by (simp_all add: queue_inv_def)
  note loop = deq.try_law [OF deq(1) drained deq(2,3) t(1)]
  have "flows True (dequeue_attempts q) q as q1" using loop by (simp add: looped_def)
  then have flow: "\<exists>gone. accepted q1 = accepted q \<and> map snd (taken q1) = map snd (taken q) @ gone \<and>
      concat (map held (dequeue_attempts q)) @ rows (queues q) = gone @ concat (map held as) @ rows (queues q1)"
    unfolding flows_def by auto
  have "answers q cu q' cu'"
    using loop unfolding looped_def cleans_def answers_def all_waiting_def taken_by_def t(2) same_frame_def by auto
  moreover have "flow_ok q'" using flow deq(4) loop by (auto simp: flow_ok_def t(2) looped_def same_frame_def)
  ultimately show ?thesis
    using inv loop unfolding t(2)
    by (auto simp: queue_inv_def looped_def same_frame_def same_setup_def attempts_work_def idle_def deq_blocked_def
        queue_wf_def queue_size_def)
qed

text \<open>The loop of \<open>FlushUnlocked\<close> ends, since every round with progress leaves less work.\<close>

lemma flush_loop_returns:
  assumes "queue_inv q"
  shows "\<exists>q' cu'. flush_loop q cu = Some (q', cu') \<and> queue_inv q' \<and> same_setup q q' \<and> settled q' \<and> answers q cu q' cu'"
  using assms
proof (induction "attempts_work q" arbitrary: q cu rule: less_induct)
  case less
  obtain c1 q1 cu1 where e: "TryAttemptLocked kEnqueue q cu = (c1, q1, cu1)" by (cases "TryAttemptLocked kEnqueue q cu")
  obtain c2 q2 cu2 where d: "TryAttemptLocked kDequeue q1 cu1 = (c2, q2, cu2)" by (cases "TryAttemptLocked kDequeue q1 cu1")
  note enq = try_enqueues [OF less.prems e]
  then have q1: "queue_inv q1" "closed q1 \<longrightarrow> enqueue_attempts q1 = []" by blast+
  note deq = try_dequeues [OF q1 d]
  have loop: "flush_loop q cu = (if c2 \<or> c1 then flush_loop q2 cu2 else Some (q2, cu2))"
    by (subst flush_loop.simps) (simp add: e d)
  have ans: "answers q cu q2 cu2" "same_setup q q2" "queue_inv q2"
    using enq deq answers_trans by (blast, auto simp: same_setup_def)
  show ?case
  proof (cases "c2 \<or> c1")
    case True
    then have "attempts_work q2 < attempts_work q" using enq deq by (auto split: if_splits)
    then obtain q' cu' where "flush_loop q2 cu2 = Some (q', cu')" "queue_inv q'" "same_setup q2 q'" "settled q'" "answers q2 cu2 q' cu'"
      using less.hyps [of q2 cu2] ans(3) by blast
    then show ?thesis using True loop ans answers_trans by (auto simp: same_setup_def)
  next
    case False
    then have "settled q2"
      using enq deq unfolding settled_def
      by (auto simp: enq_blocked_def queue_size_def same_setup_def split: if_splits)
    with False loop ans show ?thesis by auto
  qed
qed

end
