(* ===== verification/Queue_Threads.thy ===== *)
theory Queue_Threads
  imports Fifo_Queue
begin

text \<open>
  Threads that use a queue and cancellation managers: the parts of \<open>kernels/queue_base.cc\<close>,
  \<open>fifo_queue.cc\<close> and \<open>framework/cancellation.cc\<close> outside the mutexes.

  A thread is the list of the actions it still has to do. An action is what happens in one scope
  of a mutex, or the call of a callback; it may put further actions in front of the rest. Threads
  are interleaved action by action. Operations are named by their contexts; every context has a
  cancellation manager. \<open>invoked\<close> lists the callbacks called, with the status of the context at
  that time, and \<open>started\<close> the contexts of the calls made.
\<close>

section \<open>Actions\<close>

datatype 't act =
    Try_enqueue nat "'t list"
  | Try_enqueue_many nat "'t list list"
  | Try_dequeue nat
  | Try_dequeue_many nat int bool
  | Close nat bool
  | Start_cancel nat
  | Flush
  | Deregister nat int
  | Finished "'t callback option"
  | Cancel_attempt action nat int
  | End_cancel nat

record 't world =
  fifo :: "'t queue"
  managers :: "nat \<Rightarrow> action manager"
  manager_of :: "nat \<Rightarrow> nat"
  threads :: "'t act list list"
  invoked :: "('t callback \<times> code option) list"
  started :: "nat list"

definition new_world :: "nat \<Rightarrow> nat \<Rightarrow> bool \<Rightarrow> (nat \<Rightarrow> nat) \<Rightarrow> 't world" where
  "new_world cap n shapes mgr =
     \<lparr>fifo = new_queue cap n shapes, managers = (\<lambda>_. CancellationManager), manager_of = mgr, threads = [], invoked = [], started = []\<rparr>"

definition add_attempt :: "action \<Rightarrow> 't attempt \<Rightarrow> 't queue \<Rightarrow> 't queue" where
  "add_attempt act a q = (case act of
      kEnqueue \<Rightarrow> q\<lparr>enqueue_attempts := enqueue_attempts q @ [a]\<rparr>
    | kDequeue \<Rightarrow> q\<lparr>dequeue_attempts := dequeue_attempts q @ [a]\<rparr>)"

text \<open>
  The common part of the four operations: a token, the registration of \<open>Cancel\<close>, and the new
  attempt with a flush after it, or the immediate callback.
\<close>

definition begin_attempt :: "nat \<Rightarrow> action \<Rightarrow> int \<Rightarrow> 't run \<Rightarrow> 't world \<Rightarrow> ('t world \<times> 't act list) option" where
  "begin_attempt ctx act n run w =
     (let cm = manager_of w ctx; (token, m) = get_cancellation_token (managers w cm) in
      case RegisterCallback token act m of None \<Rightarrow> None
      | Some (registered, m) \<Rightarrow>
          let w = w\<lparr>managers := (managers w)(cm := m)\<rparr> in
          if registered
          then Some (w\<lparr>fifo := add_attempt act (Attempt n (ctx, NoTuple) ctx (Some cm) token run) (fifo w)\<rparr>, [Flush])
          else Some (w\<lparr>fifo := SetStatus ctx CANCELLED (fifo w)\<rparr>, [Finished (Some (ctx, NoTuple))]))"

definition clean_actions :: "(nat \<Rightarrow> nat) \<Rightarrow> ('t callback option \<times> int \<times> nat) \<Rightarrow> 't act list" where
  "clean_actions mgr x = (case x of (cb, token, ctx) \<Rightarrow>
     (if token \<noteq> kInvalidToken then [Deregister (mgr ctx) token] else []) @ [Finished cb])"

text \<open>
  One action: the new world and the actions it puts in front; \<open>None\<close> when it cannot go on, because
  it waits, would call an empty function, or a check fails.
\<close>

fun exec :: "'t act \<Rightarrow> 't world \<Rightarrow> ('t world \<times> 't act list) option" where
  "exec (Try_enqueue ctx tuple) w = begin_attempt ctx kEnqueue 1 (Enqueue_one tuple) w"
| "exec (Try_enqueue_many ctx batch) w =
     (if dim0 batch = 0 then Some (w, [Finished (Some (ctx, NoTuple))])
      else begin_attempt ctx kEnqueue (dim0 batch) (Enqueue_many batch) w)"
| "exec (Try_dequeue ctx) w = begin_attempt ctx kDequeue 1 Dequeue_one w"
| "exec (Try_dequeue_many ctx n allow_small_batch) w =
     (if \<not> specified_shapes (fifo w)
      then Some (w\<lparr>fifo := SetStatus ctx INVALID_ARGUMENT (fifo w)\<rparr>, [Finished (Some (ctx, NoTuple))])
      else if n = 0 then Some (w, [Finished (Some (ctx, Batch (replicate (num_components (fifo w)) [])))])
      else begin_attempt ctx kDequeue n (Dequeue_many allow_small_batch) w)"
| "exec (Close ctx cancel_pending_enqueues) w =
     (if cancel_pending_enqueues
      then let (q, cbs) = CloseAndCancel (fifo w)
        in Some (w\<lparr>fifo := q\<rparr>, map Finished cbs @ [Flush, Finished (Some (ctx, NoTuple))])
      else Some (w\<lparr>fifo := add_attempt kEnqueue (Attempt 0 (ctx, NoTuple) ctx None kInvalidToken Close_queue) (fifo w)\<rparr>, [Flush]))"
| "exec (Start_cancel cm) w =
     (case begin_StartCancel (managers w cm) of None \<Rightarrow> Some (w, [])
      | Some (cbs, m) \<Rightarrow> Some (w\<lparr>managers := (managers w)(cm := m)\<rparr>,
          map (\<lambda>x. Cancel_attempt (snd x) cm (fst x)) cbs @ [End_cancel cm]))"
| "exec Flush w =
     map_option (\<lambda>(q, clean_up). (w\<lparr>fifo := q\<rparr>, concat (map (clean_actions (manager_of w)) clean_up))) (flush_loop (fifo w) [])"
| "exec (Deregister cm token) w =
     map_option (\<lambda>(_, m). (w\<lparr>managers := (managers w)(cm := m)\<rparr>, [])) (DeregisterCallback token (managers w cm))"
| "exec (Finished cb) w =
     map_option (\<lambda>c. (w\<lparr>invoked := invoked w @ [(c, ctx_status (fifo w) (fst c))]\<rparr>, [])) cb"
| "exec (Cancel_attempt act cm token) w =
     (let (q, cb) = Cancel act cm token (fifo w)
      in Some (w\<lparr>fifo := q\<rparr>, if cb \<noteq> None then [Finished cb, Flush] else []))"
| "exec (End_cancel cm) w = Some (w\<lparr>managers := (managers w)(cm := end_StartCancel (managers w cm))\<rparr>, [])"

text \<open>The calls clients make, with the validity that \<open>ValidateTuple\<close> and the kernels ensure, and their contexts.\<close>

fun call_ok :: "'t queue \<Rightarrow> 't act \<Rightarrow> bool" where
  "call_ok q (Try_enqueue ctx tuple) \<longleftrightarrow> length tuple = num_components q"
| "call_ok q (Try_enqueue_many ctx batch) \<longleftrightarrow> length batch = num_components q \<and>
     list_all (\<lambda>c. length c = length (hd batch)) batch \<and> dim0 batch < 2 ^ 31"
| "call_ok q (Try_dequeue ctx) \<longleftrightarrow> True"
| "call_ok q (Try_dequeue_many ctx n allow_small_batch) \<longleftrightarrow> 0 \<le> n \<and> n < 2 ^ 31"
| "call_ok q (Close ctx cancel_pending_enqueues) \<longleftrightarrow> True"
| "call_ok q (Start_cancel cm) \<longleftrightarrow> True"
| "call_ok q _ \<longleftrightarrow> False"

fun callers :: "'t act \<Rightarrow> nat list" where
  "callers (Try_enqueue ctx tuple) = [ctx]"
| "callers (Try_enqueue_many ctx batch) = [ctx]"
| "callers (Try_dequeue ctx) = [ctx]"
| "callers (Try_dequeue_many ctx n allow_small_batch) = [ctx]"
| "callers (Close ctx cancel_pending_enqueues) = [ctx]"
| "callers _ = []"

text \<open>
  The worlds that can be reached: new calls with fresh contexts, actions of any thread, and any order of
  the callbacks in a manager, as iteration over an unordered map has none.
\<close>

inductive step :: "'t world \<Rightarrow> 't world \<Rightarrow> bool" where
  call: "call_ok (fifo w) a \<Longrightarrow> set (callers a) \<inter> set (started w) = {} \<Longrightarrow>
    step w (w\<lparr>threads := threads w @ [[a]], started := callers a @ started w\<rparr>)"
| run: "threads w = ts @ (a # k) # us \<Longrightarrow> exec a w = Some (w', k') \<Longrightarrow>
    step w (w'\<lparr>threads := ts @ (k' @ k) # us\<rparr>)"
| order: "mset cbs = mset (callbacks (managers w cm)) \<Longrightarrow>
    step w (w\<lparr>managers := (managers w)(cm := (managers w cm)\<lparr>callbacks := cbs\<rparr>)\<rparr>)"

inductive reachable_world :: "nat \<Rightarrow> nat \<Rightarrow> bool \<Rightarrow> (nat \<Rightarrow> nat) \<Rightarrow> 't world \<Rightarrow> bool" for cap n shapes mgr where
  start: "0 < n \<Longrightarrow> reachable_world cap n shapes mgr (new_world cap n shapes mgr)"
| next_step: "reachable_world cap n shapes mgr w \<Longrightarrow> step w w' \<Longrightarrow> reachable_world cap n shapes mgr w'"

inductive_cases step_cases: "step w w'"

section \<open>What is owed to the callers\<close>

text \<open>
  Every call is owed one callback. A claim is a context and the elements its callback has or will
  have if nothing more is taken for it.
\<close>

fun act_claims :: "'t act \<Rightarrow> (nat \<times> 't list list) list" where
  "act_claims (Finished (Some (i, r))) = [(i, reply_rows r)]"
| "act_claims a = map (\<lambda>i. (i, [])) (callers a)"

definition thread_claims :: "'t act list list \<Rightarrow> (nat \<times> 't list list) list" where
  "thread_claims ts = concat (map (\<lambda>k. concat (map act_claims k)) ts)"

definition claims :: "'t world \<Rightarrow> (nat \<times> 't list list) multiset" where
  "claims w = mset (map (\<lambda>i. (i, [])) (all_waiting (fifo w))) + mset (thread_claims (threads w)) +
     mset (map (\<lambda>x. (fst (fst x), reply_rows (snd (fst x)))) (invoked w))"

definition act_ok :: "'t queue \<Rightarrow> 't act \<Rightarrow> bool" where
  "act_ok q a \<longleftrightarrow> a \<noteq> Finished None \<and> (callers a \<noteq> [] \<longrightarrow> call_ok q a)"

definition world_inv :: "'t world \<Rightarrow> bool" where
  "world_inv w \<longleftrightarrow> queue_inv (fifo w) \<and> (\<forall>k \<in> set (threads w). list_all (act_ok (fifo w)) k) \<and>
     distinct (started w) \<and> image_mset fst (claims w) = mset (started w) \<and>
     (\<forall>x \<in># claims w. snd x = taken_by (fst x) (fifo w)) \<and>
     (\<forall>i. i \<notin> set (started w) \<longrightarrow> taken_by i (fifo w) = []) \<and>
     (settled (fifo w) \<or> (\<exists>k \<in> set (threads w). Flush \<in> set k))"

text \<open>The claims outside the threads, and what an action must do for them.\<close>

definition own :: "'t world \<Rightarrow> (nat \<times> 't list list) multiset" where
  "own w = mset (map (\<lambda>i. (i, [])) (all_waiting (fifo w))) + mset (map (\<lambda>x. (fst (fst x), reply_rows (snd (fst x)))) (invoked w))"

definition list_claims :: "'t act list \<Rightarrow> (nat \<times> 't list list) multiset" where
  "list_claims k = mset (concat (map act_claims k))"

definition unique :: "(nat \<times> 'a) multiset \<Rightarrow> bool" where
  "unique M \<longleftrightarrow> (\<forall>i. count (image_mset fst M) i \<le> 1)"

definition right :: "(nat \<times> 't list list) multiset \<Rightarrow> 't queue \<Rightarrow> bool" where
  "right M q \<longleftrightarrow> (\<forall>x \<in># M. snd x = taken_by (fst x) q)"

definition pays :: "'t act \<Rightarrow> 't world \<Rightarrow> 't world \<Rightarrow> 't act list \<Rightarrow> bool" where
  "pays a w w' k \<longleftrightarrow> image_mset fst (own w' + list_claims k) = image_mset fst (own w + list_claims [a]) \<and>
     (unique (own w + list_claims [a]) \<and> right (own w + list_claims [a]) (fifo w) \<longrightarrow>
        right (own w' + list_claims k) (fifo w') \<and>
        (\<forall>i. i \<notin># image_mset fst (own w + list_claims [a]) \<longrightarrow> taken_by i (fifo w') = taken_by i (fifo w)))"

definition done_well :: "'t act \<Rightarrow> 't world \<Rightarrow> 't world \<Rightarrow> 't act list \<Rightarrow> bool" where
  "done_well a w w' k \<longleftrightarrow> threads w' = threads w \<and> started w' = started w \<and>
     queue_inv (fifo w') \<and> same_setup (fifo w) (fifo w') \<and> list_all (act_ok (fifo w)) k \<and> pays a w w' k \<and>
     (Flush \<in> set k \<or> settled (fifo w') \<or> \<not> settled (fifo w) \<and> a \<noteq> Flush)"

lemma claims_eq: "claims w = own w + mset (thread_claims (threads w))"
  by (simp add: claims_def own_def)

lemma list_claims_simps [simp]:
  "list_claims [] = {#}" "list_claims (a # k) = mset (act_claims a) + list_claims k" "list_claims (k @ k') = list_claims k + list_claims k'"
  by (simp_all add: list_claims_def)

lemma thread_claims_at: "mset (thread_claims (ts @ k # us)) = mset (thread_claims ts) + list_claims k + mset (thread_claims us)"
  by (simp add: thread_claims_def list_claims_def)

lemma pays_same:
  assumes "own w' + list_claims k = own w + list_claims [a]" "taken (fifo w') = taken (fifo w)"
  shows "pays a w w' k"
  using assms by (simp add: pays_def right_def taken_by_def)

lemma call_ok_setup: "same_setup q q' \<Longrightarrow> call_ok q' a = call_ok q a"
  by (cases a) (auto simp: same_setup_def)

lemma act_ok_setup: "same_setup q q' \<Longrightarrow> act_ok q' a = act_ok q a"
  by (simp add: act_ok_def call_ok_setup)

section \<open>Every action keeps the invariant\<close>

lemma same_setup_refl [simp]: "same_setup q q"
  by (simp add: same_setup_def)

lemma queue_inv_status [simp]: "queue_inv (q\<lparr>ctx_status := f\<rparr>) = queue_inv q"
  by (simp add: queue_inv_def flow_ok_def queue_wf_def queue_size_def)

lemma settled_status [simp]: "settled (q\<lparr>ctx_status := f\<rparr>) = settled q"
  by (simp add: settled_def enq_blocked_def deq_blocked_def queue_size_def)

lemma SetStatus_eq: "SetStatus c e q = q\<lparr>ctx_status := (if ctx_status q c = None then (ctx_status q)(c := Some e) else ctx_status q)\<rparr>"
  by (simp add: SetStatus_def)

lemma queue_inv_SetStatus [simp]: "queue_inv (SetStatus c e q) = queue_inv q"
  and settled_SetStatus [simp]: "settled (SetStatus c e q) = settled q"
  and same_setup_SetStatus [simp]: "same_setup q (SetStatus c e q')  = same_setup q q'"
  by (simp_all add: SetStatus_eq) (simp add: same_setup_def)

lemma all_waiting_SetStatus [simp]: "all_waiting (SetStatus c e q) = all_waiting q"
  by (simp add: all_waiting_def)

lemma waiting_append [simp]: "waiting (as @ bs) = waiting as @ waiting bs"
  by (simp add: waiting_def)

lemma all_waiting_add: "\<not> att_cancelled a \<Longrightarrow> mset (all_waiting (add_attempt act a q)) = add_mset (att_context a) (mset (all_waiting q))"
  by (cases act) (simp_all add: add_attempt_def all_waiting_def)

lemma add_frame [simp]:
  "taken (add_attempt act a q) = taken q" "same_setup q (add_attempt act a q)" "queue_wf (add_attempt act a q) = queue_wf q"
  by (cases act; simp add: add_attempt_def same_setup_def queue_wf_def queue_size_def)+

lemma queue_inv_add:
  assumes "queue_inv q" "case act of kEnqueue \<Rightarrow> enq_ok (num_components q) a | kDequeue \<Rightarrow> deq_ok (num_components q) a"
    "att_tuple a = []"
  shows "queue_inv (add_attempt act a q)"
proof (cases act)
  case kEnqueue
  then show ?thesis using assms by (auto simp: queue_inv_def add_attempt_def flow_ok_def queue_wf_def queue_size_def)
next
  case kDequeue
  have "list_all (\<lambda>a. held a = []) (tl (dequeue_attempts q @ [a]))"
    using assms(1,3) by (cases "dequeue_attempts q") (simp_all add: queue_inv_def)
  then show ?thesis
    using assms kDequeue by (auto simp: queue_inv_def add_attempt_def flow_ok_def queue_wf_def queue_size_def)
qed

lemma begin_attempt_done:
  assumes inv: "queue_inv (fifo w)" and begun: "begin_attempt ctx act n run w = Some (w', k)"
    and a: "act_claims a = [(ctx, [])]" "a \<noteq> Flush"
    and ok: "\<And>cm token. case act of kEnqueue \<Rightarrow> enq_ok (num_components (fifo w)) (Attempt n (ctx, NoTuple) ctx cm token run)
        | kDequeue \<Rightarrow> deq_ok (num_components (fifo w)) (Attempt n (ctx, NoTuple) ctx cm token run)"
  shows "done_well a w w' k"
proof -
  let ?m = "get_cancellation_token (managers w (manager_of w ctx))"
  obtain registered m where reg: "RegisterCallback (fst ?m) act (snd ?m) = Some (registered, m)"
    using register_token [of "managers w (manager_of w ctx)" act] by auto
  let ?w = "w\<lparr>managers := (managers w)(manager_of w ctx := m)\<rparr>"
  let ?a = "Attempt n (ctx, NoTuple) ctx (Some (manager_of w ctx)) (fst ?m) run"
  have att: "\<not> att_cancelled ?a" "att_context ?a = ctx" "att_tuple ?a = []" by (simp_all add: Attempt_def)
  have res: "(w', k) = (if registered then (?w\<lparr>fifo := add_attempt act ?a (fifo w)\<rparr>, [Flush])
      else (?w\<lparr>fifo := SetStatus ctx CANCELLED (fifo w)\<rparr>, [Finished (Some (ctx, NoTuple))]))"
    using begun reg by (auto simp: begin_attempt_def Let_def split: prod.splits if_splits)
  show ?thesis
  proof (cases registered)
    case True
    then have w': "w' = ?w\<lparr>fifo := add_attempt act ?a (fifo w)\<rparr>" "k = [Flush]" using res by simp_all
    have "queue_inv (fifo w')" using queue_inv_add [OF inv ok att(3)] by (simp add: w')
    moreover have "pays a w w' k"
      using all_waiting_add [OF att(1), of act "fifo w"] att(2) a(1) by (intro pays_same) (simp_all add: w' own_def)
    ultimately show ?thesis by (simp add: done_well_def w' act_ok_def)
  next
    case False
    then have w': "w' = ?w\<lparr>fifo := SetStatus ctx CANCELLED (fifo w)\<rparr>" "k = [Finished (Some (ctx, NoTuple))]" using res by simp_all
    have "pays a w w' k" using a(1) by (intro pays_same) (simp_all add: w' own_def)
    then show ?thesis using inv a(2) by (simp add: done_well_def w' act_ok_def)
  qed
qed

lemma cancel_first_cases:
  "cancel_first cm token as = (as', found) \<Longrightarrow>
    (case found of None \<Rightarrow> as' = as
     | Some a \<Rightarrow> \<exists>l r. as = l @ a # r \<and> \<not> att_cancelled a \<and> as' = l @ a\<lparr>att_cancelled := True, done_callback := None\<rparr> # r)"
proof (induction as arbitrary: as' found)
  case (Cons a as)
  obtain bs f where rest: "cancel_first cm token as = (bs, f)" by (cases "cancel_first cm token as")
  show ?case
  proof (cases "cancellation_manager a = Some cm \<and> cancellation_token a = token")
    case True
    show ?thesis
    proof (cases "att_cancelled a")
      case False
      then have "as' = a\<lparr>att_cancelled := True, done_callback := None\<rparr> # as" "found = Some a" using Cons.prems True by auto
      then show ?thesis using False by (simp, rule_tac exI [of _ "[]"]) simp
    qed (use Cons.prems True in auto)
  next
    case False
    then have "as' = a # bs" "found = f" using Cons.prems rest by auto
    then show ?thesis using Cons.IH [OF rest] by (auto split: option.splits) (metis append_Cons)
  qed
qed simp

lemma held_cancel [simp]: "held (a\<lparr>att_cancelled := c, done_callback := d\<rparr>) = held a"
  by (simp add: held_def)

lemma holds_cancel [simp]: "holds n (a\<lparr>att_cancelled := c, done_callback := d\<rparr>) hs = holds n a hs"
  by (simp add: holds_def)

lemma no_held_iff: "list_all (\<lambda>a. held a = []) as \<longleftrightarrow> (\<forall>h \<in> set (map held as). h = [])"
  by (auto simp: list_all_iff)

lemma ok_cancel:
  "enq_ok n a \<Longrightarrow> enq_ok n (a\<lparr>att_cancelled := True, done_callback := None\<rparr>)"
  "deq_ok n a \<Longrightarrow> deq_ok n (a\<lparr>att_cancelled := True, done_callback := None\<rparr>)"
  by (cases "run_callback a"; simp add: enq_ok_def deq_ok_def pending_ok_def)+

lemma Cancel_cases:
  assumes inv: "queue_inv q" and cancel: "Cancel act cm token q = (q', cb)"
  shows "queue_inv q' \<and> same_setup q q' \<and> taken q' = taken q \<and>
    (case cb of None \<Rightarrow> q' = q
     | Some c \<Rightarrow> \<exists>i. c = (i, NoTuple) \<and> mset (all_waiting q) = add_mset i (mset (all_waiting q')))"
proof -
  let ?as = "case act of kEnqueue \<Rightarrow> enqueue_attempts q | kDequeue \<Rightarrow> dequeue_attempts q"
  obtain as found where c: "cancel_first cm token ?as = (as, found)" by (cases "cancel_first cm token ?as")
  show ?thesis
  proof (cases found)
    case None
    then have "as = ?as" using cancel_first_cases [OF c] by simp
    then show ?thesis
      using cancel inv None c by (cases act) (auto simp: Cancel_def Let_def)
  next
    case (Some a)
    then obtain l r where lr: "?as = l @ a # r" "\<not> att_cancelled a" "as = l @ a\<lparr>att_cancelled := True, done_callback := None\<rparr> # r"
      using cancel_first_cases [OF c] by auto
    let ?q = "case act of kEnqueue \<Rightarrow> q\<lparr>enqueue_attempts := as\<rparr> | kDequeue \<Rightarrow> q\<lparr>dequeue_attempts := as\<rparr>"
    have q': "q' = SetStatus (att_context a) CANCELLED ?q" "cb = done_callback a"
      using cancel Some c by (simp_all add: Cancel_def Let_def)
    have "done_callback a = Some (att_context a, NoTuple)"
      using inv lr(1,2) by (cases act) (auto simp: queue_inv_def enq_ok_def deq_ok_def pending_ok_def)
    moreover have "mset (all_waiting q) = add_mset (att_context a) (mset (all_waiting ?q))"
      using lr by (cases act) (simp_all add: all_waiting_def)
    moreover have "map held (tl (l @ a\<lparr>att_cancelled := True, done_callback := None\<rparr> # r)) = map held (tl (l @ a # r))"
      by (cases l) simp_all
    then have "list_all (\<lambda>a. held a = []) (tl (l @ a\<lparr>att_cancelled := True, done_callback := None\<rparr> # r)) =
        list_all (\<lambda>a. held a = []) (tl (l @ a # r))"
      unfolding no_held_iff by metis
    then have "queue_inv ?q"
      using inv lr by (cases act) (auto simp: queue_inv_def flow_ok_def queue_wf_def queue_size_def ok_cancel)
    moreover have "same_setup q ?q" "taken ?q = taken q" by (cases act; simp add: same_setup_def)+
    ultimately show ?thesis by (simp add: q')
  qed
qed

lemma SetStatus_update: "(SetStatus c e q)\<lparr>ctx_status := f\<rparr> = q\<lparr>ctx_status := f\<rparr>"
  by (simp add: SetStatus_eq)

lemma fold_SetStatus: "\<exists>f. fold (\<lambda>a. SetStatus (att_context a) e) as q = q\<lparr>ctx_status := f\<rparr>"
proof (induction as arbitrary: q)
  case Nil
  show ?case by (rule exI [of _ "ctx_status q"]) simp
next
  case (Cons a as)
  obtain f where "fold (\<lambda>a. SetStatus (att_context a) e) as (SetStatus (att_context a) e q) = (SetStatus (att_context a) e q)\<lparr>ctx_status := f\<rparr>"
    using Cons.IH by blast
  then show ?case by (intro exI [of _ f]) (simp add: SetStatus_update)
qed

lemma CloseAndCancel_cases:
  assumes inv: "queue_inv q" and close: "CloseAndCancel q = (q', cbs)"
  shows "queue_inv q' \<and> same_setup q q' \<and> taken q' = taken q \<and> all_waiting q' = waiting (dequeue_attempts q) \<and>
    cbs = map (\<lambda>i. Some (i, NoTuple)) (waiting (enqueue_attempts q))"
proof -
  let ?q = "q\<lparr>closed := True, enqueue_attempts := map cancel_attempt (enqueue_attempts q)\<rparr>"
  obtain f where f: "q' = ?q\<lparr>ctx_status := f\<rparr>" "cbs = map done_callback (filter (\<lambda>a. \<not> att_cancelled a) (enqueue_attempts q))"
    using close fold_SetStatus [of CANCELLED "filter (\<lambda>a. \<not> att_cancelled a) (enqueue_attempts q)" ?q]
    by (auto simp: CloseAndCancel_def Let_def)
  have ok: "list_all (enq_ok (num_components q)) (enqueue_attempts q)" using inv by (simp add: queue_inv_def)
  have "waiting (map cancel_attempt as) = []" for as :: "'a attempt list"
    by (induction as) (simp_all add: cancel_attempt_def)
  then have wait: "all_waiting q' = waiting (dequeue_attempts q)" by (simp add: f all_waiting_def)
  have "enq_ok n (cancel_attempt a)" if "enq_ok n a" for n and a :: "'a attempt"
    using that ok_cancel(1) [OF that] by (simp add: cancel_attempt_def)
  then have "list_all (enq_ok (num_components q)) (map cancel_attempt (enqueue_attempts q))"
    using ok by (auto simp: list_all_iff)
  then have "queue_inv ?q" using inv by (auto simp: queue_inv_def flow_ok_def queue_wf_def queue_size_def)
  moreover have "map done_callback (filter (\<lambda>a. \<not> att_cancelled a) as) = map (\<lambda>i. Some (i, NoTuple)) (waiting as)"
    if "list_all (enq_ok n) as" for as :: "'a attempt list" and n
    using that by (induction as) (simp_all add: enq_ok_def pending_ok_def)
  ultimately show ?thesis using wait ok by (auto simp: f same_setup_def)
qed

lemma claims_clean [simp]: "list_claims (clean_actions mgr (Some (i, r), tok, ctx)) = {#(i, reply_rows r)#}"
  by (simp add: clean_actions_def)

lemma answered_ids:
  "list_all answered xs \<Longrightarrow> image_mset fst (list_claims (concat (map (clean_actions mgr) xs))) = mset (map (\<lambda>x. fst (the (fst x))) xs)"
  by (induction xs) (auto simp: answered_def)

lemma given_other: "i \<notin> set (map (\<lambda>x. fst (the (fst x))) xs) \<Longrightarrow> list_all answered xs \<Longrightarrow> given i xs = []"
  by (induction xs) (auto simp: answered_def)

lemma given_claim:
  assumes "list_all answered xs" "distinct (map (\<lambda>x. fst (the (fst x))) xs)"
    and "y \<in># list_claims (concat (map (clean_actions mgr) xs))"
  shows "fst y \<in> set (map (\<lambda>x. fst (the (fst x))) xs) \<and> snd y = given (fst y) xs"
  using assms
proof (induction xs)
  case (Cons x xs)
  obtain i r tok ctx where x: "x = (Some (i, r), tok, ctx)" using Cons.prems(1) by (cases x) (auto simp: answered_def)
  have claims: "y = (i, reply_rows r) \<or> y \<in># list_claims (concat (map (clean_actions mgr) xs))"
    using Cons.prems(3) by (auto simp: x)
  show ?case
  proof (cases "y = (i, reply_rows r)")
    case True
    then show ?thesis using Cons.prems(1,2) given_other [of i xs] by (simp add: x)
  next
    case False
    then show ?thesis using Cons claims by (auto simp: x)
  qed
qed simp

lemma distinct_if_count:
  assumes "\<And>i. count (mset xs) i \<le> 1"
  shows "distinct xs"
  using assms
proof (induction xs)
  case (Cons x xs)
  have "count (mset xs) i \<le> 1" for i
  proof -
    have "count (mset xs) i \<le> count (mset (x # xs)) i" by simp
    then show ?thesis using Cons.prems [of i] by (rule le_trans)
  qed
  moreover have "count (mset xs) x = 0" using Cons.prems [of x] by simp
  ultimately show ?case using Cons.IH by (simp add: count_eq_zero_iff)
qed simp

lemma apart_parts:
  assumes "count A i + count B i + count C i \<le> (1 :: nat)"
  shows "i \<in># A \<Longrightarrow> i \<notin># B" "i \<in># A \<Longrightarrow> i \<notin># C"
  using assms by (simp_all add: not_in_iff flip: count_greater_zero_iff)

lemma Flush_done:
  assumes inv: "queue_inv (fifo w)" and flush: "exec Flush w = Some (w', k)"
  shows "done_well Flush w w' k"
proof -
  obtain q cu where loop: "flush_loop (fifo w) [] = Some (q, cu)" "queue_inv q" "same_setup (fifo w) q" "settled q"
      "answers (fifo w) [] q cu"
    using flush_loop_returns [OF inv, of "[]"] by blast
  have w': "w' = w\<lparr>fifo := q\<rparr>" "k = concat (map (clean_actions (manager_of w)) cu)" using flush loop(1) by simp_all
  let ?ids = "map (\<lambda>x. fst (the (fst x))) cu"
  have ans: "list_all answered cu" "mset (all_waiting (fifo w)) = mset ?ids + mset (all_waiting q)"
      "\<And>i. taken_by i q = taken_by i (fifo w) @ given i cu"
    using loop(5) by (auto simp: answers_def)
  have fst_wait: "image_mset fst (mset (map (\<lambda>i. (i, [] :: 'a list list)) xs)) = mset xs" for xs by (induction xs) simp_all
  have ids: "image_mset fst (own w' + list_claims k) = image_mset fst (own w + list_claims [Flush])"
    using answered_ids [OF ans(1), of "manager_of w"] ans(2) unfolding w' own_def image_mset_union fst_wait by simp
  let ?V = "mset (map (\<lambda>x. (fst (fst x), reply_rows (snd (fst x)))) (invoked w))"
  have "right (own w' + list_claims k) q \<and> (\<forall>i. i \<notin># image_mset fst (own w) \<longrightarrow> taken_by i q = taken_by i (fifo w))"
    if u: "unique (own w)" and old: "right (own w) (fifo w)"
  proof -
    have total: "image_mset fst (own w) = mset ?ids + mset (all_waiting q) + image_mset fst ?V"
      unfolding own_def image_mset_union fst_wait ans(2) by simp
    have count: "count (mset ?ids) i + count (mset (all_waiting q)) i + count (image_mset fst ?V) i \<le> 1" for i
      using u unfolding unique_def total by simp
    have "count (mset ?ids) i \<le> 1" for i using count [of i] by simp
    then have dist: "distinct ?ids" by (rule distinct_if_count)
    have apart: "fst y \<notin> set ?ids" if "y \<in># ?V" for y
    proof
      assume "fst y \<in> set ?ids"
      moreover have "fst y \<in># image_mset fst ?V" unfolding set_image_mset using that by (rule imageI)
      ultimately show False using apart_parts(2) [OF count, of "fst y"] by (simp only: set_mset_mset)
    qed
    have waits: "taken_by i (fifo w) = []" if "i \<in> set (all_waiting (fifo w))" for i
      using old that by (force simp: right_def own_def)
    have all: "set (all_waiting (fifo w)) = set ?ids \<union> set (all_waiting q)"
      using arg_cong [OF ans(2), of set_mset] by simp
    have other: "i \<notin> set ?ids \<Longrightarrow> taken_by i q = taken_by i (fifo w)" for i using given_other [OF _ ans(1)] ans(3) by simp
    have "snd y = taken_by (fst y) q" if y: "y \<in># own w' + list_claims k" for y
    proof -
      consider "y \<in> set (map (\<lambda>i. (i, [])) (all_waiting q))" | "y \<in># ?V" | "y \<in># list_claims k"
        using y by (auto simp: own_def w')
      then show ?thesis
      proof cases
        case 1
        then have "snd y = []" "fst y \<in> set (all_waiting q)" by auto
        moreover have "fst y \<notin> set ?ids"
          using apart_parts(1) [OF count, of "fst y"] \<open>fst y \<in> set (all_waiting q)\<close> by (simp only: set_mset_mset) blast
        ultimately show ?thesis using waits [of "fst y"] all other by simp
      next
        case 2
        then show ?thesis using old other [OF apart [OF 2]] by (auto simp: right_def own_def)
      next
        case 3
        then show ?thesis
          using given_claim [OF ans(1) dist, of y "manager_of w"] waits [of "fst y"] all ans(3) by (simp add: w')
      qed
    qed
    moreover have "i \<notin> set ?ids" if "i \<notin># image_mset fst (own w)" for i
      using that unfolding total by simp
    ultimately show ?thesis using other by (simp add: right_def)
  qed
  moreover have "list_all (act_ok (fifo w)) k"
    using ans(1) unfolding w' by (induction cu) (auto simp: answered_def clean_actions_def act_ok_def)
  ultimately show ?thesis
    using loop ids by (auto simp: done_well_def w' pays_def)
qed

lemma Attempt_fields [simp]:
  "elements_requested (Attempt n cb ctx cm tok run) = int32_of n" "done_callback (Attempt n cb ctx cm tok run) = Some cb"
  "att_context (Attempt n cb ctx cm tok run) = ctx" "run_callback (Attempt n cb ctx cm tok run) = run"
  "att_cancelled (Attempt n cb ctx cm tok run) = False" "att_tuple (Attempt n cb ctx cm tok run) = []"
  by (simp_all add: Attempt_def)

lemma batch_cols:
  assumes "length b = n" "list_all (\<lambda>c. length c = length (hd b)) b" "0 < n"
  shows "b = cols n (rows b) \<and> width n (rows b) \<and> length (rows b) = length (hd b)"
proof -
  have "hd b \<in> set b" using assms(1,3) by (cases b) auto
  then have "b ! j = map (\<lambda>i. b ! j ! i) [0..<length (hd b)]" if "j < n" for j
    using assms that by (intro nth_equalityI) (auto simp: list_all_length)
  then have "b = cols n (rows b)"
    using assms(1) by (intro nth_equalityI) (auto simp: rows_def element_at_def GetElementComponentFromBatch_def comp_def)
  then show ?thesis using assms(1) by (auto simp: rows_def width_def element_at_def)
qed

lemma exec_done:
  assumes inv: "queue_inv (fifo w)" and ok: "act_ok (fifo w) a" and exec: "exec a w = Some (w', k)"
  shows "done_well a w w' k"
proof (cases a)
  case (Try_enqueue ctx t)
  have "int32_of 1 = 1" by (rule int32_of_id) simp_all
  then show ?thesis
    using begin_attempt_done [OF inv, of ctx kEnqueue 1 "Enqueue_one t" w' k a] exec ok
    by (simp add: Try_enqueue act_ok_def enq_ok_def pending_ok_def)
next
  case (Try_enqueue_many ctx b)
  have nc: "0 < num_components (fifo w)" using inv by (simp add: queue_inv_def queue_wf_def)
  have b: "length b = num_components (fifo w)" "list_all (\<lambda>c. length c = length (hd b)) b" "dim0 b < 2 ^ 31"
    using ok by (simp_all add: Try_enqueue_many act_ok_def)
  show ?thesis
  proof (cases "dim0 b = 0")
    case True
    then have "w' = w" "k = [Finished (Some (ctx, NoTuple))]" using exec by (simp_all add: Try_enqueue_many)
    then show ?thesis using inv by (auto simp: done_well_def Try_enqueue_many act_ok_def intro!: pays_same)
  next
    case False
    have "int32_of (dim0 b) = dim0 b" using b(3) by (intro int32_of_id) (simp_all add: dim0_def)
    then have "enq_ok (num_components (fifo w)) (Attempt (dim0 b) (ctx, NoTuple) ctx cm tok (Enqueue_many b))" for cm tok
      using batch_cols [OF b(1,2) nc] False
      by (auto simp: enq_ok_def pending_ok_def dim0_def Suc_le_eq intro!: exI [of _ "rows b"])
    then show ?thesis
      using begin_attempt_done [OF inv, of ctx kEnqueue "dim0 b" "Enqueue_many b" w' k a] exec False
      by (simp add: Try_enqueue_many)
  qed
next
  case (Try_dequeue ctx)
  have "int32_of 1 = 1" by (rule int32_of_id) simp_all
  then show ?thesis
    using begin_attempt_done [OF inv, of ctx kDequeue 1 Dequeue_one w' k a] exec
    by (simp add: Try_dequeue deq_ok_def pending_ok_def)
next
  case (Try_dequeue_many ctx n small)
  have n: "0 \<le> n" "n < 2 ^ 31" using ok by (simp_all add: Try_dequeue_many act_ok_def)
  have nc: "0 < num_components (fifo w)" using inv by (simp add: queue_inv_def queue_wf_def)
  show ?thesis
  proof (cases "specified_shapes (fifo w) \<and> n \<noteq> 0")
    case True
    have ok': "deq_ok (num_components (fifo w)) (Attempt n (ctx, NoTuple) ctx cm tok (Dequeue_many small))" for cm tok
      using n True int32_of_id [of n] by (auto simp: deq_ok_def pending_ok_def holds_def intro!: exI [of _ "[]"])
    have "begin_attempt ctx kDequeue n (Dequeue_many small) w = Some (w', k)" using exec True by (simp add: Try_dequeue_many)
    then show ?thesis by (rule begin_attempt_done [OF inv]) (use ok' in \<open>simp_all add: Try_dequeue_many\<close>)
  next
    case False
    have "reply_rows (Batch (replicate (num_components (fifo w)) [])) = []"
      using nc by (simp add: reply_rows_def dim0_def)
    then show ?thesis
      using exec False inv
      by (auto simp: done_well_def Try_dequeue_many act_ok_def own_def split: if_splits intro!: pays_same)
  qed
next
  case (Close ctx cancel)
  show ?thesis
  proof (cases cancel)
    case True
    obtain q cbs where c: "CloseAndCancel (fifo w) = (q, cbs)" by (cases "CloseAndCancel (fifo w)")
    then have w': "w' = w\<lparr>fifo := q\<rparr>" "k = map Finished cbs @ [Flush, Finished (Some (ctx, NoTuple))]"
      using exec True by (simp_all add: Close)
    note cc = CloseAndCancel_cases [OF inv c]
    have "list_claims (map Finished (map (\<lambda>i. Some (i, NoTuple)) xs)) = mset (map (\<lambda>i. (i, [])) xs)" for xs :: "nat list"
      by (induction xs) simp_all
    then have "pays a w w' k"
      using cc by (intro pays_same) (simp_all add: w' own_def Close all_waiting_def)
    then show ?thesis using cc by (auto simp: done_well_def w' act_ok_def list_all_iff)
  next
    case False
    let ?a = "Attempt 0 (ctx, NoTuple) ctx None kInvalidToken Close_queue"
    have w': "w' = w\<lparr>fifo := add_attempt kEnqueue ?a (fifo w)\<rparr>" "k = [Flush]" using exec False by (simp_all add: Close)
    have "enq_ok (num_components (fifo w)) ?a" using int32_of_id [of 0] by (simp add: enq_ok_def pending_ok_def)
    then have "queue_inv (fifo w')" using queue_inv_add [OF inv, where act = kEnqueue and a = ?a] by (simp add: w')
    moreover have "pays a w w' k"
      using all_waiting_add [of ?a kEnqueue "fifo w"] by (intro pays_same) (simp_all add: w' own_def Close)
    ultimately show ?thesis by (simp add: done_well_def w' act_ok_def)
  qed
next
  case (Cancel_attempt act cm tok)
  obtain q cb where c: "Cancel act cm tok (fifo w) = (q, cb)" by (cases "Cancel act cm tok (fifo w)")
  then have w': "w' = w\<lparr>fifo := q\<rparr>" "k = (if cb \<noteq> None then [Finished cb, Flush] else [])"
    using exec by (simp_all add: Cancel_attempt)
  note cc = Cancel_cases [OF inv c]
  have "pays a w w' k"
    using cc by (intro pays_same) (auto simp: w' own_def Cancel_attempt split: option.splits)
  then show ?thesis using cc by (auto simp: done_well_def w' act_ok_def Cancel_attempt split: option.splits)
next
  case Flush
  then show ?thesis using Flush_done [OF inv] exec by simp
next
  case (Start_cancel cm)
  have "list_claims (map (\<lambda>x. Cancel_attempt (snd x) cm (fst x)) cbs) = {#}" for cbs
    by (induction cbs) simp_all
  then show ?thesis
    using exec inv by (auto simp: done_well_def Start_cancel act_ok_def own_def list_all_iff split: option.splits intro!: pays_same)
next
  case (Finished cb)
  then obtain i r where cb: "cb = Some (i, r)" using ok by (cases cb) (auto simp: act_ok_def)
  then show ?thesis using exec inv by (auto simp: done_well_def Finished own_def intro!: pays_same)
qed (use exec inv in \<open>auto simp: done_well_def own_def intro!: pays_same\<close>)

section \<open>Reachable worlds\<close>

lemma right_mono: "right (M + N) q \<longleftrightarrow> right M q \<and> right N q"
  by (auto simp: right_def)

lemma world_inv_iff:
  "world_inv w \<longleftrightarrow> queue_inv (fifo w) \<and> (\<forall>k \<in> set (threads w). list_all (act_ok (fifo w)) k) \<and>
     distinct (started w) \<and> image_mset fst (claims w) = mset (started w) \<and> right (claims w) (fifo w) \<and>
     (\<forall>i. i \<notin> set (started w) \<longrightarrow> taken_by i (fifo w) = []) \<and>
     (settled (fifo w) \<or> (\<exists>k \<in> set (threads w). Flush \<in> set k))"
  by (simp add: world_inv_def right_def)

lemma world_inv_run:
  assumes inv: "world_inv w" and th: "threads w = ts @ (a # k) # us" and exec: "exec a w = Some (w', k')"
  shows "world_inv (w'\<lparr>threads := ts @ (k' @ k) # us\<rparr>)"
proof -
  let ?w = "w'\<lparr>threads := ts @ (k' @ k) # us\<rparr>"
  have "queue_inv (fifo w)" "act_ok (fifo w) a" using inv th by (auto simp: world_inv_iff)
  then have d: "done_well a w w' k'" using exec_done exec by blast
  then have conf: "started ?w = started w" "queue_inv (fifo w')" "same_setup (fifo w) (fifo w')" "pays a w w' k'"
    by (simp_all add: done_well_def)
  define R where "R = list_claims k + mset (thread_claims ts) + mset (thread_claims us)"
  have old: "claims w = (own w + list_claims [a]) + R" unfolding claims_eq th thread_claims_at R_def by simp
  have "own ?w = own w'" by (simp add: own_def)
  then have new: "claims ?w = (own w' + list_claims k') + R" unfolding claims_eq by (simp add: thread_claims_at R_def)
  have ids: "image_mset fst (claims ?w) = image_mset fst (claims w)"
    using conf(4) unfolding new old image_mset_union pays_def by simp
  have once: "count (image_mset fst (claims w)) i \<le> 1" for i
    using inv by (simp add: world_inv_iff distinct_count_atmost_1)
  have uniq: "unique (own w + list_claims [a])"
    using once unfolding unique_def old image_mset_union by (metis add_leD1 count_union)
  have correct: "right (own w + list_claims [a]) (fifo w)" "right R (fifo w)"
    using inv unfolding world_inv_iff old right_mono by blast+
  have pay: "right (own w' + list_claims k') (fifo w')"
      "\<And>i. i \<notin># image_mset fst (own w + list_claims [a]) \<Longrightarrow> taken_by i (fifo w') = taken_by i (fifo w)"
    using conf(4) uniq correct(1) unfolding pays_def by blast+
  have "fst y \<notin># image_mset fst (own w + list_claims [a])" if "y \<in># R" for y
  proof -
    have "fst y \<in># image_mset fst R" unfolding set_image_mset using that by (rule imageI)
    then show ?thesis
      using once [of "fst y"] apart_parts(1) [of "image_mset fst R" "fst y" "image_mset fst (own w + list_claims [a])" "{#}"]
      unfolding old image_mset_union by (simp add: add.commute)
  qed
  then have "right R (fifo w')" using correct(2) pay(2) by (simp add: right_def)
  then have "right (claims ?w) (fifo w')" unfolding new right_mono using pay(1) by (simp add: right_mono)
  moreover have "taken_by i (fifo w') = []" if "i \<notin> set (started w)" for i
  proof -
    have "i \<notin># image_mset fst (claims w)" using inv that by (simp add: world_inv_iff)
    then have "i \<notin># image_mset fst (own w + list_claims [a])" unfolding old image_mset_union by simp
    then show ?thesis using pay(2) inv that by (simp add: world_inv_iff)
  qed
  moreover have "settled (fifo w') \<or> (\<exists>k \<in> set (threads ?w). Flush \<in> set k)"
    using d inv th by (auto simp: done_well_def world_inv_iff)
  moreover have "\<forall>k \<in> set (threads ?w). list_all (act_ok (fifo w')) k"
    using d inv th act_ok_setup [OF conf(3)] by (auto simp: done_well_def world_inv_iff list_all_iff)
  ultimately show ?thesis
    using inv ids conf unfolding world_inv_iff by simp
qed

lemma world_inv_step: "step w w' \<Longrightarrow> world_inv w \<Longrightarrow> world_inv w'"
proof (elim step_cases)
  fix a assume a: "w' = w\<lparr>threads := threads w @ [[a]], started := callers a @ started w\<rparr>" "call_ok (fifo w) a"
    "set (callers a) \<inter> set (started w) = {}" and inv: "world_inv w"
  have ac: "act_claims a = map (\<lambda>i. (i, [])) (callers a)" "distinct (callers a)" "a \<noteq> Finished None"
    using a(2) by (cases a; simp)+
  have "claims w' = claims w + mset (map (\<lambda>i. (i, [])) (callers a))"
    by (simp add: claims_eq a(1) own_def thread_claims_def ac(1))
  moreover have "image_mset fst (mset (map (\<lambda>i. (i, [] :: 'a list list)) xs)) = mset xs" for xs by (induction xs) simp_all
  moreover have "right (mset (map (\<lambda>i. (i, [])) (callers a))) (fifo w)"
    using inv a(3) by (auto simp: right_def world_inv_iff)
  ultimately show "world_inv w'"
    using inv a ac by (auto simp: world_inv_iff right_mono act_ok_def)
qed (auto simp: world_inv_run, auto simp: world_inv_def claims_def)

lemma world_inv_new: "0 < n \<Longrightarrow> world_inv (new_world cap n shapes mgr)"
  by (auto simp: world_inv_def new_world_def new_queue_def claims_def thread_claims_def all_waiting_def queue_inv_def queue_wf_def
      flow_ok_def settled_def taken_by_def rows_def queue_size_def intro!: exI [of _ "[]"] cols_Nil)

lemma reachable_world_inv: "reachable_world cap n shapes mgr w \<Longrightarrow> world_inv w"
  by (induction rule: reachable_world.induct) (auto intro: world_inv_new world_inv_step)

section \<open>Executions\<close>

text \<open>A schedule of calls, actions of the thread with a given number, and orders of callbacks, to run examples.\<close>

datatype 't move = Call "'t act" | Run nat | Order nat "(int \<times> action) list"

definition run_move :: "'t move \<Rightarrow> 't world \<Rightarrow> 't world option" where
  "run_move m w = (case m of
      Call a \<Rightarrow> if call_ok (fifo w) a \<and> list_all (\<lambda>i. i \<notin> set (started w)) (callers a)
        then Some (w\<lparr>threads := threads w @ [[a]], started := callers a @ started w\<rparr>) else None
    | Run i \<Rightarrow> if i < length (threads w) then
        (case threads w ! i of [] \<Rightarrow> None
         | a # k \<Rightarrow> map_option (\<lambda>(w', k'). w'\<lparr>threads := (threads w)[i := k' @ k]\<rparr>) (exec a w)) else None
    | Order cm cbs \<Rightarrow> if mset cbs = mset (callbacks (managers w cm))
        then Some (w\<lparr>managers := (managers w)(cm := (managers w cm)\<lparr>callbacks := cbs\<rparr>)\<rparr>) else None)"

fun run_moves :: "'t move list \<Rightarrow> 't world \<Rightarrow> 't world option" where
  "run_moves [] w = Some w"
| "run_moves (m # ms) w = Option.bind (run_move m w) (run_moves ms)"

lemma run_move_step: "run_move m w = Some w' \<Longrightarrow> step w w'"
proof (cases m)
  case (Run i)
  assume "run_move m w = Some w'"
  then obtain a k w1 k' where i: "i < length (threads w)" "threads w ! i = a # k" "exec a w = Some (w1, k')"
      "w' = w1\<lparr>threads := (threads w)[i := k' @ k]\<rparr>"
    by (auto simp: run_move_def Run split: if_splits list.splits)
  then have "threads w = take i (threads w) @ (a # k) # drop (Suc i) (threads w)"
    using id_take_nth_drop [OF i(1)] by simp
  from step.run [OF this i(3)] show ?thesis using i(1,4) by (simp add: upd_conv_take_nth_drop)
qed (auto simp: run_move_def split: if_splits intro!: step.intros simp: list_all_iff)

lemma run_moves_reachable:
  "reachable_world cap n shapes mgr w \<Longrightarrow> run_moves ms w = Some w' \<Longrightarrow> reachable_world cap n shapes mgr w'"
proof (induction ms arbitrary: w)
  case (Cons m ms)
  then obtain w1 where "run_move m w = Some w1" "run_moves ms w1 = Some w'" by (auto simp: bind_eq_Some_conv)
  then show ?case using Cons.IH Cons.prems(1) reachable_world.next_step run_move_step by blast
qed simp

definition deadlock_moves :: "nat move list" where
  "deadlock_moves =
     [Call (Try_enqueue 0 [10]), Run 0, Run 0, Run 0, Run 0,
      Call (Try_enqueue 1 [11]), Run 1, Run 1,
      Call (Close 2 False), Run 2, Run 2,
      Call (Try_enqueue 3 [13]), Run 3, Run 3,
      Order 0 [(1, kEnqueue), (2, kEnqueue)],
      Call (Start_cancel 0), Run 4, Run 4, Run 4, Run 4, Run 4]"

lemma deadlock_run:
  "map_option (\<lambda>w. (threads w, is_cancelling (managers w 0), is_cancelled (managers w 0)))
      (run_moves deadlock_moves (new_world 1 1 False (\<lambda>_. 0))) =
    Some ([[], [], [], [], [Deregister 0 2, Finished (Some (3, NoTuple)), Cancel_attempt kEnqueue 0 2, End_cancel 0]], True, False)"
  by code_simp

definition loss_moves :: "nat move list" where
  "loss_moves =
     [Call (Try_enqueue 0 [10]), Run 0, Run 0, Run 0, Run 0,
      Call (Try_dequeue_many 1 2 False), Run 1, Run 1,
      Call (Start_cancel 0), Run 2, Run 2, Run 2, Run 2, Run 2]"

lemma loss_run:
  "map_option (\<lambda>w. (threads w, invoked w, accepted (fifo w), taken (fifo w), queues (fifo w)))
      (run_moves loss_moves (new_world 5 1 True (\<lambda>_. 0))) =
    Some ([[], [], []], [((0, NoTuple), None), ((1, NoTuple), Some CANCELLED)], [[10]], [(None, [10])], [[]])"
  by code_simp

section \<open>Properties\<close>

text \<open>
  A thread that waits for a cancellation it is itself carrying out.
\<close>

definition self_waiting :: "nat \<Rightarrow> nat \<Rightarrow> 't world \<Rightarrow> bool" where
  "self_waiting i cm w \<longleftrightarrow> i < length (threads w) \<and>
     (\<exists>tok k. threads w ! i = Deregister cm tok # k \<and> End_cancel cm \<in> set k) \<and>
     is_cancelling (managers w cm) \<and> \<not> is_cancelled (managers w cm) \<and>
     (\<forall>j < length (threads w). j \<noteq> i \<longrightarrow> End_cancel cm \<notin> set (threads w ! j))"

lemma exec_flags:
  assumes "exec a w = Some (w', k)" "is_cancelling (managers w cm)" "\<not> is_cancelled (managers w cm)" "a \<noteq> End_cancel cm"
  shows "is_cancelling (managers w' cm) \<and> \<not> is_cancelled (managers w' cm) \<and> End_cancel cm \<notin> set k \<and> threads w' = threads w"
proof -
  have begun: "is_cancelling (managers w' cm) \<and> \<not> is_cancelled (managers w' cm) \<and> End_cancel cm \<notin> set k \<and> threads w' = threads w"
    if "begin_attempt ctx act n run w = Some (w', k)" for ctx act n run
    using that assms(2,3)
    by (auto simp: begin_attempt_def Let_def get_cancellation_token_def RegisterCallback_def split: if_splits)
  show ?thesis
  proof (cases a)
    case (Start_cancel c)
    then show ?thesis using assms by (auto simp: begin_StartCancel_def split: if_splits)
  next
    case (Deregister c tok)
    then show ?thesis using assms by (auto simp: DeregisterCallback_def split: if_splits)
  next
    case Flush
    then show ?thesis using assms by (auto simp: clean_actions_def)
  qed (use assms begun in \<open>auto simp: end_StartCancel_def Let_def split: if_splits prod.splits\<close>)
qed

lemma self_waiting_step:
  assumes "self_waiting i cm w" "step w w'"
  shows "self_waiting i cm w' \<and> threads w' ! i = threads w ! i"
  using assms(2)
proof (cases rule: step.cases)
  case (call a)
  have "a \<noteq> End_cancel cm" using call(2) by auto
  then show ?thesis using assms(1) call(1) by (auto simp: self_waiting_def nth_append less_Suc_eq)
next
  case (run ts a k us w1 k')
  let ?n = "length ts"
  have th: "threads w ! ?n = a # k" "?n < length (threads w)" by (simp_all add: run(2))
  have "?n \<noteq> i"
  proof
    assume "?n = i"
    then have "exec a w = None" using assms(1) th by (auto simp: self_waiting_def DeregisterCallback_def)
    then show False using run(3) by simp
  qed
  then have "End_cancel cm \<notin> set (a # k)" using assms(1) th by (auto simp: self_waiting_def)
  then have flags: "is_cancelling (managers w1 cm) \<and> \<not> is_cancelled (managers w1 cm) \<and> End_cancel cm \<notin> set k'"
    using exec_flags [OF run(3), of cm] assms(1) by (auto simp: self_waiting_def)
  have upd: "threads w' = (threads w)[?n := k' @ k]" by (simp add: run(1,2))
  have "threads w' ! j = (if j = ?n then k' @ k else threads w ! j)" if "j < length (threads w)" for j
    using that by (simp add: upd nth_list_update)
  moreover have "length (threads w') = length (threads w)" "managers w' = managers w1" by (simp_all add: upd) (simp add: run(1))
  ultimately show ?thesis
    using assms(1) flags \<open>?n \<noteq> i\<close> \<open>End_cancel cm \<notin> set (a # k)\<close> by (auto simp: self_waiting_def)
next
  case (order cbs c)
  then show ?thesis using assms(1) by (auto simp: self_waiting_def)
qed

lemma self_waiting_forever:
  assumes "step\<^sup>*\<^sup>* w w'" "self_waiting i cm w"
  shows "threads w' ! i = threads w ! i"
proof -
  from assms have "self_waiting i cm w' \<and> threads w' ! i = threads w ! i"
    by (induction rule: rtranclp_induct) (auto dest: self_waiting_step)
  then show ?thesis by blast
qed

lemma exec_waits:
  assumes "queue_inv (fifo w)" "act_ok (fifo w) a" "exec a w = None"
  shows "\<exists>cm tok. a = Deregister cm tok \<and> is_cancelling (managers w cm)"
proof -
  have no: "begin_attempt ctx act n run w \<noteq> None" for ctx act n run
    using register_token [of "managers w (manager_of w ctx)" act]
    by (auto simp: begin_attempt_def Let_def split: prod.splits option.splits)
  show ?thesis
  proof (cases a)
    case Flush
    then show ?thesis using assms flush_loop_returns [OF assms(1), of "[]"] by auto
  next
    case (Deregister cm tok)
    then show ?thesis using assms(3) by (auto simp: DeregisterCallback_def split: if_splits)
  next
    case (Finished cb)
    then show ?thesis using assms by (auto simp: act_ok_def)
  next
    case (Try_enqueue_many ctx cols)
    then show ?thesis using assms(3) no [of ctx kEnqueue "dim0 cols" "Enqueue_many cols"] by (simp split: if_splits)
  next
    case (Try_dequeue_many ctx m bufs)
    then show ?thesis using assms(3) no [of ctx kDequeue m "Dequeue_many bufs"] by (simp split: if_splits)
  qed (use assms(3) no in \<open>auto split: if_splits option.splits prod.splits\<close>)
qed

text \<open>
  C12: However calls, cancellations and callbacks are interleaved, every call has exactly one of a
  callback already called, a callback or the call itself still to be done by a thread, or a waiting
  attempt. When no thread has anything left to do, the calls without callback wait for a reason: an
  enqueue at a full open queue, a dequeue at an empty open one. Nothing waits at a closed queue.
\<close>

theorem queue_exactly_once:
  assumes "reachable_world cap n shapes mgr w"
  shows "mset (started w) = mset (map (\<lambda>x. fst (fst x)) (invoked w)) + mset (map fst (thread_claims (threads w))) + mset (all_waiting (fifo w)) \<and>
    distinct (started w) \<and>
    (list_all (\<lambda>k. k = []) (threads w) \<longrightarrow>
      (enqueue_attempts (fifo w) \<noteq> [] \<longrightarrow> \<not> closed (fifo w) \<and> capacity (fifo w) \<le> queue_size (fifo w)) \<and>
      (dequeue_attempts (fifo w) \<noteq> [] \<longrightarrow> \<not> closed (fifo w) \<and> queue_size (fifo w) = 0))"
proof -
  have inv: "world_inv w" using assms by (rule reachable_world_inv)
  have "image_mset fst (claims w) = mset (map (\<lambda>x. fst (fst x)) (invoked w)) + mset (map fst (thread_claims (threads w))) + mset (all_waiting (fifo w))"
    by (simp add: claims_def image_mset.compositionality comp_def)
  moreover have "settled (fifo w)" if "list_all (\<lambda>k. k = []) (threads w)"
    using inv that by (auto simp: world_inv_def list_all_iff)
  ultimately show ?thesis using inv by (auto simp: world_inv_def settled_def enq_blocked_def deq_blocked_def)
qed

theorem queue_exactly_once_witness:
  "\<exists>w :: nat world. reachable_world 5 1 True (\<lambda>_. 0) w \<and> mset (started w) = {#0, 1#} \<and> dequeue_attempts (fifo w) = []"
proof -
  obtain w where w: "run_moves loss_moves (new_world 5 1 True (\<lambda>_. 0)) = Some w" "threads w = [[], [], []]"
      "map (\<lambda>x. fst (fst x)) (invoked w) = [0, 1]"
    using loss_run by auto
  then have r: "reachable_world 5 1 True (\<lambda>_. 0) w" by (intro run_moves_reachable [OF reachable_world.start]) simp_all
  have "map_option (\<lambda>w. (started w, dequeue_attempts (fifo w))) (run_moves loss_moves (new_world 5 1 True (\<lambda>_. 0))) = Some ([1, 0], [])"
    by code_simp
  then have "started w = [1, 0]" "dequeue_attempts (fifo w) = []" using w(1) by auto
  then have "mset (started w) = {#0, 1#} \<and> dequeue_attempts (fifo w) = []"
    using queue_exactly_once [OF r] by (simp add: add_mset_commute)
  then show ?thesis using r by (intro exI [of _ w]) blast
qed

text \<open>
  C13: First in, first out. In every reachable state the elements that left the queue for good,
  then those held by a partial batch, then those in the queue, are the elements accepted, in that
  order; an open queue is never beyond its capacity; and every callback got exactly the elements
  taken for its operation. An element that left was taken by an operation or dropped, and dropping
  happens: cancelling a \<open>DequeueMany\<close> that has got a part of its batch loses these elements.
\<close>

theorem queue_fifo:
  "(reachable_world cap n shapes mgr w \<longrightarrow>
     accepted (fifo w) = map snd (taken (fifo w)) @ concat (map held (dequeue_attempts (fifo w))) @ rows (queues (fifo w)) \<and>
     (\<not> closed (fifo w) \<longrightarrow> queue_size (fifo w) \<le> capacity (fifo w)) \<and>
     (\<forall>x \<in> set (invoked w). reply_rows (snd (fst x)) = map snd (filter (\<lambda>y. fst y = Some (fst (fst x))) (taken (fifo w))))) \<and>
   (\<exists>v :: nat world. reachable_world 5 1 True (\<lambda>_. 0) v \<and> accepted (fifo v) = [[10]] \<and> queues (fifo v) = [[]] \<and>
     taken (fifo v) = [(None, [10])] \<and> invoked v = [((0, NoTuple), None), ((1, NoTuple), Some CANCELLED)])"
proof (intro conjI impI)
  assume "reachable_world cap n shapes mgr w"
  then have inv: "world_inv w" by (rule reachable_world_inv)
  then have q: "queue_inv (fifo w)" by (simp add: world_inv_def)
  then show "accepted (fifo w) = map snd (taken (fifo w)) @ concat (map held (dequeue_attempts (fifo w))) @ rows (queues (fifo w))"
    by (simp add: queue_inv_def flow_ok_def)
  show "queue_size (fifo w) \<le> capacity (fifo w)" if "\<not> closed (fifo w)"
    using q that by (auto simp: queue_inv_def queue_wf_def)
  show "\<forall>x \<in> set (invoked w). reply_rows (snd (fst x)) = map snd (filter (\<lambda>y. fst y = Some (fst (fst x))) (taken (fifo w)))"
  proof
    fix x assume "x \<in> set (invoked w)"
    then have "(fst (fst x), reply_rows (snd (fst x))) \<in># claims w" by (auto simp: claims_def)
    then show "reply_rows (snd (fst x)) = map snd (filter (\<lambda>y. fst y = Some (fst (fst x))) (taken (fifo w)))"
      using inv by (force simp: world_inv_def taken_by_def)
  qed
next
  obtain v where v: "run_moves loss_moves (new_world 5 1 True (\<lambda>_. 0)) = Some v" "accepted (fifo v) = [[10]]" "queues (fifo v) = [[]]"
      "taken (fifo v) = [(None, [10])]" "invoked v = [((0, NoTuple), None), ((1, NoTuple), Some CANCELLED)]"
    using loss_run by auto
  then have "reachable_world 5 1 True (\<lambda>_. 0) v" by (intro run_moves_reachable [OF reachable_world.start]) simp_all
  with v show "\<exists>v :: nat world. reachable_world 5 1 True (\<lambda>_. 0) v \<and> accepted (fifo v) = [[10]] \<and> queues (fifo v) = [[]] \<and>
     taken (fifo v) = [(None, [10])] \<and> invoked v = [((0, NoTuple), None), ((1, NoTuple), Some CANCELLED)]" by blast
qed

theorem queue_fifo_witness:
  "\<exists>w :: nat world. reachable_world 5 1 True (\<lambda>_. 0) w \<and> accepted (fifo w) = [[10]] \<and>
    accepted (fifo w) = map snd (taken (fifo w)) @ concat (map held (dequeue_attempts (fifo w))) @ rows (queues (fifo w)) \<and>
    queue_size (fifo w) \<le> capacity (fifo w)"
proof -
  obtain w where w: "run_moves loss_moves (new_world 5 1 True (\<lambda>_. 0)) = Some w" "accepted (fifo w) = [[10]]"
    using loss_run by auto
  have r: "reachable_world 5 1 True (\<lambda>_. 0) w" using w(1) by (intro run_moves_reachable [OF reachable_world.start]) simp_all
  have "map_option (\<lambda>w. closed (fifo w)) (run_moves loss_moves (new_world 5 1 True (\<lambda>_. 0))) = Some False"
    by code_simp
  then have "\<not> closed (fifo w)" using w(1) by simp
  then show ?thesis using queue_fifo [of 5 1 True "\<lambda>_. 0" w] r w(2) by blast
qed

text \<open>
  C14: A thread of a reachable state can always go on, unless it waits for a cancellation in progress.
  It may wait for itself: the cancellation of one enqueue can complete another operation of the same
  manager, and removing the registration of that one from inside the cancellation waits for its end.
  The thread then stays where it is in every further execution.
\<close>

theorem queue_cancel_deadlock:
  "(reachable_world cap n shapes mgr w \<and> a # k \<in> set (threads w) \<longrightarrow>
     exec a w \<noteq> None \<or> (\<exists>cm tok. a = Deregister cm tok \<and> is_cancelling (managers w cm))) \<and>
   (\<exists>v :: nat world. reachable_world 1 1 False (\<lambda>_. 0) v \<and>
     (\<exists>k. threads v ! 4 = Deregister 0 2 # k \<and> End_cancel 0 \<in> set k) \<and>
     (\<forall>v'. step\<^sup>*\<^sup>* v v' \<longrightarrow> threads v' ! 4 = threads v ! 4))"
proof (intro conjI impI)
  assume "reachable_world cap n shapes mgr w \<and> a # k \<in> set (threads w)"
  then have "world_inv w" "a # k \<in> set (threads w)" by (auto intro: reachable_world_inv [of cap n shapes mgr w])
  then have "queue_inv (fifo w)" "act_ok (fifo w) a" by (auto simp: world_inv_def)
  then show "exec a w \<noteq> None \<or> (\<exists>cm tok. a = Deregister cm tok \<and> is_cancelling (managers w cm))"
    using exec_waits by blast
next
  obtain v where v: "run_moves deadlock_moves (new_world 1 1 False (\<lambda>_. 0)) = Some v" "is_cancelling (managers v 0)" "\<not> is_cancelled (managers v 0)"
      "threads v = [[], [], [], [], [Deregister 0 2, Finished (Some (3, NoTuple)), Cancel_attempt kEnqueue 0 2, End_cancel 0]]"
    using deadlock_run by auto
  have r: "reachable_world 1 1 False (\<lambda>_. 0) v" using v(1) by (intro run_moves_reachable [OF reachable_world.start]) simp_all
  have "End_cancel 0 \<notin> set (threads v ! j)" if "j < 5" "j \<noteq> 4" for j
  proof -
    have "j = 0 \<or> j = 1 \<or> j = 2 \<or> j = 3" using that by arith
    then show ?thesis by (auto simp: v(4))
  qed
  then have "self_waiting 4 0 v" using v by (simp add: self_waiting_def)
  then have "\<forall>v'. step\<^sup>*\<^sup>* v v' \<longrightarrow> threads v' ! 4 = threads v ! 4" by (blast intro: self_waiting_forever)
  moreover have "\<exists>k. threads v ! 4 = Deregister 0 2 # k \<and> End_cancel 0 \<in> set k" by (simp add: v(4))
  ultimately show "\<exists>v :: nat world. reachable_world 1 1 False (\<lambda>_. 0) v \<and>
     (\<exists>k. threads v ! 4 = Deregister 0 2 # k \<and> End_cancel 0 \<in> set k) \<and>
     (\<forall>v'. step\<^sup>*\<^sup>* v v' \<longrightarrow> threads v' ! 4 = threads v ! 4)"
    using r by blast
qed

theorem queue_cancel_deadlock_witness:
  "\<exists>v :: nat world. reachable_world 1 1 False (\<lambda>_. 0) v \<and> Deregister 0 2 \<in> hd ` set (filter (\<lambda>k. k \<noteq> []) (threads v)) \<and>
    (exec (Deregister 0 2) v \<noteq> None \<or> is_cancelling (managers v 0))"
proof -
  obtain v where v: "run_moves deadlock_moves (new_world 1 1 False (\<lambda>_. 0)) = Some v"
      "threads v = [[], [], [], [], [Deregister 0 2, Finished (Some (3, NoTuple)), Cancel_attempt kEnqueue 0 2, End_cancel 0]]"
    using deadlock_run by auto
  have r: "reachable_world 1 1 False (\<lambda>_. 0) v" using v(1) by (intro run_moves_reachable [OF reachable_world.start]) simp_all
  have "exec (Deregister 0 2) v \<noteq> None \<or> is_cancelling (managers v 0)"
    using queue_cancel_deadlock [of 1 1 False "\<lambda>_. 0" v "Deregister 0 2" "tl (threads v ! 4)"] r v(2) by auto
  then show ?thesis using r v(2) by (intro exI [of _ v]) simp
qed

end
