(* ===== verification/Edge_Set.thy ===== *)
theory Edge_Set
  imports Prelude
begin

text \<open>
  Sets of edges: \<open>graph/edgeset.cc\<close> and \<open>.h\<close>.

  A pointer to an edge is its address. Up to two edges are kept in an array, more in a
  \<open>std::set\<close>, which iterates by address; a set once made stays a set until \<open>clear\<close>. The
  constructor \<open>Tree\<close> is the state in which \<open>ptrs_[0]\<close> is \<open>this\<close>. The counter of mutations of debug
  builds is left out.
\<close>

type_synonym ptr = nat

definition kInline :: nat where "kInline = 2"

datatype edge_set = Ptrs "ptr option list" | Tree "ptr list"

definition EdgeSet :: edge_set where
  "EdgeSet = Ptrs (replicate kInline None)"

fun es_size :: "edge_set \<Rightarrow> nat" where
  "es_size (Tree s) = length s"
| "es_size (Ptrs ptrs) = length (filter (\<lambda>p. p \<noteq> None) ptrs)"

definition es_empty :: "edge_set \<Rightarrow> bool" where
  "es_empty es \<longleftrightarrow> es_size es = 0"

definition es_clear :: "edge_set \<Rightarrow> edge_set" where
  "es_clear es = Ptrs (replicate kInline None)"

text \<open>The pointers visited from \<open>begin\<close> to \<open>end\<close>.\<close>

fun es_iter :: "edge_set \<Rightarrow> ptr list" where
  "es_iter (Tree s) = s"
| "es_iter (Ptrs ptrs) = map the (take (es_size (Ptrs ptrs)) ptrs)"

text \<open>The first index of the array with a given content.\<close>

fun index_of :: "'a \<Rightarrow> 'a list \<Rightarrow> nat option" where
  "index_of x [] = None"
| "index_of x (y # ys) = (if y = x then Some 0 else map_option Suc (index_of x ys))"

definition set_insert :: "ptr \<Rightarrow> ptr list \<Rightarrow> ptr list \<times> bool" where
  "set_insert p s = (insort_insert p s, p \<notin> set s)"

fun es_insert :: "ptr \<Rightarrow> edge_set \<Rightarrow> edge_set \<times> bool" where
  "es_insert p (Ptrs ptrs) =
     (if index_of (Some p) ptrs \<noteq> None then (Ptrs ptrs, False)
      else case index_of None ptrs of
        Some i \<Rightarrow> (Ptrs (ptrs[i := Some p]), True)
      | None \<Rightarrow>
          let s = fold insort_insert (map the ptrs) [];
              (s, new) = set_insert p s
          in (Tree s, new))"
| "es_insert p (Tree s) = (let (s, new) = set_insert p s in (Tree s, new))"

fun es_erase :: "ptr \<Rightarrow> edge_set \<Rightarrow> edge_set \<times> nat" where
  "es_erase p (Ptrs ptrs) =
     (case index_of (Some p) ptrs of
        Some i \<Rightarrow>
          let n = es_size (Ptrs ptrs)
          in (Ptrs (ptrs[i := ptrs ! (n - 1), n - 1 := None]), 1)
      | None \<Rightarrow> (Ptrs ptrs, 0))"
| "es_erase p (Tree s) = (Tree (removeAll p s), if p \<in> set s then 1 else 0)"

section \<open>The contract of a set of pointers\<close>

text \<open>What the graph relies on: insertion and removal with their results, and an iteration without repetition.\<close>

locale pointer_set =
  fixes good :: "'s \<Rightarrow> bool"
    and elems :: "'s \<Rightarrow> ptr list"
    and ins :: "ptr \<Rightarrow> 's \<Rightarrow> 's \<times> bool"
    and del :: "ptr \<Rightarrow> 's \<Rightarrow> 's \<times> nat"
  assumes elems_distinct: "good s \<Longrightarrow> distinct (elems s)"
    and ins_good: "good s \<Longrightarrow> good (fst (ins p s))"
    and ins_elems: "good s \<Longrightarrow> set (elems (fst (ins p s))) = insert p (set (elems s))"
    and ins_result: "good s \<Longrightarrow> snd (ins p s) \<longleftrightarrow> p \<notin> set (elems s)"
    and del_good: "good s \<Longrightarrow> good (fst (del p s))"
    and del_elems: "good s \<Longrightarrow> set (elems (fst (del p s))) = set (elems s) - {p}"
    and del_result: "good s \<Longrightarrow> snd (del p s) = (if p \<in> set (elems s) then 1 else 0)"
begin

lemma ins_new:
  assumes "good s" "p \<notin> set (elems s)"
  obtains s' where "ins p s = (s', True)" "good s'" "set (elems s') = insert p (set (elems s))"
  using assms ins_good [of s p] ins_elems [of s p] ins_result [of s p] by (metis prod.collapse)

lemma del_old:
  assumes "good s" "p \<in> set (elems s)"
  obtains s' where "del p s = (s', 1)" "good s'" "set (elems s') = set (elems s) - {p}"
  using assms del_good [of s p] del_elems [of s p] del_result [of s p] by (metis prod.collapse)

end

section \<open>The representation\<close>

text \<open>The pointers of the array come first; those of the set are in order.\<close>

fun good_es :: "edge_set \<Rightarrow> bool" where
  "good_es (Tree s) \<longleftrightarrow> sorted s \<and> distinct s"
| "good_es (Ptrs ptrs) \<longleftrightarrow> (\<exists>xs. distinct xs \<and> length xs \<le> kInline \<and> ptrs = map Some xs @ replicate (kInline - length xs) None)"

lemma index_of_None [simp]: "index_of x ys = None \<longleftrightarrow> x \<notin> set ys"
  by (induction ys) auto

lemma good_ptrs_cases:
  assumes "good_es (Ptrs ptrs)"
  obtains "ptrs = [None, None]" | x where "ptrs = [Some x, None]" | x y where "x \<noteq> y" "ptrs = [Some x, Some y]"
proof -
  obtain xs where xs: "distinct xs" "length xs \<le> 2" "ptrs = map Some xs @ replicate (2 - length xs) None"
    using assms by (auto simp: kInline_def)
  then consider "xs = []" | x where "xs = [x]" | x y where "xs = [x, y]"
    by (cases xs; cases "tl xs"; cases "tl (tl xs)") auto
  then show thesis using xs that by cases (simp_all add: numeral_2_eq_2)
qed

lemma good_ptrs_intros:
  "good_es (Ptrs [None, None])" "good_es (Ptrs [Some x, None])" "x \<noteq> y \<Longrightarrow> good_es (Ptrs [Some x, Some y])"
  by (auto simp: kInline_def numeral_2_eq_2 intro: exI [of _ "[]"] exI [of _ "[x]"] exI [of _ "[x, y]"])

lemma good_EdgeSet [simp]: "good_es EdgeSet" "es_iter EdgeSet = []" "good_es (es_clear es)" "es_iter (es_clear es) = []"
  using good_ptrs_intros(1) by (simp_all add: EdgeSet_def es_clear_def kInline_def numeral_2_eq_2)

lemma es_size_iter: "good_es es \<Longrightarrow> es_size es = length (es_iter es)"
  by (cases es) (auto elim!: good_ptrs_cases simp del: good_es.simps(2))

lemma es_empty_iter: "good_es es \<Longrightarrow> es_empty es \<longleftrightarrow> es_iter es = []"
  by (simp add: es_empty_def es_size_iter)

lemma es_insert_ptrs:
  assumes "good_es (Ptrs ptrs)"
  shows "good_es (fst (es_insert p (Ptrs ptrs))) \<and>
    set (es_iter (fst (es_insert p (Ptrs ptrs)))) = insert p (set (es_iter (Ptrs ptrs))) \<and>
    (snd (es_insert p (Ptrs ptrs)) \<longleftrightarrow> p \<notin> set (es_iter (Ptrs ptrs)))"
  using assms
  by (cases rule: good_ptrs_cases)
    (auto simp: set_insert_def good_ptrs_intros sorted_insort_insert distinct_insort_insert set_insort_insert simp del: good_es.simps(2))

lemma es_erase_ptrs:
  assumes "good_es (Ptrs ptrs)"
  shows "good_es (fst (es_erase p (Ptrs ptrs))) \<and>
    set (es_iter (fst (es_erase p (Ptrs ptrs)))) = set (es_iter (Ptrs ptrs)) - {p} \<and>
    snd (es_erase p (Ptrs ptrs)) = (if p \<in> set (es_iter (Ptrs ptrs)) then 1 else 0)"
  using assms
  by (cases rule: good_ptrs_cases) (auto simp: good_ptrs_intros simp del: good_es.simps(2))

lemma es_insert_tree:
  assumes "good_es (Tree s)"
  shows "good_es (fst (es_insert p (Tree s))) \<and> set (es_iter (fst (es_insert p (Tree s)))) = insert p (set s) \<and>
    (snd (es_insert p (Tree s)) \<longleftrightarrow> p \<notin> set s)"
  using assms by (simp add: set_insert_def sorted_insort_insert distinct_insort_insert set_insort_insert)

lemma es_erase_tree:
  assumes "good_es (Tree s)"
  shows "good_es (fst (es_erase p (Tree s)))"
  using assms sorted_filter [of id s "\<lambda>x. p \<noteq> x"] by (simp add: removeAll_filter_not_eq)

interpretation es: pointer_set good_es es_iter es_insert es_erase
proof
  fix s :: edge_set and p
  assume g: "good_es s"
  show "distinct (es_iter s)"
    using g by (cases s) (auto elim!: good_ptrs_cases simp del: good_es.simps(2))
  show "good_es (fst (es_insert p s))"
    using g es_insert_ptrs es_insert_tree by (cases s) blast+
  show "set (es_iter (fst (es_insert p s))) = insert p (set (es_iter s))"
  proof (cases s)
    case (Tree x2)
    then show ?thesis using g es_insert_tree [of x2 p] by (simp del: es_insert.simps)
  qed (use g es_insert_ptrs [of _ p] in \<open>simp del: es_insert.simps es_iter.simps good_es.simps\<close>)
  show "snd (es_insert p s) \<longleftrightarrow> p \<notin> set (es_iter s)"
  proof (cases s)
    case (Tree x2)
    then show ?thesis using g es_insert_tree [of x2 p] by (simp del: es_insert.simps)
  qed (use g es_insert_ptrs [of _ p] in \<open>simp del: es_insert.simps es_iter.simps good_es.simps\<close>)
  show "good_es (fst (es_erase p s))"
    using g es_erase_ptrs es_erase_tree by (cases s) blast+
  show "set (es_iter (fst (es_erase p s))) = set (es_iter s) - {p}" "snd (es_erase p s) = (if p \<in> set (es_iter s) then 1 else 0)"
    using g es_erase_ptrs [of _ p] by (cases s; simp del: es_erase.simps(1) es_iter.simps(2) good_es.simps)+
qed

end
