(* ===== verification/Op_Graph.thy ===== *)
theory Op_Graph
  imports Edge_Set
begin

text \<open>
  The graph of operations: \<open>graph/graph.cc\<close> and \<open>graph/graph.h\<close>.

  Nodes and edges live at addresses handed out by an arena: \<open>arena\<close> is the sequence of its
  addresses, any sequence without repetition, so that no order of the addresses is assumed.
  Removed nodes and edges are kept for reuse. A node definition is the protocol buffer with its
  attributes opaque. Looking up an op and inferring the types of its inputs and outputs
  (\<open>LookUpOpDef\<close>, \<open>InOutTypesForNode\<close>) is the parameter \<open>types_of\<close>. Properties are values: the
  sharing of them between a node and its copy, with a copy before each write, is left out.
  A \<open>CHECK\<close> that fails is \<open>None\<close>. The graph has fewer than \<open>2 ^ 31\<close> nodes and edges.
\<close>

section \<open>Nodes and edges\<close>

record 'a node_def =
  def_name :: string
  def_op :: string
  def_device :: string
  def_input :: "string list"
  def_attr :: 'a

record 'a properties =
  node_def :: "'a node_def"
  input_types :: "nat list"
  output_types :: "nat list"

datatype node_class =
    NC_UNINITIALIZED | NC_SWITCH | NC_MERGE | NC_ENTER | NC_EXIT | NC_NEXT_ITERATION | NC_LOOP_COND
  | NC_CONTROL_TRIGGER | NC_SEND | NC_HOST_SEND | NC_RECV | NC_HOST_RECV | NC_CONSTANT | NC_VARIABLE
  | NC_IDENTITY | NC_GET_SESSION_HANDLE | NC_GET_SESSION_TENSOR | NC_DELETE_SESSION_TENSOR | NC_OTHER

record 'a node =
  n_id :: int
  cost_id :: int
  n_class :: node_class
  in_edges :: edge_set
  out_edges :: edge_set
  props :: "'a properties option"
  assigned_device_name :: string

record edge =
  e_src :: "ptr option"
  e_dst :: "ptr option"
  e_id :: int
  src_output :: int
  dst_input :: int

record 'a graph =
  node_at :: "ptr \<Rightarrow> 'a node"
  edge_at :: "ptr \<Rightarrow> edge"
  arena :: "nat \<Rightarrow> ptr"
  arena_used :: nat
  g_nodes :: "ptr option list"
  num_nodes :: int
  g_edges :: "ptr option list"
  edge_set :: edge_set
  free_nodes :: "ptr list"
  free_edges :: "ptr list"
  name_counter :: int

definition kControlSlot :: int where "kControlSlot = -1"

definition new_node :: "'a node" where
  "new_node = \<lparr>n_id = -1, cost_id = -1, n_class = NC_UNINITIALIZED, in_edges = EdgeSet, out_edges = EdgeSet,
     props = None, assigned_device_name = []\<rparr>"

definition node_name :: "'a node \<Rightarrow> string" where
  "node_name n = def_name (node_def (the (props n)))"

definition type_string :: "'a node \<Rightarrow> string" where
  "type_string n = def_op (node_def (the (props n)))"

definition num_inputs :: "'a node \<Rightarrow> int" where
  "num_inputs n = int (length (input_types (the (props n))))"

definition IsSource :: "'a node \<Rightarrow> bool" where "IsSource n \<longleftrightarrow> n_id n = 0"

definition IsSink :: "'a node \<Rightarrow> bool" where "IsSink n \<longleftrightarrow> n_id n = 1"

definition IsOp :: "'a node \<Rightarrow> bool" where "IsOp n \<longleftrightarrow> n_id n > 1"

definition IsControlEdge :: "edge \<Rightarrow> bool" where
  "IsControlEdge e \<longleftrightarrow> src_output e = kControlSlot"

text \<open>The macro \<open>SET_CLASS\<close>, and the classes in the order of \<open>Initialize\<close>.\<close>

definition SET_CLASS :: "string \<Rightarrow> node_class \<times> string \<times> string \<Rightarrow> node_class option \<Rightarrow> node_class option" where
  "SET_CLASS ts x c = (case x of (val, str1, str2) \<Rightarrow>
     (case c of None \<Rightarrow> None
      | Some c \<Rightarrow> if ts = str1 \<or> ts = str2 then if c = NC_UNINITIALIZED then Some val else None else Some c))"

definition node_classes :: "(node_class \<times> string \<times> string) list" where
  "node_classes =
     [(NC_SWITCH, ''Switch'', ''RefSwitch''), (NC_MERGE, ''Merge'', ''RefMerge''), (NC_ENTER, ''Enter'', ''RefEnter''),
      (NC_EXIT, ''Exit'', ''RefExit''), (NC_NEXT_ITERATION, ''NextIteration'', ''RefNextIteration''),
      (NC_LOOP_COND, ''LoopCond'', ''''), (NC_CONTROL_TRIGGER, ''ControlTrigger'', ''''), (NC_SEND, ''_Send'', ''''),
      (NC_HOST_SEND, ''_HostSend'', ''''), (NC_RECV, ''_Recv'', ''''), (NC_HOST_RECV, ''_HostRecv'', ''''),
      (NC_CONSTANT, ''Const'', ''HostConst''), (NC_VARIABLE, ''Variable'', ''''), (NC_IDENTITY, ''Identity'', ''RefIdentity''),
      (NC_GET_SESSION_HANDLE, ''GetSessionHandle'', ''''), (NC_GET_SESSION_TENSOR, ''GetSessionTensor'', ''''),
      (NC_DELETE_SESSION_TENSOR, ''DeleteSessionTensor'', '''')]"

definition class_of :: "string \<Rightarrow> node_class option" where
  "class_of ts = map_option (\<lambda>c. if c = NC_UNINITIALIZED then NC_OTHER else c)
     (fold (SET_CLASS ts) node_classes (Some NC_UNINITIALIZED))"

definition Initialize :: "int \<Rightarrow> int \<Rightarrow> 'a properties \<Rightarrow> 'a node \<Rightarrow> 'a node option" where
  "Initialize i cost p n =
     map_option (\<lambda>c. n\<lparr>n_id := i, cost_id := cost, n_class := c, props := Some p\<rparr>) (class_of (def_op (node_def p)))"

definition Clear_node :: "'a node \<Rightarrow> 'a node" where
  "Clear_node n = n\<lparr>n_id := -1, cost_id := -1, n_class := NC_UNINITIALIZED, in_edges := es_clear (in_edges n),
     out_edges := es_clear (out_edges n), props := None, assigned_device_name := []\<rparr>"

section \<open>Building and changing a graph\<close>

definition set_node :: "ptr \<Rightarrow> 'a node \<Rightarrow> 'a graph \<Rightarrow> 'a graph" where
  "set_node p n g = g\<lparr>node_at := (node_at g)(p := n)\<rparr>"

definition set_edge :: "ptr \<Rightarrow> edge \<Rightarrow> 'a graph \<Rightarrow> 'a graph" where
  "set_edge p e g = g\<lparr>edge_at := (edge_at g)(p := e)\<rparr>"

definition FindNodeId :: "'a graph \<Rightarrow> nat \<Rightarrow> ptr option" where
  "FindNodeId g i = g_nodes g ! i"

definition source_node :: "'a graph \<Rightarrow> ptr" where "source_node g = the (FindNodeId g 0)"

definition sink_node :: "'a graph \<Rightarrow> ptr" where "sink_node g = the (FindNodeId g 1)"

definition IsValidNode :: "'a graph \<Rightarrow> ptr \<Rightarrow> bool" where
  "IsValidNode g p =
     (let i = n_id (node_at g p)
      in \<not> (i < 0 \<or> nat i \<ge> length (g_nodes g)) \<and> g_nodes g ! nat i = Some p)"

definition Alloc :: "'a graph \<Rightarrow> ptr \<times> 'a graph" where
  "Alloc g = (arena g (arena_used g), g\<lparr>arena_used := arena_used g + 1\<rparr>)"

definition take_node :: "'a graph \<Rightarrow> ptr \<times> 'a graph" where
  "take_node g =
     (if free_nodes g = [] then let (p, g) = Alloc g in (p, set_node p new_node g)
      else (last (free_nodes g), g\<lparr>free_nodes := butlast (free_nodes g)\<rparr>))"

definition AllocateNode :: "'a properties \<Rightarrow> 'a node option \<Rightarrow> 'a graph \<Rightarrow> (ptr \<times> 'a graph) option" where
  "AllocateNode pr cost_node g =
     (let (p, g) = take_node g;
          i = int (length (g_nodes g));
          cost = (case cost_node of None \<Rightarrow> i | Some n \<Rightarrow> cost_id n)
      in map_option (\<lambda>n. (p, (set_node p n g)\<lparr>g_nodes := g_nodes g @ [Some p], num_nodes := num_nodes g + 1\<rparr>))
           (Initialize i cost pr (node_at g p)))"

type_synonym 'a types_of = "'a node_def \<Rightarrow> code + (nat list \<times> nat list)"

definition AddNode :: "'a types_of \<Rightarrow> 'a node_def \<Rightarrow> 'a graph \<Rightarrow> (code + ptr \<times> 'a graph) option" where
  "AddNode types_of d g =
     (case types_of d of
        Inl e \<Rightarrow> Some (Inl e)
      | Inr (inputs, outputs) \<Rightarrow>
          map_option Inr (AllocateNode \<lparr>node_def = d, input_types = inputs, output_types = outputs\<rparr> None g))"

definition CopyNode :: "'a node \<Rightarrow> 'a graph \<Rightarrow> (ptr \<times> 'a graph) option" where
  "CopyNode n g =
     map_option (\<lambda>(p, g). (p, set_node p ((node_at g p)\<lparr>assigned_device_name := assigned_device_name n\<rparr>) g))
       (AllocateNode (the (props n)) (Some n) g)"

definition ReleaseNode :: "ptr \<Rightarrow> 'a graph \<Rightarrow> 'a graph" where
  "ReleaseNode p g =
     (set_node p (Clear_node (node_at g p)) g)
       \<lparr>g_nodes := (g_nodes g)[nat (n_id (node_at g p)) := None], free_nodes := free_nodes g @ [p], num_nodes := num_nodes g - 1\<rparr>"

definition take_edge :: "'a graph \<Rightarrow> ptr \<times> 'a graph" where
  "take_edge g =
     (if free_edges g = [] then Alloc g
      else (last (free_edges g), g\<lparr>free_edges := butlast (free_edges g)\<rparr>))"

definition AddEdge :: "ptr \<Rightarrow> int \<Rightarrow> ptr \<Rightarrow> int \<Rightarrow> 'a graph \<Rightarrow> (ptr \<times> 'a graph) option" where
  "AddEdge source x dest y g =
     (let (e, g) = take_edge g;
          g = set_edge e \<lparr>e_src = Some source, e_dst = Some dest, e_id = int (length (g_edges g)), src_output = x, dst_input = y\<rparr> g;
          (out, out_new) = es_insert e (out_edges (node_at g source));
          g = set_node source ((node_at g source)\<lparr>out_edges := out\<rparr>) g;
          (inn, in_new) = es_insert e (in_edges (node_at g dest));
          g = set_node dest ((node_at g dest)\<lparr>in_edges := inn\<rparr>) g
      in if \<not> out_new \<or> \<not> in_new then None
         else Some (e, g\<lparr>g_edges := g_edges g @ [Some e], edge_set := fst (es_insert e (edge_set g))\<rparr>))"

definition AddControlEdge :: "ptr \<Rightarrow> ptr \<Rightarrow> 'a graph \<Rightarrow> (ptr \<times> 'a graph) option" where
  "AddControlEdge source dest g = AddEdge source kControlSlot dest kControlSlot g"

definition RemoveEdge :: "ptr \<Rightarrow> 'a graph \<Rightarrow> 'a graph option" where
  "RemoveEdge e g =
     (let ed = edge_at g e; s = the (e_src ed); d = the (e_dst ed);
          (out, out_n) = es_erase e (out_edges (node_at g s));
          g = set_node s ((node_at g s)\<lparr>out_edges := out\<rparr>) g;
          (inn, in_n) = es_erase e (in_edges (node_at g d));
          g = set_node d ((node_at g d)\<lparr>in_edges := inn\<rparr>) g;
          (all, all_n) = es_erase e (edge_set g)
      in if out_n \<noteq> 1 \<or> in_n \<noteq> 1 \<or> \<not> (0 \<le> e_id ed \<and> nat (e_id ed) < length (g_edges g)) \<or>
            g_edges g ! nat (e_id ed) \<noteq> Some e \<or> all_n \<noteq> 1 then None
         else Some ((set_edge e \<lparr>e_src = None, e_dst = None, e_id = -1, src_output = kControlSlot - 1, dst_input = kControlSlot - 1\<rparr> g)
           \<lparr>edge_set := all, g_edges := (g_edges g)[nat (e_id ed) := None], free_edges := free_edges g @ [e]\<rparr>))"

text \<open>The two loops of \<open>RemoveNode\<close>; \<open>None\<close> also stands for a loop that does not end.\<close>

partial_function (option) remove_edges :: "('a node \<Rightarrow> edge_set) \<Rightarrow> ptr \<Rightarrow> 'a graph \<Rightarrow> 'a graph option" where
  [code]: "remove_edges sel p g =
     (if es_empty (sel (node_at g p)) then Some g
      else Option.bind (RemoveEdge (hd (es_iter (sel (node_at g p)))) g) (\<lambda>g. remove_edges sel p g))"

definition RemoveNode :: "ptr \<Rightarrow> 'a graph \<Rightarrow> 'a graph option" where
  "RemoveNode p g =
     Option.bind (remove_edges in_edges p g) (\<lambda>g. map_option (ReleaseNode p) (remove_edges out_edges p g))"

definition no_op :: "string \<Rightarrow> 'a \<Rightarrow> 'a node_def" where
  "no_op name attr = \<lparr>def_name = name, def_op = ''NoOp'', def_device = [], def_input = [], def_attr = attr\<rparr>"

text \<open>The constructor, for a given sequence of addresses; \<open>attr\<close> are the attributes of an empty definition.\<close>

definition Graph :: "'a types_of \<Rightarrow> 'a \<Rightarrow> (nat \<Rightarrow> ptr) \<Rightarrow> 'a graph option" where
  "Graph types_of attr addresses =
     (let g = \<lparr>node_at = (\<lambda>_. new_node), edge_at = (\<lambda>_. \<lparr>e_src = None, e_dst = None, e_id = -1, src_output = 0, dst_input = 0\<rparr>),
          arena = addresses, arena_used = 0, g_nodes = [], num_nodes = 0, g_edges = [], edge_set = EdgeSet,
          free_nodes = [], free_edges = [], name_counter = 0\<rparr>
      in case AddNode types_of (no_op ''_SOURCE'' attr) g of
           Some (Inr (source, g)) \<Rightarrow>
             if n_id (node_at g source) \<noteq> 0 then None
             else (case AddNode types_of (no_op ''_SINK'' attr) g of
                 Some (Inr (sink, g)) \<Rightarrow>
                   if n_id (node_at g sink) \<noteq> 1 then None else map_option snd (AddControlEdge source sink g)
               | _ \<Rightarrow> None)
         | _ \<Rightarrow> None)"

section \<open>Reading a graph\<close>

text \<open>The nodes from \<open>NodeIter(this, 0)\<close> to the end, and the neighbours of a node.\<close>

definition nodes :: "'a graph \<Rightarrow> ptr list" where
  "nodes g = map the (filter (\<lambda>x. x \<noteq> None) (g_nodes g))"

definition out_nodes :: "'a graph \<Rightarrow> ptr \<Rightarrow> ptr list" where
  "out_nodes g p = map (\<lambda>e. the (e_dst (edge_at g e))) (es_iter (out_edges (node_at g p)))"

definition in_nodes :: "'a graph \<Rightarrow> ptr \<Rightarrow> ptr list" where
  "in_nodes g p = map (\<lambda>e. the (e_src (edge_at g e))) (es_iter (in_edges (node_at g p)))"

definition input_edge :: "int \<Rightarrow> ptr \<Rightarrow> 'a graph \<Rightarrow> code + ptr" where
  "input_edge idx p g =
     (if idx < 0 \<or> idx \<ge> num_inputs (node_at g p) then Inl INVALID_ARGUMENT
      else case List.find (\<lambda>e. dst_input (edge_at g e) = idx) (es_iter (in_edges (node_at g p))) of
          Some e \<Rightarrow> Inr e
        | None \<Rightarrow> Inl NOT_FOUND)"

definition input_node :: "int \<Rightarrow> ptr \<Rightarrow> 'a graph \<Rightarrow> code + ptr" where
  "input_node idx p g = bind_status (input_edge idx p g) (\<lambda>e. Inr (the (e_src (edge_at g e))))"

end
