(* ===== verification/Graph_Inv.thy ===== *)
theory Graph_Inv
  imports Op_Graph
begin

text \<open>
  The invariant of the graph of operations, and what each operation of \<open>graph/graph.cc\<close> does to
  the numbered nodes and edges: no check fails, the sets at the nodes are exactly the edges that
  end there, and addresses are reused without mixing up nodes or edges.
\<close>

section \<open>The invariant\<close>

definition live :: "'b option list \<Rightarrow> 'b set" where
  "live xs = {p. Some p \<in> set xs}"

abbreviation live_nodes :: "'a graph \<Rightarrow> ptr set" where
  "live_nodes g \<equiv> live (g_nodes g)"

abbreviation live_edges :: "'a graph \<Rightarrow> ptr set" where
  "live_edges g \<equiv> live (g_edges g)"

text \<open>Everything at position \<open>i\<close> of a vector has the number \<open>i\<close>.\<close>

definition numbered :: "('b \<Rightarrow> int) \<Rightarrow> 'b option list \<Rightarrow> bool" where
  "numbered f xs \<longleftrightarrow> (\<forall>i < length xs. \<forall>p. xs ! i = Some p \<longrightarrow> f p = int i)"

text \<open>Live and free objects are allocated and different.\<close>

definition allocated :: "'a graph \<Rightarrow> ptr set" where
  "allocated g = arena g ` {..<arena_used g}"

definition pooled :: "'b set \<Rightarrow> 'b set \<Rightarrow> 'b list \<Rightarrow> bool" where
  "pooled alloc used free \<longleftrightarrow> used \<subseteq> alloc \<and> set free \<subseteq> alloc \<and> distinct free \<and> used \<inter> set free = {}"

definition node_ok :: "'a graph \<Rightarrow> ptr \<Rightarrow> bool" where
  "node_ok g p \<longleftrightarrow> good_es (in_edges (node_at g p)) \<and> good_es (out_edges (node_at g p)) \<and>
     set (es_iter (in_edges (node_at g p))) = {e \<in> live_edges g. e_dst (edge_at g e) = Some p} \<and>
     set (es_iter (out_edges (node_at g p))) = {e \<in> live_edges g. e_src (edge_at g e) = Some p} \<and>
     (\<exists>pr. props (node_at g p) = Some pr \<and> class_of (def_op (node_def pr)) = Some (n_class (node_at g p)))"

definition blank :: "'a node \<Rightarrow> bool" where
  "blank n \<longleftrightarrow> good_es (in_edges n) \<and> good_es (out_edges n) \<and> es_iter (in_edges n) = [] \<and> es_iter (out_edges n) = [] \<and>
     assigned_device_name n = []"

definition edge_ok :: "'a graph \<Rightarrow> ptr \<Rightarrow> bool" where
  "edge_ok g e \<longleftrightarrow> (\<exists>s \<in> live_nodes g. \<exists>d \<in> live_nodes g. e_src (edge_at g e) = Some s \<and> e_dst (edge_at g e) = Some d)"

definition wf_parts :: "'a graph \<Rightarrow> bool" where
  "wf_parts g \<longleftrightarrow> inj (arena g) \<and> numbered (\<lambda>p. n_id (node_at g p)) (g_nodes g) \<and> numbered (\<lambda>e. e_id (edge_at g e)) (g_edges g) \<and>
     pooled (allocated g) (live_nodes g) (free_nodes g) \<and> pooled (allocated g) (live_edges g) (free_edges g) \<and>
     (\<forall>p \<in> live_nodes g. node_ok g p) \<and> (\<forall>p \<in> set (free_nodes g). blank (node_at g p)) \<and>
     (\<forall>e \<in> live_edges g. edge_ok g e) \<and>
     good_es (edge_set g) \<and> set (es_iter (edge_set g)) = live_edges g \<and> num_nodes g = int (length (nodes g))"

text \<open>With source and sink, which have control edges only, as have control slots.\<close>

definition control_ok :: "ptr \<Rightarrow> ptr \<Rightarrow> edge \<Rightarrow> bool" where
  "control_ok source sink e \<longleftrightarrow> (e_src e = Some source \<or> e_dst e = Some sink \<longrightarrow> IsControlEdge e) \<and>
     (IsControlEdge e \<longleftrightarrow> dst_input e = kControlSlot)"

definition wf_graph :: "'a graph \<Rightarrow> bool" where
  "wf_graph g \<longleftrightarrow> wf_parts g \<and> 2 \<le> length (g_nodes g) \<and> g_nodes g ! 0 \<noteq> None \<and> g_nodes g ! 1 \<noteq> None \<and>
     (\<forall>e \<in> live_edges g. control_ok (source_node g) (sink_node g) (edge_at g e))"

lemma live_simps [simp]: "live [] = {}" "live (xs @ [Some p]) = insert p (live xs)"
  by (auto simp: live_def)

lemma live_at: "p \<in> live xs \<longleftrightarrow> (\<exists>i < length xs. xs ! i = Some p)"
  by (auto simp: live_def in_set_conv_nth)

lemma numbered_unique: "numbered f xs \<Longrightarrow> i < length xs \<Longrightarrow> xs ! i = Some p \<Longrightarrow> nat (f p) = i"
  by (simp add: numbered_def)

lemma numbered_at: "numbered f xs \<Longrightarrow> p \<in> live xs \<Longrightarrow> nat (f p) < length xs \<and> xs ! nat (f p) = Some p \<and> 0 \<le> f p"
  by (auto simp: numbered_def live_at)

lemma numbered_snoc: "numbered f xs \<Longrightarrow> f p = int (length xs) \<Longrightarrow> numbered f (xs @ [Some p])"
  by (auto simp: numbered_def nth_append)

lemma numbered_cong: "(\<And>p. p \<in> live xs \<Longrightarrow> f p = f' p) \<Longrightarrow> numbered f xs \<longleftrightarrow> numbered f' xs"
  by (fastforce simp: numbered_def live_at)

lemma numbered_remove:
  assumes "numbered f xs" "p \<in> live xs"
  shows "numbered f (xs[nat (f p) := None])" "live (xs[nat (f p) := None]) = live xs - {p}"
proof -
  have n: "nat (f p) < length xs" "xs ! nat (f p) = Some p" using numbered_at [OF assms] by auto
  show "numbered f (xs[nat (f p) := None])" 
    unfolding numbered_def
  proof (intro allI impI)
    fix i q assume i: "i < length (xs[nat (f p) := None])" "xs[nat (f p) := None] ! i = Some q"
    then have "xs ! i = Some q" using n(1) by (cases "i = nat (f p)") auto
    then show "f q = int i" using assms(1) i(1) by (simp add: numbered_def)
  qed
  show "live (xs[nat (f p) := None]) = live xs - {p}"
  proof (intro equalityI subsetI)
    fix q assume "q \<in> live (xs[nat (f p) := None])"
    then obtain i where "i < length xs" "xs[nat (f p) := None] ! i = Some q" by (auto simp: live_at)
    then have i: "i < length xs" "i \<noteq> nat (f p)" "xs ! i = Some q" using n(1) by (cases "i = nat (f p)"; simp)+
    then have "nat (f q) = i" using numbered_unique [OF assms(1)] by blast
    then show "q \<in> live xs - {p}" using i by (auto simp: live_at)
  next
    fix q assume "q \<in> live xs - {p}"
    then obtain i where i: "i < length xs" "xs ! i = Some q" "q \<noteq> p" by (auto simp: live_at)
    then have "i \<noteq> nat (f p)" using n by auto
    then show "q \<in> live (xs[nat (f p) := None])" using i by (auto simp: live_at intro!: exI [of _ i])
  qed
qed

text \<open>The vector without the objects of some kind.\<close>

definition drop_slots :: "('b \<Rightarrow> bool) \<Rightarrow> 'b option list \<Rightarrow> 'b option list" where
  "drop_slots P xs = map (\<lambda>x. case x of None \<Rightarrow> None | Some p \<Rightarrow> if P p then None else Some p) xs"

lemma live_drop [simp]: "live (drop_slots P xs) = {p \<in> live xs. \<not> P p}"
  by (force simp: live_def drop_slots_def split: option.splits if_splits)

lemma drop_drop [simp]: "drop_slots P (drop_slots Q xs) = drop_slots (\<lambda>p. P p \<or> Q p) xs"
  by (auto simp: drop_slots_def split: option.splits)

lemma drop_cong: "(\<And>p. p \<in> live xs \<Longrightarrow> P p \<longleftrightarrow> Q p) \<Longrightarrow> drop_slots P xs = drop_slots Q xs"
  by (auto simp: drop_slots_def live_def split: option.splits)

lemma drop_none: "(\<And>p. p \<in> live xs \<Longrightarrow> \<not> P p) \<Longrightarrow> drop_slots P xs = xs"
  by (auto simp: drop_slots_def live_def split: option.splits intro!: map_idI)

lemma length_drop [simp]: "length (drop_slots P xs) = length xs"
  by (simp add: drop_slots_def)

lemma numbered_update:
  assumes "numbered f xs" "p \<in> live xs"
  shows "xs[nat (f p) := None] = drop_slots (\<lambda>q. q = p) xs"
proof (rule nth_equalityI)
  fix i assume i: "i < length (xs[nat (f p) := None])"
  show "xs[nat (f p) := None] ! i = drop_slots (\<lambda>q. q = p) xs ! i"
  proof (cases "xs ! i")
    case (Some q)
    then have "nat (f q) = i" using numbered_unique [OF assms(1)] i by auto
    moreover have "nat (f p) = nat (f q) \<longrightarrow> q = p" using Some calculation numbered_at [OF assms] by auto
    ultimately show ?thesis using Some i numbered_at [OF assms] by (cases "q = p") (auto simp: drop_slots_def nth_list_update)
  qed (use i numbered_at [OF assms] in \<open>auto simp: drop_slots_def nth_list_update\<close>)
qed simp

lemma nodes_live: "set (nodes g) = live_nodes g"
  by (force simp: nodes_def live_def image_iff)

lemma nodes_snoc: "g_nodes g' = g_nodes g @ [Some p] \<Longrightarrow> nodes g' = nodes g @ [p]"
  by (simp add: nodes_def)

lemma filter_update: "i < length xs \<Longrightarrow> P (xs ! i) \<Longrightarrow> \<not> P x \<Longrightarrow> length (filter P xs) = Suc (length (filter P (xs[i := x])))"
  by (induction xs arbitrary: i) (auto simp: nth_Cons split: nat.splits)

lemma nodes_distinct:
  assumes "numbered f (g_nodes g)"
  shows "distinct (nodes g)"
proof -
  have "distinct (map the (filter (\<lambda>x. x \<noteq> None) xs))" if "numbered f' xs" for xs :: "ptr option list" and f'
    using that
  proof (induction xs arbitrary: f' rule: rev_induct)
    case (snoc x xs)
    have n: "numbered f' xs" using snoc.prems by (auto simp: numbered_def nth_append)
    show ?case
    proof (cases x)
      case (Some p)
      have "p \<notin> live xs"
      proof
        assume "p \<in> live xs"
        then have "nat (f' p) < length xs" using numbered_at [OF n] by blast
        moreover have "f' p = int (length xs)" using snoc.prems Some by (auto simp: numbered_def nth_append)
        ultimately show False by simp
      qed
      then show ?thesis using snoc.IH [OF n] Some by (force simp: live_def)
    qed (use snoc.IH [OF n] in simp)
  qed simp
  then show ?thesis using assms unfolding nodes_def by blast
qed

lemma allocated_Suc: "arena g' = arena g \<Longrightarrow> arena_used g' = Suc (arena_used g) \<Longrightarrow> allocated g' = insert (arena g (arena_used g)) (allocated g)"
  by (auto simp: allocated_def less_Suc_eq)

lemma allocated_fresh: "inj (arena g) \<Longrightarrow> arena g (arena_used g) \<notin> allocated g"
  by (auto simp: allocated_def dest: injD)

lemma pooled_fresh: "pooled A used free \<Longrightarrow> p \<notin> A \<Longrightarrow> pooled (insert p A) (insert p used) free \<and> pooled (insert p A) used free \<and> p \<notin> used"
  by (auto simp: pooled_def)

lemma pooled_reuse:
  assumes "pooled A used free" "free \<noteq> []"
  shows "pooled A (insert (last free) used) (butlast free)" "last free \<notin> used"
  using assms by (cases free rule: rev_cases; auto simp: pooled_def)+

lemma pooled_release: "pooled A used free \<Longrightarrow> p \<in> used \<Longrightarrow> pooled A (used - {p}) (free @ [p])"
  by (auto simp: pooled_def)

section \<open>Edges\<close>

text \<open>What stays the same when edges are added or removed: all but the edge sets of the nodes.\<close>

definition node_data :: "'a node \<Rightarrow> int \<times> int \<times> node_class \<times> 'a properties option \<times> string" where
  "node_data n = (n_id n, cost_id n, n_class n, props n, assigned_device_name n)"

definition same_nodes :: "'a graph \<Rightarrow> 'a graph \<Rightarrow> bool" where
  "same_nodes g g' \<longleftrightarrow> g_nodes g' = g_nodes g \<and> (\<forall>p. node_data (node_at g' p) = node_data (node_at g p)) \<and> name_counter g' = name_counter g"

lemma take_edge_ok:
  assumes "wf_parts g" "take_edge g = (e, g1)"
  shows "e \<notin> live_edges g" "g1 = g\<lparr>arena_used := arena_used g1, free_edges := free_edges g1\<rparr>"
    "pooled (allocated g1) (insert e (live_edges g)) (free_edges g1)" "pooled (allocated g1) (live_nodes g) (free_nodes g)"
proof -
  have p: "pooled (allocated g) (live_edges g) (free_edges g)" "pooled (allocated g) (live_nodes g) (free_nodes g)" "inj (arena g)"
    using assms(1) by (simp_all add: wf_parts_def)
  show "g1 = g\<lparr>arena_used := arena_used g1, free_edges := free_edges g1\<rparr>"
    using assms(2) by (auto simp: take_edge_def Alloc_def split: if_splits)
  have "e \<notin> live_edges g \<and> pooled (allocated g1) (insert e (live_edges g)) (free_edges g1) \<and> pooled (allocated g1) (live_nodes g) (free_nodes g)"
  proof (cases "free_edges g = []")
    case True
    then have e: "e = arena g (arena_used g)" "arena g1 = arena g" "arena_used g1 = Suc (arena_used g)" "free_edges g1 = free_edges g"
      using assms(2) by (auto simp: take_edge_def Alloc_def)
    then show ?thesis
      using pooled_fresh [OF p(1) allocated_fresh [OF p(3)]] pooled_fresh [OF p(2) allocated_fresh [OF p(3)]]
      by (simp add: allocated_Suc [OF e(2,3)])
  next
    case False
    then have e: "e = last (free_edges g)" "allocated g1 = allocated g" "free_edges g1 = butlast (free_edges g)"
      using assms(2) by (auto simp: take_edge_def allocated_def)
    then show ?thesis using p pooled_reuse [OF p(1) False] by simp
  qed
  then show "e \<notin> live_edges g" "pooled (allocated g1) (insert e (live_edges g)) (free_edges g1)" "pooled (allocated g1) (live_nodes g) (free_nodes g)"
    by blast+
qed

lemma AddEdge_ok:
  assumes wf: "wf_parts g" and s: "s \<in> live_nodes g" and d: "d \<in> live_nodes g"
  shows "\<exists>e g'. AddEdge s x d y g = Some (e, g') \<and> wf_parts g' \<and> same_nodes g g' \<and> e \<notin> live_edges g \<and>
    g_edges g' = g_edges g @ [Some e] \<and>
    edge_at g' = (edge_at g)(e := \<lparr>e_src = Some s, e_dst = Some d, e_id = int (length (g_edges g)), src_output = x, dst_input = y\<rparr>)"
proof -
  obtain e g1 where t: "take_edge g = (e, g1)" by (cases "take_edge g")
  note te = take_edge_ok [OF wf t]
  define ed where "ed = \<lparr>e_src = Some s, e_dst = Some d, e_id = int (length (g_edges g)), src_output = x, dst_input = y\<rparr>"
  have g1: "node_at g1 = node_at g" "edge_at g1 = edge_at g" "g_nodes g1 = g_nodes g" "g_edges g1 = g_edges g" "edge_set g1 = edge_set g"
    "free_nodes g1 = free_nodes g" "num_nodes g1 = num_nodes g" "arena g1 = arena g" "name_counter g1 = name_counter g"
    by (subst te(2), simp)+
  have ok: "node_ok g s" "node_ok g d" using wf s d by (auto simp: wf_parts_def)
  obtain out where out: "es_insert e (out_edges (node_at g s)) = (out, True)" "good_es out" "set (es_iter out) = insert e (set (es_iter (out_edges (node_at g s))))"
    using es.ins_new [of "out_edges (node_at g s)" e] ok(1) te(1) by (auto simp: node_ok_def)
  obtain inn where inn: "es_insert e (in_edges (node_at g d)) = (inn, True)" "good_es inn" "set (es_iter inn) = insert e (set (es_iter (in_edges (node_at g d))))"
    using es.ins_new [of "in_edges (node_at g d)" e] ok(2) te(1) by (auto simp: node_ok_def)
  obtain all where all: "fst (es_insert e (edge_set g)) = all" "good_es all" "set (es_iter all) = insert e (live_edges g)"
    using wf es.ins_good [of "edge_set g" e] es.ins_elems [of "edge_set g" e] by (auto simp: wf_parts_def)
  define na where "na = (\<lambda>p. (node_at g p)\<lparr>out_edges := if p = s then out else out_edges (node_at g p),
      in_edges := if p = d then inn else in_edges (node_at g p)\<rparr>)"
  define g' where "g' = g1\<lparr>node_at := na, edge_at := (edge_at g)(e := ed), g_edges := g_edges g @ [Some e], edge_set := all\<rparr>"
  have same: "same_nodes g g'" by (simp add: same_nodes_def g'_def g1 na_def node_data_def)
  have "AddEdge s x d y g = Some (e, g')"
  proof -
    have "((node_at g)(s := (node_at g s)\<lparr>out_edges := out\<rparr>, d := (((node_at g)(s := (node_at g s)\<lparr>out_edges := out\<rparr>)) d)\<lparr>in_edges := inn\<rparr>)) = na"
      by (auto simp: na_def fun_eq_iff)
    moreover have "in_edges (((node_at g)(s := (node_at g s)\<lparr>out_edges := out\<rparr>)) d) = in_edges (node_at g d)" by simp
    ultimately show ?thesis
      by (simp add: AddEdge_def t g1 set_node_def set_edge_def out(1) inn(1) all(1) g'_def ed_def Let_def del: fun_upd_apply)
  qed
  moreover have "wf_parts g'"
  proof -
    have L: "live_edges g' = insert e (live_edges g)" "live_nodes g' = live_nodes g" by (simp_all add: g'_def g1)
    have ea: "edge_at g' e = ed" "\<And>e'. e' \<in> live_edges g \<Longrightarrow> edge_at g' e' = edge_at g e'" using te(1) by (auto simp: g'_def)
    have "node_ok g' p" if "p \<in> live_nodes g" for p
    proof -
      have "node_ok g p" using wf that by (simp add: wf_parts_def)
      then show ?thesis
        using out(2,3) inn(2,3) te(1) by (auto simp: node_ok_def L g'_def na_def ed_def)
    qed
    moreover have "edge_ok g' e'" if "e' \<in> live_edges g'" for e'
    proof (cases "e' = e")
      case False
      then have "edge_ok g e'" using that wf by (auto simp: L wf_parts_def)
      then show ?thesis using False unfolding edge_ok_def L by (simp add: g'_def)
    qed (use s d in \<open>simp add: edge_ok_def L ea ed_def\<close>)
    moreover have "blank (node_at g' p)" if "p \<in> set (free_nodes g)" for p
    proof -
      have "p \<noteq> s" "p \<noteq> d" using that s d wf by (auto simp: wf_parts_def pooled_def)
      then show ?thesis using wf that by (simp add: wf_parts_def blank_def g'_def na_def)
    qed
    moreover have "numbered (\<lambda>p. n_id (node_at g' p)) (g_nodes g')"
      using wf by (simp add: wf_parts_def g'_def g1 na_def)
    moreover have "numbered (\<lambda>e. e_id (edge_at g' e)) (g_edges g')"
    proof -
      have "numbered (\<lambda>e. e_id (edge_at g' e)) (g_edges g)"
        using wf ea(2) numbered_cong [of "g_edges g" "\<lambda>e. e_id (edge_at g' e)" "\<lambda>e. e_id (edge_at g e)"] by (simp add: wf_parts_def)
      then have "numbered (\<lambda>e. e_id (edge_at g' e)) (g_edges g @ [Some e])" by (rule numbered_snoc) (simp add: ea ed_def)
      then show ?thesis by (simp add: g'_def)
    qed
    moreover have "allocated g' = allocated g1" by (simp add: allocated_def g'_def)
    moreover have "nodes g' = nodes g" by (simp add: nodes_def g'_def g1)
    ultimately show ?thesis
      using wf te all unfolding wf_parts_def L by (simp add: g'_def g1)
  qed
  ultimately show ?thesis using same te(1) by (intro exI conjI) (assumption | simp add: g'_def ed_def)+
qed

lemma RemoveEdge_ok:
  assumes wf: "wf_parts g" and e: "e \<in> live_edges g"
  shows "\<exists>g'. RemoveEdge e g = Some g' \<and> wf_parts g' \<and> same_nodes g g' \<and>
    g_edges g' = drop_slots (\<lambda>e'. e' = e) (g_edges g) \<and>
    (\<forall>e'. e' \<noteq> e \<longrightarrow> edge_at g' e' = edge_at g e')"
proof -
  have num: "numbered (\<lambda>e. e_id (edge_at g e)) (g_edges g)" using wf by (simp add: wf_parts_def)
  note at = numbered_at [OF num e] and rem = numbered_remove [OF num e]
  obtain s d where sd: "e_src (edge_at g e) = Some s" "e_dst (edge_at g e) = Some d" "s \<in> live_nodes g" "d \<in> live_nodes g"
    using wf e by (auto simp: wf_parts_def edge_ok_def)
  have ok: "node_ok g s" "node_ok g d" using wf sd by (auto simp: wf_parts_def)
  obtain out where out: "es_erase e (out_edges (node_at g s)) = (out, 1)" "good_es out" "set (es_iter out) = set (es_iter (out_edges (node_at g s))) - {e}"
    using es.del_old [of "out_edges (node_at g s)" e] ok(1) e sd by (auto simp: node_ok_def)
  obtain inn where inn: "es_erase e (in_edges (node_at g d)) = (inn, 1)" "good_es inn" "set (es_iter inn) = set (es_iter (in_edges (node_at g d))) - {e}"
    using es.del_old [of "in_edges (node_at g d)" e] ok(2) e sd by (auto simp: node_ok_def)
  obtain all where all: "es_erase e (edge_set g) = (all, 1)" "good_es all" "set (es_iter all) = live_edges g - {e}"
    using es.del_old [of "edge_set g" e] wf e by (auto simp: wf_parts_def)
  define na where "na = (\<lambda>p. (node_at g p)\<lparr>out_edges := if p = s then out else out_edges (node_at g p),
      in_edges := if p = d then inn else in_edges (node_at g p)\<rparr>)"
  define ed where "ed = \<lparr>e_src = None, e_dst = None, e_id = -1, src_output = kControlSlot - 1, dst_input = kControlSlot - 1\<rparr>"
  define g' where "g' = g\<lparr>node_at := na, edge_at := (edge_at g)(e := ed), edge_set := all,
      g_edges := (g_edges g)[nat (e_id (edge_at g e)) := None], free_edges := free_edges g @ [e]\<rparr>"
  have same: "same_nodes g g'" by (simp add: same_nodes_def g'_def na_def node_data_def)
  have "RemoveEdge e g = Some g'"
  proof -
    have "((node_at g)(s := (node_at g s)\<lparr>out_edges := out\<rparr>, d := (((node_at g)(s := (node_at g s)\<lparr>out_edges := out\<rparr>)) d)\<lparr>in_edges := inn\<rparr>)) = na"
      by (auto simp: na_def fun_eq_iff)
    moreover have "in_edges (((node_at g)(s := (node_at g s)\<lparr>out_edges := out\<rparr>)) d) = in_edges (node_at g d)" by simp
    ultimately show ?thesis
      using at by (simp add: RemoveEdge_def sd(1,2) set_node_def set_edge_def out(1) inn(1) all(1) g'_def ed_def Let_def del: fun_upd_apply)
  qed
  moreover have "wf_parts g'"
  proof -
    have L: "live_edges g' = live_edges g - {e}" "live_nodes g' = live_nodes g" using rem(2) by (simp_all add: g'_def)
    have ea: "\<And>e'. e' \<noteq> e \<Longrightarrow> edge_at g' e' = edge_at g e'" by (auto simp: g'_def)
    have "node_ok g' p" if "p \<in> live_nodes g" for p
    proof -
      have "node_ok g p" using wf that by (simp add: wf_parts_def)
      then show ?thesis
        using out(2,3) inn(2,3) sd(1,2) unfolding node_ok_def L by (auto simp: g'_def na_def)
    qed
    moreover have "edge_ok g' e'" if "e' \<in> live_edges g - {e}" for e'
    proof -
      have "edge_ok g e'" using that wf by (auto simp: wf_parts_def)
      then show ?thesis using that unfolding edge_ok_def L by (simp add: g'_def)
    qed
    moreover have "blank (node_at g' p)" if "p \<in> set (free_nodes g)" for p
    proof -
      have "p \<noteq> s" "p \<noteq> d" using that sd wf by (auto simp: wf_parts_def pooled_def)
      then show ?thesis using wf that by (simp add: wf_parts_def blank_def g'_def na_def)
    qed
    moreover have "numbered (\<lambda>p. n_id (node_at g' p)) (g_nodes g')"
      using wf by (simp add: wf_parts_def g'_def na_def)
    moreover have "numbered (\<lambda>e. e_id (edge_at g' e)) (g_edges g')"
    proof -
      have "e' \<noteq> e" if "e' \<in> live ((g_edges g)[nat (e_id (edge_at g e)) := None])" for e' using that rem(2) by auto
      then show ?thesis
        using rem(1) numbered_cong [of "g_edges g'" "\<lambda>e. e_id (edge_at g' e)" "\<lambda>e. e_id (edge_at g e)"] by (simp add: g'_def)
    qed
    moreover have "allocated g' = allocated g" by (simp add: allocated_def g'_def)
    moreover have "nodes g' = nodes g" by (simp add: nodes_def g'_def)
    moreover have "pooled (allocated g) (live_edges g - {e}) (free_edges g @ [e])"
      using wf e by (intro pooled_release) (auto simp: wf_parts_def)
    ultimately show ?thesis
      using wf all unfolding wf_parts_def L by (simp add: g'_def)
  qed
  ultimately show ?thesis using same numbered_update [OF num e] by (intro exI conjI) (assumption | simp add: g'_def)+
qed

lemma same_nodes_trans: "same_nodes g g' \<Longrightarrow> same_nodes g' g'' \<Longrightarrow> same_nodes g g''"
  by (simp add: same_nodes_def)

lemma same_nodes_refl [simp]: "same_nodes g g"
  by (simp add: same_nodes_def)

lemma finite_live [simp]: "finite (live xs)"
  by (rule finite_subset [of _ "the ` set xs"]) (force simp: live_def image_iff)+

lemma remove_edges_ok:
  fixes g :: "'a graph"
  assumes sel: "\<And>g :: 'a graph. node_ok g p \<Longrightarrow> good_es (sel (node_at g p)) \<and> set (es_iter (sel (node_at g p))) = {e \<in> live_edges g. fin (edge_at g e) = Some p}"
    and "wf_parts g" "p \<in> live_nodes g"
  shows "\<exists>g'. remove_edges sel p g = Some g' \<and> wf_parts g' \<and> same_nodes g g' \<and>
    g_edges g' = drop_slots (\<lambda>e. fin (edge_at g e) = Some p) (g_edges g) \<and> (\<forall>e \<in> live_edges g'. edge_at g' e = edge_at g e)"
  using assms(2,3)
proof (induction "card {e \<in> live_edges g. fin (edge_at g e) = Some p}" arbitrary: g)
  case 0
  then have none: "{e \<in> live_edges g. fin (edge_at g e) = Some p} = {}" by simp
  have "node_ok g p" using 0 by (simp add: wf_parts_def)
  then have "es_empty (sel (node_at g p))" using sel [of g] none by (simp add: es_empty_iter)
  moreover have "drop_slots (\<lambda>e. fin (edge_at g e) = Some p) (g_edges g) = g_edges g" using none by (intro drop_none) auto
  ultimately show ?case using 0 by (subst remove_edges.simps) simp
next
  case (Suc n)
  have "node_ok g p" using Suc.prems by (simp add: wf_parts_def)
  note s = sel [OF this]
  have ne: "es_iter (sel (node_at g p)) \<noteq> []" using s Suc.hyps(2) by (metis Zero_not_Suc card.empty list.set(1))
  define e where "e = hd (es_iter (sel (node_at g p)))"
  have e: "e \<in> live_edges g" "fin (edge_at g e) = Some p" using s hd_in_set [OF ne] by (auto simp: e_def)
  obtain g1 where g1: "RemoveEdge e g = Some g1" "wf_parts g1" "same_nodes g g1" "g_edges g1 = drop_slots (\<lambda>e'. e' = e) (g_edges g)"
      "\<And>e'. e' \<noteq> e \<Longrightarrow> edge_at g1 e' = edge_at g e'"
    using RemoveEdge_ok [OF Suc.prems(1) e(1)] by blast
  have p1: "p \<in> live_nodes g1" using Suc.prems(2) g1(3) by (simp add: same_nodes_def)
  have "{e' \<in> live_edges g1. fin (edge_at g1 e') = Some p} = {e \<in> live_edges g. fin (edge_at g e) = Some p} - {e}"
    using g1(4,5) by auto
  then have "n = card {e' \<in> live_edges g1. fin (edge_at g1 e') = Some p}" using Suc.hyps(2) e by simp
  from Suc.hyps(1) [OF this g1(2) p1] obtain g' where g': "remove_edges sel p g1 = Some g'" "wf_parts g'" "same_nodes g1 g'"
      "g_edges g' = drop_slots (\<lambda>e. fin (edge_at g1 e) = Some p) (g_edges g1)" "\<And>e. e \<in> live_edges g' \<Longrightarrow> edge_at g' e = edge_at g1 e"
    by blast
  have "remove_edges sel p g = Some g'"
    using ne s g'(1) g1(1) by (subst remove_edges.simps) (simp add: es_empty_iter flip: e_def)
  moreover have "g_edges g' = drop_slots (\<lambda>e. fin (edge_at g e) = Some p) (g_edges g)"
  proof -
    have "g_edges g' = drop_slots (\<lambda>e'. fin (edge_at g1 e') = Some p \<or> e' = e) (g_edges g)" by (simp add: g'(4) g1(4))
    also have "\<dots> = drop_slots (\<lambda>e. fin (edge_at g e) = Some p) (g_edges g)"
    proof (rule drop_cong)
      fix e'
      show "fin (edge_at g1 e') = Some p \<or> e' = e \<longleftrightarrow> fin (edge_at g e') = Some p" using g1(5) [of e'] e(2) by (cases "e' = e") auto
    qed
    finally show ?thesis .
  qed
  moreover have "edge_at g' e' = edge_at g e'" if "e' \<in> live_edges g'" for e'
    using that g'(4,5) g1(4,5) by auto
  ultimately show ?case using g'(2) same_nodes_trans [OF g1(3) g'(3)] by blast
qed

section \<open>Nodes\<close>

lemma take_node_ok:
  assumes "wf_parts g" "take_node g = (p, g1)"
  shows "p \<notin> live_nodes g" "g1 = g\<lparr>node_at := node_at g1, arena_used := arena_used g1, free_nodes := free_nodes g1\<rparr>"
    "\<And>q. q \<noteq> p \<Longrightarrow> node_at g1 q = node_at g q" "blank (node_at g1 p)" "p \<notin> set (free_nodes g1)" "set (free_nodes g1) \<subseteq> set (free_nodes g)"
    "pooled (allocated g1) (insert p (live_nodes g)) (free_nodes g1)" "pooled (allocated g1) (live_edges g) (free_edges g)"
proof -
  have w: "pooled (allocated g) (live_edges g) (free_edges g)" "pooled (allocated g) (live_nodes g) (free_nodes g)" "inj (arena g)"
    using assms(1) by (simp_all add: wf_parts_def)
  show "g1 = g\<lparr>node_at := node_at g1, arena_used := arena_used g1, free_nodes := free_nodes g1\<rparr>"
    "\<And>q. q \<noteq> p \<Longrightarrow> node_at g1 q = node_at g q"
    using assms(2) by (auto simp: take_node_def Alloc_def set_node_def split: if_splits)
  have "p \<notin> live_nodes g \<and> pooled (allocated g1) (insert p (live_nodes g)) (free_nodes g1) \<and> pooled (allocated g1) (live_edges g) (free_edges g) \<and>
    blank (node_at g1 p) \<and> set (free_nodes g1) \<subseteq> set (free_nodes g)"
  proof (cases "free_nodes g = []")
    case True
    then have e: "p = arena g (arena_used g)" "arena g1 = arena g" "arena_used g1 = Suc (arena_used g)" "free_nodes g1 = free_nodes g" "node_at g1 p = new_node"
      using assms(2) by (auto simp: take_node_def Alloc_def set_node_def)
    then show ?thesis
      using pooled_fresh [OF w(1) allocated_fresh [OF w(3)]] pooled_fresh [OF w(2) allocated_fresh [OF w(3)]]
      by (simp add: allocated_Suc [OF e(2,3)] blank_def new_node_def)
  next
    case False
    then have e: "p = last (free_nodes g)" "allocated g1 = allocated g" "free_nodes g1 = butlast (free_nodes g)" "node_at g1 p = node_at g p"
      using assms(2) by (auto simp: take_node_def allocated_def)
    then show ?thesis
      using w pooled_reuse [OF w(2) False] assms(1) last_in_set [OF False] by (auto simp: wf_parts_def dest: in_set_butlastD)
  qed
  then show "p \<notin> live_nodes g" "blank (node_at g1 p)" "set (free_nodes g1) \<subseteq> set (free_nodes g)"
    "pooled (allocated g1) (insert p (live_nodes g)) (free_nodes g1)" "pooled (allocated g1) (live_edges g) (free_edges g)"
    by blast+
  then show "p \<notin> set (free_nodes g1)" by (auto simp: pooled_def)
qed

lemma AllocateNode_ok:
  assumes wf: "wf_parts g" and c: "class_of (def_op (node_def pr)) = Some c"
  defines "i \<equiv> int (length (g_nodes g))"
  shows "\<exists>p g'. AllocateNode pr cost_node g = Some (p, g') \<and> wf_parts g' \<and> p \<notin> live_nodes g \<and>
    g_nodes g' = g_nodes g @ [Some p] \<and> g_edges g' = g_edges g \<and> edge_at g' = edge_at g \<and> name_counter g' = name_counter g \<and>
    (\<forall>q. q \<noteq> p \<longrightarrow> node_at g' q = node_at g q) \<and>
    node_data (node_at g' p) = (i, case cost_node of None \<Rightarrow> i | Some n \<Rightarrow> cost_id n, c, Some pr, [])"
proof -
  obtain p g1 where t: "take_node g = (p, g1)" by (cases "take_node g")
  note tn = take_node_ok [OF wf t]
  define cost where "cost = (case cost_node of None \<Rightarrow> i | Some n \<Rightarrow> cost_id n)"
  have g1: "edge_at g1 = edge_at g" "g_nodes g1 = g_nodes g" "g_edges g1 = g_edges g" "edge_set g1 = edge_set g"
    "free_edges g1 = free_edges g" "num_nodes g1 = num_nodes g" "arena g1 = arena g" "name_counter g1 = name_counter g"
    by (subst tn(2), simp)+
  define n where "n = (node_at g1 p)\<lparr>n_id := i, cost_id := cost, n_class := c, props := Some pr\<rparr>"
  define g' where "g' = (set_node p n g1)\<lparr>g_nodes := g_nodes g @ [Some p], num_nodes := num_nodes g + 1\<rparr>"
  have na: "node_at g' p = n" "\<And>q. q \<noteq> p \<Longrightarrow> node_at g' q = node_at g q" using tn(3) by (auto simp: g'_def set_node_def)
  have "AllocateNode pr cost_node g = Some (p, g')"
    by (cases cost_node) (simp_all add: AllocateNode_def t g1 Initialize_def c g'_def n_def i_def cost_def Let_def)
  moreover have "wf_parts g'"
  proof -
    have L: "live_edges g' = live_edges g" "live_nodes g' = insert p (live_nodes g)" by (simp_all add: g'_def set_node_def g1)
    have ea: "edge_at g' = edge_at g" by (simp add: g'_def set_node_def g1)
    have blank: "blank n" using tn(4) by (simp add: blank_def n_def)
    have ends: "e_src (edge_at g e) \<noteq> Some p \<and> e_dst (edge_at g e) \<noteq> Some p" if "e \<in> live_edges g" for e
      using that wf tn(1) by (auto simp: wf_parts_def edge_ok_def)
    have "node_ok g' q" if "q \<in> live_nodes g'" for q
    proof (cases "q = p")
      case True
      then show ?thesis using blank ends c unfolding node_ok_def L ea True na(1) by (auto simp: blank_def n_def)
    next
      case False
      then have "node_ok g q" using wf that by (simp add: wf_parts_def L)
      then show ?thesis using na(2) [OF False] unfolding node_ok_def L ea by simp
    qed
    moreover have "edge_ok g' e" if "e \<in> live_edges g" for e
    proof -
      have "edge_ok g e" using that wf by (auto simp: wf_parts_def)
      then show ?thesis unfolding edge_ok_def L ea by blast
    qed
    moreover have "blank (node_at g' q)" if "q \<in> set (free_nodes g1)" for q
    proof -
      have "q \<noteq> p" "q \<in> set (free_nodes g)" using that tn(5,6) by auto
      then show ?thesis using wf na(2) by (simp add: wf_parts_def)
    qed
    moreover have "numbered (\<lambda>q. n_id (node_at g' q)) (g_nodes g')"
    proof -
      have "n_id (node_at g' q) = n_id (node_at g q)" if "q \<in> live_nodes g" for q
      proof -
        have "q \<noteq> p" using that tn(1) by blast
        then show ?thesis by (simp add: na(2))
      qed
      then have "numbered (\<lambda>q. n_id (node_at g' q)) (g_nodes g)"
        using wf numbered_cong [of "g_nodes g" "\<lambda>q. n_id (node_at g' q)" "\<lambda>q. n_id (node_at g q)"] by (simp add: wf_parts_def)
      then have "numbered (\<lambda>q. n_id (node_at g' q)) (g_nodes g @ [Some p])" by (rule numbered_snoc) (simp add: na(1) n_def i_def)
      then show ?thesis by (simp add: g'_def)
    qed
    moreover have "numbered (\<lambda>e. e_id (edge_at g' e)) (g_edges g')" using wf by (simp add: wf_parts_def g'_def set_node_def g1)
    moreover have "allocated g' = allocated g1" "free_nodes g' = free_nodes g1" by (simp_all add: allocated_def g'_def set_node_def)
    moreover have "nodes g' = nodes g @ [p]" by (rule nodes_snoc) (simp add: g'_def)
    ultimately show ?thesis
      using wf tn unfolding wf_parts_def L by (simp add: g'_def g1 set_node_def)
  qed
  moreover have "node_data (node_at g' p) = (i, cost, c, Some pr, [])" using tn(4) by (simp add: na(1) n_def node_data_def blank_def)
  moreover have "g_edges g' = g_edges g" "edge_at g' = edge_at g" "name_counter g' = name_counter g" "g_nodes g' = g_nodes g @ [Some p]"
    by (simp_all add: g'_def set_node_def g1)
  ultimately show ?thesis using tn(1) na(2) unfolding cost_def by blast
qed

lemma ReleaseNode_ok:
  assumes wf: "wf_parts g" and p: "p \<in> live_nodes g"
    and no: "\<And>e. e \<in> live_edges g \<Longrightarrow> e_src (edge_at g e) \<noteq> Some p \<and> e_dst (edge_at g e) \<noteq> Some p"
  shows "wf_parts (ReleaseNode p g)" "g_nodes (ReleaseNode p g) = drop_slots (\<lambda>q. q = p) (g_nodes g)"
    "\<And>q. q \<noteq> p \<Longrightarrow> node_at (ReleaseNode p g) q = node_at g q"
    "g_edges (ReleaseNode p g) = g_edges g" "edge_at (ReleaseNode p g) = edge_at g" "name_counter (ReleaseNode p g) = name_counter g"
proof -
  have num: "numbered (\<lambda>p. n_id (node_at g p)) (g_nodes g)" using wf by (simp add: wf_parts_def)
  note at = numbered_at [OF num p] and rem = numbered_remove [OF num p] and upd = numbered_update [OF num p]
  let ?g = "ReleaseNode p g"
  show slots: "g_nodes ?g = drop_slots (\<lambda>q. q = p) (g_nodes g)" using upd by (simp add: ReleaseNode_def set_node_def)
  show na: "\<And>q. q \<noteq> p \<Longrightarrow> node_at ?g q = node_at g q" by (simp add: ReleaseNode_def set_node_def)
  show same: "g_edges ?g = g_edges g" "edge_at ?g = edge_at g" "name_counter ?g = name_counter g"
    by (simp_all add: ReleaseNode_def set_node_def)
  have nap: "blank (node_at ?g p)" by (simp add: ReleaseNode_def set_node_def Clear_node_def blank_def)
  have L: "live_edges ?g = live_edges g" "live_nodes ?g = live_nodes g - {p}" using slots same by auto
  have "node_ok ?g q" if "q \<in> live_nodes g - {p}" for q
  proof -
    have "node_ok g q" "q \<noteq> p" using wf that by (auto simp: wf_parts_def)
    then show ?thesis using na [of q] unfolding node_ok_def L same by simp
  qed
  moreover have "edge_ok ?g e" if "e \<in> live_edges g" for e
  proof -
    have "edge_ok g e" using that wf by (auto simp: wf_parts_def)
    then show ?thesis using no [OF that] unfolding edge_ok_def L same by auto
  qed
  moreover have "blank (node_at ?g q)" if "q \<in> set (free_nodes g @ [p])" for q
    using that wf na nap by (cases "q = p") (auto simp: wf_parts_def)
  moreover have "numbered (\<lambda>q. n_id (node_at ?g q)) (g_nodes ?g)"
  proof -
    have "q \<noteq> p" if "q \<in> live_nodes ?g" for q using that L by simp
    then have "numbered (\<lambda>q. n_id (node_at ?g q)) (g_nodes ?g) \<longleftrightarrow> numbered (\<lambda>q. n_id (node_at g q)) (g_nodes ?g)"
      using na by (intro numbered_cong) simp
    then show ?thesis using rem(1) slots upd by simp
  qed
  moreover have "numbered (\<lambda>e. e_id (edge_at ?g e)) (g_edges ?g)" using wf same by (simp add: wf_parts_def)
  moreover have "pooled (allocated g) (live_nodes g - {p}) (free_nodes g @ [p])"
    using wf p by (intro pooled_release) (auto simp: wf_parts_def)
  moreover have "length (nodes g) = Suc (length (nodes ?g))"
    using at filter_update [of "nat (n_id (node_at g p))" "g_nodes g" "\<lambda>x. x \<noteq> None" None] slots upd by (simp add: nodes_def)
  moreover have "allocated ?g = allocated g" "arena ?g = arena g" "free_nodes ?g = free_nodes g @ [p]" "free_edges ?g = free_edges g"
    "edge_set ?g = edge_set g" "num_nodes ?g = num_nodes g - 1"
    by (simp_all add: allocated_def ReleaseNode_def set_node_def)
  ultimately show "wf_parts ?g"
    using wf unfolding wf_parts_def L by (elim conjE) (intro conjI, simp_all only: ball_simps, simp_all)
qed

lemma RemoveNode_ok:
  fixes g :: "'a graph"
  assumes wf: "wf_parts g" and p: "p \<in> live_nodes g"
  shows "\<exists>g'. RemoveNode p g = Some g' \<and> wf_parts g' \<and> g_nodes g' = drop_slots (\<lambda>q. q = p) (g_nodes g) \<and>
    (\<forall>q. q \<noteq> p \<longrightarrow> node_data (node_at g' q) = node_data (node_at g q)) \<and> name_counter g' = name_counter g \<and>
    g_edges g' = drop_slots (\<lambda>e. e_src (edge_at g e) = Some p \<or> e_dst (edge_at g e) = Some p) (g_edges g) \<and>
    (\<forall>e \<in> live_edges g'. edge_at g' e = edge_at g e)"
proof -
  obtain g1 where g1: "remove_edges in_edges p g = Some g1" "wf_parts g1" "same_nodes g g1"
      "g_edges g1 = drop_slots (\<lambda>e. e_dst (edge_at g e) = Some p) (g_edges g)" "\<And>e. e \<in> live_edges g1 \<Longrightarrow> edge_at g1 e = edge_at g e"
    using remove_edges_ok [where sel = in_edges and fin = e_dst, OF _ wf p] by (auto simp: node_ok_def)
  have p1: "p \<in> live_nodes g1" using p g1(3) by (simp add: same_nodes_def)
  obtain g2 where g2: "remove_edges out_edges p g1 = Some g2" "wf_parts g2" "same_nodes g1 g2"
      "g_edges g2 = drop_slots (\<lambda>e. e_src (edge_at g1 e) = Some p) (g_edges g1)" "\<And>e. e \<in> live_edges g2 \<Longrightarrow> edge_at g2 e = edge_at g1 e"
    using remove_edges_ok [where sel = out_edges and fin = e_src, OF _ g1(2) p1] by (auto simp: node_ok_def)
  have same: "same_nodes g g2" using g1(3) g2(3) by (rule same_nodes_trans)
  have sub: "live_edges g2 \<subseteq> live_edges g1" using g2(4) by auto
  have "drop_slots (\<lambda>e. e_src (edge_at g1 e) = Some p) (g_edges g1) = drop_slots (\<lambda>e. e_src (edge_at g e) = Some p) (g_edges g1)"
    using g1(5) by (intro drop_cong) simp
  then have e2: "g_edges g2 = drop_slots (\<lambda>e. e_src (edge_at g e) = Some p \<or> e_dst (edge_at g e) = Some p) (g_edges g)"
    using g2(4) g1(4) by simp
  have ea: "edge_at g2 e = edge_at g e" if "e \<in> live_edges g2" for e using that sub g1(5) g2(5) by auto
  have "e_src (edge_at g2 e) \<noteq> Some p \<and> e_dst (edge_at g2 e) \<noteq> Some p" if "e \<in> live_edges g2" for e
    using that ea e2 by simp
  note r = ReleaseNode_ok [OF g2(2) _ this]
  have p2: "p \<in> live_nodes g2" using p same by (simp add: same_nodes_def)
  have "RemoveNode p g = Some (ReleaseNode p g2)" by (simp add: RemoveNode_def g1(1) g2(1))
  moreover have "node_data (node_at (ReleaseNode p g2) q) = node_data (node_at g q)" if "q \<noteq> p" for q
    using r(3) [OF p2 _ that] same by (simp add: same_nodes_def)
  moreover have "g_nodes (ReleaseNode p g2) = drop_slots (\<lambda>q. q = p) (g_nodes g)" "name_counter (ReleaseNode p g2) = name_counter g"
    using r(2,6) [OF p2] same by (simp_all add: same_nodes_def)
  ultimately show ?thesis using r(1,4,5) [OF p2] e2 ea by (intro exI [of _ "ReleaseNode p g2"]) simp
qed

end
