(* ===== verification/Graph_Spec.thy ===== *)
theory Graph_Spec
  imports Graph_Inv
begin

text \<open>
  The graph of operations as its users see it: nodes and edges by their numbers. Every operation of
  \<open>graph/graph.cc\<close> is a simple update of this view; numbers are never reused.
\<close>

section \<open>The view\<close>

type_synonym 'a label = "int \<times> node_class \<times> 'a properties option \<times> string"

record 'a agraph =
  a_nodes :: "nat \<rightharpoonup> 'a label"
  a_node_ids :: nat
  a_edges :: "nat \<rightharpoonup> (nat \<times> int \<times> nat \<times> int)"
  a_edge_ids :: nat

definition label_of :: "'a node \<Rightarrow> 'a label" where
  "label_of n = (cost_id n, n_class n, props n, assigned_device_name n)"

definition id_of :: "'a graph \<Rightarrow> ptr \<Rightarrow> nat" where
  "id_of g p = nat (n_id (node_at g p))"

definition ends_of :: "'a graph \<Rightarrow> ptr \<Rightarrow> nat \<times> int \<times> nat \<times> int" where
  "ends_of g e = (id_of g (the (e_src (edge_at g e))), src_output (edge_at g e), id_of g (the (e_dst (edge_at g e))), dst_input (edge_at g e))"

definition slot_map :: "('b \<Rightarrow> 'c) \<Rightarrow> 'b option list \<Rightarrow> nat \<rightharpoonup> 'c" where
  "slot_map f xs i = (if i < length xs then map_option f (xs ! i) else None)"

definition view_of :: "'a graph \<Rightarrow> 'a agraph" where
  "view_of g = \<lparr>a_nodes = slot_map (\<lambda>p. label_of (node_at g p)) (g_nodes g), a_node_ids = length (g_nodes g),
     a_edges = slot_map (ends_of g) (g_edges g), a_edge_ids = length (g_edges g)\<rparr>"

definition a_add_node :: "'a label \<Rightarrow> 'a agraph \<Rightarrow> 'a agraph" where
  "a_add_node l A = A\<lparr>a_nodes := (a_nodes A)(a_node_ids A \<mapsto> l), a_node_ids := Suc (a_node_ids A)\<rparr>"

definition a_add_edge :: "nat \<times> int \<times> nat \<times> int \<Rightarrow> 'a agraph \<Rightarrow> 'a agraph" where
  "a_add_edge x A = A\<lparr>a_edges := (a_edges A)(a_edge_ids A \<mapsto> x), a_edge_ids := Suc (a_edge_ids A)\<rparr>"

definition a_remove_edge :: "nat \<Rightarrow> 'a agraph \<Rightarrow> 'a agraph" where
  "a_remove_edge i A = A\<lparr>a_edges := (a_edges A)(i := None)\<rparr>"

definition a_remove_node :: "nat \<Rightarrow> 'a agraph \<Rightarrow> 'a agraph" where
  "a_remove_node i A = A\<lparr>a_nodes := (a_nodes A)(i := None),
     a_edges := (\<lambda>j. case a_edges A j of None \<Rightarrow> None | Some (s, x, d, y) \<Rightarrow> if s = i \<or> d = i then None else Some (s, x, d, y))\<rparr>"

lemma slot_map_snoc: "slot_map f (xs @ [Some p]) = (slot_map f xs)(length xs \<mapsto> f p)"
  by (auto simp: slot_map_def fun_eq_iff nth_append less_Suc_eq)

lemma slot_map_cong: "(\<And>p. p \<in> live xs \<Longrightarrow> f p = f' p) \<Longrightarrow> slot_map f xs = slot_map f' xs"
  by (auto simp: slot_map_def fun_eq_iff live_at intro!: option.map_cong)

lemma slot_map_drop: "slot_map f (drop_slots P xs) =
    (\<lambda>i. case if i < length xs then xs ! i else None of None \<Rightarrow> None | Some p \<Rightarrow> if P p then None else Some (f p))"
  by (auto simp: slot_map_def drop_slots_def fun_eq_iff split: option.splits)

lemma slot_map_drop_one:
  assumes "numbered h xs" "p \<in> live xs"
  shows "slot_map f (drop_slots (\<lambda>q. q = p) xs) = (slot_map f xs)(nat (h p) := None)"
proof -
  have "drop_slots (\<lambda>q. q = p) xs = xs[nat (h p) := None]" using numbered_update [OF assms] by simp
  then show ?thesis using numbered_at [OF assms] by (auto simp: slot_map_def fun_eq_iff nth_list_update)
qed

lemma same_data:
  assumes "node_data n' = node_data n"
  shows "label_of n' = label_of n" "n_id n' = n_id n" "IsSource n' = IsSource n" "IsSink n' = IsSink n" "IsOp n' = IsOp n"
    "props n' = props n" "assigned_device_name n' = assigned_device_name n"
  using assms by (simp_all add: node_data_def label_of_def IsSource_def IsSink_def IsOp_def)

lemma same_nodes_view:
  assumes "same_nodes g g'"
  shows "slot_map (\<lambda>p. label_of (node_at g' p)) (g_nodes g') = slot_map (\<lambda>p. label_of (node_at g p)) (g_nodes g)" "id_of g' = id_of g"
  using assms same_data [of "node_at g' _" "node_at g _"] by (auto simp: same_nodes_def id_of_def)

section \<open>Source and sink\<close>

lemma same_nodes_roots: "same_nodes g g' \<Longrightarrow> source_node g' = source_node g \<and> sink_node g' = sink_node g"
  by (simp add: same_nodes_def source_node_def sink_node_def FindNodeId_def)

lemma roots_live:
  assumes "wf_graph g"
  shows "source_node g \<in> live_nodes g" "sink_node g \<in> live_nodes g" "n_id (node_at g (source_node g)) = 0" "n_id (node_at g (sink_node g)) = 1"
    "source_node g \<noteq> sink_node g"
proof -
  have g: "2 \<le> length (g_nodes g)" "g_nodes g ! 0 = Some (source_node g)" "g_nodes g ! 1 = Some (sink_node g)"
    "numbered (\<lambda>p. n_id (node_at g p)) (g_nodes g)"
    using assms by (auto simp: wf_graph_def wf_parts_def source_node_def sink_node_def FindNodeId_def)
  have l: "0 < length (g_nodes g)" "1 < length (g_nodes g)" using g(1) by arith+
  show "source_node g \<in> live_nodes g" "sink_node g \<in> live_nodes g" using g(2,3) l live_at by metis+
  show i: "n_id (node_at g (source_node g)) = 0" "n_id (node_at g (sink_node g)) = 1"
    using g(4) [unfolded numbered_def, rule_format, OF l(1) g(2)] g(4) [unfolded numbered_def, rule_format, OF l(2) g(3)] by simp_all
  show "source_node g \<noteq> sink_node g" using i by auto
qed

lemma live_id_inj:
  assumes "wf_parts g" "p \<in> live_nodes g" "q \<in> live_nodes g" "n_id (node_at g p) = n_id (node_at g q)"
  shows "p = q"
  using assms numbered_at [of "\<lambda>p. n_id (node_at g p)" "g_nodes g"] by (metis option.inject wf_parts_def)

lemma IsSource_iff: "wf_graph g \<Longrightarrow> p \<in> live_nodes g \<Longrightarrow> IsSource (node_at g p) \<longleftrightarrow> p = source_node g"
  using roots_live(1,3) [of g] live_id_inj [of g p "source_node g"] by (metis IsSource_def wf_graph_def)

lemma IsSink_iff: "wf_graph g \<Longrightarrow> p \<in> live_nodes g \<Longrightarrow> IsSink (node_at g p) \<longleftrightarrow> p = sink_node g"
  using roots_live(2,4) [of g] live_id_inj [of g p "sink_node g"] by (metis IsSink_def wf_graph_def)

section \<open>The operations on the view\<close>

text \<open>The slots an edge may connect, as the debug checks of \<open>AddEdge\<close> require.\<close>

definition slots_ok :: "'a graph \<Rightarrow> ptr \<Rightarrow> int \<Rightarrow> ptr \<Rightarrow> int \<Rightarrow> bool" where
  "slots_ok g s x d y \<longleftrightarrow> (s = source_node g \<or> d = sink_node g \<or> x = kControlSlot \<or> y = kControlSlot \<longrightarrow> x = kControlSlot \<and> y = kControlSlot)"

lemma AddEdge_view:
  assumes wf: "wf_graph g" and s: "s \<in> live_nodes g" and d: "d \<in> live_nodes g" and ok: "slots_ok g s x d y"
  shows "\<exists>e g'. AddEdge s x d y g = Some (e, g') \<and> wf_graph g' \<and> same_nodes g g' \<and> e \<notin> live_edges g \<and>
    live_edges g' = insert e (live_edges g) \<and> (\<forall>e' \<in> live_edges g. edge_at g' e' = edge_at g e') \<and>
    e_src (edge_at g' e) = Some s \<and> e_dst (edge_at g' e) = Some d \<and> src_output (edge_at g' e) = x \<and> dst_input (edge_at g' e) = y \<and>
    view_of g' = a_add_edge (id_of g s, x, id_of g d, y) (view_of g)"
proof -
  have wp: "wf_parts g" using wf by (simp add: wf_graph_def)
  obtain e g' where g': "AddEdge s x d y g = Some (e, g')" "wf_parts g'" "same_nodes g g'" "e \<notin> live_edges g" "g_edges g' = g_edges g @ [Some e]"
      "edge_at g' = (edge_at g)(e := \<lparr>e_src = Some s, e_dst = Some d, e_id = int (length (g_edges g)), src_output = x, dst_input = y\<rparr>)"
    using AddEdge_ok [OF wp s d] by blast
  note v = same_nodes_view [OF g'(3)] and r = same_nodes_roots [OF g'(3)]
  have old: "edge_at g' e' = edge_at g e'" if "e' \<in> live_edges g" for e' using that g'(4,6) by auto
  have gn: "g_nodes g' = g_nodes g" using g'(3) by (simp add: same_nodes_def)
  have "wf_graph g'"
    using wf g'(2,5,6) old r ok unfolding wf_graph_def gn by (auto simp: slots_ok_def IsControlEdge_def control_ok_def)
  moreover have "slot_map (ends_of g') (g_edges g) = slot_map (ends_of g) (g_edges g)"
    using old v(2) by (intro slot_map_cong) (simp add: ends_of_def)
  then have "view_of g' = a_add_edge (id_of g s, x, id_of g d, y) (view_of g)"
    using v gn by (simp add: view_of_def a_add_edge_def g'(5) slot_map_snoc) (simp add: ends_of_def g'(6))
  ultimately show ?thesis using g' old by (intro exI [of _ e] exI [of _ g']) (simp add: live_simps)
qed

lemma RemoveEdge_view:
  assumes wf: "wf_graph g" and e: "e \<in> live_edges g"
  shows "\<exists>g'. RemoveEdge e g = Some g' \<and> wf_graph g' \<and> same_nodes g g' \<and> live_edges g' = live_edges g - {e} \<and>
    (\<forall>e' \<in> live_edges g'. edge_at g' e' = edge_at g e') \<and>
    view_of g' = a_remove_edge (nat (e_id (edge_at g e))) (view_of g)"
proof -
  have wp: "wf_parts g" using wf by (simp add: wf_graph_def)
  obtain g' where g': "RemoveEdge e g = Some g'" "wf_parts g'" "same_nodes g g'" "g_edges g' = drop_slots (\<lambda>e'. e' = e) (g_edges g)"
      "\<And>e'. e' \<noteq> e \<Longrightarrow> edge_at g' e' = edge_at g e'"
    using RemoveEdge_ok [OF wp e] by blast
  note v = same_nodes_view [OF g'(3)] and r = same_nodes_roots [OF g'(3)]
  have gn: "g_nodes g' = g_nodes g" using g'(3) by (simp add: same_nodes_def)
  have old: "edge_at g' e' = edge_at g e'" if "e' \<in> live_edges g'" for e' using that g'(4,5) by auto
  have sub: "live_edges g' = live_edges g - {e}" using g'(4) by auto
  have "wf_graph g'" using wf g'(2) old r sub unfolding wf_graph_def gn by simp
  moreover have "slot_map (ends_of g') (g_edges g') = slot_map (ends_of g) (g_edges g')"
    using old v(2) by (intro slot_map_cong) (simp add: ends_of_def)
  then have "view_of g' = a_remove_edge (nat (e_id (edge_at g e))) (view_of g)"
    using v gn wp e slot_map_drop_one [of "\<lambda>e. e_id (edge_at g e)" "g_edges g" e "ends_of g"]
    by (simp add: view_of_def a_remove_edge_def g'(4) wf_parts_def)
  ultimately show ?thesis using g' old sub by blast
qed

lemma RemoveNode_view:
  assumes wf: "wf_graph g" and p: "p \<in> live_nodes g" "\<not> IsSource (node_at g p)" "\<not> IsSink (node_at g p)"
  shows "\<exists>g'. RemoveNode p g = Some g' \<and> wf_graph g' \<and> live_nodes g' = live_nodes g - {p} \<and>
    (\<forall>q. q \<noteq> p \<longrightarrow> node_data (node_at g' q) = node_data (node_at g q)) \<and> source_node g' = source_node g \<and> sink_node g' = sink_node g \<and>
    live_edges g' = {e \<in> live_edges g. e_src (edge_at g e) \<noteq> Some p \<and> e_dst (edge_at g e) \<noteq> Some p} \<and>
    (\<forall>e \<in> live_edges g'. edge_at g' e = edge_at g e) \<and> length (g_nodes g') = length (g_nodes g) \<and>
    view_of g' = a_remove_node (id_of g p) (view_of g)"
proof -
  have wp: "wf_parts g" using wf by (simp add: wf_graph_def)
  obtain g' where g': "RemoveNode p g = Some g'" "wf_parts g'" "g_nodes g' = drop_slots (\<lambda>q. q = p) (g_nodes g)"
      "\<And>q. q \<noteq> p \<Longrightarrow> node_data (node_at g' q) = node_data (node_at g q)"
      "g_edges g' = drop_slots (\<lambda>e. e_src (edge_at g e) = Some p \<or> e_dst (edge_at g e) = Some p) (g_edges g)"
      "\<And>e. e \<in> live_edges g' \<Longrightarrow> edge_at g' e = edge_at g e"
    using RemoveNode_ok [OF wp p(1)] by blast
  have ne: "p \<noteq> source_node g" "p \<noteq> sink_node g" using p wf IsSource_iff IsSink_iff by blast+
  have len: "2 \<le> length (g_nodes g)" and at: "g_nodes g ! 0 = Some (source_node g)" "g_nodes g ! 1 = Some (sink_node g)"
    using wf by (auto simp: wf_graph_def source_node_def sink_node_def FindNodeId_def)
  have l: "0 < length (g_nodes g)" "1 < length (g_nodes g)" using len by arith+
  have at': "g_nodes g' ! 0 = Some (source_node g)" "g_nodes g' ! 1 = Some (sink_node g)"
    using at ne l by (simp_all add: g'(3) drop_slots_def)
  then have roots: "source_node g' = source_node g" "sink_node g' = sink_node g"
    by (simp_all add: source_node_def sink_node_def FindNodeId_def)
  have live: "live_nodes g' = live_nodes g - {p}"
    "live_edges g' = {e \<in> live_edges g. e_src (edge_at g e) \<noteq> Some p \<and> e_dst (edge_at g e) \<noteq> Some p}"
    using g'(3,5) by auto
  have "wf_graph g'"
    using wf g'(2) len at' roots live(2) g'(6) unfolding wf_graph_def by (simp add: g'(3))
  moreover have "view_of g' = a_remove_node (id_of g p) (view_of g)"
  proof -
    have lab: "slot_map (\<lambda>p. label_of (node_at g' p)) (g_nodes g') = slot_map (\<lambda>p. label_of (node_at g p)) (g_nodes g')"
      using g'(4) live(1) same_data(1) by (intro slot_map_cong) blast
    have num: "numbered (\<lambda>p. n_id (node_at g p)) (g_nodes g)" using wp by (simp add: wf_parts_def)
    have nodes: "slot_map (\<lambda>p. label_of (node_at g p)) (g_nodes g') = (slot_map (\<lambda>p. label_of (node_at g p)) (g_nodes g))(id_of g p := None)"
      unfolding g'(3) id_of_def by (rule slot_map_drop_one [OF num p(1)])
    have ends: "ends_of g' e = ends_of g e" if e: "e \<in> live_edges g'" for e
    proof -
      have "edge_ok g' e" using e g'(2) by (simp add: wf_parts_def)
      then obtain s d where "e_src (edge_at g e) = Some s" "e_dst (edge_at g e) = Some d" "s \<noteq> p" "d \<noteq> p"
        using g'(6) [OF e] live(1) by (auto simp: edge_ok_def)
      then show ?thesis using same_data(2) [OF g'(4)] g'(6) [OF e] by (simp add: ends_of_def id_of_def)
    qed
    have "slot_map (ends_of g') (g_edges g') = slot_map (ends_of g) (g_edges g')" using ends by (rule slot_map_cong)
    also have "\<dots> = (\<lambda>j. case slot_map (ends_of g) (g_edges g) j of None \<Rightarrow> None
        | Some (s, x, d, y) \<Rightarrow> if s = id_of g p \<or> d = id_of g p then None else Some (s, x, d, y))"
    proof
      fix j
      show "slot_map (ends_of g) (g_edges g') j = (case slot_map (ends_of g) (g_edges g) j of None \<Rightarrow> None
        | Some (s, x, d, y) \<Rightarrow> if s = id_of g p \<or> d = id_of g p then None else Some (s, x, d, y))"
      proof (cases "j < length (g_edges g) \<and> g_edges g ! j \<noteq> None")
        case True
        then obtain e where e: "j < length (g_edges g)" "g_edges g ! j = Some e" by auto
        then have "e \<in> live_edges g" by (auto simp: live_at)
        then have "edge_ok g e" using wp by (simp add: wf_parts_def)
        then obtain s d where sd: "e_src (edge_at g e) = Some s" "e_dst (edge_at g e) = Some d" "s \<in> live_nodes g" "d \<in> live_nodes g"
          by (auto simp: edge_ok_def)
        then have "id_of g s = id_of g p \<longleftrightarrow> s = p" "id_of g d = id_of g p \<longleftrightarrow> d = p"
          using p(1) live_id_inj [OF wp] numbered_at [OF num] by (metis id_of_def option.inject)+
        then show ?thesis using e sd by (simp add: g'(5) slot_map_drop) (simp add: slot_map_def ends_of_def)
      qed (auto simp: g'(5) slot_map_drop slot_map_def)
    qed
    finally have edges: "slot_map (ends_of g') (g_edges g') = (\<lambda>j. case slot_map (ends_of g) (g_edges g) j of None \<Rightarrow> None
        | Some (s, x, d, y) \<Rightarrow> if s = id_of g p \<or> d = id_of g p then None else Some (s, x, d, y))" .
    show ?thesis unfolding view_of_def a_remove_node_def lab nodes edges by (simp add: g'(3,5))
  qed
  ultimately show ?thesis using g'(1,4,6) roots live by (intro exI [of _ g']) (simp add: g'(3))
qed

lemma AllocateNode_view:
  assumes wf: "wf_graph g" and c: "class_of (def_op (node_def pr)) = Some c"
  shows "\<exists>p g'. AllocateNode pr cost_node g = Some (p, g') \<and> wf_graph g' \<and> p \<notin> live_nodes g \<and>
    g_nodes g' = g_nodes g @ [Some p] \<and> g_edges g' = g_edges g \<and> edge_at g' = edge_at g \<and>
    (\<forall>q. q \<noteq> p \<longrightarrow> node_at g' q = node_at g q) \<and>
    view_of g' = a_add_node (case cost_node of None \<Rightarrow> int (length (g_nodes g)) | Some n \<Rightarrow> cost_id n, c, Some pr, []) (view_of g)"
proof -
  have wp: "wf_parts g" using wf by (simp add: wf_graph_def)
  obtain p g' where g': "AllocateNode pr cost_node g = Some (p, g')" "wf_parts g'" "p \<notin> live_nodes g"
    "g_nodes g' = g_nodes g @ [Some p]" "g_edges g' = g_edges g" "edge_at g' = edge_at g" "\<And>q. q \<noteq> p \<Longrightarrow> node_at g' q = node_at g q"
    "node_data (node_at g' p) = (int (length (g_nodes g)), case cost_node of None \<Rightarrow> int (length (g_nodes g)) | Some n \<Rightarrow> cost_id n, c, Some pr, [])"
    using AllocateNode_ok [OF wp c, of cost_node] by blast
  have len: "2 \<le> length (g_nodes g)" using wf by (simp add: wf_graph_def)
  have at: "g_nodes g' ! i = g_nodes g ! i" if "i < length (g_nodes g)" for i using that by (simp add: g'(4) nth_append)
  have at': "g_nodes g' ! 0 = g_nodes g ! 0" "g_nodes g' ! 1 = g_nodes g ! 1" by (rule at, use len in arith)+
  then have roots: "source_node g' = source_node g" "sink_node g' = sink_node g" by (simp_all add: source_node_def sink_node_def FindNodeId_def)
  have "wf_graph g'"
    using wf g'(2) at' roots len unfolding wf_graph_def by (simp add: g'(4,5,6))
  moreover have "view_of g' = a_add_node (case cost_node of None \<Rightarrow> int (length (g_nodes g)) | Some n \<Rightarrow> cost_id n, c, Some pr, []) (view_of g)"
  proof -
    have old: "node_at g' q = node_at g q" if "q \<in> live_nodes g" for q
    proof -
      have "q \<noteq> p" using that g'(3) by blast
      then show ?thesis by (rule g'(7))
    qed
    have "slot_map (\<lambda>q. label_of (node_at g' q)) (g_nodes g) = slot_map (\<lambda>q. label_of (node_at g q)) (g_nodes g)"
      using old by (intro slot_map_cong) simp
    moreover have "slot_map (ends_of g') (g_edges g) = slot_map (ends_of g) (g_edges g)"
    proof (rule slot_map_cong)
      fix e assume "e \<in> live_edges g"
      then have "edge_ok g e" using wp by (simp add: wf_parts_def)
      then show "ends_of g' e = ends_of g e" using old by (auto simp: edge_ok_def ends_of_def id_of_def g'(6))
    qed
    moreover have "label_of (node_at g' p) = (case cost_node of None \<Rightarrow> int (length (g_nodes g)) | Some n \<Rightarrow> cost_id n, c, Some pr, [])"
      using g'(8) by (simp add: node_data_def label_of_def)
    ultimately show ?thesis by (simp add: view_of_def a_add_node_def g'(4,5) slot_map_snoc)
  qed
  ultimately show ?thesis using g' by blast
qed

text \<open>No name of an op but the empty one is in two classes.\<close>

lemma class_of_ok: "ts \<noteq> [] \<Longrightarrow> \<exists>c. class_of ts = Some c"
  unfolding class_of_def node_classes_def SET_CLASS_def by simp

text \<open>What the graph needs of the registry: it knows \<open>NoOp\<close>, and no op without a name.\<close>

definition registry_ok :: "'a types_of \<Rightarrow> 'a \<Rightarrow> bool" where
  "registry_ok types_of attr \<longleftrightarrow> (\<forall>name. types_of (no_op name attr) = Inr ([], [])) \<and> (\<forall>d. def_op d = [] \<longrightarrow> (\<exists>c. types_of d = Inl c))"

lemma AddNode_view:
  assumes wf: "wf_graph g" and reg: "registry_ok types_of attr" and t: "types_of d = Inr (ins, outs)"
  shows "\<exists>p g' c. AddNode types_of d g = Some (Inr (p, g')) \<and> wf_graph g' \<and> p \<notin> live_nodes g \<and> g_nodes g' = g_nodes g @ [Some p] \<and>
    class_of (def_op d) = Some c \<and>
    view_of g' = a_add_node (int (length (g_nodes g)), c, Some \<lparr>node_def = d, input_types = ins, output_types = outs\<rparr>, []) (view_of g)"
proof -
  have "def_op d \<noteq> []" using reg t by (auto simp: registry_ok_def)
  then obtain c where "class_of (def_op d) = Some c" using class_of_ok by blast
  then show ?thesis
    using AllocateNode_view [OF wf, of "\<lparr>node_def = d, input_types = ins, output_types = outs\<rparr>" c None] t
    by (force simp: AddNode_def)
qed

lemma AddNode_error: "types_of d = Inl c \<Longrightarrow> AddNode types_of d g = Some (Inl c)"
  by (simp add: AddNode_def)

lemma set_device_view:
  fixes dev :: string
  assumes wf: "wf_graph g" and p: "p \<in> live_nodes g"
  defines "g' \<equiv> set_node p ((node_at g p)\<lparr>assigned_device_name := dev\<rparr>) g"
  shows "wf_graph g' \<and> view_of g' = (view_of g)\<lparr>a_nodes := (a_nodes (view_of g))(id_of g p \<mapsto> label_of ((node_at g p)\<lparr>assigned_device_name := dev\<rparr>))\<rparr>"
proof
  have wp: "wf_parts g" using wf by (simp add: wf_graph_def)
  have same: "g_nodes g' = g_nodes g" "g_edges g' = g_edges g" "edge_at g' = edge_at g" "arena g' = arena g" "arena_used g' = arena_used g"
    "edge_set g' = edge_set g" "free_nodes g' = free_nodes g" "free_edges g' = free_edges g" "num_nodes g' = num_nodes g"
    by (simp_all add: g'_def set_node_def)
  have na: "n_id (node_at g' q) = n_id (node_at g q)" "in_edges (node_at g' q) = in_edges (node_at g q)"
    "out_edges (node_at g' q) = out_edges (node_at g q)" "props (node_at g' q) = props (node_at g q)"
    "n_class (node_at g' q) = n_class (node_at g q)" for q
    by (simp_all add: g'_def set_node_def)
  have "node_at g' q = node_at g q" if "q \<in> set (free_nodes g)" for q
    using that p wp by (auto simp: g'_def set_node_def wf_parts_def pooled_def)
  then have "wf_parts g'"
    using wp unfolding wf_parts_def node_ok_def edge_ok_def allocated_def nodes_def same na by simp
  then show "wf_graph g'" using wf unfolding wf_graph_def source_node_def sink_node_def FindNodeId_def same by simp
  have num: "numbered (\<lambda>p. n_id (node_at g p)) (g_nodes g)" using wp by (simp add: wf_parts_def)
  have "slot_map (\<lambda>q. label_of (node_at g' q)) (g_nodes g) i =
      ((slot_map (\<lambda>q. label_of (node_at g q)) (g_nodes g))(id_of g p \<mapsto> label_of ((node_at g p)\<lparr>assigned_device_name := dev\<rparr>))) i" for i
  proof (cases "i = id_of g p")
    case True
    then show ?thesis using numbered_at [OF num p] by (simp add: slot_map_def id_of_def g'_def set_node_def)
  next
    case False
    then have "g_nodes g ! i \<noteq> Some p" if "i < length (g_nodes g)" using that numbered_unique [OF num that, of p] by (auto simp: id_of_def)
    then show ?thesis using False by (auto simp: slot_map_def g'_def set_node_def intro!: option.map_cong)
  qed
  then have "slot_map (\<lambda>q. label_of (node_at g' q)) (g_nodes g) =
      (slot_map (\<lambda>q. label_of (node_at g q)) (g_nodes g))(id_of g p \<mapsto> label_of ((node_at g p)\<lparr>assigned_device_name := dev\<rparr>))" by blast
  moreover have "ends_of g' = ends_of g" by (simp add: fun_eq_iff ends_of_def id_of_def same na)
  ultimately show "view_of g' = (view_of g)\<lparr>a_nodes := (a_nodes (view_of g))(id_of g p \<mapsto> label_of ((node_at g p)\<lparr>assigned_device_name := dev\<rparr>))\<rparr>"
    by (simp add: view_of_def same)
qed

lemma CopyNode_view:
  assumes wf: "wf_graph g" and n: "props n = Some pr" "class_of (def_op (node_def pr)) = Some c"
  shows "\<exists>p g'. CopyNode n g = Some (p, g') \<and> wf_graph g' \<and> p \<notin> live_nodes g \<and> g_nodes g' = g_nodes g @ [Some p] \<and>
    view_of g' = a_add_node (cost_id n, c, Some pr, assigned_device_name n) (view_of g)"
proof -
  obtain p g1 where g1: "AllocateNode pr (Some n) g = Some (p, g1)" "wf_graph g1" "p \<notin> live_nodes g" "g_nodes g1 = g_nodes g @ [Some p]"
      "view_of g1 = a_add_node (cost_id n, c, Some pr, []) (view_of g)"
    using AllocateNode_view [OF wf n(2), of "Some n"] by auto
  let ?n = "(node_at g1 p)\<lparr>assigned_device_name := assigned_device_name n\<rparr>"
  have p: "p \<in> live_nodes g1" using g1(4) by simp
  have wp: "wf_parts g1" using g1(2) by (simp add: wf_graph_def)
  have i: "id_of g1 p = length (g_nodes g)"
    using numbered_unique [of "\<lambda>p. n_id (node_at g1 p)" "g_nodes g1" "length (g_nodes g)" p] wp g1(4) by (simp add: id_of_def wf_parts_def)
  have "a_nodes (view_of g1) (length (g_nodes g)) = Some (cost_id n, c, Some pr, [])"
    unfolding g1(5) by (simp add: a_add_node_def view_of_def)
  then have "label_of (node_at g1 p) = (cost_id n, c, Some pr, [])"
    using g1(4) by (simp add: view_of_def slot_map_def)
  then have "label_of ?n = (cost_id n, c, Some pr, assigned_device_name n)" by (simp add: label_of_def)
  then have "view_of (set_node p ?n g1) = a_add_node (cost_id n, c, Some pr, assigned_device_name n) (view_of g)"
    using set_device_view [OF g1(2) p, of "assigned_device_name n"] i g1(5) by (simp add: a_add_node_def view_of_def)
  then show ?thesis
    using set_device_view [OF g1(2) p, of "assigned_device_name n"] g1 n(1) by (simp add: CopyNode_def set_node_def)
qed

section \<open>Reachable graphs\<close>

lemma Graph_ok:
  assumes reg: "registry_ok types_of attr" and inj: "inj addresses"
  shows "\<exists>g. Graph types_of attr addresses = Some g \<and> wf_graph g \<and> a_edges (view_of g) = [0 \<mapsto> (0, -1, 1, -1)] \<and> a_node_ids (view_of g) = 2 \<and>
    a_edge_ids (view_of g) = 1"
proof -
  define pr :: "string \<Rightarrow> 'a properties" where "pr = (\<lambda>name. \<lparr>node_def = no_op name attr, input_types = [], output_types = []\<rparr>)"
  have cl: "class_of (def_op (node_def (pr name))) = Some NC_OTHER" for name
    by (simp add: pr_def no_op_def class_of_def node_classes_def SET_CLASS_def)
  have ty: "types_of (no_op name attr) = Inr ([], [])" for name using reg by (simp add: registry_ok_def)
  define g0 :: "'a graph" where "g0 = \<lparr>node_at = (\<lambda>_. new_node), edge_at = (\<lambda>_. \<lparr>e_src = None, e_dst = None, e_id = -1, src_output = 0, dst_input = 0\<rparr>),
          arena = addresses, arena_used = 0, g_nodes = [], num_nodes = 0, g_edges = [], edge_set = EdgeSet,
          free_nodes = [], free_edges = [], name_counter = 0\<rparr>"
  have w0: "wf_parts g0" using inj by (simp add: g0_def wf_parts_def numbered_def pooled_def nodes_def)
  obtain a g1 where g1: "AllocateNode (pr ''_SOURCE'') None g0 = Some (a, g1)" "wf_parts g1" "g_nodes g1 = [Some a]" "g_edges g1 = []"
      "node_data (node_at g1 a) = (0, 0, NC_OTHER, Some (pr ''_SOURCE''), [])"
    using AllocateNode_ok [OF w0 cl, of "''_SOURCE''" None] by (auto simp: g0_def)
  obtain b g2 where g2: "AllocateNode (pr ''_SINK'') None g1 = Some (b, g2)" "wf_parts g2" "b \<notin> live_nodes g1" "g_nodes g2 = [Some a, Some b]" "g_edges g2 = []"
      "node_at g2 a = node_at g1 a" "node_data (node_at g2 b) = (1, 1, NC_OTHER, Some (pr ''_SINK''), [])"
    using AllocateNode_ok [OF g1(2) cl, of "''_SINK''" None] g1(3,4) by (auto simp: live_def)
  have live: "a \<in> live_nodes g2" "b \<in> live_nodes g2" by (simp_all add: live_def g2(4))
  obtain e g3 where g3: "AddEdge a kControlSlot b kControlSlot g2 = Some (e, g3)" "wf_parts g3" "same_nodes g2 g3" "g_edges g3 = [Some e]"
      "edge_at g3 e = \<lparr>e_src = Some a, e_dst = Some b, e_id = 0, src_output = kControlSlot, dst_input = kControlSlot\<rparr>"
    using AddEdge_ok [OF g2(2) live] g2(5) by fastforce
  have n3: "g_nodes g3 = [Some a, Some b]" using g3(3) g2(4) by (simp add: same_nodes_def)
  have roots: "source_node g3 = a" "sink_node g3 = b" by (simp_all add: source_node_def sink_node_def FindNodeId_def n3)
  have le: "live_edges g3 = {e}" by (auto simp: g3(4) live_def)
  have "wf_graph g3" using g3(2) unfolding wf_graph_def roots le by (simp add: n3 g3(5) control_ok_def IsControlEdge_def)
  moreover have i: "n_id (node_at g1 a) = 0" "n_id (node_at g2 b) = 1" using g1(5) g2(7) by (simp_all add: node_data_def)
  have "Graph types_of attr addresses = Some g3"
    using g1(1) g2(1) g3(1) i unfolding Graph_def Let_def AddNode_def ty sum.case prod.case pr_def [symmetric] g0_def [symmetric]
    by (simp add: AddControlEdge_def pr_def)
  moreover have "id_of g3 a = 0" "id_of g3 b = 1"
    using same_nodes_view(2) [OF g3(3)] i g2(6) by (simp_all add: id_of_def fun_eq_iff)
  then have "a_edges (view_of g3) = [0 \<mapsto> (0, -1, 1, -1)]"
    by (auto simp: view_of_def slot_map_def g3(4,5) ends_of_def kControlSlot_def fun_eq_iff)
  ultimately show ?thesis by (simp add: view_of_def n3 g3(4))
qed

inductive reachable_graph :: "'a types_of \<Rightarrow> 'a \<Rightarrow> 'a graph \<Rightarrow> bool" for types_of attr where
  init: "inj addresses \<Longrightarrow> Graph types_of attr addresses = Some g \<Longrightarrow> reachable_graph types_of attr g"
| add_node: "reachable_graph types_of attr g \<Longrightarrow> AddNode types_of d g = Some (Inr (p, g')) \<Longrightarrow> reachable_graph types_of attr g'"
| copy_node: "reachable_graph types_of attr g \<Longrightarrow> reachable_graph types_of attr h \<Longrightarrow> p \<in> live_nodes h \<Longrightarrow> IsOp (node_at h p) \<Longrightarrow>
    CopyNode (node_at h p) g = Some (q, g') \<Longrightarrow> reachable_graph types_of attr g'"
| assign_device: "reachable_graph types_of attr g \<Longrightarrow> p \<in> live_nodes g \<Longrightarrow>
    reachable_graph types_of attr (set_node p ((node_at g p)\<lparr>assigned_device_name := dev\<rparr>) g)"
| add_edge: "reachable_graph types_of attr g \<Longrightarrow> s \<in> live_nodes g \<Longrightarrow> d \<in> live_nodes g \<Longrightarrow> slots_ok g s x d y \<Longrightarrow>
    AddEdge s x d y g = Some (e, g') \<Longrightarrow> reachable_graph types_of attr g'"
| remove_edge: "reachable_graph types_of attr g \<Longrightarrow> e \<in> live_edges g \<Longrightarrow> RemoveEdge e g = Some g' \<Longrightarrow> reachable_graph types_of attr g'"
| remove_node: "reachable_graph types_of attr g \<Longrightarrow> p \<in> live_nodes g \<Longrightarrow> IsOp (node_at g p) \<Longrightarrow> RemoveNode p g = Some g' \<Longrightarrow>
    reachable_graph types_of attr g'"

lemma op_not_root: "IsOp n \<Longrightarrow> \<not> IsSource n \<and> \<not> IsSink n"
  by (simp add: IsOp_def IsSource_def IsSink_def)

lemma live_node_props:
  assumes "wf_graph g" "p \<in> live_nodes g"
  obtains pr where "props (node_at g p) = Some pr" "class_of (def_op (node_def pr)) = Some (n_class (node_at g p))"
  using assms by (auto simp: wf_graph_def wf_parts_def node_ok_def)

lemma reachable_wf:
  assumes "reachable_graph types_of attr g" "registry_ok types_of attr"
  shows "wf_graph g"
  using assms
proof (induction rule: reachable_graph.induct)
  case (init addresses g)
  then show ?case using Graph_ok [of types_of attr addresses] by auto
next
  case (add_node g d p g')
  then obtain ins outs where "types_of d = Inr (ins, outs)" by (auto simp: AddNode_def split: sum.splits)
  then show ?case using AddNode_view [of g types_of attr d ins outs] add_node by auto
next
  case (copy_node g h p q g')
  then obtain pr where "props (node_at h p) = Some pr" "class_of (def_op (node_def pr)) = Some (n_class (node_at h p))"
    using live_node_props [of h p] by auto
  then show ?case using CopyNode_view [of g "node_at h p"] copy_node by auto
next
  case (assign_device g p dev)
  then show ?case using set_device_view by blast
next
  case (add_edge g s d x y e g')
  then show ?case using AddEdge_view [of g s d x y] by auto
next
  case (remove_edge g e g')
  then show ?case using RemoveEdge_view [of g e] by auto
next
  case (remove_node g p g')
  then show ?case using RemoveNode_view [of g p] op_not_root [of "node_at g p"] by auto
qed

text \<open>
  C15: Every graph built by the operations is well-formed: the sets at a node are exactly the edges that
  end there, numbers and addresses are never mixed up. No check fails, and on the view by numbers
  adding an edge or a node takes the next number, removing an edge removes just it, and removing a
  node removes it and its edges.
\<close>

theorem graph_refines:
  assumes "registry_ok types_of attr" "reachable_graph types_of attr g"
  shows "wf_graph g \<and>
    (\<forall>d. case types_of d of Inl c \<Rightarrow> AddNode types_of d g = Some (Inl c)
      | Inr (ins, outs) \<Rightarrow> \<exists>p g' c. AddNode types_of d g = Some (Inr (p, g')) \<and> class_of (def_op d) = Some c \<and>
          view_of g' = a_add_node (int (length (g_nodes g)), c, Some \<lparr>node_def = d, input_types = ins, output_types = outs\<rparr>, []) (view_of g)) \<and>
    (\<forall>s \<in> live_nodes g. \<forall>d \<in> live_nodes g. \<forall>x y. slots_ok g s x d y \<longrightarrow>
      (\<exists>e g'. AddEdge s x d y g = Some (e, g') \<and> view_of g' = a_add_edge (id_of g s, x, id_of g d, y) (view_of g))) \<and>
    (\<forall>e \<in> live_edges g. \<exists>g'. RemoveEdge e g = Some g' \<and> view_of g' = a_remove_edge (nat (e_id (edge_at g e))) (view_of g)) \<and>
    (\<forall>p \<in> live_nodes g. IsOp (node_at g p) \<longrightarrow> (\<exists>g'. RemoveNode p g = Some g' \<and> view_of g' = a_remove_node (id_of g p) (view_of g)))"
proof (intro conjI allI ballI impI)
  show wf: "wf_graph g" using assms(2,1) by (rule reachable_wf)
  show "case types_of d of Inl c \<Rightarrow> AddNode types_of d g = Some (Inl c)
      | Inr (ins, outs) \<Rightarrow> \<exists>p g' c. AddNode types_of d g = Some (Inr (p, g')) \<and> class_of (def_op d) = Some c \<and>
          view_of g' = a_add_node (int (length (g_nodes g)), c, Some \<lparr>node_def = d, input_types = ins, output_types = outs\<rparr>, []) (view_of g)" for d
  proof (cases "types_of d")
    case (Inr x)
    then show ?thesis using AddNode_view [OF wf assms(1), of d "fst x" "snd x"] by (cases x) auto
  qed (simp add: AddNode_error)
  show "\<exists>e g'. AddEdge s x d y g = Some (e, g') \<and> view_of g' = a_add_edge (id_of g s, x, id_of g d, y) (view_of g)"
    if "s \<in> live_nodes g" "d \<in> live_nodes g" "slots_ok g s x d y" for s d x y
    using AddEdge_view [OF wf that] by blast
  show "\<exists>g'. RemoveEdge e g = Some g' \<and> view_of g' = a_remove_edge (nat (e_id (edge_at g e))) (view_of g)" if "e \<in> live_edges g" for e
    using RemoveEdge_view [OF wf that] by blast
  show "\<exists>g'. RemoveNode p g = Some g' \<and> view_of g' = a_remove_node (id_of g p) (view_of g)" if "p \<in> live_nodes g" "IsOp (node_at g p)" for p
    using RemoveNode_view [OF wf that(1)] op_not_root [OF that(2)] by blast
qed

definition demo_types :: "unit types_of" where
  "demo_types d =
     (if def_op d = ''NoOp'' then Inr ([], [])
      else if def_op d = ''Const'' then Inr ([], [1, 1])
      else if def_op d = ''Identity'' then Inr ([1], [1])
      else Inl NOT_FOUND)"

lemma demo_registry: "registry_ok demo_types ()"
  by (simp add: registry_ok_def demo_types_def no_op_def)

theorem graph_refines_witness:
  "\<exists>g e g'. Graph demo_types () (\<lambda>n. 8 * n) = Some g \<and> wf_graph g \<and>
    AddEdge (source_node g) (-1) (sink_node g) (-1) g = Some (e, g') \<and> a_edges (view_of g') 1 = Some (0, -1, 1, -1)"
proof -
  have inj: "inj (\<lambda>n :: nat. 8 * n)" by (simp add: inj_def)
  obtain g where g: "Graph demo_types () (\<lambda>n. 8 * n) = Some g" "a_edge_ids (view_of g) = 1"
    using Graph_ok [OF demo_registry inj] by blast
  have r: "reachable_graph demo_types () g" using inj g(1) by (rule reachable_graph.init)
  note t = graph_refines [OF demo_registry r]
  then have wf: "wf_graph g" by blast
  have ok: "slots_ok g (source_node g) (-1) (sink_node g) (-1)" by (simp add: slots_ok_def kControlSlot_def)
  obtain e g' where e: "AddEdge (source_node g) (-1) (sink_node g) (-1) g = Some (e, g')"
      "view_of g' = a_add_edge (id_of g (source_node g), -1, id_of g (sink_node g), -1) (view_of g)"
    using t roots_live(1,2) [OF wf] ok by blast
  then show ?thesis
    using g wf roots_live(3,4) [OF wf] by (intro exI [of _ g] exI [of _ e] exI [of _ g']) (simp add: a_add_edge_def id_of_def)
qed

end
