(* ===== verification/Graph_Search.thy ===== *)
theory Graph_Search
  imports Graph_Spec
begin

text \<open>
  The searches of \<open>graph/algorithm.cc\<close>: depth-first with its explicit stack, and the breadth-first
  search of \<open>PruneForReverseReachability\<close>, over any neighbourhood.

  \<open>DFS\<close> and \<open>ReverseDFS\<close> are the same code over \<open>out_nodes\<close> and \<open>in_nodes\<close>. The functions \<open>enter\<close> and
  \<open>leave\<close> are given or null, and the calls made to them are recorded in a trace. The head of the
  list is the top of the stack. \<open>None\<close> is an access beyond the vector \<open>visited\<close> or a loop that does not end.
\<close>

section \<open>The searches\<close>

datatype event = Enter ptr | Leave ptr

partial_function (option) dfs_loop ::
  "(ptr \<Rightarrow> ptr list) \<Rightarrow> (ptr \<Rightarrow> nat) \<Rightarrow> bool \<Rightarrow> bool \<Rightarrow> (ptr \<times> bool) list \<Rightarrow> bool list \<Rightarrow> event list \<Rightarrow> event list option" where
  [code]: "dfs_loop neighbours ident enter leave stack visited trace =
     (case stack of
        [] \<Rightarrow> Some trace
      | (n, w_leave) # stack \<Rightarrow>
          if w_leave then dfs_loop neighbours ident enter leave stack visited (trace @ [Leave n])
          else if ident n \<ge> length visited then None
          else if visited ! ident n then dfs_loop neighbours ident enter leave stack visited trace
          else
            let visited = visited[ident n := True];
                trace = (if enter then trace @ [Enter n] else trace);
                stack = (if leave then (n, True) # stack else stack);
                stack = fold (\<lambda>out stack. if \<not> visited ! ident out then (out, False) # stack else stack) (neighbours n) stack
            in dfs_loop neighbours ident enter leave stack visited trace)"

definition DFS :: "bool \<Rightarrow> bool \<Rightarrow> 'a graph \<Rightarrow> event list option" where
  "DFS enter leave g =
     dfs_loop (out_nodes g) (id_of g) enter leave [(source_node g, False)] (replicate (length (g_nodes g)) False) []"

definition ReverseDFS :: "bool \<Rightarrow> bool \<Rightarrow> 'a graph \<Rightarrow> event list option" where
  "ReverseDFS enter leave g =
     dfs_loop (in_nodes g) (id_of g) enter leave [(sink_node g, False)] (replicate (length (g_nodes g)) False) []"

fun left_nodes :: "event list \<Rightarrow> ptr list" where
  "left_nodes [] = []"
| "left_nodes (Leave n # es) = n # left_nodes es"
| "left_nodes (Enter n # es) = left_nodes es"

fun entered_nodes :: "event list \<Rightarrow> ptr list" where
  "entered_nodes [] = []"
| "entered_nodes (Enter n # es) = n # entered_nodes es"
| "entered_nodes (Leave n # es) = entered_nodes es"

definition GetPostOrder :: "'a graph \<Rightarrow> ptr list option" where
  "GetPostOrder g = map_option left_nodes (DFS False True g)"

definition GetReversePostOrder :: "'a graph \<Rightarrow> ptr list option" where
  "GetReversePostOrder g = map_option rev (GetPostOrder g)"

text \<open>The set of visited nodes is the list of its elements.\<close>

partial_function (option) bfs_loop :: "(ptr \<Rightarrow> ptr list) \<Rightarrow> ptr list \<Rightarrow> ptr list \<Rightarrow> ptr list option" where
  [code]: "bfs_loop neighbours queue visited =
     (case queue of
        [] \<Rightarrow> Some visited
      | n # queue \<Rightarrow>
          let (visited, queue) =
            fold (\<lambda>x (visited, queue). if x \<notin> set visited then (x # visited, queue @ [x]) else (visited, queue)) (neighbours n) (visited, queue)
          in bfs_loop neighbours queue visited)"

section \<open>Finite neighbourhoods\<close>

lemma left_append [simp]: "left_nodes (xs @ ys) = left_nodes xs @ left_nodes ys"
  by (induction xs rule: left_nodes.induct) simp_all

lemma entered_append [simp]: "entered_nodes (xs @ ys) = entered_nodes xs @ entered_nodes ys"
  by (induction xs rule: entered_nodes.induct) simp_all

lemma fold_push: "fold (\<lambda>x st. if P x then (x, False) # st else st) xs st = map (\<lambda>x. (x, False)) (rev (filter P xs)) @ st"
  by (induction xs arbitrary: st) simp_all

lemma fold_visit:
  "\<exists>new. fold (\<lambda>x (v, q). if x \<notin> set v then (x # v, q @ [x]) else (v, q)) xs (v, q) = (rev new @ v, q @ new) \<and>
    set new = set xs - set v \<and> distinct new"
proof (induction xs arbitrary: v q)
  case (Cons x xs)
  show ?case
  proof (cases "x \<in> set v")
    case True
    then show ?thesis using Cons.IH [of v q] by auto
  next
    case False
    obtain new where "fold (\<lambda>x (v, q). if x \<notin> set v then (x # v, q @ [x]) else (v, q)) xs (x # v, q @ [x]) = (rev new @ x # v, (q @ [x]) @ new)"
        "set new = set xs - set (x # v)" "distinct new"
      using Cons.IH [of "x # v" "q @ [x]"] by blast
    then show ?thesis using False by (intro exI [of _ "x # new"]) auto
  qed
qed simp

text \<open>
  What a search needs of a state: neighbours stay in a finite set, and the numbers of its
  elements are different and below a bound.
\<close>

locale neighbourhood =
  fixes ok :: "'s \<Rightarrow> bool"
    and univ :: "'s \<Rightarrow> ptr set"
    and next_to :: "'s \<Rightarrow> ptr \<Rightarrow> ptr list"
    and ident :: "'s \<Rightarrow> ptr \<Rightarrow> nat"
    and bound :: "'s \<Rightarrow> nat"
  assumes univ_finite: "ok g \<Longrightarrow> finite (univ g)"
    and next_univ: "ok g \<Longrightarrow> n \<in> univ g \<Longrightarrow> set (next_to g n) \<subseteq> univ g"
    and ident_inj: "ok g \<Longrightarrow> inj_on (ident g) (univ g)"
    and ident_bound: "ok g \<Longrightarrow> n \<in> univ g \<Longrightarrow> ident g n < bound g"
begin

definition reach :: "'s \<Rightarrow> ptr \<Rightarrow> ptr \<Rightarrow> bool" where
  "reach g = (\<lambda>a b. b \<in> set (next_to g a))\<^sup>*\<^sup>*"

definition seen :: "'s \<Rightarrow> bool list \<Rightarrow> ptr set" where
  "seen g visited = {n \<in> univ g. visited ! ident g n}"

lemma reach_next: "reach g a b \<Longrightarrow> c \<in> set (next_to g b) \<Longrightarrow> reach g a c"
  unfolding reach_def by (rule rtranclp.rtrancl_into_rtrancl)

lemma reach_refl [simp]: "reach g a a"
  by (simp add: reach_def)

lemma seen_update:
  assumes "ok g" "n \<in> univ g" "length visited = bound g"
  shows "seen g (visited[ident g n := True]) = insert n (seen g visited)"
  using assms ident_inj [OF assms(1)] ident_bound [OF assms(1)] by (auto simp: seen_def nth_list_update inj_on_def)

text \<open>
  The state of the loop. Below the marker of a node lies only what it can be reached from; its
  neighbours are seen or above the marker. A node was left after its neighbours, but for those it
  can be reached from.
\<close>

definition chain :: "'s \<Rightarrow> (ptr \<times> bool) list \<Rightarrow> ptr set \<Rightarrow> bool" where
  "chain g stack V \<longleftrightarrow> (\<forall>xs n ys. stack = xs @ (n, True) # ys \<longrightarrow>
     (\<forall>x \<in> fst ` set xs. reach g n x) \<and> (\<forall>m \<in> set (next_to g n). m \<in> V \<or> (m, False) \<in> set xs))"

definition ordered :: "'s \<Rightarrow> ptr list \<Rightarrow> bool" where
  "ordered g order \<longleftrightarrow> (\<forall>as n bs. order = as @ n # bs \<longrightarrow> (\<forall>m \<in> set (next_to g n). m \<in> set as \<or> reach g m n))"

definition marks :: "(ptr \<times> bool) list \<Rightarrow> ptr list" where
  "marks stack = map fst (filter snd stack)"

definition dfs_inv :: "'s \<Rightarrow> ptr \<Rightarrow> bool \<Rightarrow> (ptr \<times> bool) list \<Rightarrow> bool list \<Rightarrow> event list \<Rightarrow> bool" where
  "dfs_inv g root enter stack visited trace \<longleftrightarrow>
     length visited = bound g \<and> (\<forall>x \<in> fst ` set stack. x \<in> univ g \<and> reach g root x) \<and>
     (\<forall>x \<in> seen g visited. reach g root x) \<and>
     set (left_nodes trace @ marks stack) = seen g visited \<and> distinct (left_nodes trace @ marks stack) \<and>
     (\<forall>n \<in> set (left_nodes trace). set (next_to g n) \<subseteq> seen g visited) \<and>
     chain g stack (seen g visited) \<and> ordered g (left_nodes trace) \<and>
     (root \<in> seen g visited \<or> (root, False) \<in> set stack) \<and>
     distinct (entered_nodes trace) \<and> set (entered_nodes trace) = (if enter then seen g visited else {})"

lemma dfs_invD:
  assumes "dfs_inv g root enter stack visited trace"
  shows "length visited = bound g" "\<And>x. x \<in> fst ` set stack \<Longrightarrow> x \<in> univ g \<and> reach g root x" "\<And>x. x \<in> seen g visited \<Longrightarrow> reach g root x"
    "set (left_nodes trace @ marks stack) = seen g visited" "distinct (left_nodes trace @ marks stack)"
    "\<And>n. n \<in> set (left_nodes trace) \<Longrightarrow> set (next_to g n) \<subseteq> seen g visited"
    "chain g stack (seen g visited)" "ordered g (left_nodes trace)" "root \<in> seen g visited \<or> (root, False) \<in> set stack"
    "distinct (entered_nodes trace)" "set (entered_nodes trace) = (if enter then seen g visited else {})"
  using assms unfolding dfs_inv_def by blast+

lemma marks_simps [simp]:
  "marks [] = []" "marks ((n, True) # stack) = n # marks stack" "marks ((n, False) # stack) = marks stack"
  "marks (map (\<lambda>x. (x, False)) new @ stack) = marks stack"
  by (simp_all add: marks_def filter_map comp_def)

lemma set_marks: "n \<in> set (marks stack) \<longleftrightarrow> (n, True) \<in> set stack"
  by (force simp: marks_def)

lemma chain_pop:
  assumes "chain g (x # stack) V" "snd x \<or> fst x \<in> V"
  shows "chain g stack V"
  unfolding chain_def
proof (intro allI impI)
  fix xs n ys assume s: "stack = xs @ (n, True) # ys"
  then have "x # stack = (x # xs) @ (n, True) # ys" by simp
  then have c: "\<forall>y \<in> fst ` set (x # xs). reach g n y" "\<forall>m \<in> set (next_to g n). m \<in> V \<or> (m, False) \<in> set (x # xs)"
    using assms(1) unfolding chain_def by blast+
  then show "(\<forall>y \<in> fst ` set xs. reach g n y) \<and> (\<forall>m \<in> set (next_to g n). m \<in> V \<or> (m, False) \<in> set xs)"
    using assms(2) by auto
qed

lemma chain_push:
  assumes "chain g ((n, False) # stack) V" "set new \<subseteq> set (next_to g n)" "set (next_to g n) \<subseteq> insert n V \<union> set new"
  shows "chain g (map (\<lambda>x. (x, False)) new @ (n, True) # stack) (insert n V)"
  unfolding chain_def
proof (intro allI impI)
  let ?new = "map (\<lambda>x. (x, False)) new"
  fix xs k ys assume s: "?new @ (n, True) # stack = xs @ (k, True) # ys"
  have "(k, True) \<notin> set ?new" by auto
  then consider "xs = ?new" "k = n" | xs' where "xs = ?new @ (n, True) # xs'" "stack = xs' @ (k, True) # ys"
  proof -
    from s obtain us where "?new = xs @ us \<and> us @ (n, True) # stack = (k, True) # ys \<or> ?new @ us = xs \<and> (n, True) # stack = us @ (k, True) # ys"
      unfolding append_eq_append_conv2 by blast
    then show thesis
    proof (elim disjE conjE)
      assume u: "?new = xs @ us" "us @ (n, True) # stack = (k, True) # ys"
      then have "us = []" using \<open>(k, True) \<notin> set ?new\<close> by (cases us) auto
      then show thesis using u that(1) by simp
    next
      assume u: "?new @ us = xs" "(n, True) # stack = us @ (k, True) # ys"
      then show thesis using that by (cases us) auto
    qed
  qed
  then show "(\<forall>x \<in> fst ` set xs. reach g k x) \<and> (\<forall>m \<in> set (next_to g k). m \<in> insert n V \<or> (m, False) \<in> set xs)"
  proof cases
    case 1
    then show ?thesis using assms(2,3) reach_next [OF reach_refl] by (auto simp: image_image)
  next
    case 2
    then have "(n, False) # stack = ((n, False) # xs') @ (k, True) # ys" by simp
    then have c: "\<forall>x \<in> fst ` set ((n, False) # xs'). reach g k x" "\<forall>m \<in> set (next_to g k). m \<in> V \<or> (m, False) \<in> set ((n, False) # xs')"
      using assms(1) unfolding chain_def by blast+
    have "reach g k x" if "x \<in> set new" for x using c(1) that assms(2) reach_next [of g k n x] by auto
    then show ?thesis using c 2(1) by auto
  qed
qed

lemma chain_top:
  assumes "chain g ((n, True) # stack) V"
  shows "set (next_to g n) \<subseteq> V" "(m, True) \<in> set stack \<Longrightarrow> reach g m n"
proof -
  show "set (next_to g n) \<subseteq> V"
    using assms [unfolded chain_def, rule_format, of "[]" n stack] by auto
  assume "(m, True) \<in> set stack"
  then obtain xs ys where "(n, True) # stack = ((n, True) # xs) @ (m, True) # ys" by (auto dest!: split_list)
  from assms [unfolded chain_def, rule_format, OF this] show "reach g m n" by simp
qed

lemma ordered_snoc:
  assumes "ordered g order" "\<forall>m \<in> set (next_to g n). m \<in> set order \<or> reach g m n"
  shows "ordered g (order @ [n])"
  unfolding ordered_def
proof (intro allI impI)
  fix as k bs assume "order @ [n] = as @ k # bs"
  then consider "as = order" "k = n" | bs' where "order = as @ k # bs'"
    by (cases bs rule: rev_cases) auto
  then show "\<forall>m \<in> set (next_to g k). m \<in> set as \<or> reach g m k"
    using assms by cases (auto simp: ordered_def)
qed

lemma dfs_inv_leave:
  assumes i: "dfs_inv g root enter ((n, True) # stack) visited trace"
  shows "dfs_inv g root enter stack visited (trace @ [Leave n])"
proof -
  note d = dfs_invD [OF i]
  have top: "set (next_to g n) \<subseteq> seen g visited" using d(7) by (rule chain_top(1))
  have "m \<in> set (left_nodes trace) \<or> reach g m n" if "m \<in> set (next_to g n)" for m
  proof -
    have "m \<in> set (left_nodes trace @ n # marks stack)" using that top d(4) by auto
    then show ?thesis using chain_top(2) [OF d(7)] by (auto simp: set_marks)
  qed
  then have "ordered g (left_nodes (trace @ [Leave n]))" using ordered_snoc [OF d(8)] by simp
  moreover have "chain g stack (seen g visited)" using d(7) by (rule chain_pop) simp
  moreover have "set (left_nodes (trace @ [Leave n]) @ marks stack) = seen g visited" "distinct (left_nodes (trace @ [Leave n]) @ marks stack)"
    using d(4,5) by auto
  moreover have "set (next_to g k) \<subseteq> seen g visited" if "k \<in> set (left_nodes (trace @ [Leave n]))" for k using that d(6) top by auto
  ultimately show ?thesis using d(1,2,3,9,10,11) unfolding dfs_inv_def by simp
qed

lemma dfs_inv_skip:
  assumes i: "dfs_inv g root enter ((n, False) # stack) visited trace" and v: "n \<in> seen g visited"
  shows "dfs_inv g root enter stack visited trace"
proof -
  note d = dfs_invD [OF i]
  have "chain g stack (seen g visited)" using d(7) by (rule chain_pop) (simp add: v)
  moreover have "root \<in> seen g visited \<or> (root, False) \<in> set stack" using d(9) v by auto
  ultimately show ?thesis using d unfolding dfs_inv_def by simp
qed

lemma dfs_inv_enter:
  assumes g: "ok g" and i: "dfs_inv g root enter ((n, False) # stack) visited trace" and v: "n \<notin> seen g visited"
    and new: "set new = {m \<in> set (next_to g n). m \<notin> insert n (seen g visited)}"
  shows "dfs_inv g root enter (map (\<lambda>x. (x, False)) new @ (n, True) # stack) (visited[ident g n := True])
    (if enter then trace @ [Enter n] else trace)"
proof -
  note d = dfs_invD [OF i]
  have n: "n \<in> univ g" "reach g root n" using d(2) [of n] by auto
  have s: "seen g (visited[ident g n := True]) = insert n (seen g visited)" by (rule seen_update [OF g n(1) d(1)])
  have l: "left_nodes (if enter then trace @ [Enter n] else trace) = left_nodes trace" by simp
  have "chain g (map (\<lambda>x. (x, False)) new @ (n, True) # stack) (insert n (seen g visited))"
    using d(7) new by (intro chain_push) auto
  moreover have "x \<in> univ g \<and> reach g root x" if "x \<in> fst ` set (map (\<lambda>x. (x, False)) new @ (n, True) # stack)" for x
  proof -
    have "x \<in> set new \<or> x = n \<or> x \<in> fst ` set ((n, False) # stack)" using that by auto
    then show ?thesis using n d(2) new next_univ [OF g n(1)] reach_next [of g root n x] by blast
  qed
  moreover have "set (left_nodes trace @ n # marks stack) = insert n (seen g visited)" "distinct (left_nodes trace @ n # marks stack)"
    using d(4,5) v by auto
  moreover have "set (next_to g k) \<subseteq> insert n (seen g visited)" if "k \<in> set (left_nodes trace)" for k using d(6) [OF that] by blast
  moreover have "root \<in> insert n (seen g visited) \<or> (root, False) \<in> set (map (\<lambda>x. (x, False)) new @ (n, True) # stack)"
    using d(9) by auto
  moreover have "distinct (entered_nodes (if enter then trace @ [Enter n] else trace))"
    "set (entered_nodes (if enter then trace @ [Enter n] else trace)) = (if enter then insert n (seen g visited) else {})"
    using d(10,11) v by auto
  moreover have "reach g root x" if "x \<in> insert n (seen g visited)" for x using that d(3) n(2) by blast
  ultimately show ?thesis
    unfolding dfs_inv_def s l using d(1,8) by simp
qed

lemma dfs_returns:
  assumes g: "ok g" and "dfs_inv g root enter stack visited trace"
  shows "\<exists>visited' trace'. dfs_loop (next_to g) (ident g) enter True stack visited trace = Some trace' \<and> dfs_inv g root enter [] visited' trace'"
  using assms(2)
proof (induction "(stack, visited, trace)" arbitrary: stack visited trace
    rule: wf_induct [OF wf_measures [of "[\<lambda>(s, v, t). card (univ g - seen g v), \<lambda>(s, v, t). length s]"], consumes 0])
  case 1
  note IH = 1(1) [rule_format, OF _ refl] and i = 1(2)
  note d = dfs_invD [OF i]
  show ?case
  proof (cases stack)
    case Nil
    then show ?thesis using i by (subst dfs_loop.simps) auto
  next
    case (Cons x rest)
    obtain n b where x: "x = (n, b)" by (cases x)
    have n: "n \<in> univ g" using d(2) [of n] Cons x by simp
    have idn: "ident g n < length visited" using ident_bound [OF g n] d(1) by simp
    consider "b" | "\<not> b" "n \<in> seen g visited" | "\<not> b" "n \<notin> seen g visited" by blast
    then show ?thesis
    proof cases
      case 1
      then have "dfs_inv g root enter rest visited (trace @ [Leave n])" using i Cons x dfs_inv_leave by simp
      then show ?thesis using IH [of rest visited "trace @ [Leave n]"] 1 Cons x by (subst dfs_loop.simps) simp
    next
      case 2
      then have "dfs_inv g root enter rest visited trace" using i Cons x dfs_inv_skip by simp
      then show ?thesis using IH [of rest visited trace] 2 Cons x idn n by (subst dfs_loop.simps) (simp add: seen_def)
    next
      case 3
      let ?v = "visited[ident g n := True]" and ?t = "if enter then trace @ [Enter n] else trace"
      define new where "new = rev (filter (\<lambda>out. \<not> ?v ! ident g out) (next_to g n))"
      have s: "seen g ?v = insert n (seen g visited)" by (rule seen_update [OF g n d(1)])
      have "set new = {m \<in> set (next_to g n). m \<notin> seen g ?v}" using next_univ [OF g n] by (auto simp: new_def seen_def)
      then have new: "set new = {m \<in> set (next_to g n). m \<notin> insert n (seen g visited)}" by (simp only: s)
      have inv: "dfs_inv g root enter (map (\<lambda>x. (x, False)) new @ (n, True) # rest) ?v ?t"
        using i 3 Cons x by (intro dfs_inv_enter [OF g _ _ new]) simp_all
      have "univ g - seen g ?v \<subset> univ g - seen g visited" using s 3(2) n by auto
      then have "card (univ g - seen g ?v) < card (univ g - seen g visited)"
        using univ_finite [OF g] by (intro psubset_card_mono) auto
      then have "((map (\<lambda>x. (x, False)) new @ (n, True) # rest, ?v, ?t), stack, visited, trace)
          \<in> measures [\<lambda>(s, v, t). card (univ g - seen g v), \<lambda>(s, v, t). length s]" by simp
      note r = IH [OF this inv]
      have "dfs_loop (next_to g) (ident g) enter True stack visited trace =
          dfs_loop (next_to g) (ident g) enter True (map (\<lambda>x. (x, False)) new @ (n, True) # rest) ?v ?t"
        using 3 Cons x idn n by (subst dfs_loop.simps) (simp add: seen_def fold_push new_def Let_def)
      then show ?thesis using r by simp
    qed
  qed
qed

lemma reach_closed:
  assumes "reach g a b" "a \<in> A" "\<And>n. n \<in> A \<Longrightarrow> set (next_to g n) \<subseteq> A"
  shows "b \<in> A"
  using assms unfolding reach_def by (induction rule: rtranclp_induct) auto

lemma dfs_correct:
  assumes g: "ok g" and r: "root \<in> univ g"
  shows "\<exists>trace. dfs_loop (next_to g) (ident g) enter True [(root, False)] (replicate (bound g) False) [] = Some trace \<and>
    distinct (left_nodes trace) \<and> set (left_nodes trace) = {n. reach g root n} \<and> ordered g (left_nodes trace) \<and>
    distinct (entered_nodes trace) \<and> set (entered_nodes trace) = (if enter then {n. reach g root n} else {})"
proof -
  have s: "seen g (replicate (bound g) False) = {}" using ident_bound [OF g] by (auto simp: seen_def)
  have "dfs_inv g root enter [(root, False)] (replicate (bound g) False) []"
    using r unfolding dfs_inv_def s by (simp add: chain_def ordered_def append_eq_Cons_conv Cons_eq_append_conv)
  from dfs_returns [OF g this] obtain visited trace where
    t: "dfs_loop (next_to g) (ident g) enter True [(root, False)] (replicate (bound g) False) [] = Some trace" "dfs_inv g root enter [] visited trace"
    by blast
  note d = dfs_invD [OF t(2)]
  have set: "set (left_nodes trace) = {n. reach g root n}"
  proof (intro equalityI subsetI)
    fix n assume "n \<in> {n. reach g root n}"
    then show "n \<in> set (left_nodes trace)"
      using reach_closed [of g root n "set (left_nodes trace)"] d(4,6,9) by auto
  qed (use d(3,4) in auto)
  then show ?thesis using t(1) d(4,5,8,10,11) by auto
qed

lemma bfs_returns:
  assumes g: "ok g" and "set visited \<subseteq> univ g" "set queue \<subseteq> set visited"
    "\<forall>n \<in> set visited. n \<in> set queue \<or> set (next_to g n) \<subseteq> set visited" "\<forall>n \<in> set visited. \<exists>r \<in> R. reach g r n"
  shows "\<exists>v. bfs_loop (next_to g) queue visited = Some v \<and> set visited \<subseteq> set v \<and> (\<forall>n \<in> set v. set (next_to g n) \<subseteq> set v) \<and>
    (\<forall>n \<in> set v. \<exists>r \<in> R. reach g r n)"
  using assms(2-)
proof (induction "(queue, visited)" arbitrary: queue visited
    rule: wf_induct [OF wf_measures [of "[\<lambda>(q, v). card (univ g - set v), \<lambda>(q, v). length q]"], consumes 0])
  case 1
  note IH = 1(1) [rule_format, OF _ refl] and i = 1(2-)
  show ?case
  proof (cases queue)
    case Nil
    then show ?thesis using i by (subst bfs_loop.simps) auto
  next
    case (Cons n rest)
    have n: "n \<in> set visited" "n \<in> univ g" using i(1,2) Cons by auto
    obtain new where new: "fold (\<lambda>x (visited, queue). if x \<notin> set visited then (x # visited, queue @ [x]) else (visited, queue)) (next_to g n) (visited, rest) =
        (rev new @ visited, rest @ new)" "set new = set (next_to g n) - set visited"
      using fold_visit [of "next_to g n" visited rest] by blast
    have step: "bfs_loop (next_to g) queue visited = bfs_loop (next_to g) (rest @ new) (rev new @ visited)"
      using Cons new(1) by (subst bfs_loop.simps) simp
    have "((rest @ new, rev new @ visited), queue, visited) \<in> measures [\<lambda>(q, v). card (univ g - set v), \<lambda>(q, v). length q]"
    proof (cases "new = []")
      case False
      then have "univ g - set (rev new @ visited) \<subset> univ g - set visited" using new(2) next_univ [OF g n(2)] by (cases new) auto
      then have "card (univ g - set (rev new @ visited)) < card (univ g - set visited)"
        using univ_finite [OF g] by (intro psubset_card_mono) auto
      then show ?thesis by simp
    qed (simp add: Cons)
    moreover have "set (rev new @ visited) \<subseteq> univ g" using i(1) new(2) next_univ [OF g n(2)] by auto
    moreover have "set (rest @ new) \<subseteq> set (rev new @ visited)" using i(2) Cons by auto
    moreover have "\<forall>k \<in> set (rev new @ visited). k \<in> set (rest @ new) \<or> set (next_to g k) \<subseteq> set (rev new @ visited)"
      using i(3) Cons new(2) by auto
    moreover have "\<forall>k \<in> set (rev new @ visited). \<exists>r \<in> R. reach g r k"
    proof
      fix k assume "k \<in> set (rev new @ visited)"
      then consider "k \<in> set visited" | "k \<in> set (next_to g n)" using new(2) by auto
      then show "\<exists>r \<in> R. reach g r k"
      proof cases
        case 2
        then show ?thesis using i(4) n(1) reach_next [of g _ n k] by blast
      qed (use i(4) in blast)
    qed
    ultimately have "\<exists>v. bfs_loop (next_to g) (rest @ new) (rev new @ visited) = Some v \<and> set (rev new @ visited) \<subseteq> set v \<and>
        (\<forall>n \<in> set v. set (next_to g n) \<subseteq> set v) \<and> (\<forall>n \<in> set v. \<exists>r \<in> R. reach g r n)"
      by - (rule IH; blast)
    then show ?thesis unfolding step by auto
  qed
qed

lemma bfs_correct:
  assumes g: "ok g" and t: "set targets \<subseteq> univ g"
  shows "\<exists>v. bfs_loop (next_to g) targets targets = Some v \<and> set v = {n. \<exists>r \<in> set targets. reach g r n}"
proof -
  obtain v where v: "bfs_loop (next_to g) targets targets = Some v" "set targets \<subseteq> set v"
      "\<forall>n \<in> set v. set (next_to g n) \<subseteq> set v" "\<forall>n \<in> set v. \<exists>r \<in> set targets. reach g r n"
    using bfs_returns [OF g t, of targets "set targets"] reach_refl by blast
  moreover have "n \<in> set v" if "r \<in> set targets" "reach g r n" for r n
    using reach_closed [OF that(2), of "set v"] that(1) v(2,3) by blast
  ultimately show ?thesis by blast
qed

end

text \<open>Without \<open>leave\<close> the same nodes are entered in the same order.\<close>

fun is_enter :: "event \<Rightarrow> bool" where
  "is_enter (Enter n) = True"
| "is_enter (Leave n) = False"

lemma entered_filter [simp]: "entered_nodes (filter is_enter es) = entered_nodes es" "left_nodes (filter is_enter es) = []"
  by (induction es rule: entered_nodes.induct) simp_all

lemma dfs_enter_only:
  assumes "dfs_loop nb ident enter leave stack visited trace = Some trace'"
  shows "leave \<longrightarrow> dfs_loop nb ident enter False (filter (\<lambda>x. \<not> snd x) stack) visited (filter is_enter trace) = Some (filter is_enter trace')"
    (is "?P nb ident enter leave stack visited trace trace'")
  using assms
proof (rule dfs_loop.raw_induct [where P = ?P, rotated])
  fix dfs nb ident enter leave stack visited trace trace'
  assume IH: "\<And>nb ident enter leave stack visited trace y. dfs nb ident enter leave stack visited trace = Some y \<Longrightarrow> ?P nb ident enter leave stack visited trace y"
    and body: "(case stack of [] \<Rightarrow> Some trace
      | (n, w_leave) # stack \<Rightarrow>
          if w_leave then dfs nb ident enter leave stack visited (trace @ [Leave n])
          else if ident n \<ge> length visited then None
          else if visited ! ident n then dfs nb ident enter leave stack visited trace
          else
            let visited = visited[ident n := True];
                trace = (if enter then trace @ [Enter n] else trace);
                stack = (if leave then (n, True) # stack else stack);
                stack = fold (\<lambda>out stack. if \<not> visited ! ident out then (out, False) # stack else stack) (nb n) stack
            in dfs nb ident enter leave stack visited trace) = Some trace'"
  show "?P nb ident enter leave stack visited trace trace'"
  proof (intro impI)
    assume leave
    show "dfs_loop nb ident enter False (filter (\<lambda>x. \<not> snd x) stack) visited (filter is_enter trace) = Some (filter is_enter trace')"
    proof (cases stack)
      case Nil
      then show ?thesis using body by (subst dfs_loop.simps) simp
    next
      case (Cons x rest)
      obtain n b where x: "x = (n, b)" by (cases x)
      show ?thesis
      proof (cases b)
        case True
        then show ?thesis using body IH [of nb ident enter leave rest visited "trace @ [Leave n]"] Cons x \<open>leave\<close> by simp
      next
        case False
        let ?v = "visited[ident n := True]"
        let ?new = "map (\<lambda>x. (x, False)) (rev (filter (\<lambda>out. \<not> ?v ! ident out) (nb n)))"
        let ?t = "if enter then trace @ [Enter n] else trace"
        have t: "filter is_enter ?t = (if enter then filter is_enter trace @ [Enter n] else filter is_enter trace)" by simp
        show ?thesis
        proof (cases "visited ! ident n")
          case True
          then show ?thesis using body IH [of nb ident enter leave rest visited trace] Cons x False \<open>leave\<close>
            by (subst dfs_loop.simps) (simp split: if_splits)
        next
          case new: False
          then have "dfs nb ident enter leave (?new @ (n, True) # rest) ?v ?t = Some trace'" "ident n < length visited"
            using body Cons x False \<open>leave\<close> by (auto simp: fold_push Let_def split: if_splits)
          then have "dfs_loop nb ident enter False (?new @ filter (\<lambda>x. \<not> snd x) rest) ?v (filter is_enter ?t) = Some (filter is_enter trace')"
            using IH [of nb ident enter leave "?new @ (n, True) # rest" ?v ?t] \<open>leave\<close> by (simp add: filter_map comp_def)
          then show ?thesis
            using new \<open>ident n < length visited\<close> Cons x False t by (subst dfs_loop.simps) (simp add: fold_push Let_def)
        qed
      qed
    qed
  qed
qed

end
