(* ===== verification/Graph_Algorithm.thy ===== *)
theory Graph_Algorithm
  imports Graph_Search
begin

text \<open>
  Algorithms on the graph of operations: the rest of \<open>graph/algorithm.cc\<close>, with the searches
  of \<open>Graph_Search\<close> on the neighbours of its nodes.
\<close>

section \<open>Pruning and completing\<close>

fun prune_loop :: "ptr list \<Rightarrow> ptr list \<Rightarrow> 'a graph \<Rightarrow> bool \<Rightarrow> (bool \<times> 'a graph) option" where
  "prune_loop visited [] g any_removed = Some (any_removed, g)"
| "prune_loop visited (n # all_nodes) g any_removed =
     (if n \<notin> set visited \<and> \<not> IsSource (node_at g n) \<and> \<not> IsSink (node_at g n)
      then Option.bind (RemoveNode n g) (\<lambda>g. prune_loop visited all_nodes g True)
      else prune_loop visited all_nodes g any_removed)"

text \<open>The set of targets is given in the order of its iteration.\<close>

definition PruneForReverseReachability :: "ptr list \<Rightarrow> 'a graph \<Rightarrow> (bool \<times> 'a graph) option" where
  "PruneForReverseReachability targets g =
     Option.bind (bfs_loop (in_nodes g) targets targets) (\<lambda>visited. prune_loop visited (nodes g) g False)"

definition fixup_source :: "ptr \<Rightarrow> 'a graph \<Rightarrow> bool \<Rightarrow> (bool \<times> 'a graph) option" where
  "fixup_source n g changed =
     (if \<not> IsSource (node_at g n) \<and> es_empty (in_edges (node_at g n))
      then map_option (\<lambda>(_, g). (True, g)) (AddControlEdge (source_node g) n g) else Some (changed, g))"

definition fixup_sink :: "ptr \<Rightarrow> 'a graph \<Rightarrow> bool \<Rightarrow> (bool \<times> 'a graph) option" where
  "fixup_sink n g changed =
     (if \<not> IsSink (node_at g n) \<and> es_empty (out_edges (node_at g n))
      then map_option (\<lambda>(_, g). (True, g)) (AddControlEdge n (sink_node g) g) else Some (changed, g))"

fun fixup_loop :: "ptr list \<Rightarrow> 'a graph \<Rightarrow> bool \<Rightarrow> (bool \<times> 'a graph) option" where
  "fixup_loop [] g changed = Some (changed, g)"
| "fixup_loop (n # ns) g changed =
     Option.bind (fixup_source n g changed) (\<lambda>(changed, g).
       Option.bind (fixup_sink n g changed) (\<lambda>(changed, g). fixup_loop ns g changed))"

definition FixupSourceAndSinkEdges :: "'a graph \<Rightarrow> (bool \<times> 'a graph) option" where
  "FixupSourceAndSinkEdges g = fixup_loop (nodes g) g False"

section \<open>The relation of the edges\<close>

definition edge_rel :: "'a graph \<Rightarrow> (ptr \<times> ptr) set" where
  "edge_rel g = {(p, q). \<exists>e \<in> live_edges g. e_src (edge_at g e) = Some p \<and> e_dst (edge_at g e) = Some q}"

lemma edge_rel_live: "wf_graph g \<Longrightarrow> (p, q) \<in> edge_rel g \<Longrightarrow> p \<in> live_nodes g \<and> q \<in> live_nodes g"
  by (fastforce simp: edge_rel_def wf_graph_def wf_parts_def edge_ok_def)

lemma live_node_ok: "wf_graph g \<Longrightarrow> p \<in> live_nodes g \<Longrightarrow> node_ok g p"
  by (simp add: wf_graph_def wf_parts_def)

lemma live_edge_ends:
  assumes "wf_graph g" "e \<in> live_edges g"
  obtains s d where "e_src (edge_at g e) = Some s" "e_dst (edge_at g e) = Some d" "s \<in> live_nodes g" "d \<in> live_nodes g"
  using assms by (auto simp: wf_graph_def wf_parts_def edge_ok_def)

lemma out_nodes_rel:
  assumes "wf_graph g" "p \<in> live_nodes g"
  shows "set (out_nodes g p) = {q. (p, q) \<in> edge_rel g}"
proof -
  have "set (out_nodes g p) = (\<lambda>e. the (e_dst (edge_at g e))) ` {e \<in> live_edges g. e_src (edge_at g e) = Some p}"
    using live_node_ok [OF assms] by (simp add: out_nodes_def node_ok_def)
  moreover have "q \<in> (\<lambda>e. the (e_dst (edge_at g e))) ` {e \<in> live_edges g. e_src (edge_at g e) = Some p} \<longleftrightarrow> (p, q) \<in> edge_rel g" for q
  proof
    assume "(p, q) \<in> edge_rel g"
    then show "q \<in> (\<lambda>e. the (e_dst (edge_at g e))) ` {e \<in> live_edges g. e_src (edge_at g e) = Some p}" by (force simp: edge_rel_def image_iff)
  next
    assume "q \<in> (\<lambda>e. the (e_dst (edge_at g e))) ` {e \<in> live_edges g. e_src (edge_at g e) = Some p}"
    then obtain e where e: "e \<in> live_edges g" "e_src (edge_at g e) = Some p" "q = the (e_dst (edge_at g e))" by blast
    then show "(p, q) \<in> edge_rel g" using live_edge_ends [OF assms(1) e(1)] unfolding edge_rel_def by force
  qed
  ultimately show ?thesis by blast
qed

lemma in_nodes_rel:
  assumes "wf_graph g" "p \<in> live_nodes g"
  shows "set (in_nodes g p) = {q. (q, p) \<in> edge_rel g}"
proof -
  have "set (in_nodes g p) = (\<lambda>e. the (e_src (edge_at g e))) ` {e \<in> live_edges g. e_dst (edge_at g e) = Some p}"
    using live_node_ok [OF assms] by (simp add: in_nodes_def node_ok_def)
  moreover have "q \<in> (\<lambda>e. the (e_src (edge_at g e))) ` {e \<in> live_edges g. e_dst (edge_at g e) = Some p} \<longleftrightarrow> (q, p) \<in> edge_rel g" for q
  proof
    assume "(q, p) \<in> edge_rel g"
    then show "q \<in> (\<lambda>e. the (e_src (edge_at g e))) ` {e \<in> live_edges g. e_dst (edge_at g e) = Some p}" by (force simp: edge_rel_def image_iff)
  next
    assume "q \<in> (\<lambda>e. the (e_src (edge_at g e))) ` {e \<in> live_edges g. e_dst (edge_at g e) = Some p}"
    then obtain e where e: "e \<in> live_edges g" "e_dst (edge_at g e) = Some p" "q = the (e_src (edge_at g e))" by blast
    then show "(q, p) \<in> edge_rel g" using live_edge_ends [OF assms(1) e(1)] unfolding edge_rel_def by force
  qed
  ultimately show ?thesis by blast
qed

lemma out_nodes_live: "wf_graph g \<Longrightarrow> p \<in> live_nodes g \<Longrightarrow> set (out_nodes g p) \<subseteq> live_nodes g"
  unfolding out_nodes_rel using edge_rel_live by blast

lemma in_nodes_live: "wf_graph g \<Longrightarrow> p \<in> live_nodes g \<Longrightarrow> set (in_nodes g p) \<subseteq> live_nodes g"
  unfolding in_nodes_rel using edge_rel_live by blast

lemma id_of_inj:
  assumes "wf_graph g"
  shows "inj_on (id_of g) (live_nodes g)"
proof (rule inj_onI)
  fix p q assume a: "p \<in> live_nodes g" "q \<in> live_nodes g" "id_of g p = id_of g q"
  have n: "numbered (\<lambda>p. n_id (node_at g p)) (g_nodes g)" using assms by (simp add: wf_graph_def wf_parts_def)
  have "g_nodes g ! id_of g p = Some p" "g_nodes g ! id_of g q = Some q" 
    using numbered_at [OF n a(1)] numbered_at [OF n a(2)] unfolding id_of_def by blast+
  then show "p = q" using a(3) by (metis option.inject)
qed

lemma id_of_bound: "wf_graph g \<Longrightarrow> p \<in> live_nodes g \<Longrightarrow> id_of g p < length (g_nodes g)"
  using numbered_at [of "\<lambda>p. n_id (node_at g p)" "g_nodes g" p] by (simp add: wf_graph_def wf_parts_def id_of_def)

interpretation fwd: neighbourhood wf_graph "\<lambda>g. live_nodes g" out_nodes id_of "\<lambda>g. length (g_nodes g)"
  by unfold_locales (rule finite_live out_nodes_live id_of_inj id_of_bound; assumption)+

interpretation bwd: neighbourhood wf_graph "\<lambda>g. live_nodes g" in_nodes id_of "\<lambda>g. length (g_nodes g)"
  by unfold_locales (rule finite_live in_nodes_live id_of_inj id_of_bound; assumption)+

lemma fwd_reach:
  assumes wf: "wf_graph g" and a: "a \<in> live_nodes g"
  shows "fwd.reach g a b \<longleftrightarrow> (a, b) \<in> (edge_rel g)\<^sup>*"
proof
  assume "fwd.reach g a b"
  then have "(a, b) \<in> (edge_rel g)\<^sup>* \<and> b \<in> live_nodes g"
    unfolding fwd.reach_def
  proof (induction rule: rtranclp_induct)
    case (step y z)
    then have "(y, z) \<in> edge_rel g" using out_nodes_rel [OF wf] by blast
    then show ?case using step.IH edge_rel_live [OF wf] by (meson rtrancl_into_rtrancl)
  qed (simp add: a)
  then show "(a, b) \<in> (edge_rel g)\<^sup>*" ..
next
  assume "(a, b) \<in> (edge_rel g)\<^sup>*"
  then have "fwd.reach g a b \<and> b \<in> live_nodes g"
  proof (induction rule: rtrancl_induct)
    case (step y z)
    then have "z \<in> set (out_nodes g y)" using out_nodes_rel [OF wf] by blast
    then show ?case using step.IH fwd.reach_next [of g a y z] out_nodes_live [OF wf] by blast
  qed (simp add: a)
  then show "fwd.reach g a b" ..
qed

lemma bwd_reach:
  assumes wf: "wf_graph g" and a: "a \<in> live_nodes g"
  shows "bwd.reach g a b \<longleftrightarrow> (b, a) \<in> (edge_rel g)\<^sup>*"
proof
  assume "bwd.reach g a b"
  then have "(b, a) \<in> (edge_rel g)\<^sup>* \<and> b \<in> live_nodes g"
    unfolding bwd.reach_def
  proof (induction rule: rtranclp_induct)
    case (step y z)
    then have "(z, y) \<in> edge_rel g" using in_nodes_rel [OF wf] by blast
    then show ?case using step.IH edge_rel_live [OF wf] by (meson converse_rtrancl_into_rtrancl)
  qed (simp add: a)
  then show "(b, a) \<in> (edge_rel g)\<^sup>*" ..
next
  assume "(b, a) \<in> (edge_rel g)\<^sup>*"
  then have "bwd.reach g a b \<and> b \<in> live_nodes g"
  proof (induction rule: converse_rtrancl_induct)
    case (step y z)
    then have "y \<in> set (in_nodes g z)" using in_nodes_rel [OF wf] by blast
    then show ?case using step.IH bwd.reach_next [of g a z y] in_nodes_live [OF wf] by blast
  qed (simp add: a)
  then show "bwd.reach g a b" ..
qed

section \<open>Orders\<close>

lemma DFS_reaches:
  assumes wf: "wf_graph g"
  shows "\<exists>trace. DFS enter True g = Some trace \<and> distinct (left_nodes trace) \<and> set (left_nodes trace) = (edge_rel g)\<^sup>* `` {source_node g} \<and>
    distinct (entered_nodes trace) \<and> set (entered_nodes trace) = (if enter then (edge_rel g)\<^sup>* `` {source_node g} else {}) \<and>
    (\<forall>xs n ys m. left_nodes trace = xs @ n # ys \<longrightarrow> (n, m) \<in> edge_rel g \<longrightarrow> m \<in> set xs \<or> (m, n) \<in> (edge_rel g)\<^sup>*)"
proof -
  have s: "source_node g \<in> live_nodes g" using roots_live [OF wf] by blast
  obtain trace where t: "DFS enter True g = Some trace" "distinct (left_nodes trace)" "set (left_nodes trace) = {n. fwd.reach g (source_node g) n}"
      "fwd.ordered g (left_nodes trace)" "distinct (entered_nodes trace)"
      "set (entered_nodes trace) = (if enter then {n. fwd.reach g (source_node g) n} else {})"
    using fwd.dfs_correct [OF wf s, of enter] by (auto simp: DFS_def)
  have r: "{n. fwd.reach g (source_node g) n} = (edge_rel g)\<^sup>* `` {source_node g}" using fwd_reach [OF wf s] by auto
  have "m \<in> set xs \<or> (m, n) \<in> (edge_rel g)\<^sup>*" if "left_nodes trace = xs @ n # ys" "(n, m) \<in> edge_rel g" for xs n ys m
  proof -
    have l: "n \<in> live_nodes g" "m \<in> live_nodes g" using edge_rel_live [OF wf that(2)] by auto
    then have "m \<in> set (out_nodes g n)" using that(2) out_nodes_rel [OF wf] by blast
    then show ?thesis using t(4) that(1) fwd_reach [OF wf l(2)] unfolding fwd.ordered_def by blast
  qed
  then show ?thesis using t r by auto
qed

lemma ReverseDFS_reaches:
  assumes wf: "wf_graph g"
  shows "\<exists>trace. ReverseDFS enter True g = Some trace \<and> distinct (left_nodes trace) \<and> set (left_nodes trace) = ((edge_rel g)\<inverse>)\<^sup>* `` {sink_node g} \<and>
    distinct (entered_nodes trace) \<and> set (entered_nodes trace) = (if enter then ((edge_rel g)\<inverse>)\<^sup>* `` {sink_node g} else {}) \<and>
    (\<forall>xs n ys m. left_nodes trace = xs @ n # ys \<longrightarrow> (m, n) \<in> edge_rel g \<longrightarrow> m \<in> set xs \<or> (n, m) \<in> (edge_rel g)\<^sup>*)"
proof -
  have s: "sink_node g \<in> live_nodes g" using roots_live [OF wf] by blast
  obtain trace where t: "ReverseDFS enter True g = Some trace" "distinct (left_nodes trace)" "set (left_nodes trace) = {n. bwd.reach g (sink_node g) n}"
      "bwd.ordered g (left_nodes trace)" "distinct (entered_nodes trace)"
      "set (entered_nodes trace) = (if enter then {n. bwd.reach g (sink_node g) n} else {})"
    using bwd.dfs_correct [OF wf s, of enter] by (auto simp: ReverseDFS_def)
  have r: "{n. bwd.reach g (sink_node g) n} = ((edge_rel g)\<inverse>)\<^sup>* `` {sink_node g}" using bwd_reach [OF wf s] by (auto simp: rtrancl_converse)
  have "m \<in> set xs \<or> (n, m) \<in> (edge_rel g)\<^sup>*" if "left_nodes trace = xs @ n # ys" "(m, n) \<in> edge_rel g" for xs n ys m
  proof -
    have l: "n \<in> live_nodes g" "m \<in> live_nodes g" using edge_rel_live [OF wf that(2)] by auto
    then have "m \<in> set (in_nodes g n)" using that(2) in_nodes_rel [OF wf] by blast
    then show ?thesis using t(4) that(1) bwd_reach [OF wf l(2)] unfolding bwd.ordered_def by blast
  qed
  then show ?thesis using t r by auto
qed

lemma GetReversePostOrder_reaches:
  assumes wf: "wf_graph g"
  shows "\<exists>order. GetReversePostOrder g = Some order \<and> distinct order \<and> set order = (edge_rel g)\<^sup>* `` {source_node g} \<and>
    (\<forall>xs n ys m. order = xs @ n # ys \<longrightarrow> (n, m) \<in> edge_rel g \<longrightarrow> m \<in> set ys \<or> (m, n) \<in> (edge_rel g)\<^sup>*)"
proof -
  obtain trace where t: "DFS False True g = Some trace" "distinct (left_nodes trace)" "set (left_nodes trace) = (edge_rel g)\<^sup>* `` {source_node g}"
      "\<forall>xs n ys m. left_nodes trace = xs @ n # ys \<longrightarrow> (n, m) \<in> edge_rel g \<longrightarrow> m \<in> set xs \<or> (m, n) \<in> (edge_rel g)\<^sup>*"
    using DFS_reaches [OF wf, of False] by blast
  have "m \<in> set ys \<or> (m, n) \<in> (edge_rel g)\<^sup>*" if "rev (left_nodes trace) = xs @ n # ys" "(n, m) \<in> edge_rel g" for xs n ys m
  proof -
    have "left_nodes trace = rev ys @ n # rev xs" using that(1) by (simp add: rev_swap)
    from t(4) [rule_format, OF this that(2)] show ?thesis by simp
  qed
  then show ?thesis using t(1-3) by (simp add: GetReversePostOrder_def GetPostOrder_def)
qed

lemma acyclic_no_return:
  assumes "acyclic r" "(n, m) \<in> r"
  shows "(m, n) \<notin> r\<^sup>*"
  using assms by (metis acyclic_def rtrancl_into_trancl2)

section \<open>Pruning\<close>

lemma IsSource_keep: "wf_graph g \<Longrightarrow> p \<in> live_nodes g \<Longrightarrow> \<not> IsSource (node_at g p) \<and> \<not> IsSink (node_at g p) \<longleftrightarrow> p \<noteq> source_node g \<and> p \<noteq> sink_node g"
  using IsSource_iff IsSink_iff by blast

text \<open>Part of a graph: some nodes with all the edges between them.\<close>

definition restricted :: "ptr set \<Rightarrow> 'a graph \<Rightarrow> 'a graph \<Rightarrow> bool" where
  "restricted K g g' \<longleftrightarrow> live_nodes g' = live_nodes g \<inter> K \<and>
     live_edges g' = {e \<in> live_edges g. the (e_src (edge_at g e)) \<in> K \<and> the (e_dst (edge_at g e)) \<in> K} \<and>
     (\<forall>e \<in> live_edges g'. edge_at g' e = edge_at g e) \<and> (\<forall>p \<in> live_nodes g'. node_data (node_at g' p) = node_data (node_at g p)) \<and>
     source_node g' = source_node g \<and> sink_node g' = sink_node g"

lemma edge_ends:
  assumes "wf_graph g" "e \<in> live_edges g"
  shows "e_src (edge_at g e) = Some (the (e_src (edge_at g e)))" "e_dst (edge_at g e) = Some (the (e_dst (edge_at g e)))"
    "the (e_src (edge_at g e)) \<in> live_nodes g" "the (e_dst (edge_at g e)) \<in> live_nodes g"
  by (rule live_edge_ends [OF assms], simp)+

lemma restricted_refl: "wf_graph g \<Longrightarrow> live_nodes g \<subseteq> K \<Longrightarrow> restricted K g g"
  unfolding restricted_def using edge_ends(3,4) [of g] by blast

lemma restricted_remove:
  assumes wf: "wf_graph g" and p: "p \<in> live_nodes g" "p \<noteq> source_node g" "p \<noteq> sink_node g"
  obtains g' where "RemoveNode p g = Some g'" "wf_graph g'" "restricted (- {p}) g g'"
proof -
  have "\<not> IsSource (node_at g p)" "\<not> IsSink (node_at g p)" using IsSource_keep [OF wf p(1)] p(2,3) by blast+
  then obtain g' where g': "RemoveNode p g = Some g'" "wf_graph g'" "live_nodes g' = live_nodes g - {p}"
      "\<And>q. q \<noteq> p \<Longrightarrow> node_data (node_at g' q) = node_data (node_at g q)" "source_node g' = source_node g" "sink_node g' = sink_node g"
      "live_edges g' = {e \<in> live_edges g. e_src (edge_at g e) \<noteq> Some p \<and> e_dst (edge_at g e) \<noteq> Some p}"
      "\<And>e. e \<in> live_edges g' \<Longrightarrow> edge_at g' e = edge_at g e"
    using RemoveNode_view [OF wf p(1)] by blast
  have "live_edges g' = {e \<in> live_edges g. the (e_src (edge_at g e)) \<in> - {p} \<and> the (e_dst (edge_at g e)) \<in> - {p}}"
  proof -
    have "(e_src (edge_at g e) \<noteq> Some p \<and> e_dst (edge_at g e) \<noteq> Some p) \<longleftrightarrow> the (e_src (edge_at g e)) \<in> - {p} \<and> the (e_dst (edge_at g e)) \<in> - {p}"
      if "e \<in> live_edges g" for e using edge_ends(1,2) [OF wf that] by (metis ComplD ComplI insertCI option.sel singletonD)
    then show ?thesis using g'(7) by blast
  qed
  then have "restricted (- {p}) g g'" using g'(3-6,8) unfolding restricted_def by auto
  then show thesis using that g'(1,2) by blast
qed

lemma restricted_trans:
  assumes "restricted K g g1" "restricted L g1 g2"
  shows "restricted (K \<inter> L) g g2"
proof -
  note a = assms(1) [unfolded restricted_def] and b = assms(2) [unfolded restricted_def]
  have "e \<in> live_edges g2 \<longleftrightarrow> e \<in> {e \<in> live_edges g. the (e_src (edge_at g e)) \<in> K \<inter> L \<and> the (e_dst (edge_at g e)) \<in> K \<inter> L}" for e
    using a b by (cases "e \<in> live_edges g1") auto
  then have "live_edges g2 = {e \<in> live_edges g. the (e_src (edge_at g e)) \<in> K \<inter> L \<and> the (e_dst (edge_at g e)) \<in> K \<inter> L}" by blast
  then show ?thesis using a b unfolding restricted_def by auto
qed

lemma restricted_mono:
  assumes "restricted K g g'" "wf_graph g" "live_nodes g \<inter> K = live_nodes g \<inter> L"
  shows "restricted L g g'"
proof -
  have "(the (e_src (edge_at g e)) \<in> K \<and> the (e_dst (edge_at g e)) \<in> K) \<longleftrightarrow> the (e_src (edge_at g e)) \<in> L \<and> the (e_dst (edge_at g e)) \<in> L"
    if "e \<in> live_edges g" for e using edge_ends(3,4) [OF assms(2) that] assms(3) by blast
  then show ?thesis using assms(1,3) unfolding restricted_def by auto
qed

lemma prune_loop_ok:
  assumes "wf_graph g" "set ns \<subseteq> live_nodes g" "distinct ns"
  shows "\<exists>g'. prune_loop visited ns g any =
      Some (any \<or> (\<exists>n \<in> set ns. n \<notin> set visited \<union> {source_node g, sink_node g}), g') \<and> wf_graph g' \<and>
    restricted (- (set ns - (set visited \<union> {source_node g, sink_node g}))) g g'"
  using assms
proof (induction ns arbitrary: g any)
  case Nil
  then show ?case using restricted_refl [of g UNIV] by simp
next
  case (Cons n ns)
  have n: "n \<in> live_nodes g" using Cons.prems by simp
  show ?case
  proof (cases "n \<in> set visited \<union> {source_node g, sink_node g}")
    case True
    then have "prune_loop visited (n # ns) g any = prune_loop visited ns g any"
      using IsSource_keep [OF Cons.prems(1) n] by auto
    moreover have "set (n # ns) - (set visited \<union> {source_node g, sink_node g}) = set ns - (set visited \<union> {source_node g, sink_node g})" using True by auto
    ultimately show ?thesis using Cons True by auto
  next
    case False
    then obtain g1 where g1: "RemoveNode n g = Some g1" "wf_graph g1" "restricted (- {n}) g g1"
      using restricted_remove [OF Cons.prems(1) n] by blast
    have r: "source_node g1 = source_node g" "sink_node g1 = sink_node g" "live_nodes g1 = live_nodes g - {n}" using g1(3) by (auto simp: restricted_def)
    have "prune_loop visited (n # ns) g any = prune_loop visited ns g1 True"
      using False g1(1) IsSource_keep [OF Cons.prems(1) n] by auto
    moreover obtain g' where g': "prune_loop visited ns g1 True = Some (True, g')" "wf_graph g'"
        "restricted (- (set ns - (set visited \<union> {source_node g, sink_node g}))) g1 g'"
      using Cons.IH [OF g1(2), of True] Cons.prems(2,3) r by (force simp: subset_eq)
    moreover have "- {n} \<inter> - (set ns - (set visited \<union> {source_node g, sink_node g})) = - (set (n # ns) - (set visited \<union> {source_node g, sink_node g}))"
      using False by auto
    ultimately show ?thesis using restricted_trans [OF g1(3) g'(3)] False by auto
  qed
qed

lemma prune_exact:
  assumes wf: "wf_graph g" and t: "set targets \<subseteq> live_nodes g"
  defines "K \<equiv> {p. \<exists>t \<in> set targets. (p, t) \<in> (edge_rel g)\<^sup>*} \<union> {source_node g, sink_node g}"
  shows "\<exists>g'. PruneForReverseReachability targets g = Some (\<not> live_nodes g \<subseteq> K, g') \<and> wf_graph g' \<and> restricted K g g'"
proof -
  obtain v where v: "bfs_loop (in_nodes g) targets targets = Some v" "set v = {n. \<exists>r \<in> set targets. bwd.reach g r n}"
    using bwd.bfs_correct [OF wf t] by blast
  have "set v = {p. \<exists>t \<in> set targets. (p, t) \<in> (edge_rel g)\<^sup>*}" using v(2) bwd_reach [OF wf] t by blast
  then have K: "set v \<union> {source_node g, sink_node g} = K" by (simp add: K_def)
  have nodes: "set (nodes g) = live_nodes g" "distinct (nodes g)"
    using nodes_live nodes_distinct wf by (auto simp: wf_graph_def wf_parts_def)
  obtain g' where g': "prune_loop v (nodes g) g False = Some (\<exists>n \<in> live_nodes g. n \<notin> K, g')" "wf_graph g'" "restricted (- (live_nodes g - K)) g g'"
    using prune_loop_ok [OF wf, of "nodes g" v False] nodes unfolding K by auto
  have "restricted K g g'" using g'(3) wf by (rule restricted_mono) blast
  moreover have "(\<exists>n \<in> live_nodes g. n \<notin> K) \<longleftrightarrow> \<not> live_nodes g \<subseteq> K" by blast
  ultimately show ?thesis using g'(1,2) v(1) by (simp add: PruneForReverseReachability_def)
qed

section \<open>Completing\<close>

definition has_in :: "'a graph \<Rightarrow> ptr \<Rightarrow> bool" where
  "has_in g p \<longleftrightarrow> (\<exists>e \<in> live_edges g. e_dst (edge_at g e) = Some p)"

definition has_out :: "'a graph \<Rightarrow> ptr \<Rightarrow> bool" where
  "has_out g p \<longleftrightarrow> (\<exists>e \<in> live_edges g. e_src (edge_at g e) = Some p)"

text \<open>A new edge leads from the source to a node without inputs, or to the sink from a node without outputs.\<close>

definition missing :: "'a graph \<Rightarrow> ptr \<Rightarrow> ptr \<Rightarrow> bool" where
  "missing g s d \<longleftrightarrow> s = source_node g \<and> d \<noteq> source_node g \<and> \<not> has_in g d \<or> d = sink_node g \<and> s \<noteq> sink_node g \<and> \<not> has_out g s"

definition grown :: "'a graph \<Rightarrow> 'a graph \<Rightarrow> bool" where
  "grown g g' \<longleftrightarrow> same_nodes g g' \<and> (\<forall>e \<in> live_edges g. e \<in> live_edges g' \<and> edge_at g' e = edge_at g e) \<and>
     (\<forall>e \<in> live_edges g' - live_edges g. IsControlEdge (edge_at g' e) \<and> missing g (the (e_src (edge_at g' e))) (the (e_dst (edge_at g' e))))"

lemma es_empty_has:
  assumes "wf_graph g" "p \<in> live_nodes g"
  shows "es_empty (in_edges (node_at g p)) \<longleftrightarrow> \<not> has_in g p" "es_empty (out_edges (node_at g p)) \<longleftrightarrow> \<not> has_out g p"
proof -
  have n: "node_ok g p" using live_node_ok [OF assms] .
  then have "good_es (in_edges (node_at g p))" "good_es (out_edges (node_at g p))" by (simp_all add: node_ok_def)
  then have e: "es_empty (in_edges (node_at g p)) \<longleftrightarrow> set (es_iter (in_edges (node_at g p))) = {}"
    "es_empty (out_edges (node_at g p)) \<longleftrightarrow> set (es_iter (out_edges (node_at g p))) = {}"
    by (simp_all add: es_empty_iter)
  have s: "set (es_iter (in_edges (node_at g p))) = {e \<in> live_edges g. e_dst (edge_at g e) = Some p}"
    "set (es_iter (out_edges (node_at g p))) = {e \<in> live_edges g. e_src (edge_at g e) = Some p}"
    using n unfolding node_ok_def by blast+
  show "es_empty (in_edges (node_at g p)) \<longleftrightarrow> \<not> has_in g p" "es_empty (out_edges (node_at g p)) \<longleftrightarrow> \<not> has_out g p"
    unfolding e s has_in_def has_out_def by blast+
qed

lemma grown_refl: "grown g g"
  by (simp add: grown_def)

lemma grown_has: "grown g g' \<Longrightarrow> has_in g p \<Longrightarrow> has_in g' p" "grown g g' \<Longrightarrow> has_out g p \<Longrightarrow> has_out g' p"
  unfolding grown_def has_in_def has_out_def by force+

lemma grown_nodes: "grown g g' \<Longrightarrow> live_nodes g' = live_nodes g \<and> source_node g' = source_node g \<and> sink_node g' = sink_node g"
  using same_nodes_roots by (auto simp: grown_def same_nodes_def)

lemma grown_trans:
  assumes "grown g g1" "grown g1 g2"
  shows "grown g g2"
proof -
  have m: "missing g s d" if "missing g1 s d" for s d
    using that grown_has [OF assms(1)] grown_nodes [OF assms(1)] unfolding missing_def by metis
  show ?thesis
    unfolding grown_def
  proof (intro conjI ballI)
    show "same_nodes g g2" using assms same_nodes_trans unfolding grown_def by blast
    show "e \<in> live_edges g2" "edge_at g2 e = edge_at g e" if "e \<in> live_edges g" for e using assms that unfolding grown_def by auto
    fix e assume e: "e \<in> live_edges g2 - live_edges g"
    have "IsControlEdge (edge_at g2 e) \<and> missing g (the (e_src (edge_at g2 e))) (the (e_dst (edge_at g2 e)))"
      using assms m e unfolding grown_def by (cases "e \<in> live_edges g1") auto
    then show "IsControlEdge (edge_at g2 e)" "missing g (the (e_src (edge_at g2 e))) (the (e_dst (edge_at g2 e)))" by auto
  qed
qed

lemma add_missing:
  assumes wf: "wf_graph g" and n: "s \<in> live_nodes g" "d \<in> live_nodes g" and m: "missing g s d"
  obtains e g' where "AddControlEdge s d g = Some (e, g')" "wf_graph g'" "grown g g'" "has_in g' d" "has_out g' s" "live_edges g' \<noteq> live_edges g"
proof -
  have "slots_ok g s kControlSlot d kControlSlot" by (simp add: slots_ok_def)
  from AddEdge_view [OF wf n this] obtain e g' where g': "AddEdge s kControlSlot d kControlSlot g = Some (e, g')" "wf_graph g'" "same_nodes g g'"
      "e \<notin> live_edges g" "live_edges g' = insert e (live_edges g)" "\<forall>e' \<in> live_edges g. edge_at g' e' = edge_at g e'"
      "e_src (edge_at g' e) = Some s" "e_dst (edge_at g' e) = Some d" "src_output (edge_at g' e) = kControlSlot"
    by blast
  have "live_edges g' - live_edges g = {e}" using g'(4,5) by auto
  then have "grown g g'" using g'(3,5-9) m by (simp add: grown_def IsControlEdge_def)
  moreover have "has_in g' d" "has_out g' s" using g'(5,7,8) by (auto simp: has_in_def has_out_def)
  ultimately show thesis using that g'(1,2,4,5) by (simp add: AddControlEdge_def) blast
qed

lemma fixup_source_ok:
  assumes wf: "wf_graph g" and n: "n \<in> live_nodes g"
  shows "\<exists>g'. fixup_source n g c = Some (c \<or> live_edges g' \<noteq> live_edges g, g') \<and> wf_graph g' \<and> grown g g' \<and> (n = source_node g \<or> has_in g' n)"
proof (cases "n = source_node g \<or> has_in g n")
  case True
  then have "fixup_source n g c = Some (c, g)" using es_empty_has(1) [OF assms] IsSource_iff [OF assms] by (auto simp: fixup_source_def)
  then show ?thesis using wf True grown_refl by auto
next
  case False
  then have "missing g (source_node g) n" by (simp add: missing_def)
  then obtain e g' where "AddControlEdge (source_node g) n g = Some (e, g')" "wf_graph g'" "grown g g'" "has_in g' n" "live_edges g' \<noteq> live_edges g"
    using add_missing [OF wf _ n] roots_live(1) [OF wf] by metis
  then show ?thesis using False es_empty_has(1) [OF assms] IsSource_iff [OF assms] by (simp add: fixup_source_def)
qed

lemma fixup_sink_ok:
  assumes wf: "wf_graph g" and n: "n \<in> live_nodes g"
  shows "\<exists>g'. fixup_sink n g c = Some (c \<or> live_edges g' \<noteq> live_edges g, g') \<and> wf_graph g' \<and> grown g g' \<and> (n = sink_node g \<or> has_out g' n)"
proof (cases "n = sink_node g \<or> has_out g n")
  case True
  then have "fixup_sink n g c = Some (c, g)" using es_empty_has(2) [OF assms] IsSink_iff [OF assms] by (auto simp: fixup_sink_def)
  then show ?thesis using wf True grown_refl by auto
next
  case False
  then have "missing g n (sink_node g)" by (simp add: missing_def)
  then obtain e g' where "AddControlEdge n (sink_node g) g = Some (e, g')" "wf_graph g'" "grown g g'" "has_out g' n" "live_edges g' \<noteq> live_edges g"
    using add_missing [OF wf n] roots_live(2) [OF wf] by metis
  then show ?thesis using False es_empty_has(2) [OF assms] IsSink_iff [OF assms] by (simp add: fixup_sink_def)
qed

lemma grown_edges: "grown g g' \<Longrightarrow> live_edges g \<subseteq> live_edges g'"
  by (auto simp: grown_def)

lemma fixup_loop_ok:
  assumes "wf_graph g" "set ns \<subseteq> live_nodes g"
  shows "\<exists>g'. fixup_loop ns g c = Some (c \<or> live_edges g' \<noteq> live_edges g, g') \<and> wf_graph g' \<and> grown g g' \<and>
    (\<forall>n \<in> set ns. (n = source_node g \<or> has_in g' n) \<and> (n = sink_node g \<or> has_out g' n))"
  using assms
proof (induction ns arbitrary: g c)
  case Nil
  then show ?case using grown_refl by auto
next
  case (Cons n ns)
  have n: "n \<in> live_nodes g" using Cons.prems by simp
  obtain g1 where g1: "fixup_source n g c = Some (c \<or> live_edges g1 \<noteq> live_edges g, g1)" "wf_graph g1" "grown g g1" "n = source_node g \<or> has_in g1 n"
    using fixup_source_ok [OF Cons.prems(1) n] by blast
  have n1: "n \<in> live_nodes g1" using n grown_nodes [OF g1(3)] by simp
  obtain g2 where g2: "fixup_sink n g1 (c \<or> live_edges g1 \<noteq> live_edges g) = Some ((c \<or> live_edges g1 \<noteq> live_edges g) \<or> live_edges g2 \<noteq> live_edges g1, g2)"
      "wf_graph g2" "grown g1 g2" "n = sink_node g1 \<or> has_out g2 n"
    using fixup_sink_ok [OF g1(2) n1] by blast
  have gr: "grown g g2" using g1(3) g2(3) by (rule grown_trans)
  have sub: "set ns \<subseteq> live_nodes g2" using Cons.prems(2) grown_nodes [OF gr] by simp
  define c2 where "c2 = ((c \<or> live_edges g1 \<noteq> live_edges g) \<or> live_edges g2 \<noteq> live_edges g1)"
  obtain g3 where g3: "fixup_loop ns g2 c2 = Some (c2 \<or> live_edges g3 \<noteq> live_edges g2, g3)" "wf_graph g3" "grown g2 g3"
      "\<forall>n \<in> set ns. (n = source_node g2 \<or> has_in g3 n) \<and> (n = sink_node g2 \<or> has_out g3 n)"
    using Cons.IH [OF g2(2) sub] by blast
  have "(c2 \<or> live_edges g3 \<noteq> live_edges g2) = (c \<or> live_edges g3 \<noteq> live_edges g)"
    using grown_edges [OF g1(3)] grown_edges [OF g2(3)] grown_edges [OF g3(3)] unfolding c2_def by blast
  moreover have "fixup_loop (n # ns) g c = fixup_loop ns g2 c2" using g1(1) g2(1) by (simp add: c2_def)
  moreover have "(n = source_node g \<or> has_in g3 n) \<and> (n = sink_node g \<or> has_out g3 n)"
    using g1(4) g2(4) grown_nodes [OF g1(3)] grown_has(1) [OF grown_trans [OF g2(3) g3(3)]] grown_has(2) [OF g3(3)] by auto
  ultimately show ?case
    using g3 grown_trans [OF gr g3(3)] grown_nodes [OF gr] by (intro exI [of _ g3]) auto
qed

lemma fixup_exact:
  assumes wf: "wf_graph g"
  shows "\<exists>g'. FixupSourceAndSinkEdges g = Some (live_edges g' \<noteq> live_edges g, g') \<and> wf_graph g' \<and> grown g g' \<and>
    (\<forall>n \<in> live_nodes g. (n = source_node g \<or> has_in g' n) \<and> (n = sink_node g \<or> has_out g' n))"
  using fixup_loop_ok [OF wf, of "nodes g" False] nodes_live [of g] by (simp add: FixupSourceAndSinkEdges_def)

section \<open>The order of a completed graph\<close>

text \<open>Edges out of a source and into a sink make no cycle.\<close>

lemma acyclic_extend:
  assumes r: "acyclic r" and sub: "r' \<subseteq> r \<union> {s} \<times> UNIV \<union> UNIV \<times> {t}" and s: "\<And>a. (a, s) \<notin> r'" and t: "\<And>a. (t, a) \<notin> r'"
  shows "acyclic r'"
proof -
  have main: "(x, y) \<in> r\<^sup>+ \<or> x = s \<or> y = t" if "(x, y) \<in> r'\<^sup>+" for x y
    using that
  proof (induction rule: trancl_induct)
    case (base y)
    then show ?case using sub by auto
  next
    case (step y z)
    have "y \<noteq> s" using step.hyps(1) s by (auto elim: tranclE)
    then have "(y, z) \<in> r \<or> z = t" using step.hyps(2) sub by auto
    moreover have "y \<noteq> t" using step.hyps(2) t by auto
    ultimately show ?case using step.IH by (meson trancl_into_trancl)
  qed
  show ?thesis
    unfolding acyclic_def
  proof (intro allI notI)
    fix x assume x: "(x, x) \<in> r'\<^sup>+"
    then have "x \<noteq> s" "x \<noteq> t" using s t by (auto elim: tranclE dest: tranclD)
    then show False using main [OF x] r by (auto simp: acyclic_def)
  qed
qed

lemma grown_rel:
  assumes wf: "wf_graph g" "wf_graph g'" and gr: "grown g g'"
    and ends: "\<not> has_in g (source_node g)" "\<not> has_out g (sink_node g)"
  shows "edge_rel g' \<subseteq> edge_rel g \<union> {source_node g} \<times> UNIV \<union> UNIV \<times> {sink_node g}"
    "(a, source_node g) \<notin> edge_rel g'" "(sink_node g, a) \<notin> edge_rel g'"
proof -
  have e: "(p, q) \<in> edge_rel g \<or> missing g p q" if pq: "(p, q) \<in> edge_rel g'" for p q
  proof -
    obtain e where e: "e \<in> live_edges g'" "e_src (edge_at g' e) = Some p" "e_dst (edge_at g' e) = Some q" using pq by (auto simp: edge_rel_def)
    then show ?thesis using gr unfolding grown_def edge_rel_def by (cases "e \<in> live_edges g") force+
  qed
  have ne: "source_node g \<noteq> sink_node g" using roots_live(5) [OF wf(1)] .
  show "edge_rel g' \<subseteq> edge_rel g \<union> {source_node g} \<times> UNIV \<union> UNIV \<times> {sink_node g}"
    using e by (auto simp: missing_def)
  show "(a, source_node g) \<notin> edge_rel g'" using e [of a "source_node g"] ends ne by (auto simp: missing_def edge_rel_def has_in_def)
  show "(sink_node g, a) \<notin> edge_rel g'" using e [of "sink_node g" a] ends ne by (auto simp: missing_def edge_rel_def has_out_def)
qed

lemma all_from_source:
  assumes wf: "wf_graph g" and ac: "acyclic (edge_rel g)" and inp: "\<And>n. n \<in> live_nodes g \<Longrightarrow> n = source_node g \<or> has_in g n" and p: "p \<in> live_nodes g"
  shows "(source_node g, p) \<in> (edge_rel g)\<^sup>*"
proof -
  have "finite (edge_rel g)" by (rule finite_subset [of _ "live_nodes g \<times> live_nodes g"]) (use edge_rel_live [OF wf] in auto)
  then have "wf (edge_rel g)" using ac by (rule finite_acyclic_wf)
  then show ?thesis using p
  proof (induction p)
    case (less p)
    show ?case
    proof (cases "p = source_node g")
      case False
      then obtain e where e: "e \<in> live_edges g" "e_dst (edge_at g e) = Some p" using inp [OF less.prems] by (auto simp: has_in_def)
      then obtain q where q: "(q, p) \<in> edge_rel g" using edge_ends(1) [OF wf e(1)] unfolding edge_rel_def by blast
      then show ?thesis using less.IH edge_rel_live [OF wf q] by (meson rtrancl_into_rtrancl)
    qed simp
  qed
qed

section \<open>Properties\<close>

lemma DFS_flags:
  assumes wf: "wf_graph g"
  shows "\<exists>trace. DFS enter leave g = Some trace \<and> distinct (entered_nodes trace) \<and> distinct (left_nodes trace) \<and>
    set (entered_nodes trace) = (if enter then (edge_rel g)\<^sup>* `` {source_node g} else {}) \<and>
    set (left_nodes trace) = (if leave then (edge_rel g)\<^sup>* `` {source_node g} else {})"
proof (cases leave)
  case True
  then show ?thesis using DFS_reaches [OF wf, of enter] by auto
next
  case False
  obtain trace where t: "DFS enter True g = Some trace" "distinct (entered_nodes trace)"
      "set (entered_nodes trace) = (if enter then (edge_rel g)\<^sup>* `` {source_node g} else {})"
    using DFS_reaches [OF wf, of enter] by blast
  have "DFS enter False g = Some (filter is_enter trace)"
    using dfs_enter_only [OF t(1) [unfolded DFS_def]] by (simp add: DFS_def)
  then show ?thesis using t(2,3) False by auto
qed

lemma ReverseDFS_flags:
  assumes wf: "wf_graph g"
  shows "\<exists>trace. ReverseDFS enter leave g = Some trace \<and> distinct (entered_nodes trace) \<and> distinct (left_nodes trace) \<and>
    set (entered_nodes trace) = (if enter then ((edge_rel g)\<inverse>)\<^sup>* `` {sink_node g} else {}) \<and>
    set (left_nodes trace) = (if leave then ((edge_rel g)\<inverse>)\<^sup>* `` {sink_node g} else {})"
proof (cases leave)
  case True
  then show ?thesis using ReverseDFS_reaches [OF wf, of enter] by auto
next
  case False
  obtain trace where t: "ReverseDFS enter True g = Some trace" "distinct (entered_nodes trace)"
      "set (entered_nodes trace) = (if enter then ((edge_rel g)\<inverse>)\<^sup>* `` {sink_node g} else {})"
    using ReverseDFS_reaches [OF wf, of enter] by blast
  have "ReverseDFS enter False g = Some (filter is_enter trace)"
    using dfs_enter_only [OF t(1) [unfolded ReverseDFS_def]] by (simp add: ReverseDFS_def)
  then show ?thesis using t(2,3) False by auto
qed

text \<open>A graph of the source, the sink and two unconnected nodes.\<close>

definition demo_add :: "string \<Rightarrow> unit graph \<Rightarrow> unit graph option" where
  "demo_add name g = (case AddNode demo_types (no_op name ()) g of Some (Inr (_, g)) \<Rightarrow> Some g | _ \<Rightarrow> None)"

definition demo_graph :: "unit graph option" where
  "demo_graph = Option.bind (Graph demo_types () (\<lambda>n. 8 * n)) (\<lambda>g. Option.bind (demo_add ''a'' g) (demo_add ''b''))"

lemma demo_add_reachable: "demo_add name g = Some g' \<Longrightarrow> reachable_graph demo_types () g \<Longrightarrow> reachable_graph demo_types () g'"
  unfolding demo_add_def by (auto split: option.splits sum.splits prod.splits intro: reachable_graph.add_node)

lemma demo_wf:
  assumes "demo_graph = Some g"
  shows "wf_graph g"
proof -
  have inj: "inj (\<lambda>n :: nat. 8 * n)" by (simp add: inj_def)
  obtain g0 g1 where g: "Graph demo_types () (\<lambda>n. 8 * n) = Some g0" "demo_add ''a'' g0 = Some g1" "demo_add ''b'' g1 = Some g"
    using assms by (auto simp: demo_graph_def bind_eq_Some_conv)
  have "reachable_graph demo_types () g0" using inj g(1) by (rule reachable_graph.init)
  then have "reachable_graph demo_types () g" using g(2,3) demo_add_reachable by blast
  then show ?thesis using demo_registry by (rule reachable_wf)
qed

lemma demo_nodes: "map_option (\<lambda>g. (nodes g, source_node g, sink_node g)) demo_graph = Some ([0, 8, 24, 32], 0, 8)"
  by code_simp

lemma demo_order: "map_option GetReversePostOrder demo_graph = Some (Some [0, 8])"
  by code_simp

lemma demo_prune: "map_option (\<lambda>g. map_option (\<lambda>(b, g). (b, nodes g)) (PruneForReverseReachability [24] g)) demo_graph = Some (Some (True, [0, 8, 24]))"
  by code_simp

text \<open>
  C16: The searches end. From the source every node reachable is entered and left exactly once, and
  in the reverse search every node that reaches the sink, with or without either callback. In
  the reverse post-order an edge leads to a later node, unless it closes a cycle; without cycles
  it is a topological order.
\<close>

theorem graph_searches:
  assumes "wf_graph g"
  shows "(\<exists>order. GetReversePostOrder g = Some order \<and> distinct order \<and> set order = (edge_rel g)\<^sup>* `` {source_node g} \<and>
      (\<forall>xs n ys m. order = xs @ n # ys \<longrightarrow> (n, m) \<in> edge_rel g \<longrightarrow> m \<in> set ys \<or> (m, n) \<in> (edge_rel g)\<^sup>*) \<and>
      (acyclic (edge_rel g) \<longrightarrow> (\<forall>xs n ys m. order = xs @ n # ys \<longrightarrow> (n, m) \<in> edge_rel g \<longrightarrow> m \<in> set ys))) \<and>
    (\<exists>trace. DFS enter leave g = Some trace \<and> distinct (entered_nodes trace) \<and> distinct (left_nodes trace) \<and>
      set (entered_nodes trace) = (if enter then (edge_rel g)\<^sup>* `` {source_node g} else {}) \<and>
      set (left_nodes trace) = (if leave then (edge_rel g)\<^sup>* `` {source_node g} else {})) \<and>
    (\<exists>trace. ReverseDFS enter leave g = Some trace \<and> distinct (entered_nodes trace) \<and> distinct (left_nodes trace) \<and>
      set (entered_nodes trace) = (if enter then ((edge_rel g)\<inverse>)\<^sup>* `` {sink_node g} else {}) \<and>
      set (left_nodes trace) = (if leave then ((edge_rel g)\<inverse>)\<^sup>* `` {sink_node g} else {}))"
proof (intro conjI)
  obtain order where o: "GetReversePostOrder g = Some order" "distinct order" "set order = (edge_rel g)\<^sup>* `` {source_node g}"
      "\<forall>xs n ys m. order = xs @ n # ys \<longrightarrow> (n, m) \<in> edge_rel g \<longrightarrow> m \<in> set ys \<or> (m, n) \<in> (edge_rel g)\<^sup>*"
    using GetReversePostOrder_reaches [OF assms] by blast
  then show "\<exists>order. GetReversePostOrder g = Some order \<and> distinct order \<and> set order = (edge_rel g)\<^sup>* `` {source_node g} \<and>
      (\<forall>xs n ys m. order = xs @ n # ys \<longrightarrow> (n, m) \<in> edge_rel g \<longrightarrow> m \<in> set ys \<or> (m, n) \<in> (edge_rel g)\<^sup>*) \<and>
      (acyclic (edge_rel g) \<longrightarrow> (\<forall>xs n ys m. order = xs @ n # ys \<longrightarrow> (n, m) \<in> edge_rel g \<longrightarrow> m \<in> set ys))"
    using acyclic_no_return [of "edge_rel g"] by blast
qed (rule DFS_flags [OF assms] ReverseDFS_flags [OF assms])+

theorem graph_searches_witness:
  "\<exists>g :: unit graph. wf_graph g \<and> nodes g = [0, 8, 24, 32] \<and> GetReversePostOrder g = Some [0, 8] \<and> (edge_rel g)\<^sup>* `` {source_node g} = {0, 8}"
proof -
  obtain g where g: "demo_graph = Some g" "nodes g = [0, 8, 24, 32]" using demo_nodes by auto
  have o: "GetReversePostOrder g = Some [0, 8]" using demo_order by (simp add: g(1))
  have wf: "wf_graph g" using g(1) by (rule demo_wf)
  then have "(edge_rel g)\<^sup>* `` {source_node g} = {0, 8}" using graph_searches [OF wf] o by auto
  then show ?thesis using wf g(2) o by blast
qed

text \<open>
  C17: Pruning keeps exactly the nodes from which a target can be reached, the source and the sink, with
  all edges between them and unchanged; it reports whether a node was removed. The order in which the
  set of targets is traversed makes no difference. The comment in \<open>algorithm.h\<close> speaks of the nodes on
  a path from the source to a target; the code does not look at the source, so that this
  is what is kept only when the source reaches every node, and a target that the source
  does not reach stays, as in the example below.
\<close>

theorem graph_prune:
  assumes "wf_graph g" "set targets \<subseteq> live_nodes g"
  shows "\<exists>g'. PruneForReverseReachability targets g = Some (live_nodes g' \<noteq> live_nodes g, g') \<and> wf_graph g' \<and>
    live_nodes g' = {p \<in> live_nodes g. p = source_node g \<or> p = sink_node g \<or> (\<exists>t \<in> set targets. (p, t) \<in> (edge_rel g)\<^sup>*)} \<and>
    edge_rel g' = edge_rel g \<inter> live_nodes g' \<times> live_nodes g' \<and>
    (\<forall>e \<in> live_edges g'. e \<in> live_edges g \<and> edge_at g' e = edge_at g e) \<and>
    (\<forall>p \<in> live_nodes g'. node_data (node_at g' p) = node_data (node_at g p)) \<and>
    (live_nodes g \<subseteq> (edge_rel g)\<^sup>* `` {source_node g} \<longrightarrow> live_nodes g' = {p. p = source_node g \<or> p = sink_node g \<or>
       (\<exists>t \<in> set targets. (source_node g, p) \<in> (edge_rel g)\<^sup>* \<and> (p, t) \<in> (edge_rel g)\<^sup>*)})"
proof -
  let ?K = "{p. \<exists>t \<in> set targets. (p, t) \<in> (edge_rel g)\<^sup>*} \<union> {source_node g, sink_node g}"
  obtain g' where g': "PruneForReverseReachability targets g = Some (\<not> live_nodes g \<subseteq> ?K, g')" "wf_graph g'" "restricted ?K g g'"
    using prune_exact [OF assms] by blast
  have live: "live_nodes g' = live_nodes g \<inter> ?K"
    and edges: "live_edges g' = {e \<in> live_edges g. the (e_src (edge_at g e)) \<in> ?K \<and> the (e_dst (edge_at g e)) \<in> ?K}"
    and same: "\<forall>e \<in> live_edges g'. edge_at g' e = edge_at g e" "\<forall>p \<in> live_nodes g'. node_data (node_at g' p) = node_data (node_at g p)"
    using g'(3) unfolding restricted_def by blast+
  have "(p, q) \<in> edge_rel g' \<longleftrightarrow> (p, q) \<in> edge_rel g \<and> p \<in> live_nodes g' \<and> q \<in> live_nodes g'" for p q
  proof
    assume pq: "(p, q) \<in> edge_rel g'"
    then obtain e where e: "e \<in> live_edges g'" "e_src (edge_at g' e) = Some p" "e_dst (edge_at g' e) = Some q" unfolding edge_rel_def by blast
    then have "e \<in> live_edges g" "e_src (edge_at g e) = Some p" "e_dst (edge_at g e) = Some q" using edges same(1) by auto
    then show "(p, q) \<in> edge_rel g \<and> p \<in> live_nodes g' \<and> q \<in> live_nodes g'"
      using edge_rel_live [OF g'(2) pq] unfolding edge_rel_def by blast
  next
    assume pq: "(p, q) \<in> edge_rel g \<and> p \<in> live_nodes g' \<and> q \<in> live_nodes g'"
    then obtain e where e: "e \<in> live_edges g" "e_src (edge_at g e) = Some p" "e_dst (edge_at g e) = Some q" unfolding edge_rel_def by blast
    have "p \<in> ?K" "q \<in> ?K" using pq live by blast+
    then have "e \<in> live_edges g'" using edges e by (metis (mono_tags, lifting) mem_Collect_eq option.sel)
    moreover from this have "e_src (edge_at g' e) = Some p" "e_dst (edge_at g' e) = Some q" using e same(1) by simp_all
    ultimately show "(p, q) \<in> edge_rel g'" unfolding edge_rel_def by blast
  qed
  then have rel: "edge_rel g' = edge_rel g \<inter> live_nodes g' \<times> live_nodes g'" by auto
  have "(\<not> live_nodes g \<subseteq> ?K) = (live_nodes g' \<noteq> live_nodes g)" using live by blast
  then have "PruneForReverseReachability targets g = Some (live_nodes g' \<noteq> live_nodes g, g')" using g'(1) by simp
  moreover have kept: "live_nodes g' = {p \<in> live_nodes g. p = source_node g \<or> p = sink_node g \<or> (\<exists>t \<in> set targets. (p, t) \<in> (edge_rel g)\<^sup>*)}"
    using live by blast
  moreover have "live_nodes g' = {p. p = source_node g \<or> p = sink_node g \<or>
       (\<exists>t \<in> set targets. (source_node g, p) \<in> (edge_rel g)\<^sup>* \<and> (p, t) \<in> (edge_rel g)\<^sup>*)}"
    if r: "live_nodes g \<subseteq> (edge_rel g)\<^sup>* `` {source_node g}"
  proof -
    have "p \<in> live_nodes g" if "(p, t) \<in> (edge_rel g)\<^sup>*" "t \<in> set targets" for p t
      using that(1)
    proof (cases rule: converse_rtranclE)
      case base
      then show ?thesis using that(2) assms(2) by blast
    next
      case (step q)
      then show ?thesis using edge_rel_live [OF assms(1), of p q] by blast
    qed
    then show ?thesis using r kept roots_live(1,2) [OF assms(1)] by blast
  qed
  moreover have "\<forall>e \<in> live_edges g'. e \<in> live_edges g \<and> edge_at g' e = edge_at g e" using edges same(1) by blast
  ultimately show ?thesis using g'(2) rel same(2) by (intro exI [of _ g'] conjI) blast+
qed

theorem graph_prune_witness:
  "\<exists>g g' :: unit graph. wf_graph g \<and> PruneForReverseReachability [24] g = Some (True, g') \<and> wf_graph g' \<and>
    nodes g' = [0, 8, 24] \<and> live_nodes g' \<noteq> live_nodes g \<and> (source_node g, 24) \<notin> (edge_rel g)\<^sup>*"
proof -
  obtain g where g: "demo_graph = Some g" "nodes g = [0, 8, 24, 32]" using demo_nodes by auto
  have r: "map_option (\<lambda>(b, g). (b, nodes g)) (PruneForReverseReachability [24] g) = Some (True, [0, 8, 24])"
    using demo_prune by (simp only: g(1) option.map option.inject)
  have wf: "wf_graph g" using g(1) by (rule demo_wf)
  have t: "set [24] \<subseteq> live_nodes g" using g(2) nodes_live [of g] by auto
  have "GetReversePostOrder g = Some [0, 8]" using demo_order by (simp add: g(1))
  then have "(edge_rel g)\<^sup>* `` {source_node g} = {0, 8}" using GetReversePostOrder_reaches [OF wf] by auto
  then have "24 \<notin> (edge_rel g)\<^sup>* `` {source_node g}" by simp
  then have "(source_node g, 24) \<notin> (edge_rel g)\<^sup>*" by blast
  then show ?thesis using graph_prune [OF wf t] r wf by auto
qed

text \<open>
  C18: Completing gives every node but the source an input and every node but the sink an output, by
  control edges from the source and to the sink where there was none; it reports whether an edge
  was added. In a graph without cycles, without edges into the source or out of the sink, the
  reverse post-order is afterwards a topological order of all nodes.
\<close>

theorem graph_fixup:
  assumes wf: "wf_graph g"
  shows "\<exists>g'. FixupSourceAndSinkEdges g = Some (live_edges g' \<noteq> live_edges g, g') \<and> wf_graph g' \<and> grown g g' \<and>
    (\<forall>n \<in> live_nodes g. (n = source_node g \<or> has_in g' n) \<and> (n = sink_node g \<or> has_out g' n)) \<and>
    (acyclic (edge_rel g) \<and> \<not> has_in g (source_node g) \<and> \<not> has_out g (sink_node g) \<longrightarrow>
      (\<exists>order. GetReversePostOrder g' = Some order \<and> distinct order \<and> set order = live_nodes g \<and>
        (\<forall>xs n ys m. order = xs @ n # ys \<longrightarrow> (n, m) \<in> edge_rel g' \<longrightarrow> m \<in> set ys)))"
proof -
  obtain g' where g': "FixupSourceAndSinkEdges g = Some (live_edges g' \<noteq> live_edges g, g')" "wf_graph g'" "grown g g'"
      "\<forall>n \<in> live_nodes g. (n = source_node g \<or> has_in g' n) \<and> (n = sink_node g \<or> has_out g' n)"
    using fixup_exact [OF wf] by blast
  note n = grown_nodes [OF g'(3)]
  have "\<exists>order. GetReversePostOrder g' = Some order \<and> distinct order \<and> set order = live_nodes g \<and>
        (\<forall>xs n ys m. order = xs @ n # ys \<longrightarrow> (n, m) \<in> edge_rel g' \<longrightarrow> m \<in> set ys)"
    if a: "acyclic (edge_rel g)" "\<not> has_in g (source_node g)" "\<not> has_out g (sink_node g)"
  proof -
    have ac: "acyclic (edge_rel g')" using grown_rel [OF wf g'(2,3) a(2,3)] by (intro acyclic_extend [OF a(1)]) blast+
    obtain order where o: "GetReversePostOrder g' = Some order" "distinct order" "set order = (edge_rel g')\<^sup>* `` {source_node g'}"
        "\<forall>xs n ys m. order = xs @ n # ys \<longrightarrow> (n, m) \<in> edge_rel g' \<longrightarrow> m \<in> set ys \<or> (m, n) \<in> (edge_rel g')\<^sup>*"
      using GetReversePostOrder_reaches [OF g'(2)] by blast
    have "(edge_rel g')\<^sup>* `` {source_node g'} = live_nodes g"
    proof (intro equalityI subsetI)
      fix p assume "p \<in> (edge_rel g')\<^sup>* `` {source_node g'}"
      then show "p \<in> live_nodes g"
        using fwd_reach [OF g'(2) roots_live(1) [OF g'(2)], of p] fwd.reach_closed [of g' "source_node g'" p "live_nodes g'"]
          roots_live(1) [OF g'(2)] out_nodes_live [OF g'(2)] n by auto
    next
      fix p assume "p \<in> live_nodes g"
      then show "p \<in> (edge_rel g')\<^sup>* `` {source_node g'}" using all_from_source [OF g'(2) ac] g'(4) n by auto
    qed
    then have "set order = live_nodes g" using o(3) by simp
    then show ?thesis using o(1,2,4) acyclic_no_return [OF ac] by blast
  qed
  then show ?thesis using g' by blast
qed

theorem graph_fixup_witness:
  "\<exists>g g' :: unit graph. wf_graph g \<and> nodes g = [0, 8, 24, 32] \<and> FixupSourceAndSinkEdges g = Some (live_edges g' \<noteq> live_edges g, g') \<and>
    wf_graph g' \<and> has_in g' 8 \<and> has_in g' 24 \<and> has_in g' 32 \<and> has_out g' 24"
proof -
  obtain g where g: "demo_graph = Some g" "nodes g = [0, 8, 24, 32]" "source_node g = 0" "sink_node g = 8" using demo_nodes by auto
  have wf: "wf_graph g" using g(1) by (rule demo_wf)
  have live: "live_nodes g = {0, 8, 24, 32}" using g(2) nodes_live [of g] by auto
  obtain g' where "FixupSourceAndSinkEdges g = Some (live_edges g' \<noteq> live_edges g, g')" "wf_graph g'"
      "\<forall>n \<in> live_nodes g. (n = source_node g \<or> has_in g' n) \<and> (n = sink_node g \<or> has_out g' n)"
    using graph_fixup [OF wf] by blast
  then show ?thesis using wf g(2,3,4) live by (intro exI [of _ g] exI [of _ g']) simp
qed

end
