(* ===== verification/Graph_Def.thy ===== *)
theory Graph_Def
  imports Graph_Algorithm Numbers
begin

text \<open>
  The protocol buffer form of a graph: \<open>ToGraphDef\<close> of \<open>graph/graph.cc\<close>, and the names of tensors
  in it: \<open>graph/tensor_id.cc\<close>. The version numbers of the form are left out.
\<close>

section \<open>Names of tensors\<close>

text \<open>
  The loop of \<open>ParseTensorName\<close> goes backwards; the list is the reversed name from the pointer down to
  the base. Overflow of the two \<open>int\<close> variables wraps around.
\<close>

fun tensor_digits :: "string \<Rightarrow> 32 word \<Rightarrow> 32 word \<Rightarrow> string \<times> 32 word \<times> 32 word" where
  "tensor_digits [] index mul = ([], index, mul)"
| "tensor_digits (c # r) index mul =
     (if r \<noteq> [] \<and> isdigit c then tensor_digits r (index + of_nat (digit c) * mul) (mul * 10) else (c # r, index, mul))"

definition ParseTensorName :: "string \<Rightarrow> string \<times> 32 word" where
  "ParseTensorName name =
     (case tensor_digits (rev name) 0 1 of
        (c # r, index, mul) \<Rightarrow> if r \<noteq> [] \<and> c = CHR '':'' \<and> sint mul > 1 then (rev r, index) else (name, 0)
      | ([], index, mul) \<Rightarrow> (name, 0))"

definition TensorId_ToString :: "string \<times> 32 word \<Rightarrow> string" where
  "TensorId_ToString x = fst x @ '':'' @ FastInt32ToBufferLeft (snd x)"

lemma tensor_digits_append:
  assumes "list_all isdigit ds" "rest \<noteq> []"
  shows "tensor_digits (ds @ rest) index mul = tensor_digits rest (index + of_nat (decimal_value 0 (rev ds)) * mul) (mul * 10 ^ length ds)"
  using assms(1)
proof (induction ds arbitrary: index mul)
  case (Cons c ds)
  then have "tensor_digits ((c # ds) @ rest) index mul = tensor_digits (ds @ rest) (index + of_nat (digit c) * mul) (mul * 10)"
    using assms(2) by simp
  also have "\<dots> = tensor_digits rest (index + of_nat (digit c) * mul + of_nat (decimal_value 0 (rev ds)) * (mul * 10)) (mul * 10 * 10 ^ length ds)"
    using Cons by simp
  finally show ?case by (simp add: algebra_simps)
qed simp

lemma power_10_word:
  assumes "1 \<le> k" "k \<le> 9"
  shows "sint ((10 :: 32 word) ^ k) > 1"
proof -
  have "k \<in> {1, 2, 3, 4, 5, 6, 7, 8, 9}" using assms by auto
  then show ?thesis by (elim insertE emptyE) simp_all
qed

lemma FastInt32_small:
  assumes "n < 2 ^ 31"
  shows "FastInt32ToBufferLeft (of_nat n) = rev (digits_loop n)"
proof -
  have "sint (of_nat n :: 32 word) = int n" using assms by (simp add: signed_of_nat signed_take_bit_int_eq_self)
  moreover have "unat (of_nat n :: 32 word) = n" using assms by (simp add: unsigned_of_nat take_bit_nat_eq_self)
  ultimately show ?thesis by (simp add: FastInt32ToBufferLeft_def FastUInt32ToBufferLeft_def)
qed

lemma ParseTensorName_slot:
  assumes "name \<noteq> []" "n < 10 ^ 9"
  shows "ParseTensorName (TensorId_ToString (name, of_nat n)) = (name, of_nat n)"
proof -
  have l: "1 \<le> length (digits_loop n)" "length (digits_loop n) \<le> 9"
    using digits_loop_not_Nil [of n] digits_loop_length [of n 8] assms(2) by (auto simp: Suc_le_eq)
  have n31: "n < 2 ^ 31" using assms(2) by (rule order_less_le_trans) simp
  have "rev (TensorId_ToString (name, of_nat n)) = digits_loop n @ CHR '':'' # rev name" using n31 by (simp add: TensorId_ToString_def FastInt32_small)
  then have "tensor_digits (rev (TensorId_ToString (name, of_nat n))) 0 1 =
      tensor_digits (CHR '':'' # rev name) (of_nat n) (10 ^ length (digits_loop n))"
    by (simp add: tensor_digits_append [OF digits_loop_isdigit] digits_loop_value)
  also have "\<dots> = (CHR '':'' # rev name, of_nat n, 10 ^ length (digits_loop n))"
    by (simp add: isdigit_def between_def)
  finally show ?thesis using assms(1) power_10_word [OF l] by (simp add: ParseTensorName_def)
qed

section \<open>The form of a node\<close>

definition AddInput :: "string \<Rightarrow> int \<Rightarrow> string" where
  "AddInput src_name src_slot =
     (if src_slot = kControlSlot then CHR ''^'' # src_name
      else if src_slot = 0 then src_name
      else src_name @ '':'' @ FastInt32ToBufferLeft (word_of_int src_slot))"

text \<open>\<open>None\<close>: the check fails that no two edges lead to one input, or an access is out of range.\<close>

fun fill_inputs :: "'a graph \<Rightarrow> ptr list \<Rightarrow> ptr option list \<Rightarrow> ptr option list option" where
  "fill_inputs g [] inputs = Some inputs"
| "fill_inputs g (e # es) inputs =
     (if IsControlEdge (edge_at g e) then fill_inputs g es (inputs @ [Some e])
      else let i = dst_input (edge_at g e) in
        if i < 0 \<or> nat i \<ge> length inputs then None
        else if inputs ! nat i \<noteq> None then None
        else fill_inputs g es (inputs[nat i := Some e]))"

fun add_inputs :: "'a graph \<Rightarrow> string list \<Rightarrow> nat \<Rightarrow> ptr option list \<Rightarrow> string list option" where
  "add_inputs g given i [] = Some []"
| "add_inputs g given i (None # inputs) =
     (if i < length given then map_option (\<lambda>r. given ! i # r) (add_inputs g given (i + 1) inputs) else None)"
| "add_inputs g given i (Some e # inputs) =
     (let src = node_at g (the (e_src (edge_at g e))) in
      if \<not> IsOp src then add_inputs g given (i + 1) inputs
      else map_option (\<lambda>r. AddInput (node_name src) (src_output (edge_at g e)) # r) (add_inputs g given (i + 1) inputs))"

definition node_to_def :: "'a graph \<Rightarrow> ptr \<Rightarrow> 'a node_def option" where
  "node_to_def g p =
     (let n = node_at g p;
          d = node_def (the (props n));
          dev = (if assigned_device_name n \<noteq> [] then assigned_device_name n else def_device d)
      in Option.bind (fill_inputs g (es_iter (in_edges n)) (replicate (nat (num_inputs n)) None)) (\<lambda>inputs.
           map_option (\<lambda>ins. d\<lparr>def_device := dev, def_input := ins\<rparr>) (add_inputs g (def_input d) 0 inputs)))"

fun to_defs :: "'a graph \<Rightarrow> ptr option list \<Rightarrow> 'a node_def list option" where
  "to_defs g [] = Some []"
| "to_defs g (None # ids) = to_defs g ids"
| "to_defs g (Some p # ids) =
     (if \<not> IsOp (node_at g p) then to_defs g ids
      else Option.bind (node_to_def g p) (\<lambda>d. map_option ((#) d) (to_defs g ids)))"

definition ToGraphDefSubRange :: "nat \<Rightarrow> 'a graph \<Rightarrow> 'a node_def list option" where
  "ToGraphDefSubRange from_node_id g = to_defs g (drop from_node_id (g_nodes g))"

definition ToGraphDef :: "'a graph \<Rightarrow> 'a node_def list option" where
  "ToGraphDef g = ToGraphDefSubRange 0 g"

definition NewName :: "string \<Rightarrow> 'a graph \<Rightarrow> string \<times> 'a graph" where
  "NewName prefix_text g = (prefix_text @ ''/_'' @ FastInt32ToBufferLeft (word_of_int (name_counter g)), g\<lparr>name_counter := name_counter g + 1\<rparr>)"

section \<open>The inputs of a node\<close>

lemma fill_inputs_eq:
  assumes "length base = n"
    and "\<forall>e \<in> set es. \<not> IsControlEdge (edge_at g e) \<longrightarrow> 0 \<le> dst_input (edge_at g e) \<and> nat (dst_input (edge_at g e)) < n \<and> base ! nat (dst_input (edge_at g e)) = None"
    and "distinct (map (\<lambda>e. dst_input (edge_at g e)) (filter (\<lambda>e. \<not> IsControlEdge (edge_at g e)) es))"
  shows "\<exists>base'. fill_inputs g es (base @ map Some ctrl) = Some (base' @ map Some (ctrl @ filter (\<lambda>e. IsControlEdge (edge_at g e)) es)) \<and> length base' = n \<and>
    (\<forall>i < n. base' ! i = (case List.find (\<lambda>e. \<not> IsControlEdge (edge_at g e) \<and> dst_input (edge_at g e) = int i) es of Some e \<Rightarrow> Some e | None \<Rightarrow> base ! i))"
  using assms
proof (induction es arbitrary: base ctrl)
  case (Cons e es)
  show ?case
  proof (cases "IsControlEdge (edge_at g e)")
    case True
    then show ?thesis using Cons.IH [of base "ctrl @ [e]"] Cons.prems by auto
  next
    case False
    let ?i = "nat (dst_input (edge_at g e))"
    let ?base = "base[?i := Some e]"
    have i: "0 \<le> dst_input (edge_at g e)" "?i < n" "base ! ?i = None" using Cons.prems(2) False by auto
    have step: "fill_inputs g (e # es) (base @ map Some ctrl) = fill_inputs g es (?base @ map Some ctrl)"
      using i False Cons.prems(1) by (simp add: nth_append list_update_append Let_def)
    have ne: "dst_input (edge_at g e') \<noteq> dst_input (edge_at g e)" if "e' \<in> set es" "\<not> IsControlEdge (edge_at g e')" for e'
    proof -
      have "dst_input (edge_at g e) \<notin> (\<lambda>e. dst_input (edge_at g e)) ` {e \<in> set es. \<not> IsControlEdge (edge_at g e)}" using Cons.prems(3) False by simp
      then show ?thesis using that by (metis (mono_tags, lifting) image_eqI mem_Collect_eq)
    qed
    have "\<forall>e' \<in> set es. \<not> IsControlEdge (edge_at g e') \<longrightarrow> 0 \<le> dst_input (edge_at g e') \<and> nat (dst_input (edge_at g e')) < n \<and> ?base ! nat (dst_input (edge_at g e')) = None"
    proof (intro ballI impI)
      fix e' assume e': "e' \<in> set es" "\<not> IsControlEdge (edge_at g e')"
      then have d: "0 \<le> dst_input (edge_at g e')" "nat (dst_input (edge_at g e')) < n" "base ! nat (dst_input (edge_at g e')) = None"
        using Cons.prems(2) by auto
      then have "nat (dst_input (edge_at g e')) \<noteq> ?i" using ne [OF e'] i(1) by (simp add: eq_nat_nat_iff)
      then show "0 \<le> dst_input (edge_at g e') \<and> nat (dst_input (edge_at g e')) < n \<and> ?base ! nat (dst_input (edge_at g e')) = None"
        using d by simp
    qed
    then obtain base' where b: "fill_inputs g es (?base @ map Some ctrl) = Some (base' @ map Some (ctrl @ filter (\<lambda>e. IsControlEdge (edge_at g e)) es))" "length base' = n"
        "\<forall>i < n. base' ! i = (case List.find (\<lambda>e. \<not> IsControlEdge (edge_at g e) \<and> dst_input (edge_at g e) = int i) es of Some e \<Rightarrow> Some e | None \<Rightarrow> ?base ! i)"
      using Cons.IH [of ?base ctrl] Cons.prems(1,3) False by auto
    have none: "List.find (\<lambda>e'. \<not> IsControlEdge (edge_at g e') \<and> dst_input (edge_at g e') = int ?i) es = None"
      using ne i(1) by (auto simp: find_None_iff)
    have "\<forall>j < n. base' ! j = (case List.find (\<lambda>e. \<not> IsControlEdge (edge_at g e) \<and> dst_input (edge_at g e) = int j) (e # es) of Some e \<Rightarrow> Some e | None \<Rightarrow> base ! j)"
    proof (intro allI impI)
      fix j assume j: "j < n"
      show "base' ! j = (case List.find (\<lambda>e. \<not> IsControlEdge (edge_at g e) \<and> dst_input (edge_at g e) = int j) (e # es) of Some e \<Rightarrow> Some e | None \<Rightarrow> base ! j)"
      proof (cases "dst_input (edge_at g e) = int j")
        case True
        then have "?i = j" by simp
        then show ?thesis using b(3) j none True False Cons.prems(1) by simp
      next
        case other: False
        then have "?i \<noteq> j" using i(1) by auto
        then show ?thesis using b(3) j other by (simp split: option.splits)
      qed
    qed
    then show ?thesis using b(1,2) step False by auto
  qed
qed simp

definition src_node :: "'a graph \<Rightarrow> ptr \<Rightarrow> 'a node" where
  "src_node g e = node_at g (the (e_src (edge_at g e)))"

lemma add_inputs_edges:
  "add_inputs g given i (map Some es) =
     Some (map (\<lambda>e. AddInput (node_name (src_node g e)) (src_output (edge_at g e))) (filter (\<lambda>e. IsOp (src_node g e)) es))"
  by (induction es arbitrary: i) (simp_all add: src_node_def Let_def)

text \<open>Every input of a node has exactly one edge, which comes from an operation.\<close>

definition connected :: "'a graph \<Rightarrow> ptr \<Rightarrow> bool" where
  "connected g p \<longleftrightarrow> (\<forall>i. 0 \<le> i \<longrightarrow> i < num_inputs (node_at g p) \<longrightarrow> (\<exists>!e. e \<in> live_edges g \<and> e_dst (edge_at g e) = Some p \<and> dst_input (edge_at g e) = i)) \<and>
     (\<forall>e \<in> live_edges g. e_dst (edge_at g e) = Some p \<longrightarrow> \<not> IsControlEdge (edge_at g e) \<longrightarrow>
        0 \<le> dst_input (edge_at g e) \<and> dst_input (edge_at g e) < num_inputs (node_at g p) \<and> IsOp (src_node g e))"

lemma control_dst:
  assumes "wf_graph g" "e \<in> live_edges g"
  shows "IsControlEdge (edge_at g e) \<longleftrightarrow> dst_input (edge_at g e) = kControlSlot"
  using assms by (simp add: wf_graph_def control_ok_def)

lemma in_iter:
  assumes "wf_graph g" "p \<in> live_nodes g"
  shows "set (es_iter (in_edges (node_at g p))) = {e \<in> live_edges g. e_dst (edge_at g e) = Some p}" "distinct (es_iter (in_edges (node_at g p)))"
proof -
  have n: "node_ok g p" using assms by (simp add: wf_graph_def wf_parts_def)
  then show "set (es_iter (in_edges (node_at g p))) = {e \<in> live_edges g. e_dst (edge_at g e) = Some p}" by (simp add: node_ok_def)
  show "distinct (es_iter (in_edges (node_at g p)))" using n es.elems_distinct by (simp add: node_ok_def)
qed

lemma node_to_def_ok:
  assumes wf: "wf_graph g" and p: "p \<in> live_nodes g" and c: "connected g p"
  shows "\<exists>ins d. node_to_def g p = Some d \<and> int (length ins) = num_inputs (node_at g p) \<and>
    (\<forall>i < length ins. input_edge (int i) p g = Inr (ins ! i)) \<and>
    def_input d = map (\<lambda>e. AddInput (node_name (src_node g e)) (src_output (edge_at g e)))
      (ins @ filter (\<lambda>e. IsOp (src_node g e)) (filter (\<lambda>e. IsControlEdge (edge_at g e)) (es_iter (in_edges (node_at g p))))) \<and>
    def_name d = node_name (node_at g p) \<and> def_op d = type_string (node_at g p) \<and> def_attr d = def_attr (node_def (the (props (node_at g p)))) \<and>
    def_device d = (if assigned_device_name (node_at g p) \<noteq> [] then assigned_device_name (node_at g p) else def_device (node_def (the (props (node_at g p)))))"
proof -
  define es where "es = es_iter (in_edges (node_at g p))"
  define n where "n = nat (num_inputs (node_at g p))"
  have n: "int n = num_inputs (node_at g p)" by (simp add: n_def num_inputs_def)
  have es: "set es = {e \<in> live_edges g. e_dst (edge_at g e) = Some p}" "distinct es" using in_iter [OF wf p] by (simp_all add: es_def)
  have ctrl: "IsControlEdge (edge_at g e) \<longleftrightarrow> dst_input (edge_at g e) = -1" if "e \<in> set es" for e
    using control_dst [OF wf, of e] that es(1) by (simp add: kControlSlot_def)
  have data: "0 \<le> dst_input (edge_at g e)" "nat (dst_input (edge_at g e)) < n" "IsOp (src_node g e)" if "e \<in> set es" "\<not> IsControlEdge (edge_at g e)" for e
    using that es(1) c n unfolding connected_def by auto
  have one: "\<exists>!e. e \<in> set es \<and> dst_input (edge_at g e) = int i" if "i < n" for i
    using c [unfolded connected_def, THEN conjunct1, rule_format, of "int i"] that n es(1) by (simp add: conj_ac)
  have "inj_on (\<lambda>e. dst_input (edge_at g e)) (set (filter (\<lambda>e. \<not> IsControlEdge (edge_at g e)) es))"
  proof (rule inj_onI)
    fix a b assume ab: "a \<in> set (filter (\<lambda>e. \<not> IsControlEdge (edge_at g e)) es)" "b \<in> set (filter (\<lambda>e. \<not> IsControlEdge (edge_at g e)) es)"
      "dst_input (edge_at g a) = dst_input (edge_at g b)"
    then have "nat (dst_input (edge_at g a)) < n" "int (nat (dst_input (edge_at g a))) = dst_input (edge_at g a)" using data [of a] by auto
    then show "a = b" using one [of "nat (dst_input (edge_at g a))"] ab by auto
  qed
  then have dist: "distinct (map (\<lambda>e. dst_input (edge_at g e)) (filter (\<lambda>e. \<not> IsControlEdge (edge_at g e)) es))"
    using es(2) by (simp add: distinct_map)
  obtain base where b: "fill_inputs g es (replicate n None) = Some (base @ map Some (filter (\<lambda>e. IsControlEdge (edge_at g e)) es))" "length base = n"
      "\<forall>i < n. base ! i = (case List.find (\<lambda>e. \<not> IsControlEdge (edge_at g e) \<and> dst_input (edge_at g e) = int i) es of Some e \<Rightarrow> Some e | None \<Rightarrow> replicate n None ! i)"
    using fill_inputs_eq [of "replicate n None" n es g "[]"] data dist by auto
  define ins where "ins = map (\<lambda>i. the (List.find (\<lambda>e. dst_input (edge_at g e) = int i) es)) [0..<n]"
  have find: "\<exists>e. List.find (\<lambda>e. dst_input (edge_at g e) = int i) es = Some e \<and> e \<in> set es \<and> dst_input (edge_at g e) = int i" if "i < n" for i
  proof (cases "List.find (\<lambda>e. dst_input (edge_at g e) = int i) es")
    case None
    then show ?thesis using one [OF that] by (auto simp: find_None_iff)
  next
    case (Some e)
    then obtain k where "k < length es" "dst_input (edge_at g (es ! k)) = int i" "e = es ! k" by (auto simp: find_Some_iff)
    then show ?thesis using Some by auto
  qed
  have same: "List.find (\<lambda>e. \<not> IsControlEdge (edge_at g e) \<and> dst_input (edge_at g e) = int i) es = List.find (\<lambda>e. dst_input (edge_at g e) = int i) es" for i
    using ctrl by (intro find_cong) auto
  have "base = map Some ins"
  proof (rule nth_equalityI)
    fix i assume "i < length base"
    then show "base ! i = map Some ins ! i" using b(2,3) find [of i] same by (auto simp: ins_def)
  qed (simp add: b(2) ins_def)
  then have fill: "fill_inputs g es (replicate n None) = Some (map Some (ins @ filter (\<lambda>e. IsControlEdge (edge_at g e)) es))" using b(1) by simp
  have op: "filter (\<lambda>e. IsOp (src_node g e)) ins = ins"
  proof (rule filter_True, rule ballI)
    fix e assume "e \<in> set ins"
    then obtain i where "i < n" "e = the (List.find (\<lambda>e. dst_input (edge_at g e) = int i) es)" by (auto simp: ins_def)
    then have "e \<in> set es" "dst_input (edge_at g e) = int i" using find [of i] by auto
    then show "IsOp (src_node g e)" using data(3) ctrl by auto
  qed
  have "input_edge (int i) p g = Inr (ins ! i)" if "i < length ins" for i
    using that find [of i] n by (auto simp: input_edge_def ins_def es_def)
  moreover have "node_to_def g p = Some ((node_def (the (props (node_at g p))))
      \<lparr>def_device := if assigned_device_name (node_at g p) \<noteq> [] then assigned_device_name (node_at g p) else def_device (node_def (the (props (node_at g p)))),
       def_input := map (\<lambda>e. AddInput (node_name (src_node g e)) (src_output (edge_at g e)))
        (ins @ filter (\<lambda>e. IsOp (src_node g e)) (filter (\<lambda>e. IsControlEdge (edge_at g e)) es))\<rparr>)"
    using fill op by (simp add: node_to_def_def Let_def add_inputs_edges es_def n_def flip: map_append)
  moreover have "int (length ins) = num_inputs (node_at g p)" using n by (simp add: ins_def)
  ultimately show ?thesis unfolding es_def by (intro exI [of _ ins] exI conjI allI impI) (assumption | simp add: node_name_def type_string_def)+
qed

section \<open>Properties\<close>

text \<open>Names of nodes have no colon.\<close>

definition colon_free :: "string \<Rightarrow> bool" where
  "colon_free name \<longleftrightarrow> name \<noteq> [] \<and> CHR '':'' \<notin> set name"

lemma tensor_digits_rest: "tensor_digits cs index mul = (rest, index', mul') \<Longrightarrow> set rest \<subseteq> set cs"
  by (induction cs index mul rule: tensor_digits.induct) (auto split: if_splits)

lemma ParseTensorName_colon_free:
  assumes "colon_free name"
  shows "ParseTensorName name = (name, 0)"
proof -
  obtain rest index mul where t: "tensor_digits (rev name) 0 1 = (rest, index, mul)" by (cases "tensor_digits (rev name) 0 1")
  then have "CHR '':'' \<notin> set rest" using tensor_digits_rest [OF t] assms by (auto simp: colon_free_def)
  then show ?thesis using t by (cases rest) (auto simp: ParseTensorName_def)
qed

lemma Parse_AddInput:
  assumes "colon_free name" "0 \<le> x" "x < 10 ^ 9"
  shows "ParseTensorName (AddInput name x) = (name, word_of_int x)"
proof (cases "x = 0")
  case True
  then show ?thesis using ParseTensorName_colon_free [OF assms(1)] by (simp add: AddInput_def kControlSlot_def)
next
  case False
  have w: "word_of_int x = (of_nat (nat x) :: 32 word)" using assms(2) by simp
  have "AddInput name x = TensorId_ToString (name, of_nat (nat x))"
    using False assms(2) w by (simp add: AddInput_def TensorId_ToString_def kControlSlot_def)
  moreover have "nat x < 10 ^ 9" using assms(3) by simp
  ultimately show ?thesis using ParseTensorName_slot [of name "nat x"] assms(1) w by (simp add: colon_free_def)
qed

text \<open>
  A name with a number below \<open>10 ^ 9\<close> is read back. Longer numbers are not rejected: the \<open>int\<close>
  variables overflow, and a number far out of range names an existing output.
\<close>

theorem tensor_name_roundtrip:
  "(name \<noteq> [] \<and> n < 10 ^ 9 \<longrightarrow> ParseTensorName (TensorId_ToString (name, of_nat n)) = (name, of_nat n)) \<and>
   ParseTensorName ''a:4294967297'' = (''a'', 1)"
proof
  show "name \<noteq> [] \<and> n < 10 ^ 9 \<longrightarrow> ParseTensorName (TensorId_ToString (name, of_nat n)) = (name, of_nat n)"
    using ParseTensorName_slot by blast
  show "ParseTensorName ''a:4294967297'' = (''a'', 1)" by code_simp
qed

theorem tensor_name_roundtrip_witness:
  "ParseTensorName (TensorId_ToString (''layer/out'', 12)) = (''layer/out'', 12)"
  using tensor_name_roundtrip [of "''layer/out''" 12] by simp

text \<open>
  What the form of a node says: the node itself, its data inputs in order as names of tensors, and then
  its control inputs.
\<close>

definition describes :: "'a graph \<Rightarrow> ptr \<Rightarrow> 'a node_def \<Rightarrow> bool" where
  "describes g p d \<longleftrightarrow> def_name d = node_name (node_at g p) \<and> def_op d = type_string (node_at g p) \<and>
     def_attr d = def_attr (node_def (the (props (node_at g p)))) \<and>
     def_device d = (if assigned_device_name (node_at g p) \<noteq> [] then assigned_device_name (node_at g p)
       else def_device (node_def (the (props (node_at g p))))) \<and>
     (\<exists>ds cs. def_input d = ds @ cs \<and> int (length ds) = num_inputs (node_at g p) \<and>
        (\<forall>i < length ds. \<exists>e s. input_edge (int i) p g = Inr e \<and> input_node (int i) p g = Inr s \<and>
           ParseTensorName (ds ! i) = (node_name (node_at g s), word_of_int (src_output (edge_at g e)))) \<and>
        set cs = (\<lambda>e. CHR ''^'' # node_name (src_node g e)) `
          {e \<in> live_edges g. e_dst (edge_at g e) = Some p \<and> IsControlEdge (edge_at g e) \<and> IsOp (src_node g e)})"

text \<open>What is needed of names and outputs: no colon in a name, and outputs of at most nine digits.\<close>

definition printable :: "'a graph \<Rightarrow> bool" where
  "printable g \<longleftrightarrow> (\<forall>p \<in> live_nodes g. IsOp (node_at g p) \<longrightarrow> colon_free (node_name (node_at g p))) \<and>
     (\<forall>e \<in> live_edges g. \<not> IsControlEdge (edge_at g e) \<longrightarrow> 0 \<le> src_output (edge_at g e) \<and> src_output (edge_at g e) < 10 ^ 9)"

lemma input_edge_source:
  assumes wf: "wf_graph g" and p: "p \<in> live_nodes g" and c: "connected g p" and e: "input_edge i p g = Inr e"
  shows "e \<in> live_edges g" "\<not> IsControlEdge (edge_at g e)" "IsOp (src_node g e)" "the (e_src (edge_at g e)) \<in> live_nodes g"
proof -
  have i: "0 \<le> i" and f: "List.find (\<lambda>e. dst_input (edge_at g e) = i) (es_iter (in_edges (node_at g p))) = Some e"
    using e by (auto simp: input_edge_def split: if_splits option.splits)
  have "e \<in> set (es_iter (in_edges (node_at g p)))" and d: "dst_input (edge_at g e) = i"
    using f by (auto simp: find_Some_iff)
  then have e: "e \<in> live_edges g" "e_dst (edge_at g e) = Some p" using in_iter(1) [OF wf p] by auto
  then show "e \<in> live_edges g" by simp
  show n: "\<not> IsControlEdge (edge_at g e)" using control_dst [OF wf e(1)] d i by (simp add: kControlSlot_def)
  show "IsOp (src_node g e)" using c e n unfolding connected_def by blast
  have "edge_ok g e" using wf e(1) by (simp add: wf_graph_def wf_parts_def)
  then show "the (e_src (edge_at g e)) \<in> live_nodes g" by (auto simp: edge_ok_def)
qed

lemma node_to_def_describes:
  assumes wf: "wf_graph g" and p: "p \<in> live_nodes g" and c: "connected g p" and pr: "printable g"
  shows "\<exists>d. node_to_def g p = Some d \<and> describes g p d"
proof -
  let ?in = "\<lambda>e. AddInput (node_name (src_node g e)) (src_output (edge_at g e))"
  let ?cs = "filter (\<lambda>e. IsOp (src_node g e)) (filter (\<lambda>e. IsControlEdge (edge_at g e)) (es_iter (in_edges (node_at g p))))"
  obtain ins d where d: "node_to_def g p = Some d" "int (length ins) = num_inputs (node_at g p)"
      "\<forall>i < length ins. input_edge (int i) p g = Inr (ins ! i)" "def_input d = map ?in (ins @ ?cs)" "def_name d = node_name (node_at g p)"
      "def_op d = type_string (node_at g p)" "def_attr d = def_attr (node_def (the (props (node_at g p))))"
      "def_device d = (if assigned_device_name (node_at g p) \<noteq> [] then assigned_device_name (node_at g p)
        else def_device (node_def (the (props (node_at g p)))))"
    using node_to_def_ok [OF wf p c] by blast
  have slot: "\<exists>e s. input_edge (int i) p g = Inr e \<and> input_node (int i) p g = Inr s \<and>
      ParseTensorName (map ?in ins ! i) = (node_name (node_at g s), word_of_int (src_output (edge_at g e)))" if "i < length (map ?in ins)" for i
  proof -
    have e: "input_edge (int i) p g = Inr (ins ! i)" using that d(3) by simp
    note s = input_edge_source [OF wf p c e]
    have "ParseTensorName (?in (ins ! i)) = (node_name (src_node g (ins ! i)), word_of_int (src_output (edge_at g (ins ! i))))"
      using pr s unfolding printable_def src_node_def by (intro Parse_AddInput) auto
    then show ?thesis using e that
      by (intro exI [of _ "ins ! i"] exI [of _ "the (e_src (edge_at g (ins ! i)))"]) (simp add: input_node_def src_node_def)
  qed
  have "set (map ?in ?cs) = (\<lambda>e. CHR ''^'' # node_name (src_node g e)) `
      {e \<in> live_edges g. e_dst (edge_at g e) = Some p \<and> IsControlEdge (edge_at g e) \<and> IsOp (src_node g e)}"
  proof -
    have "set ?cs = {e \<in> live_edges g. e_dst (edge_at g e) = Some p \<and> IsControlEdge (edge_at g e) \<and> IsOp (src_node g e)}"
      using in_iter(1) [OF wf p] by auto
    moreover have "?in e = CHR ''^'' # node_name (src_node g e)" if "IsControlEdge (edge_at g e)" for e
      using that by (simp add: AddInput_def IsControlEdge_def)
    ultimately show ?thesis unfolding set_map by (intro image_cong) auto
  qed
  then show ?thesis using d slot unfolding describes_def by (intro exI [of _ d] conjI exI [of _ "map ?in ins"] exI [of _ "map ?in ?cs"]) auto
qed

lemma to_defs_describes:
  assumes "\<And>p. p \<in> live ids \<Longrightarrow> IsOp (node_at g p) \<Longrightarrow> \<exists>d. node_to_def g p = Some d \<and> describes g p d"
  shows "\<exists>defs. to_defs g ids = Some defs \<and> list_all2 (describes g) (filter (\<lambda>p. IsOp (node_at g p)) (map the (filter (\<lambda>x. x \<noteq> None) ids))) defs"
  using assms
proof (induction ids)
  case (Cons x ids)
  obtain defs where defs: "to_defs g ids = Some defs"
      "list_all2 (describes g) (filter (\<lambda>p. IsOp (node_at g p)) (map the (filter (\<lambda>x. x \<noteq> None) ids))) defs"
    using Cons.IH Cons.prems by (auto simp: live_def)
  show ?case
  proof (cases x)
    case (Some p)
    show ?thesis
    proof (cases "IsOp (node_at g p)")
      case True
      then obtain d where "node_to_def g p = Some d" "describes g p d" using Cons.prems [of p] Some by (auto simp: live_def)
      then show ?thesis using defs Some True by simp
    qed (use defs Some in simp)
  qed (use defs in simp)
qed simp

text \<open>
  C19: The protocol buffer form of a graph whose nodes have all their inputs lists the operations in the
  order of their numbers, with their names, operations and attributes and the device they are
  assigned to. The data inputs of each come first, in order; read as tensor names they
  give the nodes and outputs that \<open>input_node\<close> and \<open>input_edge\<close> give, and the control inputs
  follow. It is required that names are not empty and have no colon, and that the numbers of the outputs are
  below \<open>10 ^ 9\<close>, for which the \<open>int\<close> variables of the reader do not overflow.
\<close>

theorem graph_def_inputs:
  assumes "wf_graph g" "\<forall>p \<in> live_nodes g. IsOp (node_at g p) \<longrightarrow> connected g p"
    and "\<forall>p \<in> live_nodes g. IsOp (node_at g p) \<longrightarrow> node_name (node_at g p) \<noteq> [] \<and> CHR '':'' \<notin> set (node_name (node_at g p))"
    and "\<forall>e \<in> live_edges g. \<not> IsControlEdge (edge_at g e) \<longrightarrow> 0 \<le> src_output (edge_at g e) \<and> src_output (edge_at g e) < 10 ^ 9"
  shows "\<exists>defs. ToGraphDef g = Some defs \<and> list_all2 (describes g) (filter (\<lambda>p. IsOp (node_at g p)) (nodes g)) defs"
proof -
  have "printable g" using assms(3,4) by (simp add: printable_def colon_free_def)
  then have "\<exists>d. node_to_def g p = Some d \<and> describes g p d" if "p \<in> live_nodes g" "IsOp (node_at g p)" for p
    using node_to_def_describes [OF assms(1) that(1)] assms(2) that by blast
  then show ?thesis using to_defs_describes [of "g_nodes g" g] by (simp add: ToGraphDef_def ToGraphDefSubRange_def nodes_def)
qed

text \<open>A constant with two outputs, the second of which is the input of an identity, and a control edge between them.\<close>

definition demo_op :: "string \<Rightarrow> string \<Rightarrow> unit graph \<Rightarrow> unit graph option" where
  "demo_op name op g = (case AddNode demo_types \<lparr>def_name = name, def_op = op, def_device = [], def_input = [], def_attr = ()\<rparr> g of
     Some (Inr (_, g)) \<Rightarrow> Some g | _ \<Rightarrow> None)"

definition demo_pair :: "unit graph option" where
  "demo_pair = Option.bind (Graph demo_types () (\<lambda>n. 8 * n)) (\<lambda>g. Option.bind (demo_op ''x'' ''Const'' g) (demo_op ''y'' ''Identity''))"

definition demo_linked :: "unit graph option" where
  "demo_linked = Option.bind demo_pair (\<lambda>g. Option.bind (AddEdge 24 1 32 0 g) (\<lambda>(_, g). map_option snd (AddControlEdge 24 32 g)))"

lemma demo_op_reachable: "demo_op name op g = Some g' \<Longrightarrow> reachable_graph demo_types () g \<Longrightarrow> reachable_graph demo_types () g'"
  unfolding demo_op_def by (auto split: option.splits sum.splits prod.splits intro: reachable_graph.add_node)

lemma demo_pair_nodes: "map_option (\<lambda>g. (nodes g, source_node g, sink_node g)) demo_pair = Some ([0, 8, 24, 32], 0, 8)"
  by code_simp

lemma demo_linked_wf:
  assumes "demo_linked = Some g"
  shows "wf_graph g"
proof -
  have inj: "inj (\<lambda>n :: nat. 8 * n)" by (simp add: inj_def)
  obtain g2 g3 e e' where g: "demo_pair = Some g2" "AddEdge 24 1 32 0 g2 = Some (e, g3)" "AddEdge 24 (-1) 32 (-1) g3 = Some (e', g)"
    using assms by (auto simp: demo_linked_def AddControlEdge_def kControlSlot_def bind_eq_Some_conv)
  obtain g0 g1 where "Graph demo_types () (\<lambda>n. 8 * n) = Some g0" "demo_op ''x'' ''Const'' g0 = Some g1" "demo_op ''y'' ''Identity'' g1 = Some g2"
    using g(1) by (auto simp: demo_pair_def bind_eq_Some_conv)
  then have "reachable_graph demo_types () g2" using reachable_graph.init [OF inj, of demo_types "()"] demo_op_reachable by blast
  then have wf2: "wf_graph g2" using demo_registry by (rule reachable_wf)
  have n: "nodes g2 = [0, 8, 24, 32]" "source_node g2 = 0" "sink_node g2 = 8" using demo_pair_nodes by (simp_all add: g(1))
  have l: "24 \<in> live_nodes g2" "32 \<in> live_nodes g2" using n(1) nodes_live [of g2] by auto
  have "slots_ok g2 24 1 32 0" using n by (simp add: slots_ok_def kControlSlot_def)
  then have wf3: "wf_graph g3" "live_nodes g3 = live_nodes g2" using AddEdge_view [OF wf2 l, of 1 0] g(2) by (auto simp: same_nodes_def)
  have "slots_ok g3 24 (-1) 32 (-1)" by (simp add: slots_ok_def kControlSlot_def)
  then show ?thesis using AddEdge_view [OF wf3(1), of 24 32 "-1" "-1"] l wf3(2) g(3) by auto
qed

lemma demo_linked_nodes: "map_option nodes demo_linked = Some [0, 8, 24, 32]"
  by code_simp

lemma demo_linked_inputs:
  "map_option (\<lambda>g. (g_edges g, map (edge_at g) [16, 40, 48], map (\<lambda>p. num_inputs (node_at g p)) [0, 8, 24, 32],
      map (\<lambda>p. IsOp (node_at g p)) [0, 8, 24, 32], map (\<lambda>p. node_name (node_at g p)) [24, 32])) demo_linked =
    Some ([Some 16, Some 40, Some 48],
      [\<lparr>e_src = Some 0, e_dst = Some 8, e_id = 0, src_output = -1, dst_input = -1\<rparr>,
       \<lparr>e_src = Some 24, e_dst = Some 32, e_id = 1, src_output = 1, dst_input = 0\<rparr>,
       \<lparr>e_src = Some 24, e_dst = Some 32, e_id = 2, src_output = -1, dst_input = -1\<rparr>],
      [0, 0, 0, 1], [False, False, True, True], [''x'', ''y''])"
  by code_simp

lemma demo_linked_defs: "map_option (\<lambda>g. map_option (map def_input) (ToGraphDef g)) demo_linked = Some (Some [[], [''x:1'', ''^x'']])"
  by code_simp

theorem graph_def_inputs_witness:
  "\<exists>(g :: unit graph) defs. wf_graph g \<and> ToGraphDef g = Some defs \<and> map def_input defs = [[], [''x:1'', ''^x'']] \<and>
    list_all2 (describes g) [24, 32] defs \<and> num_inputs (node_at g 32) = 1"
proof -
  obtain g where g: "demo_linked = Some g" "nodes g = [0, 8, 24, 32]" using demo_linked_nodes by auto
  have f: "g_edges g = [Some 16, Some 40, Some 48]"
      "map (edge_at g) [16, 40, 48] = [\<lparr>e_src = Some 0, e_dst = Some 8, e_id = 0, src_output = -1, dst_input = -1\<rparr>,
         \<lparr>e_src = Some 24, e_dst = Some 32, e_id = 1, src_output = 1, dst_input = 0\<rparr>,
         \<lparr>e_src = Some 24, e_dst = Some 32, e_id = 2, src_output = -1, dst_input = -1\<rparr>]"
      "map (\<lambda>p. num_inputs (node_at g p)) [0, 8, 24, 32] = [0, 0, 0, 1]" "map (\<lambda>p. IsOp (node_at g p)) [0, 8, 24, 32] = [False, False, True, True]"
      "map (\<lambda>p. node_name (node_at g p)) [24, 32] = [''x'', ''y'']"
    using demo_linked_inputs by (simp_all only: g(1) option.map option.inject prod.inject)
  have defs: "map_option (map def_input) (ToGraphDef g) = Some [[], [''x:1'', ''^x'']]"
    using demo_linked_defs by (simp_all only: g(1) option.map option.inject)
  have wf: "wf_graph g" using g(1) by (rule demo_linked_wf)
  have edges: "live_edges g = {16, 40, 48}" using f(1) by (auto simp: live_def)
  have live: "live_nodes g = {0, 8, 24, 32}" using g(2) nodes_live [of g] by auto
  have e: "edge_at g 16 = \<lparr>e_src = Some 0, e_dst = Some 8, e_id = 0, src_output = -1, dst_input = -1\<rparr>"
      "edge_at g 40 = \<lparr>e_src = Some 24, e_dst = Some 32, e_id = 1, src_output = 1, dst_input = 0\<rparr>"
      "edge_at g 48 = \<lparr>e_src = Some 24, e_dst = Some 32, e_id = 2, src_output = -1, dst_input = -1\<rparr>"
    using f(2) by simp_all
  have "connected g p" if "p \<in> live_nodes g" "IsOp (node_at g p)" for p
    using that f(3,4) e unfolding live connected_def edges
    by (auto simp: IsControlEdge_def kControlSlot_def src_node_def)
  then have "\<forall>p \<in> live_nodes g. IsOp (node_at g p) \<longrightarrow> connected g p" by blast
  moreover have "\<forall>p \<in> live_nodes g. IsOp (node_at g p) \<longrightarrow> node_name (node_at g p) \<noteq> [] \<and> CHR '':'' \<notin> set (node_name (node_at g p))"
    using f(4,5) unfolding live by auto
  moreover have "\<forall>e \<in> live_edges g. \<not> IsControlEdge (edge_at g e) \<longrightarrow> 0 \<le> src_output (edge_at g e) \<and> src_output (edge_at g e) < 10 ^ 9"
    using e unfolding edges by (simp add: IsControlEdge_def kControlSlot_def)
  ultimately obtain defs where "ToGraphDef g = Some defs" "list_all2 (describes g) (filter (\<lambda>p. IsOp (node_at g p)) (nodes g)) defs"
    using graph_def_inputs [OF wf] by blast
  moreover have "filter (\<lambda>p. IsOp (node_at g p)) (nodes g) = [24, 32]" using f(4) g(2) by simp
  ultimately show ?thesis using wf defs f(3) by auto
qed

end
