(* ===== verification/Spec2Isabelle.thy ===== *)
theory Spec2Isabelle
  imports Record_IO Block BFC_Props Ordered_Code Pending_Counts BCast Shape_Inference Table Rendezvous
    Escape Rendezvous_Key Tensor_Slice_Set Checkpoint_Key Queue_Threads Graph_Def
begin

text \<open>
  A verification library for the C++ core of TensorFlow
  (\<open>src/Official source file/tensorflow/core\<close>; paths below are relative to it).

  \<^bold>\<open>The program.\<close> TensorFlow builds a graph of operations, infers the shapes of their
  results, and executes it: an executor counts down the pending inputs of each node, tensors
  travel between nodes on different devices through a rendezvous and between steps through queues,
  kernels broadcast their operands, and memory comes from the best-fit-with-coalescing allocator. Training data and
  checkpoints are files of checksummed records and sorted tables, made of integer encodings
  and CRC-32C checksums; a checkpoint holds slices of tensors, under keys that are
  order-preserving encodings of the name and the slice. The library models
  these parts; each is a group of theories.

  \<^bold>\<open>Theories and sources.\<close>
  \<^item> \<open>Prelude\<close>: machine types, status codes, and lemmas on lists, bytes and words.
  \<^item> \<open>Coding\<close> (\<open>lib/core/coding.cc\<close>, \<open>coding.h\<close>, \<open>raw_coding.h\<close>): fixed-width and
    variable-width integers on byte lists, one definition per function, at C++ widths and
    with both byte orders. Locale \<open>codec\<close>: an encoder with its decoder.
  \<^item> \<open>Crc32c\<close> (\<open>lib/hash/crc32c.cc\<close>, \<open>crc32c.h\<close>): the four tables as written in the source,
    the byte and word steps and the alignment-dependent \<open>Extend\<close>, against a bitwise
    reference; masking.
  \<^item> \<open>Record_IO\<close> (\<open>lib/io/record_writer.cc\<close>, \<open>record_reader.cc\<close>, the POSIX \<open>Read\<close>): record
    files. Locale \<open>random_access_file\<close>: the contract of \<open>RandomAccessFile::Read\<close>,
    interpreted by the POSIX loop over any sequence of short and interrupted \<open>pread\<close> calls.
  \<^item> \<open>Block\<close> (\<open>lib/io/block_builder.cc\<close>, \<open>block.cc\<close>): prefix-compressed blocks, their iterator
    and its binary search. Locale \<open>sorted_cursor\<close>: the contract of \<open>lib/io/iterator.h\<close>.
  \<^item> \<open>Table_Format\<close>, \<open>Table_Builder\<close>, \<open>Table_Image\<close>, \<open>Two_Level\<close>, \<open>Table\<close> (\<open>lib/io/format.cc\<close>,
    \<open>table_builder.cc\<close>, \<open>two_level_iterator.cc\<close>, \<open>table.cc\<close>): sorted tables, written through
    the interface \<open>writable_file\<close> and read through \<open>random_access_file\<close>, both interpreted by
    POSIX files. The two-level iterator is a second interpretation of \<open>sorted_cursor\<close>.
    Snappy is a parameter with its inverse law (locale \<open>snappy_codec\<close>); the build without
    Snappy is an interpretation.
  \<^item> \<open>BFC\<close>, \<open>BFC_Arith\<close>, \<open>BFC_Regions\<close>, \<open>BFC_Heap\<close>, \<open>BFC_Split\<close>, \<open>BFC_Inv\<close>, \<open>BFC_Ops\<close>,
    \<open>BFC_Alloc\<close>, \<open>BFC_Props\<close> (\<open>common_runtime/bfc_allocator.h\<close>, \<open>.cc\<close>): the allocator. \<open>BFC\<close> holds all
    definitions: chunk vector, bins, regions, \<open>Extend\<close> with backpedalling, search, splitting,
    coalescing. A \<open>CHECK\<close> that fails, an access out of bounds and a loop that does not end are
    values of the result type. The other theories build the invariant and the contracts of
    the private and public operations; locale \<open>raw_allocator\<close> is the interface to clients.
  \<^item> \<open>Ordered_Code\<close> (\<open>lib/strings/ordered_code.cc\<close>): strings, unsigned and signed integers whose
    encodings compare as the values do. Locales \<open>ordered_encoding\<close> and \<open>ordered_encodings\<close>.
  \<^item> \<open>Pending_Counts\<close> (\<open>common_runtime/pending_counts.h\<close>): packed and large counts of a node.
  \<^item> \<open>BCast\<close> (\<open>util/bcast.cc\<close>): broadcasting with merged dimensions.
  \<^item> \<open>Shape_Inference\<close> (\<open>framework/shape_inference.cc\<close>, \<open>.h\<close>): dimension and shape handles of an
    inference context as indices into its two vectors, and the operations on them.
  \<^item> \<open>Rendezvous\<close> (\<open>framework/rendezvous.cc\<close>, \<open>lib/hash/hash.cc\<close>): the local rendezvous; an
    inductive relation gives the histories of interleaved calls.
  \<^item> \<open>Numbers\<close>, \<open>Escape\<close> (\<open>lib/strings/numbers.cc\<close>, \<open>str_util.cc\<close>): integers as decimal and
    hexadecimal text, and C escapes. Locale \<open>digit_loop\<close>: what the six digit loops of the source
    have in common, interpreted by the step of each.
  \<^item> \<open>Device_Names\<close>, \<open>Device_Specs\<close> (\<open>util/device_name_utils.cc\<close>, \<open>.h\<close>): device names. Locales
    \<open>lexical\<close> (a consuming parser of one value), \<open>name_section\<close> (a branch of the parsing loop) and
    \<open>name_pass\<close> (a sequence of branches), interpreted by the branches of \<open>ParseFullName\<close> and by
    the body of its loop.
  \<^item> \<open>Rendezvous_Key\<close> (\<open>framework/rendezvous.cc\<close>): the keys under which tensors are exchanged,
    made of device names and numbers.
  \<^item> \<open>Tensor_Shape\<close> (\<open>framework/tensor_shape.cc\<close>, \<open>.h\<close>): shapes in their three representations
    of 16, 32 and 64 bits per dimension, with the cached number of elements. Locale
    \<open>size_vector\<close>: a vector of sizes that grows at its end, interpreted by the shape.
  \<^item> \<open>Tensor_Slice\<close>, \<open>Tensor_Slice_Set\<close> (\<open>framework/tensor_slice.cc\<close>, \<open>.h\<close>, \<open>util/tensor_slice_set.cc\<close>):
    slices as boxes, their text and protocol buffer, and the sets of slices of a checkpoint with
    their queries.
  \<^item> \<open>Checkpoint_Key\<close> (\<open>util/saved_tensor_slice_util.cc\<close>): keys of slices in a checkpoint table, on
    the interfaces of \<open>Ordered_Code\<close>, and the text form of a shape and a slice.
  \<^item> \<open>Cancel_Manager\<close>, \<open>Fifo_Queue\<close>, \<open>Queue_Threads\<close> (\<open>framework/cancellation.cc\<close>,
    \<open>kernels/queue_base.cc\<close>, \<open>typed_queue.h\<close>, \<open>fifo_queue.cc\<close>): cancellation managers; the queue with
    its waiting attempts; and the threads that call both, interleaved at the scopes of the mutexes
    by an inductive step relation. Locale \<open>attempt_runs\<close>: what one kind of attempts promises to
    the loop that runs them, interpreted for enqueues and dequeues.
  \<^item> \<open>Edge_Set\<close> (\<open>graph/edgeset.cc\<close>, \<open>.h\<close>): the set of the edges at a node, an array that becomes a tree.
    Locale \<open>pointer_set\<close>: what the graph relies on.
  \<^item> \<open>Op_Graph\<close>, \<open>Graph_Inv\<close>, \<open>Graph_Spec\<close> (\<open>graph/graph.cc\<close>, \<open>.h\<close>): the graph of operations, with nodes and
    edges at addresses that are reused. \<open>Op_Graph\<close> holds the definitions, \<open>Graph_Inv\<close> the invariant and the
    contract of each operation, \<open>Graph_Spec\<close> the abstract graph by numbers and the graphs that
    clients can build.
  \<^item> \<open>Graph_Search\<close>, \<open>Graph_Algorithm\<close> (\<open>graph/algorithm.cc\<close>): searches, post-orders, pruning and
    completion. Locale \<open>neighbourhood\<close>: a finite numbered neighbourhood, on which the searches are
    proved once; interpreted by the successors and by the predecessors of a node.
  \<^item> \<open>Graph_Def\<close> (\<open>ToGraphDef\<close> of \<open>graph/graph.cc\<close>, \<open>graph/tensor_id.cc\<close>): the protocol buffer form of a graph
    and the names of tensors in it.

  \<^bold>\<open>What is shown.\<close> Round trips (encodings, records, blocks, tables, numbers, escapes, device
  names, rendezvous keys, slices, checkpoint keys), with errors reported for truncated or damaged input; the exact language
  of the parsers of numbers and device names, and that different messages have different keys; equivalence of optimised code with a reference (checksum,
  logarithms, merged broadcasting); refinement of abstract specifications (allocations as a
  map from addresses to blocks, counts as an abstract node, partial shapes, tensor shapes as lists
  of sizes, slices as sets of coordinates, the graph as maps of numbered nodes and edges, composite keys as tuples, merged device names as weakest common specifications); invariants of every reachable state (blocks in use are disjoint and large
  enough, statistics are exact, callbacks are called exactly once, references balance, elements leave a queue in the order they
  came);
  best fit and full coalescing of the allocator; what graph searches visit and in which order, and what pruning keeps; absence of failed checks; termination and
  its failure. The theorems also pin down where the code deviates from its intent: a loop of the
  allocator that never ends, sizes that wrap around in the allocator, the block reader and
  shape multiplication, a dropped error in \<open>set_output\<close>, a file cut inside a record header
  that is reported as its end, a duplicate receive answered before the send, device numbers cut
  to 32 bits, compatible device names reported as incompatible, hexadecimal escapes that
  wrap around, numbers of elements that wrap around and pass validation, the end of a slice that
  overflows, a registration that leaves an empty set behind, keys of scalars that cannot be decoded,
  a negative size that ends the process, a cancelled batch whose elements are lost, a
  cancellation that waits for itself, pruning that keeps nodes the source does not reach, and tensor
  names whose number wraps around.

  \<^bold>\<open>Conventions, bounds and fuel.\<close> A \<open>Status\<close> is \<open>code + 'a\<close> or an optional code; the text of
  messages is left out. Machine integers are words, or numbers with the wrap-around written
  out. Loops are terminating recursive functions; those that may run forever are partial
  functions into \<open>option\<close>, where \<open>None\<close> is not returning, and the theorems prove that they
  return. Fuel occurs only in client loops over records and iterators, where a bound of one
  round per element is proved to be enough. \<open>assert\<close> and \<open>DCHECK\<close> are hypotheses or
  invariants. Blocks are shorter than \<open>2 ^ 32\<close> bytes, files than \<open>2 ^ 63\<close>, and the pairs of one
  table, at 64 bytes each plus their contents, than \<open>2 ^ 31\<close>: the code keeps block offsets
  in 32 bits and file offsets in 64. A graph has fewer than \<open>2 ^ 31\<close> nodes and edges.

  \<^bold>\<open>Not modelled.\<close> Graph construction from protocol buffers and graph rewriting, sessions, placement and the executor's
  thread pools work on protocol buffers and registries; kernels are Eigen and floating point;
  the op registrations are documentation and compositions of shape operations; the distributed
  runtime and the stream executor are wrappers around gRPC and CUDA; zlib, image and platform
  code calls into libraries. Of the modelled parts the following is left out: logging and
  debug strings, memory ownership (destructors and cleanup functions, except the references
  of the rendezvous), the waiting retry of \<open>AllocateRaw\<close>, the parsing constructors of
  the inference context, the blocking \<open>Recv\<close>, numbers in floating point, the buffers of tensors and the copying of their
  data (\<open>TensorSliceSet::Query\<close> with a data pointer, the slices of a batch), the validation of
  tuples and node definitions by queues, and in the graph of operations the registry of ops (a
  parameter), attributes and versions.
\<close>

end
